(* ===== verification/Prelude.thy ===== *)
theory Prelude
  imports Main "HOL-Library.Multiset"
begin

text \<open>
  The machine under the C programs: faults as values, a state-and-fault monad, a memory of
  allocated cells, POSIX mutexes, the stream of \<^verbatim>\<open>printf\<close> calls and checked
  \<^verbatim>\<open>int\<close> arithmetic. Every component of the development extends the record
  \<open>world\<close> with its own global variables.

  A cell is one block obtained from \<^verbatim>\<open>pmalloc\<close> (\<^verbatim>\<open>src/Transform/PM/pm.cpp\<close>,
  \<^verbatim>\<open>__pmc_malloc\<close>, which forwards to \<^verbatim>\<open>malloc\<close>). The C library is
  modelled by what the sources use of it: \<^verbatim>\<open>malloc\<close> returns \<^verbatim>\<open>NULL\<close>
  once \<open>room\<close> is used up and a fresh block with the unspecified contents \<open>junk\<close>
  otherwise, \<^verbatim>\<open>free\<close> releases a block, and every access to \<^verbatim>\<open>NULL\<close>, to a
  released or to a never allocated address is a fault.
\<close>

section \<open>Faults and the execution monad\<close>

datatype fault =
    NullDeref
  | InvalidPtr
  | BadFree
  | IndexRange
  | SignedOverflow
  | MutexDeadlock
  | MutexInvalid
  | Diverges
  | ExitFailure
  | UndefinedShift
  | BadConversion
  | DivisionByZero

type_synonym ptr = nat

abbreviation NULL :: ptr where
  "NULL \<equiv> 0"

type_synonym ('s, 'a) exec = "'s \<Rightarrow> fault + 'a \<times> 's"

definition ret :: "'a \<Rightarrow> ('s, 'a) exec" where
  "ret a = (\<lambda>s. Inr (a, s))"

definition raise :: "fault \<Rightarrow> ('s, 'a) exec" where
  "raise e = (\<lambda>s. Inl e)"

definition bnd :: "('s, 'a) exec \<Rightarrow> ('a \<Rightarrow> ('s, 'b) exec) \<Rightarrow> ('s, 'b) exec" where
  "bnd m f = (\<lambda>s. case m s of Inl e \<Rightarrow> Inl e | Inr (a, s') \<Rightarrow> f a s')"

definition seq :: "('s, 'a) exec \<Rightarrow> ('s, 'b) exec \<Rightarrow> ('s, 'b) exec" where
  "seq m k = bnd m (\<lambda>_. k)"

definition gets :: "('s \<Rightarrow> 'a) \<Rightarrow> ('s, 'a) exec" where
  "gets f = (\<lambda>s. Inr (f s, s))"

definition modify :: "('s \<Rightarrow> 's) \<Rightarrow> ('s, unit) exec" where
  "modify f = (\<lambda>s. Inr ((), f s))"

named_theorems exec_simps
  "one-step evaluation of the execution monad and of the primitives of the machine"

lemma ret_apply [exec_simps]: "ret a s = Inr (a, s)"
  by (simp add: ret_def)

lemma raise_apply [exec_simps]: "raise e s = Inl e"
  by (simp add: raise_def)

lemma gets_apply [exec_simps]: "gets f s = Inr (f s, s)"
  by (simp add: gets_def)

lemma modify_apply [exec_simps]: "modify f s = Inr ((), f s)"
  by (simp add: modify_def)

lemma bnd_Inr: "m s = Inr (a, s') \<Longrightarrow> bnd m f s = f a s'"
  by (simp add: bnd_def)

lemma bnd_Inl: "m s = Inl e \<Longrightarrow> bnd m f s = Inl e"
  by (simp add: bnd_def)

lemma seq_Inr: "m s = Inr (a, s') \<Longrightarrow> seq m k s = k s'"
  by (simp add: seq_def bnd_def)

lemma seq_Inl: "m s = Inl e \<Longrightarrow> seq m k s = Inl e"
  by (simp add: seq_def bnd_def)

lemma bnd_pure [exec_simps]:
  "bnd (gets g) f s = f (g s) s"
  "bnd (ret a) f s = f a s"
  by (simp_all add: bnd_def gets_def ret_def)

lemmas exec_steps [exec_simps] = bnd_Inr bnd_Inl seq_Inr seq_Inl

lemma bnd_Inr_iff: "bnd m f s = Inr (b, s'') \<longleftrightarrow> (\<exists>a s'. m s = Inr (a, s') \<and> f a s' = Inr (b, s''))"
  by (auto simp: bnd_def split: sum.splits)

lemma seq_Inr_iff: "seq m k s = Inr (b, s'') \<longleftrightarrow> (\<exists>a s'. m s = Inr (a, s') \<and> k s' = Inr (b, s''))"
  by (auto simp: seq_def bnd_Inr_iff)

lemma bnd_if: "bnd (if b then m else m') f s = (if b then bnd m f s else bnd m' f s)"
  by simp

text \<open>\<open>for_each xs f\<close> is a counted loop whose index runs through the list \<open>xs\<close>.\<close>

primrec for_each :: "'a list \<Rightarrow> ('a \<Rightarrow> ('s, unit) exec) \<Rightarrow> ('s, unit) exec" where
  "for_each [] f = ret ()"
| "for_each (x # xs) f = seq (f x) (for_each xs f)"

lemma for_each_append: "for_each (xs @ ys) f s = seq (for_each xs f) (for_each ys f) s"
proof (induction xs arbitrary: s)
  case Nil
  then show ?case by (simp add: exec_simps)
next
  case (Cons x xs)
  then show ?case by (auto simp: seq_def bnd_def split: sum.splits)
qed

text \<open>The rule for counted loops: an invariant indexed by the part of the list already done.\<close>

lemma for_each_rule:
  assumes "I [] s"
    and "\<And>ys x zs s. xs = ys @ x # zs \<Longrightarrow> I ys s \<Longrightarrow> \<exists>s'. f x s = Inr ((), s') \<and> I (ys @ [x]) s'"
  shows "\<exists>s'. for_each xs f s = Inr ((), s') \<and> I xs s'"
proof -
  have "\<exists>s'. for_each zs f s = Inr ((), s') \<and> I xs s'" if "xs = ys @ zs" "I ys s" for ys zs s
    using that
  proof (induction zs arbitrary: ys s)
    case Nil
    then show ?case by (simp add: exec_simps)
  next
    case (Cons z zs)
    from assms(2)[OF Cons.prems] obtain s1 where s1: "f z s = Inr ((), s1)" "I (ys @ [z]) s1"
      by blast
    from Cons.IH[of "ys @ [z]" s1] Cons.prems(1) s1(2)
    obtain s' where "for_each zs f s1 = Inr ((), s')" "I xs s'" by auto
    with s1(1) show ?case by (simp add: exec_simps)
  qed
  from this[of "[]" xs s] assms(1) show ?thesis by simp
qed

text \<open>\<open>collect k m\<close> calls \<open>m\<close> \<open>k\<close> times and returns the results in order.\<close>

primrec collect :: "nat \<Rightarrow> ('s, 'a) exec \<Rightarrow> ('s, 'a list) exec" where
  "collect 0 m = ret []"
| "collect (Suc k) m = bnd m (\<lambda>a. bnd (collect k m) (\<lambda>as. ret (a # as)))"

section \<open>C integers\<close>

text \<open>
  \<^verbatim>\<open>int\<close> is a 32-bit two's complement integer whose overflow is undefined: the
  arithmetic of the sources is checked and faults where C leaves the result undefined.
\<close>

definition INT_MAX :: int where
  "INT_MAX = 2147483647"

definition INT_MIN :: int where
  "INT_MIN = - 2147483648"

definition int_range :: "int \<Rightarrow> bool" where
  "int_range i \<longleftrightarrow> INT_MIN \<le> i \<and> i \<le> INT_MAX"

definition cint :: "int \<Rightarrow> ('s, int) exec" where
  "cint i = (if int_range i then ret i else raise SignedOverflow)"

lemma cint_ok [exec_simps]: "int_range i \<Longrightarrow> cint i s = Inr (i, s)"
  by (simp add: cint_def ret_def)

lemma cint_overflow: "\<not> int_range i \<Longrightarrow> cint i s = Inl SignedOverflow"
  by (simp add: cint_def raise_def)

text \<open>The remainder \<^verbatim>\<open>a % b\<close> of C for positive \<open>b\<close>: it has the sign of \<open>a\<close>.\<close>

definition crem :: "int \<Rightarrow> int \<Rightarrow> int" where
  "crem a b = (if 0 \<le> a then a mod b else - ((- a) mod b))"

text \<open>Two adjacent ranges are one.\<close>

lemma upto_join: "m' = m + 1 \<Longrightarrow> i \<le> m \<Longrightarrow> m \<le> k \<Longrightarrow> [i..m] @ [m'..k] = [i..k]"
  by (metis upto_split2)

lemmas int_range_defs = int_range_def INT_MAX_def INT_MIN_def

section \<open>Memory, mutexes and output\<close>

datatype mutex = Uninit | Free | Held | Destroyed

record 'n world =
  cells :: "ptr \<rightharpoonup> 'n"
  fresh :: ptr
  room :: nat
  junk :: 'n
  locks :: "nat \<Rightarrow> mutex"
  out :: "(string \<times> int list) list"

text \<open>The memory before \<^verbatim>\<open>main\<close> starts, able to serve \<open>r\<close> allocations.\<close>

definition boot :: "nat \<Rightarrow> 'n \<Rightarrow> 'n world" where
  "boot r j = \<lparr>cells = Map.empty, fresh = 1, room = r, junk = j, locks = (\<lambda>_. Uninit), out = []\<rparr>"

definition wf_world :: "('n, 'z) world_scheme \<Rightarrow> bool" where
  "wf_world s \<longleftrightarrow> 0 < fresh s \<and> cells s 0 = None \<and> (\<forall>p. fresh s \<le> p \<longrightarrow> cells s p = None)"

definition pmalloc :: "(('n, 'z) world_scheme, ptr) exec" where
  "pmalloc s =
     (if room s = 0 then Inr (NULL, s)
      else Inr (fresh s, s\<lparr>cells := (cells s)(fresh s \<mapsto> junk s), fresh := Suc (fresh s),
                          room := room s - 1\<rparr>))"

text \<open>
  An object whose fields are variables of the state: \<open>True\<close> when memory was available.
\<close>

definition pmalloc_object :: "(('n, 'z) world_scheme, bool) exec" where
  "pmalloc_object s = (if room s = 0 then Inr (False, s) else Inr (True, s\<lparr>room := room s - 1\<rparr>))"

definition free :: "ptr \<Rightarrow> (('n, 'z) world_scheme, unit) exec" where
  "free p s =
     (if p = NULL then Inr ((), s)
      else if cells s p = None then Inl BadFree
      else Inr ((), s\<lparr>cells := (cells s)(p := None), room := Suc (room s)\<rparr>))"

definition deref :: "ptr \<Rightarrow> (('n, 'z) world_scheme, 'n) exec" where
  "deref p s =
     (if p = NULL then Inl NullDeref
      else case cells s p of None \<Rightarrow> Inl InvalidPtr | Some n \<Rightarrow> Inr (n, s))"

definition assign :: "ptr \<Rightarrow> ('n \<Rightarrow> 'n) \<Rightarrow> (('n, 'z) world_scheme, unit) exec" where
  "assign p f s =
     (if p = NULL then Inl NullDeref
      else case cells s p of None \<Rightarrow> Inl InvalidPtr
           | Some n \<Rightarrow> Inr ((), s\<lparr>cells := (cells s)(p \<mapsto> f n)\<rparr>))"

definition printf :: "string \<Rightarrow> int list \<Rightarrow> (('n, 'z) world_scheme, unit) exec" where
  "printf fmt args s = Inr ((), s\<lparr>out := out s @ [(fmt, args)]\<rparr>)"

definition pthread_mutex_init :: "nat \<Rightarrow> (('n, 'z) world_scheme, unit) exec" where
  "pthread_mutex_init l s =
     (if locks s l = Free \<or> locks s l = Held then Inl MutexInvalid
      else Inr ((), s\<lparr>locks := (locks s)(l := Free)\<rparr>))"

definition pthread_mutex_lock :: "nat \<Rightarrow> (('n, 'z) world_scheme, unit) exec" where
  "pthread_mutex_lock l s =
     (case locks s l of
        Free \<Rightarrow> Inr ((), s\<lparr>locks := (locks s)(l := Held)\<rparr>)
      | Held \<Rightarrow> Inl MutexDeadlock
      | _ \<Rightarrow> Inl MutexInvalid)"

definition pthread_mutex_unlock :: "nat \<Rightarrow> (('n, 'z) world_scheme, unit) exec" where
  "pthread_mutex_unlock l s =
     (if locks s l = Held then Inr ((), s\<lparr>locks := (locks s)(l := Free)\<rparr>) else Inl MutexInvalid)"

definition pthread_mutex_destroy :: "nat \<Rightarrow> (('n, 'z) world_scheme, unit) exec" where
  "pthread_mutex_destroy l s =
     (if locks s l = Free then Inr ((), s\<lparr>locks := (locks s)(l := Destroyed)\<rparr>) else Inl MutexInvalid)"

text \<open>Evaluation of the primitives on the branches the components reach.\<close>

lemma pmalloc_ok [exec_simps]:
  "0 < room s \<Longrightarrow> pmalloc s = Inr (fresh s, s\<lparr>cells := (cells s)(fresh s \<mapsto> junk s),
     fresh := Suc (fresh s), room := room s - 1\<rparr>)"
  by (simp add: pmalloc_def)

lemma pmalloc_fail [exec_simps]: "room s = 0 \<Longrightarrow> pmalloc s = Inr (NULL, s)"
  by (simp add: pmalloc_def)

lemma pmalloc_object_simps [exec_simps]:
  "room s = 0 \<Longrightarrow> pmalloc_object s = Inr (False, s)"
  "0 < room s \<Longrightarrow> pmalloc_object s = Inr (True, s\<lparr>room := room s - 1\<rparr>)"
  by (simp_all add: pmalloc_object_def)

lemma free_ok [exec_simps]:
  "p \<noteq> NULL \<Longrightarrow> cells s p = Some n \<Longrightarrow>
   free p s = Inr ((), s\<lparr>cells := (cells s)(p := None), room := Suc (room s)\<rparr>)"
  by (simp add: free_def)

lemma deref_ok [exec_simps]: "p \<noteq> NULL \<Longrightarrow> cells s p = Some n \<Longrightarrow> deref p s = Inr (n, s)"
  by (simp add: deref_def)

lemma deref_null [exec_simps]: "deref NULL s = Inl NullDeref"
  by (simp add: deref_def)

lemma assign_ok [exec_simps]:
  "p \<noteq> NULL \<Longrightarrow> cells s p = Some n \<Longrightarrow> assign p f s = Inr ((), s\<lparr>cells := (cells s)(p \<mapsto> f n)\<rparr>)"
  by (simp add: assign_def)

lemma assign_null [exec_simps]: "assign NULL f s = Inl NullDeref"
  by (simp add: assign_def)

lemma printf_ok [exec_simps]: "printf fmt args s = Inr ((), s\<lparr>out := out s @ [(fmt, args)]\<rparr>)"
  by (simp add: printf_def)

lemma mutex_init_ok [exec_simps]:
  "locks s l = Uninit \<Longrightarrow> pthread_mutex_init l s = Inr ((), s\<lparr>locks := (locks s)(l := Free)\<rparr>)"
  by (simp add: pthread_mutex_init_def)

lemma mutex_lock_ok [exec_simps]:
  "locks s l = Free \<Longrightarrow> pthread_mutex_lock l s = Inr ((), s\<lparr>locks := (locks s)(l := Held)\<rparr>)"
  by (simp add: pthread_mutex_lock_def)

lemma mutex_lock_held [exec_simps]: "locks s l = Held \<Longrightarrow> pthread_mutex_lock l s = Inl MutexDeadlock"
  by (simp add: pthread_mutex_lock_def)

lemma mutex_unlock_ok [exec_simps]:
  "locks s l = Held \<Longrightarrow> pthread_mutex_unlock l s = Inr ((), s\<lparr>locks := (locks s)(l := Free)\<rparr>)"
  by (simp add: pthread_mutex_unlock_def)

lemma mutex_destroy_ok [exec_simps]:
  "locks s l = Free \<Longrightarrow> pthread_mutex_destroy l s = Inr ((), s\<lparr>locks := (locks s)(l := Destroyed)\<rparr>)"
  by (simp add: pthread_mutex_destroy_def)

text \<open>A pointwise description of an update is folded back into the update.\<close>

lemma fold_upd [simp]: "(\<lambda>b. if b = a then v else h b) = h(a := v)"
  by (simp add: fun_eq_iff)

text \<open>Releasing the mutex a function took restores the lock table.\<close>

lemma locks_release [simp]: "locks s l = Free \<Longrightarrow> (locks s)(l := Free) = locks s"
  by auto

lemma wf_world_fresh [simp, dest]: "wf_world s \<Longrightarrow> fresh s \<noteq> 0"
  by (simp add: wf_world_def)

lemma wf_world_fresh_cell [simp]: "wf_world s \<Longrightarrow> cells s (fresh s) = None"
  by (simp add: wf_world_def)

lemma wf_world_null [simp]: "wf_world s \<Longrightarrow> cells s 0 = None"
  by (simp add: wf_world_def)

lemma wf_boot [simp]: "wf_world (boot r j)"
  by (simp add: wf_world_def boot_def)

lemma wf_world_dom: "wf_world s \<Longrightarrow> cells s p = Some n \<Longrightarrow> 0 < p \<and> p < fresh s"
  by (metis leI less_numeral_extra(3) neq0_conv option.simps(3) wf_world_def)

text \<open>How the well-formedness of memory survives allocation, update and release.\<close>

lemma wf_world_alloc:
  "wf_world s \<Longrightarrow> cells s' = (cells s)(fresh s \<mapsto> n) \<Longrightarrow> fresh s' = Suc (fresh s) \<Longrightarrow> wf_world s'"
  by (auto simp: wf_world_def)

lemma wf_world_upd:
  "wf_world s \<Longrightarrow> p \<in> dom (cells s) \<Longrightarrow> cells s' = (cells s)(p := v) \<Longrightarrow> fresh s' = fresh s \<Longrightarrow> wf_world s'"
  using wf_world_dom[of s p] by (auto simp: wf_world_def)

lemma wf_world_update [simp]:
  "wf_world (locks_update f s) = wf_world s"
  "wf_world (out_update g s) = wf_world s"
  "wf_world (room_update h s) = wf_world s"
  by (simp_all add: wf_world_def)

lemma wf_world_cong: "cells s' = cells s \<Longrightarrow> fresh s' = fresh s \<Longrightarrow> wf_world s' = wf_world s"
  by (simp add: wf_world_def)

end
