(* ===== verification/Chains.thy ===== *)
theory Chains
  imports Prelude
begin

text \<open>
  Singly linked lists in the memory of the machine, over any node type with a successor field.
  \<open>chain\<close> relates a pointer to the nodes it leads to; \<open>owns\<close> adds the
  frame: which cells are allocated beside the nodes of the list and what they hold. An operation
  proved against \<open>owns\<close> leaves the frame alone, leaks no node and aliases none. The loops that the ThreadTrove sources share (search with a trailing pointer, look
  ahead, traversal, release of all nodes, reversal) are defined once here and instantiated by the
  components; each runs at most \<open>Suc (fresh s)\<close> times. A list walk that revisits a node
  never ends, and one that does not passes fewer than \<open>fresh s\<close> nodes, so a walk which
  exhausts this bound is exactly one that diverges.
\<close>

section \<open>Chains of nodes\<close>

primrec chain :: "('n \<Rightarrow> ptr) \<Rightarrow> (ptr \<rightharpoonup> 'n) \<Rightarrow> ptr \<Rightarrow> (ptr \<times> 'n) list \<Rightarrow> ptr \<Rightarrow> bool" where
  "chain nx h p [] q \<longleftrightarrow> p = q"
| "chain nx h p (x # xs) q \<longleftrightarrow>
     fst x = p \<and> p \<noteq> NULL \<and> h p = Some (snd x) \<and> chain nx h (nx (snd x)) xs q"

definition addrs :: "(ptr \<times> 'n) list \<Rightarrow> ptr set" where
  "addrs xs = fst ` set xs"

definition owns :: "('n \<Rightarrow> ptr) \<Rightarrow> ('n, 'z) world_scheme \<Rightarrow> ptr \<Rightarrow> (ptr \<times> 'n) list \<Rightarrow> (ptr \<rightharpoonup> 'n) \<Rightarrow> bool" where
  "owns nx s p xs F \<longleftrightarrow> wf_world s \<and> chain nx (cells s) p xs NULL \<and>
     (\<forall>q. q \<notin> addrs xs \<longrightarrow> cells s q = F q) \<and> (\<forall>q \<in> addrs xs. F q = None)"

text \<open>The first node of a chain, and the last one with a default for the empty chain.\<close>

definition first_ptr :: "(ptr \<times> 'n) list \<Rightarrow> ptr" where
  "first_ptr xs = (case xs of [] \<Rightarrow> NULL | x # _ \<Rightarrow> fst x)"

definition last_ptr :: "ptr \<Rightarrow> (ptr \<times> 'n) list \<Rightarrow> ptr" where
  "last_ptr d xs = (if xs = [] then d else fst (last xs))"

lemma addrs_simps [simp]:
  "addrs [] = {}"
  "addrs (x # xs) = insert (fst x) (addrs xs)"
  "addrs (xs @ ys) = addrs xs \<union> addrs ys"
  "addrs (rev xs) = addrs xs"
  by (auto simp: addrs_def)

lemma first_ptr_simps [simp]: "first_ptr [] = NULL" "first_ptr (x # xs) = fst x"
  by (simp_all add: first_ptr_def)

lemma last_ptr_simps [simp]: "last_ptr d [] = d" "last_ptr d (x # xs) = last_ptr (fst x) xs"
  "last_ptr d (xs @ [x]) = fst x"
  by (auto simp: last_ptr_def)

lemma map_snd_ConsE:
  assumes "v # vs = map (\<lambda>x. f (snd x)) xs"
  obtains p n ys where "xs = (p, n) # ys" "v = f n" "vs = map (\<lambda>x. f (snd x)) ys"
  using assms by (cases xs) auto

lemma finite_addrs [simp]: "finite (addrs xs)"
  by (simp add: addrs_def)

lemma chain_first: "chain nx h p xs NULL \<Longrightarrow> p = first_ptr xs"
  by (cases xs) auto

lemma chain_null [simp]: "chain nx h NULL xs q \<longleftrightarrow> xs = [] \<and> q = NULL"
  by (cases xs) auto

lemma chain_append [simp]:
  "chain nx h p (xs @ ys) q \<longleftrightarrow> (\<exists>r. chain nx h p xs r \<and> chain nx h r ys q)"
  by (induction xs arbitrary: p) auto

lemma chain_upd_other [simp]: "a \<notin> addrs xs \<Longrightarrow> chain nx (h(a := v)) p xs q = chain nx h p xs q"
  by (induction xs arbitrary: p) auto

lemma chain_mem: "chain nx h p xs q \<Longrightarrow> x \<in> set xs \<Longrightarrow> h (fst x) = Some (snd x) \<and> fst x \<noteq> NULL"
  by (induction xs arbitrary: p) auto

lemma chain_addrs_dom: "chain nx h p xs q \<Longrightarrow> addrs xs \<subseteq> dom h"
  using chain_mem[of nx h p xs q] by (auto simp: addrs_def)

lemma chain_unique: "chain nx h p xs NULL \<Longrightarrow> chain nx h p ys NULL \<Longrightarrow> xs = ys"
proof (induction xs arbitrary: p ys)
  case Nil
  then show ?case by simp
next
  case (Cons x xs)
  then obtain y ys' where ys: "ys = y # ys'" by (cases ys) auto
  with Cons.prems have "snd y = snd x" "fst y = fst x" "chain nx h (nx (snd x)) ys' NULL" by auto
  with Cons ys show ?case by (auto simp: prod_eq_iff)
qed

lemma chain_fst_notin_tail: "chain nx h p (x # xs) NULL \<Longrightarrow> fst x \<notin> addrs xs"
proof
  assume c: "chain nx h p (x # xs) NULL" and "fst x \<in> addrs xs"
  then obtain y us vs where xs: "xs = us @ y # vs" and y: "fst y = fst x"
    by (auto simp: addrs_def dest!: split_list)
  from c xs have "chain nx h (fst y) (y # vs) NULL" by auto
  with y c have "y # vs = x # xs" by (metis chain.simps(2) chain_unique)
  with xs show False by auto
qed

lemma chain_distinct: "chain nx h p xs NULL \<Longrightarrow> distinct (map fst xs)"
proof (induction xs arbitrary: p)
  case Nil
  then show ?case by simp
next
  case (Cons x xs)
  from chain_fst_notin_tail[OF Cons.prems] Cons show ?case by (auto simp: addrs_def)
qed

lemma distinct_addrs_append:
  "distinct (map fst (us @ x # vs)) \<Longrightarrow> fst x \<notin> addrs us \<and> fst x \<notin> addrs vs \<and> addrs us \<inter> addrs vs = {}"
  by (auto simp: addrs_def)

lemma chain_bound:
  assumes "wf_world s" "chain nx (cells s) p xs NULL"
  shows "length xs < fresh s"
proof -
  have "addrs xs \<subseteq> {0<..<fresh s}"
    using chain_addrs_dom[OF assms(2)] wf_world_dom[OF assms(1)] by auto
  then have "card (addrs xs) \<le> card {0<..<fresh s}" by (intro card_mono) auto
  moreover have "card (addrs xs) = length xs"
    using distinct_card[OF chain_distinct[OF assms(2)]] by (simp add: addrs_def)
  ultimately show ?thesis using assms(1) wf_world_fresh[OF assms(1)] by auto
qed

lemma owns_chain: "owns nx s p xs F \<Longrightarrow> chain nx (cells s) p xs NULL"
  by (simp add: owns_def)

lemma owns_wf: "owns nx s p xs F \<Longrightarrow> wf_world s"
  by (simp add: owns_def)

lemma owns_Cons: "owns nx s p (x # xs) F \<Longrightarrow> fst x = p \<and> p \<noteq> NULL \<and> cells s p = Some (snd x)"
  by (auto simp: owns_def)

lemma owns_mem: "owns nx s p (us @ (a, n) # vs) F \<Longrightarrow> a \<noteq> NULL \<and> cells s a = Some n"
  by (auto simp: owns_def)

lemma owns_null_iff: "owns nx s p xs F \<Longrightarrow> p = NULL \<longleftrightarrow> xs = []"
  by (cases xs) (auto simp: owns_def)

lemma owns_first: "owns nx s p xs F \<Longrightarrow> p = first_ptr xs"
  by (rule chain_first[OF owns_chain])

lemma owns_bound: "owns nx s p xs F \<Longrightarrow> length xs < fresh s"
  by (meson chain_bound owns_def)

lemma owns_Nil [simp]: "owns nx s p [] F \<longleftrightarrow> p = NULL \<and> wf_world s \<and> cells s = F"
  by (auto simp: owns_def)

lemma owns_fresh: "owns nx s p xs F \<Longrightarrow> fresh s \<notin> addrs xs \<and> F (fresh s) = None"
  by (metis chain_addrs_dom domIff in_mono owns_def wf_world_fresh_cell)

lemma owns_frame: "owns nx s p xs F \<Longrightarrow> F a = Some n \<Longrightarrow> a \<noteq> NULL \<and> a \<notin> addrs xs \<and> cells s a = Some n"
  by (metis option.simps(3) owns_def wf_world_null)

text \<open>Only memory matters: locks, output and the fields of the extensions do not.\<close>

lemma owns_cong:
  "cells s' = cells s \<Longrightarrow> fresh s' = fresh s \<Longrightarrow> owns nx s' p xs F = owns nx s p xs F"
  by (simp add: owns_def wf_world_def)

lemma owns_world [simp]:
  "owns nx (locks_update f s) p xs F = owns nx s p xs F"
  "owns nx (out_update g s) p xs F = owns nx s p xs F"
  "owns nx (room_update h s) p xs F = owns nx s p xs F"
  by (simp_all add: owns_def wf_world_def)

text \<open>Allocation, assignment and release in the frame.\<close>

lemma owns_alloc:
  assumes "owns nx s p xs F" and "cells s' = (cells s)(fresh s \<mapsto> n)" and "fresh s' = Suc (fresh s)"
  shows "owns nx s' p xs (F(fresh s \<mapsto> n))"
proof -
  have "wf_world s'" using assms wf_world_alloc[of s s' n] by (simp add: owns_def)
  with assms owns_fresh[OF assms(1)] show ?thesis by (auto simp: owns_def)
qed

lemma owns_frame_upd:
  assumes "owns nx s p xs F" and "F a = Some n" and "cells s' = (cells s)(a := v)" and "fresh s' = fresh s"
  shows "owns nx s' p xs (F(a := v))"
proof -
  from owns_frame[OF assms(1,2)] have a: "a \<notin> addrs xs" "cells s a = Some n" by auto
  then have "wf_world s'" using assms wf_world_upd[of s a s' v] by (simp add: owns_def domI)
  with assms a show ?thesis by (auto simp: owns_def)
qed

text \<open>Ghost moves: a node of the frame becomes the first node of the list, and back.\<close>

lemma owns_link_front:
  "owns nx s p xs F \<Longrightarrow> F a = Some n \<Longrightarrow> nx n = p \<Longrightarrow> owns nx s a ((a, n) # xs) (F(a := None))"
  using owns_frame[of nx s p xs F a n] by (auto simp: owns_def)

lemma owns_unlink_front:
  assumes "owns nx s p ((a, n) # xs) F"
  shows "owns nx s (nx n) xs (F(a \<mapsto> n))"
  using assms chain_fst_notin_tail[OF owns_chain[OF assms]] by (auto simp: owns_def)

section \<open>Several chains side by side\<close>

text \<open>
  \<open>forest nx hs n s xss F\<close>: the pointers \<open>hs 0, ..., hs (n - 1)\<close> lead to the
  disjoint chains \<open>xss 0, ..., xss (n - 1)\<close>, and \<open>F\<close> is the memory beside them. One chain
  sees the others as part of its own frame, so what is proved about a single list applies to it.
\<close>

definition forest :: "('n \<Rightarrow> ptr) \<Rightarrow> (nat \<Rightarrow> ptr) \<Rightarrow> nat \<Rightarrow> ('n, 'z) world_scheme \<Rightarrow>
    (nat \<Rightarrow> (ptr \<times> 'n) list) \<Rightarrow> (ptr \<rightharpoonup> 'n) \<Rightarrow> bool" where
  "forest nx hs n s xss F \<longleftrightarrow> wf_world s \<and>
     (\<forall>i<n. chain nx (cells s) (hs i) (xss i) NULL) \<and>
     (\<forall>i<n. \<forall>j<n. i \<noteq> j \<longrightarrow> addrs (xss i) \<inter> addrs (xss j) = {}) \<and>
     (\<forall>q. (\<forall>i<n. q \<notin> addrs (xss i)) \<longrightarrow> cells s q = F q) \<and>
     (\<forall>i<n. \<forall>q\<in>addrs (xss i). F q = None)"

abbreviation beside :: "('n, 'z) world_scheme \<Rightarrow> (ptr \<times> 'n) list \<Rightarrow> (ptr \<rightharpoonup> 'n)" where
  "beside s xs \<equiv> cells s |` (- addrs xs)"

lemma forest_owns: "forest nx hs n s xss F \<Longrightarrow> i < n \<Longrightarrow> owns nx s (hs i) (xss i) (beside s (xss i))"
  by (auto simp: forest_def owns_def restrict_map_def)

lemma forest_wf: "forest nx hs n s xss F \<Longrightarrow> wf_world s"
  by (simp add: forest_def)

lemma forest_cong:
  "cells s' = cells s \<Longrightarrow> fresh s' = fresh s \<Longrightarrow> forest nx hs n s' xss F = forest nx hs n s xss F"
  by (simp add: forest_def wf_world_def)

lemma forest_hd_cong:
  "(\<And>i. i < n \<Longrightarrow> hs' i = hs i) \<Longrightarrow> forest nx hs' n s xss F = forest nx hs n s xss F"
  by (simp add: forest_def)

text \<open>Replacing one chain, and one cell of the frame with it: a node that leaves the chain for the
  frame or comes from there.\<close>

lemma forest_update_at:
  assumes f: "forest nx hs n s xss F" and "i < n" and o: "owns nx s' p xs ((beside s (xss i))(a := v))"
    and a: "\<And>j. j < n \<Longrightarrow> j \<noteq> i \<Longrightarrow> a \<notin> addrs (xss j)"
  shows "forest nx (hs(i := p)) n s' (xss(i := xs)) (F(a := v))"
proof -
  let ?B = "(beside s (xss i))(a := v)"
  have other: "?B q = cells s q \<and> q \<notin> addrs xs \<and> cells s' q = cells s q" if "j < n" "j \<noteq> i" "q \<in> addrs (xss j)" for j q
  proof -
    have "q \<notin> addrs (xss i)" using f that \<open>i < n\<close> by (auto simp: forest_def)
    moreover have "q \<noteq> a" using a that by auto
    ultimately have B: "?B q = cells s q" by (simp add: restrict_map_def)
    moreover have "cells s q \<noteq> None"
      using f that chain_addrs_dom[of nx "cells s" "hs j" "xss j" NULL] by (auto simp: forest_def)
    ultimately have "q \<notin> addrs xs" using o by (auto simp: owns_def)
    with B o show ?thesis by (auto simp: owns_def)
  qed
  have chains: "chain nx (cells s') ((hs(i := p)) j) ((xss(i := xs)) j) NULL" if "j < n" for j
  proof (cases "j = i")
    case True
    with o show ?thesis by (simp add: owns_def)
  next
    case False
    have "chain nx h r ys NULL \<Longrightarrow> (\<And>q. q \<in> addrs ys \<Longrightarrow> h' q = h q) \<Longrightarrow> chain nx h' r ys NULL" for h h' r ys
      by (induction ys arbitrary: r) auto
    with f that False other[of j] show ?thesis by (auto simp: forest_def)
  qed
  have dis: "addrs ((xss(i := xs)) j) \<inter> addrs ((xss(i := xs)) k) = {}" if "j < n" "k < n" "j \<noteq> k" for j k
    using f that other[of j] other[of k] by (auto simp: forest_def)
  have B: "?B q = (F(a := v)) q" if "\<And>j. j < n \<Longrightarrow> j \<noteq> i \<Longrightarrow> q \<notin> addrs (xss j)" for q
  proof (cases "q = a \<or> q \<in> addrs (xss i)")
    case True
    with f \<open>i < n\<close> show ?thesis by (auto simp: forest_def restrict_map_def)
  next
    case False
    then have "\<forall>j<n. q \<notin> addrs (xss j)" using that by metis
    with f False show ?thesis by (simp add: forest_def restrict_map_def)
  qed
  have "cells s' q = (F(a := v)) q" if q: "\<forall>j<n. q \<notin> addrs ((xss(i := xs)) j)" for q
  proof -
    have "q \<notin> addrs xs" using q \<open>i < n\<close> by auto
    then have "cells s' q = ?B q" using o by (simp add: owns_def)
    also have "?B q = (F(a := v)) q" by (rule B) (use q in \<open>metis fun_upd_apply\<close>)
    finally show ?thesis .
  qed
  moreover have "(F(a := v)) q = None" if "q \<in> addrs xs" for q
  proof -
    have "?B q = (F(a := v)) q" by (rule B) (use other that in blast)
    with that o show ?thesis by (simp add: owns_def del: fun_upd_apply)
  qed
  moreover have "wf_world s'" using o by (simp add: owns_def)
  moreover have "(F(a := v)) q = None" if "j < n" "j \<noteq> i" "q \<in> addrs (xss j)" for j q
  proof -
    have "q \<noteq> a" using a that by auto
    with f that show ?thesis by (auto simp: forest_def)
  qed
  ultimately show ?thesis using chains dis unfolding forest_def by (auto simp del: fun_upd_apply split: if_splits) (metis fun_upd_apply)+
qed

lemma forest_update:
  assumes f: "forest nx hs n s xss F" and "i < n" and o: "owns nx s' p xs (beside s (xss i))"
  shows "forest nx (hs(i := p)) n s' (xss(i := xs)) F"
proof -
  have null: "NULL \<notin> addrs (xss j)" if "j < n" for j
    using f that chain_mem[of nx "cells s" "hs j" "xss j" NULL] by (force simp: forest_def addrs_def)
  then have F: "F NULL = None"
    using f wf_world_null[of s] by (metis forest_def)
  have "cells s NULL = None"
    using f by (simp add: forest_def)
  then have "(beside s (xss i))(NULL := None) = beside s (xss i)"
    by (auto simp: restrict_map_def)
  then have "forest nx (hs(i := p)) n s' (xss(i := xs)) (F(NULL := None))"
    using o null by (intro forest_update_at[OF f \<open>i < n\<close>]) auto
  then show ?thesis using F by (simp add: fun_upd_idem)
qed

text \<open>A node of some chain.\<close>

lemma forest_mem:
  "forest nx hs n s xss F \<Longrightarrow> i < n \<Longrightarrow> xss i = us @ (a, m) # ws \<Longrightarrow> a \<noteq> NULL \<and> cells s a = Some m"
  using forest_owns[of nx hs n s xss F i] owns_mem[of nx s "hs i" us a m ws "beside s (xss i)"] by simp

section \<open>The loops of the list programs\<close>

text \<open>\<^verbatim>\<open>while (cur != NULL && !stop(cur)) { prev = cur; cur = cur->next; }\<close>\<close>

primrec walk :: "('n \<Rightarrow> ptr) \<Rightarrow> ('n \<Rightarrow> bool) \<Rightarrow> nat \<Rightarrow> ptr \<Rightarrow> ptr \<Rightarrow>
    (('n, 'z) world_scheme, ptr \<times> ptr) exec" where
  "walk nx stop 0 prev cur = raise Diverges"
| "walk nx stop (Suc k) prev cur =
     (if cur = NULL then ret (prev, cur)
      else bnd (deref cur) (\<lambda>n.
           if stop n then ret (prev, cur) else walk nx stop k cur (nx n)))"

definition walk_list :: "('n \<Rightarrow> ptr) \<Rightarrow> ('n \<Rightarrow> bool) \<Rightarrow> ptr \<Rightarrow>
    (('n, 'z) world_scheme, ptr \<times> ptr) exec" where
  "walk_list nx stop cur = bnd (gets fresh) (\<lambda>k. walk nx stop (Suc k) NULL cur)"

text \<open>\<^verbatim>\<open>while (p->next != NULL && !stop(p->next)) p = p->next;\<close>\<close>

primrec ahead :: "('n \<Rightarrow> ptr) \<Rightarrow> ('n \<Rightarrow> bool) \<Rightarrow> nat \<Rightarrow> ptr \<Rightarrow> (('n, 'z) world_scheme, ptr) exec" where
  "ahead nx stop 0 p = raise Diverges"
| "ahead nx stop (Suc k) p =
     bnd (deref p) (\<lambda>n.
     if nx n = NULL then ret p
     else bnd (deref (nx n)) (\<lambda>m.
          if stop m then ret p else ahead nx stop k (nx n)))"

definition walk_ahead :: "('n \<Rightarrow> ptr) \<Rightarrow> ('n \<Rightarrow> bool) \<Rightarrow> ptr \<Rightarrow> (('n, 'z) world_scheme, ptr) exec" where
  "walk_ahead nx stop p = bnd (gets fresh) (\<lambda>k. ahead nx stop (Suc k) p)"

text \<open>\<^verbatim>\<open>while (cur != NULL) { acc = act(cur, acc); cur = cur->next; }\<close>\<close>

primrec visit :: "('n \<Rightarrow> ptr) \<Rightarrow> ('n \<Rightarrow> 'a \<Rightarrow> (('n, 'z) world_scheme, 'a) exec) \<Rightarrow> nat \<Rightarrow> ptr \<Rightarrow> 'a \<Rightarrow>
    (('n, 'z) world_scheme, 'a) exec" where
  "visit nx act 0 cur acc = raise Diverges"
| "visit nx act (Suc k) cur acc =
     (if cur = NULL then ret acc
      else bnd (deref cur) (\<lambda>n. bnd (act n acc) (\<lambda>acc'. visit nx act k (nx n) acc')))"

definition visit_list :: "('n \<Rightarrow> ptr) \<Rightarrow> ('n \<Rightarrow> 'a \<Rightarrow> (('n, 'z) world_scheme, 'a) exec) \<Rightarrow> ptr \<Rightarrow> 'a \<Rightarrow>
    (('n, 'z) world_scheme, 'a) exec" where
  "visit_list nx act cur acc = bnd (gets fresh) (\<lambda>k. visit nx act (Suc k) cur acc)"

text \<open>\<^verbatim>\<open>while (cur != NULL) { temp = cur; cur = cur->next; free(temp); }\<close>\<close>

primrec release :: "('n \<Rightarrow> ptr) \<Rightarrow> nat \<Rightarrow> ptr \<Rightarrow> (('n, 'z) world_scheme, unit) exec" where
  "release nx 0 cur = raise Diverges"
| "release nx (Suc k) cur =
     (if cur = NULL then ret ()
      else bnd (deref cur) (\<lambda>n. seq (free cur) (release nx k (nx n))))"

definition release_list :: "('n \<Rightarrow> ptr) \<Rightarrow> ptr \<Rightarrow> (('n, 'z) world_scheme, unit) exec" where
  "release_list nx cur = bnd (gets fresh) (\<lambda>k. release nx (Suc k) cur)"

text \<open>
  \<^verbatim>\<open>while (cur != NULL) { next = cur->next; cur->next = prev; prev = cur; cur = next; }\<close>
\<close>

primrec turn :: "('n \<Rightarrow> ptr) \<Rightarrow> (ptr \<Rightarrow> 'n \<Rightarrow> 'n) \<Rightarrow> nat \<Rightarrow> ptr \<Rightarrow> ptr \<Rightarrow>
    (('n, 'z) world_scheme, ptr) exec" where
  "turn nx set_nx 0 prev cur = raise Diverges"
| "turn nx set_nx (Suc k) prev cur =
     (if cur = NULL then ret prev
      else bnd (deref cur) (\<lambda>n.
           seq (assign cur (set_nx prev)) (turn nx set_nx k cur (nx n))))"

definition turn_list :: "('n \<Rightarrow> ptr) \<Rightarrow> (ptr \<Rightarrow> 'n \<Rightarrow> 'n) \<Rightarrow> ptr \<Rightarrow> (('n, 'z) world_scheme, ptr) exec" where
  "turn_list nx set_nx cur = bnd (gets fresh) (\<lambda>k. turn nx set_nx (Suc k) NULL cur)"


text \<open>
  \<^verbatim>\<open>while (head != NULL) { temp = head; head = head->next; free(temp); }\<close>, where
  \<^verbatim>\<open>head\<close> is a variable of the program that \<open>get\<close> reads and \<open>put\<close> writes.
\<close>

primrec clear_var :: "('n \<Rightarrow> ptr) \<Rightarrow> (('n, 'z) world_scheme \<Rightarrow> ptr) \<Rightarrow>
    (ptr \<Rightarrow> ('n, 'z) world_scheme \<Rightarrow> ('n, 'z) world_scheme) \<Rightarrow> nat \<Rightarrow> (('n, 'z) world_scheme, unit) exec" where
  "clear_var nx get put 0 = raise Diverges"
| "clear_var nx get put (Suc k) =
     bnd (gets get) (\<lambda>temp.
     if temp = NULL then ret ()
     else
       bnd (deref temp) (\<lambda>n.
       seq (modify (put (nx n)))
       (seq (free temp) (clear_var nx get put k))))"

definition clear_list :: "('n \<Rightarrow> ptr) \<Rightarrow> (('n, 'z) world_scheme \<Rightarrow> ptr) \<Rightarrow>
    (ptr \<Rightarrow> ('n, 'z) world_scheme \<Rightarrow> ('n, 'z) world_scheme) \<Rightarrow> (('n, 'z) world_scheme, unit) exec" where
  "clear_list nx get put = bnd (gets fresh) (\<lambda>k. clear_var nx get put (Suc k))"

section \<open>What the loops compute\<close>

abbreviation skipped :: "('n \<Rightarrow> bool) \<Rightarrow> (ptr \<times> 'n) list \<Rightarrow> (ptr \<times> 'n) list" where
  "skipped stop xs \<equiv> takeWhile (\<lambda>x. \<not> stop (snd x)) xs"

abbreviation rest :: "('n \<Rightarrow> bool) \<Rightarrow> (ptr \<times> 'n) list \<Rightarrow> (ptr \<times> 'n) list" where
  "rest stop xs \<equiv> dropWhile (\<lambda>x. \<not> stop (snd x)) xs"

text \<open>A search either passes the whole list or stops at its first match.\<close>

lemma search_split:
  obtains (absent) "\<forall>x\<in>set xs. \<not> stop (snd x)" "skipped stop xs = xs" "rest stop xs = []"
  | (found) us a n ws where "xs = us @ (a, n) # ws" "skipped stop xs = us" "rest stop xs = (a, n) # ws"
      "stop n" "\<forall>x\<in>set us. \<not> stop (snd x)"
proof (cases "rest stop xs")
  case Nil
  then show thesis by (intro absent) (auto simp: dropWhile_eq_Nil_conv)
next
  case (Cons y ws)
  obtain a n where y: "y = (a, n)" by (cases y)
  have "xs = skipped stop xs @ rest stop xs" by simp
  moreover have "stop n" using hd_dropWhile[of "\<lambda>x. \<not> stop (snd x)" xs] Cons y by simp
  moreover have "\<forall>x\<in>set (skipped stop xs). \<not> stop (snd x)" by (auto dest: set_takeWhileD)
  ultimately show thesis using Cons y by (intro found[of "skipped stop xs" a n ws]) simp_all
qed

lemma walk_spec:
  "chain nx (cells s) p xs NULL \<Longrightarrow> length xs < k \<Longrightarrow>
   walk nx stop k prev p s = Inr ((last_ptr prev (skipped stop xs), first_ptr (rest stop xs)), s)"
proof (induction xs arbitrary: k prev p)
  case Nil
  then show ?case by (cases k) (auto simp: exec_simps)
next
  case (Cons x xs)
  then obtain k' where k: "k = Suc k'" by (cases k) auto
  with Cons show ?case by (auto simp: exec_simps)
qed

lemma walk_list_spec:
  assumes "owns nx s p xs F"
  shows "walk_list nx stop p s = Inr ((last_ptr NULL (skipped stop xs), first_ptr (rest stop xs)), s)"
  using walk_spec[of nx s p xs "Suc (fresh s)" stop NULL] chain_bound[of s nx p xs] assms
  by (simp add: walk_list_def exec_simps owns_def del: walk.simps)

text \<open>A search that a function makes after it took its mutex.\<close>

lemma walk_cases:
  assumes "owns nx s p xs F"
  obtains (absent) "\<forall>x\<in>set xs. \<not> stop (snd x)"
      "\<And>l. walk_list nx stop p (s\<lparr>locks := l\<rparr>) = Inr ((last_ptr NULL xs, NULL), s\<lparr>locks := l\<rparr>)"
  | (found) us a n ws where "xs = us @ (a, n) # ws" "stop n" "\<forall>x\<in>set us. \<not> stop (snd x)"
      "a \<noteq> NULL" "cells s a = Some n"
      "\<And>l. walk_list nx stop p (s\<lparr>locks := l\<rparr>) = Inr ((last_ptr NULL us, a), s\<lparr>locks := l\<rparr>)"
proof (cases rule: search_split[where xs = xs and stop = stop])
  case absent
  have "walk_list nx stop p (s\<lparr>locks := l\<rparr>) = Inr ((last_ptr NULL xs, NULL), s\<lparr>locks := l\<rparr>)" for l
    using walk_list_spec[of nx "s\<lparr>locks := l\<rparr>" p xs F stop] assms unfolding absent(2,3) by simp
  with absent(1) show thesis by (intro that(1)) auto
next
  case (found us a n ws)
  have "walk_list nx stop p (s\<lparr>locks := l\<rparr>) = Inr ((last_ptr NULL us, a), s\<lparr>locks := l\<rparr>)" for l
    using walk_list_spec[of nx "s\<lparr>locks := l\<rparr>" p xs F stop] assms unfolding found(2,3) by simp
  moreover have "a \<noteq> NULL" "cells s a = Some n" using owns_mem[of nx s p us a n ws F] assms found(1) by auto
  ultimately show thesis using found(1,4,5) by (intro that(2)) auto
qed

lemma ahead_spec:
  "chain nx (cells s) p (x # xs) NULL \<Longrightarrow> length xs < k \<Longrightarrow>
   ahead nx stop k p s = Inr (last_ptr p (skipped stop xs), s)"
proof (induction xs arbitrary: k p x)
  case Nil
  then show ?case by (cases k) (auto simp: exec_simps)
next
  case (Cons y xs)
  then obtain k' where k: "k = Suc k'" by (cases k) auto
  have y: "nx (snd x) = fst y" "fst y \<noteq> NULL" "cells s (fst y) = Some (snd y)"
    and x: "p \<noteq> NULL" "cells s p = Some (snd x)"
    using Cons.prems by auto
  have "ahead nx stop k' (fst y) s = Inr (last_ptr (fst y) (skipped stop xs), s)"
    using Cons.prems k by (intro Cons.IH[of "fst y" y]) auto
  with x y k show ?case by (simp add: exec_simps)
qed

lemma walk_ahead_spec:
  assumes "owns nx s p (x # xs) F"
  shows "walk_ahead nx stop p s = Inr (last_ptr p (skipped stop xs), s)"
  using ahead_spec[of nx s p x xs "Suc (fresh s)" stop] chain_bound[of s nx p "x # xs"] assms
  by (simp add: walk_ahead_def exec_simps owns_def del: ahead.simps)

lemma visit_rule:
  assumes "chain nx (cells s) p xs NULL" and "length xs < k"
    and "\<And>n a t. cells (act_state n a t) = cells t"
    and "\<And>x a t. x \<in> set xs \<Longrightarrow> I t a \<Longrightarrow> act (snd x) a t = Inr (act_val (snd x) a, act_state (snd x) a t)
           \<and> I (act_state (snd x) a t) (act_val (snd x) a)"
    and "I s acc"
  shows "visit nx act k p acc s =
     (let r = fold (\<lambda>x (a, t). (act_val (snd x) a, act_state (snd x) a t)) xs (acc, s) in Inr r)"
  using assms(1,2,4,5)
proof (induction xs arbitrary: k p acc s)
  case Nil
  then show ?case by (cases k) (auto simp: exec_simps)
next
  case (Cons x xs)
  then obtain k' where k: "k = Suc k'" by (cases k) auto
  from Cons.prems have a: "act (snd x) acc s = Inr (act_val (snd x) acc, act_state (snd x) acc s)"
    "I (act_state (snd x) acc s) (act_val (snd x) acc)" by auto
  have "chain nx (cells (act_state (snd x) acc s)) (nx (snd x)) xs NULL"
    using Cons.prems assms(3) by simp
  from Cons.IH[OF this _ _ a(2)] Cons.prems k a(1) show ?case
    by (simp add: exec_simps)
qed

lemma release_spec:
  "chain nx (cells s) p xs NULL \<Longrightarrow> length xs < k \<Longrightarrow>
   release nx k p s = Inr ((), s\<lparr>cells := (cells s) |` (- addrs xs), room := room s + length xs\<rparr>)"
proof (induction xs arbitrary: k p s)
  case Nil
  then show ?case by (cases k) (auto simp: exec_simps)
next
  case (Cons x xs)
  then obtain k' where k: "k = Suc k'" by (cases k) auto
  let ?s = "s\<lparr>cells := (cells s)(p := None), room := Suc (room s)\<rparr>"
  have h: "(cells s)(fst x := None) |` (- addrs xs) = cells s |` (- insert (fst x) (addrs xs))"
    by (auto simp: restrict_map_def)
  have "chain nx (cells ?s) (nx (snd x)) xs NULL"
    using Cons.prems chain_fst_notin_tail[OF Cons.prems(1)] by simp
  from Cons.IH[OF this, of k'] Cons.prems k h show ?case by (simp add: exec_simps)
qed

lemma release_list_spec:
  assumes "owns nx s p xs F"
  shows "release_list nx p s = Inr ((), s\<lparr>cells := F, room := room s + length xs\<rparr>)"
proof -
  from assms have "cells s |` (- addrs xs) = F"
    by (auto simp: owns_def restrict_map_def fun_eq_iff)
  with release_spec[of nx s p xs "Suc (fresh s)"] owns_bound[OF assms] assms show ?thesis
    by (simp add: release_list_def exec_simps owns_def del: release.simps)
qed

lemma owns_released:
  assumes "owns nx s p xs F" and "cells s' = F" and "fresh s' = fresh s"
  shows "owns nx s' NULL [] F"
proof -
  have "F q = None" if "cells s q = None" for q
    using assms(1) that by (metis owns_def)
  with assms show ?thesis by (auto simp: owns_def wf_world_def)
qed

lemma clear_var_spec:
  assumes put: "\<And>p s. get (put p s) = p" "\<And>p s. cells (put p s) = cells s" "\<And>p s. fresh (put p s) = fresh s"
      "\<And>p s. room (put p s) = room s" "\<And>p s. locks (put p s) = locks s" "\<And>p s. out (put p s) = out s"
    and get: "\<And>s f. get (cells_update f s) = get s" "\<And>s f. get (room_update f s) = get s"
    and "owns nx s (get s) xs F" and "length xs < k"
  shows "\<exists>s'. clear_var nx get put k s = Inr ((), s') \<and> get s' = NULL \<and> cells s' = F \<and>
     room s' = room s + length xs \<and> fresh s' = fresh s \<and> locks s' = locks s \<and> out s' = out s"
  using assms(9,10)
proof (induction xs arbitrary: k s)
  case Nil
  then obtain k' where "k = Suc k'" by (cases k) auto
  with Nil show ?case by (simp add: exec_simps)
next
  case (Cons x xs)
  obtain p n where x: "x = (p, n)" by (cases x)
  obtain k' where k: "k = Suc k'" using Cons.prems by (cases k) auto
  from owns_Cons[OF Cons.prems(1)] x have p: "p = get s" "p \<noteq> NULL" "cells s p = Some n" by auto
  have "F p = None" using Cons.prems(1) x by (auto simp: owns_def)
  let ?s = "(put (nx n) s)\<lparr>cells := (cells s)(p := None), room := Suc (room s)\<rparr>"
  have "owns nx ?s (nx n) xs (F(p \<mapsto> n, p := None))"
    by (rule owns_frame_upd[OF owns_unlink_front[of nx s "get s" p n xs F]])
      (use Cons.prems(1) x put in simp_all)
  with \<open>F p = None\<close> have "owns nx ?s (get ?s) xs F" by (simp add: fun_upd_idem put get)
  from Cons.IH[OF this, of k'] Cons.prems(2) k obtain s' where
    "clear_var nx get put k' ?s = Inr ((), s')" "get s' = NULL" "cells s' = F"
    "room s' = room ?s + length xs" "fresh s' = fresh ?s" "locks s' = locks ?s" "out s' = out ?s" by auto
  with p k put show ?case by (simp add: exec_simps)
qed

lemma clear_list_spec:
  assumes "\<And>p s. get (put p s) = p" "\<And>p s. cells (put p s) = cells s" "\<And>p s. fresh (put p s) = fresh s"
      "\<And>p s. room (put p s) = room s" "\<And>p s. locks (put p s) = locks s" "\<And>p s. out (put p s) = out s"
    and "\<And>s f. get (cells_update f s) = get s" "\<And>s f. get (room_update f s) = get s"
    and "owns nx s (get s) xs F"
  shows "\<exists>s'. clear_list nx get put s = Inr ((), s') \<and> get s' = NULL \<and> cells s' = F \<and>
     room s' = room s + length xs \<and> fresh s' = fresh s \<and> locks s' = locks s \<and> out s' = out s"
  using clear_var_spec[OF assms, of "Suc (fresh s)"] owns_bound[OF assms(9)]
  by (simp add: clear_list_def exec_simps del: clear_var.simps)

text \<open>Traversals that print and traversals that count.\<close>

lemma visit_list_print:
  assumes "owns nx s p xs F" and "\<And>n a. act n a = printf fmt (args n)"
  shows "visit_list nx act p () s = Inr ((), s\<lparr>out := out s @ map (\<lambda>x. (fmt, args (snd x))) xs\<rparr>)"
proof -
  let ?f = "\<lambda>x (a :: unit, t :: ('a, 'b) world_scheme). ((), t\<lparr>out := out t @ [(fmt, args (snd x))]\<rparr>)"
  have fold: "fold ?f ys ((), t) = ((), t\<lparr>out := out t @ map (\<lambda>x. (fmt, args (snd x))) ys\<rparr>)"
    for ys :: "(ptr \<times> 'a) list" and t
    by (induction ys arbitrary: t) auto
  have "visit nx act (Suc (fresh s)) p () s = (let r = fold ?f xs ((), s) in Inr r)"
    using assms chain_bound[of s nx p xs]
    by (intro visit_rule[where I = "\<lambda>_ _. True"]) (auto simp: owns_def exec_simps)
  with fold show ?thesis by (simp add: visit_list_def exec_simps del: visit.simps)
qed

lemma visit_list_count:
  assumes "owns nx s p xs F" and "\<And>n c. act n c = cint (c + 1)" and "int (length xs) \<le> INT_MAX"
  shows "visit_list nx act p 0 s = Inr (int (length xs), s)"
proof -
  have count: "visit nx act k q c s = Inr (c + int (length ys), s)"
    if "chain nx (cells s) q ys NULL" "length ys < k" "0 \<le> c" "c + int (length ys) \<le> INT_MAX"
    for k q c ys
    using that
  proof (induction ys arbitrary: k q c)
    case Nil
    then show ?case by (cases k) (auto simp: exec_simps)
  next
    case (Cons y ys)
    then obtain k' where k: "k = Suc k'" by (cases k) auto
    have "int_range (c + 1)" using Cons.prems by (simp add: int_range_defs)
    moreover have "visit nx act k' (nx (snd y)) (c + 1) s = Inr (c + 1 + int (length ys), s)"
      using Cons.prems k by (intro Cons.IH) auto
    ultimately show ?case using Cons.prems k assms(2)[of "snd y" c] by (simp add: exec_simps)
  qed
  show ?thesis
    using assms(1,3) chain_bound[of s nx p xs] count[of p xs "Suc (fresh s)" 0]
    by (simp add: visit_list_def exec_simps owns_def del: visit.simps)
qed

section \<open>Changing a chain\<close>

text \<open>
  The interface of a node type with a mutable successor: \<open>val\<close> reads the fields that the
  list operations leave alone.
\<close>

locale linked =
  fixes nx :: "'n \<Rightarrow> ptr" and set_nx :: "ptr \<Rightarrow> 'n \<Rightarrow> 'n" and val :: "'n \<Rightarrow> 'v"
  assumes nx_set [simp]: "nx (set_nx p n) = p"
    and val_set [simp]: "val (set_nx p n) = val n"
begin

abbreviation vals :: "(ptr \<times> 'n) list \<Rightarrow> 'v list" where
  "vals xs \<equiv> map (\<lambda>x. val (snd x)) xs"

lemma chain_relink:
  assumes "chain nx h p (us @ (a, n) # vs) NULL" and "chain nx h q ws NULL"
    and "a \<notin> addrs us" and "a \<notin> addrs ws"
  shows "chain nx (h(a \<mapsto> set_nx q n)) p (us @ (a, set_nx q n) # ws) NULL"
  using assms by auto

text \<open>A node of the frame is linked behind a given node, and a node is unlinked from there.\<close>

lemma owns_link_after:
  assumes "owns nx s p (us @ (a, n) # vs) F" and "F b = Some m" and "nx m = nx n"
    and "cells s' = (cells s)(a \<mapsto> set_nx b n)" and "fresh s' = fresh s"
  shows "owns nx s' p (us @ (a, set_nx b n) # (b, m) # vs) (F(b := None))"
proof -
  note c = owns_chain[OF assms(1)]
  have b: "b \<noteq> NULL" "b \<notin> addrs (us @ (a, n) # vs)" "cells s b = Some m"
    using owns_frame[OF assms(1,2)] by auto
  have a: "a \<notin> addrs us" "a \<notin> addrs vs"
    using distinct_addrs_append[OF chain_distinct[OF c]] by auto
  have "chain nx (cells s) b ((b, m) # vs) NULL" using c b assms(3) by auto
  then have "chain nx (cells s') p (us @ (a, set_nx b n) # (b, m) # vs) NULL"
    unfolding assms(4) using c a b by (intro chain_relink[where vs = vs]) auto
  moreover have "wf_world s'"
    using assms wf_world_upd[of s a s'] owns_mem[OF assms(1)] by (auto simp: owns_def)
  ultimately show ?thesis using assms b by (auto simp: owns_def)
qed

lemma owns_unlink_after:
  assumes "owns nx s p (us @ (b, m) # (a, n) # vs) F"
    and "cells s' = (cells s)(b \<mapsto> set_nx (nx n) m)" and "fresh s' = fresh s"
  shows "owns nx s' p (us @ (b, set_nx (nx n) m) # vs) (F(a \<mapsto> n))"
proof -
  note c = owns_chain[OF assms(1)]
  have b: "b \<notin> addrs us" "b \<notin> addrs vs" "b \<noteq> a"
    using distinct_addrs_append[OF chain_distinct[OF c]] by auto
  have a: "a \<notin> addrs us" "a \<notin> addrs vs"
    using distinct_addrs_append[of "us @ [(b, m)]" "(a, n)" vs] chain_distinct[OF c] by auto
  from c have "chain nx (cells s) (nx n) vs NULL" by auto
  from chain_relink[OF c this b(1,2)]
  have "chain nx (cells s') p (us @ (b, set_nx (nx n) m) # vs) NULL"
    unfolding assms(2) .
  moreover have "wf_world s'"
    using assms wf_world_upd[of s b s'] owns_mem[OF assms(1)] by (auto simp: owns_def)
  moreover have "cells s a = Some n" using c by auto
  ultimately show ?thesis using assms a b by (auto simp: owns_def)
qed

text \<open>A node is unlinked and released: the first one, or the one behind \<open>b\<close>.\<close>

lemma owns_delete_first:
  assumes "owns nx s p ((a, n) # vs) F" and "cells s' = (cells s)(a := None)" and "fresh s' = fresh s"
  shows "owns nx s' (nx n) vs F"
proof -
  have "F a = None" using assms(1) by (auto simp: owns_def)
  have "owns nx s' (nx n) vs (F(a \<mapsto> n, a := None))"
    by (rule owns_frame_upd[OF owns_unlink_front[OF assms(1)]]) (use assms in simp_all)
  with \<open>F a = None\<close> show ?thesis by (simp add: fun_upd_idem)
qed

lemma owns_delete_after:
  assumes "owns nx s p (us @ (b, m) # (a, n) # vs) F"
    and "cells s' = (cells s)(b \<mapsto> set_nx (nx n) m, a := None)" and "fresh s' = fresh s"
  shows "owns nx s' p (us @ (b, set_nx (nx n) m) # vs) F"
proof -
  let ?s = "s\<lparr>cells := (cells s)(b \<mapsto> set_nx (nx n) m)\<rparr>"
  have "F a = None" using assms(1) by (auto simp: owns_def)
  have "owns nx ?s p (us @ (b, set_nx (nx n) m) # vs) (F(a \<mapsto> n))"
    by (rule owns_unlink_after[OF assms(1)]) simp_all
  from owns_frame_upd[OF this, of a n s' None] assms
  have "owns nx s' p (us @ (b, set_nx (nx n) m) # vs) (F(a \<mapsto> n, a := None))" by simp
  with \<open>F a = None\<close> show ?thesis by (simp add: fun_upd_idem)
qed

text \<open>A fresh node is linked in front or behind a node.\<close>

lemma owns_insert_first:
  assumes "owns nx s p xs F" and "nx n = p"
    and "cells s' = (cells s)(fresh s \<mapsto> n)" and "fresh s' = Suc (fresh s)"
  shows "owns nx s' (fresh s) ((fresh s, n) # xs) F"
proof -
  have "owns nx s' p xs (F(fresh s \<mapsto> n))" by (rule owns_alloc[OF assms(1,3,4)])
  from owns_link_front[OF this, of "fresh s" n] assms(2) owns_fresh[OF assms(1)] show ?thesis
    by (simp add: fun_upd_idem)
qed

lemma owns_insert_after:
  assumes "owns nx s p (us @ (a, n) # vs) F" and "nx m = nx n"
    and "cells s' = (cells s)(fresh s \<mapsto> m, a \<mapsto> set_nx (fresh s) n)" and "fresh s' = Suc (fresh s)"
  shows "owns nx s' p (us @ (a, set_nx (fresh s) n) # (fresh s, m) # vs) F"
proof -
  let ?s = "s\<lparr>cells := (cells s)(fresh s \<mapsto> m), fresh := Suc (fresh s)\<rparr>"
  have "owns nx ?s p (us @ (a, n) # vs) (F(fresh s \<mapsto> m))"
    by (rule owns_alloc[OF assms(1)]) simp_all
  from owns_link_after[OF this, of "fresh s" m s'] assms owns_fresh[OF assms(1)] show ?thesis
    by (simp add: fun_upd_idem)
qed

text \<open>A field that is not the successor can be changed in place.\<close>

lemma owns_update:
  assumes "owns nx s p (us @ (a, n) # vs) F" and "nx m = nx n"
    and "cells s' = (cells s)(a \<mapsto> m)" and "fresh s' = fresh s"
  shows "owns nx s' p (us @ (a, m) # vs) F"
proof -
  note c = owns_chain[OF assms(1)]
  have a: "a \<notin> addrs us" "a \<notin> addrs vs"
    using distinct_addrs_append[OF chain_distinct[OF c]] by auto
  with c assms(2) have "chain nx ((cells s)(a \<mapsto> m)) p (us @ (a, m) # vs) NULL" by auto
  moreover have "wf_world s'"
    using assms wf_world_upd[of s a s'] owns_mem[OF assms(1)] by (auto simp: owns_def)
  ultimately show ?thesis using assms by (auto simp: owns_def)
qed

text \<open>Reversal in place.\<close>

lemma turn_spec:
  assumes "chain nx (cells s) p xs NULL" and "chain nx (cells s) prev ys NULL"
    and "addrs xs \<inter> addrs ys = {}" and "length xs < k"
  shows "\<exists>zs h. turn nx set_nx k prev p s = Inr (first_ptr zs, s\<lparr>cells := h\<rparr>) \<and>
     chain nx h (first_ptr zs) zs NULL \<and> addrs zs = addrs xs \<union> addrs ys \<and>
     (\<forall>q. q \<notin> addrs xs \<longrightarrow> h q = cells s q) \<and> vals zs = rev (vals xs) @ vals ys"
  using assms
proof (induction xs arbitrary: k p prev ys s)
  case Nil
  then have "prev = first_ptr ys" by (auto dest: chain_first)
  with Nil show ?case by (cases k) (auto simp: exec_simps intro!: exI[of _ ys] exI[of _ "cells s"])
next
  case (Cons x xs)
  obtain k' where k: "k = Suc k'" using Cons.prems by (cases k) auto
  obtain a n where x: "x = (a, n)" by (cases x)
  let ?n = "set_nx prev n"
  let ?s = "s\<lparr>cells := (cells s)(a \<mapsto> ?n)\<rparr>"
  have p: "p = a" "a \<noteq> NULL" "cells s a = Some n" "chain nx (cells s) (nx n) xs NULL"
    using Cons.prems(1) x by auto
  have notin: "a \<notin> addrs xs" "a \<notin> addrs ys"
    using chain_fst_notin_tail[OF Cons.prems(1)] Cons.prems(3) x by auto
  have "\<exists>zs h. turn nx set_nx k' a (nx n) ?s = Inr (first_ptr zs, ?s\<lparr>cells := h\<rparr>) \<and>
     chain nx h (first_ptr zs) zs NULL \<and> addrs zs = addrs xs \<union> addrs ((a, ?n) # ys) \<and>
     (\<forall>q. q \<notin> addrs xs \<longrightarrow> h q = cells ?s q) \<and> vals zs = rev (vals xs) @ vals ((a, ?n) # ys)"
    using Cons.prems k p notin x by (intro Cons.IH) auto
  then obtain zs h where
    r: "turn nx set_nx k' a (nx n) ?s = Inr (first_ptr zs, ?s\<lparr>cells := h\<rparr>)"
    and rest: "chain nx h (first_ptr zs) zs NULL" "addrs zs = addrs xs \<union> addrs ((a, ?n) # ys)"
      "\<forall>q. q \<notin> addrs xs \<longrightarrow> h q = cells ?s q" "vals zs = rev (vals xs) @ vals ((a, ?n) # ys)"
    by blast
  have "turn nx set_nx k prev p s = Inr (first_ptr zs, s\<lparr>cells := h\<rparr>)"
    using r p k by (simp add: exec_simps)
  moreover have "\<forall>q. q \<notin> addrs (x # xs) \<longrightarrow> h q = cells s q" using rest(3) x by auto
  ultimately show ?case using rest x by (intro exI[of _ zs] exI[of _ h]) auto
qed

lemma turn_list_spec:
  assumes "owns nx s p xs F"
  shows "\<exists>zs h. turn_list nx set_nx p s = Inr (first_ptr zs, s\<lparr>cells := h\<rparr>) \<and>
     owns nx (s\<lparr>cells := h\<rparr>) (first_ptr zs) zs F \<and> vals zs = rev (vals xs)"
proof -
  have "\<exists>zs h. turn nx set_nx (Suc (fresh s)) NULL p s = Inr (first_ptr zs, s\<lparr>cells := h\<rparr>) \<and>
     chain nx h (first_ptr zs) zs NULL \<and> addrs zs = addrs xs \<and>
     (\<forall>q. q \<notin> addrs xs \<longrightarrow> h q = cells s q) \<and> vals zs = rev (vals xs)"
    using assms owns_bound[OF assms] turn_spec[of s p xs NULL "[]" "Suc (fresh s)"]
    by (simp add: owns_def del: turn.simps)
  then obtain zs h where r: "turn nx set_nx (Suc (fresh s)) NULL p s = Inr (first_ptr zs, s\<lparr>cells := h\<rparr>)"
    and z: "chain nx h (first_ptr zs) zs NULL" "addrs zs = addrs xs" "vals zs = rev (vals xs)"
    and h: "\<forall>q. q \<notin> addrs xs \<longrightarrow> h q = cells s q"
    by blast
  have "q \<notin> addrs xs" if "cells s q = None" for q
    using that chain_addrs_dom[OF owns_chain[OF assms]] by auto
  with h have "h q = None" if "cells s q = None" for q using that by simp
  with owns_wf[OF assms] have "wf_world (s\<lparr>cells := h\<rparr>)" by (simp add: wf_world_def)
  with z h assms have "owns nx (s\<lparr>cells := h\<rparr>) (first_ptr zs) zs F" by (auto simp: owns_def)
  moreover have "turn_list nx set_nx p s = Inr (first_ptr zs, s\<lparr>cells := h\<rparr>)"
    using r by (simp add: turn_list_def exec_simps del: turn.simps)
  ultimately show ?thesis using z(3) by blast
qed

end

section \<open>The node with one integer\<close>

text \<open>
  The \<^verbatim>\<open>struct Node { int data; struct Node* next; }\<close> that the list, queue, set and stack
  headers of ThreadTrove declare.
\<close>

record node =
  data :: int
  nxt :: ptr

interpretation node: linked nxt "\<lambda>p n. n\<lparr>nxt := p\<rparr>" data
  by unfold_locales simp_all

definition node0 :: node where
  "node0 = \<lparr>data = 0, nxt = NULL\<rparr>"

end
