(* ===== verification/Threads.thy ===== *)
theory Threads
  imports Prelude
begin

text \<open>
  POSIX threads over a shared state. A thread is a tree of atomic actions: each action is one
  critical section (or one access outside any critical section) and yields the next state together
  with the rest of the thread, so a thread may react to what it read. \<open>par sched ts s\<close>
  creates the threads \<open>ts\<close>, lets the scheduler choose the thread of each step by
  \<open>sched\<close>, and joins them; quantifying over \<open>sched\<close> is quantifying over the
  interleavings (\<open>par_sound\<close>, \<open>par_complete\<close>). Faults of any thread are faults
  of the program.

  \<open>tok I Q g t\<close> is the proof rule: thread \<open>t\<close> with private ghost value
  \<open>g\<close> never faults while the shared invariant \<open>I\<close> holds of the sum of all ghost
  values, keeps \<open>I\<close>, ends, and ends with a ghost value satisfying \<open>Q\<close>.
\<close>

section \<open>Threads and their interleavings\<close>

datatype (dead 's) thread = Done | Act "'s \<Rightarrow> fault + 's \<times> 's thread"

definition atomic :: "('s, 'a) exec \<Rightarrow> ('a \<Rightarrow> 's thread) \<Rightarrow> 's thread" where
  "atomic m k = Act (\<lambda>s. case m s of Inl e \<Rightarrow> Inl e | Inr (a, s') \<Rightarrow> Inr (s', k a))"

text \<open>A loop of a thread function, with the rest of the function as continuation.\<close>

primrec t_for :: "'x list \<Rightarrow> ('x \<Rightarrow> 's thread \<Rightarrow> 's thread) \<Rightarrow> 's thread \<Rightarrow> 's thread" where
  "t_for [] body k = k"
| "t_for (x # xs) body k = body x (t_for xs body k)"

primrec finish :: "'s thread \<Rightarrow> 's \<Rightarrow> fault + 's" where
  "finish Done = Inr"
| "finish (Act a) = (\<lambda>s. case (map_sum id (map_prod id finish) \<circ> a) s of
     Inl e \<Rightarrow> Inl e | Inr (s', f) \<Rightarrow> f s')"

primrec join :: "'s thread list \<Rightarrow> 's \<Rightarrow> fault + 's" where
  "join [] s = Inr s"
| "join (t # ts) s = (case finish t s of Inl e \<Rightarrow> Inl e | Inr s' \<Rightarrow> join ts s')"

primrec par :: "nat list \<Rightarrow> 's thread list \<Rightarrow> 's \<Rightarrow> fault + 's" where
  "par [] ts s = join ts s"
| "par (i # sched) ts s =
     (if i < length ts then
        (case ts ! i of
           Done \<Rightarrow> par sched ts s
         | Act a \<Rightarrow> (case a s of Inl e \<Rightarrow> Inl e | Inr (s', t') \<Rightarrow> par sched (ts[i := t']) s'))
      else par sched ts s)"

text \<open>The creation and joining of the threads inside \<^verbatim>\<open>main\<close>.\<close>

definition run_threads :: "nat list \<Rightarrow> 's thread list \<Rightarrow> ('s, unit) exec" where
  "run_threads sched ts = (\<lambda>s. case par sched ts s of Inl e \<Rightarrow> Inl e | Inr s' \<Rightarrow> Inr ((), s'))"

inductive sys_step :: "'s \<times> 's thread list \<Rightarrow> 's \<times> 's thread list \<Rightarrow> bool" where
  sys_step: "i < length ts \<Longrightarrow> ts ! i = Act a \<Longrightarrow> a s = Inr (s', t') \<Longrightarrow>
     sys_step (s, ts) (s', ts[i := t'])"

inductive sys_fault :: "'s \<times> 's thread list \<Rightarrow> fault \<Rightarrow> bool" where
  sys_fault: "i < length ts \<Longrightarrow> ts ! i = Act a \<Longrightarrow> a s = Inl e \<Longrightarrow> sys_fault (s, ts) e"

inductive_cases sys_stepE: "sys_step (s, ts) c"

inductive_simps sys_fault_simps: "sys_fault (s, ts) e"

lemma finish_Act: "finish (Act a) s = (case a s of Inl e \<Rightarrow> Inl e | Inr (s', t') \<Rightarrow> finish t' s')"
  by (cases "a s") (auto simp: map_prod_def)

declare finish.simps(2) [simp del]
declare finish_Act [simp]

lemma atomic_step: "m s = Inr (a, s') \<Longrightarrow> atomic m k = Act f \<Longrightarrow> f s = Inr (s', k a)"
  by (auto simp: atomic_def)

lemma join_done: "list_all (\<lambda>t. t = Done) ts \<Longrightarrow> join ts s = Inr s"
  by (induction ts) auto

section \<open>Schedules are exactly the interleavings\<close>

lemma finish_steps:
  "finish t s = Inr s' \<Longrightarrow> i < length ts \<Longrightarrow> ts ! i = t \<Longrightarrow> sys_step\<^sup>*\<^sup>* (s, ts) (s', ts[i := Done])"
proof (induction t arbitrary: s ts)
  case Done
  then show ?case by (metis list_update_id finish.simps(1) rtranclp.rtrancl_refl sum.inject(2))
next
  case (Act a)
  then obtain s1 t1 where a: "a s = Inr (s1, t1)" "finish t1 s1 = Inr s'"
    by (auto split: sum.splits)
  have "sys_step\<^sup>*\<^sup>* (s1, ts[i := t1]) (s', (ts[i := t1])[i := Done])"
  proof (rule Act.IH)
    show "a s \<in> range a" by simp
    show "(s1, t1) \<in> Basic_BNFs.setr (a s)" using a by (auto intro: setr.intros)
    show "t1 \<in> Basic_BNFs.snds (s1, t1)" by (simp add: snds.simps)
  qed (use a Act.prems in simp_all)
  moreover have "sys_step (s, ts) (s1, ts[i := t1])"
    using a Act.prems by (auto intro: sys_step)
  ultimately show ?case by simp
qed

lemma join_steps:
  "join ts s = Inr s' \<Longrightarrow> sys_step\<^sup>*\<^sup>* (s, us @ ts) (s', us @ map (\<lambda>_. Done) ts)"
proof (induction ts arbitrary: s us)
  case Nil
  then show ?case by simp
next
  case (Cons t ts)
  then obtain s1 where s1: "finish t s = Inr s1" "join ts s1 = Inr s'" by (auto split: sum.splits)
  have "sys_step\<^sup>*\<^sup>* (s, us @ t # ts) (s1, us @ Done # ts)"
    using finish_steps[OF s1(1), of "length us" "us @ t # ts"] by simp
  moreover have "sys_step\<^sup>*\<^sup>* (s1, us @ Done # ts) (s', us @ Done # map (\<lambda>_. Done) ts)"
    using Cons.IH[OF s1(2), of "us @ [Done]"] by simp
  ultimately show ?case by simp
qed

lemma par_sound:
  "par sched ts s = Inr s' \<Longrightarrow> \<exists>ts'. sys_step\<^sup>*\<^sup>* (s, ts) (s', ts') \<and> list_all (\<lambda>t. t = Done) ts'"
proof (induction sched arbitrary: ts s)
  case Nil
  then have "sys_step\<^sup>*\<^sup>* (s, ts) (s', map (\<lambda>_. Done) ts)" using join_steps[of ts s s' "[]"] by simp
  moreover have "list_all (\<lambda>t. t = Done) (map (\<lambda>_. Done) ts)" by (simp add: list_all_iff)
  ultimately show ?case by blast
next
  case (Cons i sched)
  show ?case
  proof (cases "i < length ts")
    case True
    show ?thesis
    proof (cases "ts ! i")
      case Done
      with True Cons show ?thesis by simp
    next
      case (Act a)
      with True Cons.prems obtain s1 t1 where a: "a s = Inr (s1, t1)" "par sched (ts[i := t1]) s1 = Inr s'"
        by (auto split: sum.splits)
      from Cons.IH[OF a(2)] obtain ts' where
        "sys_step\<^sup>*\<^sup>* (s1, ts[i := t1]) (s', ts')" "list_all (\<lambda>t. t = Done) ts'" by blast
      moreover have "sys_step (s, ts) (s1, ts[i := t1])" using a Act True by (auto intro: sys_step)
      ultimately show ?thesis by (meson converse_rtranclp_into_rtranclp)
    qed
  next
    case False
    with Cons show ?thesis by simp
  qed
qed

lemma par_complete:
  assumes "sys_step\<^sup>*\<^sup>* (s, ts) (s', ts')" and "list_all (\<lambda>t. t = Done) ts'"
  shows "\<exists>sched. par sched ts s = Inr s'"
  using assms
proof (induction "(s, ts)" arbitrary: s ts rule: converse_rtranclp_induct)
  case base
  then have "par [] ts' s' = Inr s'" by (simp add: join_done)
  then show ?case by blast
next
  case (step c)
  from step.hyps(1) obtain i a s1 t1 where
    i: "i < length ts" "ts ! i = Act a" "a s = Inr (s1, t1)" "c = (s1, ts[i := t1])"
    by (auto elim: sys_stepE)
  from step.hyps(3)[of s1 "ts[i := t1]"] i(4) step.prems obtain sched where
    "par sched (ts[i := t1]) s1 = Inr s'" by auto
  with i have "par (i # sched) ts s = Inr s'" by simp
  then show ?case by blast
qed

section \<open>The proof rule\<close>

inductive tok :: "('g::comm_monoid_add \<Rightarrow> 's \<Rightarrow> bool) \<Rightarrow> ('g \<Rightarrow> bool) \<Rightarrow> 'g \<Rightarrow> 's thread \<Rightarrow> bool"
  for I :: "'g \<Rightarrow> 's \<Rightarrow> bool" and Q :: "'g \<Rightarrow> bool" where
  tok_done: "Q g \<Longrightarrow> tok I Q g Done"
| tok_act: "(\<And>c s. I (g + c) s \<Longrightarrow>
     \<exists>s' t' g'. a s = Inr (s', t') \<and> I (g' + c) s' \<and> tok I Q g' t') \<Longrightarrow> tok I Q g (Act a)"

inductive_cases tok_ActE: "tok I Q g (Act a)"

lemma tok_atomic:
  assumes "\<And>c s. I (g + c) s \<Longrightarrow>
     \<exists>a s' g'. m s = Inr (a, s') \<and> I (g' + c) s' \<and> tok I Q g' (k a)"
  shows "tok I Q g (atomic m k)"
  unfolding atomic_def
proof (rule tok_act)
  fix c s
  assume "I (g + c) s"
  from assms[OF this] obtain a s' g' where
    "m s = Inr (a, s')" "I (g' + c) s'" "tok I Q g' (k a)" by blast
  then show "\<exists>s' t' g'. (case m s of Inl e \<Rightarrow> Inl e | Inr (a, s') \<Rightarrow> Inr (s', k a)) = Inr (s', t') \<and>
      I (g' + c) s' \<and> tok I Q g' t'" by (intro exI[of _ s'] exI[of _ "k a"] exI[of _ g']) simp
qed

lemma tok_for:
  assumes "\<And>ys x zs t. xs = ys @ x # zs \<Longrightarrow> tok I Q (G (ys @ [x])) t \<Longrightarrow> tok I Q (G ys) (body x t)"
    and "tok I Q (G xs) k"
  shows "tok I Q (G []) (t_for xs body k)"
proof -
  have "tok I Q (G ys) (t_for zs body k)" if "xs = ys @ zs" for ys zs
    using that
  proof (induction zs arbitrary: ys)
    case Nil
    with assms(2) show ?case by simp
  next
    case (Cons z zs)
    then show ?case using assms(1)[OF Cons.prems] Cons.IH[of "ys @ [z]"] by simp
  qed
  then show ?thesis by simp
qed

lemma tok_finish: "tok I Q g t \<Longrightarrow> I (g + c) s \<Longrightarrow> \<exists>s' g'. finish t s = Inr s' \<and> Q g' \<and> I (g' + c) s'"
proof (induction arbitrary: c s rule: tok.induct)
  case (tok_done g)
  then show ?case by auto
next
  case (tok_act g a)
  from tok_act.IH[OF tok_act.prems] obtain s1 t1 g1 where
    1: "a s = Inr (s1, t1)" "I (g1 + c) s1" and
    2: "\<And>c s. I (g1 + c) s \<Longrightarrow> \<exists>s' g'. finish t1 s = Inr s' \<and> Q g' \<and> I (g' + c) s'"
    by blast
  from 2[OF 1(2)] 1(1) show ?case by auto
qed

lemma sum_list_update_split:
  fixes gs :: "'g::comm_monoid_add list"
  assumes "i < length gs"
  shows "\<exists>c. sum_list gs = gs ! i + c \<and> (\<forall>g. sum_list (gs[i := g]) = g + c)"
proof -
  let ?c = "sum_list (take i gs) + sum_list (drop (Suc i) gs)"
  have "sum_list (us @ g # vs) = g + (sum_list us + sum_list vs)" for us vs and g :: 'g
    by (simp add: add.left_commute)
  with assms have "sum_list gs = gs ! i + ?c" "sum_list (gs[i := g]) = g + ?c" for g
    by (metis id_take_nth_drop, metis upd_conv_take_nth_drop)
  then show ?thesis by blast
qed

definition toks :: "('g::comm_monoid_add \<Rightarrow> 's \<Rightarrow> bool) \<Rightarrow> (nat \<Rightarrow> 'g \<Rightarrow> bool) \<Rightarrow> 'g list \<Rightarrow> 's thread list \<Rightarrow> bool" where
  "toks I Q gs ts \<longleftrightarrow> length gs = length ts \<and> (\<forall>i < length ts. tok I (Q i) (gs ! i) (ts ! i))"

lemma toks_step:
  assumes "toks I Q gs ts" and "I (sum_list gs) s" and "i < length ts" and "ts ! i = Act a"
  shows "\<exists>s' t' g'. a s = Inr (s', t') \<and> I (sum_list (gs[i := g'])) s' \<and> toks I Q (gs[i := g']) (ts[i := t'])"
proof -
  have i: "i < length gs" "tok I (Q i) (gs ! i) (Act a)" using assms by (auto simp: toks_def)
  obtain c where c: "sum_list gs = gs ! i + c" "\<And>g. sum_list (gs[i := g]) = g + c"
    using sum_list_update_split[OF i(1)] by blast
  from assms(2) c(1) have "I (gs ! i + c) s" by simp
  with i(2) obtain s' t' g' where "a s = Inr (s', t')" "I (g' + c) s'" "tok I (Q i) g' t'"
    by (elim tok_ActE) blast
  moreover have "toks I Q (gs[i := g']) (ts[i := t'])"
    using assms(1,3) \<open>tok I (Q i) g' t'\<close> by (auto simp: toks_def nth_list_update)
  ultimately show ?thesis using c(2) by auto
qed

text \<open>No interleaving of well-behaved threads faults.\<close>

lemma toks_no_fault:
  assumes "sys_step\<^sup>*\<^sup>* (s, ts) (s', ts')" and "toks I Q gs ts" and "I (sum_list gs) s"
  shows "\<not> sys_fault (s', ts') e"
proof -
  have "\<exists>gs'. toks I Q gs' ts' \<and> I (sum_list gs') s'"
    using assms
  proof (induction "(s', ts')" arbitrary: s' ts' rule: rtranclp_induct)
    case base
    then show ?case by blast
  next
    case (step c)
    obtain s1 ts1 where c: "c = (s1, ts1)" by (cases c)
    from step.hyps(3)[OF c step.prems] obtain gs1 where gs1: "toks I Q gs1 ts1" "I (sum_list gs1) s1"
      by blast
    from step.hyps(2) c obtain i a t where i: "i < length ts1" "ts1 ! i = Act a"
      "a s1 = Inr (s', t)" "ts' = ts1[i := t]" by (auto elim: sys_stepE)
    from toks_step[OF gs1 i(1,2)] i(3,4) show ?case by auto
  qed
  then show ?thesis using toks_step[of I Q _ ts' s'] by (fastforce simp: sys_fault_simps)
qed

lemma join_ok:
  assumes "\<forall>i < length ts. tok I (Q i) (gs ! i) (ts ! i)" and "length gs = length ts"
    and "I (sum_list gs + c) s"
  shows "\<exists>s' gs'. join ts s = Inr s' \<and> length gs' = length ts \<and> (\<forall>i < length ts. Q i (gs' ! i)) \<and>
     I (sum_list gs' + c) s'"
  using assms
proof (induction ts arbitrary: gs Q c s)
  case Nil
  then show ?case by simp
next
  case (Cons t ts)
  then obtain g gs1 where gs: "gs = g # gs1" by (cases gs) auto
  have t: "tok I (Q 0) g t" using Cons.prems gs by force
  have "I (g + (sum_list gs1 + c)) s" using Cons.prems(3) gs by (simp add: ac_simps)
  from tok_finish[OF t this] obtain s1 g1 where
    s1: "finish t s = Inr s1" "Q 0 g1" "I (g1 + (sum_list gs1 + c)) s1" by blast
  have "\<exists>s' gs'. join ts s1 = Inr s' \<and> length gs' = length ts \<and> (\<forall>i < length ts. Q (Suc i) (gs' ! i)) \<and>
     I (sum_list gs' + (g1 + c)) s'"
  proof (rule Cons.IH)
    show "\<forall>i<length ts. tok I (Q (Suc i)) (gs1 ! i) (ts ! i)" using Cons.prems(1) gs by force
    show "I (sum_list gs1 + (g1 + c)) s1" using s1(3) by (simp add: ac_simps)
  qed (use Cons.prems(2) gs in simp)
  then obtain s' gs' where r: "join ts s1 = Inr s'" "length gs' = length ts"
    "\<forall>i < length ts. Q (Suc i) (gs' ! i)" "I (sum_list gs' + (g1 + c)) s'" by blast
  have "\<forall>i < length (t # ts). Q i ((g1 # gs') ! i)"
    using r(3) s1(2) by (auto simp: nth_Cons split: nat.splits)
  moreover have "I (sum_list (g1 # gs') + c) s'" using r(4) by (simp add: ac_simps)
  ultimately show ?case using r(1,2) s1(1) by (intro exI[of _ s'] exI[of _ "g1 # gs'"]) simp
qed

theorem par_ok:
  assumes "toks I Q gs ts" and "I (sum_list gs) s"
  shows "\<exists>s' gs'. par sched ts s = Inr s' \<and> length gs' = length ts \<and> (\<forall>i < length ts. Q i (gs' ! i)) \<and>
     I (sum_list gs') s'"
  using assms
proof (induction sched arbitrary: ts s gs)
  case Nil
  then show ?case using join_ok[of ts I Q gs 0 s] by (simp add: toks_def)
next
  case (Cons i sched)
  show ?case
  proof (cases "i < length ts \<and> ts ! i \<noteq> Done")
    case True
    then obtain a where a: "i < length ts" "ts ! i = Act a" by (cases "ts ! i") auto
    from toks_step[OF Cons.prems a] obtain s' t' g' where
      "a s = Inr (s', t')" "I (sum_list (gs[i := g'])) s'" "toks I Q (gs[i := g']) (ts[i := t'])" by blast
    with Cons.IH[of "gs[i := g']" "ts[i := t']" s'] a show ?thesis by simp
  next
    case False
    with Cons.IH[OF Cons.prems] show ?thesis by auto
  qed
qed

lemma run_threads_ok:
  assumes "toks I Q gs ts" and "I (sum_list gs) s"
  shows "\<exists>s' gs'. run_threads sched ts s = Inr ((), s') \<and> length gs' = length ts \<and>
     (\<forall>i < length ts. Q i (gs' ! i)) \<and> I (sum_list gs') s'"
  using par_ok[OF assms, of sched] by (auto simp: run_threads_def)

text \<open>The programs of ThreadTrove start two threads.\<close>

lemma run_two:
  assumes "tok I Q1 g1 t1" and "tok I Q2 g2 t2" and "I (g1 + g2) s"
  shows "\<exists>s' h1 h2. run_threads sched [t1, t2] s = Inr ((), s') \<and> Q1 h1 \<and> Q2 h2 \<and> I (h1 + h2) s'"
proof -
  let ?Q = "\<lambda>i. if i = 0 then Q1 else Q2"
  have "toks I ?Q [g1, g2] [t1, t2]"
    using assms(1,2) by (simp add: toks_def less_Suc_eq)
  from run_threads_ok[OF this, of s sched] assms(3) obtain s' gs where
    r: "run_threads sched [t1, t2] s = Inr ((), s')" "length gs = 2" "\<forall>i<2. ?Q i (gs ! i)" "I (sum_list gs) s'"
    by (auto simp: numeral_2_eq_2)
  then obtain h1 h2 where gs: "gs = [h1, h2]"
    by (metis (no_types, opaque_lifting) One_nat_def Suc_1 length_0_conv length_Suc_conv)
  have "Q1 h1" "Q2 h2" using r(3)[rule_format, of 0] r(3)[rule_format, of 1] gs by simp_all
  with r gs show ?thesis by auto
qed

text \<open>Any number of threads with the same share of the ghost state.\<close>

lemma run_same:
  assumes "\<forall>t\<in>set ts. tok I Q g t" and "I (sum_list (replicate (length ts) g)) s"
  shows "\<exists>s' gs. run_threads sched ts s = Inr ((), s') \<and> length gs = length ts \<and> (\<forall>h\<in>set gs. Q h) \<and> I (sum_list gs) s'"
proof -
  have "toks I (\<lambda>_. Q) (replicate (length ts) g) ts" using assms(1) by (simp add: toks_def)
  from run_threads_ok[OF this assms(2), of sched] show ?thesis by (metis in_set_conv_nth)
qed

end
