(* ===== verification/Bags.thy ===== *)
theory Bags
  imports Chains Threads
begin

text \<open>
  The contract of the concurrent containers: what the critical sections of insertion and removal
  promise, independent of the order in which a container returns its elements. The rules for threads
  that use such a container are proved once, in the locales \<open>bag\<close> and \<open>bag_take\<close>,
  and used by the stack, list and queue programs.
\<close>

section \<open>A ledger of shared resources\<close>

text \<open>
  The ghost value of a thread is a multiset of tokens: an element it accounts for, a cell it has
  allocated or unlinked and still holds with its contents, one unit of memory it may still allocate.
\<close>

datatype ('v, 'n) token = Item 'v | Priv ptr 'n | Budget

definition ledger :: "('v, 'n) token multiset \<Rightarrow> ('n, 'z) world_scheme \<Rightarrow> 'v multiset \<Rightarrow> (ptr \<rightharpoonup> 'n) \<Rightarrow> bool" where
  "ledger G s M F \<longleftrightarrow> (\<forall>v. count G (Item v) = count M v) \<and>
     (\<forall>p n. count G (Priv p n) = (if F p = Some n then 1 else 0)) \<and> count G Budget \<le> room s"

lemma ledger_room: "ledger (add_mset Budget G) s M F \<Longrightarrow> 0 < room s"
  by (auto simp: ledger_def)

lemma ledger_priv: "ledger (add_mset (Priv p n) G) s M F \<Longrightarrow> F p = Some n"
  by (auto simp: ledger_def split: if_splits dest!: spec[of _ p])

lemma ledger_unpriv:
  assumes "ledger (add_mset (Priv p n) G) s M F"
  shows "count G (Item v) = count M v" and "count G Budget \<le> room s"
    and "count G (Priv q m) = (if (F(p := None)) q = Some m then 1 else 0)"
proof -
  have "count (add_mset (Priv p n) G) (Priv q m) = (if F q = Some m then 1 else 0)"
    using assms by (simp add: ledger_def)
  with ledger_priv[OF assms] show "count G (Priv q m) = (if (F(p := None)) q = Some m then 1 else 0)"
    by (auto split: if_splits)
qed (use assms in \<open>auto simp: ledger_def\<close>)

lemma ledger_alloc:
  "ledger (add_mset Budget G) s M F \<Longrightarrow> F p = None \<Longrightarrow> room s' = room s - 1 \<Longrightarrow>
   ledger (add_mset (Priv p n) G) s' M (F(p \<mapsto> n))"
  by (auto simp: ledger_def)

lemma ledger_put:
  "ledger (add_mset (Priv p n) G) s M F \<Longrightarrow> room s' = room s \<Longrightarrow>
   ledger (add_mset (Item v) G) s' (add_mset v M) (F(p := None))"
  by (subst ledger_def) (simp add: ledger_unpriv)

lemma ledger_take:
  assumes "ledger (add_mset (Item v) G) s (add_mset v M) F" and "F p = None" and "room s' = room s"
  shows "ledger (add_mset (Priv p n) G) s' M (F(p \<mapsto> n))"
proof -
  have "count (add_mset (Item v) G) (Item u) = count (add_mset v M) u" for u
    using assms(1) by (simp add: ledger_def)
  then have "count G (Item u) = count M u" for u by (metis count_add_mset nat.inject token.inject(1))
  with assms show ?thesis by (auto simp: ledger_def)
qed

lemma ledger_drop:
  assumes "ledger (add_mset (Item v) G) s (add_mset v M) F" and "room s' = Suc (room s)"
  shows "ledger (add_mset Budget G) s' M F"
proof -
  have "count (add_mset (Item v) G) (Item u) = count (add_mset v M) u" for u
    using assms(1) by (simp add: ledger_def)
  then have "count G (Item u) = count M u" for u by (metis count_add_mset nat.inject token.inject(1))
  with assms show ?thesis by (auto simp: ledger_def)
qed

lemma ledger_hold:
  assumes "ledger G s M F" and "F p = None" and "room s' = room s"
  shows "ledger (add_mset (Priv p n) (add_mset (Item v) G)) s' (add_mset v M) (F(p \<mapsto> n))"
  using assms by (auto simp: ledger_def)

lemma ledger_return:
  assumes "ledger (add_mset (Priv p n) (add_mset (Item v) G)) s (add_mset v M) F" and "room s' = room s"
  shows "ledger G s' M (F(p := None))"
proof -
  have "count (add_mset (Priv p n) (add_mset (Item v) G)) (Item u) = count (add_mset v M) u" for u
    using assms(1) by (simp add: ledger_def)
  then have "count G (Item u) = count M u" for u
    by (metis count_add_mset nat.inject token.distinct(1) token.inject(1))
  with ledger_unpriv(2,3)[OF assms(1)] assms(2) show ?thesis by (simp add: ledger_def)
qed

lemma ledger_release:
  "ledger (add_mset (Priv p n) G) s M F \<Longrightarrow> room s' = Suc (room s) \<Longrightarrow>
   ledger (add_mset Budget G) s' M (F(p := None))"
  by (subst ledger_def) (simp add: ledger_unpriv)

lemma ledger_update [simp]:
  "ledger G (locks_update f s) M F = ledger G s M F"
  "ledger G (out_update g s) M F = ledger G s M F"
  by (simp_all add: ledger_def)

lemma ledger_same_room: "ledger G s M F \<Longrightarrow> room s' = room s \<Longrightarrow> ledger G s' M F"
  by (simp add: ledger_def)

lemma replicate_mset_add: "replicate_mset m x + replicate_mset n x = replicate_mset (m + n) x"
  by (rule multiset_eqI) simp

lemma ledger_start: "ledger (replicate_mset k Budget) s {#} Map.empty \<longleftrightarrow> k \<le> room s"
  by (auto simp: ledger_def)

lemma ledger_no_priv: "ledger G s M F \<Longrightarrow> (\<And>p n. Priv p n \<notin># G) \<Longrightarrow> F = Map.empty"
proof (rule ext)
  fix p
  assume "ledger G s M F" and "\<And>p n. Priv p n \<notin># G"
  then have "F p \<noteq> Some n" for n
    by (metis count_eq_zero_iff ledger_def zero_neq_one)
  then show "F p = None" by (cases "F p") auto
qed

lemma count_Item [simp]: "count (image_mset Item M) (Item v) = count M v"
  by (induction M) auto

text \<open>When only items are left, they are the contents.\<close>

lemma ledger_items: "ledger (image_mset Item W) s M F \<Longrightarrow> M = W \<and> F = Map.empty"
proof -
  assume *: "ledger (image_mset Item W) s M F"
  then have "M = W" by (intro multiset_eqI) (simp add: ledger_def)
  moreover have "F = Map.empty" by (rule ledger_no_priv[OF *]) auto
  ultimately show ?thesis by simp
qed

text \<open>What a thread put in and nobody takes out is there.\<close>

lemma ledger_mem: "ledger (g + c) s (mset vs) F \<Longrightarrow> Item v \<in># g \<Longrightarrow> v \<in> set vs"
proof -
  assume *: "ledger (g + c) s (mset vs) F" and "Item v \<in># g"
  then have "0 < count (g + c) (Item v)" by simp
  with * have "0 < count (mset vs) v" by (simp add: ledger_def)
  then show ?thesis by simp
qed

text \<open>The ghost of a thread that has \<open>m\<close> items in the container and may allocate \<open>k\<close> nodes.\<close>

abbreviation holding :: "nat \<Rightarrow> nat \<Rightarrow> (unit, 'n) token multiset" where
  "holding m k \<equiv> replicate_mset m (Item ()) + replicate_mset k Budget"

text \<open>The ghost of a thread that has inserted \<open>vs\<close> and may still allocate \<open>k\<close> nodes.\<close>

abbreviation inserted :: "'v list \<Rightarrow> nat \<Rightarrow> ('v, 'n) token multiset" where
  "inserted vs k \<equiv> image_mset Item (mset vs) + replicate_mset k Budget"

lemma holding_add: "holding m k + holding m' k' = holding (m + m') (k + k')"
  by (rule multiset_eqI) simp

section \<open>Insertion\<close>

locale bag =
  fixes rep :: "(ptr \<rightharpoonup> 'n) \<Rightarrow> ('n, 'z) world_scheme \<Rightarrow> int list \<Rightarrow> bool"
    and val :: "'n \<Rightarrow> int"
    and ready :: "'n \<Rightarrow> bool"
    and alloc :: "int \<Rightarrow> (('n, 'z) world_scheme, ptr) exec"
    and link :: "ptr \<Rightarrow> (('n, 'z) world_scheme, unit) exec"
  assumes alloc_ok: "rep F s vs \<Longrightarrow> 0 < room s \<Longrightarrow>
      \<exists>p n s'. alloc v s = Inr (p, s') \<and> rep (F(p \<mapsto> n)) s' vs \<and> val n = v \<and> ready n \<and>
        F p = None \<and> room s' = room s - 1"
    and link_ok: "rep F s vs \<Longrightarrow> F p = Some n \<Longrightarrow> ready n \<Longrightarrow>
      \<exists>s' vs'. link p s = Inr ((), s') \<and> rep (F(p := None)) s' vs' \<and>
        mset vs' = add_mset (val n) (mset vs) \<and> room s' = room s"
begin

text \<open>The threads account for every element: \<open>it\<close> is what they track of it.\<close>

definition shared :: "(int \<Rightarrow> 'i) \<Rightarrow> ('i, 'n) token multiset \<Rightarrow> ('n, 'z) world_scheme \<Rightarrow> bool" where
  "shared it G s \<longleftrightarrow> (\<exists>vs F. rep F s vs \<and> ledger G s (image_mset it (mset vs)) F)"

lemma shared_start: "rep Map.empty s [] \<Longrightarrow> k \<le> room s \<Longrightarrow> shared it (replicate_mset k Budget) s"
  unfolding shared_def by (intro exI[of _ "[]"] exI[of _ Map.empty]) (simp add: ledger_start)

lemma shared_holding:
  assumes "shared (\<lambda>_. ()) (holding m k) s"
  shows "\<exists>vs. rep Map.empty s vs \<and> length vs = m \<and> k \<le> room s"
proof -
  from assms obtain vs F where 1: "rep F s vs" "ledger (holding m k) s (image_mset (\<lambda>_. ()) (mset vs)) F"
    by (auto simp: shared_def)
  from ledger_no_priv[OF 1(2)] have "F = Map.empty" by auto
  moreover have "count (image_mset (\<lambda>_. ()) (mset vs)) () = m" "k \<le> room s"
    using 1(2) by (auto simp: ledger_def)
  moreover have "length vs = sum (count (mset vs)) (set vs)"
    by (metis size_mset size_multiset_overloaded_eq set_mset_mset)
  ultimately have "length vs = m" by (simp add: count_image_mset)
  with \<open>F = Map.empty\<close> 1(1) \<open>k \<le> room s\<close> show ?thesis by blast
qed

lemma shared_inserted:
  assumes "shared (\<lambda>v. v) (inserted ws 0) s"
  shows "\<exists>vs. rep Map.empty s vs \<and> mset vs = mset ws"
proof -
  from assms obtain vs F where 1: "rep F s vs" "ledger (image_mset Item (mset ws)) s (mset vs) F"
    by (auto simp: shared_def)
  from ledger_items[OF 1(2)] 1(1) show ?thesis by auto
qed

text \<open>The pool \<open>M0\<close> is closed: a token stands for an element that a thread has taken out.\<close>

definition pool :: "int multiset \<Rightarrow> (int, 'n) token multiset \<Rightarrow> ('n, 'z) world_scheme \<Rightarrow> bool" where
  "pool M0 G s \<longleftrightarrow> (\<exists>vs F M. rep F s vs \<and> ledger G s M F \<and> M + mset vs = M0)"

lemma tok_link_shared:
  assumes "tok (shared it) Q (add_mset (Item (it (val n))) g) t" and "ready n"
  shows "tok (shared it) Q (add_mset (Priv p n) g) (atomic (link p) (\<lambda>_. t))"
proof (rule tok_atomic)
  fix c s
  assume "shared it (add_mset (Priv p n) g + c) s"
  then obtain vs F where 1: "rep F s vs" "ledger (add_mset (Priv p n) (g + c)) s (image_mset it (mset vs)) F"
    by (auto simp: shared_def)
  from link_ok[OF 1(1) ledger_priv[OF 1(2)] assms(2)] obtain s' vs' where
    2: "link p s = Inr ((), s')" "rep (F(p := None)) s' vs'" "mset vs' = add_mset (val n) (mset vs)"
      "room s' = room s" by blast
  have "shared it (add_mset (Item (it (val n))) g + c) s'"
    using 2(2,3) ledger_put[OF 1(2) 2(4), of "it (val n)"]
    by (auto simp: shared_def intro!: exI[of _ vs'] exI[of _ "F(p := None)"])
  with 2(1) assms(1) show "\<exists>a s' g'. link p s = Inr (a, s') \<and> shared it (g' + c) s' \<and> tok (shared it) Q g' t"
    by blast
qed

lemma tok_put_shared:
  assumes "tok (shared it) Q (add_mset (Item (it v)) g) t"
  shows "tok (shared it) Q (add_mset Budget g) (atomic (alloc v) (\<lambda>p. atomic (link p) (\<lambda>_. t)))"
proof (rule tok_atomic)
  fix c s
  assume "shared it (add_mset Budget g + c) s"
  then obtain vs F where 1: "rep F s vs" "ledger (add_mset Budget (g + c)) s (image_mset it (mset vs)) F"
    by (auto simp: shared_def)
  from alloc_ok[OF 1(1) ledger_room[OF 1(2)]] obtain p n s' where
    2: "alloc v s = Inr (p, s')" "rep (F(p \<mapsto> n)) s' vs" "val n = v" "F p = None" "room s' = room s - 1" "ready n"
    by blast
  have "shared it (add_mset (Priv p n) g + c) s'"
    using 2(2) ledger_alloc[OF 1(2) 2(4,5)] by (auto simp: shared_def)
  moreover have "tok (shared it) Q (add_mset (Priv p n) g) (atomic (link p) (\<lambda>_. t))"
    using assms 2(3,6) by (intro tok_link_shared) simp_all
  ultimately show "\<exists>a s' g'. alloc v s = Inr (a, s') \<and> shared it (g' + c) s' \<and>
      tok (shared it) Q g' (atomic (link a) (\<lambda>_. t))"
    using 2(1) by blast
qed

lemma tok_put_pool:
  assumes "tok (pool M0) Q g t"
  shows "tok (pool M0) Q (add_mset Budget (add_mset (Item v) g)) (atomic (alloc v) (\<lambda>p. atomic (link p) (\<lambda>_. t)))"
proof (rule tok_atomic)
  fix c s
  assume "pool M0 (add_mset Budget (add_mset (Item v) g) + c) s"
  then obtain vs F M where 1: "rep F s vs" "ledger (add_mset Budget (add_mset (Item v) (g + c))) s M F"
    "M + mset vs = M0" by (auto simp: pool_def)
  from alloc_ok[OF 1(1) ledger_room[OF 1(2)]] obtain p n s' where
    2: "alloc v s = Inr (p, s')" "rep (F(p \<mapsto> n)) s' vs" "val n = v" "F p = None" "room s' = room s - 1" "ready n"
    by blast
  have "pool M0 (add_mset (Priv p n) (add_mset (Item v) g) + c) s'"
    using 2(2) 1(3) ledger_alloc[OF 1(2) 2(4,5)] by (auto simp: pool_def)
  moreover have "tok (pool M0) Q (add_mset (Priv p n) (add_mset (Item v) g)) (atomic (link p) (\<lambda>_. t))"
  proof (rule tok_atomic)
    fix c s
    assume "pool M0 (add_mset (Priv p n) (add_mset (Item v) g) + c) s"
    then obtain vs F M where 1: "rep F s vs" "ledger (add_mset (Priv p n) (add_mset (Item v) (g + c))) s M F"
      "M + mset vs = M0" by (auto simp: pool_def)
    from link_ok[OF 1(1) ledger_priv[OF 1(2)] 2(6)] obtain s' vs' where
      3: "link p s = Inr ((), s')" "rep (F(p := None)) s' vs'" "mset vs' = add_mset (val n) (mset vs)"
        "room s' = room s" by blast
    have "count M v = Suc (count (g + c) (Item v))"
      using 1(2) unfolding ledger_def by (metis count_add_mset token.distinct(1))
    then obtain M' where M: "M = add_mset v M'"
      by (metis count_greater_zero_iff insert_DiffM zero_less_Suc)
    have "pool M0 (g + c) s'"
      using 3(2,3) 1(3) M 2(3) ledger_return[of p n v "g + c" s M' F s'] 1(2) 3(4)
      by (auto simp: pool_def intro!: exI[of _ vs'] exI[of _ "F(p := None)"] exI[of _ M'])
    with 3(1) assms show "\<exists>a s' g'. link p s = Inr (a, s') \<and> pool M0 (g' + c) s' \<and> tok (pool M0) Q g' t"
      by blast
  qed
  ultimately show "\<exists>a s' g'. alloc v s = Inr (a, s') \<and> pool M0 (g' + c) s' \<and>
      tok (pool M0) Q g' (atomic (link a) (\<lambda>_. t))"
    using 2(1) by blast
qed

text \<open>Reading the container, and taking an element out and releasing its node in one section.\<close>

lemma tok_keep_shared:
  assumes "\<And>F s vs. rep F s vs \<Longrightarrow> (\<forall>i. Item i \<in># g \<longrightarrow> i \<in> it ` set vs) \<Longrightarrow>
      \<exists>a s' vs'. m s = Inr (a, s') \<and> P a \<and> rep F s' vs' \<and> mset vs' = mset vs \<and> room s' = room s"
    and "\<And>a. P a \<Longrightarrow> tok (shared it) Q g (t a)"
  shows "tok (shared it) Q g (atomic m t)"
proof (rule tok_atomic)
  fix c s
  assume "shared it (g + c) s"
  then obtain vs F where 1: "rep F s vs" "ledger (g + c) s (mset (map it vs)) F" by (auto simp: shared_def)
  have "\<forall>i. Item i \<in># g \<longrightarrow> i \<in> it ` set vs" using ledger_mem[OF 1(2)] by auto
  from assms(1)[OF 1(1) this] obtain a s' vs' where
    2: "m s = Inr (a, s')" "P a" "rep F s' vs'" "mset vs' = mset vs" "room s' = room s" by blast
  have "shared it (g + c) s'"
    using 2(3,4) ledger_same_room[OF 1(2) 2(5)]
    by (auto simp: shared_def intro!: exI[of _ vs'] exI[of _ F])
  with 2(1,2) assms(2) show "\<exists>a s' g'. m s = Inr (a, s') \<and> shared it (g' + c) s' \<and> tok (shared it) Q g' (t a)"
    by blast
qed

lemma tok_drop_shared:
  assumes "\<And>F s vs. rep F s vs \<Longrightarrow> vs \<noteq> [] \<Longrightarrow>
      \<exists>a s' v vs'. m s = Inr (a, s') \<and> rep F s' vs' \<and> mset vs = add_mset v (mset vs') \<and> room s' = Suc (room s)"
    and "\<And>a. tok (shared (\<lambda>_. ())) Q (add_mset Budget g) (t a)"
  shows "tok (shared (\<lambda>_. ())) Q (add_mset (Item ()) g) (atomic m t)"
proof (rule tok_atomic)
  fix c s
  assume "shared (\<lambda>_. ()) (add_mset (Item ()) g + c) s"
  then obtain vs F where 1: "rep F s vs"
    "ledger (add_mset (Item ()) (g + c)) s (image_mset (\<lambda>_. ()) (mset vs)) F"
    by (auto simp: shared_def)
  then have "vs \<noteq> []" by (auto simp: ledger_def)
  from assms(1)[OF 1(1) this] obtain a s' v vs' where
    2: "m s = Inr (a, s')" "rep F s' vs'" "mset vs = add_mset v (mset vs')" "room s' = Suc (room s)" by blast
  have "ledger (add_mset Budget (g + c)) s' (image_mset (\<lambda>_. ()) (mset vs')) F"
    using 1(2) 2(3,4) by (auto simp: ledger_def)
  then have "shared (\<lambda>_. ()) (add_mset Budget g + c) s'" using 2(2) by (auto simp: shared_def)
  with 2(1) assms(2) show "\<exists>a s' g'. m s = Inr (a, s') \<and> shared (\<lambda>_. ()) (g' + c) s' \<and>
      tok (shared (\<lambda>_. ())) Q g' (t a)" by blast
qed

end

text \<open>Containers beside which the threads print.\<close>

locale bag_print = bag +
  assumes rep_out: "rep F s vs \<Longrightarrow> rep F (out_update f s) vs"
begin

lemma tok_print_shared:
  "tok (shared it) Q g t \<Longrightarrow> tok (shared it) Q g (atomic (printf fmt args) (\<lambda>_. t))"
  by (rule tok_atomic) (auto simp: exec_simps shared_def intro: rep_out)

lemma tok_print_if:
  "tok (shared it) Q g t \<Longrightarrow> tok (shared it) Q g (atomic (if b then printf f1 a1 else printf f2 a2) (\<lambda>_. t))"
  by (cases b) (simp_all add: tok_print_shared)

lemma tok_print_pool:
  "tok (pool M0) Q g t \<Longrightarrow> tok (pool M0) Q g (atomic (printf fmt args) (\<lambda>_. t))"
  by (rule tok_atomic) (auto simp: exec_simps pool_def intro: rep_out)

end

section \<open>Removal\<close>

locale bag_take = bag_print +
  fixes take_out :: "(('a, 'b) world_scheme, ptr \<times> int) exec"
    and release :: "ptr \<times> int \<Rightarrow> (('a, 'b) world_scheme, int) exec"
  assumes take_Cons: "rep F s vs \<Longrightarrow> vs \<noteq> [] \<Longrightarrow>
      \<exists>p n v vs' s'. take_out s = Inr ((p, v), s') \<and> p \<noteq> NULL \<and> F p = None \<and> rep (F(p \<mapsto> n)) s' vs' \<and>
        mset vs = add_mset v (mset vs') \<and> room s' = room s"
    and take_Nil: "rep F s [] \<Longrightarrow>
      \<exists>s'. take_out s = Inr ((NULL, - 1), s') \<and> rep F s' [] \<and> room s' = room s"
    and release_ok: "rep F s vs \<Longrightarrow> F p = Some n \<Longrightarrow>
      \<exists>s'. release (p, v) s = Inr (v, s') \<and> rep (F(p := None)) s' vs \<and> room s' = Suc (room s)"
    and release_null: "release (NULL, v) s = Inr (v, s)"
begin

lemma tok_release_shared:
  assumes "tok (shared it) Q (add_mset Budget g) (t v)"
  shows "tok (shared it) Q (add_mset (Priv p n) g) (atomic (release (p, v)) t)"
proof (rule tok_atomic)
  fix c s
  assume "shared it (add_mset (Priv p n) g + c) s"
  then obtain vs F where 1: "rep F s vs" "ledger (add_mset (Priv p n) (g + c)) s (image_mset it (mset vs)) F"
    by (auto simp: shared_def)
  from release_ok[OF 1(1) ledger_priv[OF 1(2)], of v] obtain s' where
    2: "release (p, v) s = Inr (v, s')" "rep (F(p := None)) s' vs" "room s' = Suc (room s)" by blast
  have "shared it (add_mset Budget g + c) s'"
    using 2(2) ledger_release[OF 1(2) 2(3)] by (auto simp: shared_def)
  with 2(1) assms show "\<exists>a s' g'. release (p, v) s = Inr (a, s') \<and> shared it (g' + c) s' \<and> tok (shared it) Q g' (t a)"
    by blast
qed

text \<open>A thread that accounts for an element never finds the container empty.\<close>

lemma tok_take_shared:
  assumes "\<And>v. tok (shared (\<lambda>_. ())) Q (add_mset Budget g) (t v)"
  shows "tok (shared (\<lambda>_. ())) Q (add_mset (Item ()) g) (atomic take_out (\<lambda>r. atomic (release r) t))"
proof (rule tok_atomic)
  fix c s
  assume "shared (\<lambda>_. ()) (add_mset (Item ()) g + c) s"
  then obtain vs F where 1: "rep F s vs"
    "ledger (add_mset (Item ()) (g + c)) s (image_mset (\<lambda>_. ()) (mset vs)) F"
    by (auto simp: shared_def)
  then have "vs \<noteq> []" by (auto simp: ledger_def)
  from take_Cons[OF 1(1) this] obtain p n v vs' s' where
    2: "take_out s = Inr ((p, v), s')" "F p = None" "rep (F(p \<mapsto> n)) s' vs'" "mset vs = add_mset v (mset vs')"
      "room s' = room s" by blast
  have "shared (\<lambda>_. ()) (add_mset (Priv p n) g + c) s'"
    using 2(3) ledger_take[of "()" "g + c" s "image_mset (\<lambda>_. ()) (mset vs')" F p s' n] 1(2) 2(2,4,5)
    by (auto simp: shared_def)
  moreover have "tok (shared (\<lambda>_. ())) Q (add_mset (Priv p n) g) (atomic (release (p, v)) t)"
    using assms by (rule tok_release_shared)
  ultimately show "\<exists>a s' g'. take_out s = Inr (a, s') \<and>
      shared (\<lambda>_. ()) (g' + c) s' \<and> tok (shared (\<lambda>_. ())) Q g' (atomic (release a) t)"
    using 2(1) by blast
qed

lemma tok_take_pool:
  assumes "- 1 \<notin># M0"
    and "\<And>v. v \<noteq> - 1 \<Longrightarrow> tok (pool M0) Q (add_mset Budget (add_mset (Item v) g)) (t v)"
    and "tok (pool M0) Q g (t (- 1))"
  shows "tok (pool M0) Q g (atomic take_out (\<lambda>r. atomic (release r) t))"
proof (rule tok_atomic)
  fix c s
  assume "pool M0 (g + c) s"
  then obtain vs F M where 1: "rep F s vs" "ledger (g + c) s M F" "M + mset vs = M0"
    by (auto simp: pool_def)
  show "\<exists>a s' g'. take_out s = Inr (a, s') \<and> pool M0 (g' + c) s' \<and> tok (pool M0) Q g' (atomic (release a) t)"
  proof (cases "vs = []")
    case True
    with 1(1) take_Nil obtain s' where
      2: "take_out s = Inr ((NULL, - 1), s')" "rep F s' []" "room s' = room s" by blast
    then have "pool M0 (g + c) s'"
      using 1(3) True ledger_same_room[OF 1(2) 2(3)] unfolding pool_def by blast
    moreover have "tok (pool M0) Q g (atomic (release (NULL, - 1)) t)"
      using assms(3) release_null by (intro tok_atomic) blast
    ultimately show ?thesis using 2(1) by blast
  next
    case False
    from take_Cons[OF 1(1) this] obtain p n v vs' s' where
      2: "take_out s = Inr ((p, v), s')" "F p = None" "rep (F(p \<mapsto> n)) s' vs'"
        "mset vs = add_mset v (mset vs')" "room s' = room s" by blast
    let ?g = "add_mset (Priv p n) (add_mset (Item v) g)"
    have "v \<noteq> - 1" using 1(3) 2(4) assms(1) by auto
    have "pool M0 (?g + c) s'"
      using 2(3) ledger_hold[OF 1(2) 2(2,5), of n v] 1(3) 2(4)
      by (auto simp: pool_def intro!: exI[of _ vs'] exI[of _ "F(p \<mapsto> n)"] exI[of _ "add_mset v M"])
    moreover have "tok (pool M0) Q ?g (atomic (release (p, v)) t)"
    proof (rule tok_atomic)
      fix c s
      assume "pool M0 (?g + c) s"
      then obtain vs F M where 1: "rep F s vs"
        "ledger (add_mset (Priv p n) (add_mset (Item v) (g + c))) s M F" "M + mset vs = M0"
        by (auto simp: pool_def)
      from release_ok[OF 1(1) ledger_priv[OF 1(2)], of v] obtain s' where
        2: "release (p, v) s = Inr (v, s')" "rep (F(p := None)) s' vs" "room s' = Suc (room s)" by blast
      have "pool M0 (add_mset Budget (add_mset (Item v) g) + c) s'"
        using 2(2) ledger_release[OF 1(2) 2(3)] 1(3) by (auto simp: pool_def)
      with 2(1) assms(2)[OF \<open>v \<noteq> - 1\<close>] show "\<exists>a s' g'. release (p, v) s = Inr (a, s') \<and>
          pool M0 (g' + c) s' \<and> tok (pool M0) Q g' (t a)"
        by blast
    qed
    ultimately show ?thesis using 2(1) by blast
  qed
qed

end

section \<open>Containers whose operations are single critical sections\<close>

text \<open>
  \<open>rep s vs\<close>: the container holds \<open>vs\<close> and no thread is inside it.
  \<open>held\<close> accounts for every element; \<open>safe\<close> only for the memory that the threads
  may still ask for.
\<close>

locale monitor =
  fixes rep :: "('n, 'z) world_scheme \<Rightarrow> 'v list \<Rightarrow> bool"
  assumes rep_print: "rep s vs \<Longrightarrow> rep (out_update f s) vs"
begin

definition held :: "('v, 'n) token multiset \<Rightarrow> ('n, 'z) world_scheme \<Rightarrow> bool" where
  "held G s \<longleftrightarrow> (\<exists>vs. rep s vs \<and> ledger G s (mset vs) Map.empty)"

definition safe :: "nat \<Rightarrow> ('n, 'z) world_scheme \<Rightarrow> bool" where
  "safe g s \<longleftrightarrow> g \<le> room s \<and> (\<exists>vs. rep s vs)"

lemma tok_print_held:
  "tok held Q g t \<Longrightarrow> tok held Q g (atomic (printf fmt args) (\<lambda>_. t))"
  by (rule tok_atomic) (auto simp: exec_simps held_def intro: rep_print)

lemma tok_print_safe:
  "tok safe Q g t \<Longrightarrow> tok safe Q g (atomic (printf fmt args) (\<lambda>_. t))"
  by (rule tok_atomic) (auto simp: exec_simps safe_def intro: rep_print)

lemma tok_put_held:
  assumes "\<And>s vs. rep s vs \<Longrightarrow> (\<forall>v. Item v \<in># g \<longrightarrow> v \<in> set vs) \<Longrightarrow> 0 < room s \<Longrightarrow>
      \<exists>a s' vs'. m s = Inr (a, s') \<and> rep s' vs' \<and> mset vs' = add_mset v (mset vs) \<and> room s' = room s - 1"
    and "\<And>a. tok held Q (add_mset (Item v) g) (t a)"
  shows "tok held Q (add_mset Budget g) (atomic m t)"
proof (rule tok_atomic)
  fix c s
  assume "held (add_mset Budget g + c) s"
  then obtain vs where 1: "rep s vs" "ledger (add_mset Budget (g + c)) s (mset vs) Map.empty"
    by (auto simp: held_def)
  have "\<forall>v. Item v \<in># g \<longrightarrow> v \<in> set vs" using ledger_mem[of g "add_mset Budget c" s vs Map.empty] 1(2) by auto
  from assms(1)[OF 1(1) this ledger_room[OF 1(2)]] obtain a s' vs' where
    2: "m s = Inr (a, s')" "rep s' vs'" "mset vs' = add_mset v (mset vs)" "room s' = room s - 1" by blast
  have "ledger (add_mset (Item v) (g + c)) s' (mset vs') Map.empty"
    using 1(2) 2(3,4) by (auto simp: ledger_def)
  with 2 assms(2) show "\<exists>a s' g'. m s = Inr (a, s') \<and> held (g' + c) s' \<and> tok held Q g' (t a)"
    by (force simp: held_def)
qed

lemma tok_keep_held:
  assumes "\<And>s vs. rep s vs \<Longrightarrow> (\<forall>v. Item v \<in># g \<longrightarrow> v \<in> set vs) \<Longrightarrow>
      \<exists>a s' vs'. m s = Inr (a, s') \<and> P a \<and> rep s' vs' \<and> mset vs' = mset vs \<and> room s' = room s"
    and "\<And>a. P a \<Longrightarrow> tok held Q g (t a)"
  shows "tok held Q g (atomic m t)"
proof (rule tok_atomic)
  fix c s
  assume "held (g + c) s"
  then obtain vs where 1: "rep s vs" "ledger (g + c) s (mset vs) Map.empty" by (auto simp: held_def)
  have "\<forall>v. Item v \<in># g \<longrightarrow> v \<in> set vs" using ledger_mem[OF 1(2)] by blast
  with assms(1)[OF 1(1)] obtain a s' vs' where
    2: "m s = Inr (a, s')" "P a" "rep s' vs'" "mset vs' = mset vs" "room s' = room s" by blast
  have "held (g + c) s'"
    using 2(3,4) ledger_same_room[OF 1(2) 2(5)] unfolding held_def by (metis 2(4))
  with 2(1,2) assms(2) show "\<exists>a s' g'. m s = Inr (a, s') \<and> held (g' + c) s' \<and> tok held Q g' (t a)"
    by blast
qed

lemma tok_drop_held:
  assumes "\<And>s vs. rep s vs \<Longrightarrow> v \<in> set vs \<Longrightarrow>
      \<exists>a s' vs'. m s = Inr (a, s') \<and> rep s' vs' \<and> mset vs = add_mset v (mset vs') \<and> room s' = Suc (room s)"
    and "\<And>a. tok held Q (add_mset Budget g) (t a)"
  shows "tok held Q (add_mset (Item v) g) (atomic m t)"
proof (rule tok_atomic)
  fix c s
  assume "held (add_mset (Item v) g + c) s"
  then obtain vs where 1: "rep s vs" "ledger (add_mset (Item v) (g + c)) s (mset vs) Map.empty"
    by (auto simp: held_def)
  have "v \<in> set vs" using ledger_mem[of "add_mset (Item v) g" c s vs Map.empty v] 1(2) by simp
  from assms(1)[OF 1(1) this] obtain a s' vs' where
    2: "m s = Inr (a, s')" "rep s' vs'" "mset vs = add_mset v (mset vs')" "room s' = Suc (room s)" by blast
  have "ledger (add_mset Budget (g + c)) s' (mset vs') Map.empty"
    using 1(2) 2(3,4) by (intro ledger_drop[of v]) simp_all
  with 2 assms(2) show "\<exists>a s' g'. m s = Inr (a, s') \<and> held (g' + c) s' \<and> tok held Q g' (t a)"
    by (force simp: held_def)
qed

text \<open>An operation that may allocate up to \<open>k\<close> cells and gives at least \<open>r\<close> of them back.\<close>

lemma tok_safe:
  assumes "\<And>s vs. rep s vs \<Longrightarrow> k \<le> room s \<Longrightarrow>
      \<exists>a s' vs'. m s = Inr (a, s') \<and> P a \<and> rep s' vs' \<and> room s + r \<le> room s' + k"
    and "\<And>a. P a \<Longrightarrow> tok safe Q (g + r) (t a)"
  shows "tok safe Q (g + k) (atomic m t)"
proof (rule tok_atomic)
  fix c s
  assume "safe (g + k + c) s"
  then obtain vs where 1: "rep s vs" "g + k + c \<le> room s" by (auto simp: safe_def)
  with assms(1)[OF 1(1)] obtain a s' vs' where
    2: "m s = Inr (a, s')" "P a" "rep s' vs'" "room s + r \<le> room s' + k" by auto
  then have "safe (g + r + c) s'" using 1(2) by (auto simp: safe_def)
  with 2 assms(2) show "\<exists>a s' g'. m s = Inr (a, s') \<and> safe (g' + c) s' \<and> tok safe Q g' (t a)"
    by blast
qed

end

section \<open>Priority queues\<close>

text \<open>\<open>rep s M\<close>: the queue holds the multiset \<open>M\<close>, whatever its internal order is.\<close>

locale min_queue =
  fixes rep :: "('n, 'z) world_scheme \<Rightarrow> int multiset \<Rightarrow> bool"
    and take_min :: "(('n, 'z) world_scheme, int) exec"
  assumes take_min_ok: "rep s (add_mset u N) \<Longrightarrow>
      \<exists>v M s'. take_min s = Inr (v, s') \<and> add_mset u N = add_mset v M \<and> (\<forall>x\<in>#M. v \<le> x) \<and> rep s' M \<and> room s \<le> room s'"
begin

text \<open>Taking out everything sorts.\<close>

lemma drain_sorted:
  "rep s M \<Longrightarrow> \<exists>s'. collect (size M) take_min s = Inr (sorted_list_of_multiset M, s') \<and> rep s' {#} \<and> room s \<le> room s'"
proof (induction "size M" arbitrary: M s)
  case 0
  then show ?case by (simp add: exec_simps)
next
  case (Suc k)
  then obtain u N where M: "M = add_mset u N" by (metis size_eq_Suc_imp_eq_union)
  from take_min_ok[of s u N] Suc.prems M obtain v N' s1 where
    1: "take_min s = Inr (v, s1)" "M = add_mset v N'" "\<forall>x\<in>#N'. v \<le> x" "rep s1 N'" "room s \<le> room s1" by blast
  from Suc.hyps(1)[of N' s1] Suc.hyps(2) 1 obtain s' where
    2: "collect (size N') take_min s1 = Inr (sorted_list_of_multiset N', s')" "rep s' {#}" "room s1 \<le> room s'" by auto
  have "sorted_list_of_multiset M = v # sorted_list_of_multiset N'"
    unfolding 1(2) using 1(3) by (simp add: insort_is_Cons)
  with 1 2 show ?case by (auto simp: exec_simps)
qed

end

text \<open>
  Threads that share a priority queue: \<open>Ins v\<close> records an insertion, \<open>Took v\<close> an extraction,
  \<open>Claim\<close> is the right to one extraction that finds an element, \<open>Space\<close> one allocation.
\<close>

datatype pq_token = Ins int | Took int | Claim | Space

locale claims = min_queue rep take_min
  for rep :: "('n, 'z) world_scheme \<Rightarrow> int multiset \<Rightarrow> bool"
    and take_min :: "(('n, 'z) world_scheme, int) exec" +
  fixes put :: "int \<Rightarrow> (('n, 'z) world_scheme, unit) exec"
  assumes put_ok: "rep s M \<Longrightarrow> 0 < room s \<Longrightarrow>
      \<exists>s'. put v s = Inr ((), s') \<and> rep s' (add_mset v M) \<and> room s - 1 \<le> room s'"
    and take_room: "rep s (add_mset u N) \<Longrightarrow> take_min s = Inr (v, s') \<Longrightarrow> Suc (room s) \<le> room s'"
begin

definition accounted :: "int multiset \<Rightarrow> pq_token multiset \<Rightarrow> ('n, 'z) world_scheme \<Rightarrow> bool" where
  "accounted M0 G s \<longleftrightarrow> (\<exists>M. rep s M \<and> (\<forall>v. count G (Took v) + count M v = count G (Ins v) + count M0 v) \<and>
     count G Claim + size M0 = size M \<and> count G Space \<le> room s)"

lemma accountedI:
  "rep s M \<Longrightarrow> (\<And>v. count G (Took v) + count M v = count G (Ins v) + count M0 v) \<Longrightarrow>
   count G Claim + size M0 = size M \<Longrightarrow> count G Space \<le> room s \<Longrightarrow> accounted M0 G s"
  unfolding accounted_def by blast

lemma tok_put:
  assumes "tok (accounted M0) Q (add_mset (Ins v) (add_mset Claim g)) t"
  shows "tok (accounted M0) Q (add_mset Space g) (atomic (put v) (\<lambda>_. t))"
proof (rule tok_atomic)
  fix c s
  assume "accounted M0 (add_mset Space g + c) s"
  then obtain M where M: "rep s M" "count (g + c) (Took u) + count M u = count (g + c) (Ins u) + count M0 u"
    "count (g + c) Claim + size M0 = size M" "Suc (count (g + c) Space) \<le> room s" for u by (auto simp: accounted_def)
  from put_ok[OF M(1), of v] M(4) obtain s' where
    s': "put v s = Inr ((), s')" "rep s' (add_mset v M)" "room s - 1 \<le> room s'" by auto
  have "accounted M0 (add_mset (Ins v) (add_mset Claim g) + c) s'"
    by (rule accountedI[OF s'(2)]) (use M(2-4) s'(3) in auto)
  with s'(1) assms show "\<exists>a s' g'. put v s = Inr (a, s') \<and> accounted M0 (g' + c) s' \<and> tok (accounted M0) Q g' t" by blast
qed

lemma tok_take:
  assumes "\<And>v. tok (accounted M0) Q (add_mset (Took v) (add_mset Space g)) (t v)"
  shows "tok (accounted M0) Q (add_mset Claim g) (atomic take_min t)"
proof (rule tok_atomic)
  fix c s
  assume "accounted M0 (add_mset Claim g + c) s"
  then obtain M where M: "rep s M" "\<And>u. count (g + c) (Took u) + count M u = count (g + c) (Ins u) + count M0 u"
    "Suc (count (g + c) Claim) + size M0 = size M" "count (g + c) Space \<le> room s" by (auto simp: accounted_def)
  from M(3) obtain u N where N: "M = add_mset u N" by (metis add_Suc size_eq_Suc_imp_eq_union)
  from take_min_ok[of s u N] M(1) N obtain v M' s' where
    s': "take_min s = Inr (v, s')" "M = add_mset v M'" "rep s' M'" by blast
  have "Suc (room s) \<le> room s'" using take_room[of s u N v s'] M(1) N s'(1) by simp
  moreover have "count (add_mset (Took v) (add_mset Space g) + c) (Took w) + count M' w =
      count (add_mset (Took v) (add_mset Space g) + c) (Ins w) + count M0 w" for w
    using M(2)[of w] s'(2) by (auto split: if_splits)
  ultimately have "accounted M0 (add_mset (Took v) (add_mset Space g) + c) s'"
    by (intro accountedI[OF s'(3)]) (use M(3,4) s'(2) in simp_all)
  with s'(1) assms show "\<exists>a s' g'. take_min s = Inr (a, s') \<and> accounted M0 (g' + c) s' \<and> tok (accounted M0) Q g' (t a)"
    by blast
qed

end

end
