(* ===== verification/Stack.thy ===== *)
theory Stack
  imports Bags
begin

text \<open>
  \<^verbatim>\<open>ThreadTrove/stack\<close> and \<^verbatim>\<open>ThreadTrove/stack_1\<close>: two lock-based
  stacks on a linked list of persistent nodes, with the programs that drive them. The first keeps
  its stack in globals, allocates before it takes the mutex and releases after it gave it back;
  the second works under the mutex of its \<^verbatim>\<open>Stack\<close> object throughout. Both are proved to
  implement the same last-in first-out contract.
\<close>

section \<open>State\<close>

record stack_world = "node world" +
  stk_top :: ptr

definition stack_boot :: "nat \<Rightarrow> node \<Rightarrow> stack_world" where
  "stack_boot r j = world.extend (boot r j) \<lparr>stk_top = NULL\<rparr>"

section \<open>stack/stack.h\<close>

text \<open>\<^verbatim>\<open>push\<close>: the allocation before the critical section, then the critical section.\<close>

definition push_alloc :: "int \<Rightarrow> (stack_world, ptr) exec" where
  "push_alloc v =
     bnd pmalloc (\<lambda>new_node.
     if new_node = NULL then raise ExitFailure
     else seq (assign new_node (\<lambda>n. n\<lparr>data := v\<rparr>)) (ret new_node))"

definition push_link :: "ptr \<Rightarrow> (stack_world, unit) exec" where
  "push_link new_node =
     seq (pthread_mutex_lock 0)
     (bnd (gets stk_top) (\<lambda>t.
     seq (assign new_node (\<lambda>n. n\<lparr>nxt := t\<rparr>))
     (seq (modify (\<lambda>s. s\<lparr>stk_top := new_node\<rparr>))
     (pthread_mutex_unlock 0))))"

definition push :: "int \<Rightarrow> (stack_world, unit) exec" where
  "push v = bnd (push_alloc v) push_link"

text \<open>\<^verbatim>\<open>pop\<close>: the critical section, then the release of the unlinked node.\<close>

definition pop_unlink :: "(stack_world, ptr \<times> int) exec" where
  "pop_unlink =
     seq (pthread_mutex_lock 0)
     (bnd (gets stk_top) (\<lambda>temp.
     if temp = NULL then seq (pthread_mutex_unlock 0) (ret (NULL, - 1))
     else
       bnd (deref temp) (\<lambda>n.
       seq (modify (\<lambda>s. s\<lparr>stk_top := nxt n\<rparr>))
       (seq (pthread_mutex_unlock 0) (ret (temp, data n))))))"

definition pop_free :: "ptr \<times> int \<Rightarrow> (stack_world, int) exec" where
  "pop_free r = (case r of (temp, popped_value) \<Rightarrow>
     if temp = NULL then ret popped_value else seq (free temp) (ret popped_value))"

definition pop :: "(stack_world, int) exec" where
  "pop = bnd pop_unlink pop_free"

definition push_loop :: "int list \<Rightarrow> stack_world thread \<Rightarrow> stack_world thread" where
  "push_loop is = t_for is (\<lambda>i k.
     atomic (push_alloc i) (\<lambda>n. atomic (push_link n) (\<lambda>_.
     atomic (printf ''Pushed: %d\<newline>'' [i]) (\<lambda>_. k))))"

definition pop_loop :: "int list \<Rightarrow> stack_world thread \<Rightarrow> stack_world thread" where
  "pop_loop is = t_for is (\<lambda>_ k.
     atomic pop_unlink (\<lambda>r. atomic (pop_free r) (\<lambda>popped_value.
     atomic (if popped_value \<noteq> - 1 then printf ''Popped: %d\<newline>'' [popped_value]
             else printf ''Stack is empty\<newline>'' []) (\<lambda>_. k))))"

definition push_thread_func :: "int \<Rightarrow> stack_world thread" where
  "push_thread_func start = atomic (cint (start + 50)) (\<lambda>_. push_loop [start..start + 49] Done)"

definition pop_thread_func :: "stack_world thread" where
  "pop_thread_func = pop_loop [0..49] Done"

definition stack_thread_func :: "int \<Rightarrow> stack_world thread" where
  "stack_thread_func start =
     atomic (cint (start + 25)) (\<lambda>_. push_loop [start..start + 24] (pop_loop [0..24] Done))"

text \<open>\<^verbatim>\<open>main\<close> of \<^verbatim>\<open>stack/stack.c\<close>, under the interleaving \<open>sched\<close>.\<close>

definition stack_main :: "nat list \<Rightarrow> (stack_world, int) exec" where
  "stack_main sched =
     seq (pthread_mutex_init 0)
     (seq (run_threads sched [stack_thread_func 0, stack_thread_func 25])
     (seq (pthread_mutex_destroy 0) (ret 0)))"

section \<open>stack\_1/stack\_1.h\<close>

definition stack_init :: "(stack_world, unit) exec" where
  "stack_init = seq (modify (\<lambda>s. s\<lparr>stk_top := NULL\<rparr>)) (pthread_mutex_init 0)"

definition stack_is_empty :: "(stack_world, bool) exec" where
  "stack_is_empty = gets (\<lambda>s. stk_top s = NULL)"

definition stack_push :: "int \<Rightarrow> (stack_world, unit) exec" where
  "stack_push v =
     seq (pthread_mutex_lock 0)
     (bnd pmalloc (\<lambda>new_node.
     if new_node = NULL then
       seq (printf ''Memory allocation failed\<newline>'' []) (pthread_mutex_unlock 0)
     else
       seq (assign new_node (\<lambda>n. n\<lparr>data := v\<rparr>))
       (bnd (gets stk_top) (\<lambda>t.
       seq (assign new_node (\<lambda>n. n\<lparr>nxt := t\<rparr>))
       (seq (modify (\<lambda>s. s\<lparr>stk_top := new_node\<rparr>))
       (seq (printf ''Pushed %d\<newline>'' [v])
       (pthread_mutex_unlock 0)))))))"

definition stack_pop :: "(stack_world, int) exec" where
  "stack_pop =
     seq (pthread_mutex_lock 0)
     (bnd stack_is_empty (\<lambda>e.
     if e then seq (pthread_mutex_unlock 0) (seq (printf ''Stack underflow\<newline>'' []) (ret (- 1)))
     else
       bnd (gets stk_top) (\<lambda>temp.
       bnd (deref temp) (\<lambda>n.
       seq (modify (\<lambda>s. s\<lparr>stk_top := nxt n\<rparr>))
       (seq (free temp)
       (seq (printf ''Popped %d\<newline>'' [data n])
       (seq (pthread_mutex_unlock 0) (ret (data n)))))))))"

definition stack_peek :: "(stack_world, int) exec" where
  "stack_peek =
     seq (pthread_mutex_lock 0)
     (bnd stack_is_empty (\<lambda>e.
     if e then seq (pthread_mutex_unlock 0) (seq (printf ''Stack is empty\<newline>'' []) (ret (- 1)))
     else
       bnd (gets stk_top) (\<lambda>t.
       bnd (deref t) (\<lambda>n.
       seq (pthread_mutex_unlock 0) (ret (data n))))))"

definition stack_size :: "(stack_world, int) exec" where
  "stack_size =
     seq (pthread_mutex_lock 0)
     (bnd (gets stk_top) (\<lambda>t.
     bnd (visit_list nxt (\<lambda>n size. cint (size + 1)) t 0) (\<lambda>size.
     seq (pthread_mutex_unlock 0) (ret size))))"

definition stack_clear :: "(stack_world, unit) exec" where
  "stack_clear =
     seq (pthread_mutex_lock 0)
     (seq (clear_list nxt stk_top (\<lambda>p s. s\<lparr>stk_top := p\<rparr>)) (pthread_mutex_unlock 0))"

definition stack_destroy :: "(stack_world, unit) exec" where
  "stack_destroy = pthread_mutex_destroy 0"

text \<open>
  The thread function of \<^verbatim>\<open>stack_1/stack_1.c\<close>, with the value \<open>start\<close> that its call
  of \<^verbatim>\<open>rand\<close> returned, and \<^verbatim>\<open>main\<close> with the two values of its two threads.
\<close>

definition stack_1_thread_func :: "int \<Rightarrow> stack_world thread" where
  "stack_1_thread_func start =
     atomic (cint (start + 10)) (\<lambda>_.
     t_for [start..start + 9] (\<lambda>i k.
       atomic (stack_push i) (\<lambda>_. atomic (printf ''Pushed: %d\<newline>'' [i]) (\<lambda>_. k)))
     (t_for [0..14] (\<lambda>_ k.
       atomic stack_pop (\<lambda>popped_value.
       atomic (if popped_value \<noteq> - 1 then printf ''Popped: %d\<newline>'' [popped_value]
               else printf ''Stack is empty\<newline>'' []) (\<lambda>_. k)))
     (atomic stack_pop (\<lambda>v.
      if v \<noteq> - 1 then atomic (cint (v + 10)) (\<lambda>v'. atomic (stack_push v') (\<lambda>_. Done))
      else Done))))"

primrec drain :: "nat \<Rightarrow> (stack_world, unit) exec" where
  "drain 0 = raise Diverges"
| "drain (Suc k) =
     bnd stack_is_empty (\<lambda>e.
     if e then ret ()
     else bnd stack_pop (\<lambda>v. seq (printf ''%d\<newline>'' [v]) (drain k)))"

definition stack_1_main :: "nat list \<Rightarrow> int \<Rightarrow> int \<Rightarrow> (stack_world, int) exec" where
  "stack_1_main sched rand1 rand2 =
     seq stack_init
     (seq (stack_push 5)
     (seq (stack_push 10)
     (seq (run_threads sched [stack_1_thread_func rand1, stack_1_thread_func rand2])
     (bnd stack_size (\<lambda>n.
     seq (printf ''Final stack size: %d\<newline>'' [n])
     (bnd (gets fresh) (\<lambda>k.
     seq (drain (Suc k))
     (seq stack_destroy (ret 0)))))))))"

section \<open>The last-in first-out contract\<close>

text \<open>
  \<open>rep F s vs\<close>: in state \<open>s\<close> the mutex is free, the stack holds \<open>vs\<close> (top
  first) and the memory beside its nodes is \<open>F\<close>.
\<close>

locale lifo =
  fixes rep :: "(ptr \<rightharpoonup> node) \<Rightarrow> ('z stack_world_scheme) \<Rightarrow> int list \<Rightarrow> bool"
    and push :: "int \<Rightarrow> ('z stack_world_scheme, unit) exec"
    and pop :: "('z stack_world_scheme, int) exec"
  assumes push_ok: "rep F s vs \<Longrightarrow> 0 < room s \<Longrightarrow>
      \<exists>s'. push v s = Inr ((), s') \<and> rep F s' (v # vs) \<and> room s' = room s - 1"
    and pop_Cons: "rep F s (v # vs) \<Longrightarrow>
      \<exists>s'. pop s = Inr (v, s') \<and> rep F s' vs \<and> room s' = Suc (room s)"
    and pop_Nil: "rep F s [] \<Longrightarrow> \<exists>s'. pop s = Inr (- 1, s') \<and> rep F s' [] \<and> room s' = room s"
begin

lemma push_all:
  "rep F s vs \<Longrightarrow> length ws \<le> room s \<Longrightarrow>
   \<exists>s'. for_each ws push s = Inr ((), s') \<and> rep F s' (rev ws @ vs) \<and> room s' = room s - length ws"
proof (induction ws arbitrary: s vs)
  case Nil
  then show ?case by (simp add: exec_simps)
next
  case (Cons w ws)
  from push_ok[OF Cons.prems(1), of w] Cons.prems(2) obtain s1 where
    s1: "push w s = Inr ((), s1)" "rep F s1 (w # vs)" "room s1 = room s - 1" by auto
  with Cons.IH[OF s1(2)] Cons.prems(2) show ?case by (auto simp: exec_simps)
qed

lemma pop_all:
  "rep F s (ws @ vs) \<Longrightarrow>
   \<exists>s'. collect (length ws) pop s = Inr (ws, s') \<and> rep F s' vs \<and> room s' = room s + length ws"
proof (induction ws arbitrary: s)
  case Nil
  then show ?case by (simp add: exec_simps)
next
  case (Cons w ws)
  from Cons.prems have "rep F s (w # (ws @ vs))" by simp
  from pop_Cons[OF this] obtain s1 where
    s1: "pop s = Inr (w, s1)" "rep F s1 (ws @ vs)" "room s1 = Suc (room s)" by blast
  from Cons.IH[OF s1(2)] obtain s2 where
    "collect (length ws) pop s1 = Inr (ws, s2)" "rep F s2 vs" "room s2 = room s1 + length ws" by blast
  with s1 show ?case by (auto simp: exec_simps)
qed

text \<open>What was pushed comes back in reverse order, and the stack, its frame and the memory are as before.\<close>

lemma push_then_pop:
  assumes "rep F s vs" and "length ws \<le> room s"
  shows "\<exists>s'. seq (for_each ws push) (collect (length ws) pop) s = Inr (rev ws, s') \<and>
     rep F s' vs \<and> room s' = room s"
proof -
  from push_all[OF assms] obtain s1 where
    s1: "for_each ws push s = Inr ((), s1)" "rep F s1 (rev ws @ vs)" "room s1 = room s - length ws" by blast
  from pop_all[OF s1(2)] s1 assms(2) show ?thesis by (auto simp: exec_simps)
qed

end

definition stack_rep :: "(ptr \<rightharpoonup> node) \<Rightarrow> stack_world \<Rightarrow> int list \<Rightarrow> bool" where
  "stack_rep F s vs \<longleftrightarrow> locks s 0 = Free \<and>
     (\<exists>xs. owns nxt s (stk_top s) xs F \<and> map (\<lambda>x. data (snd x)) xs = vs)"

lemma owns_stk_top [simp]: "owns nx (stk_top_update f s) p xs F = owns nx s p xs F"
  by (rule owns_cong) simp_all

lemma stack_repE:
  assumes "stack_rep F s vs"
  obtains xs where "locks s 0 = Free" "owns nxt s (stk_top s) xs F" "vs = map (\<lambda>x. data (snd x)) xs"
  using assms by (auto simp: stack_rep_def)

lemma stack_rep_out [simp]: "stack_rep F (out_update f s) vs = stack_rep F s vs"
  by (simp add: stack_rep_def)

lemma stack_rep_null: "stack_rep F s vs \<Longrightarrow> stk_top s = NULL \<longleftrightarrow> vs = []"
  by (auto elim!: stack_repE dest: owns_null_iff)

subsection \<open>The sections of push and pop\<close>

lemma push_alloc_ok:
  assumes "stack_rep F s vs" and "0 < room s"
  shows "\<exists>p n s'. push_alloc v s = Inr (p, s') \<and> stack_rep (F(p \<mapsto> n)) s' vs \<and> data n = v \<and>
     F p = None \<and> room s' = room s - 1"
proof -
  from assms(1) obtain xs where r: "locks s 0 = Free" "owns nxt s (stk_top s) xs F"
    "vs = map (\<lambda>x. data (snd x)) xs" by (rule stack_repE)
  let ?n = "(junk s)\<lparr>data := v\<rparr>"
  let ?s = "s\<lparr>cells := (cells s)(fresh s \<mapsto> ?n), fresh := Suc (fresh s), room := room s - 1\<rparr>"
  have "push_alloc v s = Inr (fresh s, ?s)"
    using assms(2) owns_wf[OF r(2)] by (simp add: push_alloc_def exec_simps)
  moreover have "owns nxt ?s (stk_top s) xs (F(fresh s \<mapsto> ?n))"
    by (rule owns_alloc[OF r(2)]) simp_all
  then have "stack_rep (F(fresh s \<mapsto> ?n)) ?s vs" using r by (auto simp: stack_rep_def)
  ultimately show ?thesis using owns_fresh[OF r(2)]
    by (intro exI[of _ "fresh s"] exI[of _ ?n] exI[of _ ?s]) simp
qed

lemma push_link_ok:
  assumes "stack_rep F s vs" and "F p = Some n"
  shows "\<exists>s'. push_link p s = Inr ((), s') \<and> stack_rep (F(p := None)) s' (data n # vs) \<and> room s' = room s"
proof -
  from assms(1) obtain xs where r: "locks s 0 = Free" "owns nxt s (stk_top s) xs F"
    "vs = map (\<lambda>x. data (snd x)) xs" by (rule stack_repE)
  let ?n = "n\<lparr>nxt := stk_top s\<rparr>"
  let ?s = "s\<lparr>cells := (cells s)(p \<mapsto> ?n), stk_top := p\<rparr>"
  have "push_link p s = Inr ((), ?s)"
    using r(1) owns_frame[OF r(2) assms(2)] by (simp add: push_link_def exec_simps)
  moreover have "owns nxt ?s (stk_top s) xs (F(p \<mapsto> ?n))"
    by (rule owns_frame_upd[OF r(2) assms(2)]) simp_all
  from owns_link_front[OF this, of p ?n] have "owns nxt ?s p ((p, ?n) # xs) (F(p := None))" by simp
  then have "stack_rep (F(p := None)) ?s (data n # vs)"
    using r by (force simp: stack_rep_def)
  ultimately show ?thesis by simp
qed

lemma pop_unlink_Cons:
  assumes "stack_rep F s (v # vs)"
  shows "\<exists>p n s'. pop_unlink s = Inr ((p, v), s') \<and> p \<noteq> NULL \<and> F p = None \<and>
     stack_rep (F(p \<mapsto> n)) s' vs \<and> room s' = room s"
proof -
  from assms obtain p n xs where r: "locks s 0 = Free" "owns nxt s (stk_top s) ((p, n) # xs) F"
    "v = data n" "vs = map (\<lambda>x. data (snd x)) xs"
    by (elim stack_repE map_snd_ConsE) auto
  from owns_Cons[OF r(2)] have p: "p = stk_top s" "p \<noteq> NULL" "cells s p = Some n" by auto
  have "F p = None" using r(2) by (auto simp: owns_def)
  have "pop_unlink s = Inr ((p, v), s\<lparr>stk_top := nxt n\<rparr>)"
    using r p by (simp add: pop_unlink_def exec_simps)
  moreover have "stack_rep (F(p \<mapsto> n)) (s\<lparr>stk_top := nxt n\<rparr>) vs"
    using owns_unlink_front[OF r(2)] r by (auto simp: stack_rep_def)
  ultimately show ?thesis using p \<open>F p = None\<close>
    by (intro exI[of _ p] exI[of _ n] exI[of _ "s\<lparr>stk_top := nxt n\<rparr>"]) simp
qed

lemma pop_unlink_Nil:
  assumes "stack_rep F s []"
  shows "\<exists>s'. pop_unlink s = Inr ((NULL, - 1), s') \<and> stack_rep F s' [] \<and> room s' = room s"
  using assms stack_rep_null[OF assms]
  by (auto elim!: stack_repE simp: pop_unlink_def exec_simps stack_rep_def)

lemma pop_free_ok:
  assumes "stack_rep F s vs" and "F p = Some n"
  shows "\<exists>s'. pop_free (p, v) s = Inr (v, s') \<and> stack_rep (F(p := None)) s' vs \<and> room s' = Suc (room s)"
proof -
  from assms(1) obtain xs where r: "locks s 0 = Free" "owns nxt s (stk_top s) xs F"
    "vs = map (\<lambda>x. data (snd x)) xs" by (rule stack_repE)
  let ?s = "s\<lparr>cells := (cells s)(p := None), room := Suc (room s)\<rparr>"
  have "pop_free (p, v) s = Inr (v, ?s)"
    using owns_frame[OF r(2) assms(2)] by (simp add: pop_free_def exec_simps)
  moreover have "owns nxt ?s (stk_top s) xs (F(p := None))"
    by (rule owns_frame_upd[OF r(2) assms(2)]) simp_all
  then have "stack_rep (F(p := None)) ?s vs" using r by (auto simp: stack_rep_def)
  ultimately show ?thesis by simp
qed

lemma push_ok:
  assumes "stack_rep F s vs" and "0 < room s"
  shows "\<exists>s'. push v s = Inr ((), s') \<and> stack_rep F s' (v # vs) \<and> room s' = room s - 1"
proof -
  from push_alloc_ok[OF assms] obtain p n s1 where
    1: "push_alloc v s = Inr (p, s1)" "stack_rep (F(p \<mapsto> n)) s1 vs" "data n = v" "F p = None"
      "room s1 = room s - 1" by blast
  from push_link_ok[OF 1(2), of p n] obtain s2 where
    2: "push_link p s1 = Inr ((), s2)" "stack_rep (F(p \<mapsto> n, p := None)) s2 (data n # vs)"
      "room s2 = room s1" by auto
  moreover have "F(p \<mapsto> n, p := None) = F" using 1(4) by auto
  ultimately show ?thesis using 1 by (auto simp: push_def exec_simps)
qed

lemma pop_Cons:
  assumes "stack_rep F s (v # vs)"
  shows "\<exists>s'. pop s = Inr (v, s') \<and> stack_rep F s' vs \<and> room s' = Suc (room s)"
proof -
  from pop_unlink_Cons[OF assms] obtain p n s1 where
    1: "pop_unlink s = Inr ((p, v), s1)" "F p = None" "stack_rep (F(p \<mapsto> n)) s1 vs" "room s1 = room s"
    by blast
  from pop_free_ok[OF 1(3), of p n v] obtain s2 where
    2: "pop_free (p, v) s1 = Inr (v, s2)" "stack_rep (F(p \<mapsto> n, p := None)) s2 vs"
      "room s2 = Suc (room s1)" by auto
  moreover have "F(p \<mapsto> n, p := None) = F" using 1(2) by auto
  ultimately show ?thesis using 1 by (auto simp: pop_def exec_simps)
qed

lemma pop_Nil:
  assumes "stack_rep F s []"
  shows "\<exists>s'. pop s = Inr (- 1, s') \<and> stack_rep F s' [] \<and> room s' = room s"
  using pop_unlink_Nil[OF assms] by (auto simp: pop_def pop_free_def exec_simps)

interpretation stk0: lifo stack_rep push pop
  by unfold_locales (fact push_ok pop_Cons pop_Nil)+

subsection \<open>The operations of stack\_1\<close>

lemma stack_push_ok:
  assumes "stack_rep F s vs" and "0 < room s"
  shows "\<exists>s'. stack_push v s = Inr ((), s') \<and> stack_rep F s' (v # vs) \<and> room s' = room s - 1"
proof -
  from assms(1) obtain xs where r: "locks s 0 = Free" "owns nxt s (stk_top s) xs F"
    "vs = map (\<lambda>x. data (snd x)) xs" by (rule stack_repE)
  let ?n = "(junk s)\<lparr>data := v, nxt := stk_top s\<rparr>"
  let ?s = "s\<lparr>cells := (cells s)(fresh s \<mapsto> ?n), fresh := Suc (fresh s), room := room s - 1,
     stk_top := fresh s, out := out s @ [(''Pushed %d\<newline>'', [v])]\<rparr>"
  have "stack_push v s = Inr ((), ?s)"
    using assms(2) r(1) owns_wf[OF r(2)] by (simp add: stack_push_def exec_simps)
  moreover have "owns nxt ?s (stk_top s) xs (F(fresh s \<mapsto> ?n))"
    by (rule owns_alloc[OF r(2)]) simp_all
  from owns_link_front[OF this, of "fresh s" ?n] owns_fresh[OF r(2)]
  have "owns nxt ?s (fresh s) ((fresh s, ?n) # xs) F" by (simp add: fun_upd_idem)
  then have "stack_rep F ?s (v # vs)" using r by (force simp: stack_rep_def)
  ultimately show ?thesis by simp
qed

text \<open>Out of memory, \<^verbatim>\<open>stack_push\<close> says so and leaves the stack as it is.\<close>

lemma stack_push_full:
  assumes "stack_rep F s vs" and "room s = 0"
  shows "stack_push v s = Inr ((), s\<lparr>out := out s @ [(''Memory allocation failed\<newline>'', [])]\<rparr>)"
  using assms by (auto elim!: stack_repE simp: stack_push_def exec_simps)

lemma stack_pop_Cons:
  assumes "stack_rep F s (v # vs)"
  shows "\<exists>s'. stack_pop s = Inr (v, s') \<and> stack_rep F s' vs \<and> room s' = Suc (room s)"
proof -
  from assms obtain p n xs where r: "locks s 0 = Free" "owns nxt s (stk_top s) ((p, n) # xs) F"
    "v = data n" "vs = map (\<lambda>x. data (snd x)) xs"
    by (elim stack_repE map_snd_ConsE) auto
  from owns_Cons[OF r(2)] have p: "p = stk_top s" "p \<noteq> NULL" "cells s p = Some n" by auto
  have "F p = None" using r(2) by (auto simp: owns_def)
  let ?s = "s\<lparr>stk_top := nxt n, cells := (cells s)(p := None), room := Suc (room s),
     out := out s @ [(''Popped %d\<newline>'', [v])]\<rparr>"
  have "stack_pop s = Inr (v, ?s)"
    using r p by (simp add: stack_pop_def stack_is_empty_def exec_simps)
  moreover have "owns nxt ?s (nxt n) xs (F(p \<mapsto> n, p := None))"
    by (rule owns_frame_upd[OF owns_unlink_front[OF r(2)]]) simp_all
  then have "owns nxt ?s (nxt n) xs F" using \<open>F p = None\<close> by (simp add: fun_upd_idem)
  then have "stack_rep F ?s vs" using r by (auto simp: stack_rep_def)
  ultimately show ?thesis by simp
qed

lemma stack_pop_Nil:
  assumes "stack_rep F s []"
  shows "\<exists>s'. stack_pop s = Inr (- 1, s') \<and> stack_rep F s' [] \<and> room s' = room s"
  using assms stack_rep_null[OF assms]
  by (auto elim!: stack_repE simp: stack_pop_def stack_is_empty_def exec_simps stack_rep_def)

interpretation stk1: lifo stack_rep stack_push stack_pop
  by unfold_locales (fact stack_push_ok stack_pop_Cons stack_pop_Nil)+

lemma stack_peek_ok:
  assumes "stack_rep F s vs"
  shows "\<exists>s'. stack_peek s = Inr (case vs of [] \<Rightarrow> - 1 | v # _ \<Rightarrow> v, s') \<and> stack_rep F s' vs"
proof -
  from assms obtain xs where r: "locks s 0 = Free" "owns nxt s (stk_top s) xs F"
    "vs = map (\<lambda>x. data (snd x)) xs" by (rule stack_repE)
  show ?thesis
  proof (cases xs)
    case Nil
    with r have "stk_top s = NULL" by (simp add: owns_null_iff)
    with r Nil assms show ?thesis
      by (simp add: stack_peek_def stack_is_empty_def exec_simps)
  next
    case (Cons x ys)
    with owns_Cons[of nxt s "stk_top s" x ys F] r
    have "stk_top s \<noteq> NULL" "cells s (stk_top s) = Some (snd x)" by auto
    with r Cons assms show ?thesis
      by (simp add: stack_peek_def stack_is_empty_def exec_simps)
  qed
qed

lemma stack_size_ok:
  assumes "stack_rep F s vs" and "int (length vs) \<le> INT_MAX"
  shows "stack_size s = Inr (int (length vs), s)"
proof -
  from assms(1) obtain xs where r: "locks s 0 = Free" "owns nxt s (stk_top s) xs F"
    "vs = map (\<lambda>x. data (snd x)) xs" by (rule stack_repE)
  let ?s = "s\<lparr>locks := (locks s)(0 := Held)\<rparr>"
  have "visit_list nxt (\<lambda>n size. cint (size + 1)) (stk_top s) 0 ?s = Inr (int (length xs), ?s)"
    using r assms(2) by (intro visit_list_count[where F = F]) auto
  with r show ?thesis by (simp add: stack_size_def exec_simps)
qed

lemma stack_clear_ok:
  assumes "stack_rep F s vs"
  shows "\<exists>s'. stack_clear s = Inr ((), s') \<and> stack_rep F s' [] \<and> room s' = room s + length vs \<and> cells s' = F"
proof -
  from assms obtain xs where r: "locks s 0 = Free" "owns nxt s (stk_top s) xs F"
    "vs = map (\<lambda>x. data (snd x)) xs" by (rule stack_repE)
  let ?s = "s\<lparr>locks := (locks s)(0 := Held)\<rparr>"
  have "\<exists>s'. clear_list nxt stk_top (\<lambda>p s. s\<lparr>stk_top := p\<rparr>) ?s = Inr ((), s') \<and> stk_top s' = NULL \<and>
      cells s' = F \<and> room s' = room ?s + length xs \<and> fresh s' = fresh ?s \<and> locks s' = locks ?s \<and> out s' = out ?s"
    by (rule clear_list_spec) (use r in simp_all)
  then obtain s1 where s1: "clear_list nxt stk_top (\<lambda>p s. s\<lparr>stk_top := p\<rparr>) ?s = Inr ((), s1)"
    "stk_top s1 = NULL" "cells s1 = F" "room s1 = room s + length xs" "fresh s1 = fresh s"
    "locks s1 = (locks s)(0 := Held)" by auto
  have "owns nxt s1 NULL [] F" by (rule owns_released[OF r(2) s1(3,5)])
  with s1 r show ?thesis by (auto simp: stack_clear_def exec_simps stack_rep_def)
qed

section \<open>The program of stack.c\<close>

interpretation stk: bag_take stack_rep data "\<lambda>_. True" push_alloc push_link pop_unlink pop_free
proof unfold_locales
  fix F s vs p n
  assume "stack_rep F s vs" and "F p = Some n"
  from push_link_ok[OF this] show "\<exists>s' vs'. push_link p s = Inr ((), s') \<and> stack_rep (F(p := None)) s' vs' \<and>
      mset vs' = add_mset (data n) (mset vs) \<and> room s' = room s" by force
next
  fix F s vs
  assume "stack_rep F s vs" and "vs \<noteq> []"
  then show "\<exists>p n v vs' s'. pop_unlink s = Inr ((p, v), s') \<and> p \<noteq> NULL \<and> F p = None \<and>
      stack_rep (F(p \<mapsto> n)) s' vs' \<and> mset vs = add_mset v (mset vs') \<and> room s' = room s"
    by (cases vs) (force dest: pop_unlink_Cons)+
next
  fix F s vs v
  assume "stack_rep F s vs" and "0 < room s"
  from push_alloc_ok[OF this] show "\<exists>p n s'. push_alloc v s = Inr (p, s') \<and> stack_rep (F(p \<mapsto> n)) s' vs \<and>
      data n = v \<and> True \<and> F p = None \<and> room s' = room s - 1" by simp
qed (fact pop_unlink_Nil pop_free_ok | simp add: pop_free_def exec_simps)+

abbreviation stack_inv :: "(unit, node) token multiset \<Rightarrow> stack_world \<Rightarrow> bool" where
  "stack_inv \<equiv> stk.shared (\<lambda>_. ())"

lemma tok_push_loop:
  assumes "tok stack_inv Q (holding (m + length is) k) t"
  shows "tok stack_inv Q (holding m (k + length is)) (push_loop is t)"
  using assms
proof (induction "is" arbitrary: m)
  case Nil
  then show ?case by (simp add: push_loop_def)
next
  case (Cons i "is")
  have "tok stack_inv Q (holding (Suc m) (k + length is)) (push_loop is t)"
    using Cons.IH[of "Suc m"] Cons.prems by simp
  then have "tok stack_inv Q (add_mset (Item ()) (holding m (k + length is)))
      (atomic (printf ''Pushed: %d\<newline>'' [i]) (\<lambda>_. push_loop is t))"
    by (intro stk.tok_print_shared) simp
  from stk.tok_put_shared[OF this] show ?case by (simp add: push_loop_def)
qed

lemma tok_pop_loop:
  assumes "tok stack_inv Q (holding m (k + length is)) t"
  shows "tok stack_inv Q (holding (m + length is) k) (pop_loop is t)"
  using assms
proof (induction "is" arbitrary: k)
  case Nil
  then show ?case by (simp add: pop_loop_def)
next
  case (Cons i "is")
  have *: "tok stack_inv Q (holding (m + length is) (Suc k)) (pop_loop is t)"
    using Cons.IH[of "Suc k"] Cons.prems by simp
  have "tok stack_inv Q (add_mset Budget (holding (m + length is) k))
      (atomic (if v \<noteq> - 1 then printf ''Popped: %d\<newline>'' [v] else printf ''Stack is empty\<newline>'' [])
        (\<lambda>_. pop_loop is t))" for v
    using * by (cases "v = - 1") (auto intro!: stk.tok_print_shared)
  from stk.tok_take_shared[OF this] show ?case by (simp add: pop_loop_def)
qed

lemma tok_stack_thread_func:
  assumes "int_range (start + 25)"
  shows "tok stack_inv (\<lambda>g. g = holding 0 25) (holding 0 25) (stack_thread_func start)"
proof -
  have "tok stack_inv (\<lambda>g. g = holding 0 25) (holding 25 0) (pop_loop [0..24] Done)"
    using tok_pop_loop[of "\<lambda>g. g = holding 0 25" 0 0 "[0..24]" Done] by (simp add: tok_done)
  then have "tok stack_inv (\<lambda>g. g = holding 0 25) (holding 0 25)
      (push_loop [start..start + 24] (pop_loop [0..24] Done))"
    using tok_push_loop[of _ 0 "[start..start + 24]" 0] by simp
  with assms show ?thesis
    unfolding stack_thread_func_def by (intro tok_atomic) (auto simp: exec_simps)
qed

section \<open>Properties\<close>

lemma stack_rep_boot: "stack_rep Map.empty ((stack_boot r j)\<lparr>locks := (\<lambda>_. Uninit)(0 := Free)\<rparr>) []"
  by (simp add: stack_rep_def stack_boot_def world.defs boot_def wf_world_def)

text \<open>C1: \<^verbatim>\<open>stack/stack.c\<close> under every interleaving of its two threads: with memory for the
  50 nodes it pushes the program never faults, ends, and leaves an empty stack whose nodes have all been
  released and a destroyed mutex.\<close>

theorem stack_main_ok:
  assumes "50 \<le> r"
  shows "\<exists>s'. stack_main sched (stack_boot r j) = Inr (0, s') \<and> stk_top s' = NULL \<and>
     cells s' = Map.empty \<and> locks s' 0 = Destroyed \<and> 50 \<le> room s'"
proof -
  let ?s = "(stack_boot r j)\<lparr>locks := (\<lambda>_. Uninit)(0 := Free)\<rparr>"
  let ?ts = "[stack_thread_func 0, stack_thread_func 25]"
  have room: "room ?s = r" by (simp add: stack_boot_def world.defs boot_def)
  have "stack_inv (holding 0 25 + holding 0 25) ?s"
    using stk.shared_start[OF stack_rep_boot, of 50 r j] assms room by (simp add: replicate_mset_add)
  then obtain s1 where
    1: "run_threads sched ?ts ?s = Inr ((), s1)" "stack_inv (holding 0 25 + holding 0 25) s1"
    using run_two[OF tok_stack_thread_func[of 0] tok_stack_thread_func[of 25], of ?s sched]
    by (auto simp: int_range_defs)
  from 1(2) have "stack_inv (holding 0 50) s1" by (simp add: replicate_mset_add)
  from stk.shared_holding[OF this] have 2: "stack_rep Map.empty s1 []" "50 \<le> room s1" by auto
  then have "locks s1 0 = Free" "stk_top s1 = NULL" "cells s1 = Map.empty"
    by (auto elim!: stack_repE dest: owns_first)
  moreover have "pthread_mutex_init 0 (stack_boot r j) = Inr ((), ?s)"
    by (simp add: exec_simps stack_boot_def world.defs boot_def)
  ultimately show ?thesis using 1(1) 2(2)
    by (simp add: stack_main_def exec_simps)
qed

theorem stack_main_ok_witness:
  "\<exists>s'. stack_main [0, 1, 1, 0] (stack_boot 50 node0) = Inr (0, s') \<and> stk_top s' = NULL \<and>
     cells s' = Map.empty \<and> locks s' 0 = Destroyed \<and> 50 \<le> room s'"
  by (rule stack_main_ok) simp

text \<open>Last-in first-out for \<^verbatim>\<open>stack_push\<close> and \<^verbatim>\<open>stack_pop\<close> of
  \<^verbatim>\<open>stack_1.h\<close>: any sequence pushed with memory available is popped in reverse order, and the
  stack below, all other memory and the amount of free memory are what they were.\<close>

theorem stack_1_lifo:
  assumes "stack_rep F s vs" and "length ws \<le> room s"
  shows "\<exists>s'. seq (for_each ws stack_push) (collect (length ws) stack_pop) s = Inr (rev ws, s') \<and>
     stack_rep F s' vs \<and> room s' = room s"
  using assms by (rule stk1.push_then_pop)

theorem stack_1_lifo_witness:
  "\<exists>s'. seq (for_each [7, 8] stack_push) (collect 2 stack_pop)
       ((stack_boot 3 node0)\<lparr>locks := (\<lambda>_. Uninit)(0 := Free)\<rparr>) = Inr ([8, 7], s') \<and>
     stack_rep Map.empty s' [] \<and> room s' = 3"
  using stack_1_lifo[OF stack_rep_boot, of "[7, 8]" 3 node0]
  by (simp add: stack_boot_def world.defs boot_def numeral_2_eq_2)

text \<open>\<^verbatim>\<open>stack/stack.h\<close> keeps the same contract although it allocates and releases
  outside its critical sections.\<close>

theorem stack_lifo:
  assumes "stack_rep F s vs" and "length ws \<le> room s"
  shows "\<exists>s'. seq (for_each ws push) (collect (length ws) pop) s = Inr (rev ws, s') \<and>
     stack_rep F s' vs \<and> room s' = room s"
  using assms by (rule stk0.push_then_pop)

theorem stack_lifo_witness:
  "\<exists>s'. seq (for_each [7, 8] push) (collect 2 pop)
       ((stack_boot 3 node0)\<lparr>locks := (\<lambda>_. Uninit)(0 := Free)\<rparr>) = Inr ([8, 7], s') \<and>
     stack_rep Map.empty s' [] \<and> room s' = 3"
  using stack_lifo[OF stack_rep_boot, of "[7, 8]" 3 node0]
  by (simp add: stack_boot_def world.defs boot_def numeral_2_eq_2)

end
