(* ===== verification/SList.thy ===== *)
theory SList
  imports Bags
begin

text \<open>
  \<^verbatim>\<open>ThreadTrove/list\<close> and \<^verbatim>\<open>ThreadTrove/list_1\<close>: lock-based singly linked lists
  on persistent nodes. The first inserts at the front of a global list, allocating outside the
  critical section; the second is a list object with a size field and a full set of operations, each
  one critical section. Every operation is shown to be the obvious function on the sequence
  of values, to leave other memory alone and to leak nothing.
\<close>

section \<open>list/list.h and list/list.c\<close>

record list_world = "node world" +
  lst_head :: ptr

definition list_boot :: "nat \<Rightarrow> node \<Rightarrow> list_world" where
  "list_boot r j = world.extend (boot r j) \<lparr>lst_head = NULL\<rparr>"

text \<open>\<^verbatim>\<open>insert\<close> does not test the result of \<^verbatim>\<open>pmalloc\<close>.\<close>

definition insert_alloc :: "int \<Rightarrow> (list_world, ptr) exec" where
  "insert_alloc v =
     bnd pmalloc (\<lambda>new_node.
     seq (assign new_node (\<lambda>n. n\<lparr>data := v\<rparr>)) (ret new_node))"

definition insert_link :: "ptr \<Rightarrow> (list_world, unit) exec" where
  "insert_link new_node =
     seq (pthread_mutex_lock 0)
     (bnd (gets lst_head) (\<lambda>h.
     seq (assign new_node (\<lambda>n. n\<lparr>nxt := h\<rparr>))
     (seq (modify (\<lambda>s. s\<lparr>lst_head := new_node\<rparr>))
     (pthread_mutex_unlock 0))))"

definition list_insert :: "int \<Rightarrow> (list_world, unit) exec" where
  "list_insert v = bnd (insert_alloc v) insert_link"

definition list_thread_func :: "int \<Rightarrow> list_world thread" where
  "list_thread_func start =
     atomic (cint (start + 50)) (\<lambda>_.
     t_for [start..start + 49] (\<lambda>i k. atomic (insert_alloc i) (\<lambda>n. atomic (insert_link n) (\<lambda>_. k))) Done)"

definition list_main :: "nat list \<Rightarrow> (list_world, int) exec" where
  "list_main sched =
     seq (pthread_mutex_init 0)
     (seq (run_threads sched [list_thread_func 0, list_thread_func 50])
     (bnd (gets lst_head) (\<lambda>temp.
     seq (visit_list nxt (\<lambda>n _. printf ''%d '' [data n]) temp ())
     (seq (printf ''\<newline>'' [])
     (seq (pthread_mutex_destroy 0)
     (seq (clear_list nxt lst_head (\<lambda>p s. s\<lparr>lst_head := p\<rparr>))
     (ret 0)))))))"

definition list_rep :: "(ptr \<rightharpoonup> node) \<Rightarrow> list_world \<Rightarrow> int list \<Rightarrow> bool" where
  "list_rep F s vs \<longleftrightarrow> locks s 0 = Free \<and>
     (\<exists>xs. owns nxt s (lst_head s) xs F \<and> map (\<lambda>x. data (snd x)) xs = vs)"

lemma owns_lst_head [simp]: "owns nx (lst_head_update f s) p xs F = owns nx s p xs F"
  by (rule owns_cong) simp_all

lemma list_repE:
  assumes "list_rep F s vs"
  obtains xs where "locks s 0 = Free" "owns nxt s (lst_head s) xs F" "vs = map (\<lambda>x. data (snd x)) xs"
  using assms by (auto simp: list_rep_def)

lemma insert_alloc_ok:
  assumes "list_rep F s vs" and "0 < room s"
  shows "\<exists>p n s'. insert_alloc v s = Inr (p, s') \<and> list_rep (F(p \<mapsto> n)) s' vs \<and> data n = v \<and>
     F p = None \<and> room s' = room s - 1 \<and> out s' = out s"
proof -
  from assms(1) obtain xs where r: "locks s 0 = Free" "owns nxt s (lst_head s) xs F"
    "vs = map (\<lambda>x. data (snd x)) xs" by (rule list_repE)
  let ?n = "(junk s)\<lparr>data := v\<rparr>"
  let ?s = "s\<lparr>cells := (cells s)(fresh s \<mapsto> ?n), fresh := Suc (fresh s), room := room s - 1\<rparr>"
  have "insert_alloc v s = Inr (fresh s, ?s)"
    using assms(2) owns_wf[OF r(2)] by (simp add: insert_alloc_def exec_simps)
  moreover have "owns nxt ?s (lst_head s) xs (F(fresh s \<mapsto> ?n))"
    by (rule owns_alloc[OF r(2)]) simp_all
  then have "list_rep (F(fresh s \<mapsto> ?n)) ?s vs" using r by (auto simp: list_rep_def)
  ultimately show ?thesis using owns_fresh[OF r(2)]
    by (intro exI[of _ "fresh s"] exI[of _ ?n] exI[of _ ?s]) simp
qed

lemma insert_link_ok:
  assumes "list_rep F s vs" and "F p = Some n"
  shows "\<exists>s' vs'. insert_link p s = Inr ((), s') \<and> list_rep (F(p := None)) s' vs' \<and>
     mset vs' = add_mset (data n) (mset vs) \<and> room s' = room s \<and> out s' = out s"
proof -
  from assms(1) obtain xs where r: "locks s 0 = Free" "owns nxt s (lst_head s) xs F"
    "vs = map (\<lambda>x. data (snd x)) xs" by (rule list_repE)
  let ?n = "n\<lparr>nxt := lst_head s\<rparr>"
  let ?s = "s\<lparr>cells := (cells s)(p \<mapsto> ?n), lst_head := p\<rparr>"
  have "insert_link p s = Inr ((), ?s)"
    using r(1) owns_frame[OF r(2) assms(2)] by (simp add: insert_link_def exec_simps)
  moreover have "owns nxt ?s (lst_head s) xs (F(p \<mapsto> ?n))"
    by (rule owns_frame_upd[OF r(2) assms(2)]) simp_all
  from owns_link_front[OF this, of p ?n] have "owns nxt ?s p ((p, ?n) # xs) (F(p := None))" by simp
  then have "list_rep (F(p := None)) ?s (data n # vs)"
    using r by (force simp: list_rep_def)
  ultimately show ?thesis by (intro exI[of _ ?s] exI[of _ "data n # vs"]) simp
qed

text \<open>The threads of \<^verbatim>\<open>list.c\<close> print nothing.\<close>

interpretation lst: bag "\<lambda>F s vs. list_rep F s vs \<and> out s = []" data "\<lambda>_. True" insert_alloc insert_link
  by unfold_locales (metis insert_alloc_ok, metis insert_link_ok)

abbreviation list_inv :: "(int, node) token multiset \<Rightarrow> list_world \<Rightarrow> bool" where
  "list_inv \<equiv> lst.shared (\<lambda>v. v)"

lemma tok_insert_loop:
  assumes "tok list_inv Q (inserted (vs @ is) 0) t"
  shows "tok list_inv Q (inserted vs (length is))
     (t_for is (\<lambda>i k. atomic (insert_alloc i) (\<lambda>n. atomic (insert_link n) (\<lambda>_. k))) t)"
  using assms
proof (induction "is" arbitrary: vs)
  case Nil
  then show ?case by simp
next
  case (Cons i "is")
  let ?loop = "t_for is (\<lambda>i k. atomic (insert_alloc i) (\<lambda>n. atomic (insert_link n) (\<lambda>_. k))) t"
  have "tok list_inv Q (inserted (vs @ [i]) (length is)) ?loop"
    using Cons.IH[of "vs @ [i]"] Cons.prems by simp
  then have "tok list_inv Q (add_mset (Item i) (inserted vs (length is))) ?loop" by simp
  from lst.tok_put_shared[OF this] show ?case by simp
qed

lemma tok_list_thread_func:
  assumes "int_range (start + 50)"
  shows "tok list_inv (\<lambda>g. g = inserted [start..start + 49] 0) (inserted [] 50) (list_thread_func start)"
proof -
  let ?Q = "\<lambda>g :: (int, node) token multiset. g = inserted [start..start + 49] 0"
  have "tok list_inv ?Q (inserted [] (length [start..start + 49]))
     (t_for [start..start + 49] (\<lambda>i k. atomic (insert_alloc i) (\<lambda>n. atomic (insert_link n) (\<lambda>_. k))) Done)"
    by (rule tok_insert_loop) (simp add: tok_done)
  with assms show ?thesis
    unfolding list_thread_func_def by (intro tok_atomic) (auto simp: exec_simps)
qed

lemma list_rep_boot: "list_rep Map.empty ((list_boot r j)\<lparr>locks := (\<lambda>_. Uninit)(0 := Free)\<rparr>) []"
  by (simp add: list_rep_def list_boot_def world.defs boot_def wf_world_def)

text \<open>C2: \<^verbatim>\<open>list/list.c\<close> under every interleaving of its two threads, with memory for
  its 100 nodes: it ends without a fault, prints each of the numbers 0 to 99 exactly once in some order,
  releases every node and destroys the mutex.\<close>

theorem list_main_ok:
  assumes "100 \<le> r"
  shows "\<exists>s' vs. list_main sched (list_boot r j) = Inr (0, s') \<and>
     out s' = map (\<lambda>v. (''%d '', [v])) vs @ [(''\<newline>'', [])] \<and> mset vs = mset [0..99] \<and>
     cells s' = Map.empty \<and> lst_head s' = NULL \<and> locks s' 0 = Destroyed"
proof -
  let ?s = "(list_boot r j)\<lparr>locks := (\<lambda>_. Uninit)(0 := Free)\<rparr>"
  let ?ts = "[list_thread_func 0, list_thread_func 50]"
  have "list_inv (inserted [] 50 + inserted [] 50) ?s"
    using lst.shared_start[of ?s 100] list_rep_boot[of r j] assms
    by (simp add: replicate_mset_add list_boot_def world.defs boot_def)
  then obtain s1 where 1: "run_threads sched ?ts ?s = Inr ((), s1)"
    "list_inv (inserted [0..49] 0 + inserted [50..99] 0) s1"
    using run_two[OF tok_list_thread_func[of 0] tok_list_thread_func[of 50], of ?s sched]
    by (auto simp: int_range_defs)
  have "[0..49] @ [50..99] = [0..99 :: int]" by (rule upto_join) simp_all
  then have "mset [0..99 :: int] = mset [0..49] + mset [50..99]" by (metis mset_append)
  with 1(2) have "list_inv (inserted [0..99] 0) s1" by (simp del: upto.simps)
  from lst.shared_inserted[OF this] obtain vs where
    2: "list_rep Map.empty s1 vs" "mset vs = mset [0..99]" "out s1 = []" by blast
  then obtain xs where r: "locks s1 0 = Free" "owns nxt s1 (lst_head s1) xs Map.empty"
    "vs = map (\<lambda>x. data (snd x)) xs" by (elim list_repE)
  let ?s2 = "s1\<lparr>out := map (\<lambda>v. (''%d '', [v])) vs @ [(''\<newline>'', [])], locks := (locks s1)(0 := Destroyed)\<rparr>"
  have print: "visit_list nxt (\<lambda>n _. printf ''%d '' [data n]) (lst_head s1) () s1 =
      Inr ((), s1\<lparr>out := map (\<lambda>v. (''%d '', [v])) vs\<rparr>)"
    using visit_list_print[OF r(2), of "\<lambda>n _. printf ''%d '' [data n]" "''%d ''" "\<lambda>n. [data n]"] 2(3) r(3)
    by (simp add: comp_def)
  have "\<exists>s'. clear_list nxt lst_head (\<lambda>p s. s\<lparr>lst_head := p\<rparr>) ?s2 = Inr ((), s') \<and> lst_head s' = NULL \<and>
      cells s' = Map.empty \<and> room s' = room ?s2 + length xs \<and> fresh s' = fresh ?s2 \<and>
      locks s' = locks ?s2 \<and> out s' = out ?s2"
    by (rule clear_list_spec) (use r in simp_all)
  moreover have "pthread_mutex_init 0 (list_boot r j) = Inr ((), ?s)"
    by (simp add: exec_simps list_boot_def world.defs boot_def)
  ultimately show ?thesis using 1(1) print r(1) 2(2)
    by (auto simp: list_main_def exec_simps intro!: exI[of _ vs])
qed

theorem list_main_ok_witness:
  "\<exists>s' vs. list_main [1, 0, 0, 1] (list_boot 100 node0) = Inr (0, s') \<and>
     out s' = map (\<lambda>v. (''%d '', [v])) vs @ [(''\<newline>'', [])] \<and> mset vs = mset [0..99] \<and>
     cells s' = Map.empty \<and> lst_head s' = NULL \<and> locks s' 0 = Destroyed"
  by (rule list_main_ok) simp

section \<open>list\_1/list\_1.h\<close>

record list1_world = "node world" +
  lst1_head :: ptr
  lst1_size :: int

definition list1_boot :: "nat \<Rightarrow> node \<Rightarrow> list1_world" where
  "list1_boot r j = world.extend (boot r j) \<lparr>lst1_head = NULL, lst1_size = 0\<rparr>"

definition init_list :: "(list1_world, unit) exec" where
  "init_list =
     seq (modify (\<lambda>s. s\<lparr>lst1_head := NULL\<rparr>))
     (seq (modify (\<lambda>s. s\<lparr>lst1_size := 0\<rparr>)) (pthread_mutex_init 0))"

definition list1_resize :: "int \<Rightarrow> (list1_world, unit) exec" where
  "list1_resize d = bnd (gets lst1_size) (\<lambda>n. bnd (cint (n + d)) (\<lambda>m. modify (\<lambda>s. s\<lparr>lst1_size := m\<rparr>)))"

definition list1_insert :: "int \<Rightarrow> (list1_world, unit) exec" where
  "list1_insert value =
     seq (pthread_mutex_lock 0)
     (bnd pmalloc (\<lambda>new_node.
     seq (assign new_node (\<lambda>n. n\<lparr>data := value\<rparr>))
     (bnd (gets lst1_head) (\<lambda>h.
     seq (assign new_node (\<lambda>n. n\<lparr>nxt := h\<rparr>))
     (seq (modify (\<lambda>s. s\<lparr>lst1_head := new_node\<rparr>))
     (seq (list1_resize 1)
     (pthread_mutex_unlock 0)))))))"

definition delete_from_list :: "int \<Rightarrow> (list1_world, bool) exec" where
  "delete_from_list value =
     seq (pthread_mutex_lock 0)
     (bnd (gets lst1_head) (\<lambda>h.
     bnd (walk_list nxt (\<lambda>n. data n = value) h) (\<lambda>(prev, current).
     if current = NULL then seq (pthread_mutex_unlock 0) (ret False)
     else
       bnd (deref current) (\<lambda>c.
       seq (if prev = NULL then modify (\<lambda>s. s\<lparr>lst1_head := nxt c\<rparr>)
            else assign prev (\<lambda>n. n\<lparr>nxt := nxt c\<rparr>))
       (seq (free current)
       (seq (list1_resize (- 1))
       (seq (pthread_mutex_unlock 0) (ret True))))))))"

definition list1_search :: "int \<Rightarrow> (list1_world, ptr) exec" where
  "list1_search value =
     seq (pthread_mutex_lock 0)
     (bnd (gets lst1_head) (\<lambda>h.
     bnd (walk_list nxt (\<lambda>n. data n = value) h) (\<lambda>(prev, current).
     seq (pthread_mutex_unlock 0) (ret current))))"

definition list1_update :: "int \<Rightarrow> int \<Rightarrow> (list1_world, unit) exec" where
  "list1_update old_value new_value =
     seq (pthread_mutex_lock 0)
     (bnd (gets lst1_head) (\<lambda>h.
     bnd (walk_list nxt (\<lambda>n. data n = old_value) h) (\<lambda>(prev, current).
     seq (if current = NULL then ret () else assign current (\<lambda>n. n\<lparr>data := new_value\<rparr>))
     (pthread_mutex_unlock 0))))"

definition list1_contains :: "int \<Rightarrow> (list1_world, bool) exec" where
  "list1_contains value = bnd (list1_search value) (\<lambda>p. ret (p \<noteq> NULL))"

definition list1_clear :: "(list1_world, unit) exec" where
  "list1_clear =
     seq (pthread_mutex_lock 0)
     (bnd (gets lst1_head) (\<lambda>h.
     seq (release_list nxt h)
     (seq (modify (\<lambda>s. s\<lparr>lst1_head := NULL\<rparr>))
     (seq (modify (\<lambda>s. s\<lparr>lst1_size := 0\<rparr>))
     (pthread_mutex_unlock 0)))))"

definition list1_size :: "(list1_world, int) exec" where
  "list1_size =
     seq (pthread_mutex_lock 0)
     (bnd (gets lst1_size) (\<lambda>current_size.
     seq (pthread_mutex_unlock 0) (ret current_size)))"

definition list1_is_empty :: "(list1_world, bool) exec" where
  "list1_is_empty = bnd list1_size (\<lambda>n. ret (n = 0))"

definition list1_display :: "(list1_world, unit) exec" where
  "list1_display =
     seq (pthread_mutex_lock 0)
     (bnd (gets lst1_head) (\<lambda>h.
     seq (printf ''List: '' [])
     (seq (visit_list nxt (\<lambda>n _. printf ''%d -> '' [data n]) h ())
     (seq (printf ''NULL\<newline>'' [])
     (pthread_mutex_unlock 0)))))"

definition list1_reverse :: "(list1_world, unit) exec" where
  "list1_reverse =
     seq (pthread_mutex_lock 0)
     (bnd (gets lst1_head) (\<lambda>h.
     bnd (turn_list nxt (\<lambda>p n. n\<lparr>nxt := p\<rparr>) h) (\<lambda>prev.
     seq (modify (\<lambda>s. s\<lparr>lst1_head := prev\<rparr>))
     (pthread_mutex_unlock 0))))"

definition list1_append :: "int \<Rightarrow> (list1_world, unit) exec" where
  "list1_append value =
     seq (pthread_mutex_lock 0)
     (bnd pmalloc (\<lambda>new_node.
     seq (assign new_node (\<lambda>n. n\<lparr>data := value\<rparr>))
     (seq (assign new_node (\<lambda>n. n\<lparr>nxt := NULL\<rparr>))
     (bnd (gets lst1_head) (\<lambda>h.
     seq (if h = NULL then modify (\<lambda>s. s\<lparr>lst1_head := new_node\<rparr>)
          else bnd (walk_ahead nxt (\<lambda>_. False) h) (\<lambda>current.
               assign current (\<lambda>n. n\<lparr>nxt := new_node\<rparr>)))
     (seq (list1_resize 1)
     (pthread_mutex_unlock 0)))))))"

definition insert_after :: "int \<Rightarrow> int \<Rightarrow> (list1_world, unit) exec" where
  "insert_after target value =
     seq (pthread_mutex_lock 0)
     (bnd (gets lst1_head) (\<lambda>h.
     bnd (walk_list nxt (\<lambda>n. data n = target) h) (\<lambda>(prev, current).
     seq (if current = NULL then ret ()
          else bnd pmalloc (\<lambda>new_node.
               seq (assign new_node (\<lambda>n. n\<lparr>data := value\<rparr>))
               (bnd (deref current) (\<lambda>c.
               seq (assign new_node (\<lambda>n. n\<lparr>nxt := nxt c\<rparr>))
               (seq (assign current (\<lambda>n. n\<lparr>nxt := new_node\<rparr>))
               (list1_resize 1))))))
     (pthread_mutex_unlock 0))))"

text \<open>
  The thread function of \<^verbatim>\<open>list_1/list_1.c\<close>: \<open>rand i\<close> is what its call number
  \<open>i\<close> of \<^verbatim>\<open>rand\<close> returned, \<open>tid\<close> its thread identifier.
\<close>

definition list1_thread_func :: "int \<Rightarrow> (nat \<Rightarrow> int) \<Rightarrow> list1_world thread" where
  "list1_thread_func tid rand =
     t_for (map rand [0..<20]) (\<lambda>value k.
       atomic (list1_insert value) (\<lambda>_.
       atomic (printf ''Thread %d inserted: %d into the list\<newline>'' [tid, value]) (\<lambda>_. k)))
     (let value = rand 19; k = atomic list1_reverse (\<lambda>_. Done) in
      atomic (list1_contains value) (\<lambda>found.
      if found then
        atomic (cint (value + 1)) (\<lambda>v.
        atomic (insert_after value v) (\<lambda>_.
        atomic (printf ''Thread %d incremented value to: %d\<newline>'' [tid, v]) (\<lambda>_. k)))
      else k))"

definition list1_main :: "nat list \<Rightarrow> (nat \<Rightarrow> int) \<Rightarrow> (nat \<Rightarrow> nat \<Rightarrow> int) \<Rightarrow> (list1_world, int) exec" where
  "list1_main sched tid rand =
     seq init_list
     (seq (run_threads sched [list1_thread_func (tid 0) (rand 0), list1_thread_func (tid 1) (rand 1)])
     (seq list1_display
     (seq list1_clear
     (seq (pthread_mutex_destroy 0) (ret 0)))))"

section \<open>What the operations of list\_1.h compute\<close>

text \<open>
  The list holds \<open>vs\<close>, its size field is their number, and memory is too small for that
  number to leave \<^verbatim>\<open>int\<close>.
\<close>

definition list1_rep :: "(ptr \<rightharpoonup> node) \<Rightarrow> list1_world \<Rightarrow> int list \<Rightarrow> bool" where
  "list1_rep F s vs \<longleftrightarrow> locks s 0 = Free \<and> lst1_size s = int (length vs) \<and>
     int (room s + length vs) \<le> INT_MAX \<and>
     (\<exists>xs. owns nxt s (lst1_head s) xs F \<and> map (\<lambda>x. data (snd x)) xs = vs)"

primrec replace1 :: "'a \<Rightarrow> 'a \<Rightarrow> 'a list \<Rightarrow> 'a list" where
  "replace1 a b [] = []"
| "replace1 a b (x # xs) = (if x = a then b # xs else x # replace1 a b xs)"

primrec insert1 :: "'a \<Rightarrow> 'a \<Rightarrow> 'a list \<Rightarrow> 'a list" where
  "insert1 a b [] = []"
| "insert1 a b (x # xs) = (if x = a then a # b # xs else x # insert1 a b xs)"

lemma replace1_append: "a \<notin> set us \<Longrightarrow> replace1 a b (us @ xs) = us @ replace1 a b xs"
  by (induction us) auto

lemma insert1_append: "a \<notin> set us \<Longrightarrow> insert1 a b (us @ xs) = us @ insert1 a b xs"
  by (induction us) auto

lemma first_ops_id: "a \<notin> set xs \<Longrightarrow> replace1 a b xs = xs" "a \<notin> set xs \<Longrightarrow> insert1 a b xs = xs"
  by (induction xs) auto

lemma mset_insert1: "a \<in> set xs \<Longrightarrow> mset (insert1 a b xs) = add_mset b (mset xs)"
  by (induction xs) auto

lemma owns_lst1 [simp]:
  "owns nx (lst1_head_update f s) p xs F = owns nx s p xs F"
  "owns nx (lst1_size_update g s) p xs F = owns nx s p xs F"
  by (rule owns_cong, simp_all)+

lemma list1_repE:
  assumes "list1_rep F s vs"
  obtains xs where "locks s 0 = Free" "lst1_size s = int (length xs)" "int (room s + length xs) \<le> INT_MAX"
    "owns nxt s (lst1_head s) xs F" "vs = map (\<lambda>x. data (snd x)) xs"
  using assms by (auto simp: list1_rep_def)

lemma list1_repI:
  assumes "owns nxt s (lst1_head s) xs F" "locks s 0 = Free" "lst1_size s = int (length xs)"
    "int (room s + length xs) \<le> INT_MAX" "map (\<lambda>x. data (snd x)) xs = vs"
  shows "list1_rep F s vs"
  using assms by (auto simp: list1_rep_def)

lemma list1_rep_out [simp]: "list1_rep F (out_update f s) vs = list1_rep F s vs"
  by (simp add: list1_rep_def)

lemma list1_resize_ok [exec_simps]:
  "int_range (lst1_size s + d) \<Longrightarrow> list1_resize d s = Inr ((), s\<lparr>lst1_size := lst1_size s + d\<rparr>)"
  by (simp add: list1_resize_def exec_simps)

lemma list1_insert_ok:
  assumes "list1_rep F s vs" and "0 < room s"
  shows "\<exists>s'. list1_insert v s = Inr ((), s') \<and> list1_rep F s' (v # vs) \<and> room s' = room s - 1 \<and> out s' = out s"
proof -
  from assms(1) obtain xs where r: "locks s 0 = Free" "lst1_size s = int (length xs)"
    "int (room s + length xs) \<le> INT_MAX" "owns nxt s (lst1_head s) xs F" "vs = map (\<lambda>x. data (snd x)) xs"
    by (rule list1_repE)
  let ?n = "(junk s)\<lparr>data := v, nxt := lst1_head s\<rparr>"
  let ?s = "s\<lparr>cells := (cells s)(fresh s \<mapsto> ?n), fresh := Suc (fresh s), room := room s - 1,
     lst1_head := fresh s, lst1_size := int (length xs) + 1\<rparr>"
  have "int_range (int (length xs) + 1)" using r(3) assms(2) by (simp add: int_range_defs)
  then have "list1_insert v s = Inr ((), ?s)"
    using assms(2) r(1,2) owns_wf[OF r(4)] by (simp add: list1_insert_def exec_simps)
  moreover have "owns nxt ?s (lst1_head ?s) ((fresh s, ?n) # xs) F"
    using node.owns_insert_first[OF r(4), of ?n ?s] by simp
  then have "list1_rep F ?s (v # vs)" by (rule list1_repI) (use r assms(2) in simp_all)
  ultimately show ?thesis by simp
qed

text \<open>The result of \<^verbatim>\<open>pmalloc\<close> is not tested.\<close>

lemma list1_insert_oom: "list1_rep F s vs \<Longrightarrow> room s = 0 \<Longrightarrow> list1_insert v s = Inl NullDeref"
  by (auto elim!: list1_repE simp: list1_insert_def exec_simps)

lemma delete_from_list_ok:
  assumes "list1_rep F s vs"
  shows "\<exists>s'. delete_from_list v s = Inr (v \<in> set vs, s') \<and> list1_rep F s' (remove1 v vs) \<and>
     room s' = room s + (if v \<in> set vs then 1 else 0) \<and> out s' = out s"
proof -
  from assms(1) obtain xs where r: "locks s 0 = Free" "lst1_size s = int (length xs)"
    "int (room s + length xs) \<le> INT_MAX" "owns nxt s (lst1_head s) xs F" "vs = map (\<lambda>x. data (snd x)) xs"
    by (rule list1_repE)
  from r(4) show ?thesis
  proof (cases rule: walk_cases[where stop = "\<lambda>n. data n = v"])
    case absent
    then have "v \<notin> set vs" using r(5) by auto
    with absent assms r(1) show ?thesis
      by (auto simp: delete_from_list_def exec_simps remove1_idem)
  next
    case (found us a n ws)
    then have v: "v \<in> set vs" "remove1 v vs = map (\<lambda>x. data (snd x)) (us @ ws)"
      using r(5) by (auto simp: remove1_append)
    have i: "int_range (int (length xs) - 1)" using r(3) found(1) by (simp add: int_range_defs)
    show ?thesis
    proof (cases us rule: rev_cases)
      case Nil
      let ?s = "s\<lparr>lst1_head := nxt n, cells := (cells s)(a := None), room := Suc (room s),
         lst1_size := int (length xs) - 1\<rparr>"
      have "delete_from_list v s = Inr (True, ?s)"
        using found Nil r i by (simp add: delete_from_list_def exec_simps)
      moreover have "owns nxt ?s (lst1_head ?s) ws F"
        using node.owns_delete_first[of s "lst1_head s" a n ws F ?s] r(4) found(1) Nil by simp
      then have "list1_rep F ?s (remove1 v vs)"
        by (rule list1_repI) (use r found(1) Nil v in simp_all)
      ultimately show ?thesis using v by simp
    next
      case (snoc us' y)
      obtain b m where y: "y = (b, m)" by (cases y)
      have b: "b \<noteq> NULL" "cells s b = Some m" "a \<noteq> b"
        using owns_mem[of nxt s "lst1_head s" us' b m "(a, n) # ws" F] r(4) found(1) snoc y
          chain_distinct[OF owns_chain[OF r(4)]] by auto
      let ?s = "s\<lparr>cells := (cells s)(b \<mapsto> m\<lparr>nxt := nxt n\<rparr>, a := None), room := Suc (room s),
         lst1_size := int (length xs) - 1\<rparr>"
      have "delete_from_list v s = Inr (True, ?s)"
        using found snoc y r b i by (simp add: delete_from_list_def exec_simps)
      moreover have "owns nxt ?s (lst1_head ?s) (us' @ (b, m\<lparr>nxt := nxt n\<rparr>) # ws) F"
        using node.owns_delete_after[of s "lst1_head s" us' b m a n ws F ?s] r(4) found(1) snoc y by simp
      then have "list1_rep F ?s (remove1 v vs)"
        by (rule list1_repI) (use r found(1) snoc y v in simp_all)
      ultimately show ?thesis using v by simp
    qed
  qed
qed

lemma list1_search_ok:
  assumes "list1_rep F s vs"
  shows "\<exists>p. list1_search v s = Inr (p, s) \<and> (p = NULL \<longleftrightarrow> v \<notin> set vs) \<and>
     (p \<noteq> NULL \<longrightarrow> (\<exists>n. cells s p = Some n \<and> data n = v))"
proof -
  from assms(1) obtain xs where r: "locks s 0 = Free" "owns nxt s (lst1_head s) xs F"
    "vs = map (\<lambda>x. data (snd x)) xs" by (rule list1_repE)
  from r(2) show ?thesis
  proof (cases rule: walk_cases[where stop = "\<lambda>n. data n = v"])
    case absent
    with r absent show ?thesis by (auto simp: list1_search_def exec_simps)
  next
    case (found us a n ws)
    with r show ?thesis by (auto simp: list1_search_def exec_simps)
  qed
qed

lemma list1_contains_ok:
  "list1_rep F s vs \<Longrightarrow> list1_contains v s = Inr (v \<in> set vs, s)"
  using list1_search_ok[of F s vs v] by (auto simp: list1_contains_def exec_simps)

lemma list1_update_ok:
  assumes "list1_rep F s vs"
  shows "\<exists>s'. list1_update old new s = Inr ((), s') \<and> list1_rep F s' (replace1 old new vs) \<and>
     room s' = room s \<and> out s' = out s"
proof -
  from assms(1) obtain xs where r: "locks s 0 = Free" "lst1_size s = int (length xs)"
    "int (room s + length xs) \<le> INT_MAX" "owns nxt s (lst1_head s) xs F" "vs = map (\<lambda>x. data (snd x)) xs"
    by (rule list1_repE)
  from r(4) show ?thesis
  proof (cases rule: walk_cases[where stop = "\<lambda>n. data n = old"])
    case absent
    then have "old \<notin> set vs" using r(5) by auto
    with absent assms r(1) show ?thesis
      by (auto simp: list1_update_def exec_simps first_ops_id)
  next
    case (found us a n ws)
    then have "old \<notin> set (map (\<lambda>x. data (snd x)) us)" by auto
    from replace1_append[OF this] have
      "replace1 old new vs = map (\<lambda>x. data (snd x)) (us @ (a, n\<lparr>data := new\<rparr>) # ws)"
      using r(5) found(1,2) by simp
    moreover let ?s = "s\<lparr>cells := (cells s)(a \<mapsto> n\<lparr>data := new\<rparr>)\<rparr>"
    have "owns nxt ?s (lst1_head ?s) (us @ (a, n\<lparr>data := new\<rparr>) # ws) F"
      using node.owns_update[of s "lst1_head s" us a n ws F "n\<lparr>data := new\<rparr>" ?s] r(4) found(1) by simp
    then have "list1_rep F ?s (map (\<lambda>x. data (snd x)) (us @ (a, n\<lparr>data := new\<rparr>) # ws))"
      by (rule list1_repI) (use r found(1) in simp_all)
    ultimately show ?thesis using found r
      by (auto simp: list1_update_def exec_simps)
  qed
qed

lemma list1_clear_ok:
  assumes "list1_rep F s vs"
  shows "\<exists>s'. list1_clear s = Inr ((), s') \<and> list1_rep F s' [] \<and> room s' = room s + length vs \<and>
     cells s' = F \<and> out s' = out s"
proof -
  from assms(1) obtain xs where r: "locks s 0 = Free" "lst1_size s = int (length xs)"
    "int (room s + length xs) \<le> INT_MAX" "owns nxt s (lst1_head s) xs F" "vs = map (\<lambda>x. data (snd x)) xs"
    by (rule list1_repE)
  let ?s = "s\<lparr>cells := F, room := room s + length xs, lst1_head := NULL, lst1_size := 0\<rparr>"
  have "release_list nxt (lst1_head s) (s\<lparr>locks := (locks s)(0 := Held)\<rparr>) =
      Inr ((), s\<lparr>locks := (locks s)(0 := Held), cells := F, room := room s + length xs\<rparr>)"
    using release_list_spec[of nxt "s\<lparr>locks := (locks s)(0 := Held)\<rparr>" "lst1_head s" xs F] r(4) by simp
  then have "list1_clear s = Inr ((), ?s)" using r(1) by (simp add: list1_clear_def exec_simps)
  moreover have "owns nxt ?s (lst1_head ?s) [] F"
    using owns_released[OF r(4), of ?s] by simp
  then have "list1_rep F ?s []" by (rule list1_repI) (use r in simp_all)
  ultimately show ?thesis using r(5) by simp
qed

lemma list1_size_ok: "list1_rep F s vs \<Longrightarrow> list1_size s = Inr (int (length vs), s)"
  by (auto elim!: list1_repE simp: list1_size_def exec_simps)

lemma list1_is_empty_ok: "list1_rep F s vs \<Longrightarrow> list1_is_empty s = Inr (vs = [], s)"
  using list1_size_ok[of F s vs] by (simp add: list1_is_empty_def exec_simps)

lemma list1_display_ok:
  assumes "list1_rep F s vs"
  shows "list1_display s = Inr ((), s\<lparr>out := out s @ (''List: '', []) # map (\<lambda>v. (''%d -> '', [v])) vs @ [(''NULL\<newline>'', [])]\<rparr>)"
proof -
  from assms(1) obtain xs where r: "locks s 0 = Free" "owns nxt s (lst1_head s) xs F"
    "vs = map (\<lambda>x. data (snd x)) xs" by (rule list1_repE)
  let ?s = "s\<lparr>locks := (locks s)(0 := Held), out := out s @ [(''List: '', [])]\<rparr>"
  have "visit_list nxt (\<lambda>n _. printf ''%d -> '' [data n]) (lst1_head s) () ?s =
      Inr ((), ?s\<lparr>out := out ?s @ map (\<lambda>x. (''%d -> '', [data (snd x)])) xs\<rparr>)"
    by (rule visit_list_print[where F = F]) (use r in simp_all)
  with r show ?thesis by (simp add: list1_display_def exec_simps comp_def)
qed

lemma list1_reverse_ok:
  assumes "list1_rep F s vs"
  shows "\<exists>s'. list1_reverse s = Inr ((), s') \<and> list1_rep F s' (rev vs) \<and> room s' = room s \<and> out s' = out s"
proof -
  from assms(1) obtain xs where r: "locks s 0 = Free" "lst1_size s = int (length xs)"
    "int (room s + length xs) \<le> INT_MAX" "owns nxt s (lst1_head s) xs F" "vs = map (\<lambda>x. data (snd x)) xs"
    by (rule list1_repE)
  let ?t = "s\<lparr>locks := (locks s)(0 := Held)\<rparr>"
  from node.turn_list_spec[of ?t "lst1_head s" xs F] r(4) obtain zs h where
    z: "turn_list nxt (\<lambda>p n. n\<lparr>nxt := p\<rparr>) (lst1_head s) ?t = Inr (first_ptr zs, ?t\<lparr>cells := h\<rparr>)"
      "owns nxt (?t\<lparr>cells := h\<rparr>) (first_ptr zs) zs F" "map (\<lambda>x. data (snd x)) zs = rev vs"
    using r(5) by auto
  let ?s = "s\<lparr>cells := h, lst1_head := first_ptr zs\<rparr>"
  have "list1_reverse s = Inr ((), ?s)" using z(1) r(1) by (simp add: list1_reverse_def exec_simps)
  moreover have "length zs = length xs" using z(3) r(5) by (metis length_map length_rev)
  then have "list1_rep F ?s (rev vs)"
    by (intro list1_repI[of ?s zs]) (use r z in \<open>simp_all add: owns_def wf_world_def\<close>)
  ultimately show ?thesis by simp
qed

lemma list1_append_ok:
  assumes "list1_rep F s vs" and "0 < room s"
  shows "\<exists>s'. list1_append v s = Inr ((), s') \<and> list1_rep F s' (vs @ [v]) \<and> room s' = room s - 1 \<and> out s' = out s"
proof -
  from assms(1) obtain xs where r: "locks s 0 = Free" "lst1_size s = int (length xs)"
    "int (room s + length xs) \<le> INT_MAX" "owns nxt s (lst1_head s) xs F" "vs = map (\<lambda>x. data (snd x)) xs"
    by (rule list1_repE)
  have i: "int_range (int (length xs) + 1)" using r(3) assms(2) by (simp add: int_range_defs)
  let ?n = "(junk s)\<lparr>data := v, nxt := NULL\<rparr>"
  show ?thesis
  proof (cases xs rule: rev_cases)
    case Nil
    let ?s = "s\<lparr>cells := (cells s)(fresh s \<mapsto> ?n), fresh := Suc (fresh s), room := room s - 1,
       lst1_head := fresh s, lst1_size := 1\<rparr>"
    have h: "lst1_head s = NULL" using r(4) Nil by simp
    then have "list1_append v s = Inr ((), ?s)"
      using assms(2) r(1,2) i Nil owns_wf[OF r(4)] by (simp add: list1_append_def exec_simps)
    moreover have "owns nxt ?s (lst1_head ?s) [(fresh s, ?n)] F"
      using node.owns_insert_first[OF r(4), of ?n ?s] h Nil by simp
    then have "list1_rep F ?s (vs @ [v])" by (rule list1_repI) (use r assms(2) Nil in simp_all)
    ultimately show ?thesis by simp
  next
    case (snoc us x)
    obtain a n where x: "x = (a, n)" by (cases x)
    have h: "lst1_head s \<noteq> NULL" using owns_null_iff[OF r(4)] snoc by simp
    have a: "a \<noteq> NULL" "cells s a = Some n" "a \<noteq> fresh s"
      using owns_mem[of nxt s "lst1_head s" us a n "[]" F] owns_fresh[OF r(4)] r(4) snoc x by auto
    have nn: "nxt n = NULL" using r(4) snoc x by (auto simp: owns_def)
    let ?t = "s\<lparr>locks := (locks s)(0 := Held), fresh := Suc (fresh s), room := room s - 1,
       cells := (cells s)(fresh s \<mapsto> ?n)\<rparr>"
    have "owns nxt ?t (lst1_head s) xs (F(fresh s \<mapsto> ?n))" by (rule owns_alloc[OF r(4)]) simp_all
    then have w: "walk_ahead nxt (\<lambda>_. False) (lst1_head s) ?t = Inr (a, ?t)"
      using walk_ahead_spec[of nxt ?t "lst1_head s" "hd xs" "tl xs" "F(fresh s \<mapsto> ?n)" "\<lambda>_. False"] snoc x
        owns_Cons[of nxt s "lst1_head s" "hd xs" "tl xs" F] r(4)
      by (cases us) auto
    let ?s = "s\<lparr>cells := (cells s)(fresh s \<mapsto> ?n, a \<mapsto> n\<lparr>nxt := fresh s\<rparr>), fresh := Suc (fresh s), room := room s - 1,
       lst1_size := int (length xs) + 1\<rparr>"
    have "list1_append v s = Inr ((), ?s)"
      using assms(2) r(1,2) i h a w owns_wf[OF r(4)] by (simp add: list1_append_def exec_simps)
    moreover have "owns nxt ?s (lst1_head ?s) (us @ [(a, n\<lparr>nxt := fresh s\<rparr>), (fresh s, ?n)]) F"
      using node.owns_insert_after[of s "lst1_head s" us a n "[]" F ?n ?s] r(4) snoc x nn by simp
    then have "list1_rep F ?s (vs @ [v])" by (rule list1_repI) (use r assms(2) snoc x in simp_all)
    ultimately show ?thesis by simp
  qed
qed

lemma insert_after_ok:
  assumes "list1_rep F s vs" and "0 < room s"
  shows "\<exists>s'. insert_after target v s = Inr ((), s') \<and> list1_rep F s' (insert1 target v vs) \<and>
     room s' = (if target \<in> set vs then room s - 1 else room s) \<and> out s' = out s"
proof -
  from assms(1) obtain xs where r: "locks s 0 = Free" "lst1_size s = int (length xs)"
    "int (room s + length xs) \<le> INT_MAX" "owns nxt s (lst1_head s) xs F" "vs = map (\<lambda>x. data (snd x)) xs"
    by (rule list1_repE)
  have i: "int_range (int (length xs) + 1)" using r(3) assms(2) by (simp add: int_range_defs)
  from r(4) show ?thesis
  proof (cases rule: walk_cases[where stop = "\<lambda>n. data n = target"])
    case absent
    then have "target \<notin> set vs" using r(5) by auto
    with absent assms r(1) show ?thesis by (auto simp: insert_after_def exec_simps first_ops_id)
  next
    case (found us a n ws)
    let ?n = "(junk s)\<lparr>data := v, nxt := nxt n\<rparr>"
    have "target \<notin> set (map (\<lambda>x. data (snd x)) us)" using found by auto
    from insert1_append[OF this] have v: "target \<in> set vs"
      "insert1 target v vs = map (\<lambda>x. data (snd x)) (us @ (a, n\<lparr>nxt := fresh s\<rparr>) # (fresh s, ?n) # ws)"
      using found(1,2) r(5) by auto
    have "a \<noteq> fresh s" using found(5) owns_wf[OF r(4)] by auto
    let ?s = "s\<lparr>cells := (cells s)(fresh s \<mapsto> ?n, a \<mapsto> n\<lparr>nxt := fresh s\<rparr>), fresh := Suc (fresh s), room := room s - 1,
       lst1_size := int (length xs) + 1\<rparr>"
    have "insert_after target v s = Inr ((), ?s)"
      using assms(2) r(1,2) i found \<open>a \<noteq> fresh s\<close> owns_wf[OF r(4)] by (simp add: insert_after_def exec_simps)
    moreover have "owns nxt ?s (lst1_head ?s) (us @ (a, n\<lparr>nxt := fresh s\<rparr>) # (fresh s, ?n) # ws) F"
      using node.owns_insert_after[of s "lst1_head s" us a n ws F ?n ?s] r(4) found(1) by simp
    then have "list1_rep F ?s (insert1 target v vs)" by (rule list1_repI) (use r assms(2) found(1) v in simp_all)
    ultimately show ?thesis using v by simp
  qed
qed

section \<open>The program of list\_1.c\<close>

interpretation lst1: monitor "list1_rep Map.empty"
  by unfold_locales simp

lemma tok_list1_insert_loop:
  assumes "tok lst1.held Q (inserted (vs @ is) k) t"
  shows "tok lst1.held Q (inserted vs (length is + k))
     (t_for is (\<lambda>v k. atomic (list1_insert v) (\<lambda>_. atomic (printf (fmt v) (args v)) (\<lambda>_. k))) t)"
  using assms
proof (induction "is" arbitrary: vs)
  case Nil
  then show ?case by simp
next
  case (Cons i "is")
  let ?loop = "t_for is (\<lambda>v k. atomic (list1_insert v) (\<lambda>_. atomic (printf (fmt v) (args v)) (\<lambda>_. k))) t"
  have "tok lst1.held Q (inserted (vs @ [i]) (length is + k)) ?loop"
    using Cons.IH[of "vs @ [i]"] Cons.prems by simp
  then have "tok lst1.held Q (add_mset (Item i) (inserted vs (length is + k)))
      (atomic (printf (fmt i) (args i)) (\<lambda>_. ?loop))" by (intro lst1.tok_print_held) simp
  then have "tok lst1.held Q (add_mset Budget (inserted vs (length is + k)))
      (atomic (list1_insert i) (\<lambda>_. atomic (printf (fmt i) (args i)) (\<lambda>_. ?loop)))"
    by (intro lst1.tok_put_held[where v = i]) (force dest: list1_insert_ok)+
  then show ?case by simp
qed

text \<open>What one thread of \<^verbatim>\<open>list_1.c\<close> leaves in the list.\<close>

definition list1_values :: "(nat \<Rightarrow> int) \<Rightarrow> int list" where
  "list1_values rand = map rand [0..<20] @ [rand 19 + 1]"

lemma tok_list1_thread_func:
  assumes "int_range (rand 19 + 1)"
  shows "tok lst1.held (\<lambda>g. g = inserted (list1_values rand) 0) (inserted [] 21) (list1_thread_func tid rand)"
proof -
  let ?Q = "\<lambda>g :: (int, node) token multiset. g = inserted (list1_values rand) 0"
  let ?vs = "map rand [0..<20]"
  let ?v = "rand 19"
  let ?tail = "atomic list1_reverse (\<lambda>_. Done)"
  let ?print = "\<lambda>v. atomic (printf ''Thread %d incremented value to: %d\<newline>'' [tid, v]) (\<lambda>_. ?tail)"
  have "tok lst1.held ?Q (inserted (list1_values rand) 0) ?tail"
    by (rule lst1.tok_keep_held[where P = "\<lambda>_. True"]) (metis list1_reverse_ok mset_rev, simp add: tok_done)
  then have "tok lst1.held ?Q (inserted (list1_values rand) 0) (?print (?v + 1))"
    by (rule lst1.tok_print_held)
  then have 1: "tok lst1.held ?Q (add_mset (Item (?v + 1)) (inserted ?vs 0)) (?print (?v + 1))"
    by (simp add: list1_values_def)
  have mem: "Item ?v \<in># inserted ?vs k" for k by auto
  have 2: "tok lst1.held ?Q (inserted ?vs 1) (atomic (insert_after ?v (?v + 1)) (\<lambda>_. ?print (?v + 1)))"
  proof -
    have "tok lst1.held ?Q (add_mset Budget (inserted ?vs 0)) (atomic (insert_after ?v (?v + 1)) (\<lambda>_. ?print (?v + 1)))"
    proof (rule lst1.tok_put_held[OF _ 1])
      fix s vs
      assume "list1_rep Map.empty s vs" "\<forall>v. Item v \<in># inserted ?vs 0 \<longrightarrow> v \<in> set vs" "0 < room s"
      with mem show "\<exists>a s' vs'. insert_after ?v (?v + 1) s = Inr (a, s') \<and> list1_rep Map.empty s' vs' \<and>
          mset vs' = add_mset (?v + 1) (mset vs) \<and> room s' = room s - 1"
        by (metis insert_after_ok mset_insert1)
    qed
    then show ?thesis by simp
  qed
  have 3: "tok lst1.held ?Q (inserted ?vs 1) (atomic (cint (?v + 1)) (\<lambda>v. atomic (insert_after ?v v) (\<lambda>_. ?print v)))"
    using 2 assms by (intro lst1.tok_keep_held[where P = "\<lambda>v. v = ?v + 1"]) (auto simp: exec_simps)
  have "tok lst1.held ?Q (inserted ?vs 1) (atomic (list1_contains ?v) (\<lambda>found.
      if found then atomic (cint (?v + 1)) (\<lambda>v. atomic (insert_after ?v v) (\<lambda>_. ?print v)) else ?tail))"
    using 3 mem[of 1] by (intro lst1.tok_keep_held[where P = "\<lambda>b. b"]) (auto simp: list1_contains_ok)
  then show ?thesis
    using tok_list1_insert_loop[of ?Q "[]" ?vs 1 _ "\<lambda>_. ''Thread %d inserted: %d into the list\<newline>''" "\<lambda>v. [tid, v]"]
    by (simp add: list1_thread_func_def Let_def del: upt_Suc)
qed

lemma init_list_ok:
  "int r \<le> INT_MAX \<Longrightarrow> \<exists>s. init_list (list1_boot r j) = Inr ((), s) \<and> list1_rep Map.empty s [] \<and> room s = r"
  by (simp add: init_list_def list1_boot_def world.defs boot_def exec_simps list1_rep_def wf_world_def)



text \<open>The searching operations of \<^verbatim>\<open>list_1.h\<close> act on the first match: \<^verbatim>\<open>delete_from_list\<close>
  removes it and reports whether there was one, \<^verbatim>\<open>update\<close> replaces it, \<^verbatim>\<open>insert_after\<close>
  puts the new value behind it. All other values keep their place, the size field counts the
  nodes, no other memory is touched, and a removed node is released.\<close>

theorem list1_first_match:
  assumes "list1_rep F s vs" and "0 < room s"
  shows "(\<exists>s'. delete_from_list v s = Inr (v \<in> set vs, s') \<and> list1_rep F s' (remove1 v vs) \<and>
       room s' = room s + (if v \<in> set vs then 1 else 0)) \<and>
     (\<exists>s'. list1_update v w s = Inr ((), s') \<and> list1_rep F s' (replace1 v w vs) \<and> room s' = room s) \<and>
     (\<exists>s'. insert_after v w s = Inr ((), s') \<and> list1_rep F s' (insert1 v w vs) \<and>
       room s' = (if v \<in> set vs then room s - 1 else room s))"
  using delete_from_list_ok[OF assms(1), of v] list1_update_ok[OF assms(1), of v w] insert_after_ok[OF assms, of v w]
  by blast

lemma list1_rep_boot:
  "int r \<le> INT_MAX \<Longrightarrow> list1_rep Map.empty ((list1_boot r j)\<lparr>locks := (\<lambda>_. Uninit)(0 := Free)\<rparr>) []"
  by (simp add: list1_boot_def world.defs boot_def list1_rep_def wf_world_def)

theorem list1_first_match_witness:
  "\<exists>s. list1_rep Map.empty s [1, 2, 1] \<and>
     (\<exists>s'. delete_from_list 1 s = Inr (True, s') \<and> list1_rep Map.empty s' [2, 1]) \<and>
     (\<exists>s'. list1_update 1 5 s = Inr ((), s') \<and> list1_rep Map.empty s' [5, 2, 1]) \<and>
     (\<exists>s'. insert_after 1 5 s = Inr ((), s') \<and> list1_rep Map.empty s' [1, 5, 2, 1])"
proof -
  have 0: "list1_rep Map.empty ((list1_boot 9 node0)\<lparr>locks := (\<lambda>_. Uninit)(0 := Free)\<rparr>) []"
    (is "list1_rep _ ?s _") by (rule list1_rep_boot) (simp add: INT_MAX_def)
  have "room ?s = 9" by (simp add: list1_boot_def world.defs boot_def)
  with list1_insert_ok[OF 0, of 1] obtain s1 where 1: "list1_rep Map.empty s1 [1]" "room s1 = 8" by auto
  with list1_insert_ok[OF 1(1), of 2] obtain s2 where 2: "list1_rep Map.empty s2 [2, 1]" "room s2 = 7" by auto
  with list1_insert_ok[OF 2(1), of 1] obtain s3 where 3: "list1_rep Map.empty s3 [1, 2, 1]" "room s3 = 6" by auto
  with list1_first_match[OF 3(1), of 1 5] show ?thesis by (intro exI[of _ s3]) auto
qed

text \<open>\<^verbatim>\<open>append\<close> and \<^verbatim>\<open>reverse\<close> of \<^verbatim>\<open>list_1.h\<close>: appending a
  sequence of values and reversing the list in place is the reversal of the concatenation.\<close>

theorem list1_append_reverse:
  assumes "list1_rep F s vs" and "length ws \<le> room s"
  shows "\<exists>s'. seq (for_each ws list1_append) list1_reverse s = Inr ((), s') \<and>
     list1_rep F s' (rev ws @ rev vs) \<and> room s' = room s - length ws"
proof -
  have "\<exists>s'. for_each ws list1_append s = Inr ((), s') \<and> list1_rep F s' (vs @ ws) \<and> room s' = room s - length ws"
  proof (rule for_each_rule[where I = "\<lambda>us t. list1_rep F t (vs @ us) \<and> room t = room s - length us"])
    fix us u zs t
    assume "ws = us @ u # zs" and "list1_rep F t (vs @ us) \<and> room t = room s - length us"
    with list1_append_ok[of F t "vs @ us" u] assms(2)
    show "\<exists>s'. list1_append u t = Inr ((), s') \<and> list1_rep F s' (vs @ us @ [u]) \<and> room s' = room s - length (us @ [u])"
      by auto
  qed (use assms(1) in simp)
  then obtain s1 where 1: "for_each ws list1_append s = Inr ((), s1)" "list1_rep F s1 (vs @ ws)"
    "room s1 = room s - length ws" by blast
  with list1_reverse_ok[OF 1(2)] show ?thesis by (auto simp: exec_simps)
qed

theorem list1_append_reverse_witness:
  "\<exists>s'. seq (for_each [1, 2, 3] list1_append) list1_reverse
       ((list1_boot 9 node0)\<lparr>locks := (\<lambda>_. Uninit)(0 := Free)\<rparr>) = Inr ((), s') \<and>
     list1_rep Map.empty s' [3, 2, 1] \<and> room s' = 6"
  using list1_append_reverse[OF list1_rep_boot[of 9 node0], of "[1, 2, 3]"]
  by (simp add: INT_MAX_def list1_boot_def world.defs boot_def)

end
