(* ===== verification/Queue.thy ===== *)
theory Queue
  imports Bags
begin

text \<open>
  The three lock-based queues of ThreadTrove. \<^verbatim>\<open>queue_1\<close> and \<^verbatim>\<open>queue_2\<close> keep
  their queue in globals, allocate before and release after the critical section, and test
  for emptiness inside it; \<^verbatim>\<open>queue\<close> tests for emptiness before it takes the mutex. All are
  first-in first-out; the early test is shown to be harmless in \<^verbatim>\<open>queue.c\<close>, whose threads keep
  elements in the queue, and to crash two consumers of a single element.
\<close>

section \<open>State\<close>

record queue_world = "node world" +
  q_front :: ptr
  q_rear :: ptr

definition queue_boot :: "nat \<Rightarrow> node \<Rightarrow> queue_world" where
  "queue_boot r j = world.extend (boot r j) \<lparr>q_front = NULL, q_rear = NULL\<rparr>"

section \<open>queue\_1 and queue\_2\<close>

definition enqueue_alloc :: "int \<Rightarrow> (queue_world, ptr) exec" where
  "enqueue_alloc v =
     bnd pmalloc (\<lambda>new_node.
     if new_node = NULL then raise ExitFailure
     else seq (assign new_node (\<lambda>n. n\<lparr>data := v\<rparr>))
          (seq (assign new_node (\<lambda>n. n\<lparr>nxt := NULL\<rparr>)) (ret new_node)))"

definition enqueue_link :: "ptr \<Rightarrow> (queue_world, unit) exec" where
  "enqueue_link new_node =
     seq (pthread_mutex_lock 0)
     (bnd (gets q_rear) (\<lambda>r.
     seq (if r = NULL then modify (\<lambda>s. s\<lparr>q_rear := new_node, q_front := new_node\<rparr>)
          else seq (assign r (\<lambda>n. n\<lparr>nxt := new_node\<rparr>)) (modify (\<lambda>s. s\<lparr>q_rear := new_node\<rparr>)))
     (pthread_mutex_unlock 0)))"

definition enqueue :: "int \<Rightarrow> (queue_world, unit) exec" where
  "enqueue v = bnd (enqueue_alloc v) enqueue_link"

definition dequeue_unlink :: "(queue_world, ptr \<times> int) exec" where
  "dequeue_unlink =
     seq (pthread_mutex_lock 0)
     (bnd (gets q_front) (\<lambda>temp.
     if temp = NULL then seq (pthread_mutex_unlock 0) (ret (NULL, - 1))
     else
       bnd (deref temp) (\<lambda>n.
       seq (modify (\<lambda>s. s\<lparr>q_front := nxt n\<rparr>))
       (bnd (gets q_front) (\<lambda>f.
       seq (if f = NULL then modify (\<lambda>s. s\<lparr>q_rear := NULL\<rparr>) else ret ())
       (seq (pthread_mutex_unlock 0) (ret (temp, data n))))))))"

definition dequeue_free :: "ptr \<times> int \<Rightarrow> (queue_world, int) exec" where
  "dequeue_free r = (case r of (temp, dequeued_value) \<Rightarrow>
     if temp = NULL then ret dequeued_value else seq (free temp) (ret dequeued_value))"

definition dequeue :: "(queue_world, int) exec" where
  "dequeue = bnd dequeue_unlink dequeue_free"

text \<open>The thread function of \<^verbatim>\<open>queue_1.c\<close>, with the value \<open>start\<close> of its call of
  \<^verbatim>\<open>rand\<close>, and its \<^verbatim>\<open>main\<close>.\<close>

definition enqueue_loop :: "int list \<Rightarrow> queue_world thread \<Rightarrow> queue_world thread" where
  "enqueue_loop is = t_for is (\<lambda>i k.
     atomic (enqueue_alloc i) (\<lambda>n. atomic (enqueue_link n) (\<lambda>_.
     atomic (printf ''Enqueued: %d\<newline>'' [i]) (\<lambda>_. k))))"

definition dequeue_loop :: "int list \<Rightarrow> queue_world thread \<Rightarrow> queue_world thread" where
  "dequeue_loop is = t_for is (\<lambda>_ k.
     atomic dequeue_unlink (\<lambda>r. atomic (dequeue_free r) (\<lambda>dequeued_value.
     atomic (if dequeued_value \<noteq> - 1 then printf ''Dequeued: %d\<newline>'' [dequeued_value]
             else printf ''Queue is empty\<newline>'' []) (\<lambda>_. k))))"

definition queue_1_thread_func :: "int \<Rightarrow> queue_world thread" where
  "queue_1_thread_func start =
     atomic (cint (start + 25)) (\<lambda>_. enqueue_loop [start..start + 24] (dequeue_loop [0..24] Done))"

definition queue_1_main :: "nat list \<Rightarrow> int \<Rightarrow> int \<Rightarrow> (queue_world, int) exec" where
  "queue_1_main sched rand1 rand2 =
     seq (pthread_mutex_init 0)
     (seq (run_threads sched [queue_1_thread_func rand1, queue_1_thread_func rand2])
     (seq (pthread_mutex_destroy 0) (ret 0)))"

text \<open>\<^verbatim>\<open>queue_2.h\<close> repeats the text of \<^verbatim>\<open>enqueue\<close> and \<^verbatim>\<open>dequeue\<close>.\<close>

definition queue_2_enqueue :: "int \<Rightarrow> (queue_world, unit) exec" where
  "queue_2_enqueue v = bnd (enqueue_alloc v) enqueue_link"

definition queue_2_dequeue :: "(queue_world, int) exec" where
  "queue_2_dequeue = bnd dequeue_unlink dequeue_free"

definition queue_2_thread_func :: "int \<Rightarrow> queue_world thread" where
  "queue_2_thread_func tid =
     t_for [0..24] (\<lambda>_ k.
       atomic dequeue_unlink (\<lambda>r. atomic (dequeue_free r) (\<lambda>value.
       if value \<noteq> - 1 then
         atomic (printf ''Thread %ld dequeued: %d\<newline>'' [tid, value]) (\<lambda>_.
         atomic (enqueue_alloc value) (\<lambda>n. atomic (enqueue_link n) (\<lambda>_.
         atomic (printf ''Thread %ld enqueued: %d\<newline>'' [tid, value]) (\<lambda>_. k))))
       else atomic (printf ''Thread %ld found the queue empty\<newline>'' [tid]) (\<lambda>_. k))))
     Done"

definition queue_2_main :: "nat list \<Rightarrow> int \<Rightarrow> int \<Rightarrow> (queue_world, int) exec" where
  "queue_2_main sched tid1 tid2 =
     seq (pthread_mutex_init 0)
     (seq (for_each [0..9] queue_2_enqueue)
     (seq (run_threads sched [queue_2_thread_func tid1, queue_2_thread_func tid2])
     (seq (pthread_mutex_destroy 0) (ret 0))))"

section \<open>queue\<close>

text \<open>The queue object is allocated; its fields are the variables of the state.\<close>

definition createNode :: "int \<Rightarrow> (queue_world, ptr) exec" where
  "createNode data0 =
     bnd pmalloc (\<lambda>newNode.
     seq (assign newNode (\<lambda>n. n\<lparr>data := data0\<rparr>))
     (seq (assign newNode (\<lambda>n. n\<lparr>nxt := NULL\<rparr>)) (ret newNode)))"

definition createQueue :: "(queue_world, unit) exec" where
  "createQueue =
     bnd pmalloc_object (\<lambda>ok.
     if ok then
       seq (modify (\<lambda>s. s\<lparr>q_rear := NULL, q_front := NULL\<rparr>)) (pthread_mutex_init 0)
     else raise NullDeref)"

definition isEmpty :: "(queue_world, bool) exec" where
  "isEmpty = gets (\<lambda>s. q_front s = NULL)"

definition queue_enqueue_section :: "ptr \<Rightarrow> (queue_world, unit) exec" where
  "queue_enqueue_section newNode =
     seq (pthread_mutex_lock 0)
     (bnd (gets q_rear) (\<lambda>r.
     seq (if r = NULL then modify (\<lambda>s. s\<lparr>q_rear := newNode, q_front := newNode\<rparr>)
          else seq (assign r (\<lambda>n. n\<lparr>nxt := newNode\<rparr>)) (modify (\<lambda>s. s\<lparr>q_rear := newNode\<rparr>)))
     (pthread_mutex_unlock 0)))"

definition queue_enqueue :: "int \<Rightarrow> (queue_world, unit) exec" where
  "queue_enqueue data0 = bnd (createNode data0) queue_enqueue_section"

definition queue_dequeue_section :: "(queue_world, int) exec" where
  "queue_dequeue_section =
     seq (pthread_mutex_lock 0)
     (bnd (gets q_front) (\<lambda>temp.
     bnd (deref temp) (\<lambda>n.
     seq (modify (\<lambda>s. s\<lparr>q_front := nxt n\<rparr>))
     (bnd (gets q_front) (\<lambda>f.
     seq (if f = NULL then modify (\<lambda>s. s\<lparr>q_rear := NULL\<rparr>) else ret ())
     (seq (free temp)
     (seq (pthread_mutex_unlock 0) (ret (data n)))))))))"

definition queue_dequeue :: "(queue_world, int) exec" where
  "queue_dequeue =
     bnd isEmpty (\<lambda>e.
     if e then seq (printf ''Queue underflow\<newline>'' []) (ret (- 1)) else queue_dequeue_section)"

definition queue_front_section :: "(queue_world, int) exec" where
  "queue_front_section =
     seq (pthread_mutex_lock 0)
     (bnd (gets q_front) (\<lambda>f.
     bnd (deref f) (\<lambda>n.
     seq (pthread_mutex_unlock 0) (ret (data n)))))"

definition queue_front :: "(queue_world, int) exec" where
  "queue_front =
     bnd isEmpty (\<lambda>e.
     if e then seq (printf ''Queue is empty\<newline>'' []) (ret (- 1)) else queue_front_section)"

definition printQueue_section :: "(queue_world, unit) exec" where
  "printQueue_section =
     seq (pthread_mutex_lock 0)
     (bnd (gets q_front) (\<lambda>temp.
     seq (printf ''Queue: '' [])
     (seq (visit_list nxt (\<lambda>n _. printf ''%d '' [data n]) temp ())
     (seq (printf ''\<newline>'' [])
     (pthread_mutex_unlock 0)))))"

definition printQueue :: "(queue_world, unit) exec" where
  "printQueue =
     bnd isEmpty (\<lambda>e.
     if e then printf ''Queue is empty\<newline>'' [] else printQueue_section)"

text \<open>The functions as a thread runs them: the test of emptiness is a step of its own.\<close>

definition t_dequeue :: "(int \<Rightarrow> queue_world thread) \<Rightarrow> queue_world thread" where
  "t_dequeue k = atomic isEmpty (\<lambda>e.
     if e then atomic (printf ''Queue underflow\<newline>'' []) (\<lambda>_. k (- 1)) else atomic queue_dequeue_section k)"

definition t_front :: "(int \<Rightarrow> queue_world thread) \<Rightarrow> queue_world thread" where
  "t_front k = atomic isEmpty (\<lambda>e.
     if e then atomic (printf ''Queue is empty\<newline>'' []) (\<lambda>_. k (- 1)) else atomic queue_front_section k)"

definition t_printQueue :: "queue_world thread \<Rightarrow> queue_world thread" where
  "t_printQueue k = atomic isEmpty (\<lambda>e.
     if e then atomic (printf ''Queue is empty\<newline>'' []) (\<lambda>_. k) else atomic printQueue_section (\<lambda>_. k))"

definition queue_enqueue_loop :: "int list \<Rightarrow> queue_world thread \<Rightarrow> queue_world thread" where
  "queue_enqueue_loop is = t_for is (\<lambda>i k.
     atomic (createNode i) (\<lambda>n. atomic (queue_enqueue_section n) (\<lambda>_.
     atomic (printf ''Enqueued: %d\<newline>'' [i]) (\<lambda>_. k))))"

definition queue_dequeue_loop :: "int list \<Rightarrow> queue_world thread \<Rightarrow> queue_world thread" where
  "queue_dequeue_loop is = t_for is (\<lambda>_ k.
     t_dequeue (\<lambda>dequeued_value.
     atomic (if dequeued_value \<noteq> - 1 then printf ''Dequeued: %d\<newline>'' [dequeued_value]
             else printf ''Queue is empty\<newline>'' []) (\<lambda>_.
     t_front (\<lambda>_. k))))"

definition queue_thread_func :: "int \<Rightarrow> queue_world thread" where
  "queue_thread_func start =
     atomic (cint (start + 25)) (\<lambda>_.
     queue_enqueue_loop [start..start + 24] (queue_dequeue_loop [0..14] (t_printQueue Done)))"

definition queue_main :: "nat list \<Rightarrow> int \<Rightarrow> int \<Rightarrow> (queue_world, int) exec" where
  "queue_main sched rand1 rand2 =
     seq createQueue
     (seq (run_threads sched [queue_thread_func rand1, queue_thread_func rand2])
     (seq (printf ''Final state of the queue:\<newline>'' [])
     (seq printQueue (ret 0))))"

section \<open>The first-in first-out contract\<close>

locale fifo =
  fixes rep :: "(ptr \<rightharpoonup> node) \<Rightarrow> ('z queue_world_scheme) \<Rightarrow> int list \<Rightarrow> bool"
    and enq :: "int \<Rightarrow> ('z queue_world_scheme, unit) exec"
    and deq :: "('z queue_world_scheme, int) exec"
  assumes enq_ok: "rep F s vs \<Longrightarrow> 0 < room s \<Longrightarrow>
      \<exists>s'. enq v s = Inr ((), s') \<and> rep F s' (vs @ [v]) \<and> room s' = room s - 1"
    and deq_Cons: "rep F s (v # vs) \<Longrightarrow>
      \<exists>s'. deq s = Inr (v, s') \<and> rep F s' vs \<and> room s' = Suc (room s)"
    and deq_Nil: "rep F s [] \<Longrightarrow> \<exists>s'. deq s = Inr (- 1, s') \<and> rep F s' [] \<and> room s' = room s"
begin

lemma enq_all:
  assumes "rep F s vs" and "length ws \<le> room s"
  shows "\<exists>s'. for_each ws enq s = Inr ((), s') \<and> rep F s' (vs @ ws) \<and> room s' = room s - length ws"
proof (rule for_each_rule[where I = "\<lambda>us t. rep F t (vs @ us) \<and> room t = room s - length us"])
  fix us u zs t
  assume "ws = us @ u # zs" and "rep F t (vs @ us) \<and> room t = room s - length us"
  with enq_ok[of F t "vs @ us" u] assms(2)
  show "\<exists>s'. enq u t = Inr ((), s') \<and> rep F s' (vs @ us @ [u]) \<and> room s' = room s - length (us @ [u])"
    by auto
qed (use assms(1) in simp)

lemma deq_all:
  "rep F s (ws @ vs) \<Longrightarrow>
   \<exists>s'. collect (length ws) deq s = Inr (ws, s') \<and> rep F s' vs \<and> room s' = room s + length ws"
proof (induction ws arbitrary: s)
  case Nil
  then show ?case by (simp add: exec_simps)
next
  case (Cons w ws)
  from Cons.prems have "rep F s (w # (ws @ vs))" by simp
  from deq_Cons[OF this] obtain s1 where
    s1: "deq s = Inr (w, s1)" "rep F s1 (ws @ vs)" "room s1 = Suc (room s)" by blast
  from Cons.IH[OF s1(2)] obtain s2 where
    "collect (length ws) deq s1 = Inr (ws, s2)" "rep F s2 vs" "room s2 = room s1 + length ws" by blast
  with s1 show ?case by (auto simp: exec_simps)
qed

text \<open>Elements leave in the order of their arrival, behind those that were there.\<close>

lemma enq_then_deq:
  assumes "rep F s vs" and "length ws \<le> room s"
  shows "\<exists>s'. seq (for_each ws enq) (collect (length vs + length ws) deq) s = Inr (vs @ ws, s') \<and>
     rep F s' [] \<and> room s' = room s + length vs"
proof -
  from enq_all[OF assms] obtain s1 where
    s1: "for_each ws enq s = Inr ((), s1)" "rep F s1 ((vs @ ws) @ [])" "room s1 = room s - length ws" by auto
  from deq_all[OF s1(2)] s1 assms(2) show ?thesis by (auto simp: exec_simps)
qed

end

definition queue_rep :: "(ptr \<rightharpoonup> node) \<Rightarrow> queue_world \<Rightarrow> int list \<Rightarrow> bool" where
  "queue_rep F s vs \<longleftrightarrow> locks s 0 = Free \<and>
     (\<exists>xs. owns nxt s (q_front s) xs F \<and> q_rear s = last_ptr NULL xs \<and> map (\<lambda>x. data (snd x)) xs = vs)"

lemma owns_queue [simp]:
  "owns nx (q_front_update f s) p xs F = owns nx s p xs F"
  "owns nx (q_rear_update g s) p xs F = owns nx s p xs F"
  by (rule owns_cong, simp_all)+

lemma queue_repE:
  assumes "queue_rep F s vs"
  obtains xs where "locks s 0 = Free" "owns nxt s (q_front s) xs F" "q_rear s = last_ptr NULL xs"
    "vs = map (\<lambda>x. data (snd x)) xs"
  using assms by (auto simp: queue_rep_def)

lemma queue_repI:
  assumes "owns nxt s (q_front s) xs F" "locks s 0 = Free" "q_rear s = last_ptr NULL xs"
    "map (\<lambda>x. data (snd x)) xs = vs"
  shows "queue_rep F s vs"
  using assms by (auto simp: queue_rep_def)

lemma queue_rep_out [simp]: "queue_rep F (out_update f s) vs = queue_rep F s vs"
  by (simp add: queue_rep_def)

lemma queue_rep_null: "queue_rep F s vs \<Longrightarrow> q_front s = NULL \<longleftrightarrow> vs = []"
  by (auto elim!: queue_repE dest: owns_null_iff)

subsection \<open>The sections of the queues\<close>

lemma queue_alloc_ok:
  assumes "queue_rep F s vs" and "0 < room s" and "m = enqueue_alloc v \<or> m = createNode v"
  shows "\<exists>p n s'. m s = Inr (p, s') \<and> queue_rep (F(p \<mapsto> n)) s' vs \<and> data n = v \<and> nxt n = NULL \<and>
     F p = None \<and> room s' = room s - 1"
proof -
  from assms(1) obtain xs where r: "locks s 0 = Free" "owns nxt s (q_front s) xs F"
    "q_rear s = last_ptr NULL xs" "vs = map (\<lambda>x. data (snd x)) xs" by (rule queue_repE)
  let ?n = "(junk s)\<lparr>data := v, nxt := NULL\<rparr>"
  let ?s = "s\<lparr>cells := (cells s)(fresh s \<mapsto> ?n), fresh := Suc (fresh s), room := room s - 1\<rparr>"
  have "m s = Inr (fresh s, ?s)"
    using assms(2,3) owns_wf[OF r(2)] by (auto simp: enqueue_alloc_def createNode_def exec_simps)
  moreover have "owns nxt ?s (q_front ?s) xs (F(fresh s \<mapsto> ?n))"
    using owns_alloc[OF r(2), of ?s ?n] by simp
  then have "queue_rep (F(fresh s \<mapsto> ?n)) ?s vs" by (rule queue_repI) (use r in simp_all)
  ultimately show ?thesis using owns_fresh[OF r(2)]
    by (intro exI[of _ "fresh s"] exI[of _ ?n] exI[of _ ?s]) simp
qed

lemma queue_link_ok:
  assumes "queue_rep F s vs" and "F p = Some n" and "nxt n = NULL" and "m = enqueue_link p \<or> m = queue_enqueue_section p"
  shows "\<exists>s'. m s = Inr ((), s') \<and> queue_rep (F(p := None)) s' (vs @ [data n]) \<and> room s' = room s"
proof -
  from assms(1) obtain xs where r: "locks s 0 = Free" "owns nxt s (q_front s) xs F"
    "q_rear s = last_ptr NULL xs" "vs = map (\<lambda>x. data (snd x)) xs" by (rule queue_repE)
  show ?thesis
  proof (cases xs rule: rev_cases)
    case Nil
    let ?s = "s\<lparr>q_rear := p, q_front := p\<rparr>"
    have "m s = Inr ((), ?s)"
      using assms(4) r Nil by (auto simp: enqueue_link_def queue_enqueue_section_def exec_simps)
    moreover have "q_front s = NULL" using r(2) Nil by simp
    then have "owns nxt s p [(p, n)] (F(p := None))"
      using owns_link_front[OF r(2) assms(2)] assms(3) Nil by simp
    then have "queue_rep (F(p := None)) ?s (vs @ [data n])"
      using r Nil by (intro queue_repI[of _ "[(p, n)]"]) simp_all
    ultimately show ?thesis by simp
  next
    case (snoc us x)
    obtain a m0 where x: "x = (a, m0)" by (cases x)
    have a: "a \<noteq> NULL" "cells s a = Some m0" "nxt m0 = NULL"
      using r(2) snoc x by (auto simp: owns_def)
    let ?s = "s\<lparr>cells := (cells s)(a \<mapsto> m0\<lparr>nxt := p\<rparr>), q_rear := p\<rparr>"
    have "m s = Inr ((), ?s)"
      using assms(4) r snoc x a by (auto simp: enqueue_link_def queue_enqueue_section_def exec_simps)
    moreover have "owns nxt ?s (q_front ?s) (us @ [(a, m0\<lparr>nxt := p\<rparr>), (p, n)]) (F(p := None))"
      using node.owns_link_after[of s "q_front s" us a m0 "[]" F p n ?s] r(2) snoc x a assms by simp
    then have "queue_rep (F(p := None)) ?s (vs @ [data n])"
      by (rule queue_repI) (use r snoc x in \<open>simp_all add: last_ptr_def\<close>)
    ultimately show ?thesis by simp
  qed
qed

text \<open>The state after the front node has been unlinked.\<close>

lemma queue_unlinked:
  assumes "owns nxt s (q_front s) ((p, n) # xs) F" and "q_rear s = last_ptr NULL ((p, n) # xs)"
  shows "(if nxt n = NULL then NULL else q_rear s) = last_ptr NULL xs"
proof -
  have "owns nxt s (nxt n) xs (F(p \<mapsto> n))" by (rule owns_unlink_front[OF assms(1)])
  from owns_null_iff[OF this] assms(2) show ?thesis by (cases xs) auto
qed

lemma dequeue_unlink_Cons:
  assumes "queue_rep F s (v # vs)"
  shows "\<exists>p n s'. dequeue_unlink s = Inr ((p, v), s') \<and> p \<noteq> NULL \<and> F p = None \<and>
     queue_rep (F(p \<mapsto> n)) s' vs \<and> room s' = room s"
proof -
  from assms obtain p n xs where r: "locks s 0 = Free" "owns nxt s (q_front s) ((p, n) # xs) F"
    "q_rear s = last_ptr NULL ((p, n) # xs)" "v = data n" "vs = map (\<lambda>x. data (snd x)) xs"
    by (elim queue_repE map_snd_ConsE) auto
  from owns_Cons[OF r(2)] have p: "p = q_front s" "p \<noteq> NULL" "cells s p = Some n" by auto
  let ?s = "s\<lparr>q_front := nxt n, q_rear := if nxt n = NULL then NULL else q_rear s\<rparr>"
  have "dequeue_unlink s = Inr ((p, v), ?s)"
    using r p by (simp add: dequeue_unlink_def exec_simps)
  moreover have "owns nxt ?s (q_front ?s) xs (F(p \<mapsto> n))" using owns_unlink_front[OF r(2)] by simp
  then have "queue_rep (F(p \<mapsto> n)) ?s vs"
    by (rule queue_repI) (use r queue_unlinked[OF r(2,3)] in simp_all)
  moreover have "F p = None" using r(2) by (auto simp: owns_def)
  ultimately show ?thesis using p(2) by (intro exI[of _ p] exI[of _ n] exI[of _ ?s]) simp
qed

lemma dequeue_unlink_Nil:
  assumes "queue_rep F s []"
  shows "\<exists>s'. dequeue_unlink s = Inr ((NULL, - 1), s') \<and> queue_rep F s' [] \<and> room s' = room s"
  using assms queue_rep_null[OF assms] by (auto elim!: queue_repE simp: dequeue_unlink_def exec_simps queue_rep_def)

lemma dequeue_free_ok:
  assumes "queue_rep F s vs" and "F p = Some n"
  shows "\<exists>s'. dequeue_free (p, v) s = Inr (v, s') \<and> queue_rep (F(p := None)) s' vs \<and> room s' = Suc (room s)"
proof -
  from assms(1) obtain xs where r: "locks s 0 = Free" "owns nxt s (q_front s) xs F"
    "q_rear s = last_ptr NULL xs" "vs = map (\<lambda>x. data (snd x)) xs" by (rule queue_repE)
  let ?s = "s\<lparr>cells := (cells s)(p := None), room := Suc (room s)\<rparr>"
  have "dequeue_free (p, v) s = Inr (v, ?s)"
    using owns_frame[OF r(2) assms(2)] by (simp add: dequeue_free_def exec_simps)
  moreover have "owns nxt ?s (q_front ?s) xs (F(p := None))"
    using owns_frame_upd[OF r(2) assms(2), of ?s None] by simp
  then have "queue_rep (F(p := None)) ?s vs" by (rule queue_repI) (use r in simp_all)
  ultimately show ?thesis by simp
qed

lemma queue_dequeue_section_ok:
  assumes "queue_rep F s (v # vs)"
  shows "\<exists>s'. queue_dequeue_section s = Inr (v, s') \<and> queue_rep F s' vs \<and> room s' = Suc (room s)"
proof -
  from assms obtain p n xs where r: "locks s 0 = Free" "owns nxt s (q_front s) ((p, n) # xs) F"
    "q_rear s = last_ptr NULL ((p, n) # xs)" "v = data n" "vs = map (\<lambda>x. data (snd x)) xs"
    by (elim queue_repE map_snd_ConsE) auto
  from owns_Cons[OF r(2)] have p: "p = q_front s" "p \<noteq> NULL" "cells s p = Some n" by auto
  let ?s = "s\<lparr>q_front := nxt n, q_rear := if nxt n = NULL then NULL else q_rear s,
     cells := (cells s)(p := None), room := Suc (room s)\<rparr>"
  have "queue_dequeue_section s = Inr (v, ?s)"
    using r p by (simp add: queue_dequeue_section_def exec_simps)
  moreover have "owns nxt ?s (q_front ?s) xs F" using node.owns_delete_first[OF r(2), of ?s] by simp
  then have "queue_rep F ?s vs"
    by (rule queue_repI) (use r queue_unlinked[OF r(2,3)] in simp_all)
  ultimately show ?thesis by simp
qed

text \<open>On an empty queue the critical section of \<^verbatim>\<open>dequeue\<close> dereferences \<^verbatim>\<open>NULL\<close>.\<close>

lemma queue_dequeue_section_empty:
  "queue_rep F s [] \<Longrightarrow> queue_dequeue_section s = Inl NullDeref"
  using queue_rep_null[of F s "[]"] by (auto elim!: queue_repE simp: queue_dequeue_section_def exec_simps)

subsection \<open>Whole operations\<close>

lemma queue_enqueue_ok:
  assumes "queue_rep F s vs" and "0 < room s"
    and "m = bnd (enqueue_alloc v) enqueue_link \<or> m = bnd (createNode v) queue_enqueue_section"
  shows "\<exists>s'. m s = Inr ((), s') \<and> queue_rep F s' (vs @ [v]) \<and> room s' = room s - 1"
proof -
  from assms(3) obtain a l where m: "m = bnd a l" "a = enqueue_alloc v \<or> a = createNode v"
    "\<And>p. l p = enqueue_link p \<or> l p = queue_enqueue_section p" by blast
  from queue_alloc_ok[OF assms(1,2) m(2)] obtain p n s1 where
    1: "a s = Inr (p, s1)" "queue_rep (F(p \<mapsto> n)) s1 vs" "data n = v" "nxt n = NULL" "F p = None"
      "room s1 = room s - 1" by blast
  from queue_link_ok[OF 1(2) _ 1(4) m(3), of p] 1 m(1) show ?thesis by (auto simp: exec_simps fun_upd_idem)
qed

lemma dequeue_Cons:
  assumes "queue_rep F s (v # vs)"
  shows "\<exists>s'. dequeue s = Inr (v, s') \<and> queue_rep F s' vs \<and> room s' = Suc (room s)"
proof -
  from dequeue_unlink_Cons[OF assms] obtain p n s1 where
    1: "dequeue_unlink s = Inr ((p, v), s1)" "F p = None" "queue_rep (F(p \<mapsto> n)) s1 vs" "room s1 = room s"
    by blast
  from dequeue_free_ok[OF 1(3), of p n v] 1 show ?thesis by (auto simp: dequeue_def exec_simps fun_upd_idem)
qed

lemma dequeue_Nil:
  "queue_rep F s [] \<Longrightarrow> \<exists>s'. dequeue s = Inr (- 1, s') \<and> queue_rep F s' [] \<and> room s' = room s"
  using dequeue_unlink_Nil[of F s] by (auto simp: dequeue_def dequeue_free_def exec_simps)

lemma queue_dequeue_Cons:
  "queue_rep F s (v # vs) \<Longrightarrow> \<exists>s'. queue_dequeue s = Inr (v, s') \<and> queue_rep F s' vs \<and> room s' = Suc (room s)"
  using queue_dequeue_section_ok[of F s v vs] queue_rep_null[of F s "v # vs"]
  by (simp add: queue_dequeue_def isEmpty_def exec_simps)

lemma queue_dequeue_Nil:
  "queue_rep F s [] \<Longrightarrow> \<exists>s'. queue_dequeue s = Inr (- 1, s') \<and> queue_rep F s' [] \<and> room s' = room s"
  using queue_rep_null[of F s "[]"] by (simp add: queue_dequeue_def isEmpty_def exec_simps)

lemma enqueue_ok:
  assumes "queue_rep F s vs" and "0 < room s"
  shows "\<exists>s'. queue_enqueue v s = Inr ((), s') \<and> queue_rep F s' (vs @ [v]) \<and> room s' = room s - 1"
    and "\<exists>s'. enqueue v s = Inr ((), s') \<and> queue_rep F s' (vs @ [v]) \<and> room s' = room s - 1"
    and "\<exists>s'. queue_2_enqueue v s = Inr ((), s') \<and> queue_rep F s' (vs @ [v]) \<and> room s' = room s - 1"
  unfolding queue_enqueue_def enqueue_def queue_2_enqueue_def by (rule queue_enqueue_ok[OF assms]; simp)+

interpretation q0: fifo queue_rep queue_enqueue queue_dequeue
  by unfold_locales (fact enqueue_ok queue_dequeue_Cons queue_dequeue_Nil)+

interpretation q1: fifo queue_rep enqueue dequeue
  by unfold_locales (fact enqueue_ok dequeue_Cons dequeue_Nil)+

interpretation q2: fifo queue_rep queue_2_enqueue queue_2_dequeue
  by unfold_locales (fact enqueue_ok dequeue_Cons[unfolded dequeue_def, folded queue_2_dequeue_def]
    dequeue_Nil[unfolded dequeue_def, folded queue_2_dequeue_def])+

lemma queue_front_section_ok:
  assumes "queue_rep F s (v # vs)"
  shows "queue_front_section s = Inr (v, s)"
proof -
  from assms obtain p n xs where r: "locks s 0 = Free" "owns nxt s (q_front s) ((p, n) # xs) F" "v = data n"
    by (elim queue_repE map_snd_ConsE) auto
  from owns_Cons[OF r(2)] r(1,3) show ?thesis by (auto simp: queue_front_section_def exec_simps)
qed

lemma queue_front_ok:
  "queue_rep F s vs \<Longrightarrow> \<exists>s'. queue_front s = Inr (case vs of [] \<Rightarrow> - 1 | v # _ \<Rightarrow> v, s') \<and> queue_rep F s' vs"
  using queue_rep_null[of F s vs] queue_front_section_ok[of F s]
  by (cases vs) (auto simp: queue_front_def isEmpty_def exec_simps)

lemma printQueue_section_ok:
  assumes "queue_rep F s vs"
  shows "printQueue_section s =
     Inr ((), s\<lparr>out := out s @ (''Queue: '', []) # map (\<lambda>v. (''%d '', [v])) vs @ [(''\<newline>'', [])]\<rparr>)"
proof -
  from assms(1) obtain xs where r: "locks s 0 = Free" "owns nxt s (q_front s) xs F"
    "vs = map (\<lambda>x. data (snd x)) xs" by (rule queue_repE)
  let ?s = "s\<lparr>locks := (locks s)(0 := Held), out := out s @ [(''Queue: '', [])]\<rparr>"
  have "visit_list nxt (\<lambda>n _. printf ''%d '' [data n]) (q_front s) () ?s =
      Inr ((), ?s\<lparr>out := out ?s @ map (\<lambda>x. (''%d '', [data (snd x)])) xs\<rparr>)"
    by (rule visit_list_print[where F = F]) (use r in simp_all)
  with r show ?thesis by (simp add: printQueue_section_def exec_simps comp_def)
qed

lemma printQueue_ok:
  assumes "queue_rep F s vs" and "vs \<noteq> []"
  shows "printQueue s =
     Inr ((), s\<lparr>out := out s @ (''Queue: '', []) # map (\<lambda>v. (''%d '', [v])) vs @ [(''\<newline>'', [])]\<rparr>)"
  using printQueue_section_ok[OF assms(1)] queue_rep_null[OF assms(1)] assms(2)
  by (simp add: printQueue_def isEmpty_def exec_simps)

section \<open>The programs\<close>

interpretation qu1: bag_take queue_rep data "\<lambda>n. nxt n = NULL" enqueue_alloc enqueue_link dequeue_unlink dequeue_free
proof unfold_locales
  fix F s vs v
  assume "queue_rep F s vs" and "0 < room s"
  from queue_alloc_ok[OF this, of "enqueue_alloc v" v] show "\<exists>p n s'. enqueue_alloc v s = Inr (p, s') \<and>
      queue_rep (F(p \<mapsto> n)) s' vs \<and> data n = v \<and> nxt n = NULL \<and> F p = None \<and> room s' = room s - 1" by simp
next
  fix F s vs p n
  assume "queue_rep F s vs" and "F p = Some n" and "nxt n = NULL"
  from queue_link_ok[OF this, of "enqueue_link p"] show "\<exists>s' vs'. enqueue_link p s = Inr ((), s') \<and>
      queue_rep (F(p := None)) s' vs' \<and> mset vs' = add_mset (data n) (mset vs) \<and> room s' = room s" by force
next
  fix F s vs
  assume "queue_rep F s vs" and "vs \<noteq> []"
  then show "\<exists>p n v vs' s'. dequeue_unlink s = Inr ((p, v), s') \<and> p \<noteq> NULL \<and> F p = None \<and>
      queue_rep (F(p \<mapsto> n)) s' vs' \<and> mset vs = add_mset v (mset vs') \<and> room s' = room s"
    by (cases vs) (force dest: dequeue_unlink_Cons)+
qed (fact dequeue_unlink_Nil dequeue_free_ok | simp add: dequeue_free_def exec_simps)+

interpretation qu0: bag_print queue_rep data "\<lambda>n. nxt n = NULL" createNode queue_enqueue_section
proof unfold_locales
  fix F s vs v
  assume "queue_rep F s vs" and "0 < room s"
  from queue_alloc_ok[OF this, of "createNode v" v] show "\<exists>p n s'. createNode v s = Inr (p, s') \<and>
      queue_rep (F(p \<mapsto> n)) s' vs \<and> data n = v \<and> nxt n = NULL \<and> F p = None \<and> room s' = room s - 1" by simp
next
  fix F s vs p n
  assume "queue_rep F s vs" and "F p = Some n" and "nxt n = NULL"
  from queue_link_ok[OF this, of "queue_enqueue_section p"] show "\<exists>s' vs'. queue_enqueue_section p s = Inr ((), s') \<and>
      queue_rep (F(p := None)) s' vs' \<and> mset vs' = add_mset (data n) (mset vs) \<and> room s' = room s" by force
qed simp

abbreviation queue_1_inv :: "(unit, node) token multiset \<Rightarrow> queue_world \<Rightarrow> bool" where
  "queue_1_inv \<equiv> qu1.shared (\<lambda>_. ())"

lemma tok_enqueue_loop:
  assumes "tok queue_1_inv Q (holding (m + length is) k) t"
  shows "tok queue_1_inv Q (holding m (k + length is)) (enqueue_loop is t)"
  using assms
proof (induction "is" arbitrary: m)
  case Nil
  then show ?case by (simp add: enqueue_loop_def)
next
  case (Cons i "is")
  have "tok queue_1_inv Q (holding (Suc m) (k + length is)) (enqueue_loop is t)"
    using Cons.IH[of "Suc m"] Cons.prems by simp
  then have "tok queue_1_inv Q (add_mset (Item ()) (holding m (k + length is)))
      (atomic (printf ''Enqueued: %d\<newline>'' [i]) (\<lambda>_. enqueue_loop is t))"
    by (intro qu1.tok_print_shared) simp
  from qu1.tok_put_shared[OF this] show ?case by (simp add: enqueue_loop_def)
qed

lemma tok_dequeue_loop:
  assumes "tok queue_1_inv Q (holding m (k + length is)) t"
  shows "tok queue_1_inv Q (holding (m + length is) k) (dequeue_loop is t)"
  using assms
proof (induction "is" arbitrary: k)
  case Nil
  then show ?case by (simp add: dequeue_loop_def)
next
  case (Cons i "is")
  have *: "tok queue_1_inv Q (holding (m + length is) (Suc k)) (dequeue_loop is t)"
    using Cons.IH[of "Suc k"] Cons.prems by simp
  have "tok queue_1_inv Q (add_mset Budget (holding (m + length is) k))
      (atomic (if v \<noteq> - 1 then printf ''Dequeued: %d\<newline>'' [v] else printf ''Queue is empty\<newline>'' [])
        (\<lambda>_. dequeue_loop is t))" for v
    using * by (cases "v = - 1") (auto intro!: qu1.tok_print_shared)
  from qu1.tok_take_shared[OF this] show ?case by (simp add: dequeue_loop_def)
qed

lemma tok_queue_1_thread_func:
  assumes "int_range (start + 25)"
  shows "tok queue_1_inv (\<lambda>g. g = holding 0 25) (holding 0 25) (queue_1_thread_func start)"
proof -
  have "tok queue_1_inv (\<lambda>g. g = holding 0 25) (holding 25 0) (dequeue_loop [0..24] Done)"
    using tok_dequeue_loop[of "\<lambda>g. g = holding 0 25" 0 0 "[0..24]" Done] by (simp add: tok_done)
  then have "tok queue_1_inv (\<lambda>g. g = holding 0 25) (holding 0 25)
      (enqueue_loop [start..start + 24] (dequeue_loop [0..24] Done))"
    using tok_enqueue_loop[of _ 0 "[start..start + 24]" 0] by simp
  with assms show ?thesis
    unfolding queue_1_thread_func_def by (intro tok_atomic) (auto simp: exec_simps)
qed

lemma queue_rep_boot:
  "queue_rep Map.empty ((queue_boot r j)\<lparr>locks := (\<lambda>_. Uninit)(0 := Free)\<rparr>) []"
  by (simp add: queue_rep_def queue_boot_def world.defs boot_def wf_world_def)

lemma queue_boot_init:
  "pthread_mutex_init 0 (queue_boot r j) = Inr ((), (queue_boot r j)\<lparr>locks := (\<lambda>_. Uninit)(0 := Free)\<rparr>)"
  "room (queue_boot r j) = r"
  by (simp_all add: exec_simps queue_boot_def world.defs boot_def)

text \<open>\<^verbatim>\<open>queue_1/queue_1.c\<close> under every interleaving of its two threads and for all
  random starts that do not overflow: with memory for 50 nodes it does not fault, ends, and leaves an
  empty queue, no leaked node and a destroyed mutex.\<close>

theorem queue_1_main_ok:
  assumes "50 \<le> r" and "int_range (rand1 + 25)" and "int_range (rand2 + 25)"
  shows "\<exists>s'. queue_1_main sched rand1 rand2 (queue_boot r j) = Inr (0, s') \<and> q_front s' = NULL \<and>
     q_rear s' = NULL \<and> cells s' = Map.empty \<and> locks s' 0 = Destroyed"
proof -
  let ?s = "(queue_boot r j)\<lparr>locks := (\<lambda>_. Uninit)(0 := Free)\<rparr>"
  let ?ts = "[queue_1_thread_func rand1, queue_1_thread_func rand2]"
  have "queue_1_inv (holding 0 25 + holding 0 25) ?s"
    using qu1.shared_start[OF queue_rep_boot, of 50 r j] assms(1)
    by (simp add: replicate_mset_add queue_boot_init)
  then obtain s1 where
    1: "run_threads sched ?ts ?s = Inr ((), s1)" "queue_1_inv (holding 0 25 + holding 0 25) s1"
    using run_two[OF tok_queue_1_thread_func tok_queue_1_thread_func, OF assms(2,3), of ?s sched] by auto
  from 1(2) have "queue_1_inv (holding 0 50) s1" by (simp add: replicate_mset_add)
  from qu1.shared_holding[OF this] have "queue_rep Map.empty s1 []" by auto
  then have "locks s1 0 = Free" "q_front s1 = NULL" "q_rear s1 = NULL" "cells s1 = Map.empty"
    by (auto elim!: queue_repE)
  with 1(1) show ?thesis by (simp add: queue_1_main_def exec_simps queue_boot_init)
qed

theorem queue_1_main_ok_witness:
  "\<exists>s'. queue_1_main [0, 1, 0, 1] 7 1000 (queue_boot 50 node0) = Inr (0, s') \<and> q_front s' = NULL \<and>
     q_rear s' = NULL \<and> cells s' = Map.empty \<and> locks s' 0 = Destroyed"
  by (rule queue_1_main_ok) (simp_all add: int_range_defs)

text \<open>The threads of \<^verbatim>\<open>queue_2.c\<close> put back what they took.\<close>

lemma tok_queue_2_loop:
  assumes "- 1 \<notin># M0" and "tok (qu1.pool M0) Q {#} t"
  shows "tok (qu1.pool M0) Q {#} (t_for is (\<lambda>_ k.
       atomic dequeue_unlink (\<lambda>r. atomic (dequeue_free r) (\<lambda>value.
       if value \<noteq> - 1 then
         atomic (printf ''Thread %ld dequeued: %d\<newline>'' [tid, value]) (\<lambda>_.
         atomic (enqueue_alloc value) (\<lambda>n. atomic (enqueue_link n) (\<lambda>_.
         atomic (printf ''Thread %ld enqueued: %d\<newline>'' [tid, value]) (\<lambda>_. k))))
       else atomic (printf ''Thread %ld found the queue empty\<newline>'' [tid]) (\<lambda>_. k)))) t)"
  (is "tok _ _ _ (t_for is ?body t)")
proof (induction "is")
  case Nil
  with assms(2) show ?case by simp
next
  case (Cons i "is")
  have "tok (qu1.pool M0) Q {#} (?body i (t_for is ?body t))"
    using Cons.IH by (intro qu1.tok_take_pool[OF assms(1)])
      (simp_all add: qu1.tok_print_pool qu1.tok_put_pool)
  then show ?case by simp
qed

text \<open>C4: \<^verbatim>\<open>queue_2/queue_2.c\<close> under every interleaving of its two threads, each of which
  25 times takes an element out and puts it back: no element is lost, duplicated or
  invented. At the end the queue holds exactly the numbers 0 to 9 in some order, in exactly ten nodes.\<close>

theorem queue_2_main_ok:
  assumes "10 \<le> r"
  shows "\<exists>s' s1 vs. queue_2_main sched tid1 tid2 (queue_boot r j) = Inr (0, s') \<and>
     s' = s1\<lparr>locks := (locks s1)(0 := Destroyed)\<rparr> \<and> queue_rep Map.empty s1 vs \<and> mset vs = mset [0..9]"
proof -
  let ?s = "(queue_boot r j)\<lparr>locks := (\<lambda>_. Uninit)(0 := Free)\<rparr>"
  let ?ts = "[queue_2_thread_func tid1, queue_2_thread_func tid2]"
  let ?I = "qu1.pool (mset [0..9])"
  from q2.enq_all[OF queue_rep_boot, of "[0..9]" r j] assms obtain s1 where
    1: "for_each [0..9] queue_2_enqueue ?s = Inr ((), s1)" "queue_rep Map.empty s1 [0..9]"
    by (auto simp: queue_boot_init)
  then have "?I ({#} + {#}) s1" unfolding qu1.pool_def
    by (intro exI[of _ "[0..9]"] exI[of _ Map.empty] exI[of _ "{#}"]) (simp add: ledger_def)
  moreover have "tok ?I (\<lambda>g. g = {#}) {#} (queue_2_thread_func tid)" for tid
    unfolding queue_2_thread_func_def by (rule tok_queue_2_loop) (simp_all add: tok_done)
  ultimately obtain s2 where 2: "run_threads sched ?ts s1 = Inr ((), s2)" "?I {#} s2"
    using run_two[of ?I "\<lambda>g. g = {#}" "{#}" "queue_2_thread_func tid1" "\<lambda>g. g = {#}" "{#}"
      "queue_2_thread_func tid2" s1 sched] by auto
  then obtain vs F M where v: "queue_rep F s2 vs" "ledger {#} s2 M F" "M + mset vs = mset [0..9]"
    by (auto simp: qu1.pool_def)
  have "F = Map.empty" by (rule ledger_no_priv[OF v(2)]) simp
  moreover have "M = {#}" using v(2) by (intro multiset_eqI) (simp add: ledger_def)
  moreover have "locks s2 0 = Free" using v(1) by (rule queue_repE)
  ultimately show ?thesis using 1(1) 2(1) v
    by (auto simp: queue_2_main_def exec_simps queue_boot_init simp del: for_each.simps upto_rec_numeral)
qed

theorem queue_2_main_ok_witness:
  "\<exists>s' s1 vs. queue_2_main [0, 1, 1, 0] 5 6 (queue_boot 10 node0) = Inr (0, s') \<and>
     s' = s1\<lparr>locks := (locks s1)(0 := Destroyed)\<rparr> \<and> queue_rep Map.empty s1 vs \<and> mset vs = mset [0..9]"
  by (rule queue_2_main_ok) simp

subsection \<open>The early test of emptiness\<close>

abbreviation queue_inv :: "(unit, node) token multiset \<Rightarrow> queue_world \<Rightarrow> bool" where
  "queue_inv \<equiv> qu0.shared (\<lambda>_. ())"

text \<open>A thread that has an element in the queue passes the test, and the test stays true.\<close>

lemma tok_isEmpty:
  assumes "Item () \<in># g" and "tok queue_inv Q g t"
  shows "tok queue_inv Q g (atomic isEmpty (\<lambda>e. if e then t' else t))"
proof (rule qu0.tok_keep_shared[where P = "\<lambda>e. \<not> e"])
  fix F s vs
  assume "queue_rep F s vs" and "\<forall>i. Item i \<in># g \<longrightarrow> i \<in> (\<lambda>_. ()) ` set vs"
  with queue_rep_null[of F s vs] assms(1) show "\<exists>a s' vs'. isEmpty s = Inr (a, s') \<and> \<not> a \<and> queue_rep F s' vs' \<and>
      mset vs' = mset vs \<and> room s' = room s" by (auto simp: isEmpty_def exec_simps)
qed (use assms(2) in simp)

lemma tok_t_dequeue:
  assumes "\<And>v. tok queue_inv Q (add_mset Budget g) (k v)"
  shows "tok queue_inv Q (add_mset (Item ()) g) (t_dequeue k)"
  unfolding t_dequeue_def
proof (rule tok_isEmpty)
  show "tok queue_inv Q (add_mset (Item ()) g) (atomic queue_dequeue_section k)"
  proof (rule qu0.tok_drop_shared[OF _ assms])
    fix F s and vs :: "int list"
    assume "queue_rep F s vs" and "vs \<noteq> []"
    then show "\<exists>a s' v vs'. queue_dequeue_section s = Inr (a, s') \<and> queue_rep F s' vs' \<and>
        mset vs = add_mset v (mset vs') \<and> room s' = Suc (room s)"
      by (cases vs) (force dest: queue_dequeue_section_ok)+
  qed
qed simp

lemma tok_t_front:
  assumes "Item () \<in># g" and "\<And>v. tok queue_inv Q g (k v)"
  shows "tok queue_inv Q g (t_front k)"
  unfolding t_front_def
proof (rule tok_isEmpty[OF assms(1)])
  show "tok queue_inv Q g (atomic queue_front_section k)"
  proof (rule qu0.tok_keep_shared[where P = "\<lambda>_. True"])
    fix F s vs
    assume r: "queue_rep F s vs" and "\<forall>i. Item i \<in># g \<longrightarrow> i \<in> (\<lambda>_. ()) ` set vs"
    then obtain v ws where "vs = v # ws" using assms(1) by (cases vs) auto
    with r queue_front_section_ok[of F s v ws] show "\<exists>a s' vs'. queue_front_section s = Inr (a, s') \<and> True \<and>
        queue_rep F s' vs' \<and> mset vs' = mset vs \<and> room s' = room s" by auto
  qed (rule assms(2))
qed

lemma tok_t_printQueue:
  assumes "Item () \<in># g" and "tok queue_inv Q g k"
  shows "tok queue_inv Q g (t_printQueue k)"
  unfolding t_printQueue_def
proof (rule tok_isEmpty[OF assms(1)])
  show "tok queue_inv Q g (atomic printQueue_section (\<lambda>_. k))"
    by (rule qu0.tok_keep_shared[where P = "\<lambda>_. True"]) (use assms(2) in \<open>auto simp: printQueue_section_ok\<close>)
qed

lemma tok_queue_enqueue_loop:
  assumes "tok queue_inv Q (holding (m + length is) k) t"
  shows "tok queue_inv Q (holding m (k + length is)) (queue_enqueue_loop is t)"
  using assms
proof (induction "is" arbitrary: m)
  case Nil
  then show ?case by (simp add: queue_enqueue_loop_def)
next
  case (Cons i "is")
  have "tok queue_inv Q (add_mset (Item ()) (holding m (k + length is)))
      (atomic (printf ''Enqueued: %d\<newline>'' [i]) (\<lambda>_. queue_enqueue_loop is t))"
    using Cons.IH[of "Suc m"] Cons.prems by (intro qu0.tok_print_shared) simp
  from qu0.tok_put_shared[OF this] show ?case by (simp add: queue_enqueue_loop_def)
qed

lemma tok_queue_dequeue_loop:
  assumes "tok queue_inv Q (holding (Suc m) (k + length is)) t"
  shows "tok queue_inv Q (holding (Suc m + length is) k) (queue_dequeue_loop is t)"
  using assms
proof (induction "is" arbitrary: k)
  case Nil
  then show ?case by (simp add: queue_dequeue_loop_def)
next
  case (Cons i "is")
  let ?g = "add_mset Budget (holding (Suc m + length is) k) :: (unit, node) token multiset"
  have "tok queue_inv Q ?g (queue_dequeue_loop is t)"
    using Cons.IH[of "Suc k"] Cons.prems by simp
  then have "tok queue_inv Q ?g (t_front (\<lambda>_. queue_dequeue_loop is t))" by (intro tok_t_front) auto
  from tok_t_dequeue[OF qu0.tok_print_if[OF this]] show ?case by (simp add: queue_dequeue_loop_def)
qed

lemma tok_queue_thread_func:
  assumes "int_range (start + 25)"
  shows "tok queue_inv (\<lambda>g. g = holding 10 15) (holding 0 25) (queue_thread_func start)"
proof -
  let ?Q = "\<lambda>g :: (unit, node) token multiset. g = holding 10 15"
  have "tok queue_inv ?Q (holding 10 15) (t_printQueue Done)"
    by (rule tok_t_printQueue) (auto intro: tok_done)
  then have "tok queue_inv ?Q (holding 25 0) (queue_dequeue_loop [0..14] (t_printQueue Done))"
    using tok_queue_dequeue_loop[of ?Q 9 0 "[0..14]" "t_printQueue Done"] by (simp add: eval_nat_numeral)
  then have "tok queue_inv ?Q (holding 0 25)
      (queue_enqueue_loop [start..start + 24] (queue_dequeue_loop [0..14] (t_printQueue Done)))"
    using tok_queue_enqueue_loop[of _ 0 "[start..start + 24]" 0] by simp
  with assms show ?thesis
    unfolding queue_thread_func_def by (intro tok_atomic) (auto simp: exec_simps)
qed

lemma createQueue_ok:
  "0 < r \<Longrightarrow> createQueue (queue_boot r j) =
     Inr ((), (queue_boot r j)\<lparr>room := r - 1, locks := (\<lambda>_. Uninit)(0 := Free)\<rparr>)"
  by (simp add: createQueue_def exec_simps queue_boot_def world.defs boot_def)



text \<open>C33: the early test of \<^verbatim>\<open>queue.h\<close> is a race: when the queue holds a single element and
  two threads call \<^verbatim>\<open>dequeue\<close>, the interleaving in which both test before either
  removes dereferences \<^verbatim>\<open>NULL\<close>, whatever the element is.\<close>

theorem queue_dequeue_race:
  assumes "queue_rep F s [v]"
  shows "par [0, 1, 0, 1] [t_dequeue (\<lambda>_. Done), t_dequeue (\<lambda>_. Done)] s = Inl NullDeref"
proof -
  from queue_dequeue_section_ok[OF assms] obtain s' where
    s': "queue_dequeue_section s = Inr (v, s')" "queue_rep F s' []" by blast
  have "q_front s \<noteq> NULL" using queue_rep_null[OF assms] by simp
  with s'(1) queue_dequeue_section_empty[OF s'(2)] show ?thesis
    by (simp add: t_dequeue_def atomic_def isEmpty_def exec_simps)
qed

theorem queue_dequeue_race_witness:
  "\<exists>s. queue_rep Map.empty s [7] \<and>
     par [0, 1, 0, 1] [t_dequeue (\<lambda>_. Done), t_dequeue (\<lambda>_. Done)] s = Inl NullDeref"
proof -
  from q0.enq_all[OF queue_rep_boot, of "[7]" 1 node0] obtain s where "queue_rep Map.empty s [7]"
    by (auto simp: queue_boot_init)
  with queue_dequeue_race[OF this] show ?thesis by blast
qed

text \<open>First-in first-out for \<^verbatim>\<open>enqueue\<close> and \<^verbatim>\<open>dequeue\<close> of \<^verbatim>\<open>queue.h\<close>:
  after any sequence of insertions the elements leave in order of arrival, and all nodes are released.\<close>

theorem queue_fifo:
  assumes "queue_rep F s vs" and "length ws \<le> room s"
  shows "\<exists>s'. seq (for_each ws queue_enqueue) (collect (length vs + length ws) queue_dequeue) s = Inr (vs @ ws, s') \<and>
     queue_rep F s' [] \<and> room s' = room s + length vs"
  using assms by (rule q0.enq_then_deq)

theorem queue_fifo_witness:
  "\<exists>s'. seq (for_each [4, 5, 6] queue_enqueue) (collect 3 queue_dequeue)
       ((queue_boot 3 node0)\<lparr>locks := (\<lambda>_. Uninit)(0 := Free)\<rparr>) = Inr ([4, 5, 6], s') \<and>
     queue_rep Map.empty s' [] \<and> room s' = 3"
  using queue_fifo[OF queue_rep_boot, of "[4, 5, 6]" 3 node0]
  by (simp add: queue_boot_init eval_nat_numeral)

text \<open>the same contract for \<^verbatim>\<open>enqueue\<close> and \<^verbatim>\<open>dequeue\<close> of \<^verbatim>\<open>queue_1.h\<close>.\<close>

theorem queue_1_fifo:
  assumes "queue_rep F s vs" and "length ws \<le> room s"
  shows "\<exists>s'. seq (for_each ws enqueue) (collect (length vs + length ws) dequeue) s = Inr (vs @ ws, s') \<and>
     queue_rep F s' [] \<and> room s' = room s + length vs"
  using assms by (rule q1.enq_then_deq)

theorem queue_1_fifo_witness:
  "\<exists>s'. seq (for_each [4, 5, 6] enqueue) (collect 3 dequeue)
       ((queue_boot 3 node0)\<lparr>locks := (\<lambda>_. Uninit)(0 := Free)\<rparr>) = Inr ([4, 5, 6], s') \<and>
     queue_rep Map.empty s' [] \<and> room s' = 3"
  using queue_1_fifo[OF queue_rep_boot, of "[4, 5, 6]" 3 node0]
  by (simp add: queue_boot_init eval_nat_numeral)

end
