(* ===== verification/Deque.thy ===== *)
theory Deque
  imports Bags
begin

text \<open>
  \<^verbatim>\<open>ThreadTrove/dqueue\<close> and \<^verbatim>\<open>ThreadTrove/doublyList\<close>: two double-ended containers on
  doubly linked persistent nodes. Both are interpretations of one contract, in which the four
  end operations are the obvious functions on a sequence. The representation requires every back pointer to
  be right. The programs let two threads pop, push and pop at both ends; they are shown to
  be free of faults and of integer overflow and to keep the number of elements.
\<close>

section \<open>State\<close>

record dnode =
  ddata :: int
  dnext :: ptr
  dprev :: ptr

record dlist_world = "dnode world" +
  dl_front :: ptr
  dl_rear :: ptr

definition dlist_boot :: "nat \<Rightarrow> dnode \<Rightarrow> dlist_world" where
  "dlist_boot r j = world.extend (boot r j) \<lparr>dl_front = NULL, dl_rear = NULL\<rparr>"

interpretation dnode: linked dnext "\<lambda>p n. n\<lparr>dnext := p\<rparr>" ddata
  by unfold_locales simp_all

section \<open>dqueue/dqueue.h\<close>

definition newNode :: "int \<Rightarrow> (dlist_world, ptr) exec" where
  "newNode v =
     bnd pmalloc (\<lambda>node.
     seq (assign node (\<lambda>n. n\<lparr>ddata := v\<rparr>))
     (seq (assign node (\<lambda>n. n\<lparr>dnext := NULL\<rparr>))
     (seq (assign node (\<lambda>n. n\<lparr>dprev := NULL\<rparr>))
     (ret node))))"

definition deque_init :: "(dlist_world, unit) exec" where
  "deque_init = seq (modify (\<lambda>s. s\<lparr>dl_rear := NULL, dl_front := NULL\<rparr>)) (pthread_mutex_init 0)"

definition deque_push_front :: "int \<Rightarrow> (dlist_world, unit) exec" where
  "deque_push_front v =
     seq (pthread_mutex_lock 0)
     (bnd (newNode v) (\<lambda>node.
     bnd (gets dl_front) (\<lambda>f.
     seq (if f = NULL then modify (\<lambda>s. s\<lparr>dl_rear := node, dl_front := node\<rparr>)
          else seq (assign node (\<lambda>n. n\<lparr>dnext := f\<rparr>))
               (seq (assign f (\<lambda>n. n\<lparr>dprev := node\<rparr>))
               (modify (\<lambda>s. s\<lparr>dl_front := node\<rparr>))))
     (pthread_mutex_unlock 0))))"

definition deque_push_back :: "int \<Rightarrow> (dlist_world, unit) exec" where
  "deque_push_back v =
     seq (pthread_mutex_lock 0)
     (bnd (newNode v) (\<lambda>node.
     bnd (gets dl_rear) (\<lambda>r.
     seq (if r = NULL then modify (\<lambda>s. s\<lparr>dl_rear := node, dl_front := node\<rparr>)
          else seq (assign node (\<lambda>n. n\<lparr>dprev := r\<rparr>))
               (seq (assign r (\<lambda>n. n\<lparr>dnext := node\<rparr>))
               (modify (\<lambda>s. s\<lparr>dl_rear := node\<rparr>))))
     (pthread_mutex_unlock 0))))"

definition deque_pop_front :: "(dlist_world, int) exec" where
  "deque_pop_front =
     seq (pthread_mutex_lock 0)
     (bnd (gets dl_front) (\<lambda>temp.
     if temp = NULL then seq (pthread_mutex_unlock 0) (ret (- 1))
     else
       bnd (deref temp) (\<lambda>n.
       seq (modify (\<lambda>s. s\<lparr>dl_front := dnext n\<rparr>))
       (bnd (gets dl_front) (\<lambda>f.
       seq (if f = NULL then modify (\<lambda>s. s\<lparr>dl_rear := NULL\<rparr>)
            else assign f (\<lambda>n. n\<lparr>dprev := NULL\<rparr>))
       (seq (free temp)
       (seq (pthread_mutex_unlock 0) (ret (ddata n)))))))))"

definition deque_pop_back :: "(dlist_world, int) exec" where
  "deque_pop_back =
     seq (pthread_mutex_lock 0)
     (bnd (gets dl_rear) (\<lambda>temp.
     if temp = NULL then seq (pthread_mutex_unlock 0) (ret (- 1))
     else
       bnd (deref temp) (\<lambda>n.
       seq (modify (\<lambda>s. s\<lparr>dl_rear := dprev n\<rparr>))
       (bnd (gets dl_rear) (\<lambda>r.
       seq (if r = NULL then modify (\<lambda>s. s\<lparr>dl_front := NULL\<rparr>)
            else assign r (\<lambda>n. n\<lparr>dnext := NULL\<rparr>))
       (seq (free temp)
       (seq (pthread_mutex_unlock 0) (ret (ddata n)))))))))"

definition deque_is_empty :: "(dlist_world, bool) exec" where
  "deque_is_empty =
     seq (pthread_mutex_lock 0)
     (bnd (gets dl_front) (\<lambda>f. seq (pthread_mutex_unlock 0) (ret (f = NULL))))"

definition deque_clear :: "(dlist_world, unit) exec" where
  "deque_clear =
     seq (pthread_mutex_lock 0)
     (bnd (gets dl_front) (\<lambda>current.
     seq (release_list dnext current)
     (seq (modify (\<lambda>s. s\<lparr>dl_rear := NULL, dl_front := NULL\<rparr>))
     (pthread_mutex_unlock 0))))"

definition deque_destroy :: "(dlist_world, unit) exec" where
  "deque_destroy = seq deque_clear (pthread_mutex_destroy 0)"

definition deque_print :: "(dlist_world, unit) exec" where
  "deque_print =
     seq (pthread_mutex_lock 0)
     (bnd (gets dl_front) (\<lambda>current.
     seq (printf ''Deque: '' [])
     (seq (visit_list dnext (\<lambda>n _. printf ''%d '' [ddata n]) current ())
     (seq (printf ''\<newline>'' [])
     (pthread_mutex_unlock 0)))))"

definition deque_thread_func :: "dlist_world thread" where
  "deque_thread_func =
     t_for [0..9] (\<lambda>i k.
       atomic deque_pop_front (\<lambda>value.
       atomic (cint (value + 1)) (\<lambda>a. atomic (deque_push_back a) (\<lambda>_.
       atomic (cint (value + 2)) (\<lambda>b. atomic (deque_push_front b) (\<lambda>_.
       atomic deque_pop_back (\<lambda>_. k)))))))
     Done"

text \<open>\<^verbatim>\<open>main\<close> of \<^verbatim>\<open>dqueue/dqueue.c\<close>, with the values of \<^verbatim>\<open>rand\<close>.\<close>

definition deque_main :: "nat list \<Rightarrow> (nat \<Rightarrow> int) \<Rightarrow> (dlist_world, int) exec" where
  "deque_main sched rand =
     seq deque_init
     (seq (for_each (map rand [0..<10]) deque_push_back)
     (seq (run_threads sched [deque_thread_func, deque_thread_func])
     (seq deque_print
     (seq deque_destroy (ret 0)))))"

section \<open>doublyList/doublyList.h\<close>

definition dll_init :: "(dlist_world, unit) exec" where
  "dll_init = seq (modify (\<lambda>s. s\<lparr>dl_rear := NULL, dl_front := NULL\<rparr>)) (pthread_mutex_init 0)"

definition dll_insert_end :: "int \<Rightarrow> (dlist_world, unit) exec" where
  "dll_insert_end v =
     seq (pthread_mutex_lock 0)
     (bnd (newNode v) (\<lambda>node.
     bnd (gets dl_rear) (\<lambda>t.
     seq (if t = NULL then modify (\<lambda>s. s\<lparr>dl_rear := node, dl_front := node\<rparr>)
          else seq (assign t (\<lambda>n. n\<lparr>dnext := node\<rparr>))
               (seq (assign node (\<lambda>n. n\<lparr>dprev := t\<rparr>))
               (modify (\<lambda>s. s\<lparr>dl_rear := node\<rparr>))))
     (pthread_mutex_unlock 0))))"

definition dll_insert_start :: "int \<Rightarrow> (dlist_world, unit) exec" where
  "dll_insert_start v =
     seq (pthread_mutex_lock 0)
     (bnd (newNode v) (\<lambda>node.
     bnd (gets dl_front) (\<lambda>h.
     seq (if h = NULL then modify (\<lambda>s. s\<lparr>dl_rear := node, dl_front := node\<rparr>)
          else seq (assign h (\<lambda>n. n\<lparr>dprev := node\<rparr>))
               (seq (assign node (\<lambda>n. n\<lparr>dnext := h\<rparr>))
               (modify (\<lambda>s. s\<lparr>dl_front := node\<rparr>))))
     (pthread_mutex_unlock 0))))"

definition dll_remove_end :: "(dlist_world, int) exec" where
  "dll_remove_end =
     seq (pthread_mutex_lock 0)
     (bnd (gets dl_rear) (\<lambda>temp.
     if temp = NULL then seq (pthread_mutex_unlock 0) (ret (- 1))
     else
       bnd (deref temp) (\<lambda>n.
       seq (modify (\<lambda>s. s\<lparr>dl_rear := dprev n\<rparr>))
       (bnd (gets dl_rear) (\<lambda>t.
       seq (if t = NULL then modify (\<lambda>s. s\<lparr>dl_front := NULL\<rparr>)
            else assign t (\<lambda>n. n\<lparr>dnext := NULL\<rparr>))
       (seq (free temp)
       (seq (pthread_mutex_unlock 0) (ret (ddata n)))))))))"

definition dll_remove_start :: "(dlist_world, int) exec" where
  "dll_remove_start =
     seq (pthread_mutex_lock 0)
     (bnd (gets dl_front) (\<lambda>temp.
     if temp = NULL then seq (pthread_mutex_unlock 0) (ret (- 1))
     else
       bnd (deref temp) (\<lambda>n.
       seq (modify (\<lambda>s. s\<lparr>dl_front := dnext n\<rparr>))
       (bnd (gets dl_front) (\<lambda>h.
       seq (if h = NULL then modify (\<lambda>s. s\<lparr>dl_rear := NULL\<rparr>)
            else assign h (\<lambda>n. n\<lparr>dprev := NULL\<rparr>))
       (seq (free temp)
       (seq (pthread_mutex_unlock 0) (ret (ddata n)))))))))"

definition dll_is_empty :: "(dlist_world, bool) exec" where
  "dll_is_empty =
     seq (pthread_mutex_lock 0)
     (bnd (gets dl_front) (\<lambda>h. seq (pthread_mutex_unlock 0) (ret (h = NULL))))"

definition dll_clear :: "(dlist_world, unit) exec" where
  "dll_clear =
     seq (pthread_mutex_lock 0)
     (bnd (gets dl_front) (\<lambda>current.
     seq (release_list dnext current)
     (seq (modify (\<lambda>s. s\<lparr>dl_rear := NULL, dl_front := NULL\<rparr>))
     (pthread_mutex_unlock 0))))"

definition dll_destroy :: "(dlist_world, unit) exec" where
  "dll_destroy = seq dll_clear (pthread_mutex_destroy 0)"

definition dll_print :: "(dlist_world, unit) exec" where
  "dll_print =
     seq (pthread_mutex_lock 0)
     (bnd (gets dl_front) (\<lambda>current.
     seq (printf ''Doubly Linked List: '' [])
     (seq (visit_list dnext (\<lambda>n _. printf ''%d '' [ddata n]) current ())
     (seq (printf ''\<newline>'' [])
     (pthread_mutex_unlock 0)))))"

definition dll_thread_func :: "dlist_world thread" where
  "dll_thread_func =
     t_for [0..19] (\<lambda>i k.
       atomic dll_remove_start (\<lambda>value.
       atomic (cint (value + 1)) (\<lambda>a. atomic (dll_insert_end a) (\<lambda>_.
       atomic (cint (value + 2)) (\<lambda>b. atomic (dll_insert_start b) (\<lambda>_.
       atomic dll_remove_end (\<lambda>_. k)))))))
     Done"

definition dll_main :: "nat list \<Rightarrow> (nat \<Rightarrow> int) \<Rightarrow> (dlist_world, int) exec" where
  "dll_main sched rand =
     seq dll_init
     (seq (for_each (map rand [0..<20]) dll_insert_end)
     (seq (run_threads sched [dll_thread_func, dll_thread_func])
     (seq dll_print
     (seq dll_destroy (ret 0)))))"

section \<open>Doubly linked lists in memory\<close>

primrec back_ok :: "ptr \<Rightarrow> (ptr \<times> dnode) list \<Rightarrow> bool" where
  "back_ok p [] \<longleftrightarrow> True"
| "back_ok p (x # xs) \<longleftrightarrow> dprev (snd x) = p \<and> back_ok (fst x) xs"

lemma back_ok_append [simp]: "back_ok p (xs @ ys) \<longleftrightarrow> back_ok p xs \<and> back_ok (last_ptr p xs) ys"
  by (induction xs arbitrary: p) auto

definition dlist_rep :: "(ptr \<rightharpoonup> dnode) \<Rightarrow> dlist_world \<Rightarrow> int list \<Rightarrow> bool" where
  "dlist_rep F s vs \<longleftrightarrow> locks s 0 = Free \<and>
     (\<exists>xs. owns dnext s (dl_front s) xs F \<and> dl_rear s = last_ptr NULL xs \<and> back_ok NULL xs \<and>
       map (\<lambda>x. ddata (snd x)) xs = vs)"

lemma owns_dlist [simp]:
  "owns nx (dl_front_update f s) p xs F = owns nx s p xs F"
  "owns nx (dl_rear_update g s) p xs F = owns nx s p xs F"
  by (rule owns_cong, simp_all)+

lemma dlist_repE:
  assumes "dlist_rep F s vs"
  obtains xs where "locks s 0 = Free" "owns dnext s (dl_front s) xs F" "dl_rear s = last_ptr NULL xs"
    "back_ok NULL xs" "vs = map (\<lambda>x. ddata (snd x)) xs"
  using assms by (auto simp: dlist_rep_def)

lemma dlist_repI:
  assumes "owns dnext s (dl_front s) xs F" "locks s 0 = Free" "dl_rear s = last_ptr NULL xs"
    "back_ok NULL xs" "map (\<lambda>x. ddata (snd x)) xs = vs"
  shows "dlist_rep F s vs"
  using assms by (auto simp: dlist_rep_def)

lemma dlist_rep_out [simp]: "dlist_rep F (out_update f s) vs = dlist_rep F s vs"
  by (simp add: dlist_rep_def)

lemma dlist_push_front_ok:
  assumes "dlist_rep F s vs" and "0 < room s" and "m = deque_push_front v \<or> m = dll_insert_start v"
  shows "\<exists>s'. m s = Inr ((), s') \<and> dlist_rep F s' (v # vs) \<and> room s' = room s - 1"
proof -
  from assms(1) obtain xs where r: "locks s 0 = Free" "owns dnext s (dl_front s) xs F"
    "dl_rear s = last_ptr NULL xs" "back_ok NULL xs" "vs = map (\<lambda>x. ddata (snd x)) xs" by (rule dlist_repE)
  note wf = owns_wf[OF r(2)]
  show ?thesis
  proof (cases xs)
    case Nil
    let ?n = "(junk s)\<lparr>ddata := v, dnext := NULL, dprev := NULL\<rparr>"
    let ?s = "s\<lparr>cells := (cells s)(fresh s \<mapsto> ?n), fresh := Suc (fresh s), room := room s - 1,
       dl_rear := fresh s, dl_front := fresh s\<rparr>"
    have h: "dl_front s = NULL" using r(2) Nil by simp
    then have "m s = Inr ((), ?s)" using assms(2,3) r(1) wf
      by (auto simp: deque_push_front_def dll_insert_start_def newNode_def exec_simps)
    moreover have "owns dnext ?s (dl_front ?s) [(fresh s, ?n)] F"
      using dnode.owns_insert_first[OF r(2), of ?n ?s] h Nil by simp
    then have "dlist_rep F ?s (v # vs)" by (rule dlist_repI) (use r Nil in simp_all)
    ultimately show ?thesis by simp
  next
    case (Cons x ys)
    obtain a n where x: "x = (a, n)" by (cases x)
    have a: "a = dl_front s" "a \<noteq> NULL" "cells s a = Some n" "a \<noteq> fresh s"
      using owns_Cons[of dnext s "dl_front s" x ys F] owns_fresh[OF r(2)] r(2) Cons x by auto
    let ?n = "(junk s)\<lparr>ddata := v, dprev := NULL, dnext := a\<rparr>"
    let ?t = "s\<lparr>cells := (cells s)(a \<mapsto> n\<lparr>dprev := fresh s\<rparr>)\<rparr>"
    let ?s = "s\<lparr>cells := (cells s)(fresh s \<mapsto> ?n, a \<mapsto> n\<lparr>dprev := fresh s\<rparr>), fresh := Suc (fresh s),
       room := room s - 1, dl_front := fresh s\<rparr>"
    have "m s = Inr ((), ?s)" using assms(2,3) r(1) wf a
      by (auto simp: deque_push_front_def dll_insert_start_def newNode_def exec_simps fun_upd_twist)
    moreover have "owns dnext ?t a ((a, n\<lparr>dprev := fresh s\<rparr>) # ys) F"
      using dnode.owns_update[of s "dl_front s" "[]" a n ys F "n\<lparr>dprev := fresh s\<rparr>" ?t] r(2) Cons x a by simp
    from dnode.owns_insert_first[OF this, of ?n ?s] a(4)
    have "owns dnext ?s (dl_front ?s) ((fresh s, ?n) # (a, n\<lparr>dprev := fresh s\<rparr>) # ys) F"
      by (simp add: fun_upd_twist)
    then have "dlist_rep F ?s (v # vs)" by (rule dlist_repI) (use r Cons x in simp_all)
    ultimately show ?thesis by simp
  qed
qed

lemma dlist_push_back_ok:
  assumes "dlist_rep F s vs" and "0 < room s" and "m = deque_push_back v \<or> m = dll_insert_end v"
  shows "\<exists>s'. m s = Inr ((), s') \<and> dlist_rep F s' (vs @ [v]) \<and> room s' = room s - 1"
proof -
  from assms(1) obtain xs where r: "locks s 0 = Free" "owns dnext s (dl_front s) xs F"
    "dl_rear s = last_ptr NULL xs" "back_ok NULL xs" "vs = map (\<lambda>x. ddata (snd x)) xs" by (rule dlist_repE)
  note wf = owns_wf[OF r(2)]
  show ?thesis
  proof (cases xs rule: rev_cases)
    case Nil
    let ?n = "(junk s)\<lparr>ddata := v, dnext := NULL, dprev := NULL\<rparr>"
    let ?s = "s\<lparr>cells := (cells s)(fresh s \<mapsto> ?n), fresh := Suc (fresh s), room := room s - 1,
       dl_rear := fresh s, dl_front := fresh s\<rparr>"
    have h: "dl_front s = NULL" "dl_rear s = NULL" using r(2,3) Nil by simp_all
    then have "m s = Inr ((), ?s)" using assms(2,3) r(1) wf
      by (auto simp: deque_push_back_def dll_insert_end_def newNode_def exec_simps)
    moreover have "owns dnext ?s (dl_front ?s) [(fresh s, ?n)] F"
      using dnode.owns_insert_first[OF r(2), of ?n ?s] h Nil by simp
    then have "dlist_rep F ?s (vs @ [v])" by (rule dlist_repI) (use r Nil in simp_all)
    ultimately show ?thesis by simp
  next
    case (snoc us x)
    obtain a n where x: "x = (a, n)" by (cases x)
    have a: "dl_rear s = a" "a \<noteq> NULL" "cells s a = Some n" "a \<noteq> fresh s" "dnext n = NULL"
      using r(2,3) owns_fresh[OF r(2)] snoc x by (auto simp: owns_def)
    let ?n = "(junk s)\<lparr>ddata := v, dnext := NULL, dprev := a\<rparr>"
    let ?s = "s\<lparr>cells := (cells s)(fresh s \<mapsto> ?n, a \<mapsto> n\<lparr>dnext := fresh s\<rparr>), fresh := Suc (fresh s),
       room := room s - 1, dl_rear := fresh s\<rparr>"
    have "m s = Inr ((), ?s)" using assms(2,3) r(1) wf a
      by (auto simp: deque_push_back_def dll_insert_end_def newNode_def exec_simps fun_upd_twist)
    moreover have "owns dnext ?s (dl_front ?s) (us @ [(a, n\<lparr>dnext := fresh s\<rparr>), (fresh s, ?n)]) F"
      using dnode.owns_insert_after[of s "dl_front s" us a n "[]" F ?n ?s] r(2) snoc x a by simp
    then have "dlist_rep F ?s (vs @ [v])"
      by (rule dlist_repI) (use r snoc x in \<open>simp_all add: last_ptr_def\<close>)
    ultimately show ?thesis by simp
  qed
qed

lemma dlist_pop_front_Cons:
  assumes "dlist_rep F s (v # vs)" and "m = deque_pop_front \<or> m = dll_remove_start"
  shows "\<exists>s'. m s = Inr (v, s') \<and> dlist_rep F s' vs \<and> room s' = Suc (room s)"
proof -
  from assms obtain p n xs where r: "locks s 0 = Free" "owns dnext s (dl_front s) ((p, n) # xs) F"
    "dl_rear s = last_ptr NULL ((p, n) # xs)" "back_ok NULL ((p, n) # xs)" "v = ddata n"
    "vs = map (\<lambda>x. ddata (snd x)) xs"
    by (elim dlist_repE map_snd_ConsE) auto
  from owns_Cons[OF r(2)] have p: "dl_front s = p" "p \<noteq> NULL" "cells s p = Some n" by auto
  show ?thesis
  proof (cases xs)
    case Nil
    let ?s = "s\<lparr>dl_front := NULL, dl_rear := NULL, cells := (cells s)(p := None), room := Suc (room s)\<rparr>"
    have n: "dnext n = NULL" using r(2) Nil by (auto simp: owns_def)
    then have "m s = Inr (v, ?s)" using assms(2) r p
      by (auto simp: deque_pop_front_def dll_remove_start_def exec_simps)
    moreover have "owns dnext ?s (dl_front ?s) [] F"
      using dnode.owns_delete_first[OF r(2), of ?s] n Nil by (simp del: owns_Nil)
    then have "dlist_rep F ?s vs" by (rule dlist_repI) (use r Nil in simp_all)
    ultimately show ?thesis by simp
  next
    case (Cons y ys)
    obtain a m0 where y: "y = (a, m0)" by (cases y)
    have a: "dnext n = a" "a \<noteq> NULL" "cells s a = Some m0" using r(2) Cons y by (auto simp: owns_def)
    have "p \<noteq> a" using chain_fst_notin_tail[OF owns_chain[OF r(2)]] Cons y by auto
    let ?t = "s\<lparr>cells := (cells s)(p := None)\<rparr>"
    let ?s = "s\<lparr>dl_front := a, cells := (cells s)(a \<mapsto> m0\<lparr>dprev := NULL\<rparr>, p := None), room := Suc (room s)\<rparr>"
    have "m s = Inr (v, ?s)" using assms(2) r p a \<open>p \<noteq> a\<close>
      by (auto simp: deque_pop_front_def dll_remove_start_def exec_simps)
    moreover have "owns dnext ?t a ((a, m0) # ys) F"
      using dnode.owns_delete_first[OF r(2), of ?t] Cons y a by simp
    from dnode.owns_update[of ?t a "[]" a m0 ys F "m0\<lparr>dprev := NULL\<rparr>" ?s] this \<open>p \<noteq> a\<close>
    have "owns dnext ?s (dl_front ?s) ((a, m0\<lparr>dprev := NULL\<rparr>) # ys) F" by (simp add: fun_upd_twist)
    then have "dlist_rep F ?s vs" by (rule dlist_repI) (use r Cons y in simp_all)
    ultimately show ?thesis by simp
  qed
qed

lemma dlist_pop_back_snoc:
  assumes "dlist_rep F s (vs @ [v])" and "m = deque_pop_back \<or> m = dll_remove_end"
  shows "\<exists>s'. m s = Inr (v, s') \<and> dlist_rep F s' vs \<and> room s' = Suc (room s)"
proof -
  from assms(1) obtain xs where r: "locks s 0 = Free" "owns dnext s (dl_front s) xs F"
    "dl_rear s = last_ptr NULL xs" "back_ok NULL xs" "vs @ [v] = map (\<lambda>x. ddata (snd x)) xs"
    by (rule dlist_repE)
  obtain us a n where xs: "xs = us @ [(a, n)]" using r(5) by (cases xs rule: rev_cases) auto
  have v: "v = ddata n" "vs = map (\<lambda>x. ddata (snd x)) us" using r(5) xs by simp_all
  have a: "dl_rear s = a" "a \<noteq> NULL" "cells s a = Some n" "dprev n = last_ptr NULL us" "dnext n = NULL"
    using r xs by (auto simp: owns_def)
  show ?thesis
  proof (cases us rule: rev_cases)
    case Nil
    let ?s = "s\<lparr>dl_rear := NULL, dl_front := NULL, cells := (cells s)(a := None), room := Suc (room s)\<rparr>"
    have "m s = Inr (v, ?s)" using assms(2) r a v Nil
      by (auto simp: deque_pop_back_def dll_remove_end_def exec_simps)
    moreover have "owns dnext ?s (dl_front ?s) [] F"
      using dnode.owns_delete_first[of s "dl_front s" a n "[]" F ?s] r(2) xs a Nil by (simp del: owns_Nil)
    then have "dlist_rep F ?s vs" by (rule dlist_repI) (use r Nil v in simp_all)
    ultimately show ?thesis by simp
  next
    case (snoc us' y)
    obtain b m0 where y: "y = (b, m0)" by (cases y)
    have b: "b \<noteq> NULL" "cells s b = Some m0" "a \<noteq> b"
      using owns_mem[of dnext s "dl_front s" us' b m0 "[(a, n)]" F] r(2) xs snoc y
        chain_distinct[OF owns_chain[OF r(2)]] by auto
    let ?s = "s\<lparr>dl_rear := b, cells := (cells s)(b \<mapsto> m0\<lparr>dnext := NULL\<rparr>, a := None), room := Suc (room s)\<rparr>"
    have "m s = Inr (v, ?s)" using assms(2) r a b v snoc y
      by (auto simp: deque_pop_back_def dll_remove_end_def exec_simps)
    moreover have "owns dnext ?s (dl_front ?s) (us' @ [(b, m0\<lparr>dnext := NULL\<rparr>)]) F"
      using dnode.owns_delete_after[of s "dl_front s" us' b m0 a n "[]" F ?s] r(2) xs snoc y a by simp
    then have "dlist_rep F ?s vs" by (rule dlist_repI) (use r xs snoc y v in simp_all)
    ultimately show ?thesis by simp
  qed
qed

lemma dlist_rep_null:
  assumes "dlist_rep F s vs"
  shows "dl_front s = NULL \<longleftrightarrow> vs = []" "dl_rear s = NULL \<longleftrightarrow> vs = []"
proof -
  from assms obtain xs where r: "owns dnext s (dl_front s) xs F" "dl_rear s = last_ptr NULL xs"
    "vs = map (\<lambda>x. ddata (snd x)) xs" by (rule dlist_repE)
  show "dl_front s = NULL \<longleftrightarrow> vs = []" using owns_null_iff[OF r(1)] r(3) by simp
  show "dl_rear s = NULL \<longleftrightarrow> vs = []"
    using r by (cases xs rule: rev_cases) (auto simp: owns_def)
qed

lemma dlist_pop_Nil:
  assumes "dlist_rep F s []"
  shows "deque_pop_front s = Inr (- 1, s) \<and> deque_pop_back s = Inr (- 1, s)"
    and "dll_remove_start s = Inr (- 1, s) \<and> dll_remove_end s = Inr (- 1, s)"
proof -
  have "locks s 0 = Free" using assms(1) by (rule dlist_repE)
  with dlist_rep_null[OF assms(1)]
  show "deque_pop_front s = Inr (- 1, s) \<and> deque_pop_back s = Inr (- 1, s)"
    "dll_remove_start s = Inr (- 1, s) \<and> dll_remove_end s = Inr (- 1, s)"
    by (simp_all add: deque_pop_front_def deque_pop_back_def dll_remove_start_def dll_remove_end_def exec_simps)
qed

lemma dlist_is_empty_ok:
  "dlist_rep F s vs \<Longrightarrow> deque_is_empty s = Inr (vs = [], s) \<and> dll_is_empty s = Inr (vs = [], s)"
  using dlist_rep_null[of F s vs]
  by (auto elim!: dlist_repE simp: deque_is_empty_def dll_is_empty_def exec_simps)

lemma dlist_clear_ok:
  assumes "dlist_rep F s vs" and "m = deque_clear \<or> m = dll_clear"
  shows "\<exists>s'. m s = Inr ((), s') \<and> dlist_rep F s' [] \<and> room s' = room s + length vs \<and> cells s' = F \<and> out s' = out s"
proof -
  from assms(1) obtain xs where r: "locks s 0 = Free" "owns dnext s (dl_front s) xs F"
    "vs = map (\<lambda>x. ddata (snd x)) xs" by (rule dlist_repE)
  let ?s = "s\<lparr>cells := F, room := room s + length xs, dl_rear := NULL, dl_front := NULL\<rparr>"
  have "release_list dnext (dl_front s) (s\<lparr>locks := (locks s)(0 := Held)\<rparr>) =
      Inr ((), s\<lparr>locks := (locks s)(0 := Held), cells := F, room := room s + length xs\<rparr>)"
    using release_list_spec[of dnext "s\<lparr>locks := (locks s)(0 := Held)\<rparr>" "dl_front s" xs F] r(2) by simp
  then have "m s = Inr ((), ?s)" using assms(2) r(1) by (auto simp: deque_clear_def dll_clear_def exec_simps)
  moreover have "owns dnext ?s (dl_front ?s) [] F" using owns_released[OF r(2), of ?s] by simp
  then have "dlist_rep F ?s []" by (rule dlist_repI) (use r in simp_all)
  ultimately show ?thesis using r(3) by simp
qed

lemma dlist_print_ok:
  assumes "dlist_rep F s vs"
  shows "deque_print s = Inr ((), s\<lparr>out := out s @ (''Deque: '', []) # map (\<lambda>v. (''%d '', [v])) vs @ [(''\<newline>'', [])]\<rparr>)"
    and "dll_print s =
      Inr ((), s\<lparr>out := out s @ (''Doubly Linked List: '', []) # map (\<lambda>v. (''%d '', [v])) vs @ [(''\<newline>'', [])]\<rparr>)"
proof -
  from assms(1) obtain xs where r: "locks s 0 = Free" "owns dnext s (dl_front s) xs F"
    "vs = map (\<lambda>x. ddata (snd x)) xs" by (rule dlist_repE)
  have *: "visit_list dnext (\<lambda>n _. printf ''%d '' [ddata n]) (dl_front s) () (s\<lparr>locks := l, out := z\<rparr>) =
      Inr ((), s\<lparr>locks := l, out := z @ map (\<lambda>x. (''%d '', [ddata (snd x)])) xs\<rparr>)" for l z
    using visit_list_print[of dnext "s\<lparr>locks := l, out := z\<rparr>" "dl_front s" xs F _ "''%d ''" "\<lambda>n. [ddata n]"] r(2)
    by simp
  show "deque_print s = Inr ((), s\<lparr>out := out s @ (''Deque: '', []) # map (\<lambda>v. (''%d '', [v])) vs @ [(''\<newline>'', [])]\<rparr>)"
    using r * by (simp add: deque_print_def exec_simps comp_def)
  show "dll_print s =
      Inr ((), s\<lparr>out := out s @ (''Doubly Linked List: '', []) # map (\<lambda>v. (''%d '', [v])) vs @ [(''\<newline>'', [])]\<rparr>)"
    using r * by (simp add: dll_print_def exec_simps comp_def)
qed

section \<open>The contract of a double-ended queue\<close>

text \<open>
  The credits of the threads of both programs. A thread holds a \<open>Licence\<close> between its
  rounds; inside a round it has taken one element more than it has put back (\<open>Took\<close>), is even
  (\<open>Even\<close>) or has put back one more (\<open>Gave\<close>). \<open>Holds v\<close> is the value
  it carries, and each of its \<open>Step\<close>s allows some value to grow by one.
\<close>

datatype credit = Licence | Took | Even | Gave | Holds int | Step

locale deque =
  fixes rep :: "(ptr \<rightharpoonup> dnode) \<Rightarrow> dlist_world \<Rightarrow> int list \<Rightarrow> bool"
    and push_front :: "int \<Rightarrow> (dlist_world, unit) exec" and push_back :: "int \<Rightarrow> (dlist_world, unit) exec"
    and pop_front :: "(dlist_world, int) exec" and pop_back :: "(dlist_world, int) exec"
  assumes push_front_ok: "rep F s vs \<Longrightarrow> 0 < room s \<Longrightarrow>
      \<exists>s'. push_front v s = Inr ((), s') \<and> rep F s' (v # vs) \<and> room s' = room s - 1"
    and push_back_ok: "rep F s vs \<Longrightarrow> 0 < room s \<Longrightarrow>
      \<exists>s'. push_back v s = Inr ((), s') \<and> rep F s' (vs @ [v]) \<and> room s' = room s - 1"
    and pop_front_Cons: "rep F s (v # vs) \<Longrightarrow>
      \<exists>s'. pop_front s = Inr (v, s') \<and> rep F s' vs \<and> room s' = Suc (room s)"
    and pop_back_snoc: "rep F s (vs @ [v]) \<Longrightarrow>
      \<exists>s'. pop_back s = Inr (v, s') \<and> rep F s' vs \<and> room s' = Suc (room s)"
    and pop_Nil: "rep F s [] \<Longrightarrow> pop_front s = Inr (- 1, s) \<and> pop_back s = Inr (- 1, s)"
begin

lemma push_back_all:
  assumes "rep F s vs" and "length ws \<le> room s"
  shows "\<exists>s'. for_each ws push_back s = Inr ((), s') \<and> rep F s' (vs @ ws) \<and> room s' = room s - length ws"
proof (rule for_each_rule[where I = "\<lambda>us t. rep F t (vs @ us) \<and> room t = room s - length us"])
  fix us u zs t
  assume "ws = us @ u # zs" and "rep F t (vs @ us) \<and> room t = room s - length us"
  with push_back_ok[of F t "vs @ us" u] assms(2)
  show "\<exists>s'. push_back u t = Inr ((), s') \<and> rep F s' (vs @ us @ [u]) \<and> room s' = room s - length (us @ [u])"
    by auto
qed (use assms(1) in simp)

text \<open>What goes in at one end comes out at the other end in order and at the same end reversed.\<close>

lemma pop_back_all:
  "rep F s (vs @ ws) \<Longrightarrow>
   \<exists>s'. collect (length ws) pop_back s = Inr (rev ws, s') \<and> rep F s' vs \<and> room s' = room s + length ws"
proof (induction ws arbitrary: s rule: rev_induct)
  case Nil
  then show ?case by (simp add: exec_simps)
next
  case (snoc w ws)
  from snoc.prems have "rep F s ((vs @ ws) @ [w])" by simp
  from pop_back_snoc[OF this] obtain s1 where
    s1: "pop_back s = Inr (w, s1)" "rep F s1 (vs @ ws)" "room s1 = Suc (room s)" by blast
  from snoc.IH[OF s1(2)] s1 show ?case by (auto simp: exec_simps)
qed

lemma pop_front_all:
  "rep F s (ws @ vs) \<Longrightarrow>
   \<exists>s'. collect (length ws) pop_front s = Inr (ws, s') \<and> rep F s' vs \<and> room s' = room s + length ws"
proof (induction ws arbitrary: s)
  case Nil
  then show ?case by (simp add: exec_simps)
next
  case (Cons w ws)
  from Cons.prems have "rep F s (w # (ws @ vs))" by simp
  from pop_front_Cons[OF this] obtain s1 where
    s1: "pop_front s = Inr (w, s1)" "rep F s1 (ws @ vs)" "room s1 = Suc (room s)" by blast
  from Cons.IH[OF s1(2)] obtain s2 where
    "collect (length ws) pop_front s1 = Inr (ws, s2)" "rep F s2 vs" "room s2 = room s1 + length ws" by blast
  with s1 show ?case by (auto simp: exec_simps)
qed

text \<open>
  The invariant of the two threads: \<open>N\<close> elements plus what was given minus what was taken,
  memory for two more, and no value within reach of overflow.
\<close>

definition balance :: "nat \<Rightarrow> credit multiset \<Rightarrow> dlist_world \<Rightarrow> bool" where
  "balance N G s \<longleftrightarrow> (\<exists>vs. rep Map.empty s vs \<and>
     length vs + count G Took = N + count G Gave \<and> N + 2 \<le> room s + length vs \<and> 2 \<le> N \<and>
     count G Licence + count G Took + count G Even + count G Gave \<le> 2 \<and>
     (\<forall>v. v \<in> set vs \<or> Holds v \<in># G \<longrightarrow> INT_MIN \<le> v \<and> v + int (count G Step) \<le> INT_MAX))"

lemma tok_pop_front:
  assumes "\<And>v. tok (balance N) Q (add_mset Took (add_mset (Holds v) g)) (t v)"
  shows "tok (balance N) Q (add_mset Licence g) (atomic pop_front t)"
proof (rule tok_atomic)
  fix c s
  assume "balance N (add_mset Licence g + c) s"
  then obtain vs where b: "rep Map.empty s vs"
    "length vs + count (g + c) Took = N + count (g + c) Gave" "N + 2 \<le> room s + length vs" "2 \<le> N"
    "Suc (count (g + c) Licence + count (g + c) Took + count (g + c) Even + count (g + c) Gave) \<le> 2"
    "\<forall>v. v \<in> set vs \<or> Holds v \<in># g + c \<longrightarrow> INT_MIN \<le> v \<and> v + int (count (g + c) Step) \<le> INT_MAX"
    by (auto simp: balance_def)
  from b(2,4,5) have "0 < length vs" by linarith
  then obtain v ws where vs: "vs = v # ws" by (cases vs) auto
  from pop_front_Cons[of Map.empty s v ws] b(1) vs obtain s' where
    s': "pop_front s = Inr (v, s')" "rep Map.empty s' ws" "room s' = Suc (room s)" by auto
  have "balance N (add_mset Took (add_mset (Holds v) g) + c) s'"
    using b(2-6) s'(2,3) vs unfolding balance_def by (intro exI[of _ ws]) auto
  with s'(1) assms show "\<exists>a s' g'. pop_front s = Inr (a, s') \<and> balance N (g' + c) s' \<and> tok (balance N) Q g' (t a)"
    by blast
qed

lemma push_either:
  assumes "push = push_back \<or> push = push_front" and "rep F s vs" and "0 < room s"
  shows "\<exists>s' ws. push v s = Inr ((), s') \<and> rep F s' ws \<and> room s' = room s - 1 \<and>
     length ws = Suc (length vs) \<and> set ws = insert v (set vs)"
  using push_back_ok[OF assms(2,3), of v] push_front_ok[OF assms(2,3), of v] assms(1)
  by (elim disjE) (force intro: exI[of _ "vs @ [v]"], force intro: exI[of _ "v # vs"])

lemma tok_push:
  assumes "push = push_back \<and> A = Took \<and> B = Even \<or> push = push_front \<and> A = Even \<and> B = Gave"
    and "u = v + 1" and "tok (balance N) Q (add_mset B (add_mset (Holds u) g)) (t ())"
  shows "tok (balance N) Q (add_mset A (add_mset (Holds v) (add_mset Step g))) (atomic (push u) t)"
proof (rule tok_atomic)
  fix c s
  assume "balance N (add_mset A (add_mset (Holds v) (add_mset Step g)) + c) s"
  then obtain vs where b: "rep Map.empty s vs"
    "length vs + count (add_mset A (g + c)) Took = N + count (g + c) Gave" "N + 2 \<le> room s + length vs" "2 \<le> N"
    "Suc (count (g + c) Licence + count (g + c) Took + count (g + c) Even + count (g + c) Gave) \<le> 2"
    "\<forall>w. w = v \<or> w \<in> set vs \<or> Holds w \<in># g + c \<longrightarrow>
       INT_MIN \<le> w \<and> w + 1 + int (count (g + c) Step) \<le> INT_MAX"
    using assms(1) by (auto simp: balance_def algebra_simps)
  from b(2-5) assms(1) have "0 < room s" by (auto split: if_splits)
  with push_either[of push Map.empty s vs u] b(1) assms(1) obtain s' ws where
    s': "push u s = Inr ((), s')" "rep Map.empty s' ws" "room s' = room s - 1"
      "length ws = Suc (length vs)" "set ws = insert u (set vs)" by auto
  have "balance N (add_mset B (add_mset (Holds u) g) + c) s'"
    unfolding balance_def
  proof (intro exI[of _ ws] conjI allI impI)
    fix w
    assume "w \<in> set ws \<or> Holds w \<in># add_mset B (add_mset (Holds u) g) + c"
    then have "w = u \<or> w \<in> set vs \<or> Holds w \<in># g + c" using s'(5) assms(1) by auto
    with b(6)[rule_format, of w] b(6)[rule_format, of v] assms(1,2)
    show "INT_MIN \<le> w" "w + int (count (add_mset B (add_mset (Holds u) g) + c) Step) \<le> INT_MAX" by auto
  qed (use b(2-5) s'(2-4) assms(1) \<open>0 < room s\<close> in auto)
  with s'(1) assms(3) show "\<exists>a s' g'. push u s = Inr (a, s') \<and> balance N (g' + c) s' \<and> tok (balance N) Q g' (t a)"
    by blast
qed

lemma tok_pop_back:
  assumes "\<And>v. tok (balance N) Q (add_mset Licence g) (t v)"
  shows "tok (balance N) Q (add_mset Gave (add_mset (Holds u) g)) (atomic pop_back t)"
proof (rule tok_atomic)
  fix c s
  assume "balance N (add_mset Gave (add_mset (Holds u) g) + c) s"
  then obtain vs where b: "rep Map.empty s vs"
    "length vs + count (g + c) Took = N + Suc (count (g + c) Gave)" "N + 2 \<le> room s + length vs" "2 \<le> N"
    "Suc (count (g + c) Licence + count (g + c) Took + count (g + c) Even + count (g + c) Gave) \<le> 2"
    "\<forall>v. v \<in> set vs \<or> Holds v \<in># g + c \<longrightarrow> INT_MIN \<le> v \<and> v + int (count (g + c) Step) \<le> INT_MAX"
    by (auto simp: balance_def)
  from b(2,4,5) have "0 < length vs" by linarith
  then obtain v ws where vs: "vs = ws @ [v]" by (cases vs rule: rev_cases) auto
  from pop_back_snoc[of Map.empty s ws v] b(1) vs obtain s' where
    s': "pop_back s = Inr (v, s')" "rep Map.empty s' ws" "room s' = Suc (room s)" by auto
  have "balance N (add_mset Licence g + c) s'"
    using b(2-6) s'(2,3) vs unfolding balance_def by (intro exI[of _ ws]) auto
  with s'(1) assms show "\<exists>a s' g'. pop_back s = Inr (a, s') \<and> balance N (g' + c) s' \<and> tok (balance N) Q g' (t a)"
    by blast
qed

lemma tok_cint:
  assumes "Holds v \<in># g" and "Step \<in># g" and "tok (balance N) Q g (t (v + 1))"
  shows "tok (balance N) Q g (atomic (cint (v + 1)) t)"
proof (rule tok_atomic)
  fix c s
  assume b: "balance N (g + c) s"
  then have "INT_MIN \<le> v \<and> v + int (count (g + c) Step) \<le> INT_MAX"
    using assms(1) by (auto simp: balance_def)
  moreover obtain h where "g = add_mset Step h" using assms(2) by (metis insert_DiffM)
  ultimately have "int_range (v + 1)" by (simp add: int_range_defs)
  with b assms(3) show "\<exists>a s' g'. cint (v + 1) s = Inr (a, s') \<and> balance N (g' + c) s' \<and> tok (balance N) Q g' (t a)"
    by (auto simp: exec_simps)
qed

text \<open>One round of a thread, and all of them.\<close>

lemma tok_round:
  assumes "tok (balance N) Q (add_mset Licence g) t"
  shows "tok (balance N) Q (add_mset Licence (add_mset Step (add_mset Step g)))
     (atomic pop_front (\<lambda>v. atomic (cint (v + 1)) (\<lambda>a. atomic (push_back a) (\<lambda>_.
      atomic (cint (v + 2)) (\<lambda>b. atomic (push_front b) (\<lambda>_. atomic pop_back (\<lambda>_. t)))))))"
proof (rule tok_pop_front)
  fix v
  have 1: "tok (balance N) Q (add_mset Gave (add_mset (Holds (v + 2)) g)) (atomic pop_back (\<lambda>_. t))"
    using assms by (rule tok_pop_back)
  have 2: "tok (balance N) Q (add_mset Even (add_mset (Holds (v + 1)) (add_mset Step g)))
      (atomic (push_front (v + 2)) (\<lambda>_. atomic pop_back (\<lambda>_. t)))"
    by (rule tok_push[OF _ _ 1]) auto
  have 3: "tok (balance N) Q (add_mset Even (add_mset (Holds (v + 1)) (add_mset Step g)))
      (atomic (cint (v + 2)) (\<lambda>b. atomic (push_front b) (\<lambda>_. atomic pop_back (\<lambda>_. t))))"
    using tok_cint[of "v + 1" _ N Q "\<lambda>b. atomic (push_front b) (\<lambda>_. atomic pop_back (\<lambda>_. t))"] 2
    by (simp add: algebra_simps)
  have "tok (balance N) Q (add_mset Took (add_mset (Holds v) (add_mset Step (add_mset Step g))))
      (atomic (push_back (v + 1)) (\<lambda>_. atomic (cint (v + 2)) (\<lambda>b. atomic (push_front b) (\<lambda>_. atomic pop_back (\<lambda>_. t)))))"
    by (rule tok_push[OF _ _ 3]) auto
  then show "tok (balance N) Q (add_mset Took (add_mset (Holds v) (add_mset Step (add_mset Step g))))
      (atomic (cint (v + 1)) (\<lambda>a. atomic (push_back a) (\<lambda>_.
       atomic (cint (v + 2)) (\<lambda>b. atomic (push_front b) (\<lambda>_. atomic pop_back (\<lambda>_. t))))))"
    by (intro tok_cint) auto
qed

lemma tok_rounds:
  "tok (balance N) (\<lambda>g. g = {#Licence#}) (add_mset Licence (replicate_mset (2 * length is) Step))
     (t_for is (\<lambda>i t. atomic pop_front (\<lambda>v. atomic (cint (v + 1)) (\<lambda>a. atomic (push_back a) (\<lambda>_.
      atomic (cint (v + 2)) (\<lambda>b. atomic (push_front b) (\<lambda>_. atomic pop_back (\<lambda>_. t))))))) Done)"
proof (induction "is")
  case Nil
  show ?case by (simp add: tok_done)
next
  case (Cons i "is")
  from tok_round[OF this] show ?case by simp
qed

text \<open>Two such threads on a container that holds \<open>ws\<close>.\<close>

lemma rounds_ok:
  assumes "rep Map.empty s ws" and "2 \<le> room s" and "2 \<le> length ws"
    and "\<And>w. w \<in> set ws \<Longrightarrow> INT_MIN \<le> w \<and> w + int (4 * length is) \<le> INT_MAX"
    and "t = t_for is (\<lambda>i t. atomic pop_front (\<lambda>v. atomic (cint (v + 1)) (\<lambda>a. atomic (push_back a) (\<lambda>_.
      atomic (cint (v + 2)) (\<lambda>b. atomic (push_front b) (\<lambda>_. atomic pop_back (\<lambda>_. t))))))) Done"
  shows "\<exists>s' vs. run_threads sched [t, t] s = Inr ((), s') \<and> rep Map.empty s' vs \<and> length vs = length ws"
proof -
  let ?g = "add_mset Licence (replicate_mset (2 * length is) Step)"
  let ?N = "length ws"
  have "balance ?N (?g + ?g) s" using assms(1-4) unfolding balance_def
    by (intro exI[of _ ws]) (auto simp: algebra_simps)
  with run_two[OF tok_rounds[of ?N "is"] tok_rounds[of ?N "is"], of s sched] obtain s' where
    "run_threads sched [t, t] s = Inr ((), s')" "balance ?N {#Licence, Licence#} s'"
    using assms(5) by auto
  then show ?thesis by (auto simp: balance_def)
qed

end

interpretation dq: deque dlist_rep deque_push_front deque_push_back deque_pop_front deque_pop_back
  by unfold_locales ((rule dlist_push_front_ok dlist_push_back_ok dlist_pop_front_Cons dlist_pop_back_snoc; simp)
    | fact dlist_pop_Nil)+

interpretation dll: deque dlist_rep dll_insert_start dll_insert_end dll_remove_start dll_remove_end
  by unfold_locales ((rule dlist_push_front_ok dlist_push_back_ok dlist_pop_front_Cons dlist_pop_back_snoc; simp)
    | fact dlist_pop_Nil)+

section \<open>The programs\<close>

lemma dlist_init_ok:
  assumes "m = deque_init \<or> m = dll_init"
  shows "\<exists>s. m (dlist_boot r j) = Inr ((), s) \<and> dlist_rep Map.empty s [] \<and> room s = r"
  using assms
  by (auto simp: deque_init_def dll_init_def dlist_boot_def world.defs boot_def exec_simps dlist_rep_def wf_world_def)



text \<open>The same for \<^verbatim>\<open>doublyList/doublyList.c\<close>, with twenty elements and twenty rounds.\<close>

theorem dll_main_ok:
  assumes "22 \<le> r" and "\<forall>i<20. INT_MIN \<le> rand i \<and> rand i \<le> INT_MAX - 80"
  shows "\<exists>s' log vs. dll_main sched rand (dlist_boot r j) = Inr (0, s') \<and> length vs = 20 \<and>
     out s' = log @ (''Doubly Linked List: '', []) # map (\<lambda>v. (''%d '', [v])) vs @ [(''\<newline>'', [])] \<and>
     cells s' = Map.empty \<and> locks s' 0 = Destroyed"
proof -
  let ?ws = "map rand [0..<20]"
  from dlist_init_ok[of dll_init r j] obtain s where
    s: "dll_init (dlist_boot r j) = Inr ((), s)" "dlist_rep Map.empty s []" "room s = r" by blast
  from dll.push_back_all[OF s(2), of ?ws] s(3) assms(1) obtain s1 where
    1: "for_each ?ws dll_insert_end s = Inr ((), s1)" "dlist_rep Map.empty s1 ?ws" "room s1 = r - 20" by auto
  have "\<exists>s' vs. run_threads sched [dll_thread_func, dll_thread_func] s1 = Inr ((), s') \<and>
      dlist_rep Map.empty s' vs \<and> length vs = length ?ws"
    by (rule dll.rounds_ok[OF 1(2), of "[0..19]"]) (use 1(3) assms in \<open>auto simp: dll_thread_func_def\<close>)
  then obtain s2 vs where 2: "run_threads sched [dll_thread_func, dll_thread_func] s1 = Inr ((), s2)"
    "dlist_rep Map.empty s2 vs" "length vs = 20" by auto
  let ?t = "s2\<lparr>out := out s2 @ (''Doubly Linked List: '', []) # map (\<lambda>v. (''%d '', [v])) vs @ [(''\<newline>'', [])]\<rparr>"
  from dlist_clear_ok[of Map.empty ?t vs dll_clear] 2(2) obtain s3 where
    3: "dll_clear ?t = Inr ((), s3)" "dlist_rep Map.empty s3 []" "cells s3 = Map.empty" "out s3 = out ?t" by auto
  have "locks s3 0 = Free" using 3(2) by (rule dlist_repE)
  with s(1) 1(1) 2(1,3) dlist_print_ok(2)[OF 2(2)] 3 show ?thesis
    by (auto simp: dll_main_def dll_destroy_def exec_simps simp del: for_each.simps upt_Suc intro!: exI[of _ vs])
qed

theorem dll_main_ok_witness:
  "\<exists>s' log vs. dll_main [0, 1, 1] int (dlist_boot 22 \<lparr>ddata = 0, dnext = 0, dprev = 0\<rparr>) = Inr (0, s') \<and> length vs = 20 \<and>
     out s' = log @ (''Doubly Linked List: '', []) # map (\<lambda>v. (''%d '', [v])) vs @ [(''\<newline>'', [])] \<and>
     cells s' = Map.empty \<and> locks s' 0 = Destroyed"
  by (rule dll_main_ok) (simp_all add: INT_MIN_def INT_MAX_def)

text \<open>The two ends of \<^verbatim>\<open>dqueue.h\<close>: after pushing \<open>ws\<close> at the back, popping at
  the back returns them reversed and popping at the front returns the old contents followed by them, in both
  cases restoring memory. The representation invariant includes every forward and backward pointer.\<close>

theorem deque_ends:
  assumes "dlist_rep F s vs" and "length ws \<le> room s"
  shows "(\<exists>s'. seq (for_each ws deque_push_back) (collect (length ws) deque_pop_back) s = Inr (rev ws, s') \<and>
       dlist_rep F s' vs \<and> room s' = room s) \<and>
     (\<exists>s'. seq (for_each ws deque_push_back) (collect (length (vs @ ws)) deque_pop_front) s = Inr (vs @ ws, s') \<and>
       dlist_rep F s' [] \<and> room s' = room s + length vs)"
proof -
  from dq.push_back_all[OF assms] obtain s1 where
    1: "for_each ws deque_push_back s = Inr ((), s1)" "dlist_rep F s1 (vs @ ws)" "room s1 = room s - length ws" by auto
  from dq.pop_back_all[OF 1(2)] dq.pop_front_all[of F s1 "vs @ ws" "[]"] 1 assms(2) show ?thesis
    by (auto simp: exec_simps)
qed

lemma dlist_rep_boot:
  "dlist_rep Map.empty ((dlist_boot r j)\<lparr>locks := (\<lambda>_. Uninit)(0 := Free)\<rparr>) []"
  by (simp add: dlist_rep_def dlist_boot_def world.defs boot_def wf_world_def)

theorem deque_ends_witness:
  "\<exists>s. dlist_rep Map.empty s [] \<and>
     (\<exists>s'. seq (for_each [1, 2] deque_push_back) (collect 2 deque_pop_back) s = Inr ([2, 1], s')) \<and>
     (\<exists>s'. seq (for_each [1, 2] deque_push_back) (collect 2 deque_pop_front) s = Inr ([1, 2], s'))"
  using deque_ends[OF dlist_rep_boot, of "[1, 2]" 2 "\<lparr>ddata = 0, dnext = 0, dprev = 0\<rparr>"]
    dlist_rep_boot[of 2 "\<lparr>ddata = 0, dnext = 0, dprev = 0\<rparr>"]
  by (intro exI[of _ "(dlist_boot 2 \<lparr>ddata = 0, dnext = 0, dprev = 0\<rparr>)\<lparr>locks := (\<lambda>_. Uninit)(0 := Free)\<rparr>"])
    (auto simp: dlist_boot_def world.defs boot_def numeral_2_eq_2)

end
