(* ===== verification/IntSet.thy ===== *)
theory IntSet
  imports Bags
begin

text \<open>
  \<^verbatim>\<open>ThreadTrove/set\<close>: a set of integers as an unordered linked list without duplicates under one
  mutex. The operations implement the operations of finite sets. In \<^verbatim>\<open>set.c\<close> two threads run the
  same twenty-five rounds of removing and inserting; the final set is shown to be
  the same under every interleaving.
\<close>

section \<open>set/set.h\<close>

record set_world = "node world" +
  set_head :: ptr

definition set_boot :: "nat \<Rightarrow> node \<Rightarrow> set_world" where
  "set_boot r j = world.extend (boot r j) \<lparr>set_head = NULL\<rparr>"

definition set_newNode :: "int \<Rightarrow> (set_world, ptr) exec" where
  "set_newNode v =
     bnd pmalloc (\<lambda>node.
     seq (assign node (\<lambda>n. n\<lparr>data := v\<rparr>))
     (seq (assign node (\<lambda>n. n\<lparr>nxt := NULL\<rparr>)) (ret node)))"

definition set_init :: "(set_world, unit) exec" where
  "set_init = seq (modify (\<lambda>s. s\<lparr>set_head := NULL\<rparr>)) (pthread_mutex_init 0)"

definition set_insert :: "int \<Rightarrow> (set_world, unit) exec" where
  "set_insert v =
     seq (pthread_mutex_lock 0)
     (bnd (gets set_head) (\<lambda>h.
     bnd (walk_list nxt (\<lambda>n. data n = v) h) (\<lambda>(prev, curr).
     if curr \<noteq> NULL then pthread_mutex_unlock 0
     else
       bnd (set_newNode v) (\<lambda>new_node.
       bnd (gets set_head) (\<lambda>h.
       seq (assign new_node (\<lambda>n. n\<lparr>nxt := h\<rparr>))
       (seq (modify (\<lambda>s. s\<lparr>set_head := new_node\<rparr>))
       (pthread_mutex_unlock 0)))))))"

definition set_remove :: "int \<Rightarrow> (set_world, unit) exec" where
  "set_remove v =
     seq (pthread_mutex_lock 0)
     (bnd (gets set_head) (\<lambda>h.
     bnd (walk_list nxt (\<lambda>n. data n = v) h) (\<lambda>(prev, curr).
     if curr = NULL then pthread_mutex_unlock 0
     else
       bnd (deref curr) (\<lambda>c.
       seq (if prev = NULL then modify (\<lambda>s. s\<lparr>set_head := nxt c\<rparr>)
            else assign prev (\<lambda>n. n\<lparr>nxt := nxt c\<rparr>))
       (seq (free curr)
       (pthread_mutex_unlock 0))))))"

definition set_contains :: "int \<Rightarrow> (set_world, bool) exec" where
  "set_contains v =
     seq (pthread_mutex_lock 0)
     (bnd (gets set_head) (\<lambda>h.
     bnd (walk_list nxt (\<lambda>n. data n = v) h) (\<lambda>(prev, curr).
     seq (pthread_mutex_unlock 0) (ret (curr \<noteq> NULL)))))"

definition set_clear :: "(set_world, unit) exec" where
  "set_clear =
     seq (pthread_mutex_lock 0)
     (bnd (gets set_head) (\<lambda>h.
     seq (release_list nxt h)
     (seq (modify (\<lambda>s. s\<lparr>set_head := NULL\<rparr>))
     (pthread_mutex_unlock 0))))"

definition set_destroy :: "(set_world, unit) exec" where
  "set_destroy = seq set_clear (pthread_mutex_destroy 0)"

definition set_print :: "(set_world, unit) exec" where
  "set_print =
     seq (pthread_mutex_lock 0)
     (bnd (gets set_head) (\<lambda>h.
     seq (printf ''Set elements: '' [])
     (seq (visit_list nxt (\<lambda>n _. printf ''%d '' [data n]) h ())
     (seq (printf ''\<newline>'' [])
     (pthread_mutex_unlock 0)))))"

definition set_thread_func :: "set_world thread" where
  "set_thread_func =
     t_for [0..24] (\<lambda>i k.
       atomic (set_remove i) (\<lambda>_.
       atomic (set_insert (i + 10)) (\<lambda>_. k))) Done"

definition set_main :: "nat list \<Rightarrow> (set_world, int) exec" where
  "set_main sched =
     seq set_init
     (seq (for_each [0..9] set_insert)
     (seq (run_threads sched [set_thread_func, set_thread_func])
     (seq set_print
     (seq set_destroy (ret 0)))))"

section \<open>The representation\<close>

definition set_rep :: "(ptr \<rightharpoonup> node) \<Rightarrow> set_world \<Rightarrow> int list \<Rightarrow> bool" where
  "set_rep F s vs \<longleftrightarrow> locks s 0 = Free \<and> distinct vs \<and>
     (\<exists>xs. owns nxt s (set_head s) xs F \<and> map (\<lambda>x. data (snd x)) xs = vs)"

lemma owns_set_head [simp]: "owns nx (set_head_update f s) p xs F = owns nx s p xs F"
  by (rule owns_cong) simp_all

lemma set_repE:
  assumes "set_rep F s vs"
  obtains xs where "locks s 0 = Free" "owns nxt s (set_head s) xs F" "vs = map (\<lambda>x. data (snd x)) xs" "distinct vs"
  using assms by (auto simp: set_rep_def)

lemma set_repI:
  assumes "owns nxt s (set_head s) xs F" "locks s 0 = Free" "map (\<lambda>x. data (snd x)) xs = vs" "distinct vs"
  shows "set_rep F s vs"
  using assms by (auto simp: set_rep_def)

lemma set_rep_out [simp]: "set_rep F (out_update f s) vs = set_rep F s vs"
  by (simp add: set_rep_def)

lemma set_insert_ok:
  assumes "set_rep F s vs" and "v \<in> set vs \<or> 0 < room s"
  shows "\<exists>s'. set_insert v s = Inr ((), s') \<and> set_rep F s' (if v \<in> set vs then vs else v # vs) \<and>
     room s' = room s - (if v \<in> set vs then 0 else 1)"
proof -
  from assms(1) obtain xs where r: "locks s 0 = Free" "owns nxt s (set_head s) xs F"
    "vs = map (\<lambda>x. data (snd x)) xs" "distinct vs" by (rule set_repE)
  from r(2) show ?thesis
  proof (cases rule: walk_cases[where stop = "\<lambda>n. data n = v"])
    case absent
    then have v: "v \<notin> set vs" using r(3) by auto
    let ?n = "(junk s)\<lparr>data := v, nxt := set_head s\<rparr>"
    let ?s = "s\<lparr>cells := (cells s)(fresh s \<mapsto> ?n), fresh := Suc (fresh s), room := room s - 1, set_head := fresh s\<rparr>"
    have "set_insert v s = Inr ((), ?s)"
      using assms(2) v r(1) absent owns_wf[OF r(2)] by (simp add: set_insert_def set_newNode_def exec_simps)
    moreover have "owns nxt ?s (set_head ?s) ((fresh s, ?n) # xs) F"
      using node.owns_insert_first[OF r(2), of ?n ?s] by simp
    then have "set_rep F ?s (v # vs)" by (rule set_repI) (use r v in simp_all)
    ultimately show ?thesis using v by simp
  next
    case (found us a n ws)
    then have "v \<in> set vs" using r(3) by auto
    with found r(1) assms(1) show ?thesis by (simp add: set_insert_def exec_simps)
  qed
qed

lemma set_remove_ok:
  assumes "set_rep F s vs"
  shows "\<exists>s'. set_remove v s = Inr ((), s') \<and> set_rep F s' (remove1 v vs) \<and>
     room s' = room s + (if v \<in> set vs then 1 else 0)"
proof -
  from assms(1) obtain xs where r: "locks s 0 = Free" "owns nxt s (set_head s) xs F"
    "vs = map (\<lambda>x. data (snd x)) xs" "distinct vs" by (rule set_repE)
  have d: "distinct (remove1 v vs)" using r(4) by simp
  from r(2) show ?thesis
  proof (cases rule: walk_cases[where stop = "\<lambda>n. data n = v"])
    case absent
    then have "v \<notin> set vs" using r(3) by auto
    with absent assms r(1) show ?thesis by (auto simp: set_remove_def exec_simps remove1_idem)
  next
    case (found us a n ws)
    then have v: "v \<in> set vs" "remove1 v vs = map (\<lambda>x. data (snd x)) (us @ ws)"
      using r(3) by (auto simp: remove1_append)
    show ?thesis
    proof (cases us rule: rev_cases)
      case Nil
      let ?s = "s\<lparr>set_head := nxt n, cells := (cells s)(a := None), room := Suc (room s)\<rparr>"
      have "set_remove v s = Inr ((), ?s)"
        using found Nil r by (simp add: set_remove_def exec_simps)
      moreover have "owns nxt ?s (set_head ?s) ws F"
        using node.owns_delete_first[of s "set_head s" a n ws F ?s] r(2) found(1) Nil by simp
      then have "set_rep F ?s (remove1 v vs)"
        by (rule set_repI) (use r Nil v d in simp_all)
      ultimately show ?thesis using v by simp
    next
      case (snoc us' y)
      obtain b m where y: "y = (b, m)" by (cases y)
      have b: "b \<noteq> NULL" "cells s b = Some m" "a \<noteq> b"
        using owns_mem[of nxt s "set_head s" us' b m "(a, n) # ws" F] r(2) found(1) snoc y
          chain_distinct[OF owns_chain[OF r(2)]] by auto
      let ?s = "s\<lparr>cells := (cells s)(b \<mapsto> m\<lparr>nxt := nxt n\<rparr>, a := None), room := Suc (room s)\<rparr>"
      have "set_remove v s = Inr ((), ?s)"
        using found snoc y r b by (simp add: set_remove_def exec_simps)
      moreover have "owns nxt ?s (set_head ?s) (us' @ (b, m\<lparr>nxt := nxt n\<rparr>) # ws) F"
        using node.owns_delete_after[of s "set_head s" us' b m a n ws F ?s] r(2) found(1) snoc y by simp
      then have "set_rep F ?s (remove1 v vs)"
        by (rule set_repI) (use r snoc y v d in simp_all)
      ultimately show ?thesis using v by simp
    qed
  qed
qed

lemma set_contains_ok:
  assumes "set_rep F s vs"
  shows "set_contains v s = Inr (v \<in> set vs, s)"
proof -
  from assms(1) obtain xs where r: "locks s 0 = Free" "owns nxt s (set_head s) xs F"
    "vs = map (\<lambda>x. data (snd x)) xs" by (rule set_repE)
  from r(2) show ?thesis
    by (cases rule: walk_cases[where stop = "\<lambda>n. data n = v"])
      (use r in \<open>auto simp: set_contains_def exec_simps\<close>)
qed

lemma set_clear_ok:
  assumes "set_rep F s vs"
  shows "\<exists>s'. set_clear s = Inr ((), s') \<and> set_rep F s' [] \<and> room s' = room s + length vs \<and>
     cells s' = F \<and> out s' = out s"
proof -
  from assms(1) obtain xs where r: "locks s 0 = Free" "owns nxt s (set_head s) xs F"
    "vs = map (\<lambda>x. data (snd x)) xs" by (rule set_repE)
  let ?s = "s\<lparr>cells := F, room := room s + length xs, set_head := NULL\<rparr>"
  have "release_list nxt (set_head s) (s\<lparr>locks := (locks s)(0 := Held)\<rparr>) =
      Inr ((), s\<lparr>locks := (locks s)(0 := Held), cells := F, room := room s + length xs\<rparr>)"
    using release_list_spec[of nxt "s\<lparr>locks := (locks s)(0 := Held)\<rparr>" "set_head s" xs F] r(2) by simp
  then have "set_clear s = Inr ((), ?s)" using r(1) by (simp add: set_clear_def exec_simps)
  moreover have "owns nxt ?s (set_head ?s) [] F" using owns_released[OF r(2), of ?s] by simp
  then have "set_rep F ?s []" by (rule set_repI) (use r in simp_all)
  ultimately show ?thesis using r(3) by simp
qed

lemma set_print_ok:
  assumes "set_rep F s vs"
  shows "set_print s =
     Inr ((), s\<lparr>out := out s @ (''Set elements: '', []) # map (\<lambda>v. (''%d '', [v])) vs @ [(''\<newline>'', [])]\<rparr>)"
proof -
  from assms(1) obtain xs where r: "locks s 0 = Free" "owns nxt s (set_head s) xs F"
    "vs = map (\<lambda>x. data (snd x)) xs" by (rule set_repE)
  let ?s = "s\<lparr>locks := (locks s)(0 := Held), out := out s @ [(''Set elements: '', [])]\<rparr>"
  have "visit_list nxt (\<lambda>n _. printf ''%d '' [data n]) (set_head s) () ?s =
      Inr ((), ?s\<lparr>out := out ?s @ map (\<lambda>x. (''%d '', [data (snd x)])) xs\<rparr>)"
    by (rule visit_list_print[where F = F]) (use r in simp_all)
  with r show ?thesis by (simp add: set_print_def exec_simps comp_def)
qed

section \<open>The contract of a set\<close>

text \<open>\<open>rep s A\<close>: in state \<open>s\<close> the set is \<open>A\<close>, in as many nodes as it has elements.\<close>

locale int_set =
  fixes rep :: "('n, 'z) world_scheme \<Rightarrow> int set \<Rightarrow> bool"
    and ins :: "int \<Rightarrow> (('n, 'z) world_scheme, unit) exec"
    and rem :: "int \<Rightarrow> (('n, 'z) world_scheme, unit) exec"
  assumes ins_ok: "rep s A \<Longrightarrow> v \<in> A \<or> 0 < room s \<Longrightarrow>
      \<exists>s'. ins v s = Inr ((), s') \<and> rep s' (insert v A) \<and> room s' + card (insert v A) = room s + card A"
    and rem_ok: "rep s A \<Longrightarrow>
      \<exists>s'. rem v s = Inr ((), s') \<and> rep s' (A - {v}) \<and> room s' + card (A - {v}) = room s + card A"
    and rep_finite: "rep s A \<Longrightarrow> finite A"
begin

lemma ins_all:
  assumes "rep s A" and "card (A \<union> set vs) \<le> room s + card A"
  shows "\<exists>s'. for_each vs ins s = Inr ((), s') \<and> rep s' (A \<union> set vs) \<and>
     room s' + card (A \<union> set vs) = room s + card A"
proof (rule for_each_rule[where I = "\<lambda>us t. rep t (A \<union> set us) \<and> room t + card (A \<union> set us) = room s + card A"])
  fix us u zs t
  assume us: "vs = us @ u # zs" and I: "rep t (A \<union> set us) \<and> room t + card (A \<union> set us) = room s + card A"
  have fin: "finite (A \<union> set vs)" using rep_finite[OF assms(1)] by simp
  have "u \<in> A \<union> set us \<or> 0 < room t"
  proof (rule disjCI)
    assume "\<not> 0 < room t"
    with I assms(2) have "card (A \<union> set vs) \<le> card (A \<union> set us)" by simp
    moreover have "A \<union> set us \<subseteq> A \<union> set vs" using us by auto
    ultimately have "A \<union> set us = A \<union> set vs" using fin by (metis card_seteq)
    then show "u \<in> A \<union> set us" using us by auto
  qed
  with ins_ok[of t "A \<union> set us" u] I
  show "\<exists>s'. ins u t = Inr ((), s') \<and> rep s' (A \<union> set (us @ [u])) \<and>
      room s' + card (A \<union> set (us @ [u])) = room s + card A" by auto
qed (use assms(1) in simp)

text \<open>
  Two threads that remove \<open>i\<close> and insert \<open>i + 10\<close> for \<open>i = 0..24\<close>. The ghost
  of a thread is the number of operations it has done. A number below 10 is in the set only while no
  thread has removed it, any other one only while a thread has inserted it and not
  removed it, and what is never removed stays.
\<close>

definition shift_inv :: "nat multiset \<Rightarrow> ('n, 'z) world_scheme \<Rightarrow> bool" where
  "shift_inv G s \<longleftrightarrow> (\<exists>A. rep s A \<and> A \<subseteq> {0..34} \<and> 35 \<le> room s + card A \<and>
     (\<forall>e\<in>A. if e < 10 then \<forall>n\<in>#G. int n \<le> 2 * e
       else \<exists>n\<in>#G. 2 * (e - 10) + 1 < int n \<and> int n \<le> 2 * e) \<and>
     (\<forall>e\<in>{25..34}. \<forall>n\<in>#G. 2 * (e - 10) + 1 < int n \<longrightarrow> e \<in> A))"

lemma shift_invI:
  assumes "rep s A" "A \<subseteq> {0..34}" "35 \<le> room s + card A"
    and "\<And>e. e \<in> A \<Longrightarrow> if e < 10 then \<forall>n\<in>#G. int n \<le> 2 * e
       else \<exists>n\<in>#G. 2 * (e - 10) + 1 < int n \<and> int n \<le> 2 * e"
    and "\<And>e n. 25 \<le> e \<Longrightarrow> e \<le> 34 \<Longrightarrow> n \<in># G \<Longrightarrow> 2 * (e - 10) + 1 < int n \<Longrightarrow> e \<in> A"
  shows "shift_inv G s"
  unfolding shift_inv_def
proof (intro exI[of _ A] conjI ballI impI)
  fix e :: int and n
  assume "e \<in> {25..34}" and "n \<in># G" and "2 * (e - 10) + 1 < int n"
  then show "e \<in> A" by (intro assms(5)[of e n]) simp_all
qed (fact assms)+

lemma tok_shift_remove:
  assumes "i \<le> 24" and "tok shift_inv Q {#2 * i + 1#} t"
  shows "tok shift_inv Q {#2 * i#} (atomic (rem (int i)) (\<lambda>_. t))"
proof (rule tok_atomic)
  fix c s
  assume "shift_inv ({#2 * i#} + c) s"
  then obtain A where A: "rep s A" "A \<subseteq> {0..34}" "35 \<le> room s + card A"
    "\<forall>e\<in>A. if e < 10 then \<forall>n\<in>#{#2 * i#} + c. int n \<le> 2 * e
       else \<exists>n\<in>#{#2 * i#} + c. 2 * (e - 10) + 1 < int n \<and> int n \<le> 2 * e"
    "\<forall>e\<in>{25..34}. \<forall>n\<in>#{#2 * i#} + c. 2 * (e - 10) + 1 < int n \<longrightarrow> e \<in> A"
    unfolding shift_inv_def by blast
  from rem_ok[OF A(1), of "int i"] obtain s' where
    s': "rem (int i) s = Inr ((), s')" "rep s' (A - {int i})" "room s' + card (A - {int i}) = room s + card A" by blast
  have up: "if e < 10 then \<forall>n\<in>#{#2 * i + 1#} + c. int n \<le> 2 * e
      else \<exists>n\<in>#{#2 * i + 1#} + c. 2 * (e - 10) + 1 < int n \<and> int n \<le> 2 * e" if "e \<in> A - {int i}" for e
    using bspec[OF A(4), of e] that by (cases "e < 10") auto
  have low: "e \<in> A - {int i}" if "25 \<le> e" "e \<le> 34" "n \<in># {#2 * i + 1#} + c" "2 * (e - 10) + 1 < int n" for e n
  proof -
    have "2 * (e - 10) + 1 < int (2 * i + 1) \<longleftrightarrow> 2 * (e - 10) + 1 < int (2 * i)" by presburger
    then show ?thesis
      using bspec[OF bspec[OF A(5), of e], of n] bspec[OF bspec[OF A(5), of e], of "2 * i"] that assms(1) by auto
  qed
  have "shift_inv ({#2 * i + 1#} + c) s'"
    by (rule shift_invI[OF s'(2) _ _ up low]) (use s'(3) A(2,3) in auto)
  with s'(1) assms(2) show "\<exists>a s' g'. rem (int i) s = Inr (a, s') \<and> shift_inv (g' + c) s' \<and> tok shift_inv Q g' t"
    by blast
qed

lemma tok_shift_insert:
  assumes "i \<le> 24" and "tok shift_inv Q {#2 * i + 2#} t"
  shows "tok shift_inv Q {#2 * i + 1#} (atomic (ins (int i + 10)) (\<lambda>_. t))"
proof (rule tok_atomic)
  fix c s
  assume "shift_inv ({#2 * i + 1#} + c) s"
  then obtain A where A: "rep s A" "A \<subseteq> {0..34}" "35 \<le> room s + card A"
    "\<forall>e\<in>A. if e < 10 then \<forall>n\<in>#{#2 * i + 1#} + c. int n \<le> 2 * e
       else \<exists>n\<in>#{#2 * i + 1#} + c. 2 * (e - 10) + 1 < int n \<and> int n \<le> 2 * e"
    "\<forall>e\<in>{25..34}. \<forall>n\<in>#{#2 * i + 1#} + c. 2 * (e - 10) + 1 < int n \<longrightarrow> e \<in> A"
    unfolding shift_inv_def by blast
  let ?v = "int i + 10"
  have "?v \<in> A \<or> 0 < room s"
  proof (rule disjCI)
    assume "\<not> 0 < room s"
    with A(3) have "card {0..34 :: int} \<le> card A" by simp
    with A(2) have "A = {0..34}" by (simp add: card_seteq)
    with assms(1) show "?v \<in> A" by simp
  qed
  from ins_ok[OF A(1) this] obtain s' where
    s': "ins ?v s = Inr ((), s')" "rep s' (insert ?v A)" "room s' + card (insert ?v A) = room s + card A" by blast
  have up: "if e < 10 then \<forall>n\<in>#{#2 * i + 2#} + c. int n \<le> 2 * e
      else \<exists>n\<in>#{#2 * i + 2#} + c. 2 * (e - 10) + 1 < int n \<and> int n \<le> 2 * e" if "e \<in> insert ?v A" for e
  proof -
    have "int (2 * i + 1) \<le> 2 * e \<longleftrightarrow> int (2 * i + 2) \<le> 2 * e" by presburger
    then show ?thesis using bspec[OF A(4), of e] that by (cases "e < 10") auto
  qed
  have low: "e \<in> insert ?v A" if "25 \<le> e" "e \<le> 34" "n \<in># {#2 * i + 2#} + c" "2 * (e - 10) + 1 < int n" for e n
    using bspec[OF bspec[OF A(5), of e], of n] bspec[OF bspec[OF A(5), of e], of "2 * i + 1"] that by auto
  have "shift_inv ({#2 * i + 2#} + c) s'"
    by (rule shift_invI[OF s'(2) _ _ up low]) (use s'(3) A(2,3) assms(1) in auto)
  with s'(1) assms(2) show "\<exists>a s' g'. ins ?v s = Inr (a, s') \<and> shift_inv (g' + c) s' \<and> tok shift_inv Q g' t"
    by blast
qed

lemma tok_shift_loop:
  "tok shift_inv (\<lambda>g. g = {#50#}) {#0#}
     (t_for [0..24] (\<lambda>i k. atomic (rem i) (\<lambda>_. atomic (ins (i + 10)) (\<lambda>_. k))) Done)"
proof -
  have "tok shift_inv (\<lambda>g. g = {#50#}) {#2 * length ([] :: int list)#}
     (t_for [0..24] (\<lambda>i k. atomic (rem i) (\<lambda>_. atomic (ins (i + 10)) (\<lambda>_. k))) Done)"
  proof (rule tok_for[where G = "\<lambda>ys. {#2 * length ys#}"])
    fix ys zs and x :: int and t
    assume *: "[0..24] = ys @ x # zs" and "tok shift_inv (\<lambda>g. g = {#50#}) {#2 * length (ys @ [x])#} t"
    then have t: "tok shift_inv (\<lambda>g. g = {#50#}) {#2 * length ys + 2#} t" by simp
    have "length ys < length [0..24 :: int]" by (subst *) simp
    then have l: "length ys \<le> 24" by simp
    have "x = [0..24] ! length ys" by (subst *) simp
    also have "\<dots> = int (length ys)" using l by (subst nth_upto) auto
    finally have "x = int (length ys)" .
    with tok_shift_remove[OF l tok_shift_insert[OF l t]]
    show "tok shift_inv (\<lambda>g. g = {#50#}) {#2 * length ys#} (atomic (rem x) (\<lambda>_. atomic (ins (x + 10)) (\<lambda>_. t)))"
      by simp
  qed (simp add: tok_done)
  then show ?thesis by simp
qed

lemma shift_ok:
  assumes "rep s {0..9}" and "35 \<le> room s + 10"
    and "t = t_for [0..24] (\<lambda>i k. atomic (rem i) (\<lambda>_. atomic (ins (i + 10)) (\<lambda>_. k))) Done"
  shows "\<exists>s'. run_threads sched [t, t] s = Inr ((), s') \<and> rep s' {25..34}"
proof -
  have "shift_inv ({#0#} + {#0#}) s"
    using assms(1,2) unfolding shift_inv_def by (intro exI[of _ "{0..9}"]) auto
  with run_two[OF tok_shift_loop tok_shift_loop, of s sched] assms(3) obtain s' where
    s': "run_threads sched [t, t] s = Inr ((), s')" "shift_inv {#50, 50#} s'" by auto
  then obtain A where A: "rep s' A" "A \<subseteq> {0..34}"
    "\<And>e. e \<in> A \<Longrightarrow> if e < 10 then 50 \<le> 2 * e else 2 * (e - 10) + 1 < 50 \<and> 50 \<le> 2 * e"
    "\<And>e. 25 \<le> e \<Longrightarrow> e \<le> 34 \<Longrightarrow> 2 * (e - 10) + 1 < 50 \<Longrightarrow> e \<in> A"
    unfolding shift_inv_def by (fastforce split: if_splits)
  have "A = {25..34}"
  proof (intro equalityI subsetI)
    fix e
    assume "e \<in> A"
    with A(2) A(3)[of e] show "e \<in> {25..34}" by (auto split: if_splits)
  next
    fix e :: int
    assume "e \<in> {25..34}"
    with A(4)[of e] show "e \<in> A" by auto
  qed
  with s'(1) A(1) show ?thesis by auto
qed

end

interpretation iset: int_set "\<lambda>s A. \<exists>vs. set_rep Map.empty s vs \<and> set vs = A" set_insert set_remove
proof unfold_locales
  fix s A v
  assume "\<exists>vs. set_rep Map.empty s vs \<and> set vs = A" and v: "v \<in> A \<or> 0 < room s"
  then obtain vs where vs: "set_rep Map.empty s vs" "set vs = A" by blast
  from set_insert_ok[OF vs(1), of v] v vs(2) obtain s' where
    s': "set_insert v s = Inr ((), s')" "set_rep Map.empty s' (if v \<in> A then vs else v # vs)"
      "room s' = room s - (if v \<in> A then 0 else 1)" by auto
  moreover have "set (if v \<in> A then vs else v # vs) = insert v A" using vs(2) by auto
  moreover have "finite A" using vs(2) by auto
  then have "room s' + card (insert v A) = room s + card A" using s'(3) v by (auto simp: card_insert_if)
  ultimately show "\<exists>s'. set_insert v s = Inr ((), s') \<and> (\<exists>vs. set_rep Map.empty s' vs \<and> set vs = insert v A) \<and>
      room s' + card (insert v A) = room s + card A" by blast
next
  fix s A v
  assume "\<exists>vs. set_rep Map.empty s vs \<and> set vs = A"
  then obtain vs where vs: "set_rep Map.empty s vs" "set vs = A" by blast
  have "distinct vs" using vs(1) by (rule set_repE)
  from set_remove_ok[OF vs(1), of v] vs(2) obtain s' where
    s': "set_remove v s = Inr ((), s')" "set_rep Map.empty s' (remove1 v vs)"
      "room s' = room s + (if v \<in> A then 1 else 0)" by auto
  moreover have "set (remove1 v vs) = A - {v}" using vs(2) \<open>distinct vs\<close> by simp
  moreover have "finite A" using vs(2) by auto
  then have "room s' + card (A - {v}) = room s + card A"
    using s'(3) card_Suc_Diff1[of A v] by (cases "v \<in> A") auto
  ultimately show "\<exists>s'. set_remove v s = Inr ((), s') \<and> (\<exists>vs. set_rep Map.empty s' vs \<and> set vs = A - {v}) \<and>
      room s' + card (A - {v}) = room s + card A" by blast
qed auto

section \<open>Properties\<close>

lemma set_init_ok:
  "\<exists>s. set_init (set_boot r j) = Inr ((), s) \<and> set_rep Map.empty s [] \<and> room s = r"
  by (simp add: set_init_def set_boot_def world.defs boot_def exec_simps set_rep_def wf_world_def)

text \<open>\<^verbatim>\<open>set/set.c\<close> is deterministic up to order: under every interleaving of its two
  threads, with memory for 35 nodes, it ends without a fault and the set it prints is exactly
  25, ..., 34, each element once; every node is released.\<close>

theorem set_main_ok:
  assumes "35 \<le> r"
  shows "\<exists>s' vs. set_main sched (set_boot r j) = Inr (0, s') \<and> distinct vs \<and> set vs = {25..34} \<and>
     (\<exists>log. out s' = log @ (''Set elements: '', []) # map (\<lambda>v. (''%d '', [v])) vs @ [(''\<newline>'', [])]) \<and>
     cells s' = Map.empty \<and> locks s' 0 = Destroyed"
proof -
  from set_init_ok[of r j] obtain s where
    s: "set_init (set_boot r j) = Inr ((), s)" "set_rep Map.empty s []" "room s = r" by blast
  have "set [0..9] = {0..9 :: int}" "card {0..9 :: int} = 10" by (simp_all del: upto_rec_numeral)
  with iset.ins_all[of s "{}" "[0..9]"] s(2,3) assms obtain s1 where
    1: "for_each [0..9] set_insert s = Inr ((), s1)" "\<exists>vs. set_rep Map.empty s1 vs \<and> set vs = {0..9}"
      "room s1 + 10 = r" by (auto simp del: upto_rec_numeral for_each.simps)
  from iset.shift_ok[OF 1(2), of set_thread_func sched] 1(3) assms obtain s2 vs where
    2: "run_threads sched [set_thread_func, set_thread_func] s1 = Inr ((), s2)"
      "set_rep Map.empty s2 vs" "set vs = {25..34}" by (auto simp: set_thread_func_def)
  let ?t = "s2\<lparr>out := out s2 @ (''Set elements: '', []) # map (\<lambda>v. (''%d '', [v])) vs @ [(''\<newline>'', [])]\<rparr>"
  from set_clear_ok[of Map.empty ?t vs] 2(2) obtain s3 where
    3: "set_clear ?t = Inr ((), s3)" "set_rep Map.empty s3 []" "cells s3 = Map.empty" "out s3 = out ?t" by auto
  have "locks s3 0 = Free" using 3(2) by (rule set_repE)
  moreover have "distinct vs" using 2(2) by (rule set_repE)
  ultimately show ?thesis using s(1) 1(1) 2(1,3) set_print_ok[OF 2(2)] 3
    by (auto simp: set_main_def set_destroy_def exec_simps simp del: for_each.simps upto_rec_numeral intro!: exI[of _ vs])
qed

theorem set_main_ok_witness:
  "\<exists>s' vs. set_main [0, 0, 1, 0, 1] (set_boot 35 node0) = Inr (0, s') \<and> distinct vs \<and> set vs = {25..34} \<and>
     (\<exists>log. out s' = log @ (''Set elements: '', []) # map (\<lambda>v. (''%d '', [v])) vs @ [(''\<newline>'', [])]) \<and>
     cells s' = Map.empty \<and> locks s' 0 = Destroyed"
  by (rule set_main_ok) simp

text \<open>The operations of \<^verbatim>\<open>set.h\<close> are those of finite sets: \<^verbatim>\<open>set_contains\<close> decides
  membership, \<^verbatim>\<open>set_insert\<close> adds an element and allocates only when it is new,
  \<^verbatim>\<open>set_remove\<close> deletes one and releases its node; no duplicates ever arise and other memory is
  untouched.\<close>

theorem set_operations:
  assumes "set_rep F s vs" and "0 < room s"
  shows "set_contains v s = Inr (v \<in> set vs, s) \<and>
     (\<exists>s' ws. set_insert v s = Inr ((), s') \<and> set_rep F s' ws \<and> distinct ws \<and> set ws = insert v (set vs) \<and>
        room s' + length ws = room s + length vs) \<and>
     (\<exists>s' ws. set_remove v s = Inr ((), s') \<and> set_rep F s' ws \<and> distinct ws \<and> set ws = set vs - {v} \<and>
        room s' + length ws = room s + length vs)"
proof (intro conjI)
  have d: "distinct vs" using assms(1) by (rule set_repE)
  show "set_contains v s = Inr (v \<in> set vs, s)" by (rule set_contains_ok[OF assms(1)])
  show "\<exists>s' ws. set_insert v s = Inr ((), s') \<and> set_rep F s' ws \<and> distinct ws \<and> set ws = insert v (set vs) \<and>
        room s' + length ws = room s + length vs"
    using set_insert_ok[OF assms(1), of v] assms(2) d by (cases "v \<in> set vs") force+
  show "\<exists>s' ws. set_remove v s = Inr ((), s') \<and> set_rep F s' ws \<and> distinct ws \<and> set ws = set vs - {v} \<and>
        room s' + length ws = room s + length vs"
  proof -
    from set_remove_ok[OF assms(1), of v] obtain s' where "set_remove v s = Inr ((), s')"
      "set_rep F s' (remove1 v vs)" "room s' = room s + (if v \<in> set vs then 1 else 0)" by blast
    with d show ?thesis
      by (intro exI[of _ s'] exI[of _ "remove1 v vs"])
        (use length_pos_if_in_set[of v vs] in \<open>auto simp: length_remove1\<close>)
  qed
qed

lemma set_rep_boot: "set_rep Map.empty ((set_boot r j)\<lparr>locks := (\<lambda>_. Uninit)(0 := Free)\<rparr>) []"
  by (simp add: set_rep_def set_boot_def world.defs boot_def wf_world_def)

theorem set_operations_witness:
  "\<exists>s. set_rep Map.empty s [3] \<and> set_contains 3 s = Inr (True, s) \<and>
     (\<exists>s' ws. set_insert 3 s = Inr ((), s') \<and> set_rep Map.empty s' ws \<and> set ws = {3}) \<and>
     (\<exists>s' ws. set_remove 3 s = Inr ((), s') \<and> set_rep Map.empty s' ws \<and> set ws = {})"
proof -
  from set_insert_ok[OF set_rep_boot, of 3 2 node0] obtain s where
    s: "set_rep Map.empty s [3]" "room s = 1" by (auto simp: set_boot_def world.defs boot_def)
  from set_operations[OF s(1), of 3] s show ?thesis by (intro exI[of _ s]) auto
qed

end
