(* ===== verification/HashTbl.thy ===== *)
theory HashTbl
  imports Bags
begin

text \<open>
  \<^verbatim>\<open>ThreadTrove/hash\<close>: a table of ten chains of key-value nodes under one mutex. The chains are
  a \<open>forest\<close>; the contents of the table are ten association lists. \<^verbatim>\<open>insert\<close> does not
  look for the key, so a key may occur several times and the latest value wins: for each key the table is a
  stack of values. Negative keys lead outside the bucket array, and \<^verbatim>\<open>merge\<close> cannot return.
\<close>

section \<open>hash/hash.h\<close>

record hnode =
  hkey :: int
  hvalue :: int
  hnext :: ptr

text \<open>Tables are numbered; the mutex of table \<open>t\<close> is lock \<open>t\<close>.\<close>

record hash_world = "hnode world" +
  buckets :: "nat \<Rightarrow> nat \<Rightarrow> ptr"
  ht_size :: "nat \<Rightarrow> int"

definition hash_boot :: "nat \<Rightarrow> hnode \<Rightarrow> hash_world" where
  "hash_boot r j = world.extend (boot r j) \<lparr>buckets = (\<lambda>_ _. NULL), ht_size = (\<lambda>_. 0)\<rparr>"

definition TABLE_SIZE :: int where
  "TABLE_SIZE = 10"

definition hash_function :: "int \<Rightarrow> int" where
  "hash_function key = crem key TABLE_SIZE"

text \<open>Reading and writing \<^verbatim>\<open>table->buckets[index]\<close>.\<close>

definition get_bucket :: "nat \<Rightarrow> int \<Rightarrow> (hash_world, ptr) exec" where
  "get_bucket t index =
     (if 0 \<le> index \<and> index < TABLE_SIZE then gets (\<lambda>s. buckets s t (nat index)) else raise IndexRange)"

definition set_bucket :: "nat \<Rightarrow> int \<Rightarrow> ptr \<Rightarrow> (hash_world, unit) exec" where
  "set_bucket t index p =
     (if 0 \<le> index \<and> index < TABLE_SIZE
      then modify (\<lambda>s. s\<lparr>buckets := (buckets s)(t := (buckets s t)(nat index := p))\<rparr>)
      else raise IndexRange)"

definition hash_resize :: "nat \<Rightarrow> int \<Rightarrow> (hash_world, unit) exec" where
  "hash_resize t d =
     bnd (gets (\<lambda>s. ht_size s t)) (\<lambda>n. bnd (cint (n + d)) (\<lambda>m. modify (\<lambda>s. s\<lparr>ht_size := (ht_size s)(t := m)\<rparr>)))"

definition init_hash_table :: "nat \<Rightarrow> (hash_world, unit) exec" where
  "init_hash_table t =
     seq (modify (\<lambda>s. s\<lparr>ht_size := (ht_size s)(t := 0)\<rparr>))
     (seq (pthread_mutex_init t)
     (for_each [0..TABLE_SIZE - 1] (\<lambda>i. set_bucket t i NULL)))"

definition hash_insert :: "nat \<Rightarrow> int \<Rightarrow> int \<Rightarrow> (hash_world, unit) exec" where
  "hash_insert t key value =
     (let index = hash_function key in
     seq (pthread_mutex_lock t)
     (bnd pmalloc (\<lambda>new_node.
     seq (assign new_node (\<lambda>n. n\<lparr>hkey := key\<rparr>))
     (seq (assign new_node (\<lambda>n. n\<lparr>hvalue := value\<rparr>))
     (bnd (get_bucket t index) (\<lambda>b.
     seq (assign new_node (\<lambda>n. n\<lparr>hnext := b\<rparr>))
     (seq (set_bucket t index new_node)
     (seq (hash_resize t 1)
     (pthread_mutex_unlock t)))))))))"

definition delete_from_hash :: "nat \<Rightarrow> int \<Rightarrow> (hash_world, bool) exec" where
  "delete_from_hash t key =
     (let index = hash_function key in
     seq (pthread_mutex_lock t)
     (bnd (get_bucket t index) (\<lambda>b.
     bnd (walk_list hnext (\<lambda>n. hkey n = key) b) (\<lambda>(prev, current).
     if current = NULL then seq (pthread_mutex_unlock t) (ret False)
     else
       bnd (deref current) (\<lambda>c.
       seq (if prev = NULL then set_bucket t index (hnext c)
            else assign prev (\<lambda>n. n\<lparr>hnext := hnext c\<rparr>))
       (seq (free current)
       (seq (hash_resize t (- 1))
       (seq (pthread_mutex_unlock t) (ret True)))))))))"

definition hash_get :: "nat \<Rightarrow> int \<Rightarrow> (hash_world, int) exec" where
  "hash_get t key =
     (let index = hash_function key in
     seq (pthread_mutex_lock t)
     (bnd (get_bucket t index) (\<lambda>b.
     bnd (walk_list hnext (\<lambda>n. hkey n = key) b) (\<lambda>(prev, current).
     if current \<noteq> NULL then
       bnd (deref current) (\<lambda>c. seq (pthread_mutex_unlock t) (ret (hvalue c)))
     else seq (pthread_mutex_unlock t) (ret (- 1))))))"

definition hash_update :: "nat \<Rightarrow> int \<Rightarrow> int \<Rightarrow> (hash_world, unit) exec" where
  "hash_update t key value =
     (let index = hash_function key in
     seq (pthread_mutex_lock t)
     (bnd (get_bucket t index) (\<lambda>b.
     bnd (walk_list hnext (\<lambda>n. hkey n = key) b) (\<lambda>(prev, current).
     seq (if current \<noteq> NULL then assign current (\<lambda>n. n\<lparr>hvalue := value\<rparr>) else ret ())
     (pthread_mutex_unlock t)))))"

definition hash_contains :: "nat \<Rightarrow> int \<Rightarrow> (hash_world, bool) exec" where
  "hash_contains t key = bnd (hash_get t key) (\<lambda>v. ret (v \<noteq> - 1))"

definition clear_bucket :: "nat \<Rightarrow> int \<Rightarrow> (hash_world, unit) exec" where
  "clear_bucket t i =
     bnd (get_bucket t i) (\<lambda>current. seq (release_list hnext current) (set_bucket t i NULL))"

definition hash_clear :: "nat \<Rightarrow> (hash_world, unit) exec" where
  "hash_clear t =
     seq (pthread_mutex_lock t)
     (seq (for_each [0..TABLE_SIZE - 1] (clear_bucket t))
     (seq (modify (\<lambda>s. s\<lparr>ht_size := (ht_size s)(t := 0)\<rparr>))
     (pthread_mutex_unlock t)))"

definition hash_size :: "nat \<Rightarrow> (hash_world, int) exec" where
  "hash_size t =
     seq (pthread_mutex_lock t)
     (bnd (gets (\<lambda>s. ht_size s t)) (\<lambda>current_size.
     seq (pthread_mutex_unlock t) (ret current_size)))"

definition hash_is_empty :: "nat \<Rightarrow> (hash_world, bool) exec" where
  "hash_is_empty t = bnd (hash_size t) (\<lambda>n. ret (n = 0))"

definition show_bucket :: "nat \<Rightarrow> int \<Rightarrow> (hash_world, unit) exec" where
  "show_bucket t i =
     bnd (get_bucket t i) (\<lambda>current.
     seq (printf ''Bucket %d: '' [i])
     (seq (visit_list hnext (\<lambda>n _. printf ''(%d, %d) -> '' [hkey n, hvalue n]) current ())
     (printf ''NULL\<newline>'' [])))"

definition hash_display :: "nat \<Rightarrow> (hash_world, unit) exec" where
  "hash_display t =
     seq (pthread_mutex_lock t)
     (seq (for_each [0..TABLE_SIZE - 1] (show_bucket t))
     (pthread_mutex_unlock t))"

definition hash_merge :: "nat \<Rightarrow> nat \<Rightarrow> (hash_world, unit) exec" where
  "hash_merge t other =
     seq (pthread_mutex_lock t)
     (seq (pthread_mutex_lock other)
     (seq (for_each [0..TABLE_SIZE - 1] (\<lambda>i.
        bnd (get_bucket other i) (\<lambda>current.
        visit_list hnext (\<lambda>n _. hash_insert t (hkey n) (hvalue n)) current ())))
     (seq (pthread_mutex_lock other)
     (pthread_mutex_lock t))))"

text \<open>
  The thread function of \<^verbatim>\<open>hash/hash.c\<close>: \<open>kr i\<close> and \<open>vr i\<close> are the two random
  numbers of round \<open>i\<close>.
\<close>

definition hash_thread_func :: "int \<Rightarrow> (nat \<Rightarrow> int) \<Rightarrow> (nat \<Rightarrow> int) \<Rightarrow> hash_world thread" where
  "hash_thread_func tid kr vr =
     t_for [0..<30] (\<lambda>i k.
       atomic (hash_insert 0 (kr i) (crem (vr i) 100)) (\<lambda>_.
       atomic (printf ''Thread %d inserted: (%d, %d) into the hash table\<newline>'' [tid, kr i, crem (vr i) 100]) (\<lambda>_. k)))
     (let key = kr 29 in
      atomic (hash_contains 0 key) (\<lambda>b.
      if b then
        atomic (hash_get 0 key) (\<lambda>v.
        atomic (printf ''Thread %d read: (%d, %d) from the hash table\<newline>'' [tid, key, v]) (\<lambda>_.
        atomic (delete_from_hash 0 key) (\<lambda>_.
        atomic (printf ''Thread %d deleted: (%d) from the hash table\<newline>'' [tid, key]) (\<lambda>_. Done))))
      else Done))"

definition hash_main :: "nat list \<Rightarrow> (nat \<Rightarrow> int) \<Rightarrow> (nat \<Rightarrow> nat \<Rightarrow> int) \<Rightarrow> (nat \<Rightarrow> nat \<Rightarrow> int) \<Rightarrow> (hash_world, int) exec" where
  "hash_main sched tid kr vr =
     seq (init_hash_table 0)
     (seq (run_threads sched [hash_thread_func (tid 0) (kr 0) (vr 0), hash_thread_func (tid 1) (kr 1) (vr 1)])
     (seq (hash_display 0)
     (seq (hash_clear 0) (ret 0))))"

section \<open>The representation\<close>

interpretation hnode: linked hnext "\<lambda>p n. n\<lparr>hnext := p\<rparr>" "\<lambda>n. (hkey n, hvalue n)"
  by unfold_locales simp_all

abbreviation kv :: "ptr \<times> hnode \<Rightarrow> int \<times> int" where
  "kv x \<equiv> (hkey (snd x), hvalue (snd x))"

text \<open>\<open>kvs i\<close> is what bucket \<open>i\<close> holds, latest insertion first.\<close>

definition entries :: "(nat \<Rightarrow> 'a list) \<Rightarrow> nat" where
  "entries kvs = (\<Sum>i<10. length (kvs i))"

definition hash_rep :: "(ptr \<rightharpoonup> hnode) \<Rightarrow> nat \<Rightarrow> hash_world \<Rightarrow> (nat \<Rightarrow> (int \<times> int) list) \<Rightarrow> bool" where
  "hash_rep F t s kvs \<longleftrightarrow> locks s t = Free \<and> ht_size s t = int (entries kvs) \<and>
     int (room s + entries kvs) \<le> INT_MAX \<and> (\<forall>i<10. \<forall>p\<in>set (kvs i). hash_function (fst p) = int i) \<and>
     (\<exists>xss. forest hnext (buckets s t) 10 s xss F \<and> (\<forall>i<10. map kv (xss i) = kvs i))"

lemma hash_repE:
  assumes "hash_rep F t s kvs"
  obtains xss where "locks s t = Free" "ht_size s t = int (entries kvs)" "int (room s + entries kvs) \<le> INT_MAX"
    "\<forall>i<10. \<forall>p\<in>set (kvs i). hash_function (fst p) = int i"
    "forest hnext (buckets s t) 10 s xss F" "\<forall>i<10. map kv (xss i) = kvs i"
  using assms unfolding hash_rep_def by blast

lemma entries_upd:
  assumes "i < 10"
  shows "entries (kvs(i := ys)) + length (kvs i) = entries kvs + length ys"
proof -
  have "entries (kvs(i := ys)) = (\<Sum>j\<in>{..<10} - {i}. length (kvs j)) + length ys"
    unfolding entries_def using assms by (subst sum.remove[of _ i]) (auto intro: sum.cong)
  moreover have "entries kvs = (\<Sum>j\<in>{..<10} - {i}. length (kvs j)) + length (kvs i)"
    unfolding entries_def using assms by (subst sum.remove[of _ i]) auto
  ultimately show ?thesis by simp
qed

text \<open>An operation changes one bucket.\<close>

lemma hash_rep_update:
  assumes "forest hnext (buckets s t) 10 s xss F" and "\<forall>i<10. map kv (xss i) = kvs i"
    and "\<forall>i<10. \<forall>p\<in>set (kvs i). hash_function (fst p) = int i" and "i < 10"
    and "owns hnext s' (buckets s' t i) xs (beside s (xss i))"
    and "buckets s' t = (buckets s t)(i := buckets s' t i)"
    and "locks s' t = Free" "ht_size s' t = int (entries (kvs(i := map kv xs)))"
    "int (room s' + entries (kvs(i := map kv xs))) \<le> INT_MAX"
    "\<forall>p\<in>set (map kv xs). hash_function (fst p) = int i"
  shows "hash_rep F t s' (kvs(i := map kv xs))"
proof -
  have "forest hnext ((buckets s t)(i := buckets s' t i)) 10 s' (xss(i := xs)) F"
    by (rule forest_update[OF assms(1,4,5)])
  then have "forest hnext (buckets s' t) 10 s' (xss(i := xs)) F" using assms(6) by simp
  with assms(2,3,7-10) show ?thesis unfolding hash_rep_def by (auto intro!: exI[of _ "xss(i := xs)"])
qed

lemma owns_hash [simp]:
  "owns nx (buckets_update f s) p xs F = owns nx s p xs F"
  "owns nx (ht_size_update g s) p xs F = owns nx s p xs F"
  by (rule owns_cong, simp_all)+

lemma hash_rep_out [simp]: "hash_rep F t (out_update f s) kvs = hash_rep F t s kvs"
  by (simp add: hash_rep_def forest_def)

lemma bucket_simps [exec_simps]:
  "0 \<le> i \<Longrightarrow> i < 10 \<Longrightarrow> get_bucket t i s = Inr (buckets s t (nat i), s)"
  "0 \<le> i \<Longrightarrow> i < 10 \<Longrightarrow> set_bucket t i p s = Inr ((), s\<lparr>buckets := (buckets s)(t := (buckets s t)(nat i := p))\<rparr>)"
  "i < 0 \<Longrightarrow> get_bucket t i s = Inl IndexRange"
  by (simp_all add: get_bucket_def set_bucket_def TABLE_SIZE_def exec_simps)

lemma hash_resize_ok [exec_simps]:
  "int_range (ht_size s t + d) \<Longrightarrow> hash_resize t d s = Inr ((), s\<lparr>ht_size := (ht_size s)(t := ht_size s t + d)\<rparr>)"
  by (simp add: hash_resize_def exec_simps)

lemma hash_function_range: "hash_function key < 10" "0 \<le> key \<Longrightarrow> hash_function key = key mod 10"
  "0 \<le> hash_function key \<longleftrightarrow> 0 \<le> key \<or> key mod 10 = 0"
proof -
  have "(- key) mod 10 = 0 \<longleftrightarrow> key mod 10 = 0" by presburger
  moreover have "0 \<le> (- key) mod 10" "0 \<le> key mod 10" "key mod 10 < 10" by simp_all
  ultimately show "hash_function key < 10" "0 \<le> key \<Longrightarrow> hash_function key = key mod 10"
    "0 \<le> hash_function key \<longleftrightarrow> 0 \<le> key \<or> key mod 10 = 0"
    by (auto simp: hash_function_def crem_def TABLE_SIZE_def)
qed

lemma hash_insert_ok:
  assumes "hash_rep F t s kvs" and "0 \<le> hash_function k" and "0 < room s" and "i = nat (hash_function k)"
  shows "\<exists>s'. hash_insert t k v s = Inr ((), s') \<and> hash_rep F t s' (kvs(i := (k, v) # kvs i)) \<and> room s' = room s - 1"
proof -
  from assms(1) obtain xss where r: "locks s t = Free" "ht_size s t = int (entries kvs)" "int (room s + entries kvs) \<le> INT_MAX"
    "\<forall>i<10. \<forall>p\<in>set (kvs i). hash_function (fst p) = int i"
    "forest hnext (buckets s t) 10 s xss F" "\<forall>i<10. map kv (xss i) = kvs i" by (rule hash_repE)
  have i: "i < 10" "hash_function k = int i" using assms(2,4) hash_function_range(1)[of k] by auto
  let ?n = "(junk s)\<lparr>hkey := k, hvalue := v, hnext := buckets s t i\<rparr>"
  let ?s = "s\<lparr>cells := (cells s)(fresh s \<mapsto> ?n), fresh := Suc (fresh s), room := room s - 1,
     buckets := (buckets s)(t := (buckets s t)(i := fresh s)), ht_size := (ht_size s)(t := int (entries kvs) + 1)\<rparr>"
  let ?xs = "(fresh s, ?n) # xss i"
  have kvs: "map kv ?xs = (k, v) # kvs i" using r(6) i(1) by simp
  have tot: "entries (kvs(i := (k, v) # kvs i)) = Suc (entries kvs)" using entries_upd[OF i(1), of kvs "(k, v) # kvs i"] by simp
  have "int_range (int (entries kvs) + 1)" using r(3) assms(3) by (simp add: int_range_defs)
  then have run: "hash_insert t k v s = Inr ((), ?s)"
    using assms(3) r(1,2) i forest_wf[OF r(5)] by (simp add: hash_insert_def Let_def exec_simps)
  have "owns hnext ?s (buckets ?s t i) ?xs (beside s (xss i))"
    using hnode.owns_insert_first[OF forest_owns[OF r(5) i(1)], of ?n ?s] by simp
  from hash_rep_update[OF r(5,6,4) i(1) this] have "hash_rep F t ?s (kvs(i := map kv ?xs))"
    using r kvs tot assms(3) i by auto
  with run kvs show ?thesis by simp
qed

lemma hash_insert_negative:
  assumes "locks s t = Free" and "0 < room s" and "k < 0" and "k mod 10 \<noteq> 0" and "wf_world s"
  shows "hash_insert t k v s = Inl IndexRange"
  using assms hash_function_range(3)[of k] by (simp add: hash_insert_def Let_def exec_simps)

primrec remove_key :: "'k \<Rightarrow> ('k \<times> 'v) list \<Rightarrow> ('k \<times> 'v) list" where
  "remove_key k [] = []"
| "remove_key k (p # ps) = (if fst p = k then ps else p # remove_key k ps)"

primrec replace_key :: "'k \<Rightarrow> 'v \<Rightarrow> ('k \<times> 'v) list \<Rightarrow> ('k \<times> 'v) list" where
  "replace_key k v [] = []"
| "replace_key k v (p # ps) = (if fst p = k then (k, v) # ps else p # replace_key k v ps)"

lemma keys_found:
  assumes "\<forall>x\<in>set us. fst x \<noteq> k"
  shows "remove_key k (us @ (k, v) # ws) = us @ ws" "replace_key k w (us @ (k, v) # ws) = us @ (k, w) # ws"
    "map_of (us @ (k, v) # ws) k = Some v"
proof -
  have "map_of us k = None" using assms by (auto simp: map_of_eq_None_iff)
  with assms show "remove_key k (us @ (k, v) # ws) = us @ ws"
    "replace_key k w (us @ (k, v) # ws) = us @ (k, w) # ws" "map_of (us @ (k, v) # ws) k = Some v"
    by (induction us) (auto simp: map_add_def)
qed

lemma keys_absent:
  assumes "k \<notin> fst ` set ps"
  shows "remove_key k ps = ps" "replace_key k v ps = ps" "map_of ps k = None"
  using assms by (induction ps) (auto simp: map_of_eq_None_iff)

lemma remove_key_subset: "set (remove_key k ps) \<subseteq> set ps"
  by (induction ps) auto

text \<open>The two outcomes of the search that most operations make.\<close>

lemma hash_search:
  assumes "hash_rep F t s kvs" and "0 \<le> hash_function k" and "i = nat (hash_function k)"
  obtains (absent) q where "k \<notin> fst ` set (kvs i)"
      "\<And>l. walk_list hnext (\<lambda>n. hkey n = k) (buckets s t i) (s\<lparr>locks := l\<rparr>) = Inr ((q, NULL), s\<lparr>locks := l\<rparr>)"
  | (found) xss us a n ws where "forest hnext (buckets s t) 10 s xss F" "\<forall>i<10. map kv (xss i) = kvs i"
      "xss i = us @ (a, n) # ws" "hkey n = k" "\<forall>x\<in>set us. hkey (snd x) \<noteq> k" "a \<noteq> NULL" "cells s a = Some n"
      "\<And>l. walk_list hnext (\<lambda>n. hkey n = k) (buckets s t i) (s\<lparr>locks := l\<rparr>) =
         Inr ((last_ptr NULL us, a), s\<lparr>locks := l\<rparr>)"
      "kvs i = map kv us @ (k, hvalue n) # map kv ws"
proof -
  from assms(1) obtain xss where r:
    "forest hnext (buckets s t) 10 s xss F" "\<forall>i<10. map kv (xss i) = kvs i" by (rule hash_repE)
  have i: "i < 10" using assms(2,3) hash_function_range(1)[of k] by auto
  from forest_owns[OF r(1) i] show thesis
  proof (cases rule: walk_cases[where stop = "\<lambda>n. hkey n = k"])
    case absent
    moreover have "k \<notin> fst ` set (kvs i)" using absent(1) r(2)[rule_format, OF i, symmetric] by auto
    ultimately show thesis by (intro that(1)[of "last_ptr NULL (xss i)"]) auto
  next
    case (found us a n ws)
    then show thesis using r(2)[rule_format, OF i] by (intro that(2)[OF r found(1,2,3,4,5,6)]) auto
  qed
qed

lemma hash_get_ok:
  assumes "hash_rep F t s kvs" and "0 \<le> hash_function k" and "i = nat (hash_function k)"
  shows "hash_get t k s = Inr (case map_of (kvs i) k of None \<Rightarrow> - 1 | Some v \<Rightarrow> v, s)"
proof -
  have l: "locks s t = Free" using assms(1) by (rule hash_repE)
  have i: "hash_function k = int i" "i < 10" using assms(2,3) hash_function_range(1)[of k] by auto
  from assms show ?thesis
  proof (cases rule: hash_search)
    case absent
    with l i keys_absent(3)[OF absent(1)] show ?thesis
      by (simp add: hash_get_def Let_def exec_simps)
  next
    case (found xss us a n ws)
    have "map_of (kvs i) k = Some (hvalue n)"
      unfolding found(9) by (rule keys_found(3)) (use found(5) in auto)
    with l i found show ?thesis by (simp add: hash_get_def Let_def exec_simps)
  qed
qed

lemma hash_update_ok:
  assumes "hash_rep F t s kvs" and "0 \<le> hash_function k" and "i = nat (hash_function k)"
  shows "\<exists>s'. hash_update t k v s = Inr ((), s') \<and> hash_rep F t s' (kvs(i := replace_key k v (kvs i))) \<and> room s' = room s"
proof -
  have l: "locks s t = Free" "ht_size s t = int (entries kvs)" "int (room s + entries kvs) \<le> INT_MAX"
    "\<forall>i<10. \<forall>p\<in>set (kvs i). hash_function (fst p) = int i" using assms(1) by (auto elim: hash_repE)
  have i: "hash_function k = int i" "i < 10" using assms(2,3) hash_function_range(1)[of k] by auto
  from assms show ?thesis
  proof (cases rule: hash_search)
    case absent
    with l i keys_absent(2)[OF absent(1)] assms(1) show ?thesis
      by (simp add: hash_update_def Let_def exec_simps)
  next
    case (found xss us a n ws)
    let ?n = "n\<lparr>hvalue := v\<rparr>"
    let ?s = "s\<lparr>cells := (cells s)(a \<mapsto> ?n)\<rparr>"
    have "replace_key k v (kvs i) = map kv us @ (k, v) # map kv ws"
      unfolding found(9) by (rule keys_found(2)) (use found(5) in auto)
    then have kvs: "map kv (us @ (a, ?n) # ws) = replace_key k v (kvs i)" using found(4) by simp
    have "hash_update t k v s = Inr ((), ?s)"
      using l i found(4,6,7,8) by (simp add: hash_update_def Let_def exec_simps)
    moreover have "owns hnext ?s (buckets ?s t i) (us @ (a, ?n) # ws) (beside s (xss i))"
      using hnode.owns_update[of s "buckets s t i" us a n ws "beside s (xss i)" ?n ?s]
        forest_owns[OF found(1) i(2)] found(3) by simp
    then have "hash_rep F t ?s (kvs(i := map kv (us @ (a, ?n) # ws)))"
      by (rule hash_rep_update[OF found(1,2) l(4) i(2)])
        (use l i found(4,9) entries_upd[OF i(2), of kvs "map kv (us @ (a, ?n) # ws)"] in auto)
    ultimately show ?thesis using kvs by simp
  qed
qed

lemma delete_from_hash_ok:
  assumes "hash_rep F t s kvs" and "0 \<le> hash_function k" and "i = nat (hash_function k)"
  shows "\<exists>s'. delete_from_hash t k s = Inr (k \<in> fst ` set (kvs i), s') \<and>
     hash_rep F t s' (kvs(i := remove_key k (kvs i))) \<and>
     room s' = room s + (if k \<in> fst ` set (kvs i) then 1 else 0)"
proof -
  have l: "locks s t = Free" "ht_size s t = int (entries kvs)" "int (room s + entries kvs) \<le> INT_MAX"
    "\<forall>i<10. \<forall>p\<in>set (kvs i). hash_function (fst p) = int i" using assms(1) by (auto elim: hash_repE)
  have i: "hash_function k = int i" "i < 10" using assms(2,3) hash_function_range(1)[of k] by auto
  from assms show ?thesis
  proof (cases rule: hash_search)
    case absent
    with l i keys_absent(1)[OF absent(1)] assms(1) show ?thesis
      by (simp add: delete_from_hash_def Let_def exec_simps)
  next
    case (found xss us a n ws)
    note o = forest_owns[OF found(1) i(2)]
    have "remove_key k (kvs i) = map kv us @ map kv ws"
      unfolding found(9) by (rule keys_found(1)) (use found(5) in auto)
    then have kvs: "remove_key k (kvs i) = map kv (us @ ws)" by simp
    have k: "k \<in> fst ` set (kvs i)" using found(9) by force
    have tot: "Suc (entries (kvs(i := map kv (us @ ws)))) = entries kvs"
      using entries_upd[OF i(2), of kvs "map kv (us @ ws)"] found(9) by simp
    have hf: "\<forall>p\<in>set (map kv (us @ ws)). hash_function (fst p) = int i"
      using l(4)[rule_format, OF i(2)] unfolding found(9) by auto
    have r: "int_range (int (entries kvs) - 1)" using l(3) by (simp add: int_range_defs)
    show ?thesis
    proof (cases us rule: rev_cases)
      case Nil
      let ?s = "s\<lparr>buckets := (buckets s)(t := (buckets s t)(i := hnext n)), cells := (cells s)(a := None),
         room := Suc (room s), ht_size := (ht_size s)(t := int (entries kvs) - 1)\<rparr>"
      have run: "delete_from_hash t k s = Inr (True, ?s)"
        using l i r found(4,6,7,8) Nil by (simp add: delete_from_hash_def Let_def exec_simps)
      have "owns hnext ?s (buckets ?s t i) ws (beside s (xss i))"
        using hnode.owns_delete_first[of s "buckets s t i" a n ws "beside s (xss i)" ?s] o found(3) Nil by simp
      then have "hash_rep F t ?s (kvs(i := map kv ws))"
        by (rule hash_rep_update[OF found(1,2) l(4) i(2)]) (use l i found(9) tot Nil in auto)
      with run k kvs Nil show ?thesis by simp
    next
      case (snoc us' y)
      obtain b m where y: "y = (b, m)" by (cases y)
      have b: "b \<noteq> NULL" "cells s b = Some m" "a \<noteq> b"
        using owns_mem[of hnext s "buckets s t i" us' b m "(a, n) # ws" "beside s (xss i)"] o found(3) snoc y
          chain_distinct[OF owns_chain[OF o]] by auto
      let ?m = "m\<lparr>hnext := hnext n\<rparr>"
      let ?s = "s\<lparr>cells := (cells s)(b \<mapsto> ?m, a := None), room := Suc (room s),
         ht_size := (ht_size s)(t := int (entries kvs) - 1)\<rparr>"
      have run: "delete_from_hash t k s = Inr (True, ?s)"
        using l i r found(4,6,7,8) b snoc y by (simp add: delete_from_hash_def Let_def exec_simps)
      have eq: "map kv (us' @ (b, ?m) # ws) = map kv (us @ ws)" using snoc y by simp
      have "owns hnext ?s (buckets ?s t i) (us' @ (b, ?m) # ws) (beside s (xss i))"
        using hnode.owns_delete_after[of s "buckets s t i" us' b m a n ws "beside s (xss i)" ?s] o found(3) snoc y by simp
      then have "hash_rep F t ?s (kvs(i := map kv (us' @ (b, ?m) # ws)))"
        by (rule hash_rep_update[OF found(1,2) l(4) i(2)]) (use l i hf tot in \<open>auto simp: eq simp del: map_append set_map\<close>)
      then have "hash_rep F t ?s (kvs(i := remove_key k (kvs i)))" unfolding kvs eq .
      with run k show ?thesis by simp
    qed
  qed
qed

lemma hash_size_ok: "hash_rep F t s kvs \<Longrightarrow> hash_size t s = Inr (int (entries kvs), s)"
  by (auto elim!: hash_repE simp: hash_size_def exec_simps)

lemma hash_is_empty_ok: "hash_rep F t s kvs \<Longrightarrow> hash_is_empty t s = Inr (entries kvs = 0, s)"
  using hash_size_ok[of F t s kvs] by (simp add: hash_is_empty_def exec_simps)

text \<open>Loops over the buckets.\<close>

lemma upto_upt: "[0..TABLE_SIZE - 1] = map int [0..<10]"
  by (simp add: TABLE_SIZE_def upto.simps upt_rec)

lemma show_bucket_ok:
  assumes "forest hnext (buckets s t) 10 s xss F" and "i < 10"
  shows "show_bucket t (int i) s = Inr ((), s\<lparr>out := out s @ (''Bucket %d: '', [int i]) #
     map (\<lambda>p. (''(%d, %d) -> '', [fst p, snd p])) (map kv (xss i)) @ [(''NULL\<newline>'', [])]\<rparr>)"
proof -
  let ?t = "s\<lparr>out := out s @ [(''Bucket %d: '', [int i])]\<rparr>"
  have "owns hnext ?t (buckets s t i) (xss i) (beside s (xss i))"
    using forest_owns[OF assms] by simp
  then have "visit_list hnext (\<lambda>n _. printf ''(%d, %d) -> '' [hkey n, hvalue n]) (buckets s t i) () ?t =
      Inr ((), ?t\<lparr>out := out ?t @ map (\<lambda>x. (''(%d, %d) -> '', [hkey (snd x), hvalue (snd x)])) (xss i)\<rparr>)"
    by (rule visit_list_print) simp
  with assms(2) show ?thesis by (simp add: show_bucket_def exec_simps comp_def)
qed

lemma show_buckets_ok:
  assumes "forest hnext (buckets s t) 10 s xss F" and "\<forall>i\<in>set is. i < 10"
  shows "for_each (map int is) (show_bucket t) s =
     Inr ((), s\<lparr>out := out s @ concat (map (\<lambda>i. (''Bucket %d: '', [int i]) #
        map (\<lambda>p. (''(%d, %d) -> '', [fst p, snd p])) (map kv (xss i)) @ [(''NULL\<newline>'', [])]) is)\<rparr>)"
  using assms
proof (induction "is" arbitrary: s)
  case Nil
  then show ?case by (simp add: exec_simps)
next
  case (Cons i "is")
  let ?u = "s\<lparr>out := out s @ (''Bucket %d: '', [int i]) #
     map (\<lambda>p. (''(%d, %d) -> '', [fst p, snd p])) (map kv (xss i)) @ [(''NULL\<newline>'', [])]\<rparr>"
  have "forest hnext (buckets ?u t) 10 ?u xss F" using Cons.prems(1) by (simp add: forest_def)
  from Cons.IH[OF this] Cons.prems show_bucket_ok[OF Cons.prems(1), of i] show ?case
    by (simp add: exec_simps)
qed

definition shown :: "(nat \<Rightarrow> (int \<times> int) list) \<Rightarrow> (string \<times> int list) list" where
  "shown kvs = concat (map (\<lambda>i. (''Bucket %d: '', [int i]) #
     map (\<lambda>p. (''(%d, %d) -> '', [fst p, snd p])) (kvs i) @ [(''NULL\<newline>'', [])]) [0..<10])"

lemma hash_display_ok:
  assumes "hash_rep F t s kvs"
  shows "hash_display t s = Inr ((), s\<lparr>out := out s @ shown kvs\<rparr>)"
proof -
  from assms(1) obtain xss where r: "locks s t = Free" "forest hnext (buckets s t) 10 s xss F"
    "\<forall>i<10. map kv (xss i) = kvs i" by (rule hash_repE)
  let ?t = "s\<lparr>locks := (locks s)(t := Held)\<rparr>"
  have "forest hnext (buckets ?t t) 10 ?t xss F" using r(2) by (simp add: forest_def)
  from show_buckets_ok[OF this, of "[0..<10]"] r(1)
  have "hash_display t s = Inr ((), s\<lparr>out := out s @ concat (map (\<lambda>i. (''Bucket %d: '', [int i]) #
        map (\<lambda>p. (''(%d, %d) -> '', [fst p, snd p])) (map kv (xss i)) @ [(''NULL\<newline>'', [])]) [0..<10])\<rparr>)"
    unfolding hash_display_def upto_upt by (simp add: exec_simps del: upt_Suc for_each.simps map_map)
  also have "concat (map (\<lambda>i. (''Bucket %d: '', [int i]) #
        map (\<lambda>p. (''(%d, %d) -> '', [fst p, snd p])) (map kv (xss i)) @ [(''NULL\<newline>'', [])]) [0..<10]) = shown kvs"
    unfolding shown_def using r(3) by (intro arg_cong[where f = concat] map_cong) (auto simp del: map_map)
  finally show ?thesis .
qed

lemma hash_clear_loop:
  assumes "forest hnext (buckets s t) 10 s xss F" and "\<forall>i\<in>set is. i < 10"
  shows "\<exists>s' xss'. for_each (map int is) (clear_bucket t) s = Inr ((), s') \<and>
     forest hnext (buckets s' t) 10 s' xss' F \<and> (\<forall>i<10. xss' i = (if i \<in> set is then [] else xss i)) \<and>
     locks s' = locks s \<and> out s' = out s \<and> room s' + (\<Sum>i<10. length (xss' i)) = room s + (\<Sum>i<10. length (xss i))"
  using assms
proof (induction "is" arbitrary: s xss)
  case Nil
  then show ?case by (auto simp: exec_simps)
next
  case (Cons i "is")
  have i: "i < 10" using Cons.prems by simp
  let ?B = "beside s (xss i)"
  let ?s = "s\<lparr>cells := ?B, room := room s + length (xss i), buckets := (buckets s)(t := (buckets s t)(i := NULL))\<rparr>"
  note o = forest_owns[OF Cons.prems(1) i]
  have run: "clear_bucket t (int i) s = Inr ((), ?s)"
    using release_list_spec[OF o] i by (simp add: clear_bucket_def exec_simps)
  have "owns hnext ?s NULL [] ?B" by (rule owns_released[OF o]) simp_all
  from forest_update[OF Cons.prems(1) i this] have f: "forest hnext (buckets ?s t) 10 ?s (xss(i := [])) F" by simp
  from Cons.IH[OF f] Cons.prems(2) obtain s' xss' where
    r: "for_each (map int is) (clear_bucket t) ?s = Inr ((), s')"
      "forest hnext (buckets s' t) 10 s' xss' F" "\<forall>j<10. xss' j = (if j \<in> set is then [] else (xss(i := [])) j)"
      "locks s' = locks s" "out s' = out s"
      "room s' + (\<Sum>j<10. length (xss' j)) = room s + length (xss i) + entries (xss(i := []))"
    by (auto simp: entries_def)
  have "entries (xss(i := [])) + length (xss i) = entries xss" using entries_upd[OF i, of xss "[]"] by simp
  with r run show ?case by (intro exI[of _ s'] exI[of _ xss']) (auto simp: exec_simps entries_def)
qed

lemma hash_clear_ok:
  assumes "hash_rep F t s kvs"
  shows "\<exists>s'. hash_clear t s = Inr ((), s') \<and> hash_rep F t s' (\<lambda>_. []) \<and> cells s' = F \<and>
     room s' = room s + entries kvs \<and> out s' = out s"
proof -
  from assms(1) obtain xss where r: "locks s t = Free" "forest hnext (buckets s t) 10 s xss F"
    "\<forall>i<10. map kv (xss i) = kvs i" "int (room s + entries kvs) \<le> INT_MAX" by (rule hash_repE)
  let ?t = "s\<lparr>locks := (locks s)(t := Held)\<rparr>"
  have "forest hnext (buckets ?t t) 10 ?t xss F" using r(2) by (simp add: forest_def)
  from hash_clear_loop[OF this, of "[0..<10]"] obtain s' xss' where
    c: "for_each (map int [0..<10]) (clear_bucket t) ?t = Inr ((), s')"
      "forest hnext (buckets s' t) 10 s' xss' F" "\<forall>i<10. xss' i = []" "locks s' = (locks s)(t := Held)" "out s' = out s"
      "room s' + (\<Sum>i<10. length (xss' i)) = room s + (\<Sum>i<10. length (xss i))" by auto
  have "length (xss i) = length (kvs i)" if "i < 10" for i using r(3) that by (metis length_map)
  then have room: "room s' = room s + entries kvs" using c(3,6) by (simp add: entries_def)
  let ?u = "s'\<lparr>ht_size := (ht_size s')(t := 0), locks := locks s\<rparr>"
  have "hash_clear t s = Inr ((), ?u)"
    using c(1,4) r(1) unfolding hash_clear_def upto_upt by (simp add: exec_simps del: upt_Suc for_each.simps)
  moreover have "forest hnext (buckets s' t) 10 ?u xss' F" using c(2) forest_cong[of ?u s'] by simp
  then have "hash_rep F t ?u (\<lambda>_. [])"
    unfolding hash_rep_def using c(3) r(1,4) room by (intro conjI exI[of _ xss']) (simp_all add: entries_def)
  moreover have "cells s' = F" using c(2,3) by (auto simp: forest_def)
  ultimately show ?thesis using c(5) room by simp
qed

lemma init_buckets:
  "\<forall>i\<in>set is. 0 \<le> i \<and> i < 10 \<Longrightarrow> \<exists>s'. for_each is (\<lambda>i. set_bucket t i NULL) s = Inr ((), s') \<and>
     s' = s\<lparr>buckets := (buckets s)(t := (\<lambda>i. if int i \<in> set is then NULL else buckets s t i))\<rparr>"
proof (induction "is" arbitrary: s)
  case Nil
  then show ?case by (simp add: exec_simps)
next
  case (Cons i "is")
  have "(\<lambda>j. if int j \<in> set is then NULL else ((buckets s t)(nat i := NULL)) j) =
      (\<lambda>j. if int j \<in> set (i # is) then NULL else buckets s t j)"
    using Cons.prems by (auto simp: fun_eq_iff)
  with Cons show ?case by (simp add: exec_simps cong: if_cong)
qed

lemma init_hash_table_ok:
  assumes "int r \<le> INT_MAX"
  shows "\<exists>s. init_hash_table 0 (hash_boot r j) = Inr ((), s) \<and> hash_rep Map.empty 0 s (\<lambda>_. []) \<and> room s = r"
proof -
  let ?s = "(hash_boot r j)\<lparr>ht_size := (ht_size (hash_boot r j))(0 := 0), locks := (\<lambda>_. Uninit)(0 := Free)\<rparr>"
  let ?u = "?s\<lparr>buckets := (buckets ?s)(0 := (\<lambda>i. if int i \<in> set (map int [0..<10]) then NULL else buckets ?s 0 i))\<rparr>"
  have "for_each [0..TABLE_SIZE - 1] (\<lambda>i. set_bucket 0 i NULL) ?s = Inr ((), ?u)"
    unfolding upto_upt using init_buckets[of "map int [0..<10]" 0 ?s] by (auto simp del: upt_Suc for_each.simps)
  then have "init_hash_table 0 (hash_boot r j) = Inr ((), ?u)"
    by (simp add: init_hash_table_def exec_simps hash_boot_def world.defs boot_def del: upt_Suc for_each.simps)
  moreover have "hash_rep Map.empty 0 ?u (\<lambda>_. [])"
    unfolding hash_rep_def using assms
    by (intro conjI exI[of _ "\<lambda>_. []"])
      (auto simp: entries_def forest_def hash_boot_def world.defs boot_def wf_world_def simp del: upt_Suc)
  moreover have "room ?u = r" by (simp add: hash_boot_def world.defs boot_def)
  ultimately show ?thesis by blast
qed

section \<open>The table as one stack of values per key\<close>

text \<open>The abstract state: for every key the values stored under it, latest first.\<close>

definition stacks :: "(nat \<Rightarrow> (int \<times> int) list) \<Rightarrow> int \<Rightarrow> int list" where
  "stacks kvs k = (if 0 \<le> hash_function k
     then map snd (filter (\<lambda>p. fst p = k) (kvs (nat (hash_function k)))) else [])"

lemma stacks_other:
  assumes "hash_function k = int i" and "i < 10" and "k' \<noteq> k" and "filter (\<lambda>p. fst p \<noteq> k) ys = filter (\<lambda>p. fst p \<noteq> k) (kvs i)"
  shows "stacks (kvs(i := ys)) k' = stacks kvs k'"
proof -
  have "filter (\<lambda>p. fst p = k') zs = filter (\<lambda>p. fst p = k') (filter (\<lambda>p. fst p \<noteq> k) zs)" for zs :: "(int \<times> int) list"
    using assms(3) by (auto intro: filter_cong)
  then have "filter (\<lambda>p. fst p = k') ys = filter (\<lambda>p. fst p = k') (kvs i)" using assms(4) by metis
  then show ?thesis by (simp add: stacks_def)
qed

lemma map_of_filter: "map_of ps k = (case filter (\<lambda>p. fst p = k) ps of [] \<Rightarrow> None | p # _ \<Rightarrow> Some (snd p))"
  by (induction ps) auto

lemma remove_key_filter:
  "filter (\<lambda>p. fst p = k) (remove_key k ps) = tl (filter (\<lambda>p. fst p = k) ps)"
  "filter (\<lambda>p. fst p \<noteq> k) (remove_key k ps) = filter (\<lambda>p. fst p \<noteq> k) ps"
  by (induction ps) auto

lemma replace_key_filter:
  "map snd (filter (\<lambda>p. fst p = k) (replace_key k v ps)) = (case map snd (filter (\<lambda>p. fst p = k) ps) of [] \<Rightarrow> [] | _ # vs \<Rightarrow> v # vs)"
  "filter (\<lambda>p. fst p \<noteq> k) (replace_key k v ps) = filter (\<lambda>p. fst p \<noteq> k) ps"
  by (induction ps) auto


lemma hash_rep_boot:
  "int r \<le> INT_MAX \<Longrightarrow> hash_rep Map.empty 0 ((hash_boot r j)\<lparr>locks := (\<lambda>_. Free)\<rparr>) (\<lambda>_. [])"
  unfolding hash_rep_def
  by (intro conjI exI[of _ "\<lambda>_. []"]) (auto simp: entries_def forest_def hash_boot_def world.defs boot_def wf_world_def)

definition hnode0 :: hnode where
  "hnode0 = \<lparr>hkey = 0, hvalue = 0, hnext = NULL\<rparr>"


text \<open>A negative key that is not a multiple of ten makes every keyed operation of \<^verbatim>\<open>hash.h\<close>
  access the bucket array outside its bounds, because \<^verbatim>\<open>%\<close> of C keeps the sign.\<close>

theorem hash_negative_key:
  assumes "hash_rep F t s kvs" and "0 < room s" and "k < 0" and "k mod 10 \<noteq> 0"
  shows "hash_insert t k v s = Inl IndexRange \<and> hash_get t k s = Inl IndexRange \<and>
     hash_update t k v s = Inl IndexRange \<and> delete_from_hash t k s = Inl IndexRange \<and> hash_contains t k s = Inl IndexRange"
proof -
  from assms(1) obtain xss where r: "locks s t = Free" "forest hnext (buckets s t) 10 s xss F" by (rule hash_repE)
  have "hash_function k < 0" using hash_function_range(3)[of k] assms(3,4) by auto
  with r(1) assms(2) forest_wf[OF r(2)] show ?thesis
    by (simp add: hash_insert_def hash_get_def hash_update_def delete_from_hash_def hash_contains_def Let_def exec_simps)
qed

theorem hash_negative_key_witness:
  "hash_insert 0 (- 7) 1 ((hash_boot 3 hnode0)\<lparr>locks := (\<lambda>_. Free)\<rparr>) = Inl IndexRange"
  using hash_negative_key[OF hash_rep_boot, of 3 hnode0 "- 7" 1]
  by (simp add: INT_MAX_def hash_boot_def world.defs boot_def)

text \<open>\<^verbatim>\<open>merge\<close> of \<^verbatim>\<open>hash.h\<close> never returns: with an entry in the other table
  it calls \<^verbatim>\<open>insert\<close>, which locks the mutex \<^verbatim>\<open>merge\<close> already holds; with an empty one
  it ends by locking, instead of unlocking, the mutex it holds.\<close>

theorem hash_merge_deadlocks:
  assumes "hash_rep F t s kvs" and "hash_rep G u s lvs" and "t \<noteq> u"
  shows "hash_merge t u s = Inl MutexDeadlock"
proof -
  have l: "locks s t = Free" "locks s u = Free" using assms(1,2) by (auto elim: hash_repE)
  from assms(2) obtain yss where r: "forest hnext (buckets s u) 10 s yss G" by (rule hash_repE)
  let ?s = "s\<lparr>locks := (locks s)(t := Held, u := Held)\<rparr>"
  let ?body = "\<lambda>i. bnd (get_bucket u i) (\<lambda>current. visit_list hnext (\<lambda>n _. hash_insert t (hkey n) (hvalue n)) current ())"
  have body: "?body (int i) ?s = Inl MutexDeadlock \<or> ?body (int i) ?s = Inr ((), ?s)" if "i < 10" for i
  proof (cases "yss i")
    case Nil
    then have "buckets s u i = NULL" using forest_owns[OF r that] by simp
    with that show ?thesis by (simp add: exec_simps visit_list_def)
  next
    case (Cons y ys)
    then have "buckets s u i \<noteq> NULL" "cells s (buckets s u i) = Some (snd y)"
      using owns_Cons[of hnext s "buckets s u i" y ys] forest_owns[OF r that] by auto
    with that assms(3) show ?thesis by (simp add: exec_simps visit_list_def hash_insert_def Let_def)
  qed
  have "for_each (map int is) ?body ?s = Inl MutexDeadlock \<or> for_each (map int is) ?body ?s = Inr ((), ?s)"
    if "\<forall>i\<in>set is. i < 10" for "is"
    using that
  proof (induction "is")
    case Nil
    then show ?case by (simp add: exec_simps)
  next
    case (Cons i "is")
    then show ?case using body[of i] by (auto simp: exec_simps)
  qed
  from this[of "[0..<10]"] have "for_each [0..TABLE_SIZE - 1] ?body ?s = Inl MutexDeadlock \<or>
      for_each [0..TABLE_SIZE - 1] ?body ?s = Inr ((), ?s)" unfolding upto_upt by simp
  with l assms(3) show ?thesis by (auto simp: hash_merge_def exec_simps)
qed

theorem hash_merge_deadlocks_witness:
  "hash_merge 0 1 ((hash_boot 3 hnode0)\<lparr>locks := (\<lambda>_. Free)\<rparr>) = Inl MutexDeadlock"
proof (rule hash_merge_deadlocks)
  show "hash_rep Map.empty 0 ((hash_boot 3 hnode0)\<lparr>locks := (\<lambda>_. Free)\<rparr>) (\<lambda>_. [])"
    "hash_rep Map.empty 1 ((hash_boot 3 hnode0)\<lparr>locks := (\<lambda>_. Free)\<rparr>) (\<lambda>_. [])"
    unfolding hash_rep_def
    by (intro conjI exI[of _ "\<lambda>_. []"];
      auto simp: entries_def forest_def hash_boot_def world.defs boot_def wf_world_def INT_MAX_def)+
qed simp

section \<open>The program of hash.c\<close>

definition keys_of :: "(nat \<Rightarrow> (int \<times> int) list) \<Rightarrow> int list" where
  "keys_of kvs = concat (map (\<lambda>i. map fst (kvs i)) [0..<10])"

lemma mset_keys_of: "mset (keys_of kvs) = (\<Sum>i<10. mset (map fst (kvs i)))"
  by (simp add: keys_of_def mset_concat interv_sum_list_conv_sum_set_nat atLeast0LessThan comp_def del: upt_Suc)

lemma keys_of_upd:
  assumes "i < 10"
  shows "mset (keys_of (kvs(i := ys))) + mset (map fst (kvs i)) = mset (keys_of kvs) + mset (map fst ys)"
proof -
  let ?R = "\<Sum>j\<in>{..<10} - {i}. mset (map fst (kvs j))"
  have "mset (keys_of (kvs(i := ys))) = mset (map fst ys) + ?R"
    unfolding mset_keys_of using assms by (subst sum.remove[of _ i]) (auto intro: sum.cong)
  moreover have "mset (keys_of kvs) = mset (map fst (kvs i)) + ?R"
    unfolding mset_keys_of using assms by (subst sum.remove[of _ i]) auto
  ultimately show ?thesis by simp
qed

lemma set_keys_of: "k \<in> set (keys_of kvs) \<longleftrightarrow> (\<exists>i<10. k \<in> fst ` set (kvs i))"
  by (auto simp: keys_of_def)

text \<open>The keys in the table of \<^verbatim>\<open>hash.c\<close>, whose values are all between 0 and 99.\<close>

definition hash_keys :: "hash_world \<Rightarrow> int list \<Rightarrow> bool" where
  "hash_keys s ks \<longleftrightarrow> (\<exists>kvs. hash_rep Map.empty 0 s kvs \<and> ks = keys_of kvs \<and>
     (\<forall>i<10. \<forall>p\<in>set (kvs i). 0 \<le> fst p \<and> 0 \<le> snd p \<and> snd p < 100))"

interpretation hsh: monitor hash_keys
  by unfold_locales (auto simp: hash_keys_def)

lemma hash_keysE:
  assumes "hash_keys s ks" and "0 \<le> k" and "k \<in> set ks"
  obtains kvs i v where "hash_rep Map.empty 0 s kvs" "ks = keys_of kvs" "i = nat (hash_function k)" "i < 10"
    "0 \<le> hash_function k" "map_of (kvs i) k = Some v" "0 \<le> v" "v < 100" "k \<in> fst ` set (kvs i)"
    "\<forall>i<10. \<forall>p\<in>set (kvs i). 0 \<le> fst p \<and> 0 \<le> snd p \<and> snd p < 100"
proof -
  from assms(1) obtain kvs where r: "hash_rep Map.empty 0 s kvs" "ks = keys_of kvs"
    "\<forall>i<10. \<forall>p\<in>set (kvs i). 0 \<le> fst p \<and> 0 \<le> snd p \<and> snd p < 100" by (auto simp: hash_keys_def)
  then obtain i where i: "i < 10" "k \<in> fst ` set (kvs i)" using assms(3) by (auto simp: set_keys_of)
  have h: "\<forall>i<10. \<forall>p\<in>set (kvs i). hash_function (fst p) = int i" using r(1) by (rule hash_repE)
  then have "hash_function k = int i" using i by auto
  moreover obtain v where v: "map_of (kvs i) k = Some v" using i(2) by (metis map_of_eq_None_iff not_None_eq)
  moreover have "0 \<le> v \<and> v < 100" using r(3)[rule_format, OF i(1) map_of_SomeD[OF v]] by simp
  ultimately show thesis using r i by (intro that[of kvs i v]) auto
qed

lemma hash_insert_keys:
  assumes "hash_keys s ks" and "0 < room s" and "0 \<le> k" and "0 \<le> v" and "v < 100"
  shows "\<exists>a s' ks'. hash_insert 0 k v s = Inr (a, s') \<and> hash_keys s' ks' \<and> mset ks' = add_mset k (mset ks) \<and> room s' = room s - 1"
proof -
  from assms(1) obtain kvs where r: "hash_rep Map.empty 0 s kvs" "ks = keys_of kvs"
    "\<forall>i<10. \<forall>p\<in>set (kvs i). 0 \<le> fst p \<and> 0 \<le> snd p \<and> snd p < 100" by (auto simp: hash_keys_def)
  let ?i = "nat (hash_function k)"
  let ?kvs = "kvs(?i := (k, v) # kvs ?i)"
  have h: "0 \<le> hash_function k" "?i < 10" using hash_function_range[of k] assms(3) by auto
  from hash_insert_ok[OF r(1) h(1) assms(2) refl, of v] obtain s' where
    s': "hash_insert 0 k v s = Inr ((), s')" "hash_rep Map.empty 0 s' ?kvs" "room s' = room s - 1" by blast
  have "hash_keys s' (keys_of ?kvs)" unfolding hash_keys_def using s'(2) r(3) assms(3-5)
    by (intro exI[of _ ?kvs]) auto
  moreover have "mset (keys_of ?kvs) = add_mset k (mset ks)"
    using keys_of_upd[OF h(2), of kvs "(k, v) # kvs ?i"] r(2) by simp
  ultimately show ?thesis using s' by blast
qed

lemma hash_read_keys:
  assumes "hash_keys s ks" and "0 \<le> k" and "k \<in> set ks"
  shows "hash_contains 0 k s = Inr (True, s)" and "\<exists>v. hash_get 0 k s = Inr (v, s)"
proof -
  from assms obtain kvs i v where r: "hash_rep Map.empty 0 s kvs" "i = nat (hash_function k)"
    "0 \<le> hash_function k" "map_of (kvs i) k = Some v" "0 \<le> v" by (rule hash_keysE)
  from hash_get_ok[OF r(1,3,2)] r(4) have "hash_get 0 k s = Inr (v, s)" by simp
  with r(5) show "hash_contains 0 k s = Inr (True, s)" "\<exists>v. hash_get 0 k s = Inr (v, s)"
    by (auto simp: hash_contains_def exec_simps)
qed

lemma hash_delete_keys:
  assumes "hash_keys s ks" and "0 \<le> k" and "k \<in> set ks"
  shows "\<exists>a s' ks'. delete_from_hash 0 k s = Inr (a, s') \<and> hash_keys s' ks' \<and> mset ks = add_mset k (mset ks') \<and>
     room s' = Suc (room s)"
proof -
  from assms obtain kvs i v where r: "hash_rep Map.empty 0 s kvs" "ks = keys_of kvs" "i = nat (hash_function k)"
    "i < 10" "0 \<le> hash_function k" "k \<in> fst ` set (kvs i)"
    "\<forall>i<10. \<forall>p\<in>set (kvs i). 0 \<le> fst p \<and> 0 \<le> snd p \<and> snd p < 100" by (rule hash_keysE)
  let ?kvs = "kvs(i := remove_key k (kvs i))"
  from delete_from_hash_ok[OF r(1,5,3)] r(6) obtain s' where
    s': "delete_from_hash 0 k s = Inr (True, s')" "hash_rep Map.empty 0 s' ?kvs" "room s' = Suc (room s)" by auto
  have "hash_keys s' (keys_of ?kvs)" unfolding hash_keys_def using s'(2) r(7) remove_key_subset[of k "kvs i"]
    by (intro exI[of _ ?kvs]) auto
  moreover have "k \<in> fst ` set ps \<Longrightarrow> mset (map fst ps) = add_mset k (mset (map fst (remove_key k ps)))"
    for ps :: "(int \<times> int) list"
    by (induction ps) auto
  then have "mset ks = add_mset k (mset (keys_of ?kvs))"
    using keys_of_upd[OF r(4), of kvs "remove_key k (kvs i)"] r(2,6) by simp
  ultimately show ?thesis using s' by blast
qed

text \<open>Each thread inserts thirty entries and deletes an entry with its last key again.\<close>

lemma hash_thread_tok:
  assumes "\<forall>i. 0 \<le> kr i" and "\<forall>i. 0 \<le> vr i"
  shows "tok hsh.held (\<lambda>g. g = inserted (map kr [0..<29]) 1) (replicate_mset 30 Budget) (hash_thread_func tid kr vr)"
proof -
  let ?Q = "\<lambda>g. g = inserted (map kr [0..<29]) 1"
  let ?G = "\<lambda>is. inserted (map kr is) (30 - length is)"
  have "[0..<30] = [0..<29] @ [29 :: nat]" using upt_Suc_append[of 0 29] by simp
  then have all: "inserted (map kr [0..<30]) 0 = add_mset (Item (kr 29)) (inserted (map kr [0..<29]) 0)"
    by (simp del: upt_Suc mset_upt)
  let ?tail = "let key = kr 29 in
      atomic (hash_contains 0 key) (\<lambda>b.
      if b then
        atomic (hash_get 0 key) (\<lambda>v.
        atomic (printf ''Thread %d read: (%d, %d) from the hash table\<newline>'' [tid, key, v]) (\<lambda>_.
        atomic (delete_from_hash 0 key) (\<lambda>_.
        atomic (printf ''Thread %d deleted: (%d) from the hash table\<newline>'' [tid, key]) (\<lambda>_. Done))))
      else Done)"
  have del: "tok hsh.held ?Q (add_mset (Item (kr 29)) (inserted (map kr [0..<29]) 0)) (atomic (delete_from_hash 0 (kr 29))
      (\<lambda>_. atomic (printf f xs) (\<lambda>_. Done)))" for f xs
    by (rule hsh.tok_drop_held, rule hash_delete_keys)
      (use assms(1) in \<open>auto intro!: hsh.tok_print_held tok_done simp: numeral_eq_Suc\<close>)
  have fin: "tok hsh.held ?Q (inserted (map kr [0..<30]) 0) ?tail"
    unfolding Let_def
  proof (rule hsh.tok_keep_held[where P = "\<lambda>b. b"])
    fix s vs
    assume s: "hash_keys s vs" "\<forall>v. Item v \<in># inserted (map kr [0..<30]) 0 \<longrightarrow> v \<in> set vs"
    then have "kr 29 \<in> set vs" using all by auto
    with hash_read_keys(1)[OF s(1)] assms(1) s(1)
    show "\<exists>a s' vs'. hash_contains 0 (kr 29) s = Inr (a, s') \<and> a \<and> hash_keys s' vs' \<and> mset vs' = mset vs \<and> room s' = room s"
      by auto
  next
    fix b :: bool
    assume "b"
    have "tok hsh.held ?Q (inserted (map kr [0..<30]) 0) (atomic (hash_get 0 (kr 29)) (\<lambda>v.
        atomic (printf ''Thread %d read: (%d, %d) from the hash table\<newline>'' [tid, kr 29, v]) (\<lambda>_.
        atomic (delete_from_hash 0 (kr 29)) (\<lambda>_.
        atomic (printf ''Thread %d deleted: (%d) from the hash table\<newline>'' [tid, kr 29]) (\<lambda>_. Done)))))"
    proof (rule hsh.tok_keep_held[where P = "\<lambda>_. True"])
      fix s vs
      assume s: "hash_keys s vs" "\<forall>v. Item v \<in># inserted (map kr [0..<30]) 0 \<longrightarrow> v \<in> set vs"
      then have "kr 29 \<in> set vs" using all by auto
      with hash_read_keys(2)[OF s(1)] assms(1) s(1)
      show "\<exists>a s' vs'. hash_get 0 (kr 29) s = Inr (a, s') \<and> True \<and> hash_keys s' vs' \<and> mset vs' = mset vs \<and> room s' = room s"
        by blast
    qed (unfold all, intro hsh.tok_print_held del)
    with \<open>b\<close> show "tok hsh.held ?Q (inserted (map kr [0..<30]) 0) (if b then atomic (hash_get 0 (kr 29)) (\<lambda>v.
        atomic (printf ''Thread %d read: (%d, %d) from the hash table\<newline>'' [tid, kr 29, v]) (\<lambda>_.
        atomic (delete_from_hash 0 (kr 29)) (\<lambda>_.
        atomic (printf ''Thread %d deleted: (%d) from the hash table\<newline>'' [tid, kr 29]) (\<lambda>_. Done)))) else Done)"
      by simp
  qed
  have "tok hsh.held ?Q (?G []) (hash_thread_func tid kr vr)"
    unfolding hash_thread_func_def
  proof (rule tok_for[where G = ?G])
    fix ys zs and i :: nat and t
    assume eq: "[0..<30] = ys @ i # zs" and t: "tok hsh.held ?Q (?G (ys @ [i])) t"
    have "length [0..<30] = length ys + Suc (length zs)" unfolding eq by simp
    then have n: "30 - length ys = Suc (30 - length (ys @ [i]))" by simp
    have "tok hsh.held ?Q (add_mset Budget (inserted (map kr ys) (30 - length (ys @ [i]))))
       (atomic (hash_insert 0 (kr i) (crem (vr i) 100)) (\<lambda>_.
       atomic (printf ''Thread %d inserted: (%d, %d) into the hash table\<newline>'' [tid, kr i, crem (vr i) 100]) (\<lambda>_. t)))"
    proof (rule hsh.tok_put_held)
      show "\<exists>a s' vs'. hash_insert 0 (kr i) (crem (vr i) 100) s = Inr (a, s') \<and> hash_keys s' vs' \<and>
          mset vs' = add_mset (kr i) (mset vs) \<and> room s' = room s - 1" if "hash_keys s vs" "0 < room s" for s vs
        using that assms by (intro hash_insert_keys) (auto simp: crem_def)
    qed (use t in \<open>auto intro!: hsh.tok_print_held\<close>)
    then show "tok hsh.held ?Q (?G ys) (atomic (hash_insert 0 (kr i) (crem (vr i) 100)) (\<lambda>_.
       atomic (printf ''Thread %d inserted: (%d, %d) into the hash table\<newline>'' [tid, kr i, crem (vr i) 100]) (\<lambda>_. t)))"
      unfolding n by simp
  qed (use fin in simp)
  then show ?thesis by simp
qed

text \<open>C35: \<^verbatim>\<open>hash/hash.c\<close>: with the non-negative numbers that \<^verbatim>\<open>rand\<close> returns and memory for 60
  nodes, every interleaving of the two threads ends without a fault. Each thread finds the key it inserted
  last, whatever the other one does, and deletes one entry of it, so the table that \<^verbatim>\<open>display\<close>
  prints has exactly the first 29 keys of both threads, each in its bucket; then every node is released.\<close>

theorem hash_main_ok:
  assumes "60 \<le> r" and "int r \<le> INT_MAX" and "\<forall>t i. 0 \<le> kr t i" and "\<forall>t i. 0 \<le> vr t i"
  shows "\<exists>s' kvs log. hash_main sched tid kr vr (hash_boot r j) = Inr (0, s') \<and> out s' = log @ shown kvs \<and>
     mset (keys_of kvs) = mset (map (kr 0) [0..<29] @ map (kr 1) [0..<29]) \<and>
     (\<forall>i<10. \<forall>p\<in>set (kvs i). fst p mod 10 = int i) \<and> cells s' = Map.empty"
proof -
  from init_hash_table_ok[OF assms(2), of j] obtain s where
    s: "init_hash_table 0 (hash_boot r j) = Inr ((), s)" "hash_rep Map.empty 0 s (\<lambda>_. [])" "room s = r" by blast
  have "hash_keys s []" using s(2) by (auto simp: hash_keys_def keys_of_def intro!: exI[of _ "\<lambda>_. []"])
  then have "hsh.held (replicate_mset 30 Budget + replicate_mset 30 Budget) s"
    unfolding hsh.held_def replicate_mset_add using s(3) assms(1) by (intro exI[of _ "[]"]) (simp add: ledger_start)
  from run_two[OF hash_thread_tok[of "kr 0" "vr 0" "tid 0"] hash_thread_tok[of "kr 1" "vr 1" "tid 1"] this, of sched] assms(3,4)
  obtain s1 where 1: "run_threads sched [hash_thread_func (tid 0) (kr 0) (vr 0), hash_thread_func (tid 1) (kr 1) (vr 1)] s =
      Inr ((), s1)" "hsh.held (inserted (map (kr 0) [0..<29]) 1 + inserted (map (kr 1) [0..<29]) 1) s1" by auto
  then obtain ks where ks: "hash_keys s1 ks"
    "ledger (inserted (map (kr 0) [0..<29]) 1 + inserted (map (kr 1) [0..<29]) 1) s1 (mset ks) Map.empty"
    by (auto simp: hsh.held_def)
  have "mset ks = mset (map (kr 0) [0..<29] @ map (kr 1) [0..<29])"
    using ks(2) by (intro multiset_eqI) (simp add: ledger_def del: upt_Suc)
  moreover from ks(1) obtain kvs where kvs: "hash_rep Map.empty 0 s1 kvs" "ks = keys_of kvs"
    "\<forall>i<10. \<forall>p\<in>set (kvs i). 0 \<le> fst p \<and> 0 \<le> snd p \<and> snd p < 100" by (auto simp: hash_keys_def)
  moreover have "\<forall>i<10. \<forall>p\<in>set (kvs i). hash_function (fst p) = int i" using kvs(1) by (rule hash_repE)
  with kvs(3) have "\<forall>i<10. \<forall>p\<in>set (kvs i). fst p mod 10 = int i" using hash_function_range(2) by metis
  moreover have "hash_rep Map.empty 0 (s1\<lparr>out := out s1 @ shown kvs\<rparr>) kvs" using kvs(1) by simp
  from hash_clear_ok[OF this] obtain s2 where
    "hash_clear 0 (s1\<lparr>out := out s1 @ shown kvs\<rparr>) = Inr ((), s2)" "cells s2 = Map.empty" "out s2 = out s1 @ shown kvs"
    "room s2 = room s1 + entries kvs" by auto
  ultimately show ?thesis using s 1(1) hash_display_ok[OF kvs(1)]
    by (intro exI[of _ s2] exI[of _ kvs] exI[of _ "out s1"]) (simp add: hash_main_def exec_simps del: upt_Suc)
qed

theorem hash_main_ok_witness:
  "\<exists>s' kvs log. hash_main [1, 0, 0, 1] int (\<lambda>t i. int (7 * i + t)) (\<lambda>t i. int i) (hash_boot 60 \<lparr>hkey = 0, hvalue = 0, hnext = NULL\<rparr>) = Inr (0, s') \<and>
     out s' = log @ shown kvs \<and>
     mset (keys_of kvs) = mset (map (\<lambda>i. int (7 * i + 0)) [0..<29] @ map (\<lambda>i. int (7 * i + 1)) [0..<29]) \<and>
     (\<forall>i<10. \<forall>p\<in>set (kvs i). fst p mod 10 = int i) \<and> cells s' = Map.empty"
  by (rule hash_main_ok) (simp_all add: int_range_defs)

end
