(* ===== verification/PrioQueue.thy ===== *)
theory PrioQueue
  imports Bags
begin

text \<open>
  \<^verbatim>\<open>ThreadTrove/priorityQueue\<close>: a list of (data, priority) nodes kept in ascending order of
  priority under one mutex. Insertion goes behind the elements of equal priority, so equal priorities leave
  in the order of their insertion; extraction takes the head.
\<close>

section \<open>priorityQueue/priorityQueue.h\<close>

record pnode =
  pdata :: int
  ppriority :: int
  pnext :: ptr

record pq_world = "pnode world" +
  pq_head :: ptr

definition pq_boot :: "nat \<Rightarrow> pnode \<Rightarrow> pq_world" where
  "pq_boot r j = world.extend (boot r j) \<lparr>pq_head = NULL\<rparr>"

definition pq_newNode :: "int \<Rightarrow> int \<Rightarrow> (pq_world, ptr) exec" where
  "pq_newNode d pr =
     bnd pmalloc (\<lambda>temp.
     seq (assign temp (\<lambda>n. n\<lparr>pdata := d\<rparr>))
     (seq (assign temp (\<lambda>n. n\<lparr>ppriority := pr\<rparr>))
     (seq (assign temp (\<lambda>n. n\<lparr>pnext := NULL\<rparr>))
     (ret temp))))"

definition pq_init :: "(pq_world, unit) exec" where
  "pq_init = seq (modify (\<lambda>s. s\<lparr>pq_head := NULL\<rparr>)) (pthread_mutex_init 0)"

definition pq_insert :: "int \<Rightarrow> int \<Rightarrow> (pq_world, unit) exec" where
  "pq_insert d pr =
     seq (pthread_mutex_lock 0)
     (bnd (pq_newNode d pr) (\<lambda>temp.
     bnd (gets pq_head) (\<lambda>hd.
     bnd (if hd = NULL then ret True else bnd (deref hd) (\<lambda>n. ret (pr < ppriority n))) (\<lambda>before.
     seq (if before then
            seq (assign temp (\<lambda>n. n\<lparr>pnext := hd\<rparr>)) (modify (\<lambda>s. s\<lparr>pq_head := temp\<rparr>))
          else
            bnd (walk_ahead pnext (\<lambda>n. \<not> ppriority n \<le> pr) hd) (\<lambda>start.
            bnd (deref start) (\<lambda>n.
            seq (assign temp (\<lambda>m. m\<lparr>pnext := pnext n\<rparr>))
            (assign start (\<lambda>m. m\<lparr>pnext := temp\<rparr>)))))
     (seq (printf ''Inserted %d with priority %d into the priority queue\<newline>'' [d, pr])
     (pthread_mutex_unlock 0))))))"

definition pq_extract_min :: "(pq_world, int) exec" where
  "pq_extract_min =
     seq (pthread_mutex_lock 0)
     (bnd (gets pq_head) (\<lambda>temp.
     if temp = NULL then
       seq (printf ''Priority queue underflow\<newline>'' [])
       (seq (pthread_mutex_unlock 0) (ret (- 1)))
     else
       bnd (deref temp) (\<lambda>n.
       seq (modify (\<lambda>s. s\<lparr>pq_head := pnext n\<rparr>))
       (seq (free temp)
       (seq (printf ''Extracted %d from the priority queue\<newline>'' [pdata n])
       (seq (pthread_mutex_unlock 0) (ret (pdata n))))))))"

definition pq_peek :: "(pq_world, int) exec" where
  "pq_peek =
     seq (pthread_mutex_lock 0)
     (bnd (gets pq_head) (\<lambda>hd.
     if hd = NULL then
       seq (printf ''Priority queue is empty\<newline>'' [])
       (seq (pthread_mutex_unlock 0) (ret (- 1)))
     else bnd (deref hd) (\<lambda>n. seq (pthread_mutex_unlock 0) (ret (pdata n)))))"

definition pq_is_empty :: "(pq_world, bool) exec" where
  "pq_is_empty =
     seq (pthread_mutex_lock 0)
     (bnd (gets pq_head) (\<lambda>hd. seq (pthread_mutex_unlock 0) (ret (hd = NULL))))"

definition pq_size :: "(pq_world, int) exec" where
  "pq_size =
     seq (pthread_mutex_lock 0)
     (bnd (gets pq_head) (\<lambda>temp.
     bnd (visit_list pnext (\<lambda>_ size. cint (size + 1)) temp 0) (\<lambda>size.
     seq (pthread_mutex_unlock 0) (ret size))))"

definition pq_clear :: "(pq_world, unit) exec" where
  "pq_clear =
     seq (pthread_mutex_lock 0)
     (bnd (gets pq_head) (\<lambda>temp.
     seq (release_list pnext temp)
     (seq (modify (\<lambda>s. s\<lparr>pq_head := NULL\<rparr>))
     (pthread_mutex_unlock 0))))"

definition pq_destroy :: "(pq_world, unit) exec" where
  "pq_destroy = seq pq_clear (pthread_mutex_destroy 0)"

section \<open>priorityQueue/priorityQueue.c\<close>

text \<open>\<open>vr i\<close> is the number that \<^verbatim>\<open>rand\<close> returns in round \<open>i\<close>.\<close>

definition pq_thread_func :: "(nat \<Rightarrow> int) \<Rightarrow> pq_world thread" where
  "pq_thread_func vr =
     t_for [0..<10] (\<lambda>i k. let value = crem (vr i) 10 in atomic (pq_insert value value) (\<lambda>_. k))
     (atomic pq_extract_min (\<lambda>_. Done))"

primrec pq_drain :: "nat \<Rightarrow> (pq_world, unit) exec" where
  "pq_drain 0 = raise Diverges"
| "pq_drain (Suc k) =
     bnd pq_is_empty (\<lambda>e.
     if e then ret ()
     else bnd pq_extract_min (\<lambda>v. seq (printf ''%d\<newline>'' [v]) (pq_drain k)))"

text \<open>The loop of \<^verbatim>\<open>main\<close> releases a node in each round: it cannot run more often than there are nodes.\<close>

definition pq_main :: "nat list \<Rightarrow> (nat \<Rightarrow> nat \<Rightarrow> int) \<Rightarrow> (pq_world, int) exec" where
  "pq_main sched vr =
     seq pq_init
     (seq (pq_insert 15 15)
     (seq (pq_insert 5 5)
     (seq (pq_insert 30 30)
     (seq (run_threads sched [pq_thread_func (vr 0), pq_thread_func (vr 1)])
     (bnd pq_size (\<lambda>n.
     seq (printf ''Final priority queue size: %d\<newline>'' [n])
     (bnd (gets fresh) (\<lambda>k.
     seq (pq_drain k)
     (seq pq_destroy (ret 0))))))))))"

section \<open>The representation\<close>

interpretation pnode: linked pnext "\<lambda>p n. n\<lparr>pnext := p\<rparr>" "\<lambda>n. (pdata n, ppriority n)"
  by unfold_locales simp_all

abbreviation pv :: "ptr \<times> pnode \<Rightarrow> int \<times> int" where
  "pv x \<equiv> (pdata (snd x), ppriority (snd x))"

definition pq_rep :: "(ptr \<rightharpoonup> pnode) \<Rightarrow> pq_world \<Rightarrow> (int \<times> int) list \<Rightarrow> bool" where
  "pq_rep F s ps \<longleftrightarrow> locks s 0 = Free \<and> int (room s + length ps) \<le> INT_MAX \<and> sorted (map snd ps) \<and>
     (\<exists>xs. owns pnext s (pq_head s) xs F \<and> ps = map pv xs)"

lemma pq_repE:
  assumes "pq_rep F s ps"
  obtains xs where "locks s 0 = Free" "int (room s + length ps) \<le> INT_MAX" "sorted (map snd ps)"
    "owns pnext s (pq_head s) xs F" "ps = map pv xs"
  using assms unfolding pq_rep_def by blast

lemma pq_repI:
  "owns pnext s (pq_head s) xs F \<Longrightarrow> ps = map pv xs \<Longrightarrow> locks s 0 = Free \<Longrightarrow> int (room s + length ps) \<le> INT_MAX \<Longrightarrow>
   sorted (map snd ps) \<Longrightarrow> pq_rep F s ps"
  unfolding pq_rep_def by blast

lemma pq_rep_out [simp]: "pq_rep F (out_update f s) ps = pq_rep F s ps"
  by (simp add: pq_rep_def)

lemma owns_pq [simp]: "owns nx (pq_head_update f s) p xs F = owns nx s p xs F"
  by (rule owns_cong) simp_all

text \<open>Where an element is filed: behind everything of smaller or equal priority.\<close>

definition enlist :: "int \<times> int \<Rightarrow> (int \<times> int) list \<Rightarrow> (int \<times> int) list" where
  "enlist x ps = takeWhile (\<lambda>y. snd y \<le> snd x) ps @ x # dropWhile (\<lambda>y. snd y \<le> snd x) ps"

lemma mset_enlist [simp]: "mset (enlist x ps) = add_mset x (mset ps)"
  unfolding enlist_def by (induction ps) auto

lemma length_enlist [simp]: "length (enlist x ps) = Suc (length ps)"
  by (metis mset_enlist size_add_mset size_mset)

lemma enlist_simps:
  "enlist x [] = [x]"
  "enlist x (y # ps) = (if snd y \<le> snd x then y # enlist x ps else x # y # ps)"
  by (simp_all add: enlist_def)

lemma set_enlist [simp]: "set (enlist x ps) = insert x (set ps)"
  by (metis mset_enlist set_mset_add_mset_insert set_mset_mset)

lemma sorted_enlist: "sorted (map snd ps) \<Longrightarrow> sorted (map snd (enlist x ps))"
  by (induction ps) (auto simp: enlist_simps)

section \<open>Functional behaviour\<close>

lemma pq_insert_ok:
  assumes "pq_rep F s ps" and "0 < room s"
  shows "\<exists>s'. pq_insert d pr s = Inr ((), s') \<and> pq_rep F s' (enlist (d, pr) ps) \<and> room s' = room s - 1 \<and>
     out s' = out s @ [(''Inserted %d with priority %d into the priority queue\<newline>'', [d, pr])]"
proof -
  from assms(1) obtain xs where r: "locks s 0 = Free" "int (room s + length ps) \<le> INT_MAX" "sorted (map snd ps)"
    "owns pnext s (pq_head s) xs F" "ps = map pv xs" by (rule pq_repE)
  note wf = owns_wf[OF r(4)]
  have ok: "sorted (map snd (enlist (d, pr) ps))" "int (room s - 1 + length (enlist (d, pr) ps)) \<le> INT_MAX"
    using r(2,3) assms(2) sorted_enlist by auto
  let ?m = "\<lambda>q. (junk s)\<lparr>pdata := d, ppriority := pr, pnext := q\<rparr>"
  let ?o = "out s @ [(''Inserted %d with priority %d into the priority queue\<newline>'', [d, pr])]"
  let ?before = "xs = [] \<or> pr < ppriority (snd (hd xs))"
  show ?thesis
  proof (cases ?before)
    case True
    let ?s = "s\<lparr>cells := (cells s)(fresh s \<mapsto> ?m (pq_head s)), fresh := Suc (fresh s), room := room s - 1,
        pq_head := fresh s, out := ?o\<rparr>"
    have "pq_head s = NULL \<or> (pq_head s \<noteq> NULL \<and> (\<exists>n. cells s (pq_head s) = Some n \<and> pr < ppriority n))"
      using True owns_Cons[of pnext s "pq_head s" "hd xs" "tl xs" F] r(4) owns_null_iff[OF r(4)] by (cases xs) auto
    then have run: "pq_insert d pr s = Inr ((), ?s)"
      using r(1) assms(2) wf wf_world_dom[OF wf, of "pq_head s"]
      by (auto simp: pq_insert_def pq_newNode_def exec_simps)
    have o: "owns pnext ?s (pq_head ?s) ((fresh s, ?m (pq_head s)) # xs) F"
      using pnode.owns_insert_first[OF r(4), of "?m (pq_head s)" ?s] by simp
    have "enlist (d, pr) ps = map pv ((fresh s, ?m (pq_head s)) # xs)"
      using True r(5) by (cases xs) (auto simp: enlist_def)
    with o have "pq_rep F ?s (enlist (d, pr) ps)" by (rule pq_repI) (use r(1) ok in simp_all)
    with run show ?thesis by simp
  next
    case False
    then obtain x ys where xs: "xs = x # ys" "ppriority (snd x) \<le> pr" by (cases xs) auto
    let ?stop = "\<lambda>n. \<not> ppriority n \<le> pr"
    let ?us = "x # skipped ?stop ys" and ?ws = "rest ?stop ys"
    obtain vs a n where us: "?us = vs @ [(a, n)]" by (metis list.distinct(1) rev_exhaust surj_pair)
    have ys: "xs = vs @ (a, n) # ?ws" using us xs by (metis append.assoc append_Cons append_Nil takeWhile_dropWhile_id)
    have a: "a \<noteq> NULL" "cells s a = Some n" "a \<noteq> fresh s"
      using owns_mem[of pnext s "pq_head s" vs a n ?ws F] r(4) ys owns_fresh[OF r(4)] by auto
    have x: "pq_head s \<noteq> NULL" "cells s (pq_head s) = Some (snd x)" "pq_head s \<noteq> fresh s" "fst x = pq_head s"
      using owns_Cons[of pnext s "pq_head s" x ys F] r(4) xs wf_world_fresh_cell[OF wf] by auto
    let ?t = "s\<lparr>locks := (locks s)(0 := Held), fresh := Suc (fresh s), room := room s - 1, cells := (cells s)(fresh s \<mapsto> ?m NULL)\<rparr>"
    have "owns pnext ?t (pq_head s) (x # ys) (F(fresh s \<mapsto> ?m NULL))"
      using owns_alloc[of pnext s "pq_head s" xs F ?t "?m NULL"] r(4) xs by simp
    from walk_ahead_spec[OF this, of ?stop] have w: "walk_ahead pnext ?stop (pq_head s) ?t = Inr (a, ?t)"
      using us x(4) by (metis fst_conv last_ptr_simps(2,3))
    let ?s = "s\<lparr>cells := (cells s)(fresh s \<mapsto> ?m (pnext n), a \<mapsto> n\<lparr>pnext := fresh s\<rparr>), fresh := Suc (fresh s),
        room := room s - 1, out := ?o\<rparr>"
    have run: "pq_insert d pr s = Inr ((), ?s)"
      using r(1) assms(2) wf w a x xs(2)
      by (simp add: pq_insert_def pq_newNode_def exec_simps)
    have o: "owns pnext ?s (pq_head ?s) (vs @ (a, n\<lparr>pnext := fresh s\<rparr>) # (fresh s, ?m (pnext n)) # ?ws) F"
      using pnode.owns_insert_after[of s "pq_head s" vs a n ?ws F "?m (pnext n)" ?s] r(4) ys by simp
    have "enlist (d, pr) ps = map pv ?us @ (d, pr) # map pv ?ws"
      using xs r(5) by (simp add: enlist_def takeWhile_map dropWhile_map comp_def)
    then have "enlist (d, pr) ps = map pv (vs @ (a, n\<lparr>pnext := fresh s\<rparr>) # (fresh s, ?m (pnext n)) # ?ws)"
      unfolding us by simp
    with o have "pq_rep F ?s (enlist (d, pr) ps)" by (rule pq_repI) (use r(1) ok in simp_all)
    with run show ?thesis by simp
  qed
qed

lemma pq_extract_min_ok:
  assumes "pq_rep F s ((d, pr) # ps)"
  shows "\<exists>s'. pq_extract_min s = Inr (d, s') \<and> pq_rep F s' ps \<and> room s' = Suc (room s) \<and> fresh s' = fresh s \<and>
     out s' = out s @ [(''Extracted %d from the priority queue\<newline>'', [d])]"
proof -
  from assms obtain xs where r: "locks s 0 = Free" "int (room s + length ((d, pr) # ps)) \<le> INT_MAX"
    "sorted (map snd ((d, pr) # ps))" "owns pnext s (pq_head s) xs F" "(d, pr) # ps = map pv xs" by (rule pq_repE)
  then obtain a n ys where xs: "xs = (a, n) # ys" "pdata n = d" "ps = map pv ys" by (cases xs) auto
  have a: "pq_head s = a" "a \<noteq> NULL" "cells s a = Some n" using owns_Cons[of pnext s "pq_head s" "(a, n)" ys F] r(4) xs by auto
  let ?s = "s\<lparr>pq_head := pnext n, cells := (cells s)(a := None), room := Suc (room s),
     out := out s @ [(''Extracted %d from the priority queue\<newline>'', [d])]\<rparr>"
  have "pq_extract_min s = Inr (d, ?s)" using r(1) a xs(2) by (simp add: pq_extract_min_def exec_simps)
  moreover have "owns pnext ?s (pq_head ?s) ys F"
    using pnode.owns_delete_first[of s "pq_head s" a n ys F ?s] r(4) xs by simp
  then have "pq_rep F ?s ps" by (rule pq_repI[OF _ xs(3)]) (use r(1-3) in simp_all)
  ultimately show ?thesis by simp
qed

lemma pq_empty_ops:
  assumes "pq_rep F s []"
  shows "pq_extract_min s = Inr (- 1, s\<lparr>out := out s @ [(''Priority queue underflow\<newline>'', [])]\<rparr>)"
    and "pq_peek s = Inr (- 1, s\<lparr>out := out s @ [(''Priority queue is empty\<newline>'', [])]\<rparr>)"
  using assms by (auto elim!: pq_repE simp: pq_extract_min_def pq_peek_def exec_simps)

lemma pq_read_ops:
  assumes "pq_rep F s ps"
  shows "pq_is_empty s = Inr (ps = [], s)" and "pq_size s = Inr (int (length ps), s)"
    and "ps \<noteq> [] \<Longrightarrow> pq_peek s = Inr (fst (hd ps), s)"
proof -
  from assms obtain xs where r: "locks s 0 = Free" "int (room s + length ps) \<le> INT_MAX"
    "owns pnext s (pq_head s) xs F" "ps = map pv xs" by (rule pq_repE)
  show "pq_is_empty s = Inr (ps = [], s)"
    using r owns_null_iff[OF r(3)] by (simp add: pq_is_empty_def exec_simps)
  let ?t = "s\<lparr>locks := (locks s)(0 := Held)\<rparr>"
  have "visit_list pnext (\<lambda>_ size. cint (size + 1)) (pq_head s) 0 ?t = Inr (int (length xs), ?t)"
    by (rule visit_list_count[where F = F]) (use r in simp_all)
  with r show "pq_size s = Inr (int (length ps), s)" by (simp add: pq_size_def exec_simps)
  show "pq_peek s = Inr (fst (hd ps), s)" if "ps \<noteq> []"
    using that r owns_Cons[of pnext s "pq_head s" "hd xs" "tl xs" F]
    by (cases xs) (auto simp: pq_peek_def exec_simps)
qed

lemma pq_clear_ok:
  assumes "pq_rep F s ps"
  shows "\<exists>s'. pq_clear s = Inr ((), s') \<and> pq_rep F s' [] \<and> cells s' = F \<and> room s' = room s + length ps \<and> out s' = out s"
proof -
  from assms obtain xs where r: "locks s 0 = Free" "int (room s + length ps) \<le> INT_MAX"
    "owns pnext s (pq_head s) xs F" "ps = map pv xs" by (rule pq_repE)
  let ?t = "s\<lparr>locks := (locks s)(0 := Held)\<rparr>"
  have "owns pnext ?t (pq_head s) xs F" using r(3) by simp
  from release_list_spec[OF this] r(1)
  have "pq_clear s = Inr ((), s\<lparr>cells := F, room := room s + length xs, pq_head := NULL\<rparr>)"
    by (simp add: pq_clear_def exec_simps)
  moreover have "owns pnext (s\<lparr>cells := F, room := room s + length xs, pq_head := NULL\<rparr>) NULL [] F"
    by (rule owns_released[OF r(3)]) simp_all
  ultimately show ?thesis using r by (auto simp: pq_rep_def)
qed

section \<open>The programs\<close>

text \<open>In \<^verbatim>\<open>priorityQueue.c\<close> the priority of an element is the element itself.\<close>

abbreviation self :: "int list \<Rightarrow> (int \<times> int) list" where
  "self vs \<equiv> map (\<lambda>v. (v, v)) vs"

definition pq_holds :: "pq_world \<Rightarrow> int multiset \<Rightarrow> bool" where
  "pq_holds s M \<longleftrightarrow> pq_rep Map.empty s (self (sorted_list_of_multiset M))"

lemma pq_holdsI: "pq_rep Map.empty s (self vs) \<Longrightarrow> mset vs = M \<Longrightarrow> pq_holds s M"
proof -
  assume r: "pq_rep Map.empty s (self vs)" and M: "mset vs = M"
  have "sorted (map snd (self vs))" using r by (rule pq_repE)
  then have "sorted vs" by (simp add: comp_def)
  then have "sorted_list_of_multiset M = vs" using M by (metis sorted_list_of_multiset_mset sorted_sort_id)
  with r show ?thesis by (simp add: pq_holds_def)
qed

lemma enlist_self: "\<exists>ws. enlist (v, v) (self vs) = self ws \<and> mset ws = add_mset v (mset vs)"
proof -
  have "enlist (v, v) (self vs) = self (takeWhile (\<lambda>u. u \<le> v) vs @ v # dropWhile (\<lambda>u. u \<le> v) vs)"
    by (simp add: enlist_def takeWhile_map dropWhile_map comp_def)
  moreover have "mset (takeWhile (\<lambda>u. u \<le> v) vs @ v # dropWhile (\<lambda>u. u \<le> v) vs) = add_mset v (mset vs)"
    by (induction vs) auto
  ultimately show ?thesis by blast
qed

lemma pq_insert_holds:
  assumes "pq_holds s M" and "0 < room s"
  shows "\<exists>s'. pq_insert v v s = Inr ((), s') \<and> pq_holds s' (add_mset v M) \<and> room s' = room s - 1"
proof -
  from pq_insert_ok[of Map.empty s "self (sorted_list_of_multiset M)" v v] assms obtain s' where
    s': "pq_insert v v s = Inr ((), s')" "pq_rep Map.empty s' (enlist (v, v) (self (sorted_list_of_multiset M)))"
      "room s' = room s - 1" by (auto simp: pq_holds_def)
  from enlist_self[of v "sorted_list_of_multiset M"] obtain ws where
    "enlist (v, v) (self (sorted_list_of_multiset M)) = self ws" "mset ws = add_mset v M" by auto
  with s' pq_holdsI[of s' ws] show ?thesis by auto
qed

lemma pq_extract_holds:
  assumes "pq_holds s (add_mset u N)"
  shows "\<exists>v M s'. pq_extract_min s = Inr (v, s') \<and> add_mset u N = add_mset v M \<and> (\<forall>x\<in>#M. v \<le> x) \<and> pq_holds s' M \<and>
     room s' = Suc (room s) \<and> fresh s' = fresh s \<and>
     out s' = out s @ [(''Extracted %d from the priority queue\<newline>'', [v])]"
proof -
  let ?vs = "sorted_list_of_multiset (add_mset u N)"
  have "?vs \<noteq> []" by (metis mset_sorted_list_of_multiset mset_zero_iff add_mset_not_empty)
  then obtain v vs where vs: "?vs = v # vs" by (cases ?vs) auto
  then have m: "add_mset u N = add_mset v (mset vs)" by (metis mset.simps(2) mset_sorted_list_of_multiset)
  have "sorted (v # vs)" using sorted_sorted_list_of_multiset[of "add_mset u N"] vs by simp
  then have "\<forall>x\<in>#mset vs. v \<le> x" by simp
  moreover from assms vs have "pq_rep Map.empty s ((v, v) # self vs)" by (simp add: pq_holds_def)
  from pq_extract_min_ok[OF this] obtain s' where "pq_extract_min s = Inr (v, s')" "pq_rep Map.empty s' (self vs)"
    "room s' = Suc (room s)" "fresh s' = fresh s" "out s' = out s @ [(''Extracted %d from the priority queue\<newline>'', [v])]" by blast
  moreover from this pq_holdsI[of s' vs] have "pq_holds s' (mset vs)" by simp
  ultimately show ?thesis using m by blast
qed

interpretation pqu: claims pq_holds pq_extract_min "\<lambda>v. pq_insert v v"
proof unfold_locales
  show "\<exists>v M s'. pq_extract_min s = Inr (v, s') \<and> add_mset u N = add_mset v M \<and> (\<forall>x\<in>#M. v \<le> x) \<and> pq_holds s' M \<and>
     room s \<le> room s'" if "pq_holds s (add_mset u N)" for s u N
    using pq_extract_holds[OF that] by (auto 0 4)
  show "\<exists>s'. pq_insert v v s = Inr ((), s') \<and> pq_holds s' (add_mset v M) \<and> room s - 1 \<le> room s'"
    if "pq_holds s M" "0 < room s" for s M v
    using pq_insert_holds[OF that, of v] by auto
  show "Suc (room s) \<le> room s'" if "pq_holds s (add_mset u N)" "pq_extract_min s = Inr (v, s')" for s u N v s'
    using pq_extract_holds[OF that(1)] that(2) by auto
qed

text \<open>The ghost of a thread after the insertions \<open>vs\<close>, with \<open>k\<close> still to come.\<close>

abbreviation pq_ghost :: "int list \<Rightarrow> nat \<Rightarrow> pq_token multiset" where
  "pq_ghost vs k \<equiv> image_mset Ins (mset vs) + replicate_mset (length vs) Claim + replicate_mset k Space"

lemma pq_thread_tok:
  assumes "vs = map (\<lambda>i. crem (vr i) 10) [0..<10]"
  shows "tok (pqu.accounted M0)
     (\<lambda>g. \<exists>v. g = image_mset Ins (mset vs) + replicate_mset 9 Claim + {#Took v, Space#})
     (pq_ghost [] 10) (pq_thread_func vr)"
proof -
  let ?Q = "\<lambda>g. \<exists>v. g = image_mset Ins (mset vs) + replicate_mset 9 Claim + {#Took v, Space#}"
  let ?G = "\<lambda>is. pq_ghost (map (\<lambda>i. crem (vr i) 10) is) (10 - length is)"
  have "tok (pqu.accounted M0) ?Q (?G []) (pq_thread_func vr)"
    unfolding pq_thread_func_def Let_def
  proof (rule tok_for[where G = ?G])
    fix ys zs and i :: nat and t
    assume eq: "[0..<10] = ys @ i # zs" and t: "tok (pqu.accounted M0) ?Q (?G (ys @ [i])) t"
    have "length [0..<10] = length ys + Suc (length zs)" unfolding eq by simp
    then have n: "10 - length ys = Suc (10 - length (ys @ [i]))" by simp
    have "tok (pqu.accounted M0) ?Q (add_mset Space (pq_ghost (map (\<lambda>i. crem (vr i) 10) ys) (10 - length (ys @ [i]))))
       (atomic (pq_insert (crem (vr i) 10) (crem (vr i) 10)) (\<lambda>_. t))"
      by (rule pqu.tok_put) (use t in \<open>simp add: ac_simps\<close>)
    then show "tok (pqu.accounted M0) ?Q (?G ys) (atomic (pq_insert (crem (vr i) 10) (crem (vr i) 10)) (\<lambda>_. t))"
      unfolding n by simp
  next
    have "?G [0..<10] = add_mset Claim (image_mset Ins (mset vs) + replicate_mset 9 Claim)"
      using assms by (simp add: numeral_eq_Suc del: upt_Suc)
    moreover have "tok (pqu.accounted M0) ?Q (add_mset Claim (image_mset Ins (mset vs) + replicate_mset 9 Claim))
        (atomic pq_extract_min (\<lambda>_. Done))"
      by (rule pqu.tok_take, rule tok_done) auto
    ultimately show "tok (pqu.accounted M0) ?Q (?G [0..<10]) (atomic pq_extract_min (\<lambda>_. Done))" by metis
  qed
  then show ?thesis by simp
qed

lemma count_Ins [simp]: "count (image_mset Ins M) (Ins v) = count M v" "count (image_mset Ins M) (Took v) = 0"
  "count (image_mset Ins M) Claim = 0"
  by (induction M) auto

lemma pq_accountedE:
  assumes "pqu.accounted M0 (image_mset Ins U + replicate_mset 9 Claim + {#Took v0, Space#} +
       (image_mset Ins V + replicate_mset 9 Claim + {#Took v1, Space#})) s"
  obtains M where "pq_holds s M" "size M = 18 + size M0" "add_mset v0 (add_mset v1 M) = M0 + U + V"
proof -
  let ?G = "image_mset Ins U + replicate_mset 9 Claim + {#Took v0, Space#} +
       (image_mset Ins V + replicate_mset 9 Claim + {#Took v1, Space#})"
  from assms obtain M where M: "pq_holds s M" "count ?G Claim + size M0 = size M"
    "\<forall>v. count ?G (Took v) + count M v = count ?G (Ins v) + count M0 v" unfolding pqu.accounted_def by blast
  have "add_mset v0 (add_mset v1 M) = M0 + U + V"
  proof (rule multiset_eqI)
    fix v
    show "count (add_mset v0 (add_mset v1 M)) v = count (M0 + U + V) v"
      using M(3)[rule_format, of v] by (cases "v = v0"; cases "v = v1") simp_all
  qed
  with M(1,2) show thesis by (intro that[of M]) simp_all
qed

lemma pq_drain_ok:
  assumes "pq_holds s M" and "size M < k"
  shows "\<exists>s'. pq_drain k s = Inr ((), s') \<and> pq_holds s' {#} \<and>
     out s' = out s @ concat (map (\<lambda>v. [(''Extracted %d from the priority queue\<newline>'', [v]), (''%d\<newline>'', [v])]) (sorted_list_of_multiset M))"
  using assms
proof (induction k arbitrary: M s)
  case 0
  then show ?case by simp
next
  case (Suc k)
  have e: "pq_is_empty s = Inr (M = {#}, s)"
    using pq_read_ops(1)[of Map.empty s "self (sorted_list_of_multiset M)"] Suc.prems(1)
    by (auto simp: pq_holds_def) (metis mset_sorted_list_of_multiset mset_zero_iff)
  show ?case
  proof (cases M)
    case empty
    with e Suc.prems show ?thesis by (auto simp: exec_simps)
  next
    case (add u N)
    from pq_extract_holds[of s u N] Suc.prems(1) add obtain v M' s1 where
      1: "pq_extract_min s = Inr (v, s1)" "M = add_mset v M'" "\<forall>x\<in>#M'. v \<le> x" "pq_holds s1 M'"
        "out s1 = out s @ [(''Extracted %d from the priority queue\<newline>'', [v])]" by blast
    let ?s = "s1\<lparr>out := out s1 @ [(''%d\<newline>'', [v])]\<rparr>"
    have "pq_holds ?s M'" using 1(4) by (simp add: pq_holds_def)
    from Suc.IH[OF this] Suc.prems(2) 1(2) obtain s' where 2: "pq_drain k ?s = Inr ((), s')" "pq_holds s' {#}"
      "out s' = out ?s @ concat (map (\<lambda>v. [(''Extracted %d from the priority queue\<newline>'', [v]), (''%d\<newline>'', [v])]) (sorted_list_of_multiset M'))"
      by auto
    have "sorted_list_of_multiset M = v # sorted_list_of_multiset M'"
      unfolding 1(2) using 1(3) by (simp add: insort_is_Cons)
    moreover have "pq_drain (Suc k) s = bnd pq_extract_min (\<lambda>v. seq (printf ''%d\<newline>'' [v]) (pq_drain k)) s"
      using e 1(2) by (simp add: bnd_def)
    ultimately show ?thesis using 1(1,5) 2 by (intro exI[of _ s']) (simp add: exec_simps del: pq_drain.simps)
  qed
qed

lemma pq_init_ok:
  assumes "int r \<le> INT_MAX"
  shows "\<exists>s. pq_init (pq_boot r j) = Inr ((), s) \<and> pq_holds s {#} \<and> room s = r"
  using assms by (simp add: pq_init_def pq_boot_def world.defs boot_def exec_simps pq_holds_def pq_rep_def wf_world_def)

text \<open>C36: \<^verbatim>\<open>priorityQueue/priorityQueue.c\<close>: with memory for 23 nodes, under every interleaving of the two
  threads the program ends without a fault; no extraction finds the queue empty. It reports 21 elements and then
  prints, in ascending order, exactly the values 15, 5, 30 and the ten numbers of each thread but for the two
  values that the threads extracted; every node is released.\<close>

theorem pq_main_ok:
  assumes "23 \<le> r" and "int r \<le> INT_MAX"
  shows "\<exists>s' log v0 v1 vs. pq_main sched vr (pq_boot r j) = Inr (0, s') \<and> sorted vs \<and> length vs = 21 \<and>
     add_mset v0 (add_mset v1 (mset vs)) =
       mset ([15, 5, 30] @ map (\<lambda>i. crem (vr 0 i) 10) [0..<10] @ map (\<lambda>i. crem (vr 1 i) 10) [0..<10]) \<and>
     out s' = log @ (''Final priority queue size: %d\<newline>'', [21]) #
       concat (map (\<lambda>v. [(''Extracted %d from the priority queue\<newline>'', [v]), (''%d\<newline>'', [v])]) vs) \<and>
     cells s' = Map.empty \<and> locks s' 0 = Destroyed"
proof -
  from pq_init_ok[OF assms(2), of j] obtain s where
    s: "pq_init (pq_boot r j) = Inr ((), s)" "pq_holds s {#}" "room s = r" by blast
  from pq_insert_holds[OF s(2), of 15] s(3) assms(1) obtain s1 where
    1: "pq_insert 15 15 s = Inr ((), s1)" "pq_holds s1 {#15#}" "room s1 = r - 1" by auto
  from pq_insert_holds[OF 1(2), of 5] 1(3) assms(1) obtain s2 where
    2: "pq_insert 5 5 s1 = Inr ((), s2)" "pq_holds s2 {#5, 15#}" "room s2 = r - 1 - 1" by auto
  from pq_insert_holds[OF 2(2), of 30] 2(3) assms(1) obtain s3 where
    3: "pq_insert 30 30 s2 = Inr ((), s3)" "pq_holds s3 {#30, 5, 15#}" "room s3 = r - 1 - 1 - 1" by auto
  have "pqu.accounted {#30, 5, 15#} (pq_ghost [] 10 + pq_ghost [] 10) s3"
    by (rule pqu.accountedI[OF 3(2)]) (use 3(3) assms(1) in auto)
  from run_two[OF pq_thread_tok[OF refl, of "{#30, 5, 15#}" "vr 0"] pq_thread_tok[OF refl, of "{#30, 5, 15#}" "vr 1"] this, of sched]
  obtain s4 v0 v1 where 4: "run_threads sched [pq_thread_func (vr 0), pq_thread_func (vr 1)] s3 = Inr ((), s4)"
    "pqu.accounted {#30, 5, 15#} (image_mset Ins (mset (map (\<lambda>i. crem (vr 0 i) 10) [0..<10])) + replicate_mset 9 Claim + {#Took v0, Space#} +
       (image_mset Ins (mset (map (\<lambda>i. crem (vr 1 i) 10) [0..<10])) + replicate_mset 9 Claim + {#Took v1, Space#})) s4"
    by auto
  let ?us = "\<lambda>t. map (\<lambda>i. crem (vr t i) 10) [0..<10]"
  from 4(2) obtain M where "pq_holds s4 M" "size M = 18 + size {#30, 5, 15 :: int#}"
    and mset: "add_mset v0 (add_mset v1 M) = {#30, 5, 15#} + mset (?us 0) + mset (?us 1)"
    by (rule pq_accountedE)
  then have M: "pq_holds s4 M" "size M = 21" by simp_all
  have r4: "pq_rep Map.empty s4 (self (sorted_list_of_multiset M))" using M(1) by (simp add: pq_holds_def)
  have len: "length (sorted_list_of_multiset M) = 21" by (metis M(2) mset_sorted_list_of_multiset size_mset)
  have size: "pq_size s4 = Inr (21, s4)" using pq_read_ops(2)[OF r4] len by simp
  let ?s = "s4\<lparr>out := out s4 @ [(''Final priority queue size: %d\<newline>'', [21])]\<rparr>"
  obtain xs where "owns pnext s4 (pq_head s4) xs Map.empty" "self (sorted_list_of_multiset M) = map pv xs"
    using r4 by (rule pq_repE)
  from owns_bound[OF this(1)] arg_cong[OF this(2), of length] len have k: "size M < fresh s4" using M(2) by simp
  have "pq_holds ?s M" using M(1) by (simp add: pq_holds_def)
  from pq_drain_ok[OF this k] obtain s5 where 5: "pq_drain (fresh s4) ?s = Inr ((), s5)" "pq_holds s5 {#}"
    "out s5 = out ?s @ concat (map (\<lambda>v. [(''Extracted %d from the priority queue\<newline>'', [v]), (''%d\<newline>'', [v])]) (sorted_list_of_multiset M))"
    by blast
  from pq_clear_ok[of Map.empty s5 "[]"] 5(2) obtain s6 where
    6: "pq_clear s5 = Inr ((), s6)" "pq_rep Map.empty s6 []" "cells s6 = Map.empty" "out s6 = out s5" by (auto simp: pq_holds_def)
  have "locks s6 0 = Free" using 6(2) by (rule pq_repE)
  then show ?thesis
    using s(1) 1(1) 2(1) 3(1) 4(1) size 5(1,3) 6(1,3,4) len mset
    by (intro exI[of _ "s6\<lparr>locks := (locks s6)(0 := Destroyed)\<rparr>"] exI[of _ "out s4"] exI[of _ v0] exI[of _ v1]
        exI[of _ "sorted_list_of_multiset M"]) (simp add: pq_main_def pq_destroy_def exec_simps add_mset_commute del: upt_Suc mset_map pq_drain.simps)
qed

theorem pq_main_ok_witness:
  "\<exists>s' log v0 v1 vs. pq_main [0, 1, 0, 1] (\<lambda>t i. int (i + t)) (pq_boot 23 \<lparr>pdata = 0, ppriority = 0, pnext = NULL\<rparr>) = Inr (0, s') \<and>
     sorted vs \<and> length vs = 21 \<and>
     add_mset v0 (add_mset v1 (mset vs)) =
       mset ([15, 5, 30] @ map (\<lambda>i. crem (int (i + 0)) 10) [0..<10] @ map (\<lambda>i. crem (int (i + 1)) 10) [0..<10]) \<and>
     out s' = log @ (''Final priority queue size: %d\<newline>'', [21]) #
       concat (map (\<lambda>v. [(''Extracted %d from the priority queue\<newline>'', [v]), (''%d\<newline>'', [v])]) vs) \<and>
     cells s' = Map.empty \<and> locks s' 0 = Destroyed"
  by (rule pq_main_ok) (simp_all add: int_range_defs)

text \<open>The operations of \<^verbatim>\<open>priorityQueue.h\<close> on any queue: insertion files the element behind those of
  smaller or equal priority and in front of the others, so the list stays sorted and equal priorities are served
  in the order of insertion; peek and extraction return the data of the first element; extraction releases its
  node; the empty queue answers -1 with a message and stays as it is.\<close>

theorem pq_operations:
  assumes "pq_rep F s ps" and "0 < room s"
  shows "(\<exists>s'. pq_insert d pr s = Inr ((), s') \<and> room s' = room s - 1 \<and>
       pq_rep F s' (takeWhile (\<lambda>y. snd y \<le> pr) ps @ (d, pr) # dropWhile (\<lambda>y. snd y \<le> pr) ps)) \<and>
     sorted (map snd ps) \<and> pq_size s = Inr (int (length ps), s) \<and> pq_is_empty s = Inr (ps = [], s) \<and>
     (case ps of
        [] \<Rightarrow> pq_extract_min s = Inr (- 1, s\<lparr>out := out s @ [(''Priority queue underflow\<newline>'', [])]\<rparr>) \<and>
              pq_peek s = Inr (- 1, s\<lparr>out := out s @ [(''Priority queue is empty\<newline>'', [])]\<rparr>)
      | (d0, p0) # ps' \<Rightarrow> pq_peek s = Inr (d0, s) \<and>
              (\<exists>s'. pq_extract_min s = Inr (d0, s') \<and> pq_rep F s' ps' \<and> room s' = Suc (room s)))"
proof (intro conjI)
  show "\<exists>s'. pq_insert d pr s = Inr ((), s') \<and> room s' = room s - 1 \<and>
       pq_rep F s' (takeWhile (\<lambda>y. snd y \<le> pr) ps @ (d, pr) # dropWhile (\<lambda>y. snd y \<le> pr) ps)"
    using pq_insert_ok[OF assms, of d pr] by (auto simp: enlist_def)
  show "sorted (map snd ps)" using assms(1) by (rule pq_repE)
  show "pq_size s = Inr (int (length ps), s)" "pq_is_empty s = Inr (ps = [], s)" by (rule pq_read_ops[OF assms(1)])+
  show "case ps of
        [] \<Rightarrow> pq_extract_min s = Inr (- 1, s\<lparr>out := out s @ [(''Priority queue underflow\<newline>'', [])]\<rparr>) \<and>
              pq_peek s = Inr (- 1, s\<lparr>out := out s @ [(''Priority queue is empty\<newline>'', [])]\<rparr>)
      | (d0, p0) # ps' \<Rightarrow> pq_peek s = Inr (d0, s) \<and>
              (\<exists>s'. pq_extract_min s = Inr (d0, s') \<and> pq_rep F s' ps' \<and> room s' = Suc (room s))"
  proof (cases ps)
    case Nil
    with pq_empty_ops[of F s] assms(1) show ?thesis by simp
  next
    case (Cons x ps')
    obtain d0 p0 where "x = (d0, p0)" by (cases x)
    with Cons pq_extract_min_ok[of F s d0 p0 ps'] pq_read_ops(3)[OF assms(1)] assms(1) show ?thesis by auto
  qed
qed

theorem pq_operations_witness:
  "\<exists>s. pq_rep Map.empty s [(7, 1), (8, 2)] \<and> pq_peek s = Inr (7, s) \<and>
     (\<exists>s'. pq_insert 9 1 s = Inr ((), s') \<and> pq_rep Map.empty s' [(7, 1), (9, 1), (8, 2)])"
proof -
  from pq_init_ok[of 3 "\<lparr>pdata = 0, ppriority = 0, pnext = NULL\<rparr>"] obtain s where
    s: "pq_rep Map.empty s []" "room s = 3" by (auto simp: int_range_defs pq_holds_def)
  from pq_insert_ok[OF s(1), of 8 2] s(2) obtain s1 where 1: "pq_rep Map.empty s1 [(8, 2)]" "room s1 = 2" by (auto simp: enlist_simps)
  from pq_insert_ok[OF 1(1), of 7 1] 1(2) obtain s2 where 2: "pq_rep Map.empty s2 [(7, 1), (8, 2)]" "room s2 = 1" by (auto simp: enlist_simps)
  from pq_operations[OF 2(1), of 9 1] 2 show ?thesis by (intro exI[of _ s2]) auto
qed

end
