(* ===== verification/Arrays.thy ===== *)
theory Arrays
  imports Bags
begin

text \<open>
  Blocks of \<^verbatim>\<open>int\<close>s: a cell of memory is the list of the numbers in the block. Indexing is
  checked against the block, \<^verbatim>\<open>realloc\<close> moves the block and keeps its prefix. Shared by the heap and the
  array programs.
\<close>

record arr_world = "int list world" +
  garbage :: "nat \<Rightarrow> int"

text \<open>A new block of \<open>n\<close> numbers with unspecified contents.\<close>

definition pmalloc_ints :: "int \<Rightarrow> ('z arr_world_scheme, ptr) exec" where
  "pmalloc_ints n s =
     (if room s = 0 then Inr (NULL, s)
      else Inr (fresh s, s\<lparr>cells := (cells s)(fresh s \<mapsto> map (garbage s) [0..<nat n]),
                          fresh := Suc (fresh s), room := room s - 1\<rparr>))"

text \<open>
  The block moves to a new address; when there is no memory, the result is \<^verbatim>\<open>NULL\<close> and the old block
  stays.
\<close>

definition realloc_ints :: "ptr \<Rightarrow> int \<Rightarrow> ('z arr_world_scheme, ptr) exec" where
  "realloc_ints p n s =
     (if p = NULL then pmalloc_ints n s else case cells s p of
        None \<Rightarrow> Inl BadFree
      | Some xs \<Rightarrow>
          if room s = 0 then Inr (NULL, s)
          else Inr (fresh s, s\<lparr>cells := (cells s)(p := None, fresh s \<mapsto> take (nat n) (xs @ map (garbage s) [0..<nat n])),
                              fresh := Suc (fresh s)\<rparr>))"

definition read_at :: "ptr \<Rightarrow> int \<Rightarrow> ('z arr_world_scheme, int) exec" where
  "read_at p i = bnd (deref p) (\<lambda>xs. if 0 \<le> i \<and> nat i < length xs then ret (xs ! nat i) else raise IndexRange)"

definition write_at :: "ptr \<Rightarrow> int \<Rightarrow> int \<Rightarrow> ('z arr_world_scheme, unit) exec" where
  "write_at p i v =
     bnd (deref p) (\<lambda>xs. if 0 \<le> i \<and> nat i < length xs then assign p (\<lambda>xs. xs[nat i := v]) else raise IndexRange)"

lemma pmalloc_ints_ok [exec_simps]:
  "0 < room s \<Longrightarrow> pmalloc_ints n s = Inr (fresh s, s\<lparr>cells := (cells s)(fresh s \<mapsto> map (garbage s) [0..<nat n]),
     fresh := Suc (fresh s), room := room s - 1\<rparr>)"
  by (simp add: pmalloc_ints_def)

lemma read_at_ok [exec_simps]:
  "p \<noteq> NULL \<Longrightarrow> cells s p = Some xs \<Longrightarrow> 0 \<le> i \<Longrightarrow> nat i < length xs \<Longrightarrow> read_at p i s = Inr (xs ! nat i, s)"
  by (simp add: read_at_def exec_simps)

lemma write_at_ok [exec_simps]:
  "p \<noteq> NULL \<Longrightarrow> cells s p = Some xs \<Longrightarrow> 0 \<le> i \<Longrightarrow> nat i < length xs \<Longrightarrow>
   write_at p i v s = Inr ((), s\<lparr>cells := (cells s)(p \<mapsto> xs[nat i := v])\<rparr>)"
  by (simp add: write_at_def exec_simps)

text \<open>Exchanging two elements of a prefix.\<close>

lemma mset_take_swap:
  assumes "i < n" "j < n" "n \<le> length xs"
  shows "mset (take n (xs[i := xs ! j, j := xs ! i])) = mset (take n xs)"
proof -
  have "take n (xs[i := xs ! j, j := xs ! i]) = (take n xs)[i := take n xs ! j, j := take n xs ! i]"
    using assms by (simp add: take_update_swap)
  then show ?thesis using mset_swap[of j "take n xs" i] assms by simp
qed

text \<open>The index of a counted loop.\<close>

lemma upto_int_from: "[int i..int n - 1] = map int [i..<n]"
proof (induction n)
  case (Suc n)
  show ?case
  proof (cases "i \<le> n")
    case True
    have "[int i..int (Suc n) - 1] = [int i..int n - 1] @ [int n]" using upto_rec2[of "int i" "int n"] True by simp
    with Suc True show ?thesis by simp
  qed simp
qed simp

lemma upto_int: "[0..int n - 1] = map int [0..<n]"
  using upto_int_from[of 0 n] by simp

end
