(* ===== verification/MinHeap.thy ===== *)
theory MinHeap
  imports Arrays
begin

text \<open>
  \<^verbatim>\<open>ThreadTrove/heap\<close>: a binary min-heap in an array of fixed capacity under one mutex. The loops that
  restore the order (upwards in \<^verbatim>\<open>insertHeap\<close>, downwards in \<^verbatim>\<open>heapify\<close>) are proved to
  terminate and to re-establish the heap order; extraction returns the minimum; insertion into a full heap drops
  the value. \<^verbatim>\<open>extractMin\<close> of a heap with one element reads it after the mutex is released.
\<close>

section \<open>heap/heap.h\<close>

record heap_world = arr_world +
  h_array :: ptr
  h_capacity :: int
  h_size :: int

definition heap_boot :: "nat \<Rightarrow> (nat \<Rightarrow> int) \<Rightarrow> heap_world" where
  "heap_boot r g = arr_world.extend (world.extend (boot r []) \<lparr>garbage = g\<rparr>) \<lparr>h_array = NULL, h_capacity = 0, h_size = 0\<rparr>"

definition h_read :: "int \<Rightarrow> (heap_world, int) exec" where
  "h_read i = bnd (gets h_array) (\<lambda>a. read_at a i)"

definition h_write :: "int \<Rightarrow> int \<Rightarrow> (heap_world, unit) exec" where
  "h_write i v = bnd (gets h_array) (\<lambda>a. write_at a i v)"

text \<open>The heap object is the record; a failing \<^verbatim>\<open>pmalloc\<close> is noticed at its first field.\<close>

definition createHeap :: "int \<Rightarrow> (heap_world, unit) exec" where
  "createHeap cap =
     bnd pmalloc_object (\<lambda>ok.
     if \<not> ok then raise NullDeref
     else
       bnd (pmalloc_ints cap) (\<lambda>a.
       seq (modify (\<lambda>s. s\<lparr>h_array := a\<rparr>))
       (seq (modify (\<lambda>s. s\<lparr>h_capacity := cap\<rparr>))
       (seq (modify (\<lambda>s. s\<lparr>h_size := 0\<rparr>))
       (pthread_mutex_init 0)))))"

definition destroyHeap :: "(heap_world, unit) exec" where
  "destroyHeap =
     bnd (gets h_array) (\<lambda>a.
     seq (free a)
     (seq (pthread_mutex_destroy 0)
     (modify (\<lambda>s. s\<lparr>room := Suc (room s)\<rparr>))))"

text \<open>\<^verbatim>\<open>while (i != 0 && array[(i - 1) / 2] > array[i])\<close>\<close>

primrec sift_up :: "nat \<Rightarrow> int \<Rightarrow> (heap_world, unit) exec" where
  "sift_up 0 i = raise Diverges"
| "sift_up (Suc k) i =
     (if i = 0 then ret ()
      else
        bnd (h_read ((i - 1) div 2)) (\<lambda>p.
        bnd (h_read i) (\<lambda>temp.
        if temp < p then
          seq (h_write i p)
          (seq (h_write ((i - 1) div 2) temp)
          (sift_up k ((i - 1) div 2)))
        else ret ())))"

definition insertHeap :: "int \<Rightarrow> (heap_world, unit) exec" where
  "insertHeap value =
     seq (pthread_mutex_lock 0)
     (bnd (gets h_size) (\<lambda>size.
     bnd (gets h_capacity) (\<lambda>cap.
     if size = cap then
       seq (printf ''Heap overflow\<newline>'' []) (pthread_mutex_unlock 0)
     else
       bnd (cint (size + 1)) (\<lambda>size'.
       seq (modify (\<lambda>s. s\<lparr>h_size := size'\<rparr>))
       (seq (h_write (size' - 1) value)
       (seq (sift_up (Suc (nat (size' - 1))) (size' - 1))
       (pthread_mutex_unlock 0)))))))"

primrec heapify :: "nat \<Rightarrow> int \<Rightarrow> (heap_world, unit) exec" where
  "heapify 0 i = raise Diverges"
| "heapify (Suc k) i =
     bnd (cint (2 * i + 1)) (\<lambda>left.
     bnd (cint (2 * i + 2)) (\<lambda>right.
     bnd (gets h_size) (\<lambda>size.
     bnd (if left < size then
            bnd (h_read left) (\<lambda>l. bnd (h_read i) (\<lambda>c. ret (if l < c then left else i)))
          else ret i) (\<lambda>smallest1.
     bnd (if right < size then
            bnd (h_read right) (\<lambda>r. bnd (h_read smallest1) (\<lambda>c. ret (if r < c then right else smallest1)))
          else ret smallest1) (\<lambda>smallest.
     if smallest \<noteq> i then
       bnd (h_read i) (\<lambda>temp.
       bnd (h_read smallest) (\<lambda>c.
       seq (h_write i c)
       (seq (h_write smallest temp)
       (heapify k smallest))))
     else ret ())))))"

text \<open>
  The critical section of \<^verbatim>\<open>extractMin\<close>: \<open>Some\<close> result, or \<open>None\<close> when the element is
  still to be read, outside the critical section.
\<close>

definition extract_section :: "(heap_world, int option) exec" where
  "extract_section =
     seq (pthread_mutex_lock 0)
     (bnd (gets h_size) (\<lambda>size.
     if size \<le> 0 then seq (pthread_mutex_unlock 0) (ret (Some (- 1)))
     else if size = 1 then
       seq (modify (\<lambda>s. s\<lparr>h_size := size - 1\<rparr>)) (seq (pthread_mutex_unlock 0) (ret None))
     else
       bnd (h_read 0) (\<lambda>root.
       bnd (h_read (size - 1)) (\<lambda>x.
       seq (h_write 0 x)
       (seq (modify (\<lambda>s. s\<lparr>h_size := size - 1\<rparr>))
       (seq (heapify (nat size) 0)
       (seq (pthread_mutex_unlock 0) (ret (Some root)))))))))"

definition extractMin :: "(heap_world, int) exec" where
  "extractMin = bnd extract_section (\<lambda>r. case r of Some v \<Rightarrow> ret v | None \<Rightarrow> h_read 0)"

definition getMin :: "(heap_world, int) exec" where
  "getMin =
     seq (pthread_mutex_lock 0)
     (bnd (gets h_size) (\<lambda>size.
     if size \<le> 0 then seq (pthread_mutex_unlock 0) (ret (- 1))
     else bnd (h_read 0) (\<lambda>min. seq (pthread_mutex_unlock 0) (ret min))))"

definition heap_isEmpty :: "(heap_world, bool) exec" where
  "heap_isEmpty =
     seq (pthread_mutex_lock 0)
     (bnd (gets h_size) (\<lambda>size. seq (pthread_mutex_unlock 0) (ret (size = 0))))"

definition printHeap :: "(heap_world, unit) exec" where
  "printHeap =
     seq (pthread_mutex_lock 0)
     (bnd (gets h_size) (\<lambda>size.
     seq (for_each [0..size - 1] (\<lambda>i. bnd (h_read i) (\<lambda>v. printf ''%d '' [v])))
     (seq (printf ''\<newline>'' [])
     (pthread_mutex_unlock 0))))"

section \<open>heap/heap.c\<close>

definition t_extractMin :: "(int \<Rightarrow> heap_world thread) \<Rightarrow> heap_world thread" where
  "t_extractMin k = atomic extract_section (\<lambda>r. case r of Some v \<Rightarrow> k v | None \<Rightarrow> atomic (h_read 0) k)"

definition heap_threadFunction :: "(nat \<Rightarrow> int) \<Rightarrow> heap_world thread" where
  "heap_threadFunction vr =
     t_for [0..<20] (\<lambda>i k. atomic (insertHeap (vr i)) (\<lambda>_. k))
     (atomic heap_isEmpty (\<lambda>e.
      if \<not> e then
        t_extractMin (\<lambda>min.
        atomic (insertHeap min) (\<lambda>_.
        atomic printHeap (\<lambda>_. Done)))
      else atomic printHeap (\<lambda>_. Done)))"

definition heap_main :: "nat list \<Rightarrow> (nat \<Rightarrow> nat \<Rightarrow> int) \<Rightarrow> (heap_world, int) exec" where
  "heap_main sched vr =
     seq (createHeap 10)
     (seq (run_threads sched [heap_threadFunction (vr 0), heap_threadFunction (vr 1)])
     (seq (insertHeap 5)
     (seq (insertHeap 0)
     (seq printHeap
     (seq destroyHeap (ret 0))))))"

section \<open>The heap order\<close>

text \<open>The first \<open>n\<close> elements of the block are the heap; \<open>parent\<close> is the index arithmetic of the code.\<close>

definition parent :: "nat \<Rightarrow> nat" where
  "parent j = (j - 1) div 2"

lemma parent_less [simp]: "0 < j \<Longrightarrow> parent j < j"
  by (simp add: parent_def)

lemma parent_eq: "0 < j \<Longrightarrow> parent j = i \<longleftrightarrow> j = 2 * i + 1 \<or> j = 2 * i + 2"
  unfolding parent_def by presburger

lemma parent_int: "0 < j \<Longrightarrow> (int j - 1) div 2 = int (parent j)"
  by (simp add: parent_def of_nat_diff zdiv_int)

definition ordered :: "nat \<Rightarrow> int list \<Rightarrow> bool" where
  "ordered n xs \<longleftrightarrow> (\<forall>j<n. 0 < j \<longrightarrow> xs ! parent j \<le> xs ! j)"

text \<open>Ordered but for the element at \<open>i\<close>, which may be too small for its place.\<close>

definition rising :: "nat \<Rightarrow> nat \<Rightarrow> int list \<Rightarrow> bool" where
  "rising n i xs \<longleftrightarrow> (\<forall>j<n. 0 < j \<longrightarrow> j \<noteq> i \<longrightarrow> xs ! parent j \<le> xs ! j) \<and>
     (\<forall>j<n. 0 < j \<longrightarrow> 0 < i \<longrightarrow> parent j = i \<longrightarrow> xs ! parent i \<le> xs ! j)"

text \<open>Ordered but for the element at \<open>i\<close>, which may be too large for its place.\<close>

definition sinking :: "nat \<Rightarrow> nat \<Rightarrow> int list \<Rightarrow> bool" where
  "sinking n i xs \<longleftrightarrow> (\<forall>j<n. 0 < j \<longrightarrow> parent j \<noteq> i \<longrightarrow> xs ! parent j \<le> xs ! j) \<and>
     (\<forall>j<n. 0 < j \<longrightarrow> 0 < i \<longrightarrow> parent j = i \<longrightarrow> xs ! parent i \<le> xs ! j)"

lemma ordered_min:
  assumes "ordered n xs" and "j < n"
  shows "xs ! 0 \<le> xs ! j"
  using assms(2)
proof (induction j rule: less_induct)
  case (less j)
  show ?case
  proof (cases "j = 0")
    case False
    then have "xs ! 0 \<le> xs ! parent j" using less.prems parent_less[of j] False by (intro less.IH) linarith+
    also have "\<dots> \<le> xs ! j" using assms(1) less.prems False by (simp add: ordered_def)
    finally show ?thesis .
  qed simp
qed

lemma rising_stop: "rising n i xs \<Longrightarrow> i = 0 \<or> xs ! parent i \<le> xs ! i \<Longrightarrow> ordered n xs"
  unfolding rising_def ordered_def by (metis less_numeral_extra(3))

lemma rising_step:
  assumes "rising n i xs" and "0 < i" and "i < n" and "n \<le> length xs" and "xs ! i < xs ! parent i"
  shows "rising n (parent i) (xs[i := xs ! parent i, parent i := xs ! i])"
proof -
  let ?p = "parent i" and ?ys = "xs[i := xs ! parent i, parent i := xs ! i]"
  have p: "?p < i" "?p < n" using parent_less[OF assms(2)] assms(3) by linarith+
  have nth: "?ys ! j = (if j = ?p then xs ! i else if j = i then xs ! ?p else xs ! j)" if "j < n" for j
    using that assms(3,4) p by (auto simp: nth_list_update)
  have le: "xs ! parent j \<le> xs ! j" if "j < n" "0 < j" "j \<noteq> i" for j using assms(1) that by (simp add: rising_def)
  have gp: "xs ! ?p \<le> xs ! j" if "j < n" "0 < j" "parent j = i" for j using assms(1,2) that by (simp add: rising_def)
  have "?ys ! parent j \<le> ?ys ! j" if "j < n" "0 < j" "j \<noteq> ?p" for j
  proof -
    have "parent j < n" using parent_less[OF that(2)] that(1) by linarith
    with nth[OF that(1)] nth[of "parent j"] le[OF that(1,2)] gp[OF that(1,2)] that(3) assms(5) p show ?thesis
      by (cases "j = i") auto
  qed
  moreover have "?ys ! parent ?p \<le> ?ys ! j" if "j < n" "0 < j" "0 < ?p" "parent j = ?p" for j
  proof -
    have q: "parent ?p < ?p" "parent ?p < n" using parent_less[OF that(3)] p by linarith+
    have "j \<noteq> ?p" using parent_less[OF that(2)] that(4) by auto
    moreover have "xs ! parent ?p \<le> xs ! ?p" using le[OF p(2) that(3)] p(1) by simp
    ultimately show ?thesis using nth[OF that(1)] nth[OF q(2)] q(1) p(1) le[OF that(1,2)] that(4) by fastforce
  qed
  ultimately show ?thesis unfolding rising_def by blast
qed

lemma sinking_stop:
  assumes "sinking n i xs" and "2 * i + 1 < n \<Longrightarrow> xs ! i \<le> xs ! (2 * i + 1)" and "2 * i + 2 < n \<Longrightarrow> xs ! i \<le> xs ! (2 * i + 2)"
  shows "ordered n xs"
  unfolding ordered_def
proof (intro allI impI)
  fix j
  assume "j < n" "0 < j"
  with assms parent_eq[of j i] show "xs ! parent j \<le> xs ! j" by (cases "parent j = i") (auto simp: sinking_def)
qed

lemma sinking_step:
  assumes "sinking n i xs" and "0 < c" and "c < n" and "n \<le> length xs" and "parent c = i"
    and least: "\<And>j. j < n \<Longrightarrow> 0 < j \<Longrightarrow> parent j = i \<Longrightarrow> xs ! c \<le> xs ! j" and "xs ! c < xs ! i"
  shows "sinking n c (xs[i := xs ! c, c := xs ! i])"
proof -
  let ?ys = "xs[i := xs ! c, c := xs ! i]"
  have p: "i < c" "i < n" using parent_less[OF assms(2)] assms(3,5) by linarith+
  have nth: "?ys ! j = (if j = c then xs ! i else if j = i then xs ! c else xs ! j)" if "j < n" for j
    using that assms(3,4) p by (auto simp: nth_list_update)
  have le: "xs ! parent j \<le> xs ! j" if "j < n" "0 < j" "parent j \<noteq> i" for j using assms(1) that by (simp add: sinking_def)
  have gp: "xs ! parent i \<le> xs ! j" if "j < n" "0 < j" "0 < i" "parent j = i" for j using assms(1) that by (simp add: sinking_def)
  have "?ys ! parent j \<le> ?ys ! j" if "j < n" "0 < j" "parent j \<noteq> c" for j
  proof -
    have "parent j < j" "parent j < n" using parent_less[OF that(2)] that(1) by linarith+
    with nth[OF that(1)] nth[of "parent j"] le[OF that(1,2)] least[OF that(1,2)] gp[OF assms(3,2) _ assms(5)] that assms(5,7) p
    show ?thesis by (cases "parent j = i"; cases "j = i") auto
  qed
  moreover have "?ys ! parent c \<le> ?ys ! j" if "j < n" "0 < j" "parent j = c" for j
  proof -
    have "c < j" using parent_less[OF that(2)] that(3) by simp
    with nth[OF that(1)] nth[OF p(2)] le[OF that(1,2)] that(3) p assms(5) show ?thesis by auto
  qed
  ultimately show ?thesis unfolding sinking_def by blast
qed

text \<open>Growing and shrinking an ordered prefix.\<close>

lemma rising_insert: "ordered n xs \<Longrightarrow> rising (Suc n) n (xs[n := v])"
  unfolding ordered_def rising_def
  by (metis less_Suc_eq less_irrefl_nat less_trans nth_list_update_neq parent_less)

lemma sinking_replace: "ordered (Suc n) xs \<Longrightarrow> sinking n 0 (xs[0 := v])"
  unfolding ordered_def sinking_def by (metis less_Suc_eq not_gr_zero nth_list_update_neq)

section \<open>The loops\<close>

definition heap_at :: "heap_world \<Rightarrow> int list \<Rightarrow> bool" where
  "heap_at s xs \<longleftrightarrow> h_array s \<noteq> NULL \<and> cells s (h_array s) = Some xs"

abbreviation set_block :: "int list \<Rightarrow> heap_world \<Rightarrow> heap_world" where
  "set_block xs s \<equiv> s\<lparr>cells := (cells s)(h_array s \<mapsto> xs)\<rparr>"

lemma heap_at_set [simp]: "heap_at s xs \<Longrightarrow> heap_at (set_block ys s) zs \<longleftrightarrow> zs = ys"
  by (auto simp: heap_at_def)

lemma set_block_same: "heap_at s xs \<Longrightarrow> set_block xs s = s"
  by (simp add: heap_at_def map_upd_triv)

lemma heap_at_update [simp]:
  "heap_at (locks_update f s) xs = heap_at s xs"
  "heap_at (h_size_update g s) xs = heap_at s xs"
  "heap_at (out_update h s) xs = heap_at s xs"
  by (simp_all add: heap_at_def)

lemma h_read_ok: "heap_at s xs \<Longrightarrow> i < length xs \<Longrightarrow> h_read (int i) s = Inr (xs ! i, s)"
  by (simp add: h_read_def heap_at_def exec_simps)

lemma h_write_ok: "heap_at s xs \<Longrightarrow> i < length xs \<Longrightarrow> h_write (int i) v s = Inr ((), set_block (xs[i := v]) s)"
  by (simp add: h_write_def heap_at_def exec_simps)

lemmas h_simps = h_read_ok h_write_ok bnd_Inr seq_Inr

lemma h_swap:
  assumes "heap_at s xs" and "i < length xs" and "j < length xs"
  shows "seq (h_write (int i) v) (seq (h_write (int j) w) m) s = m (set_block (xs[i := v, j := w]) s)"
proof -
  have "h_write (int j) w (set_block (xs[i := v]) s) = Inr ((), set_block (xs[i := v, j := w]) s)"
    using h_write_ok[of "set_block (xs[i := v]) s" "xs[i := v]" j w] assms by simp
  with h_write_ok[OF assms(1,2), of v] show ?thesis by (simp add: seq_Inr)
qed

lemma sift_up_ok:
  assumes "heap_at s xs" and "rising n i xs" and "i < n" and "n \<le> length xs" and "i < k"
  shows "\<exists>ys. sift_up k (int i) s = Inr ((), set_block ys s) \<and> ordered n ys \<and> length ys = length xs \<and>
     mset (take n ys) = mset (take n xs)"
  using assms
proof (induction k arbitrary: i s xs)
  case 0
  then show ?case by simp
next
  case (Suc k)
  show ?case
  proof (cases "i = 0 \<or> xs ! parent i \<le> xs ! i")
    case True
    have "sift_up (Suc k) (int i) s = Inr ((), s)"
    proof (cases "i = 0")
      case False
      then have "parent i < length xs" using parent_less[of i] Suc.prems(3,4) by linarith
      with False True Suc.prems show ?thesis by (simp add: parent_int h_simps exec_simps)
    qed (simp add: exec_simps)
    with rising_stop[OF Suc.prems(2) True] show ?thesis using set_block_same[OF Suc.prems(1)] by metis
  next
    case False
    then have i: "0 < i" "xs ! i < xs ! parent i" by auto
    let ?ys = "xs[i := xs ! parent i, parent i := xs ! i]"
    have p: "parent i < i" "parent i < n" "parent i < length xs" "parent i < k"
      using parent_less[OF i(1)] Suc.prems(3-5) by linarith+
    have "sift_up (Suc k) (int i) s = sift_up k (int (parent i)) (set_block ?ys s)"
      using Suc.prems i p by (simp add: parent_int h_simps h_swap)
    moreover have "rising n (parent i) ?ys" by (rule rising_step[OF Suc.prems(2) i(1) Suc.prems(3,4) i(2)])
    from Suc.IH[of "set_block ?ys s" ?ys, OF _ this p(2)] Suc.prems(1,4) p obtain zs where
      "sift_up k (int (parent i)) (set_block ?ys s) = Inr ((), set_block zs s)" "ordered n zs" "length zs = length xs"
      "mset (take n zs) = mset (take n ?ys)" by auto
    moreover have "mset (take n ?ys) = mset (take n xs)" by (rule mset_take_swap[OF Suc.prems(3) p(2) Suc.prems(4)])
    ultimately show ?thesis by auto
  qed
qed

text \<open>The child that \<^verbatim>\<open>heapify\<close> compares with: the smaller one, or \<open>i\<close> itself.\<close>

definition smaller :: "nat \<Rightarrow> nat \<Rightarrow> int list \<Rightarrow> nat" where
  "smaller n i xs =
     (let m = (if 2 * i + 1 < n \<and> xs ! (2 * i + 1) < xs ! i then 2 * i + 1 else i)
      in if 2 * i + 2 < n \<and> xs ! (2 * i + 2) < xs ! m then 2 * i + 2 else m)"

lemma smaller_cases:
  obtains (self) "smaller n i xs = i" "2 * i + 1 < n \<Longrightarrow> xs ! i \<le> xs ! (2 * i + 1)" "2 * i + 2 < n \<Longrightarrow> xs ! i \<le> xs ! (2 * i + 2)"
  | (child) c where "smaller n i xs = c" "c \<noteq> i" "0 < c" "c < n" "parent c = i" "xs ! c < xs ! i"
      "\<And>j. j < n \<Longrightarrow> 0 < j \<Longrightarrow> parent j = i \<Longrightarrow> xs ! c \<le> xs ! j"
proof (cases "smaller n i xs = i")
  case True
  then show thesis by (intro self) (auto simp: smaller_def Let_def split: if_splits)
next
  case False
  let ?c = "smaller n i xs"
  have "?c = 2 * i + 1 \<or> ?c = 2 * i + 2" "?c < n" "xs ! ?c < xs ! i"
    "2 * i + 1 < n \<longrightarrow> xs ! ?c \<le> xs ! (2 * i + 1)" "2 * i + 2 < n \<longrightarrow> xs ! ?c \<le> xs ! (2 * i + 2)"
    using False by (auto simp: smaller_def Let_def split: if_splits)
  then show thesis using False parent_eq by (intro child[of ?c]) auto
qed

lemma heapify_unfold:
  assumes "heap_at s xs" and "h_size s = int n" and "i < n" and "n \<le> length xs" and "2 * int (length xs) \<le> INT_MAX"
  shows "heapify (Suc k) (int i) s =
     (if smaller n i xs \<noteq> i then heapify k (int (smaller n i xs)) (set_block (xs[i := xs ! smaller n i xs, smaller n i xs := xs ! i]) s)
      else Inr ((), s))"
proof -
  have eqs: "2 * int i + 1 = int (2 * i + 1)" "2 * int i + 2 = int (2 * i + 2)" by simp_all
  have r: "int_range (int (2 * i + 1))" "int_range (int (2 * i + 2))" using assms(3,4,5) by (auto simp: int_range_defs)
  let ?m = "if 2 * i + 1 < n \<and> xs ! (2 * i + 1) < xs ! i then 2 * i + 1 else i"
  have m: "?m < length xs" "smaller n i xs < length xs" "i < length xs" using assms(3,4) by (auto simp: smaller_def Let_def)
  have c: "bnd (cint (int (2 * i + 1))) f s = f (int (2 * i + 1)) s" "bnd (cint (int (2 * i + 2))) f s = f (int (2 * i + 2)) s"
    for f :: "int \<Rightarrow> (heap_world, unit) exec"
    using r by (simp_all add: bnd_def cint_def ret_def)
  have 1: "bnd (if int (2 * i + 1) < int n then
            bnd (h_read (int (2 * i + 1))) (\<lambda>l. bnd (h_read (int i)) (\<lambda>c. ret (if l < c then int (2 * i + 1) else int i)))
          else ret (int i)) f s = f (int ?m) s" for f :: "int \<Rightarrow> (heap_world, unit) exec"
    using assms(1,3,4) by (simp add: h_read_ok[OF assms(1)] bnd_def ret_apply del: of_nat_add of_nat_mult of_nat_Suc)
  have 2: "bnd (if int (2 * i + 2) < int n then
            bnd (h_read (int (2 * i + 2))) (\<lambda>r. bnd (h_read (int ?m)) (\<lambda>c. ret (if r < c then int (2 * i + 2) else int ?m)))
          else ret (int ?m)) f s = f (int (smaller n i xs)) s" for f :: "int \<Rightarrow> (heap_world, unit) exec"
    using assms(4) m(1)
    by (simp add: h_read_ok[OF assms(1)] bnd_def ret_apply smaller_def Let_def del: of_nat_add of_nat_mult of_nat_Suc)
  show ?thesis
    unfolding heapify.simps eqs c bnd_pure(1) assms(2) 1 2
    using h_read_ok[OF assms(1) m(2)] h_read_ok[OF assms(1) m(3)] by (simp add: bnd_Inr ret_apply h_swap[OF assms(1) m(3,2)])
qed

lemma heapify_ok:
  assumes "heap_at s xs" and "h_size s = int n" and "sinking n i xs" and "i < n" and "n \<le> length xs"
    and "2 * int (length xs) \<le> INT_MAX" and "n - i \<le> k" 
  shows "\<exists>ys. heapify k (int i) s = Inr ((), set_block ys s) \<and> ordered n ys \<and> length ys = length xs \<and>
     mset (take n ys) = mset (take n xs)"
  using assms
proof (induction k arbitrary: i s xs)
  case 0
  then show ?case by simp
next
  case (Suc k)
  note u = heapify_unfold[OF Suc.prems(1,2,4,5,6), of k]
  show ?case
  proof (cases rule: smaller_cases[of n i xs])
    case self
    with u have "heapify (Suc k) (int i) s = Inr ((), set_block xs s)" using set_block_same[OF Suc.prems(1)] by simp
    with sinking_stop[OF Suc.prems(3) self(2,3)] show ?thesis by blast
  next
    case (child c)
    let ?ys = "xs[i := xs ! c, c := xs ! i]"
    have "i < c" using parent_less[OF child(3)] child(5) by simp
    then have k: "n - c \<le> k" using Suc.prems(7) child(4) by linarith
    have "sinking n c ?ys" by (rule sinking_step[OF Suc.prems(3) child(3,4) Suc.prems(5) child(5,7,6)])
    from Suc.IH[of "set_block ?ys s" ?ys, OF _ _ this child(4)] Suc.prems(1,2,5,6) k obtain zs where
      "heapify k (int c) (set_block ?ys s) = Inr ((), set_block zs s)" "ordered n zs" "length zs = length xs"
      "mset (take n zs) = mset (take n ?ys)" by auto
    moreover have "mset (take n ?ys) = mset (take n xs)" by (rule mset_take_swap[OF Suc.prems(4) child(4) Suc.prems(5)])
    ultimately show ?thesis using u child(1,2) by auto
  qed
qed

section \<open>Functional behaviour\<close>

text \<open>\<open>heap_rep s xs n\<close>: the block holds \<open>xs\<close>, of which the first \<open>n\<close> elements are the heap.\<close>

definition heap_rep :: "heap_world \<Rightarrow> int list \<Rightarrow> nat \<Rightarrow> bool" where
  "heap_rep s xs n \<longleftrightarrow> locks s 0 = Free \<and> heap_at s xs \<and> h_capacity s = int (length xs) \<and> h_size s = int n \<and>
     n \<le> length xs \<and> 2 * int (length xs) \<le> INT_MAX \<and> ordered n xs \<and> cells s = [h_array s \<mapsto> xs]"

lemma heap_repE:
  assumes "heap_rep s xs n"
  obtains "locks s 0 = Free" "heap_at s xs" "h_capacity s = int (length xs)" "h_size s = int n"
     "n \<le> length xs" "2 * int (length xs) \<le> INT_MAX" "ordered n xs" "cells s = [h_array s \<mapsto> xs]"
  using assms unfolding heap_rep_def by blast

lemma heap_rep_out [simp]: "heap_rep (out_update f s) xs n = heap_rep s xs n"
  by (simp add: heap_rep_def)

lemma insertHeap_ok:
  assumes "heap_rep s xs n" and "n < length xs"
  shows "\<exists>s' ys. insertHeap v s = Inr ((), s') \<and> heap_rep s' ys (Suc n) \<and> length ys = length xs \<and>
     mset (take (Suc n) ys) = add_mset v (mset (take n xs)) \<and> room s' = room s \<and> out s' = out s"
proof -
  from assms(1) have r: "locks s 0 = Free" "heap_at s xs" "h_capacity s = int (length xs)" "h_size s = int n"
     "n \<le> length xs" "2 * int (length xs) \<le> INT_MAX" "ordered n xs" "cells s = [h_array s \<mapsto> xs]" by (rule heap_repE, blast)+
  let ?t = "s\<lparr>locks := (locks s)(0 := Held), h_size := int (Suc n)\<rparr>"
  let ?xs = "xs[n := v]"
  have w: "h_write (int n) v ?t = Inr ((), set_block ?xs ?t)" using r(2) assms(2) by (simp add: h_write_ok)
  have "heap_at (set_block ?xs ?t) ?xs" using r(2) by (simp add: heap_at_def)
  from sift_up_ok[OF this rising_insert[OF r(7)], of "Suc n"] assms(2) obtain ys where
    u: "sift_up (Suc n) (int n) (set_block ?xs ?t) = Inr ((), set_block ys ?t)" "ordered (Suc n) ys" "length ys = length xs"
      "mset (take (Suc n) ys) = mset (take (Suc n) ?xs)" by auto
  have "int_range (int n + 1)" using r(6) assms(2) by (auto simp: int_range_defs)
  then have "insertHeap v s = Inr ((), s\<lparr>h_size := int (Suc n), cells := (cells s)(h_array s \<mapsto> ys)\<rparr>)"
    using r(1,3,4) assms(2) w u(1) by (simp add: insertHeap_def exec_simps add.commute del: sift_up.simps)
  moreover have "heap_rep (s\<lparr>h_size := int (Suc n), cells := (cells s)(h_array s \<mapsto> ys)\<rparr>) ys (Suc n)"
    using r assms(2) u(2,3) by (simp add: heap_rep_def heap_at_def)
  moreover have "mset (take (Suc n) ?xs) = add_mset v (mset (take n xs))"
    using assms(2) by (simp add: take_Suc_conv_app_nth)
  ultimately show ?thesis using u(3,4) by (intro exI[of _ "s\<lparr>h_size := int (Suc n), cells := (cells s)(h_array s \<mapsto> ys)\<rparr>"]) auto
qed

lemma insertHeap_full:
  assumes "heap_rep s xs n" and "n = length xs"
  shows "insertHeap v s = Inr ((), s\<lparr>out := out s @ [(''Heap overflow\<newline>'', [])]\<rparr>)"
  using assms by (auto elim!: heap_repE simp: insertHeap_def exec_simps)

lemma extract_section_ok:
  assumes "heap_rep s xs (Suc (Suc n))"
  shows "\<exists>s' ys. extract_section s = Inr (Some (xs ! 0), s') \<and> heap_rep s' ys (Suc n) \<and> length ys = length xs \<and>
     mset (take (Suc (Suc n)) xs) = add_mset (xs ! 0) (mset (take (Suc n) ys)) \<and> room s' = room s \<and> out s' = out s"
proof -
  let ?n = "Suc n"
  from assms(1) have r: "locks s 0 = Free" "heap_at s xs" "h_capacity s = int (length xs)" "h_size s = int (Suc ?n)"
     "Suc ?n \<le> length xs" "2 * int (length xs) \<le> INT_MAX" "ordered (Suc ?n) xs" "cells s = [h_array s \<mapsto> xs]" by (rule heap_repE, blast)+
  let ?l = "s\<lparr>locks := (locks s)(0 := Held)\<rparr>"
  let ?xs = "xs[0 := xs ! ?n]"
  let ?t = "?l\<lparr>cells := (cells s)(h_array s \<mapsto> ?xs), h_size := int ?n\<rparr>"
  have l: "heap_at ?l xs" using r(2) by simp
  have rd: "h_read 0 ?l = Inr (xs ! 0, ?l)" "h_read (int ?n) ?l = Inr (xs ! ?n, ?l)" "h_write 0 v ?l = Inr ((), set_block (xs[0 := v]) ?l)" for v
    using h_read_ok[OF l, of 0] h_read_ok[OF l, of ?n] h_write_ok[OF l, of 0 v] r(5) by (cases xs; auto)+
  have "heap_at ?t ?xs" using r(2) by (simp add: heap_at_def)
  from heapify_ok[OF this, of ?n 0 "Suc ?n"] sinking_replace[OF r(7), of "xs ! ?n"] r(5,6) obtain ys where
    u: "heapify (Suc ?n) 0 ?t = Inr ((), set_block ys ?t)" "ordered ?n ys" "length ys = length xs"
      "mset (take ?n ys) = mset (take ?n ?xs)" by auto
  let ?s = "s\<lparr>h_size := int ?n, cells := (cells s)(h_array s \<mapsto> ys)\<rparr>"
  have "extract_section s = Inr (Some (xs ! 0), ?s)"
    using r(1,4) rd u(1) by (simp add: extract_section_def exec_simps nat_add_distrib algebra_simps del: heapify.simps)
  moreover have "heap_rep ?s ys ?n" using r u(2,3) by (simp add: heap_rep_def heap_at_def)
  moreover have "mset (take (Suc ?n) xs) = add_mset (xs ! 0) (mset (take ?n ?xs))"
  proof -
    obtain x zs where xs: "xs = x # zs" using r(5) by (cases xs) auto
    with r(5) have "take ?n zs = take n zs @ [zs ! n]" by (simp add: take_Suc_conv_app_nth)
    then show ?thesis using xs by simp
  qed
  ultimately show ?thesis using u(3,4) by (intro exI[of _ ?s]) auto
qed

text \<open>A heap with one element: the critical section only resets the size, the element is read afterwards.\<close>

lemma extract_section_one:
  assumes "heap_rep s xs 1"
  shows "extract_section s = Inr (None, s\<lparr>h_size := 0\<rparr>) \<and> heap_rep (s\<lparr>h_size := 0\<rparr>) xs 0"
  using assms by (auto elim!: heap_repE simp: extract_section_def exec_simps heap_rep_def ordered_def)

lemma extractMin_ok:
  assumes "heap_rep s xs (Suc n)"
  shows "\<exists>s' ys. extractMin s = Inr (xs ! 0, s') \<and> heap_rep s' ys n \<and> length ys = length xs \<and>
     mset (take (Suc n) xs) = add_mset (xs ! 0) (mset (take n ys)) \<and> room s' = room s \<and> out s' = out s"
proof (cases n)
  case 0
  with assms have r: "heap_rep s xs 1" by simp
  then have "heap_at (s\<lparr>h_size := 0\<rparr>) xs" "1 \<le> length xs" by (auto elim: heap_repE)
  with h_read_ok[of "s\<lparr>h_size := 0\<rparr>" xs 0] have "h_read 0 (s\<lparr>h_size := 0\<rparr>) = Inr (xs ! 0, s\<lparr>h_size := 0\<rparr>)" by (cases xs; auto)
  with extract_section_one[OF r] have "extractMin s = Inr (xs ! 0, s\<lparr>h_size := 0\<rparr>)" by (simp add: extractMin_def exec_simps)
  with extract_section_one[OF r] 0 \<open>1 \<le> length xs\<close> show ?thesis
    by (intro exI[of _ "s\<lparr>h_size := 0\<rparr>"] exI[of _ xs]) (cases xs; simp)
next
  case (Suc m)
  with extract_section_ok[of s xs m] assms show ?thesis by (auto simp: extractMin_def exec_simps)
qed

lemma extractMin_empty: "heap_rep s xs 0 \<Longrightarrow> extractMin s = Inr (- 1, s)"
  by (auto elim!: heap_repE simp: extractMin_def extract_section_def exec_simps)

lemma heap_read_ops:
  assumes "heap_rep s xs n"
  shows "heap_isEmpty s = Inr (n = 0, s)" and "getMin s = Inr (if n = 0 then - 1 else xs ! 0, s)"
    and "printHeap s = Inr ((), s\<lparr>out := out s @ map (\<lambda>v. (''%d '', [v])) (take n xs) @ [(''\<newline>'', [])]\<rparr>)"
proof -
  from assms(1) have r: "locks s 0 = Free" "heap_at s xs" "h_size s = int n" "n \<le> length xs" by (rule heap_repE, blast)+
  show "heap_isEmpty s = Inr (n = 0, s)" using r by (simp add: heap_isEmpty_def exec_simps)
  let ?l = "s\<lparr>locks := (locks s)(0 := Held)\<rparr>"
  have l: "heap_at ?l xs" using r(2) by simp
  show "getMin s = Inr (if n = 0 then - 1 else xs ! 0, s)"
    using r h_read_ok[OF l, of 0] by (cases "n = 0"; cases xs) (auto simp: getMin_def exec_simps)
  have loop: "for_each (map int is) (\<lambda>i. bnd (h_read i) (\<lambda>v. printf ''%d '' [v])) t =
      Inr ((), t\<lparr>out := out t @ map (\<lambda>i. (''%d '', [xs ! i])) is\<rparr>)" if "heap_at t xs" "\<forall>i\<in>set is. i < length xs" for t "is"
    using that
  proof (induction "is" arbitrary: t)
    case Nil
    then show ?case by (simp add: exec_simps)
  next
    case (Cons i "is")
    from Cons.IH[of "t\<lparr>out := out t @ [(''%d '', [xs ! i])]\<rparr>"] Cons.prems show ?case
      by (simp add: h_read_ok exec_simps)
  qed
  have "map (\<lambda>i. (''%d '', [xs ! i])) [0..<n] = map (\<lambda>v. (''%d '', [v])) (take n xs)"
    using r(4) by (intro nth_equalityI) simp_all
  with loop[OF l, of "[0..<n]"] r show
    "printHeap s = Inr ((), s\<lparr>out := out s @ map (\<lambda>v. (''%d '', [v])) (take n xs) @ [(''\<newline>'', [])]\<rparr>)"
    by (simp add: printHeap_def exec_simps upto_int del: for_each.simps upt_Suc)
qed

lemma createHeap_ok:
  assumes "2 \<le> r" and "0 \<le> c" and "2 * c \<le> INT_MAX"
  shows "\<exists>s xs. createHeap c (heap_boot r g) = Inr ((), s) \<and> heap_rep s xs 0 \<and> length xs = nat c"
  using assms
  by (simp add: createHeap_def heap_boot_def world.defs arr_world.defs boot_def exec_simps heap_rep_def heap_at_def ordered_def)

definition heap_holds :: "heap_world \<Rightarrow> int multiset \<Rightarrow> bool" where
  "heap_holds s M \<longleftrightarrow> (\<exists>xs n. heap_rep s xs n \<and> mset (take n xs) = M)"

interpretation mheap: min_queue heap_holds extractMin
proof unfold_locales
  fix s u N
  assume "heap_holds s (add_mset u N)"
  then obtain xs n where r: "heap_rep s xs n" "mset (take n xs) = add_mset u N" by (auto simp: heap_holds_def)
  then obtain m where n: "n = Suc m" by (cases n) auto
  from extractMin_ok[of s xs m] r(1) n obtain s' ys where
    s': "extractMin s = Inr (xs ! 0, s')" "heap_rep s' ys m" "mset (take n xs) = add_mset (xs ! 0) (mset (take m ys))"
      "room s' = room s" by auto
  have "ordered n xs" "n \<le> length xs" using r(1) by (auto elim: heap_repE)
  then have "\<forall>x\<in>set (take n xs). xs ! 0 \<le> x" using ordered_min by (auto simp: in_set_conv_nth)
  then have "\<forall>x\<in>#mset (take m ys). xs ! 0 \<le> x" using arg_cong[OF s'(3), of set_mset] by auto
  with s' r(2) show "\<exists>v M s'. extractMin s = Inr (v, s') \<and> add_mset u N = add_mset v M \<and> (\<forall>x\<in>#M. v \<le> x) \<and>
      heap_holds s' M \<and> room s \<le> room s'"
    by (intro exI[of _ "xs ! 0"] exI[of _ "mset (take m ys)"] exI[of _ s']) (auto simp: heap_holds_def)
qed

section \<open>The program\<close>

text \<open>
  \<open>Made i\<close>: a thread that has called \<^verbatim>\<open>insertHeap\<close> \<open>i\<close> times, so that the heap has at least
  \<open>min 10 i\<close> elements but for those taken out meanwhile, each of which is a \<open>Hole\<close>; \<open>Permit\<close> is the
  right to make one.
\<close>

datatype heap_token = Made nat | Permit | Hole

definition heap_inv :: "int set \<Rightarrow> heap_token multiset \<Rightarrow> heap_world \<Rightarrow> bool" where
  "heap_inv V G s \<longleftrightarrow> count G Permit + count G Hole \<le> 2 \<and> (\<exists>xs n. heap_rep s xs n \<and> length xs = 10 \<and>
     set (take n xs) \<subseteq> V \<and> (\<forall>i. Made i \<in># G \<longrightarrow> min 10 i \<le> n + count G Hole))"

lemma heap_invE:
  assumes "heap_inv V G s"
  obtains xs n where "heap_rep s xs n" "length xs = 10" "n \<le> 10" "set (take n xs) \<subseteq> V"
    "\<forall>i. Made i \<in># G \<longrightarrow> min 10 i \<le> n + count G Hole" "count G Permit + count G Hole \<le> 2"
proof -
  from assms obtain xs n where *: "heap_rep s xs n" "length xs = 10" "set (take n xs) \<subseteq> V"
    "\<forall>i. Made i \<in># G \<longrightarrow> min 10 i \<le> n + count G Hole" "count G Permit + count G Hole \<le> 2"
    unfolding heap_inv_def by blast
  moreover from *(1,2) have "n \<le> 10" by (auto elim: heap_repE)
  ultimately show thesis by (intro that)
qed

lemma heap_invI:
  "heap_rep s xs n \<Longrightarrow> length xs = 10 \<Longrightarrow> set (take n xs) \<subseteq> V \<Longrightarrow>
   (\<And>i. Made i \<in># G \<Longrightarrow> min 10 i \<le> n + count G Hole) \<Longrightarrow> count G Permit + count G Hole \<le> 2 \<Longrightarrow> heap_inv V G s"
  unfolding heap_inv_def by blast

text \<open>An insertion, by a thread that fills the heap or a hole.\<close>

lemma insertHeap_bounded:
  assumes "heap_rep s xs n" and "length xs = 10" and "set (take n xs) \<subseteq> V" and "v \<in> V"
  shows "\<exists>s' ys m. insertHeap v s = Inr ((), s') \<and> heap_rep s' ys m \<and> length ys = 10 \<and> set (take m ys) \<subseteq> V \<and>
     m = min 10 (Suc n)"
proof (cases "n = 10")
  case True
  with insertHeap_full[OF assms(1), of v] assms show ?thesis by (auto intro!: exI[of _ xs])
next
  case False
  have n: "n < length xs" using assms(1,2) False by (auto elim: heap_repE)
  from insertHeap_ok[OF assms(1) n, of v] obtain s' ys where s': "insertHeap v s = Inr ((), s')" "heap_rep s' ys (Suc n)"
    "length ys = length xs" "mset (take (Suc n) ys) = add_mset v (mset (take n xs))" by blast
  have "set (take (Suc n) ys) = insert v (set (take n xs))"
    using arg_cong[OF s'(4), of set_mset] by simp
  with s' n assms show ?thesis by (intro exI[of _ s'] exI[of _ ys]) auto
qed

lemma tok_insert_made:
  assumes "v \<in> V" and "tok (heap_inv V) Q (add_mset (Made (Suc i)) g) t"
  shows "tok (heap_inv V) Q (add_mset (Made i) g) (atomic (insertHeap v) (\<lambda>_. t))"
proof (rule tok_atomic)
  fix c s
  assume "heap_inv V (add_mset (Made i) g + c) s"
  then obtain xs n where r: "heap_rep s xs n" "length xs = 10" "n \<le> 10" "set (take n xs) \<subseteq> V"
    "\<forall>j. Made j \<in># add_mset (Made i) g + c \<longrightarrow> min 10 j \<le> n + count (add_mset (Made i) g + c) Hole"
    "count (add_mset (Made i) g + c) Permit + count (add_mset (Made i) g + c) Hole \<le> 2" by (rule heap_invE)
  from insertHeap_bounded[OF r(1,2,4) assms(1)] obtain s' ys where
    s': "insertHeap v s = Inr ((), s')" "heap_rep s' ys (min 10 (Suc n))" "length ys = 10" "set (take (min 10 (Suc n)) ys) \<subseteq> V" by blast
  have "heap_inv V (add_mset (Made (Suc i)) g + c) s'"
  proof (rule heap_invI[OF s'(2-4)])
    fix j
    assume "Made j \<in># add_mset (Made (Suc i)) g + c"
    with r(5)[rule_format, of j] r(5)[rule_format, of i]
    show "min 10 j \<le> min 10 (Suc n) + count (add_mset (Made (Suc i)) g + c) Hole" by auto
  qed (use r(6) in simp)
  with s'(1) assms(2) show "\<exists>a s' g'. insertHeap v s = Inr (a, s') \<and> heap_inv V (g' + c) s' \<and> tok (heap_inv V) Q g' t"
    by blast
qed

lemma tok_insert_hole:
  assumes "v \<in> V" and "tok (heap_inv V) Q g t"
  shows "tok (heap_inv V) Q (add_mset Hole g) (atomic (insertHeap v) (\<lambda>_. t))"
proof (rule tok_atomic)
  fix c s
  assume "heap_inv V (add_mset Hole g + c) s"
  then obtain xs n where r: "heap_rep s xs n" "length xs = 10" "n \<le> 10" "set (take n xs) \<subseteq> V"
    "\<forall>j. Made j \<in># add_mset Hole g + c \<longrightarrow> min 10 j \<le> n + count (add_mset Hole g + c) Hole"
    "count (add_mset Hole g + c) Permit + count (add_mset Hole g + c) Hole \<le> 2" by (rule heap_invE)
  from insertHeap_bounded[OF r(1,2,4) assms(1)] obtain s' ys where
    s': "insertHeap v s = Inr ((), s')" "heap_rep s' ys (min 10 (Suc n))" "length ys = 10" "set (take (min 10 (Suc n)) ys) \<subseteq> V" by blast
  have "heap_inv V (g + c) s'"
  proof (rule heap_invI[OF s'(2-4)])
    fix j
    assume "Made j \<in># g + c"
    with r(5)[rule_format, of j] show "min 10 j \<le> min 10 (Suc n) + count (g + c) Hole" by auto
  qed (use r(6) in simp)
  with s'(1) assms(2) show "\<exists>a s' g'. insertHeap v s = Inr (a, s') \<and> heap_inv V (g' + c) s' \<and> tok (heap_inv V) Q g' t"
    by blast
qed

lemma tok_extract:
  assumes "\<And>v. v \<in> V \<Longrightarrow> tok (heap_inv V) Q (add_mset Hole (add_mset (Made 20) g)) (k v)"
  shows "tok (heap_inv V) Q (add_mset Permit (add_mset (Made 20) g)) (t_extractMin k)"
  unfolding t_extractMin_def
proof (rule tok_atomic)
  let ?g = "add_mset Permit (add_mset (Made 20) g)" and ?h = "add_mset Hole (add_mset (Made 20) g)"
  fix c s
  assume "heap_inv V (?g + c) s"
  then obtain xs n where r: "heap_rep s xs n" "length xs = 10" "n \<le> 10" "set (take n xs) \<subseteq> V"
    "\<forall>j. Made j \<in># ?g + c \<longrightarrow> min 10 j \<le> n + count (?g + c) Hole"
    "count (?g + c) Permit + count (?g + c) Hole \<le> 2" by (rule heap_invE)
  have "min 10 20 \<le> n + count (?g + c) Hole" using r(5) by simp
  with r(6) have "9 \<le> n" by simp
  then have "n = Suc (Suc (n - 2))" by linarith
  then obtain m where n: "n = Suc (Suc m)" by blast
  from extract_section_ok[of s xs m] r(1) n obtain s' ys where
    s': "extract_section s = Inr (Some (xs ! 0), s')" "heap_rep s' ys (Suc m)" "length ys = length xs"
      "mset (take n xs) = add_mset (xs ! 0) (mset (take (Suc m) ys))" by auto
  have V: "xs ! 0 \<in> V" "set (take (Suc m) ys) \<subseteq> V" using arg_cong[OF s'(4), of set_mset] r(4) by auto
  have "heap_inv V (?h + c) s'"
  proof (rule heap_invI[OF s'(2) _ V(2)])
    fix j
    assume "Made j \<in># ?h + c"
    with r(5)[rule_format, of j] n show "min 10 j \<le> Suc m + count (?h + c) Hole" by auto
  qed (use r(2,6) s'(3) in simp_all)
  with s'(1) assms[OF V(1)] show "\<exists>a s' g'. extract_section s = Inr (a, s') \<and> heap_inv V (g' + c) s' \<and>
      tok (heap_inv V) Q g' (case a of None \<Rightarrow> atomic (h_read 0) k | Some v \<Rightarrow> k v)"
    by (intro exI[of _ "Some (xs ! 0)"] exI[of _ s'] exI[of _ ?h]) simp
qed

lemma tok_not_empty:
  assumes "tok (heap_inv V) Q (add_mset Permit (add_mset (Made 20) g)) t"
  shows "tok (heap_inv V) Q (add_mset Permit (add_mset (Made 20) g)) (atomic heap_isEmpty (\<lambda>e. if \<not> e then t else t'))"
proof (rule tok_atomic)
  let ?g = "add_mset Permit (add_mset (Made 20) g)"
  fix c s
  assume i: "heap_inv V (?g + c) s"
  then obtain xs n where r: "heap_rep s xs n" "\<forall>j. Made j \<in># ?g + c \<longrightarrow> min 10 j \<le> n + count (?g + c) Hole"
    "count (?g + c) Permit + count (?g + c) Hole \<le> 2" by (rule heap_invE)
  have "min 10 20 \<le> n + count (?g + c) Hole" using r(2) by simp
  with r(3) have "n \<noteq> 0" by simp
  with heap_read_ops(1)[OF r(1)] i assms show "\<exists>a s' g'. heap_isEmpty s = Inr (a, s') \<and> heap_inv V (g' + c) s' \<and>
      tok (heap_inv V) Q g' (if \<not> a then t else t')" by (intro exI[of _ False] exI[of _ s] exI[of _ ?g]) simp
qed

lemma tok_printHeap:
  assumes "tok (heap_inv V) Q g t"
  shows "tok (heap_inv V) Q g (atomic printHeap (\<lambda>_. t))"
proof (rule tok_atomic)
  fix c s
  assume i: "heap_inv V (g + c) s"
  then obtain xs n where "heap_rep s xs n" by (rule heap_invE)
  from heap_read_ops(3)[OF this] i assms show "\<exists>a s' g'. printHeap s = Inr (a, s') \<and> heap_inv V (g' + c) s' \<and> tok (heap_inv V) Q g' t"
    by (auto simp: heap_inv_def)
qed

lemma heap_thread_tok:
  assumes "\<forall>i<20. vr i \<in> V"
  shows "tok (heap_inv V) (\<lambda>g. g = {#Made 20#}) {#Made 0, Permit#} (heap_threadFunction vr)"
proof -
  let ?Q = "\<lambda>g. g = {#Made 20#}" and ?G = "\<lambda>is :: nat list. {#Made (length is), Permit#}"
  have fin: "tok (heap_inv V) ?Q (add_mset Permit (add_mset (Made 20) {#})) (atomic heap_isEmpty (\<lambda>e.
      if \<not> e then t_extractMin (\<lambda>min. atomic (insertHeap min) (\<lambda>_. atomic printHeap (\<lambda>_. Done)))
      else atomic printHeap (\<lambda>_. Done)))"
    by (intro tok_not_empty tok_extract tok_insert_hole tok_printHeap tok_done) simp_all
  have "tok (heap_inv V) ?Q (?G []) (heap_threadFunction vr)"
    unfolding heap_threadFunction_def
  proof (rule tok_for[where G = ?G])
    fix ys zs and i :: nat and t
    assume eq: "[0..<20] = ys @ i # zs" and t: "tok (heap_inv V) ?Q (?G (ys @ [i])) t"
    have "i \<in> set [0..<20]" unfolding eq by simp
    with assms have "vr i \<in> V" by simp
    then show "tok (heap_inv V) ?Q (?G ys) (atomic (insertHeap (vr i)) (\<lambda>_. t))"
      by (rule tok_insert_made) (use t in simp)
  qed (use fin in \<open>simp add: add_mset_commute\<close>)
  then show ?thesis by simp
qed

text \<open>C37: \<^verbatim>\<open>heap/heap.c\<close>: under every interleaving the program ends without a fault. Although the
  threads insert 40 values into a heap of capacity ten and each takes the minimum out and puts it back, the heap is
  full whenever both are done: the two values that \<^verbatim>\<open>main\<close> adds are dropped with a message, and what it
  prints are ten of the inserted values in heap order; the memory of the heap is released.\<close>

theorem heap_main_ok:
  assumes "2 \<le> r"
  shows "\<exists>s' xs log. heap_main sched vr (heap_boot r g) = Inr (0, s') \<and> length xs = 10 \<and> ordered 10 xs \<and>
     set xs \<subseteq> {vr t i | t i. t < 2 \<and> i < 20} \<and>
     out s' = log @ [(''Heap overflow\<newline>'', []), (''Heap overflow\<newline>'', [])] @ map (\<lambda>v. (''%d '', [v])) xs @ [(''\<newline>'', [])] \<and>
     cells s' = Map.empty \<and> locks s' 0 = Destroyed"
proof -
  let ?V = "{vr t i | t i. t < 2 \<and> i < 20}"
  from createHeap_ok[OF assms, of 10 g] obtain s xs where
    s: "createHeap 10 (heap_boot r g) = Inr ((), s)" "heap_rep s xs 0" "length xs = 10" by (auto simp: int_range_defs)
  have "heap_inv ?V ({#Made 0, Permit#} + {#Made 0, Permit#}) s" by (rule heap_invI[OF s(2,3)]) auto
  moreover have "\<forall>i<20. vr 0 i \<in> ?V" "\<forall>i<20. vr 1 i \<in> ?V" by force+
  ultimately obtain s1 where 1: "run_threads sched [heap_threadFunction (vr 0), heap_threadFunction (vr 1)] s = Inr ((), s1)"
    "heap_inv ?V ({#Made 20#} + {#Made 20#}) s1"
    using run_two[OF heap_thread_tok heap_thread_tok, of "vr 0" ?V "vr 1" s sched] by blast
  from 1(2) obtain ys n where ys: "heap_rep s1 ys n" "length ys = 10" "n \<le> 10" "set (take n ys) \<subseteq> ?V"
    "\<forall>i. Made i \<in># {#Made 20#} + {#Made 20#} \<longrightarrow> min 10 i \<le> n + count ({#Made 20#} + {#Made 20#}) Hole" by (rule heap_invE)
  have n: "n = 10" using ys(3) ys(5)[rule_format, of 20] by simp
  let ?ov = "(''Heap overflow\<newline>'', [] :: int list)"
  have 2: "insertHeap 5 s1 = Inr ((), s1\<lparr>out := out s1 @ [?ov]\<rparr>)"
    "insertHeap 0 (s1\<lparr>out := out s1 @ [?ov]\<rparr>) = Inr ((), s1\<lparr>out := out s1 @ [?ov, ?ov]\<rparr>)"
    using insertHeap_full[of s1 ys n 5] insertHeap_full[of "s1\<lparr>out := out s1 @ [?ov]\<rparr>" ys n 0] ys(1,2) n by simp_all
  let ?s = "s1\<lparr>out := out s1 @ [?ov, ?ov]\<rparr>"
  have 3: "printHeap ?s = Inr ((), s1\<lparr>out := out s1 @ [?ov, ?ov] @ map (\<lambda>v. (''%d '', [v])) ys @ [(''\<newline>'', [])]\<rparr>)"
    using heap_read_ops(3)[of ?s ys n] ys(1,2) n by simp
  from ys(1) have r: "locks s1 0 = Free" "heap_at s1 ys" "ordered n ys" "cells s1 = [h_array s1 \<mapsto> ys]" by (auto elim: heap_repE)
  then have a: "h_array s1 \<noteq> NULL" by (simp add: heap_at_def)
  show ?thesis
    using s(1) 1(1) 2 3 r a ys(2,4) n
    by (intro exI exI[of _ ys] exI[of _ "out s1"]) (auto simp: heap_main_def destroyHeap_def exec_simps)
qed

theorem heap_main_ok_witness:
  "\<exists>s' xs log. heap_main [0, 1, 1, 0, 1] (\<lambda>t i. int (13 * i + t)) (heap_boot 2 int) = Inr (0, s') \<and> length xs = 10 \<and>
     ordered 10 xs \<and> set xs \<subseteq> {int (13 * i + t) | t i. t < 2 \<and> i < 20} \<and>
     out s' = log @ [(''Heap overflow\<newline>'', []), (''Heap overflow\<newline>'', [])] @ map (\<lambda>v. (''%d '', [v])) xs @ [(''\<newline>'', [])] \<and>
     cells s' = Map.empty \<and> locks s' 0 = Destroyed"
  by (rule heap_main_ok) simp

text \<open>The operations of \<^verbatim>\<open>heap.h\<close> on any heap: insertion below the capacity adds the value and keeps the
  heap order, a full heap stays as it is and a message is printed; \<^verbatim>\<open>getMin\<close> and \<^verbatim>\<open>extractMin\<close>
  return the least element and the latter removes it, -1 from the empty heap; no branch faults.\<close>

theorem heap_operations:
  assumes "heap_rep s xs n"
  shows "(n < length xs \<longrightarrow> (\<exists>s' ys. insertHeap v s = Inr ((), s') \<and> heap_rep s' ys (Suc n) \<and>
        mset (take (Suc n) ys) = add_mset v (mset (take n xs)))) \<and>
     (n = length xs \<longrightarrow> insertHeap v s = Inr ((), s\<lparr>out := out s @ [(''Heap overflow\<newline>'', [])]\<rparr>)) \<and>
     (n = 0 \<longrightarrow> extractMin s = Inr (- 1, s) \<and> getMin s = Inr (- 1, s)) \<and>
     (0 < n \<longrightarrow> getMin s = Inr (Min (set (take n xs)), s) \<and>
        (\<exists>s' ys. extractMin s = Inr (Min (set (take n xs)), s') \<and> heap_rep s' ys (n - 1) \<and>
           mset (take n xs) = add_mset (Min (set (take n xs))) (mset (take (n - 1) ys))))"
proof (intro conjI impI)
  assume "n < length xs"
  from insertHeap_ok[OF assms this, of v] show "\<exists>s' ys. insertHeap v s = Inr ((), s') \<and> heap_rep s' ys (Suc n) \<and>
        mset (take (Suc n) ys) = add_mset v (mset (take n xs))" by blast
next
  assume "n = length xs"
  from insertHeap_full[OF assms this] show "insertHeap v s = Inr ((), s\<lparr>out := out s @ [(''Heap overflow\<newline>'', [])]\<rparr>)" .
next
  assume "n = 0"
  with extractMin_empty[of s xs] heap_read_ops(2)[OF assms] assms
  show "extractMin s = Inr (- 1, s)" "getMin s = Inr (- 1, s)" by auto
next
  assume n: "0 < n"
  have o: "ordered n xs" "n \<le> length xs" using assms by (auto elim: heap_repE)
  then have "\<forall>x\<in>set (take n xs). xs ! 0 \<le> x" using ordered_min by (auto simp: in_set_conv_nth)
  moreover have "xs ! 0 \<in> set (take n xs)" using o n by (cases xs; cases n) auto
  ultimately have m: "Min (set (take n xs)) = xs ! 0" by (intro Min_eqI) auto
  with heap_read_ops(2)[OF assms] n show "getMin s = Inr (Min (set (take n xs)), s)" by simp
  from extractMin_ok[of s xs "n - 1"] assms n m show "\<exists>s' ys. extractMin s = Inr (Min (set (take n xs)), s') \<and> heap_rep s' ys (n - 1) \<and>
           mset (take n xs) = add_mset (Min (set (take n xs))) (mset (take (n - 1) ys))" by auto
qed

lemma insertHeap_all:
  assumes "heap_rep s xs n" and "n + length vs \<le> length xs"
  shows "\<exists>s' ys. for_each vs insertHeap s = Inr ((), s') \<and> heap_rep s' ys (n + length vs) \<and>
     mset (take (n + length vs) ys) = mset (take n xs) + mset vs"
  using assms
proof (induction vs arbitrary: s xs n)
  case Nil
  then show ?case by (auto simp: exec_simps)
next
  case (Cons v vs)
  from insertHeap_ok[OF Cons.prems(1), of v] Cons.prems(2) obtain s1 ys where
    1: "insertHeap v s = Inr ((), s1)" "heap_rep s1 ys (Suc n)" "length ys = length xs"
      "mset (take (Suc n) ys) = add_mset v (mset (take n xs))" by auto
  from Cons.IH[OF 1(2)] Cons.prems(2) 1 show ?case by (auto simp: exec_simps)
qed

theorem heap_operations_witness:
  "\<exists>s xs. heap_rep s xs 2 \<and> Min (set (take 2 xs)) = 4 \<and> getMin s = Inr (4, s) \<and>
     (\<exists>s' ys. extractMin s = Inr (4, s') \<and> heap_rep s' ys 1 \<and> mset (take 2 xs) = add_mset 4 (mset (take 1 ys)))"
proof -
  from createHeap_ok[of 2 3 int] obtain s0 xs0 where "heap_rep s0 xs0 0" "length xs0 = 3" by (auto simp: int_range_defs)
  from insertHeap_all[OF this(1), of "[7, 4]"] this(2) obtain s xs where
    s: "heap_rep s xs 2" "mset (take 2 xs) = {#7, 4#}" by (auto simp: numeral_2_eq_2)
  have "set (take 2 xs) = {7, 4}" using arg_cong[OF s(2), of set_mset] by simp
  then have m: "Min (set (take 2 xs)) = 4" by simp
  from heap_operations[OF s(1), of 0] have "0 < (2 :: nat) \<longrightarrow> getMin s = Inr (Min (set (take 2 xs)), s) \<and>
        (\<exists>s' ys. extractMin s = Inr (Min (set (take 2 xs)), s') \<and> heap_rep s' ys (2 - 1) \<and>
           mset (take 2 xs) = add_mset (Min (set (take 2 xs))) (mset (take (2 - 1) ys)))" by blast
  with m s(1) show ?thesis by (intro exI[of _ s] exI[of _ xs]) auto
qed

text \<open>\<^verbatim>\<open>insertHeap\<close> and \<^verbatim>\<open>extractMin\<close> sort: any list of values that fits, inserted into an empty
  heap, comes out in ascending order with the same multiplicities.\<close>

theorem heap_sorts:
  assumes "heap_rep s xs 0" and "length vs \<le> length xs"
  shows "\<exists>s'. seq (for_each vs insertHeap) (collect (length vs) extractMin) s = Inr (sort vs, s') \<and> heap_holds s' {#}"
proof -
  from insertHeap_all[OF assms(1), of vs] assms(2) obtain s1 ys where
    1: "for_each vs insertHeap s = Inr ((), s1)" "heap_rep s1 ys (length vs)" "mset (take (length vs) ys) = mset vs" by auto
  then have "heap_holds s1 (mset vs)" by (auto simp: heap_holds_def)
  from mheap.drain_sorted[OF this] 1(1) show ?thesis by (auto simp: exec_simps)
qed

theorem heap_sorts_witness:
  "\<exists>s xs s'. heap_rep s xs 0 \<and> seq (for_each [3, 1, 2, 1] insertHeap) (collect 4 extractMin) s = Inr ([1, 1, 2, 3], s')"
proof -
  from createHeap_ok[of 2 5 int] obtain s xs where s: "heap_rep s xs 0" "length xs = 5" by (auto simp: int_range_defs)
  from heap_sorts[OF s(1), of "[3, 1, 2, 1]"] s show ?thesis by (auto simp: eval_nat_numeral)
qed

text \<open>\<^verbatim>\<open>extractMin\<close> of a heap with one element is a race: it resets the size and unlocks before it reads
  the array, so when another thread inserts in between, the caller receives the value just inserted, which also stays
  in the heap, and the minimum is lost; without the interruption it receives the minimum.\<close>

theorem heap_extract_race:
  assumes "heap_rep s xs 1"
  shows "(\<exists>s' ys. par [0, 1, 0] [t_extractMin (\<lambda>v. atomic (printf ''%d'' [v]) (\<lambda>_. Done)), atomic (insertHeap w) (\<lambda>_. Done)] s = Inr s' \<and>
       out s' = out s @ [(''%d'', [w])] \<and> heap_rep s' ys 1 \<and> take 1 ys = [w]) \<and>
     (\<exists>s'. par [0, 0, 0] [t_extractMin (\<lambda>v. atomic (printf ''%d'' [v]) (\<lambda>_. Done)), atomic (insertHeap w) (\<lambda>_. Done)] s = Inr s' \<and>
       out s' = out s @ [(''%d'', [xs ! 0])])"
proof -
  note e = extract_section_one[OF assms]
  have r: "heap_at s xs" "1 \<le> length xs" using assms by (auto elim: heap_repE)
  then have ne: "xs \<noteq> []" by auto
  from insertHeap_ok[OF e[THEN conjunct2], of w] ne obtain s1 ys where
    1: "insertHeap w (s\<lparr>h_size := 0\<rparr>) = Inr ((), s1)" "heap_rep s1 ys 1" "mset (take 1 ys) = {#w#}" "out s1 = out s" by auto
  then have "heap_at s1 ys" "1 \<le> length ys" "take 1 ys = [w]" by (auto elim: heap_repE)
  moreover from this have "ys ! 0 = w" by (cases ys) auto
  ultimately have rd: "h_read 0 s1 = Inr (w, s1)" using h_read_ok[of s1 ys 0] by (cases ys) auto
  let ?t = "s\<lparr>h_size := 0\<rparr>"
  have rd0: "h_read 0 ?t = Inr (xs ! 0, ?t)" using h_read_ok[of ?t xs 0] r by (cases xs) auto
  have "heap_rep (?t\<lparr>out := out s @ [(''%d'', [xs ! 0])]\<rparr>) xs 0" using e by simp
  from insertHeap_ok[OF this, of w] ne obtain s2 where
    2: "insertHeap w (?t\<lparr>out := out s @ [(''%d'', [xs ! 0])]\<rparr>) = Inr ((), s2)" "out s2 = out s @ [(''%d'', [xs ! 0])]" by auto
  show ?thesis
    using e 1 rd rd0 2 \<open>take 1 ys = [w]\<close> by (simp add: t_extractMin_def atomic_def exec_simps) blast
qed

theorem heap_extract_race_witness:
  "\<exists>s xs. heap_rep s xs 1 \<and>
     (\<exists>s'. par [0, 1, 0] [t_extractMin (\<lambda>v. atomic (printf ''%d'' [v]) (\<lambda>_. Done)), atomic (insertHeap 9) (\<lambda>_. Done)] s = Inr s' \<and>
       out s' = out s @ [(''%d'', [9])])"
proof -
  from createHeap_ok[of 2 3 int] obtain s0 xs0 where "heap_rep s0 xs0 0" "length xs0 = 3" by (auto simp: int_range_defs)
  from insertHeap_all[OF this(1), of "[7]"] this(2) obtain s xs where s: "heap_rep s xs 1" by auto
  from heap_extract_race[OF s, of 9] s show ?thesis by blast
qed

end
