(* ===== verification/DynArray.thy ===== *)
theory DynArray
  imports Arrays
begin

text \<open>
  \<^verbatim>\<open>ThreadTrove/array\<close>: a growing array under one mutex, with bubble sort and in-place reversal. The
  program \<^verbatim>\<open>array.c\<close> has four threads that also read and write a global variable without any lock; its
  reads and writes are steps of their own. \<^verbatim>\<open>merge\<close> cannot return unless the other array is empty.
\<close>

section \<open>array/array.h\<close>

text \<open>Arrays are numbered; the mutex of array \<open>t\<close> is lock \<open>t\<close>.\<close>

record array_world = arr_world +
  a_data :: "nat \<Rightarrow> ptr"
  a_size :: "nat \<Rightarrow> int"
  a_capacity :: "nat \<Rightarrow> int"
  shared_value :: int

definition array_boot :: "nat \<Rightarrow> (nat \<Rightarrow> int) \<Rightarrow> array_world" where
  "array_boot r g = arr_world.extend (world.extend (boot r []) \<lparr>garbage = g\<rparr>)
     \<lparr>a_data = (\<lambda>_. NULL), a_size = (\<lambda>_. 0), a_capacity = (\<lambda>_. 0), shared_value = 0\<rparr>"

definition INITIAL_CAPACITY :: int where
  "INITIAL_CAPACITY = 10"

definition a_read :: "nat \<Rightarrow> int \<Rightarrow> (array_world, int) exec" where
  "a_read t i = bnd (gets (\<lambda>s. a_data s t)) (\<lambda>p. read_at p i)"

definition a_write :: "nat \<Rightarrow> int \<Rightarrow> int \<Rightarrow> (array_world, unit) exec" where
  "a_write t i v = bnd (gets (\<lambda>s. a_data s t)) (\<lambda>p. write_at p i v)"

definition set_size :: "nat \<Rightarrow> int \<Rightarrow> (array_world, unit) exec" where
  "set_size t n = modify (\<lambda>s. s\<lparr>a_size := (a_size s)(t := n)\<rparr>)"

definition init_array :: "nat \<Rightarrow> (array_world, unit) exec" where
  "init_array t =
     bnd (pmalloc_ints INITIAL_CAPACITY) (\<lambda>p.
     seq (modify (\<lambda>s. s\<lparr>a_data := (a_data s)(t := p)\<rparr>))
     (seq (set_size t 0)
     (seq (modify (\<lambda>s. s\<lparr>a_capacity := (a_capacity s)(t := INITIAL_CAPACITY)\<rparr>))
     (pthread_mutex_init t))))"

definition resize_array :: "nat \<Rightarrow> (array_world, unit) exec" where
  "resize_array t =
     bnd (gets (\<lambda>s. a_capacity s t)) (\<lambda>c.
     bnd (cint (c * 2)) (\<lambda>c'.
     seq (modify (\<lambda>s. s\<lparr>a_capacity := (a_capacity s)(t := c')\<rparr>))
     (bnd (gets (\<lambda>s. a_data s t)) (\<lambda>p.
     bnd (realloc_ints p c') (\<lambda>q.
     modify (\<lambda>s. s\<lparr>a_data := (a_data s)(t := q)\<rparr>))))))"

definition array_insert :: "nat \<Rightarrow> int \<Rightarrow> (array_world, unit) exec" where
  "array_insert t value =
     seq (pthread_mutex_lock t)
     (bnd (gets (\<lambda>s. a_size s t)) (\<lambda>n.
     bnd (gets (\<lambda>s. a_capacity s t)) (\<lambda>c.
     seq (if n = c then resize_array t else ret ())
     (seq (a_write t n value)
     (bnd (cint (n + 1)) (\<lambda>n'.
     seq (set_size t n')
     (pthread_mutex_unlock t)))))))"

definition delete_element :: "nat \<Rightarrow> int \<Rightarrow> (array_world, bool) exec" where
  "delete_element t index =
     seq (pthread_mutex_lock t)
     (bnd (gets (\<lambda>s. a_size s t)) (\<lambda>n.
     if index < 0 \<or> n \<le> index then seq (pthread_mutex_unlock t) (ret False)
     else
       seq (for_each [index..n - 2] (\<lambda>i. bnd (a_read t (i + 1)) (a_write t i)))
       (seq (set_size t (n - 1))
       (seq (pthread_mutex_unlock t) (ret True)))))"

definition array_get :: "nat \<Rightarrow> int \<Rightarrow> (array_world, int) exec" where
  "array_get t index =
     seq (pthread_mutex_lock t)
     (bnd (gets (\<lambda>s. a_size s t)) (\<lambda>n.
     if index < 0 \<or> n \<le> index then seq (pthread_mutex_unlock t) (ret (- 1))
     else bnd (a_read t index) (\<lambda>v. seq (pthread_mutex_unlock t) (ret v))))"

definition array_update :: "nat \<Rightarrow> int \<Rightarrow> int \<Rightarrow> (array_world, bool) exec" where
  "array_update t index value =
     seq (pthread_mutex_lock t)
     (bnd (gets (\<lambda>s. a_size s t)) (\<lambda>n.
     if index < 0 \<or> n \<le> index then seq (pthread_mutex_unlock t) (ret False)
     else seq (a_write t index value) (seq (pthread_mutex_unlock t) (ret True))))"

primrec find_loop :: "nat \<Rightarrow> int \<Rightarrow> int list \<Rightarrow> (array_world, int) exec" where
  "find_loop t value [] = ret (- 1)"
| "find_loop t value (i # is) = bnd (a_read t i) (\<lambda>v. if v = value then ret i else find_loop t value is)"

definition array_find :: "nat \<Rightarrow> int \<Rightarrow> (array_world, int) exec" where
  "array_find t value =
     seq (pthread_mutex_lock t)
     (bnd (gets (\<lambda>s. a_size s t)) (\<lambda>n.
     bnd (find_loop t value [0..n - 1]) (\<lambda>i.
     seq (pthread_mutex_unlock t) (ret i))))"

definition array_clear :: "nat \<Rightarrow> (array_world, unit) exec" where
  "array_clear t = seq (pthread_mutex_lock t) (seq (set_size t 0) (pthread_mutex_unlock t))"

definition array_size :: "nat \<Rightarrow> (array_world, int) exec" where
  "array_size t =
     seq (pthread_mutex_lock t) (bnd (gets (\<lambda>s. a_size s t)) (\<lambda>n. seq (pthread_mutex_unlock t) (ret n)))"

definition array_is_empty :: "nat \<Rightarrow> (array_world, bool) exec" where
  "array_is_empty t =
     seq (pthread_mutex_lock t) (bnd (gets (\<lambda>s. a_size s t)) (\<lambda>n. seq (pthread_mutex_unlock t) (ret (n = 0))))"

definition array_capacity :: "nat \<Rightarrow> (array_world, int) exec" where
  "array_capacity t =
     seq (pthread_mutex_lock t) (bnd (gets (\<lambda>s. a_capacity s t)) (\<lambda>c. seq (pthread_mutex_unlock t) (ret c)))"

definition array_display :: "nat \<Rightarrow> (array_world, unit) exec" where
  "array_display t =
     seq (pthread_mutex_lock t)
     (seq (printf ''Array contents: '' [])
     (bnd (gets (\<lambda>s. a_size s t)) (\<lambda>n.
     seq (for_each [0..n - 1] (\<lambda>i. bnd (a_read t i) (\<lambda>v. printf ''%d '' [v])))
     (seq (printf ''\<newline>'' [])
     (pthread_mutex_unlock t)))))"

definition bubble :: "nat \<Rightarrow> int \<Rightarrow> (array_world, unit) exec" where
  "bubble t j =
     bnd (a_read t j) (\<lambda>x. bnd (a_read t (j + 1)) (\<lambda>y.
     if y < x then seq (a_write t j y) (a_write t (j + 1) x) else ret ()))"

definition array_sort :: "nat \<Rightarrow> (array_world, unit) exec" where
  "array_sort t =
     seq (pthread_mutex_lock t)
     (bnd (gets (\<lambda>s. a_size s t)) (\<lambda>n.
     seq (for_each [0..n - 2] (\<lambda>i. for_each [0..n - 2 - i] (bubble t)))
     (pthread_mutex_unlock t)))"

text \<open>\<^verbatim>\<open>while (start < end)\<close>: the distance shrinks in each round.\<close>

primrec reverse_loop :: "nat \<Rightarrow> nat \<Rightarrow> int \<Rightarrow> int \<Rightarrow> (array_world, unit) exec" where
  "reverse_loop t 0 start end = raise Diverges"
| "reverse_loop t (Suc k) start end =
     (if start < end then
        bnd (a_read t start) (\<lambda>temp.
        bnd (a_read t end) (\<lambda>x.
        seq (a_write t start x)
        (seq (a_write t end temp)
        (reverse_loop t k (start + 1) (end - 1)))))
      else ret ())"

definition array_reverse :: "nat \<Rightarrow> (array_world, unit) exec" where
  "array_reverse t =
     seq (pthread_mutex_lock t)
     (bnd (gets (\<lambda>s. a_size s t)) (\<lambda>n.
     seq (reverse_loop t (Suc (nat n)) 0 (n - 1))
     (pthread_mutex_unlock t)))"

definition array_merge :: "nat \<Rightarrow> nat \<Rightarrow> (array_world, unit) exec" where
  "array_merge t other =
     seq (pthread_mutex_lock t)
     (bnd (gets (\<lambda>s. a_size s other)) (\<lambda>n.
     seq (for_each [0..n - 1] (\<lambda>i. bnd (a_read other i) (array_insert t)))
     (pthread_mutex_unlock t)))"

section \<open>array/array.c\<close>

text \<open>Reading and writing \<^verbatim>\<open>shared_value\<close> are separate steps: no lock protects it.\<close>

definition array_thread_func :: "int \<Rightarrow> array_world thread" where
  "array_thread_func thread_id =
     atomic (gets shared_value) (\<lambda>v.
     atomic (array_insert 0 v) (\<lambda>_.
     atomic (gets shared_value) (\<lambda>v'.
     atomic (printf ''Thread %d inserted: %d into the array\<newline>'' [thread_id, v']) (\<lambda>_.
     atomic (gets shared_value) (\<lambda>w.
     atomic (bnd (cint (w + 1)) (\<lambda>w'. modify (\<lambda>s. s\<lparr>shared_value := w'\<rparr>))) (\<lambda>_.
     atomic (array_size 0) (\<lambda>n.
     atomic (array_get 0 (n - 1)) (\<lambda>value_read.
     if value_read \<noteq> - 1 then
       atomic (printf ''Thread %d read: %d from the array\<newline>'' [thread_id, value_read]) (\<lambda>_.
       atomic (bnd (cint (value_read + 1)) (array_insert 0)) (\<lambda>_.
       atomic (bnd (cint (value_read + 1)) (\<lambda>x.
         printf ''Thread %d inserted: %d into the array\<newline>'' [thread_id, x])) (\<lambda>_. Done)))
     else Done))))))))"

definition array_main :: "nat list \<Rightarrow> (nat \<Rightarrow> int) \<Rightarrow> (array_world, int) exec" where
  "array_main sched tid =
     seq (init_array 0)
     (seq (run_threads sched (map (\<lambda>i. array_thread_func (tid i)) [0..<4]))
     (seq (printf ''Final contents of the array:\<newline>'' [])
     (seq (array_display 0)
     (seq (pthread_mutex_destroy 0)
     (bnd (gets (\<lambda>s. a_data s 0)) (\<lambda>p.
     seq (free p) (ret 0)))))))"

section \<open>The representation\<close>

definition block_at :: "nat \<Rightarrow> array_world \<Rightarrow> int list \<Rightarrow> bool" where
  "block_at t s xs \<longleftrightarrow> a_data s t \<noteq> NULL \<and> cells s (a_data s t) = Some xs"

abbreviation put_block :: "nat \<Rightarrow> int list \<Rightarrow> array_world \<Rightarrow> array_world" where
  "put_block t xs s \<equiv> s\<lparr>cells := (cells s)(a_data s t \<mapsto> xs)\<rparr>"

lemma block_at_put [simp]: "block_at t s xs \<Longrightarrow> block_at t (put_block t ys s) zs \<longleftrightarrow> zs = ys"
  by (auto simp: block_at_def)

lemma put_block_same: "block_at t s xs \<Longrightarrow> put_block t xs s = s"
  by (simp add: block_at_def map_upd_triv)

lemma block_at_update [simp]:
  "block_at t (locks_update f s) xs = block_at t s xs"
  "block_at t (a_size_update g s) xs = block_at t s xs"
  "block_at t (out_update h s) xs = block_at t s xs"
  "block_at t (shared_value_update h' s) xs = block_at t s xs"
  by (simp_all add: block_at_def)

lemma a_read_ok: "block_at t s xs \<Longrightarrow> i < length xs \<Longrightarrow> a_read t (int i) s = Inr (xs ! i, s)"
  by (simp add: a_read_def block_at_def exec_simps)

lemma a_write_ok: "block_at t s xs \<Longrightarrow> i < length xs \<Longrightarrow> a_write t (int i) v s = Inr ((), put_block t (xs[i := v]) s)"
  by (simp add: a_write_def block_at_def exec_simps)

text \<open>A loop whose body transforms the block.\<close>

lemma for_each_block:
  assumes "block_at t s xs" and "P xs"
    and "\<And>i s xs. i \<in> set is \<Longrightarrow> block_at t s xs \<Longrightarrow> P xs \<Longrightarrow> body (c i) s = Inr ((), put_block t (f i xs) s) \<and> P (f i xs)"
  shows "for_each (map c is) body s = Inr ((), put_block t (fold f is xs) s) \<and> P (fold f is xs)"
  using assms
proof (induction "is" arbitrary: s xs)
  case Nil
  then show ?case using put_block_same[of t s xs] by (simp add: exec_simps)
next
  case (Cons i "is")
  have b: "body (c i) s = Inr ((), put_block t (f i xs) s)" "P (f i xs)" using Cons.prems by auto
  have "block_at t (put_block t (f i xs) s) (f i xs)" using Cons.prems(1) by simp
  from Cons.IH[OF this b(2)] Cons.prems(3) b show ?case by (simp add: exec_simps)
qed

definition array_rep :: "nat \<Rightarrow> array_world \<Rightarrow> int list \<Rightarrow> bool" where
  "array_rep t s vs \<longleftrightarrow> locks s t = Free \<and> wf_world s \<and> a_size s t = int (length vs) \<and> a_capacity s t \<le> INT_MAX \<and>
     0 < a_capacity s t \<and>
     (\<exists>xs. block_at t s xs \<and> int (length xs) = a_capacity s t \<and> length vs \<le> length xs \<and> take (length vs) xs = vs)"

lemma array_repE:
  assumes "array_rep t s vs"
  obtains xs where "locks s t = Free" "wf_world s" "a_size s t = int (length vs)" "a_capacity s t \<le> INT_MAX"
    "0 < a_capacity s t" "block_at t s xs" "int (length xs) = a_capacity s t" "length vs \<le> length xs" "take (length vs) xs = vs"
  using assms unfolding array_rep_def by blast

lemma array_rep_out [simp]: "array_rep t (out_update f s) vs = array_rep t s vs"
  "array_rep t (shared_value_update g s) vs = array_rep t s vs"
  by (simp_all add: array_rep_def wf_world_def)

text \<open>Changing the block and the size.\<close>

lemma array_rep_put:
  assumes "array_rep t s vs" and "block_at t s xs" and "length ys = length xs" and "n \<le> length xs"
  shows "array_rep t (s\<lparr>cells := (cells s)(a_data s t \<mapsto> ys), a_size := (a_size s)(t := int n)\<rparr>) (take n ys)"
proof -
  from assms(1) have r: "locks s t = Free" "wf_world s" "a_capacity s t \<le> INT_MAX" "0 < a_capacity s t" by (auto elim: array_repE)
  have c: "int (length xs) = a_capacity s t" using assms(1,2) by (auto elim!: array_repE simp: block_at_def)
  have "wf_world (s\<lparr>cells := (cells s)(a_data s t \<mapsto> ys), a_size := (a_size s)(t := int n)\<rparr>)"
    by (rule wf_world_upd[OF r(2), of "a_data s t" _ "Some ys"]) (use assms(2) in \<open>auto simp: block_at_def\<close>)
  then show ?thesis
    using r c assms(2-4) unfolding array_rep_def by (auto simp: block_at_def min_def)
qed

lemma array_rep_put_same:
  assumes "array_rep t s vs" and "block_at t s xs" and "length ys = length xs"
  shows "array_rep t (put_block t ys s) (take (length vs) ys)"
proof -
  have "a_size s t = int (length vs)" "length vs \<le> length xs"
    using assms(1,2) by (auto elim!: array_repE simp: block_at_def)
  moreover from this have "(a_size s)(t := int (length vs)) = a_size s" by auto
  ultimately show ?thesis using array_rep_put[OF assms(1,2,3), of "length vs"] by simp
qed

section \<open>Functional behaviour\<close>

lemma array_insert_fits:
  assumes "array_rep t s vs" and "int (length vs) < a_capacity s t"
  shows "\<exists>s'. array_insert t v s = Inr ((), s') \<and> array_rep t s' (vs @ [v]) \<and> room s' = room s \<and> out s' = out s \<and>
     a_capacity s' t = a_capacity s t \<and> shared_value s' = shared_value s \<and> dom (cells s') = dom (cells s) \<and> a_data s' = a_data s"
proof -
  from assms(1) obtain xs where r: "locks s t = Free" "wf_world s" "a_size s t = int (length vs)" "a_capacity s t \<le> INT_MAX"
    "0 < a_capacity s t" "block_at t s xs" "int (length xs) = a_capacity s t" "length vs \<le> length xs" "take (length vs) xs = vs"
    by (rule array_repE)
  have n: "length vs < length xs" using assms(2) r(7) by simp
  have "block_at t (s\<lparr>locks := (locks s)(t := Held)\<rparr>) xs" using r(6) by simp
  note w = a_write_ok[OF this n, of v]
  let ?s = "s\<lparr>cells := (cells s)(a_data s t \<mapsto> xs[length vs := v]), a_size := (a_size s)(t := int (Suc (length vs)))\<rparr>"
  have "int_range (int (length vs) + 1)" using assms(2) r(4) by (simp add: int_range_defs)
  then have "array_insert t v s = Inr ((), ?s)"
    using r(1,3) assms(2) w by (simp add: array_insert_def set_size_def exec_simps add.commute)
  moreover have "take (Suc (length vs)) (xs[length vs := v]) = vs @ [v]"
    using n r(9) by (simp add: take_Suc_conv_app_nth)
  then have "array_rep t ?s (vs @ [v])"
    using array_rep_put[OF assms(1) r(6), of "xs[length vs := v]" "Suc (length vs)"] n by simp
  ultimately show ?thesis using r(6) by (auto simp: block_at_def)
qed

lemma resize_array_ok:
  assumes "array_rep t s vs" and "a_capacity s t * 2 \<le> INT_MAX" and "0 < room s" and "locks s' = l"
    and "s' = s\<lparr>locks := l\<rparr>"
  shows "\<exists>s''. resize_array t s' = Inr ((), s''\<lparr>locks := l\<rparr>) \<and> array_rep t s'' vs \<and> room s'' = room s \<and> out s'' = out s \<and>
     a_capacity s'' t = a_capacity s t * 2 \<and> locks s'' = locks s"
proof -
  from assms(1) obtain xs where r: "locks s t = Free" "wf_world s" "a_size s t = int (length vs)" "a_capacity s t \<le> INT_MAX"
    "0 < a_capacity s t" "block_at t s xs" "int (length xs) = a_capacity s t" "length vs \<le> length xs" "take (length vs) xs = vs"
    by (rule array_repE)
  let ?c = "a_capacity s t * 2"
  let ?ys = "take (nat ?c) (xs @ map (garbage s) [0..<nat ?c])"
  let ?s = "s\<lparr>a_capacity := (a_capacity s)(t := ?c), cells := (cells s)(a_data s t := None, fresh s \<mapsto> ?ys), fresh := Suc (fresh s),
     a_data := (a_data s)(t := fresh s)\<rparr>"
  have p: "a_data s t \<noteq> NULL" "cells s (a_data s t) = Some xs" using r(6) by (auto simp: block_at_def)
  have "int_range ?c" using assms(2) r(5) by (simp add: int_range_defs)
  then have "resize_array t s' = Inr ((), ?s\<lparr>locks := l\<rparr>)"
    using assms(3) p unfolding assms(5) by (simp add: resize_array_def realloc_ints_def exec_simps)
  moreover have "array_rep t ?s vs"
  proof -
    have ys: "length ?ys = nat ?c" "take (length vs) ?ys = vs" "length vs \<le> length ?ys"
      using r(5,7,8,9) by (auto simp: take_append min_def)
    have "wf_world ?s" using r(2) wf_world_dom[OF r(2) p(2)] by (auto simp: wf_world_def)
    with ys r assms(2) show ?thesis unfolding array_rep_def
      by (intro conjI exI[of _ ?ys]) (simp_all add: block_at_def)
  qed
  ultimately show ?thesis by (intro exI[of _ ?s]) simp
qed

lemma array_insert_grows:
  assumes "array_rep t s vs" and "int (length vs) = a_capacity s t" and "a_capacity s t * 2 \<le> INT_MAX" and "0 < room s"
  shows "\<exists>s'. array_insert t v s = Inr ((), s') \<and> array_rep t s' (vs @ [v]) \<and> room s' = room s \<and> out s' = out s \<and>
     a_capacity s' t = a_capacity s t * 2"
proof -
  from assms(1) have r: "locks s t = Free" "a_size s t = int (length vs)" "0 < a_capacity s t" by (auto elim: array_repE)
  let ?l = "(locks s)(t := Held)"
  from resize_array_ok[OF assms(1,3,4), of "s\<lparr>locks := ?l\<rparr>" ?l] obtain s1 where
    1: "resize_array t (s\<lparr>locks := ?l\<rparr>) = Inr ((), s1\<lparr>locks := ?l\<rparr>)" "array_rep t s1 vs" "room s1 = room s" "out s1 = out s"
      "a_capacity s1 t = a_capacity s t * 2" "locks s1 = locks s" by auto
  have "int (length vs) < a_capacity s1 t" using assms(2) r(3) 1(5) by simp
  from array_insert_fits[OF 1(2) this, of v] obtain s' where
    2: "array_insert t v s1 = Inr ((), s')" "array_rep t s' (vs @ [v])" "room s' = room s1" "out s' = out s1"
      "a_capacity s' t = a_capacity s1 t" by blast
  have "locks s1 t = Free" "a_size s1 t = int (length vs)" using 1(2) by (auto elim: array_repE)
  then have "array_insert t v s = array_insert t v s1"
    using r assms(2) 1(1,5,6) by (simp add: array_insert_def exec_simps)
  with 1 2 show ?thesis by auto
qed

lemma array_read_ops:
  assumes "array_rep t s vs"
  shows "array_size t s = Inr (int (length vs), s)" and "array_is_empty t s = Inr (vs = [], s)"
    and "array_capacity t s = Inr (a_capacity s t, s)"
    and "array_get t i s = Inr (if 0 \<le> i \<and> i < int (length vs) then vs ! nat i else - 1, s)"
    and "array_find t v s = Inr (if v \<in> set vs then int (LEAST i. i < length vs \<and> vs ! i = v) else - 1, s)"
    and "array_display t s = Inr ((), s\<lparr>out := out s @ (''Array contents: '', []) # map (\<lambda>v. (''%d '', [v])) vs @ [(''\<newline>'', [])]\<rparr>)"
proof -
  from assms(1) obtain xs where r: "locks s t = Free" "wf_world s" "a_size s t = int (length vs)"
    "block_at t s xs" "length vs \<le> length xs" "take (length vs) xs = vs"
    by (rule array_repE)
  show "array_size t s = Inr (int (length vs), s)" "array_is_empty t s = Inr (vs = [], s)" "array_capacity t s = Inr (a_capacity s t, s)"
    using r(1,3) by (simp_all add: array_size_def array_is_empty_def array_capacity_def exec_simps)
  have nth: "xs ! j = vs ! j" if "j < length vs" for j using r(6) that by (metis nth_take)
  have rd: "a_read t (int j) u = Inr (vs ! j, u)" if "block_at t u xs" "j < length vs" for j u
    using a_read_ok[OF that(1), of j] nth[OF that(2)] that r(5) by simp
  let ?l = "s\<lparr>locks := (locks s)(t := Held)\<rparr>"
  have l: "block_at t ?l xs" using r(4) by simp
  show "array_get t i s = Inr (if 0 \<le> i \<and> i < int (length vs) then vs ! nat i else - 1, s)"
    using r(1,3) rd[OF l, of "nat i"] by (auto simp: array_get_def exec_simps)
  have find: "find_loop t v (map int [k..<length vs]) ?l =
      Inr (case find (\<lambda>i. vs ! i = v) [k..<length vs] of None \<Rightarrow> - 1 | Some i \<Rightarrow> int i, ?l)" for k
  proof (induction "length vs - k" arbitrary: k)
    case (Suc m)
    then have "k < length vs" "[k..<length vs] = k # [Suc k..<length vs]" by (simp_all add: upt_rec)
    with Suc.hyps(1)[of "Suc k"] Suc.hyps(2) rd[OF l, of k] show ?case by (simp add: exec_simps)
  qed (simp add: exec_simps)
  have least: "(case find (\<lambda>i. vs ! i = v) [0..<length vs] of None \<Rightarrow> - 1 | Some i \<Rightarrow> int i) =
      (if v \<in> set vs then int (LEAST i. i < length vs \<and> vs ! i = v) else - 1)"
  proof (cases "find (\<lambda>i. vs ! i = v) [0..<length vs]")
    case None
    then have "v \<notin> set vs" by (auto simp: find_None_iff in_set_conv_nth)
    with None show ?thesis by simp
  next
    case (Some i)
    then have i: "i < length vs" "vs ! i = v" "\<forall>j<i. vs ! j \<noteq> v" by (auto simp: find_Some_iff)
    then have "(LEAST i. i < length vs \<and> vs ! i = v) = i" by (intro Least_equality) (auto simp: not_less[symmetric])
    with Some i show ?thesis by (auto simp: in_set_conv_nth)
  qed
  have "array_find t v s = Inr (case find (\<lambda>i. vs ! i = v) [0..<length vs] of None \<Rightarrow> - 1 | Some i \<Rightarrow> int i, s)"
    unfolding array_find_def using r(1,3) find[of 0] by (simp add: exec_simps upto_int)
  then show "array_find t v s = Inr (if v \<in> set vs then int (LEAST i. i < length vs \<and> vs ! i = v) else - 1, s)"
    unfolding least .
  have loop: "for_each (map int is) (\<lambda>i. bnd (a_read t i) (\<lambda>v. printf ''%d '' [v])) u =
      Inr ((), u\<lparr>out := out u @ map (\<lambda>i. (''%d '', [vs ! i])) is\<rparr>)" if "block_at t u xs" "\<forall>i\<in>set is. i < length vs" for u "is"
    using that
  proof (induction "is" arbitrary: u)
    case (Cons i "is")
    from Cons.IH[of "u\<lparr>out := out u @ [(''%d '', [vs ! i])]\<rparr>"] Cons.prems rd[OF Cons.prems(1), of i] show ?case
      by (simp add: exec_simps)
  qed (simp add: exec_simps)
  have "map (\<lambda>i. (''%d '', [vs ! i])) [0..<length vs] = map (\<lambda>v. (''%d '', [v])) vs"
    by (intro nth_equalityI) simp_all
  with loop[of "?l\<lparr>out := out s @ [(''Array contents: '', [])]\<rparr>" "[0..<length vs]"] l r(1,3)
  show "array_display t s = Inr ((), s\<lparr>out := out s @ (''Array contents: '', []) # map (\<lambda>v. (''%d '', [v])) vs @ [(''\<newline>'', [])]\<rparr>)"
    by (simp add: array_display_def exec_simps upto_int del: for_each.simps upt_Suc)
qed

lemma array_update_ok:
  assumes "array_rep t s vs"
  shows "\<exists>s'. array_update t i v s = Inr (0 \<le> i \<and> i < int (length vs), s') \<and>
     array_rep t s' (if 0 \<le> i \<and> i < int (length vs) then vs[nat i := v] else vs)"
proof -
  from assms(1) obtain xs where r: "locks s t = Free" "a_size s t = int (length vs)"
    "block_at t s xs" "length vs \<le> length xs" "take (length vs) xs = vs" by (rule array_repE)
  show ?thesis
  proof (cases "0 \<le> i \<and> i < int (length vs)")
    case True
    then obtain j where j: "i = int j" "j < length vs" by (metis nonneg_int_cases of_nat_less_iff)
    have "block_at t (s\<lparr>locks := (locks s)(t := Held)\<rparr>) xs" using r(3) by simp
    from a_write_ok[OF this, of j v] j r have "array_update t i v s = Inr (True, put_block t (xs[j := v]) s)"
      by (simp add: array_update_def exec_simps)
    moreover have "array_rep t (put_block t (xs[j := v]) s) (vs[j := v])"
      using array_rep_put_same[OF assms r(3), of "xs[j := v]"] r(5) by (simp add: take_update_swap)
    ultimately show ?thesis using j by simp
  next
    case False
    then have "array_update t i v s = Inr (False, s)" using r by (auto simp: array_update_def exec_simps)
    with False assms show ?thesis by auto
  qed
qed

text \<open>Deletion shifts the rest of the array to the left.\<close>

lemma shift_left:
  "m < length xs \<Longrightarrow> length (fold (\<lambda>j ys. ys[j := ys ! Suc j]) [i..<m] xs) = length xs \<and>
   (\<forall>j<length xs. fold (\<lambda>j ys. ys[j := ys ! Suc j]) [i..<m] xs ! j = (if i \<le> j \<and> j < m then xs ! Suc j else xs ! j))"
proof (induction m)
  case (Suc m)
  show ?case
  proof (cases "i \<le> m")
    case True
    with Suc show ?thesis by (auto simp: nth_list_update)
  qed auto
qed simp

lemma delete_element_ok:
  assumes "array_rep t s vs"
  shows "\<exists>s'. delete_element t i s = Inr (0 \<le> i \<and> i < int (length vs), s') \<and>
     array_rep t s' (if 0 \<le> i \<and> i < int (length vs) then take (nat i) vs @ drop (Suc (nat i)) vs else vs)"
proof -
  from assms(1) obtain xs where r: "locks s t = Free" "a_size s t = int (length vs)"
    "block_at t s xs" "length vs \<le> length xs" "take (length vs) xs = vs" by (rule array_repE)
  show ?thesis
  proof (cases "0 \<le> i \<and> i < int (length vs)")
    case True
    then obtain k where k: "i = int k" "k < length vs" by (metis nonneg_int_cases of_nat_less_iff)
    let ?m = "length vs - 1"
    let ?l = "s\<lparr>locks := (locks s)(t := Held)\<rparr>"
    let ?f = "\<lambda>j ys. ys[j := ys ! Suc j]"
    let ?ys = "fold ?f [k..<?m] xs"
    have l: "block_at t ?l xs" using r(3) by simp
    have up: "[int k..int (length vs) - 2] = map int [k..<?m]" using upto_int_from[of k ?m] k(2) by (simp add: of_nat_diff)
    have "for_each (map int [k..<?m]) (\<lambda>i. bnd (a_read t (i + 1)) (a_write t i)) ?l = Inr ((), put_block t ?ys ?l) \<and>
        length ?ys = length xs"
    proof (rule for_each_block[OF l])
      fix j u zs
      assume j: "j \<in> set [k..<?m]" "block_at t u zs" "length zs = length xs"
      then have "a_read t (int (Suc j)) u = Inr (zs ! Suc j, u)" using r(4) by (intro a_read_ok) auto
      with j a_write_ok[OF j(2), of j "zs ! Suc j"] r(4)
      show "bnd (a_read t (int j + 1)) (a_write t (int j)) u = Inr ((), put_block t (zs[j := zs ! Suc j]) u) \<and>
          length (zs[j := zs ! Suc j]) = length xs" by (auto simp: exec_simps add.commute)
    qed simp
    then have run: "delete_element t i s = Inr (True, s\<lparr>cells := (cells s)(a_data s t \<mapsto> ?ys), a_size := (a_size s)(t := int ?m)\<rparr>)"
      and len: "length ?ys = length xs"
      unfolding delete_element_def k(1) using r(1,2) k(2)
      by (simp_all add: exec_simps set_size_def up of_nat_diff del: for_each.simps)
    have "take ?m ?ys = take k vs @ drop (Suc k) vs"
    proof (rule nth_equalityI)
      show "length (take ?m ?ys) = length (take k vs @ drop (Suc k) vs)" using len r(4) k(2) by auto
      have vs: "xs ! j = vs ! j" if "j < length vs" for j using r(5) that by (metis nth_take)
      have "?m < length xs" using r(4) k(2) by linarith
      note sh = shift_left[OF this, of k, THEN conjunct2, rule_format]
      show "take ?m ?ys ! j = (take k vs @ drop (Suc k) vs) ! j" if "j < length (take ?m ?ys)" for j
      proof -
        have j: "j < ?m" "j < length xs" "j < length vs" "Suc j < length vs" using that len r(4) by auto
        with sh[OF j(2)] k(2) vs[OF j(3)] vs[OF j(4)] show ?thesis by (auto simp: nth_append)
      qed
    qed
    then have "array_rep t (s\<lparr>cells := (cells s)(a_data s t \<mapsto> ?ys), a_size := (a_size s)(t := int ?m)\<rparr>) (take k vs @ drop (Suc k) vs)"
      using array_rep_put[OF assms r(3) len, of ?m] r(4) by simp
    with run k show ?thesis by auto
  next
    case False
    then have "delete_element t i s = Inr (False, s)" using r by (auto simp: delete_element_def exec_simps)
    with False assms show ?thesis by auto
  qed
qed

section \<open>Bubble sort\<close>

definition bub :: "nat \<Rightarrow> int list \<Rightarrow> int list" where
  "bub j xs = (if xs ! Suc j < xs ! j then xs[j := xs ! Suc j, Suc j := xs ! j] else xs)"

definition pass :: "nat \<Rightarrow> int list \<Rightarrow> int list" where
  "pass m xs = fold bub [0..<m] xs"

lemma bub_length [simp]: "length (bub j xs) = length xs"
  by (simp add: bub_def)

lemma mset_bub: "Suc j < n \<Longrightarrow> n \<le> length xs \<Longrightarrow> mset (take n (bub j xs)) = mset (take n xs)"
  using mset_take_swap[of j n "Suc j" xs] by (simp add: bub_def)

text \<open>One pass moves a maximum of the prefix to its end.\<close>

lemma pass_spec:
  assumes "m < length xs"
  shows "length (pass m xs) = length xs \<and> (\<forall>j\<le>m. pass m xs ! j \<le> pass m xs ! m) \<and>
     (\<forall>j. m < j \<longrightarrow> pass m xs ! j = xs ! j) \<and> mset (take (Suc m) (pass m xs)) = mset (take (Suc m) xs)"
  using assms
proof (induction m)
  case 0
  then show ?case by (simp add: pass_def)
next
  case (Suc m)
  let ?ys = "pass m xs"
  from Suc have ys: "length ?ys = length xs" "\<forall>j\<le>m. ?ys ! j \<le> ?ys ! m" "\<forall>j. m < j \<longrightarrow> ?ys ! j = xs ! j"
    "mset (take (Suc m) ?ys) = mset (take (Suc m) xs)" by auto
  have eq: "pass (Suc m) xs = bub m ?ys" by (simp add: pass_def)
  have nth: "bub m ?ys ! j = (if j = m then min (?ys ! m) (?ys ! Suc m) else if j = Suc m then max (?ys ! m) (?ys ! Suc m) else ?ys ! j)"
    if "j < length xs" for j
    using that Suc.prems ys(1) by (auto simp: bub_def nth_list_update min_def max_def)
  have "bub m ?ys ! j \<le> bub m ?ys ! Suc m" if "j \<le> Suc m" for j
    using nth[of j] nth[of "Suc m"] that ys(2)[rule_format, of j] Suc.prems
    by (cases "j = Suc m"; cases "j = m") (auto simp: min_def max_def)
  moreover have "bub m ?ys ! j = xs ! j" if "Suc m < j" for j using ys(3) that by (simp add: bub_def)
  moreover have "mset (take (Suc (Suc m)) (bub m ?ys)) = mset (take (Suc (Suc m)) ?ys)"
    using mset_bub[of m "Suc (Suc m)" ?ys] ys(1) Suc.prems by simp
  moreover have "mset (take (Suc (Suc m)) ?ys) = mset (take (Suc (Suc m)) xs)"
    using ys Suc.prems by (simp add: take_Suc_conv_app_nth)
  ultimately show ?case unfolding eq using ys(1) by simp
qed

lemma pass_mset:
  assumes "m < n" "n \<le> length xs"
  shows "mset (take n (pass m xs)) = mset (take n xs)"
proof -
  have "drop (Suc m) (take n (pass m xs)) = drop (Suc m) (take n xs)"
    using pass_spec[of m xs] assms by (intro nth_equalityI) auto
  moreover have "take (Suc m) (take n ys) = take (Suc m) ys" for ys :: "int list" using assms by (simp add: min_def)
  ultimately show ?thesis
    using pass_spec[of m xs] assms by (metis append_take_drop_id le_less_trans less_le_trans mset_append)
qed

definition passes :: "nat \<Rightarrow> nat \<Rightarrow> int list \<Rightarrow> int list" where
  "passes n k xs = fold (\<lambda>i. pass (n - 1 - i)) [0..<k] xs"

lemma passes_spec:
  assumes "n \<le> length xs" and "k \<le> n - 1"
  shows "length (passes n k xs) = length xs \<and> mset (take n (passes n k xs)) = mset (take n xs) \<and>
     (\<forall>q<n. n - k \<le> q \<longrightarrow> (\<forall>p<q. passes n k xs ! p \<le> passes n k xs ! q))"
  using assms(2)
proof (induction k)
  case 0
  then show ?case by (simp add: passes_def)
next
  case (Suc k)
  let ?ys = "passes n k xs" and ?m = "n - 1 - k"
  from Suc have ys: "length ?ys = length xs" "mset (take n ?ys) = mset (take n xs)"
    "\<forall>q<n. n - k \<le> q \<longrightarrow> (\<forall>p<q. ?ys ! p \<le> ?ys ! q)" by auto
  have eq: "passes n (Suc k) xs = pass ?m ?ys" by (simp add: passes_def)
  have m: "?m < n" "?m < length ?ys" using Suc.prems assms(1) ys(1) by auto
  note p = pass_spec[OF m(2)]
  have below: "pass ?m ?ys ! i \<le> ?ys ! q" if "i \<le> ?m" "q < n" "n - k \<le> q" for i q
  proof -
    have "pass ?m ?ys ! i \<in> set (take (Suc ?m) (pass ?m ?ys))"
      using nth_mem[of i "take (Suc ?m) (pass ?m ?ys)"] that(1) p m(2) by simp
    also have "\<dots> = set (take (Suc ?m) ?ys)" using p by (metis set_mset_mset)
    finally obtain j where j: "j < Suc ?m" "pass ?m ?ys ! i = ?ys ! j" using m(2) by (auto simp: in_set_conv_nth)
    then have "j < q" using that Suc.prems by linarith
    with ys(3)[rule_format, of q j] that j(2) show ?thesis by simp
  qed
  have "pass ?m ?ys ! i \<le> pass ?m ?ys ! q" if "q < n" "n - Suc k \<le> q" "i < q" for i q
  proof (cases "q = ?m")
    case True
    with that p show ?thesis by auto
  next
    case False
    then have q: "n - k \<le> q" "?m < q" using that Suc.prems by linarith+
    then have "pass ?m ?ys ! q = ?ys ! q" using p by simp
    with below[of i q] ys(3) q that p show ?thesis by (cases "i \<le> ?m") auto
  qed
  with pass_mset[OF m(1), of ?ys] p ys(1,2) assms(1) show ?case unfolding eq by auto
qed

lemma passes_sorted:
  assumes "n \<le> length xs"
  shows "take n (passes n (n - 1) xs) = sort (take n xs)"
proof -
  note p = passes_spec[OF assms order_refl]
  have "sorted (take n (passes n (n - 1) xs))"
    unfolding sorted_iff_nth_mono_less using p assms by auto
  with p show ?thesis by (metis properties_for_sort)
qed

lemma bubble_ok:
  assumes "block_at t s xs" and "Suc j < length xs"
  shows "bubble t (int j) s = Inr ((), put_block t (bub j xs) s)"
proof -
  have a: "a_read t (int j) s = Inr (xs ! j, s)" "a_read t (int j + 1) s = Inr (xs ! Suc j, s)"
    using a_read_ok[OF assms(1), of j] a_read_ok[OF assms(1), of "Suc j"] assms(2) by (auto simp: add.commute)
  have "a_write t (int j) (xs ! Suc j) s = Inr ((), put_block t (xs[j := xs ! Suc j]) s)"
    using a_write_ok[OF assms(1), of j] assms(2) by simp
  moreover have "a_write t (int j + 1) (xs ! j) (put_block t (xs[j := xs ! Suc j]) s) =
      Inr ((), put_block t (xs[j := xs ! Suc j, Suc j := xs ! j]) s)"
    using a_write_ok[of t "put_block t (xs[j := xs ! Suc j]) s" "xs[j := xs ! Suc j]" "Suc j" "xs ! j"] assms
    by (simp add: add.commute)
  ultimately show ?thesis
    using a put_block_same[OF assms(1)] by (cases "xs ! Suc j < xs ! j") (simp_all add: bubble_def bub_def bnd_Inr seq_Inr ret_apply)
qed

lemma array_sort_ok:
  assumes "array_rep t s vs"
  shows "\<exists>s'. array_sort t s = Inr ((), s') \<and> array_rep t s' (sort vs) \<and> room s' = room s \<and> out s' = out s"
proof -
  from assms(1) obtain xs where r: "locks s t = Free" "a_size s t = int (length vs)"
    "block_at t s xs" "length vs \<le> length xs" "take (length vs) xs = vs" by (rule array_repE)
  let ?n = "length vs"
  let ?l = "s\<lparr>locks := (locks s)(t := Held)\<rparr>"
  let ?ys = "passes ?n (?n - 1) xs"
  have l: "block_at t ?l xs" using r(3) by simp
  have up: "[0..int ?n - 2 - int i] = map int [0..<?n - 1 - i]" for i
  proof (cases "i < ?n - 1")
    case True
    then have "int ?n - 2 - int i = int (?n - 1 - i) - 1" by simp
    then show ?thesis unfolding upto_int[of "?n - 1 - i", symmetric] by (rule arg_cong)
  qed simp
  have "for_each (map int [0..<?n - 1]) (\<lambda>i. for_each [0..int ?n - 2 - i] (bubble t)) ?l =
      Inr ((), put_block t (fold (\<lambda>i. pass (?n - 1 - i)) [0..<?n - 1] xs) ?l) \<and>
      length (fold (\<lambda>i. pass (?n - 1 - i)) [0..<?n - 1] xs) = length xs"
  proof (rule for_each_block[OF l])
    fix i u zs
    assume i: "i \<in> set [0..<?n - 1]" "block_at t u zs" "length zs = length xs"
    have "for_each (map int [0..<?n - 1 - i]) (bubble t) u = Inr ((), put_block t (fold bub [0..<?n - 1 - i] zs) u) \<and>
        length (fold bub [0..<?n - 1 - i] zs) = length xs"
      by (rule for_each_block[OF i(2)]) (use i(3) r(4) bubble_ok in auto)
    then show "for_each [0..int ?n - 2 - int i] (bubble t) u = Inr ((), put_block t (pass (?n - 1 - i) zs) u) \<and>
        length (pass (?n - 1 - i) zs) = length xs" unfolding up pass_def by simp
  qed simp
  then have "for_each [0..int ?n - 2] (\<lambda>i. for_each [0..int ?n - 2 - i] (bubble t)) ?l = Inr ((), put_block t ?ys ?l)"
    and len: "length ?ys = length xs"
    using up[of 0] by (simp_all add: passes_def)
  then have "array_sort t s = Inr ((), put_block t ?ys s)"
    unfolding array_sort_def using r(1,2) by (simp add: exec_simps del: for_each.simps)
  moreover have "array_rep t (put_block t ?ys s) (sort vs)"
    using array_rep_put_same[OF assms r(3) len] passes_sorted[OF r(4)] r(5) by simp
  ultimately show ?thesis by auto
qed

section \<open>Reversal\<close>

lemma reverse_loop_ok:
  assumes "block_at t s xs" and "i \<le> Suc j" and "j < length xs" and "j - i < k"
  shows "\<exists>ys. reverse_loop t k (int i) (int j) s = Inr ((), put_block t ys s) \<and> length ys = length xs \<and>
     (\<forall>p<length xs. ys ! p = (if i \<le> p \<and> p \<le> j then xs ! (i + j - p) else xs ! p))"
  using assms
proof (induction k arbitrary: i j s xs)
  case 0
  then show ?case by simp
next
  case (Suc k)
  show ?case
  proof (cases "i < j")
    case True
    let ?ys = "xs[i := xs ! j, j := xs ! i]"
    have "a_write t (int i) (xs ! j) s = Inr ((), put_block t (xs[i := xs ! j]) s)"
      using a_write_ok[OF Suc.prems(1), of i "xs ! j"] True Suc.prems(3) by simp
    moreover have "a_write t (int j) (xs ! i) (put_block t (xs[i := xs ! j]) s) = Inr ((), put_block t ?ys s)"
      using a_write_ok[of t "put_block t (xs[i := xs ! j]) s" "xs[i := xs ! j]" j "xs ! i"] Suc.prems by simp
    moreover have "int (j - 1) = int j - 1" "int (Suc i) = int i + 1" using True by auto
    ultimately have step: "reverse_loop t (Suc k) (int i) (int j) s = reverse_loop t k (int (Suc i)) (int (j - 1)) (put_block t ?ys s)"
      using a_read_ok[OF Suc.prems(1), of i] a_read_ok[OF Suc.prems(1), of j] Suc.prems(3) True by (simp add: exec_simps add.commute)
    have b: "block_at t (put_block t ?ys s) ?ys" using Suc.prems(1) by simp
    have k: "Suc i \<le> Suc (j - 1)" "j - 1 < length ?ys" "j - 1 - Suc i < k" using True Suc.prems(3,4) by auto
    from Suc.IH[OF b k] obtain zs where
      zs: "reverse_loop t k (int (Suc i)) (int (j - 1)) (put_block t ?ys s) = Inr ((), put_block t zs s)" "length zs = length xs"
        "\<forall>p<length xs. zs ! p = (if Suc i \<le> p \<and> p \<le> j - 1 then ?ys ! (Suc i + (j - 1) - p) else ?ys ! p)" by auto
    have "zs ! p = (if i \<le> p \<and> p \<le> j then xs ! (i + j - p) else xs ! p)" if "p < length xs" for p
    proof -
      have e: "Suc i + (j - 1) - p = i + j - p" using True by simp
      consider "p < i \<or> j < p" | "p = i" | "p = j" | "i < p" "p < j" by linarith
      then show ?thesis
      proof cases
        case 4
        then have "i + j - p \<noteq> i" "i + j - p \<noteq> j" "p \<le> j - 1" by linarith+
        with 4 zs(3) that e show ?thesis by simp
      qed (use zs(3) that True Suc.prems(3) in \<open>auto simp: nth_list_update\<close>)
    qed
    with step zs(1,2) show ?thesis by auto
  next
    case False
    then have "reverse_loop t (Suc k) (int i) (int j) s = Inr ((), put_block t xs s)"
      using put_block_same[OF Suc.prems(1)] by (simp add: exec_simps)
    moreover have "xs ! p = (if i \<le> p \<and> p \<le> j then xs ! (i + j - p) else xs ! p)" for p
    proof (cases "i \<le> p \<and> p \<le> j")
      case True
      with False have "i + j - p = p" by linarith
      then show ?thesis by simp
    qed auto
    ultimately show ?thesis by blast
  qed
qed

lemma array_reverse_ok:
  assumes "array_rep t s vs"
  shows "\<exists>s'. array_reverse t s = Inr ((), s') \<and> array_rep t s' (rev vs) \<and> room s' = room s \<and> out s' = out s"
proof (cases vs)
  case Nil
  from assms obtain xs where "locks s t = Free" "a_size s t = int (length vs)" "block_at t s xs" by (rule array_repE)
  with Nil have "array_reverse t s = Inr ((), s)" by (simp add: array_reverse_def exec_simps)
  with Nil assms show ?thesis by simp
next
  case (Cons v ws)
  from assms(1) obtain xs where r: "locks s t = Free" "a_size s t = int (length vs)"
    "block_at t s xs" "length vs \<le> length xs" "take (length vs) xs = vs" by (rule array_repE)
  let ?l = "s\<lparr>locks := (locks s)(t := Held)\<rparr>"
  have l: "block_at t ?l xs" using r(3) by simp
  let ?j = "length ws"
  from reverse_loop_ok[OF l, of 0 ?j "Suc (length vs)"] r(4) Cons obtain ys where
    ys: "reverse_loop t (Suc (length vs)) 0 (int ?j) ?l = Inr ((), put_block t ys ?l)" "length ys = length xs"
      "\<forall>p<length xs. ys ! p = (if p \<le> ?j then xs ! (?j - p) else xs ! p)" by auto
  have "array_reverse t s = Inr ((), put_block t ys s)"
    using r(1,2) ys(1) Cons by (simp add: array_reverse_def exec_simps nat_add_distrib del: reverse_loop.simps)
  moreover have "take (length vs) ys = rev vs"
  proof (rule nth_equalityI)
    fix p
    assume "p < length (take (length vs) ys)"
    then have p: "p < length vs" "p < length xs" using ys(2) by auto
    have "xs ! (?j - p) = vs ! (?j - p)" using r(5) Cons by (metis diff_less_Suc length_Cons nth_take)
    moreover have "rev vs ! p = vs ! (?j - p)" using rev_nth[of p vs] p(1) Cons by simp
    ultimately show "take (length vs) ys ! p = rev vs ! p" using ys(3) p Cons by (simp del: rev.simps)
  qed (use ys(2) r(4) in simp)
  then have "array_rep t (put_block t ys s) (rev vs)" using array_rep_put_same[OF assms r(3) ys(2)] by simp
  ultimately show ?thesis by auto
qed

section \<open>The program\<close>

text \<open>
  What a thread of \<^verbatim>\<open>array.c\<close> holds: \<open>Slot\<close> is an insertion it will make, \<open>Saw n\<close> that the array
  has at least \<open>n\<close> elements, \<open>Tick\<close> an increment of \<^verbatim>\<open>shared_value\<close> to come and \<open>Pending w\<close>
  one whose old value is read already, \<open>Rise\<close> and \<open>Got v\<close> the same for the value that it derives from
  the array. The variable can lose increments, but it never exceeds the number of increments.
\<close>

datatype array_token = Slot | Saw nat | Tick | Pending int | Rise | Got int

fun is_tick :: "array_token \<Rightarrow> bool" where
  "is_tick Tick = True" | "is_tick (Pending _) = True" | "is_tick _ = False"

fun is_rise :: "array_token \<Rightarrow> bool" where
  "is_rise Rise = True" | "is_rise (Got _) = True" | "is_rise _ = False"

abbreviation ticks :: "array_token multiset \<Rightarrow> int" where
  "ticks G \<equiv> int (size (filter_mset is_tick G))"

abbreviation rises :: "array_token multiset \<Rightarrow> int" where
  "rises G \<equiv> int (size (filter_mset is_rise G))"

definition array_inv :: "array_token multiset \<Rightarrow> array_world \<Rightarrow> bool" where
  "array_inv G s \<longleftrightarrow> rises G \<le> 4 \<and> 0 \<le> shared_value s \<and> shared_value s + ticks G \<le> 4 \<and>
     (\<forall>w. Pending w \<in># G \<longrightarrow> 0 \<le> w \<and> w + ticks G \<le> 4) \<and>
     (\<forall>v. Got v \<in># G \<longrightarrow> 0 \<le> v \<and> v + rises G \<le> 8) \<and> a_capacity s 0 = 10 \<and> dom (cells s) = {a_data s 0} \<and>
     (\<exists>vs. array_rep 0 s vs \<and> count G Slot + length vs = 8 \<and> (\<forall>v\<in>set vs. 0 \<le> v \<and> v + rises G \<le> 8) \<and>
        (\<forall>n. Saw n \<in># G \<longrightarrow> 1 \<le> n \<and> n \<le> length vs))"

lemma array_invE:
  assumes "array_inv G s"
  obtains vs where "rises G \<le> 4" "0 \<le> shared_value s" "shared_value s + ticks G \<le> 4"
    "\<forall>w. Pending w \<in># G \<longrightarrow> 0 \<le> w \<and> w + ticks G \<le> 4" "\<forall>v. Got v \<in># G \<longrightarrow> 0 \<le> v \<and> v + rises G \<le> 8"
    "a_capacity s 0 = 10" "dom (cells s) = {a_data s 0}" "array_rep 0 s vs" "count G Slot + length vs = 8"
    "\<forall>v\<in>set vs. 0 \<le> v \<and> v + rises G \<le> 8" "\<forall>n. Saw n \<in># G \<longrightarrow> 1 \<le> n \<and> n \<le> length vs"
  using assms unfolding array_inv_def by blast

lemma array_invI:
  assumes "rises G \<le> 4" "0 \<le> shared_value s" "shared_value s + ticks G \<le> 4"
    "\<And>w. Pending w \<in># G \<Longrightarrow> 0 \<le> w \<and> w + ticks G \<le> 4" "\<And>v. Got v \<in># G \<Longrightarrow> 0 \<le> v \<and> v + rises G \<le> 8"
    "a_capacity s 0 = 10" "dom (cells s) = {a_data s 0}" "array_rep 0 s vs" "count G Slot + length vs = 8"
    "\<And>v. v \<in> set vs \<Longrightarrow> 0 \<le> v \<and> v + rises G \<le> 8" "\<And>n. Saw n \<in># G \<Longrightarrow> 1 \<le> n \<and> n \<le> length vs"
  shows "array_inv G s"
  unfolding array_inv_def using assms by blast

lemma array_inv_out [simp]: "array_inv G (out_update f s) = array_inv G s"
  by (simp add: array_inv_def)

lemma filter_replicate [simp]: "filter_mset P (replicate_mset n x) = (if P x then replicate_mset n x else {#})"
  by (induction n) auto

lemma tok_array_printf:
  "tok array_inv Q g t \<Longrightarrow> tok array_inv Q g (atomic (printf f xs) (\<lambda>_. t))"
  by (rule tok_atomic) (auto simp: exec_simps)

text \<open>Reading the variable yields a small number.\<close>

lemma tok_read_shared:
  assumes "\<And>v. 0 \<le> v \<Longrightarrow> v \<le> 4 \<Longrightarrow> tok array_inv Q g (t v)"
  shows "tok array_inv Q g (atomic (gets shared_value) t)"
proof (rule tok_atomic)
  fix c s
  assume i: "array_inv (g + c) s"
  then have "0 \<le> shared_value s" "shared_value s \<le> 4" by (auto simp: array_inv_def)
  from assms[OF this] i show "\<exists>a s' g'. gets shared_value s = Inr (a, s') \<and> array_inv (g' + c) s' \<and> tok array_inv Q g' (t a)"
    unfolding gets_apply by blast
qed

lemma tok_read_tick:
  assumes "\<And>w. 0 \<le> w \<Longrightarrow> w \<le> 4 \<Longrightarrow> tok array_inv Q (add_mset (Pending w) g) (t w)"
  shows "tok array_inv Q (add_mset Tick g) (atomic (gets shared_value) t)"
proof (rule tok_atomic)
  fix c s
  assume "array_inv (add_mset Tick g + c) s"
  then obtain vs where r: "rises (g + c) \<le> 4" "0 \<le> shared_value s" "shared_value s + (1 + ticks (g + c)) \<le> 4"
    "\<forall>w. Pending w \<in># g + c \<longrightarrow> 0 \<le> w \<and> w + (1 + ticks (g + c)) \<le> 4" "\<forall>v. Got v \<in># g + c \<longrightarrow> 0 \<le> v \<and> v + rises (g + c) \<le> 8"
    "a_capacity s 0 = 10" "dom (cells s) = {a_data s 0}" "array_rep 0 s vs" "count (g + c) Slot + length vs = 8"
    "\<forall>v\<in>set vs. 0 \<le> v \<and> v + rises (g + c) \<le> 8" "\<forall>n. Saw n \<in># g + c \<longrightarrow> 1 \<le> n \<and> n \<le> length vs"
    by (elim array_invE) simp
  let ?w = "shared_value s"
  have "array_inv (add_mset (Pending ?w) g + c) s"
    by (rule array_invI[OF _ _ _ _ _ r(6,7,8)]) (use r in auto)
  moreover have "?w \<le> 4" using r(3) by linarith
  ultimately show "\<exists>a s' g'. gets shared_value s = Inr (a, s') \<and> array_inv (g' + c) s' \<and> tok array_inv Q g' (t a)"
    using assms[OF r(2)] unfolding gets_apply by blast
qed

lemma tok_write_tick:
  assumes "0 \<le> w" and "w \<le> 4" and "tok array_inv Q g t"
  shows "tok array_inv Q (add_mset (Pending w) g)
     (atomic (bnd (cint (w + 1)) (\<lambda>w'. modify (\<lambda>s. s\<lparr>shared_value := w'\<rparr>))) (\<lambda>_. t))"
proof (rule tok_atomic)
  fix c s
  assume "array_inv (add_mset (Pending w) g + c) s"
  then obtain vs where r: "rises (g + c) \<le> 4" "0 \<le> shared_value s" "shared_value s + (1 + ticks (g + c)) \<le> 4"
    "w + (1 + ticks (g + c)) \<le> 4"
    "\<forall>w. Pending w \<in># g + c \<longrightarrow> 0 \<le> w \<and> w + (1 + ticks (g + c)) \<le> 4" "\<forall>v. Got v \<in># g + c \<longrightarrow> 0 \<le> v \<and> v + rises (g + c) \<le> 8"
    "a_capacity s 0 = 10" "dom (cells s) = {a_data s 0}" "array_rep 0 s vs" "count (g + c) Slot + length vs = 8"
    "\<forall>v\<in>set vs. 0 \<le> v \<and> v + rises (g + c) \<le> 8" "\<forall>n. Saw n \<in># g + c \<longrightarrow> 1 \<le> n \<and> n \<le> length vs"
    by (elim array_invE) simp
  let ?s = "s\<lparr>shared_value := w + 1\<rparr>"
  have "array_rep 0 ?s vs" using r(9) by simp
  then have "array_inv (g + c) ?s" by (rule array_invI[rotated 7]) (use r assms(1) in auto)
  moreover have "int_range (w + 1)" using assms(1,2) by (simp add: int_range_defs)
  ultimately show "\<exists>a s' g'. bnd (cint (w + 1)) (\<lambda>w'. modify (\<lambda>s. s\<lparr>shared_value := w'\<rparr>)) s = Inr (a, s') \<and>
      array_inv (g' + c) s' \<and> tok array_inv Q g' t" using assms(3) by (auto simp: exec_simps)
qed

lemma tok_insert_first:
  assumes "0 \<le> v" and "v \<le> 4" and "tok array_inv Q (add_mset (Saw 1) g) t"
  shows "tok array_inv Q (add_mset Slot g) (atomic (array_insert 0 v) (\<lambda>_. t))"
proof (rule tok_atomic)
  fix c s
  assume "array_inv (add_mset Slot g + c) s"
  then obtain vs where r: "rises (g + c) \<le> 4" "0 \<le> shared_value s" "shared_value s + ticks (g + c) \<le> 4"
    "\<forall>w. Pending w \<in># g + c \<longrightarrow> 0 \<le> w \<and> w + ticks (g + c) \<le> 4" "\<forall>v. Got v \<in># g + c \<longrightarrow> 0 \<le> v \<and> v + rises (g + c) \<le> 8"
    "a_capacity s 0 = 10" "dom (cells s) = {a_data s 0}" "array_rep 0 s vs" "Suc (count (g + c) Slot) + length vs = 8"
    "\<forall>v\<in>set vs. 0 \<le> v \<and> v + rises (g + c) \<le> 8" "\<forall>n. Saw n \<in># g + c \<longrightarrow> 1 \<le> n \<and> n \<le> length vs"
    by (elim array_invE) simp
  from array_insert_fits[OF r(8), of v] r(6,9) obtain s' where
    s': "array_insert 0 v s = Inr ((), s')" "array_rep 0 s' (vs @ [v])" "a_capacity s' 0 = 10" "shared_value s' = shared_value s"
      "dom (cells s') = {a_data s' 0}" using r(7) by auto
  have "array_inv (add_mset (Saw 1) g + c) s'"
    by (rule array_invI[OF _ _ _ _ _ s'(3,5,2)]) (use r s'(4) assms(1,2) in auto)
  with s'(1) assms(3) show "\<exists>a s' g'. array_insert 0 v s = Inr (a, s') \<and> array_inv (g' + c) s' \<and> tok array_inv Q g' t" by blast
qed

lemma tok_insert_second:
  assumes "0 \<le> v" and "v \<le> 8" and "tok array_inv Q g t"
  shows "tok array_inv Q (add_mset (Got v) (add_mset Slot g)) (atomic (bnd (cint (v + 1)) (array_insert 0)) (\<lambda>_. t))"
proof (rule tok_atomic)
  fix c s
  assume "array_inv (add_mset (Got v) (add_mset Slot g) + c) s"
  then obtain vs where r: "1 + rises (g + c) \<le> 4" "0 \<le> shared_value s" "shared_value s + ticks (g + c) \<le> 4"
    "\<forall>w. Pending w \<in># g + c \<longrightarrow> 0 \<le> w \<and> w + ticks (g + c) \<le> 4" "\<forall>v. Got v \<in># g + c \<longrightarrow> 0 \<le> v \<and> v + (1 + rises (g + c)) \<le> 8"
    "a_capacity s 0 = 10" "dom (cells s) = {a_data s 0}" "array_rep 0 s vs" "Suc (count (g + c) Slot) + length vs = 8"
    "\<forall>v\<in>set vs. 0 \<le> v \<and> v + (1 + rises (g + c)) \<le> 8" "\<forall>n. Saw n \<in># g + c \<longrightarrow> 1 \<le> n \<and> n \<le> length vs"
    "v + (1 + rises (g + c)) \<le> 8"
    by (elim array_invE) simp
  from array_insert_fits[OF r(8), of "v + 1"] r(6,9) obtain s' where
    s': "array_insert 0 (v + 1) s = Inr ((), s')" "array_rep 0 s' (vs @ [v + 1])" "a_capacity s' 0 = 10" "shared_value s' = shared_value s"
      "dom (cells s') = {a_data s' 0}" using r(7) by auto
  have "array_inv (g + c) s'"
    by (rule array_invI[OF _ _ _ _ _ s'(3,5,2)]) (use r s'(4) assms(1) in force)+
  moreover have "int_range (v + 1)" using assms(1,2) by (simp add: int_range_defs)
  ultimately show "\<exists>a s' g'. bnd (cint (v + 1)) (array_insert 0) s = Inr (a, s') \<and> array_inv (g' + c) s' \<and> tok array_inv Q g' t"
    using s'(1) assms(3) by (auto simp: exec_simps)
qed

lemma tok_array_size:
  assumes "\<And>n. tok array_inv Q (add_mset (Saw n) g) (t (int n))"
  shows "tok array_inv Q (add_mset (Saw 1) g) (atomic (array_size 0) t)"
proof (rule tok_atomic)
  fix c s
  assume i: "array_inv (add_mset (Saw 1) g + c) s"
  then obtain vs where r: "array_rep 0 s vs" "count (add_mset (Saw 1) g + c) Slot + length vs = 8"
    "\<forall>v\<in>set vs. 0 \<le> v \<and> v + rises (add_mset (Saw 1) g + c) \<le> 8"
    "\<forall>n. Saw n \<in># add_mset (Saw 1) g + c \<longrightarrow> 1 \<le> n \<and> n \<le> length vs" by (rule array_invE)
  let ?g = "add_mset (Saw (length vs)) g"
  have "1 \<le> length vs" using r(4) by auto
  then have "array_inv (?g + c) s" using i r unfolding array_inv_def by (intro conjI exI[of _ vs]) auto
  with array_read_ops(1)[OF r(1)] assms show "\<exists>a s' g'. array_size 0 s = Inr (a, s') \<and> array_inv (g' + c) s' \<and> tok array_inv Q g' (t a)"
    by blast
qed

lemma tok_array_get:
  assumes "\<And>v. 0 \<le> v \<Longrightarrow> v \<le> 8 \<Longrightarrow> tok array_inv Q (add_mset (Got v) g) (t v)"
  shows "tok array_inv Q (add_mset (Saw n) (add_mset Rise g)) (atomic (array_get 0 (int n - 1)) t)"
proof (rule tok_atomic)
  fix c s
  assume "array_inv (add_mset (Saw n) (add_mset Rise g) + c) s"
  then obtain vs where r: "1 + rises (g + c) \<le> 4" "0 \<le> shared_value s" "shared_value s + ticks (g + c) \<le> 4"
    "\<forall>w. Pending w \<in># g + c \<longrightarrow> 0 \<le> w \<and> w + ticks (g + c) \<le> 4" "\<forall>v. Got v \<in># g + c \<longrightarrow> 0 \<le> v \<and> v + (1 + rises (g + c)) \<le> 8"
    "a_capacity s 0 = 10" "dom (cells s) = {a_data s 0}" "array_rep 0 s vs" "count (g + c) Slot + length vs = 8"
    "\<forall>v\<in>set vs. 0 \<le> v \<and> v + (1 + rises (g + c)) \<le> 8" "\<forall>n. Saw n \<in># g + c \<longrightarrow> 1 \<le> n \<and> n \<le> length vs"
    "1 \<le> n" "n \<le> length vs"
    by (elim array_invE) simp
  let ?v = "vs ! (n - 1)"
  have v: "?v \<in> set vs" "nat (int n - 1) = n - 1" using r(12,13) by auto
  then have "0 \<le> ?v" "?v + (1 + rises (g + c)) \<le> 8" using r(10) by auto
  then have "array_inv (add_mset (Got ?v) g + c) s"
    by (intro array_invI[OF _ _ _ _ _ r(6,7,8)]) (use r in auto)
  moreover have "array_get 0 (int n - 1) s = Inr (?v, s)" using array_read_ops(4)[OF r(8), of "int n - 1"] v(2) r(12,13) by simp
  moreover have "?v \<le> 8" using \<open>?v + (1 + rises (g + c)) \<le> 8\<close> by linarith
  ultimately show "\<exists>a s' g'. array_get 0 (int n - 1) s = Inr (a, s') \<and> array_inv (g' + c) s' \<and> tok array_inv Q g' (t a)"
    using assms[OF \<open>0 \<le> ?v\<close>] by blast
qed

lemma array_thread_tok:
  "tok array_inv (\<lambda>g. g = {#}) {#Slot, Slot, Tick, Rise#} (array_thread_func tid)"
proof -
  have last: "tok array_inv (\<lambda>g. g = {#}) {#} (atomic (bnd (cint (v + 1)) (\<lambda>x. printf f [tid, x])) (\<lambda>_. Done))"
    if "0 \<le> v" "v \<le> 8" for v f
  proof -
    have "int_range (v + 1)" using that by (simp add: int_range_defs)
    then show ?thesis by (intro tok_atomic) (auto simp: exec_simps intro!: exI[of _ "{#}"] tok_done)
  qed
  have get: "tok array_inv (\<lambda>g. g = {#}) (add_mset (Saw n) (add_mset Rise {#Slot#})) (atomic (array_get 0 (int n - 1)) (\<lambda>value_read.
     if value_read \<noteq> - 1 then
       atomic (printf ''Thread %d read: %d from the array\<newline>'' [tid, value_read]) (\<lambda>_.
       atomic (bnd (cint (value_read + 1)) (array_insert 0)) (\<lambda>_.
       atomic (bnd (cint (value_read + 1)) (\<lambda>x.
         printf ''Thread %d inserted: %d into the array\<newline>'' [tid, x])) (\<lambda>_. Done)))
     else Done))" for n
  proof (rule tok_array_get)
    fix v :: int
    assume v: "0 \<le> v" "v \<le> 8"
    have "tok array_inv (\<lambda>g. g = {#}) (add_mset (Got v) {#Slot#})
       (atomic (printf ''Thread %d read: %d from the array\<newline>'' [tid, v]) (\<lambda>_.
       atomic (bnd (cint (v + 1)) (array_insert 0)) (\<lambda>_.
       atomic (bnd (cint (v + 1)) (\<lambda>x. printf ''Thread %d inserted: %d into the array\<newline>'' [tid, x])) (\<lambda>_. Done))))"
      by (intro tok_array_printf tok_insert_second v last)
    with v show "tok array_inv (\<lambda>g. g = {#}) (add_mset (Got v) {#Slot#}) (if v \<noteq> - 1 then
       atomic (printf ''Thread %d read: %d from the array\<newline>'' [tid, v]) (\<lambda>_.
       atomic (bnd (cint (v + 1)) (array_insert 0)) (\<lambda>_.
       atomic (bnd (cint (v + 1)) (\<lambda>x. printf ''Thread %d inserted: %d into the array\<newline>'' [tid, x])) (\<lambda>_. Done)))
       else Done)" by simp
  qed
  have size: "tok array_inv (\<lambda>g. g = {#}) (add_mset (Saw 1) {#Rise, Slot#}) (atomic (array_size 0) (\<lambda>n.
     atomic (array_get 0 (n - 1)) (\<lambda>value_read.
     if value_read \<noteq> - 1 then
       atomic (printf ''Thread %d read: %d from the array\<newline>'' [tid, value_read]) (\<lambda>_.
       atomic (bnd (cint (value_read + 1)) (array_insert 0)) (\<lambda>_.
       atomic (bnd (cint (value_read + 1)) (\<lambda>x.
         printf ''Thread %d inserted: %d into the array\<newline>'' [tid, x])) (\<lambda>_. Done)))
     else Done)))"
    by (rule tok_array_size, rule get)
  have "tok array_inv (\<lambda>g. g = {#}) (add_mset Slot {#Slot, Tick, Rise#}) (array_thread_func tid)"
    unfolding array_thread_func_def
  proof (rule tok_read_shared, rule tok_insert_first, assumption+, rule tok_read_shared, rule tok_array_printf)
    have "tok array_inv (\<lambda>g. g = {#}) (add_mset Tick {#Saw 1, Rise, Slot#})
      (atomic (gets shared_value) (\<lambda>w.
     atomic (bnd (cint (w + 1)) (\<lambda>w'. modify (\<lambda>s. s\<lparr>shared_value := w'\<rparr>))) (\<lambda>_.
     atomic (array_size 0) (\<lambda>n.
     atomic (array_get 0 (n - 1)) (\<lambda>value_read.
     if value_read \<noteq> - 1 then
       atomic (printf ''Thread %d read: %d from the array\<newline>'' [tid, value_read]) (\<lambda>_.
       atomic (bnd (cint (value_read + 1)) (array_insert 0)) (\<lambda>_.
       atomic (bnd (cint (value_read + 1)) (\<lambda>x.
         printf ''Thread %d inserted: %d into the array\<newline>'' [tid, x])) (\<lambda>_. Done)))
     else Done)))))"
      by (rule tok_read_tick, rule tok_write_tick, assumption+, rule size)
    then show "tok array_inv (\<lambda>g. g = {#}) (add_mset (Saw 1) {#Slot, Tick, Rise#})
      (atomic (gets shared_value) (\<lambda>w.
     atomic (bnd (cint (w + 1)) (\<lambda>w'. modify (\<lambda>s. s\<lparr>shared_value := w'\<rparr>))) (\<lambda>_.
     atomic (array_size 0) (\<lambda>n.
     atomic (array_get 0 (n - 1)) (\<lambda>value_read.
     if value_read \<noteq> - 1 then
       atomic (printf ''Thread %d read: %d from the array\<newline>'' [tid, value_read]) (\<lambda>_.
       atomic (bnd (cint (value_read + 1)) (array_insert 0)) (\<lambda>_.
       atomic (bnd (cint (value_read + 1)) (\<lambda>x.
         printf ''Thread %d inserted: %d into the array\<newline>'' [tid, x])) (\<lambda>_. Done)))
     else Done)))))" by (simp add: add_mset_commute)
  qed
  then show ?thesis by simp
qed

lemma init_array_ok:
  assumes "1 \<le> r"
  shows "\<exists>s. init_array 0 (array_boot r g) = Inr ((), s) \<and> array_rep 0 s [] \<and> a_capacity s 0 = 10 \<and> dom (cells s) = {a_data s 0} \<and>
     shared_value s = 0 \<and> room s = r - 1"
  using assms
  by (simp add: init_array_def INITIAL_CAPACITY_def set_size_def array_boot_def world.defs arr_world.defs boot_def exec_simps array_rep_def
      block_at_def wf_world_def int_range_defs)

text \<open>C38: \<^verbatim>\<open>array/array.c\<close>: although its four threads update \<^verbatim>\<open>shared_value\<close> without a lock, under every
  interleaving of their reads, writes and calls the program ends without a fault or an overflow, every thread finds a
  value at the index it computed from an earlier size, and the array printed at the end has exactly eight elements, all
  between 0 and 8; the array is never reallocated and its memory is released.\<close>

theorem array_main_ok:
  assumes "1 \<le> r"
  shows "\<exists>s' vs log. array_main sched tid (array_boot r g) = Inr (0, s') \<and> length vs = 8 \<and> set vs \<subseteq> {0..8} \<and>
     out s' = log @ (''Final contents of the array:\<newline>'', []) # (''Array contents: '', []) #
       map (\<lambda>v. (''%d '', [v])) vs @ [(''\<newline>'', [])] \<and> cells s' = Map.empty \<and> locks s' 0 = Destroyed"
proof -
  from init_array_ok[OF assms, of g] obtain s where s: "init_array 0 (array_boot r g) = Inr ((), s)" "array_rep 0 s []"
    "a_capacity s 0 = 10" "dom (cells s) = {a_data s 0}" "shared_value s = 0" by blast
  let ?ts = "map (\<lambda>i. array_thread_func (tid i)) [0..<4]"
  have "sum_list (replicate (length ?ts) {#Slot, Slot, Tick, Rise#}) = replicate_mset 8 Slot + replicate_mset 4 Tick + replicate_mset 4 Rise"
    by (simp add: numeral_eq_Suc)
  moreover have "array_inv (replicate_mset 8 Slot + replicate_mset 4 Tick + replicate_mset 4 Rise) s"
    by (rule array_invI[OF _ _ _ _ _ s(3,4,2)]) (use s(5) in auto)
  ultimately obtain s1 gs where 1: "run_threads sched ?ts s = Inr ((), s1)" "\<forall>h\<in>set gs. h = {#}" "array_inv (sum_list gs) s1"
    using run_same[of ?ts array_inv "\<lambda>g. g = {#}" "{#Slot, Slot, Tick, Rise#}" s sched] array_thread_tok by auto
  have "sum_list gs = {#}" using 1(2) by (induction gs) auto
  with 1(3) obtain vs where v: "array_rep 0 s1 vs" "length vs = 8" "\<forall>v\<in>set vs. 0 \<le> v \<and> v \<le> 8" "dom (cells s1) = {a_data s1 0}"
    by (elim array_invE) auto
  let ?s = "s1\<lparr>out := out s1 @ [(''Final contents of the array:\<newline>'', [])]\<rparr>"
  have d: "array_display 0 ?s = Inr ((), s1\<lparr>out := out s1 @ (''Final contents of the array:\<newline>'', []) # (''Array contents: '', []) #
       map (\<lambda>v. (''%d '', [v])) vs @ [(''\<newline>'', [])]\<rparr>)" using array_read_ops(6)[of 0 ?s vs] v(1) by simp
  from v(1) obtain xs where x: "locks s1 0 = Free" "block_at 0 s1 xs" by (rule array_repE)
  then have a: "a_data s1 0 \<noteq> NULL" "cells s1 (a_data s1 0) = Some xs" by (auto simp: block_at_def)
  have "(cells s1)(a_data s1 0 := None) = Map.empty" using v(4) by (auto simp: fun_eq_iff dom_def)
  then show ?thesis
    using s(1) 1(1) d x(1) a v(2,3)
    by (intro exI exI[of _ vs] exI[of _ "out s1"]) (auto simp: array_main_def exec_simps simp del: upt_Suc)
qed

theorem array_main_ok_witness:
  "\<exists>s' vs log. array_main [3, 2, 1, 0, 3, 2] int (array_boot 1 int) = Inr (0, s') \<and> length vs = 8 \<and> set vs \<subseteq> {0..8} \<and>
     out s' = log @ (''Final contents of the array:\<newline>'', []) # (''Array contents: '', []) #
       map (\<lambda>v. (''%d '', [v])) vs @ [(''\<newline>'', [])] \<and> cells s' = Map.empty \<and> locks s' 0 = Destroyed"
  by (rule array_main_ok) simp

text \<open>\<^verbatim>\<open>array.h\<close> implements lists: \<^verbatim>\<open>insert\<close> appends and doubles the capacity when the array is
  full, keeping its contents; \<^verbatim>\<open>delete_element\<close> and \<^verbatim>\<open>update\<close> change one position and refuse an index
  outside the array; \<^verbatim>\<open>get\<close> reads one or answers -1; \<^verbatim>\<open>find\<close> yields the first position of a value
  or -1.\<close>

theorem array_operations:
  assumes "array_rep t s vs" and "0 < room s" and "a_capacity s t * 2 \<le> INT_MAX"
  shows "(\<exists>s'. array_insert t v s = Inr ((), s') \<and> array_rep t s' (vs @ [v]) \<and>
        a_capacity s' t = (if int (length vs) = a_capacity s t then a_capacity s t * 2 else a_capacity s t)) \<and>
     (\<exists>s'. delete_element t i s = Inr (0 \<le> i \<and> i < int (length vs), s') \<and>
        array_rep t s' (if 0 \<le> i \<and> i < int (length vs) then take (nat i) vs @ drop (Suc (nat i)) vs else vs)) \<and>
     (\<exists>s'. array_update t i v s = Inr (0 \<le> i \<and> i < int (length vs), s') \<and>
        array_rep t s' (if 0 \<le> i \<and> i < int (length vs) then vs[nat i := v] else vs)) \<and>
     array_get t i s = Inr (if 0 \<le> i \<and> i < int (length vs) then vs ! nat i else - 1, s) \<and>
     array_find t v s = Inr (if v \<in> set vs then int (LEAST j. j < length vs \<and> vs ! j = v) else - 1, s)"
proof (intro conjI)
  have "int (length vs) \<le> a_capacity s t" using assms(1) by (auto elim: array_repE)
  then show "\<exists>s'. array_insert t v s = Inr ((), s') \<and> array_rep t s' (vs @ [v]) \<and>
        a_capacity s' t = (if int (length vs) = a_capacity s t then a_capacity s t * 2 else a_capacity s t)"
    using array_insert_fits[OF assms(1), of v] array_insert_grows[OF assms(1) _ assms(3,2), of v]
    by (cases "int (length vs) = a_capacity s t") auto
qed (fact delete_element_ok[OF assms(1)] array_update_ok[OF assms(1)] array_read_ops(4,5)[OF assms(1)])+

theorem array_operations_witness:
  "\<exists>s. array_rep 0 s [5, 7] \<and> array_get 0 1 s = Inr (7, s) \<and>
     (\<exists>s'. delete_element 0 0 s = Inr (True, s') \<and> array_rep 0 s' [7])"
proof -
  from init_array_ok[of 2 int] obtain s where s: "array_rep 0 s []" "room s = 1" "a_capacity s 0 = 10" by auto
  from array_insert_fits[OF s(1), of 5] s obtain s1 where 1: "array_rep 0 s1 [5]" "room s1 = 1" "a_capacity s1 0 = 10" by auto
  from array_insert_fits[OF 1(1), of 7] 1 obtain s2 where 2: "array_rep 0 s2 [5, 7]" "room s2 = 1" "a_capacity s2 0 = 10" by auto
  from array_operations[OF 2(1), of 0 0] array_operations[OF 2(1), of 0 1] 2(2,3) 2(1) show ?thesis
    by (intro exI[of _ s2]) (auto simp: int_range_defs)
qed

text \<open>\<^verbatim>\<open>sort\<close> and \<^verbatim>\<open>reverse\<close> of \<^verbatim>\<open>array.h\<close>: the in-place bubble sort terminates without a
  fault and leaves exactly the sorted list, the swapping loop of \<^verbatim>\<open>reverse\<close> exactly the reversed one, for
  every length including the empty array; reversing twice restores the array.\<close>

theorem array_sort_reverse:
  assumes "array_rep t s vs"
  shows "(\<exists>s'. array_sort t s = Inr ((), s') \<and> array_rep t s' (sort vs)) \<and>
     (\<exists>s'. array_reverse t s = Inr ((), s') \<and> array_rep t s' (rev vs)) \<and>
     (\<exists>s'. seq (array_reverse t) (array_reverse t) s = Inr ((), s') \<and> array_rep t s' vs)"
proof (intro conjI)
  show "\<exists>s'. array_sort t s = Inr ((), s') \<and> array_rep t s' (sort vs)" using array_sort_ok[OF assms] by blast
  from array_reverse_ok[OF assms] obtain s1 where 1: "array_reverse t s = Inr ((), s1)" "array_rep t s1 (rev vs)" by blast
  then show "\<exists>s'. array_reverse t s = Inr ((), s') \<and> array_rep t s' (rev vs)" by blast
  from array_reverse_ok[OF 1(2)] 1(1) show "\<exists>s'. seq (array_reverse t) (array_reverse t) s = Inr ((), s') \<and> array_rep t s' vs"
    by (auto simp: exec_simps)
qed

theorem array_sort_reverse_witness:
  "\<exists>s. array_rep 0 s [7, 5] \<and> (\<exists>s'. array_sort 0 s = Inr ((), s') \<and> array_rep 0 s' [5, 7]) \<and>
     (\<exists>s'. array_reverse 0 s = Inr ((), s') \<and> array_rep 0 s' [5, 7])"
proof -
  from init_array_ok[of 2 int] obtain s where s: "array_rep 0 s []" "a_capacity s 0 = 10" by auto
  from array_insert_fits[OF s(1), of 7] s obtain s1 where 1: "array_rep 0 s1 [7]" "a_capacity s1 0 = 10" by auto
  from array_insert_fits[OF 1(1), of 5] 1 obtain s2 where 2: "array_rep 0 s2 [7, 5]" by auto
  from array_sort_reverse[OF this] 2 show ?thesis by auto
qed

text \<open>\<^verbatim>\<open>merge\<close> of \<^verbatim>\<open>array.h\<close> blocks on the mutex it holds itself as soon as the other array has an
  element; only merging an empty array returns, and changes nothing.\<close>

theorem array_merge_deadlocks:
  assumes "array_rep t s vs" and "array_rep other s ws"
  shows "array_merge t other s = (if ws = [] then Inr ((), s) else Inl MutexDeadlock)"
proof -
  have l: "locks s t = Free" using assms(1) by (rule array_repE)
  from assms(2) obtain xs where r: "a_size s other = int (length ws)" "block_at other s xs" "length ws \<le> length xs"
    by (rule array_repE)
  let ?l = "s\<lparr>locks := (locks s)(t := Held)\<rparr>"
  show ?thesis
  proof (cases ws)
    case Nil
    with l r(1) show ?thesis by (simp add: array_merge_def exec_simps)
  next
    case (Cons w ws')
    have "block_at other ?l xs" using r(2) by simp
    from a_read_ok[OF this, of 0] r(3) Cons have "a_read other 0 ?l = Inr (xs ! 0, ?l)" by (cases xs) auto
    moreover have "array_insert t v ?l = Inl MutexDeadlock" for v by (simp add: array_insert_def exec_simps)
    moreover have "[0..a_size s other - 1] = 0 # [1..a_size s other - 1]" using r(1) Cons by (simp add: upto_rec1)
    ultimately show ?thesis using l Cons by (simp add: array_merge_def exec_simps)
  qed
qed

theorem array_merge_deadlocks_witness:
  "\<exists>s. array_rep 0 s [7] \<and> array_merge 0 0 s = Inl MutexDeadlock"
proof -
  from init_array_ok[of 2 int] obtain s where s: "array_rep 0 s []" "a_capacity s 0 = 10" by auto
  from array_insert_fits[OF s(1), of 7] s obtain s1 where 1: "array_rep 0 s1 [7]" by auto
  from array_merge_deadlocks[OF 1 1] 1 show ?thesis by auto
qed

end
