(* ===== verification/Graph.thy ===== *)
theory Graph
  imports Arrays
begin

text \<open>
  \<^verbatim>\<open>ThreadTrove/graph\<close>: an undirected graph as an array of adjacency lists, each with a mutex of its
  own. An edge is two entries, one in the list of each end; the two are inserted in two critical sections, so other
  threads can see an edge in one direction only. What is invariant under every interleaving is the multiset of
  directed entries; it is symmetric whenever no \<^verbatim>\<open>addEdge\<close> is under way.
\<close>

section \<open>graph/graph.h\<close>

record gnode =
  gvertex :: int
  gnext :: ptr

text \<open>The mutex of vertex \<open>i\<close> is lock \<open>Suc i\<close>; lock 0 is \<^verbatim>\<open>graph_lock\<close>.\<close>

record graph_world = "gnode world" +
  numVertices :: int
  heads :: "nat \<Rightarrow> ptr"

definition graph_boot :: "nat \<Rightarrow> gnode \<Rightarrow> graph_world" where
  "graph_boot r j = world.extend (boot r j) \<lparr>numVertices = 0, heads = (\<lambda>_. NULL)\<rparr>"

text \<open>Access to \<^verbatim>\<open>graph->array[v]\<close>.\<close>

definition vertex :: "int \<Rightarrow> (graph_world, nat) exec" where
  "vertex v = bnd (gets numVertices) (\<lambda>n. if 0 \<le> v \<and> v < n then ret (nat v) else raise IndexRange)"

definition get_head :: "nat \<Rightarrow> (graph_world, ptr) exec" where
  "get_head i = gets (\<lambda>s. heads s i)"

definition set_head :: "nat \<Rightarrow> ptr \<Rightarrow> (graph_world, unit) exec" where
  "set_head i p = modify (\<lambda>s. s\<lparr>heads := (heads s)(i := p)\<rparr>)"

definition createGraph :: "int \<Rightarrow> (graph_world, unit) exec" where
  "createGraph vertices =
     bnd pmalloc_object (\<lambda>ok.
     if \<not> ok then raise NullDeref
     else
       seq (modify (\<lambda>s. s\<lparr>numVertices := vertices\<rparr>))
       (bnd pmalloc_object (\<lambda>ok'.
       if \<not> ok' \<and> 0 < vertices then raise NullDeref
       else
         seq (for_each [0..vertices - 1] (\<lambda>i.
            seq (set_head (nat i) NULL) (pthread_mutex_init (Suc (nat i)))))
         (pthread_mutex_init 0))))"

definition destroyGraph :: "(graph_world, unit) exec" where
  "destroyGraph =
     bnd (gets numVertices) (\<lambda>n.
     seq (for_each [0..n - 1] (\<lambda>i.
        bnd (get_head (nat i)) (\<lambda>current.
        seq (release_list gnext current) (pthread_mutex_destroy (Suc (nat i))))))
     (seq (modify (\<lambda>s. s\<lparr>room := Suc (room s)\<rparr>))
     (seq (pthread_mutex_destroy 0)
     (modify (\<lambda>s. s\<lparr>room := Suc (room s)\<rparr>)))))"

definition createNode :: "int \<Rightarrow> (graph_world, ptr) exec" where
  "createNode v =
     bnd pmalloc (\<lambda>newNode.
     seq (assign newNode (\<lambda>n. n\<lparr>gvertex := v\<rparr>))
     (seq (assign newNode (\<lambda>n. n\<lparr>gnext := NULL\<rparr>))
     (ret newNode)))"

text \<open>One half of \<^verbatim>\<open>addEdge\<close>: the critical section of the list of \<open>src\<close>.\<close>

definition add_half :: "int \<Rightarrow> int \<Rightarrow> (graph_world, unit) exec" where
  "add_half src dest =
     bnd (vertex src) (\<lambda>i.
     seq (pthread_mutex_lock (Suc i))
     (bnd (createNode dest) (\<lambda>newNode.
     bnd (get_head i) (\<lambda>h.
     seq (assign newNode (\<lambda>n. n\<lparr>gnext := h\<rparr>))
     (seq (set_head i newNode)
     (pthread_mutex_unlock (Suc i)))))))"

definition addEdge :: "int \<Rightarrow> int \<Rightarrow> (graph_world, unit) exec" where
  "addEdge src dest = seq (add_half src dest) (add_half dest src)"

definition remove_half :: "int \<Rightarrow> int \<Rightarrow> (graph_world, unit) exec" where
  "remove_half src dest =
     bnd (vertex src) (\<lambda>i.
     seq (pthread_mutex_lock (Suc i))
     (bnd (get_head i) (\<lambda>h.
     bnd (walk_list gnext (\<lambda>n. gvertex n = dest) h) (\<lambda>(prev, temp).
     seq (if temp \<noteq> NULL then
            bnd (deref temp) (\<lambda>c.
            seq (if prev \<noteq> NULL then assign prev (\<lambda>n. n\<lparr>gnext := gnext c\<rparr>) else set_head i (gnext c))
            (free temp))
          else ret ())
     (pthread_mutex_unlock (Suc i))))))"

definition removeEdge :: "int \<Rightarrow> int \<Rightarrow> (graph_world, unit) exec" where
  "removeEdge src dest = seq (remove_half src dest) (remove_half dest src)"

definition hasEdge :: "int \<Rightarrow> int \<Rightarrow> (graph_world, bool) exec" where
  "hasEdge src dest =
     bnd (vertex src) (\<lambda>i.
     seq (pthread_mutex_lock (Suc i))
     (bnd (get_head i) (\<lambda>h.
     bnd (walk_list gnext (\<lambda>n. gvertex n = dest) h) (\<lambda>(_, temp).
     seq (pthread_mutex_unlock (Suc i)) (ret (temp \<noteq> NULL))))))"

definition print_vertex :: "int \<Rightarrow> (graph_world, unit) exec" where
  "print_vertex v =
     bnd (vertex v) (\<lambda>i.
     seq (pthread_mutex_lock (Suc i))
     (bnd (get_head i) (\<lambda>temp.
     seq (printf ''Vertex %d:'' [v])
     (seq (visit_list gnext (\<lambda>n _. printf '' -> %d'' [gvertex n]) temp ())
     (seq (printf ''\<newline>'' [])
     (pthread_mutex_unlock (Suc i)))))))"

definition printGraph :: "(graph_world, unit) exec" where
  "printGraph = bnd (gets numVertices) (\<lambda>n. for_each [0..n - 1] print_vertex)"

section \<open>graph/graph.c\<close>

definition N_Vertices :: int where
  "N_Vertices = 10"

text \<open>\<open>r i j\<close> is the number that the \<open>j\<close>-th call of \<^verbatim>\<open>rand\<close> in round \<open>i\<close> returned.\<close>

definition graph_threadFunction :: "(nat \<Rightarrow> nat \<Rightarrow> int) \<Rightarrow> graph_world thread" where
  "graph_threadFunction r =
     t_for [0..<10] (\<lambda>i k.
       let src = crem (r i 0) N_Vertices; dest = crem (r i 1) N_Vertices in
       atomic (add_half src dest) (\<lambda>_.
       atomic (add_half dest src) (\<lambda>_.
       atomic (hasEdge (crem (r i 2) N_Vertices) (crem (r i 3) N_Vertices)) (\<lambda>_. k))))
     (atomic (gets numVertices) (\<lambda>n. t_for [0..n - 1] (\<lambda>v k. atomic (print_vertex v) (\<lambda>_. k)) Done))"

definition graph_main :: "nat list \<Rightarrow> (nat \<Rightarrow> nat \<Rightarrow> nat \<Rightarrow> int) \<Rightarrow> (graph_world, int) exec" where
  "graph_main sched r =
     seq (createGraph N_Vertices)
     (seq (run_threads sched [graph_threadFunction (r 0), graph_threadFunction (r 1)])
     (seq destroyGraph (ret 0)))"

section \<open>The representation\<close>

interpretation gnode: linked gnext "\<lambda>p n. n\<lparr>gnext := p\<rparr>" gvertex
  by unfold_locales simp_all

abbreviation gv :: "ptr \<times> gnode \<Rightarrow> int" where
  "gv x \<equiv> gvertex (snd x)"

text \<open>\<open>adj i\<close> is the list of the neighbours of vertex \<open>i\<close>.\<close>

definition graph_rep :: "(ptr \<rightharpoonup> gnode) \<Rightarrow> nat \<Rightarrow> graph_world \<Rightarrow> (nat \<Rightarrow> int list) \<Rightarrow> bool" where
  "graph_rep F n s adj \<longleftrightarrow> numVertices s = int n \<and> (\<forall>i\<le>n. locks s i = Free) \<and>
     (\<exists>xss. forest gnext (heads s) n s xss F \<and> (\<forall>i<n. map gv (xss i) = adj i))"

lemma graph_repE:
  assumes "graph_rep F n s adj"
  obtains xss where "numVertices s = int n" "\<forall>i\<le>n. locks s i = Free" "forest gnext (heads s) n s xss F" "\<forall>i<n. map gv (xss i) = adj i"
  using assms unfolding graph_rep_def by blast

lemma graph_rep_out [simp]: "graph_rep F n (out_update f s) adj = graph_rep F n s adj"
  by (simp add: graph_rep_def forest_def)

lemma owns_heads [simp]: "owns nx (heads_update f s) p xs F = owns nx s p xs F"
  by (rule owns_cong) simp_all

lemma vertex_ok [exec_simps]:
  "0 \<le> v \<Longrightarrow> v < numVertices s \<Longrightarrow> vertex v s = Inr (nat v, s)"
  "\<not> (0 \<le> v \<and> v < numVertices s) \<Longrightarrow> vertex v s = Inl IndexRange"
  by (auto simp: vertex_def exec_simps)

lemma graph_rep_update:
  assumes "forest gnext (heads s) n s xss F" and "\<forall>i<n. map gv (xss i) = adj i" and "i < n"
    and "owns gnext s' (heads s' i) xs (beside s (xss i))" and "heads s' = (heads s)(i := heads s' i)"
    and "numVertices s' = int n" "\<forall>i\<le>n. locks s' i = Free"
  shows "graph_rep F n s' (adj(i := map gv xs))"
proof -
  have "forest gnext ((heads s)(i := heads s' i)) n s' (xss(i := xs)) F" by (rule forest_update[OF assms(1,3,4)])
  then have "forest gnext (heads s') n s' (xss(i := xs)) F" using assms(5) by simp
  with assms(2,6,7) show ?thesis unfolding graph_rep_def by (auto intro!: exI[of _ "xss(i := xs)"])
qed

section \<open>Functional behaviour\<close>

lemma add_half_ok:
  assumes "graph_rep F n s adj" and "i < n" and "0 < room s"
  shows "\<exists>s'. add_half (int i) d s = Inr ((), s') \<and> graph_rep F n s' (adj(i := d # adj i)) \<and> room s' = room s - 1"
proof -
  from assms(1) obtain xss where r: "numVertices s = int n" "\<forall>i\<le>n. locks s i = Free"
    "forest gnext (heads s) n s xss F" "\<forall>i<n. map gv (xss i) = adj i" by (rule graph_repE)
  let ?n = "(junk s)\<lparr>gvertex := d, gnext := heads s i\<rparr>"
  let ?s = "s\<lparr>cells := (cells s)(fresh s \<mapsto> ?n), fresh := Suc (fresh s), room := room s - 1, heads := (heads s)(i := fresh s)\<rparr>"
  have l: "locks s (Suc i) = Free" using r(2) assms(2) by simp
  have run: "add_half (int i) d s = Inr ((), ?s)"
    using l r(1) assms(2,3) forest_wf[OF r(3)]
    by (simp add: add_half_def createNode_def get_head_def set_head_def exec_simps)
  have "owns gnext ?s (heads ?s i) ((fresh s, ?n) # xss i) (beside s (xss i))"
    using gnode.owns_insert_first[OF forest_owns[OF r(3) assms(2)], of ?n ?s] by simp
  from graph_rep_update[OF r(3,4) assms(2) this] r(1,2,4) assms(2) have "graph_rep F n ?s (adj(i := d # adj i))" by simp
  with run show ?thesis by simp
qed

lemma hasEdge_ok:
  assumes "graph_rep F n s adj" and "i < n"
  shows "hasEdge (int i) d s = Inr (d \<in> set (adj i), s)"
proof -
  from assms(1) obtain xss where r: "numVertices s = int n" "\<forall>i\<le>n. locks s i = Free"
    "forest gnext (heads s) n s xss F" "\<forall>i<n. map gv (xss i) = adj i" by (rule graph_repE)
  have l: "locks s (Suc i) = Free" using r(2) assms(2) by simp
  have adj: "adj i = map gv (xss i)" using r(4) assms(2) by simp
  from forest_owns[OF r(3) assms(2)] show ?thesis
  proof (cases rule: walk_cases[where stop = "\<lambda>n. gvertex n = d"])
    case absent
    then show ?thesis using l r(1) assms(2) adj by (auto simp: hasEdge_def get_head_def exec_simps)
  next
    case (found us a m ws)
    moreover have "d \<in> set (adj i)" unfolding adj found(1) using found(2) by auto
    ultimately show ?thesis using l r(1) assms(2) by (auto simp: hasEdge_def get_head_def exec_simps)
  qed
qed

lemma remove_half_ok:
  assumes "graph_rep F n s adj" and "i < n"
  shows "\<exists>s'. remove_half (int i) d s = Inr ((), s') \<and> graph_rep F n s' (adj(i := remove1 d (adj i))) \<and>
     room s' = room s + (if d \<in> set (adj i) then 1 else 0)"
proof -
  from assms(1) obtain xss where r: "numVertices s = int n" "\<forall>i\<le>n. locks s i = Free"
    "forest gnext (heads s) n s xss F" "\<forall>i<n. map gv (xss i) = adj i" by (rule graph_repE)
  have l: "locks s (Suc i) = Free" using r(2) assms(2) by simp
  have adj: "adj i = map gv (xss i)" using r(4) assms(2) by simp
  note o = forest_owns[OF r(3) assms(2)]
  from o show ?thesis
  proof (cases rule: walk_cases[where stop = "\<lambda>n. gvertex n = d"])
    case absent
    then have "d \<notin> set (adj i)" using adj by auto
    moreover have "remove_half (int i) d s = Inr ((), s)"
      using absent l r(1) assms(2) by (simp add: remove_half_def get_head_def exec_simps)
    ultimately show ?thesis using assms(1) by (simp add: remove1_idem)
  next
    case (found us a m ws)
    have d: "d \<in> set (adj i)" unfolding adj found(1) using found(2) by auto
    have "remove1 d (map gv us @ d # map gv ws) = map gv us @ map gv ws"
      using found(3) by (induction us) auto
    then have rem: "remove1 d (adj i) = map gv (us @ ws)" unfolding adj found(1) using found(2) by simp
    show ?thesis
    proof (cases us rule: rev_cases)
      case Nil
      let ?s = "s\<lparr>heads := (heads s)(i := gnext m), cells := (cells s)(a := None), room := Suc (room s)\<rparr>"
      have run: "remove_half (int i) d s = Inr ((), ?s)"
        using found l r(1) assms(2) Nil by (simp add: remove_half_def get_head_def set_head_def exec_simps)
      have "owns gnext ?s (heads ?s i) ws (beside s (xss i))"
        using gnode.owns_delete_first[of s "heads s i" a m ws "beside s (xss i)" ?s] o found(1) Nil by simp
      from graph_rep_update[OF r(3,4) assms(2) this] r(1,2) rem Nil have "graph_rep F n ?s (adj(i := remove1 d (adj i)))" by simp
      with run d show ?thesis by simp
    next
      case (snoc us' y)
      obtain b k where y: "y = (b, k)" by (cases y)
      have b: "b \<noteq> NULL" "cells s b = Some k" "a \<noteq> b"
        using owns_mem[of gnext s "heads s i" us' b k "(a, m) # ws" "beside s (xss i)"] o found(1) snoc y
          chain_distinct[OF owns_chain[OF o]] by auto
      let ?k = "k\<lparr>gnext := gnext m\<rparr>"
      let ?s = "s\<lparr>cells := (cells s)(b \<mapsto> ?k, a := None), room := Suc (room s)\<rparr>"
      have run: "remove_half (int i) d s = Inr ((), ?s)"
        using found l r(1) assms(2) b snoc y by (simp add: remove_half_def get_head_def exec_simps)
      have "owns gnext ?s (heads ?s i) (us' @ (b, ?k) # ws) (beside s (xss i))"
        using gnode.owns_delete_after[of s "heads s i" us' b k a m ws "beside s (xss i)" ?s] o found(1) snoc y by simp
      from graph_rep_update[OF r(3,4) assms(2) this] r(1,2) rem snoc y
      have "graph_rep F n ?s (adj(i := remove1 d (adj i)))" by simp
      with run d show ?thesis by simp
    qed
  qed
qed

lemma print_vertex_ok:
  assumes "graph_rep F n s adj" and "i < n"
  shows "print_vertex (int i) s = Inr ((), s\<lparr>out := out s @ (''Vertex %d:'', [int i]) #
     map (\<lambda>v. ('' -> %d'', [v])) (adj i) @ [(''\<newline>'', [])]\<rparr>)"
proof -
  from assms(1) obtain xss where r: "numVertices s = int n" "\<forall>i\<le>n. locks s i = Free"
    "forest gnext (heads s) n s xss F" "\<forall>i<n. map gv (xss i) = adj i" by (rule graph_repE)
  let ?t = "s\<lparr>locks := (locks s)(Suc i := Held), out := out s @ [(''Vertex %d:'', [int i])]\<rparr>"
  have "owns gnext ?t (heads s i) (xss i) (beside s (xss i))" using forest_owns[OF r(3) assms(2)] by simp
  then have "visit_list gnext (\<lambda>n _. printf '' -> %d'' [gvertex n]) (heads s i) () ?t =
      Inr ((), ?t\<lparr>out := out ?t @ map (\<lambda>x. ('' -> %d'', [gvertex (snd x)])) (xss i)\<rparr>)" by (rule visit_list_print) simp
  moreover have "map (\<lambda>x. ('' -> %d'', [gvertex (snd x)])) (xss i) = map (\<lambda>v. ('' -> %d'', [v])) (adj i)"
    using r(4)[rule_format, OF assms(2), symmetric] by (simp add: comp_def)
  moreover have "locks s (Suc i) = Free" using r(2) assms(2) by simp
  ultimately show ?thesis using r(1) assms(2) by (simp add: print_vertex_def get_head_def exec_simps)
qed

lemma createGraph_loop:
  assumes "\<forall>i\<in>set is. locks s (Suc i) = Uninit" and "distinct is"
  shows "\<exists>s'. for_each (map int is) (\<lambda>i. seq (set_head (nat i) NULL) (pthread_mutex_init (Suc (nat i)))) s = Inr ((), s') \<and>
     cells s' = cells s \<and> fresh s' = fresh s \<and> room s' = room s \<and> numVertices s' = numVertices s \<and>
     (\<forall>i\<in>set is. heads s' i = NULL \<and> locks s' (Suc i) = Free) \<and> (\<forall>l. l \<notin> Suc ` set is \<longrightarrow> locks s' l = locks s l) \<and>
     (\<forall>i. i \<notin> set is \<longrightarrow> heads s' i = heads s i)"
  using assms
proof (induction "is" arbitrary: s)
  case Nil
  then show ?case by (simp add: exec_simps)
next
  case (Cons i "is")
  let ?s = "s\<lparr>heads := (heads s)(i := NULL), locks := (locks s)(Suc i := Free)\<rparr>"
  have un: "\<forall>j\<in>set is. locks ?s (Suc j) = Uninit" using Cons.prems by auto
  from Cons.IH[OF un] Cons.prems(2) obtain s' where
    s': "for_each (map int is) (\<lambda>i. seq (set_head (nat i) NULL) (pthread_mutex_init (Suc (nat i)))) ?s = Inr ((), s')"
     "cells s' = cells s" "fresh s' = fresh s" "room s' = room s" "numVertices s' = numVertices s"
     "\<forall>i\<in>set is. heads s' i = NULL \<and> locks s' (Suc i) = Free" "\<forall>l. l \<notin> Suc ` set is \<longrightarrow> locks s' l = locks ?s l"
     "\<forall>j. j \<notin> set is \<longrightarrow> heads s' j = heads ?s j" by auto
  have "for_each (map int (i # is)) (\<lambda>i. seq (set_head (nat i) NULL) (pthread_mutex_init (Suc (nat i)))) s = Inr ((), s')"
    using s'(1) Cons.prems(1) by (simp add: set_head_def exec_simps)
  with s'(2-8) Cons.prems(2) show ?case by (intro exI[of _ s']) auto
qed

lemma createGraph_ok:
  assumes "2 \<le> r"
  shows "\<exists>s. createGraph (int n) (graph_boot r j) = Inr ((), s) \<and> graph_rep Map.empty n s (\<lambda>_. []) \<and> room s = r - 2"
proof -
  let ?b = "(graph_boot r j)\<lparr>room := r - 2, numVertices := int n\<rparr>"
  have b: "cells ?b = Map.empty" "fresh ?b = 1" "locks ?b = (\<lambda>_. Uninit)" by (simp_all add: graph_boot_def world.defs boot_def)
  from createGraph_loop[of "[0..<n]" ?b] b obtain s where
    s: "for_each (map int [0..<n]) (\<lambda>i. seq (set_head (nat i) NULL) (pthread_mutex_init (Suc (nat i)))) ?b = Inr ((), s)"
      "cells s = Map.empty" "fresh s = 1" "room s = r - 2" "numVertices s = int n"
      "\<forall>i<n. heads s i = NULL \<and> locks s (Suc i) = Free" "locks s 0 = Uninit" by auto
  let ?s = "s\<lparr>locks := (locks s)(0 := Free)\<rparr>"
  have "(graph_boot r j)\<lparr>room := r - 1 - 1, numVertices := int n\<rparr> = ?b" by simp
  then have "createGraph (int n) (graph_boot r j) = Inr ((), ?s)"
    using assms s(1,7) by (simp add: createGraph_def upto_int exec_simps graph_boot_def world.defs boot_def del: for_each.simps)
  moreover have "locks ?s i = Free" if "i \<le> n" for i using s(6) that by (cases i) auto
  then have "graph_rep Map.empty n ?s (\<lambda>_. [])"
    unfolding graph_rep_def using s(2,3,5,6) by (intro conjI exI[of _ "\<lambda>_. []"]) (auto simp: forest_def wf_world_def)
  ultimately show ?thesis using s(4) by auto
qed

lemma destroyGraph_loop:
  assumes "forest gnext hs n s xss F" and "\<forall>i\<in>set is. i < n \<and> hs i = heads s i \<and> locks s (Suc i) = Free" and "distinct is"
  shows "\<exists>s' hs' xss'. for_each (map int is) (\<lambda>i. bnd (get_head (nat i)) (\<lambda>current.
        seq (release_list gnext current) (pthread_mutex_destroy (Suc (nat i))))) s = Inr ((), s') \<and>
     forest gnext hs' n s' xss' F \<and> (\<forall>i<n. xss' i = (if i \<in> set is then [] else xss i)) \<and>
     (\<forall>l. locks s' l = (if l \<in> Suc ` set is then Destroyed else locks s l)) \<and> out s' = out s"
  using assms
proof (induction "is" arbitrary: s hs xss)
  case Nil
  then show ?case by (auto simp: exec_simps)
next
  case (Cons i "is")
  have i: "i < n" "hs i = heads s i" "locks s (Suc i) = Free" "i \<notin> set is" using Cons.prems by auto
  let ?B = "beside s (xss i)"
  let ?s = "s\<lparr>cells := ?B, room := room s + length (xss i), locks := (locks s)(Suc i := Destroyed)\<rparr>"
  note o = forest_owns[OF Cons.prems(1) i(1)]
  have run: "bnd (get_head i) (\<lambda>current. seq (release_list gnext current) (pthread_mutex_destroy (Suc i))) s = Inr ((), ?s)"
    using release_list_spec[OF o] i(2,3) by (simp add: get_head_def exec_simps)
  have "owns gnext ?s NULL [] ?B" by (rule owns_released[OF o]) simp_all
  from forest_update[OF Cons.prems(1) i(1) this] have f: "forest gnext (hs(i := NULL)) n ?s (xss(i := [])) F" .
  have "\<forall>j\<in>set is. j < n \<and> (hs(i := NULL)) j = heads ?s j \<and> locks ?s (Suc j) = Free" using Cons.prems(2) i(4) by auto
  from Cons.IH[OF f this] Cons.prems(3) obtain s' hs' xss' where
    r: "for_each (map int is) (\<lambda>i. bnd (get_head (nat i)) (\<lambda>current.
        seq (release_list gnext current) (pthread_mutex_destroy (Suc (nat i))))) ?s = Inr ((), s')"
      "forest gnext hs' n s' xss' F" "\<forall>j<n. xss' j = (if j \<in> set is then [] else (xss(i := [])) j)"
      "\<forall>l. locks s' l = (if l \<in> Suc ` set is then Destroyed else locks ?s l)" "out s' = out s" by auto
  with run show ?case by (intro exI[of _ s'] exI[of _ hs'] exI[of _ xss']) (auto simp: exec_simps)
qed

lemma destroyGraph_ok:
  assumes "graph_rep F n s adj"
  shows "\<exists>s'. destroyGraph s = Inr ((), s') \<and> cells s' = F \<and> (\<forall>i\<le>n. locks s' i = Destroyed) \<and> out s' = out s"
proof -
  from assms(1) obtain xss where r: "numVertices s = int n" "\<forall>i\<le>n. locks s i = Free"
    "forest gnext (heads s) n s xss F" by (rule graph_repE)
  from destroyGraph_loop[OF r(3), of "[0..<n]"] r(2) obtain s' hs' xss' where
    d: "for_each (map int [0..<n]) (\<lambda>i. bnd (get_head (nat i)) (\<lambda>current.
        seq (release_list gnext current) (pthread_mutex_destroy (Suc (nat i))))) s = Inr ((), s')"
      "forest gnext hs' n s' xss' F" "\<forall>i<n. xss' i = []"
      "\<forall>l. locks s' l = (if l \<in> Suc ` {0..<n} then Destroyed else locks s l)" "out s' = out s" by auto
  have l0: "locks s' 0 = Free" using d(4) r(2) by auto
  have "cells s' = F" using d(2,3) by (auto simp: forest_def)
  moreover have "locks s' i = Destroyed" if "0 < i" "i \<le> n" for i
    using d(4) that by (cases i) auto
  ultimately show ?thesis
    using d(1,5) l0 r(1) by (auto simp: destroyGraph_def upto_int exec_simps simp del: for_each.simps)
qed

lemma printGraph_ok:
  assumes "graph_rep F n s adj"
  shows "printGraph s = Inr ((), s\<lparr>out := out s @ concat (map (\<lambda>i. (''Vertex %d:'', [int i]) #
     map (\<lambda>v. ('' -> %d'', [v])) (adj i) @ [(''\<newline>'', [])]) [0..<n])\<rparr>)"
proof -
  have "for_each (map int is) print_vertex s = Inr ((), s\<lparr>out := out s @ concat (map (\<lambda>i. (''Vertex %d:'', [int i]) #
     map (\<lambda>v. ('' -> %d'', [v])) (adj i) @ [(''\<newline>'', [])]) is)\<rparr>)" if "\<forall>i\<in>set is. i < n" "graph_rep F n s adj" for "is" s
    using that
  proof (induction "is" arbitrary: s)
    case (Cons i "is")
    from Cons.IH[of "s\<lparr>out := out s @ (''Vertex %d:'', [int i]) # map (\<lambda>v. ('' -> %d'', [v])) (adj i) @ [(''\<newline>'', [])]\<rparr>"]
      Cons.prems print_vertex_ok[of F n s adj i] show ?case by (simp add: exec_simps)
  qed (simp add: exec_simps)
  moreover have "numVertices s = int n" using assms by (rule graph_repE)
  ultimately show ?thesis using assms by (simp add: printGraph_def exec_simps upto_int del: for_each.simps)
qed

section \<open>The directed entries of a graph\<close>

definition arcs :: "nat \<Rightarrow> (nat \<Rightarrow> int list) \<Rightarrow> (int \<times> int) list" where
  "arcs n adj = concat (map (\<lambda>i. map (\<lambda>d. (int i, d)) (adj i)) [0..<n])"

lemma mset_arcs: "mset (arcs n adj) = (\<Sum>i<n. mset (map (\<lambda>d. (int i, d)) (adj i)))"
  by (induction n) (simp_all add: arcs_def)

lemma mset_arcs_upd:
  assumes "i < n"
  shows "mset (arcs n (adj(i := ds))) + mset (map (\<lambda>d. (int i, d)) (adj i)) = mset (arcs n adj) + mset (map (\<lambda>d. (int i, d)) ds)"
proof -
  have "mset (arcs n f) = mset (map (\<lambda>d. (int i, d)) (f i)) + (\<Sum>j\<in>{..<n} - {i}. mset (map (\<lambda>d. (int j, d)) (f j)))" for f
    unfolding mset_arcs using assms by (subst sum.remove[of _ i]) auto
  from this[of adj] this[of "adj(i := ds)"] show ?thesis by simp
qed

lemma mset_arcs_add:
  "i < n \<Longrightarrow> mset (arcs n (adj(i := d # adj i))) = add_mset (int i, d) (mset (arcs n adj))"
  using mset_arcs_upd[of i n adj "d # adj i"] by simp

lemma mset_arcs_remove:
  assumes "i < n" and "d \<in> set (adj i)"
  shows "mset (arcs n adj) = add_mset (int i, d) (mset (arcs n (adj(i := remove1 d (adj i)))))"
proof -
  have "mset (adj i) = add_mset d (mset (remove1 d (adj i)))" using assms(2) by simp
  then have "mset (map (\<lambda>d. (int i, d)) (adj i)) = add_mset (int i, d) (mset (map (\<lambda>d. (int i, d)) (remove1 d (adj i))))"
    by (metis image_mset_add_mset mset_map)
  with mset_arcs_upd[OF assms(1), of adj "remove1 d (adj i)"] show ?thesis by simp
qed

lemma count_arcs: "i < n \<Longrightarrow> count (mset (arcs n adj)) (int i, d) = count (mset (adj i)) d"
proof -
  assume "i < n"
  have "count (mset (map (\<lambda>d. (int j, d)) ds)) (int i, d) = (if j = i then count (mset ds) d else 0)" for j ds
    by (induction ds) auto
  with \<open>i < n\<close> show ?thesis unfolding mset_arcs count_sum by simp
qed

section \<open>The program\<close>

definition graph_arcs :: "graph_world \<Rightarrow> (int \<times> int) list \<Rightarrow> bool" where
  "graph_arcs s es \<longleftrightarrow> (\<exists>adj. graph_rep Map.empty 10 s adj \<and> es = arcs 10 adj)"

interpretation grf: monitor graph_arcs
  by unfold_locales (auto simp: graph_arcs_def)

lemma crem_vertex: "0 \<le> x \<Longrightarrow> \<exists>i<10. crem x N_Vertices = int i"
  unfolding crem_def N_Vertices_def by (intro exI[of _ "nat (x mod 10)"]) auto

lemma add_half_arcs:
  assumes "graph_arcs s es" and "0 < room s" and "0 \<le> x"
  shows "\<exists>a s' es'. add_half (crem x N_Vertices) d s = Inr (a, s') \<and> graph_arcs s' es' \<and>
     mset es' = add_mset (crem x N_Vertices, d) (mset es) \<and> room s' = room s - 1"
proof -
  from assms(1) obtain adj where adj: "graph_rep Map.empty 10 s adj" "es = arcs 10 adj" by (auto simp: graph_arcs_def)
  from crem_vertex[OF assms(3)] obtain i where i: "i < 10" "crem x N_Vertices = int i" by blast
  from add_half_ok[OF adj(1) i(1) assms(2), of d] obtain s' where
    s': "add_half (int i) d s = Inr ((), s')" "graph_rep Map.empty 10 s' (adj(i := d # adj i))" "room s' = room s - 1" by blast
  have "mset (arcs 10 (adj(i := d # adj i))) = add_mset (int i, d) (mset es)"
    using mset_arcs_upd[OF i(1), of adj "d # adj i"] adj(2) by simp
  with s' i(2) show ?thesis by (auto simp: graph_arcs_def)
qed

lemma hasEdge_arcs:
  assumes "graph_arcs s es" and "0 \<le> x"
  shows "\<exists>b. hasEdge (crem x N_Vertices) d s = Inr (b, s)"
  using assms crem_vertex[OF assms(2)] hasEdge_ok unfolding graph_arcs_def by metis

text \<open>The directed entries that a thread adds in the rounds \<open>is\<close>.\<close>

definition added :: "(nat \<Rightarrow> nat \<Rightarrow> int) \<Rightarrow> nat list \<Rightarrow> (int \<times> int) list" where
  "added r is = concat (map (\<lambda>i. [(crem (r i 0) N_Vertices, crem (r i 1) N_Vertices),
     (crem (r i 1) N_Vertices, crem (r i 0) N_Vertices)]) is)"

lemma tok_print_vertices:
  assumes "\<forall>v\<in>set vs. 0 \<le> v \<and> v < 10"
  shows "tok grf.held (\<lambda>h. h = g) g (t_for vs (\<lambda>v k. atomic (print_vertex v) (\<lambda>_. k)) Done)"
  using assms
proof (induction vs)
  case Nil
  then show ?case by (simp add: tok_done)
next
  case (Cons v vs)
  have "\<exists>a s' es'. print_vertex v s = Inr (a, s') \<and> True \<and> graph_arcs s' es' \<and> mset es' = mset es \<and> room s' = room s"
    if "graph_arcs s es" for s es
  proof -
    obtain i where "v = int i" "i < 10" using Cons.prems by (metis list.set_intros(1) nonneg_int_cases of_nat_less_numeral_iff)
    moreover from that obtain adj where adj: "graph_rep Map.empty 10 s adj" "es = arcs 10 adj" by (auto simp: graph_arcs_def)
    moreover have "graph_arcs (out_update f s) es" for f using adj by (auto simp: graph_arcs_def)
    ultimately show ?thesis using print_vertex_ok[OF adj(1), of i] by auto
  qed
  then have "tok grf.held (\<lambda>h. h = g) g (atomic (print_vertex v) (\<lambda>_. t_for vs (\<lambda>v k. atomic (print_vertex v) (\<lambda>_. k)) Done))"
    using Cons by (intro grf.tok_keep_held[where P = "\<lambda>_. True"]) auto
  then show ?case by simp
qed

lemma graph_thread_tok:
  assumes "\<forall>i j. 0 \<le> r i j"
  shows "tok grf.held (\<lambda>g. g = inserted (added r [0..<10]) 0) (replicate_mset 20 Budget) (graph_threadFunction r)"
proof -
  let ?Q = "\<lambda>g. g = inserted (added r [0..<10]) 0"
  let ?G = "\<lambda>is. inserted (added r is) (20 - 2 * length is)"
  have "tok grf.held ?Q (?G []) (graph_threadFunction r)"
    unfolding graph_threadFunction_def Let_def
  proof (rule tok_for[where G = ?G])
    fix ys zs and i :: nat and t
    assume eq: "[0..<10] = ys @ i # zs" and t: "tok grf.held ?Q (?G (ys @ [i])) t"
    have "length [0..<10] = length ys + Suc (length zs)" unfolding eq by simp
    then have n: "20 - 2 * length ys = Suc (Suc (20 - 2 * length (ys @ [i])))" by simp
    let ?a = "crem (r i 0) N_Vertices" and ?b = "crem (r i 1) N_Vertices"
    let ?g = "inserted (added r ys) (20 - 2 * length (ys @ [i]))"
    have add: "added r (ys @ [i]) = added r ys @ [(?a, ?b), (?b, ?a)]" by (simp add: added_def)
    have "tok grf.held ?Q (?G (ys @ [i])) (atomic (hasEdge (crem (r i 2) N_Vertices) (crem (r i 3) N_Vertices)) (\<lambda>_. t))"
      by (rule grf.tok_keep_held[where P = "\<lambda>_. True"]) (use hasEdge_arcs assms t in \<open>blast+\<close>)
    then have has: "tok grf.held ?Q (add_mset (Item (?b, ?a)) (add_mset (Item (?a, ?b)) ?g))
        (atomic (hasEdge (crem (r i 2) N_Vertices) (crem (r i 3) N_Vertices)) (\<lambda>_. t))"
      unfolding add by (simp add: add_mset_commute)
    have "tok grf.held ?Q (add_mset Budget (add_mset (Item (?a, ?b)) ?g)) (atomic (add_half ?b ?a) (\<lambda>_.
        atomic (hasEdge (crem (r i 2) N_Vertices) (crem (r i 3) N_Vertices)) (\<lambda>_. t)))"
      by (rule grf.tok_put_held[OF add_half_arcs has]) (use assms in auto)
    then have second: "tok grf.held ?Q (add_mset (Item (?a, ?b)) (add_mset Budget ?g)) (atomic (add_half ?b ?a) (\<lambda>_.
        atomic (hasEdge (crem (r i 2) N_Vertices) (crem (r i 3) N_Vertices)) (\<lambda>_. t)))" by (simp add: add_mset_commute)
    have "tok grf.held ?Q (add_mset Budget (add_mset Budget ?g)) (atomic (add_half ?a ?b) (\<lambda>_. atomic (add_half ?b ?a) (\<lambda>_.
        atomic (hasEdge (crem (r i 2) N_Vertices) (crem (r i 3) N_Vertices)) (\<lambda>_. t))))"
      by (rule grf.tok_put_held[OF add_half_arcs second]) (use assms in auto)
    then show "tok grf.held ?Q (?G ys) (atomic (add_half ?a ?b) (\<lambda>_. atomic (add_half ?b ?a) (\<lambda>_.
        atomic (hasEdge (crem (r i 2) N_Vertices) (crem (r i 3) N_Vertices)) (\<lambda>_. t))))"
      unfolding n by simp
  next
    have p: "tok grf.held ?Q (?G [0..<10]) (t_for [0..9] (\<lambda>v k. atomic (print_vertex v) (\<lambda>_. k)) Done)"
      using tok_print_vertices[of "[0..9]" "?G [0..<10]"] by (simp del: upt_Suc upto_rec_numeral)
    show "tok grf.held ?Q (?G [0..<10]) (atomic (gets numVertices) (\<lambda>n. t_for [0..n - 1] (\<lambda>v k. atomic (print_vertex v) (\<lambda>_. k)) Done))"
    proof (rule grf.tok_keep_held[where P = "\<lambda>n. n = 10"])
      show "\<exists>a s' vs'. gets numVertices s = Inr (a, s') \<and> a = 10 \<and> graph_arcs s' vs' \<and> mset vs' = mset vs \<and> room s' = room s"
        if "graph_arcs s vs" for s vs
        using that by (auto simp: exec_simps graph_arcs_def graph_rep_def)
    qed (use p in simp)
  qed
  then show ?thesis by (simp add: added_def)
qed

lemma added_sym: "count (mset (added r is)) (a, b) = count (mset (added r is)) (b, a)"
proof (induction "is")
  case (Cons i "is")
  have "count (mset [(x, y), (y, x)]) (a, b) = count (mset [(x, y), (y, x)]) (b, a)" for x y
    by (cases "x = a"; cases "y = b"; cases "x = b"; cases "y = a") simp_all
  moreover have "mset (added r (i # is)) = mset [(crem (r i 0) N_Vertices, crem (r i 1) N_Vertices),
     (crem (r i 1) N_Vertices, crem (r i 0) N_Vertices)] + mset (added r is)" by (simp add: added_def)
  ultimately show ?case using Cons by (simp only: count_union)
qed (simp add: added_def)

text \<open>C39: \<^verbatim>\<open>graph/graph.c\<close>: with the non-negative numbers of \<^verbatim>\<open>rand\<close> and memory for 40 nodes, every
  interleaving of the two threads ends without a fault or a deadlock. When both are done, the adjacency lists hold
  exactly the edges that the threads added, each in both directions and with its multiplicity, so the graph is
  undirected; \<^verbatim>\<open>destroyGraph\<close> then releases every node and destroys every mutex.\<close>

theorem graph_main_ok:
  assumes "42 \<le> m" and "\<forall>t i k. 0 \<le> r t i k"
  shows "\<exists>s1 adj s'. seq (createGraph N_Vertices)
       (run_threads sched [graph_threadFunction (r 0), graph_threadFunction (r 1)]) (graph_boot m z) = Inr ((), s1) \<and>
     graph_rep Map.empty 10 s1 adj \<and>
     (\<forall>i<10. \<forall>d. count (mset (adj i)) d = count (mset (added (r 0) [0..<10] @ added (r 1) [0..<10])) (int i, d)) \<and>
     (\<forall>i<10. \<forall>j<10. count (mset (adj i)) (int j) = count (mset (adj j)) (int i)) \<and>
     graph_main sched r (graph_boot m z) = Inr (0, s') \<and> cells s' = Map.empty \<and> (\<forall>i\<le>10. locks s' i = Destroyed)"
proof -
  from createGraph_ok[of m 10 z] assms(1) obtain s where
    s: "createGraph N_Vertices (graph_boot m z) = Inr ((), s)" "graph_rep Map.empty 10 s (\<lambda>_. [])" "room s = m - 2"
    by (auto simp: N_Vertices_def)
  have "graph_arcs s []" using s(2) by (auto simp: graph_arcs_def arcs_def intro!: exI[of _ "\<lambda>_. []"])
  then have "grf.held (replicate_mset 20 Budget + replicate_mset 20 Budget) s"
    unfolding grf.held_def replicate_mset_add using s(3) assms(1) by (intro exI[of _ "[]"]) (simp add: ledger_start)
  from run_two[OF graph_thread_tok[of "r 0"] graph_thread_tok[of "r 1"] this, of sched] assms(2) obtain s1 where
    1: "run_threads sched [graph_threadFunction (r 0), graph_threadFunction (r 1)] s = Inr ((), s1)"
      "grf.held (inserted (added (r 0) [0..<10]) 0 + inserted (added (r 1) [0..<10]) 0) s1" by auto
  let ?W = "added (r 0) [0..<10] @ added (r 1) [0..<10]"
  from 1(2) obtain adj where adj: "graph_rep Map.empty 10 s1 adj" "ledger (image_mset Item (mset ?W)) s1 (mset (arcs 10 adj)) Map.empty"
    by (auto simp: grf.held_def graph_arcs_def simp del: upt_Suc)
  have "mset (arcs 10 adj) = mset ?W" using ledger_items[OF adj(2)] by simp
  then have c: "count (mset (adj i)) d = count (mset ?W) (int i, d)" if "i < 10" for i d
    using count_arcs[OF that, of adj d] by simp
  have sym: "count (mset (adj i)) (int j) = count (mset (adj j)) (int i)" if "i < 10" "j < 10" for i j
    using c[OF that(1), of "int j"] c[OF that(2), of "int i"] added_sym[of "r 0" "[0..<10]"] added_sym[of "r 1" "[0..<10]"]
    by (simp del: upt_Suc)
  from destroyGraph_ok[OF adj(1)] obtain s' where
    "destroyGraph s1 = Inr ((), s')" "cells s' = Map.empty" "\<forall>i\<le>10. locks s' i = Destroyed" by blast
  then show ?thesis using s(1) 1(1) adj(1) c sym
    by (intro exI[of _ s1] exI[of _ adj] exI[of _ s']) (simp add: graph_main_def exec_simps del: upt_Suc)
qed

theorem graph_main_ok_witness:
  "\<exists>s1 adj s'. seq (createGraph N_Vertices)
       (run_threads [1, 0, 1] [graph_threadFunction (\<lambda>i k. int (3 * i + k)), graph_threadFunction (\<lambda>i k. int (7 * i + k))])
       (graph_boot 42 \<lparr>gvertex = 0, gnext = NULL\<rparr>) = Inr ((), s1) \<and> graph_rep Map.empty 10 s1 adj \<and>
     (\<forall>i<10. \<forall>j<10. count (mset (adj i)) (int j) = count (mset (adj j)) (int i)) \<and>
     graph_main [1, 0, 1] (\<lambda>t i k. int ((3 + 4 * t) * i + k)) (graph_boot 42 \<lparr>gvertex = 0, gnext = NULL\<rparr>) = Inr (0, s') \<and>
     cells s' = Map.empty"
  using graph_main_ok[of 42 "\<lambda>t i k. int ((3 + 4 * t) * i + k)" "[1, 0, 1]" "\<lparr>gvertex = 0, gnext = NULL\<rparr>"] by auto

text \<open>The operations of \<^verbatim>\<open>graph.h\<close> between vertices of the graph: \<^verbatim>\<open>addEdge\<close> adds one entry in each
  direction (two to the list of the vertex for a loop), after which \<^verbatim>\<open>hasEdge\<close> holds both ways, and
  \<^verbatim>\<open>removeEdge\<close> undoes it exactly: the same entries and the same free memory are left. A vertex outside the graph
  is an access outside the array.\<close>

theorem graph_add_remove:
  assumes "graph_rep F n s adj" and "i < n" and "j < n" and "2 \<le> room s"
  shows "\<exists>s1 adj1 s2 adj2. addEdge (int i) (int j) s = Inr ((), s1) \<and> graph_rep F n s1 adj1 \<and>
     mset (arcs n adj1) = add_mset (int i, int j) (add_mset (int j, int i) (mset (arcs n adj))) \<and>
     hasEdge (int i) (int j) s1 = Inr (True, s1) \<and> hasEdge (int j) (int i) s1 = Inr (True, s1) \<and>
     removeEdge (int i) (int j) s1 = Inr ((), s2) \<and> graph_rep F n s2 adj2 \<and> mset (arcs n adj2) = mset (arcs n adj) \<and>
     room s2 = room s \<and> addEdge (int n) (int j) s = Inl IndexRange"
proof -
  let ?a = "adj(i := int j # adj i)"
  let ?b = "?a(j := int i # ?a j)"
  from add_half_ok[OF assms(1,2), of "int j"] assms(4) obtain t where
    t: "add_half (int i) (int j) s = Inr ((), t)" "graph_rep F n t ?a" "room t = room s - 1" by auto
  from add_half_ok[OF t(2) assms(3), of "int i"] assms(4) t(3) obtain s1 where
    s1: "add_half (int j) (int i) t = Inr ((), s1)" "graph_rep F n s1 ?b" "room s1 = room s - 1 - 1" by auto
  have mb: "mset (arcs n ?b) = add_mset (int i, int j) (add_mset (int j, int i) (mset (arcs n adj)))"
    unfolding mset_arcs_add[OF assms(3), of ?a] mset_arcs_add[OF assms(2)] by (rule add_mset_commute)
  have has: "int j \<in> set (?b i)" "int i \<in> set (?b j)" by auto
  let ?c = "?b(i := remove1 (int j) (?b i))"
  let ?d = "?c(j := remove1 (int i) (?c j))"
  from remove_half_ok[OF s1(2) assms(2), of "int j"] has(1) obtain t2 where
    t2: "remove_half (int i) (int j) s1 = Inr ((), t2)" "graph_rep F n t2 ?c" "room t2 = room s1 + 1" by auto
  have inc: "int i \<in> set (?c j)" by auto
  from remove_half_ok[OF t2(2) assms(3), of "int i"] inc obtain s2 where
    s2: "remove_half (int j) (int i) t2 = Inr ((), s2)" "graph_rep F n s2 ?d" "room s2 = room t2 + 1" by auto
  have "mset (arcs n ?b) = add_mset (int i, int j) (mset (arcs n ?c))" by (rule mset_arcs_remove[of i n "int j" ?b]) (fact assms(2) has(1))+
  moreover have "mset (arcs n ?c) = add_mset (int j, int i) (mset (arcs n ?d))" by (rule mset_arcs_remove[of j n "int i" ?c]) (fact assms(3) inc)+
  ultimately have "mset (arcs n ?d) = mset (arcs n adj)" unfolding mb by simp
  moreover have "numVertices s = int n" using assms(1) by (rule graph_repE)
  then have "addEdge (int n) (int j) s = Inl IndexRange" by (simp add: addEdge_def add_half_def exec_simps)
  moreover have "hasEdge (int i) (int j) s1 = Inr (True, s1)" "hasEdge (int j) (int i) s1 = Inr (True, s1)"
    using hasEdge_ok[OF s1(2) assms(2), of "int j"] hasEdge_ok[OF s1(2) assms(3), of "int i"] has by metis+
  ultimately show ?thesis
    using t s1 t2 s2 mb assms(4)
    by (intro exI[of _ s1] exI[of _ ?b] exI[of _ s2] exI[of _ ?d]) (simp add: addEdge_def removeEdge_def exec_simps)
qed

theorem graph_add_remove_witness:
  "\<exists>s s1 s2 adj2. graph_rep Map.empty 3 s (\<lambda>_. []) \<and> addEdge 0 2 s = Inr ((), s1) \<and> hasEdge 2 0 s1 = Inr (True, s1) \<and>
     removeEdge 0 2 s1 = Inr ((), s2) \<and> graph_rep Map.empty 3 s2 adj2 \<and> mset (arcs 3 adj2) = {#}"
proof -
  from createGraph_ok[of 4 3 "\<lparr>gvertex = 0, gnext = NULL\<rparr>"] obtain s where
    s: "graph_rep Map.empty 3 s (\<lambda>_. [])" "room s = 2" by auto
  from graph_add_remove[OF s(1), of 0 2] s(2) have "\<exists>s1 adj1 s2 adj2. addEdge (int 0) (int 2) s = Inr ((), s1) \<and>
     hasEdge (int 2) (int 0) s1 = Inr (True, s1) \<and> removeEdge (int 0) (int 2) s1 = Inr ((), s2) \<and> graph_rep Map.empty 3 s2 adj2 \<and>
     mset (arcs 3 adj2) = mset (arcs 3 (\<lambda>_. []))" by auto
  then show ?thesis using s(1) by (auto simp: mset_arcs)
qed

end
