(* ===== verification/PMRuntime.thy ===== *)
theory PMRuntime
  imports Threads "HOL-Library.Word"
begin

text \<open>
  The tracing runtime \<^verbatim>\<open>src/Transform/PM/pm.cpp\<close> that the instrumented programs
  call: the table \<open>M\<close> of registered persistent regions, the static dependences
  \<open>DEP\<close>, the identifiers \<open>TRACE_IDS\<close> already traced, the call counters
  \<open>FUNC_STACK\<close>, the mutex \<open>mtx\<close> (index \<open>0\<close> of the lock table) and the
  lines appended to \<^verbatim>\<open>output.txt\<close>.

  \<^verbatim>\<open>std::map\<close> is an association list in key order, \<^verbatim>\<open>std::set\<close> a
  strictly ordered list where it is iterated and a set where only membership is asked.
  Addresses are 64-bit words; the table stores them as \<^verbatim>\<open>long long int\<close>, whose
  additions are checked. The results of \<^verbatim>\<open>malloc\<close>, \<^verbatim>\<open>calloc\<close>,
  \<^verbatim>\<open>pmem_map_file\<close>, \<^verbatim>\<open>pmemobj_create\<close>,
  \<^verbatim>\<open>pmemobj_open\<close> and \<^verbatim>\<open>pmemobj_alloc\<close>, and the value of
  \<^verbatim>\<open>pthread_self\<close>, are arguments.
\<close>

section \<open>Formatted numbers and ordered maps\<close>

text \<open>The conversions \<^verbatim>\<open>%u\<close>, \<^verbatim>\<open>%d\<close>, \<^verbatim>\<open>%llx\<close> and \<^verbatim>\<open>%p\<close>.\<close>

fun num_str :: "nat \<Rightarrow> nat \<Rightarrow> string" where
  "num_str b n =
     (if n < b \<or> b < 2 then [''0123456789abcdef'' ! n]
      else num_str b (n div b) @ [''0123456789abcdef'' ! (n mod b)])"

declare num_str.simps [simp del]

definition fmt_d :: "int \<Rightarrow> string" where
  "fmt_d i = (if i < 0 then ''-'' @ num_str 10 (nat (- i)) else num_str 10 (nat i))"

definition fmt_u :: "'l::len word \<Rightarrow> string" where
  "fmt_u w = num_str 10 (unat w)"

definition fmt_llx :: "64 word \<Rightarrow> string" where
  "fmt_llx w = num_str 16 (unat w)"

definition fmt_p :: "64 word \<Rightarrow> string" where
  "fmt_p w = (if w = 0 then ''(nil)'' else ''0x'' @ num_str 16 (unat w))"

fun om_put :: "'k::linorder \<Rightarrow> 'v \<Rightarrow> ('k \<times> 'v) list \<Rightarrow> ('k \<times> 'v) list" where
  "om_put k v [] = [(k, v)]"
| "om_put k v ((k', v') # xs) =
     (if k < k' then (k, v) # (k', v') # xs
      else if k = k' then (k, v) # xs
      else (k', v') # om_put k v xs)"

definition om_erase :: "'k \<Rightarrow> ('k \<times> 'v) list \<Rightarrow> ('k \<times> 'v) list" where
  "om_erase k xs = filter (\<lambda>p. fst p \<noteq> k) xs"

definition om_ok :: "('k::linorder \<times> 'v) list \<Rightarrow> bool" where
  "om_ok xs \<longleftrightarrow> sorted_wrt (<) (map fst xs)"

lemma om_put_keys: "set (map fst (om_put k v xs)) = insert k (set (map fst xs))"
  by (induction k v xs rule: om_put.induct) auto

lemma om_put_ok: "om_ok xs \<Longrightarrow> om_ok (om_put k v xs)"
proof (induction k v xs rule: om_put.induct)
  case (2 k v k' v' xs)
  have "x \<in> fst ` set (om_put k v xs) \<Longrightarrow> x = k \<or> x \<in> fst ` set xs" for x
    using om_put_keys[of k v xs] by auto
  with 2 show ?case by (fastforce simp: om_ok_def)
qed (simp add: om_ok_def)

lemma om_put_map: "om_ok xs \<Longrightarrow> map_of (om_put k v xs) = (map_of xs)(k \<mapsto> v)"
proof (induction k v xs rule: om_put.induct)
  case (2 k v k' v' xs)
  then show ?case by (auto simp: om_ok_def fun_eq_iff map_of_eq_None_iff)
qed simp

lemma om_erase_ok: "om_ok xs \<Longrightarrow> om_ok (om_erase k xs)"
  by (induction xs) (auto simp: om_ok_def om_erase_def)

lemma om_erase_map: "map_of (om_erase k xs) = (map_of xs)(k := None)"
  by (induction xs) (auto simp: om_erase_def fun_eq_iff)

lemma om_ok_mem: "om_ok xs \<Longrightarrow> (k, v) \<in> set xs \<longleftrightarrow> map_of xs k = Some v"
  by (metis map_of_eq_Some_iff om_ok_def strict_sorted_iff)

lemma om_ok_Nil [simp]: "om_ok []"
  by (simp add: om_ok_def)

section \<open>State\<close>

record 'n rt = "'n world" +
  M :: "(int \<times> int) list"
  FUNC_STACK :: "64 word \<rightharpoonup> 32 word"
  DEP :: "(int \<times> int list) list"
  TRACE_IDS :: "int set"
  my_flag :: bool
  openable :: bool
  log :: "string list"

type_synonym cstr = "64 word \<times> string"

abbreviation mtx :: nat where
  "mtx \<equiv> 0"

text \<open>The statics before \<^verbatim>\<open>main\<close>: \<open>ok\<close> says whether \<^verbatim>\<open>output.txt\<close> can be opened.\<close>

definition rt_boot :: "'n \<Rightarrow> bool \<Rightarrow> 'n rt" where
  "rt_boot j ok = \<lparr>cells = Map.empty, fresh = 1, room = 0, junk = j,
     locks = (\<lambda>l. if l = mtx then Free else Uninit), out = [],
     M = [], FUNC_STACK = Map.empty, DEP = [], TRACE_IDS = {}, my_flag = False,
     openable = ok, log = []\<rparr>"

text \<open>\<^verbatim>\<open>long long int\<close> arithmetic.\<close>

definition cllong :: "int \<Rightarrow> ('s, int) exec" where
  "cllong i = (if - (2 ^ 63) \<le> i \<and> i < 2 ^ 63 then ret i else raise SignedOverflow)"

text \<open>The block \<^verbatim>\<open>malloc\<close> returned at address \<open>p\<close>.\<close>

definition malloc_at :: "64 word \<Rightarrow> (('n, 'z) rt_scheme, unit) exec" where
  "malloc_at p =
     (if p = 0 then ret () else modify (\<lambda>s. s\<lparr>cells := (cells s)(unat p \<mapsto> junk s)\<rparr>))"

section \<open>Operations\<close>

text \<open>One call of \<^verbatim>\<open>my_printf\<close>: the static buffer keeps at most 1023 characters.\<close>

definition log_line :: "nat \<Rightarrow> string \<Rightarrow> string" where
  "log_line tid txt = take 1023 txt @ ''<Thread ID:'' @ num_str 10 tid @ [CHR ''>'', CHR 0x0A]"

definition my_printf :: "nat \<Rightarrow> string \<Rightarrow> (('n, 'z) rt_scheme, unit) exec" where
  "my_printf tid txt =
     bnd (gets openable) (\<lambda>ok.
       if \<not> ok then printf ''Could not open file.'' []
       else modify (\<lambda>s. s\<lparr>log := log s @ [log_line tid txt]\<rparr>))"

definition pmc_Initialize :: "(('n, 'z) rt_scheme, unit) exec" where
  "pmc_Initialize =
     bnd (gets my_flag) (\<lambda>f.
       if \<not> f then
         modify (\<lambda>s. s\<lparr>locks := (locks s)(mtx := Free), M := [], FUNC_STACK := Map.empty, DEP := [],
                        TRACE_IDS := {}, my_flag := True\<rparr>)
       else ret ())"

text \<open>The frame all entry points share: the body runs between the lock and the unlock of \<open>mtx\<close>.\<close>

definition locked :: "(('n, 'z) rt_scheme, unit) exec \<Rightarrow> (('n, 'z) rt_scheme, unit) exec" where
  "locked m = seq (pthread_mutex_lock mtx) (seq m (pthread_mutex_unlock mtx))"

definition if_flag :: "(('n, 'z) rt_scheme, unit) exec \<Rightarrow> (('n, 'z) rt_scheme, unit) exec" where
  "if_flag m = bnd (gets my_flag) (\<lambda>f. if f then locked m else ret ())"

definition add_region :: "nat \<Rightarrow> 64 word \<Rightarrow> 64 word \<Rightarrow> (('n, 'z) rt_scheme, unit) exec" where
  "add_region tid lo hi =
     seq (my_printf tid (''Adding addr: 0x'' @ fmt_llx lo @ '' to 0x'' @ fmt_llx hi @ ''; ''))
         (modify (\<lambda>s. s\<lparr>M := om_put (sint lo) (sint hi) (M s)\<rparr>))"

definition pmc_malloc :: "nat \<Rightarrow> 64 word \<Rightarrow> 64 word \<Rightarrow> (('n, 'z) rt_scheme, 64 word) exec" where
  "pmc_malloc tid p sz =
     seq (malloc_at p) (seq (if_flag (add_region tid p (p + sz))) (ret p))"

text \<open>
  \<^verbatim>\<open>mapped_lenp\<close> is a pointer to the length; the code adds the pointer itself.
\<close>

definition pmc_wrapper_pmem_map_file ::
  "nat \<Rightarrow> 64 word \<Rightarrow> 64 word \<Rightarrow> (('n, 'z) rt_scheme, 64 word) exec" where
  "pmc_wrapper_pmem_map_file tid pslab_pool mapped_lenp =
     seq (locked (add_region tid pslab_pool (pslab_pool + mapped_lenp))) (ret pslab_pool)"

definition rt_flush :: "nat \<Rightarrow> 64 word \<Rightarrow> int \<Rightarrow> int \<Rightarrow> int \<Rightarrow> cstr \<Rightarrow> (('n, 'z) rt_scheme, unit) exec" where
  "rt_flush tid p sz line col scope =
     if_flag (my_printf tid
       (''CLFLUSH: '' @ fmt_p p @ '' LEN: '' @ fmt_d sz @ '' @Ln,Col: '' @ fmt_d line @ '','' @ fmt_d col
        @ '' ; Scope: '' @ snd scope @ '';  ''))"

definition rt_fence :: "nat \<Rightarrow> int \<Rightarrow> int \<Rightarrow> cstr \<Rightarrow> (('n, 'z) rt_scheme, unit) exec" where
  "rt_fence tid line col scope =
     if_flag (my_printf tid
       (''SFENCE. @Ln,Col: '' @ fmt_d line @ '','' @ fmt_d col @ '' ; Scope: '' @ snd scope @ '';  ''))"

definition pmc_pobj_alloc :: "int \<Rightarrow> (('n, 'z) rt_scheme, int) exec" where
  "pmc_pobj_alloc result = ret result"

definition pmc_pmemobj_create ::
  "nat \<Rightarrow> 64 word \<Rightarrow> 64 word \<Rightarrow> (('n, 'z) rt_scheme, 64 word) exec" where
  "pmc_pmemobj_create tid pop poolsize =
     seq (locked (add_region tid pop (pop + poolsize))) (ret pop)"

definition pmem_create :: "nat \<Rightarrow> 64 word \<Rightarrow> 64 word \<Rightarrow> (('n, 'z) rt_scheme, unit) exec" where
  "pmem_create tid pop poolsize = locked (add_region tid pop (pop + poolsize))"

definition pmc_pmemobj_open ::
  "nat \<Rightarrow> 64 word \<Rightarrow> 64 word \<Rightarrow> (('n, 'z) rt_scheme, 64 word) exec" where
  "pmc_pmemobj_open tid pop pool_size =
     seq (locked (add_region tid pop (pop + pool_size))) (ret pop)"

definition transactionBegins :: "nat \<Rightarrow> int \<Rightarrow> int \<Rightarrow> cstr \<Rightarrow> (('n, 'z) rt_scheme, unit) exec" where
  "transactionBegins tid Line Col scope =
     if_flag (my_printf tid
       (''Transaction begins. @Ln,Col: '' @ fmt_d Line @ '','' @ fmt_d Col @ '' Scope: '' @ snd scope @ ''; ''))"

definition transactionCommits :: "nat \<Rightarrow> int \<Rightarrow> int \<Rightarrow> cstr \<Rightarrow> (('n, 'z) rt_scheme, unit) exec" where
  "transactionCommits tid Line Col scope =
     if_flag (my_printf tid
       (''Transaction Commits. @Ln,Col: '' @ fmt_d Line @ '','' @ fmt_d Col @ '' Scope: '' @ snd scope @ ''; ''))"

definition pmc_calloc ::
  "nat \<Rightarrow> 64 word \<Rightarrow> 64 word \<Rightarrow> 64 word \<Rightarrow> (('n, 'z) rt_scheme, 64 word) exec" where
  "pmc_calloc tid p blocks sz =
     seq (malloc_at p) (seq (if_flag (add_region tid p (p + sz))) (ret p))"

definition pmc_free :: "nat \<Rightarrow> 64 word \<Rightarrow> (('n, 'z) rt_scheme, unit) exec" where
  "pmc_free tid block =
     seq (if_flag
       (seq (my_printf tid (''Adding addr: 0x'' @ fmt_llx block @ ''; ''))
            (modify (\<lambda>s. s\<lparr>M := om_erase (sint block) (M s)\<rparr>))))
       (free (unat block))"

definition pmc_dummy_begin :: "int \<Rightarrow> (('n, 'z) rt_scheme, unit) exec" where
  "pmc_dummy_begin dummy = if_flag (ret ())"

definition pmc_dummy_end :: "int \<Rightarrow> (('n, 'z) rt_scheme, unit) exec" where
  "pmc_dummy_end dummy = if_flag (ret ())"

text \<open>\<^verbatim>\<open>FUNC_STACK[func]\<close>: a missing counter is created as \<open>0\<close>. The keys are pointers.\<close>

definition func_count :: "64 word \<Rightarrow> (('n, 'z) rt_scheme, 32 word) exec" where
  "func_count f =
     bnd (gets FUNC_STACK) (\<lambda>m. case m f of
       Some c \<Rightarrow> ret c
     | None \<Rightarrow> seq (modify (\<lambda>s. s\<lparr>FUNC_STACK := m(f \<mapsto> 0)\<rparr>)) (ret 0))"

definition pmc_funcBegin :: "nat \<Rightarrow> cstr \<Rightarrow> (('n, 'z) rt_scheme, unit) exec" where
  "pmc_funcBegin tid func =
     if_flag
       (seq (bnd (gets FUNC_STACK) (\<lambda>m.
               if m (fst func) = None then modify (\<lambda>s. s\<lparr>FUNC_STACK := m(fst func \<mapsto> 1)\<rparr>) else ret ()))
            (bnd (func_count (fst func)) (\<lambda>c.
               my_printf tid (''FUNC_BEGIN_1: '' @ snd func @ '' '' @ fmt_u c @ ''; ''))))"

definition pmc_funcEnd :: "nat \<Rightarrow> cstr \<Rightarrow> (('n, 'z) rt_scheme, unit) exec" where
  "pmc_funcEnd tid func =
     if_flag
       (seq (bnd (func_count (fst func)) (\<lambda>c.
               my_printf tid (''FUNC_END: '' @ snd func @ '' '' @ fmt_u c @ ''; '')))
            (bnd (func_count (fst func)) (\<lambda>c.
               modify (\<lambda>s. s\<lparr>FUNC_STACK := (FUNC_STACK s)(fst func \<mapsto> c + 1)\<rparr>))))"

definition pmc_depAdd :: "int \<Rightarrow> int \<Rightarrow> (('n, 'z) rt_scheme, unit) exec" where
  "pmc_depAdd ID1 ID2 =
     if_flag (modify (\<lambda>s. s\<lparr>DEP := om_put ID1
       (insort_insert ID2 (case map_of (DEP s) ID1 of None \<Rightarrow> [] | Some ds \<Rightarrow> ds)) (DEP s)\<rparr>))"

text \<open>
  The body of the two access functions, which differ in the word they print: one pass over
  \<open>M\<close>, and for every region that contains the access one pass over \<open>DEP\<close>.
\<close>

definition access_text :: "string \<Rightarrow> int \<Rightarrow> int \<Rightarrow> int \<Rightarrow> int \<Rightarrow> int \<Rightarrow> cstr \<Rightarrow> string" where
  "access_text what addr sz ID Line Col scope =
     what @ '': 0x'' @ fmt_llx (word_of_int addr) @ '' Size: '' @ fmt_d sz @ '' ID: '' @ fmt_d ID
     @ '' @Ln,Col: '' @ fmt_d Line @ '','' @ fmt_d Col @ '' Scope: '' @ snd scope @ ''; ''"

definition dep_text :: "int \<Rightarrow> int \<Rightarrow> string" where
  "dep_text src dest = ''DEP: SrcID: '' @ fmt_d src @ '' DestID: '' @ fmt_d dest @ ''; ''"

definition print_deps :: "nat \<Rightarrow> int \<Rightarrow> (('n, 'z) rt_scheme, unit) exec" where
  "print_deps tid ID =
     bnd (gets DEP) (\<lambda>deps. for_each deps (\<lambda>(src, dests).
       bnd (gets TRACE_IDS) (\<lambda>ids.
         if src \<notin> ids then ret ()
         else for_each dests (\<lambda>dep. if dep = ID then my_printf tid (dep_text src dep) else ret ()))))"

definition trace_access :: "nat \<Rightarrow> string \<Rightarrow> int \<Rightarrow> int \<Rightarrow> int \<Rightarrow> (('n, 'z) rt_scheme, unit) exec" where
  "trace_access tid txt addr sz ID =
     bnd (gets M) (\<lambda>m. for_each m (\<lambda>(lo, hi).
       if lo \<le> addr then
         bnd (cllong (addr + sz)) (\<lambda>last.
           if last \<le> hi then
             seq (modify (\<lambda>s. s\<lparr>TRACE_IDS := insert ID (TRACE_IDS s)\<rparr>))
                 (seq (my_printf tid txt) (print_deps tid ID))
           else ret ())
       else ret ()))"

definition pmc_printStoreAddr ::
  "nat \<Rightarrow> int \<Rightarrow> int \<Rightarrow> int \<Rightarrow> int \<Rightarrow> int \<Rightarrow> cstr \<Rightarrow> (('n, 'z) rt_scheme, unit) exec" where
  "pmc_printStoreAddr tid addr sz ID Line Col scope =
     if_flag (trace_access tid (access_text ''Store'' addr sz ID Line Col scope) addr sz ID)"

definition pmc_printLoadAddr ::
  "nat \<Rightarrow> int \<Rightarrow> int \<Rightarrow> int \<Rightarrow> int \<Rightarrow> int \<Rightarrow> cstr \<Rightarrow> (('n, 'z) rt_scheme, unit) exec" where
  "pmc_printLoadAddr tid addr sz ID Line Col scope =
     if_flag (trace_access tid (access_text ''Load'' addr sz ID Line Col scope) addr sz ID)"

definition simuSfence :: "nat \<Rightarrow> (('n, 'z) rt_scheme, unit) exec" where
  "simuSfence tid = if_flag (my_printf tid ''Simulated F-E-N-C-E;'')"

definition flush_text :: "64 word \<Rightarrow> int \<Rightarrow> string" where
  "flush_text p len = ''Simulated F-L-U-S-H: '' @ fmt_p p @ '' LEN: '' @ fmt_d len @ ''; ''"

definition simuFlushOpt :: "nat \<Rightarrow> 64 word \<Rightarrow> int \<Rightarrow> (('n, 'z) rt_scheme, unit) exec" where
  "simuFlushOpt tid p len = if_flag (my_printf tid (flush_text p len))"

definition simuFlush :: "nat \<Rightarrow> 64 word \<Rightarrow> int \<Rightarrow> (('n, 'z) rt_scheme, unit) exec" where
  "simuFlush tid p len = if_flag (my_printf tid (flush_text p len))"

definition simuTX_BEGIN :: "nat \<Rightarrow> (('n, 'z) rt_scheme, unit) exec" where
  "simuTX_BEGIN tid = if_flag (my_printf tid ''TX_BEGIN; '')"

definition simuTX_END :: "nat \<Rightarrow> (('n, 'z) rt_scheme, unit) exec" where
  "simuTX_END tid = if_flag (my_printf tid ''TX_END; '')"

definition simuTX_ADD :: "nat \<Rightarrow> 64 word \<Rightarrow> (('n, 'z) rt_scheme, unit) exec" where
  "simuTX_ADD tid p = if_flag (my_printf tid (''TX_ADD: '' @ fmt_p p @ ''; ''))"

section \<open>Running one entry point\<close>

lemma my_printf_open [exec_simps]:
  "openable s \<Longrightarrow> my_printf tid txt s = Inr ((), s\<lparr>log := log s @ [log_line tid txt]\<rparr>)"
  by (simp add: my_printf_def exec_simps)

lemma my_printf_closed [exec_simps]:
  "\<not> openable s \<Longrightarrow> my_printf tid txt s = Inr ((), s\<lparr>out := out s @ [(''Could not open file.'', [])]\<rparr>)"
  by (simp add: my_printf_def exec_simps)

lemma cllong_ok [exec_simps]: "- (2 ^ 63) \<le> i \<Longrightarrow> i < 2 ^ 63 \<Longrightarrow> cllong i s = Inr (i, s)"
  by (simp add: cllong_def exec_simps)

lemma if_flag_off [exec_simps]: "\<not> my_flag s \<Longrightarrow> if_flag m s = Inr ((), s)"
  by (simp add: if_flag_def exec_simps)

lemma locked_run:
  assumes "locks s mtx = Free"
    and "m (s\<lparr>locks := (locks s)(mtx := Held)\<rparr>) = Inr ((), s1)"
    and "locks s1 mtx = Held"
  shows "locked m s = Inr ((), s1\<lparr>locks := (locks s1)(mtx := Free)\<rparr>)"
  using assms by (simp add: locked_def exec_simps)

lemma if_flag_run:
  assumes "my_flag s" and "locks s mtx = Free"
    and "m (s\<lparr>locks := (locks s)(mtx := Held)\<rparr>) = Inr ((), s1)"
    and "locks s1 mtx = Held"
  shows "if_flag m s = Inr ((), s1\<lparr>locks := (locks s1)(mtx := Free)\<rparr>)"
  using assms by (simp add: if_flag_def locked_run exec_simps)

lemma relock [simp]:
  fixes s :: "('n, 'z) rt_scheme"
  shows "locks s mtx = Free \<Longrightarrow> s\<lparr>locks := (locks s)(mtx := Free)\<rparr> = s"
    and "locks s mtx = Free \<Longrightarrow> s\<lparr>locks := locks s\<rparr> = s"
  by simp_all

section \<open>Tracing an access\<close>

text \<open>The regions of a table that contain an access, and the lines one hit writes.\<close>

definition inside :: "int \<Rightarrow> int \<Rightarrow> int \<times> int \<Rightarrow> bool" where
  "inside addr sz = (\<lambda>(lo, hi). lo \<le> addr \<and> addr + sz \<le> hi)"

definition dep_sources :: "(int \<times> int list) list \<Rightarrow> int set \<Rightarrow> int \<Rightarrow> int list" where
  "dep_sources deps ids ID = map fst (filter (\<lambda>(src, ds). src \<in> ids \<and> ID \<in> set ds) deps)"

definition hit_lines :: "nat \<Rightarrow> string \<Rightarrow> int \<Rightarrow> (int \<times> int list) list \<Rightarrow> int set \<Rightarrow> string list" where
  "hit_lines tid txt ID deps ids =
     log_line tid txt # map (\<lambda>src. log_line tid (dep_text src ID)) (dep_sources deps (insert ID ids) ID)"

definition deps_ok :: "(int \<times> int list) list \<Rightarrow> bool" where
  "deps_ok deps \<longleftrightarrow> om_ok deps \<and> (\<forall>(src, ds) \<in> set deps. sorted_wrt (<) ds \<and> ds \<noteq> [])"

lemma print_dests:
  assumes "openable s" and "distinct ds"
  shows "for_each ds (\<lambda>dep. if dep = ID then my_printf tid (dep_text src dep) else ret ()) s =
     Inr ((), s\<lparr>log := log s @ (if ID \<in> set ds then [log_line tid (dep_text src ID)] else [])\<rparr>)"
  using assms
proof (induction ds arbitrary: s)
  case Nil
  then show ?case by (simp add: exec_simps)
next
  case (Cons d ds)
  then show ?case by (auto simp: exec_simps)
qed

lemma print_deps_run:
  assumes "openable s" and "deps_ok (DEP s)"
  shows "print_deps tid ID s = Inr ((), s\<lparr>log := log s @
     map (\<lambda>src. log_line tid (dep_text src ID)) (dep_sources (DEP s) (TRACE_IDS s) ID)\<rparr>)"
proof -
  have "for_each deps (\<lambda>(src, dests). bnd (gets TRACE_IDS) (\<lambda>ids. if src \<notin> ids then ret ()
         else for_each dests (\<lambda>dep. if dep = ID then my_printf tid (dep_text src dep) else ret ()))) s
      = Inr ((), s\<lparr>log := log s @ map (\<lambda>src. log_line tid (dep_text src ID)) (dep_sources deps (TRACE_IDS s) ID)\<rparr>)"
    if "openable s" "\<forall>(src, ds) \<in> set deps. distinct ds" for deps and s :: "('a, 'b) rt_scheme"
    using that
  proof (induction deps arbitrary: s)
    case Nil
    then show ?case by (simp add: exec_simps dep_sources_def)
  next
    case (Cons d deps)
    obtain src ds where d: "d = (src, ds)" by (cases d)
    let ?new = "if src \<in> TRACE_IDS s \<and> ID \<in> set ds then [log_line tid (dep_text src ID)] else []"
    have "bnd (gets TRACE_IDS) (\<lambda>ids. if src \<notin> ids then ret ()
         else for_each ds (\<lambda>dep. if dep = ID then my_printf tid (dep_text src dep) else ret ())) s
       = Inr ((), s\<lparr>log := log s @ ?new\<rparr>)"
      using Cons.prems by (simp add: d bnd_def gets_def ret_def print_dests)
    with Cons show ?case by (simp add: d seq_Inr dep_sources_def)
  qed
  moreover have "\<forall>(src, ds) \<in> set (DEP s). distinct ds"
    using assms(2) by (auto simp: deps_ok_def strict_sorted_iff)
  ultimately show ?thesis using assms(1) by (simp add: print_deps_def exec_simps)
qed

lemma trace_access_run:
  assumes "openable s" and "deps_ok (DEP s)" and "- (2 ^ 63) \<le> addr + sz" "addr + sz < 2 ^ 63"
  shows "trace_access tid txt addr sz ID s = Inr ((), s\<lparr>
     TRACE_IDS := (if filter (inside addr sz) (M s) = [] then TRACE_IDS s else insert ID (TRACE_IDS s)),
     log := log s @ concat (map (\<lambda>_. hit_lines tid txt ID (DEP s) (TRACE_IDS s)) (filter (inside addr sz) (M s)))\<rparr>)"
proof -
  let ?body = "\<lambda>(lo, hi). if lo \<le> addr then bnd (cllong (addr + sz)) (\<lambda>last.
           if last \<le> hi then
             seq (modify (\<lambda>s. s\<lparr>TRACE_IDS := insert ID (TRACE_IDS s)\<rparr>))
                 (seq (my_printf tid txt) (print_deps tid ID))
           else ret ()) else ret ()"
  have "for_each m ?body s = Inr ((), s\<lparr>
     TRACE_IDS := (if filter (inside addr sz) m = [] then TRACE_IDS s else insert ID (TRACE_IDS s)),
     log := log s @ concat (map (\<lambda>_. hit_lines tid txt ID (DEP s) (TRACE_IDS s)) (filter (inside addr sz) m))\<rparr>)"
    if "openable s" "deps_ok (DEP s)" for m and s :: "('a, 'b) rt_scheme"
    using that
  proof (induction m arbitrary: s)
    case Nil
    then show ?case by (simp add: exec_simps)
  next
    case (Cons r m)
    obtain lo hi where r: "r = (lo, hi)" by (cases r)
    show ?case
    proof (cases "inside addr sz r")
      case True
      with Cons.prems assms(3,4) have "?body r s = Inr ((), s\<lparr>TRACE_IDS := insert ID (TRACE_IDS s),
          log := log s @ hit_lines tid txt ID (DEP s) (TRACE_IDS s)\<rparr>)"
        by (simp add: r inside_def exec_simps print_deps_run hit_lines_def)
      with True Cons show ?thesis by (simp add: exec_simps hit_lines_def)
    next
      case False
      with assms(3,4) have "?body r s = Inr ((), s)"
        by (simp add: r inside_def exec_simps)
      with False Cons show ?thesis by (simp add: exec_simps)
    qed
  qed
  with assms show ?thesis by (simp add: trace_access_def exec_simps)
qed

section \<open>Sequences of calls\<close>

datatype rt_call =
    CInitialize
  | CMalloc "64 word" "64 word"
  | CMapFile "64 word" "64 word"
  | CFlush "64 word" int int int cstr
  | CFence int int cstr
  | CPobjAlloc int
  | CPobjCreate "64 word" "64 word"
  | CPmemCreate "64 word" "64 word"
  | CPobjOpen "64 word" "64 word"
  | CTxBegins int int cstr
  | CTxCommits int int cstr
  | CCalloc "64 word" "64 word" "64 word"
  | CFree "64 word"
  | CDummyBegin int
  | CDummyEnd int
  | CFuncBegin cstr
  | CFuncEnd cstr
  | CDepAdd int int
  | CStore int int int int int cstr
  | CLoad int int int int int cstr
  | CSfence
  | CFlushOpt "64 word" int
  | CSimuFlush "64 word" int
  | CTX_BEGIN
  | CTX_END
  | CTX_ADD "64 word"

definition ignore :: "('s, 'a) exec \<Rightarrow> ('s, unit) exec" where
  "ignore m = bnd m (\<lambda>_. ret ())"

primrec rt_exec :: "nat \<Rightarrow> rt_call \<Rightarrow> (('n, 'z) rt_scheme, unit) exec" where
  "rt_exec t CInitialize = pmc_Initialize"
| "rt_exec t (CMalloc p n) = ignore (pmc_malloc t p n)"
| "rt_exec t (CMapFile p n) = ignore (pmc_wrapper_pmem_map_file t p n)"
| "rt_exec t (CFlush p n l c sc) = rt_flush t p n l c sc"
| "rt_exec t (CFence l c sc) = rt_fence t l c sc"
| "rt_exec t (CPobjAlloc r) = ignore (pmc_pobj_alloc r)"
| "rt_exec t (CPobjCreate p n) = ignore (pmc_pmemobj_create t p n)"
| "rt_exec t (CPmemCreate p n) = pmem_create t p n"
| "rt_exec t (CPobjOpen p n) = ignore (pmc_pmemobj_open t p n)"
| "rt_exec t (CTxBegins l c sc) = transactionBegins t l c sc"
| "rt_exec t (CTxCommits l c sc) = transactionCommits t l c sc"
| "rt_exec t (CCalloc p b n) = ignore (pmc_calloc t p b n)"
| "rt_exec t (CFree p) = pmc_free t p"
| "rt_exec t (CDummyBegin d) = pmc_dummy_begin d"
| "rt_exec t (CDummyEnd d) = pmc_dummy_end d"
| "rt_exec t (CFuncBegin f) = pmc_funcBegin t f"
| "rt_exec t (CFuncEnd f) = pmc_funcEnd t f"
| "rt_exec t (CDepAdd i j) = pmc_depAdd i j"
| "rt_exec t (CStore a n i l c sc) = pmc_printStoreAddr t a n i l c sc"
| "rt_exec t (CLoad a n i l c sc) = pmc_printLoadAddr t a n i l c sc"
| "rt_exec t CSfence = simuSfence t"
| "rt_exec t (CFlushOpt p n) = simuFlushOpt t p n"
| "rt_exec t (CSimuFlush p n) = simuFlush t p n"
| "rt_exec t CTX_BEGIN = simuTX_BEGIN t"
| "rt_exec t CTX_END = simuTX_END t"
| "rt_exec t (CTX_ADD p) = simuTX_ADD t p"

text \<open>
  The abstract specification: whether tracing is on, which region starts at an address, and
  which dependences are known.
\<close>

type_synonym rt_abs = "bool \<times> (int \<rightharpoonup> int) \<times> (int \<times> int) set"

fun abs_call :: "rt_call \<Rightarrow> rt_abs \<Rightarrow> rt_abs" where
  "abs_call CInitialize (on, m, d) = (if on then (on, m, d) else (True, Map.empty, {}))"
| "abs_call (CMalloc p n) (on, m, d) = (on, if on then m(sint p \<mapsto> sint (p + n)) else m, d)"
| "abs_call (CCalloc p b n) (on, m, d) = (on, if on then m(sint p \<mapsto> sint (p + n)) else m, d)"
| "abs_call (CFree p) (on, m, d) = (on, if on then m(sint p := None) else m, d)"
| "abs_call (CMapFile p n) (on, m, d) = (on, m(sint p \<mapsto> sint (p + n)), d)"
| "abs_call (CPobjCreate p n) (on, m, d) = (on, m(sint p \<mapsto> sint (p + n)), d)"
| "abs_call (CPmemCreate p n) (on, m, d) = (on, m(sint p \<mapsto> sint (p + n)), d)"
| "abs_call (CPobjOpen p n) (on, m, d) = (on, m(sint p \<mapsto> sint (p + n)), d)"
| "abs_call (CDepAdd i j) (on, m, d) = (on, m, if on then insert (i, j) d else d)"
| "abs_call c a = a"

definition abs_deps :: "(int \<times> int list) list \<Rightarrow> (int \<times> int) set" where
  "abs_deps deps = {(i, j). \<exists>ds. map_of deps i = Some ds \<and> j \<in> set ds}"

definition rt_abs :: "('n, 'z) rt_scheme \<Rightarrow> rt_abs" where
  "rt_abs s = (my_flag s, map_of (M s), abs_deps (DEP s))"

definition rt_ok :: "('n, 'z) rt_scheme \<Rightarrow> bool" where
  "rt_ok s \<longleftrightarrow> locks s mtx = Free \<and> om_ok (M s) \<and> deps_ok (DEP s)"

text \<open>
  \<open>does g m\<close>: body \<open>m\<close> either stops on an address overflow or keeps the lock table
  and the flag and applies \<open>g\<close> to the two tables.
\<close>

type_synonym tables = "(int \<times> int) list \<times> (int \<times> int list) list"

definition effect :: "(tables \<Rightarrow> tables) \<Rightarrow> ('n, 'z) rt_scheme \<Rightarrow> fault + unit \<times> ('n, 'z) rt_scheme \<Rightarrow> bool" where
  "effect g s r = (case r of Inl e \<Rightarrow> e = SignedOverflow
     | Inr (_, s') \<Rightarrow> locks s' = locks s \<and> my_flag s' = my_flag s \<and> (M s', DEP s') = g (M s, DEP s))"

definition does :: "(tables \<Rightarrow> tables) \<Rightarrow> (('n, 'z) rt_scheme, unit) exec \<Rightarrow> bool" where
  "does g m \<longleftrightarrow> (\<forall>s. effect g s (m s))"

named_theorems does_rules "what the bodies of the runtime do to its tables"

lemma does_ret [does_rules]: "does id (ret ())"
  by (simp add: does_def effect_def exec_simps)

lemma does_printf [does_rules]: "does id (my_printf tid txt)"
  unfolding does_def effect_def
proof
  fix s :: "('a, 'b) rt_scheme"
  show "case my_printf tid txt s of Inl e \<Rightarrow> e = SignedOverflow
     | Inr (_, s') \<Rightarrow> locks s' = locks s \<and> my_flag s' = my_flag s \<and> (M s', DEP s') = id (M s, DEP s)"
    by (cases "openable s") (simp_all add: exec_simps)
qed

lemma does_seq: "does g m \<Longrightarrow> does h k \<Longrightarrow> does (h \<circ> g) (seq m k)"
  unfolding does_def effect_def seq_def bnd_def
  by (fastforce split: sum.splits)

lemma does_seq_id [does_rules]: "does id m \<Longrightarrow> does id k \<Longrightarrow> does id (seq m k)"
  using does_seq[of id m id k] by simp

lemma does_gets [does_rules]: "(\<And>a. does g (f a)) \<Longrightarrow> does g (bnd (gets h) f)"
  by (simp add: does_def exec_simps)

lemma does_bnd [does_rules]: "does id (ignore m) \<Longrightarrow> (\<And>a. does id (f a)) \<Longrightarrow> does id (bnd m f)"
  unfolding does_def effect_def ignore_def bnd_def ret_def
  by (fastforce split: sum.splits)

lemma does_cllong [does_rules]: "does id (ignore (cllong i))"
  by (simp add: does_def effect_def ignore_def cllong_def ret_def raise_def bnd_def)

lemma does_if [does_rules]: "does g m \<Longrightarrow> does g k \<Longrightarrow> does g (if b then m else k)"
  by simp

lemma does_for_each [does_rules]: "(\<And>x. does id (f x)) \<Longrightarrow> does id (for_each xs f)"
  by (induction xs) (simp_all add: does_rules)

lemma does_modify:
  assumes "\<And>s. locks (f s) = locks s \<and> my_flag (f s) = my_flag s \<and> (M (f s), DEP (f s)) = g (M s, DEP s)"
  shows "does g (modify f)"
  using assms by (simp add: does_def effect_def exec_simps)

lemma does_func_count [does_rules]: "does id (ignore (func_count f))"
  by (simp add: does_def effect_def ignore_def func_count_def exec_simps bnd_def gets_def ret_def seq_def modify_def
      split: option.splits)

lemma does_print_modify:
  assumes "\<And>s. locks (f s) = locks s \<and> my_flag (f s) = my_flag s \<and> (M (f s), DEP (f s)) = g (M s, DEP s)"
  shows "does g (seq (my_printf tid txt) (modify f))"
proof -
  have "does g (modify f)" using assms by (rule does_modify)
  from does_seq[OF does_printf this] show ?thesis by simp
qed

lemma does_add_region: "does (\<lambda>(m, d). (om_put (sint lo) (sint hi) m, d)) (add_region tid lo hi)"
  unfolding add_region_def by (rule does_print_modify) simp

lemma locked_effect: "does g m \<Longrightarrow> locks s mtx = Free \<Longrightarrow> effect g s (locked m s)"
  unfolding does_def effect_def
  by (erule allE[of _ "s\<lparr>locks := (locks s)(mtx := Held)\<rparr>"])
     (auto simp: locked_def exec_simps seq_def bnd_def pthread_mutex_unlock_def split: sum.splits)

lemma if_flag_effect:
  "does g m \<Longrightarrow> locks s mtx = Free \<Longrightarrow> effect (if my_flag s then g else id) s (if_flag m s)"
  using locked_effect[of g m s] by (simp add: if_flag_def exec_simps effect_def)


text \<open>The refinement relation for one call, and the three shapes of calls.\<close>

definition refines :: "rt_call \<Rightarrow> ('n, 'z) rt_scheme \<Rightarrow> fault + unit \<times> ('n, 'z) rt_scheme \<Rightarrow> bool" where
  "refines c s r = (case r of Inl e \<Rightarrow> e = SignedOverflow \<or> e = BadFree
     | Inr (_, s') \<Rightarrow> rt_ok s' \<and> rt_abs s' = abs_call c (rt_abs s))"

lemma refines_quiet:
  assumes "rt_ok s" and "effect id s r" and "abs_call c (rt_abs s) = rt_abs s"
  shows "refines c s r"
  using assms by (auto simp: refines_def effect_def rt_ok_def rt_abs_def split: sum.splits)

lemma refines_add:
  assumes "rt_ok s" and "effect (\<lambda>(m, d). (om_put lo hi m, d)) s r"
    and "abs_call c (rt_abs s) = (my_flag s, (map_of (M s))(lo \<mapsto> hi), abs_deps (DEP s))"
  shows "refines c s r"
  using assms by (auto simp: refines_def effect_def rt_ok_def rt_abs_def om_put_ok om_put_map split: sum.splits)

lemma refines_erase:
  assumes "rt_ok s" and "effect (\<lambda>(m, d). (om_erase lo m, d)) s r"
    and "abs_call c (rt_abs s) = (my_flag s, (map_of (M s))(lo := None), abs_deps (DEP s))"
  shows "refines c s r"
  using assms by (auto simp: refines_def effect_def rt_ok_def rt_abs_def om_erase_ok om_erase_map split: sum.splits)

definition dep_put :: "int \<Rightarrow> int \<Rightarrow> (int \<times> int list) list \<Rightarrow> (int \<times> int list) list" where
  "dep_put i j d = om_put i (insort_insert j (case map_of d i of None \<Rightarrow> [] | Some ds \<Rightarrow> ds)) d"

lemma insort_insert_strict: "sorted_wrt (<) xs \<Longrightarrow> sorted_wrt (<) (insort_insert x xs)"
  by (simp add: distinct_insort_insert sorted_insort_insert strict_sorted_iff)

lemma insort_insert_nonempty: "insort_insert x xs \<noteq> []"
  by (metis empty_iff insertI1 list.set(1) set_insort_insert)

lemma om_put_mem: "om_ok xs \<Longrightarrow> (k', v') \<in> set (om_put k v xs) \<longleftrightarrow> (if k' = k then v' = v else (k', v') \<in> set xs)"
  using om_ok_mem[of xs k' v'] om_ok_mem[OF om_put_ok, of xs k' v' k v] by (auto simp: om_put_map)

lemma dep_put_ok:
  assumes "deps_ok d"
  shows "deps_ok (dep_put i j d)"
proof -
  let ?old = "case map_of d i of None \<Rightarrow> [] | Some ds \<Rightarrow> ds"
  have "sorted_wrt (<) ?old"
    using assms by (auto simp: deps_ok_def dest: map_of_SomeD split: option.splits)
  then have "sorted_wrt (<) (insort_insert j ?old) \<and> insort_insert j ?old \<noteq> []"
    by (simp add: insort_insert_strict insort_insert_nonempty)
  with assms show ?thesis by (auto simp: deps_ok_def dep_put_def om_put_ok om_put_mem split: if_splits)
qed

lemma dep_put_abs: "deps_ok d \<Longrightarrow> abs_deps (dep_put i j d) = insert (i, j) (abs_deps d)"
  by (auto simp: abs_deps_def dep_put_def deps_ok_def om_put_map set_insort_insert split: if_splits option.splits)

lemma refines_dep:
  assumes "rt_ok s" and "effect (\<lambda>(m, d). (m, dep_put i j d)) s r"
    and "abs_call c (rt_abs s) = (my_flag s, map_of (M s), insert (i, j) (abs_deps (DEP s)))"
  shows "refines c s r"
  using assms by (auto simp: refines_def effect_def rt_ok_def rt_abs_def dep_put_ok dep_put_abs split: sum.splits)

lemma ignore_seq: "ignore (seq m k) = seq m (ignore k)"
  by (auto simp: ignore_def seq_def bnd_def fun_eq_iff split: sum.splits)

lemma ignore_ret: "seq m (ignore (ret a)) = m"
  by (auto simp: ignore_def seq_def bnd_def ret_def fun_eq_iff split: sum.splits)

lemma seq_malloc_effect:
  assumes "\<And>s0. locks s0 = locks s \<Longrightarrow> my_flag s0 = my_flag s \<Longrightarrow> M s0 = M s \<Longrightarrow> DEP s0 = DEP s
     \<Longrightarrow> effect g s0 (m s0)"
  shows "effect g s (seq (malloc_at p) m s)"
proof -
  obtain s0 where s0: "malloc_at p s = Inr ((), s0)" "locks s0 = locks s" "my_flag s0 = my_flag s"
    "M s0 = M s" "DEP s0 = DEP s"
    by (cases "p = 0") (auto simp: malloc_at_def exec_simps)
  with assms[of s0] show ?thesis by (auto simp: seq_Inr effect_def split: sum.splits)
qed

lemma seq_free_refines:
  assumes "refines c s (m s)"
  shows "refines c s (seq m (free p) s)"
  using assms
  by (auto simp: refines_def seq_def bnd_def free_def rt_ok_def rt_abs_def split: sum.splits)

lemma refines_if_flag:
  assumes "rt_ok s" and "does id m" and "abs_call c (rt_abs s) = rt_abs s"
  shows "refines c s (if_flag m s)"
proof -
  have "effect (if my_flag s then id else id) s (if_flag m s)"
    using assms(1,2) by (intro if_flag_effect) (simp_all add: rt_ok_def)
  then show ?thesis using assms by (intro refines_quiet) simp_all
qed

lemma refines_flag:
  assumes "rt_ok s" and "does g m"
    and "my_flag s \<Longrightarrow> effect g s (if_flag m s) \<Longrightarrow> refines c s (if_flag m s)"
    and "\<not> my_flag s \<Longrightarrow> abs_call c (rt_abs s) = rt_abs s"
  shows "refines c s (if_flag m s)"
  using if_flag_effect[OF assms(2), of s] assms refines_quiet[OF assms(1), of "if_flag m s" c]
  by (cases "my_flag s") (simp_all add: rt_ok_def)

lemma refines_region:
  assumes "rt_ok s"
  shows "refines (CPmemCreate p n) s (locked (add_region t p (p + n)) s)"
proof -
  have "does (\<lambda>(m, d). (om_put (sint p) (sint (p + n)) m, d)) (add_region t p (p + n))"
    by (rule does_add_region)
  from locked_effect[OF this, of s] show ?thesis
    using assms by (auto intro: refines_add[OF assms] simp: rt_ok_def rt_abs_def)
qed

lemma refines_alloc:
  assumes "rt_ok s"
  shows "refines (CMalloc p n) s (seq (malloc_at p) (if_flag (add_region t p (p + n))) s)"
proof -
  let ?g = "\<lambda>(m, d). (om_put (sint p) (sint (p + n)) m, d)"
  have g: "does ?g (add_region t p (p + n))" by (rule does_add_region)
  have "effect (if my_flag s then ?g else id) s (seq (malloc_at p) (if_flag (add_region t p (p + n))) s)"
  proof (rule seq_malloc_effect)
    fix s0 assume "locks s0 = locks s" "my_flag s0 = my_flag s"
    with if_flag_effect[OF g, of s0] assms
    show "effect (if my_flag s then ?g else id) s0 (if_flag (add_region t p (p + n)) s0)"
      by (simp add: rt_ok_def)
  qed
  then show ?thesis
    by (cases "my_flag s")
       (auto intro: refines_add[OF assms] refines_quiet[OF assms] simp: rt_abs_def)
qed

lemma refines_release:
  assumes "rt_ok s"
  shows "refines (CFree p) s (pmc_free t p s)"
proof -
  let ?m = "seq (my_printf t (''Adding addr: 0x'' @ fmt_llx p @ ''; ''))
            (modify (\<lambda>s. s\<lparr>M := om_erase (sint p) (M s)\<rparr>)) :: (('a, 'b) rt_scheme, unit) exec"
  have "does (\<lambda>(m, d). (om_erase (sint p) m, d)) ?m" by (rule does_print_modify) simp
  then have "refines (CFree p) s (if_flag ?m s)"
    by (rule refines_flag[OF assms]) (auto intro: refines_erase[OF assms] simp: rt_abs_def)
  then show ?thesis by (simp add: pmc_free_def seq_free_refines)
qed

lemma refines_depAdd:
  assumes "rt_ok s"
  shows "refines (CDepAdd i j) s (pmc_depAdd i j s)"
proof -
  have "does (\<lambda>(m, d). (m, dep_put i j d)) (modify (\<lambda>s. s\<lparr>DEP := om_put i
       (insort_insert j (case map_of (DEP s) i of None \<Rightarrow> [] | Some ds \<Rightarrow> ds)) (DEP s)\<rparr>)
       :: (('a, 'b) rt_scheme, unit) exec)"
    by (rule does_modify) (simp add: dep_put_def)
  then show ?thesis unfolding pmc_depAdd_def
    by (rule refines_flag[OF assms]) (auto intro: refines_dep[OF assms] simp: rt_abs_def)
qed

lemma refines_Initialize:
  "rt_ok s \<Longrightarrow> refines CInitialize s (pmc_Initialize s)"
  by (simp add: refines_def pmc_Initialize_def exec_simps rt_ok_def rt_abs_def deps_ok_def abs_deps_def)

lemma does_func_stack [does_rules]: "does id (modify (\<lambda>s. s\<lparr>FUNC_STACK := f s\<rparr>))"
  by (rule does_modify) simp

lemma refines_pobj: "rt_ok s \<Longrightarrow> refines (CPobjAlloc r) s (ignore (ret r) s)"
  by (simp add: refines_def ignore_def exec_simps rt_abs_def)

lemma does_access [does_rules]: "does id (trace_access tid txt addr sz ID)"
  unfolding trace_access_def print_deps_def
  by (auto intro!: does_rules does_modify simp: split_beta)

lemma refines_same: "refines c s r \<Longrightarrow> (\<And>a. abs_call c' a = abs_call c a) \<Longrightarrow> refines c' s r"
  by (auto simp: refines_def split: sum.splits)

lemmas region_defs = pmc_wrapper_pmem_map_file_def pmc_pmemobj_create_def pmem_create_def
  pmc_pmemobj_open_def pmc_malloc_def pmc_calloc_def

lemmas line_defs = rt_flush_def rt_fence_def transactionBegins_def transactionCommits_def
  pmc_dummy_begin_def pmc_dummy_end_def simuSfence_def simuFlushOpt_def simuFlush_def simuTX_BEGIN_def
  simuTX_END_def simuTX_ADD_def pmc_printStoreAddr_def pmc_printLoadAddr_def

lemma rt_exec_refines:
  assumes "rt_ok s"
  shows "refines c s (rt_exec t c s)"
proof -
  note quiet = refines_if_flag[OF assms]
  note shapes = refines_region[OF assms] refines_alloc[OF assms] refines_release[OF assms]
    refines_depAdd[OF assms] refines_Initialize[OF assms] refines_pobj[OF assms]
  have region: "refines c' s (locked (add_region t p (p + n)) s)"
    if "\<And>a. abs_call c' a = abs_call (CPmemCreate p n) a" for c' p n
    using refines_same[OF refines_region[OF assms]] that .
  show ?thesis
    by (cases c)
       (auto intro!: quiet shapes region does_rules
         refines_same[OF refines_alloc[OF assms]]
         simp: line_defs region_defs ignore_seq ignore_ret pmc_funcBegin_def pmc_funcEnd_def rt_abs_def
         pmc_pobj_alloc_def)
qed

primrec rt_run :: "(nat \<times> rt_call) list \<Rightarrow> (('n, 'z) rt_scheme, unit) exec" where
  "rt_run [] = ret ()"
| "rt_run (tc # cs) = seq (rt_exec (fst tc) (snd tc)) (rt_run cs)"

lemma rt_run_from:
  assumes "rt_ok s"
  shows "case rt_run cs s of Inl e \<Rightarrow> e = SignedOverflow \<or> e = BadFree
     | Inr (_, s') \<Rightarrow> rt_ok s' \<and> rt_abs s' = fold abs_call (map snd cs) (rt_abs s)"
  using assms
proof (induction cs arbitrary: s)
  case Nil
  then show ?case by (simp add: exec_simps)
next
  case (Cons tc cs)
  have step: "refines (snd tc) s (rt_exec (fst tc) (snd tc) s)"
    using Cons.prems by (rule rt_exec_refines)
  show ?case
  proof (cases "rt_exec (fst tc) (snd tc) s")
    case (Inl e)
    with step show ?thesis by (simp add: seq_Inl refines_def)
  next
    case (Inr r)
    then obtain s1 where s1: "rt_exec (fst tc) (snd tc) s = Inr ((), s1)" by (cases r) simp
    with step have "rt_ok s1" "rt_abs s1 = abs_call (snd tc) (rt_abs s)" by (simp_all add: refines_def)
    with Cons.IH[of s1] show ?thesis by (auto simp: seq_Inr[of _ _ "()" s1] s1 split: sum.splits)
  qed
qed

lemma rt_boot_ok: "rt_ok (rt_boot j b)" "rt_abs (rt_boot j b) = (False, Map.empty, {})"
  by (simp_all add: rt_ok_def rt_boot_def rt_abs_def deps_ok_def abs_deps_def)

text \<open>The state after an access has been traced.\<close>

definition traced :: "nat \<Rightarrow> string \<Rightarrow> int \<Rightarrow> int \<Rightarrow> int \<Rightarrow> ('n, 'z) rt_scheme \<Rightarrow> ('n, 'z) rt_scheme" where
  "traced tid txt addr sz ID s =
     (let hits = filter (inside addr sz) (M s) in s\<lparr>
        TRACE_IDS := (if hits = [] then TRACE_IDS s else insert ID (TRACE_IDS s)),
        log := log s @ concat (map (\<lambda>_. hit_lines tid txt ID (DEP s) (TRACE_IDS s)) hits)\<rparr>)"

lemma if_flag_traced:
  assumes "rt_ok s" "my_flag s" "openable s" and "- (2 ^ 63) \<le> addr + sz" "addr + sz < 2 ^ 63"
  shows "if_flag (trace_access tid txt addr sz ID) s = Inr ((), traced tid txt addr sz ID s)"
proof -
  let ?s = "s\<lparr>locks := (locks s)(mtx := Held)\<rparr>"
  have "trace_access tid txt addr sz ID ?s = Inr ((), traced tid txt addr sz ID ?s)"
    using assms trace_access_run[of ?s addr sz tid "txt" ID] by (simp add: traced_def rt_ok_def Let_def)
  with if_flag_run[of s "trace_access tid txt addr sz ID" "traced tid txt addr sz ID ?s"] assms(1,2)
  show ?thesis by (simp add: traced_def rt_ok_def Let_def)
qed

lemma traced_iff:
  assumes "om_ok (M s)"
  shows "log (traced tid txt addr sz ID s) \<noteq> log s \<longleftrightarrow>
    (\<exists>lo hi. map_of (M s) lo = Some hi \<and> lo \<le> addr \<and> addr + sz \<le> hi)"
proof -
  have "log (traced tid txt addr sz ID s) \<noteq> log s \<longleftrightarrow> filter (inside addr sz) (M s) \<noteq> []"
    by (cases "filter (inside addr sz) (M s)") (simp_all add: traced_def hit_lines_def)
  also have "\<dots> \<longleftrightarrow> (\<exists>lo hi. (lo, hi) \<in> set (M s) \<and> lo \<le> addr \<and> addr + sz \<le> hi)"
    by (force simp: filter_empty_conv inside_def)
  finally show ?thesis using om_ok_mem[OF assms] by auto
qed

lemma dep_sources_abs: "deps_ok deps \<Longrightarrow> set (dep_sources deps ids ID) = {i \<in> ids. (i, ID) \<in> abs_deps deps}"
proof -
  assume "deps_ok deps"
  then have "(i, ds) \<in> set deps \<longleftrightarrow> map_of deps i = Some ds" for i ds
    by (simp add: deps_ok_def om_ok_mem)
  then show ?thesis by (auto simp: dep_sources_def abs_deps_def image_iff split_beta)
qed

section \<open>Properties\<close>

text \<open>C30: Every sequence of calls of the tracing runtime, from any threads in the order in which they
take the mutex, refines the table of registered regions and the dependence relation of the
specification: afterwards the mutex is free, the tables are well formed and hold exactly what the
calls registered since the initialisation. A call never blocks on the mutex; the only failures are a
signed overflow of an address and a release of memory that is not allocated.\<close>

theorem rt_run_refines:
  "case rt_run cs (rt_boot j ok) of Inl e \<Rightarrow> e = SignedOverflow \<or> e = BadFree
     | Inr (_, s') \<Rightarrow> rt_ok s' \<and> rt_abs s' = fold abs_call (map snd cs) (False, Map.empty, {})"
  using rt_run_from[OF rt_boot_ok(1), of cs j ok] unfolding rt_boot_ok(2) .

text \<open>C31: With tracing on, a store or a load is written to the trace exactly when it lies inside a
registered region, once for every such region; each line is followed by one \<^verbatim>\<open>DEP\<close>
line for every statement traced so far (the access itself included) on which the access is known to
depend, and nothing else of the runtime changes but the set of traced statements.\<close>

theorem rt_access_traced:
  assumes "rt_ok s" and "my_flag s" and "openable s"
    and "- (2 ^ 63) \<le> addr + sz" and "addr + sz < 2 ^ 63"
  shows "pmc_printStoreAddr tid addr sz ID Line Col scope s =
           Inr ((), traced tid (access_text ''Store'' addr sz ID Line Col scope) addr sz ID s)
    \<and> pmc_printLoadAddr tid addr sz ID Line Col scope s =
           Inr ((), traced tid (access_text ''Load'' addr sz ID Line Col scope) addr sz ID s)
    \<and> (log (traced tid txt addr sz ID s) \<noteq> log s \<longleftrightarrow>
         (\<exists>lo hi. map_of (M s) lo = Some hi \<and> lo \<le> addr \<and> addr + sz \<le> hi))
    \<and> set (dep_sources (DEP s) ids ID) = {i \<in> ids. (i, ID) \<in> abs_deps (DEP s)}"
  using assms if_flag_traced[OF assms] traced_iff[of s] dep_sources_abs[of "DEP s"]
  by (simp add: pmc_printStoreAddr_def pmc_printLoadAddr_def rt_ok_def)

definition rt_example :: "unit rt" where
  "rt_example = (rt_boot () True)\<lparr>M := [(4096, 4104)], DEP := [(1, [2]), (3, [2])], TRACE_IDS := {1}, my_flag := True\<rparr>"

theorem rt_access_traced_witness:
  "log (traced 7 ''x'' 4100 4 2 rt_example) = [log_line 7 ''x'', log_line 7 (dep_text 1 2)]
   \<and> pmc_printStoreAddr 7 4100 4 2 0 0 (0, []) rt_example =
       Inr ((), traced 7 (access_text ''Store'' 4100 4 2 0 0 (0, [])) 4100 4 2 rt_example)"
proof -
  have "rt_ok rt_example" "my_flag rt_example" "openable rt_example"
    by (simp_all add: rt_example_def rt_boot_def rt_ok_def om_ok_def deps_ok_def)
  with rt_access_traced[of rt_example 4100 4 7 2 0 0 "(0, [])"] show ?thesis
    by (simp add: traced_def rt_example_def rt_boot_def inside_def hit_lines_def dep_sources_def)
qed

text \<open>\<^verbatim>\<open>__pmc_calloc\<close> registers one block only: after an initialised program has
obtained an array of blocks, a store that fills the second block leaves no trace, although the memory
belongs to the array.\<close>

theorem calloc_second_block_untraced:
  assumes "p \<noteq> 0" and "sint (p + n) = sint p + sint n" and "0 < sint n" and "sint p + 2 * sint n < 2 ^ 63"
  shows "\<exists>s. rt_run [(t, CInitialize), (t, CCalloc p 2 n), (t, CStore (sint p + sint n) (sint n) ID Line Col sc)]
           (rt_boot j True) = Inr ((), s)
     \<and> cells s (unat p) = Some j
     \<and> log s = [log_line t (''Adding addr: 0x'' @ fmt_llx p @ '' to 0x'' @ fmt_llx (p + n) @ ''; '')]"
proof -
  let ?s0 = "(rt_boot j True)\<lparr>my_flag := True\<rparr>"
  let ?line = "log_line t (''Adding addr: 0x'' @ fmt_llx p @ '' to 0x'' @ fmt_llx (p + n) @ ''; '')"
  let ?s1 = "?s0\<lparr>cells := [unat p \<mapsto> j], M := [(sint p, sint p + sint n)], log := [?line]\<rparr>"
  have 1: "pmc_Initialize (rt_boot j True) = Inr ((), ?s0)"
    by (simp add: pmc_Initialize_def exec_simps rt_boot_def fun_eq_iff)
  have 2: "rt_exec t (CCalloc p 2 n) ?s0 = Inr ((), ?s1)"
    using assms(1,2)
    by (simp add: ignore_def pmc_calloc_def malloc_at_def if_flag_def locked_def add_region_def exec_simps
        rt_boot_def)
  have "rt_ok ?s1" by (simp add: rt_ok_def rt_boot_def om_ok_def deps_ok_def)
  then have 3: "pmc_printStoreAddr t (sint p + sint n) (sint n) ID Line Col sc ?s1 =
      Inr ((), traced t (access_text ''Store'' (sint p + sint n) (sint n) ID Line Col sc) (sint p + sint n) (sint n) ID ?s1)"
    unfolding pmc_printStoreAddr_def
    using assms(3,4) sint_ge[of p] by (intro if_flag_traced) (simp_all add: rt_boot_def)
  show ?thesis using assms(3) 1 2 3
    by (simp add: exec_simps traced_def inside_def Let_def)
qed

theorem calloc_second_block_untraced_witness:
  "\<exists>s. rt_run [(1, CInitialize), (1, CCalloc 4096 2 8), (1, CStore 4104 8 5 0 0 (0, []))]
           (rt_boot () True) = Inr ((), s) \<and> length (log s) = 1"
proof -
  have 1: "sint (4096 + 8 :: 64 word) = sint (4096 :: 64 word) + sint (8 :: 64 word)" "0 < sint (8 :: 64 word)"
    "sint (4096 :: 64 word) + 2 * sint (8 :: 64 word) < 2 ^ 63"
    by simp_all
  have "(4096 :: 64 word) \<noteq> 0" by simp
  from calloc_second_block_untraced[OF this 1, of 1 5 0 0 "(0, [])" "()"] show ?thesis by auto
qed

end
