(* ===== verification/Motivating.thy ===== *)
theory Motivating
  imports PMRuntime
begin

text \<open>
  \<^verbatim>\<open>src/ThreadTrove/motivatingExample\<close>: two threads share the persistent integers
  \<^verbatim>\<open>x\<close> and \<^verbatim>\<open>y\<close>; the first writes \<^verbatim>\<open>x\<close>, the second copies
  \<^verbatim>\<open>x\<close> to \<^verbatim>\<open>y\<close> and makes \<^verbatim>\<open>y\<close> durable. The calls of the
  tracing runtime are those of \<open>PMRuntime\<close>. The addresses \<^verbatim>\<open>malloc\<close> returns
  and the thread identifiers are arguments.
\<close>

record pm_world = "int rt" +
  pm_x :: "64 word"
  pm_y :: "64 word"

definition PersistentMemory_init :: "nat \<Rightarrow> 64 word \<Rightarrow> 64 word \<Rightarrow> (pm_world, unit) exec" where
  "PersistentMemory_init tid px py =
     seq (bnd (pmc_malloc tid px 4) (\<lambda>p. modify (\<lambda>s. s\<lparr>pm_x := p\<rparr>)))
         (bnd (pmc_malloc tid py 4) (\<lambda>p. modify (\<lambda>s. s\<lparr>pm_y := p\<rparr>)))"

definition thread1_function :: "pm_world thread" where
  "thread1_function =
     atomic (bnd (gets pm_x) (\<lambda>p. assign (unat p) (\<lambda>_. 10))) (\<lambda>_. Done)"

definition thread2_function :: "nat \<Rightarrow> pm_world thread" where
  "thread2_function tid =
     atomic (bnd (gets pm_x) (\<lambda>p. deref (unat p))) (\<lambda>v.
     atomic (bnd (gets pm_y) (\<lambda>p. assign (unat p) (\<lambda>_. v))) (\<lambda>_.
     atomic (bnd (gets pm_y) (\<lambda>p. simuFlushOpt tid p 4)) (\<lambda>_.
     atomic (simuSfence tid) (\<lambda>_. Done))))"

definition motivating_main :: "nat list \<Rightarrow> nat \<Rightarrow> nat \<Rightarrow> 64 word \<Rightarrow> 64 word \<Rightarrow> (pm_world, int) exec" where
  "motivating_main sched tid tid2 px py =
     seq (PersistentMemory_init tid px py)
         (seq (run_threads sched [thread1_function, thread2_function tid2]) (ret 0))"

text \<open>The state before \<^verbatim>\<open>main\<close>, with the runtime switched on and the trace writable.\<close>

definition pm_boot :: "int \<Rightarrow> pm_world" where
  "pm_boot j = \<lparr>cells = Map.empty, fresh = 1, room = 0, junk = j,
     locks = (\<lambda>l. if l = mtx then Free else Uninit), out = [],
     M = [], FUNC_STACK = Map.empty, DEP = [], TRACE_IDS = {}, my_flag = True,
     openable = True, log = [], pm_x = 0, pm_y = 0\<rparr>"

section \<open>The invariant of the two threads\<close>

datatype pm_token = Writer bool | Reader nat int

definition adding :: "nat \<Rightarrow> 64 word \<Rightarrow> string" where
  "adding tid p = log_line tid (''Adding addr: 0x'' @ fmt_llx p @ '' to 0x'' @ fmt_llx (p + 4) @ ''; '')"

definition persist_lines :: "nat \<Rightarrow> 64 word \<Rightarrow> string list" where
  "persist_lines tid p = [log_line tid (flush_text p 4), log_line tid ''Simulated F-E-N-C-E;'']"

definition pm_at :: "int \<Rightarrow> nat \<Rightarrow> nat \<Rightarrow> 64 word \<Rightarrow> 64 word \<Rightarrow> bool \<Rightarrow> nat \<Rightarrow> int \<Rightarrow> pm_world \<Rightarrow> bool" where
  "pm_at j tid tid2 px py w k v s \<longleftrightarrow>
     cells s (unat px) = Some (if w then 10 else j)
     \<and> cells s (unat py) = Some (if k < 2 then j else v)
     \<and> (1 \<le> k \<longrightarrow> v = 10 \<or> v = j)
     \<and> log s = [adding tid px, adding tid py] @ take (k - 2) (persist_lines tid2 py)
     \<and> pm_x s = px \<and> pm_y s = py \<and> locks s mtx = Free \<and> my_flag s \<and> openable s"

definition pm_inv :: "int \<Rightarrow> nat \<Rightarrow> nat \<Rightarrow> 64 word \<Rightarrow> 64 word \<Rightarrow> pm_token multiset \<Rightarrow> pm_world \<Rightarrow> bool" where
  "pm_inv j tid tid2 px py g s \<longleftrightarrow>
    (\<exists>w k v. g = {#Writer w#} + {#Reader k v#} \<and> pm_at j tid tid2 px py w k v s)"

lemma tokens_split: "add_mset a c = {#Writer w#} + {#Reader k v#} \<longleftrightarrow>
    a = Writer w \<and> c = {#Reader k v#} \<or> a = Reader k v \<and> c = {#Writer w#}"
  by (auto simp: add_eq_conv_ex)

lemma pm_inv_writer: "pm_inv j tid tid2 px py (add_mset (Writer w) c) s \<longleftrightarrow>
    (\<exists>k v. c = {#Reader k v#} \<and> pm_at j tid tid2 px py w k v s)"
  unfolding pm_inv_def tokens_split by blast

lemma pm_inv_reader: "pm_inv j tid tid2 px py (add_mset (Reader k v) c) s \<longleftrightarrow>
    (\<exists>w. c = {#Writer w#} \<and> pm_at j tid tid2 px py w k v s)"
  unfolding pm_inv_def tokens_split by blast

lemma pm_inv_pair [simp]:
  "pm_inv j tid tid2 px py {#Writer w, Reader k v#} s \<longleftrightarrow> pm_at j tid tid2 px py w k v s"
  "pm_inv j tid tid2 px py {#Reader k v, Writer w#} s \<longleftrightarrow> pm_at j tid tid2 px py w k v s"
  by (simp_all only: pm_inv_writer pm_inv_reader) auto

lemma unat_addr: "(px :: 64 word) \<noteq> 0 \<Longrightarrow> unat px \<noteq> 0" "(px :: 64 word) \<noteq> py \<Longrightarrow> unat px \<noteq> unat py"
  by (simp add: unat_eq_0) (metis unsigned_word_eqI)

lemma tok_thread1:
  assumes "px \<noteq> 0" "px \<noteq> py"
  shows "tok (pm_inv j tid tid2 px py) (\<lambda>g. g = {#Writer True#}) {#Writer False#} thread1_function"
  unfolding thread1_function_def
proof (rule tok_atomic)
  fix c s
  assume "pm_inv j tid tid2 px py ({#Writer False#} + c) s"
  then obtain k v where c: "c = {#Reader k v#}" and s: "pm_at j tid tid2 px py False k v s"
    by (auto simp: pm_inv_writer)
  let ?s = "s\<lparr>cells := (cells s)(unat px \<mapsto> 10)\<rparr>"
  have "bnd (gets pm_x) (\<lambda>p. assign (unat p) (\<lambda>_. 10)) s = Inr ((), ?s)"
    using s assms by (simp add: pm_at_def exec_simps unat_addr)
  moreover have "pm_at j tid tid2 px py True k v ?s"
    using s unat_addr(2)[OF assms(2)] by (simp add: pm_at_def)
  ultimately show "\<exists>a s' g'. bnd (gets pm_x) (\<lambda>p. assign (unat p) (\<lambda>_. 10)) s = Inr (a, s') \<and>
     pm_inv j tid tid2 px py (g' + c) s' \<and> tok (pm_inv j tid tid2 px py) (\<lambda>g. g = {#Writer True#}) g' Done"
    by (intro exI[of _ "()"] exI[of _ ?s] exI[of _ "{#Writer True#}"]) (simp add: pm_inv_writer c tok_done)
qed

text \<open>One step of the reader.\<close>

lemma tok_reader:
  assumes step: "\<And>w s. pm_at j tid tid2 px py w k v s \<Longrightarrow>
      \<exists>a s' v'. m s = Inr (a, s') \<and> pm_at j tid tid2 px py w (Suc k) v' s' \<and>
        tok (pm_inv j tid tid2 px py) Q {#Reader (Suc k) v'#} (t a)"
  shows "tok (pm_inv j tid tid2 px py) Q {#Reader k v#} (atomic m t)"
proof (rule tok_atomic)
  fix c s
  assume "pm_inv j tid tid2 px py ({#Reader k v#} + c) s"
  then obtain w where c: "c = {#Writer w#}" and s: "pm_at j tid tid2 px py w k v s"
    by (auto simp: pm_inv_reader)
  from step[OF s] obtain a s' v' where "m s = Inr (a, s')" "pm_at j tid tid2 px py w (Suc k) v' s'"
    "tok (pm_inv j tid tid2 px py) Q {#Reader (Suc k) v'#} (t a)" by blast
  then show "\<exists>a s' g'. m s = Inr (a, s') \<and> pm_inv j tid tid2 px py (g' + c) s' \<and>
     tok (pm_inv j tid tid2 px py) Q g' (t a)"
    by (intro exI[of _ a] exI[of _ s'] exI[of _ "{#Reader (Suc k) v'#}"]) (simp add: pm_inv_reader c)
qed

lemma if_flag_line:
  assumes "my_flag s" "locks s mtx = Free" "openable s"
  shows "if_flag (my_printf tid text) s = Inr ((), s\<lparr>log := log s @ [log_line tid text]\<rparr>)"
  using assms if_flag_run[of s "my_printf tid text" "s\<lparr>locks := (locks s)(mtx := Held), log := log s @ [log_line tid text]\<rparr>"]
  by (simp add: exec_simps)

lemma tok_thread2:
  assumes "px \<noteq> 0" "py \<noteq> 0" "px \<noteq> py"
  shows "tok (pm_inv j tid tid2 px py) (\<lambda>g. \<exists>v. g = {#Reader 4 v#}) {#Reader 0 v#} (thread2_function tid2)"
  unfolding thread2_function_def
proof (rule tok_reader, goal_cases)
  case (1 w s)
  let ?u = "if w then 10 else j"
  have *: "tok (pm_inv j tid tid2 px py) (\<lambda>g. \<exists>v. g = {#Reader 4 v#}) {#Reader 1 ?u#}
    (atomic (bnd (gets pm_y) (\<lambda>p. assign (unat p) (\<lambda>_. ?u))) (\<lambda>_.
     atomic (bnd (gets pm_y) (\<lambda>p. simuFlushOpt tid2 p 4)) (\<lambda>_.
     atomic (simuSfence tid2) (\<lambda>_. Done))))"
  proof (rule tok_reader, goal_cases)
    case (1 w s)
    have 2: "tok (pm_inv j tid tid2 px py) (\<lambda>g. \<exists>v. g = {#Reader 4 v#}) {#Reader 2 u#}
      (atomic (bnd (gets pm_y) (\<lambda>p. simuFlushOpt tid2 p 4)) (\<lambda>_. atomic (simuSfence tid2) (\<lambda>_. Done)))" for u
    proof (rule tok_reader, goal_cases)
      case (1 w s)
      have 3: "tok (pm_inv j tid tid2 px py) (\<lambda>g. \<exists>v. g = {#Reader 4 v#}) {#Reader 3 u#}
        (atomic (simuSfence tid2) (\<lambda>_. Done))"
        by (rule tok_reader)
           (auto simp: pm_at_def simuSfence_def if_flag_line persist_lines_def intro!: tok_done)
      from 1 show ?case
        by (intro exI[of _ "()"] exI[of _ "s\<lparr>log := log s @ [log_line tid2 (flush_text py 4)]\<rparr>"] exI[of _ u])
           (use 3 in \<open>simp add: pm_at_def simuFlushOpt_def if_flag_line persist_lines_def exec_simps\<close>)
    qed
    from 1 show ?case
      by (intro exI[of _ "()"] exI[of _ "s\<lparr>cells := (cells s)(unat py \<mapsto> ?u)\<rparr>"] exI[of _ ?u])
         (use 2 assms unat_addr in \<open>simp add: pm_at_def exec_simps numeral_2_eq_2\<close>)
  qed
  from 1 show ?case
    by (intro exI[of _ ?u] exI[of _ s] exI[of _ ?u]) (use * assms unat_addr in \<open>simp add: pm_at_def exec_simps\<close>)
qed

section \<open>Property\<close>

lemma PersistentMemory_init_run:
  assumes "px \<noteq> 0" "py \<noteq> 0" "px \<noteq> py"
  shows "\<exists>s. PersistentMemory_init tid px py (pm_boot j) = Inr ((), s) \<and> pm_at j tid tid2 px py False 0 v s"
  using assms unat_addr(2)[of px py]
  by (simp add: PersistentMemory_init_def pmc_malloc_def malloc_at_def if_flag_def locked_def add_region_def
      exec_simps pm_boot_def pm_at_def adding_def)

text \<open>C32: Under every interleaving the motivating example ends without fault with \<^verbatim>\<open>x\<close> equal to
10, and the trace shows a flush and a fence of \<^verbatim>\<open>y\<close> only: \<^verbatim>\<open>x\<close> is never made
durable. The copy in \<^verbatim>\<open>y\<close> is 10 or the unspecified first contents of \<^verbatim>\<open>x\<close>,
and both happen under some interleaving.\<close>

theorem motivating_main_ok:
  assumes "px \<noteq> 0" "py \<noteq> 0" "px \<noteq> py"
  shows "(\<forall>sched. \<exists>s v. motivating_main sched tid tid2 px py (pm_boot j) = Inr (0, s)
      \<and> cells s (unat px) = Some 10 \<and> cells s (unat py) = Some v \<and> (v = 10 \<or> v = j)
      \<and> log s = [adding tid px, adding tid py] @ persist_lines tid2 py)
    \<and> (\<forall>v. v = 10 \<or> v = j \<longrightarrow> (\<exists>sched s. motivating_main sched tid tid2 px py (pm_boot j) = Inr (0, s)
      \<and> cells s (unat py) = Some v))"
proof -
  obtain s0 where s0: "PersistentMemory_init tid px py (pm_boot j) = Inr ((), s0)"
    "pm_at j tid tid2 px py False 0 v s0" for v
    using PersistentMemory_init_run[OF assms] by (fastforce simp: pm_at_def)
  have main: "\<exists>s v. motivating_main sched tid tid2 px py (pm_boot j) = Inr (0, s)
      \<and> cells s (unat px) = Some 10 \<and> cells s (unat py) = Some v \<and> (v = 10 \<or> v = j)
      \<and> log s = [adding tid px, adding tid py] @ persist_lines tid2 py" for sched
  proof -
    have "pm_inv j tid tid2 px py ({#Writer False#} + {#Reader 0 0#}) s0"
      using s0(2) by (simp add: pm_inv_writer)
    from run_two[OF tok_thread1[OF assms(1,3)] tok_thread2[OF assms] this, of sched] obtain s v where
      r: "run_threads sched [thread1_function, thread2_function tid2] s0 = Inr ((), s)"
      "pm_inv j tid tid2 px py ({#Writer True#} + {#Reader 4 v#}) s" by blast
    then have "pm_at j tid tid2 px py True 4 v s" by (simp add: pm_inv_writer)
    with r(1) s0(1) show ?thesis
      by (intro exI[of _ s] exI[of _ v])
         (simp add: motivating_main_def exec_simps pm_at_def persist_lines_def)
  qed
  have runs: "\<exists>s. run_threads [0] [thread1_function, thread2_function tid2] s0 = Inr ((), s) \<and> cells s (unat py) = Some 10"
    "\<exists>s. run_threads [1] [thread1_function, thread2_function tid2] s0 = Inr ((), s) \<and> cells s (unat py) = Some j"
    using s0(2) assms unat_addr by (simp_all add: run_threads_def thread1_function_def thread2_function_def
        atomic_def exec_simps pm_at_def simuFlushOpt_def simuSfence_def if_flag_line)
  have late: "\<exists>s. motivating_main [0] tid tid2 px py (pm_boot j) = Inr (0, s) \<and> cells s (unat py) = Some 10"
    using runs(1) s0(1) by (auto simp: motivating_main_def exec_simps)
  have early: "\<exists>s. motivating_main [1] tid tid2 px py (pm_boot j) = Inr (0, s) \<and> cells s (unat py) = Some j"
    using runs(2) s0(1) by (auto simp: motivating_main_def exec_simps)
  from main late early show ?thesis by blast
qed

theorem motivating_main_ok_witness:
  "\<exists>sched s. motivating_main sched 1 2 4096 8192 (pm_boot 7) = Inr (0, s)
      \<and> cells s (unat (8192 :: 64 word)) = Some 7"
proof -
  have "(4096 :: 64 word) \<noteq> 0" "(8192 :: 64 word) \<noteq> 0" "(4096 :: 64 word) \<noteq> 8192" by simp_all
  from motivating_main_ok[OF this, of 1 2 7] show ?thesis by blast
qed

end
