(* ===== verification/ClhtModel.thy ===== *)
theory ClhtModel
  imports Prelude "HOL-Library.Word"
begin

unbundle bit_operations_syntax

text \<open>
  The persistent hash table \<^verbatim>\<open>src/experiments/P-CLHT\<close> (the lock-based resizable
  CLHT), as one thread executes it. A bin of the table is the chain of buckets reached through
  \<^verbatim>\<open>next\<close>, a bucket has three slots and key \<open>0\<close> marks a free slot. A lock that is
  not free never becomes free in a sequential execution, so waiting for it is divergence.

  \<open>images\<close> is a ghost: the contents of the current table after every persistent store in
  program order, so the states a crash can leave behind are among them. The double
  \<^verbatim>\<open>full_ratio\<close> is the exact fraction \<open>100 * size / (3 * num_buckets)\<close>: it is
  only compared with integers and truncated, and for tables of fewer than \<open>2 ^ 48\<close> buckets
  rounding to a double cannot move such a fraction across an integer or a multiple of 40.
  The tables are compiled without the crash-simulation macros, with \<^verbatim>\<open>CLHT_HELP_RESIZE\<close>
  and \<^verbatim>\<open>CLHT_READ_ONLY_FAIL\<close> set and without garbage collection, as the header
  configures them.
\<close>

section \<open>Data\<close>

record bucket =
  b_lock :: nat
  b_key :: "64 word list"
  b_val :: "64 word list"

record hashtable =
  num_buckets :: nat
  table :: "bucket list list"
  ht_hash :: "64 word"
  version :: "64 word"
  num_expands :: "32 word"
  num_expands_threshold :: "32 word"
  is_helper :: int
  helper_done :: int

record clht = "64 word world" +
  ht :: hashtable
  table_tmp :: hashtable
  table_prev :: "hashtable list"
  version_min :: "64 word"
  resize_lock :: bool
  gc_lock :: bool
  status_lock :: bool
  images :: "hashtable list"

abbreviation (input) "LOCK_FREE \<equiv> (0 :: nat)"

abbreviation (input) "LOCK_UPDATE \<equiv> (1 :: nat)"

abbreviation (input) "LOCK_RESIZE \<equiv> (2 :: nat)"

type_synonym chain = "bucket list"

section \<open>Helper functions\<close>

definition is_power_of_two :: "32 word \<Rightarrow> bool" where
  "is_power_of_two x \<longleftrightarrow> x \<noteq> 0 \<and> \<not> (x AND (x - 1) \<noteq> 0)"

definition is_odd :: "32 word \<Rightarrow> 32 word" where
  "is_odd x = x AND 1"

definition ac_Jenkins_hash_64 :: "64 word \<Rightarrow> 64 word" where
  "ac_Jenkins_hash_64 key0 =
     (let key = key0 + NOT (push_bit 32 key0);
          key = key XOR drop_bit 22 key;
          key = key + NOT (push_bit 13 key);
          key = key XOR drop_bit 8 key;
          key = key + push_bit 3 key;
          key = key XOR drop_bit 15 key;
          key = key + NOT (push_bit 27 key);
          key = key XOR drop_bit 31 key
      in key)"

definition pow2roundup :: "64 word \<Rightarrow> 64 word" where
  "pow2roundup x0 =
     (if x0 = 0 then 1
      else let x = x0 - 1;
               x = x OR drop_bit 1 x;
               x = x OR drop_bit 2 x;
               x = x OR drop_bit 4 x;
               x = x OR drop_bit 8 x;
               x = x OR drop_bit 16 x;
               x = x OR drop_bit 32 x
           in x + 1)"

text \<open>The addresses of the cache lines one call of \<^verbatim>\<open>clflush\<close> visits.\<close>

function flush_lines :: "nat \<Rightarrow> nat \<Rightarrow> nat list" where
  "flush_lines p stop = (if p < stop then p # flush_lines (p + 64) stop else [])"
  by auto
termination by (relation "measure (\<lambda>(p, stop). stop - p)") auto

declare flush_lines.simps [simp del]

definition clflush :: "64 word \<Rightarrow> nat \<Rightarrow> nat list" where
  "clflush data len = flush_lines (unat (data AND NOT 63)) (unat data + len)"

section \<open>Creation\<close>

definition clht_bucket_create :: "(('z) clht_scheme, bucket option) exec" where
  "clht_bucket_create =
     bnd pmalloc_object (\<lambda>ok. if \<not> ok then ret None
       else bnd (gets junk) (\<lambda>j. ret (Some \<lparr>b_lock = LOCK_FREE, b_key = [0, 0, 0], b_val = [j, j, j]\<rparr>)))"

text \<open>
  The table \<open>h\<close> of \<^verbatim>\<open>clht_bucket_create_stats\<close> is given by how it is read and
  updated: the current table in \<^verbatim>\<open>clht_put\<close>, the new one in \<^verbatim>\<open>clht_put_seq\<close>.
\<close>

definition clht_bucket_create_stats ::
  "(clht \<Rightarrow> hashtable) \<Rightarrow> ((hashtable \<Rightarrow> hashtable) \<Rightarrow> clht \<Rightarrow> clht) \<Rightarrow> (clht, bucket option \<times> bool) exec" where
  "clht_bucket_create_stats h h_update =
     bnd clht_bucket_create (\<lambda>b.
       seq (modify (h_update (\<lambda>t. t\<lparr>num_expands := num_expands t + 1\<rparr>)))
           (bnd (gets h) (\<lambda>t. ret (b, num_expands t \<ge> num_expands_threshold t))))"

definition empty_bucket :: bucket where
  "empty_bucket = \<lparr>b_lock = LOCK_FREE, b_key = [0, 0, 0], b_val = [0, 0, 0]\<rparr>"

text \<open>
  A table whose byte size exceeds the address space is allocated too small and the loop over its
  buckets leaves the block.
\<close>

definition clht_hashtable_create :: "nat \<Rightarrow> (clht, hashtable option) exec" where
  "clht_hashtable_create n =
     (if n = 0 then ret None
      else bnd pmalloc_object (\<lambda>ok.
        if \<not> ok then seq (printf ''** malloc @ hatshtalbe\<newline>'' []) (ret None)
        else bnd pmalloc_object (\<lambda>ok2.
          if \<not> ok2 then seq (printf ''** alloc: hashtable->table\<newline>'' [])
            (seq (modify (\<lambda>s. s\<lparr>room := Suc (room s)\<rparr>)) (ret None))
          else if 2 ^ 64 \<le> n * 64 then raise IndexRange
          else ret (Some \<lparr>num_buckets = n, table = replicate n [empty_bucket], ht_hash = of_nat n - 1,
                 version = 0, num_expands = 0,
                 num_expands_threshold = (if (of_nat n :: 32 word) = 0 then 1 else of_nat n),
                 is_helper = 1, helper_done = 0\<rparr>))))"

definition clht_create :: "nat \<Rightarrow> (clht, bool) exec" where
  "clht_create n =
     bnd pmalloc_object (\<lambda>ok.
       if \<not> ok then seq (printf ''** malloc @ hatshtalbe\<newline>'' []) (ret False)
       else bnd (clht_hashtable_create n) (\<lambda>t. case t of
         None \<Rightarrow> seq (modify (\<lambda>s. s\<lparr>room := Suc (room s)\<rparr>)) (ret False)
       | Some t \<Rightarrow> seq (modify (\<lambda>s. s\<lparr>ht := t, table_prev := [], version_min := 0, resize_lock := False,
                 gc_lock := False, status_lock := False, images := [t]\<rparr>)) (ret True)))"

section \<open>Lookup\<close>

definition clht_hash :: "hashtable \<Rightarrow> 64 word \<Rightarrow> nat" where
  "clht_hash h key = unat (key AND ht_hash h)"

definition read_bin :: "hashtable \<Rightarrow> nat \<Rightarrow> ('s, chain) exec" where
  "read_bin h bin = (if bin < length (table h) then ret (table h ! bin) else raise IndexRange)"

primrec find_slot :: "64 word \<Rightarrow> 64 word list \<Rightarrow> nat option" where
  "find_slot key [] = None"
| "find_slot key (k # ks) = (if k = key then Some 0 else map_option Suc (find_slot key ks))"

primrec chain_get :: "64 word \<Rightarrow> chain \<Rightarrow> 64 word" where
  "chain_get key [] = 0"
| "chain_get key (b # bs) =
     (case find_slot key (b_key b) of Some j \<Rightarrow> b_val b ! j | None \<Rightarrow> chain_get key bs)"

definition clht_get :: "hashtable \<Rightarrow> 64 word \<Rightarrow> ('s, 64 word) exec" where
  "clht_get h key = bnd (read_bin h (clht_hash h key)) (\<lambda>c. ret (chain_get key c))"

primrec bucket_exists :: "64 word \<Rightarrow> chain \<Rightarrow> bool" where
  "bucket_exists key [] = False"
| "bucket_exists key (b # bs) = (find_slot key (b_key b) \<noteq> None \<or> bucket_exists key bs)"

section \<open>Stores\<close>

text \<open>A store to slot \<open>j\<close> of bucket \<open>i\<close> of a bin, and its effect on the current table.\<close>

definition upd_bucket :: "nat \<Rightarrow> nat \<Rightarrow> (bucket \<Rightarrow> bucket) \<Rightarrow> hashtable \<Rightarrow> hashtable" where
  "upd_bucket bin i f h = h\<lparr>table := (table h)[bin := (table h ! bin)[i := f (table h ! bin ! i)]]\<rparr>"

definition persist :: "(hashtable \<Rightarrow> hashtable) \<Rightarrow> (clht, unit) exec" where
  "persist f = modify (\<lambda>s. s\<lparr>ht := f (ht s), images := images s @ [f (ht s)]\<rparr>)"

definition store_val :: "nat \<Rightarrow> nat \<Rightarrow> nat \<Rightarrow> 64 word \<Rightarrow> (clht, unit) exec" where
  "store_val bin i j v = persist (upd_bucket bin i (\<lambda>b. b\<lparr>b_val := (b_val b)[j := v]\<rparr>))"

definition store_key :: "nat \<Rightarrow> nat \<Rightarrow> nat \<Rightarrow> 64 word \<Rightarrow> (clht, unit) exec" where
  "store_key bin i j k = persist (upd_bucket bin i (\<lambda>b. b\<lparr>b_key := (b_key b)[j := k]\<rparr>))"

definition store_next :: "nat \<Rightarrow> bucket \<Rightarrow> (clht, unit) exec" where
  "store_next bin b = persist (\<lambda>h. h\<lparr>table := (table h)[bin := (table h ! bin) @ [b]]\<rparr>)"

definition set_lock :: "nat \<Rightarrow> nat \<Rightarrow> (clht, unit) exec" where
  "set_lock bin l = modify (\<lambda>s. s\<lparr>ht := upd_bucket bin 0 (\<lambda>b. b\<lparr>b_lock := l\<rparr>) (ht s)\<rparr>)"

text \<open>
  Under \<^verbatim>\<open>LOCK_RESIZE\<close> the function helps the resizing thread and then waits for
  \<^verbatim>\<open>table_new\<close>, which no other thread sets.
\<close>

definition lock_acq_chk_resize :: "nat \<Rightarrow> (clht, unit) exec" where
  "lock_acq_chk_resize bin =
     bnd (gets ht) (\<lambda>h. bnd (read_bin h bin) (\<lambda>c.
       if b_lock (c ! 0) = LOCK_FREE then set_lock bin LOCK_UPDATE else raise Diverges))"

definition lock_acq_resize :: "nat \<Rightarrow> (clht, bool) exec" where
  "lock_acq_resize bin =
     bnd (gets ht) (\<lambda>h. bnd (read_bin h bin) (\<lambda>c.
       if b_lock (c ! 0) = LOCK_UPDATE then raise Diverges
       else if b_lock (c ! 0) = LOCK_RESIZE then ret False
       else seq (set_lock bin LOCK_RESIZE) (ret True)))"

definition lock_rls :: "nat \<Rightarrow> (clht, unit) exec" where
  "lock_rls bin = set_lock bin LOCK_FREE"

section \<open>Resizing\<close>

text \<open>\<open>first_free\<close> is the place \<^verbatim>\<open>clht_put_seq\<close> stops at.\<close>

fun first_free :: "nat \<Rightarrow> chain \<Rightarrow> (nat \<times> nat) option" where
  "first_free i [] = None"
| "first_free i (b # bs) =
     (case find_slot 0 (b_key b) of Some j \<Rightarrow> Some (i, j) | None \<Rightarrow> first_free (Suc i) bs)"

definition fill :: "nat \<Rightarrow> 64 word \<Rightarrow> 64 word \<Rightarrow> bucket \<Rightarrow> bucket" where
  "fill j key v b = b\<lparr>b_val := (b_val b)[j := v], b_key := (b_key b)[j := key]\<rparr>"

definition clht_put_seq :: "64 word \<Rightarrow> 64 word \<Rightarrow> nat \<Rightarrow> (clht, unit) exec" where
  "clht_put_seq key v bin =
     bnd (gets table_tmp) (\<lambda>h. bnd (read_bin h bin) (\<lambda>c.
       case first_free 0 c of
         Some (i, j) \<Rightarrow> modify (table_tmp_update (upd_bucket bin i (fill j key v)))
       | None \<Rightarrow> bnd (clht_bucket_create_stats table_tmp table_tmp_update) (\<lambda>(b, _). case b of
           None \<Rightarrow> raise NullDeref
         | Some b \<Rightarrow> modify (table_tmp_update (\<lambda>h. h\<lparr>table := (table h)[bin := (table h ! bin) @ [fill 0 key v b]]\<rparr>)))))"

text \<open>
  \<^verbatim>\<open>bucket_cpy\<close> of bin \<open>bin\<close> of the current table: \<open>False\<close> when another
  thread already resizes the bin.
\<close>

definition copy_entry :: "64 word \<times> 64 word \<Rightarrow> (clht, unit) exec" where
  "copy_entry kv =
     (if fst kv \<noteq> 0
      then bnd (gets table_tmp) (\<lambda>h. clht_put_seq (fst kv) (snd kv) (clht_hash h (fst kv)))
      else ret ())"

definition bucket_cpy :: "nat \<Rightarrow> (clht, bool) exec" where
  "bucket_cpy bin =
     bnd (lock_acq_resize bin) (\<lambda>acquired.
       if \<not> acquired then ret False
       else bnd (gets ht) (\<lambda>h. bnd (read_bin h bin) (\<lambda>c.
         seq (for_each c (\<lambda>b. for_each (zip (b_key b) (b_val b)) copy_entry)) (ret True))))"

primrec copy_bins :: "nat list \<Rightarrow> (clht, unit) exec" where
  "copy_bins [] = ret ()"
| "copy_bins (b # bs) = bnd (bucket_cpy b) (\<lambda>ok. if ok then copy_bins bs else ret ())"

text \<open>
  \<^verbatim>\<open>ht_resize_pes\<close>; \<open>status\<close> is the call of \<^verbatim>\<open>ht_status\<close> it may end
  with. The tables are released to \<^verbatim>\<open>ssmem\<close> without being reused.
\<close>

definition ht_resize_pes :: "(clht, nat) exec \<Rightarrow> bool \<Rightarrow> nat \<Rightarrow> (clht, int) exec" where
  "ht_resize_pes status is_increase by_factor =
     bnd (gets resize_lock) (\<lambda>held.
     seq (modify (\<lambda>s. s\<lparr>resize_lock := True\<rparr>))
     (if held then ret 0
      else
        seq (if is_increase then ret () else modify (\<lambda>s. s\<lparr>ht := (ht s)\<lparr>is_helper := 0\<rparr>\<rparr>))
        (bnd (gets ht) (\<lambda>ht_old.
         let num_buckets_new = (if is_increase then (by_factor * num_buckets ht_old) mod 2 ^ 64
                                else num_buckets ht_old div 8) in
         bnd (clht_hashtable_create num_buckets_new) (\<lambda>t. case t of
           None \<Rightarrow> raise NullDeref
         | Some ht_new \<Rightarrow>
             seq (modify (\<lambda>s. s\<lparr>table_tmp := ht_new\<lparr>version := version ht_old + 1\<rparr>\<rparr>))
             (seq (copy_bins [0..<num_buckets ht_old])
             (seq (if is_increase \<and> is_helper ht_old \<noteq> 1 \<and> helper_done ht_old \<noteq> 1 then raise Diverges else ret ())
             (bnd (gets table_tmp) (\<lambda>ht_new.
                let again = (num_expands ht_new \<ge> num_expands_threshold ht_new) in
                seq (modify (\<lambda>s. s\<lparr>table_prev := ht s # table_prev s, ht := ht_new,
                                  images := images s @ [ht_new], resize_lock := False\<rparr>))
                (if again then seq status (ret 1) else ret 1))))))))))"

section \<open>Status\<close>

definition bucket_entries :: "bucket \<Rightarrow> (64 word \<times> 64 word) list" where
  "bucket_entries b = filter (\<lambda>(k, v). k \<noteq> 0) (zip (b_key b) (b_val b))"

definition used_slots :: "chain \<Rightarrow> nat" where
  "used_slots c = sum_list (map (\<lambda>b. length (filter (\<lambda>k. 0 < k) (b_key b))) c)"

definition clht_size :: "hashtable \<Rightarrow> nat" where
  "clht_size h = sum_list (map used_slots (take (num_buckets h) (table h)))"

definition expands_total :: "hashtable \<Rightarrow> nat" where
  "expands_total h = sum_list (map (\<lambda>c. length c - 1) (take (num_buckets h) (table h)))"

definition expands_max :: "hashtable \<Rightarrow> nat" where
  "expands_max h = fold max (map (\<lambda>c. length c - 1) (take (num_buckets h) (table h))) 0"

text \<open>\<^verbatim>\<open>full_ratio < p\<close> and \<^verbatim>\<open>full_ratio > p\<close> for \<^verbatim>\<open>full_ratio = 100.0 * size / slots\<close>.\<close>

definition ratio_below :: "nat \<Rightarrow> nat \<Rightarrow> nat \<Rightarrow> bool" where
  "ratio_below p elems slots \<longleftrightarrow> 100 * elems < p * slots"

definition ratio_above :: "nat \<Rightarrow> nat \<Rightarrow> nat \<Rightarrow> bool" where
  "ratio_above p elems slots \<longleftrightarrow> p * slots < 100 * elems"

primrec ht_status :: "nat \<Rightarrow> bool \<Rightarrow> bool \<Rightarrow> (clht, nat) exec" where
  "ht_status 0 resize_increase just_print = raise Diverges"
| "ht_status (Suc fuel) resize_increase just_print =
     bnd (gets status_lock) (\<lambda>held.
     seq (modify (\<lambda>s. s\<lparr>status_lock := True\<rparr>))
     (if held \<and> \<not> resize_increase then ret 0
      else bnd (gets ht) (\<lambda>h.
        let elems = clht_size h; slots = num_buckets h * 3 in
        bnd (cint (int (expands_total h))) (\<lambda>expands.
        seq
          (if just_print then
             printf ''[STATUS-%02d] #bu: %7zu / #elems: %7zu / full%%: %8.4f%% / expands: %4d / max expands: %2d\<newline>''
               [99, int (num_buckets h), int elems, int (100 * elems), int slots, expands, int (expands_max h)]
           else if ratio_above 0 elems slots \<and> ratio_below 5 elems slots then
             seq (ht_resize_pes (ht_status fuel True False) False 33) (ret ())
           else if ratio_above 50 elems slots \<or> 24 < expands_max h \<or> resize_increase then
             bnd (cint (int ((100 * elems) div (40 * slots)))) (\<lambda>inc_by.
               let inc_by_pow2 = unat (pow2roundup (of_int inc_by)) in
               seq (ht_resize_pes (ht_status fuel True False) True (if inc_by_pow2 = 1 then 2 else inc_by_pow2)) (ret ()))
           else ret ())
          (seq (modify (\<lambda>s. s\<lparr>status_lock := False\<rparr>)) (ret elems))))))"

section \<open>Insertion and removal\<close>

datatype scan = Found | Slot nat nat | Full

text \<open>The inner loop of \<^verbatim>\<open>clht_put\<close>: \<open>None\<close> when the key is met, the first empty slot otherwise.\<close>

fun scan_slots :: "64 word \<Rightarrow> nat \<Rightarrow> nat \<Rightarrow> (nat \<times> nat) option \<Rightarrow> 64 word list \<Rightarrow> (nat \<times> nat) option option" where
  "scan_slots key i j emp [] = Some emp"
| "scan_slots key i j emp (k # ks) =
     (if k = key then None
      else scan_slots key i (Suc j) (if emp = None \<and> k = 0 then Some (i, j) else emp) ks)"

fun put_scan :: "64 word \<Rightarrow> nat \<Rightarrow> (nat \<times> nat) option \<Rightarrow> chain \<Rightarrow> scan" where
  "put_scan key i emp [] = (case emp of None \<Rightarrow> Full | Some (i, j) \<Rightarrow> Slot i j)"
| "put_scan key i emp (b # bs) =
     (case scan_slots key i 0 emp (b_key b) of None \<Rightarrow> Found | Some emp' \<Rightarrow> put_scan key (Suc i) emp' bs)"

definition clht_put :: "nat \<Rightarrow> 64 word \<Rightarrow> 64 word \<Rightarrow> (clht, bool) exec" where
  "clht_put fuel key v =
     bnd (gets ht) (\<lambda>h. let bin = clht_hash h key in
     bnd (read_bin h bin) (\<lambda>c.
     if bucket_exists key c then ret False
     else seq (lock_acq_chk_resize bin)
       (case put_scan key 0 None c of
          Found \<Rightarrow> seq (lock_rls bin) (ret False)
        | Slot i j \<Rightarrow> seq (store_val bin i j v) (seq (store_key bin i j key) (seq (lock_rls bin) (ret True)))
        | Full \<Rightarrow> bnd (clht_bucket_create_stats ht ht_update) (\<lambda>(b, resize). case b of
            None \<Rightarrow> raise NullDeref
          | Some b \<Rightarrow> seq (store_next bin (fill 0 key v b)) (seq (lock_rls bin)
              (if resize then seq (ht_status fuel True False) (ret True) else ret True))))))"

fun find_entry :: "64 word \<Rightarrow> nat \<Rightarrow> chain \<Rightarrow> (nat \<times> nat) option" where
  "find_entry key i [] = None"
| "find_entry key i (b # bs) =
     (case find_slot key (b_key b) of Some j \<Rightarrow> Some (i, j) | None \<Rightarrow> find_entry key (Suc i) bs)"

definition clht_remove :: "64 word \<Rightarrow> (clht, 64 word) exec" where
  "clht_remove key =
     bnd (gets ht) (\<lambda>h. let bin = clht_hash h key in
     bnd (read_bin h bin) (\<lambda>c.
     if \<not> bucket_exists key c then ret 0
     else seq (lock_acq_chk_resize bin)
       (case find_entry key 0 c of
          Some (i, j) \<Rightarrow> seq (store_key bin i j 0) (seq (lock_rls bin) (ret (b_val (c ! i) ! j)))
        | None \<Rightarrow> seq (lock_rls bin) (ret 0))))"

definition clht_size_mem :: "hashtable \<Rightarrow> nat" where
  "clht_size_mem h = 8 + (num_buckets h + unat (num_expands h)) * 64"

definition clht_size_mem_garbage :: "(clht, nat) exec" where
  "clht_size_mem_garbage = gets (\<lambda>s. sum_list (map clht_size_mem (table_prev s)))"

definition clht_lock_initialization :: "(clht, unit) exec" where
  "clht_lock_initialization =
     modify (\<lambda>s. s\<lparr>resize_lock := False, status_lock := False, gc_lock := False,
       ht := (ht s)\<lparr>table := map (map (\<lambda>b. b\<lparr>b_lock := LOCK_FREE\<rparr>)) (table (ht s))\<rparr>\<rparr>)"

definition clht_print :: "hashtable \<Rightarrow> (clht, unit) exec" where
  "clht_print h =
     seq (printf ''Number of buckets: %zu\<newline>'' [int (num_buckets h)])
     (for_each [0..<num_buckets h] (\<lambda>bin. bnd (read_bin h bin) (\<lambda>c.
        seq (printf ''[[%05zu]] '' [int bin])
        (seq (for_each c (\<lambda>b.
           seq (for_each (zip (b_key b) (b_val b)) (\<lambda>(k, v).
                  if k \<noteq> 0 then printf ''(%-5llu/%p)-> '' [uint k, uint v] else ret ()))
               (printf '' ** -> '' [])))
        (printf ''\<newline>'' [])))))"

end
