(* ===== verification/ClhtBits.thy ===== *)
theory ClhtBits
  imports ClhtModel
begin

text \<open>
  The bit manipulations of P-CLHT: \<^verbatim>\<open>pow2roundup\<close> is the least power of two that is
  not smaller than its argument, a masked key is a bin of the table, and the lines a
  \<^verbatim>\<open>clflush\<close> visits cover the data.
\<close>

section \<open>Rounding up to a power of two\<close>

text \<open>\<open>smeared d x y\<close>: bit \<open>n\<close> of \<open>y\<close> is set iff one of the bits \<open>n ..< n + d\<close> of \<open>x\<close> is.\<close>

definition smeared :: "nat \<Rightarrow> 'l::len word \<Rightarrow> 'l word \<Rightarrow> bool" where
  "smeared d x y \<longleftrightarrow> (\<forall>n. bit y n \<longleftrightarrow> (\<exists>m. n \<le> m \<and> m < n + d \<and> bit x m))"

lemma smeared_one: "smeared 1 x x"
  by (auto simp: smeared_def le_less_Suc_eq)

lemma smeared_step:
  assumes "smeared d x y"
  shows "smeared (d + d) x (y OR drop_bit d y)"
  unfolding smeared_def
proof
  fix n
  have "bit (y OR drop_bit d y) n \<longleftrightarrow> bit y n \<or> bit y (d + n)"
    by (simp add: bit_or_iff bit_drop_bit_eq)
  also have "\<dots> \<longleftrightarrow> (\<exists>m. n \<le> m \<and> m < n + (d + d) \<and> bit x m)"
    using assms unfolding smeared_def
    by (metis (no_types, opaque_lifting) add.assoc add.commute le_add1 le_trans linorder_not_le
        nat_le_linear order_less_le_trans trans_le_add1)
  finally show "bit (y OR drop_bit d y) n \<longleftrightarrow> (\<exists>m. n \<le> m \<and> m < n + (d + d) \<and> bit x m)" .
qed

definition smear :: "64 word \<Rightarrow> 64 word" where
  "smear x0 = (let x = x0 OR drop_bit 1 x0; x = x OR drop_bit 2 x; x = x OR drop_bit 4 x;
     x = x OR drop_bit 8 x; x = x OR drop_bit 16 x in x OR drop_bit 32 x)"

lemma pow2roundup_smear: "pow2roundup x = (if x = 0 then 1 else smear (x - 1) + 1)"
  by (simp add: pow2roundup_def smear_def Let_def)

lemma smear_smeared: "smeared 64 x (smear x)"
proof -
  have step: "smeared d x y \<Longrightarrow> e = d + d \<Longrightarrow> smeared e x (y OR drop_bit d y)" for d e and y :: "64 word"
    using smeared_step by blast
  show ?thesis
    unfolding smear_def Let_def
    by (rule step, rule step, rule step, rule step, rule step, rule step, rule smeared_one) simp_all
qed

lemma smear_mask:
  assumes "bit x k" and "\<And>m. bit x m \<Longrightarrow> m \<le> k"
  shows "smear x = mask (Suc k)"
proof (rule bit_word_eqI)
  fix n
  assume "n < LENGTH(64)"
  moreover have "k < 64" using assms(1) bit_imp_le_length by fastforce
  ultimately show "bit (smear x) n \<longleftrightarrow> bit (mask (Suc k) :: 64 word) n"
    using smear_smeared[of x] assms
    by (auto simp: smeared_def bit_mask_iff less_Suc_eq_le intro!: exI[of _ k]) (meson le_trans)
qed

lemma bit_unat_ge: "bit y k \<Longrightarrow> 2 ^ k \<le> unat y"
proof -
  assume "bit y k"
  then have "bit (unat y) k" by (simp add: bit_unsigned_iff)
  then have "odd (unat y div 2 ^ k)" by (simp add: bit_iff_odd)
  then show ?thesis by (metis div_less even_zero linorder_not_le)
qed

lemma highest_bit:
  fixes y :: "64 word"
  assumes "y \<noteq> 0"
  obtains k where "bit y k" "\<And>m. bit y m \<Longrightarrow> m \<le> k" "2 ^ k \<le> unat y" "unat y < 2 ^ Suc k"
proof -
  let ?B = "{m. bit y m}"
  have fin: "finite ?B"
    by (rule finite_subset[of _ "{..<64}"]) (auto dest: bit_imp_le_length)
  have "?B \<noteq> {}" using assms by (auto simp: bit_eq_iff)
  with fin have k: "bit y (Max ?B)" "\<And>m. bit y m \<Longrightarrow> m \<le> Max ?B"
    using Max_in[of ?B] by auto
  have "take_bit (Suc (Max ?B)) y = y"
    by (rule bit_word_eqI) (auto simp: bit_take_bit_iff less_Suc_eq_le dest: k(2))
  then have "unat y < 2 ^ Suc (Max ?B)"
    by (metis take_bit_nat_less_exp unsigned_take_bit_eq)
  with k bit_unat_ge[OF k(1)] that show ?thesis by blast
qed

lemma unat_mask_Suc: "k < 63 \<Longrightarrow> unat (mask (Suc k) + 1 :: 64 word) = 2 ^ Suc k"
proof -
  assume k: "k < 63"
  then have "2 ^ Suc k < (2 :: nat) ^ 64" by (intro power_strict_increasing) simp_all
  then have "unat (of_nat (2 ^ Suc k) :: 64 word) = 2 ^ Suc k"
    by (simp only: unat_of_nat) simp
  then have "unat (2 ^ Suc k :: 64 word) = 2 ^ Suc k" by simp
  then show ?thesis by (simp add: mask_eq_decr_exp)
qed

lemma pow2roundup_exp:
  assumes x: "1 \<le> unat x" "unat x \<le> 2 ^ 63"
  shows "\<exists>e \<le> 63. unat (pow2roundup x) = 2 ^ e \<and> unat x \<le> 2 ^ e \<and> (\<forall>d. unat x \<le> 2 ^ d \<longrightarrow> e \<le> d)"
proof -
  let ?y = "x - 1"
  have y: "unat ?y = unat x - 1" and x0: "x \<noteq> 0" using x by (auto simp: unat_sub_if_size unat_minus_one)
  show ?thesis
  proof (cases "?y = 0")
    case True
    then have "x = 1" by simp
    then show ?thesis by (intro exI[of _ 0]) (simp add: pow2roundup_smear smear_def)
  next
    case False
    then obtain k where k: "bit ?y k" "\<And>m. bit ?y m \<Longrightarrow> m \<le> k" "2 ^ k \<le> unat ?y" "unat ?y < 2 ^ Suc k"
      using highest_bit[of ?y] by blast
    have "(2::nat) ^ k < 2 ^ 63" using k(3) y x by linarith
    then have k63: "k < 63" by (rule power_less_imp_less_exp[rotated]) simp
    have "unat (pow2roundup x) = 2 ^ Suc k"
      using smear_mask[OF k(1,2)] unat_mask_Suc[OF k63] x0 by (simp add: pow2roundup_smear)
    moreover have "Suc k \<le> d" if "unat x \<le> 2 ^ d" for d
    proof -
      have "(2::nat) ^ k < 2 ^ d" using that k(3) y x by linarith
      then show ?thesis by simp
    qed
    ultimately show ?thesis using k(4) y k63 by (intro exI[of _ "Suc k"]) auto
  qed
qed

text \<open>For every argument from 1 to \<open>2 ^ 63\<close>, \<^verbatim>\<open>pow2roundup\<close> returns the
least power of two that is not smaller than the argument; for 0 it returns 1.\<close>

theorem pow2roundup_least:
  "unat (pow2roundup 0) = 1 \<and>
   (1 \<le> unat x \<and> unat x \<le> 2 ^ 63 \<longrightarrow>
     (\<exists>e \<le> 63. unat (pow2roundup x) = 2 ^ e \<and> unat x \<le> 2 ^ e \<and> (\<forall>d. unat x \<le> 2 ^ d \<longrightarrow> e \<le> d)))"
  using pow2roundup_exp[of x] by (auto simp: pow2roundup_def)

theorem pow2roundup_least_witness:
  "\<exists>e \<le> 63. unat (pow2roundup 5) = 2 ^ e \<and> 5 \<le> (2 :: nat) ^ e \<and> (\<forall>d. 5 \<le> (2 :: nat) ^ d \<longrightarrow> e \<le> d)"
  using pow2roundup_least[of 5] by simp

lemma pow2roundup_bounds:
  assumes "1 \<le> n" "n \<le> 2 ^ 63"
  shows "n \<le> unat (pow2roundup (of_nat n))" "unat (pow2roundup (of_nat n)) < 2 * n"
proof -
  have x: "unat (of_nat n :: 64 word) = n" using assms(2) by (simp add: unat_of_nat)
  from pow2roundup_exp[of "of_nat n"] assms obtain e where
    e: "unat (pow2roundup (of_nat n)) = 2 ^ e" "n \<le> 2 ^ e" "\<And>d. n \<le> 2 ^ d \<Longrightarrow> e \<le> d"
    by (auto simp: x)
  then show "n \<le> unat (pow2roundup (of_nat n))" by simp
  show "unat (pow2roundup (of_nat n)) < 2 * n"
  proof (cases e)
    case 0
    with e(1) assms(1) show ?thesis by simp
  next
    case (Suc d)
    with e(3)[of d] e(1) show ?thesis by fastforce
  qed
qed

section \<open>Masked keys\<close>

lemma unat_and_le: "unat (x AND y) \<le> unat y"
  by (metis word_and_le1 word_le_nat_alt)

lemma clht_hash_bound:
  assumes "0 < num_buckets h" "num_buckets h < 2 ^ 64" "ht_hash h = of_nat (num_buckets h) - 1"
  shows "clht_hash h key < num_buckets h"
proof -
  have "unat (of_nat (num_buckets h) :: 64 word) = num_buckets h" using assms(2) by (simp add: unat_of_nat)
  then have "unat (ht_hash h) = num_buckets h - 1"
    using assms(1,3) by (metis less_numeral_extra(3) unat_0 unat_minus_one)
  with unat_and_le[of key "ht_hash h"] assms(1) show ?thesis by (simp add: clht_hash_def)
qed

section \<open>Flushed cache lines\<close>

lemma flush_lines_cover: "p \<le> a \<Longrightarrow> a < stop \<Longrightarrow> \<exists>l \<in> set (flush_lines p stop). l \<le> a \<and> a < l + 64"
proof (induction p stop rule: flush_lines.induct)
  case (1 p stop)
  then show ?case by (subst flush_lines.simps) (cases "a < p + 64"; force)
qed

lemma flush_lines_aligned: "64 dvd p \<Longrightarrow> l \<in> set (flush_lines p stop) \<Longrightarrow> 64 dvd l \<and> p \<le> l \<and> l < stop"
proof (induction p stop rule: flush_lines.induct)
  case (1 p stop)
  from 1(3) have "p < stop \<and> (l = p \<or> l \<in> set (flush_lines (p + 64) stop))"
    by (subst (asm) flush_lines.simps) (auto split: if_splits)
  with 1(1,2) show ?case by force
qed

lemma line_start: "unat (d AND NOT 63 :: 64 word) = unat d div 64 * 64"
proof -
  have "unat (d AND NOT 63 :: 64 word) = push_bit 6 (drop_bit 6 (unat d))"
  proof (rule bit_eqI)
    fix n
    have m: "(63 :: 64 word) = mask 6" by (simp add: mask_numeral)
    show "bit (unat (d AND NOT 63)) n \<longleftrightarrow> bit (push_bit 6 (drop_bit 6 (unat d))) n"
      by (auto simp: m bit_simps not_less dest: bit_imp_le_length)
  qed
  also have "\<dots> = unat d div 64 * 64" by (simp add: push_bit_eq_mult drop_bit_eq_div)
  finally show ?thesis .
qed

text \<open>The lines that \<^verbatim>\<open>clflush\<close> visits are cache lines of 64 bytes, every byte of the
flushed range lies in one of them and every one of them meets the range.\<close>

theorem clflush_covers:
  "(\<forall>a. unat d \<le> a \<and> a < unat d + len \<longrightarrow> (\<exists>l \<in> set (clflush d len). l \<le> a \<and> a < l + 64))
   \<and> (\<forall>l \<in> set (clflush d len). 64 dvd l \<and> l < unat d + len \<and> unat d < l + 64)"
proof (intro conjI allI impI ballI)
  fix a
  assume "unat d \<le> a \<and> a < unat d + len"
  then show "\<exists>l \<in> set (clflush d len). l \<le> a \<and> a < l + 64"
    unfolding clflush_def line_start by (intro flush_lines_cover) auto
next
  fix l
  assume "l \<in> set (clflush d len)"
  then have "64 dvd l \<and> unat d div 64 * 64 \<le> l \<and> l < unat d + len"
    unfolding clflush_def line_start by (intro flush_lines_aligned) auto
  then show "64 dvd l" "l < unat d + len" "unat d < l + 64"
    by (auto intro: less_le_trans[OF dividend_less_div_times[of 64 "unat d"]])
qed

theorem clflush_covers_witness: "\<exists>l \<in> set (clflush 100 40). l \<le> 130 \<and> 130 < l + 64"
  using clflush_covers[of 100 40, THEN conjunct1, rule_format, of 130] by simp

end
