(* ===== verification/ClhtTable.thy ===== *)
theory ClhtTable
  imports ClhtBits "HOL-Library.Multiset"
begin

text \<open>
  Chains and tables of P-CLHT as finite maps: the entries of a chain, what the scanning loops find
  in it, how a store to a slot changes its entries, and the well-formedness of a table.
\<close>

section \<open>Slots\<close>

definition bucket_ok :: "bucket \<Rightarrow> bool" where
  "bucket_ok b \<longleftrightarrow> length (b_key b) = 3 \<and> length (b_val b) = 3"

definition chain_entries :: "chain \<Rightarrow> (64 word \<times> 64 word) list" where
  "chain_entries c = concat (map bucket_entries c)"

lemma find_slot_None: "find_slot key ks = None \<longleftrightarrow> key \<notin> set ks"
  by (induction ks) auto

lemma find_slot_Some: "find_slot key ks = Some j \<Longrightarrow> j < length ks \<and> ks ! j = key"
  by (induction ks arbitrary: j) (auto split: if_splits)

lemma map_of_slots:
  "length ks = length vs \<Longrightarrow> key \<noteq> 0 \<Longrightarrow>
   map_of (filter (\<lambda>(k, v). k \<noteq> 0) (zip ks vs)) key = map_option ((!) vs) (find_slot key ks)"
  by (induction ks vs rule: list_induct2) (auto simp: option.map_comp comp_def)

lemma map_of_bucket:
  "bucket_ok b \<Longrightarrow> key \<noteq> 0 \<Longrightarrow> map_of (bucket_entries b) key = map_option ((!) (b_val b)) (find_slot key (b_key b))"
  by (simp add: bucket_entries_def map_of_slots bucket_ok_def)

lemma chain_entries_Cons [simp]: "chain_entries (b # c) = bucket_entries b @ chain_entries c"
  "chain_entries [] = []" "chain_entries (c @ c') = chain_entries c @ chain_entries c'"
  by (simp_all add: chain_entries_def)

lemma chain_get_map:
  "list_all bucket_ok c \<Longrightarrow> key \<noteq> 0 \<Longrightarrow>
   chain_get key c = (case map_of (chain_entries c) key of None \<Rightarrow> 0 | Some v \<Rightarrow> v)"
  by (induction c) (auto simp: map_of_bucket map_add_def split: option.splits)

lemma bucket_exists_map:
  "list_all bucket_ok c \<Longrightarrow> key \<noteq> 0 \<Longrightarrow> bucket_exists key c \<longleftrightarrow> map_of (chain_entries c) key \<noteq> None"
  by (induction c) (auto simp: map_of_bucket map_add_def split: option.splits)

lemma bucket_entries_nonzero: "(k, v) \<in> set (bucket_entries b) \<Longrightarrow> k \<noteq> 0"
  by (auto simp: bucket_entries_def)

lemma chain_entries_nonzero: "(k, v) \<in> set (chain_entries c) \<Longrightarrow> k \<noteq> 0"
  by (auto simp: chain_entries_def dest: bucket_entries_nonzero)

lemma used_slots_bucket: "bucket_ok b \<Longrightarrow> length (filter (\<lambda>k. 0 < k) (b_key b)) = length (bucket_entries b)"
proof -
  have "length (filter (\<lambda>k. 0 < k) ks) = length (filter (\<lambda>(k, v). k \<noteq> 0) (zip ks vs))"
    if "length ks = length vs" for ks vs :: "64 word list"
    using that by (induction ks vs rule: list_induct2) (auto simp: word_gt_0)
  from this[of "b_key b" "b_val b"] show "bucket_ok b \<Longrightarrow> ?thesis"
    by (simp add: bucket_entries_def bucket_ok_def)
qed

lemma used_slots_entries: "list_all bucket_ok c \<Longrightarrow> used_slots c = length (chain_entries c)"
  by (induction c) (simp_all add: used_slots_def used_slots_bucket)

section \<open>Scanning\<close>

lemma scan_slots_free:
  "key \<notin> set ks \<Longrightarrow> scan_slots key i j emp ks =
     Some (if emp = None then map_option (\<lambda>m. (i, j + m)) (find_slot 0 ks) else emp)"
  by (induction ks arbitrary: j emp) (auto simp: option.map_comp comp_def)

lemma put_scan_some: "\<not> bucket_exists key c \<Longrightarrow> put_scan key i (Some p) c = (case p of (i, j) \<Rightarrow> Slot i j)"
  by (induction c arbitrary: i) (auto simp: scan_slots_free find_slot_None)

lemma put_scan_free:
  "\<not> bucket_exists key c \<Longrightarrow>
   put_scan key i None c = (case first_free i c of None \<Rightarrow> Full | Some (i, j) \<Rightarrow> Slot i j)"
proof (induction c arbitrary: i)
  case (Cons b c)
  then have "key \<notin> set (b_key b)" "\<not> bucket_exists key c" by (simp_all add: find_slot_None)
  with Cons.IH show ?case
    by (cases "find_slot 0 (b_key b)") (simp_all add: scan_slots_free put_scan_some)
qed simp

text \<open>Both searches return a slot that holds the key searched for.\<close>

lemma find_entry_Some:
  "find_entry key i c = Some (i', j) \<Longrightarrow>
   \<exists>pre b post. c = pre @ b # post \<and> i' = i + length pre \<and> j < length (b_key b) \<and> b_key b ! j = key
     \<and> \<not> bucket_exists key pre \<and> find_slot key (b_key b) = Some j"
proof (induction c arbitrary: i)
  case (Cons b c)
  show ?case
  proof (cases "find_slot key (b_key b)")
    case None
    with Cons.prems have "find_entry key (Suc i) c = Some (i', j)" by simp
    from Cons.IH[OF this] obtain pre b' post where
      "c = pre @ b' # post" "i' = Suc i + length pre" "j < length (b_key b')" "b_key b' ! j = key"
      "\<not> bucket_exists key pre" "find_slot key (b_key b') = Some j" by blast
    with None show ?thesis by (intro exI[of _ "b # pre"] exI[of _ b'] exI[of _ post]) simp
  next
    case (Some m)
    with Cons.prems find_slot_Some[OF Some] show ?thesis
      by (intro exI[of _ "[]"] exI[of _ b] exI[of _ c]) simp
  qed
qed simp

lemma first_free_find: "first_free i c = find_entry 0 i c"
  by (induction c arbitrary: i) (simp_all split: option.splits)

lemma find_entry_None: "find_entry key i c = None \<longleftrightarrow> \<not> bucket_exists key c"
  by (induction c arbitrary: i) (auto split: option.splits)

lemma no_free_slot:
  "list_all bucket_ok c \<Longrightarrow> first_free i c = None \<Longrightarrow> length (chain_entries c) = 3 * length c"
proof (induction c arbitrary: i)
  case (Cons b c)
  then have b: "0 \<notin> set (b_key b)" "first_free (Suc i) c = None" "bucket_ok b"
    by (auto simp: find_slot_None split: option.splits)
  then have "length (bucket_entries b) = 3"
    by (auto simp: bucket_entries_def bucket_ok_def filter_id_conv dest: set_zip_leftD)
       (subst filter_True, auto dest: set_zip_leftD)
  with Cons b show ?case by simp
qed simp

section \<open>Stores to a slot\<close>

lemma mset_filter_update:
  assumes "j < length xs" and "\<not> P (xs ! j)"
  shows "mset (filter P (xs[j := y])) = mset (filter P xs) + (if P y then {#y#} else {#})"
proof -
  have "mset (filter P (xs[j := y])) = filter_mset P (add_mset y (mset xs - {#xs ! j#}))"
    using assms(1) by (simp add: mset_update)
  moreover have "filter_mset P (mset xs - {#xs ! j#}) = filter_mset P (mset xs)"
    using assms(2) by (simp add: filter_diff_mset)
  ultimately show ?thesis by simp
qed

lemma fill_entries:
  assumes "bucket_ok b" "j < 3" "b_key b ! j = 0" "key \<noteq> 0"
  shows "mset (bucket_entries (fill j key v b)) = add_mset (key, v) (mset (bucket_entries b))"
  using mset_filter_update[of j "zip (b_key b) (b_val b)" "\<lambda>(k, v). k \<noteq> 0" "(key, v)"] assms
  by (simp add: bucket_entries_def fill_def update_zip bucket_ok_def)

lemma val_entries:
  assumes "bucket_ok b" "j < 3" "b_key b ! j = 0"
  shows "mset (bucket_entries (b\<lparr>b_val := (b_val b)[j := v]\<rparr>)) = mset (bucket_entries b)"
proof -
  have "(b_key b)[j := 0] = b_key b" using assms(3) by (metis list_update_id)
  then have "zip (b_key b) ((b_val b)[j := v]) = (zip (b_key b) (b_val b))[j := (0, v)]"
    by (simp add: update_zip)
  with mset_filter_update[of j "zip (b_key b) (b_val b)" "\<lambda>(k, v). k \<noteq> 0" "(0, v)"] assms
  show ?thesis by (simp add: bucket_entries_def bucket_ok_def)
qed

lemma clear_entries:
  assumes "bucket_ok b" "j < 3" "b_key b ! j \<noteq> 0"
  shows "mset (bucket_entries b) =
     add_mset (b_key b ! j, b_val b ! j) (mset (bucket_entries (b\<lparr>b_key := (b_key b)[j := 0]\<rparr>)))"
proof -
  let ?b = "b\<lparr>b_key := (b_key b)[j := 0]\<rparr>"
  have "bucket_ok ?b" "b_key ?b ! j = 0" using assms by (simp_all add: bucket_ok_def)
  from fill_entries[OF this(1) assms(2) this(2) assms(3), of "b_val b ! j"]
  show ?thesis by (simp add: fill_def)
qed

lemma bucket_ok_upd [simp]:
  "bucket_ok b \<Longrightarrow> bucket_ok (fill j key v b)"
  "bucket_ok b \<Longrightarrow> bucket_ok (b\<lparr>b_val := (b_val b)[j := v]\<rparr>)"
  "bucket_ok b \<Longrightarrow> bucket_ok (b\<lparr>b_key := (b_key b)[j := v]\<rparr>)"
  "bucket_ok (b\<lparr>b_lock := l\<rparr>) = bucket_ok b"
  by (simp_all add: bucket_ok_def fill_def)

lemma bucket_entries_lock [simp]: "bucket_entries (b\<lparr>b_lock := l\<rparr>) = bucket_entries b"
  by (simp add: bucket_entries_def)

section \<open>Tables\<close>

definition entries :: "hashtable \<Rightarrow> (64 word \<times> 64 word) list" where
  "entries h = concat (map chain_entries (table h))"

definition clht_map :: "hashtable \<Rightarrow> 64 word \<rightharpoonup> 64 word" where
  "clht_map h = map_of (entries h)"

definition bin_ok :: "hashtable \<Rightarrow> nat \<Rightarrow> chain \<Rightarrow> bool" where
  "bin_ok h b c \<longleftrightarrow> c \<noteq> [] \<and> list_all bucket_ok c \<and> (\<forall>(k, v) \<in> set (chain_entries c). clht_hash h k = b)"

definition ht_ok :: "hashtable \<Rightarrow> bool" where
  "ht_ok h \<longleftrightarrow> 0 < num_buckets h \<and> num_buckets h < 2 ^ 32 \<and> length (table h) = num_buckets h
     \<and> ht_hash h = of_nat (num_buckets h) - 1 \<and> num_expands_threshold h = of_nat (num_buckets h)
     \<and> is_helper h = 1 \<and> num_expands h = of_nat (expands_total h)
     \<and> (\<forall>b < num_buckets h. bin_ok h b (table h ! b)) \<and> distinct (map fst (entries h))"

definition unlocked :: "hashtable \<Rightarrow> bool" where
  "unlocked h \<longleftrightarrow> (\<forall>b < num_buckets h. b_lock (table h ! b ! 0) = LOCK_FREE)"

definition set_chain :: "nat \<Rightarrow> chain \<Rightarrow> hashtable \<Rightarrow> hashtable" where
  "set_chain bin c h = h\<lparr>table := (table h)[bin := c]\<rparr>"

lemma set_chain_fields [simp]:
  "num_buckets (set_chain bin c h) = num_buckets h" "table (set_chain bin c h) = (table h)[bin := c]"
  "ht_hash (set_chain bin c h) = ht_hash h" "version (set_chain bin c h) = version h"
  "num_expands (set_chain bin c h) = num_expands h" "is_helper (set_chain bin c h) = is_helper h"
  "num_expands_threshold (set_chain bin c h) = num_expands_threshold h"
  "clht_hash (set_chain bin c h) = clht_hash h"
  by (simp_all add: set_chain_def clht_hash_def fun_eq_iff)

lemma upd_bucket_chain: "upd_bucket bin i f h = set_chain bin ((table h ! bin)[i := f (table h ! bin ! i)]) h"
  by (simp add: upd_bucket_def set_chain_def)

lemma ht_ok_bin: "ht_ok h \<Longrightarrow> clht_hash h key < num_buckets h"
  by (rule clht_hash_bound) (simp_all add: ht_ok_def)

lemma ht_ok_chain: "ht_ok h \<Longrightarrow> b < num_buckets h \<Longrightarrow> bin_ok h b (table h ! b)"
  by (simp add: ht_ok_def)

lemma entries_mem: "(k, v) \<in> set (entries h) \<longleftrightarrow> (\<exists>b < length (table h). (k, v) \<in> set (chain_entries (table h ! b)))"
  by (simp add: entries_def) (metis in_set_conv_nth)

lemma entries_bin:
  assumes "ht_ok h"
  shows "(k, v) \<in> set (entries h) \<longleftrightarrow> (k, v) \<in> set (chain_entries (table h ! clht_hash h k))"
  using assms ht_ok_bin[OF assms, of k] by (fastforce simp: entries_mem ht_ok_def bin_ok_def)

lemma distinct_chain:
  assumes "ht_ok h" "b < num_buckets h"
  shows "distinct (map fst (chain_entries (table h ! b)))"
proof -
  have "distinct (concat (map (map fst) (map chain_entries (table h))))"
    using assms(1) by (simp add: ht_ok_def entries_def map_concat)
  moreover have "map fst (chain_entries (table h ! b)) \<in> set (map (map fst) (map chain_entries (table h)))"
    using assms by (simp add: ht_ok_def)
  ultimately show ?thesis using distinct_concat_iff by blast
qed

lemma map_of_bin:
  assumes "ht_ok h"
  shows "map_of (chain_entries (table h ! clht_hash h k)) k = clht_map h k"
proof -
  have d: "distinct (map fst (chain_entries (table h ! clht_hash h k)))" "distinct (map fst (entries h))"
    using assms distinct_chain[OF assms ht_ok_bin[OF assms]] by (simp_all add: ht_ok_def)
  have "map_of (chain_entries (table h ! clht_hash h k)) k = Some v \<longleftrightarrow> clht_map h k = Some v" for v
    unfolding clht_map_def map_of_eq_Some_iff[OF d(1)] map_of_eq_Some_iff[OF d(2)] entries_bin[OF assms] ..
  then show ?thesis by (metis not_Some_eq)
qed

lemma mset_entries_set_chain:
  assumes "bin < length (table h)"
  shows "mset (entries (set_chain bin c h)) + mset (chain_entries (table h ! bin)) = mset (entries h) + mset (chain_entries c)"
proof -
  let ?t = "table h"
  have t: "?t = take bin ?t @ ?t ! bin # drop (Suc bin) ?t" using assms by (rule id_take_nth_drop)
  have "mset (entries h) = mset (concat (map chain_entries (take bin ?t @ ?t ! bin # drop (Suc bin) ?t)))"
    unfolding entries_def t[symmetric] ..
  moreover have "entries (set_chain bin c h) = concat (map chain_entries (take bin ?t @ c # drop (Suc bin) ?t))"
    by (simp only: entries_def set_chain_fields upd_conv_take_nth_drop[OF assms])
  ultimately show ?thesis by simp
qed

lemma expands_set_chain:
  assumes "bin < length (table h)" "length (table h) = num_buckets h"
  shows "expands_total (set_chain bin c h) + (length (table h ! bin) - 1) = expands_total h + (length c - 1)"
proof -
  let ?t = "table h"
  have t: "?t = take bin ?t @ ?t ! bin # drop (Suc bin) ?t" using assms(1) by (rule id_take_nth_drop)
  have "expands_total h = sum_list (map (\<lambda>c. length c - 1) (take bin ?t @ ?t ! bin # drop (Suc bin) ?t))"
    unfolding expands_total_def t[symmetric] using assms(2) by simp
  moreover have "expands_total (set_chain bin c h) = sum_list (map (\<lambda>c. length c - 1) (take bin ?t @ c # drop (Suc bin) ?t))"
    using assms(2) by (simp add: expands_total_def flip: upd_conv_take_nth_drop[OF assms(1)])
  ultimately show ?thesis by simp
qed

lemma clht_size_entries:
  assumes "ht_ok h"
  shows "clht_size h = length (entries h)"
proof -
  have "list_all bucket_ok c" if "c \<in> set (table h)" for c
    using that assms by (auto simp: ht_ok_def bin_ok_def in_set_conv_nth)
  then have "map used_slots (table h) = map (length \<circ> chain_entries) (table h)"
    by (simp add: used_slots_entries)
  then have "sum_list (map used_slots (table h)) = length (entries h)"
    by (simp only: entries_def length_concat map_map)
  then show ?thesis using assms by (simp add: clht_size_def ht_ok_def)
qed

text \<open>How the map of a table follows its multiset of entries.\<close>

lemma mset_keys: "mset es' = mset es \<Longrightarrow> distinct (map fst es') = distinct (map fst es)"
  by (metis mset_eq_imp_distinct_iff mset_map)

lemma map_of_same: "mset es' = mset es \<Longrightarrow> distinct (map fst es) \<Longrightarrow> map_of es' = map_of es"
  by (metis map_of_inject_set mset_eq_setD mset_keys)

lemma map_of_add:
  assumes "mset es' = add_mset (k, v) (mset es)" "distinct (map fst es)" "map_of es k = None"
  shows "distinct (map fst es') \<and> map_of es' = (map_of es)(k \<mapsto> v)"
proof -
  have "mset es' = mset ((k, v) # es)" using assms(1) by simp
  moreover have "distinct (map fst ((k, v) # es))" using assms(2,3) by (simp add: map_of_eq_None_iff)
  ultimately show ?thesis using map_of_same[of es' "(k, v) # es"] mset_keys[of es' "(k, v) # es"] by simp
qed

lemma map_of_del:
  assumes "mset es = add_mset (k, v) (mset es')" "distinct (map fst es)"
  shows "distinct (map fst es') \<and> map_of es' = (map_of es)(k := None) \<and> map_of es k = Some v"
proof -
  have m: "mset es = mset ((k, v) # es')" using assms(1) by simp
  then have d: "distinct (map fst ((k, v) # es'))" using assms(2) mset_keys by blast
  from map_of_same[OF m d] d show ?thesis by (auto simp: map_of_eq_None_iff fun_eq_iff)
qed

end
