(* ===== verification/Clht.thy ===== *)
theory Clht
  imports ClhtTable
begin

text \<open>
  P-CLHT implements a finite map: every operation of one thread keeps the table well formed, returns
  what the map specification returns, and every memory image between its persistent stores is the
  map before or the map after the operation.
\<close>

section \<open>Updating one bucket\<close>

lemma upd_bucket_entries:
  assumes "ht_ok h" "bin < num_buckets h" "table h ! bin = pre @ b # post"
  shows "mset (entries (upd_bucket bin (length pre) f h)) + mset (bucket_entries b) =
     mset (entries h) + mset (bucket_entries (f b))"
proof -
  have "bin < length (table h)" using assms(1,2) by (simp add: ht_ok_def)
  from mset_entries_set_chain[OF this, of "pre @ f b # post"] show ?thesis
    by (simp add: upd_bucket_chain assms(3) ac_simps)
qed

lemma upd_bucket_ok:
  assumes "ht_ok h" "bin < num_buckets h" "table h ! bin = pre @ b # post"
    and "bucket_ok (f b)" "\<forall>(k, v) \<in> set (bucket_entries (f b)). clht_hash h k = bin"
    and "distinct (map fst (entries (upd_bucket bin (length pre) f h)))"
  shows "ht_ok (upd_bucket bin (length pre) f h)"
proof -
  have len: "bin < length (table h)" "length (table h) = num_buckets h" using assms(1,2) by (simp_all add: ht_ok_def)
  have "bin_ok h bin (pre @ b # post)" using ht_ok_chain[OF assms(1,2)] assms(3) by simp
  then have "bin_ok h bin (pre @ f b # post)" using assms(4,5) by (auto simp: bin_ok_def)
  moreover have "expands_total (set_chain bin (pre @ f b # post) h) = expands_total h"
    using expands_set_chain[OF len, of "pre @ f b # post"] by (simp add: assms(3))
  ultimately show ?thesis
    using assms(1,2,3,6) len by (auto simp: ht_ok_def upd_bucket_chain bin_ok_def nth_list_update)
qed

lemma upd_bucket_same:
  assumes "ht_ok h" "bin < num_buckets h" "table h ! bin = pre @ b # post"
    and "bucket_ok (f b)" "mset (bucket_entries (f b)) = mset (bucket_entries b)"
  shows "ht_ok (upd_bucket bin (length pre) f h)" "clht_map (upd_bucket bin (length pre) f h) = clht_map h"
proof -
  have e: "mset (entries (upd_bucket bin (length pre) f h)) = mset (entries h)"
    using upd_bucket_entries[OF assms(1-3), of f] assms(5) by simp
  have d: "distinct (map fst (entries h))" using assms(1) by (simp add: ht_ok_def)
  have "bin_ok h bin (pre @ b # post)" using ht_ok_chain[OF assms(1,2)] assms(3) by simp
  moreover have "set (bucket_entries (f b)) = set (bucket_entries b)" using assms(5) by (rule mset_eq_setD)
  ultimately have "\<forall>(k, v) \<in> set (bucket_entries (f b)). clht_hash h k = bin" by (auto simp: bin_ok_def)
  then show "ht_ok (upd_bucket bin (length pre) f h)"
    using upd_bucket_ok[OF assms(1-3), of f] assms(4) mset_keys[OF e] d by blast
  show "clht_map (upd_bucket bin (length pre) f h) = clht_map h"
    using map_of_same[OF e d] by (simp add: clht_map_def)
qed

lemma upd_bucket_add:
  assumes "ht_ok h" "table h ! bin = pre @ b # post" "bin = clht_hash h key"
    and "bucket_ok (f b)" "mset (bucket_entries (f b)) = add_mset (key, v) (mset (bucket_entries b))"
    and "clht_map h key = None"
  shows "ht_ok (upd_bucket bin (length pre) f h)"
    "clht_map (upd_bucket bin (length pre) f h) = (clht_map h)(key \<mapsto> v)"
    "length (entries (upd_bucket bin (length pre) f h)) = Suc (length (entries h))"
proof -
  have bin: "bin < num_buckets h" using ht_ok_bin[OF assms(1)] assms(3) by simp
  have e: "mset (entries (upd_bucket bin (length pre) f h)) = add_mset (key, v) (mset (entries h))"
    using upd_bucket_entries[OF assms(1) bin assms(2), of f] assms(5) by simp
  have d: "distinct (map fst (entries h))" using assms(1) by (simp add: ht_ok_def)
  have a: "distinct (map fst (entries (upd_bucket bin (length pre) f h))) \<and>
      map_of (entries (upd_bucket bin (length pre) f h)) = (map_of (entries h))(key \<mapsto> v)"
    using map_of_add[OF e d] assms(6) by (simp add: clht_map_def)
  have "bin_ok h bin (pre @ b # post)" using ht_ok_chain[OF assms(1) bin] assms(2) by simp
  moreover have "set (bucket_entries (f b)) = insert (key, v) (set (bucket_entries b))"
    using assms(5) by (metis set_mset_add_mset_insert set_mset_mset)
  ultimately have "\<forall>(k, v) \<in> set (bucket_entries (f b)). clht_hash h k = bin" using assms(3) by (auto simp: bin_ok_def)
  then show "ht_ok (upd_bucket bin (length pre) f h)"
    using upd_bucket_ok[OF assms(1) bin assms(2), of f] assms(4) a by blast
  show "clht_map (upd_bucket bin (length pre) f h) = (clht_map h)(key \<mapsto> v)" using a by (simp add: clht_map_def)
  show "length (entries (upd_bucket bin (length pre) f h)) = Suc (length (entries h))"
    using arg_cong[OF e, of size] by simp
qed

lemma upd_bucket_del:
  assumes "ht_ok h" "table h ! bin = pre @ b # post" "bin < num_buckets h"
    and "bucket_ok (f b)" "mset (bucket_entries b) = add_mset (key, v) (mset (bucket_entries (f b)))"
  shows "ht_ok (upd_bucket bin (length pre) f h)"
    "clht_map (upd_bucket bin (length pre) f h) = (clht_map h)(key := None)" "clht_map h key = Some v"
proof -
  have e: "mset (entries h) = add_mset (key, v) (mset (entries (upd_bucket bin (length pre) f h)))"
    using upd_bucket_entries[OF assms(1,3,2), of f] assms(5) by simp
  have d: "distinct (map fst (entries h))" using assms(1) by (simp add: ht_ok_def)
  note a = map_of_del[OF e d]
  have "bin_ok h bin (pre @ b # post)" using ht_ok_chain[OF assms(1,3)] assms(2) by simp
  moreover have "set (bucket_entries (f b)) \<subseteq> set (bucket_entries b)"
    using assms(5) by (metis set_mset_add_mset_insert set_mset_mset subset_insertI)
  ultimately have "\<forall>(k, v) \<in> set (bucket_entries (f b)). clht_hash h k = bin" by (auto simp: bin_ok_def)
  then show "ht_ok (upd_bucket bin (length pre) f h)"
    using upd_bucket_ok[OF assms(1,3,2), of f] assms(4) a by blast
  show "clht_map (upd_bucket bin (length pre) f h) = (clht_map h)(key := None)" "clht_map h key = Some v"
    using a by (simp_all add: clht_map_def)
qed

section \<open>Locks\<close>

definition locks_of :: "hashtable \<Rightarrow> nat list" where
  "locks_of h = map (\<lambda>c. b_lock (c ! 0)) (table h)"

lemma unlocked_iff: "length (table h) = num_buckets h \<Longrightarrow> unlocked h \<longleftrightarrow> (\<forall>b < num_buckets h. locks_of h ! b = LOCK_FREE)"
  by (simp add: unlocked_def locks_of_def)

lemma locks_upd:
  assumes "bin < length (table h)" "\<And>b. b_lock (f b) = b_lock b"
  shows "locks_of (upd_bucket bin i f h) = locks_of h"
  using assms
  by (cases "table h ! bin"; cases i) (auto simp: locks_of_def upd_bucket_def map_update list_update_same_conv)

lemma locks_set:
  assumes "bin < length (table h)" "table h ! bin \<noteq> []"
  shows "locks_of (upd_bucket bin 0 (\<lambda>b. b\<lparr>b_lock := l\<rparr>) h) = (locks_of h)[bin := l]"
  using assms by (cases "table h ! bin") (auto simp: locks_of_def upd_bucket_def map_update)

lemma upd_fields [simp]:
  "num_buckets (upd_bucket bin i f h) = num_buckets h" "clht_hash (upd_bucket bin i f h) = clht_hash h"
  "length (table (upd_bucket bin i f h)) = length (table h)" "num_expands (upd_bucket bin i f h) = num_expands h"
  "num_expands_threshold (upd_bucket bin i f h) = num_expands_threshold h" "is_helper (upd_bucket bin i f h) = is_helper h"
  by (simp_all add: upd_bucket_def clht_hash_def fun_eq_iff)

lemma expands_upd [simp]: "expands_total (upd_bucket bin i f h) = expands_total h"
proof -
  have "map (\<lambda>c. length c - 1) (take n (xs[j := (xs ! j)[i := y]])) = map (\<lambda>c. length c - 1) (take n xs)"
    for n j y and xs :: "chain list"
    by (cases "j < length xs"; rule nth_equalityI) (auto simp: nth_list_update)
  then show ?thesis by (simp add: expands_total_def upd_bucket_def)
qed

lemma set_lock_same:
  assumes "ht_ok h" "bin < num_buckets h"
  shows "ht_ok (upd_bucket bin 0 (\<lambda>b. b\<lparr>b_lock := l\<rparr>) h)"
    "clht_map (upd_bucket bin 0 (\<lambda>b. b\<lparr>b_lock := l\<rparr>) h) = clht_map h"
    "mset (entries (upd_bucket bin 0 (\<lambda>b. b\<lparr>b_lock := l\<rparr>) h)) = mset (entries h)"
proof -
  obtain b post where c: "table h ! bin = [] @ b # post"
    using ht_ok_chain[OF assms] by (cases "table h ! bin") (auto simp: bin_ok_def)
  have "bucket_ok b" using ht_ok_chain[OF assms] c by (simp add: bin_ok_def)
  then show "ht_ok (upd_bucket bin 0 (\<lambda>b. b\<lparr>b_lock := l\<rparr>) h)"
    "clht_map (upd_bucket bin 0 (\<lambda>b. b\<lparr>b_lock := l\<rparr>) h) = clht_map h"
    "mset (entries (upd_bucket bin 0 (\<lambda>b. b\<lparr>b_lock := l\<rparr>) h)) = mset (entries h)"
    using upd_bucket_same[OF assms c, of "\<lambda>b. b\<lparr>b_lock := l\<rparr>"] upd_bucket_entries[OF assms c, of "\<lambda>b. b\<lparr>b_lock := l\<rparr>"]
    by simp_all
qed

section \<open>Lookup, insertion into a free slot and removal\<close>

definition clht_ok :: "clht \<Rightarrow> bool" where
  "clht_ok s \<longleftrightarrow> ht_ok (ht s) \<and> unlocked (ht s) \<and> expands_total (ht s) < num_buckets (ht s)
     \<and> \<not> resize_lock s \<and> \<not> status_lock s"

lemma read_bin_ok [exec_simps]: "bin < length (table h) \<Longrightarrow> read_bin h bin s = Inr (table h ! bin, s)"
  by (simp add: read_bin_def exec_simps)

lemma read_own_bin [exec_simps]: "ht_ok h \<Longrightarrow> read_bin h (clht_hash h key) s = Inr (table h ! clht_hash h key, s)"
  using ht_ok_bin[of h key] by (simp add: read_bin_ok ht_ok_def)

lemma clht_get_map:
  assumes "ht_ok h" "key \<noteq> 0"
  shows "clht_get h key s = Inr (case clht_map h key of None \<Rightarrow> 0 | Some v \<Rightarrow> v, s)"
proof -
  have "list_all bucket_ok (table h ! clht_hash h key)"
    using ht_ok_chain[OF assms(1) ht_ok_bin[OF assms(1)]] by (simp add: bin_ok_def)
  then show ?thesis
    using assms by (simp add: clht_get_def exec_simps chain_get_map map_of_bin)
qed

lemma bucket_exists_own:
  assumes "ht_ok h" "key \<noteq> 0"
  shows "bucket_exists key (table h ! clht_hash h key) \<longleftrightarrow> clht_map h key \<noteq> None"
proof -
  have "list_all bucket_ok (table h ! clht_hash h key)"
    using ht_ok_chain[OF assms(1) ht_ok_bin[OF assms(1)]] by (simp add: bin_ok_def)
  with assms show ?thesis by (simp add: bucket_exists_map map_of_bin)
qed

lemma set_lock_run [exec_simps]:
  "set_lock bin l s = Inr ((), s\<lparr>ht := upd_bucket bin 0 (\<lambda>b. b\<lparr>b_lock := l\<rparr>) (ht s)\<rparr>)"
  by (simp add: set_lock_def exec_simps)

lemma lock_acq_run [exec_simps]:
  assumes "unlocked (ht s)" "bin < num_buckets (ht s)" "length (table (ht s)) = num_buckets (ht s)"
  shows "lock_acq_chk_resize bin s = Inr ((), s\<lparr>ht := upd_bucket bin 0 (\<lambda>b. b\<lparr>b_lock := LOCK_UPDATE\<rparr>) (ht s)\<rparr>)"
  using assms by (simp add: lock_acq_chk_resize_def exec_simps unlocked_def)

lemma persist_run [exec_simps]:
  "persist f s = Inr ((), s\<lparr>ht := f (ht s), images := images s @ [f (ht s)]\<rparr>)"
  by (simp add: persist_def exec_simps)

lemma relock_unlocked:
  assumes "ht_ok h" "unlocked h" "bin < num_buckets h" "num_buckets h' = num_buckets h"
    "length (table h') = length (table h)" "table h' ! bin \<noteq> []" "locks_of h' = (locks_of h)[bin := l]"
  shows "unlocked (upd_bucket bin 0 (\<lambda>b. b\<lparr>b_lock := LOCK_FREE\<rparr>) h')"
proof -
  have len: "length (table h) = num_buckets h" using assms(1) by (simp add: ht_ok_def)
  have "locks_of (upd_bucket bin 0 (\<lambda>b. b\<lparr>b_lock := LOCK_FREE\<rparr>) h') = (locks_of h)[bin := LOCK_FREE]"
    using assms len by (simp add: locks_set)
  with assms len show ?thesis
    by (subst unlocked_iff) (auto simp: unlocked_iff nth_list_update locks_of_def)
qed

text \<open>The table while its bin is locked.\<close>

abbreviation locked_bin :: "nat \<Rightarrow> hashtable \<Rightarrow> hashtable" where
  "locked_bin bin h \<equiv> upd_bucket bin 0 (\<lambda>b. b\<lparr>b_lock := LOCK_UPDATE\<rparr>) h"

abbreviation released_bin :: "nat \<Rightarrow> hashtable \<Rightarrow> hashtable" where
  "released_bin bin h \<equiv> upd_bucket bin 0 (\<lambda>b. b\<lparr>b_lock := LOCK_FREE\<rparr>) h"

lemma find_entry_locked:
  "find_entry key i (c[0 := (c ! 0)\<lparr>b_lock := l\<rparr>]) = find_entry key i c"
  by (cases c) simp_all

lemma locked_bin_entry:
  assumes "ht_ok h" "bin < num_buckets h" "find_entry key 0 (table h ! bin) = Some (i, j)"
  obtains pre b post where "table (locked_bin bin h) ! bin = pre @ b # post" "i = length pre" "j < 3"
    "b_key b ! j = key" "bucket_ok b" "ht_ok (locked_bin bin h)" "clht_map (locked_bin bin h) = clht_map h"
    "b_val b ! j = b_val (table h ! bin ! i) ! j"
proof -
  have len: "bin < length (table h)" using assms(1,2) by (simp add: ht_ok_def)
  then have c: "table (locked_bin bin h) ! bin = (table h ! bin)[0 := (table h ! bin ! 0)\<lparr>b_lock := LOCK_UPDATE\<rparr>]"
    by (simp add: upd_bucket_def)
  with assms(3) have "find_entry key 0 (table (locked_bin bin h) ! bin) = Some (i, j)"
    by (simp add: find_entry_locked)
  from find_entry_Some[OF this] obtain pre b post where
    p: "table (locked_bin bin h) ! bin = pre @ b # post" "i = length pre" "j < length (b_key b)" "b_key b ! j = key"
    by auto
  note k = set_lock_same[OF assms(1,2), of LOCK_UPDATE]
  have "bin_ok (locked_bin bin h) bin (pre @ b # post)" using ht_ok_chain[OF k(1), of bin] assms(2) p(1) by simp
  then have b: "bucket_ok b" by (simp add: bin_ok_def)
  have "b = (table h ! bin)[0 := (table h ! bin ! 0)\<lparr>b_lock := LOCK_UPDATE\<rparr>] ! i"
    using p(1,2) c by (metis nth_append_length)
  moreover have "i < length (table h ! bin)"
    using arg_cong[OF p(1), of length] c p(2) by simp
  ultimately have "b_val b = b_val (table h ! bin ! i)" by (cases "i = 0") (simp_all add: nth_list_update)
  with p b k that show ?thesis by (simp add: bucket_ok_def)
qed

lemma upd_bucket_at:
  assumes "table h ! bin = pre @ b # post" "bin < length (table h)"
  shows "table (upd_bucket bin (length pre) f h) ! bin = pre @ f b # post"
  using assms by (simp add: upd_bucket_def)

text \<open>The stores of \<^verbatim>\<open>clht_put\<close> into a free slot.\<close>

lemma put_slot:
  assumes h: "ht_ok h" "unlocked h" and key: "key \<noteq> 0" "clht_map h key = None" "bin = clht_hash h key"
    and slot: "first_free 0 (table h ! bin) = Some (i, j)"
    and h2: "h2 = upd_bucket bin i (\<lambda>b. b\<lparr>b_val := (b_val b)[j := v]\<rparr>) (locked_bin bin h)"
    and h3: "h3 = upd_bucket bin i (\<lambda>b. b\<lparr>b_key := (b_key b)[j := key]\<rparr>) h2"
  shows "clht_map h2 = clht_map h" "clht_map h3 = (clht_map h)(key \<mapsto> v)"
    "ht_ok (released_bin bin h3)" "unlocked (released_bin bin h3)" "clht_map (released_bin bin h3) = (clht_map h)(key \<mapsto> v)"
proof -
  have bin: "bin < num_buckets h" "length (table h) = num_buckets h"
    using ht_ok_bin[OF h(1)] key(3) h(1) by (simp_all add: ht_ok_def)
  from slot have "find_entry 0 0 (table h ! bin) = Some (i, j)" by (simp add: first_free_find)
  from locked_bin_entry[OF h(1) bin(1) this] obtain pre b post where
    p: "table (locked_bin bin h) ! bin = pre @ b # post" "i = length pre" "j < 3" "b_key b ! j = 0" "bucket_ok b"
    and k: "ht_ok (locked_bin bin h)" "clht_map (locked_bin bin h) = clht_map h" by blast
  let ?b2 = "b\<lparr>b_val := (b_val b)[j := v]\<rparr>"
  have 2: "ht_ok h2" "clht_map h2 = clht_map h"
    using upd_bucket_same[OF k(1) _ p(1), of "\<lambda>b. b\<lparr>b_val := (b_val b)[j := v]\<rparr>"] p k(2) bin
    by (simp_all add: h2 val_entries)
  have t2: "table h2 ! bin = pre @ ?b2 # post" using upd_bucket_at[OF p(1)] bin by (simp add: h2 p(2))
  have "?b2\<lparr>b_key := (b_key ?b2)[j := key]\<rparr> = fill j key v b" by (simp add: fill_def)
  moreover have "mset (bucket_entries (fill j key v b)) = add_mset (key, v) (mset (bucket_entries ?b2))"
    using fill_entries[OF p(5,3,4) key(1), of v] val_entries[OF p(5,3,4), of v] by simp
  ultimately have 3: "ht_ok h3" "clht_map h3 = (clht_map h)(key \<mapsto> v)"
    using upd_bucket_add[OF 2(1) t2, of key "\<lambda>b. b\<lparr>b_key := (b_key b)[j := key]\<rparr>" v] p(5) key 2(2)
    by (simp_all add: h3 p(2) h2)
  have nb: "num_buckets h3 = num_buckets h" by (simp add: h3 h2)
  show "clht_map h2 = clht_map h" "clht_map h3 = (clht_map h)(key \<mapsto> v)" by (fact 2(2), fact 3(2))
  show "ht_ok (released_bin bin h3)" "clht_map (released_bin bin h3) = (clht_map h)(key \<mapsto> v)"
    using set_lock_same[OF 3(1), of bin LOCK_FREE] bin nb 3(2) by simp_all
  have "table h ! bin \<noteq> []" "table h3 ! bin \<noteq> []"
    using ht_ok_chain[OF h(1) bin(1)] ht_ok_chain[OF 3(1)] bin nb by (auto simp: bin_ok_def)
  moreover from this have "locks_of h3 = (locks_of h)[bin := LOCK_UPDATE]"
    using bin by (simp add: h3 h2 locks_upd locks_set)
  ultimately show "unlocked (released_bin bin h3)"
    using relock_unlocked[OF h bin(1) nb, of LOCK_UPDATE] by (simp add: h3 h2)
qed

lemma remove_slot:
  assumes h: "ht_ok h" "unlocked h" and key: "key \<noteq> 0" "bin = clht_hash h key"
    and slot: "find_entry key 0 (table h ! bin) = Some (i, j)"
    and h3: "h3 = upd_bucket bin i (\<lambda>b. b\<lparr>b_key := (b_key b)[j := 0]\<rparr>) (locked_bin bin h)"
  shows "clht_map h3 = (clht_map h)(key := None)" "clht_map h key = Some (b_val (table h ! bin ! i) ! j)"
    "ht_ok (released_bin bin h3)" "unlocked (released_bin bin h3)" "clht_map (released_bin bin h3) = (clht_map h)(key := None)"
proof -
  have bin: "bin < num_buckets h" "length (table h) = num_buckets h"
    using ht_ok_bin[OF h(1)] key(2) h(1) by (simp_all add: ht_ok_def)
  from locked_bin_entry[OF h(1) bin(1) slot] obtain pre b post where
    p: "table (locked_bin bin h) ! bin = pre @ b # post" "i = length pre" "j < 3" "b_key b ! j = key" "bucket_ok b"
    and k: "ht_ok (locked_bin bin h)" "clht_map (locked_bin bin h) = clht_map h"
    and val: "b_val b ! j = b_val (table h ! bin ! i) ! j" by blast
  have "mset (bucket_entries b) = add_mset (key, b_val b ! j) (mset (bucket_entries (b\<lparr>b_key := (b_key b)[j := 0]\<rparr>)))"
    using clear_entries[OF p(5,3)] p(4) key(1) by simp
  then have 3: "ht_ok h3" "clht_map h3 = (clht_map h)(key := None)" "clht_map h key = Some (b_val b ! j)"
    using upd_bucket_del[OF k(1) p(1), of "\<lambda>b. b\<lparr>b_key := (b_key b)[j := 0]\<rparr>" key "b_val b ! j"] p(5) bin k(2)
    by (simp_all add: h3 p(2))
  have nb: "num_buckets h3 = num_buckets h" by (simp add: h3)
  show "clht_map h3 = (clht_map h)(key := None)" "clht_map h key = Some (b_val (table h ! bin ! i) ! j)"
    using 3 val by simp_all
  show "ht_ok (released_bin bin h3)" "clht_map (released_bin bin h3) = (clht_map h)(key := None)"
    using set_lock_same[OF 3(1), of bin LOCK_FREE] bin nb 3(2) by simp_all
  have "table h ! bin \<noteq> []" "table h3 ! bin \<noteq> []"
    using ht_ok_chain[OF h(1) bin(1)] ht_ok_chain[OF 3(1)] bin nb by (auto simp: bin_ok_def)
  moreover from this have "locks_of h3 = (locks_of h)[bin := LOCK_UPDATE]"
    using bin by (simp add: h3 locks_upd locks_set)
  ultimately show "unlocked (released_bin bin h3)"
    using relock_unlocked[OF h bin(1) nb, of LOCK_UPDATE] by (simp add: h3)
qed

section \<open>Chains that grow\<close>

definition grown :: "nat \<Rightarrow> bucket \<Rightarrow> hashtable \<Rightarrow> hashtable" where
  "grown bin b h = h\<lparr>num_expands := num_expands h + 1, table := (table h)[bin := table h ! bin @ [b]]\<rparr>"

lemma grown_fields [simp]:
  "num_buckets (grown bin b h) = num_buckets h" "table (grown bin b h) = (table h)[bin := table h ! bin @ [b]]"
  "clht_hash (grown bin b h) = clht_hash h" "num_expands (grown bin b h) = num_expands h + 1"
  "num_expands_threshold (grown bin b h) = num_expands_threshold h"
  "ht_hash (grown bin b h) = ht_hash h" "is_helper (grown bin b h) = is_helper h"
  by (simp_all add: grown_def clht_hash_def fun_eq_iff)

lemma grown_ok:
  assumes "ht_ok h" "bin = clht_hash h key" "clht_map h key = None" "bucket_ok b" "bucket_entries b = [(key, v)]"
  shows "ht_ok (grown bin b h)" "clht_map (grown bin b h) = (clht_map h)(key \<mapsto> v)"
    "mset (entries (grown bin b h)) = add_mset (key, v) (mset (entries h))"
    "expands_total (grown bin b h) = Suc (expands_total h)" "locks_of (grown bin b h) = locks_of h"
proof -
  let ?c = "table h ! bin @ [b]"
  have bin: "bin < num_buckets h" "length (table h) = num_buckets h"
    using ht_ok_bin[OF assms(1)] assms(1,2) by (simp_all add: ht_ok_def)
  have old: "bin_ok h bin (table h ! bin)" using ht_ok_chain[OF assms(1) bin(1)] .
  have same: "entries (grown bin b h) = entries (set_chain bin ?c h)"
    "expands_total (grown bin b h) = expands_total (set_chain bin ?c h)"
    by (simp_all add: entries_def expands_total_def)
  show e: "mset (entries (grown bin b h)) = add_mset (key, v) (mset (entries h))"
    using mset_entries_set_chain[of bin h ?c] bin assms(5) by (simp add: same)
  have d: "distinct (map fst (entries h))" using assms(1) by (simp add: ht_ok_def)
  have a: "distinct (map fst (entries (grown bin b h))) \<and> map_of (entries (grown bin b h)) = (map_of (entries h))(key \<mapsto> v)"
    using map_of_add[OF e d] assms(3) by (simp add: clht_map_def)
  then show "clht_map (grown bin b h) = (clht_map h)(key \<mapsto> v)" by (simp add: clht_map_def)
  obtain n where "length (table h ! bin) = Suc n" using old by (cases "table h ! bin") (auto simp: bin_ok_def)
  then show x: "expands_total (grown bin b h) = Suc (expands_total h)"
    using expands_set_chain[of bin h ?c] bin same(2) by simp
  have "bin_ok h bin ?c" using old assms(2,4,5) by (auto simp: bin_ok_def)
  then show "ht_ok (grown bin b h)"
    using assms(1) a bin x by (auto simp: ht_ok_def bin_ok_def nth_list_update)
  show "locks_of (grown bin b h) = locks_of h"
    using bin old by (auto simp: locks_of_def map_update bin_ok_def nth_append list_update_same_conv)
qed

lemma expands_reached:
  assumes "ht_ok h" "expands_total h < 2 ^ 32"
  shows "num_expands_threshold h \<le> num_expands h \<longleftrightarrow> num_buckets h \<le> expands_total h"
  using assms by (simp add: ht_ok_def word_of_nat_less_eq_iff take_bit_nat_eq_self)

lemma fill_new_bucket:
  assumes "key \<noteq> 0"
  shows "bucket_ok (fill 0 key v \<lparr>b_lock = l, b_key = [0, 0, 0], b_val = [x, y, z]\<rparr>)"
    "bucket_entries (fill 0 key v \<lparr>b_lock = l, b_key = [0, 0, 0], b_val = [x, y, z]\<rparr>) = [(key, v)]"
  using assms by (simp_all add: bucket_ok_def fill_def bucket_entries_def)

definition new_bucket :: "64 word \<Rightarrow> bucket" where
  "new_bucket j = \<lparr>b_lock = LOCK_FREE, b_key = [0, 0, 0], b_val = [j, j, j]\<rparr>"

lemma clht_bucket_create_run [exec_simps]:
  "0 < room s \<Longrightarrow> clht_bucket_create s = Inr (Some (new_bucket (junk s)), s\<lparr>room := room s - 1\<rparr>)"
  by (simp add: clht_bucket_create_def exec_simps new_bucket_def)

section \<open>Building the new table\<close>

text \<open>In a table built by insertions alone every expansion follows full buckets.\<close>

definition packed :: "hashtable \<Rightarrow> bool" where
  "packed h \<longleftrightarrow> (\<forall>b < num_buckets h. 3 * (length (table h ! b) - 1) \<le> length (chain_entries (table h ! b)))"

lemma packed_expands:
  assumes "packed h" "length (table h) = num_buckets h"
  shows "3 * expands_total h \<le> length (entries h)"
proof -
  have "3 * sum_list (map (\<lambda>c. length c - 1) cs) \<le> length (concat (map chain_entries cs))"
    if "\<forall>c \<in> set cs. 3 * (length c - 1) \<le> length (chain_entries c)" for cs :: "chain list"
    using that by (induction cs) fastforce+
  moreover have "\<forall>c \<in> set (table h). 3 * (length c - 1) \<le> length (chain_entries c)"
    using assms by (auto simp: packed_def in_set_conv_nth)
  ultimately show ?thesis using assms(2) by (simp add: expands_total_def entries_def)
qed

definition building :: "hashtable \<Rightarrow> bool" where
  "building t \<longleftrightarrow> ht_ok t \<and> packed t \<and> unlocked t"

lemma locks_unlocked:
  "locks_of h' = locks_of h \<Longrightarrow> num_buckets h' = num_buckets h \<Longrightarrow> length (table h) = num_buckets h \<Longrightarrow>
   unlocked h' = unlocked h"
  by (metis length_map locks_of_def unlocked_iff)

lemma fill_packed:
  assumes t: "building t" and key: "key \<noteq> 0" "clht_map t key = None" "bin = clht_hash t key"
    and slot: "first_free 0 (table t ! bin) = Some (i, j)"
  shows "building (upd_bucket bin i (fill j key v) t)"
    "mset (entries (upd_bucket bin i (fill j key v) t)) = add_mset (key, v) (mset (entries t))"
proof -
  have ok: "ht_ok t" "length (table t) = num_buckets t" and bin: "bin < num_buckets t"
    using t ht_ok_bin key(3) by (auto simp: building_def ht_ok_def)
  have "find_entry 0 0 (table t ! bin) = Some (i, j)" using slot by (simp add: first_free_find)
  from find_entry_Some[OF this] obtain pre b post where
    p: "table t ! bin = pre @ b # post" "i = length pre" "j < length (b_key b)" "b_key b ! j = 0" by auto
  have b: "bucket_ok b" using ht_ok_chain[OF ok(1) bin] p(1) by (simp add: bin_ok_def)
  then have j: "j < 3" using p(3) by (simp add: bucket_ok_def)
  note f = fill_entries[OF b j p(4) key(1), of v]
  show e: "mset (entries (upd_bucket bin i (fill j key v) t)) = add_mset (key, v) (mset (entries t))"
    using upd_bucket_entries[OF ok(1) bin p(1), of "fill j key v"] f by (simp add: p(2))
  have "ht_ok (upd_bucket bin i (fill j key v) t)"
    using upd_bucket_add[OF ok(1) p(1) key(3), of "fill j key v" v] f b key(2) by (simp add: p(2))
  moreover have "packed (upd_bucket bin i (fill j key v) t)"
  proof -
    have "length (bucket_entries (fill j key v b)) = Suc (length (bucket_entries b))"
      using arg_cong[OF f, of size] by simp
    then show ?thesis
      using t p ok bin by (auto simp: building_def packed_def upd_bucket_def nth_list_update)
  qed
  moreover have "unlocked (upd_bucket bin i (fill j key v) t)"
    using t locks_unlocked[OF locks_upd, of bin t "fill j key v" i] ok bin by (simp add: building_def fill_def)
  ultimately show "building (upd_bucket bin i (fill j key v) t)" by (simp add: building_def)
qed

lemma grown_packed:
  assumes t: "building t" and key: "key \<noteq> 0" "clht_map t key = None" "bin = clht_hash t key"
    and slot: "first_free 0 (table t ! bin) = None"
  shows "building (grown bin (fill 0 key v (new_bucket x)) t)"
    "mset (entries (grown bin (fill 0 key v (new_bucket x)) t)) = add_mset (key, v) (mset (entries t))"
proof -
  let ?b = "fill 0 key v (new_bucket x)"
  have ok: "ht_ok t" "length (table t) = num_buckets t" and bin: "bin < num_buckets t"
    using t ht_ok_bin key(3) by (auto simp: building_def ht_ok_def)
  note n = fill_new_bucket[OF key(1), of v LOCK_FREE x x x, folded new_bucket_def]
  note g = grown_ok[OF ok(1) key(3,2) n]
  have full: "length (chain_entries (table t ! bin)) = 3 * length (table t ! bin)"
    using no_free_slot[OF _ slot] ht_ok_chain[OF ok(1) bin] by (simp add: bin_ok_def)
  have "packed (grown bin ?b t)"
    using t ok bin full by (auto simp: building_def packed_def nth_list_update)
  moreover have "unlocked (grown bin ?b t)"
    using t locks_unlocked[OF g(5)] ok by (simp add: building_def)
  ultimately show "building (grown bin ?b t)" "mset (entries (grown bin ?b t)) = add_mset (key, v) (mset (entries t))"
    using g by (simp_all add: building_def)
qed

lemma put_seq_run:
  assumes t: "building (table_tmp s)" and key: "key \<noteq> 0" "clht_map (table_tmp s) key = None" and "0 < room s"
  shows "\<exists>r t'. clht_put_seq key v (clht_hash (table_tmp s) key) s = Inr ((), s\<lparr>room := r, table_tmp := t'\<rparr>)
     \<and> room s - 1 \<le> r \<and> building t' \<and> mset (entries t') = add_mset (key, v) (mset (entries (table_tmp s)))
     \<and> num_buckets t' = num_buckets (table_tmp s)"
proof -
  let ?t = "table_tmp s" and ?bin = "clht_hash (table_tmp s) key"
  have ok: "ht_ok ?t" using t by (simp add: building_def)
  show ?thesis
  proof (cases "first_free 0 (table ?t ! ?bin)")
    case None
    note g = grown_packed[OF t key refl None, of v "junk s"]
    have "clht_put_seq key v ?bin s = Inr ((), s\<lparr>room := room s - 1, table_tmp := grown ?bin (fill 0 key v (new_bucket (junk s))) ?t\<rparr>)"
      using assms(4) ok None
      by (simp add: clht_put_seq_def clht_bucket_create_stats_def exec_simps grown_def)
    then show ?thesis using g by (intro exI[of _ "room s - 1"] exI) (auto simp: grown_def)
  next
    case (Some ij)
    then obtain i j where ij: "first_free 0 (table ?t ! ?bin) = Some (i, j)" by (cases ij) auto
    note f = fill_packed[OF t key refl ij, of v]
    have "clht_put_seq key v ?bin s = Inr ((), s\<lparr>room := room s, table_tmp := upd_bucket ?bin i (fill j key v) ?t\<rparr>)"
      using ok ij by (simp add: clht_put_seq_def exec_simps)
    then show ?thesis using f by (intro exI[of _ "room s"] exI) auto
  qed
qed

end
