(* ===== verification/ClhtResize.thy ===== *)
theory ClhtResize
  imports Clht
begin

text \<open>
  Resizing of P-CLHT: copying the bins moves exactly the entries of the old table, the swap of the
  root pointer keeps the map, and a table built by \<^verbatim>\<open>ht_status\<close> is always large enough that it
  is not resized again.
\<close>

section \<open>Copying\<close>

lemma map_of_mset_None: "k \<notin> fst ` set es \<Longrightarrow> mset es = mset es' \<Longrightarrow> map_of es' k = None"
  by (metis map_of_eq_None_iff mset_eq_setD)

lemma copy_entries_run:
  assumes "building (table_tmp s)" and "distinct (map fst (filter (\<lambda>(k, v). k \<noteq> 0) kvs))"
    and "\<forall>k \<in> fst ` set (filter (\<lambda>(k, v). k \<noteq> 0) kvs). clht_map (table_tmp s) k = None"
    and "length (filter (\<lambda>(k, v). k \<noteq> 0) kvs) \<le> room s"
  shows "\<exists>r t'. for_each kvs copy_entry s = Inr ((), s\<lparr>room := r, table_tmp := t'\<rparr>)
     \<and> room s - length (filter (\<lambda>(k, v). k \<noteq> 0) kvs) \<le> r \<and> building t'
     \<and> mset (entries t') = mset (entries (table_tmp s)) + mset (filter (\<lambda>(k, v). k \<noteq> 0) kvs)
     \<and> num_buckets t' = num_buckets (table_tmp s)"
  using assms
proof (induction kvs arbitrary: s)
  case Nil
  then show ?case by (intro exI[of _ "room s"] exI[of _ "table_tmp s"]) (simp add: exec_simps)
next
  case (Cons kv kvs)
  obtain k v where kv: "kv = (k, v)" by (cases kv)
  let ?es = "filter (\<lambda>(k, v). k \<noteq> 0) kvs"
  show ?case
  proof (cases "k = 0")
    case True
    with Cons kv show ?thesis by (simp add: copy_entry_def exec_simps)
  next
    case False
    from Cons.prems(4) False kv have "0 < room s" by simp
    from put_seq_run[OF Cons.prems(1) False _ this, of v] Cons.prems(3) False kv obtain r t where
      1: "clht_put_seq k v (clht_hash (table_tmp s) k) s = Inr ((), s\<lparr>room := r, table_tmp := t\<rparr>)"
      "room s - 1 \<le> r" "building t" "mset (entries t) = add_mset (k, v) (mset (entries (table_tmp s)))"
      "num_buckets t = num_buckets (table_tmp s)" by auto
    let ?s = "s\<lparr>room := r, table_tmp := t\<rparr>"
    have none: "\<forall>k' \<in> fst ` set ?es. clht_map t k' = None"
    proof
      fix k' assume k': "k' \<in> fst ` set ?es"
      then have "k' \<noteq> k" using Cons.prems(2) False kv by auto
      moreover have "k' \<notin> fst ` set (entries (table_tmp s))"
      proof -
        have "clht_map (table_tmp s) k' = None" using Cons.prems(3) k' False kv by auto
        then show ?thesis by (simp add: clht_map_def map_of_eq_None_iff)
      qed
      moreover have "set (entries t) = insert (k, v) (set (entries (table_tmp s)))"
        using 1(4) by (metis set_mset_add_mset_insert set_mset_mset)
      ultimately show "clht_map t k' = None" by (auto simp: clht_map_def map_of_eq_None_iff)
    qed
    have "\<exists>r' t'. for_each kvs copy_entry ?s = Inr ((), ?s\<lparr>room := r', table_tmp := t'\<rparr>)
     \<and> room ?s - length ?es \<le> r' \<and> building t' \<and> mset (entries t') = mset (entries (table_tmp ?s)) + mset ?es
     \<and> num_buckets t' = num_buckets (table_tmp ?s)"
      by (rule Cons.IH) (use 1 none Cons.prems False kv in auto)
    then obtain r' t' where 2: "for_each kvs copy_entry ?s = Inr ((), ?s\<lparr>room := r', table_tmp := t'\<rparr>)"
      "r - length ?es \<le> r'" "building t'" "mset (entries t') = mset (entries t) + mset ?es" "num_buckets t' = num_buckets t"
      by auto
    have "copy_entry kv s = Inr ((), ?s)" using False 1(1) kv by (simp add: copy_entry_def exec_simps)
    with 1 2 False kv show ?thesis
      by (intro exI[of _ r'] exI[of _ t']) (auto simp: exec_simps)
  qed
qed

lemma for_each_concat: "for_each xs (\<lambda>x. for_each (f x) g) s = for_each (concat (map f xs)) g s"
proof (induction xs arbitrary: s)
  case (Cons x xs)
  then show ?case by (simp add: for_each_append seq_def bnd_def split: sum.splits)
qed simp

lemma filter_chain: "filter (\<lambda>(k, v). k \<noteq> 0) (concat (map (\<lambda>b. zip (b_key b) (b_val b)) c)) = chain_entries c"
  by (induction c) (simp_all add: bucket_entries_def)

lemma bucket_cpy_run:
  assumes "bin < length (table (ht s))" "b_lock (table (ht s) ! bin ! 0) = LOCK_FREE"
    and "building (table_tmp s)" and "distinct (map fst (chain_entries (table (ht s) ! bin)))"
    and "\<forall>k \<in> fst ` set (chain_entries (table (ht s) ! bin)). clht_map (table_tmp s) k = None"
    and "length (chain_entries (table (ht s) ! bin)) \<le> room s"
  shows "\<exists>r t'. bucket_cpy bin s = Inr (True, s\<lparr>room := r,
        ht := upd_bucket bin 0 (\<lambda>b. b\<lparr>b_lock := LOCK_RESIZE\<rparr>) (ht s), table_tmp := t'\<rparr>)
     \<and> room s - length (chain_entries (table (ht s) ! bin)) \<le> r \<and> building t'
     \<and> mset (entries t') = mset (entries (table_tmp s)) + mset (chain_entries (table (ht s) ! bin))
     \<and> num_buckets t' = num_buckets (table_tmp s)"
proof -
  let ?c = "table (ht s) ! bin"
  let ?kvs = "concat (map (\<lambda>b. zip (b_key b) (b_val b)) ?c)"
  let ?s = "s\<lparr>ht := upd_bucket bin 0 (\<lambda>b. b\<lparr>b_lock := LOCK_RESIZE\<rparr>) (ht s)\<rparr>"
  have zips: "map (\<lambda>b. zip (b_key b) (b_val b)) (table (ht ?s) ! bin) = map (\<lambda>b. zip (b_key b) (b_val b)) ?c"
    using assms(1) by (cases ?c) (simp_all add: upd_bucket_def)
  from copy_entries_run[of ?s ?kvs] assms obtain r t' where
    "for_each ?kvs copy_entry ?s = Inr ((), ?s\<lparr>room := r, table_tmp := t'\<rparr>)"
    "room s - length (chain_entries ?c) \<le> r" "building t'"
    "mset (entries t') = mset (entries (table_tmp s)) + mset (chain_entries ?c)"
    "num_buckets t' = num_buckets (table_tmp s)" by (auto simp: filter_chain)
  with assms(1,2) show ?thesis
    by (intro exI[of _ r] exI[of _ t'])
       (simp add: bucket_cpy_def lock_acq_resize_def exec_simps for_each_concat zips[simplified])
qed

lemma upd_other_bin: "b \<noteq> bin \<Longrightarrow> table (upd_bucket bin i f h) ! b = table h ! b"
  by (simp add: upd_bucket_def)

lemma copy_bins_run:
  assumes "distinct bs" "\<forall>b \<in> set bs. b < length (table (ht s)) \<and> b_lock (table (ht s) ! b ! 0) = LOCK_FREE"
    and "building (table_tmp s)"
    and "distinct (map fst (concat (map (\<lambda>b. chain_entries (table (ht s) ! b)) bs)))"
    and "\<forall>k \<in> fst ` set (concat (map (\<lambda>b. chain_entries (table (ht s) ! b)) bs)). clht_map (table_tmp s) k = None"
    and "length (concat (map (\<lambda>b. chain_entries (table (ht s) ! b)) bs)) \<le> room s"
  shows "\<exists>r h' t'. copy_bins bs s = Inr ((), s\<lparr>room := r, ht := h', table_tmp := t'\<rparr>)
     \<and> room s - length (concat (map (\<lambda>b. chain_entries (table (ht s) ! b)) bs)) \<le> r \<and> building t'
     \<and> mset (entries t') = mset (entries (table_tmp s)) + mset (concat (map (\<lambda>b. chain_entries (table (ht s) ! b)) bs))
     \<and> num_buckets t' = num_buckets (table_tmp s)"
  using assms
proof (induction bs arbitrary: s)
  case Nil
  have "copy_bins [] s = Inr ((), s\<lparr>room := room s, ht := ht s, table_tmp := table_tmp s\<rparr>)"
    by (simp add: ret_apply)
  with Nil.prems(3) show ?case
    by (intro exI[of _ "room s"] exI[of _ "ht s"] exI[of _ "table_tmp s"]) (simp del: copy_bins.simps)
next
  case (Cons b bs)
  let ?c = "chain_entries (table (ht s) ! b)"
  let ?es = "concat (map (\<lambda>b. chain_entries (table (ht s) ! b)) bs)"
  let ?h = "upd_bucket b 0 (\<lambda>b. b\<lparr>b_lock := LOCK_RESIZE\<rparr>) (ht s)"
  have "\<exists>r t'. bucket_cpy b s = Inr (True, s\<lparr>room := r, ht := ?h, table_tmp := t'\<rparr>)
     \<and> room s - length ?c \<le> r \<and> building t' \<and> mset (entries t') = mset (entries (table_tmp s)) + mset ?c
     \<and> num_buckets t' = num_buckets (table_tmp s)"
    by (rule bucket_cpy_run) (use Cons.prems in auto)
  then obtain r t where 1: "bucket_cpy b s = Inr (True, s\<lparr>room := r, ht := ?h, table_tmp := t\<rparr>)"
    "room s - length ?c \<le> r" "building t" "mset (entries t) = mset (entries (table_tmp s)) + mset ?c"
    "num_buckets t = num_buckets (table_tmp s)" by blast
  let ?s = "s\<lparr>room := r, ht := ?h, table_tmp := t\<rparr>"
  have other: "map (\<lambda>b. chain_entries (table ?h ! b)) bs = map (\<lambda>b. chain_entries (table (ht s) ! b)) bs"
    using Cons.prems(1) by (auto intro!: arg_cong[of _ _ chain_entries] upd_other_bin)
  have none: "\<forall>k \<in> fst ` set ?es. clht_map t k = None"
  proof
    fix k assume k: "k \<in> fst ` set ?es"
    have "clht_map (table_tmp s) k = None" using Cons.prems(5) k by fastforce
    moreover have "k \<notin> fst ` set ?c" using Cons.prems(4) k by auto
    moreover have "set (entries t) = set (entries (table_tmp s)) \<union> set ?c"
      using 1(4) by (metis set_mset_mset set_mset_union)
    ultimately show "clht_map t k = None" by (auto simp: clht_map_def map_of_eq_None_iff)
  qed
  have "\<exists>r' h' t'. copy_bins bs ?s = Inr ((), ?s\<lparr>room := r', ht := h', table_tmp := t'\<rparr>)
     \<and> room ?s - length (concat (map (\<lambda>b. chain_entries (table (ht ?s) ! b)) bs)) \<le> r' \<and> building t'
     \<and> mset (entries t') = mset (entries (table_tmp ?s)) + mset (concat (map (\<lambda>b. chain_entries (table (ht ?s) ! b)) bs))
     \<and> num_buckets t' = num_buckets (table_tmp ?s)"
  proof (rule Cons.IH)
    show "\<forall>b \<in> set bs. b < length (table (ht ?s)) \<and> b_lock (table (ht ?s) ! b ! 0) = LOCK_FREE"
    proof
      fix b' assume "b' \<in> set bs"
      moreover from this have "b' \<noteq> b" using Cons.prems(1) by auto
      ultimately show "b' < length (table (ht ?s)) \<and> b_lock (table (ht ?s) ! b' ! 0) = LOCK_FREE"
        using Cons.prems(2) by (simp add: upd_other_bin)
    qed
  qed (use Cons.prems 1 none in \<open>auto simp: other\<close>)
  then obtain r' h' t' where 2: "copy_bins bs ?s = Inr ((), ?s\<lparr>room := r', ht := h', table_tmp := t'\<rparr>)"
    "r - length ?es \<le> r'" "building t'" "mset (entries t') = mset (entries t) + mset ?es" "num_buckets t' = num_buckets t"
    by (auto simp: other)
  show ?case
    using 1 2 by (intro exI[of _ r'] exI[of _ h'] exI[of _ t']) (auto simp: exec_simps ac_simps)
qed

section \<open>One resize\<close>

lemma new_table_building:
  assumes "0 < n" "n < 2 ^ 32"
  shows "building \<lparr>num_buckets = n, table = replicate n [empty_bucket], ht_hash = of_nat n - 1,
                 version = w, num_expands = 0,
                 num_expands_threshold = of_nat n, is_helper = 1, helper_done = 0\<rparr>"
    "entries \<lparr>num_buckets = n, table = replicate n [empty_bucket], ht_hash = of_nat n - 1,
                 version = w, num_expands = 0,
                 num_expands_threshold = of_nat n, is_helper = 1, helper_done = 0\<rparr> = []"
proof -
  have e: "chain_entries [empty_bucket] = []"
    by (simp add: empty_bucket_def bucket_entries_def)
  then have c: "concat (map chain_entries (replicate n [empty_bucket])) = []" by (simp only: concat_eq_Nil_conv) simp
  then show "entries \<lparr>num_buckets = n, table = replicate n [empty_bucket], ht_hash = of_nat n - 1,
                 version = w, num_expands = 0,
                 num_expands_threshold = of_nat n, is_helper = 1, helper_done = 0\<rparr> = []" by (simp only: entries_def hashtable.simps)
  with e assms show "building \<lparr>num_buckets = n, table = replicate n [empty_bucket], ht_hash = of_nat n - 1,
                 version = w, num_expands = 0,
                 num_expands_threshold = of_nat n, is_helper = 1, helper_done = 0\<rparr>"
    by (simp add: building_def ht_ok_def packed_def unlocked_def bin_ok_def expands_total_def sum_list_replicate)
       (simp add: empty_bucket_def bucket_ok_def)
qed

definition fresh_table :: "nat \<Rightarrow> 64 word \<Rightarrow> hashtable" where
  "fresh_table n w = \<lparr>num_buckets = n, table = replicate n [empty_bucket], ht_hash = of_nat n - 1,
                 version = w, num_expands = 0,
                 num_expands_threshold = of_nat n, is_helper = 1, helper_done = 0\<rparr>"

lemmas fresh_table_ok = new_table_building[folded fresh_table_def]

lemma create_run:
  assumes "0 < n" "n < 2 ^ 32" "2 \<le> room s"
  shows "clht_hashtable_create n s = Inr (Some (fresh_table n 0), s\<lparr>room := room s - 2\<rparr>)"
proof -
  have "unat (of_nat n :: 32 word) = n" using assms(2) by (simp add: unat_of_nat)
  then have n: "(of_nat n :: 32 word) \<noteq> 0" using assms(1) by force
  have "n * 64 < 2 ^ 64" using assms(2) by simp
  with n assms show ?thesis
    by (simp add: clht_hashtable_create_def exec_simps fresh_table_def)
qed

lemma entries_by_bins:
  "length (table h) = num_buckets h \<Longrightarrow>
   concat (map (\<lambda>b. chain_entries (table h ! b)) [0..<num_buckets h]) = entries h"
proof -
  assume "length (table h) = num_buckets h"
  then have "map (\<lambda>b. table h ! b) [0..<num_buckets h] = table h" by (metis map_nth)
  then have "map chain_entries (map (\<lambda>b. table h ! b) [0..<num_buckets h]) = map chain_entries (table h)" by simp
  then show ?thesis by (simp add: entries_def comp_def)
qed

text \<open>What a resize to \<open>n\<close> buckets leaves behind before it may call \<^verbatim>\<open>ht_status\<close> again.\<close>

definition resized :: "nat \<Rightarrow> clht \<Rightarrow> clht \<Rightarrow> bool" where
  "resized n s s' \<longleftrightarrow> building (ht s') \<and> mset (entries (ht s')) = mset (entries (ht s)) \<and> num_buckets (ht s') = n
     \<and> images s' = images s @ [ht s'] \<and> \<not> resize_lock s' \<and> status_lock s' = status_lock s
     \<and> room s - 2 - length (entries (ht s)) \<le> room s'"

lemma resize_run:
  assumes ok: "ht_ok (ht s)" "unlocked (ht s)" "\<not> resize_lock s"
    and n: "n = (if inc then (by_factor * num_buckets (ht s)) mod 2 ^ 64 else num_buckets (ht s) div 8)" "0 < n" "n < 2 ^ 32"
    and room: "2 + length (entries (ht s)) \<le> room s"
  shows "\<exists>s'. ht_resize_pes status inc by_factor s =
        (if num_expands (ht s') \<ge> num_expands_threshold (ht s') then seq status (ret 1) s' else Inr (1, s')) \<and> resized n s s'"
proof -
  define s1 where "s1 = (if inc then s\<lparr>resize_lock := True\<rparr> else s\<lparr>resize_lock := True\<rparr>\<lparr>ht := (ht s)\<lparr>is_helper := 0\<rparr>\<rparr>)"
  have s1: "table (ht s1) = table (ht s)" "num_buckets (ht s1) = num_buckets (ht s)" "version (ht s1) = version (ht s)"
    "entries (ht s1) = entries (ht s)" "room s1 = room s" "images s1 = images s" "status_lock s1 = status_lock s"
    "inc \<longrightarrow> is_helper (ht s1) = 1"
    using ok(1) by (simp_all add: s1_def entries_def ht_ok_def)
  have len: "length (table (ht s1)) = num_buckets (ht s1)" using ok(1) s1 by (simp add: ht_ok_def)
  let ?t = "fresh_table n (version (ht s1) + 1)"
  define s2 where "s2 = s1\<lparr>room := room s1 - 2\<rparr>\<lparr>table_tmp := ?t\<rparr>"
  have s2: "ht s2 = ht s1" "table_tmp s2 = ?t" "room s2 = room s - 2" "images s2 = images s" "status_lock s2 = status_lock s"
    by (simp_all add: s2_def s1)
  note bins = entries_by_bins[OF len, folded s2(1)]
  have "\<exists>r h' t'. copy_bins [0..<num_buckets (ht s1)] s2 = Inr ((), s2\<lparr>room := r, ht := h', table_tmp := t'\<rparr>)
     \<and> room s2 - length (concat (map (\<lambda>b. chain_entries (table (ht s2) ! b)) [0..<num_buckets (ht s1)])) \<le> r \<and> building t'
     \<and> mset (entries t') = mset (entries (table_tmp s2)) + mset (concat (map (\<lambda>b. chain_entries (table (ht s2) ! b)) [0..<num_buckets (ht s1)]))
     \<and> num_buckets t' = num_buckets (table_tmp s2)"
  proof (rule copy_bins_run)
    show "\<forall>b \<in> set [0..<num_buckets (ht s1)]. b < length (table (ht s2)) \<and> b_lock (table (ht s2) ! b ! 0) = LOCK_FREE"
      using ok len s1 s2 by (simp add: unlocked_def)
    show "building (table_tmp s2)" using fresh_table_ok(1)[OF n(2,3)] by (simp add: s2)
    show "distinct (map fst (concat (map (\<lambda>b. chain_entries (table (ht s2) ! b)) [0..<num_buckets (ht s1)])))"
      using ok(1) s1 s2 bins by (simp add: ht_ok_def)
    show "length (concat (map (\<lambda>b. chain_entries (table (ht s2) ! b)) [0..<num_buckets (ht s1)])) \<le> room s2"
      using room s1 s2 bins by simp
    show "\<forall>k \<in> fst ` set (concat (map (\<lambda>b. chain_entries (table (ht s2) ! b)) [0..<num_buckets (ht s1)])). clht_map (table_tmp s2) k = None"
      using fresh_table_ok(2)[OF n(2,3)] by (simp add: clht_map_def s2)
  qed simp
  then obtain r h' t' where c: "copy_bins [0..<num_buckets (ht s1)] s2 = Inr ((), s2\<lparr>room := r, ht := h', table_tmp := t'\<rparr>)"
    "room s - 2 - length (entries (ht s)) \<le> r" "building t'" "mset (entries t') = mset (entries (ht s))" "num_buckets t' = n"
    using bins s1 s2 fresh_table_ok(2)[OF n(2,3)] by (auto simp: fresh_table_def)
  define s3 where "s3 = s2\<lparr>room := r, ht := h', table_tmp := t'\<rparr>"
  define s' where "s' = s3\<lparr>table_prev := ht s3 # table_prev s3, ht := t', images := images s3 @ [t'], resize_lock := False\<rparr>"
  have s': "ht s' = t'" "table_tmp s3 = t'" by (simp_all add: s'_def s3_def)
  have "resized n s s'" using c s2 by (simp add: resized_def s'_def s3_def)
  moreover have "ht_resize_pes status inc by_factor s =
        (if num_expands (ht s') \<ge> num_expands_threshold (ht s') then seq status (ret 1) s' else Inr (1, s'))"
  proof -
    let ?pre = "if inc then ret () else modify (\<lambda>s. s\<lparr>ht := (ht s)\<lparr>is_helper := 0\<rparr>\<rparr>)"
    have pre: "seq ?pre k (s\<lparr>resize_lock := True\<rparr>) = k s1" for k :: "(clht, int) exec"
      by (simp add: s1_def seq_def bnd_def exec_simps)
    have "clht_hashtable_create n s1 = Inr (Some (fresh_table n 0), s1\<lparr>room := room s1 - 2\<rparr>)"
      using create_run[OF n(2,3), of s1] room s1 by simp
    then have cr: "bnd (clht_hashtable_create n) k s1 = k (Some (fresh_table n 0)) (s1\<lparr>room := room s1 - 2\<rparr>)"
      for k :: "hashtable option \<Rightarrow> (clht, int) exec" by (simp add: bnd_def)
    have set2: "seq (modify (\<lambda>s. s\<lparr>table_tmp := (fresh_table n 0)\<lparr>version := version (ht s1) + 1\<rparr>\<rparr>)) k (s1\<lparr>room := room s1 - 2\<rparr>) = k s2"
      for k :: "(clht, int) exec"
      by (simp add: seq_def bnd_def exec_simps s2_def fresh_table_def)
    have cp: "seq (copy_bins [0..<num_buckets (ht s1)]) k s2 = k s3" for k :: "(clht, int) exec"
      using c(1) by (simp add: seq_def bnd_def s3_def)
    have hp: "seq (if inc \<and> is_helper (ht s1) \<noteq> 1 \<and> helper_done (ht s1) \<noteq> 1 then raise Diverges else ret ()) k s3 = k s3"
      for k :: "(clht, int) exec"
      using s1(8) by (cases inc) (simp_all add: seq_def bnd_def exec_simps)
    have sw: "seq (modify (\<lambda>s. s\<lparr>table_prev := ht s # table_prev s, ht := t', images := images s @ [t'], resize_lock := False\<rparr>)) k s3 = k s'"
      for k :: "(clht, int) exec"
      by (simp add: seq_def bnd_def exec_simps s'_def)
    have lk: "seq (modify (\<lambda>s. s\<lparr>resize_lock := True\<rparr>)) k s = k (s\<lparr>resize_lock := True\<rparr>)" for k :: "(clht, int) exec"
      by (simp add: seq_def bnd_def exec_simps)
    have nn: "(if inc then (by_factor * num_buckets (ht s1)) mod 2 ^ 64 else num_buckets (ht s1) div 8) = n"
      using n(1) s1(2) by simp
    show ?thesis
      unfolding ht_resize_pes_def
      by (simp only: bnd_pure(1) lk ok(3) if_False pre Let_def nn cr option.case set2 cp hp sw s')
         (simp add: ret_apply)
  qed
  ultimately show ?thesis by blast
qed

section \<open>The decision to resize\<close>

text \<open>The factor chosen for growing is small enough not to overflow and large enough for all entries.\<close>

lemma growth_factor:
  fixes n N :: nat
  assumes "0 < N" "N < 2 ^ 31" "n < 2 ^ 31"
    and f: "f = (100 * n) div (40 * (N * 3))"
    and p: "p = unat (pow2roundup (of_nat f))"
    and k: "k = (if p = 1 then 2 else p)"
  shows "0 < k * N" "k * N < 2 ^ 32" "n < 3 * (k * N)"
proof -
  have "f = (100 * n) div (120 * N)" using f by (simp only: mult.assoc mult.commute[of N] flip: mult.assoc) simp
  then have "f * (120 * N) \<le> 100 * n" "100 * n < 120 * N + f * (120 * N)"
    using assms(1) div_times_less_eq_dividend[of "100 * n" "120 * N"] dividend_less_div_times[of "120 * N" "100 * n"]
    by simp_all
  then have X: "120 * (f * N) \<le> 100 * n" "100 * n < 120 * (f * N) + 120 * N" by (simp_all add: algebra_simps)
  have "0 < k * N \<and> k * N < 2 ^ 32 \<and> n < 3 * (k * N)"
  proof (cases "f = 0")
    case True
    then have "k = 2" using k p by (simp add: pow2roundup_def)
    with True X(2) assms(1,2) show ?thesis by simp
  next
    case False
    have "f * N \<le> 100 * n" using X(1) by linarith
    moreover have "f \<le> f * N" using assms(1) by simp
    ultimately have "f \<le> 100 * 2 ^ 31" using assms(3) by linarith
    then have "f \<le> p" "p < 2 * f" using pow2roundup_bounds[of f] False p by simp_all
    then have k2: "2 \<le> k" "f \<le> k" "k < 2 * f \<or> k = 2" using k by auto
    have kN: "2 * N \<le> k * N" "f * N \<le> k * N" using k2(1,2) by simp_all
    have "k * N < 2 ^ 32"
      using k2(3)
    proof
      assume "k < 2 * f"
      then have "k * N \<le> 2 * (f * N)" by (metis less_imp_le_nat mult.assoc mult_le_mono1)
      moreover have "(2::nat) ^ 32 = 2 * 2 ^ 31" by simp
      ultimately show ?thesis using X(1) assms(3) by linarith
    qed (use assms(2) in simp)
    moreover have "0 < k * N" "n < 3 * (k * N)" using kN X(2) assms(1) by linarith+
    ultimately show ?thesis by blast
  qed
  then show "0 < k * N" "k * N < 2 ^ 32" "n < 3 * (k * N)" by simp_all
qed

lemma resized_done:
  assumes "resized m s s'" "length (entries (ht s)) < 3 * m"
  shows "\<not> num_expands_threshold (ht s') \<le> num_expands (ht s')" "expands_total (ht s') < num_buckets (ht s')"
    "ht_ok (ht s')" "unlocked (ht s')" "length (entries (ht s')) = length (entries (ht s))"
    "clht_map (ht s') = map_of (entries (ht s'))"
proof -
  have b: "building (ht s')" and m: "mset (entries (ht s')) = mset (entries (ht s))" "num_buckets (ht s') = m"
    using assms(1) by (simp_all add: resized_def)
  then show ok: "ht_ok (ht s')" "unlocked (ht s')" by (simp_all add: building_def)
  show l: "length (entries (ht s')) = length (entries (ht s))" using m(1) by (metis size_mset)
  have "3 * expands_total (ht s') \<le> length (entries (ht s'))"
    using packed_expands[of "ht s'"] b by (simp add: building_def ht_ok_def)
  then show lt: "expands_total (ht s') < num_buckets (ht s')" using l assms(2) m(2) by simp
  have "num_buckets (ht s') < 2 ^ 32" using ok(1) by (simp add: ht_ok_def)
  with lt show "\<not> num_expands_threshold (ht s') \<le> num_expands (ht s')"
    using expands_reached[OF ok(1)] by simp
  show "clht_map (ht s') = map_of (entries (ht s'))" by (simp add: clht_map_def)
qed

lemma resize_once:
  assumes ok: "ht_ok (ht s)" "unlocked (ht s)" "\<not> resize_lock s"
    and n: "n = (if inc then (by_factor * num_buckets (ht s)) mod 2 ^ 64 else num_buckets (ht s) div 8)" "0 < n" "n < 2 ^ 32"
    and room: "2 + length (entries (ht s)) \<le> room s" and "length (entries (ht s)) < 3 * n"
  shows "\<exists>s'. ht_resize_pes status inc by_factor s = Inr (1, s') \<and> resized n s s'"
proof -
  from resize_run[OF ok n room, of status] obtain s' where
    "ht_resize_pes status inc by_factor s =
        (if num_expands (ht s') \<ge> num_expands_threshold (ht s') then seq status (ret 1) s' else Inr (1, s'))"
    "resized n s s'" by blast
  with resized_done(1)[OF this(2) assms(8)] show ?thesis by auto
qed

lemma resized_same_map: "resized n s s' \<Longrightarrow> ht_ok (ht s) \<Longrightarrow> clht_map (ht s') = clht_map (ht s)"
  using map_of_same[of "entries (ht s')" "entries (ht s)"] by (simp add: resized_def clht_map_def ht_ok_def)

text \<open>One call of \<^verbatim>\<open>ht_status\<close> that may resize.\<close>

lemma status_run:
  assumes ok: "ht_ok (ht s)" "unlocked (ht s)" "\<not> resize_lock s"
    and small: "num_buckets (ht s) < 2 ^ 31" "length (entries (ht s)) < 2 ^ 31" "expands_total (ht s) \<le> num_buckets (ht s)"
    and halve: "8 \<le> num_buckets (ht s) \<or> length (entries (ht s)) \<noteq> 1 \<or> num_buckets (ht s) \<noteq> 7"
    and room: "2 + length (entries (ht s)) \<le> room s"
    and free: "inc \<or> \<not> status_lock s \<and> expands_total (ht s) < num_buckets (ht s)"
  shows "\<exists>s'. ht_status (Suc fuel) inc False s = Inr (clht_size (ht s), s') \<and> clht_ok s'
     \<and> clht_map (ht s') = clht_map (ht s) \<and> length (entries (ht s')) = length (entries (ht s))
     \<and> (images s' = images s \<or> images s' = images s @ [ht s'])"
proof -
  let ?N = "num_buckets (ht s)" and ?n = "length (entries (ht s))"
  define s1 where "s1 = s\<lparr>status_lock := True\<rparr>"
  have s1: "ht s1 = ht s" "room s1 = room s" "\<not> resize_lock s1" "images s1 = images s" using ok(3) by (simp_all add: s1_def)
  have N: "0 < ?N" using ok(1) by (simp add: ht_ok_def)
  have sz: "clht_size (ht s) = ?n" using ok(1) by (rule clht_size_entries)
  let ?act = "if ratio_above 0 ?n (?N * 3) \<and> ratio_below 5 ?n (?N * 3) then
             seq (ht_resize_pes (ht_status fuel True False) False 33) (ret ())
           else if ratio_above 50 ?n (?N * 3) \<or> 24 < expands_max (ht s) \<or> inc then
             bnd (cint (int ((100 * ?n) div (40 * (?N * 3))))) (\<lambda>inc_by.
               let inc_by_pow2 = unat (pow2roundup (of_int inc_by)) in
               seq (ht_resize_pes (ht_status fuel True False) True (if inc_by_pow2 = 1 then 2 else inc_by_pow2)) (ret ()))
           else ret ()"
  have act: "\<exists>s2. ?act s1 = Inr ((), s2) \<and> ((\<not> inc \<and> s2 = s1) \<or> (\<exists>m. resized m s1 s2 \<and> ?n < 3 * m))"
  proof -
    consider (halve) "ratio_above 0 ?n (?N * 3)" "ratio_below 5 ?n (?N * 3)"
      | (grow) "\<not> (ratio_above 0 ?n (?N * 3) \<and> ratio_below 5 ?n (?N * 3))"
          "ratio_above 50 ?n (?N * 3) \<or> 24 < expands_max (ht s) \<or> inc"
      | (keep) "\<not> (ratio_above 0 ?n (?N * 3) \<and> ratio_below 5 ?n (?N * 3))"
          "\<not> (ratio_above 50 ?n (?N * 3) \<or> 24 < expands_max (ht s) \<or> inc)" by blast
    then show ?thesis
    proof cases
      case halve
      then have "0 < ?n" "100 * ?n < 15 * ?N" by (simp_all add: ratio_above_def ratio_below_def)
      moreover from this have "0 < ?N div 8" using assms(7) by linarith
      moreover have "?N < 8 * (?N div 8) + 8" "?N div 8 \<le> ?N" by simp_all
      ultimately have m: "0 < ?N div 8" "?n < 3 * (?N div 8)" by linarith+
      have "?N div 8 < 2 ^ 32" by (rule le_less_trans[OF div_le_dividend]) (use small(1) in simp)
      note m = m(1) this m(2)
      from resize_once[of s1 "?N div 8" False 33 "ht_status fuel True False"] m ok s1 room obtain s2 where
        "ht_resize_pes (ht_status fuel True False) False 33 s1 = Inr (1, s2)" "resized (?N div 8) s1 s2" by auto
      with halve m(3) show ?thesis by (auto simp: seq_Inr ret_apply)
    next
      case grow
      define f where "f = (100 * ?n) div (40 * (?N * 3))"
      define p where "p = unat (pow2roundup (of_nat f))"
      define k where "k = (if p = 1 then 2 else p)"
      note g = growth_factor[OF N small(1,2) f_def p_def k_def]
      have "f \<le> 100 * ?n div 120" unfolding f_def using N by (intro div_le_mono2) simp_all
      then have "int_range (int f)" using small(2) by (simp add: int_range_defs)
      then have c: "bnd (cint (int f)) h s1 = h (int f) s1" for h :: "int \<Rightarrow> (clht, unit) exec"
        by (simp add: bnd_Inr cint_ok)
      from resize_once[of s1 "k * ?N" True k "ht_status fuel True False"] g ok s1 room obtain s2 where
        "ht_resize_pes (ht_status fuel True False) True k s1 = Inr (1, s2)" "resized (k * ?N) s1 s2" by auto
      moreover from this(1) have "?act s1 = Inr ((), s2)"
        by (simp only: grow if_False if_True f_def[symmetric] c Let_def of_int_of_nat_eq p_def[symmetric]
            k_def[symmetric] seq_Inr ret_apply)
      ultimately show ?thesis using g(3) by blast
    next
      case keep
      then have "?act s1 = Inr ((), s1)" by (simp only: keep if_False ret_apply)
      then show ?thesis using keep(2) by blast
    qed
  qed
  then obtain s2 where s2: "?act s1 = Inr ((), s2)" "(\<not> inc \<and> s2 = s1) \<or> (\<exists>m. resized m s1 s2 \<and> ?n < 3 * m)" by blast
  define s' where "s' = s2\<lparr>status_lock := False\<rparr>"
  have "ht_status (Suc fuel) inc False s = Inr (?n, s')"
  proof -
    have "int_range (int (expands_total (ht s)))" using small by (simp add: int_range_defs)
    then have c: "bnd (cint (int (expands_total (ht s)))) k s1 = k (int (expands_total (ht s))) s1"
      for k :: "int \<Rightarrow> (clht, nat) exec" by (simp add: bnd_Inr cint_ok)
    have a: "seq ?act k s1 = k s2" for k :: "(clht, nat) exec" using s2(1) by (simp only: seq_def bnd_def sum.case prod.case)
    have lk: "seq (modify (\<lambda>s. s\<lparr>status_lock := True\<rparr>)) k s = k s1" for k :: "(clht, nat) exec"
      by (simp add: seq_def bnd_def exec_simps s1_def)
    have "\<not> (status_lock s \<and> \<not> inc)" using free by blast
    then show ?thesis
      by (simp only: ht_status.simps bnd_pure(1) lk if_False s1(1) sz Let_def c a[unfolded Let_def]) (simp add: exec_simps s'_def)
  qed
  moreover have "clht_ok s' \<and> clht_map (ht s') = clht_map (ht s) \<and> length (entries (ht s')) = length (entries (ht s))
     \<and> (images s' = images s \<or> images s' = images s @ [ht s'])"
    using s2(2)
  proof
    assume "\<not> inc \<and> s2 = s1"
    then show ?thesis using free ok s1 by (simp add: s'_def clht_ok_def)
  next
    assume "\<exists>m. resized m s1 s2 \<and> ?n < 3 * m"
    then obtain m where m: "resized m s1 s2" "length (entries (ht s1)) < 3 * m" using s1(1) by auto
    then show ?thesis
      using resized_done[OF m] resized_same_map[OF m(1)] ok s1 by (simp add: s'_def clht_ok_def resized_def)
  qed
  ultimately show ?thesis using sz by auto
qed

end
