(* ===== verification/KvTable.thy ===== *)
theory KvTable
  imports Prelude
begin

text \<open>
  The contract of the persistent hash tables towards their drivers: a table in a good state stands
  for a finite map, storing a new key extends the map by that key and may at most forget others, and
  a search reads the map. The extension \<open>kv_exact\<close> forgets nothing. The drivers store a batch of
  keys and look every one of them up again; \<open>puts\<close> and \<open>count_failed\<close> are these two loops.
\<close>

primrec puts :: "('k \<Rightarrow> 'v \<Rightarrow> ('s, 'r) exec) \<Rightarrow> ('k \<times> 'v) list \<Rightarrow> ('s, unit) exec" where
  "puts put [] = ret ()"
| "puts put (kv # kvs) = seq (put (fst kv) (snd kv)) (puts put kvs)"

primrec count_failed :: "('k \<Rightarrow> ('s, 'v) exec) \<Rightarrow> ('k \<times> 'v) list \<Rightarrow> nat \<Rightarrow> ('s, nat) exec" where
  "count_failed get [] n = ret n"
| "count_failed get (kv # kvs) n =
     bnd (get (fst kv)) (\<lambda>r. count_failed get kvs (if r \<noteq> snd kv then n + 1 else n))"

text \<open>Every state the batch passes through satisfies \<open>fits\<close>.\<close>

primrec all_fit :: "('s \<Rightarrow> bool) \<Rightarrow> ('k \<Rightarrow> 'v \<Rightarrow> ('s, 'r) exec) \<Rightarrow> ('k \<times> 'v) list \<Rightarrow> 's \<Rightarrow> bool" where
  "all_fit fits put [] s = True"
| "all_fit fits put (kv # kvs) s =
     (fits s \<and> (case put (fst kv) (snd kv) s of Inl e \<Rightarrow> True | Inr (r, s') \<Rightarrow> all_fit fits put kvs s'))"

lemma upd_add_map_of:
  assumes "k \<notin> fst ` set kvs"
  shows "m(k \<mapsto> v) ++ map_of kvs = m ++ map_of ((k, v) # kvs)"
  using assms by (simp add: map_add_upd_left dom_map_of_conv_image_fst)

lemma map_le_add:
  assumes "f \<subseteq>\<^sub>m g"
  shows "f ++ l \<subseteq>\<^sub>m g ++ l"
  unfolding map_le_def
proof
  fix a assume a: "a \<in> dom (f ++ l)"
  show "(f ++ l) a = (g ++ l) a"
  proof (cases "l a")
    case None
    then have "a \<in> dom f"
      using a by (auto simp: map_add_def)
    then show ?thesis
      using None assms by (simp add: map_add_def map_le_def)
  qed (simp add: map_add_def)
qed

locale kv_table =
  fixes ok :: "'s \<Rightarrow> bool" and abs_map :: "'s \<Rightarrow> 'k \<Rightarrow> 'v option" and fits :: "'s \<Rightarrow> bool"
    and put :: "'k \<Rightarrow> 'v \<Rightarrow> ('s, 'r) exec" and get :: "'k \<Rightarrow> ('s, 'v) exec"
    and key_ok :: "'k \<Rightarrow> bool" and none :: 'v
  assumes put_ok: "ok s \<Longrightarrow> key_ok k \<Longrightarrow> fits s \<Longrightarrow> abs_map s k = None \<Longrightarrow> put k v s = Inr (r, s') \<Longrightarrow>
        ok s' \<and> abs_map s' k = Some v \<and> abs_map s' \<subseteq>\<^sub>m (abs_map s)(k \<mapsto> v)"
    and get_ok: "ok s \<Longrightarrow> key_ok k \<Longrightarrow> get k s = Inr (case abs_map s k of None \<Rightarrow> none | Some v \<Rightarrow> v, s)"
begin

lemma puts_sound:
  assumes "puts put kvs s = Inr ((), s')" "ok s" "all_fit fits put kvs s"
      and "\<And>k v. (k, v) \<in> set kvs \<Longrightarrow> key_ok k \<and> abs_map s k = None" "distinct (map fst kvs)"
  shows "ok s' \<and> abs_map s' \<subseteq>\<^sub>m abs_map s ++ map_of kvs"
  using assms
proof (induction kvs arbitrary: s)
  case Nil
  then show ?case by (simp add: ret_def)
next
  case (Cons kv kvs)
  obtain k v where kv: "kv = (k, v)" by fastforce
  obtain r s1 where s1: "put k v s = Inr (r, s1)" "puts put kvs s1 = Inr ((), s')"
    using Cons.prems(1) by (auto simp: kv seq_def bnd_def split: sum.splits)
  have fit: "key_ok k" "fits s" "abs_map s k = None"
    using Cons.prems(3) Cons.prems(4) [of k v] by (auto simp: kv)
  have step: "ok s1" "abs_map s1 k = Some v" "abs_map s1 \<subseteq>\<^sub>m (abs_map s)(k \<mapsto> v)"
    using put_ok [OF Cons.prems(2) fit s1(1)] by simp_all
  have "key_ok k' \<and> abs_map s1 k' = None" if "(k', v') \<in> set kvs" for k' v'
  proof -
    have "k' \<noteq> k"
      using Cons.prems(5) that by (force simp: kv)
    then have "((abs_map s)(k \<mapsto> v)) k' = None"
      using Cons.prems(4) [of k' v'] that by simp
    then show ?thesis
      using map_le_implies_dom_le [OF step(3)] Cons.prems(4) [of k' v'] that
      by (auto simp: domIff)
  qed
  then have IH: "ok s'" "abs_map s' \<subseteq>\<^sub>m abs_map s1 ++ map_of kvs"
    using Cons.IH [OF s1(2) step(1)] Cons.prems(3,5) s1(1) by (auto simp: kv)
  have "abs_map s1 ++ map_of kvs \<subseteq>\<^sub>m abs_map s ++ map_of (kv # kvs)"
    using map_le_add [OF step(3), of "map_of kvs"] upd_add_map_of [of k kvs] Cons.prems(5) by (simp add: kv)
  then show ?case
    using IH map_le_trans by blast
qed

text \<open>Searching the batch returns, leaves the table alone and never returns the value of another
  key: what it counts are the keys that were forgotten.\<close>

lemma count_failed_run:
  assumes "ok s" "\<And>k v. (k, v) \<in> set kvs \<Longrightarrow> key_ok k \<and> v \<noteq> none"
      and "abs_map s \<subseteq>\<^sub>m m" "\<And>k v. (k, v) \<in> set kvs \<Longrightarrow> m k = Some v"
  shows "count_failed get kvs n s = Inr (n + length (filter (\<lambda>kv. abs_map s (fst kv) = None) kvs), s)"
  using assms(2,4)
proof (induction kvs arbitrary: n)
  case Nil
  then show ?case by (simp add: ret_def)
next
  case (Cons kv kvs)
  obtain k v where kv: "kv = (k, v)" by fastforce
  have k: "key_ok k" "v \<noteq> none" "m k = Some v"
    using Cons.prems [of k v] by (auto simp: kv)
  have le: "abs_map s k = None \<or> abs_map s k = Some v"
    using assms(3) k(3) unfolding map_le_def by (metis domIff)
  have IH: "count_failed get kvs n' s = Inr (n' + length (filter (\<lambda>kv. abs_map s (fst kv) = None) kvs), s)" for n'
    by (rule Cons.IH) (use Cons.prems in auto)
  show ?case
    using le k(2) by (auto simp: kv bnd_def get_ok [OF assms(1) k(1)] IH)
qed

end

locale kv_exact = kv_table +
  assumes put_exact: "ok s \<Longrightarrow> key_ok k \<Longrightarrow> fits s \<Longrightarrow> abs_map s k = None \<Longrightarrow> put k v s = Inr (r, s') \<Longrightarrow>
        abs_map s' = (abs_map s)(k \<mapsto> v)"
begin

lemma puts_exact:
  assumes "puts put kvs s = Inr ((), s')" "ok s" "all_fit fits put kvs s"
      and "\<And>k v. (k, v) \<in> set kvs \<Longrightarrow> key_ok k \<and> abs_map s k = None" "distinct (map fst kvs)"
  shows "abs_map s' = abs_map s ++ map_of kvs"
  using assms
proof (induction kvs arbitrary: s)
  case Nil
  then show ?case by (simp add: ret_def)
next
  case (Cons kv kvs)
  obtain k v where kv: "kv = (k, v)" by fastforce
  obtain r s1 where s1: "put k v s = Inr (r, s1)" "puts put kvs s1 = Inr ((), s')"
    using Cons.prems(1) by (auto simp: kv seq_def bnd_def split: sum.splits)
  have fit: "key_ok k" "fits s" "abs_map s k = None"
    using Cons.prems(3) Cons.prems(4) [of k v] by (auto simp: kv)
  have m1: "abs_map s1 = (abs_map s)(k \<mapsto> v)"
    by (rule put_exact [OF Cons.prems(2) fit s1(1)])
  have "ok s1"
    using put_ok [OF Cons.prems(2) fit s1(1)] by simp
  moreover have "k \<notin> fst ` set kvs"
    using Cons.prems(5) by (simp add: kv)
  moreover have "abs_map s1 k' = None" if "(k', v') \<in> set kvs" for k' v'
    using that Cons.prems(4) [of k' v'] calculation(2) by (force simp: m1 kv)
  moreover have "key_ok k'" if "(k', v') \<in> set kvs" for k' v'
    using that Cons.prems(4) [of k' v'] by simp
  ultimately have "abs_map s' = abs_map s1 ++ map_of kvs"
    using Cons.IH [OF s1(2)] Cons.prems(3,5) s1(1) by (auto simp: kv)
  also have "\<dots> = abs_map s ++ map_of (kv # kvs)"
    using Cons.prems(5) upd_add_map_of [of k kvs] by (simp add: m1 kv)
  finally show ?case .
qed

text \<open>Nothing the batch stored is missing afterwards.\<close>

lemma batch_found:
  assumes "puts put kvs s = Inr ((), s')" "ok s" "all_fit fits put kvs s"
      and "\<And>k v. (k, v) \<in> set kvs \<Longrightarrow> key_ok k \<and> abs_map s k = None \<and> v \<noteq> none" "distinct (map fst kvs)"
  shows "count_failed get kvs 0 s' = Inr (0, s')"
proof -
  have keys: "key_ok k \<and> abs_map s k = None" if "(k, v) \<in> set kvs" for k v
    using assms(4) that by blast
  have m: "abs_map s' = abs_map s ++ map_of kvs"
    by (rule puts_exact [OF assms(1-3) keys assms(5)])
  have "ok s'"
    using puts_sound [OF assms(1-3) keys assms(5)] by simp
  moreover have found: "abs_map s' k = Some v" if "(k, v) \<in> set kvs" for k v
    using that assms(5) by (simp add: m)
  ultimately have "count_failed get kvs 0 s' = Inr (0 + length (filter (\<lambda>kv. abs_map s' (fst kv) = None) kvs), s')"
    by (intro count_failed_run [where m = "abs_map s'"]) (use assms(4) in auto)
  moreover have "filter (\<lambda>kv. abs_map s' (fst kv) = None) kvs = []"
    using found by (auto simp: filter_empty_conv)
  ultimately show ?thesis
    by simp
qed

end

end
