(* ===== verification/ClhtOps.thy ===== *)
theory ClhtOps
  imports ClhtResize KvTable
begin

text \<open>
  The operations of P-CLHT against the finite map they implement, with the memory images a crash
  can leave behind.
\<close>

section \<open>Insertion into a full chain\<close>

lemma put_full:
  assumes h: "ht_ok h" "unlocked h" and key: "key \<noteq> 0" "clht_map h key = None" "bin = clht_hash h key"
    and slot: "first_free 0 (table h ! bin) = None"
    and h2: "h2 = grown bin (fill 0 key v (new_bucket x)) (locked_bin bin h)"
  shows "clht_map h2 = (clht_map h)(key \<mapsto> v)" "ht_ok (released_bin bin h2)" "unlocked (released_bin bin h2)"
    "clht_map (released_bin bin h2) = (clht_map h)(key \<mapsto> v)"
    "length (entries (released_bin bin h2)) = Suc (length (entries h))"
    "expands_total (released_bin bin h2) = Suc (expands_total h)" "ht_ok h2" "3 \<le> length (entries h)"
proof -
  have bin: "bin < num_buckets h" "length (table h) = num_buckets h"
    using ht_ok_bin[OF h(1)] key(3) h(1) by (simp_all add: ht_ok_def)
  note l = set_lock_same[OF h(1) bin(1), of LOCK_UPDATE]
  note n = fill_new_bucket[OF key(1), of v LOCK_FREE x x x, folded new_bucket_def]
  have k: "bin = clht_hash (locked_bin bin h) key" "clht_map (locked_bin bin h) key = None"
    using key l(2) by simp_all
  note g = grown_ok[OF l(1) k n, folded h2]
  show "clht_map h2 = (clht_map h)(key \<mapsto> v)" "ht_ok h2" using g(1,2) l(2) by simp_all
  have nb: "num_buckets h2 = num_buckets h" by (simp add: h2)
  note r = set_lock_same[OF g(1), of bin LOCK_FREE, unfolded nb, OF bin(1)]
  show "ht_ok (released_bin bin h2)" "clht_map (released_bin bin h2) = (clht_map h)(key \<mapsto> v)"
    using r g(2) l(2) by simp_all
  have "mset (entries (released_bin bin h2)) = add_mset (key, v) (mset (entries h))" using r(3) g(3) l(3) by simp
  from arg_cong[OF this, of size] show "length (entries (released_bin bin h2)) = Suc (length (entries h))" by simp
  show "expands_total (released_bin bin h2) = Suc (expands_total h)" using g(4) by simp
  have c: "bin_ok h bin (table h ! bin)" using ht_ok_chain[OF h(1) bin(1)] .
  have "table h2 ! bin \<noteq> []" using ht_ok_chain[OF g(1)] bin nb by (auto simp: bin_ok_def)
  moreover have "locks_of h2 = (locks_of h)[bin := LOCK_UPDATE]"
    using g(5) bin c by (simp add: locks_set bin_ok_def)
  ultimately show "unlocked (released_bin bin h2)"
    using relock_unlocked[OF h bin(1) nb, of LOCK_UPDATE] by (simp add: h2)
  have "3 * length (table h ! bin) = length (chain_entries (table h ! bin))"
    using no_free_slot[OF _ slot] c by (simp add: bin_ok_def)
  moreover have "0 < length (table h ! bin)" using c by (simp add: bin_ok_def)
  moreover have "length (chain_entries (table h ! bin)) \<le> length (entries h)"
    using mset_entries_set_chain[of bin h "[]"] bin by (metis (no_types, lifting) chain_entries_Cons(2)
      add.right_neutral mset.simps(1) le_add2 size_mset size_union)
  ultimately show "3 \<le> length (entries h)" by linarith
qed

definition crash_safe :: "clht \<Rightarrow> clht \<Rightarrow> bool" where
  "crash_safe s s' \<longleftrightarrow> (\<exists>ims. images s' = images s @ ims \<and>
     (\<forall>h \<in> set ims. clht_map h = clht_map (ht s) \<or> clht_map h = clht_map (ht s')))"

lemma put_full_run:
  assumes ok: "clht_ok s" and key: "key \<noteq> 0" "clht_map (ht s) key = None"
    and slot: "first_free 0 (table (ht s) ! clht_hash (ht s) key) = None"
    and small: "num_buckets (ht s) < 2 ^ 31" "length (entries (ht s)) + 1 < 2 ^ 31"
    and room: "length (entries (ht s)) + 4 \<le> room s"
  shows "\<exists>s'. clht_put (Suc fuel) key v s = Inr (True, s') \<and> clht_ok s'
     \<and> clht_map (ht s') = (clht_map (ht s))(key \<mapsto> v) \<and> crash_safe s s'"
proof -
  let ?h = "ht s" and ?bin = "clht_hash (ht s) key"
  define h2 where "h2 = grown ?bin (fill 0 key v (new_bucket (junk s))) (locked_bin ?bin ?h)"
  define s3 where "s3 = s\<lparr>ht := locked_bin ?bin ?h\<rparr>\<lparr>room := room s - 1\<rparr>\<lparr>images := images s @ [h2], ht := released_bin ?bin h2\<rparr>"
  have h: "ht_ok ?h" "unlocked ?h" "expands_total ?h < num_buckets ?h" using ok by (simp_all add: clht_ok_def)
  note f = put_full[OF h(1,2) key refl slot h2_def]
  have x: "expands_total h2 < 2 ^ 32" "expands_total h2 = Suc (expands_total ?h)" "num_buckets h2 = num_buckets ?h"
    using f(6) h(3) small(1) by (simp_all add: h2_def)
  have run: "clht_put (Suc fuel) key v s = (if num_buckets ?h \<le> Suc (expands_total ?h)
      then seq (ht_status (Suc fuel) True False) (ret True) s3 else Inr (True, s3))"
  proof -
    define s1 where "s1 = s\<lparr>ht := locked_bin ?bin ?h\<rparr>"
    define s2 where "s2 = s1\<lparr>room := room s1 - 1\<rparr>\<lparr>ht := (ht s1)\<lparr>num_expands := num_expands (ht s1) + 1\<rparr>\<rparr>"
    have len: "length (table ?h) = num_buckets ?h" using h(1) by (simp add: ht_ok_def)
    have absent: "\<not> bucket_exists key (table ?h ! ?bin)" using bucket_exists_own[OF h(1) key(1)] key(2) by simp
    have scan: "put_scan key 0 None (table ?h ! ?bin) = Full" using put_scan_free[OF absent, of 0] slot by simp
    have lk: "seq (lock_acq_chk_resize ?bin) k s = k s1" for k :: "(clht, bool) exec"
      using lock_acq_run[OF h(2) ht_ok_bin[OF h(1)] len] by (simp add: seq_Inr s1_def)
    have "num_expands_threshold (ht s2) = num_expands_threshold h2" "num_expands (ht s2) = num_expands h2"
      by (simp_all add: h2_def s2_def s1_def)
    then have flag: "num_expands_threshold (ht s2) \<le> num_expands (ht s2) \<longleftrightarrow> num_buckets ?h \<le> Suc (expands_total ?h)"
      using expands_reached[OF f(7) x(1)] by (simp add: x)
    have cr: "bnd (clht_bucket_create_stats ht ht_update) k s1 =
        k (Some (new_bucket (junk s)), num_expands_threshold (ht s2) \<le> num_expands (ht s2)) s2"
      for k :: "bucket option \<times> bool \<Rightarrow> (clht, bool) exec"
      using room by (simp add: clht_bucket_create_stats_def bnd_def seq_def clht_bucket_create_run modify_apply
          gets_apply ret_apply s1_def s2_def comp_def)
    have st: "seq (store_next ?bin (fill 0 key v (new_bucket (junk s)))) (seq (lock_rls ?bin) k) s2 = k s3"
      for k :: "(clht, bool) exec"
      by (simp add: store_next_def lock_rls_def seq_def bnd_def persist_run set_lock_run s3_def s2_def s1_def h2_def grown_def)
    show ?thesis
      by (simp only: clht_put_def bnd_pure(1) Let_def bnd_Inr[of "read_bin ?h ?bin", OF read_own_bin[OF h(1)]]
          absent if_False lk scan scan.case cr prod.case option.case st flag) (simp add: ret_apply)
  qed
  have s3: "ht s3 = released_bin ?bin h2" "images s3 = images s @ [h2]" "room s3 = room s - 1"
    "resize_lock s3 = resize_lock s" "status_lock s3 = status_lock s" by (simp_all add: s3_def)
  show ?thesis
  proof (cases "num_buckets ?h \<le> Suc (expands_total ?h)")
    case False
    then have "clht_ok s3" using f x ok by (simp add: clht_ok_def s3)
    with False run f show ?thesis by (intro exI[of _ s3]) (simp add: s3 crash_safe_def)
  next
    case True
    have "\<exists>s'. ht_status (Suc fuel) True False s3 = Inr (clht_size (ht s3), s') \<and> clht_ok s'
     \<and> clht_map (ht s') = clht_map (ht s3) \<and> length (entries (ht s')) = length (entries (ht s3))
     \<and> (images s' = images s3 \<or> images s' = images s3 @ [ht s'])"
      by (rule status_run) (use f x ok h small room in \<open>auto simp: s3 clht_ok_def\<close>)
    then obtain s' where s': "ht_status (Suc fuel) True False s3 = Inr (clht_size (ht s3), s')" "clht_ok s'"
      "clht_map (ht s') = clht_map (ht s3)" "images s' = images s3 \<or> images s' = images s3 @ [ht s']" by blast
    then have "clht_put (Suc fuel) key v s = Inr (True, s')" using run True by (simp add: seq_Inr ret_apply)
    with s' f show ?thesis by (intro exI[of _ s']) (auto simp: s3 crash_safe_def)
  qed
qed

lemma put_slot_run:
  assumes ok: "clht_ok s" and key: "key \<noteq> 0" "clht_map (ht s) key = None"
    and slot: "first_free 0 (table (ht s) ! clht_hash (ht s) key) = Some (i, j)"
  shows "\<exists>s'. clht_put fuel key v s = Inr (True, s') \<and> clht_ok s'
     \<and> clht_map (ht s') = (clht_map (ht s))(key \<mapsto> v) \<and> crash_safe s s'"
proof -
  let ?h = "ht s" and ?bin = "clht_hash (ht s) key"
  define h2 where "h2 = upd_bucket ?bin i (\<lambda>b. b\<lparr>b_val := (b_val b)[j := v]\<rparr>) (locked_bin ?bin ?h)"
  define h3 where "h3 = upd_bucket ?bin i (\<lambda>b. b\<lparr>b_key := (b_key b)[j := key]\<rparr>) h2"
  define s1 where "s1 = s\<lparr>ht := locked_bin ?bin ?h\<rparr>"
  define s4 where "s4 = s1\<lparr>images := images s @ [h2, h3], ht := released_bin ?bin h3\<rparr>"
  have h: "ht_ok ?h" "unlocked ?h" "expands_total ?h < num_buckets ?h" "length (table ?h) = num_buckets ?h"
    using ok by (simp_all add: clht_ok_def ht_ok_def)
  note f = put_slot[OF h(1,2) key refl slot h2_def h3_def]
  have absent: "\<not> bucket_exists key (table ?h ! ?bin)" using bucket_exists_own[OF h(1) key(1)] key(2) by simp
  have scan: "put_scan key 0 None (table ?h ! ?bin) = Slot i j" using put_scan_free[OF absent, of 0] slot by simp
  have lk: "seq (lock_acq_chk_resize ?bin) k s = k s1" for k :: "(clht, bool) exec"
    using lock_acq_run[OF h(2) ht_ok_bin[OF h(1)] h(4)] by (simp add: seq_Inr s1_def)
  have st: "seq (store_val ?bin i j v) (seq (store_key ?bin i j key) (seq (lock_rls ?bin) k)) s1 = k s4"
    for k :: "(clht, bool) exec"
    by (simp add: store_val_def store_key_def lock_rls_def seq_def bnd_def persist_run set_lock_run s4_def s1_def h2_def h3_def)
  have "clht_put fuel key v s = Inr (True, s4)"
    by (simp only: clht_put_def bnd_pure(1) Let_def bnd_Inr[of "read_bin ?h ?bin", OF read_own_bin[OF h(1)]]
          absent if_False lk scan scan.case st ret_apply)
  moreover have "clht_ok s4" using ok f h by (simp add: clht_ok_def s4_def s1_def h3_def h2_def)
  moreover have "crash_safe s s4" using f by (auto simp: crash_safe_def s4_def s1_def)
  ultimately show ?thesis using f by (intro exI[of _ s4]) (simp add: s4_def s1_def)
qed

section \<open>Creation\<close>

lemma fresh_clht_ok:
  assumes "0 < n" "n < 2 ^ 32" "ht s = fresh_table n w" "\<not> resize_lock s" "\<not> status_lock s"
  shows "clht_ok s" "clht_map (ht s) = Map.empty" "entries (ht s) = []"
proof -
  have b: "building (ht s)" "entries (ht s) = []" using fresh_table_ok[OF assms(1,2)] assms(3) by simp_all
  then have "expands_total (ht s) = 0" using packed_expands[of "ht s"] by (simp add: building_def ht_ok_def)
  with b assms show "clht_ok s" "clht_map (ht s) = Map.empty" "entries (ht s) = []"
    by (simp_all add: clht_ok_def building_def clht_map_def fresh_table_def)
qed

lemma clht_create_ok:
  assumes "0 < n" "n < 2 ^ 32" "3 \<le> room s"
  shows "\<exists>s'. clht_create n s = Inr (True, s') \<and> clht_ok s' \<and> clht_map (ht s') = Map.empty \<and> room s' = room s - 3
     \<and> num_buckets (ht s') = n"
proof -
  have c: "clht_hashtable_create n (s\<lparr>room := room s - 1\<rparr>) = Inr (Some (fresh_table n 0), s\<lparr>room := room s - 3\<rparr>)"
    using create_run[OF assms(1,2), of "s\<lparr>room := room s - 1\<rparr>"] assms(3) by (simp add: numeral_3_eq_3)
  define s' where "s' = s\<lparr>room := room s - 3, ht := fresh_table n 0, table_prev := [], version_min := 0, resize_lock := False,
                 gc_lock := False, status_lock := False, images := [fresh_table n 0]\<rparr>"
  have "clht_create n s = Inr (True, s')"
    using assms(3) c by (simp add: clht_create_def exec_simps s'_def)
  moreover have "clht_ok s' \<and> clht_map (ht s') = Map.empty"
    using fresh_clht_ok[OF assms(1,2), of s' 0] by (simp add: s'_def)
  ultimately show ?thesis by (intro exI[of _ s']) (simp add: s'_def fresh_table_def)
qed

text \<open>Dividing the seven buckets of a table with one entry by eight leaves none.\<close>

lemma status_halves_to_nothing:
  assumes "clht_ok s" "num_buckets (ht s) = 7" "clht_size (ht s) = 1"
  shows "ht_status (Suc fuel) inc False s = Inl NullDeref"
proof -
  have "int_range (int (expands_total (ht s)))" using assms by (simp add: clht_ok_def int_range_defs)
  moreover have "ratio_above 0 1 21" "ratio_below 5 1 21" by (simp_all add: ratio_above_def ratio_below_def)
  ultimately show ?thesis
    using assms
    by (simp add: bnd_def seq_def gets_apply modify_apply cint_ok Let_def ht_resize_pes_def clht_ok_def
        clht_hashtable_create_def ret_apply raise_apply)
qed

lemma put_run:
  assumes "clht_ok s" and "key \<noteq> 0" and "num_buckets (ht s) < 2 ^ 31" and "clht_size (ht s) + 1 < 2 ^ 31"
    and "clht_size (ht s) + 4 \<le> room s"
  shows "\<exists>s'. clht_put (Suc fuel) key v s = Inr (clht_map (ht s) key = None, s') \<and> clht_ok s'
     \<and> clht_map (ht s') = (if clht_map (ht s) key = None then (clht_map (ht s))(key \<mapsto> v) else clht_map (ht s))
     \<and> crash_safe s s'"
proof -
  have h: "ht_ok (ht s)" using assms(1) by (simp add: clht_ok_def)
  note sz = clht_size_entries[OF h]
  show ?thesis
  proof (cases "clht_map (ht s) key")
    case None
    show ?thesis
    proof (cases "first_free 0 (table (ht s) ! clht_hash (ht s) key)")
      case None
      from put_full_run[OF assms(1,2) \<open>clht_map (ht s) key = None\<close> None assms(3), of fuel v] assms(4,5) sz
      show ?thesis using \<open>clht_map (ht s) key = None\<close> by auto
    next
      case (Some ij)
      then obtain i j where "first_free 0 (table (ht s) ! clht_hash (ht s) key) = Some (i, j)" by (cases ij) simp
      from put_slot_run[OF assms(1,2) None this, of "Suc fuel" v] None show ?thesis by auto
    qed
  next
    case (Some w)
    then have "bucket_exists key (table (ht s) ! clht_hash (ht s) key)" using bucket_exists_own[OF h assms(2)] by simp
    then have "clht_put (Suc fuel) key v s = Inr (False, s)"
      by (simp add: clht_put_def Let_def bnd_pure(1) bnd_Inr[of "read_bin (ht s) _", OF read_own_bin[OF h]] ret_apply)
    with Some assms(1) show ?thesis by (intro exI[of _ s]) (simp add: crash_safe_def)
  qed
qed

section \<open>The contract towards the driver\<close>

text \<open>Room for one more key: the counters of \<^verbatim>\<open>ht_status\<close> and of a resize stay in range.\<close>

definition clht_fits :: "clht \<Rightarrow> bool" where
  "clht_fits s \<longleftrightarrow> num_buckets (ht s) < 2 ^ 31 \<and> clht_size (ht s) + 1 < 2 ^ 31 \<and> clht_size (ht s) + 4 \<le> room s"

interpretation clht_kv: kv_exact clht_ok "\<lambda>s. clht_map (ht s)" clht_fits "clht_put 1"
    "\<lambda>k s. clht_get (ht s) k s" "\<lambda>k. k \<noteq> 0" 0
proof
  show "clht_ok s' \<and> clht_map (ht s') k = Some v \<and> clht_map (ht s') \<subseteq>\<^sub>m (clht_map (ht s))(k \<mapsto> v)"
    "clht_map (ht s') = (clht_map (ht s))(k \<mapsto> v)"
    if "clht_ok s" "k \<noteq> 0" "clht_fits s" "clht_map (ht s) k = None" "clht_put 1 k v s = Inr (r, s')" for s k v r s'
    using put_run [of s k 0 v] that by (auto simp: clht_fits_def)
  show "clht_get (ht s) k s = Inr (case clht_map (ht s) k of None \<Rightarrow> 0 | Some v \<Rightarrow> v, s)"
    if "clht_ok s" "k \<noteq> 0" for s k
    using that by (intro clht_get_map) (simp_all add: clht_ok_def)
qed

section \<open>Properties\<close>

text \<open>C5: Inserting a non-zero key into a well-formed table of P-CLHT returns, says whether the key was
absent, adds the entry exactly in that case and leaves the table well formed, whether the entry goes into a
free slot, into a new bucket, or makes the table resize (one level of \<^verbatim>\<open>ht_status\<close> is always
enough). Every memory image between its persistent stores, the swap of a resized table included,
represents the map before or after the insertion.\<close>

theorem clht_put_ok:
  assumes "clht_ok s" and "key \<noteq> 0" and "num_buckets (ht s) < 2 ^ 31" and "clht_size (ht s) + 1 < 2 ^ 31"
    and "clht_size (ht s) + 4 \<le> room s"
  shows "\<exists>s'. clht_put (Suc fuel) key v s = Inr (clht_map (ht s) key = None, s') \<and> clht_ok s'
     \<and> clht_map (ht s') = (if clht_map (ht s) key = None then (clht_map (ht s))(key \<mapsto> v) else clht_map (ht s))
     \<and> crash_safe s s'"
  using assms by (rule put_run)


text \<open>C6: Removing a non-zero key from a well-formed table returns the value stored under the key, or 0 when
it is absent, and removes exactly that entry; afterwards a lookup of the key returns 0 and a lookup of any other
key what it returned before. Every memory image between its persistent stores represents the map before or after.\<close>

theorem clht_remove_ok:
  assumes "clht_ok s" and "key \<noteq> 0"
  shows "\<exists>s'. clht_remove key s = Inr (case clht_map (ht s) key of None \<Rightarrow> 0 | Some v \<Rightarrow> v, s') \<and> clht_ok s'
     \<and> clht_map (ht s') = (clht_map (ht s))(key := None) \<and> crash_safe s s'
     \<and> (\<forall>k. k \<noteq> 0 \<longrightarrow> clht_get (ht s') k s' =
          Inr (if k = key then 0 else case clht_map (ht s) k of None \<Rightarrow> 0 | Some v \<Rightarrow> v, s'))"
proof -
  let ?h = "ht s" and ?bin = "clht_hash (ht s) key"
  have h: "ht_ok ?h" "unlocked ?h" "length (table ?h) = num_buckets ?h"
    using assms(1) by (simp_all add: clht_ok_def ht_ok_def)
  have "\<exists>s'. clht_remove key s = Inr (case clht_map ?h key of None \<Rightarrow> 0 | Some v \<Rightarrow> v, s') \<and> clht_ok s'
     \<and> clht_map (ht s') = (clht_map ?h)(key := None) \<and> crash_safe s s'"
  proof (cases "find_entry key 0 (table ?h ! ?bin)")
    case None
    then have e: "\<not> bucket_exists key (table ?h ! ?bin)" by (simp add: find_entry_None)
    then have "clht_map ?h key = None" using bucket_exists_own[OF h(1) assms(2)] by simp
    moreover from e have "clht_remove key s = Inr (0, s)"
      by (simp add: clht_remove_def Let_def bnd_pure(1) bnd_Inr[of "read_bin ?h _", OF read_own_bin[OF h(1)]] ret_apply)
    ultimately show ?thesis using assms(1) by (intro exI[of _ s]) (auto simp: crash_safe_def)
  next
    case (Some ij)
    then obtain i j where ij: "find_entry key 0 (table ?h ! ?bin) = Some (i, j)" by (cases ij) simp
    then have e: "bucket_exists key (table ?h ! ?bin)" by (metis find_entry_None option.distinct(1))
    define h3 where "h3 = upd_bucket ?bin i (\<lambda>b. b\<lparr>b_key := (b_key b)[j := 0]\<rparr>) (locked_bin ?bin ?h)"
    define s1 where "s1 = s\<lparr>ht := locked_bin ?bin ?h\<rparr>"
    define s4 where "s4 = s1\<lparr>images := images s @ [h3], ht := released_bin ?bin h3\<rparr>"
    note f = remove_slot[OF h(1,2) assms(2) refl ij h3_def]
    have lk: "seq (lock_acq_chk_resize ?bin) k s = k s1" for k :: "(clht, 64 word) exec"
      using lock_acq_run[OF h(2) ht_ok_bin[OF h(1)] h(3)] by (simp add: seq_Inr s1_def)
    have st: "seq (store_key ?bin i j 0) (seq (lock_rls ?bin) k) s1 = k s4" for k :: "(clht, 64 word) exec"
      by (simp add: store_key_def lock_rls_def seq_def bnd_def persist_run set_lock_run s4_def s1_def h3_def)
    have "clht_remove key s = Inr (b_val (table ?h ! ?bin ! i) ! j, s4)"
      by (simp only: clht_remove_def bnd_pure(1) Let_def bnd_Inr[of "read_bin ?h ?bin", OF read_own_bin[OF h(1)]]
          e not_True_eq_False if_False lk ij option.case prod.case st ret_apply)
    moreover have "clht_ok s4" using assms(1) f by (simp add: clht_ok_def s4_def s1_def h3_def)
    moreover have "crash_safe s s4" using f by (auto simp: crash_safe_def s4_def s1_def)
    ultimately show ?thesis using f by (intro exI[of _ s4]) (simp add: s4_def s1_def)
  qed
  then obtain s' where s': "clht_remove key s = Inr (case clht_map ?h key of None \<Rightarrow> 0 | Some v \<Rightarrow> v, s')"
    "clht_ok s'" "clht_map (ht s') = (clht_map ?h)(key := None)" "crash_safe s s'" by blast
  then have "ht_ok (ht s')" by (simp add: clht_ok_def)
  with s' show ?thesis by (intro exI[of _ s']) (auto simp: clht_get_map)
qed

text \<open>C7: \<^verbatim>\<open>ht_status\<close> on a well-formed table returns after at most one resize, whatever the
occupancy, reports the number of entries, keeps the map and leaves the table well formed; a resized table is never
resized again, because the growth factor is at least the one its entries need. The only exception is a table of
seven buckets with a single entry: it is halved to no bucket at all and the missing table is dereferenced.\<close>

theorem ht_status_ok:
  assumes "clht_ok s" and "num_buckets (ht s) < 2 ^ 31" and "clht_size (ht s) < 2 ^ 31"
    and "clht_size (ht s) + 2 \<le> room s"
  shows "if num_buckets (ht s) = 7 \<and> clht_size (ht s) = 1
     then ht_status (Suc fuel) inc False s = Inl NullDeref
     else \<exists>s'. ht_status (Suc fuel) inc False s = Inr (clht_size (ht s), s') \<and> clht_ok s'
       \<and> clht_map (ht s') = clht_map (ht s) \<and> clht_size (ht s') = clht_size (ht s)"
proof (cases "num_buckets (ht s) = 7 \<and> clht_size (ht s) = 1")
  case True
  then show ?thesis using status_halves_to_nothing[OF assms(1)] by simp
next
  case False
  have ok: "ht_ok (ht s)" using assms(1) by (simp add: clht_ok_def)
  note sz = clht_size_entries[OF ok]
  have "\<exists>s'. ht_status (Suc fuel) inc False s = Inr (clht_size (ht s), s') \<and> clht_ok s'
     \<and> clht_map (ht s') = clht_map (ht s) \<and> length (entries (ht s')) = length (entries (ht s))
     \<and> (images s' = images s \<or> images s' = images s @ [ht s'])"
    by (rule status_run) (use assms sz False in \<open>auto simp: clht_ok_def\<close>)
  then show ?thesis using False sz by (auto simp: clht_size_entries clht_ok_def)
qed

section \<open>Witnesses\<close>

definition clht_example :: "nat \<Rightarrow> clht" where
  "clht_example n = \<lparr>cells = Map.empty, fresh = 1, room = 100, junk = 9, locks = (\<lambda>_. Uninit), out = [],
     ht = fresh_table n 0, table_tmp = fresh_table n 0, table_prev = [], version_min = 0, resize_lock = False,
     gc_lock = False, status_lock = False, images = []\<rparr>"

lemma clht_example_ok:
  assumes "0 < n" "n < 2 ^ 32"
  shows "clht_ok (clht_example n)" "clht_map (ht (clht_example n)) = Map.empty" "clht_size (ht (clht_example n)) = 0"
    "num_buckets (ht (clht_example n)) = n" "room (clht_example n) = 100"
proof -
  show ok: "clht_ok (clht_example n)" "clht_map (ht (clht_example n)) = Map.empty"
    using fresh_clht_ok[OF assms, of "clht_example n" 0] by (simp_all add: clht_example_def)
  show "clht_size (ht (clht_example n)) = 0"
    using clht_size_entries[of "ht (clht_example n)"] fresh_clht_ok(3)[OF assms, of "clht_example n" 0] ok(1)
    by (simp add: clht_ok_def clht_example_def)
  show "num_buckets (ht (clht_example n)) = n" "room (clht_example n) = 100"
    by (simp_all add: clht_example_def fresh_table_def)
qed

lemma clht_example_entry: "\<exists>s. clht_ok s \<and> clht_map (ht s) = [5 \<mapsto> 7] \<and> num_buckets (ht s) = 7 \<and> clht_size (ht s) = 1 \<and> room s = 100"
proof -
  let ?h = "fresh_table 7 0"
  define h2 where "h2 = upd_bucket 4 0 (fill 0 5 7) ?h"
  define s where "s = (clht_example 7)\<lparr>ht := h2\<rparr>"
  have t: "building ?h" "entries ?h = []" using fresh_table_ok[of 7 0] by simp_all
  have k: "clht_hash ?h 5 = 4" by (simp add: clht_hash_def fresh_table_def)
  have c: "first_free 0 (table ?h ! clht_hash ?h 5) = Some (0, 0)"
    unfolding k by (simp add: fresh_table_def empty_bucket_def)
  have m: "clht_map ?h 5 = None" using t(2) by (simp add: clht_map_def)
  note f = fill_packed[OF t(1) _ m refl c, of 7, unfolded k, folded h2_def]
  have e: "entries h2 = [(5, 7)]" using f(2) t(2) by simp
  have ok: "ht_ok h2" "unlocked h2" "num_buckets h2 = 7" using f(1) by (simp_all add: building_def h2_def fresh_table_def)
  have "3 * expands_total h2 \<le> length (entries h2)"
    using packed_expands[of h2] f(1) by (simp add: building_def ht_ok_def)
  then have "clht_ok s" using ok e by (simp add: s_def clht_ok_def clht_example_def)
  then show ?thesis
    using e ok clht_size_entries[OF ok(1)] by (intro exI[of _ s]) (simp add: s_def clht_map_def clht_example_def)
qed

theorem clht_put_ok_witness: "\<exists>s'. clht_put 1 5 7 (clht_example 4) = Inr (True, s') \<and> clht_map (ht s') = [5 \<mapsto> 7]"
  using clht_put_ok[of "clht_example 4" 5 0 7] clht_example_ok[of 4] by auto


theorem clht_remove_ok_witness: "\<exists>s s'. clht_ok s \<and> clht_remove 5 s = Inr (7, s') \<and> clht_map (ht s') = Map.empty"
proof -
  obtain s where s: "clht_ok s" "clht_map (ht s) = [5 \<mapsto> 7]" using clht_example_entry by blast
  have "(5 :: 64 word) \<noteq> 0" by simp
  from clht_remove_ok[OF s(1) this] s show ?thesis by auto
qed

theorem ht_status_ok_witness: "\<exists>s. clht_ok s \<and> clht_map (ht s) = [5 \<mapsto> 7] \<and> ht_status 1 False False s = Inl NullDeref"
proof -
  obtain s where s: "clht_ok s" "clht_map (ht s) = [5 \<mapsto> 7]" "num_buckets (ht s) = 7" "clht_size (ht s) = 1" "room s = 100"
    using clht_example_entry by blast
  with ht_status_ok[of s 0 False] show ?thesis by auto
qed

end
