(* ===== verification/CcehHash.thy ===== *)
theory CcehHash
  imports Main "HOL-Library.Word"
begin

unbundle bit_operations_syntax

text \<open>
  The hash functions of \<^verbatim>\<open>src/experiments/CCEH/src/hash.h\<close> on the bytes they read.
  \<^verbatim>\<open>std::_Hash_bytes\<close>, behind the entry \<^verbatim>\<open>standard\<close>, is an internal function of
  the C++ runtime and is the parameter \<open>hash_bytes\<close>: some function of the bytes and of the
  seed. Loads of four and eight bytes are little-endian and \<^verbatim>\<open>char\<close> is signed, as on the
  x86-64 machines the programs are compiled for.
\<close>

section \<open>Loads\<close>

primrec le_word :: "8 word list \<Rightarrow> 'a::len word" where
  "le_word [] = 0"
| "le_word (b # bs) = ucast b OR push_bit 8 (le_word bs)"

definition TO64 :: "8 word list \<Rightarrow> 64 word" where
  "TO64 p = le_word (take 8 p)"

definition TO32 :: "8 word list \<Rightarrow> 32 word" where
  "TO32 p = le_word (take 4 p)"

definition hash_read64_align :: "8 word list \<Rightarrow> 32 word \<Rightarrow> 64 word" where
  "hash_read64_align p align = (if align = 0 then TO64 p else le_word (take 8 p))"

definition hash_read32_align :: "8 word list \<Rightarrow> 32 word \<Rightarrow> 32 word" where
  "hash_read32_align p align = (if align = 0 then TO32 p else le_word (take 4 p))"

section \<open>The four hash functions\<close>

definition standard :: "(8 word list \<Rightarrow> 64 word \<Rightarrow> 64 word) \<Rightarrow> 8 word list \<Rightarrow> 64 word \<Rightarrow> 64 word" where
  "standard hash_bytes p seed = hash_bytes p seed"

definition jenkins_byte :: "64 word \<Rightarrow> 8 word \<Rightarrow> 64 word" where
  "jenkins_byte hash c =
     (let hash = hash + scast c;
          hash = hash + push_bit 10 hash
      in hash XOR drop_bit 6 hash)"

definition jenkins :: "8 word list \<Rightarrow> 64 word \<Rightarrow> 64 word" where
  "jenkins p seed =
     (let hash = foldl jenkins_byte 0 p;
          hash = hash + push_bit 3 hash;
          hash = hash XOR drop_bit 11 hash
      in hash + push_bit 15 hash)"

definition murmur2_m :: "32 word" where
  "murmur2_m = 0x5bd1e995"

fun murmur2_loop :: "8 word list \<Rightarrow> 32 word \<Rightarrow> 32 word \<times> 8 word list" where
  "murmur2_loop (a # b # c # d # p) h =
     (let k = le_word [a, b, c, d] * murmur2_m;
          k = k XOR drop_bit 24 k;
          k = k * murmur2_m
      in murmur2_loop p (h * murmur2_m XOR k))"
| "murmur2_loop p h = (h, p)"

definition murmur2_tail :: "8 word list \<Rightarrow> 32 word \<Rightarrow> 32 word" where
  "murmur2_tail p h =
     (case p of
        [a, b, c] \<Rightarrow> (((h XOR push_bit 16 (ucast c)) XOR push_bit 8 (ucast b))
                       XOR ucast a) * murmur2_m
      | [a, b] \<Rightarrow> ((h XOR push_bit 8 (ucast b)) XOR ucast a) * murmur2_m
      | [a] \<Rightarrow> (h XOR ucast a) * murmur2_m
      | _ \<Rightarrow> h)"

definition murmur2 :: "8 word list \<Rightarrow> 64 word \<Rightarrow> 64 word" where
  "murmur2 key seed =
     (let h = ucast (seed XOR of_nat (length key));
          (h, p) = murmur2_loop key h;
          h = murmur2_tail p h;
          h = h XOR drop_bit 13 h;
          h = h * murmur2_m;
          h = h XOR drop_bit 15 h
      in ucast h)"

definition NUMBER64_1 :: "64 word" where "NUMBER64_1 = 11400714785074694791"
definition NUMBER64_2 :: "64 word" where "NUMBER64_2 = 14029467366897019727"
definition NUMBER64_3 :: "64 word" where "NUMBER64_3 = 1609587929392839161"
definition NUMBER64_4 :: "64 word" where "NUMBER64_4 = 9650029242287828579"
definition NUMBER64_5 :: "64 word" where "NUMBER64_5 = 2870177450012600261"

definition shifting_hash :: "64 word \<Rightarrow> nat \<Rightarrow> 64 word" where
  "shifting_hash x r = push_bit r x OR drop_bit (64 - r) x"

definition hash_lane :: "64 word \<Rightarrow> 8 word list \<Rightarrow> 32 word \<Rightarrow> 64 word" where
  "hash_lane v p align =
     shifting_hash (v + hash_read64_align p align * NUMBER64_2) 31 * NUMBER64_1"

text \<open>The do-while loop over stripes of 32 bytes; \<^verbatim>\<open>p <= limitation\<close> says that 32 more
  bytes are left.\<close>

function hash_stripes ::
    "8 word list \<Rightarrow> 32 word \<Rightarrow> 64 word \<Rightarrow> 64 word \<Rightarrow> 64 word \<Rightarrow> 64 word
     \<Rightarrow> (64 word \<times> 64 word \<times> 64 word \<times> 64 word) \<times> 8 word list" where
  "hash_stripes p align v1 v2 v3 v4 =
     (let v1 = hash_lane v1 p align;
          v2 = hash_lane v2 (drop 8 p) align;
          v3 = hash_lane v3 (drop 16 p) align;
          v4 = hash_lane v4 (drop 24 p) align;
          q = drop 32 p
      in if 32 \<le> length q then hash_stripes q align v1 v2 v3 v4 else ((v1, v2, v3, v4), q))"
  by pat_completeness auto
termination
  by (relation "measure (\<lambda>(p, _). length p)") auto

definition hash_merge :: "64 word \<Rightarrow> 64 word \<Rightarrow> 64 word" where
  "hash_merge hash v =
     (hash XOR shifting_hash (v * NUMBER64_2) 31 * NUMBER64_1) * NUMBER64_1 + NUMBER64_4"

function hash_words :: "8 word list \<Rightarrow> 32 word \<Rightarrow> 64 word \<Rightarrow> 64 word \<times> 8 word list" where
  "hash_words p align hash =
     (if 8 \<le> length p
      then let k1 = shifting_hash (hash_read64_align p align * NUMBER64_2) 31 * NUMBER64_1;
               hash = hash XOR k1
           in hash_words (drop 8 p) align (shifting_hash hash 27 * NUMBER64_1 + NUMBER64_4)
      else (hash, p))"
  by pat_completeness auto
termination
  by (relation "measure (\<lambda>(p, _). length p)") auto

definition hash_byte :: "64 word \<Rightarrow> 8 word \<Rightarrow> 64 word" where
  "hash_byte hash b = shifting_hash (hash XOR ucast b * NUMBER64_5) 11 * NUMBER64_1"

definition hash_final :: "64 word \<Rightarrow> 64 word" where
  "hash_final hash =
     (let hash = hash XOR drop_bit 33 hash;
          hash = hash * NUMBER64_2;
          hash = hash XOR drop_bit 29 hash;
          hash = hash * NUMBER64_3
      in hash XOR drop_bit 32 hash)"

definition hash_compute :: "8 word list \<Rightarrow> 64 word \<Rightarrow> 32 word \<Rightarrow> 64 word" where
  "hash_compute input seed align =
     (let (hash, p) =
        (if 32 \<le> length input
         then let ((v1, v2, v3, v4), p) =
                    hash_stripes input align (seed + NUMBER64_1 + NUMBER64_2) (seed + NUMBER64_2)
                      (seed + 0) (seed - NUMBER64_1);
                  hash = shifting_hash v1 1 + shifting_hash v2 7 + shifting_hash v3 12
                         + shifting_hash v4 18
              in (hash_merge (hash_merge (hash_merge (hash_merge hash v1) v2) v3) v4, p)
         else (seed + NUMBER64_5, input));
        hash = hash + of_nat (length input);
        (hash, p) = hash_words p align hash;
        (hash, p) =
          (if 4 \<le> length p
           then (shifting_hash (hash XOR ucast (hash_read32_align p align) * NUMBER64_1)
                   23 * NUMBER64_2 + NUMBER64_3, drop 4 p)
           else (hash, p))
      in hash_final (foldl hash_byte hash p))"

definition xxhash :: "64 word \<Rightarrow> 8 word list \<Rightarrow> 64 word \<Rightarrow> 64 word" where
  "xxhash data p seed = (if data AND 7 = 0 then hash_compute p seed 1 else hash_compute p seed 0)"

text \<open>The table of hash functions; the address of the key only matters to \<^verbatim>\<open>xxhash\<close>.\<close>

definition hash_funcs ::
    "(8 word list \<Rightarrow> 64 word \<Rightarrow> 64 word) \<Rightarrow> (64 word \<Rightarrow> 8 word list \<Rightarrow> 64 word \<Rightarrow> 64 word) list" where
  "hash_funcs hash_bytes = [\<lambda>_. standard hash_bytes, \<lambda>_. murmur2, \<lambda>_. jenkins, xxhash]"

definition hash_h :: "(8 word list \<Rightarrow> 64 word \<Rightarrow> 64 word) \<Rightarrow> 64 word \<Rightarrow> 8 word list \<Rightarrow> 64 word" where
  "hash_h hash_bytes key p = (hash_funcs hash_bytes ! 0) key p 0xc70697"

section \<open>Facts\<close>

lemma hash_read_align [simp]:
  "hash_read64_align p align = TO64 p" "hash_read32_align p align = TO32 p"
  by (simp_all add: hash_read64_align_def hash_read32_align_def TO64_def TO32_def)

lemma hash_lane_align: "hash_lane v p a = hash_lane v p b"
  by (simp add: hash_lane_def)

lemma hash_stripes_align: "hash_stripes p a v1 v2 v3 v4 = hash_stripes p b v1 v2 v3 v4"
proof (induction p a v1 v2 v3 v4 rule: hash_stripes.induct)
  case (1 p a v1 v2 v3 v4)
  show ?case
  proof (cases "32 \<le> length (drop 32 p)")
    case True
    note * = 1 [OF refl refl refl refl refl True]
    show ?thesis
      unfolding hash_stripes.simps [of p] Let_def if_P [OF True]
      using * by (simp only: hash_lane_align [of _ _ a b])
  next
    case False
    show ?thesis
      unfolding hash_stripes.simps [of p] Let_def if_not_P [OF False] hash_lane_align [of _ _ a b]
      by (rule refl)
  qed
qed

lemma hash_words_align: "hash_words p a hash = hash_words p b hash"
proof (induction p a hash rule: hash_words.induct)
  case (1 p a hash)
  then show ?case
    by (cases "8 \<le> length p") (simp_all add: hash_words.simps [of p] Let_def)
qed

lemma hash_compute_align: "hash_compute p seed a = hash_compute p seed b"
  unfolding hash_compute_def hash_stripes_align [of _ a _ _ _ _ b] hash_words_align [of _ a _ b]
    hash_read_align
  by (rule refl)

lemma xxhash_address: "xxhash a p seed = xxhash b p seed"
  by (simp add: xxhash_def hash_compute_align [of p seed 1 0])

lemma unat_ucast_32_64: "unat (ucast (w :: 32 word) :: 64 word) < 2 ^ 32"
proof -
  have "take_bit 64 (unat w) \<le> unat w"
    by (rule take_bit_nat_less_eq_self)
  moreover have "unat w < 2 ^ LENGTH(32)"
    by (rule unsigned_less)
  ultimately have "take_bit 64 (unat w) < 2 ^ LENGTH(32)"
    by (rule le_less_trans)
  then show ?thesis
    by (simp add: unsigned_ucast_eq)
qed

lemma murmur2_bound: "unat (murmur2 key seed) < 2 ^ 32"
  unfolding murmur2_def Let_def split_beta by (rule unat_ucast_32_64)

end
