(* ===== verification/CcehModel.thy ===== *)
theory CcehModel
  imports Prelude CcehHash
begin

unbundle bit_operations_syntax

text \<open>
  The cacheline-conscious extendible hash table \<^verbatim>\<open>src/experiments/CCEH\<close>, as one thread
  executes it, in the \<^verbatim>\<open>-DINPLACE\<close> configuration that \<^verbatim>\<open>commands.sh\<close> traces.
  A persistent object id is a number and \<open>0\<close> is \<^verbatim>\<open>OID_NULL\<close>; the pool hands out a fresh
  id with unspecified contents (\<open>pool_junk\<close>) as long as \<open>pool_room\<close> bytes are left, and
  after a failed allocation the code dereferences an object id nothing was stored to, which is a fault.

  The semaphores are the \<^verbatim>\<open>int64_t\<close> counters of the source: \<open>0\<close> free, \<open>n > 0\<close> held by
  \<open>n\<close> operations, negative suspended. Nothing else runs in a sequential execution, so a loop that waits for
  a semaphore to change is divergence. \<^verbatim>\<open>RETRY\<close> of \<^verbatim>\<open>CCEH::Insert\<close>, which is also
  taken after a split, is bounded by fuel. A shift by 64 or more, which the code performs for
  depth 0, is undefined in C++ and is the fault \<open>UndefinedShift\<close>; so is a conversion of a
  power of two that does not fit (\<open>BadConversion\<close>). A directory of \<open>2 ^ 31\<close> entries
  overflows the \<^verbatim>\<open>int\<close> loop counters.
\<close>

section \<open>Data\<close>

record Pair =
  p_key :: "64 word"
  p_value :: "64 word"

record Segment =
  bucket :: "Pair list"
  sema :: int
  local_depth :: nat

record Directory =
  segment :: "nat list"
  d_sema :: int
  capacity :: nat
  depth :: nat

record cceh =
  segs :: "nat \<Rightarrow> Segment option"
  dirs :: "nat \<Rightarrow> Directory option"
  next_oid :: nat
  pool_room :: nat
  pool_junk :: "nat \<Rightarrow> 64 word"
  dir :: nat
  crashed :: bool

definition SENTINEL :: "64 word" where "SENTINEL = - 2"
definition INVALID :: "64 word" where "INVALID = - 1"
definition NONE :: "64 word" where "NONE = 0"

definition kSegmentBits :: nat where "kSegmentBits = 8"
definition kMask :: "64 word" where "kMask = push_bit kSegmentBits 1 - 1"
definition kSegmentSize :: nat where "kSegmentSize = 2 ^ kSegmentBits * 16 * 4"
definition kNumPairPerCacheLine :: nat where "kNumPairPerCacheLine = 4"
definition kNumCacheLine :: nat where "kNumCacheLine = 8"
definition kNumSlot :: nat where "kNumSlot = kSegmentSize div 16"
definition kDefaultDepth :: nat where "kDefaultDepth = 10"
definition f_seed :: "64 word" where "f_seed = 0xc70697"
definition s_seed :: "64 word" where "s_seed = 0xc70697"

text \<open>\<^verbatim>\<open>hash_funcs[0]\<close> and \<^verbatim>\<open>hash_funcs[2]\<close> on the eight bytes of a key, and the first
  slot of the two probing windows.\<close>

type_synonym hash_bytes = "8 word list \<Rightarrow> 64 word \<Rightarrow> 64 word"

definition key_bytes :: "64 word \<Rightarrow> 8 word list" where
  "key_bytes k = map (\<lambda>i. ucast (drop_bit (8 * i) k)) [0..<8]"

definition f_hash :: "hash_bytes \<Rightarrow> 64 word \<Rightarrow> 64 word" where
  "f_hash hb k = (hash_funcs hb ! 0) 0 (key_bytes k) f_seed"

definition s_hash :: "hash_bytes \<Rightarrow> 64 word \<Rightarrow> 64 word" where
  "s_hash hb k = (hash_funcs hb ! 2) 0 (key_bytes k) s_seed"

definition hash_idx :: "64 word \<Rightarrow> nat" where
  "hash_idx hash = unat (hash AND kMask) * kNumPairPerCacheLine"

definition probe :: "nat \<Rightarrow> nat list" where
  "probe idx = map (\<lambda>i. (idx + i) mod kNumSlot) [0..<kNumPairPerCacheLine * kNumCacheLine]"

text \<open>\<^verbatim>\<open>hash >> (64 - depth)\<close> in \<^verbatim>\<open>size_t\<close> arithmetic.\<close>

definition top_bits :: "64 word \<Rightarrow> nat \<Rightarrow> ('s, nat) exec" where
  "top_bits hash d =
     (if d = 0 \<or> 64 < d then raise UndefinedShift else ret (unat (drop_bit (64 - d) hash)))"

text \<open>\<^verbatim>\<open>pow(2, a - b)\<close> converted to an integer of \<open>w\<close> value bits.\<close>

definition pow2_diff :: "nat \<Rightarrow> nat \<Rightarrow> nat \<Rightarrow> fault + nat" where
  "pow2_diff w a b = (if a < b \<or> w \<le> a - b then Inl BadConversion else Inr (2 ^ (a - b)))"

section \<open>Objects in the pool\<close>

definition seg_at :: "nat \<Rightarrow> (cceh, Segment) exec" where
  "seg_at p = (\<lambda>s. if p = 0 then Inl NullDeref
     else case segs s p of None \<Rightarrow> Inl InvalidPtr | Some g \<Rightarrow> Inr (g, s))"

definition seg_put :: "nat \<Rightarrow> Segment \<Rightarrow> (cceh, unit) exec" where
  "seg_put p g = modify (\<lambda>s. s\<lparr>segs := (segs s)(p \<mapsto> g)\<rparr>)"

definition dir_at :: "nat \<Rightarrow> (cceh, Directory) exec" where
  "dir_at p = (\<lambda>s. if p = 0 then Inl NullDeref
     else case dirs s p of None \<Rightarrow> Inl InvalidPtr | Some d \<Rightarrow> Inr (d, s))"

definition dir_put :: "nat \<Rightarrow> Directory \<Rightarrow> (cceh, unit) exec" where
  "dir_put p d = modify (\<lambda>s. s\<lparr>dirs := (dirs s)(p \<mapsto> d)\<rparr>)"

definition cur_dir :: "(cceh, Directory) exec" where
  "cur_dir = bnd (gets dir) dir_at"

definition entry :: "nat list \<Rightarrow> nat \<Rightarrow> ('s, nat) exec" where
  "entry xs i = (if i < length xs then ret (xs ! i) else raise IndexRange)"

definition entry_put :: "nat list \<Rightarrow> nat \<Rightarrow> nat \<Rightarrow> ('s, nat list) exec" where
  "entry_put xs i p = (if i < length xs then ret (xs[i := p]) else raise IndexRange)"

definition pobj_alloc :: "nat \<Rightarrow> (cceh, nat) exec" where
  "pobj_alloc n = (\<lambda>s. if n \<le> pool_room s
     then Inr (next_oid s, s\<lparr>next_oid := next_oid s + 1, pool_room := pool_room s - n\<rparr>)
     else Inl InvalidPtr)"

definition junk_pairs :: "(nat \<Rightarrow> 64 word) \<Rightarrow> Pair list" where
  "junk_pairs jk = map (\<lambda>i. \<lparr>p_key = jk (2 * i), p_value = jk (2 * i + 1)\<rparr>) [0..<kNumSlot]"

section \<open>Segment\<close>

definition initSegment :: "nat \<Rightarrow> Segment \<Rightarrow> Segment" where
  "initSegment d g = g\<lparr>bucket := map (\<lambda>p. p\<lparr>p_key := INVALID\<rparr>) (bucket g), local_depth := d, sema := 0\<rparr>"

definition alloc_segment :: "nat \<Rightarrow> (cceh, nat) exec" where
  "alloc_segment d =
     bnd (gets pool_junk) (\<lambda>jk. bnd (pobj_alloc 16400) (\<lambda>p.
       seq (seg_put p (initSegment d \<lparr>bucket = junk_pairs jk, sema = 0, local_depth = 0\<rparr>)) (ret p)))"

definition CAS :: "'a \<Rightarrow> 'a \<Rightarrow> 'a \<Rightarrow> bool \<times> 'a" where
  "CAS cell expected desired = (if cell = expected then (True, desired) else (False, cell))"

definition Segment_suspend :: "Segment \<Rightarrow> fault + bool \<times> Segment" where
  "Segment_suspend g =
     (let val = sema g in
      if val < 0 then Inr (False, g)
      else let g' = g\<lparr>sema := snd (CAS (sema g) val (- 1))\<rparr>; wait = 0 - val - 1 in
           if val \<noteq> 0 \<and> sema g' \<noteq> wait then Inl Diverges else Inr (True, g'))"

definition Segment_lock :: "Segment \<Rightarrow> bool \<times> Segment" where
  "Segment_lock g =
     (let val = sema g in
      if val > - 1 then (True, g\<lparr>sema := snd (CAS (sema g) val (val + 1))\<rparr>) else (False, g))"

definition Segment_unlock :: "Segment \<Rightarrow> Segment" where
  "Segment_unlock g = (let val = sema g in g\<lparr>sema := snd (CAS (sema g) val (val - 1))\<rparr>)"

text \<open>\<^verbatim>\<open>Segment::Insert4split\<close>, whose loop visits the slots of a window.\<close>

primrec Insert4split_loop :: "64 word \<Rightarrow> 64 word \<Rightarrow> nat list \<Rightarrow> Pair list \<Rightarrow> bool \<times> Pair list" where
  "Insert4split_loop k v [] b = (False, b)"
| "Insert4split_loop k v (slot # slots) b =
     (if p_key (b ! slot) = INVALID
      then (True, b[slot := \<lparr>p_key = k, p_value = v\<rparr>])
      else Insert4split_loop k v slots b)"

definition Insert4split :: "64 word \<Rightarrow> 64 word \<Rightarrow> nat \<Rightarrow> Pair list \<Rightarrow> bool \<times> Pair list" where
  "Insert4split k v loc = Insert4split_loop k v (probe loc)"

text \<open>One round of the loop of \<^verbatim>\<open>Segment::Split\<close>: the pair of the old segment, and the
  bucket of the new one. Without \<^verbatim>\<open>CUCKOO\<close> nothing happens when both windows are full.\<close>

definition split_pair :: "hash_bytes \<Rightarrow> 64 word \<Rightarrow> Pair \<Rightarrow> Pair list \<Rightarrow> Pair list" where
  "split_pair hb pattern p nb =
     (if f_hash hb (p_key p) AND pattern \<noteq> 0
      then let (ok, nb) = Insert4split (p_key p) (p_value p) (hash_idx (f_hash hb (p_key p))) nb in
           if ok then nb
           else snd (Insert4split (p_key p) (p_value p) (hash_idx (s_hash hb (p_key p))) nb)
      else nb)"

definition Split :: "hash_bytes \<Rightarrow> nat \<Rightarrow> (cceh, nat) exec" where
  "Split hb this =
     bnd (seg_at this) (\<lambda>g.
     bnd (alloc_segment (local_depth g + 1)) (\<lambda>s1.
     if 64 < local_depth g + 1 then raise UndefinedShift
     else let pattern = push_bit (64 - local_depth g - 1) (1 :: 64 word) in
     bnd (seg_at s1) (\<lambda>g1.
     seq (seg_put s1 (g1\<lparr>bucket := fold (split_pair hb pattern) (bucket g) (bucket g1)\<rparr>))
       (ret s1))))"

section \<open>Directory\<close>

definition Directory_suspend :: "Directory \<Rightarrow> fault + bool \<times> Directory" where
  "Directory_suspend d =
     (let val = d_sema d in
      if val < 0 then Inr (False, d)
      else let d' = d\<lparr>d_sema := snd (CAS (d_sema d) val (- 1))\<rparr>; wait = 0 - val - 1 in
           if val \<noteq> 0 \<and> d_sema d' \<noteq> wait then Inl Diverges else Inr (True, d'))"

definition Directory_lock :: "Directory \<Rightarrow> bool \<times> Directory" where
  "Directory_lock d =
     (let val = d_sema d in
      if val > - 1 then (True, d\<lparr>d_sema := snd (CAS (d_sema d) val (val + 1))\<rparr>) else (False, d))"

definition Directory_unlock :: "Directory \<Rightarrow> Directory" where
  "Directory_unlock d = (let val = d_sema d in d\<lparr>d_sema := snd (CAS (d_sema d) val (val - 1))\<rparr>)"

definition initDirectory :: "nat \<Rightarrow> Directory \<Rightarrow> Directory" where
  "initDirectory n d = d\<lparr>depth := n, capacity := 2 ^ n, d_sema := 0\<rparr>"

section \<open>Creation\<close>

fun log2_floor :: "nat \<Rightarrow> nat" where
  "log2_floor n = (if n < 2 then 0 else Suc (log2_floor (n div 2)))"

primrec init_segments :: "nat \<Rightarrow> nat \<Rightarrow> nat list \<Rightarrow> (cceh, nat list) exec" where
  "init_segments d 0 xs = ret xs"
| "init_segments d (Suc n) xs = bnd (alloc_segment d) (\<lambda>p. init_segments d n (xs @ [p]))"

definition init_directory :: "nat \<Rightarrow> nat \<Rightarrow> (cceh, unit) exec" where
  "init_directory n d =
     seq (modify (\<lambda>s. s\<lparr>crashed := True\<rparr>))
     (bnd (pobj_alloc 40) (\<lambda>p.
      seq (modify (\<lambda>s. s\<lparr>dir := p\<rparr>))
      (if 64 \<le> n then raise BadConversion
       else seq (pobj_alloc (16 * 2 ^ n))
       (if 2 ^ 31 \<le> (2 :: nat) ^ n then raise SignedOverflow
        else bnd (init_segments d (2 ^ n) []) (\<lambda>xs.
          dir_put p (initDirectory n \<lparr>segment = xs, d_sema = 0, capacity = 0, depth = 0\<rparr>))))))"

text \<open>The two overloads of \<^verbatim>\<open>CCEH::initCCEH\<close>: the first one gives the directory the depth
  10 and its segments the depth 0.\<close>

definition initCCEH :: "(cceh, unit) exec" where
  "initCCEH = init_directory kDefaultDepth 0"

definition initCCEH_cap :: "nat \<Rightarrow> (cceh, unit) exec" where
  "initCCEH_cap initCap =
     (if initCap = 0 then raise BadConversion
      else init_directory (log2_floor initCap) (log2_floor initCap))"

section \<open>Insert\<close>

text \<open>The probing loop of \<^verbatim>\<open>CCEH::Insert\<close> over one window: a slot is taken when its key
  does not belong to the segment or is \<^verbatim>\<open>INVALID\<close>, and is not \<^verbatim>\<open>SENTINEL\<close>.\<close>

definition slot_free :: "hash_bytes \<Rightarrow> nat \<Rightarrow> nat \<Rightarrow> Pair \<Rightarrow> bool" where
  "slot_free hb ld pattern p \<longleftrightarrow>
     (unat (drop_bit (64 - ld) (f_hash hb (p_key p))) \<noteq> pattern \<or> p_key p = INVALID)
     \<and> p_key p \<noteq> SENTINEL"

primrec insert_loop ::
    "hash_bytes \<Rightarrow> nat \<Rightarrow> nat \<Rightarrow> 64 word \<Rightarrow> 64 word \<Rightarrow> nat list \<Rightarrow> Pair list \<Rightarrow> bool \<times> Pair list" where
  "insert_loop hb ld pattern k v [] b = (False, b)"
| "insert_loop hb ld pattern k v (loc # locs) b =
     (let key0 = p_key (b ! loc) in
      if slot_free hb ld pattern (b ! loc)
      then let (ok, k') = CAS (p_key (b ! loc)) key0 SENTINEL;
               b = b[loc := (b ! loc)\<lparr>p_key := k'\<rparr>] in
           if ok
           then let b = b[loc := (b ! loc)\<lparr>p_value := v\<rparr>];
                    b = b[loc := (b ! loc)\<lparr>p_key := k\<rparr>]
                in (True, b)
           else insert_loop hb ld pattern k v locs b
      else insert_loop hb ld pattern k v locs b)"

text \<open>Doubling of the directory, from \<^verbatim>\<open>DIR_RETRY\<close>.\<close>

definition double_directory :: "64 word \<Rightarrow> nat \<Rightarrow> nat \<Rightarrow> (cceh, unit) exec" where
  "double_directory hash s0 s1 =
     bnd (gets dir) (\<lambda>dp. bnd (dir_at dp) (\<lambda>d.
     case Directory_suspend d of
       Inl e \<Rightarrow> raise e
     | Inr (ok, d) \<Rightarrow>
         if \<not> ok then raise Diverges
         else seq (dir_put dp d)
           (bnd (top_bits hash (depth d)) (\<lambda>x.
            bnd (pobj_alloc 40) (\<lambda>dir_new.
            seq (pobj_alloc (16 * capacity d * 2))
            (if 64 \<le> depth d + 1 then raise BadConversion
             else if 2 ^ 31 \<le> capacity d then raise SignedOverflow
             else if length (segment d) < capacity d then raise IndexRange
             else
               let ps = concat (map (\<lambda>i. if i = x then [s0, s1] else [segment d ! i, segment d ! i])
                                 [0..<capacity d])
               in seq (dir_put dir_new (initDirectory (depth d + 1)
                         \<lparr>segment = ps, d_sema = 0, capacity = 0, depth = 0\<rparr>))
                  (seq (modify (\<lambda>s. s\<lparr>dir := dir_new\<rparr>))
                  (bnd (seg_at s0) (\<lambda>g.
                     seq (seg_put s0 (g\<lparr>local_depth := local_depth g + 1\<rparr>))
                     (bnd (seg_at s0) (\<lambda>g. seg_put s0 (g\<lparr>sema := 0\<rparr>))))))))))))"

text \<open>The update of an existing directory: the entries of the upper half of the range that the
  segment occupied.\<close>

primrec stride_put :: "nat \<Rightarrow> nat \<Rightarrow> nat \<Rightarrow> nat list \<Rightarrow> ('s, nat list) exec" where
  "stride_put from s1 0 xs = ret xs"
| "stride_put from s1 (Suc n) xs = bnd (entry_put xs from s1) (stride_put (from + 1) s1 n)"

definition update_entries :: "nat list \<Rightarrow> nat \<Rightarrow> nat \<Rightarrow> nat \<Rightarrow> nat \<Rightarrow> nat \<Rightarrow> ('s, nat list) exec" where
  "update_entries xs g x ld target_local_depth s1 =
     (if g = ld + 1
      then (if x mod 2 = 0 then entry_put xs (x + 1) s1 else entry_put xs x s1)
      else (case pow2_diff 31 g target_local_depth of
              Inl e \<Rightarrow> raise e
            | Inr stride \<Rightarrow> stride_put (x - x mod stride + stride div 2) s1 (stride div 2) xs))"

definition normal_split :: "64 word \<Rightarrow> nat \<Rightarrow> nat \<Rightarrow> nat \<Rightarrow> (cceh, unit) exec" where
  "normal_split hash target_local_depth s0 s1 =
     bnd (gets dir) (\<lambda>dp. bnd (dir_at dp) (\<lambda>d.
     case Directory_lock d of (ok, d) \<Rightarrow>
     if \<not> ok then raise Diverges
     else bnd (top_bits hash (depth d)) (\<lambda>x.
       bnd (seg_at s0) (\<lambda>g.
       bnd (update_entries (segment d) (depth d) x (local_depth g) target_local_depth s1) (\<lambda>xs.
          seq (dir_put dp (Directory_unlock (d\<lparr>segment := xs\<rparr>)))
          (seq (seg_put s0 (g\<lparr>local_depth := local_depth g + 1\<rparr>))
          (bnd (seg_at s0) (\<lambda>g. seg_put s0 (g\<lparr>sema := 0\<rparr>)))))))))"

text \<open>From the failed probes on: release, suspend, split, update the directory.\<close>

definition insert_split :: "hash_bytes \<Rightarrow> 64 word \<Rightarrow> nat \<Rightarrow> (cceh, unit) exec" where
  "insert_split hb k target =
     bnd (seg_at target) (\<lambda>g.
     let target_local_depth = local_depth g; g = Segment_unlock g in
     seq (seg_put target g)
     (case Segment_suspend g of
        Inl e \<Rightarrow> raise e
      | Inr (ok, g) \<Rightarrow>
          if \<not> ok then ret ()
          else seq (seg_put target g)
            (if target_local_depth \<noteq> local_depth g
             then seg_put target (g\<lparr>sema := 0\<rparr>)
             else bnd (Split hb target) (\<lambda>s1.
               bnd cur_dir (\<lambda>d. bnd (seg_at target) (\<lambda>g.
               if local_depth g = depth d
               then double_directory (f_hash hb k) target s1
               else normal_split (f_hash hb k) target_local_depth target s1))))))"

text \<open>One pass from \<^verbatim>\<open>RETRY\<close>: \<open>True\<close> when the pair was stored, \<open>False\<close> for
  \<^verbatim>\<open>goto RETRY\<close>.\<close>

definition insert_attempt :: "hash_bytes \<Rightarrow> 64 word \<Rightarrow> 64 word \<Rightarrow> (cceh, bool) exec" where
  "insert_attempt hb k v =
     (let hash = f_hash hb k in
     bnd cur_dir (\<lambda>d. bnd (top_bits hash (depth d)) (\<lambda>x. bnd (entry (segment d) x) (\<lambda>target.
     if target = 0 then ret False
     else bnd (seg_at target) (\<lambda>g.
     case Segment_lock g of (ok, g) \<Rightarrow>
     if \<not> ok then ret False
     else seq (seg_put target g)
     (bnd cur_dir (\<lambda>d. bnd (top_bits hash (depth d)) (\<lambda>x'. bnd (entry (segment d) x') (\<lambda>target'.
     if target \<noteq> target' then seq (seg_put target (Segment_unlock g)) (ret False)
     else bnd (top_bits hash (local_depth g)) (\<lambda>pattern.
       case insert_loop hb (local_depth g) pattern k v (probe (hash_idx hash)) (bucket g) of
         (True, b) \<Rightarrow> seq (seg_put target (Segment_unlock (g\<lparr>bucket := b\<rparr>))) (ret True)
       | (False, b) \<Rightarrow>
           (case insert_loop hb (local_depth g) pattern k v (probe (hash_idx (s_hash hb k))) b of
              (True, b) \<Rightarrow> seq (seg_put target (Segment_unlock (g\<lparr>bucket := b\<rparr>))) (ret True)
            | (False, b) \<Rightarrow> seq (insert_split hb k target) (ret False))))))))))))"

primrec CCEH_Insert :: "hash_bytes \<Rightarrow> nat \<Rightarrow> 64 word \<Rightarrow> 64 word \<Rightarrow> (cceh, unit) exec" where
  "CCEH_Insert hb 0 k v = raise Diverges"
| "CCEH_Insert hb (Suc fuel) k v =
     bnd (insert_attempt hb k v) (\<lambda>stored. if stored then ret () else CCEH_Insert hb fuel k v)"

definition CCEH_Delete :: "64 word \<Rightarrow> (cceh, bool) exec" where
  "CCEH_Delete k = ret False"

section \<open>Get\<close>

primrec get_loop :: "64 word \<Rightarrow> nat list \<Rightarrow> Pair list \<Rightarrow> 64 word option" where
  "get_loop k [] b = None"
| "get_loop k (loc # locs) b =
     (if p_key (b ! loc) = k then Some (p_value (b ! loc)) else get_loop k locs b)"

definition CCEH_Get :: "hash_bytes \<Rightarrow> 64 word \<Rightarrow> (cceh, 64 word) exec" where
  "CCEH_Get hb k =
     (let hash = f_hash hb k in
     bnd cur_dir (\<lambda>d.
     if d_sema d < 0 then raise Diverges
     else bnd (top_bits hash (depth d)) (\<lambda>x. bnd (entry (segment d) x) (\<lambda>target.
     if target = 0 then raise Diverges
     else bnd (seg_at target) (\<lambda>g.
     case Segment_lock g of (ok, g) \<Rightarrow>
     if \<not> ok then raise Diverges
     else seq (seg_put target g)
     (bnd cur_dir (\<lambda>d. bnd (top_bits hash (depth d)) (\<lambda>x'. bnd (entry (segment d) x') (\<lambda>target'.
     if target \<noteq> target' then raise Diverges
     else case get_loop k (probe (hash_idx hash)) (bucket g) of
            Some v \<Rightarrow> seq (seg_put target (Segment_unlock g)) (ret v)
          | None \<Rightarrow>
              (case get_loop k (probe (hash_idx (s_hash hb k))) (bucket g) of
                 Some v \<Rightarrow> seq (seg_put target (Segment_unlock g)) (ret v)
               | None \<Rightarrow> seq (seg_put target (Segment_unlock g)) (ret NONE)))))))))))"

section \<open>Recovery, statistics and debugging\<close>

text \<open>The inner loop of \<^verbatim>\<open>CCEH::Recovery\<close>, for \<^verbatim>\<open>j\<close> from \<open>i + n\<close> down to
  \<open>i + 1\<close>.\<close>

primrec recovery_range :: "nat \<Rightarrow> nat \<Rightarrow> nat \<Rightarrow> nat list \<Rightarrow> (cceh, nat list) exec" where
  "recovery_range i depth_cur 0 xs = ret xs"
| "recovery_range i depth_cur (Suc n) xs =
     bnd (entry xs (i + Suc n)) (\<lambda>p. bnd (seg_at p) (\<lambda>g.
     bnd (if local_depth g \<noteq> depth_cur
          then bnd (entry xs i) (\<lambda>q. entry_put xs (i + Suc n) q) else ret xs)
       (recovery_range i depth_cur n)))"

primrec recovery_loop :: "nat \<Rightarrow> nat \<Rightarrow> nat \<Rightarrow> nat \<Rightarrow> nat list \<Rightarrow> (cceh, nat list) exec" where
  "recovery_loop 0 cap d i xs = raise Diverges"
| "recovery_loop (Suc fuel) cap d i xs =
     (if i < cap
      then bnd (entry xs i) (\<lambda>p. bnd (seg_at p) (\<lambda>g.
        case pow2_diff 64 d (local_depth g) of
          Inl e \<Rightarrow> raise e
        | Inr stride \<Rightarrow>
            (let buddy = i + stride in
             if buddy = cap then ret xs
             else bnd (recovery_range i (local_depth g) (stride - 1) xs)
                    (recovery_loop fuel cap d (i + stride)))))
      else ret xs)"

definition CCEH_Recovery :: "(cceh, unit) exec" where
  "CCEH_Recovery =
     bnd (gets dir) (\<lambda>dp. bnd (dir_at dp) (\<lambda>d.
     bnd (recovery_loop (capacity d + 1) (capacity d) (depth d) 0 (segment d)) (\<lambda>xs.
     dir_put dp (d\<lparr>segment := xs\<rparr>))))"

text \<open>\<^verbatim>\<open>Capacity\<close> and \<^verbatim>\<open>Utilization\<close> visit one entry per segment. The percentage that
  \<^verbatim>\<open>Utilization\<close> returns is \<open>100 * acc / (cnt * kNumSlot)\<close>.\<close>

primrec capacity_loop :: "nat \<Rightarrow> Directory \<Rightarrow> nat \<Rightarrow> nat \<Rightarrow> (cceh, nat) exec" where
  "capacity_loop 0 d i cnt = raise Diverges"
| "capacity_loop (Suc fuel) d i cnt =
     (if i < capacity d
      then bnd (entry (segment d) i) (\<lambda>p. bnd (seg_at p) (\<lambda>g.
        case pow2_diff 31 (depth d) (local_depth g) of
          Inl e \<Rightarrow> raise e
        | Inr stride \<Rightarrow> capacity_loop fuel d (i + stride) (cnt + 1)))
      else ret cnt)"

definition CCEH_Capacity :: "(cceh, nat) exec" where
  "CCEH_Capacity =
     bnd cur_dir (\<lambda>d. bnd (capacity_loop (capacity d + 1) d 0 0) (\<lambda>cnt. ret (cnt * kNumSlot)))"

definition util_count :: "hash_bytes \<Rightarrow> nat \<Rightarrow> nat \<Rightarrow> Pair list \<Rightarrow> nat" where
  "util_count hb ld pattern b =
     length (filter (\<lambda>p. unat (drop_bit (64 - ld) (hash_h hb 0 (key_bytes (p_key p)))) = pattern
                       \<and> p_key p \<noteq> INVALID) b)"

primrec util_loop :: "hash_bytes \<Rightarrow> nat \<Rightarrow> Directory \<Rightarrow> nat \<Rightarrow> nat \<Rightarrow> nat \<Rightarrow> (cceh, nat \<times> nat) exec" where
  "util_loop hb 0 d i acc cnt = raise Diverges"
| "util_loop hb (Suc fuel) d i acc cnt =
     (if i < capacity d
      then bnd (entry (segment d) i) (\<lambda>p. bnd (seg_at p) (\<lambda>g.
        case pow2_diff 31 (depth d) (local_depth g) of
          Inl e \<Rightarrow> raise e
        | Inr stride \<Rightarrow>
            if local_depth g = 0 \<or> 64 < local_depth g then raise UndefinedShift
            else util_loop hb fuel d (i + stride)
                   (acc + util_count hb (local_depth g) (drop_bit (depth d - local_depth g) i) (bucket g))
                   (cnt + 1)))
      else ret (acc, cnt))"

definition CCEH_Utilization :: "hash_bytes \<Rightarrow> (cceh, nat \<times> nat) exec" where
  "CCEH_Utilization hb = bnd cur_dir (\<lambda>d. util_loop hb (capacity d + 1) d 0 0 0)"

primrec findanyway_loop :: "64 word \<Rightarrow> nat list \<Rightarrow> (cceh, 64 word) exec" where
  "findanyway_loop k [] = ret NONE"
| "findanyway_loop k (p # ps) =
     bnd (seg_at p) (\<lambda>g.
       case get_loop k [0..<kNumSlot] (bucket g) of
         Some v \<Rightarrow> ret v
       | None \<Rightarrow> findanyway_loop k ps)"

definition CCEH_FindAnyway :: "64 word \<Rightarrow> (cceh, 64 word) exec" where
  "CCEH_FindAnyway k = bnd cur_dir (\<lambda>d. findanyway_loop k (take (capacity d) (segment d)))"

end
