(* ===== verification/Cceh.thy ===== *)
theory Cceh
  imports CcehModel
begin

unbundle bit_operations_syntax

text \<open>
  Segments of the CCEH table: hash prefixes, probing windows, the insertion and search loops and
  the redistribution of a segment by \<^verbatim>\<open>Segment::Split\<close>. A pair of a segment with prefix \<open>q\<close>
  of \<open>d\<close> bits is live when the \<open>d\<close> top bits of its hash are \<open>q\<close>: the in-place
  split leaves the moved pairs behind in the old segment, where they are dead from then on.
\<close>

section \<open>Hash prefixes\<close>

definition prefix :: "hash_bytes \<Rightarrow> nat \<Rightarrow> 64 word \<Rightarrow> nat" where
  "prefix hb d k = unat (drop_bit (64 - d) (f_hash hb k))"

lemma unat_drop_bit: "unat (drop_bit n w) = unat w div 2 ^ n"
  unfolding unat_drop_bit_eq by (simp add: drop_bit_eq_div)

lemma unat_bit: "bit w n \<longleftrightarrow> odd (unat w div 2 ^ n)"
proof -
  have "bit (unat w) n \<longleftrightarrow> bit w n"
    by (simp add: bit_unsigned_iff)
  then show ?thesis
    by (simp add: bit_iff_odd)
qed

lemma prefix_div: "prefix hb d k = unat (f_hash hb k) div 2 ^ (64 - d)"
  by (simp add: prefix_def unat_drop_bit)

lemma prefix_less: "d \<le> 64 \<Longrightarrow> prefix hb d k < 2 ^ d"
proof -
  assume "d \<le> 64"
  have "unat (f_hash hb k) < 2 ^ LENGTH(64)"
    by (rule unsigned_less)
  also have "\<dots> = 2 ^ (d + (64 - d))"
    using \<open>d \<le> 64\<close> by simp
  finally show ?thesis
    by (simp add: prefix_div power_add less_mult_imp_div_less)
qed

lemma prefix_prefix:
  assumes "d \<le> e" "e \<le> 64"
  shows "prefix hb d k = prefix hb e k div 2 ^ (e - d)"
proof -
  have "64 - d = (64 - e) + (e - d)"
    using assms by simp
  then show ?thesis
    by (simp only: prefix_div power_add div_mult2_eq)
qed

lemma prefix_bit:
  assumes "d < 64"
  shows "f_hash hb k AND push_bit (64 - d - 1) 1 \<noteq> 0 \<longleftrightarrow> odd (prefix hb (d + 1) k)"
proof -
  have "f_hash hb k AND push_bit (64 - d - 1) 1 \<noteq> 0 \<longleftrightarrow> bit (f_hash hb k) (64 - d - 1)"
    by (simp only: bit_iff_and_push_bit_not_eq_0)
  also have "\<dots> \<longleftrightarrow> odd (unat (f_hash hb k) div 2 ^ (64 - d - 1))"
    by (rule unat_bit)
  finally show ?thesis
    by (simp add: prefix_div)
qed

section \<open>Probing windows\<close>

lemma kNumSlot_eq: "kNumSlot = 1024"
  by (simp add: kNumSlot_def kSegmentSize_def kSegmentBits_def)

lemma probe_less: "i \<in> set (probe n) \<Longrightarrow> i < kNumSlot"
  by (auto simp: probe_def kNumSlot_eq)

definition window :: "hash_bytes \<Rightarrow> 64 word \<Rightarrow> nat list" where
  "window hb k = probe (hash_idx (f_hash hb k)) @ probe (hash_idx (s_hash hb k))"

lemma window_less: "i \<in> set (window hb k) \<Longrightarrow> i < kNumSlot"
  by (auto simp: window_def intro: probe_less)

lemma get_loop_append:
  "get_loop k (xs @ ys) b = (case get_loop k xs b of Some v \<Rightarrow> Some v | None \<Rightarrow> get_loop k ys b)"
  by (induction xs) auto

lemma get_loop_None: "get_loop k xs b = None \<longleftrightarrow> (\<forall>i\<in>set xs. p_key (b ! i) \<noteq> k)"
  by (induction xs) auto

lemma get_loop_Some:
  assumes "i \<in> set xs" "p_key (b ! i) = k"
      and "\<And>j. j \<in> set xs \<Longrightarrow> p_key (b ! j) = k \<Longrightarrow> j = i"
  shows "get_loop k xs b = Some (p_value (b ! i))"
  using assms(1,3)
proof (induction xs)
  case (Cons x xs)
  show ?case
  proof (cases "p_key (b ! x) = k")
    case True
    then have "x = i"
      using Cons.prems(2) [of x] by simp
    then show ?thesis
      using True by simp
  next
    case False
    have "i \<in> set xs"
      using False Cons.prems(1) assms(2) by auto
    then have "get_loop k xs b = Some (p_value (b ! i))"
      using Cons.prems(2) by (intro Cons.IH) auto
    then show ?thesis
      using False by simp
  qed
qed simp

section \<open>Well-formed segments\<close>

definition live :: "hash_bytes \<Rightarrow> nat \<Rightarrow> nat \<Rightarrow> 64 word \<Rightarrow> bool" where
  "live hb d q k \<longleftrightarrow> k \<noteq> INVALID \<and> prefix hb d k = q"

definition bucket_wf :: "hash_bytes \<Rightarrow> nat \<Rightarrow> nat \<Rightarrow> Pair list \<Rightarrow> bool" where
  "bucket_wf hb d q b \<longleftrightarrow>
     length b = kNumSlot
     \<and> (\<forall>i<kNumSlot. p_key (b ! i) \<noteq> SENTINEL)
     \<and> (\<forall>i<kNumSlot. live hb d q (p_key (b ! i)) \<longrightarrow> i \<in> set (window hb (p_key (b ! i))))
     \<and> (\<forall>i<kNumSlot. \<forall>j<kNumSlot. live hb d q (p_key (b ! i)) \<longrightarrow> p_key (b ! i) = p_key (b ! j) \<longrightarrow> i = j)"

lemma bucket_wf_unique:
  "bucket_wf hb d q b \<Longrightarrow> i < kNumSlot \<Longrightarrow> j < kNumSlot \<Longrightarrow> live hb d q (p_key (b ! i))
   \<Longrightarrow> p_key (b ! i) = p_key (b ! j) \<Longrightarrow> j = i"
  unfolding bucket_wf_def by blast

lemma bucket_wf_window:
  "bucket_wf hb d q b \<Longrightarrow> i < kNumSlot \<Longrightarrow> live hb d q (p_key (b ! i))
   \<Longrightarrow> i \<in> set (window hb (p_key (b ! i)))"
  unfolding bucket_wf_def by blast

lemma bucket_wf_sentinel: "bucket_wf hb d q b \<Longrightarrow> i < kNumSlot \<Longrightarrow> p_key (b ! i) \<noteq> SENTINEL"
  unfolding bucket_wf_def by blast

lemma bucket_wf_length: "bucket_wf hb d q b \<Longrightarrow> length b = kNumSlot"
  unfolding bucket_wf_def by blast

text \<open>What a bucket holds for a key: the value of the slot with that key.\<close>

definition bucket_map :: "Pair list \<Rightarrow> 64 word \<Rightarrow> 64 word option" where
  "bucket_map b k = (if k = INVALID then None else get_loop k [0..<kNumSlot] b)"

lemma bucket_map_None:
  "bucket_map b k = None \<longleftrightarrow> k = INVALID \<or> (\<forall>i<kNumSlot. p_key (b ! i) \<noteq> k)"
  by (auto simp: bucket_map_def get_loop_None)

lemma bucket_map_slot:
  assumes "bucket_wf hb d q b" "i < kNumSlot" "live hb d q (p_key (b ! i))"
  shows "bucket_map b (p_key (b ! i)) = Some (p_value (b ! i))"
  using assms by (auto simp: bucket_map_def bucket_wf_def live_def intro!: get_loop_Some)

lemma bucket_map_SomeD:
  assumes "bucket_map b k = Some v"
  shows "\<exists>i<kNumSlot. p_key (b ! i) = k \<and> k \<noteq> INVALID"
  using assms bucket_map_None [of b k] by auto

text \<open>Searching the two windows finds exactly the live pairs.\<close>

lemma get_window:
  assumes "bucket_wf hb d q b" "live hb d q k"
  shows "get_loop k (window hb k) b = bucket_map b k"
proof (cases "\<exists>i<kNumSlot. p_key (b ! i) = k")
  case True
  then obtain i where i: "i < kNumSlot" "p_key (b ! i) = k"
    by blast
  have "i \<in> set (window hb k)"
    using bucket_wf_window [OF assms(1) i(1)] assms(2) i(2) by simp
  moreover have "j = i" if "j \<in> set (window hb k)" "p_key (b ! j) = k" for j
    using bucket_wf_unique [OF assms(1) i(1) window_less [OF that(1)]] assms(2) i(2) that(2) by simp
  ultimately have "get_loop k (window hb k) b = Some (p_value (b ! i))"
    by (rule get_loop_Some [OF _ i(2)])
  then show ?thesis
    using bucket_map_slot [OF assms(1) i(1)] assms(2) i by simp
next
  case False
  then have "bucket_map b k = None"
    by (auto simp: bucket_map_None)
  moreover have "get_loop k (window hb k) b = None"
    using False window_less by (auto simp: get_loop_None)
  ultimately show ?thesis by simp
qed

section \<open>Insertion into a segment\<close>

lemma insert_loop_False:
  "insert_loop hb d q k v locs b = (False, b') \<Longrightarrow> b' = b \<and> (\<forall>i\<in>set locs. \<not> slot_free hb d q (b ! i))"
  by (induction locs) (auto simp: Let_def CAS_def split: if_splits)

lemma insert_loop_True:
  "insert_loop hb d q k v locs b = (True, b') \<Longrightarrow> (\<forall>i\<in>set locs. i < length b) \<Longrightarrow>
   \<exists>i\<in>set locs. slot_free hb d q (b ! i) \<and> b' = b[i := \<lparr>p_key = k, p_value = v\<rparr>]"
proof (induction locs)
  case (Cons loc locs)
  show ?case
  proof (cases "slot_free hb d q (b ! loc)")
    case True
    have "b' = b[loc := \<lparr>p_key = k, p_value = v\<rparr>]"
      using Cons.prems True by (cases "b ! loc") (auto simp: Let_def CAS_def)
    then show ?thesis
      using True by auto
  next
    case False
    then show ?thesis
      using Cons by (auto simp: Let_def)
  qed
qed simp

lemma slot_free_dead:
  assumes "bucket_wf hb d q b" "i < kNumSlot" "slot_free hb d q (b ! i)"
  shows "\<not> live hb d q (p_key (b ! i))"
  using assms by (auto simp: slot_free_def live_def prefix_def)

lemma bucket_wf_update:
  assumes "bucket_wf hb d q b" "i \<in> set (window hb k)" "k \<noteq> SENTINEL"
      and "bucket_map b k = None" "live hb d q k"
  shows "bucket_wf hb d q (b[i := \<lparr>p_key = k, p_value = v\<rparr>])"
proof -
  have len: "length b = kNumSlot" and i: "i < kNumSlot"
    using assms window_less by (auto simp: bucket_wf_def)
  have new: "p_key (b ! j) \<noteq> k" if "j < kNumSlot" for j
    using assms(4,5) that by (auto simp: bucket_map_None live_def)
  show ?thesis
    unfolding bucket_wf_def
  proof (intro conjI allI impI)
    fix j assume j: "j < kNumSlot"
    show "p_key (b[i := \<lparr>p_key = k, p_value = v\<rparr>] ! j) \<noteq> SENTINEL"
      using assms(1,3) i j len by (auto simp: nth_list_update bucket_wf_def)
    show "j \<in> set (window hb (p_key (b[i := \<lparr>p_key = k, p_value = v\<rparr>] ! j)))"
      if "live hb d q (p_key (b[i := \<lparr>p_key = k, p_value = v\<rparr>] ! j))"
      using assms(1,2) i j len that by (auto simp: nth_list_update bucket_wf_def split: if_splits)
  next
    fix j l
    assume "j < kNumSlot" "l < kNumSlot"
      and "live hb d q (p_key (b[i := \<lparr>p_key = k, p_value = v\<rparr>] ! j))"
      and "p_key (b[i := \<lparr>p_key = k, p_value = v\<rparr>] ! j) = p_key (b[i := \<lparr>p_key = k, p_value = v\<rparr>] ! l)"
    then show "j = l"
      using assms(1) i len new by (auto simp: nth_list_update bucket_wf_def split: if_splits)
  qed (use len in simp)
qed

lemma bucket_map_update:
  assumes wf: "bucket_wf hb d q b" and i: "i < kNumSlot" "\<not> live hb d q (p_key (b ! i))"
      and k: "bucket_map b k = None" "live hb d q k" and k': "live hb d q k'"
      and wf': "bucket_wf hb d q (b[i := \<lparr>p_key = k, p_value = v\<rparr>])"
  shows "bucket_map (b[i := \<lparr>p_key = k, p_value = v\<rparr>]) k' = ((bucket_map b)(k \<mapsto> v)) k'"
proof -
  let ?b = "b[i := \<lparr>p_key = k, p_value = v\<rparr>]"
  have len: "length b = kNumSlot"
    using wf by (simp add: bucket_wf_def)
  show ?thesis
  proof (cases "k' = k")
    case True
    then show ?thesis
      using bucket_map_slot [OF wf' i(1)] i len k' by simp
  next
    case False
    have same: "?b ! j = b ! j" if "p_key (b ! j) = k' \<or> p_key (?b ! j) = k'" "j < kNumSlot" for j
      using that False i k' len by (auto simp: nth_list_update split: if_splits)
    show ?thesis
    proof (cases "\<exists>j<kNumSlot. p_key (b ! j) = k'")
      case True
      then obtain j where j: "j < kNumSlot" "p_key (b ! j) = k'" by blast
      have "bucket_map b k' = Some (p_value (b ! j))"
        using bucket_map_slot [OF wf j(1)] j k' by simp
      moreover have "bucket_map ?b k' = Some (p_value (b ! j))"
        using bucket_map_slot [OF wf' j(1)] j k' same [OF _ j(1)] by simp
      ultimately show ?thesis
        using False by simp
    next
      case none: False
      then have "bucket_map b k' = None" "bucket_map ?b k' = None"
        using same by (metis bucket_map_None)+
      then show ?thesis
        using False by simp
    qed
  qed
qed

section \<open>Splitting a segment\<close>

lemma Insert4split_False:
  "Insert4split_loop k v slots b = (False, b') \<Longrightarrow> b' = b"
  by (induction slots) (auto split: if_splits)

lemma Insert4split_True:
  "Insert4split_loop k v slots b = (True, b') \<Longrightarrow>
   \<exists>i\<in>set slots. p_key (b ! i) = INVALID \<and> b' = b[i := \<lparr>p_key = k, p_value = v\<rparr>]"
  by (induction slots) (auto split: if_splits)

definition split_placed :: "hash_bytes \<Rightarrow> Pair \<Rightarrow> Pair list \<Rightarrow> bool" where
  "split_placed hb p nb \<longleftrightarrow>
     fst (Insert4split (p_key p) (p_value p) (hash_idx (f_hash hb (p_key p))) nb)
     \<or> fst (Insert4split (p_key p) (p_value p) (hash_idx (s_hash hb (p_key p))) nb)"

text \<open>The pair is dropped when both windows of the new segment are full; otherwise it is stored in
  a free slot of one of them.\<close>

lemma split_pair_cases:
  assumes "f_hash hb (p_key p) AND pattern \<noteq> 0"
  shows "if split_placed hb p nb
         then \<exists>i\<in>set (window hb (p_key p)). p_key (nb ! i) = INVALID
                \<and> split_pair hb pattern p nb = nb[i := \<lparr>p_key = p_key p, p_value = p_value p\<rparr>]
         else split_pair hb pattern p nb = nb"
proof -
  obtain ok1 nb1 where 1: "Insert4split (p_key p) (p_value p) (hash_idx (f_hash hb (p_key p))) nb = (ok1, nb1)"
    by fastforce
  obtain ok2 nb2 where 2: "Insert4split (p_key p) (p_value p) (hash_idx (s_hash hb (p_key p))) nb = (ok2, nb2)"
    by fastforce
  show ?thesis
  proof (cases ok1)
    case True
    then show ?thesis
      using assms 1 Insert4split_True [of "p_key p" "p_value p" _ nb nb1]
      by (auto simp: split_pair_def split_placed_def Insert4split_def window_def)
  next
    case False
    then have "nb1 = nb"
      using 1 Insert4split_False by (auto simp: Insert4split_def)
    then show ?thesis
      using False assms 1 2 Insert4split_True [of "p_key p" "p_value p" _ nb nb2]
        Insert4split_False [of "p_key p" "p_value p" _ nb nb2]
      by (cases ok2) (auto simp: split_pair_def split_placed_def Insert4split_def window_def)
  qed
qed

primrec split_fits :: "hash_bytes \<Rightarrow> nat \<Rightarrow> nat \<Rightarrow> 64 word \<Rightarrow> Pair list \<Rightarrow> Pair list \<Rightarrow> bool" where
  "split_fits hb d q pattern [] nb = True"
| "split_fits hb d q pattern (p # ps) nb =
     ((live hb d q (p_key p) \<longrightarrow> split_placed hb p nb)
      \<and> split_fits hb d q pattern ps (split_pair hb pattern p nb))"

lemma split_pair_dead:
  assumes wf: "bucket_wf hb d q nb" and p: "\<not> live hb d q (p_key p)" "p_key p \<noteq> SENTINEL"
  shows "bucket_wf hb d q (split_pair hb pattern p nb)"
    and "live hb d q k \<Longrightarrow> bucket_map (split_pair hb pattern p nb) k = bucket_map nb k"
proof -
  let ?nb = "split_pair hb pattern p nb"
  have len: "length nb = kNumSlot"
    using wf by (rule bucket_wf_length)
  have "?nb = nb \<or> (\<exists>i<kNumSlot. p_key (nb ! i) = INVALID \<and> ?nb = nb[i := \<lparr>p_key = p_key p, p_value = p_value p\<rparr>])"
    using split_pair_cases [of hb p pattern nb] window_less
    by (cases "f_hash hb (p_key p) AND pattern = 0")
       (auto simp: split_pair_def split: if_splits)
  then consider "?nb = nb"
    | i where "i < kNumSlot" "p_key (nb ! i) = INVALID" "?nb = nb[i := \<lparr>p_key = p_key p, p_value = p_value p\<rparr>]"
    by blast
  then have *: "length ?nb = kNumSlot \<and> (\<forall>j<kNumSlot. ?nb ! j = nb ! j
      \<or> (\<not> live hb d q (p_key (?nb ! j)) \<and> \<not> live hb d q (p_key (nb ! j)) \<and> p_key (?nb ! j) \<noteq> SENTINEL))"
    by cases (use len p in \<open>auto simp: nth_list_update live_def\<close>)
  have key: "p_key (?nb ! j) = p_key (nb ! j)" if "j < kNumSlot" "live hb d q (p_key (?nb ! j))" for j
    using * that by metis
  show wf': "bucket_wf hb d q ?nb"
    unfolding bucket_wf_def
  proof (intro conjI allI impI)
    show "p_key (?nb ! j) \<noteq> SENTINEL" if "j < kNumSlot" for j
      using * that bucket_wf_sentinel [OF wf that] by metis
    show "j \<in> set (window hb (p_key (?nb ! j)))" if "j < kNumSlot" "live hb d q (p_key (?nb ! j))" for j
      using key [OF that] bucket_wf_window [OF wf that(1)] that(2) by simp
    show "i = j" if "i < kNumSlot" "j < kNumSlot" "live hb d q (p_key (?nb ! i))"
      "p_key (?nb ! i) = p_key (?nb ! j)" for i j
      using key [of i] key [of j] that bucket_wf_unique [OF wf that(2,1)] by simp
  qed (use * in blast)
  show "bucket_map ?nb k = bucket_map nb k" if k: "live hb d q k"
  proof (cases "\<exists>j<kNumSlot. p_key (nb ! j) = k")
    case True
    then obtain j where j: "j < kNumSlot" "p_key (nb ! j) = k" by blast
    then have "?nb ! j = nb ! j"
      using * k by blast
    then show ?thesis
      using bucket_map_slot [OF wf j(1)] bucket_map_slot [OF wf' j(1)] j k by simp
  next
    case False
    then have "\<forall>j<kNumSlot. p_key (?nb ! j) \<noteq> k"
      using key k by metis
    then show ?thesis
      using False by (metis bucket_map_None)
  qed
qed

lemma split_pair_live:
  assumes wf: "bucket_wf hb d q nb" and p: "live hb d q (p_key p)" "p_key p \<noteq> SENTINEL"
      and bit: "f_hash hb (p_key p) AND pattern \<noteq> 0" and new: "bucket_map nb (p_key p) = None"
  shows "bucket_wf hb d q (split_pair hb pattern p nb)"
    and "live hb d q k \<Longrightarrow> bucket_map (split_pair hb pattern p nb) k =
           (if split_placed hb p nb then ((bucket_map nb)(p_key p \<mapsto> p_value p)) k else bucket_map nb k)"
proof -
  have "bucket_wf hb d q (split_pair hb pattern p nb) \<and> (\<forall>k. live hb d q k \<longrightarrow>
          bucket_map (split_pair hb pattern p nb) k =
            (if split_placed hb p nb then ((bucket_map nb)(p_key p \<mapsto> p_value p)) k else bucket_map nb k))"
  proof (cases "split_placed hb p nb")
    case True
    then obtain i where i: "i \<in> set (window hb (p_key p))" "p_key (nb ! i) = INVALID"
      "split_pair hb pattern p nb = nb[i := \<lparr>p_key = p_key p, p_value = p_value p\<rparr>]"
      using split_pair_cases [OF bit, of nb] by auto
    have wf': "bucket_wf hb d q (nb[i := \<lparr>p_key = p_key p, p_value = p_value p\<rparr>])"
      by (rule bucket_wf_update [OF wf i(1) p(2) new p(1)])
    have "\<not> live hb d q (p_key (nb ! i))"
      using i(2) by (simp add: live_def)
    then show ?thesis
      using True i(3) wf' bucket_map_update [OF wf window_less [OF i(1)] _ new p(1) _ wf'] by simp
  next
    case False
    then show ?thesis
      using split_pair_cases [OF bit, of nb] wf by simp
  qed
  then show "bucket_wf hb d q (split_pair hb pattern p nb)"
    and "live hb d q k \<Longrightarrow> bucket_map (split_pair hb pattern p nb) k =
           (if split_placed hb p nb then ((bucket_map nb)(p_key p \<mapsto> p_value p)) k else bucket_map nb k)"
    by blast+
qed

text \<open>The whole loop: what the new segment holds comes from the pairs that were visited, and all
  live pairs of them are there if every one of them found a place.\<close>

definition split_post ::
    "hash_bytes \<Rightarrow> nat \<Rightarrow> nat \<Rightarrow> 64 word \<Rightarrow> Pair list \<Rightarrow> Pair list \<Rightarrow> Pair list \<Rightarrow> bool" where
  "split_post hb d q pattern ps nb nb' \<longleftrightarrow>
     bucket_wf hb d q nb'
     \<and> (\<forall>k v. live hb d q k \<longrightarrow> bucket_map nb' k = Some v \<longrightarrow>
          bucket_map nb k = Some v \<or> (\<exists>p\<in>set ps. p_key p = k \<and> p_value p = v))
     \<and> (\<forall>k v. live hb d q k \<longrightarrow> bucket_map nb k = Some v \<longrightarrow> bucket_map nb' k = Some v)
     \<and> (split_fits hb d q pattern ps nb \<longrightarrow> (\<forall>p\<in>set ps. live hb d q (p_key p) \<longrightarrow>
          bucket_map nb' (p_key p) = Some (p_value p)))"

lemma split_post_dead:
  assumes "split_post hb d q pattern ps (split_pair hb pattern p nb) nb'"
      and "\<not> live hb d q (p_key p)"
      and "\<And>k. live hb d q k \<Longrightarrow> bucket_map (split_pair hb pattern p nb) k = bucket_map nb k"
  shows "split_post hb d q pattern (p # ps) nb nb'"
  using assms unfolding split_post_def by auto

lemma split_post_live:
  assumes post: "split_post hb d q pattern ps (split_pair hb pattern p nb) nb'"
      and p: "live hb d q (p_key p)" "bucket_map nb (p_key p) = None"
      and map: "\<And>k. live hb d q k \<Longrightarrow> bucket_map (split_pair hb pattern p nb) k =
           (if split_placed hb p nb then ((bucket_map nb)(p_key p \<mapsto> p_value p)) k else bucket_map nb k)"
  shows "split_post hb d q pattern (p # ps) nb nb'"
  unfolding split_post_def
proof (intro conjI allI impI ballI)
  show "bucket_wf hb d q nb'"
    using post by (simp add: split_post_def)
next
  fix k v assume k: "live hb d q k" "bucket_map nb' k = Some v"
  then have "bucket_map (split_pair hb pattern p nb) k = Some v \<or> (\<exists>p\<in>set ps. p_key p = k \<and> p_value p = v)"
    using post by (auto simp: split_post_def)
  then show "bucket_map nb k = Some v \<or> (\<exists>p\<in>set (p # ps). p_key p = k \<and> p_value p = v)"
    using map [OF k(1)] by (auto split: if_splits)
next
  fix k v assume k: "live hb d q k" "bucket_map nb k = Some v"
  then have "bucket_map (split_pair hb pattern p nb) k = Some v"
    using map [OF k(1)] p(2) by auto
  then show "bucket_map nb' k = Some v"
    using post k(1) by (simp add: split_post_def)
next
  fix p' assume fits: "split_fits hb d q pattern (p # ps) nb" and p': "p' \<in> set (p # ps)" "live hb d q (p_key p')"
  have "bucket_map nb' (p_key p) = Some (p_value p)"
    using fits p(1) map [OF p(1)] post by (simp add: split_post_def)
  moreover have "bucket_map nb' (p_key p') = Some (p_value p')" if "p' \<in> set ps"
    using fits that p'(2) post by (simp add: split_post_def)
  ultimately show "bucket_map nb' (p_key p') = Some (p_value p')"
    using p'(1) by auto
qed

lemma split_fold:
  assumes "bucket_wf hb d q nb"
      and "\<And>p. p \<in> set ps \<Longrightarrow> p_key p \<noteq> SENTINEL"
      and "\<And>p. p \<in> set ps \<Longrightarrow> live hb d q (p_key p) \<Longrightarrow>
             f_hash hb (p_key p) AND pattern \<noteq> 0 \<and> bucket_map nb (p_key p) = None"
      and "distinct (filter (live hb d q) (map p_key ps))"
  shows "split_post hb d q pattern ps nb (fold (split_pair hb pattern) ps nb)"
  using assms
proof (induction ps arbitrary: nb)
  case Nil
  then show ?case by (simp add: split_post_def)
next
  case (Cons p ps)
  let ?nb = "split_pair hb pattern p nb"
  have sent: "p_key p \<noteq> SENTINEL"
    using Cons.prems(2) [of p] by simp
  have dist: "distinct (filter (live hb d q) (map p_key ps))"
    using Cons.prems(4) by (simp split: if_splits)
  show ?case
  proof (cases "live hb d q (p_key p)")
    case True
    have bit: "f_hash hb (p_key p) AND pattern \<noteq> 0" and new: "bucket_map nb (p_key p) = None"
      using Cons.prems(3) [of p] True by simp_all
    note step = split_pair_live [OF Cons.prems(1) True sent bit new]
    have "p_key p \<notin> p_key ` set ps"
      using Cons.prems(4) True by simp
    then have other: "p_key p' \<noteq> p_key p" if "p' \<in> set ps" for p'
      using that by (metis image_eqI)
    have "split_post hb d q pattern ps ?nb (fold (split_pair hb pattern) ps ?nb)"
      by (rule Cons.IH [OF step(1) _ _ dist])
         (use Cons.prems(2,3) step(2) other in \<open>auto split: if_splits\<close>)
    then show ?thesis
      using split_post_live [OF _ True new step(2)] by simp
  next
    case False
    note step = split_pair_dead [OF Cons.prems(1) False sent]
    have "split_post hb d q pattern ps ?nb (fold (split_pair hb pattern) ps ?nb)"
      by (rule Cons.IH [OF step(1) _ _ dist]) (use Cons.prems(2,3) step(2) in auto)
    then show ?thesis
      using split_post_dead [OF _ False step(2)] by simp
  qed
qed

lemma live_shorter:
  assumes "d < 64" "live hb (d + 1) q k"
  shows "live hb d (q div 2) k"
  using assms prefix_prefix [of d "d + 1" hb k] by (simp add: live_def)

lemma live_extend:
  assumes "d < 64"
  shows "live hb d q k \<longleftrightarrow> live hb (d + 1) (2 * q) k \<or> live hb (d + 1) (2 * q + 1) k"
proof -
  have "prefix hb d k = prefix hb (d + 1) k div 2"
    using assms prefix_prefix [of d "d + 1" hb k] by simp
  then show ?thesis
    by (auto simp: live_def)
qed

lemma bucket_wf_longer:
  assumes "bucket_wf hb d q b" "\<And>k. live hb d' q' k \<Longrightarrow> live hb d q k"
  shows "bucket_wf hb d' q' b"
  using assms unfolding bucket_wf_def by meson

lemma split_old_wf:
  assumes "bucket_wf hb d q b" "d < 64"
  shows "bucket_wf hb (d + 1) (2 * q) b"
  using assms(1) live_extend [OF assms(2)] by (rule bucket_wf_longer [OF _ iffD2, OF _ _ disjI1])

lemma bucket_wf_empty:
  assumes "length b = kNumSlot" "\<And>p. p \<in> set b \<Longrightarrow> p_key p = INVALID"
  shows "bucket_wf hb d q b" "bucket_map b k = None"
proof -
  have "p_key (b ! i) = INVALID" if "i < kNumSlot" for i
    using assms that by auto
  then show "bucket_wf hb d q b" "bucket_map b k = None"
    using assms(1) by (auto simp: bucket_wf_def live_def INVALID_def SENTINEL_def bucket_map_None)
qed

lemma live_distinct:
  assumes "bucket_wf hb d q b"
  shows "distinct (filter (live hb d q) (map p_key b))"
proof -
  have "distinct (map (\<lambda>i. p_key (b ! i)) (filter (\<lambda>i. live hb d q (p_key (b ! i))) [0..<length b]))"
    unfolding distinct_map
    using bucket_wf_unique [OF assms] bucket_wf_length [OF assms] by (auto intro!: inj_onI)
  moreover have "map (\<lambda>i. p_key (b ! i)) (filter (\<lambda>i. live hb d q (p_key (b ! i))) [0..<length b])
      = filter (live hb d q) (map p_key (map ((!) b) [0..<length b]))"
    by (simp add: filter_map comp_def)
  ultimately show ?thesis
    by (simp add: map_nth)
qed

text \<open>Segment::Split as a whole: the pairs of the new segment are live pairs of the old one, and
  are all of them with the new prefix if every moved pair found a place.\<close>

lemma split_new:
  assumes wf: "bucket_wf hb d q b" and d: "d < 64"
      and nb: "length nb = kNumSlot" "\<And>p. p \<in> set nb \<Longrightarrow> p_key p = INVALID"
  defines "pattern \<equiv> push_bit (64 - d - 1) (1 :: 64 word)"
  defines "b1 \<equiv> fold (split_pair hb pattern) b nb"
  shows "bucket_wf hb (d + 1) (2 * q + 1) b1"
    and "live hb (d + 1) (2 * q + 1) k \<Longrightarrow> bucket_map b1 k = Some v \<Longrightarrow> bucket_map b k = Some v"
    and "live hb (d + 1) (2 * q + 1) k \<Longrightarrow> split_fits hb (d + 1) (2 * q + 1) pattern b nb \<Longrightarrow>
           bucket_map b1 k = bucket_map b k"
proof -
  let ?live = "live hb (d + 1) (2 * q + 1)"
  have len: "length b = kNumSlot"
    using wf by (rule bucket_wf_length)
  have wf': "bucket_wf hb (d + 1) (2 * q + 1) b"
    using wf live_extend [OF d] by (rule bucket_wf_longer [OF _ iffD2, OF _ _ disjI2])
  have post: "split_post hb (d + 1) (2 * q + 1) pattern b nb b1"
    unfolding b1_def
  proof (rule split_fold)
    show "p_key p \<noteq> SENTINEL" if "p \<in> set b" for p
      using that bucket_wf_sentinel [OF wf] len by (auto simp: in_set_conv_nth)
    show "f_hash hb (p_key p) AND pattern \<noteq> 0 \<and> bucket_map nb (p_key p) = None"
      if "?live (p_key p)" for p
      using that bucket_wf_empty(2) [OF nb] unfolding pattern_def prefix_bit [OF d]
      by (simp add: live_def)
  qed (use bucket_wf_empty(1) [OF nb] live_distinct [OF wf'] in auto)
  then show "bucket_wf hb (d + 1) (2 * q + 1) b1"
    by (simp add: split_post_def)
  have slot: "bucket_map b (p_key p) = Some (p_value p)" if "p \<in> set b" "?live (p_key p)" for p
    using that bucket_map_slot [OF wf'] len by (auto simp: in_set_conv_nth)
  show old: "bucket_map b k = Some v" if k: "?live k" "bucket_map b1 k = Some v" for k v
  proof -
    have "bucket_map nb k = Some v \<or> (\<exists>p\<in>set b. p_key p = k \<and> p_value p = v)"
      using post k unfolding split_post_def by blast
    then obtain p where "p \<in> set b" "p_key p = k" "p_value p = v"
      using bucket_wf_empty(2) [OF nb, of k] by auto
    then show ?thesis
      using slot k(1) by metis
  qed
  show "bucket_map b1 k = bucket_map b k"
    if k: "?live k" and fits: "split_fits hb (d + 1) (2 * q + 1) pattern b nb"
  proof (cases "bucket_map b k")
    case None
    then show ?thesis
      using old [OF k] by (cases "bucket_map b1 k") auto
  next
    case (Some v)
    then obtain i where i: "i < kNumSlot" "p_key (b ! i) = k"
      using bucket_map_SomeD by blast
    then have "bucket_map b1 k = Some (p_value (b ! i))"
      using post fits k len by (auto simp: split_post_def)
    then show ?thesis
      using slot [of "b ! i"] i k len by simp
  qed
qed

end
