(* ===== verification/CcehTable.thy ===== *)
theory CcehTable
  imports Cceh
begin

unbundle bit_operations_syntax

text \<open>
  The directory of the CCEH table: the invariant that ties the entries to the local depths of the
  segments, the finite map the table stands for, and the effect of a split on both.
\<close>

section \<open>The invariant and the abstract map\<close>

definition entry_ok :: "hash_bytes \<Rightarrow> (nat \<Rightarrow> Segment option) \<Rightarrow> nat \<Rightarrow> nat list \<Rightarrow> nat \<Rightarrow> Segment \<Rightarrow> bool" where
  "entry_ok hb sg g E x seg \<longleftrightarrow>
     E ! x \<noteq> 0 \<and> sg (E ! x) = Some seg
     \<and> 1 \<le> local_depth seg \<and> local_depth seg \<le> g \<and> sema seg = 0
     \<and> bucket_wf hb (local_depth seg) (x div 2 ^ (g - local_depth seg)) (bucket seg)
     \<and> (\<forall>y<2 ^ g. E ! y = E ! x \<longleftrightarrow> y div 2 ^ (g - local_depth seg) = x div 2 ^ (g - local_depth seg))"

definition table_ok :: "hash_bytes \<Rightarrow> (nat \<Rightarrow> Segment option) \<Rightarrow> nat \<Rightarrow> nat list \<Rightarrow> bool" where
  "table_ok hb sg g E \<longleftrightarrow>
     1 \<le> g \<and> g \<le> 31 \<and> length E = 2 ^ g \<and> (\<forall>x<2 ^ g. \<exists>seg. entry_ok hb sg g E x seg)"

definition table_map :: "hash_bytes \<Rightarrow> (nat \<Rightarrow> Segment option) \<Rightarrow> nat \<Rightarrow> nat list \<Rightarrow> 64 word \<Rightarrow> 64 word option" where
  "table_map hb sg g E k =
     (case sg (E ! prefix hb g k) of None \<Rightarrow> None | Some seg \<Rightarrow> bucket_map (bucket seg) k)"

definition cceh_ok :: "hash_bytes \<Rightarrow> cceh \<Rightarrow> bool" where
  "cceh_ok hb s \<longleftrightarrow>
     dir s \<noteq> 0 \<and> 0 < next_oid s
     \<and> (\<forall>p. next_oid s \<le> p \<longrightarrow> segs s p = None \<and> dirs s p = None)
     \<and> (case dirs s (dir s) of None \<Rightarrow> False | Some d \<Rightarrow>
          d_sema d = 0 \<and> capacity d = 2 ^ depth d \<and> table_ok hb (segs s) (depth d) (segment d))"

definition cceh_map :: "hash_bytes \<Rightarrow> cceh \<Rightarrow> 64 word \<Rightarrow> 64 word option" where
  "cceh_map hb s k =
     (case dirs s (dir s) of None \<Rightarrow> None
      | Some d \<Rightarrow> table_map hb (segs s) (depth d) (segment d) k)"

lemma entry_okD:
  assumes "entry_ok hb sg g E x seg"
  shows "E ! x \<noteq> 0" "sg (E ! x) = Some seg" "1 \<le> local_depth seg" "local_depth seg \<le> g" "sema seg = 0"
    and "bucket_wf hb (local_depth seg) (x div 2 ^ (g - local_depth seg)) (bucket seg)"
    and "y < 2 ^ g \<Longrightarrow> E ! y = E ! x \<longleftrightarrow> y div 2 ^ (g - local_depth seg) = x div 2 ^ (g - local_depth seg)"
  using assms unfolding entry_ok_def by blast+

lemma table_ok_entry:
  assumes "table_ok hb sg g E" "x < 2 ^ g"
  obtains seg where "entry_ok hb sg g E x seg"
  using assms by (auto simp: table_ok_def)

text \<open>The segment a key belongs to has the prefix of the key.\<close>

lemma entry_prefix:
  assumes "entry_ok hb sg g E (prefix hb g k) seg" "g \<le> 64"
  shows "prefix hb g k div 2 ^ (g - local_depth seg) = prefix hb (local_depth seg) k"
  using prefix_prefix [of "local_depth seg" g hb k] entry_okD(4) [OF assms(1)] assms(2) by simp

lemma entry_live:
  assumes "entry_ok hb sg g E (prefix hb g k) seg" "g \<le> 64" "k \<noteq> INVALID"
  shows "live hb (local_depth seg) (prefix hb g k div 2 ^ (g - local_depth seg)) k"
  using entry_prefix [OF assms(1,2)] assms(3) by (simp add: live_def)

section \<open>Storing into a segment\<close>

lemma table_update:
  assumes ok: "table_ok hb sg g E" and x: "x < 2 ^ g" and e: "entry_ok hb sg g E x seg"
      and wf: "bucket_wf hb (local_depth seg) (x div 2 ^ (g - local_depth seg)) b"
  shows "table_ok hb (sg(E ! x \<mapsto> seg\<lparr>bucket := b\<rparr>)) g E"
proof -
  let ?sg = "sg(E ! x \<mapsto> seg\<lparr>bucket := b\<rparr>)"
  have "\<exists>seg'. entry_ok hb ?sg g E y seg'" if y: "y < 2 ^ g" for y
  proof (cases "E ! y = E ! x")
    case True
    then have q: "y div 2 ^ (g - local_depth seg) = x div 2 ^ (g - local_depth seg)"
      using entry_okD(7) [OF e y] by simp
    have "entry_ok hb ?sg g E y (seg\<lparr>bucket := b\<rparr>)"
      using entry_okD [OF e] wf True q by (simp add: entry_ok_def)
    then show ?thesis ..
  next
    case False
    obtain seg' where "entry_ok hb sg g E y seg'"
      by (rule table_ok_entry [OF ok y])
    then have "entry_ok hb ?sg g E y seg'"
      using False by (simp add: entry_ok_def)
    then show ?thesis ..
  qed
  then show ?thesis
    using ok by (simp add: table_ok_def)
qed

lemma table_map_update:
  assumes ok: "table_ok hb sg g E" and e: "entry_ok hb sg g E x seg" and x: "x < 2 ^ g"
  shows "table_map hb (sg(E ! x \<mapsto> seg\<lparr>bucket := b\<rparr>)) g E k =
         (if E ! prefix hb g k = E ! x then bucket_map b k else table_map hb sg g E k)"
  by (simp add: table_map_def)

section \<open>The effect of a split\<close>

lemma div_pow_le:
  fixes x :: nat
  assumes "a \<le> b"
  shows "x div 2 ^ b = (x div 2 ^ a) div 2 ^ (b - a)"
proof -
  have "b = a + (b - a)"
    using assms by simp
  then show ?thesis
    by (metis power_add div_mult2_eq)
qed

text \<open>The new directory has the depth \<open>g'\<close> of the old one or one more; the entries whose
  prefix is the old one followed by a 1 point to the new segment \<open>s1\<close>.\<close>

definition split_entries :: "nat \<Rightarrow> nat list \<Rightarrow> nat \<Rightarrow> nat \<Rightarrow> nat \<Rightarrow> nat \<Rightarrow> nat list \<Rightarrow> bool" where
  "split_entries g E d q s1 g' E' \<longleftrightarrow>
     length E' = 2 ^ g' \<and>
     (\<forall>y<2 ^ g'. E' ! y = (if y div 2 ^ (g' - d - 1) = 2 * q + 1 then s1 else E ! (y div 2 ^ (g' - g))))"

lemma table_split:
  assumes ok: "table_ok hb sg g E" and x: "x < 2 ^ g" and e: "entry_ok hb sg g E x seg"
      and g': "g \<le> g'" "g' \<le> g + 1" "local_depth seg < g'" "g' \<le> 31"
      and E': "split_entries g E (local_depth seg) (x div 2 ^ (g - local_depth seg)) s1 g' E'"
      and s1: "s1 \<noteq> 0" "sg s1 = None"
      and seg1: "local_depth seg1 = local_depth seg + 1" "sema seg1 = 0"
        "bucket_wf hb (local_depth seg + 1) (2 * (x div 2 ^ (g - local_depth seg)) + 1) (bucket seg1)"
  shows "table_ok hb (sg(E ! x \<mapsto> seg\<lparr>local_depth := local_depth seg + 1\<rparr>, s1 \<mapsto> seg1)) g' E'"
proof -
  define d where "d = local_depth seg"
  define q where "q = x div 2 ^ (g - d)"
  define sg' where "sg' = sg(E ! x \<mapsto> seg\<lparr>local_depth := local_depth seg + 1\<rparr>, s1 \<mapsto> seg1)"
  note eD = entry_okD [OF e, folded d_def]
  have fresh: "E ! y \<noteq> s1" if "y < 2 ^ g" for y
    using table_ok_entry [OF ok that] s1(2) by (metis entry_okD(2) option.distinct(1))
  have low: "y div 2 ^ (g' - g) < 2 ^ g" if "y < 2 ^ g'" for y :: nat
    using that g' by (simp add: less_mult_imp_div_less flip: power_add)
  have low_div: "y div 2 ^ (g' - g) div 2 ^ (g - c) = y div 2 ^ (g' - c)" if "c \<le> g" for y c :: nat
    using div_pow_le [of "g' - g" "g' - c" y] that g' by simp
  have half: "y div 2 ^ (g' - d) = y div 2 ^ (g' - d - 1) div 2" for y :: nat
    using div_pow_le [of "g' - d - 1" "g' - d" y] g'(3) by (simp add: d_def)
  have nth: "E' ! y = (if y div 2 ^ (g' - d - 1) = 2 * q + 1 then s1 else E ! (y div 2 ^ (g' - g)))"
    if "y < 2 ^ g'" for y
    using E' that unfolding split_entries_def q_def d_def by blast
  have at_x: "E ! (y div 2 ^ (g' - g)) = E ! x \<longleftrightarrow> y div 2 ^ (g' - d - 1) div 2 = q" if "y < 2 ^ g'" for y
    using eD(7) [OF low [OF that]] low_div [OF eD(4), of y] half [of y] by (simp add: q_def)
  have "\<exists>seg'. entry_ok hb sg' g' E' y seg'" if y: "y < 2 ^ g'" for y
  proof -
    let ?y = "y div 2 ^ (g' - g)"
    consider (new) "y div 2 ^ (g' - d - 1) = 2 * q + 1"
      | (old) "y div 2 ^ (g' - d - 1) = 2 * q"
      | (other) "y div 2 ^ (g' - d - 1) div 2 \<noteq> q"
      by linarith
    then show ?thesis
    proof cases
      case new
      have "E' ! z = s1 \<longleftrightarrow> z div 2 ^ (g' - d - 1) = 2 * q + 1" if "z < 2 ^ g'" for z
        using nth [OF that] fresh [OF low [OF that]] by auto
      then have "entry_ok hb sg' g' E' y seg1"
        using nth [OF y] new s1 seg1 g'(3) unfolding entry_ok_def
        by (simp add: sg'_def d_def [symmetric] q_def [symmetric])
      then show ?thesis ..
    next
      case old
      then have Ey: "E' ! y = E ! x"
        using nth [OF y] at_x [OF y] by simp
      have "E' ! z = E ! x \<longleftrightarrow> z div 2 ^ (g' - d - 1) = 2 * q" if "z < 2 ^ g'" for z
        using nth [OF that] at_x [OF that] fresh [OF x] by (auto split: if_splits)
      then have "entry_ok hb sg' g' E' y (seg\<lparr>local_depth := local_depth seg + 1\<rparr>)"
        using Ey old eD g'(3,4) fresh [OF x] split_old_wf [OF eD(6)] unfolding entry_ok_def
        by (simp add: sg'_def d_def [symmetric] q_def [symmetric])
      then show ?thesis ..
    next
      case other
      then have Ey: "E' ! y = E ! ?y"
        using nth [OF y] by auto
      obtain seg' where e': "entry_ok hb sg g E ?y seg'"
        by (rule table_ok_entry [OF ok low [OF y]])
      note e'D = entry_okD [OF e']
      have ne: "E ! ?y \<noteq> E ! x"
        using at_x [OF y] other by simp
      have "E' ! z = E ! ?y \<longleftrightarrow> z div 2 ^ (g' - local_depth seg') = y div 2 ^ (g' - local_depth seg')"
        if z: "z < 2 ^ g'" for z
      proof -
        have "E' ! z = E ! ?y \<longleftrightarrow> E ! (z div 2 ^ (g' - g)) = E ! ?y"
          using nth [OF z] at_x [OF z] ne fresh [OF low [OF y]] by auto
        then show ?thesis
          using e'D(7) [OF low [OF z]] low_div [OF e'D(4)] by simp
      qed
      then have "entry_ok hb sg' g' E' y seg'"
        using Ey e'D ne g'(1) fresh [OF low [OF y]] low_div [OF e'D(4), of y] unfolding entry_ok_def
        by (simp add: sg'_def)
      then show ?thesis ..
    qed
  qed
  then show ?thesis
    using g' ok E' by (simp add: table_ok_def sg'_def split_entries_def)
qed

lemma table_split_map:
  assumes ok: "table_ok hb sg g E" and x: "x < 2 ^ g" and e: "entry_ok hb sg g E x seg"
      and g': "g \<le> g'" "g' \<le> g + 1" "local_depth seg < g'" "g' \<le> 31"
      and E': "split_entries g E (local_depth seg) (x div 2 ^ (g - local_depth seg)) s1 g' E'"
      and s1: "sg s1 = None" and k: "k \<noteq> INVALID"
  shows "table_map hb (sg(E ! x \<mapsto> seg\<lparr>local_depth := local_depth seg + 1\<rparr>, s1 \<mapsto> seg1)) g' E' k =
         (if live hb (local_depth seg + 1) (2 * (x div 2 ^ (g - local_depth seg)) + 1) k
          then bucket_map (bucket seg1) k else table_map hb sg g E k)"
proof -
  let ?p = "prefix hb g' k"
  have p: "?p < 2 ^ g'"
    using g' by (intro prefix_less) simp
  have p': "prefix hb g k < 2 ^ g"
    using g' by (intro prefix_less) simp
  have eq: "?p div 2 ^ (g' - g) = prefix hb g k"
    using prefix_prefix [of g g' hb k] g' by simp
  have d: "?p div 2 ^ (g' - local_depth seg - 1) = prefix hb (local_depth seg + 1) k"
    using prefix_prefix [of "local_depth seg + 1" g' hb k] g' by simp
  have fresh: "E ! prefix hb g k \<noteq> s1"
    using table_ok_entry [OF ok p'] s1 by (metis entry_okD(2) option.distinct(1))
  have "E' ! ?p = (if prefix hb (local_depth seg + 1) k = 2 * (x div 2 ^ (g - local_depth seg)) + 1
                   then s1 else E ! prefix hb g k)"
    using E' p unfolding split_entries_def eq [symmetric] d [symmetric] by blast
  then show ?thesis
    using k fresh entry_okD(2) [OF e] by (auto simp: table_map_def live_def)
qed

end
