(* ===== verification/CcehOps.thy ===== *)
theory CcehOps
  imports CcehTable
begin

unbundle bit_operations_syntax

text \<open>
  The operations of the CCEH table against the finite map it stands for: creation, insertion with
  its splits, search, recovery of the directory and the two statistics.
\<close>

section \<open>Execution lemmas\<close>

lemma seg_at_Some: "p \<noteq> 0 \<Longrightarrow> segs s p = Some g \<Longrightarrow> seg_at p s = Inr (g, s)"
  by (simp add: seg_at_def)

lemma dir_at_Some: "p \<noteq> 0 \<Longrightarrow> dirs s p = Some d \<Longrightarrow> dir_at p s = Inr (d, s)"
  by (simp add: dir_at_def)

lemma top_bits_prefix:
  "1 \<le> d \<Longrightarrow> d \<le> 64 \<Longrightarrow> top_bits (f_hash hb k) d s = Inr (prefix hb d k, s)"
  by (simp add: top_bits_def ret_def prefix_def)

lemma pobj_alloc_ok:
  "n \<le> pool_room s \<Longrightarrow>
   pobj_alloc n s = Inr (next_oid s, s\<lparr>next_oid := next_oid s + 1, pool_room := pool_room s - n\<rparr>)"
  by (simp add: pobj_alloc_def)

lemma insert_loop_append:
  "insert_loop hb d q k v (xs @ ys) b =
     (case insert_loop hb d q k v xs b of
        (True, b') \<Rightarrow> (True, b')
      | (False, b') \<Rightarrow> insert_loop hb d q k v ys b)"
  by (induction xs) (auto simp: Let_def CAS_def split: prod.splits bool.splits if_splits)

lemma cceh_okE:
  assumes "cceh_ok hb s"
  obtains d seg where "dirs s (dir s) = Some d" "dir s \<noteq> 0" "0 < next_oid s"
    "d_sema d = 0" "capacity d = 2 ^ depth d" "table_ok hb (segs s) (depth d) (segment d)"
    "entry_ok hb (segs s) (depth d) (segment d) (prefix hb (depth d) k) seg"
    "1 \<le> depth d" "depth d \<le> 31" "length (segment d) = 2 ^ depth d"
    "prefix hb (depth d) k < 2 ^ depth d"
    "\<And>p. next_oid s \<le> p \<Longrightarrow> segs s p = None" "\<And>p. next_oid s \<le> p \<Longrightarrow> dirs s p = None"
proof -
  obtain d where d: "dirs s (dir s) = Some d" "d_sema d = 0" "capacity d = 2 ^ depth d"
    "table_ok hb (segs s) (depth d) (segment d)"
    using assms by (auto simp: cceh_ok_def split: option.splits)
  then have g: "1 \<le> depth d" "depth d \<le> 31" "length (segment d) = 2 ^ depth d"
    by (auto simp: table_ok_def)
  have p: "prefix hb (depth d) k < 2 ^ depth d"
    using g by (intro prefix_less) simp
  obtain seg where "entry_ok hb (segs s) (depth d) (segment d) (prefix hb (depth d) k) seg"
    by (rule table_ok_entry [OF d(4) p])
  then show ?thesis
    using that d g p assms by (auto simp: cceh_ok_def)
qed

section \<open>Updating the directory\<close>

lemma nth_concat_pairs:
  "length (concat (map (\<lambda>i. [f i, g i]) [0..<n])) = 2 * n \<and>
   (\<forall>y<2 * n. concat (map (\<lambda>i. [f i, g i]) [0..<n]) ! y = (if even y then f (y div 2) else g (y div 2)))"
proof (induction n)
  case (Suc n)
  show ?case
  proof (intro conjI allI impI)
    fix y assume "y < 2 * Suc n"
    then have "y < 2 * n \<or> y = 2 * n \<or> y = 2 * n + 1"
      by arith
    then consider "y < 2 * n" | "y = 2 * n" | "y = 2 * n + 1"
      by blast
    then show "concat (map (\<lambda>i. [f i, g i]) [0..<Suc n]) ! y = (if even y then f (y div 2) else g (y div 2))"
      using Suc by cases (auto simp: nth_append)
  qed (use Suc in simp)
qed simp

lemma double_entries:
  assumes "x < 2 ^ g" "length E = 2 ^ g"
  shows "split_entries g E g x s1 (g + 1)
           (concat (map (\<lambda>i. if i = x then [E ! x, s1] else [E ! i, E ! i]) [0..<2 ^ g]))"
proof -
  have eq: "(\<lambda>i. if i = x then [E ! x, s1] else [E ! i, E ! i]) = (\<lambda>i. [E ! i, if i = x then s1 else E ! i])"
    by auto
  have "(y = 2 * x + 1) = (odd y \<and> y div 2 = x)" for y
    by auto
  then show ?thesis
    using nth_concat_pairs [of "\<lambda>i. E ! i" "\<lambda>i. if i = x then s1 else E ! i" "2 ^ g"]
    unfolding split_entries_def eq by auto
qed

lemma stride_put_ok:
  assumes "from + n \<le> length xs"
  shows "\<exists>xs'. stride_put from s1 n xs s = Inr (xs', s) \<and> length xs' = length xs
           \<and> (\<forall>y<length xs. xs' ! y = (if from \<le> y \<and> y < from + n then s1 else xs ! y))"
  using assms
proof (induction n arbitrary: "from" xs)
  case 0
  then show ?case by (simp add: ret_def)
next
  case (Suc n)
  have "from + 1 + n \<le> length (xs[from := s1])"
    using Suc.prems by simp
  then obtain xs' where xs': "stride_put (from + 1) s1 n (xs[from := s1]) s = Inr (xs', s)"
    "length xs' = length xs"
    "\<forall>y<length xs. xs' ! y = (if from + 1 \<le> y \<and> y < from + 1 + n then s1 else xs[from := s1] ! y)"
    using Suc.IH [of "from + 1" "xs[from := s1]"] by auto
  show ?case
  proof (intro exI conjI allI impI)
    show "stride_put from s1 (Suc n) xs s = Inr (xs', s)"
      using xs'(1) Suc.prems by (simp add: bnd_def entry_put_def ret_def)
    show "xs' ! y = (if from \<le> y \<and> y < from + Suc n then s1 else xs ! y)" if "y < length xs" for y
      using xs'(3) that Suc.prems by (auto simp: nth_list_update)
  qed (rule xs'(2))
qed

lemma div_eq_interval:
  fixes y q n :: nat
  assumes "0 < n"
  shows "y div n = q \<longleftrightarrow> q * n \<le> y \<and> y < q * n + n"
proof -
  have "y div n = q \<longleftrightarrow> q \<le> y div n \<and> y div n < q + 1"
    by auto
  also have "\<dots> \<longleftrightarrow> q * n \<le> y \<and> y < (q + 1) * n"
    using assms by (simp add: less_eq_div_iff_mult_less_eq div_less_iff_less_mult)
  finally show ?thesis
    by (simp add: algebra_simps)
qed

lemma normal_entries:
  assumes x: "x < 2 ^ g" and E: "length E = 2 ^ g" and d: "d < g" "1 \<le> d" "g \<le> 31"
  shows "\<exists>E'. update_entries E g x d d s1 s = Inr (E', s) \<and> split_entries g E d (x div 2 ^ (g - d)) s1 g E'"
proof (cases "g = d + 1")
  case True
  let ?i = "if x mod 2 = 0 then x + 1 else x"
  have i: "?i = 2 * (x div 2) + 1"
    by presburger
  have "x div 2 < 2 ^ d"
    using x True by simp
  then have len: "?i < 2 ^ g"
    unfolding i using True by simp
  have "split_entries g E d (x div 2 ^ (g - d)) s1 g (E[?i := s1])"
    unfolding i using E len True by (auto simp: split_entries_def nth_list_update i)
  moreover have "(if x mod 2 = 0 then entry_put E (x + 1) s1 else entry_put E x s1) s = Inr (E[?i := s1], s)"
    using len E by (auto simp: entry_put_def ret_def)
  ultimately show ?thesis
    using True by (auto simp: update_entries_def)
next
  case False
  define m where "m = g - d - 1"
  define q where "q = x div 2 ^ (g - d)"
  have gd: "2 ^ (g - d) = 2 * (2 :: nat) ^ m"
    using d(1) by (simp add: m_def flip: power_Suc)
  have stride: "pow2_diff 31 g d = Inr (2 ^ (g - d))"
    using d by (auto simp: pow2_diff_def)
  have "x - x mod 2 ^ (g - d) = q * 2 ^ (g - d)"
    by (simp add: q_def minus_mod_eq_div_mult)
  then have start: "x - x mod 2 ^ (g - d) + 2 ^ (g - d) div 2 = (2 * q + 1) * 2 ^ m"
    unfolding gd by (simp add: algebra_simps)
  have "q < 2 ^ d"
    using x d(1) by (simp add: q_def less_mult_imp_div_less flip: power_add)
  then have "(q + 1) * 2 ^ (g - d) \<le> 2 ^ d * (2 :: nat) ^ (g - d)"
    by (intro mult_right_mono) simp_all
  also have "\<dots> = 2 ^ g"
    using d(1) by (simp flip: power_add)
  finally have "(2 * q + 1) * 2 ^ m + 2 ^ m \<le> length E"
    unfolding gd E by (simp add: algebra_simps)
  from stride_put_ok [OF this, of s1 s] obtain E' where E': "stride_put ((2 * q + 1) * 2 ^ m) s1 (2 ^ m) E s = Inr (E', s)"
    "length E' = length E"
    "\<forall>y<length E. E' ! y = (if (2 * q + 1) * 2 ^ m \<le> y \<and> y < (2 * q + 1) * 2 ^ m + 2 ^ m then s1 else E ! y)"
    by blast
  have "split_entries g E d q s1 g E'"
    using E' E unfolding split_entries_def m_def [symmetric] by (simp add: div_eq_interval)
  moreover have "2 ^ (g - d) div 2 = (2 :: nat) ^ m"
    unfolding gd by simp
  ultimately show ?thesis
    using E'(1) False stride start unfolding q_def update_entries_def by simp
qed

section \<open>One split\<close>

definition fresh_bucket :: "cceh \<Rightarrow> Pair list" where
  "fresh_bucket s = map (\<lambda>p. p\<lparr>p_key := INVALID\<rparr>) (junk_pairs (pool_junk s))"

definition split_bucket :: "hash_bytes \<Rightarrow> nat \<Rightarrow> Pair list \<Rightarrow> Pair list \<Rightarrow> Pair list" where
  "split_bucket hb d b nb = fold (split_pair hb (push_bit (64 - d - 1) 1)) b nb"

lemma fresh_bucket_length: "length (fresh_bucket s) = kNumSlot"
  by (simp add: fresh_bucket_def junk_pairs_def)

lemma fresh_bucket_keys: "p \<in> set (fresh_bucket s) \<Longrightarrow> p_key p = INVALID"
  by (auto simp: fresh_bucket_def)

lemma fresh_bucket_wf: "bucket_wf hb d q (fresh_bucket s)"
  by (rule bucket_wf_empty(1)) (simp_all add: fresh_bucket_length fresh_bucket_keys)

lemma fresh_bucket_map: "bucket_map (fresh_bucket s) k = None"
  by (rule bucket_wf_empty(2)) (simp_all add: fresh_bucket_length fresh_bucket_keys)

lemma split_bucket_new:
  assumes "bucket_wf hb d q b" "d < 64"
  shows "bucket_wf hb (d + 1) (2 * q + 1) (split_bucket hb d b (fresh_bucket s))"
    and "live hb (d + 1) (2 * q + 1) k \<Longrightarrow> bucket_map (split_bucket hb d b (fresh_bucket s)) k = Some v
           \<Longrightarrow> bucket_map b k = Some v"
    and "live hb (d + 1) (2 * q + 1) k
           \<Longrightarrow> split_fits hb (d + 1) (2 * q + 1) (push_bit (64 - d - 1) 1) b (fresh_bucket s)
           \<Longrightarrow> bucket_map (split_bucket hb d b (fresh_bucket s)) k = bucket_map b k"
  unfolding split_bucket_def
  by (rule split_new [OF assms fresh_bucket_length fresh_bucket_keys]; assumption)+

lemma alloc_segment_run:
  "alloc_segment d s =
     (if pool_room s < 16400 then Inl InvalidPtr
      else Inr (next_oid s, s\<lparr>segs := (segs s)(next_oid s \<mapsto> \<lparr>bucket = fresh_bucket s, sema = 0, local_depth = d\<rparr>),
                 next_oid := next_oid s + 1, pool_room := pool_room s - 16400\<rparr>))"
  by (simp add: alloc_segment_def bnd_def seq_def gets_def pobj_alloc_def seg_put_def modify_def ret_def
      initSegment_def fresh_bucket_def)

lemma Split_run:
  assumes "this \<noteq> 0" "segs s this = Some g" "local_depth g < 64" "segs s (next_oid s) = None" "0 < next_oid s"
  shows "Split hb this s =
     (if pool_room s < 16400 then Inl InvalidPtr
      else Inr (next_oid s, s\<lparr>segs := (segs s)(next_oid s \<mapsto>
                   \<lparr>bucket = split_bucket hb (local_depth g) (bucket g) (fresh_bucket s), sema = 0,
                    local_depth = local_depth g + 1\<rparr>),
                 next_oid := next_oid s + 1, pool_room := pool_room s - 16400\<rparr>))"
proof -
  have "next_oid s \<noteq> this"
    using assms by auto
  then show ?thesis
    using assms
    by (simp add: Split_def bnd_def seq_def alloc_segment_run seg_at_def seg_put_def modify_def ret_def
        split_bucket_def Let_def)
qed

text \<open>What a completed split leaves behind.\<close>

definition split_done ::
    "hash_bytes \<Rightarrow> cceh \<Rightarrow> Directory \<Rightarrow> nat \<Rightarrow> Segment \<Rightarrow> cceh \<Rightarrow> bool" where
  "split_done hb s d x seg s' \<longleftrightarrow>
     segs s' = (segs s)(segment d ! x \<mapsto> seg\<lparr>local_depth := local_depth seg + 1\<rparr>,
       next_oid s \<mapsto> \<lparr>bucket = split_bucket hb (local_depth seg) (bucket seg) (fresh_bucket s), sema = 0,
                         local_depth = local_depth seg + 1\<rparr>)
     \<and> dir s' \<noteq> 0 \<and> next_oid s < next_oid s' \<and> (\<forall>p. next_oid s' \<le> p \<longrightarrow> dirs s' p = None)
     \<and> (\<exists>g' E'. dirs s' (dir s') = Some \<lparr>segment = E', d_sema = 0, capacity = 2 ^ g', depth = g'\<rparr>
          \<and> depth d \<le> g' \<and> g' \<le> depth d + 1 \<and> local_depth seg < g' \<and> g' \<le> 31
          \<and> split_entries (depth d) (segment d) (local_depth seg)
              (x div 2 ^ (depth d - local_depth seg)) (next_oid s) g' E')"

lemma double_directory_run:
  assumes d: "dirs s (dir s) = Some d" "dir s \<noteq> 0" "d_sema d = 0" "1 \<le> depth d" "depth d \<le> 31"
      and cap: "capacity d = 2 ^ depth d" "length (segment d) = 2 ^ depth d"
      and s0: "s0 \<noteq> 0" "segs s s0 = Some g"
      and oid: "0 < next_oid s" "\<And>p. next_oid s \<le> p \<Longrightarrow> dirs s p = None"
  shows "double_directory (f_hash hb k) s0 s1 s \<in> {Inl InvalidPtr, Inl SignedOverflow}
    \<or> (depth d \<le> 30 \<and> (\<exists>s'. double_directory (f_hash hb k) s0 s1 s = Inr ((), s')
         \<and> segs s' = (segs s)(s0 \<mapsto> g\<lparr>local_depth := local_depth g + 1, sema := 0\<rparr>)
         \<and> dir s' \<noteq> 0 \<and> next_oid s < next_oid s' \<and> (\<forall>p. next_oid s' \<le> p \<longrightarrow> dirs s' p = None)
         \<and> dirs s' (dir s') = Some \<lparr>segment =
             concat (map (\<lambda>i. if i = prefix hb (depth d) k then [s0, s1] else [segment d ! i, segment d ! i])
               [0..<2 ^ depth d]), d_sema = 0, capacity = 2 ^ (depth d + 1), depth = depth d + 1\<rparr>))"
proof (cases "40 \<le> pool_room s \<and> 16 * 2 ^ depth d * 2 \<le> pool_room s - 40 \<and> depth d \<le> 30")
  case True
  have "(2 :: nat) ^ depth d \<le> 2 ^ 30"
    using True by (intro power_increasing) auto
  then have small: "\<not> (2 :: nat) ^ 31 \<le> 2 ^ depth d"
    by simp
  have "dir s < next_oid s"
    using d(1) oid(2) [of "dir s"] by force
  then show ?thesis
    using True small assms
    by (auto simp: double_directory_def bnd_def seq_def gets_def dir_at_def Directory_suspend_def CAS_def
        dir_put_def modify_def top_bits_prefix pobj_alloc_def seg_at_def seg_put_def initDirectory_def ret_def)
next
  case False
  have big: "(2 :: nat) ^ 31 \<le> 2 ^ depth d" if "\<not> depth d \<le> 30"
    using that by (intro power_increasing) auto
  show ?thesis
    using False big assms
    by (auto simp: double_directory_def bnd_def seq_def gets_def dir_at_def Directory_suspend_def CAS_def
        dir_put_def modify_def top_bits_prefix pobj_alloc_def raise_def split: if_splits)
qed

lemma normal_split_run:
  assumes d: "dirs s (dir s) = Some d" "dir s \<noteq> 0" "d_sema d = 0" "1 \<le> depth d" "depth d \<le> 31"
      and cap: "capacity d = 2 ^ depth d" "length (segment d) = 2 ^ depth d"
      and s0: "s0 \<noteq> 0" "segs s s0 = Some g" "local_depth g < depth d" "1 \<le> local_depth g"
  shows "\<exists>s' E'. normal_split (f_hash hb k) (local_depth g) s0 s1 s = Inr ((), s')
         \<and> segs s' = (segs s)(s0 \<mapsto> g\<lparr>local_depth := local_depth g + 1, sema := 0\<rparr>)
         \<and> dir s' = dir s \<and> next_oid s' = next_oid s
         \<and> dirs s' = (dirs s)(dir s \<mapsto> \<lparr>segment = E', d_sema = 0, capacity = 2 ^ depth d, depth = depth d\<rparr>)
         \<and> split_entries (depth d) (segment d) (local_depth g)
             (prefix hb (depth d) k div 2 ^ (depth d - local_depth g)) s1 (depth d) E'"
proof -
  let ?x = "prefix hb (depth d) k"
  have x: "?x < 2 ^ depth d"
    using d by (intro prefix_less) simp
  obtain E' where E': "update_entries (segment d) (depth d) ?x (local_depth g) (local_depth g) s1 s = Inr (E', s)"
    "split_entries (depth d) (segment d) (local_depth g) (?x div 2 ^ (depth d - local_depth g)) s1 (depth d) E'"
    using normal_entries [OF x cap(2) s0(3,4) d(5), of s1 s] by blast
  let ?d = "\<lparr>segment = E', d_sema = 0, capacity = 2 ^ depth d, depth = depth d\<rparr>"
  let ?s = "s\<lparr>dirs := (dirs s)(dir s \<mapsto> ?d), segs := (segs s)(s0 \<mapsto> g\<lparr>local_depth := local_depth g + 1, sema := 0\<rparr>)\<rparr>"
  have unlock: "Directory_unlock (d\<lparr>d_sema := 1, segment := E'\<rparr>) = ?d"
    using d(3) cap by (cases d) (simp add: Directory_unlock_def CAS_def)
  have "normal_split (f_hash hb k) (local_depth g) s0 s1 s = Inr ((), ?s)"
    using d s0 E'(1) unlock
    by (simp add: normal_split_def bnd_def seq_def gets_def dir_at_def Directory_lock_def CAS_def
        dir_put_def modify_def top_bits_prefix seg_at_def seg_put_def)
  then show ?thesis
    using E'(2) by force
qed

lemma insert_split_run:
  assumes ok: "cceh_ok hb s" and d: "dirs s (dir s) = Some d"
      and e: "entry_ok hb (segs s) (depth d) (segment d) (prefix hb (depth d) k) seg"
  defines "t \<equiv> segment d ! prefix hb (depth d) k"
  shows "insert_split hb k t (s\<lparr>segs := (segs s)(t \<mapsto> seg\<lparr>sema := 1\<rparr>)\<rparr>) \<in> {Inl InvalidPtr, Inl SignedOverflow}
    \<or> (\<exists>s'. insert_split hb k t (s\<lparr>segs := (segs s)(t \<mapsto> seg\<lparr>sema := 1\<rparr>)\<rparr>) = Inr ((), s')
          \<and> split_done hb s d (prefix hb (depth d) k) seg s')"
proof -
  note eD = entry_okD [OF e, folded t_def]
  obtain b ld where seg: "seg = \<lparr>bucket = b, sema = 0, local_depth = ld\<rparr>"
    using eD(5) by (cases seg) simp
  obtain d' where dd: "d' = d" "dir s \<noteq> 0" "0 < next_oid s" "d_sema d = 0" "capacity d = 2 ^ depth d"
    "1 \<le> depth d" "depth d \<le> 31" "length (segment d) = 2 ^ depth d" "prefix hb (depth d) k < 2 ^ depth d"
    and oid: "\<And>p. next_oid s \<le> p \<Longrightarrow> segs s p = None" "\<And>p. next_oid s \<le> p \<Longrightarrow> dirs s p = None"
    using cceh_okE [OF ok, of k] d by (metis option.inject)
  define n where "n = next_oid s"
  have n: "segs s n = None" "t \<noteq> n" "n \<noteq> 0" "dir s < n"
    using oid(1) [of n] oid(2) [of "dir s"] eD(2) d dd(3) unfolding n_def by (auto intro: leI)
  have ld: "1 \<le> ld" "ld \<le> depth d" "ld < 64"
    using eD(3,4) dd(7) seg by simp_all
  define new where "new = \<lparr>bucket = split_bucket hb ld b (fresh_bucket s), sema = 0, local_depth = ld + 1\<rparr>"
  define s3 where "s3 = s\<lparr>segs := (segs s)(t \<mapsto> \<lparr>bucket = b, sema = - 1, local_depth = ld\<rparr>, n \<mapsto> new),
     next_oid := n + 1, pool_room := pool_room s - 16400\<rparr>"
  have fb: "fresh_bucket (s\<lparr>segs := f\<rparr>) = fresh_bucket s" for f
    by (simp add: fresh_bucket_def)
  have run: "insert_split hb k t (s\<lparr>segs := (segs s)(t \<mapsto> seg\<lparr>sema := 1\<rparr>)\<rparr>) =
      (if pool_room s < 16400 then Inl InvalidPtr
       else if ld = depth d then double_directory (f_hash hb k) t n s3
       else normal_split (f_hash hb k) ld t n s3)"
    using eD(1) n d dd ld
    by (simp add: insert_split_def bnd_def seq_def seg_at_def Let_def Segment_unlock_def Segment_suspend_def
        CAS_def seg_put_def modify_def seg Split_run cur_dir_def gets_def dir_at_def fb s3_def new_def n_def)
  have t3: "segs s3 t = Some \<lparr>bucket = b, sema = - 1, local_depth = ld\<rparr>"
    using n(2) by (simp add: s3_def)
  have segs': "(segs s3)(t \<mapsto> \<lparr>bucket = b, sema = - 1, local_depth = ld\<rparr>\<lparr>local_depth := ld + 1, sema := 0\<rparr>)
      = (segs s)(t \<mapsto> seg\<lparr>local_depth := ld + 1\<rparr>, n \<mapsto> new)"
    using n(2) by (auto simp: s3_def seg)
  have d3: "dirs s3 (dir s3) = Some d" "dir s3 \<noteq> 0" "0 < next_oid s3" "\<And>p. next_oid s3 \<le> p \<Longrightarrow> dirs s3 p = None"
    using d dd oid by (simp_all add: s3_def n_def)
  show ?thesis
  proof (cases "pool_room s < 16400")
    case True
    then show ?thesis by (simp add: run)
  next
    case room: False
    show ?thesis
    proof (cases "ld = depth d")
      case True
      have q: "split_entries (depth d) (segment d) ld (prefix hb (depth d) k div 2 ^ (depth d - ld)) n (depth d + 1)
         (concat (map (\<lambda>i. if i = prefix hb (depth d) k then [t, n] else [segment d ! i, segment d ! i])
               [0..<2 ^ depth d]))"
        using double_entries [OF dd(9,8), of n] True by (simp add: t_def)
      from double_directory_run [OF d3(1,2) dd(4,6,7,5,8) eD(1) t3 d3(3,4), of hb k n]
      show ?thesis
        using run room True q segs' ld unfolding split_done_def t_def [symmetric]
        by (auto simp: seg new_def n_def s3_def)
    next
      case False
      from normal_split_run [OF d3(1,2) dd(4,6,7,5,8) eD(1) t3, of hb k n]
      obtain s' E' where s': "normal_split (f_hash hb k) ld t n s3 = Inr ((), s')"
        "segs s' = (segs s)(t \<mapsto> seg\<lparr>local_depth := ld + 1\<rparr>, n \<mapsto> new)"
        "dir s' = dir s3" "next_oid s' = next_oid s3"
        "dirs s' = (dirs s3)(dir s3 \<mapsto> \<lparr>segment = E', d_sema = 0, capacity = 2 ^ depth d, depth = depth d\<rparr>)"
        "split_entries (depth d) (segment d) ld (prefix hb (depth d) k div 2 ^ (depth d - ld)) n (depth d) E'"
        using False ld segs' by auto
      have "split_done hb s d (prefix hb (depth d) k) seg s'"
        unfolding split_done_def t_def [symmetric]
        using s' False ld dd oid(2) n(4) by (auto simp: seg new_def n_def s3_def)
      then show ?thesis
        using run room False s'(1) by simp
    qed
  qed
qed

definition key_segment :: "hash_bytes \<Rightarrow> cceh \<Rightarrow> 64 word \<Rightarrow> Segment option" where
  "key_segment hb s k =
     (case dirs s (dir s) of None \<Rightarrow> None | Some d \<Rightarrow> segs s (segment d ! prefix hb (depth d) k))"

definition key_depth :: "hash_bytes \<Rightarrow> cceh \<Rightarrow> 64 word \<Rightarrow> nat" where
  "key_depth hb s k = (case key_segment hb s k of None \<Rightarrow> 0 | Some seg \<Rightarrow> local_depth seg)"

text \<open>Splitting the segment of \<open>k\<close> in the state \<open>s\<close> finds a place for every moved pair.\<close>

definition attempt_fits :: "hash_bytes \<Rightarrow> 64 word \<Rightarrow> cceh \<Rightarrow> bool" where
  "attempt_fits hb k s =
     (case key_segment hb s k of None \<Rightarrow> True
      | Some seg \<Rightarrow> let ld = local_depth seg in
          split_fits hb (ld + 1) (2 * prefix hb ld k + 1) (push_bit (64 - ld - 1) 1)
            (bucket seg) (fresh_bucket s))"

lemma cceh_map_INVALID: "cceh_map hb s INVALID = None"
  by (simp add: cceh_map_def table_map_def bucket_map_def split: option.splits)

lemma split_done_ok:
  assumes ok: "cceh_ok hb s" and d: "dirs s (dir s) = Some d"
      and e: "entry_ok hb (segs s) (depth d) (segment d) (prefix hb (depth d) k) seg"
      and sd: "split_done hb s d (prefix hb (depth d) k) seg s'"
  shows "cceh_ok hb s'" "cceh_map hb s' \<subseteq>\<^sub>m cceh_map hb s"
    "attempt_fits hb k s \<Longrightarrow> cceh_map hb s' = cceh_map hb s"
    "key_depth hb s' k = key_depth hb s k + 1"
proof -
  let ?x = "prefix hb (depth d) k"
  obtain d' where dd: "d' = d" "dir s \<noteq> 0" "0 < next_oid s" "d_sema d = 0" "capacity d = 2 ^ depth d"
    "1 \<le> depth d" "depth d \<le> 31" "length (segment d) = 2 ^ depth d" "?x < 2 ^ depth d"
    and oid: "\<And>p. next_oid s \<le> p \<Longrightarrow> segs s p = None" "\<And>p. next_oid s \<le> p \<Longrightarrow> dirs s p = None"
    and tab: "table_ok hb (segs s) (depth d) (segment d)"
    using cceh_okE [OF ok, of k] d by (metis option.inject)
  define ld where "ld = local_depth seg"
  define q where "q = ?x div 2 ^ (depth d - ld)"
  define b1 where "b1 = split_bucket hb ld (bucket seg) (fresh_bucket s)"
  note eD = entry_okD [OF e, folded ld_def, folded q_def]
  have q_prefix: "q = prefix hb ld k"
    using entry_prefix [OF e] dd(7) by (simp add: q_def ld_def)
  have ld: "ld < 64"
    using eD(4) dd(7) by simp
  note new = split_bucket_new [OF eD(6) ld, where s = s, folded b1_def]
  obtain g' E' where s': "dirs s' (dir s') = Some \<lparr>segment = E', d_sema = 0, capacity = 2 ^ g', depth = g'\<rparr>"
    and g': "depth d \<le> g'" "g' \<le> depth d + 1" "local_depth seg < g'" "g' \<le> 31"
    and E': "split_entries (depth d) (segment d) (local_depth seg)
              (?x div 2 ^ (depth d - local_depth seg)) (next_oid s) g' E'"
    and segs': "segs s' = (segs s)(segment d ! ?x \<mapsto> seg\<lparr>local_depth := local_depth seg + 1\<rparr>,
       next_oid s \<mapsto> \<lparr>bucket = b1, sema = 0, local_depth = local_depth seg + 1\<rparr>)"
    and oid': "dir s' \<noteq> 0" "next_oid s < next_oid s'" "\<And>p. next_oid s' \<le> p \<Longrightarrow> dirs s' p = None"
    using sd unfolding split_done_def b1_def ld_def by blast
  have tab': "table_ok hb (segs s') g' E'"
    unfolding segs' using dd(3) oid(1) new(1)
    by (intro table_split [OF tab dd(9) e g' E']) (simp_all add: q_def ld_def)
  have "segs s' p = None" if "next_oid s' \<le> p" for p
  proof -
    have "p \<noteq> segment d ! ?x"
      using that oid'(2) oid(1) [of p] eD(2) by auto
    then show ?thesis
      using that oid'(2) oid(1) [of p] by (simp add: segs')
  qed
  then show "cceh_ok hb s'"
    using oid' s' tab' by (simp add: cceh_ok_def)
  have map': "cceh_map hb s' k' = (if live hb (ld + 1) (2 * q + 1) k' then bucket_map b1 k' else cceh_map hb s k')"
    if "k' \<noteq> INVALID" for k'
    using table_split_map [OF tab dd(9) e g' E' oid(1) [OF order.refl] that,
        of "\<lparr>bucket = b1, sema = 0, local_depth = local_depth seg + 1\<rparr>"]
    by (simp add: cceh_map_def s' d segs' ld_def q_def)
  have old: "cceh_map hb s k' = bucket_map (bucket seg) k'" if "live hb (ld + 1) (2 * q + 1) k'" for k'
  proof -
    have "live hb ld q k'"
      using live_extend [OF ld] that by blast
    then have "prefix hb (depth d) k' div 2 ^ (depth d - ld) = q"
      using prefix_prefix [of ld "depth d" hb k'] eD(4) dd(7) by (simp add: live_def)
    moreover have "prefix hb (depth d) k' < 2 ^ depth d"
      using dd(7) by (intro prefix_less) simp
    ultimately have "segment d ! prefix hb (depth d) k' = segment d ! ?x"
      using eD(7) by simp
    then show ?thesis
      using eD(2) by (simp add: cceh_map_def d table_map_def)
  qed
  have "cceh_map hb s k' = Some v" if v: "cceh_map hb s' k' = Some v" for k' v
  proof -
    have "k' \<noteq> INVALID"
      using v by (auto simp: cceh_map_INVALID)
    then show ?thesis
      using v map' new(2) old by (auto split: if_splits)
  qed
  then show "cceh_map hb s' \<subseteq>\<^sub>m cceh_map hb s"
    by (auto simp: map_le_def dom_def)
  have key: "key_segment hb s k = Some seg"
    using eD(2) by (simp add: key_segment_def d)
  show "cceh_map hb s' = cceh_map hb s" if "attempt_fits hb k s"
  proof (rule ext)
    fix k'
    have "split_fits hb (ld + 1) (2 * q + 1) (push_bit (64 - ld - 1) 1) (bucket seg) (fresh_bucket s)"
      using that key by (simp add: attempt_fits_def Let_def ld_def q_prefix)
    then show "cceh_map hb s' k' = cceh_map hb s k'"
      using map' [of k'] new(3) old cceh_map_INVALID by (cases "k' = INVALID") auto
  qed
  have "E' ! prefix hb g' k \<in> {segment d ! ?x, next_oid s}"
  proof -
    have "prefix hb g' k < 2 ^ g'" "prefix hb g' k div 2 ^ (g' - depth d) = ?x"
      using g' prefix_prefix [of "depth d" g' hb k] by (auto intro: prefix_less)
    then show ?thesis
      using E' by (auto simp: split_entries_def)
  qed
  moreover have "segment d ! ?x \<noteq> next_oid s"
    using eD(2) oid(1) [of "next_oid s"] by auto
  ultimately show "key_depth hb s' k = key_depth hb s k + 1"
    using key s' by (auto simp: key_depth_def key_segment_def segs' ld_def)
qed

section \<open>Insert\<close>

lemma insert_attempt_run:
  assumes ok: "cceh_ok hb s" and d: "dirs s (dir s) = Some d"
      and e: "entry_ok hb (segs s) (depth d) (segment d) (prefix hb (depth d) k) seg"
  defines "t \<equiv> segment d ! prefix hb (depth d) k"
  shows "insert_attempt hb k v s =
     (case insert_loop hb (local_depth seg) (prefix hb (local_depth seg) k) k v (window hb k) (bucket seg) of
        (True, b) \<Rightarrow> Inr (True, s\<lparr>segs := (segs s)(t \<mapsto> seg\<lparr>bucket := b\<rparr>)\<rparr>)
      | (False, b) \<Rightarrow>
          (case insert_split hb k t (s\<lparr>segs := (segs s)(t \<mapsto> seg\<lparr>sema := 1\<rparr>)\<rparr>) of
             Inl err \<Rightarrow> Inl err
           | Inr (_, s') \<Rightarrow> Inr (False, s')))"
proof -
  note eD = entry_okD [OF e, folded t_def]
  obtain b ld where seg: "seg = \<lparr>bucket = b, sema = 0, local_depth = ld\<rparr>"
    using eD(5) by (cases seg) simp
  obtain d' where dd: "d' = d" "dir s \<noteq> 0" "1 \<le> depth d" "depth d \<le> 31" "length (segment d) = 2 ^ depth d"
    "prefix hb (depth d) k < 2 ^ depth d"
    using cceh_okE [OF ok, of k] d by (metis option.inject)
  have dir: "cur_dir s = Inr (d, s)" "cur_dir (s\<lparr>segs := f\<rparr>) = Inr (d, s\<lparr>segs := f\<rparr>)" for f
    using d dd(2) by (simp_all add: cur_dir_def bnd_def gets_def dir_at_def)
  have ent: "entry (segment d) (prefix hb (depth d) k) s' = Inr (t, s')" for s' :: cceh
    using dd by (simp add: entry_def ret_def t_def)
  have bits: "top_bits (f_hash hb k) (depth d) s' = Inr (prefix hb (depth d) k, s')"
    "top_bits (f_hash hb k) ld s' = Inr (prefix hb ld k, s')" for s' :: cceh
    using eD(3,4) dd(3,4) seg by (auto intro!: top_bits_prefix)
  obtain r1 b1 where 1: "insert_loop hb ld (prefix hb ld k) k v (probe (hash_idx (f_hash hb k))) b = (r1, b1)"
    by fastforce
  have b1: "b1 = b" if "\<not> r1"
    using insert_loop_False [of hb ld _ k v _ b b1] 1 that by auto
  obtain r2 b2 where 2: "insert_loop hb ld (prefix hb ld k) k v (probe (hash_idx (s_hash hb k))) b = (r2, b2)"
    by fastforce
  show ?thesis
    using eD(1,2) 1 2 b1
    by (cases r1; cases r2)
       (simp_all add: insert_attempt_def Let_def bnd_def seq_def dir ent bits seg_at_def Segment_lock_def CAS_def
        seg seg_put_def modify_def Segment_unlock_def ret_def window_def insert_loop_append split: sum.splits)
qed

lemma cceh_update:
  assumes ok: "cceh_ok hb s" and d: "dirs s (dir s) = Some d"
      and e: "entry_ok hb (segs s) (depth d) (segment d) (prefix hb (depth d) k) seg"
      and wf: "bucket_wf hb (local_depth seg) (prefix hb (local_depth seg) k) b"
      and map: "\<And>k'. live hb (local_depth seg) (prefix hb (local_depth seg) k) k' \<Longrightarrow>
                  bucket_map b k' = ((bucket_map (bucket seg))(k \<mapsto> v)) k'" and k: "k \<noteq> INVALID"
  defines "s' \<equiv> s\<lparr>segs := (segs s)(segment d ! prefix hb (depth d) k \<mapsto> seg\<lparr>bucket := b\<rparr>)\<rparr>"
  shows "cceh_ok hb s'" "cceh_map hb s' = (cceh_map hb s)(k \<mapsto> v)"
proof -
  obtain d' where dd: "d' = d" "0 < next_oid s" "depth d \<le> 31" "prefix hb (depth d) k < 2 ^ depth d"
    and tab: "table_ok hb (segs s) (depth d) (segment d)"
    and oid: "\<And>p. next_oid s \<le> p \<Longrightarrow> segs s p = None"
    using cceh_okE [OF ok, of k] d by (metis option.inject)
  note eD = entry_okD [OF e]
  have q: "prefix hb (depth d) k div 2 ^ (depth d - local_depth seg) = prefix hb (local_depth seg) k"
    using entry_prefix [OF e] dd(3) by simp
  have "segment d ! prefix hb (depth d) k < next_oid s"
    using oid eD(2) by (metis leI option.distinct(1))
  moreover have "table_ok hb (segs s') (depth d) (segment d)"
    unfolding s'_def using table_update [OF tab dd(4) e, unfolded q, OF wf] by simp
  ultimately show "cceh_ok hb s'"
    using ok d by (auto simp: cceh_ok_def s'_def)
  show "cceh_map hb s' = (cceh_map hb s)(k \<mapsto> v)"
  proof (rule ext)
    fix k'
    have p': "prefix hb (depth d) k' < 2 ^ depth d"
      using dd(3) by (intro prefix_less) simp
    have same: "segment d ! prefix hb (depth d) k' = segment d ! prefix hb (depth d) k
        \<longleftrightarrow> prefix hb (local_depth seg) k' = prefix hb (local_depth seg) k"
      using eD(7) [OF p'] prefix_prefix [of "local_depth seg" "depth d" hb k'] eD(4) dd(3) q by simp
    show "cceh_map hb s' k' = ((cceh_map hb s)(k \<mapsto> v)) k'"
    proof (cases "k' = INVALID")
      case True
      then show ?thesis
        using cceh_map_INVALID k by simp
    next
      case False
      then show ?thesis
        using map [of k'] same eD(2)
        by (auto simp: cceh_map_def table_map_def s'_def d live_def)
    qed
  qed
qed

theorem insert_attempt_cases:
  assumes ok: "cceh_ok hb s" and k: "k \<noteq> INVALID" "k \<noteq> SENTINEL" and new: "cceh_map hb s k = None"
  shows "insert_attempt hb k v s \<in> {Inl InvalidPtr, Inl SignedOverflow}
    \<or> (\<exists>s'. insert_attempt hb k v s = Inr (True, s') \<and> cceh_ok hb s'
          \<and> cceh_map hb s' = (cceh_map hb s)(k \<mapsto> v))
    \<or> (\<exists>s'. insert_attempt hb k v s = Inr (False, s') \<and> cceh_ok hb s'
          \<and> cceh_map hb s' \<subseteq>\<^sub>m cceh_map hb s \<and> (attempt_fits hb k s \<longrightarrow> cceh_map hb s' = cceh_map hb s)
          \<and> key_depth hb s' k = key_depth hb s k + 1)"
proof -
  obtain d seg where d: "dirs s (dir s) = Some d" "depth d \<le> 31"
    and e: "entry_ok hb (segs s) (depth d) (segment d) (prefix hb (depth d) k) seg"
    by (rule cceh_okE [OF ok, of k])
  note run = insert_attempt_run [OF ok d(1) e, of v]
  define q where "q = prefix hb (local_depth seg) k"
  note eD = entry_okD [OF e]
  have wf: "bucket_wf hb (local_depth seg) q (bucket seg)"
    using eD(6) entry_prefix [OF e] d(2) by (simp add: q_def)
  have lk: "live hb (local_depth seg) q k"
    using k(1) by (simp add: live_def q_def)
  have none: "bucket_map (bucket seg) k = None"
    using new eD(2) by (simp add: cceh_map_def d table_map_def)
  obtain r b where loop: "insert_loop hb (local_depth seg) q k v (window hb k) (bucket seg) = (r, b)"
    by fastforce
  show ?thesis
  proof (cases r)
    case True
    then obtain i where i: "i \<in> set (window hb k)" "slot_free hb (local_depth seg) q (bucket seg ! i)"
      "b = (bucket seg)[i := \<lparr>p_key = k, p_value = v\<rparr>]"
      using insert_loop_True [of hb "local_depth seg" q k v "window hb k" "bucket seg" b] loop
        window_less bucket_wf_length [OF wf] by auto
    have wf': "bucket_wf hb (local_depth seg) q b"
      unfolding i(3) by (rule bucket_wf_update [OF wf i(1) k(2) none lk])
    have "bucket_map b k' = ((bucket_map (bucket seg))(k \<mapsto> v)) k'" if "live hb (local_depth seg) q k'" for k'
      unfolding i(3)
      by (rule bucket_map_update [OF wf window_less [OF i(1)] slot_free_dead [OF wf window_less [OF i(1)] i(2)]
            none lk that wf' [unfolded i(3)]])
    note upd = cceh_update [OF ok d(1) e wf' [unfolded q_def] this [unfolded q_def] k(1)]
    show ?thesis
      using run loop True upd by (auto simp: q_def)
  next
    case False
    then show ?thesis
      using run loop insert_split_run [OF ok d(1) e] split_done_ok [OF ok d(1) e]
      by (auto simp: q_def)
  qed
qed

primrec insert_fits :: "hash_bytes \<Rightarrow> nat \<Rightarrow> 64 word \<Rightarrow> 64 word \<Rightarrow> cceh \<Rightarrow> bool" where
  "insert_fits hb 0 k v s = True"
| "insert_fits hb (Suc fuel) k v s =
     (case insert_attempt hb k v s of
        Inr (False, s') \<Rightarrow> attempt_fits hb k s \<and> insert_fits hb fuel k v s'
      | _ \<Rightarrow> True)"

lemma key_depth_bound: "cceh_ok hb s \<Longrightarrow> key_depth hb s k \<le> 31"
  by (rule cceh_okE [of hb s k]) (auto simp: key_depth_def key_segment_def entry_ok_def)

lemma insert_cases:
  assumes "cceh_ok hb s" "k \<noteq> INVALID" "k \<noteq> SENTINEL" "cceh_map hb s k = None"
      and "31 < fuel + key_depth hb s k"
  shows "CCEH_Insert hb fuel k v s \<in> {Inl InvalidPtr, Inl SignedOverflow}
    \<or> (\<exists>s'. CCEH_Insert hb fuel k v s = Inr ((), s') \<and> cceh_ok hb s' \<and> cceh_map hb s' k = Some v
          \<and> cceh_map hb s' \<subseteq>\<^sub>m (cceh_map hb s)(k \<mapsto> v)
          \<and> (insert_fits hb fuel k v s \<longrightarrow> cceh_map hb s' = (cceh_map hb s)(k \<mapsto> v)))"
  using assms
proof (induction fuel arbitrary: s)
  case 0
  then show ?case
    using key_depth_bound [OF 0(1), of k] by simp
next
  case (Suc fuel)
  from insert_attempt_cases [OF Suc.prems(1-4), of v] consider
      (fault) "insert_attempt hb k v s \<in> {Inl InvalidPtr, Inl SignedOverflow}"
    | (stored) s' where "insert_attempt hb k v s = Inr (True, s')" "cceh_ok hb s'"
        "cceh_map hb s' = (cceh_map hb s)(k \<mapsto> v)"
    | (retry) s1 where "insert_attempt hb k v s = Inr (False, s1)" "cceh_ok hb s1"
        "cceh_map hb s1 \<subseteq>\<^sub>m cceh_map hb s" "attempt_fits hb k s \<Longrightarrow> cceh_map hb s1 = cceh_map hb s"
        "key_depth hb s1 k = key_depth hb s k + 1"
    by blast
  then show ?case
  proof cases
    case fault
    then show ?thesis by (auto simp: bnd_def)
  next
    case stored
    then show ?thesis by (auto simp: bnd_def ret_def)
  next
    case retry
    have none: "cceh_map hb s1 k = None"
      using retry(3) Suc.prems(4) by (metis domIff map_le_implies_dom_le subsetD)
    have le: "(cceh_map hb s1)(k \<mapsto> v) \<subseteq>\<^sub>m (cceh_map hb s)(k \<mapsto> v)"
      using retry(3) by (rule map_le_upd)
    have "31 < fuel + key_depth hb s1 k"
      using Suc.prems(5) retry(5) by simp
    from Suc.IH [OF retry(2) Suc.prems(2,3) none this] show ?thesis
      using retry(1,4) map_le_trans [OF _ le] by (auto simp: bnd_def)
  qed
qed

end
