(* ===== verification/CcehLife.thy ===== *)
theory CcehLife
  imports CcehOps
begin

unbundle bit_operations_syntax

text \<open>
  The rest of the life of a CCEH table: creation, search, the recovery of the directory after a
  crash and the statistics that visit one directory entry per segment.
\<close>

section \<open>Creation\<close>

declare log2_floor.simps [simp del]

lemma init_segments_run:
  "init_segments d n xs s =
     (if pool_room s < 16400 * n then Inl InvalidPtr
      else Inr (xs @ [next_oid s..<next_oid s + n],
        s\<lparr>segs := (\<lambda>p. if next_oid s \<le> p \<and> p < next_oid s + n
                   then Some \<lparr>bucket = fresh_bucket s, sema = 0, local_depth = d\<rparr> else segs s p),
          next_oid := next_oid s + n, pool_room := pool_room s - 16400 * n\<rparr>))"
proof (induction n arbitrary: xs s)
  case 0
  have "(\<lambda>p. if next_oid s \<le> p \<and> p < next_oid s then Some \<lparr>bucket = fresh_bucket s, sema = 0, local_depth = d\<rparr>
           else segs s p) = segs s"
    by (rule ext) auto
  then show ?case by (simp add: ret_def)
next
  case (Suc n)
  show ?case
  proof (cases "pool_room s < 16400")
    case True
    then show ?thesis
      by (simp add: bnd_def alloc_segment_run)
  next
    case False
    have fb: "fresh_bucket (s\<lparr>segs := f, next_oid := m, pool_room := r\<rparr>) = fresh_bucket s" for f m r
      by (simp add: fresh_bucket_def)
    have up: "[next_oid s..<Suc (next_oid s + n)] = next_oid s # [Suc (next_oid s)..<Suc (next_oid s + n)]"
      by (simp add: upt_conv_Cons del: upt_Suc)
    show ?thesis
      using False by (auto simp: bnd_def alloc_segment_run Suc.IH fb up fun_eq_iff simp del: upt_Suc)
  qed
qed

lemma fresh_table_ok:
  assumes "1 \<le> g" "g \<le> 31" "0 < m"
      and "\<And>p. m \<le> p \<Longrightarrow> p < m + 2 ^ g \<Longrightarrow> sg p = Some \<lparr>bucket = fresh_bucket s, sema = 0, local_depth = g\<rparr>"
  shows "table_ok hb sg g [m..<m + 2 ^ g]"
proof -
  have "entry_ok hb sg g [m..<m + 2 ^ g] x \<lparr>bucket = fresh_bucket s, sema = 0, local_depth = g\<rparr>"
    if "x < 2 ^ g" for x
    using assms that fresh_bucket_wf by (auto simp: entry_ok_def)
  then show ?thesis
    using assms(1,2) by (auto simp: table_ok_def)
qed

text \<open>A pool without objects at or above \<open>next_oid\<close>.\<close>

definition pool_ok :: "cceh \<Rightarrow> bool" where
  "pool_ok s \<longleftrightarrow> 0 < next_oid s \<and> (\<forall>p. next_oid s \<le> p \<longrightarrow> segs s p = None \<and> dirs s p = None)"

lemma init_directory_run:
  assumes "n \<le> 30" "40 + 16 * 2 ^ n + 16400 * 2 ^ n \<le> pool_room s"
  shows "\<exists>s'. init_directory n d s = Inr ((), s') \<and> dir s' = next_oid s \<and> next_oid s' = next_oid s + 2 + 2 ^ n
     \<and> dirs s' = (dirs s)(next_oid s \<mapsto> \<lparr>segment = [next_oid s + 2..<next_oid s + 2 + 2 ^ n],
          d_sema = 0, capacity = 2 ^ n, depth = n\<rparr>)
     \<and> segs s' = (\<lambda>p. if next_oid s + 2 \<le> p \<and> p < next_oid s + 2 + 2 ^ n
                   then Some \<lparr>bucket = fresh_bucket s, sema = 0, local_depth = d\<rparr> else segs s p)"
proof -
  have "(2 :: nat) ^ n \<le> 2 ^ 30"
    using assms(1) by (intro power_increasing) auto
  then have small: "\<not> (2 :: nat) ^ 31 \<le> 2 ^ n"
    by simp
  show ?thesis
    using assms small
    by (auto simp: init_directory_def seq_def bnd_def modify_def pobj_alloc_def init_segments_run
        dir_put_def initDirectory_def fresh_bucket_def fun_eq_iff)
qed

lemma init_cap_ok:
  assumes "pool_ok s" "1 \<le> log2_floor n" "log2_floor n \<le> 30"
      and "40 + 16 * 2 ^ log2_floor n + 16400 * 2 ^ log2_floor n \<le> pool_room s"
  shows "\<exists>s'. initCCEH_cap n s = Inr ((), s') \<and> cceh_ok hb s' \<and> cceh_map hb s' = Map.empty"
proof -
  let ?g = "log2_floor n"
  have "n \<noteq> 0"
    using assms(2) by (metis log2_floor.simps not_one_le_zero zero_less_numeral)
  from init_directory_run [OF assms(3,4), of ?g] obtain s' where s': "init_directory ?g ?g s = Inr ((), s')"
    "dir s' = next_oid s" "next_oid s' = next_oid s + 2 + 2 ^ ?g"
    "dirs s' = (dirs s)(next_oid s \<mapsto> \<lparr>segment = [next_oid s + 2..<next_oid s + 2 + 2 ^ ?g],
          d_sema = 0, capacity = 2 ^ ?g, depth = ?g\<rparr>)"
    "segs s' = (\<lambda>p. if next_oid s + 2 \<le> p \<and> p < next_oid s + 2 + 2 ^ ?g
                   then Some \<lparr>bucket = fresh_bucket s, sema = 0, local_depth = ?g\<rparr> else segs s p)"
    by blast
  have "table_ok hb (segs s') ?g [next_oid s + 2..<next_oid s + 2 + 2 ^ ?g]"
    by (rule fresh_table_ok) (use assms s'(5) in auto)
  then have ok: "cceh_ok hb s'"
    using assms(1) s' by (auto simp: cceh_ok_def pool_ok_def)
  have "cceh_map hb s' k = None" for k
  proof -
    have "prefix hb ?g k < 2 ^ ?g"
      using assms(3) by (intro prefix_less) simp
    then show ?thesis
      by (simp add: cceh_map_def s' table_map_def fresh_bucket_map nth_upt del: upt_Suc)
  qed
  then show ?thesis
    using ok s'(1) \<open>n \<noteq> 0\<close> by (auto simp: initCCEH_cap_def fun_eq_iff)
qed

text \<open>Segments of depth 0: the shift of the first insertion is undefined.\<close>

lemma init_default_insert:
  assumes "pool_ok s" "40 + 16 * 1024 + 16400 * 1024 \<le> pool_room s"
  shows "\<exists>s'. initCCEH s = Inr ((), s') \<and> CCEH_Insert hb (Suc fuel) k v s' = Inl UndefinedShift"
proof -
  have "40 + 16 * 2 ^ kDefaultDepth + 16400 * 2 ^ kDefaultDepth \<le> pool_room s" "kDefaultDepth \<le> 30"
    using assms(2) by (simp_all add: kDefaultDepth_def)
  from init_directory_run [OF this(2,1), of 0] obtain s' where s': "initCCEH s = Inr ((), s')"
    "dir s' = next_oid s"
    "dirs s' = (dirs s)(next_oid s \<mapsto> \<lparr>segment = [next_oid s + 2..<next_oid s + 2 + 1024],
          d_sema = 0, capacity = 1024, depth = 10\<rparr>)"
    "segs s' = (\<lambda>p. if next_oid s + 2 \<le> p \<and> p < next_oid s + 2 + 1024
                   then Some \<lparr>bucket = fresh_bucket s, sema = 0, local_depth = 0\<rparr> else segs s p)"
    by (auto simp: initCCEH_def kDefaultDepth_def)
  have "prefix hb 10 k < 2 ^ 10"
    by (rule prefix_less) simp
  then have x: "prefix hb 10 k < 1024"
    by simp
  have dir: "cur_dir s2 = Inr (\<lparr>segment = [next_oid s + 2..<next_oid s + 2 + 1024],
          d_sema = 0, capacity = 1024, depth = 10\<rparr>, s2)" if "dirs s2 = dirs s'" "dir s2 = dir s'" for s2
    using that s' assms(1) by (simp add: cur_dir_def bnd_def gets_def dir_at_def pool_ok_def)
  have bits: "top_bits (f_hash hb k) 10 s2 = Inr (prefix hb 10 k, s2)" for s2 :: cceh
    by (rule top_bits_prefix) simp_all
  have "insert_attempt hb k v s' = Inl UndefinedShift"
    using x s'(4)
    by (simp add: insert_attempt_def Let_def bnd_def seq_def dir bits entry_def ret_def seg_at_def
        Segment_lock_def CAS_def seg_put_def modify_def top_bits_def [of _ 0] raise_def)
  then show ?thesis
    using s'(1) by (simp add: bnd_def)
qed

section \<open>Get\<close>

lemma get_run:
  assumes ok: "cceh_ok hb s" and k: "k \<noteq> INVALID"
  shows "CCEH_Get hb k s = Inr (case cceh_map hb s k of None \<Rightarrow> NONE | Some v \<Rightarrow> v, s)"
proof -
  obtain d seg where d: "dirs s (dir s) = Some d" "dir s \<noteq> 0" "d_sema d = 0"
    and e: "entry_ok hb (segs s) (depth d) (segment d) (prefix hb (depth d) k) seg"
    and g: "1 \<le> depth d" "depth d \<le> 31" "length (segment d) = 2 ^ depth d"
      "prefix hb (depth d) k < 2 ^ depth d"
    by (rule cceh_okE [OF ok, of k])
  define t where "t = segment d ! prefix hb (depth d) k"
  note eD = entry_okD [OF e, folded t_def]
  obtain b ld where seg: "seg = \<lparr>bucket = b, sema = 0, local_depth = ld\<rparr>"
    using eD(5) by (cases seg) simp
  have dir: "cur_dir s = Inr (d, s)" "cur_dir (s\<lparr>segs := f\<rparr>) = Inr (d, s\<lparr>segs := f\<rparr>)" for f
    using d by (simp_all add: cur_dir_def bnd_def gets_def dir_at_def)
  have ent: "entry (segment d) (prefix hb (depth d) k) s' = Inr (t, s')" for s' :: cceh
    using g by (simp add: entry_def ret_def t_def)
  have bits: "top_bits (f_hash hb k) (depth d) s' = Inr (prefix hb (depth d) k, s')" for s' :: cceh
    using g by (auto intro!: top_bits_prefix)
  have same: "s\<lparr>segs := (segs s)(t \<mapsto> seg)\<rparr> = s"
    using eD(2) by (simp add: fun_upd_idem)
  have "cceh_map hb s k = bucket_map b k"
    using eD(2) by (simp add: cceh_map_def d table_map_def seg t_def)
  also have "\<dots> = get_loop k (window hb k) b"
    using get_window [OF eD(6)] entry_live [OF e] g(2) k by (simp add: seg)
  finally show ?thesis
    using eD(1,2) d(3) same
    by (simp add: CCEH_Get_def Let_def bnd_def seq_def dir ent bits seg_at_def Segment_lock_def CAS_def
        seg seg_put_def modify_def Segment_unlock_def ret_def window_def get_loop_append split: option.split)
qed

section \<open>Walking from segment to segment\<close>

definition boundary :: "nat \<Rightarrow> nat list \<Rightarrow> nat \<Rightarrow> bool" where
  "boundary g E i \<longleftrightarrow> i \<le> 2 ^ g \<and> (\<forall>y<i. \<forall>z. i \<le> z \<longrightarrow> z < 2 ^ g \<longrightarrow> E ! y \<noteq> E ! z)"

lemma boundary_last:
  assumes "boundary g E i" "y < i" "i < 2 ^ g"
  shows "E ! y \<noteq> E ! (2 ^ g - 1)"
proof -
  have "i \<le> 2 ^ g - 1" "2 ^ g - 1 < (2 :: nat) ^ g"
    using assms(3) by auto
  then show ?thesis
    using assms(1,2) unfolding boundary_def by blast
qed

lemma boundary_0: "boundary g E 0"
  by (simp add: boundary_def)

lemma boundary_step:
  assumes bd: "boundary g E i" and i: "i < 2 ^ g" and e: "entry_ok hb sg g E i seg"
  defines "st \<equiv> 2 ^ (g - local_depth seg)"
  shows "i + st \<le> 2 ^ g" "boundary g E (i + st)"
    "y < 2 ^ g \<Longrightarrow> E ! y = E ! i \<longleftrightarrow> i \<le> y \<and> y < i + st"
proof -
  have st: "0 < st"
    by (simp add: st_def)
  have same: "E ! y = E ! i \<longleftrightarrow> y div st = i div st" if "y < 2 ^ g" for y
    using entry_okD(7) [OF e that] by (simp add: st_def)
  have start: "i = (i div st) * st"
  proof (rule ccontr)
    assume "i \<noteq> (i div st) * st"
    moreover have "(i div st) * st \<le> i"
      by (rule div_times_less_eq_dividend)
    ultimately have less: "(i div st) * st < i"
      by linarith
    have "E ! ((i div st) * st) = E ! i"
      using same less i st by simp
    then show False
      using bd i less by (auto simp: boundary_def)
  qed
  have "2 ^ g = 2 ^ local_depth seg * st"
    using entry_okD(4) [OF e] by (simp add: st_def flip: power_add)
  moreover have "i div st < 2 ^ local_depth seg"
    using i calculation by (simp add: less_mult_imp_div_less)
  then have "(i div st + 1) * st \<le> 2 ^ local_depth seg * st"
    by (intro mult_right_mono) simp_all
  ultimately show le: "i + st \<le> 2 ^ g"
    using start by simp
  show grp: "E ! y = E ! i \<longleftrightarrow> i \<le> y \<and> y < i + st" if "y < 2 ^ g" for y
    using same [OF that] div_eq_interval [OF st, of y "i div st"] start by simp
  show "boundary g E (i + st)"
    unfolding boundary_def
  proof (intro conjI allI impI)
    fix y z assume yz: "y < i + st" "i + st \<le> z" "z < 2 ^ g"
    show "E ! y \<noteq> E ! z"
    proof (cases "y < i")
      case True
      then show ?thesis
        using bd yz by (auto simp: boundary_def)
    next
      case False
      then have "E ! y = E ! i" "E ! z \<noteq> E ! i"
        using grp yz by auto
      then show ?thesis
        by simp
    qed
  qed (rule le)
qed

section \<open>Recovery\<close>

lemma recovery_range_run:
  assumes "i + n < length xs"
      and "\<And>j. i < j \<Longrightarrow> j \<le> i + n \<Longrightarrow> xs ! j \<noteq> 0 \<and> segs s (xs ! j) \<noteq> None"
  shows "\<exists>ys. recovery_range i dc n xs s = Inr (ys, s) \<and> length ys = length xs
     \<and> (\<forall>y<length xs. ys ! y = (if i < y \<and> y \<le> i + n \<and> local_depth (the (segs s (xs ! y))) \<noteq> dc
                                    then xs ! i else xs ! y))"
  using assms
proof (induction n arbitrary: xs)
  case 0
  then show ?case by (simp add: ret_def)
next
  case (Suc n)
  obtain g where g: "xs ! (i + Suc n) \<noteq> 0" "segs s (xs ! (i + Suc n)) = Some g"
    using Suc.prems(2) [of "i + Suc n"] by auto
  define xs1 where "xs1 = (if local_depth g \<noteq> dc then xs[i + Suc n := xs ! i] else xs)"
  have len: "length xs1 = length xs"
    by (simp add: xs1_def)
  have nth: "xs1 ! y = (if y = i + Suc n \<and> local_depth g \<noteq> dc then xs ! i else xs ! y)" if "y < length xs" for y
    using that Suc.prems(1) by (auto simp: xs1_def nth_list_update)
  have "xs1 ! j \<noteq> 0 \<and> segs s (xs1 ! j) \<noteq> None" if "i < j" "j \<le> i + n" for j
    using Suc.prems(1) Suc.prems(2) [of j] that nth [of j] by simp
  then obtain ys where ys: "recovery_range i dc n xs1 s = Inr (ys, s)" "length ys = length xs"
    "\<forall>y<length xs. ys ! y = (if i < y \<and> y \<le> i + n \<and> local_depth (the (segs s (xs1 ! y))) \<noteq> dc
                                then xs1 ! i else xs1 ! y)"
    using Suc.IH [of xs1] Suc.prems(1) len by auto
  have "recovery_range i dc (Suc n) xs s = Inr (ys, s)"
    using Suc.prems(1) g ys(1)
    by (auto simp: bnd_def entry_def ret_def seg_at_def entry_put_def xs1_def split: if_splits)
  moreover have "ys ! y = (if i < y \<and> y \<le> i + Suc n \<and> local_depth (the (segs s (xs ! y))) \<noteq> dc
                                    then xs ! i else xs ! y)" if y: "y < length xs" for y
  proof (cases "y = i + Suc n")
    case True
    then show ?thesis
      using ys(3) y nth [OF y] g by simp
  next
    case False
    then show ?thesis
      using ys(3) y nth [OF y] nth [of i] Suc.prems(1) by simp
  qed
  ultimately show ?case
    using ys(2) by blast
qed

text \<open>A crash during a split leaves some entries of the range of the split segment, but not its
  first one, pointing to the new segment, whose depth is one larger.\<close>

definition half_split :: "(nat \<Rightarrow> Segment option) \<Rightarrow> nat \<Rightarrow> nat list \<Rightarrow> nat list \<Rightarrow> nat \<Rightarrow> bool" where
  "half_split sg g E xs s1 \<longleftrightarrow>
     s1 \<noteq> 0 \<and> length xs = 2 ^ g
     \<and> (\<forall>y<2 ^ g. xs ! y = E ! y \<or>
          (xs ! y = s1 \<and> (\<exists>a<y. E ! a = E ! y)
           \<and> (\<exists>seg seg1. sg (E ! y) = Some seg \<and> sg s1 = Some seg1 \<and> local_depth seg1 = local_depth seg + 1)))"

lemma recovery_loop_run:
  assumes tab: "table_ok hb sg g E"
      and dep: "\<And>p seg. sg p = Some seg \<Longrightarrow> \<exists>seg'. segs s p = Some seg' \<and> local_depth seg' = local_depth seg"
      and "boundary g E i" "2 ^ g < fuel + i" "half_split (segs s) g E xs s1" "\<forall>y<i. xs ! y = E ! y"
  shows "\<exists>ys. recovery_loop fuel (2 ^ g) g i xs s = Inr (ys, s) \<and> length ys = 2 ^ g
     \<and> (\<forall>y<2 ^ g. ys ! y = (if E ! y = E ! (2 ^ g - 1) then xs ! y else E ! y))"
  using assms(3-)
proof (induction fuel arbitrary: i xs)
  case 0
  then show ?case by (simp add: boundary_def)
next
  case (Suc fuel)
  note half = Suc.prems(3)
  have len: "length xs = 2 ^ g"
    using half by (simp add: half_split_def)
  show ?case
  proof (cases "i < 2 ^ g")
    case False
    then have "\<forall>y<2 ^ g. xs ! y = E ! y"
      using Suc.prems(4) by auto
    then show ?thesis
      using False len by (simp add: ret_def)
  next
    case i: True
    obtain seg where e: "entry_ok hb sg g E i seg"
      by (rule table_ok_entry [OF tab i])
    obtain seg' where seg': "segs s (E ! i) = Some seg'" "local_depth seg' = local_depth seg"
      using dep [OF entry_okD(2) [OF e]] by blast
    define st :: nat where "st = 2 ^ (g - local_depth seg)"
    have st: "0 < st"
      by (simp add: st_def)
    note eD = entry_okD [OF e]
    note step = boundary_step [OF Suc.prems(1) i e, folded st_def]
    have xi: "xs ! i = E ! i"
      using half i Suc.prems(1) unfolding half_split_def boundary_def by (metis order.refl)
    have pow: "pow2_diff 64 g (local_depth seg) = Inr st"
      using eD(4) tab by (auto simp: pow2_diff_def st_def table_ok_def)
    have head: "recovery_loop (Suc fuel) (2 ^ g) g i xs s =
        (if i + st = 2 ^ g then Inr (xs, s)
         else bnd (recovery_range i (local_depth seg) (st - 1) xs) (recovery_loop fuel (2 ^ g) g (i + st)) s)"
      using i len xi eD(1) seg' pow by (simp add: bnd_def entry_def ret_def seg_at_def)
    show ?thesis
    proof (cases "i + st = 2 ^ g")
      case True
      have "E ! y \<noteq> E ! (2 ^ g - 1)" if "y < i" for y
        by (rule boundary_last [OF Suc.prems(1) that i])
      moreover have "E ! y = E ! (2 ^ g - 1)" if "i \<le> y" "y < 2 ^ g" for y
      proof -
        have "i \<le> 2 ^ g - 1" "2 ^ g - 1 < (2 :: nat) ^ g"
          using i by auto
        then have "E ! (2 ^ g - 1) = E ! i"
          using step(3) unfolding True by blast
        moreover have "E ! y = E ! i"
          using step(3) that unfolding True by blast
        ultimately show ?thesis by simp
      qed
      ultimately have "E ! y = E ! (2 ^ g - 1) \<longleftrightarrow> \<not> y < i" if "y < 2 ^ g" for y
        using that by (meson not_less)
      then have "xs ! y = (if E ! y = E ! (2 ^ g - 1) then xs ! y else E ! y)" if "y < 2 ^ g" for y
        using that Suc.prems(4) by simp
      then show ?thesis
        using head True len by auto
    next
      case False
      have cell: "xs ! j \<noteq> 0 \<and> segs s (xs ! j) \<noteq> None \<and>
            (local_depth (the (segs s (xs ! j))) \<noteq> local_depth seg \<longrightarrow> E ! j = xs ! i) \<and>
            (local_depth (the (segs s (xs ! j))) = local_depth seg \<longrightarrow> E ! j = xs ! j)"
        if "i < j" "j \<le> i + (st - 1)" for j
      proof -
        have j: "j < 2 ^ g" "E ! j = E ! i"
          using that step(1) step(3) [of j] st by simp_all
        then show ?thesis
          using half eD(1) seg' xi by (auto simp: half_split_def)
      qed
      have "i + (st - 1) < length xs"
        using step(1) st len by simp
      from recovery_range_run [OF this, of s "local_depth seg"] cell
      obtain ys where ys: "recovery_range i (local_depth seg) (st - 1) xs s = Inr (ys, s)" "length ys = 2 ^ g"
        "\<forall>y<2 ^ g. ys ! y = (if i < y \<and> y \<le> i + (st - 1) \<and> local_depth (the (segs s (xs ! y))) \<noteq> local_depth seg
                               then xs ! i else xs ! y)"
        unfolding len by blast
      have ys_E: "ys ! y = (if y < i + st then E ! y else xs ! y)" if y: "y < 2 ^ g" for y
      proof -
        consider "y < i" | "y = i" | "i < y" "y \<le> i + (st - 1)" | "i + st \<le> y"
          using st by linarith
        then show ?thesis
          using ys(3) y Suc.prems(4) xi cell [of y] st by cases auto
      qed
      have half': "half_split (segs s) g E ys s1"
        using half ys(2) ys_E unfolding half_split_def by (simp split: if_splits)
      have "boundary g E (i + st)" "2 ^ g < fuel + (i + st)" "\<forall>y<i + st. ys ! y = E ! y"
        using step Suc.prems(2) st ys_E by auto
      from Suc.IH [OF this(1,2) half' this(3)] obtain zs where
        zs: "recovery_loop fuel (2 ^ g) g (i + st) ys s = Inr (zs, s)" "length zs = 2 ^ g"
        "\<forall>y<2 ^ g. zs ! y = (if E ! y = E ! (2 ^ g - 1) then ys ! y else E ! y)"
        by blast
      have "E ! y \<noteq> E ! (2 ^ g - 1)" if "y < i + st" for y
        using boundary_last [OF step(2) that] step(1) False by simp
      then have "zs ! y = (if E ! y = E ! (2 ^ g - 1) then xs ! y else E ! y)" if "y < 2 ^ g" for y
        using zs(3) ys_E [OF that] that by simp
      then show ?thesis
        using head False ys(1) zs(1,2) by (auto simp: bnd_def)
    qed
  qed
qed

text \<open>\<^verbatim>\<open>CCEH::Recovery\<close> after a crash in the middle of a split: every entry but those of the last
  segment of the directory is as it was before the split.\<close>

lemma recovery_run:
  assumes tab: "table_ok hb sg (depth d) E"
      and dep: "\<And>p seg. sg p = Some seg \<Longrightarrow> \<exists>seg'. segs s p = Some seg' \<and> local_depth seg' = local_depth seg"
      and d: "dirs s (dir s) = Some d" "dir s \<noteq> 0" "capacity d = 2 ^ depth d"
      and half: "half_split (segs s) (depth d) E (segment d) s1"
  shows "\<exists>ys. CCEH_Recovery s = Inr ((), s\<lparr>dirs := (dirs s)(dir s \<mapsto> d\<lparr>segment := ys\<rparr>)\<rparr>) \<and> length ys = 2 ^ depth d
     \<and> (\<forall>y<2 ^ depth d. ys ! y = (if E ! y = E ! (2 ^ depth d - 1) then segment d ! y else E ! y))"
proof -
  have "2 ^ depth d < 2 ^ depth d + 1 + (0 :: nat)"
    by simp
  from recovery_loop_run [OF tab dep boundary_0 this half] obtain ys where
    "recovery_loop (2 ^ depth d + 1) (2 ^ depth d) (depth d) 0 (segment d) s = Inr (ys, s)" "length ys = 2 ^ depth d"
    "\<forall>y<2 ^ depth d. ys ! y = (if E ! y = E ! (2 ^ depth d - 1) then segment d ! y else E ! y)"
    by (auto simp del: recovery_loop.simps)
  then show ?thesis
    using d by (auto simp: CCEH_Recovery_def bnd_def gets_def dir_at_def dir_put_def modify_def
        simp del: recovery_loop.simps)
qed

section \<open>Statistics\<close>

lemma capacity_loop_run:
  assumes tab: "table_ok hb (segs s) (depth d) (segment d)" and cap: "capacity d = 2 ^ depth d"
      and "boundary (depth d) (segment d) i" "2 ^ depth d < fuel + i" "cnt = card (set (take i (segment d)))"
  shows "capacity_loop fuel d i cnt s = Inr (card (set (segment d)), s)"
  using assms(3-)
proof (induction fuel arbitrary: i cnt)
  case 0
  then show ?case by (simp add: boundary_def)
next
  case (Suc fuel)
  have len: "length (segment d) = 2 ^ depth d" and g: "depth d \<le> 31"
    using tab by (simp_all add: table_ok_def)
  show ?case
  proof (cases "i < 2 ^ depth d")
    case False
    then show ?thesis
      using Suc.prems(3) len cap by (simp add: ret_def)
  next
    case i: True
    obtain seg where e: "entry_ok hb (segs s) (depth d) (segment d) i seg"
      by (rule table_ok_entry [OF tab i])
    define st :: nat where "st = 2 ^ (depth d - local_depth seg)"
    note eD = entry_okD [OF e]
    note step = boundary_step [OF Suc.prems(1) i e, folded st_def]
    have pow: "pow2_diff 31 (depth d) (local_depth seg) = Inr st"
      using eD(3,4) g by (auto simp: pow2_diff_def st_def)
    have "set (take (i + st) (segment d)) = insert (segment d ! i) (set (take i (segment d)))"
    proof (intro equalityI subsetI)
      fix p assume "p \<in> set (take (i + st) (segment d))"
      then obtain y where y: "y < i + st" "p = segment d ! y"
        using step(1) len by (auto simp: in_set_conv_nth)
      then show "p \<in> insert (segment d ! i) (set (take i (segment d)))"
        using step(1) step(3) [of y] i len by (cases "y < i") (auto simp: in_set_conv_nth)
    next
      fix p assume "p \<in> insert (segment d ! i) (set (take i (segment d)))"
      then show "p \<in> set (take (i + st) (segment d))"
      proof (rule insertE)
        assume "p = segment d ! i"
        moreover have "i < i + st"
          by (simp add: st_def)
        ultimately show ?thesis
          using step(1) len by (auto simp: in_set_conv_nth intro!: exI [of _ i])
      next
        assume "p \<in> set (take i (segment d))"
        then show ?thesis
          using set_take_subset_set_take [of i "i + st" "segment d"] by auto
      qed
    qed
    moreover have "segment d ! i \<notin> set (take i (segment d))"
      using Suc.prems(1) i len by (fastforce simp: boundary_def in_set_conv_nth)
    ultimately have "cnt + 1 = card (set (take (i + st) (segment d)))"
      using Suc.prems(3) by simp
    moreover have "1 \<le> st"
      by (simp add: st_def)
    then have "2 ^ depth d < fuel + (i + st)"
      using Suc.prems(2) by simp
    ultimately show ?thesis
      using Suc.IH [OF step(2)] i len cap eD(1,2) pow by (simp add: bnd_def entry_def ret_def seg_at_def)
  qed
qed

lemma capacity_run:
  assumes "cceh_ok hb s" "dirs s (dir s) = Some d"
  shows "CCEH_Capacity s = Inr (card (set (segment d)) * kNumSlot, s)"
proof -
  have "dir s \<noteq> 0" "capacity d = 2 ^ depth d" "table_ok hb (segs s) (depth d) (segment d)"
    using assms by (auto simp: cceh_ok_def)
  then show ?thesis
    using capacity_loop_run [of hb s d 0 "2 ^ depth d + 1" 0] assms(2) boundary_0
    by (simp add: CCEH_Capacity_def cur_dir_def bnd_def gets_def dir_at_def ret_def
        del: capacity_loop.simps)
qed

text \<open>\<^verbatim>\<open>Utilization\<close> counts the live pairs of a segment, which have distinct keys.\<close>

lemma util_count_card:
  assumes wf: "bucket_wf hb ld q b"
  shows "util_count hb ld q b = card {k. live hb ld q k \<and> bucket_map b k \<noteq> None}"
proof -
  have h: "hash_h hb 0 (key_bytes k) = f_hash hb k" for k
    by (simp add: hash_h_def f_hash_def f_seed_def)
  have "util_count hb ld q b = length (filter (live hb ld q) (map p_key b))"
    unfolding util_count_def h live_def prefix_def by (simp add: filter_map comp_def conj_commute)
  also have "\<dots> = card (set (filter (live hb ld q) (map p_key b)))"
    using live_distinct [OF wf] by (rule distinct_card [symmetric])
  also have "set (filter (live hb ld q) (map p_key b)) = {k. live hb ld q k \<and> bucket_map b k \<noteq> None}"
    using bucket_wf_length [OF wf]
    by (auto simp: bucket_map_None live_def in_set_conv_nth intro!: image_eqI [OF refl])
  finally show ?thesis .
qed

lemma util_loop_run:
  assumes tab: "table_ok hb (segs s) (depth d) (segment d)" and d: "dirs s (dir s) = Some d"
      and cap: "capacity d = 2 ^ depth d"
      and "boundary (depth d) (segment d) i" "2 ^ depth d < fuel + i"
      and "acc = card {k. cceh_map hb s k \<noteq> None \<and> prefix hb (depth d) k < i}"
  shows "\<exists>n. util_loop hb fuel d i acc cnt s = Inr ((card (dom (cceh_map hb s)), n), s)"
  using assms(4-)
proof (induction fuel arbitrary: i acc cnt)
  case 0
  then show ?case by (simp add: boundary_def)
next
  case (Suc fuel)
  have len: "length (segment d) = 2 ^ depth d" and g: "depth d \<le> 31"
    using tab by (simp_all add: table_ok_def)
  have all: "prefix hb (depth d) k < 2 ^ depth d" for k
    using g by (intro prefix_less) simp
  show ?case
  proof (cases "i < 2 ^ depth d")
    case False
    then have "prefix hb (depth d) k < i" for k
      using all [of k] by (simp add: order_less_le_trans)
    then have "{k. cceh_map hb s k \<noteq> None \<and> prefix hb (depth d) k < i} = dom (cceh_map hb s)"
      by (simp add: dom_def)
    then show ?thesis
      using Suc.prems(3) False cap by (simp add: ret_def)
  next
    case i: True
    obtain seg where e: "entry_ok hb (segs s) (depth d) (segment d) i seg"
      by (rule table_ok_entry [OF tab i])
    define st :: nat where "st = 2 ^ (depth d - local_depth seg)"
    note eD = entry_okD [OF e]
    note step = boundary_step [OF Suc.prems(1) i e, folded st_def]
    let ?q = "i div 2 ^ (depth d - local_depth seg)"
    have pow: "pow2_diff 31 (depth d) (local_depth seg) = Inr st"
      using eD(3,4) g by (auto simp: pow2_diff_def st_def)
    have same: "i \<le> prefix hb (depth d) k \<and> prefix hb (depth d) k < i + st
        \<longleftrightarrow> prefix hb (local_depth seg) k = ?q" for k
      using step(3) [OF all, of k] eD(7) [OF all, of k] prefix_prefix [of "local_depth seg" "depth d" hb k] eD(4) g
      by simp
    have here: "cceh_map hb s k = bucket_map (bucket seg) k" if "prefix hb (local_depth seg) k = ?q" for k
      using same [of k] step(3) [OF all, of k] eD(2) that by (simp add: cceh_map_def d table_map_def)
    have grp: "{k. live hb (local_depth seg) ?q k \<and> bucket_map (bucket seg) k \<noteq> None}
        = {k. cceh_map hb s k \<noteq> None \<and> i \<le> prefix hb (depth d) k \<and> prefix hb (depth d) k < i + st}"
      using same here cceh_map_INVALID by (auto simp: live_def)
    have "{k. cceh_map hb s k \<noteq> None \<and> prefix hb (depth d) k < i + st} =
        {k. cceh_map hb s k \<noteq> None \<and> prefix hb (depth d) k < i} \<union>
        {k. cceh_map hb s k \<noteq> None \<and> i \<le> prefix hb (depth d) k \<and> prefix hb (depth d) k < i + st}"
      by auto
    then have "card {k. cceh_map hb s k \<noteq> None \<and> prefix hb (depth d) k < i + st} =
        acc + util_count hb (local_depth seg) ?q (bucket seg)"
      unfolding util_count_card [OF eD(6)] grp Suc.prems(3)
      by (simp only:) (rule card_Un_disjoint, auto)
    moreover have "1 \<le> st"
      by (simp add: st_def)
    then have "2 ^ depth d < fuel + (i + st)"
      using Suc.prems(2) by simp
    moreover have "drop_bit (depth d - local_depth seg) i = ?q"
      by (simp add: drop_bit_eq_div)
    ultimately show ?thesis
      using Suc.IH [OF step(2), of "acc + util_count hb (local_depth seg) ?q (bucket seg)" "cnt + 1"]
        i len cap eD(1-4) g pow
      by (simp add: bnd_def entry_def ret_def seg_at_def)
  qed
qed

end
