(* ===== verification/CcehLock.thy ===== *)
theory CcehLock
  imports CcehModel
begin

text \<open>
  The semaphore of segments and directories (\<^verbatim>\<open>lock\<close>, \<^verbatim>\<open>unlock\<close> and
  \<^verbatim>\<open>suspend\<close> in \<^verbatim>\<open>src/experiments/CCEH/src/CCEH.h\<close>) shared by any number of threads,
  one atomic access of the counter per step. A thread that is not inside one of the three functions
  is \<open>Idle\<close>, holds the semaphore (\<open>Held\<close>, between \<^verbatim>\<open>lock\<close> and
  \<^verbatim>\<open>unlock\<close>) or has suspended it (\<open>Suspended\<close>, until the store
  \<^verbatim>\<open>sema = 0\<close> that ends a split). The counter stays far from the limits of
  \<^verbatim>\<open>int64_t\<close>: it is bounded by the number of threads.
\<close>

section \<open>Threads at the semaphore\<close>

datatype pc =
    Idle
  | LockRead | LockCas int | Held
  | UnlockRead | UnlockCas int
  | SuspRead | SuspCas int | SuspWait int | Suspended int

fun sema_exec :: "pc \<Rightarrow> int \<Rightarrow> pc \<times> int" where
  "sema_exec LockRead sv = (if sv > - 1 then LockCas sv else Idle, sv)"
| "sema_exec (LockCas val) sv =
     (case CAS sv val (val + 1) of (True, sv) \<Rightarrow> (Held, sv) | (False, sv) \<Rightarrow> (LockRead, sv))"
| "sema_exec UnlockRead sv = (UnlockCas sv, sv)"
| "sema_exec (UnlockCas val) sv =
     (case CAS sv val (val - 1) of (True, sv) \<Rightarrow> (Idle, sv) | (False, sv) \<Rightarrow> (UnlockRead, sv))"
| "sema_exec SuspRead sv = (if sv < 0 then Idle else SuspCas sv, sv)"
| "sema_exec (SuspCas val) sv =
     (case CAS sv val (- 1) of (True, sv) \<Rightarrow> (SuspWait val, sv) | (False, sv) \<Rightarrow> (SuspRead, sv))"
| "sema_exec (SuspWait val) sv =
     (let wait = 0 - val - 1 in (if val \<noteq> 0 \<and> sv \<noteq> wait then SuspWait val else Suspended val, sv))"
| "sema_exec p sv = (p, sv)"

type_synonym sema_state = "int \<times> pc list"

inductive sema_step :: "sema_state \<Rightarrow> sema_state \<Rightarrow> bool" where
  exec: "i < length ps \<Longrightarrow> sema_exec (ps ! i) sv = (p, sv') \<Longrightarrow> sema_step (sv, ps) (sv', ps[i := p])"
| call_lock: "i < length ps \<Longrightarrow> ps ! i = Idle \<Longrightarrow> sema_step (sv, ps) (sv, ps[i := LockRead])"
| call_unlock: "i < length ps \<Longrightarrow> ps ! i = Held \<Longrightarrow> sema_step (sv, ps) (sv, ps[i := UnlockRead])"
| call_suspend: "i < length ps \<Longrightarrow> ps ! i = Idle \<Longrightarrow> sema_step (sv, ps) (sv, ps[i := SuspRead])"
| release: "i < length ps \<Longrightarrow> ps ! i = Suspended val \<Longrightarrow> sema_step (sv, ps) (0, ps[i := Idle])"

inductive_cases sema_stepE: "sema_step (sv, ps) c"

definition sema_reachable :: "nat \<Rightarrow> sema_state \<Rightarrow> bool" where
  "sema_reachable n c \<longleftrightarrow> sema_step\<^sup>*\<^sup>* (0, replicate n Idle) c"

section \<open>The invariant\<close>

primrec holding :: "pc \<Rightarrow> bool" where
  "holding Idle = False"
| "holding LockRead = False"
| "holding (LockCas v) = False"
| "holding Held = True"
| "holding UnlockRead = True"
| "holding (UnlockCas v) = True"
| "holding SuspRead = False"
| "holding (SuspCas v) = False"
| "holding (SuspWait v) = False"
| "holding (Suspended v) = False"

primrec suspending :: "pc \<Rightarrow> int option" where
  "suspending Idle = None"
| "suspending LockRead = None"
| "suspending (LockCas v) = None"
| "suspending Held = None"
| "suspending UnlockRead = None"
| "suspending (UnlockCas v) = None"
| "suspending SuspRead = None"
| "suspending (SuspCas v) = None"
| "suspending (SuspWait v) = Some v"
| "suspending (Suspended v) = Some v"

primrec pc_ok :: "pc \<Rightarrow> bool" where
  "pc_ok Idle = True"
| "pc_ok LockRead = True"
| "pc_ok (LockCas v) = (0 \<le> v)"
| "pc_ok Held = True"
| "pc_ok UnlockRead = True"
| "pc_ok (UnlockCas v) = True"
| "pc_ok SuspRead = True"
| "pc_ok (SuspCas v) = (0 \<le> v)"
| "pc_ok (SuspWait v) = (0 \<le> v)"
| "pc_ok (Suspended v) = (0 \<le> v)"

definition holders :: "pc list \<Rightarrow> nat" where
  "holders ps = card {i. i < length ps \<and> holding (ps ! i)}"

definition sema_inv :: "sema_state \<Rightarrow> bool" where
  "sema_inv c \<longleftrightarrow> (case c of (sv, ps) \<Rightarrow>
     (\<forall>i<length ps. pc_ok (ps ! i))
     \<and> (\<forall>i<length ps. \<forall>v. ps ! i = Suspended v \<longrightarrow> holders ps = 0)
     \<and> (\<forall>i<length ps. \<forall>j<length ps. suspending (ps ! i) \<noteq> None \<longrightarrow> suspending (ps ! j) \<noteq> None \<longrightarrow> i = j)
     \<and> (\<forall>i<length ps. \<forall>v. suspending (ps ! i) = Some v \<longrightarrow> sv = int (holders ps) - v - 1 \<and> int (holders ps) \<le> v)
     \<and> ((\<forall>i<length ps. suspending (ps ! i) = None) \<longrightarrow> sv = int (holders ps)))"

lemma sema_invD:
  assumes "sema_inv (sv, ps)" "i < length ps"
  shows "pc_ok (ps ! i)"
    and "ps ! i = Suspended v \<Longrightarrow> holders ps = 0"
    and "j < length ps \<Longrightarrow> suspending (ps ! i) \<noteq> None \<Longrightarrow> suspending (ps ! j) \<noteq> None \<Longrightarrow> i = j"
    and "suspending (ps ! i) = Some v \<Longrightarrow> sv = int (holders ps) - v - 1"
    and "suspending (ps ! i) = Some v \<Longrightarrow> int (holders ps) \<le> v"
  using assms unfolding sema_inv_def prod.case by blast+

lemma sema_inv_none:
  assumes "sema_inv (sv, ps)" "\<And>i. i < length ps \<Longrightarrow> suspending (ps ! i) = None"
  shows "sv = int (holders ps)"
  using assms unfolding sema_inv_def prod.case by blast

lemma holders_update:
  assumes "i < length ps"
  shows "holders (ps[i := p]) + (if holding (ps ! i) then 1 else 0) = holders ps + (if holding p then 1 else 0)"
proof -
  let ?A = "{j. j < length ps \<and> j \<noteq> i \<and> holding (ps ! j)}"
  have old: "{j. j < length ps \<and> holding (ps ! j)} = (if holding (ps ! i) then insert i ?A else ?A)"
    using assms by auto
  have new: "{j. j < length ps \<and> holding (ps[i := p] ! j)} = (if holding p then insert i ?A else ?A)"
    using assms by (auto simp: nth_list_update)
  show ?thesis
    unfolding holders_def length_list_update old new by (simp add: card_insert_if)
qed

lemma holders_pos: "i < length ps \<Longrightarrow> holding (ps ! i) \<Longrightarrow> 0 < holders ps"
  by (auto simp: holders_def card_gt_0_iff)

text \<open>A step of a thread that is outside of \<^verbatim>\<open>suspend\<close> before and after it.\<close>

lemma sema_inv_outside:
  assumes inv: "sema_inv (sv, ps)" and i: "i < length ps"
      and out: "suspending (ps ! i) = None" "suspending p = None" "pc_ok p"
      and cnt: "sv' - sv = (if holding p then 1 else 0) - (if holding (ps ! i) then 1 else 0)"
      and up: "holding p \<Longrightarrow> \<not> holding (ps ! i) \<Longrightarrow> 0 \<le> sv"
  shows "sema_inv (sv', ps[i := p])"
proof -
  let ?ps = "ps[i := p]"
  have h: "int (holders ?ps) - int (holders ps) = sv' - sv"
    using holders_update [OF i, of p] cnt by (auto split: if_splits)
  have susp: "suspending (?ps ! j) = suspending (ps ! j)" if "j < length ps" for j
    using that i out by (auto simp: nth_list_update)
  have neg: "sv < 0" if "j < length ps" "suspending (ps ! j) = Some v" for j v
    using sema_invD(4,5) [OF inv that] by linarith
  have same: "?ps ! j = Suspended v \<Longrightarrow> ps ! j = Suspended v" if "j < length ps" for j v
    using that i out(2) by (auto simp: nth_list_update split: if_splits)
  have le: "holders ?ps \<le> holders ps" if "j < length ps" "suspending (ps ! j) = Some v" for j v
    using h cnt up neg [OF that] by (cases "holding p"; cases "holding (ps ! i)") auto
  show ?thesis
    unfolding sema_inv_def prod.case length_list_update
  proof (intro conjI allI impI)
    show "pc_ok (?ps ! j)" if "j < length ps" for j
      using sema_invD(1) [OF inv that] i out(3) by (auto simp: nth_list_update)
    show "holders ?ps = 0" if "j < length ps" "?ps ! j = Suspended v" for j v
      using sema_invD(2) [OF inv that(1) same [OF that]] le [OF that(1), of v] same [OF that] by simp
    show "j = l" if "j < length ps" "l < length ps" "suspending (?ps ! j) \<noteq> None" "suspending (?ps ! l) \<noteq> None" for j l
      using sema_invD(3) [OF inv that(1,2)] that susp by simp
    show "sv' = int (holders ?ps) - v - 1" "int (holders ?ps) \<le> v"
      if "j < length ps" "suspending (?ps ! j) = Some v" for j v
    proof -
      have "suspending (ps ! j) = Some v"
        using that susp by simp
      then have "sv = int (holders ps) - v - 1" "int (holders ps) \<le> v"
        using sema_invD(4,5) [OF inv that(1)] by simp_all
      then show "sv' = int (holders ?ps) - v - 1" "int (holders ?ps) \<le> v"
        using h le [OF that(1) \<open>suspending (ps ! j) = Some v\<close>] by linarith+
    qed
    show "sv' = int (holders ?ps)" if "\<forall>j<length ps. suspending (?ps ! j) = None"
    proof -
      have "sv = int (holders ps)"
        using sema_inv_none [OF inv] that susp by simp
      then show ?thesis
        using h by linarith
    qed
  qed
qed

text \<open>The compare-and-swap that suspends, and the store that ends the suspension.\<close>

lemma sema_inv_suspend:
  assumes inv: "sema_inv (sv, ps)" and i: "i < length ps" and p: "ps ! i = SuspCas sv"
  shows "sema_inv (- 1, ps[i := SuspWait sv])"
proof -
  let ?ps = "ps[i := SuspWait sv]"
  have sv: "0 \<le> sv"
    using sema_invD(1) [OF inv i] p by simp
  have none: "suspending (ps ! j) = None" if "j < length ps" for j
    using sema_invD(4,5) [OF inv that] sv by (cases "suspending (ps ! j)") fastforce+
  have h: "holders ?ps = holders ps"
    using holders_update [OF i, of "SuspWait sv"] p by simp
  have cnt: "sv = int (holders ps)"
    by (rule sema_inv_none [OF inv none])
  have susp: "suspending (?ps ! j) = (if j = i then Some sv else None)" if "j < length ps" for j
    using that i none by (auto simp: nth_list_update)
  show ?thesis
    unfolding sema_inv_def prod.case length_list_update
  proof (intro conjI allI impI)
    show "pc_ok (?ps ! j)" if "j < length ps" for j
      using sema_invD(1) [OF inv that] i sv by (auto simp: nth_list_update)
    show "holders ?ps = 0" if "j < length ps" "?ps ! j = Suspended v" for j v
      using that i none [OF that(1)] by (auto simp: nth_list_update split: if_splits)
    show "j = l" if "j < length ps" "l < length ps" "suspending (?ps ! j) \<noteq> None" "suspending (?ps ! l) \<noteq> None" for j l
      using that susp by (auto split: if_splits)
    show "- 1 = int (holders ?ps) - v - 1" "int (holders ?ps) \<le> v"
      if "j < length ps" "suspending (?ps ! j) = Some v" for j v
      using that susp h cnt by (auto split: if_splits)
    show "- 1 = int (holders ?ps)" if "\<forall>j<length ps. suspending (?ps ! j) = None"
      using that susp [OF i] i by auto
  qed
qed

lemma sema_inv_suspended:
  assumes inv: "sema_inv (sv, ps)" and i: "i < length ps" and p: "ps ! i = SuspWait v"
      and free: "v = 0 \<or> sv = - v - 1"
  shows "sema_inv (sv, ps[i := Suspended v])"
proof -
  let ?ps = "ps[i := Suspended v]"
  have h: "holders ?ps = holders ps"
    using holders_update [OF i, of "Suspended v"] p by simp
  have zero: "holders ps = 0"
    using sema_invD(4,5) [OF inv i, of v] p free by auto
  have susp: "suspending (?ps ! j) = suspending (ps ! j)" if "j < length ps" for j
    using that i p by (auto simp: nth_list_update)
  show ?thesis
    unfolding sema_inv_def prod.case length_list_update h
  proof (intro conjI allI impI)
    show "pc_ok (?ps ! j)" if "j < length ps" for j
      using sema_invD(1) [OF inv that] sema_invD(1) [OF inv i] i p by (auto simp: nth_list_update)
    show "j = l" if "j < length ps" "l < length ps" "suspending (?ps ! j) \<noteq> None" "suspending (?ps ! l) \<noteq> None" for j l
      using sema_invD(3) [OF inv that(1,2)] that susp by simp
    show "sv = int (holders ps) - w - 1" "int (holders ps) \<le> w"
      if "j < length ps" "suspending (?ps ! j) = Some w" for j w
      using sema_invD(4,5) [OF inv that(1), of w] that susp by simp_all
    show "sv = int (holders ps)" if "\<forall>j<length ps. suspending (?ps ! j) = None"
      using that susp [OF i] i p by auto
  qed (use zero in simp)
qed

lemma sema_inv_release:
  assumes inv: "sema_inv (sv, ps)" and i: "i < length ps" and p: "ps ! i = Suspended v"
  shows "sema_inv (0, ps[i := Idle])"
proof -
  let ?ps = "ps[i := Idle]"
  have zero: "holders ?ps = 0"
    using holders_update [OF i, of Idle] sema_invD(2) [OF inv i p] p by simp
  have susp: "suspending (?ps ! j) = None" if "j < length ps" for j
    using sema_invD(3) [OF inv i that] p that i
    by (cases "j = i"; cases "suspending (ps ! j)") (auto simp: nth_list_update)
  show ?thesis
    unfolding sema_inv_def prod.case length_list_update zero
  proof (intro conjI allI impI)
    show "pc_ok (?ps ! j)" if "j < length ps" for j
      using sema_invD(1) [OF inv that] i by (auto simp: nth_list_update)
  qed (use susp in auto)
qed

lemma sema_inv_exec:
  assumes inv: "sema_inv (sv, ps)" and i: "i < length ps" and x: "sema_exec (ps ! i) sv = (p, sv')"
  shows "sema_inv (sv', ps[i := p])"
proof -
  note outside = sema_inv_outside [OF inv i]
  have ok: "pc_ok (ps ! i)"
    by (rule sema_invD(1) [OF inv i])
  have id: "sema_inv (sv, ps[i := ps ! i])"
    using inv by simp
  show ?thesis
  proof (cases "ps ! i")
    case (SuspCas v)
    then show ?thesis
      using x sema_inv_suspend [OF inv i] outside [of SuspRead sv] by (auto simp: CAS_def split: if_splits)
  next
    case (SuspWait v)
    then show ?thesis
      using x id sema_inv_suspended [OF inv i SuspWait] by (auto simp: Let_def split: if_splits)
  qed (use x ok id in \<open>auto simp: CAS_def split: if_splits intro!: outside\<close>)
qed

lemma sema_inv_step: "sema_step c c' \<Longrightarrow> sema_inv c \<Longrightarrow> sema_inv c'"
proof (induction rule: sema_step.induct)
  case (exec i ps sv p sv')
  then show ?case by (auto intro: sema_inv_exec)
next
  case (release i ps v sv)
  then show ?case by (auto intro: sema_inv_release)
qed (auto intro!: sema_inv_outside)

lemma sema_inv_init: "sema_inv (0, replicate n Idle)"
  by (auto simp: sema_inv_def holders_def)

lemma sema_inv_reachable:
  assumes "sema_reachable n c"
  shows "sema_inv c \<and> length (snd c) = n"
  using assms unfolding sema_reachable_def
proof (induction rule: rtranclp_induct)
  case base
  then show ?case by (simp add: sema_inv_init)
next
  case (step c c')
  have "length (snd c') = length (snd c)"
    using step(2) by (auto elim: sema_step.cases)
  then show ?case
    using step sema_inv_step by simp
qed

section \<open>Exclusion\<close>

lemma sema_exclusive:
  assumes "sema_inv (sv, ps)" "i < length ps" "ps ! i = Suspended v" "j < length ps" "j \<noteq> i"
  shows "\<not> holding (ps ! j) \<and> suspending (ps ! j) = None"
proof -
  have "holders ps = 0"
    by (rule sema_invD(2) [OF assms(1-3)])
  then show ?thesis
    using holders_pos [OF assms(4)] sema_invD(3) [OF assms(1,2,4)] assms(3,5)
    by (cases "suspending (ps ! j)") auto
qed

section \<open>Progress\<close>

text \<open>A thread that holds the semaphore can leave it by its own steps, whatever the others do in
  the meantime is not needed.\<close>

lemma unlock_steps:
  assumes "i < length ps" "holding (ps ! i)"
  shows "sema_step\<^sup>*\<^sup>* (sv, ps) (sv - 1, ps[i := Idle])"
proof -
  have cas: "sema_step\<^sup>*\<^sup>* (sv, ps[i := UnlockCas sv]) (sv - 1, ps[i := Idle])"
    using exec [of i "ps[i := UnlockCas sv]" sv Idle "sv - 1"] assms(1) by (auto simp: CAS_def)
  have read: "sema_step\<^sup>*\<^sup>* (sv, ps[i := UnlockRead]) (sv - 1, ps[i := Idle])"
    using exec [of i "ps[i := UnlockRead]" sv "UnlockCas sv" sv] assms(1) cas
    by (auto intro: converse_rtranclp_into_rtranclp)
  show ?thesis
  proof (cases "ps ! i")
    case Held
    then show ?thesis
      using call_unlock [OF assms(1)] read by (auto intro: converse_rtranclp_into_rtranclp)
  next
    case UnlockRead
    then have "ps[i := UnlockRead] = ps"
      by (metis list_update_id)
    then show ?thesis
      using read by simp
  next
    case (UnlockCas v)
    show ?thesis
    proof (cases "v = sv")
      case True
      then have "ps[i := UnlockCas sv] = ps"
        using UnlockCas by (metis list_update_id)
      then show ?thesis
        using cas by simp
    next
      case False
      then have "sema_step (sv, ps) (sv, ps[i := UnlockRead])"
        using UnlockCas assms(1) by (intro exec) (auto simp: CAS_def)
      then show ?thesis
        using read by (rule converse_rtranclp_into_rtranclp)
    qed
  qed (use assms(2) in simp_all)
qed

lemma suspend_progress:
  assumes "sema_inv (sv, ps)" "i < length ps" "ps ! i = SuspWait v"
  shows "\<exists>sv' ps'. sema_step\<^sup>*\<^sup>* (sv, ps) (sv', ps') \<and> ps' ! i = Suspended v"
  using assms
proof (induction "holders ps" arbitrary: sv ps)
  case 0
  then have "sv = - v - 1"
    using sema_invD(4) [OF 0(2,3), of v] by simp
  then have "sema_step (sv, ps) (sv, ps[i := Suspended v])"
    using 0 by (intro exec) (auto simp: Let_def)
  then show ?case
    using 0(3) by (intro exI [of _ sv] exI [of _ "ps[i := Suspended v]"]) auto
next
  case (Suc n)
  have "{j. j < length ps \<and> holding (ps ! j)} \<noteq> {}"
    using Suc.hyps(2) unfolding holders_def by (metis card.empty nat.distinct(1))
  then obtain j where j: "j < length ps" "holding (ps ! j)"
    by blast
  have steps: "sema_step\<^sup>*\<^sup>* (sv, ps) (sv - 1, ps[j := Idle])"
    by (rule unlock_steps [OF j])
  have inv: "sema_inv (sv - 1, ps[j := Idle])"
    using steps Suc.prems(1) by (induction rule: rtranclp_induct) (auto intro: sema_inv_step)
  have "n = holders (ps[j := Idle])"
    using holders_update [OF j(1), of Idle] Suc.hyps(2) j(2) by simp
  moreover have "ps[j := Idle] ! i = SuspWait v"
    using j Suc.prems(2,3) by (cases "i = j") auto
  ultimately obtain sv' ps' where "sema_step\<^sup>*\<^sup>* (sv - 1, ps[j := Idle]) (sv', ps')" "ps' ! i = Suspended v"
    using Suc.hyps(1) [OF _ inv] Suc.prems(2) by auto
  then show ?case
    using steps rtranclp_trans by (metis (no_types, lifting))
qed

end
