(* ===== verification/CcehProps.thy ===== *)
theory CcehProps
  imports CcehLife CcehLock KvTable
begin

text \<open>
  The driver \<^verbatim>\<open>src/experiments/CCEH/src/test.cpp\<close> in its single-threaded build and the
  properties of the CCEH table. \<open>fuel\<close> bounds the passes through \<^verbatim>\<open>RETRY\<close> of one
  insertion: every pass but the last deepens the segment of the key, whose depth never exceeds 31, so 32
  passes are enough.
\<close>

section \<open>The driver\<close>

text \<open>The keys of the input file are inserted with themselves as values and searched again; the result is
  \<^verbatim>\<open>failedSearch\<close>. A pool that already existed is recovered if it was not closed.\<close>

definition test_main :: "hash_bytes \<Rightarrow> nat \<Rightarrow> bool \<Rightarrow> 64 word list \<Rightarrow> (cceh, nat) exec" where
  "test_main hb fuel pool_exists keys =
     seq (if \<not> pool_exists then initCCEH
          else bnd (gets crashed) (\<lambda>c. if c then CCEH_Recovery else ret ()))
     (seq (if \<not> pool_exists then puts (CCEH_Insert hb fuel) (map (\<lambda>k. (k, k)) keys) else ret ())
     (bnd (count_failed (CCEH_Get hb) (map (\<lambda>k. (k, k)) keys) 0) (\<lambda>failedSearch.
      seq (modify (\<lambda>s. s\<lparr>crashed := False\<rparr>)) (ret failedSearch))))"

interpretation cceh_kv: kv_table "cceh_ok hb" "cceh_map hb" "\<lambda>_. True" "CCEH_Insert hb 32" "CCEH_Get hb"
    "\<lambda>k. k \<noteq> INVALID \<and> k \<noteq> SENTINEL" NONE for hb
proof
  show "cceh_ok hb s' \<and> cceh_map hb s' k = Some v \<and> cceh_map hb s' \<subseteq>\<^sub>m (cceh_map hb s)(k \<mapsto> v)"
    if "cceh_ok hb s" "k \<noteq> INVALID \<and> k \<noteq> SENTINEL" "cceh_map hb s k = None"
      "CCEH_Insert hb 32 k v s = Inr (r, s')" for s k v r s'
    using insert_cases [of hb s k 32 v] that by auto
  show "CCEH_Get hb k s = Inr (case cceh_map hb s k of None \<Rightarrow> NONE | Some v \<Rightarrow> v, s)"
    if "cceh_ok hb s" "k \<noteq> INVALID \<and> k \<noteq> SENTINEL" for s k
    using that by (intro get_run) auto
qed

section \<open>Properties\<close>



text \<open>Searching a well-formed table returns the value stored under the key, or
\<^verbatim>\<open>NONE\<close>, and leaves the table (its semaphores included) unchanged.\<close>

theorem cceh_get_ok:
  assumes "cceh_ok hb s" "k \<noteq> INVALID"
  shows "CCEH_Get hb k s = Inr (case cceh_map hb s k of None \<Rightarrow> NONE | Some v \<Rightarrow> v, s)"
  using assms by (rule get_run)

text \<open>C24: The driver as it is written creates the table with \<^verbatim>\<open>initCCEH(pop)\<close>, which
gives the segments the depth 0: on a new pool the first insertion shifts a 64-bit hash by 64, which is
undefined, whatever the key and the hash function are.\<close>

theorem cceh_test_main_undefined:
  assumes "pool_ok s" "40 + 16 * 1024 + 16400 * 1024 \<le> pool_room s" "keys \<noteq> []"
  shows "test_main hb (Suc fuel) False keys s = Inl UndefinedShift"
proof -
  obtain k ks where keys: "keys = k # ks"
    using assms(3) by (cases keys) auto
  obtain s' where "initCCEH s = Inr ((), s')" "CCEH_Insert hb (Suc fuel) k k s' = Inl UndefinedShift"
    using init_default_insert [OF assms(1,2)] by blast
  then show ?thesis
    by (simp add: test_main_def keys seq_def bnd_def del: CCEH_Insert.simps)
qed

text \<open>C21: \<^verbatim>\<open>Recovery\<close> after a crash in the middle of a split (some entries of the range of
the split segment already point to the new segment, and its own depth was not raised yet): the directory is
again the one before the split, unless the split segment was the last one of the directory.\<close>

theorem cceh_recovery_ok:
  assumes "table_ok hb sg (depth d) E"
      and "\<forall>p seg. sg p = Some seg \<longrightarrow> (\<exists>seg'. segs s p = Some seg' \<and> local_depth seg' = local_depth seg)"
      and "dirs s (dir s) = Some d" "dir s \<noteq> 0" "capacity d = 2 ^ depth d"
      and "half_split (segs s) (depth d) E (segment d) s1"
      and "\<forall>y<2 ^ depth d. segment d ! y \<noteq> E ! y \<longrightarrow> E ! y \<noteq> E ! (2 ^ depth d - 1)"
  shows "CCEH_Recovery s = Inr ((), s\<lparr>dirs := (dirs s)(dir s \<mapsto> d\<lparr>segment := E\<rparr>)\<rparr>)"
proof -
  have len: "length E = 2 ^ depth d"
    using assms(1) by (simp add: table_ok_def)
  from recovery_run [OF assms(1) _ assms(3-6)] assms(2) obtain ys where
    ys: "CCEH_Recovery s = Inr ((), s\<lparr>dirs := (dirs s)(dir s \<mapsto> d\<lparr>segment := ys\<rparr>)\<rparr>)" "length ys = 2 ^ depth d"
    "\<forall>y<2 ^ depth d. ys ! y = (if E ! y = E ! (2 ^ depth d - 1) then segment d ! y else E ! y)"
    by blast
  have "ys = E"
    by (rule nth_equalityI) (use ys(2,3) len assms(7) in \<open>auto split: if_splits\<close>)
  then show ?thesis
    using ys(1) by simp
qed

text \<open>The loop of \<^verbatim>\<open>Recovery\<close> stops at the last segment before it looks at its
entries: when the interrupted split was one of the last segment, the directory is left as the crash left it.\<close>

theorem cceh_recovery_last:
  assumes "table_ok hb sg (depth d) E"
      and "\<forall>p seg. sg p = Some seg \<longrightarrow> (\<exists>seg'. segs s p = Some seg' \<and> local_depth seg' = local_depth seg)"
      and "dirs s (dir s) = Some d" "dir s \<noteq> 0" "capacity d = 2 ^ depth d"
      and "half_split (segs s) (depth d) E (segment d) s1"
      and "\<forall>y<2 ^ depth d. segment d ! y \<noteq> E ! y \<longrightarrow> E ! y = E ! (2 ^ depth d - 1)"
  shows "CCEH_Recovery s = Inr ((), s)"
proof -
  have len: "length (segment d) = 2 ^ depth d"
    using assms(6) by (simp add: half_split_def)
  from recovery_run [OF assms(1) _ assms(3-6)] assms(2) obtain ys where
    ys: "CCEH_Recovery s = Inr ((), s\<lparr>dirs := (dirs s)(dir s \<mapsto> d\<lparr>segment := ys\<rparr>)\<rparr>)" "length ys = 2 ^ depth d"
    "\<forall>y<2 ^ depth d. ys ! y = (if E ! y = E ! (2 ^ depth d - 1) then segment d ! y else E ! y)"
    by blast
  have "ys ! y = segment d ! y" if "y < 2 ^ depth d" for y
    using ys(3) assms(7) that by metis
  then have "ys = segment d"
    by (intro nth_equalityI) (use ys(2) len in auto)
  then show ?thesis
    using ys(1) assms(3) by (simp add: fun_upd_idem)
qed

text \<open>\<^verbatim>\<open>Capacity\<close> counts every segment of the directory once, and the number of pairs
that \<^verbatim>\<open>Utilization\<close> divides by it is the number of keys in the table.\<close>

theorem cceh_statistics:
  assumes "cceh_ok hb s"
  shows "\<exists>d n. dirs s (dir s) = Some d \<and> CCEH_Capacity s = Inr (card (set (segment d)) * kNumSlot, s)
     \<and> CCEH_Utilization hb s = Inr ((card (dom (cceh_map hb s)), n), s)"
proof -
  obtain d where d: "dirs s (dir s) = Some d" "capacity d = 2 ^ depth d" "dir s \<noteq> 0"
    "table_ok hb (segs s) (depth d) (segment d)"
    using assms by (auto simp: cceh_ok_def split: option.splits)
  have "2 ^ depth d < 2 ^ depth d + 1 + (0 :: nat)"
    by simp
  from util_loop_run [OF d(4,1,2) boundary_0 this, of 0 0] obtain n where
    "util_loop hb (2 ^ depth d + 1) d 0 0 0 s = Inr ((card (dom (cceh_map hb s)), n), s)"
    by auto
  then have "CCEH_Utilization hb s = Inr ((card (dom (cceh_map hb s)), n), s)"
    using d by (simp add: CCEH_Utilization_def cur_dir_def bnd_def gets_def dir_at_def del: util_loop.simps)
  then show ?thesis
    using d(1) capacity_run [OF assms d(1)] by blast
qed

text \<open>C22: In every reachable state of any number of threads at a semaphore, a thread whose
\<^verbatim>\<open>suspend\<close> has returned true is alone: no other thread holds the semaphore, and none has
suspended it or is waiting to.\<close>

theorem cceh_suspend_exclusive:
  assumes "sema_reachable n (sv, ps)" "i < n" "ps ! i = Suspended v" "j < n" "j \<noteq> i"
  shows "\<not> holding (ps ! j) \<and> suspending (ps ! j) = None"
  using sema_inv_reachable [OF assms(1)] sema_exclusive [of sv ps i v j] assms by simp

text \<open>C23: A thread that waits in \<^verbatim>\<open>suspend\<close> is never stuck: from every reachable
state the threads that hold the semaphore can release it, after which the call returns.\<close>

theorem cceh_suspend_progress:
  assumes "sema_reachable n (sv, ps)" "i < n" "ps ! i = SuspWait v"
  shows "\<exists>sv' ps'. sema_step\<^sup>*\<^sup>* (sv, ps) (sv', ps') \<and> ps' ! i = Suspended v"
  using sema_inv_reachable [OF assms(1)] suspend_progress [of sv ps i v] assms by simp

section \<open>Examples\<close>

definition cceh_pool :: "nat \<Rightarrow> cceh" where
  "cceh_pool r = \<lparr>segs = Map.empty, dirs = Map.empty, next_oid = 1, pool_room = r, pool_junk = (\<lambda>_. 0),
     dir = 0, crashed = False\<rparr>"

lemma cceh_pool_ok: "pool_ok (cceh_pool r)"
  by (simp add: pool_ok_def cceh_pool_def)

lemma insert_into_empty:
  assumes ok: "cceh_ok hb s" and e: "cceh_map hb s = Map.empty"
  shows "\<exists>s'. insert_attempt hb k v s = Inr (True, s')"
proof -
  obtain d seg where d: "dirs s (dir s) = Some d" "depth d \<le> 31"
    and e': "entry_ok hb (segs s) (depth d) (segment d) (prefix hb (depth d) k) seg"
    by (rule cceh_okE [OF ok, of k])
  note eD = entry_okD [OF e']
  define q where "q = prefix hb (local_depth seg) k"
  obtain i rest where w: "window hb k = i # rest"
    by (cases "window hb k") (auto simp: window_def probe_def kNumPairPerCacheLine_def kNumCacheLine_def)
  then have i: "i < kNumSlot"
    using window_less [of i hb k] by simp
  have wf: "bucket_wf hb (local_depth seg) q (bucket seg)"
    using eD(6) entry_prefix [OF e'] d(2) by (simp add: q_def)
  have "\<not> live hb (local_depth seg) q (p_key (bucket seg ! i))"
  proof
    assume l: "live hb (local_depth seg) q (p_key (bucket seg ! i))"
    let ?k = "p_key (bucket seg ! i)"
    have "prefix hb (depth d) ?k div 2 ^ (depth d - local_depth seg) = prefix hb (depth d) k div 2 ^ (depth d - local_depth seg)"
      using l prefix_prefix [of "local_depth seg" "depth d" hb] eD(4) d(2) by (simp add: live_def q_def)
    moreover have "prefix hb (depth d) ?k < 2 ^ depth d"
      using d(2) by (intro prefix_less) simp
    ultimately have "segment d ! prefix hb (depth d) ?k = segment d ! prefix hb (depth d) k"
      using eD(7) by simp
    then have "cceh_map hb s ?k = bucket_map (bucket seg) ?k"
      using eD(2) by (simp add: cceh_map_def d table_map_def)
    then show False
      using bucket_map_slot [OF wf i l] e by simp
  qed
  then have "slot_free hb (local_depth seg) q (bucket seg ! i)"
    using bucket_wf_sentinel [OF wf i] by (auto simp: slot_free_def live_def prefix_def)
  then show ?thesis
    using insert_attempt_run [OF ok d(1) e', of v] by (simp add: w q_def CAS_def)
qed

lemma log2_floor_2: "log2_floor 2 = 1"
  by (simp add: log2_floor.simps)

lemma cceh_example:
  "\<exists>s. initCCEH_cap 2 (cceh_pool 100000) = Inr ((), s) \<and> cceh_ok hb s \<and> cceh_map hb s = Map.empty"
  by (rule init_cap_ok) (simp_all add: cceh_pool_ok log2_floor_2, simp add: cceh_pool_def)

lemma cceh_example_insert:
  assumes "cceh_ok hb s" "cceh_map hb s = Map.empty"
  shows "\<exists>s'. CCEH_Insert hb 32 k v s = Inr ((), s') \<and> insert_fits hb 32 k v s"
proof -
  obtain s' where "insert_attempt hb k v s = Inr (True, s')"
    using insert_into_empty [OF assms] by blast
  then have "CCEH_Insert hb (Suc n) k v s = Inr ((), s') \<and> insert_fits hb (Suc n) k v s" for n
    by (simp add: bnd_def ret_def)
  from this [of 31] show ?thesis
    by auto
qed


theorem cceh_get_ok_witness:
  "\<exists>s. initCCEH_cap 2 (cceh_pool 100000) = Inr ((), s) \<and> CCEH_Get (\<lambda>_ _. 5) 7 s = Inr (NONE, s)"
proof -
  let ?hb = "\<lambda>(_ :: 8 word list) (_ :: 64 word). 5 :: 64 word"
  obtain s where s: "initCCEH_cap 2 (cceh_pool 100000) = Inr ((), s)" "cceh_ok ?hb s" "cceh_map ?hb s = Map.empty"
    using cceh_example by blast
  have "(7 :: 64 word) \<noteq> INVALID"
    by (simp add: INVALID_def)
  then show ?thesis
    using cceh_get_ok [OF s(2), of 7] s by simp
qed


theorem cceh_test_main_undefined_witness:
  "test_main (\<lambda>_ _. 5) 32 False [1, 2, 3] (cceh_pool (2 ^ 30)) = Inl UndefinedShift"
proof -
  have "40 + 16 * 1024 + 16400 * 1024 \<le> pool_room (cceh_pool (2 ^ 30))"
    by (simp add: cceh_pool_def)
  from cceh_test_main_undefined [OF cceh_pool_ok this, of "[1, 2, 3]" "\<lambda>_ _. 5" 31] show ?thesis
    by simp
qed

theorem cceh_statistics_witness:
  "\<exists>s n. initCCEH_cap 2 (cceh_pool 100000) = Inr ((), s) \<and> CCEH_Utilization (\<lambda>_ _. 5) s = Inr ((0, n), s)"
proof -
  let ?hb = "\<lambda>(_ :: 8 word list) (_ :: 64 word). 5 :: 64 word"
  obtain s where s: "initCCEH_cap 2 (cceh_pool 100000) = Inr ((), s)" "cceh_ok ?hb s" "cceh_map ?hb s = Map.empty"
    using cceh_example by blast
  then show ?thesis
    using cceh_statistics [OF s(2)] by auto
qed

text \<open>A directory of depth 2 with two segments of depth 1, and a third segment that a split has created.\<close>

definition example_segment :: "nat \<Rightarrow> Segment" where
  "example_segment n = \<lparr>bucket = fresh_bucket (cceh_pool 0), sema = 0, local_depth = n\<rparr>"

definition cceh_crash :: "nat list \<Rightarrow> cceh" where
  "cceh_crash xs = (cceh_pool 0)\<lparr>segs := [1 \<mapsto> example_segment 1, 2 \<mapsto> example_segment 1, 3 \<mapsto> example_segment 2],
     dirs := [4 \<mapsto> \<lparr>segment = xs, d_sema = 0, capacity = 4, depth = 2\<rparr>], next_oid := 5, dir := 4, crashed := True\<rparr>"

lemma less_4: "(x :: nat) < 4 \<longleftrightarrow> x = 0 \<or> x = 1 \<or> x = 2 \<or> x = 3"
  by auto

lemma cceh_crash_table: "table_ok hb (segs (cceh_crash xs)) 2 [1, 1, 2, 2]"
proof -
  have all: "(\<forall>y<2 ^ 2. P y) \<longleftrightarrow> P 0 \<and> P 1 \<and> P 2 \<and> P 3" for P :: "nat \<Rightarrow> bool"
    by (auto simp: less_4)
  have "entry_ok hb (segs (cceh_crash xs)) 2 [1, 1, 2, 2] x (example_segment 1)" if "x \<in> {0, 1, 2, 3}" for x
    using that fresh_bucket_wf unfolding entry_ok_def all
    by (elim insertE; simp add: cceh_crash_def example_segment_def)
  then show ?thesis
    unfolding table_ok_def all by (intro conjI exI [of _ "example_segment 1"]) simp_all
qed

theorem cceh_recovery_ok_witness:
  "CCEH_Recovery (cceh_crash [1, 3, 2, 2]) = Inr ((), cceh_crash [1, 1, 2, 2])"
proof -
  let ?s = "cceh_crash [1, 3, 2, 2]" and ?d = "\<lparr>segment = [1, 3, 2, 2], d_sema = 0, capacity = 4, depth = 2\<rparr>"
  have half: "half_split (segs ?s) (depth ?d) [1, 1, 2, 2] (segment ?d) 3"
    by (auto simp: half_split_def less_4 cceh_crash_def example_segment_def)
  have "CCEH_Recovery ?s = Inr ((), ?s\<lparr>dirs := (dirs ?s)(dir ?s \<mapsto> ?d\<lparr>segment := [1, 1, 2, 2]\<rparr>)\<rparr>)"
    by (rule cceh_recovery_ok [where hb = "\<lambda>_ _. 5", OF _ _ _ _ _ half])
       (use cceh_crash_table in \<open>auto simp: less_4\<close>, auto simp: cceh_crash_def)
  then show ?thesis
    by (simp add: cceh_crash_def)
qed

theorem cceh_recovery_last_witness:
  "CCEH_Recovery (cceh_crash [1, 1, 2, 3]) = Inr ((), cceh_crash [1, 1, 2, 3])"
proof -
  let ?s = "cceh_crash [1, 1, 2, 3]" and ?d = "\<lparr>segment = [1, 1, 2, 3], d_sema = 0, capacity = 4, depth = 2\<rparr>"
  have half: "half_split (segs ?s) (depth ?d) [1, 1, 2, 2] (segment ?d) 3"
    by (auto simp: half_split_def less_4 cceh_crash_def example_segment_def intro!: exI [of _ "2 :: nat"])
  show ?thesis
    by (rule cceh_recovery_last [where hb = "\<lambda>_ _. 5", OF _ _ _ _ _ half])
       (use cceh_crash_table in \<open>auto simp: less_4\<close>, auto simp: cceh_crash_def)
qed

lemma sema_run:
  assumes "sema_reachable n (sv, ps)" "i < length ps" "sema_exec (ps ! i) sv = (p, sv')"
  shows "sema_reachable n (sv', ps[i := p])"
  using assms exec [OF assms(2,3)] by (auto simp: sema_reachable_def)

lemma sema_example_suspended: "sema_reachable 2 (- 1, [Suspended 0, Idle])"
proof -
  have "sema_reachable 2 (0, [SuspRead, Idle])"
    unfolding sema_reachable_def using call_suspend [of 0 "[Idle, Idle]" 0] by (auto simp: numeral_2_eq_2)
  then have "sema_reachable 2 (0, [SuspCas 0, Idle])"
    using sema_run [of 2 0 "[SuspRead, Idle]" 0] by simp
  then have "sema_reachable 2 (- 1, [SuspWait 0, Idle])"
    using sema_run [of 2 0 "[SuspCas 0, Idle]" 0] by (simp add: CAS_def)
  then show ?thesis
    using sema_run [of 2 "- 1" "[SuspWait 0, Idle]" 0] by (simp add: Let_def)
qed

lemma sema_example_waiting: "sema_reachable 2 (- 1, [Held, SuspWait 1])"
proof -
  have "sema_reachable 2 (0, [LockRead, Idle])"
    unfolding sema_reachable_def using call_lock [of 0 "[Idle, Idle]" 0] by (auto simp: numeral_2_eq_2)
  then have "sema_reachable 2 (0, [LockCas 0, Idle])"
    using sema_run [of 2 0 "[LockRead, Idle]" 0] by simp
  then have "sema_reachable 2 (1, [Held, Idle])"
    using sema_run [of 2 0 "[LockCas 0, Idle]" 0] by (simp add: CAS_def)
  then have "sema_reachable 2 (1, [Held, SuspRead])"
    unfolding sema_reachable_def using call_suspend [of 1 "[Held, Idle]" 1] by auto
  then have "sema_reachable 2 (1, [Held, SuspCas 1])"
    using sema_run [of 2 1 "[Held, SuspRead]" 1] by simp
  then show ?thesis
    using sema_run [of 2 1 "[Held, SuspCas 1]" 1] by (simp add: CAS_def)
qed

theorem cceh_suspend_exclusive_witness:
  "sema_reachable 2 (- 1, [Suspended 0, Idle]) \<and> \<not> holding ([Suspended 0, Idle] ! 1)"
  using cceh_suspend_exclusive [OF sema_example_suspended, of 0 0 1] sema_example_suspended by simp

theorem cceh_suspend_progress_witness:
  "\<exists>sv ps. sema_step\<^sup>*\<^sup>* (- 1, [Held, SuspWait 1]) (sv, ps) \<and> ps ! 1 = Suspended 1"
  using cceh_suspend_progress [OF sema_example_waiting, of 1 1] by simp

end
