(* ===== verification/Itoa.thy ===== *)
theory Itoa
  imports Prelude "HOL-Library.Word"
begin

text \<open>
  Integer formatting of the memcached server, \<^verbatim>\<open>src/experiments/memcached/src/itoa_ljust.c\<close>,
  on a byte memory: a pointer is an address and every function returns the address of the
  terminating zero byte it wrote.

  The product \<^verbatim>\<open>d * 100000000\<close> is one of two \<^verbatim>\<open>int\<close> operands and does not fit for
  the largest arguments. The model takes the multiplication as a parameter with the two meanings it can have:
  \<open>mul_checked\<close>, where an overflow is undefined, and \<open>mul_wrap\<close>, the wrap-around of the machine
  instruction that compilers emit.
\<close>

section \<open>The functions\<close>

type_synonym mem = "nat \<Rightarrow> char"

definition lut :: string where
  "lut = ''0001020304050607080910111213141516171819'' @
         ''2021222324252627282930313233343536373839'' @
         ''4041424344454647484950515253545556575859'' @
         ''6061626364656667686970717273747576777879'' @
         ''8081828384858687888990919293949596979899''"

definition put_char :: "char \<Rightarrow> nat \<Rightarrow> (mem, unit) exec" where
  "put_char c p = modify (\<lambda>m. m(p := c))"

definition out2 :: "int \<Rightarrow> nat \<Rightarrow> (mem, nat) exec" where
  "out2 d p =
     (if 0 \<le> d \<and> d < 100
      then seq (put_char (lut ! (2 * nat d)) p) (seq (put_char (lut ! (2 * nat d + 1)) (p + 1)) (ret (p + 2)))
      else raise IndexRange)"

definition out1 :: "int \<Rightarrow> nat \<Rightarrow> (mem, nat) exec" where
  "out1 c p = seq (put_char (char_of (nat c)) p) (ret (p + 1))"

definition mul_checked :: "int \<Rightarrow> int \<Rightarrow> fault + int" where
  "mul_checked a b = (if int_range (a * b) then Inr (a * b) else Inl SignedOverflow)"

definition mul_wrap :: "int \<Rightarrow> int \<Rightarrow> fault + int" where
  "mul_wrap a b = Inr (signed_take_bit 31 (a * b))"

text \<open>\<^verbatim>\<open>digits\<close> prints a single leading digit; it returns the new \<^verbatim>\<open>n\<close>,
  \<^verbatim>\<open>*d\<close> and \<^verbatim>\<open>*p\<close>.\<close>

definition digits :: "32 word \<Rightarrow> 32 word \<Rightarrow> int \<Rightarrow> nat \<Rightarrow> nat \<Rightarrow> (mem, nat \<times> int \<times> nat) exec" where
  "digits u k d p n =
     (if u < k * 10
      then let d = uint (u div k) in bnd (out1 (48 + d) p) (\<lambda>p. ret (n - 1, d, p))
      else ret (n, d, p))"

text \<open>Two consecutive labels of the switch in \<^verbatim>\<open>itoa\<close>, \<open>c\<close> and \<open>c - 1\<close>, reached from label
  \<open>n\<close> by falling through.\<close>

definition itoa_case ::
    "(int \<Rightarrow> int \<Rightarrow> fault + int) \<Rightarrow> nat \<Rightarrow> nat \<Rightarrow> 32 word \<Rightarrow> 32 word \<times> nat \<times> int \<Rightarrow> (mem, 32 word \<times> nat \<times> int) exec" where
  "itoa_case mul n c k = (\<lambda>(u, p, d).
     bnd (if c \<le> n then let d = uint (u div k) in bnd (out2 d p) (\<lambda>p. ret (d, p)) else ret (d, p)) (\<lambda>(d, p).
     if c - 1 \<le> n \<and> c \<noteq> 2
     then (case mul d (uint k) of Inl e \<Rightarrow> raise e | Inr x \<Rightarrow> ret (u - word_of_int x, p, d))
     else ret (u, p, d)))"

definition itoa :: "(int \<Rightarrow> int \<Rightarrow> fault + int) \<Rightarrow> 32 word \<Rightarrow> nat \<Rightarrow> int \<Rightarrow> nat \<Rightarrow> (mem, nat) exec" where
  "itoa mul u p d n =
     bnd (if n \<le> 10
          then bnd (itoa_case mul n 10 100000000 (u, p, d)) (\<lambda>st.
               bnd (itoa_case mul n 8 1000000 st) (\<lambda>st.
               bnd (itoa_case mul n 6 10000 st) (\<lambda>st.
               bnd (itoa_case mul n 4 100 st) (itoa_case mul n 2 1))))
          else ret (u, p, d))
     (\<lambda>(u, p, d). seq (put_char (CHR 0x00) p) (ret p))"

definition itoa_u32 :: "(int \<Rightarrow> int \<Rightarrow> fault + int) \<Rightarrow> 32 word \<Rightarrow> nat \<Rightarrow> (mem, nat) exec" where
  "itoa_u32 mul u p =
     (let d = 0 in
      bnd (if u \<ge> 100000000 then digits u 100000000 d p 10
           else if u < 100 then digits u 1 d p 2
           else if u < 10000 then digits u 100 d p 4
           else if u < 1000000 then digits u 10000 d p 6
           else digits u 1000000 d p 8)
      (\<lambda>(n, d, p). itoa mul u p d n))"

definition itoa_32 :: "(int \<Rightarrow> int \<Rightarrow> fault + int) \<Rightarrow> 32 word \<Rightarrow> nat \<Rightarrow> (mem, nat) exec" where
  "itoa_32 mul i p =
     (if sint i < 0 then seq (put_char (CHR ''-'') p) (itoa_u32 mul (- i) (p + 1)) else itoa_u32 mul i p)"

lemma word_div_less: "u \<noteq> 0 \<Longrightarrow> unat ((u :: 64 word) div 1000000000) < unat u"
  by (simp add: unat_div unat_gt_0)

function itoa_u64 :: "(int \<Rightarrow> int \<Rightarrow> fault + int) \<Rightarrow> 64 word \<Rightarrow> nat \<Rightarrow> (mem, nat) exec" where
  "itoa_u64 mul u p =
     (let lower = (ucast u :: 32 word) in
      if ucast lower = u then itoa_u32 mul lower p
      else let upper = u div 1000000000 in
        bnd (itoa_u64 mul upper p) (\<lambda>p.
        let lower = (ucast (u - upper * 1000000000) :: 32 word); d = uint (lower div 100000000) in
        bnd (out1 (48 + d) p) (\<lambda>p. itoa mul lower p d 9)))"
  by pat_completeness auto

termination
proof (relation "measure (\<lambda>(_, u, _). unat u)")
  fix mul :: "int \<Rightarrow> int \<Rightarrow> fault + int" and u p lower upper
  assume "lower = (ucast (u :: 64 word) :: 32 word)" "ucast lower \<noteq> u" "upper = u div 1000000000"
  then have "u \<noteq> 0" by auto
  then show "((mul, upper, p), mul, u, p) \<in> measure (\<lambda>(_, u, _). unat u)"
    using \<open>upper = _\<close> word_div_less by simp
qed simp

definition itoa_64 :: "(int \<Rightarrow> int \<Rightarrow> fault + int) \<Rightarrow> 64 word \<Rightarrow> nat \<Rightarrow> (mem, nat) exec" where
  "itoa_64 mul i p =
     (if sint i < 0 then seq (put_char (CHR ''-'') p) (itoa_u64 mul (- i) (p + 1)) else itoa_u64 mul i p)"

section \<open>Decimal notation\<close>

definition digit :: "nat \<Rightarrow> char" where
  "digit n = char_of (48 + n)"

fun show_nat :: "nat \<Rightarrow> string" where
  "show_nat n = (if n < 10 then [digit n] else show_nat (n div 10) @ [digit (n mod 10)])"

definition show_int :: "int \<Rightarrow> string" where
  "show_int i = (if i < 0 then CHR ''-'' # show_nat (nat (- i)) else show_nat (nat i))"

declare show_nat.simps [simp del]

primrec fixed :: "nat \<Rightarrow> nat \<Rightarrow> string" where
  "fixed 0 n = []"
| "fixed (Suc k) n = fixed k (n div 10) @ [digit (n mod 10)]"

lemma fixed_length [simp]: "length (fixed k n) = k"
  by (induction k arbitrary: n) auto

lemma fixed_add: "fixed (a + b) n = fixed a (n div 10 ^ b) @ fixed b (n mod 10 ^ b)"
proof (induction b arbitrary: n)
  case (Suc b)
  have "n div 10 div 10 ^ b = n div 10 ^ Suc b"
    by (simp add: div_mult2_eq)
  moreover have "n div 10 mod 10 ^ b = n mod 10 ^ Suc b div 10"
    by (simp add: mod_mult2_eq)
  moreover have "n mod 10 ^ Suc b mod 10 = n mod 10"
    by (simp add: mod_mult2_eq)
  ultimately show ?case
    by (simp add: Suc.IH del: power_Suc)
qed simp

lemma show_nat_fixed: "10 ^ k \<le> n \<Longrightarrow> n < 10 ^ Suc k \<Longrightarrow> show_nat n = fixed (Suc k) n"
proof (induction k arbitrary: n)
  case 0
  then show ?case by (simp add: show_nat.simps)
next
  case (Suc k)
  have "show_nat (n div 10) = fixed (Suc k) (n div 10)"
    by (rule Suc.IH) (use Suc.prems in \<open>auto simp: div_less_iff_less_mult less_eq_div_iff_mult_less_eq mult.commute\<close>)
  moreover have "\<not> n < 10"
  proof -
    have "10 * 1 \<le> 10 * (10 :: nat) ^ k" by (intro mult_left_mono) auto
    then have "10 \<le> (10 :: nat) ^ Suc k" by simp
    then show ?thesis using Suc.prems(1) by linarith
  qed
  ultimately show ?case
    by (simp add: show_nat.simps [of n])
qed

lemma show_nat_small: "n < 10 \<Longrightarrow> show_nat n = [digit n]"
  by (simp add: show_nat.simps)

lemma show_nat_split:
  assumes "a \<noteq> 0" "b < 10 ^ k"
  shows "show_nat (a * 10 ^ k + b) = show_nat a @ fixed k b"
  using assms(2)
proof (induction k arbitrary: b)
  case (Suc k)
  have "a * 10 ^ Suc k + b = b + 10 * (a * 10 ^ k)"
    by simp
  then have "(a * 10 ^ Suc k + b) div 10 = a * 10 ^ k + b div 10" "(a * 10 ^ Suc k + b) mod 10 = b mod 10"
    by (simp_all only: div_mult_self2 mod_mult_self2)
  moreover have "\<not> a * 10 ^ Suc k + b < 10"
  proof -
    have "1 * 10 ^ 1 \<le> a * (10 :: nat) ^ Suc k"
      using assms(1) by (intro mult_mono power_increasing) auto
    then have "10 \<le> a * (10 :: nat) ^ Suc k" by (simp only: mult_1 power_one_right)
    then show ?thesis by linarith
  qed
  moreover have "b div 10 < 10 ^ k"
    using Suc.prems by (simp add: div_less_iff_less_mult mult.commute)
  ultimately show ?case
    using Suc.IH [of "b div 10"] by (subst show_nat.simps) (simp del: power_Suc)
qed simp

section \<open>Writing to memory\<close>

definition store :: "mem \<Rightarrow> nat \<Rightarrow> string \<Rightarrow> mem" where
  "store m p xs = (\<lambda>a. if p \<le> a \<and> a < p + length xs then xs ! (a - p) else m a)"

lemma store_Nil [simp]: "store m p [] = m"
  by (auto simp: store_def fun_eq_iff)

lemma store_single: "m(p := c) = store m p [c]"
  by (auto simp: store_def fun_eq_iff)

lemma store_store [simp]: "store (store m p xs) (p + length xs) ys = store m p (xs @ ys)"
  by (auto simp: store_def nth_append fun_eq_iff)

text \<open>Text written over the end of a text it does not exceed, such as a number over a terminating zero.\<close>

lemma store_over:
  assumes "ys \<noteq> []"
  shows "store (store m p (xs @ [c])) (p + length xs) ys = store m p (xs @ ys)"
proof (rule ext)
  fix a
  show "store (store m p (xs @ [c])) (p + length xs) ys a = store m p (xs @ ys) a"
    using assms by (cases "a = p + length xs") (auto simp: store_def nth_append neq_Nil_conv)
qed

lemma concat_nth:
  assumes "\<And>x. length (f x) = k" "i < length xs" "j < k"
  shows "concat (map f xs) ! (k * i + j) = f (xs ! i) ! j"
  using assms(2)
proof (induction xs arbitrary: i)
  case (Cons x xs)
  then show ?case
    using assms(1,3) by (cases i) (simp_all add: nth_append add.assoc)
qed simp

definition ten :: string where "ten = ''0123456789''"

lemma ten_digit: "i < 10 \<Longrightarrow> ten ! i = digit i"
proof -
  assume "i < 10"
  moreover have "list_all (\<lambda>i. ten ! i = digit i) [0..<10]"
    by code_simp
  ultimately show ?thesis by (simp add: list_all_iff)
qed

lemma lut_ten: "lut = concat (map (\<lambda>a. concat (map (\<lambda>b. [a, b]) ten)) ten)" 
  by (simp add: lut_def ten_def)

lemma lut_nth:
  assumes "d < 100" "e < 2"
  shows "lut ! (2 * d + e) = [digit (d div 10), digit (d mod 10)] ! e"
proof -
  have ij: "d div 10 < 10" "d mod 10 < 10" and len: "length ten = 10"
    using assms(1) by (auto simp: ten_def)
  have "2 * d + e = 20 * (d div 10) + (2 * (d mod 10) + e)"
    by presburger
  then have "lut ! (2 * d + e) = concat (map (\<lambda>b. [ten ! (d div 10), b]) ten) ! (2 * (d mod 10) + e)"
    unfolding lut_ten using assms(2) ij len
    by (simp only:) (rule concat_nth, auto simp: length_concat comp_def sum_list_triv)
  also have "\<dots> = [ten ! (d div 10), ten ! (d mod 10)] ! e"
    using assms(2) ij len by (intro concat_nth) auto
  finally show ?thesis
    using ij by (simp add: ten_digit)
qed

lemma lut_pair:
  assumes "d < 100"
  shows "[lut ! (2 * d), lut ! (2 * d + 1)] = fixed 2 d"
proof -
  have "d div 10 mod 10 = d div 10"
    using assms by simp
  then show ?thesis
    using lut_nth [OF assms, of 0] lut_nth [OF assms, of 1] by (simp add: numeral_2_eq_2)
qed

lemma out2_run:
  assumes "d < 100"
  shows "out2 (int d) p m = Inr (p + 2, store m p (fixed 2 d))"
proof -
  have "m(p := lut ! (2 * d), p + 1 := lut ! (2 * d + 1)) = store m p [lut ! (2 * d), lut ! (2 * d + 1)]"
    by (auto simp: store_def fun_eq_iff nth_Cons split: nat.splits)
  then show ?thesis
    using assms lut_pair [OF assms]
    by (simp add: out2_def seq_def bnd_def put_char_def modify_def ret_def)
qed

lemma out1_run: "d < 10 \<Longrightarrow> out1 (48 + int d) p m = Inr (p + 1, store m p [digit d])"
  by (simp add: out1_def seq_def bnd_def put_char_def modify_def ret_def store_single digit_def nat_add_distrib)

section \<open>One label of the switch\<close>

lemma uint_unat: "uint w = int (unat w)"
  by (simp add: unsigned_of_nat)

text \<open>The parameter multiplies correctly up to \<open>2 ^ 32\<close>.\<close>

definition mul_ok :: "(int \<Rightarrow> int \<Rightarrow> fault + int) \<Rightarrow> int \<Rightarrow> 32 word \<Rightarrow> bool" where
  "mul_ok mul d k \<longleftrightarrow> (\<exists>x. mul d (uint k) = Inr x \<and> (word_of_int x :: 32 word) = word_of_int (d * uint k))"

lemma mul_wrap_ok: "mul_ok mul_wrap d k"
proof -
  have "(word_of_int (signed_take_bit 31 y) :: 32 word) = word_of_int y" for y
    by (rule bit_word_eqI) (auto simp: bit_simps)
  then show ?thesis
    by (simp add: mul_ok_def mul_wrap_def)
qed

lemma mul_checked_ok: "int_range (d * uint k) \<Longrightarrow> mul_ok mul_checked d k"
  by (simp add: mul_ok_def mul_checked_def)

lemma itoa_case_skip:
  assumes "n < c - 1"
  shows "itoa_case mul n c k (u, p, d) m = Inr ((u, p, d), m)"
proof -
  have "\<not> c \<le> n" "\<not> c - 1 \<le> n"
    using assms by linarith+
  then show ?thesis
    by (simp add: itoa_case_def bnd_def ret_def)
qed

lemma sub_mod:
  fixes u k :: "32 word"
  shows "u - word_of_int (uint (u div k) * uint k) = u mod k"
proof -
  have "word_of_int (uint (u div k) * uint k) = (u div k) * k"
    by (simp add: of_int_mult)
  then show ?thesis
    by (simp add: minus_div_mult_eq_mod)
qed

lemma itoa_case_enter:
  assumes "n = c - 1" "2 < c" "d = uint (u div k)" "mul_ok mul d k"
  shows "itoa_case mul n c k (u, p, d) m = Inr ((u mod k, p, d), m)"
proof -
  obtain x where x: "mul d (uint k) = Inr x" "word_of_int x = (word_of_int (d * uint k) :: 32 word)"
    using assms(4) by (auto simp: mul_ok_def)
  then have "u - word_of_int x = u mod k"
    by (simp only: x(2) assms(3) sub_mod)
  moreover have "\<not> c \<le> n" "c - 1 \<le> n"
    using assms(1,2) by linarith+
  ultimately show ?thesis
    using assms(2) x(1) by (simp add: itoa_case_def bnd_def ret_def)
qed

lemma itoa_case_pair:
  assumes "c \<le> n" "2 \<le> c" "unat u < 100 * unat k" "c \<noteq> 2 \<Longrightarrow> mul_ok mul (uint (u div k)) k"
  shows "itoa_case mul n c k (u, p, d) m =
     Inr ((if c = 2 then u else u mod k, p + 2, uint (u div k)), store m p (fixed 2 (unat u div unat k)))"
proof -
  have d: "uint (u div k) = int (unat u div unat k)"
    by (simp add: uint_unat unat_div)
  have lt: "unat u div unat k < 100"
    using assms(3) by (simp add: less_mult_imp_div_less)
  have "c - 1 \<le> n"
    using assms(1) by simp
  show ?thesis
  proof (cases "c = 2")
    case True
    then show ?thesis
      using assms(1) out2_run [OF lt] d by (simp add: itoa_case_def bnd_def ret_def Let_def)
  next
    case False
    then obtain x where x: "mul (uint (u div k)) (uint k) = Inr x"
      "word_of_int x = (word_of_int (uint (u div k) * uint k) :: 32 word)"
      using assms(4) by (auto simp: mul_ok_def)
    then have "u - word_of_int x = u mod k"
      by (simp only: x(2) sub_mod)
    then show ?thesis
      using assms(1) False \<open>c - 1 \<le> n\<close> out2_run [OF lt] x(1) unfolding d
      by (simp add: itoa_case_def bnd_def ret_def Let_def d)
  qed
qed

section \<open>The switch\<close>

text \<open>\<open>prints T j\<close>: the labels \<open>T\<close> print a number below \<open>10 ^ j\<close> with exactly
  \<open>j\<close> digits.\<close>

definition prints :: "(32 word \<times> nat \<times> int \<Rightarrow> (mem, 32 word \<times> nat \<times> int) exec) \<Rightarrow> nat \<Rightarrow> bool" where
  "prints T j \<longleftrightarrow> (\<forall>u p d m. unat u < 10 ^ j \<longrightarrow>
     (\<exists>u' d'. T (u, p, d) m = Inr ((u', p + j, d'), store m p (fixed j (unat u)))))"

lemma printsD:
  "prints T j \<Longrightarrow> unat u < 10 ^ j \<Longrightarrow>
   \<exists>u' d'. T (u, p, d) m = Inr ((u', p + j, d'), store m p (fixed j (unat u)))"
  by (simp add: prints_def)

lemma prints_last: "2 \<le> n \<Longrightarrow> prints (itoa_case mul n 2 1) 2"
  by (simp add: prints_def itoa_case_pair)

lemma prints_pair:
  assumes T: "prints T j" and c: "c \<le> n" "2 < c" and k: "unat k = 10 ^ j"
      and mul: "\<And>u :: 32 word. unat u < 10 ^ (j + 2) \<Longrightarrow> mul_ok mul (uint (u div k)) k"
  shows "prints (\<lambda>st. bnd (itoa_case mul n c k st) T) (j + 2)"
  unfolding prints_def
proof (intro allI impI)
  fix u :: "32 word" and p d m
  assume u: "unat u < 10 ^ (j + 2)"
  have "unat u < 100 * unat k"
    using u k by simp
  note run = itoa_case_pair [OF c(1) _ this mul [OF u], of p d m]
  have "unat (u mod k) = unat u mod 10 ^ j"
    by (simp add: unat_mod k)
  then have "unat (u mod k) < 10 ^ j"
    by simp
  from printsD [OF T this, of "p + 2" "uint (u div k)" "store m p (fixed 2 (unat u div unat k))"]
  obtain u' d' where "T (u mod k, p + 2, uint (u div k)) (store m p (fixed 2 (unat u div unat k)))
      = Inr ((u', p + 2 + j, d'), store (store m p (fixed 2 (unat u div unat k))) (p + 2) (fixed j (unat (u mod k))))"
    by blast
  moreover have "store (store m p (fixed 2 (unat u div unat k))) (p + 2) (fixed j (unat (u mod k)))
      = store m p (fixed (j + 2) (unat u))"
    using store_store [of m p "fixed 2 (unat u div unat k)"] fixed_add [of 2 j "unat u"]
    by (simp add: k unat_mod add.commute)
  ultimately show "\<exists>u' d'. bnd (itoa_case mul n c k (u, p, d)) T m =
      Inr ((u', p + (j + 2), d'), store m p (fixed (j + 2) (unat u)))"
    using run c by (auto simp: bnd_def)
qed

lemma enter_prints:
  assumes "prints T j" "n = c - 1" "2 < c" "unat k = 10 ^ j" "d = uint (u div k)" "mul_ok mul d k"
  shows "\<exists>u' d'. bnd (itoa_case mul n c k (u, p, d)) T m =
     Inr ((u', p + j, d'), store m p (fixed j (unat u mod 10 ^ j)))"
proof -
  have "unat (u mod k) = unat u mod 10 ^ j"
    by (simp add: unat_mod assms(4))
  then show ?thesis
    using printsD [OF assms(1), of "u mod k" p d m] itoa_case_enter [OF assms(2,3,5,6), of p m]
    by (auto simp: bnd_def)
qed

definition mul_small :: "(int \<Rightarrow> int \<Rightarrow> fault + int) \<Rightarrow> bool" where
  "mul_small mul \<longleftrightarrow> (\<forall>d (k :: 32 word). 0 \<le> d \<longrightarrow>
     d < 100 \<and> unat k \<le> 1000000 \<or> d \<le> 21 \<and> unat k \<le> 100000000 \<longrightarrow> mul_ok mul d k)"

lemma mul_small_wrap: "mul_small mul_wrap"
  by (simp add: mul_small_def mul_wrap_ok)

lemma mul_small_checked: "mul_small mul_checked"
  unfolding mul_small_def
proof (intro allI impI)
  fix d :: int and k :: "32 word"
  assume d: "0 \<le> d" "d < 100 \<and> unat k \<le> 1000000 \<or> d \<le> 21 \<and> unat k \<le> 100000000"
  have "d < 100 \<and> int (unat k) \<le> 1000000 \<or> d \<le> 21 \<and> int (unat k) \<le> 100000000"
    using d(2) by linarith
  then have "d \<le> 99 \<and> uint k \<le> 1000000 \<or> d \<le> 21 \<and> uint k \<le> 100000000"
    unfolding uint_unat by linarith
  then have "d * uint k \<le> 99 * 1000000 \<or> d * uint k \<le> 21 * 100000000"
    using d(1) by (metis mult_mono unsigned_greater_eq zero_le_numeral)
  then have "d * uint k \<le> 2100000000"
    by linarith
  moreover have "0 \<le> d * uint k"
    using d(1) by simp
  ultimately show "mul_ok mul_checked d k"
    by (intro mul_checked_ok) (simp add: int_range_def INT_MIN_def INT_MAX_def)
qed

lemma mul_small_div:
  assumes "mul_small mul" "unat k = 10 ^ j" "j \<le> 6" "unat u < 10 ^ (j + 2)"
  shows "mul_ok mul (uint (u div k)) k"
proof -
  have "unat u div 10 ^ j < 100"
    using assms(4) by (simp add: less_mult_imp_div_less)
  moreover have "(10 :: nat) ^ j \<le> 10 ^ 6"
    using assms(3) by (intro power_increasing) auto
  ultimately show ?thesis
    using assms(1,2) unfolding mul_small_def uint_unat unat_div by simp
qed

lemma mul_small_lead:
  assumes "mul_small mul" "unat k = 10 ^ j" "j \<le> 8" "unat u < 22 * 10 ^ j"
  shows "mul_ok mul (uint (u div k)) k"
proof -
  have "unat u div 10 ^ j < 22"
    using assms(4) by (simp add: less_mult_imp_div_less)
  then have "int (unat u div 10 ^ j) \<le> 21"
    by simp
  moreover have "(10 :: nat) ^ j \<le> 10 ^ 8"
    using assms(3) by (intro power_increasing) auto
  ultimately show ?thesis
    using assms(1,2) unfolding mul_small_def uint_unat unat_div by simp
qed

definition labels4 where "labels4 mul n st = bnd (itoa_case mul n 4 100 st) (itoa_case mul n 2 1)"
definition labels6 where "labels6 mul n st = bnd (itoa_case mul n 6 10000 st) (labels4 mul n)"
definition labels8 where "labels8 mul n st = bnd (itoa_case mul n 8 1000000 st) (labels6 mul n)"
definition labels10 where "labels10 mul n st = bnd (itoa_case mul n 10 100000000 st) (labels8 mul n)"

lemma itoa_labels:
  assumes "n \<le> 10" "labels10 mul n (u, p, d) m = Inr ((u', p', d'), store m p xs)" "p' = p + length xs"
  shows "itoa mul u p d n m = Inr (p', store m p (xs @ [CHR 0x00]))"
proof -
  have "itoa mul u p d n m = bnd (labels10 mul n (u, p, d)) (\<lambda>(u, p, d). seq (put_char (CHR 0x00) p) (ret p)) m"
    using assms(1)
    by (simp add: itoa_def labels10_def [abs_def] labels8_def [abs_def] labels6_def [abs_def] labels4_def [abs_def])
  then show ?thesis
    using assms(2,3) by (simp add: bnd_def seq_def put_char_def modify_def ret_def store_single)
qed

lemma prints_labels:
  assumes "mul_small mul"
  shows "4 \<le> n \<Longrightarrow> prints (labels4 mul n) 4" "6 \<le> n \<Longrightarrow> prints (labels6 mul n) 6" "8 \<le> n \<Longrightarrow> prints (labels8 mul n) 8"
proof -
  show 4: "prints (labels4 mul n) 4" if "4 \<le> n" for n
    using prints_pair [where T = "itoa_case mul n 2 1" and j = 2 and c = 4 and n = n and k = 100 and mul = mul]
      prints_last [of n mul] mul_small_div [OF assms, of 100 2] that
    unfolding labels4_def [abs_def] by simp
  show 6: "prints (labels6 mul n) 6" if "6 \<le> n" for n
    using prints_pair [where T = "labels4 mul n" and j = 4 and c = 6 and n = n and k = 10000 and mul = mul]
      4 [of n] mul_small_div [OF assms, of 10000 4] that
    unfolding labels6_def [abs_def] by simp
  show "prints (labels8 mul n) 8" if "8 \<le> n"
    using prints_pair [where T = "labels6 mul n" and j = 6 and c = 8 and n = n and k = 1000000 and mul = mul]
      6 [of n] mul_small_div [OF assms, of 1000000 6] that
    unfolding labels8_def [abs_def] by simp
qed

lemma skip_label: "n < c - 1 \<Longrightarrow> bnd (itoa_case mul n c k (u, p, d)) T m = T (u, p, d) m"
  by (simp add: bnd_def itoa_case_skip)

text \<open>Entered at an even label, the switch prints all digits of the number; entered at an odd one, it prints
  all but the first digit, which \<^verbatim>\<open>d\<close> holds.\<close>

lemma itoa_even:
  assumes "mul_small mul" "n \<in> {2, 4, 6, 8}" "unat u < 10 ^ n"
  shows "itoa mul u p d n m = Inr (p + n, store m p (fixed n (unat u) @ [CHR 0x00]))"
proof -
  have "\<exists>u' d'. labels10 mul n (u, p, d) m = Inr ((u', p + n, d'), store m p (fixed n (unat u)))"
  proof -
    consider "n = 2" | "n = 4" | "n = 6" | "n = 8"
      using assms(2) by blast
    then show ?thesis
    proof cases
      case 1
      have "labels10 mul n (u, p, d) m = itoa_case mul n 2 1 (u, p, d) m"
        using 1 by (simp add: labels10_def labels8_def labels6_def labels4_def skip_label)
      then show ?thesis
        using printsD [OF prints_last, of n u mul p d m] 1 assms(3) by simp
    next
      case 2
      have "labels10 mul n (u, p, d) m = labels4 mul n (u, p, d) m"
        using 2 by (simp add: labels10_def labels8_def labels6_def skip_label)
      then show ?thesis
        using printsD [OF prints_labels(1) [OF assms(1)], of n u p d m] 2 assms(3) by simp
    next
      case 3
      have "labels10 mul n (u, p, d) m = labels6 mul n (u, p, d) m"
        using 3 by (simp add: labels10_def labels8_def skip_label)
      then show ?thesis
        using printsD [OF prints_labels(2) [OF assms(1)], of n u p d m] 3 assms(3) by simp
    next
      case 4
      have "labels10 mul n (u, p, d) m = labels8 mul n (u, p, d) m"
        using 4 by (simp add: labels10_def skip_label)
      then show ?thesis
        using printsD [OF prints_labels(3) [OF assms(1)], of n u p d m] 4 assms(3) by simp
    qed
  qed
  then obtain u' d' where "labels10 mul n (u, p, d) m = Inr ((u', p + n, d'), store m p (fixed n (unat u)))"
    by blast
  then show ?thesis
    by (rule itoa_labels [rotated]) (use assms(2) in auto)
qed

lemma itoa_odd:
  assumes mul: "mul_small mul" and k: "(n, k) \<in> {(3, 100), (5, 10000), (7, 1000000), (9, 100000000)}"
      and d: "d = uint (u div k)" and u: "unat u < 10 * unat k"
  shows "itoa mul u p d n m = Inr (p + (n - 1), store m p (fixed (n - 1) (unat u mod unat k) @ [CHR 0x00]))"
proof -
  have "\<exists>u' d'. labels10 mul n (u, p, d) m = Inr ((u', p + (n - 1), d'), store m p (fixed (n - 1) (unat u mod unat k)))"
  proof -
    consider "n = 3" "k = 100" | "n = 5" "k = 10000" | "n = 7" "k = 1000000" | "n = 9" "k = 100000000"
      using k by blast
    then show ?thesis
    proof cases
      case 1
      have "labels10 mul n (u, p, d) m = bnd (itoa_case mul n 4 k (u, p, d)) (itoa_case mul n 2 1) m"
        using 1 by (simp add: labels10_def labels8_def labels6_def labels4_def skip_label)
      then show ?thesis
        using enter_prints [where T = "itoa_case mul n 2 1" and j = 2 and n = n and c = 4 and k = k and d = d and u = u and mul = mul and p = p and m = m]
          prints_last [of n mul] 1 mul_small_lead [OF mul, of k 2 u] d u by simp
    next
      case 2
      have "labels10 mul n (u, p, d) m = bnd (itoa_case mul n 6 k (u, p, d)) (labels4 mul n) m"
        using 2 by (simp add: labels10_def labels8_def labels6_def skip_label)
      then show ?thesis
        using enter_prints [where T = "labels4 mul n" and j = 4 and n = n and c = 6 and k = k and d = d and u = u and mul = mul and p = p and m = m]
          prints_labels(1) [OF mul, of n] 2 mul_small_lead [OF mul, of k 4 u] d u
        by simp
    next
      case 3
      have "labels10 mul n (u, p, d) m = bnd (itoa_case mul n 8 k (u, p, d)) (labels6 mul n) m"
        using 3 by (simp add: labels10_def labels8_def skip_label)
      then show ?thesis
        using enter_prints [where T = "labels6 mul n" and j = 6 and n = n and c = 8 and k = k and d = d and u = u and mul = mul and p = p and m = m]
          prints_labels(2) [OF mul, of n] 3 mul_small_lead [OF mul, of k 6 u] d u
        by simp
    next
      case 4
      have "labels10 mul n (u, p, d) m = bnd (itoa_case mul n 10 k (u, p, d)) (labels8 mul n) m"
        using 4 by (simp add: labels10_def)
      then show ?thesis
        using enter_prints [where T = "labels8 mul n" and j = 8 and n = n and c = 10 and k = k and d = d and u = u and mul = mul and p = p and m = m]
          prints_labels(3) [OF mul, of n] 4 mul_small_lead [OF mul, of k 8 u] d u
        by simp
    qed
  qed
  then obtain u' d' where "labels10 mul n (u, p, d) m
      = Inr ((u', p + (n - 1), d'), store m p (fixed (n - 1) (unat u mod unat k)))"
    by blast
  then show ?thesis
    by (rule itoa_labels [rotated]) (use k in auto)
qed

lemma itoa_one: "itoa mul u p d 1 m = Inr (p, store m p [CHR 0x00])"
proof -
  have "labels10 mul 1 (u, p, d) m = Inr ((u, p, d), store m p [])"
    by (simp add: labels10_def labels8_def labels6_def labels4_def skip_label)
       (simp add: itoa_case_def bnd_def ret_def)
  from itoa_labels [OF _ this] show ?thesis by simp
qed

lemma itoa_ten:
  assumes mul: "mul_small mul" and ok: "mul_ok mul (uint (u div 100000000)) 100000000"
  shows "itoa mul u p d 10 m = Inr (p + 10, store m p (fixed 10 (unat u) @ [CHR 0x00]))"
proof -
  have u: "unat u < 10 ^ 10"
  proof -
    have "unat u < 2 ^ LENGTH(32)" by (rule unsigned_less)
    then show ?thesis by simp
  qed
  have lt: "unat u < 100 * unat (100000000 :: 32 word)"
    using u by simp
  note run = itoa_case_pair [where c = 10 and n = 10 and p = p and d = d and m = m, OF order.refl _ lt ok]
  let ?m = "store m p (fixed 2 (unat u div 100000000))"
  have "unat (u mod 100000000) = unat u mod 10 ^ 8"
    by (simp add: unat_mod)
  then have "\<exists>u' d'. labels8 mul 10 (u mod 100000000, p + 2, uint (u div 100000000)) ?m
      = Inr ((u', p + 2 + 8, d'), store ?m (p + 2) (fixed 8 (unat u mod 10 ^ 8)))"
    using printsD [OF prints_labels(3) [OF mul], of 10 "u mod 100000000" "p + 2" "uint (u div 100000000)" ?m] by simp
  moreover have "store ?m (p + 2) (fixed 8 (unat u mod 10 ^ 8)) = store m p (fixed 10 (unat u))"
    using store_store [of m p "fixed 2 (unat u div 100000000)"] fixed_add [of 2 8 "unat u"] by simp
  ultimately obtain u' d' where "labels10 mul 10 (u, p, d) m = Inr ((u', p + 10, d'), store m p (fixed 10 (unat u)))"
    using run by (auto simp: labels10_def bnd_def)
  then show ?thesis
    by (rule itoa_labels [rotated]) simp_all
qed

section \<open>Unsigned 32-bit numbers\<close>

definition printed :: "nat \<Rightarrow> mem \<Rightarrow> string \<Rightarrow> fault + nat \<times> mem" where
  "printed p m xs = Inr (p + length xs, store m p (xs @ [CHR 0x00]))"

lemma digits_one:
  assumes "u < k * 10" "unat u < 10 * unat k"
  shows "digits u k d p n m = Inr ((n - 1, uint (u div k), p + 1), store m p [digit (unat u div unat k)])"
proof -
  have "unat u div unat k < 10"
    using assms(2) by (simp add: less_mult_imp_div_less)
  moreover have "uint (u div k) = int (unat u div unat k)"
    by (simp only: uint_unat unat_div)
  ultimately show ?thesis
    using assms(1) out1_run [of "unat u div unat k" p m] by (simp add: digits_def bnd_def ret_def Let_def)
qed

lemma digits_none: "\<not> u < k * 10 \<Longrightarrow> digits u k d p n m = Inr ((n, d, p), m)"
  by (simp add: digits_def ret_def)

lemma u32_branch:
  fixes j :: nat
  assumes mul: "mul_small mul" and nk: "(n, k, j) \<in> {(4, 100, 2), (6, 10000, 4), (8, 1000000, 6), (10, 100000000, 8)}"
      and u: "unat k \<le> unat u" "unat u < 100 * unat k"
      and ok: "n = 10 \<Longrightarrow> mul_ok mul (uint (u div 100000000)) 100000000"
  shows "bnd (digits u k 0 p n) (\<lambda>(n, d, p). itoa mul u p d n) m = printed p m (show_nat (unat u))"
proof -
  have k: "unat k = 10 ^ j" and n: "n = j + 2" and k10: "unat (k * 10) = 10 * unat k"
    using nk by auto
  show ?thesis
  proof (cases "unat u < 10 * unat k")
    case True
    then have lt: "u < k * 10"
      by (simp add: word_less_nat_alt k10)
    have sh: "show_nat (unat u) = digit (unat u div unat k) # fixed j (unat u mod unat k)"
    proof -
      have "unat u div 10 ^ j mod 10 = unat u div 10 ^ j"
        using True by (simp add: k less_mult_imp_div_less)
      then show ?thesis
        using show_nat_fixed [of j "unat u"] u True fixed_add [of 1 j "unat u"] by (simp add: k)
    qed
    have nk': "(n - 1, k) \<in> {(3, 100), (5, 10000), (7, 1000000), (9, 100000000)}"
      using nk by auto
    show ?thesis
      using digits_one [OF lt True, of 0 p n m]
        itoa_odd [OF mul nk' refl True, of "p + 1" "store m p [digit (unat u div unat k)]"]
        store_store [of m p "[digit (unat u div unat k)]"]
      by (simp add: bnd_def printed_def sh n)
  next
    case False
    then have ge: "\<not> u < k * 10"
      by (simp add: word_less_nat_alt k10)
    have sh: "show_nat (unat u) = fixed n (unat u)"
      using show_nat_fixed [of "j + 1" "unat u"] False u(2) by (simp add: k n)
    have "itoa mul u p 0 n m = Inr (p + n, store m p (fixed n (unat u) @ [CHR 0x00]))"
    proof (cases "n = 10")
      case True
      then show ?thesis
        using itoa_ten [OF mul ok] by simp
    next
      case False
      then show ?thesis
        using nk u(2) by (intro itoa_even [OF mul]) (auto simp: k n)
    qed
    then show ?thesis
      using digits_none [OF ge, of 0 p n m] by (simp add: bnd_def printed_def sh)
  qed
qed

lemma u32_small:
  assumes mul: "mul_small mul" and u: "unat u < 100"
  shows "bnd (digits u 1 0 p 2) (\<lambda>(n, d, p). itoa mul u p d n) m = printed p m (show_nat (unat u))"
proof (cases "unat u < 10")
  case True
  then have lt: "u < 1 * 10" "unat u < 10 * unat (1 :: 32 word)"
    by (simp_all add: word_less_nat_alt)
  show ?thesis
    using digits_one [OF lt, of 0 p 2 m] itoa_one [of mul u "p + 1" "uint u" "store m p [digit (unat u)]"]
      store_store [of m p "[digit (unat u)]"] True
    by (simp add: bnd_def printed_def show_nat_small)
next
  case False
  then have ge: "\<not> u < 1 * 10"
    by (simp add: word_less_nat_alt)
  have "show_nat (unat u) = fixed 2 (unat u)"
    using show_nat_fixed [of 1 "unat u"] False u by (simp add: numeral_2_eq_2)
  then show ?thesis
    using digits_none [OF ge, of 0 p 2 m] itoa_even [OF mul, of 2 u p 0 m] u by (simp add: bnd_def printed_def)
qed

lemma u32_run:
  assumes mul: "mul_small mul"
      and ok: "2200000000 \<le> unat u \<Longrightarrow> mul_ok mul (uint (u div 100000000)) 100000000"
  shows "itoa_u32 mul u p m = printed p m (show_nat (unat u))"
proof -
  have big: "unat u < 100 * unat (100000000 :: 32 word)"
  proof -
    have "unat u < 2 ^ LENGTH(32)" by (rule unsigned_less)
    then show ?thesis by simp
  qed
  have ok': "mul_ok mul (uint (u div 100000000)) 100000000"
    using ok mul_small_lead [OF mul, of 100000000 8 u] by (cases "2200000000 \<le> unat u") simp_all
  note branch = u32_branch [OF mul _ _ _ ok', where p = p and m = m]
  have cmp: "u < 100 \<longleftrightarrow> unat u < 100" "u < 10000 \<longleftrightarrow> unat u < 10000" "u < 1000000 \<longleftrightarrow> unat u < 1000000"
    "100000000 \<le> u \<longleftrightarrow> 100000000 \<le> unat u"
    by (simp_all add: word_less_nat_alt word_le_nat_alt)
  consider "100000000 \<le> unat u" | "unat u < 100" | "100 \<le> unat u" "unat u < 10000"
    | "10000 \<le> unat u" "unat u < 1000000" | "1000000 \<le> unat u" "unat u < 100000000"
    by linarith
  then show ?thesis
    using branch [of 10 100000000 8] branch [of 4 100 2] branch [of 6 10000 4] branch [of 8 1000000 6]
      u32_small [OF mul, of u p m] big
    by cases (simp_all add: itoa_u32_def Let_def cmp)
qed

text \<open>The signed product overflows from 2200000000 on.\<close>

lemma u32_overflow:
  assumes "2200000000 \<le> unat u"
  shows "itoa_u32 mul_checked u p m = Inl SignedOverflow"
proof -
  have ge: "\<not> u < 100000000 * 10" "100000000 \<le> u"
    using assms by (simp_all add: word_less_nat_alt word_le_nat_alt)
  have "unat u < 2 ^ LENGTH(32)"
    by (rule unsigned_less)
  then have lt: "unat u div 100000000 < 100"
    by simp
  have d: "uint (u div 100000000) = int (unat u div 100000000)"
    by (simp only: uint_unat unat_div) simp
  have "22 \<le> unat u div 100000000"
    using assms by simp
  then have "\<not> int_range (uint (u div 100000000) * 100000000)"
    by (simp add: d int_range_def INT_MAX_def)
  then have "itoa_case mul_checked 10 10 100000000 (u, p, 0) m = Inl SignedOverflow"
    using out2_run [OF lt, of p m] unfolding d
    by (simp add: itoa_case_def bnd_def ret_def raise_def Let_def d mul_checked_def)
  then have "itoa mul_checked u p 0 10 m = Inl SignedOverflow"
    by (simp add: itoa_def bnd_def)
  then show ?thesis
    using digits_none [OF ge(1), of 0 p 10 m] ge(2) by (simp add: itoa_u32_def Let_def bnd_def)
qed

section \<open>Unsigned 64-bit numbers\<close>

text \<open>The leading chunk, which \<^verbatim>\<open>itoa_u64\<close> hands to \<^verbatim>\<open>itoa_u32\<close>.\<close>

fun lead :: "nat \<Rightarrow> nat" where
  "lead n = (if n < 2 ^ 32 then n else lead (n div 1000000000))"

declare lead.simps [simp del]
declare itoa_u64.simps [simp del]

lemma fits32: "ucast (ucast (u :: 64 word) :: 32 word) = u \<longleftrightarrow> unat u < 2 ^ 32"
proof -
  have "unat (ucast (ucast u :: 32 word) :: 64 word) = unat u mod 2 ^ 32"
    unfolding unsigned_ucast_eq by (simp add: take_bit_eq_mod unat_mod)
  then show ?thesis
    by (metis mod_less mod_less_divisor unsigned_word_eqI zero_less_numeral zero_less_power)
qed

lemma unat_ucast32: "unat (u :: 64 word) < 2 ^ 32 \<Longrightarrow> unat (ucast u :: 32 word) = unat u"
  by (simp add: unsigned_ucast_eq take_bit_eq_mod)

lemma last_chunk:
  assumes mul: "mul_small mul" and low: "unat lower < 1000000000"
  shows "bnd (out1 (48 + uint (lower div 100000000)) p) (\<lambda>p. itoa mul lower p (uint (lower div 100000000)) 9) m
     = printed p m (fixed 9 (unat lower))"
proof -
  let ?e = "unat lower div 100000000"
  have e: "?e < 10"
    using low by simp
  have d: "uint (lower div 100000000) = int ?e"
    by (simp only: uint_unat unat_div) simp
  have lt: "unat lower < 10 * unat (100000000 :: 32 word)"
    using low by simp
  have odd: "itoa mul lower (p + 1) (uint (lower div 100000000)) 9 (store m p [digit ?e]) =
        Inr (p + 1 + 8, store (store m p [digit ?e]) (p + 1) (fixed 8 (unat lower mod 100000000) @ [CHR 0x00]))"
    using itoa_odd [OF mul _ refl lt, of 9] by simp
  have chunk: "fixed 9 (unat lower) = digit ?e # fixed 8 (unat lower mod 100000000)"
    using fixed_add [of 1 8 "unat lower"] e by simp
  have "out1 (48 + uint (lower div 100000000)) p m = Inr (p + 1, store m p [digit ?e])"
    unfolding d by (rule out1_run [OF e])
  then show ?thesis
    using odd store_store [of m p "[digit ?e]"] by (simp add: bnd_def printed_def chunk)
qed

lemma u64_run:
  assumes mul: "mul_small mul"
      and "\<And>v :: 32 word. unat v = lead (unat u) \<Longrightarrow> 2200000000 \<le> unat v \<Longrightarrow>
             mul_ok mul (uint (v div 100000000)) 100000000"
  shows "itoa_u64 mul u p m = printed p m (show_nat (unat u))"
  using assms(2)
proof (induction "unat u" arbitrary: u m rule: less_induct)
  case less
  show ?case
  proof (cases "unat u < 2 ^ 32")
    case True
    have "lead (unat u) = unat (ucast u :: 32 word)"
      using True unat_ucast32 [OF True] by (simp add: lead.simps)
    then have "itoa_u32 mul (ucast u) p m = printed p m (show_nat (unat (ucast u :: 32 word)))"
      using less.prems by (intro u32_run [OF mul]) simp
    then show ?thesis
      using True fits32 [of u] unat_ucast32 [OF True] by (simp add: itoa_u64.simps [of mul u] Let_def)
  next
    case False
    define upper where "upper = u div 1000000000"
    define lower :: "32 word" where "lower = ucast (u - upper * 1000000000)"
    have up: "unat upper = unat u div 1000000000"
      by (simp add: upper_def unat_div)
    have "u - upper * 1000000000 = u mod 1000000000"
      by (simp add: upper_def minus_div_mult_eq_mod)
    then have diff: "unat (u - upper * 1000000000) = unat u mod 1000000000"
      by (simp add: unat_mod)
    then have low: "unat lower = unat u mod 1000000000"
      unfolding lower_def by (subst unat_ucast32) simp_all
    have small: "unat upper < unat u" "unat upper \<noteq> 0"
      using False up by simp_all
    have "lead (unat u) = lead (unat upper)"
      using False by (simp add: lead.simps [of "unat u"] up)
    then have IH: "itoa_u64 mul upper p m = printed p m (show_nat (unat upper))"
      using less.hyps [OF small(1)] less.prems by simp
    have chunk: "unat lower < 1000000000"
      by (simp add: low)
    have "unat u = unat upper * 10 ^ 9 + unat lower"
      by (simp add: up low)
    then have sh: "show_nat (unat u) = show_nat (unat upper) @ fixed 9 (unat lower)"
      using show_nat_split [OF small(2), of "unat lower" 9] chunk by simp
    have "itoa_u64 mul u p m = bnd (itoa_u64 mul upper p) (\<lambda>p. bnd (out1 (48 + uint (lower div 100000000)) p)
        (\<lambda>p. itoa mul lower p (uint (lower div 100000000)) 9)) m"
      using False fits32 [of u] by (simp add: itoa_u64.simps [of mul u] Let_def upper_def lower_def)
    also have "\<dots> = printed (p + length (show_nat (unat upper))) (store m p (show_nat (unat upper) @ [CHR 0x00]))
        (fixed 9 (unat lower))"
      unfolding bnd_Inr [where m = "itoa_u64 mul upper p" and s = m, OF IH [unfolded printed_def]]
      by (rule last_chunk [OF mul chunk])
    also have "\<dots> = printed p m (show_nat (unat u))"
      using store_over [of "fixed 9 (unat lower) @ [CHR 0x00]" m p "show_nat (unat upper)" "CHR 0x00"]
      by (simp add: printed_def sh)
    finally show ?thesis .
  qed
qed

section \<open>Signed numbers\<close>

lemma uint_of_sint:
  fixes w :: "'a::len word"
  assumes "0 \<le> x" "x < 2 ^ LENGTH('a)" "word_of_int x = w"
  shows "unat w = nat x"
proof -
  have "uint w = x"
    using assms by (metis mod_pos_pos_trivial of_int_uint uint_word_of_int)
  then show ?thesis
    by (metis nat_int uint_unat)
qed

lemma unat_sint_nonneg:
  fixes w :: "'a::len word"
  assumes "0 \<le> sint w"
  shows "unat w = nat (sint w)"
proof (rule uint_of_sint [OF assms])
  have "sint w < 2 ^ (LENGTH('a) - 1)"
    by (rule sint_lt)
  also have "\<dots> \<le> (2 :: int) ^ LENGTH('a)"
    by (intro power_increasing) auto
  finally show "sint w < 2 ^ LENGTH('a)" .
qed simp

lemma unat_minus_sint:
  fixes w :: "'a::len word"
  assumes "sint w < 0"
  shows "unat (- w) = nat (- sint w)"
proof (rule uint_of_sint)
  have "- (2 ^ (LENGTH('a) - 1)) \<le> sint w"
    by (rule sint_ge)
  moreover have "(2 :: int) ^ (LENGTH('a) - 1) < 2 ^ LENGTH('a)"
    by (intro power_strict_increasing) auto
  ultimately show "- sint w < 2 ^ LENGTH('a)"
    by linarith
qed (use assms in simp_all)

lemma printed_minus:
  assumes "f (p + 1) (store m p [CHR ''-'']) = printed (p + 1) (store m p [CHR ''-'']) xs"
  shows "seq (put_char (CHR ''-'') p) (f (p + 1)) m = printed p m (CHR ''-'' # xs)"
  using assms store_store [of m p "''-''"]
  by (simp add: seq_def bnd_def put_char_def modify_def printed_def store_single)

section \<open>Properties\<close>


text \<open>By the rules of C, where an overflow of a signed product is undefined, \<^verbatim>\<open>itoa_u32\<close>
prints the numbers below 2200000000 and is undefined for all others, although every 32-bit number is a legal
argument (the flags of an item are printed with it).\<close>

theorem itoa_u32_overflow:
  "itoa_u32 mul_checked u p m =
     (if unat u < 2200000000 then printed p m (show_nat (unat u)) else Inl SignedOverflow)"
  using u32_run [OF mul_small_checked, of u p m] u32_overflow [of u p m] by simp

end
