(* ===== verification/ByteQueue.thy ===== *)
theory ByteQueue
  imports Prelude
begin

text \<open>
  The contract of a bounded byte queue towards its producer and its consumer: a chunk is accepted
  whole or refused, what is taken out is a prefix of what is stored, and neither side ever faults.
\<close>

datatype 'a queue_op = Put "'a list" | Take nat

text \<open>A schedule of the two sides. The result collects what was accepted and what was delivered.\<close>

primrec run_ops :: "('a list \<Rightarrow> ('s, bool) exec) \<Rightarrow> (nat \<Rightarrow> 's \<Rightarrow> 'a list \<times> 's) \<Rightarrow> 'a queue_op list \<Rightarrow>
    ('s, 'a list \<times> 'a list) exec" where
  "run_ops put get [] = ret ([], [])"
| "run_ops put get (q # qs) =
     (case q of
        Put xs \<Rightarrow> bnd (put xs) (\<lambda>b. bnd (run_ops put get qs) (\<lambda>r. ret ((if b then xs else []) @ fst r, snd r)))
      | Take k \<Rightarrow> (\<lambda>s. case get k s of (ys, s') \<Rightarrow>
                     bnd (run_ops put get qs) (\<lambda>r. ret (fst r, ys @ snd r)) s'))"

locale byte_queue =
  fixes ok :: "'s \<Rightarrow> bool" and stored :: "'s \<Rightarrow> 'a list"
    and put :: "'a list \<Rightarrow> ('s, bool) exec" and get :: "nat \<Rightarrow> 's \<Rightarrow> 'a list \<times> 's"
  assumes put_total: "ok s \<Longrightarrow> \<exists>b s'. put xs s = Inr (b, s')"
    and put_ok: "ok s \<Longrightarrow> put xs s = Inr (b, s') \<Longrightarrow> ok s' \<and> stored s' = stored s @ (if b then xs else [])"
    and take_ok: "ok s \<Longrightarrow> get k s = (ys, s') \<Longrightarrow> ok s' \<and> stored s = ys @ stored s'"
begin

lemma schedule_fifo:
  assumes "ok s"
  shows "\<exists>accepted sent s'. run_ops put get qs s = Inr ((accepted, sent), s') \<and> ok s'
           \<and> stored s @ accepted = sent @ stored s'"
  using assms
proof (induction qs arbitrary: s)
  case Nil
  then show ?case by (simp add: ret_def)
next
  case (Cons q qs)
  show ?case
  proof (cases q)
    case (Put xs)
    obtain b s1 where s1: "put xs s = Inr (b, s1)"
      using put_total [OF Cons.prems] by blast
    note s1_ok = put_ok [OF Cons.prems s1]
    obtain acc out s' where "run_ops put get qs s1 = Inr ((acc, out), s')" "ok s'"
      "stored s1 @ acc = out @ stored s'"
      using Cons.IH s1_ok by blast
    then show ?thesis
      using s1 s1_ok by (simp add: Put bnd_def ret_def)
  next
    case (Take k)
    obtain ys s1 where s1: "get k s = (ys, s1)"
      by fastforce
    note s1_ok = take_ok [OF Cons.prems s1]
    obtain acc out s' where "run_ops put get qs s1 = Inr ((acc, out), s')" "ok s'"
      "stored s1 @ acc = out @ stored s'"
      using Cons.IH s1_ok by blast
    then show ?thesis
      using s1 s1_ok by (simp add: Take bnd_def ret_def)
  qed
qed

end

end
