(* ===== verification/BipBuffer.thy ===== *)
theory BipBuffer
  imports ByteQueue "HOL-Library.Word"
begin

text \<open>
  The two-region byte buffer of the memcached logger, crawler and LRU maintainer,
  \<^verbatim>\<open>src/experiments/memcached/src/bipbuffer.c\<close>. Cursors keep their C types, and a pointer
  into the buffer is an offset into \<open>data\<close> (\<open>None\<close> for \<^verbatim>\<open>NULL\<close>). A copy that
  leaves the buffer or its source, or has a negative length, is a fault.
\<close>

section \<open>The functions\<close>

record bipbuf =
  size_of :: "64 word"
  a_start :: "32 word"
  a_end :: "32 word"
  b_end :: "32 word"
  b_inuse :: int
  bytes :: "8 word list"

text \<open>Conversion of an unsigned value to \<^verbatim>\<open>int\<close>.\<close>

definition to_int :: "'a::len word \<Rightarrow> int" where
  "to_int w = signed_take_bit 31 (uint w)"

definition bipbuf_unused :: "bipbuf \<Rightarrow> int" where
  "bipbuf_unused me =
     (if b_inuse me = 1 then to_int (a_start me - b_end me) else to_int (size_of me - ucast (a_end me)))"

definition bipbuf_size :: "bipbuf \<Rightarrow> int" where
  "bipbuf_size me = to_int (size_of me)"

definition bipbuf_used :: "bipbuf \<Rightarrow> int" where
  "bipbuf_used me = to_int ((a_end me - a_start me) + b_end me)"

definition bipbuf_init :: "32 word \<Rightarrow> bipbuf \<Rightarrow> bipbuf" where
  "bipbuf_init sz me = me\<lparr>a_start := 0, a_end := 0, b_end := 0, size_of := ucast sz, b_inuse := 0\<rparr>"

text \<open>\<^verbatim>\<open>malloc\<close> returns a block with unspecified contents, or \<^verbatim>\<open>NULL\<close>.\<close>

definition bipbuf_new :: "8 word list option \<Rightarrow> 32 word \<Rightarrow> bipbuf option" where
  "bipbuf_new block sz =
     (case block of None \<Rightarrow> None
      | Some bs \<Rightarrow> Some (bipbuf_init sz
          \<lparr>size_of = 0, a_start = 0, a_end = 0, b_end = 0, b_inuse = 0, bytes = take (unat sz) bs\<rparr>))"

definition bipbuf_is_empty :: "bipbuf \<Rightarrow> bool" where
  "bipbuf_is_empty me \<longleftrightarrow> a_start me = a_end me"

definition check_for_switch_to_b :: "bipbuf \<Rightarrow> bipbuf" where
  "check_for_switch_to_b me =
     (if size_of me - ucast (a_end me) < ucast (a_start me - b_end me) then me\<lparr>b_inuse := 1\<rparr> else me)"

definition bipbuf_request :: "int \<Rightarrow> bipbuf \<Rightarrow> nat option" where
  "bipbuf_request sz me =
     (if bipbuf_unused me < sz then None
      else if b_inuse me = 1 then Some (unat (b_end me)) else Some (unat (a_end me)))"

definition bipbuf_push :: "int \<Rightarrow> (bipbuf, int) exec" where
  "bipbuf_push sz = (\<lambda>me.
     if bipbuf_unused me < sz then Inr (0, me)
     else let me = (if b_inuse me = 1 then me\<lparr>b_end := b_end me + word_of_int sz\<rparr>
                    else me\<lparr>a_end := a_end me + word_of_int sz\<rparr>)
          in Inr (sz, check_for_switch_to_b me))"

definition copy_in :: "nat \<Rightarrow> 8 word list \<Rightarrow> int \<Rightarrow> bipbuf \<Rightarrow> fault + bipbuf" where
  "copy_in at src sz me =
     (if 0 \<le> sz \<and> nat sz \<le> length src \<and> at + nat sz \<le> length (bytes me)
      then Inr (me\<lparr>bytes := take at (bytes me) @ take (nat sz) src @ drop (at + nat sz) (bytes me)\<rparr>)
      else Inl IndexRange)"

definition bipbuf_offer :: "8 word list \<Rightarrow> int \<Rightarrow> (bipbuf, int) exec" where
  "bipbuf_offer src sz = (\<lambda>me.
     if bipbuf_unused me < sz then Inr (0, me)
     else if b_inuse me = 1
     then (case copy_in (unat (b_end me)) src sz me of
             Inl e \<Rightarrow> Inl e
           | Inr me \<Rightarrow> Inr (sz, check_for_switch_to_b (me\<lparr>b_end := b_end me + word_of_int sz\<rparr>)))
     else (case copy_in (unat (a_end me)) src sz me of
             Inl e \<Rightarrow> Inl e
           | Inr me \<Rightarrow> Inr (sz, check_for_switch_to_b (me\<lparr>a_end := a_end me + word_of_int sz\<rparr>))))"

definition bipbuf_peek :: "32 word \<Rightarrow> bipbuf \<Rightarrow> nat option" where
  "bipbuf_peek sz me =
     (if size_of me < ucast (a_start me + sz) then None
      else if bipbuf_is_empty me then None else Some (unat (a_start me)))"

definition bipbuf_peek_all :: "bipbuf \<Rightarrow> (nat \<times> 32 word) option" where
  "bipbuf_peek_all me =
     (if bipbuf_is_empty me then None else Some (unat (a_start me), a_end me - a_start me))"

definition bipbuf_poll :: "32 word \<Rightarrow> bipbuf \<Rightarrow> nat option \<times> bipbuf" where
  "bipbuf_poll sz me =
     (if bipbuf_is_empty me then (None, me)
      else if size_of me < ucast (a_start me + sz) then (None, me)
      else
        let first = unat (a_start me);
            me = me\<lparr>a_start := a_start me + sz\<rparr>;
            me = (if a_start me = a_end me
                  then (if b_inuse me = 1
                        then me\<lparr>a_start := 0, a_end := b_end me, b_end := 0, b_inuse := 0\<rparr>
                        else me\<lparr>a_start := 0, a_end := 0\<rparr>)
                  else me)
        in (Some first, check_for_switch_to_b me))"

section \<open>The byte queue\<close>

text \<open>Region A followed by region B.\<close>

definition region :: "nat \<Rightarrow> nat \<Rightarrow> 'a list \<Rightarrow> 'a list" where
  "region i j xs = take (j - i) (drop i xs)"

definition content :: "bipbuf \<Rightarrow> 8 word list" where
  "content me = region (unat (a_start me)) (unat (a_end me)) (bytes me) @ take (unat (b_end me)) (bytes me)"

definition bip_ok :: "bipbuf \<Rightarrow> bool" where
  "bip_ok me \<longleftrightarrow>
     unat (size_of me) = length (bytes me) \<and> length (bytes me) < 2 ^ 31
     \<and> unat (a_start me) \<le> unat (a_end me) \<and> unat (a_end me) \<le> length (bytes me)
     \<and> unat (b_end me) \<le> unat (a_start me)
     \<and> (b_inuse me = 1 \<or> b_inuse me = 0 \<and> b_end me = 0)
     \<and> (a_start me = a_end me \<longrightarrow> a_start me = 0 \<and> b_inuse me = 0)"

definition spare :: "bipbuf \<Rightarrow> nat" where
  "spare me = (if b_inuse me = 1 then unat (a_start me) - unat (b_end me) else length (bytes me) - unat (a_end me))"

lemma to_int_small:
  assumes "unat w < 2 ^ 31"
  shows "to_int w = int (unat w)"
proof -
  have "int (unat w) < int (2 ^ 31)"
    using assms by (rule of_nat_less_iff [THEN iffD2])
  then have "uint w < 2 ^ 31" "0 \<le> uint w"
    by simp_all
  then have "signed_take_bit 31 (uint w) = uint w"
    by (intro signed_take_bit_int_eq_self) linarith+
  then show ?thesis
    by (simp only: to_int_def) simp
qed

lemma unat_diff_le: "unat b \<le> unat a \<Longrightarrow> unat (a - b) = unat a - unat (b :: 'a::len word)"
  by (simp add: unat_sub word_le_nat_alt)

lemma unat_ucast_64: "unat (ucast (w :: 32 word) :: 64 word) = unat w"
proof -
  have "unat w < 2 ^ 64"
    by (rule less_trans [OF unsigned_less]) simp
  then show ?thesis
    by (simp add: unsigned_ucast_eq take_bit_nat_eq_self)
qed

lemma unat_add_small:
  assumes "unat (w :: 32 word) + n < 2 ^ 32"
  shows "unat (w + word_of_nat n) = unat w + n"
proof -
  have "unat (word_of_nat n :: 32 word) = n"
    using assms by (simp add: unat_of_nat)
  then show ?thesis
    using assms by (simp add: unat_word_ariths(1))
qed

lemmas bip_word_simps = unat_diff_le unat_ucast_64 unat_add_small word_less_nat_alt

lemma unused_room:
  assumes "bip_ok me"
  shows "bipbuf_unused me = int (spare me)"
  using assms by (auto simp: bip_ok_def bipbuf_unused_def spare_def to_int_small bip_word_simps)

lemma used_content:
  assumes "bip_ok me"
  shows "bipbuf_used me = int (length (content me))"
proof -
  have "unat (b_end me) + (unat (a_end me) - unat (a_start me)) < 2 ^ 31"
    using assms by (auto simp: bip_ok_def)
  then have "unat ((a_end me - a_start me) + b_end me) = unat (a_end me) - unat (a_start me) + unat (b_end me)"
    using assms by (auto simp: bip_ok_def unat_diff_le unat_word_ariths(1))
  moreover have "length (content me) = unat (a_end me) - unat (a_start me) + unat (b_end me)"
    using assms by (auto simp: bip_ok_def content_def region_def)
  ultimately show ?thesis
    using \<open>unat (b_end me) + _ < _\<close> by (simp only: bipbuf_used_def to_int_small add.commute)
qed

text \<open>Turning region B on keeps the invariant and what is stored.\<close>

lemma switch_keeps [simp]:
  "content (check_for_switch_to_b me) = content me" "bytes (check_for_switch_to_b me) = bytes me"
  by (simp_all add: check_for_switch_to_b_def content_def)

lemma switch_ok:
  assumes "bip_ok me"
  shows "bip_ok (check_for_switch_to_b me)"
  using assms by (auto simp: bip_ok_def check_for_switch_to_b_def)

lemma region_snoc:
  assumes "i \<le> j" "j + n \<le> length xs"
  shows "region i (j + n) xs = region i j xs @ region j (j + n) xs"
proof -
  have "take (j + n - i) (drop i xs) = take (j - i + n) (drop i xs)"
    using assms by simp
  also have "\<dots> = take (j - i) (drop i xs) @ take n (drop (j - i) (drop i xs))"
    by (rule take_add)
  finally show ?thesis
    using assms by (simp add: region_def)
qed

lemma bip_push_run:
  assumes "bip_ok me" "n \<le> spare me"
  obtains me' i where "bipbuf_push (int n) me = Inr (int n, me')" "bip_ok me'" "bytes me' = bytes me"
    "bipbuf_request (int n) me = Some i" "i + n \<le> length (bytes me)"
    "content me' = content me @ region i (i + n) (bytes me)"
proof -
  define i where "i = (if b_inuse me = 1 then unat (b_end me) else unat (a_end me))"
  define me1 where "me1 = (if b_inuse me = 1 then me\<lparr>b_end := b_end me + word_of_int (int n)\<rparr>
                    else me\<lparr>a_end := a_end me + word_of_int (int n)\<rparr>)"
  have i: "i + n \<le> length (bytes me)" "i + n < 2 ^ 32"
    using assms by (auto simp: i_def spare_def bip_ok_def split: if_splits)
  have "bip_ok me1 \<and> content me1 = content me @ region i (i + n) (bytes me)"
  proof (cases "b_inuse me = 1")
    case True
    then show ?thesis
      using assms i by (simp add: me1_def i_def) (auto simp: bip_ok_def content_def spare_def region_def take_add bip_word_simps)
  next
    case False
    then have b: "b_inuse me = 0" "b_end me = 0"
      using assms by (auto simp: bip_ok_def)
    have e: "unat (a_end me + word_of_nat n) = unat (a_end me) + n"
      using i False by (intro unat_add_small) (simp add: i_def)
    have "a_start me = 0" if "a_start me = a_end me + word_of_nat n"
    proof -
      have "unat (a_start me) = unat (a_end me) + n"
        by (simp only: that e)
      then have "unat (a_start me) = unat (a_end me)"
        using assms by (simp add: bip_ok_def)
      then have "a_start me = a_end me"
        by (rule unsigned_word_eqI)
      then show ?thesis
        using assms by (simp add: bip_ok_def)
    qed
    then have "bip_ok me1"
      using assms i b by (simp add: me1_def i_def bip_ok_def e)
    moreover have "unat (a_start me) \<le> unat (a_end me)"
      using assms by (simp add: bip_ok_def)
    ultimately show ?thesis
      using i b by (simp add: me1_def i_def content_def e region_snoc [of "unat (a_start me)"])
  qed
  moreover have "bipbuf_push (int n) me = Inr (int n, check_for_switch_to_b me1)"
    using assms by (simp add: bipbuf_push_def me1_def unused_room)
  moreover have "bipbuf_request (int n) me = Some i"
    using assms by (simp add: bipbuf_request_def i_def unused_room)
  moreover have "bytes me1 = bytes me"
    by (simp add: me1_def)
  ultimately show ?thesis
    using that [of "check_for_switch_to_b me1" i] i switch_ok by simp
qed

text \<open>Offering is requesting the space, writing it in place and pushing.\<close>

lemma copy_in_run:
  assumes "i + length src \<le> length (bytes me)"
  shows "copy_in i src (int (length src)) me =
           Inr (me\<lparr>bytes := take i (bytes me) @ src @ drop (i + length src) (bytes me)\<rparr>)"
  using assms by (simp add: copy_in_def)

lemma unused_bytes [simp]: "bipbuf_unused (me\<lparr>bytes := bs\<rparr>) = bipbuf_unused me"
  by (simp add: bipbuf_unused_def)

lemma copy_in_cursors:
  assumes "copy_in i src sz me = Inr me1"
  obtains bs where "me1 = me\<lparr>bytes := bs\<rparr>"
  using assms by (auto simp: copy_in_def split: if_splits)

lemma offer_by_request:
  "bipbuf_offer src sz me =
     (case bipbuf_request sz me of None \<Rightarrow> Inr (0, me)
      | Some i \<Rightarrow> (case copy_in i src sz me of Inl e \<Rightarrow> Inl e | Inr me1 \<Rightarrow> bipbuf_push sz me1))"
  by (auto simp: bipbuf_offer_def bipbuf_request_def bipbuf_push_def split: sum.splits elim!: copy_in_cursors)

lemma region_after:
  assumes "i + length src \<le> a" "a \<le> length xs"
  shows "region a e (take i xs @ src @ drop (i + length src) xs) = region a e xs"
  using assms by (simp add: region_def)

lemma region_before:
  assumes "e \<le> i" "i \<le> length xs"
  shows "region a e (take i xs @ ys) = region a e xs"
  using assms by (simp add: region_def flip: drop_take)

lemma content_overwrite:
  assumes "bip_ok me" "length src \<le> spare me" "bipbuf_request (int (length src)) me = Some i"
  shows "content (me\<lparr>bytes := take i (bytes me) @ src @ drop (i + length src) (bytes me)\<rparr>) = content me"
    and "bip_ok (me\<lparr>bytes := take i (bytes me) @ src @ drop (i + length src) (bytes me)\<rparr>)"
proof -
  have i: "b_inuse me = 1 \<and> i = unat (b_end me) \<or> b_inuse me \<noteq> 1 \<and> i = unat (a_end me)"
    using assms(3) by (auto simp: bipbuf_request_def split: if_splits)
  have len: "i + length src \<le> length (bytes me)"
    using i assms by (auto simp: spare_def bip_ok_def)
  show "bip_ok (me\<lparr>bytes := take i (bytes me) @ src @ drop (i + length src) (bytes me)\<rparr>)"
    using assms(1) len by (simp add: bip_ok_def)
  show "content (me\<lparr>bytes := take i (bytes me) @ src @ drop (i + length src) (bytes me)\<rparr>) = content me"
    using i
  proof
    assume b: "b_inuse me = 1 \<and> i = unat (b_end me)"
    then have "i + length src \<le> unat (a_start me)" "unat (a_start me) \<le> length (bytes me)"
      using assms(1,2) by (auto simp: spare_def bip_ok_def)
    then show ?thesis
      using b by (simp add: content_def region_after)
  next
    assume a: "b_inuse me \<noteq> 1 \<and> i = unat (a_end me)"
    then have "b_end me = 0"
      using assms(1) by (simp add: bip_ok_def)
    then show ?thesis
      using a len by (simp add: content_def region_before)
  qed
qed

lemma bip_offer_run:
  assumes "bip_ok me"
  shows "length src \<le> spare me \<Longrightarrow> \<exists>me'. bipbuf_offer src (int (length src)) me = Inr (int (length src), me')
           \<and> bip_ok me' \<and> content me' = content me @ src \<and> length (bytes me') = length (bytes me)"
    and "\<not> length src \<le> spare me \<Longrightarrow> bipbuf_offer src (int (length src)) me = Inr (0, me)"
proof -
  assume fits: "length src \<le> spare me"
  define w where "w i = me\<lparr>bytes := take i (bytes me) @ src @ drop (i + length src) (bytes me)\<rparr>" for i
  obtain i where i: "bipbuf_request (int (length src)) me = Some i" "i + length src \<le> length (bytes me)"
    using bip_push_run [OF assms fits] by metis
  have w: "bip_ok (w i)" "content (w i) = content me" "length src \<le> spare (w i)"
    "bipbuf_request (int (length src)) (w i) = Some i"
    using content_overwrite [OF assms fits i(1)] fits i
    by (simp_all add: w_def spare_def bipbuf_request_def split: if_splits)
  obtain me' where me': "bipbuf_push (int (length src)) (w i) = Inr (int (length src), me')" "bip_ok me'"
    "bytes me' = bytes (w i)" "content me' = content (w i) @ region i (i + length src) (bytes (w i))"
    using bip_push_run [OF w(1,3)] w(4) by (metis option.inject)
  have "region i (i + length src) (bytes (w i)) = src"
    using i(2) by (simp add: w_def region_def)
  then show "\<exists>me'. bipbuf_offer src (int (length src)) me = Inr (int (length src), me')
           \<and> bip_ok me' \<and> content me' = content me @ src \<and> length (bytes me') = length (bytes me)"
    using i me' w(2) by (auto simp: offer_by_request copy_in_run w_def)
next
  assume "\<not> length src \<le> spare me"
  then show "bipbuf_offer src (int (length src)) me = Inr (0, me)"
    using assms by (simp add: bipbuf_offer_def unused_room)
qed

text \<open>Polling what lies in region A removes it from the front.\<close>

lemma bip_poll_run:
  assumes "bip_ok me" "unat n \<le> unat (a_end me) - unat (a_start me)" "a_start me \<noteq> a_end me"
  obtains me' where "bipbuf_poll n me = (Some (unat (a_start me)), me')" "bip_ok me'" "bytes me' = bytes me"
    "region (unat (a_start me)) (unat (a_start me) + unat n) (bytes me) = take (unat n) (content me)"
    "content me' = drop (unat n) (content me)"
proof -
  note ok = assms(1) [unfolded bip_ok_def]
  have s: "unat (a_start me + n) = unat (a_start me) + unat n"
  proof (intro unat_add_lem [THEN iffD1])
    show "unat (a_start me) + unat n < 2 ^ LENGTH(32)"
      using assms(2) ok by simp linarith
  qed
  define me1 where "me1 = me\<lparr>a_start := a_start me + n\<rparr>"
  define me2 where "me2 = (if a_start me1 = a_end me1
                  then (if b_inuse me1 = 1
                        then me1\<lparr>a_start := 0, a_end := b_end me1, b_end := 0, b_inuse := 0\<rparr>
                        else me1\<lparr>a_start := 0, a_end := 0\<rparr>)
                  else me1)"
  have "\<not> size_of me < ucast (a_start me + n)"
    using ok assms(2) by (simp add: word_less_nat_alt unat_ucast_64 s) linarith
  then have poll: "bipbuf_poll n me = (Some (unat (a_start me)), check_for_switch_to_b me2)"
    using assms(3) by (simp add: bipbuf_poll_def bipbuf_is_empty_def Let_def me2_def me1_def)
  have a: "region (unat (a_start me)) (unat (a_end me)) (bytes me) =
      region (unat (a_start me)) (unat (a_start me) + unat n) (bytes me)
      @ region (unat (a_start me) + unat n) (unat (a_end me)) (bytes me)"
  proof -
    have "unat (a_start me) + unat n + (unat (a_end me) - (unat (a_start me) + unat n)) = unat (a_end me)"
      using assms(2) ok by linarith
    then show ?thesis
      using region_snoc [of "unat (a_start me)" "unat (a_start me) + unat n"
        "unat (a_end me) - (unat (a_start me) + unat n)" "bytes me"] ok by simp
  qed
  have len: "length (region (unat (a_start me)) (unat (a_start me) + unat n) (bytes me)) = unat n"
    using assms(2) ok by (simp add: region_def) linarith
  have "bip_ok me2"
    using ok assms(2) s by (auto simp: me2_def me1_def bip_ok_def)
  moreover have "content me2 = drop (unat n) (content me)"
  proof (cases "a_start me + n = a_end me")
    case True
    then have "unat (a_end me) = unat (a_start me) + unat n"
      using s by simp
    then show ?thesis
      using True len ok by (auto simp: me2_def me1_def content_def region_def)
  next
    case False
    then show ?thesis
      using len s by (simp add: me2_def me1_def content_def a)
  qed
  moreover have "bytes me2 = bytes me"
    by (simp add: me2_def me1_def)
  moreover have "region (unat (a_start me)) (unat (a_start me) + unat n) (bytes me) = take (unat n) (content me)"
    using len by (simp add: content_def a)
  ultimately show ?thesis
    using that [of "check_for_switch_to_b me2"] poll switch_ok by simp
qed

lemma peek_all_run:
  assumes "bip_ok me" "a_start me \<noteq> a_end me"
  obtains n where "bipbuf_peek_all me = Some (unat (a_start me), n)"
    "unat n = unat (a_end me) - unat (a_start me)" "0 < unat n" "unat n \<le> length (content me)" "unat n < 2 ^ 31"
proof -
  have le: "unat (a_start me) \<le> unat (a_end me)" "unat (a_end me) \<le> length (bytes me)" "length (bytes me) < 2 ^ 31"
    using assms(1) by (simp_all add: bip_ok_def)
  moreover have "unat (a_start me) \<noteq> unat (a_end me)"
    using assms(2) unsigned_word_eqI by blast
  moreover have "unat (a_end me - a_start me) = unat (a_end me) - unat (a_start me)"
    using le(1) by (rule unat_diff_le)
  ultimately show ?thesis
    using assms(2) by (intro that [of "a_end me - a_start me"])
      (simp_all add: bipbuf_peek_all_def bipbuf_is_empty_def content_def region_def)
qed

lemma empty_content:
  assumes "bip_ok me"
  shows "a_start me = a_end me \<longleftrightarrow> content me = []"
proof
  assume "a_start me = a_end me"
  then show "content me = []"
    using assms by (auto simp: bip_ok_def content_def region_def)
next
  assume "content me = []"
  show "a_start me = a_end me"
  proof (rule ccontr)
    assume "a_start me \<noteq> a_end me"
    from peek_all_run [OF assms this] \<open>content me = []\<close> show False
      by simp
  qed
qed

lemma bip_new_run:
  assumes "bipbuf_new (Some bs) sz = Some me" "unat sz \<le> length bs" "unat sz < 2 ^ 31"
  shows "bip_ok me" "content me = []" "length (bytes me) = unat sz"
  using assms by (auto simp: bipbuf_new_def bipbuf_init_def bip_ok_def content_def region_def unat_ucast_64)

section \<open>The buffer as a queue\<close>

text \<open>How its clients use it: one side offers a chunk, the other looks at what is there, hands it to
  \<^verbatim>\<open>write\<close>, and polls as many bytes as were written.\<close>

definition bip_put :: "8 word list \<Rightarrow> (bipbuf, bool) exec" where
  "bip_put xs = bnd (bipbuf_offer xs (int (length xs))) (\<lambda>r. ret (r = int (length xs)))"

definition bip_take :: "nat \<Rightarrow> bipbuf \<Rightarrow> 8 word list \<times> bipbuf" where
  "bip_take k me =
     (case bipbuf_peek_all me of None \<Rightarrow> ([], me)
      | Some (p, n) \<Rightarrow> let t = min k (unat n)
                       in (region p (p + t) (bytes me), snd (bipbuf_poll (word_of_nat t) me)))"

lemma bip_put_run:
  assumes "bip_ok me"
  shows "\<exists>b me'. bip_put xs me = Inr (b, me') \<and> bip_ok me' \<and> content me' = content me @ (if b then xs else [])"
proof (cases "length xs \<le> spare me")
  case True
  then show ?thesis
    using bip_offer_run(1) [OF assms True] by (auto simp: bip_put_def bnd_def ret_def)
next
  case False
  then have "xs \<noteq> []"
    by auto
  then show ?thesis
    using bip_offer_run(2) [OF assms False] assms
    by (intro exI [of _ False] exI [of _ me]) (simp add: bip_put_def bnd_def ret_def)
qed

lemma bip_take_run:
  assumes "bip_ok me" "bip_take k me = (ys, me')"
  shows "bip_ok me' \<and> content me = ys @ content me' \<and> length (bytes me') = length (bytes me)"
proof (cases "a_start me = a_end me")
  case True
  then show ?thesis
    using assms by (simp add: bip_take_def bipbuf_peek_all_def bipbuf_is_empty_def)
next
  case False
  obtain n where n: "bipbuf_peek_all me = Some (unat (a_start me), n)"
    "unat n = unat (a_end me) - unat (a_start me)" "unat n < 2 ^ 31"
    using peek_all_run [OF assms(1) False] by metis
  define t where "t = (word_of_nat (min k (unat n)) :: 32 word)"
  have t: "unat t = min k (unat n)"
    using n(3) by (simp add: t_def unat_of_nat)
  obtain me1 where me1: "bipbuf_poll t me = (Some (unat (a_start me)), me1)" "bip_ok me1" "bytes me1 = bytes me"
    "region (unat (a_start me)) (unat (a_start me) + unat t) (bytes me) = take (unat t) (content me)"
    "content me1 = drop (unat t) (content me)"
    using bip_poll_run [OF assms(1) _ False, of t] n(2) t by (metis min.cobounded2)
  have "bip_take k me = (take (unat t) (content me), me1)"
    by (simp add: bip_take_def n(1) Let_def me1(1) me1(4) flip: t t_def)
  then show ?thesis
    using assms(2) me1 by simp
qed

interpretation bip: byte_queue bip_ok content bip_put bip_take
proof
  show "\<exists>b s'. bip_put xs s = Inr (b, s')" if "bip_ok s" for s xs
    using bip_put_run [OF that] by blast
  show "bip_ok s' \<and> content s' = content s @ (if b then xs else [])" if "bip_ok s" "bip_put xs s = Inr (b, s')" for s xs b s'
    using bip_put_run [OF that(1), of xs] that(2) by auto
  show "bip_ok s' \<and> content s = ys @ content s'" if "bip_ok s" "bip_take k s = (ys, s')" for s k ys s'
    using bip_take_run [OF that] by blast
qed

section \<open>Properties\<close>

text \<open>
  C26: the producer and the consumer of a fresh buffer may alternate in any order and with chunks of any
  size: no call faults, a chunk is accepted whole or refused, the bytes delivered followed by the
  bytes still in the two regions are exactly the accepted bytes in their order, and
  \<^verbatim>\<open>bipbuf_used\<close> counts the ones not delivered yet.
\<close>

theorem bip_fifo:
  assumes "bipbuf_new (Some bs) sz = Some me" "unat sz \<le> length bs" "unat sz < 2 ^ 31"
  shows "\<exists>accepted sent me'. run_ops bip_put bip_take qs me = Inr ((accepted, sent), me')
           \<and> accepted = sent @ content me' \<and> bipbuf_used me' = int (length accepted) - int (length sent)"
proof -
  obtain acc out me' where r: "run_ops bip_put bip_take qs me = Inr ((acc, out), me')" "bip_ok me'"
      "content me @ acc = out @ content me'"
    using bip.schedule_fifo [OF bip_new_run(1) [OF assms]] by blast
  have "acc = out @ content me'"
    using r(3) bip_new_run(2) [OF assms] by simp
  then show ?thesis
    using r used_content [OF r(2)] by auto
qed

lemma bip_fifo_witness:
  "\<exists>accepted sent me'. run_ops bip_put bip_take
       [Put [1, 2, 3], Put [4, 5, 6], Take 2, Put [7], Take 9, Put [8, 9], Take 1]
       (the (bipbuf_new (Some [0, 0, 0, 0]) 4)) = Inr ((accepted, sent), me')
     \<and> accepted = sent @ content me' \<and> bipbuf_used me' = int (length accepted) - int (length sent)"
  by (rule bip_fifo [where bs = "[0, 0, 0, 0]" and sz = 4]) (simp_all add: bipbuf_new_def)

text \<open>
  \<^verbatim>\<open>bipbuf_offer\<close> of a chunk that fits in \<^verbatim>\<open>bipbuf_unused\<close> appends
  it, returns its size and keeps the invariant; otherwise it returns 0 and changes nothing. In both
  cases it does what requesting the space, writing it in place and pushing do.
\<close>

theorem bip_offer_ok:
  assumes "bip_ok me"
  shows "(if int (length src) \<le> bipbuf_unused me
          then \<exists>me'. bipbuf_offer src (int (length src)) me = Inr (int (length src), me')
                     \<and> bip_ok me' \<and> content me' = content me @ src \<and> bipbuf_size me' = bipbuf_size me
          else bipbuf_offer src (int (length src)) me = Inr (0, me))
       \<and> bipbuf_offer src (int (length src)) me =
           (case bipbuf_request (int (length src)) me of None \<Rightarrow> Inr (0, me)
            | Some i \<Rightarrow> (case copy_in i src (int (length src)) me of
                           Inl e \<Rightarrow> Inl e | Inr me1 \<Rightarrow> bipbuf_push (int (length src)) me1))"
proof -
  have size: "bipbuf_size me' = bipbuf_size me" if "bip_ok me'" "length (bytes me') = length (bytes me)" for me'
    using that assms by (simp add: bip_ok_def bipbuf_size_def to_int_small)
  show ?thesis
  proof (cases "length src \<le> spare me")
    case True
    then show ?thesis
      using bip_offer_run(1) [OF assms True] size unused_room [OF assms] offer_by_request [of src _ me] by auto
  next
    case False
    then show ?thesis
      using bip_offer_run(2) [OF assms False] unused_room [OF assms] offer_by_request [of src _ me] by auto
  qed
qed

lemma bip_offer_ok_witness:
  "\<exists>me'. bipbuf_offer [7, 8] 2 (the (bipbuf_new (Some [0, 0, 0]) 3)) = Inr (2, me')
     \<and> bip_ok me' \<and> content me' = [7, 8]"
proof -
  have new: "bipbuf_new (Some [0, 0, 0]) 3 = Some (the (bipbuf_new (Some [0, 0, 0]) 3))"
    by (simp add: bipbuf_new_def)
  have "int (length [7, 8]) \<le> bipbuf_unused (the (bipbuf_new (Some [0, 0, 0]) 3))"
    by (simp add: bipbuf_new_def bipbuf_init_def bipbuf_unused_def to_int_small)
  then show ?thesis
    using bip_offer_ok [OF bip_new_run(1) [OF new], of "[7, 8]", THEN conjunct1] bip_new_run(2) [OF new] by auto
qed

lemma to_int_diff:
  assumes "int (unat a) - int (unat b) < 2 ^ 31" "- (2 ^ 31) \<le> int (unat a) - int (unat b)"
  shows "to_int (a - b :: 32 word) = int (unat a) - int (unat b)"
proof -
  have "uint (a - b) = take_bit 32 (uint a - uint b)"
    by (simp add: uint_word_ariths(2) take_bit_eq_mod)
  then have "to_int (a - b) = signed_take_bit 31 (uint a - uint b)"
    by (simp add: to_int_def signed_take_bit_take_bit)
  also have "\<dots> = uint a - uint b"
    using assms by (intro signed_take_bit_int_eq_self) simp_all
  finally show ?thesis
    by simp
qed

text \<open>
  Polling more bytes than region A holds, as long as the request stays inside the buffer, returns a
  pointer instead of \<^verbatim>\<open>NULL\<close> and leaves the read cursor past the write cursor:
  \<^verbatim>\<open>bipbuf_used\<close> is negative afterwards, and the buffer is reported as not empty.
\<close>

theorem bip_overpoll:
  assumes "bip_ok me" "a_start me \<noteq> a_end me" "b_end me = 0"
      and "unat (a_end me) - unat (a_start me) < unat n" "unat (a_start me) + unat n \<le> length (bytes me)"
  shows "fst (bipbuf_poll n me) = Some (unat (a_start me)) \<and> bipbuf_used (snd (bipbuf_poll n me)) < 0
           \<and> \<not> bipbuf_is_empty (snd (bipbuf_poll n me))"
proof -
  note ok = assms(1) [unfolded bip_ok_def]
  have s: "unat (a_start me + n) = unat (a_start me) + unat n"
  proof (intro unat_add_lem [THEN iffD1])
    show "unat (a_start me) + unat n < 2 ^ LENGTH(32)"
      using assms(5) ok by simp
  qed
  have past: "unat (a_end me) < unat (a_start me + n)"
    using assms(4) ok unfolding s by linarith
  then have ne: "a_start me + n \<noteq> a_end me"
    by auto
  have "\<not> size_of me < ucast (a_start me + n)"
    using ok assms(5) by (simp add: word_less_nat_alt unat_ucast_64 s)
  then have poll: "bipbuf_poll n me =
      (Some (unat (a_start me)), check_for_switch_to_b (me\<lparr>a_start := a_start me + n\<rparr>))"
    using assms(2) ne by (simp add: bipbuf_poll_def bipbuf_is_empty_def Let_def)
  have "to_int (a_end me - (a_start me + n)) = int (unat (a_end me)) - int (unat (a_start me + n))"
  proof (rule to_int_diff)
    show "int (unat (a_end me)) - int (unat (a_start me + n)) < 2 ^ 31"
      by (rule less_trans [of _ 0]) (use past in linarith, simp)
    have "int (unat (a_start me + n)) < int (2 ^ 31)"
      using assms(5) ok unfolding s by linarith
    then show "- (2 ^ 31) \<le> int (unat (a_end me)) - int (unat (a_start me + n))"
      using of_nat_0_le_iff [of "unat (a_end me)"] by (simp del: of_nat_unat)
  qed
  then have "to_int (a_end me - (a_start me + n)) < 0"
    using past by linarith
  then show ?thesis
    using ne assms(3)
    by (simp add: poll bipbuf_used_def bipbuf_is_empty_def check_for_switch_to_b_def)
qed

lemma bip_overpoll_witness:
  "fst (bipbuf_poll 3 (\<lparr>size_of = 4, a_start = 0, a_end = 2, b_end = 0, b_inuse = 0, bytes = [1, 2, 0, 0]\<rparr>)) = Some 0"
  using bip_overpoll [of "\<lparr>size_of = 4, a_start = 0, a_end = 2, b_end = 0, b_inuse = 0, bytes = [1, 2, 0, 0]\<rparr>" 3]
  by (simp add: bip_ok_def)

end
