(* ===== verification/Crawler.thy ===== *)
theory Crawler
  imports BipBuffer "HOL-Library.Sublist"
begin

text \<open>
  The output side of the memcached LRU crawler, \<^verbatim>\<open>src/experiments/memcached/src/crawler.c\<close>:
  the client a \<^verbatim>\<open>metadump\<close> writes to, its output buffer, and the loops that wait for the
  socket. The operating system is a list of answers, one for each call of
  \<^verbatim>\<open>lru_crawler_poll\<close>; a loop that outlives the list is still waiting, which is the
  fault \<open>Diverges\<close>.
\<close>

section \<open>The client and the socket\<close>

datatype write_result = WriteFailed bool | Wrote nat

text \<open>\<open>poll_ret\<close> and the three event flags are what \<^verbatim>\<open>poll\<close> reports,
  \<open>read_gone\<close> says that reading one byte reports a closed connection, \<open>WriteFailed again\<close>
  is \<^verbatim>\<open>write\<close> returning -1, with \<^verbatim>\<open>EAGAIN\<close> when \<open>again\<close> holds, and
  \<open>Wrote n\<close> accepts at most \<open>n\<close> bytes.\<close>

record answer =
  poll_ret :: int
  pollin :: bool
  hangup :: bool
  pollout :: bool
  read_gone :: bool
  write_res :: write_result

datatype fate = Active | Closed | Released

record client =
  c :: nat
  sfd :: int
  buf :: "bipbuf option"
  cbuf :: "nat option"
  sent :: "8 word list"
  fate :: fate
  answers :: "answer list"

definition LRU_CRAWLER_WRITEBUF :: int where
  "LRU_CRAWLER_WRITEBUF = 8192"

definition lru_crawler_close_client :: "client \<Rightarrow> client" where
  "lru_crawler_close_client cl = cl\<lparr>c := NULL, cbuf := None, buf := None, fate := Closed\<rparr>"

definition lru_crawler_release_client :: "client \<Rightarrow> client" where
  "lru_crawler_release_client cl = cl\<lparr>c := NULL, cbuf := None, buf := None, fate := Released\<rparr>"

definition lru_crawler_set_client :: "8 word list option \<Rightarrow> nat \<Rightarrow> int \<Rightarrow> client \<Rightarrow> int \<times> client" where
  "lru_crawler_set_client block conn fd cl =
     (if c cl \<noteq> NULL then (- 1, cl)
      else let cl = cl\<lparr>c := conn, sfd := fd, buf := bipbuf_new block (1024 * 128)\<rparr>
           in (if buf cl = None then - 2 else 0, cl))"

definition lru_crawler_poll :: "answer \<Rightarrow> (client, int) exec" where
  "lru_crawler_poll a = (\<lambda>cl.
     if poll_ret a < 0 then Inr (- 1, cl)
     else if poll_ret a = 0 then Inr (0, cl)
     else if pollin a \<and> read_gone a then Inr (- 1, lru_crawler_close_client cl)
     else case buf cl of None \<Rightarrow> Inl NullDeref
     | Some b \<Rightarrow>
       (case bipbuf_peek_all b of None \<Rightarrow> Inr (0, cl)
        | Some (p, data_size) \<Rightarrow>
          if hangup a then Inr (- 1, lru_crawler_close_client cl)
          else if pollout a
          then (case write_res a of
                  WriteFailed again \<Rightarrow> if \<not> again then Inr (- 1, lru_crawler_close_client cl) else Inr (0, cl)
                | Wrote n \<Rightarrow>
                  let total = min n (unat data_size)
                  in if total = 0 then Inr (- 1, lru_crawler_close_client cl)
                     else Inr (0, cl\<lparr>sent := sent cl @ region p (p + total) (bytes b),
                                     buf := Some (snd (bipbuf_poll (word_of_nat total) b))\<rparr>))
          else Inr (0, cl)))"

text \<open>The waiting loop of \<^verbatim>\<open>lru_crawler_client_getbuf\<close>.\<close>

fun getbuf_loop :: "answer list \<Rightarrow> (client, int) exec" where
  "getbuf_loop as cl =
     (case buf cl of None \<Rightarrow> Inl NullDeref
      | Some b \<Rightarrow>
        (case bipbuf_request LRU_CRAWLER_WRITEBUF b of
           Some p \<Rightarrow> Inr (0, cl\<lparr>cbuf := Some p, answers := as\<rparr>)
         | None \<Rightarrow>
           (case as of [] \<Rightarrow> Inl Diverges
            | a # as' \<Rightarrow>
              (case lru_crawler_poll a cl of Inl e \<Rightarrow> Inl e
               | Inr (r, cl') \<Rightarrow> if r < 0 then Inr (r, cl'\<lparr>answers := as'\<rparr>) else getbuf_loop as' cl'))))"

definition lru_crawler_client_getbuf :: "(client, int) exec" where
  "lru_crawler_client_getbuf = (\<lambda>cl. if c cl = NULL then Inr (- 1, cl) else getbuf_loop (answers cl) cl)"

text \<open>Writing through the \<^verbatim>\<open>cbuf\<close> pointer, and pushing what was written.\<close>

definition write_cbuf :: "8 word list \<Rightarrow> (client, unit) exec" where
  "write_cbuf xs = (\<lambda>cl. case (cbuf cl, buf cl) of
       (Some p, Some b) \<Rightarrow>
          (case copy_in p xs (int (length xs)) b of Inl e \<Rightarrow> Inl e | Inr b' \<Rightarrow> Inr ((), cl\<lparr>buf := Some b'\<rparr>))
     | _ \<Rightarrow> Inl NullDeref)"

definition push_buf :: "int \<Rightarrow> (client, int) exec" where
  "push_buf n = (\<lambda>cl. case buf cl of None \<Rightarrow> Inl NullDeref
     | Some b \<Rightarrow> (case bipbuf_push n b of Inl e \<Rightarrow> Inl e | Inr (r, b') \<Rightarrow> Inr (r, cl\<lparr>buf := Some b'\<rparr>)))"

text \<open>An item as \<^verbatim>\<open>crawler_metadump_eval\<close> sees it: \<open>line\<close> is the text that
  \<^verbatim>\<open>snprintf\<close> formats for it; at most 4095 of its bytes and a terminating 0 are stored.\<close>

record dump_item =
  exptime :: nat
  is_flushed :: bool
  line :: "8 word list"

definition skipped :: "nat \<Rightarrow> dump_item \<Rightarrow> bool" where
  "skipped current_time it \<longleftrightarrow> exptime it \<noteq> 0 \<and> exptime it < current_time \<or> is_flushed it"

definition crawler_metadump_eval :: "nat \<Rightarrow> dump_item \<Rightarrow> (client, unit) exec" where
  "crawler_metadump_eval current_time it =
     (if skipped current_time it then ret ()
      else seq (write_cbuf (take 4095 (line it) @ [0]))
        (let total = int (length (line it))
         in if total \<ge> LRU_CRAWLER_WRITEBUF - 1 \<or> total \<le> 0 then ret ()
            else seq (push_buf total) (ret ())))"

definition END_line :: "8 word list" where
  "END_line = [69, 78, 68, 13, 10]"

definition crawler_metadump_finalize :: "(client, unit) exec" where
  "crawler_metadump_finalize =
     bnd (gets c) (\<lambda>conn. if conn \<noteq> NULL
       then seq lru_crawler_client_getbuf (seq (write_cbuf END_line) (seq (push_buf 5) (ret ())))
       else ret ())"

text \<open>The visit of one LRU by the crawler thread: space is requested before every item, and when there
  is none because the client is gone the rest of the LRU is left out.\<close>

primrec crawl_lru :: "nat \<Rightarrow> dump_item list \<Rightarrow> (client, unit) exec" where
  "crawl_lru current_time [] = ret ()"
| "crawl_lru current_time (it # its) =
     bnd (gets c) (\<lambda>conn. if conn \<noteq> NULL
       then bnd lru_crawler_client_getbuf (\<lambda>r. if r \<noteq> 0 then ret ()
              else seq (crawler_metadump_eval current_time it) (crawl_lru current_time its))
       else ret ())"

fun flush_loop :: "answer list \<Rightarrow> (client, unit) exec" where
  "flush_loop as cl =
     (if c cl = NULL then Inr ((), cl\<lparr>answers := as\<rparr>)
      else case buf cl of None \<Rightarrow> Inl NullDeref
      | Some b \<Rightarrow>
        if bipbuf_used b = 0 then Inr ((), cl\<lparr>answers := as\<rparr>)
        else (case as of [] \<Rightarrow> Inl Diverges
              | a # as' \<Rightarrow> (case lru_crawler_poll a cl of Inl e \<Rightarrow> Inl e | Inr (r, cl') \<Rightarrow> flush_loop as' cl')))"

definition crawler_finish :: "(client, unit) exec" where
  "crawler_finish = seq crawler_metadump_finalize
     (\<lambda>cl. bnd (flush_loop (answers cl))
        (\<lambda>_ cl. if c cl \<noteq> NULL then Inr ((), lru_crawler_release_client cl) else Inr ((), cl)) cl)"

definition metadump :: "nat \<Rightarrow> dump_item list \<Rightarrow> (client, unit) exec" where
  "metadump current_time its = seq (crawl_lru current_time its) crawler_finish"

section \<open>The stream towards the client\<close>

text \<open>What was written to the socket followed by what the buffer holds is the output produced so far;
  once the client is gone, what was written is a prefix of it.\<close>

definition attached :: "8 word list \<Rightarrow> client \<Rightarrow> bool" where
  "attached ws cl \<longleftrightarrow> c cl \<noteq> NULL \<and> fate cl = Active
     \<and> (\<exists>b. buf cl = Some b \<and> bip_ok b \<and> length (bytes b) = 131072 \<and> sent cl @ content b = ws)"

definition gone :: "8 word list \<Rightarrow> client \<Rightarrow> bool" where
  "gone ws cl \<longleftrightarrow> c cl = NULL \<and> fate cl = Closed \<and> buf cl = None \<and> cbuf cl = None \<and> prefix (sent cl) ws"

lemma gone_append: "gone ws cl \<Longrightarrow> gone (ws @ xs) cl"
  by (simp add: gone_def)

lemma attached_close: "attached ws cl \<Longrightarrow> gone ws (lru_crawler_close_client cl)"
  by (auto simp: attached_def gone_def lru_crawler_close_client_def)

lemma attached_answers [simp]:
  "attached ws (cl\<lparr>answers := as\<rparr>) = attached ws cl" "gone ws (cl\<lparr>answers := as\<rparr>) = gone ws cl"
  "attached ws (cl\<lparr>cbuf := p\<rparr>) = attached ws cl"
  by (simp_all add: attached_def gone_def)

definition accepting :: "answer \<Rightarrow> bool" where
  "accepting a \<longleftrightarrow> 0 < poll_ret a \<and> \<not> (pollin a \<and> read_gone a) \<and> \<not> hangup a \<and> pollout a
     \<and> (case write_res a of WriteFailed again \<Rightarrow> False | Wrote n \<Rightarrow> 0 < n)"

lemma poll_sends:
  assumes "attached ws cl" "buf cl = Some b" "bipbuf_peek_all b = Some (p, n)" "k \<noteq> 0"
  shows "attached ws (cl\<lparr>sent := sent cl @ region p (p + min k (unat n)) (bytes b),
           buf := Some (snd (bipbuf_poll (word_of_nat (min k (unat n))) b))\<rparr>)"
proof -
  have b: "bip_ok b" "length (bytes b) = 131072" "sent cl @ content b = ws" "c cl \<noteq> NULL" "fate cl = Active"
    using assms(1,2) by (auto simp: attached_def)
  have "bip_take k b = (region p (p + min k (unat n)) (bytes b), snd (bipbuf_poll (word_of_nat (min k (unat n))) b))"
    using assms(3) by (simp add: bip_take_def Let_def)
  from bip_take_run [OF b(1) this] show ?thesis
    using b by (simp add: attached_def)
qed

lemma poll_step:
  assumes "attached ws cl"
  obtains r cl' where "lru_crawler_poll a cl = Inr (r, cl')" "r = 0 \<and> attached ws cl' \<or> r = - 1 \<and> gone ws cl'
      \<or> r = - 1 \<and> poll_ret a < 0 \<and> attached ws cl'"
proof -
  obtain b where b: "buf cl = Some b"
    using assms by (auto simp: attached_def)
  have "case lru_crawler_poll a cl of Inl e \<Rightarrow> False
    | Inr (r, cl') \<Rightarrow> r = 0 \<and> attached ws cl' \<or> r = - 1 \<and> gone ws cl' \<or> r = - 1 \<and> poll_ret a < 0 \<and> attached ws cl'"
    using assms attached_close [OF assms] poll_sends [OF assms b]
    by (auto simp: lru_crawler_poll_def Let_def b split: option.split write_result.split)
  then show ?thesis
    using that by (auto split: sum.splits)
qed

text \<open>A socket that accepts bytes makes progress.\<close>

lemma poll_accepting:
  assumes "attached ws cl" "accepting a" "buf cl = Some b" "content b \<noteq> []"
  obtains cl' where "lru_crawler_poll a cl = Inr (0, cl')" "attached ws cl'" "length (sent cl) < length (sent cl')"
proof -
  have b: "bip_ok b"
    using assms(1,3) by (auto simp: attached_def)
  obtain n where n: "bipbuf_peek_all b = Some (unat (a_start b), n)" "0 < unat n"
      "unat n = unat (a_end b) - unat (a_start b)"
    using peek_all_run [OF b] assms(4) empty_content [OF b] by metis
  obtain k where k: "write_res a = Wrote k" "k \<noteq> 0"
    using assms(2) by (auto simp: accepting_def split: write_result.splits)
  define cl' where "cl' = cl\<lparr>sent := sent cl @ region (unat (a_start b)) (unat (a_start b) + min k (unat n)) (bytes b),
    buf := Some (snd (bipbuf_poll (word_of_nat (min k (unat n))) b))\<rparr>"
  have "unat (a_end b) \<le> length (bytes b)"
    using b by (simp add: bip_ok_def)
  then have "region (unat (a_start b)) (unat (a_start b) + min k (unat n)) (bytes b) \<noteq> []"
    using n k by (auto simp: region_def)
  then have "length (sent cl) < length (sent cl')"
    by (simp add: cl'_def)
  moreover have "lru_crawler_poll a cl = Inr (0, cl')"
    using assms(2,3) n k by (simp add: lru_crawler_poll_def accepting_def cl'_def Let_def)
  moreover have "attached ws cl'"
    unfolding cl'_def by (rule poll_sends [OF assms(1,3) n(1) k(2)])
  ultimately show ?thesis
    using that by blast
qed

text \<open>Waiting for space: the loop ends with enough contiguous bytes, with the client gone, or when
  \<^verbatim>\<open>poll\<close> fails.\<close>

definition ready :: "client \<Rightarrow> bool" where
  "ready cl \<longleftrightarrow> (\<exists>b p. buf cl = Some b \<and> cbuf cl = Some p \<and> bipbuf_request LRU_CRAWLER_WRITEBUF b = Some p)"

declare getbuf_loop.simps [simp del] flush_loop.simps [simp del]

lemma getbuf_run:
  assumes "attached ws cl" "\<And>a. a \<in> set as \<Longrightarrow> 0 \<le> poll_ret a"
  shows "getbuf_loop as cl = Inl Diverges \<or> (\<exists>r cl'. getbuf_loop as cl = Inr (r, cl') \<and> set (answers cl') \<subseteq> set as
           \<and> (r = 0 \<and> attached ws cl' \<and> ready cl' \<or> r = - 1 \<and> gone ws cl'))"
  using assms
proof (induction as arbitrary: cl)
  case Nil
  then obtain b where b: "buf cl = Some b"
    by (auto simp: attached_def)
  then show ?case
    using Nil by (auto simp: getbuf_loop.simps ready_def split: option.split)
next
  case (Cons a as)
  then obtain b where b: "buf cl = Some b"
    by (auto simp: attached_def)
  show ?case
  proof (cases "bipbuf_request LRU_CRAWLER_WRITEBUF b")
    case None
    obtain r cl' where r: "lru_crawler_poll a cl = Inr (r, cl')" "r = 0 \<and> attached ws cl' \<or> r = - 1 \<and> gone ws cl'"
      using poll_step [OF Cons.prems(1), of a] Cons.prems(2) [of a] by (metis list.set_intros(1) not_less)
    from r(2) show ?thesis
    proof
      assume "r = 0 \<and> attached ws cl'"
      then show ?thesis
        using Cons.IH [of cl'] Cons.prems(2) b None r(1) by (auto simp: getbuf_loop.simps [of "a # as"])
    next
      assume "r = - 1 \<and> gone ws cl'"
      then show ?thesis
        using b None r(1) by (auto simp: getbuf_loop.simps [of "a # as"])
    qed
  next
    case (Some p)
    then show ?thesis
      using b Cons.prems(1) by (auto simp: getbuf_loop.simps [of "a # as"] ready_def)
  qed
qed

lemma getbuf_accepting:
  assumes "attached ws cl" "\<And>a. a \<in> set as \<Longrightarrow> accepting a" "length ws \<le> length as + length (sent cl)"
  shows "\<exists>cl'. getbuf_loop as cl = Inr (0, cl') \<and> attached ws cl' \<and> ready cl' \<and> set (answers cl') \<subseteq> set as
           \<and> length as + length (sent cl) \<le> length (answers cl') + length (sent cl')"
  using assms
proof (induction as arbitrary: cl)
  case Nil
  then obtain b where b: "buf cl = Some b" "bip_ok b" "length (bytes b) = 131072" "content b = []"
    by (auto simp: attached_def)
  then have "a_start b = a_end b"
    by (simp add: empty_content)
  then have "spare b = 131072"
    using b by (auto simp: bip_ok_def spare_def)
  then have "bipbuf_request LRU_CRAWLER_WRITEBUF b \<noteq> None"
    by (simp add: bipbuf_request_def unused_room [OF b(2)] LRU_CRAWLER_WRITEBUF_def)
  then show ?case
    using Nil b by (auto simp: getbuf_loop.simps ready_def)
next
  case (Cons a as)
  then obtain b where b: "buf cl = Some b" "bip_ok b" "length (bytes b) = 131072"
    by (auto simp: attached_def)
  show ?case
  proof (cases "bipbuf_request LRU_CRAWLER_WRITEBUF b")
    case None
    have "content b \<noteq> []"
    proof
      assume "content b = []"
      then have "spare b = 131072"
        using b empty_content [OF b(2)] by (auto simp: bip_ok_def spare_def)
      then show False
        using None by (simp add: bipbuf_request_def unused_room [OF b(2)] LRU_CRAWLER_WRITEBUF_def split: if_splits)
    qed
    then obtain cl' where cl': "lru_crawler_poll a cl = Inr (0, cl')" "attached ws cl'" "length (sent cl) < length (sent cl')"
      using poll_accepting [OF Cons.prems(1) _ b(1)] Cons.prems(2) [of a] by auto
    then obtain cl2 where cl2: "getbuf_loop as cl' = Inr (0, cl2)" "attached ws cl2" "ready cl2" "set (answers cl2) \<subseteq> set as"
        "length as + length (sent cl') \<le> length (answers cl2) + length (sent cl2)"
      using Cons.IH [OF cl'(2)] Cons.prems(2,3) by auto
    then show ?thesis
      using b None cl' by (auto simp: getbuf_loop.simps [of "a # as"])
  next
    case (Some p)
    then show ?thesis
      using b Cons.prems(1) by (auto simp: getbuf_loop.simps [of "a # as"] ready_def)
  qed
qed

text \<open>Writing at most \<^verbatim>\<open>LRU_CRAWLER_WRITEBUF\<close> bytes at the pointer and pushing a part of
  them.\<close>

lemma append_in_place:
  assumes "bip_ok b" "bipbuf_request LRU_CRAWLER_WRITEBUF b = Some p" "length src \<le> 8192" "n \<le> length src"
  obtains b1 b2 where "copy_in p src (int (length src)) b = Inr b1" "bipbuf_push (int n) b1 = Inr (int n, b2)"
    "bip_ok b1" "content b1 = content b" "length (bytes b1) = length (bytes b)"
    "bip_ok b2" "length (bytes b2) = length (bytes b)" "content b2 = content b @ take n src"
proof -
  have room: "8192 \<le> spare b"
    using assms(2) by (auto simp: bipbuf_request_def unused_room [OF assms(1)] LRU_CRAWLER_WRITEBUF_def split: if_splits)
  have req: "bipbuf_request (int m) b = Some p" if "m \<le> 8192" for m
    using assms(2) room that by (auto simp: bipbuf_request_def unused_room [OF assms(1)] split: if_splits)
  define b1 where "b1 = b\<lparr>bytes := take p (bytes b) @ src @ drop (p + length src) (bytes b)\<rparr>"
  have len: "p + length src \<le> length (bytes b)"
    using bip_push_run [OF assms(1), of "length src"] room req [of "length src"] assms(3)
    by (metis order_trans option.inject)
  have b1: "bip_ok b1" "content b1 = content b"
    using content_overwrite [OF assms(1) _ req [OF assms(3)]] assms(3) room by (simp_all add: b1_def)
  have "n \<le> spare b1" "bipbuf_request (int n) b1 = Some p"
    using room req [of n] assms(3,4) len by (simp_all add: b1_def spare_def bipbuf_request_def split: if_splits)
  then obtain b2 where b2: "bipbuf_push (int n) b1 = Inr (int n, b2)" "bip_ok b2" "bytes b2 = bytes b1"
      "content b2 = content b1 @ region p (p + n) (bytes b1)"
    using bip_push_run [OF b1(1)] by (metis option.inject)
  have "region p (p + n) (bytes b1) = take n src"
    using len assms(4) by (simp add: b1_def region_def)
  then show ?thesis
    using b1 b2 len copy_in_run [OF len] by (intro that [of b1 b2]) (simp_all add: b1_def)
qed

lemma write_push:
  assumes "attached ws cl" "ready cl" "length src \<le> 8192" "n \<le> length src"
  shows "\<exists>cl' cl2. write_cbuf src cl = Inr ((), cl') \<and> attached ws cl' \<and> answers cl' = answers cl \<and> sent cl' = sent cl
           \<and> push_buf (int n) cl' = Inr (int n, cl2) \<and> attached (ws @ take n src) cl2
           \<and> answers cl2 = answers cl \<and> sent cl2 = sent cl"
proof -
  obtain b p where b: "buf cl = Some b" "cbuf cl = Some p" "bipbuf_request LRU_CRAWLER_WRITEBUF b = Some p"
      "bip_ok b" "length (bytes b) = 131072" "sent cl @ content b = ws" "c cl \<noteq> NULL" "fate cl = Active"
    using assms(1,2) by (auto simp: attached_def ready_def)
  obtain b1 b2 where bs: "copy_in p src (int (length src)) b = Inr b1" "bipbuf_push (int n) b1 = Inr (int n, b2)"
    "bip_ok b1" "content b1 = content b" "length (bytes b1) = length (bytes b)"
    "bip_ok b2" "length (bytes b2) = length (bytes b)" "content b2 = content b @ take n src"
    by (rule append_in_place [OF b(4,3) assms(3,4)])
  have "write_cbuf src cl = Inr ((), cl\<lparr>buf := Some b1\<rparr>)"
    "push_buf (int n) (cl\<lparr>buf := Some b1\<rparr>) = Inr (int n, cl\<lparr>buf := Some b2\<rparr>)"
    using b(1,2) bs by (simp_all add: write_cbuf_def push_buf_def)
  moreover have "attached ws (cl\<lparr>buf := Some b1\<rparr>)" "attached (ws @ take n src) (cl\<lparr>buf := Some b2\<rparr>)"
    using b bs by (auto simp: attached_def)
  ultimately show ?thesis
    by auto
qed

definition line_fits :: "nat \<Rightarrow> dump_item \<Rightarrow> bool" where
  "line_fits now it \<longleftrightarrow> skipped now it \<or> line it \<noteq> [] \<and> length (line it) \<le> 4095"

text \<open>The text of a dump.\<close>

definition dump_text :: "nat \<Rightarrow> dump_item list \<Rightarrow> 8 word list" where
  "dump_text now its = concat (map line (filter (\<lambda>it. \<not> skipped now it) its))"

lemma eval_run:
  assumes "attached ws cl" "ready cl" "line_fits now it"
  shows "\<exists>cl'. crawler_metadump_eval now it cl = Inr ((), cl') \<and> attached (ws @ dump_text now [it]) cl'
           \<and> answers cl' = answers cl \<and> sent cl' = sent cl"
proof (cases "skipped now it")
  case True
  then show ?thesis
    using assms(1) by (simp add: crawler_metadump_eval_def ret_def dump_text_def)
next
  case False
  then have len: "line it \<noteq> []" "length (line it) \<le> 4095"
    using assms(3) by (auto simp: line_fits_def)
  have "take (length (line it)) (take 4095 (line it) @ [0]) = line it"
    using len by simp
  then show ?thesis
    using False len write_push [OF assms(1,2), of "take 4095 (line it) @ [0]" "length (line it)"]
    by (auto simp: crawler_metadump_eval_def ret_def seq_def bnd_def dump_text_def LRU_CRAWLER_WRITEBUF_def Let_def)
qed

definition answered :: "8 word list \<Rightarrow> client \<Rightarrow> bool" where
  "answered ws cl \<longleftrightarrow> attached ws cl \<or> gone ws cl"

lemma crawl_run:
  assumes "answered ws cl" "\<And>a. a \<in> set (answers cl) \<Longrightarrow> 0 \<le> poll_ret a" "\<And>it. it \<in> set its \<Longrightarrow> line_fits now it"
  shows "crawl_lru now its cl = Inl Diverges \<or> (\<exists>cl'. crawl_lru now its cl = Inr ((), cl')
           \<and> set (answers cl') \<subseteq> set (answers cl) \<and> answered (ws @ dump_text now its) cl')"
  using assms
proof (induction its arbitrary: ws cl)
  case Nil
  then show ?case by (simp add: ret_def dump_text_def)
next
  case (Cons it its)
  show ?case
  proof (cases "gone ws cl")
    case True
    then show ?thesis
      using gone_append [OF True] by (auto simp: gone_def bnd_def gets_def ret_def answered_def)
  next
    case False
    then have at: "attached ws cl"
      using Cons.prems(1) by (simp add: answered_def)
    then have "lru_crawler_client_getbuf cl = getbuf_loop (answers cl) cl" "c cl \<noteq> NULL"
      by (simp_all add: lru_crawler_client_getbuf_def attached_def)
    note crawl = this crawl_lru.simps bnd_def gets_def ret_def seq_def
    consider (wait) "getbuf_loop (answers cl) cl = Inl Diverges"
      | (ok) cl1 where "getbuf_loop (answers cl) cl = Inr (0, cl1)" "attached ws cl1" "ready cl1" "set (answers cl1) \<subseteq> set (answers cl)"
      | (lost) cl1 where "getbuf_loop (answers cl) cl = Inr (- 1, cl1)" "gone ws cl1" "set (answers cl1) \<subseteq> set (answers cl)"
      using getbuf_run [OF at Cons.prems(2)] by blast
    then show ?thesis
    proof cases
      case wait
      then show ?thesis
        by (simp add: crawl)
    next
      case lost
      then show ?thesis
        using gone_append [OF lost(2)] by (simp add: crawl answered_def)
    next
      case ok
      obtain cl2 where cl2: "crawler_metadump_eval now it cl1 = Inr ((), cl2)" "attached (ws @ dump_text now [it]) cl2"
          "answers cl2 = answers cl1"
        using eval_run [OF ok(2,3), of now it] Cons.prems(3) by auto
      have "crawl_lru now its cl2 = Inl Diverges \<or> (\<exists>cl'. crawl_lru now its cl2 = Inr ((), cl')
           \<and> set (answers cl') \<subseteq> set (answers cl2) \<and> answered ((ws @ dump_text now [it]) @ dump_text now its) cl')"
        using cl2 ok(4) Cons.prems by (intro Cons.IH) (auto simp: answered_def)
      moreover have "crawl_lru now (it # its) cl = crawl_lru now its cl2"
        using ok(1) cl2(1) by (simp add: crawl)
      moreover have "(ws @ dump_text now [it]) @ dump_text now its = ws @ dump_text now (it # its)"
        by (simp add: dump_text_def)
      ultimately show ?thesis
        using ok(4) cl2(3) by (metis subset_trans)
    qed
  qed
qed

lemma getbuf_attached:
  assumes "attached ws cl"
  shows "lru_crawler_client_getbuf cl = getbuf_loop (answers cl) cl"
  using assms by (simp add: lru_crawler_client_getbuf_def attached_def)

lemma finalize_ready:
  assumes "attached ws cl" "getbuf_loop (answers cl) cl = Inr (0, cl1)" "attached ws cl1" "ready cl1"
  shows "\<exists>cl'. crawler_metadump_finalize cl = Inr ((), cl') \<and> attached (ws @ END_line) cl'
           \<and> answers cl' = answers cl1 \<and> sent cl' = sent cl1"
proof -
  have c: "c cl \<noteq> NULL"
    using assms(1) by (simp add: attached_def)
  have "length END_line = 5"
    by (simp add: END_line_def)
  then obtain cl2 cl3 where "write_cbuf END_line cl1 = Inr ((), cl2)" "push_buf 5 cl2 = Inr (5, cl3)"
      "attached (ws @ END_line) cl3" "answers cl3 = answers cl1" "sent cl3 = sent cl1"
    using write_push [OF assms(3,4), of END_line 5] by auto
  then show ?thesis
    using c assms(2) getbuf_attached [OF assms(1)]
    by (simp add: crawler_metadump_finalize_def bnd_def gets_def seq_def ret_def)
qed

text \<open>The return value of \<^verbatim>\<open>lru_crawler_client_getbuf\<close> is not looked at: when the
  client goes away while it waits, the final message is copied to a null pointer.\<close>

lemma finalize_gone:
  assumes "attached ws cl" "getbuf_loop (answers cl) cl = Inr (r, cl1)" "gone ws cl1"
  shows "crawler_metadump_finalize cl = Inl NullDeref"
proof -
  have "c cl \<noteq> NULL"
    using assms(1) by (simp add: attached_def)
  moreover have "write_cbuf END_line cl1 = Inl NullDeref"
    using assms(3) by (simp add: gone_def write_cbuf_def)
  ultimately show ?thesis
    using assms(2) getbuf_attached [OF assms(1)]
    by (simp add: crawler_metadump_finalize_def bnd_def gets_def seq_def ret_def)
qed

lemma flush_run:
  assumes "attached ws cl"
  shows "flush_loop as cl = Inl Diverges \<or> (\<exists>cl'. flush_loop as cl = Inr ((), cl')
           \<and> (attached ws cl' \<and> sent cl' = ws \<or> gone ws cl'))"
  using assms
proof (induction as arbitrary: cl)
  case Nil
  then obtain b where b: "buf cl = Some b" "bip_ok b" "sent cl @ content b = ws" "c cl \<noteq> NULL"
    by (auto simp: attached_def)
  then show ?case
    using Nil used_content [OF b(2)] by (auto simp: flush_loop.simps)
next
  case (Cons a as)
  then obtain b where b: "buf cl = Some b" "bip_ok b" "sent cl @ content b = ws" "c cl \<noteq> NULL"
    by (auto simp: attached_def)
  show ?case
  proof (cases "content b = []")
    case True
    then show ?thesis
      using b Cons.prems used_content [OF b(2)] by (auto simp: flush_loop.simps)
  next
    case False
    obtain r cl' where r: "lru_crawler_poll a cl = Inr (r, cl')" "attached ws cl' \<or> gone ws cl'"
      using poll_step [OF Cons.prems, of a] by metis
    have step: "flush_loop (a # as) cl = flush_loop as cl'"
      using False b r(1) used_content [OF b(2)] by (simp add: flush_loop.simps [of "a # as"])
    have "flush_loop as cl' = Inr ((), cl'\<lparr>answers := as\<rparr>)" if "gone ws cl'"
      using that by (simp add: gone_def flush_loop.simps)
    then show ?thesis
      using r(2) Cons.IH [of cl'] unfolding step by auto
  qed
qed

lemma flush_accepting:
  assumes "attached ws cl" "\<And>a. a \<in> set as \<Longrightarrow> accepting a" "length ws \<le> length as + length (sent cl)"
  shows "\<exists>cl'. flush_loop as cl = Inr ((), cl') \<and> attached ws cl' \<and> sent cl' = ws"
  using assms
proof (induction as arbitrary: cl)
  case Nil
  then obtain b where b: "buf cl = Some b" "bip_ok b" "sent cl @ content b = ws" "c cl \<noteq> NULL"
    by (auto simp: attached_def)
  then show ?case
    using Nil used_content [OF b(2)] by (auto simp: flush_loop.simps)
next
  case (Cons a as)
  then obtain b where b: "buf cl = Some b" "bip_ok b" "sent cl @ content b = ws" "c cl \<noteq> NULL"
    by (auto simp: attached_def)
  show ?case
  proof (cases "content b = []")
    case True
    then show ?thesis
      using b Cons.prems(1) used_content [OF b(2)] by (auto simp: flush_loop.simps)
  next
    case False
    have "accepting a"
      by (rule Cons.prems(2)) simp
    then obtain cl' where cl': "lru_crawler_poll a cl = Inr (0, cl')" "attached ws cl'" "length (sent cl) < length (sent cl')"
      using poll_accepting [OF Cons.prems(1) _ b(1) False] by blast
    have "flush_loop (a # as) cl = flush_loop as cl'"
      using False b cl'(1) used_content [OF b(2)] by (simp add: flush_loop.simps [of "a # as"])
    then show ?thesis
      using Cons.IH [OF cl'(2)] Cons.prems(2,3) cl'(3) by simp
  qed
qed

lemma crawl_accepting:
  assumes "attached ws cl" "\<And>a. a \<in> set (answers cl) \<Longrightarrow> accepting a" "\<And>it. it \<in> set its \<Longrightarrow> line_fits now it"
      and "length (ws @ dump_text now its) \<le> length (answers cl) + length (sent cl)"
  shows "\<exists>cl'. crawl_lru now its cl = Inr ((), cl') \<and> attached (ws @ dump_text now its) cl'
           \<and> set (answers cl') \<subseteq> set (answers cl)
           \<and> length (answers cl) + length (sent cl) \<le> length (answers cl') + length (sent cl')"
  using assms
proof (induction its arbitrary: ws cl)
  case Nil
  then show ?case by (simp add: ret_def dump_text_def)
next
  case (Cons it its)
  have app: "(ws @ dump_text now [it]) @ dump_text now its = ws @ dump_text now (it # its)"
    by (simp add: dump_text_def)
  obtain cl1 where cl1: "getbuf_loop (answers cl) cl = Inr (0, cl1)" "attached ws cl1" "ready cl1"
      "set (answers cl1) \<subseteq> set (answers cl)"
      "length (answers cl) + length (sent cl) \<le> length (answers cl1) + length (sent cl1)"
    using getbuf_accepting [OF Cons.prems(1), of "answers cl"] Cons.prems(2,4) by auto
  obtain cl2 where cl2: "crawler_metadump_eval now it cl1 = Inr ((), cl2)" "attached (ws @ dump_text now [it]) cl2"
      "answers cl2 = answers cl1" "sent cl2 = sent cl1"
    using eval_run [OF cl1(2,3), of now it] Cons.prems(3) by auto
  have "length ((ws @ dump_text now [it]) @ dump_text now its) \<le> length (answers cl2) + length (sent cl2)"
    using Cons.prems(4) cl1(5) cl2(3,4) unfolding app by simp
  then obtain cl3 where "crawl_lru now its cl2 = Inr ((), cl3)" "attached (ws @ dump_text now (it # its)) cl3"
      "set (answers cl3) \<subseteq> set (answers cl2)"
      "length (answers cl2) + length (sent cl2) \<le> length (answers cl3) + length (sent cl3)"
    using Cons.IH [OF cl2(2)] Cons.prems(2,3) cl1(4) cl2(3) unfolding app by auto
  moreover have "crawl_lru now (it # its) cl = crawl_lru now its cl2"
    using Cons.prems(1) getbuf_attached [OF Cons.prems(1)] cl1(1) cl2(1)
    by (simp add: bnd_def gets_def seq_def attached_def)
  ultimately show ?case
    using cl1(4,5) cl2(3,4) by (intro exI [of _ cl3]) auto
qed

lemma set_client_attached:
  assumes "lru_crawler_set_client (Some bs) conn fd cl0 = (0, cl)" "conn \<noteq> NULL" "131072 \<le> length bs"
      and "sent cl0 = []" "fate cl0 = Active"
  shows "attached [] cl" "answers cl = answers cl0" "sent cl = []"
proof -
  obtain b where b: "bipbuf_new (Some bs) 131072 = Some b"
    by (simp add: bipbuf_new_def)
  then have cl: "cl = cl0\<lparr>c := conn, sfd := fd, buf := Some b\<rparr>"
    using assms(1) by (auto simp: lru_crawler_set_client_def Let_def split: if_splits)
  then show "answers cl = answers cl0" "sent cl = []"
    using assms(4) by simp_all
  show "attached [] cl"
    using bip_new_run [OF b] assms cl by (simp add: attached_def)
qed

lemma finish_gone:
  assumes "gone ws cl"
  shows "\<exists>cl'. crawler_finish cl = Inr ((), cl') \<and> fate cl' = Closed \<and> sent cl' = sent cl"
  using assms
  by (simp add: crawler_finish_def crawler_metadump_finalize_def gone_def seq_def bnd_def gets_def ret_def flush_loop.simps)

text \<open>What a finished dump has sent.\<close>

definition delivered :: "8 word list \<Rightarrow> client \<Rightarrow> bool" where
  "delivered ws cl \<longleftrightarrow> fate cl = Released \<and> sent cl = ws \<or> fate cl = Closed \<and> prefix (sent cl) ws"

lemma finish_after_flush:
  assumes "crawler_metadump_finalize cl = Inr ((), cl1)" "flush_loop (answers cl1) cl1 = Inr ((), cl2)"
      and "attached ws cl2 \<and> sent cl2 = ws \<or> gone ws cl2"
  shows "\<exists>cl'. crawler_finish cl = Inr ((), cl') \<and> delivered ws cl' \<and> (attached ws cl2 \<longrightarrow> fate cl' = Released)"
  using assms
  by (auto simp: crawler_finish_def seq_def bnd_def delivered_def attached_def gone_def lru_crawler_release_client_def)

lemma finish_run:
  assumes "attached ws cl" "\<And>a. a \<in> set (answers cl) \<Longrightarrow> 0 \<le> poll_ret a"
  shows "crawler_finish cl = Inl Diverges \<or> crawler_finish cl = Inl NullDeref
      \<or> (\<exists>cl'. crawler_finish cl = Inr ((), cl') \<and> delivered (ws @ END_line) cl')"
proof -
  have wait: "crawler_metadump_finalize cl = Inl Diverges" if "getbuf_loop (answers cl) cl = Inl Diverges"
    using that assms(1) getbuf_attached [OF assms(1)]
    by (simp add: crawler_metadump_finalize_def bnd_def gets_def seq_def attached_def)
  have fault: "crawler_finish cl = Inl e" if "crawler_metadump_finalize cl = Inl e" for e
    using that by (simp add: crawler_finish_def seq_def bnd_def)
  have "crawler_metadump_finalize cl = Inl Diverges \<or> crawler_metadump_finalize cl = Inl NullDeref
      \<or> (\<exists>cl1. crawler_metadump_finalize cl = Inr ((), cl1) \<and> attached (ws @ END_line) cl1)"
    using getbuf_run [OF assms] wait finalize_ready [OF assms(1)] finalize_gone [OF assms(1)] by metis
  moreover have "crawler_finish cl = Inl Diverges \<or> (\<exists>cl'. crawler_finish cl = Inr ((), cl') \<and> delivered (ws @ END_line) cl')"
    if cl1: "crawler_metadump_finalize cl = Inr ((), cl1)" "attached (ws @ END_line) cl1" for cl1
  proof (cases "flush_loop (answers cl1) cl1 = Inl Diverges")
    case True
    then show ?thesis
      using cl1(1) by (simp add: crawler_finish_def seq_def bnd_def)
  next
    case False
    then show ?thesis
      using flush_run [OF cl1(2), of "answers cl1"] finish_after_flush [OF cl1(1)] by metis
  qed
  ultimately show ?thesis
    using fault by metis
qed

section \<open>Properties\<close>


definition fresh_client :: "answer list \<Rightarrow> client" where
  "fresh_client as = \<lparr>c = NULL, sfd = 0, buf = None, cbuf = None, sent = [], fate = Active, answers = as\<rparr>"

definition writes :: "nat \<Rightarrow> answer" where
  "writes n = \<lparr>poll_ret = 1, pollin = False, hangup = False, pollout = True, read_gone = False, write_res = Wrote n\<rparr>"

lemma set_client_fresh:
  "lru_crawler_set_client (Some bs) conn fd (fresh_client as) =
     (0, snd (lru_crawler_set_client (Some bs) conn fd (fresh_client as)))"
  by (simp add: lru_crawler_set_client_def fresh_client_def bipbuf_new_def Let_def)


text \<open>
  C28: a metadump towards a client that accepts at least one byte per \<^verbatim>\<open>poll\<close> ends: the
  waiting loops need at most as many calls as the text has bytes, the client is released and has
  received the whole text.
\<close>

theorem crawler_dump_completes:
  assumes "lru_crawler_set_client (Some bs) conn fd cl0 = (0, cl)" "conn \<noteq> NULL" "131072 \<le> length bs"
      and "sent cl0 = []" "fate cl0 = Active"
      and "\<forall>a \<in> set (answers cl0). accepting a" "\<forall>it \<in> set its. line_fits now it"
      and "length (dump_text now its @ END_line) \<le> length (answers cl0)"
  shows "\<exists>cl'. metadump now its cl = Inr ((), cl') \<and> fate cl' = Released \<and> sent cl' = dump_text now its @ END_line"
proof -
  note at = set_client_attached [OF assms(1-5)]
  obtain cl1 where cl1: "crawl_lru now its cl = Inr ((), cl1)" "attached (dump_text now its) cl1"
      "set (answers cl1) \<subseteq> set (answers cl)" "length (answers cl) + length (sent cl) \<le> length (answers cl1) + length (sent cl1)"
    using crawl_accepting [OF at(1), of its now] assms(6,7,8) at(2) by auto
  have acc: "accepting a" if "a \<in> set (answers cl1)" for a
    using that assms(6) at(2) cl1(3) by auto
  obtain cl2 where cl2: "getbuf_loop (answers cl1) cl1 = Inr (0, cl2)" "attached (dump_text now its) cl2" "ready cl2"
      "set (answers cl2) \<subseteq> set (answers cl1)"
      "length (answers cl1) + length (sent cl1) \<le> length (answers cl2) + length (sent cl2)"
    using getbuf_accepting [OF cl1(2), of "answers cl1"] acc cl1(4) assms(8) at(2,3) by auto
  obtain cl3 where cl3: "crawler_metadump_finalize cl1 = Inr ((), cl3)" "attached (dump_text now its @ END_line) cl3"
      "answers cl3 = answers cl2" "sent cl3 = sent cl2"
    using finalize_ready [OF cl1(2) cl2(1-3)] by blast
  have "length (dump_text now its @ END_line) \<le> length (answers cl3) + length (sent cl3)"
    using assms(8) at(2) cl1(4) cl2(5) cl3(3,4) by simp
  then obtain cl4 where cl4: "flush_loop (answers cl3) cl3 = Inr ((), cl4)" "attached (dump_text now its @ END_line) cl4"
      "sent cl4 = dump_text now its @ END_line"
    using flush_accepting [OF cl3(2), of "answers cl3"] acc cl2(4) cl3(3) by auto
  then show ?thesis
    using finish_after_flush [OF cl3(1) cl4(1), of "dump_text now its @ END_line"] cl1(1) by (auto simp: metadump_def seq_def bnd_def delivered_def)
qed

lemma crawler_dump_completes_witness:
  "\<exists>cl'. metadump 5 [\<lparr>exptime = 0, is_flushed = False, line = [65, 10]\<rparr>, \<lparr>exptime = 3, is_flushed = False, line = [66, 10]\<rparr>]
     (snd (lru_crawler_set_client (Some (replicate 131072 0)) 1 9 (fresh_client (replicate 7 (writes 3))))) = Inr ((), cl')
   \<and> fate cl' = Released \<and> sent cl' = [65, 10] @ END_line"
  using crawler_dump_completes [OF set_client_fresh, of 1 "replicate 131072 0" "replicate 7 (writes 3)"
      "[\<lparr>exptime = 0, is_flushed = False, line = [65, 10]\<rparr>, \<lparr>exptime = 3, is_flushed = False, line = [66, 10]\<rparr>]" 5 9]
  by (simp add: fresh_client_def writes_def line_fits_def skipped_def dump_text_def accepting_def END_line_def)

text \<open>
  When the buffer has less than \<^verbatim>\<open>LRU_CRAWLER_WRITEBUF\<close> contiguous bytes left at the end
  of the crawl and the client hangs up while \<^verbatim>\<open>crawler_metadump_finalize\<close> waits for
  space, the final message is copied to a null pointer.
\<close>

theorem crawler_finalize_null:
  assumes "c cl \<noteq> NULL" "buf cl = Some b" "bip_ok b" "length (bytes b) = 131072"
      and "bipbuf_unused b < LRU_CRAWLER_WRITEBUF"
      and "answers cl = a # as" "0 < poll_ret a" "hangup a"
  shows "crawler_metadump_finalize cl = Inl NullDeref"
proof -
  have "content b \<noteq> []"
  proof
    assume "content b = []"
    then have "spare b = 131072"
      using assms(3,4) empty_content [OF assms(3)] by (auto simp: bip_ok_def spare_def)
    then show False
      using assms(5) by (simp add: unused_room [OF assms(3)] LRU_CRAWLER_WRITEBUF_def)
  qed
  then obtain p n where "bipbuf_peek_all b = Some (p, n)"
    using peek_all_run [OF assms(3)] empty_content [OF assms(3)] by metis
  then have poll: "lru_crawler_poll a cl = Inr (- 1, lru_crawler_close_client cl)"
    using assms(2,7,8) by (simp add: lru_crawler_poll_def)
  have "getbuf_loop (a # as) cl = Inr (- 1, (lru_crawler_close_client cl)\<lparr>answers := as\<rparr>)"
    using assms(2,5) poll by (simp add: getbuf_loop.simps bipbuf_request_def)
  then show ?thesis
    using assms(1,6) by (simp add: crawler_metadump_finalize_def lru_crawler_client_getbuf_def bnd_def gets_def seq_def
        write_cbuf_def lru_crawler_close_client_def)
qed

lemma crawler_finalize_null_witness:
  "crawler_metadump_finalize
     \<lparr>c = 1, sfd = 9, buf = Some \<lparr>size_of = 131072, a_start = 0, a_end = 131072, b_end = 0, b_inuse = 0, bytes = replicate 131072 65\<rparr>,
      cbuf = None, sent = [], fate = Active,
      answers = [\<lparr>poll_ret = 1, pollin = False, hangup = True, pollout = False, read_gone = False, write_res = Wrote 0\<rparr>]\<rparr>
   = Inl NullDeref"
  by (rule crawler_finalize_null [where as = "[]"
        and b = "\<lparr>size_of = 131072, a_start = 0, a_end = 131072, b_end = 0, b_inuse = 0, bytes = replicate 131072 65\<rparr>"
        and a = "\<lparr>poll_ret = 1, pollin = False, hangup = True, pollout = False, read_gone = False, write_res = Wrote 0\<rparr>"])
    (simp_all add: bip_ok_def bipbuf_unused_def to_int_small LRU_CRAWLER_WRITEBUF_def)

end
