(* ===== verification/Assoc.thy ===== *)
theory Assoc
  imports Chains "HOL-Library.Word"
begin

text \<open>
  The hash table of memcached, \<^verbatim>\<open>src/experiments/memcached/src/assoc.c\<close>: chained buckets,
  and an expansion to twice the size that a maintenance thread carries out one bucket at a time
  while the workers go on. A critical section under the item lock of a bucket is one step; the hash
  function is the parameter \<open>hash\<close>, and \<open>calloc_ok\<close> says whether the new table can be
  allocated.
\<close>

unbundle bit_operations_syntax

section \<open>State\<close>

record aitem =
  ikey :: "8 word list"
  h_next :: ptr

text \<open>Where the maintenance thread is: moving buckets, about to wait for the condition variable, or
  waiting.\<close>

datatype maintenance = Moving | BeforeWait | Waiting

record assoc = "aitem world" +
  primary_hashtable :: "ptr list"
  old_hashtable :: "ptr list"
  hashpower :: nat
  hash_items :: "32 word"
  expanding :: bool
  started_expanding :: bool
  expand_bucket :: "32 word"
  maint :: maintenance
  signalled :: bool
  hash_power_level :: nat
  hash_bytes :: "64 word"
  hash_is_expanding :: bool

definition HASHPOWER_MAX :: nat where
  "HASHPOWER_MAX = 32"

definition hashsize :: "nat \<Rightarrow> 64 word" where
  "hashsize n = push_bit n 1"

definition hashmask :: "nat \<Rightarrow> 64 word" where
  "hashmask n = hashsize n - 1"

text \<open>The address of an item pointer: a bucket of the old or of the primary table, or the successor
  field of an item.\<close>

datatype item_ref = Bucket bool nat | NextOf ptr

definition hash_items_counter_lock :: nat where
  "hash_items_counter_lock = 0"

section \<open>Operations\<close>

definition load_bucket :: "bool \<Rightarrow> nat \<Rightarrow> (assoc, ptr) exec" where
  "load_bucket is_old i = (\<lambda>s.
     let t = (if is_old then old_hashtable s else primary_hashtable s)
     in if i < length t then Inr (t ! i, s) else Inl IndexRange)"

definition store_bucket :: "bool \<Rightarrow> nat \<Rightarrow> ptr \<Rightarrow> (assoc, unit) exec" where
  "store_bucket is_old i p = (\<lambda>s.
     if is_old
     then (if i < length (old_hashtable s) then Inr ((), s\<lparr>old_hashtable := (old_hashtable s)[i := p]\<rparr>) else Inl IndexRange)
     else (if i < length (primary_hashtable s)
           then Inr ((), s\<lparr>primary_hashtable := (primary_hashtable s)[i := p]\<rparr>) else Inl IndexRange))"

definition load :: "item_ref \<Rightarrow> (assoc, ptr) exec" where
  "load r = (case r of Bucket is_old i \<Rightarrow> load_bucket is_old i | NextOf q \<Rightarrow> bnd (deref q) (\<lambda>n. ret (h_next n)))"

definition store :: "item_ref \<Rightarrow> ptr \<Rightarrow> (assoc, unit) exec" where
  "store r p = (case r of Bucket is_old i \<Rightarrow> store_bucket is_old i p | NextOf q \<Rightarrow> assign q (h_next_update (\<lambda>_. p)))"

text \<open>\<^verbatim>\<open>calloc\<close> of a table; the process exits when the first one cannot be allocated.\<close>

definition assoc_init :: "bool \<Rightarrow> nat \<Rightarrow> (assoc, unit) exec" where
  "assoc_init calloc_ok hashtable_init = (\<lambda>s.
     let s = (if hashtable_init \<noteq> 0 then s\<lparr>hashpower := hashtable_init\<rparr> else s)
     in if \<not> calloc_ok then Inl ExitFailure
        else Inr ((), s\<lparr>primary_hashtable := replicate (unat (hashsize (hashpower s))) NULL,
                        hash_power_level := hashpower s, hash_bytes := hashsize (hashpower s) * 8\<rparr>))"

definition oldbucket :: "32 word \<Rightarrow> assoc \<Rightarrow> 32 word" where
  "oldbucket hv s = ucast (ucast hv AND hashmask (hashpower s - 1))"

text \<open>The choice of the table that every operation starts with.\<close>

definition pick :: "32 word \<Rightarrow> assoc \<Rightarrow> bool \<times> nat" where
  "pick hv s =
     (if expanding s \<and> expand_bucket s \<le> oldbucket hv s then (True, unat (oldbucket hv s))
      else (False, unat (ucast hv AND hashmask (hashpower s))))"

definition assoc_find :: "8 word list \<Rightarrow> 32 word \<Rightarrow> (assoc, ptr) exec" where
  "assoc_find key hv =
     bnd (gets (pick hv)) (\<lambda>(is_old, i).
     bnd (load_bucket is_old i) (\<lambda>p.
     bnd (walk_list h_next (\<lambda>n. ikey n = key) p) (\<lambda>(prev, it). ret it)))"

definition hashitem_before :: "8 word list \<Rightarrow> 32 word \<Rightarrow> (assoc, item_ref) exec" where
  "hashitem_before key hv =
     bnd (gets (pick hv)) (\<lambda>(is_old, i).
     bnd (load_bucket is_old i) (\<lambda>p.
     bnd (walk_list h_next (\<lambda>n. ikey n = key) p) (\<lambda>(prev, it).
     ret (if prev = NULL then Bucket is_old i else NextOf prev))))"

definition assoc_expand :: "bool \<Rightarrow> (assoc, unit) exec" where
  "assoc_expand calloc_ok = modify (\<lambda>s.
     let s = s\<lparr>old_hashtable := primary_hashtable s\<rparr>
     in if calloc_ok
        then let s = s\<lparr>primary_hashtable := replicate (unat (hashsize (hashpower s + 1))) NULL,
                       hashpower := hashpower s + 1, expanding := True, expand_bucket := 0\<rparr>
             in s\<lparr>hash_power_level := hashpower s, hash_bytes := hash_bytes s + hashsize (hashpower s) * 8,
                  hash_is_expanding := True\<rparr>
        else s)"

text \<open>\<^verbatim>\<open>pthread_cond_signal\<close> wakes the thread if it waits, and is lost otherwise.\<close>

definition assoc_start_expand :: "(assoc, unit) exec" where
  "assoc_start_expand = modify (\<lambda>s.
     if started_expanding s then s
     else let s = s\<lparr>started_expanding := True\<rparr> in if maint s = Waiting then s\<lparr>signalled := True\<rparr> else s)"

definition assoc_insert :: "ptr \<Rightarrow> 32 word \<Rightarrow> (assoc, int) exec" where
  "assoc_insert it hv =
     bnd (gets (pick hv)) (\<lambda>(is_old, i).
     bnd (load_bucket is_old i) (\<lambda>p.
     seq (assign it (h_next_update (\<lambda>_. p)))
    (seq (store_bucket is_old i it)
    (seq (pthread_mutex_lock hash_items_counter_lock)
    (seq (modify (\<lambda>s. s\<lparr>hash_items := hash_items s + 1\<rparr>))
    (bnd (gets (\<lambda>s. \<not> expanding s \<and> hashsize (hashpower s) * 3 div 2 < ucast (hash_items s)
                     \<and> hashpower s < HASHPOWER_MAX)) (\<lambda>grow.
     seq (if grow then assoc_start_expand else ret ())
    (seq (pthread_mutex_unlock hash_items_counter_lock)
         (ret 1)))))))))"

definition assoc_delete :: "8 word list \<Rightarrow> 32 word \<Rightarrow> (assoc, unit) exec" where
  "assoc_delete key hv =
     bnd (hashitem_before key hv) (\<lambda>before.
     bnd (load before) (\<lambda>it.
     if it \<noteq> NULL
     then seq (pthread_mutex_lock hash_items_counter_lock)
         (seq (modify (\<lambda>s. s\<lparr>hash_items := hash_items s - 1\<rparr>))
         (seq (pthread_mutex_unlock hash_items_counter_lock)
         (bnd (deref it) (\<lambda>n.
          seq (assign it (h_next_update (\<lambda>_. NULL)))
              (store before (h_next n))))))
     else raise ExitFailure))"

section \<open>The maintenance thread\<close>

text \<open>Moving the items of one bucket to the new table.\<close>

primrec move_loop :: "(8 word list \<Rightarrow> 32 word) \<Rightarrow> nat \<Rightarrow> ptr \<Rightarrow> (assoc, unit) exec" where
  "move_loop hash 0 it = raise Diverges"
| "move_loop hash (Suc k) it =
     (if it = NULL then ret ()
      else bnd (deref it) (\<lambda>n.
           bnd (gets (\<lambda>s. unat (ucast (hash (ikey n)) AND hashmask (hashpower s)))) (\<lambda>bucket.
           bnd (load_bucket False bucket) (\<lambda>p.
           seq (assign it (h_next_update (\<lambda>_. p)))
          (seq (store_bucket False bucket it)
               (move_loop hash k (h_next n)))))))"

definition move_bucket :: "(8 word list \<Rightarrow> 32 word) \<Rightarrow> (assoc, unit) exec" where
  "move_bucket hash =
     bnd (gets (\<lambda>s. (unat (expand_bucket s), fresh s))) (\<lambda>(eb, k).
     bnd (load_bucket True eb) (\<lambda>it.
     seq (move_loop hash (Suc k) it)
    (seq (store_bucket True eb NULL)
         (modify (\<lambda>s.
            let s = s\<lparr>expand_bucket := expand_bucket s + 1\<rparr>
            in if ucast (expand_bucket s) = hashsize (hashpower s - 1)
               then s\<lparr>expanding := False, old_hashtable := [],
                      hash_bytes := hash_bytes s - hashsize (hashpower s - 1) * 8, hash_is_expanding := False\<rparr>
               else s)))))"

text \<open>The inner loop of \<^verbatim>\<open>assoc_maintenance_thread\<close>: one outcome of
  \<^verbatim>\<open>item_trylock\<close> for each of the \<^verbatim>\<open>hash_bulk_move\<close> iterations.\<close>

primrec bulk_move :: "(8 word list \<Rightarrow> 32 word) \<Rightarrow> bool list \<Rightarrow> (assoc, unit) exec" where
  "bulk_move hash [] = ret ()"
| "bulk_move hash (trylock # ts) =
     bnd (gets expanding) (\<lambda>e.
     if \<not> e then ret () else seq (if trylock then move_bucket hash else ret ()) (bulk_move hash ts))"

text \<open>One turn of its outer loop, in the three parts between which workers can run: up to the call of
  \<^verbatim>\<open>pthread_cond_wait\<close>, going to sleep there, and what follows the wake-up, with all
  workers paused.\<close>

definition maintenance_scan :: "(8 word list \<Rightarrow> 32 word) \<Rightarrow> bool list \<Rightarrow> (assoc, unit) exec" where
  "maintenance_scan hash ts =
     seq (bulk_move hash ts)
         (modify (\<lambda>s. if expanding s then s else s\<lparr>started_expanding := False, maint := BeforeWait\<rparr>))"

definition maintenance_wait :: "(assoc, unit) exec" where
  "maintenance_wait = modify (\<lambda>s. s\<lparr>maint := Waiting\<rparr>)"

definition maintenance_wake :: "bool \<Rightarrow> (assoc, unit) exec" where
  "maintenance_wake calloc_ok = seq (modify (\<lambda>s. s\<lparr>signalled := False, maint := Moving\<rparr>)) (assoc_expand calloc_ok)"

section \<open>Representation\<close>

interpretation aitem: linked h_next "\<lambda>p. h_next_update (\<lambda>_. p)" ikey
  by unfold_locales simp_all

lemma hashsize_unat:
  assumes "n < 64"
  shows "unat (hashsize n) = 2 ^ n"
proof -
  have "hashsize n = word_of_nat (2 ^ n)"
    by (simp add: hashsize_def push_bit_eq_mult)
  moreover have "(2 :: nat) ^ n < 2 ^ 64"
    using assms by (intro power_strict_increasing) simp_all
  ultimately show ?thesis
    by (simp only: unat_of_nat) simp
qed

lemma hashmask_unat:
  assumes "n \<le> 32"
  shows "unat (ucast (hv :: 32 word) AND hashmask n) = unat hv mod 2 ^ n"
proof -
  have "hashmask n = mask n"
    by (simp add: hashmask_def hashsize_def mask_eq_exp_minus_1 push_bit_eq_mult)
  then have "unat (ucast hv AND hashmask n) = take_bit n (unat (ucast hv :: 64 word))"
    by (simp add: unsigned_take_bit_eq flip: take_bit_eq_mask)
  moreover have "unat (ucast hv :: 64 word) = unat hv"
    using unsigned_less [of hv, where ?'a = nat] by (simp add: unsigned_ucast_eq take_bit_nat_eq_self)
  ultimately show ?thesis
    by (simp add: take_bit_eq_mod)
qed

text \<open>The buckets of both tables are one row of chains: first the primary table, then the old one while
  the table expands. \<open>place\<close> is the bucket of the row where a key of a given hash value belongs.\<close>

definition tables_ok :: "assoc \<Rightarrow> bool" where
  "tables_ok s \<longleftrightarrow> length (primary_hashtable s) = 2 ^ hashpower s \<and> hashpower s \<le> 32
     \<and> (expanding s \<longrightarrow> 0 < hashpower s \<and> length (old_hashtable s) = 2 ^ (hashpower s - 1)
          \<and> unat (expand_bucket s) < 2 ^ (hashpower s - 1))"

definition heads :: "assoc \<Rightarrow> nat \<Rightarrow> ptr" where
  "heads s i = (if i < length (primary_hashtable s) then primary_hashtable s ! i
                else old_hashtable s ! (i - length (primary_hashtable s)))"

definition nbuckets :: "assoc \<Rightarrow> nat" where
  "nbuckets s = length (primary_hashtable s) + (if expanding s then length (old_hashtable s) else 0)"

definition place :: "assoc \<Rightarrow> nat \<Rightarrow> nat" where
  "place s h =
     (if expanding s \<and> unat (expand_bucket s) \<le> h mod 2 ^ (hashpower s - 1)
      then length (primary_hashtable s) + h mod 2 ^ (hashpower s - 1) else h mod 2 ^ hashpower s)"

definition put_head :: "nat \<Rightarrow> ptr \<Rightarrow> assoc \<Rightarrow> assoc" where
  "put_head j p s =
     (if j < length (primary_hashtable s) then s\<lparr>primary_hashtable := (primary_hashtable s)[j := p]\<rparr>
      else s\<lparr>old_hashtable := (old_hashtable s)[j - length (primary_hashtable s) := p]\<rparr>)"

lemma place_less: "tables_ok s \<Longrightarrow> place s h < nbuckets s"
  by (auto simp: tables_ok_def place_def nbuckets_def trans_less_add1)

lemma heads_put:
  assumes "j < nbuckets s"
  shows "heads (put_head j p s) = (heads s)(j := p)"
proof (cases "j < length (primary_hashtable s)")
  case True
  then show ?thesis
    by (auto simp: heads_def put_head_def fun_eq_iff)
next
  case False
  then have "j - length (primary_hashtable s) < length (old_hashtable s)"
    using assms by (auto simp: nbuckets_def split: if_splits)
  then show ?thesis
    using False by (auto simp: heads_def put_head_def nth_list_update fun_eq_iff)
qed

lemma put_head_keeps [simp]:
  "cells (put_head j p s) = cells s" "fresh (put_head j p s) = fresh s" "locks (put_head j p s) = locks s"
  "hash_items (put_head j p s) = hash_items s" "expanding (put_head j p s) = expanding s"
  "expand_bucket (put_head j p s) = expand_bucket s" "hashpower (put_head j p s) = hashpower s"
  "length (primary_hashtable (put_head j p s)) = length (primary_hashtable s)"
  "length (old_hashtable (put_head j p s)) = length (old_hashtable s)"
  "nbuckets (put_head j p s) = nbuckets s" "place (put_head j p s) h = place s h"
  "tables_ok (put_head j p s) = tables_ok s" "started_expanding (put_head j p s) = started_expanding s"
  "maint (put_head j p s) = maint s" "signalled (put_head j p s) = signalled s"
  by (auto simp: put_head_def nbuckets_def place_def tables_ok_def)

lemma geometry [simp]:
  "heads (s\<lparr>cells := h\<rparr>) = heads s" "nbuckets (s\<lparr>cells := h\<rparr>) = nbuckets s"
  "place (s\<lparr>cells := h\<rparr>) = place s" "tables_ok (s\<lparr>cells := h\<rparr>) = tables_ok s"
  "heads (s\<lparr>hash_items := v\<rparr>) = heads s" "nbuckets (s\<lparr>hash_items := v\<rparr>) = nbuckets s"
  "place (s\<lparr>hash_items := v\<rparr>) = place s" "tables_ok (s\<lparr>hash_items := v\<rparr>) = tables_ok s"
  by (auto simp: heads_def nbuckets_def place_def tables_ok_def fun_eq_iff)

lemma oldbucket_unat:
  assumes "hashpower s \<le> 32"
  shows "unat (oldbucket hv s) = unat hv mod 2 ^ (hashpower s - 1)"
proof -
  have "unat (ucast hv AND hashmask (hashpower s - 1)) = unat hv mod 2 ^ (hashpower s - 1)"
    using assms by (intro hashmask_unat) simp
  moreover have "unat hv mod 2 ^ (hashpower s - 1) < 2 ^ 32"
    using unsigned_less [of hv] by (intro le_less_trans [OF mod_less_eq_dividend]) simp
  ultimately show ?thesis
    by (simp add: oldbucket_def unsigned_ucast_eq take_bit_nat_eq_self)
qed

lemma pick_place:
  assumes "tables_ok s"
  obtains is_old i where "pick hv s = (is_old, i)"
    "load_bucket is_old i s = Inr (heads s (place s (unat hv)), s)"
    "\<And>s' p. primary_hashtable s' = primary_hashtable s \<Longrightarrow> old_hashtable s' = old_hashtable s \<Longrightarrow>
       store_bucket is_old i p s' = Inr ((), put_head (place s (unat hv)) p s')"
proof -
  note ok = assms [unfolded tables_ok_def]
  have ob: "unat (oldbucket hv s) = unat hv mod 2 ^ (hashpower s - 1)"
    using ok by (intro oldbucket_unat) simp
  have pb: "unat (ucast hv AND hashmask (hashpower s)) = unat hv mod 2 ^ hashpower s"
    using ok by (intro hashmask_unat) simp
  show ?thesis
  proof (cases "expanding s \<and> expand_bucket s \<le> oldbucket hv s")
    case True
    then have pl: "place s (unat hv) = length (primary_hashtable s) + unat hv mod 2 ^ (hashpower s - 1)"
      using ob by (simp add: place_def word_le_nat_alt)
    show ?thesis
      by (rule that [of True "unat (oldbucket hv s)"])
        (use True ok in \<open>simp_all add: pick_def ob pl load_bucket_def store_bucket_def heads_def put_head_def\<close>)
  next
    case False
    then have pl: "place s (unat hv) = unat hv mod 2 ^ hashpower s"
      using ob by (auto simp: place_def word_le_nat_alt)
    show ?thesis
      by (rule that [of False "unat hv mod 2 ^ hashpower s"])
        (use False ok in \<open>auto simp: pick_def pb pl load_bucket_def store_bucket_def heads_def put_head_def\<close>)
  qed
qed

text \<open>\<open>sits xss n k a\<close>: the item \<open>a\<close> with key \<open>k\<close> is in one of the first \<open>n\<close> chains.\<close>

definition sits :: "(nat \<Rightarrow> (ptr \<times> aitem) list) \<Rightarrow> nat \<Rightarrow> 8 word list \<Rightarrow> ptr \<Rightarrow> bool" where
  "sits xss n k a \<longleftrightarrow> (\<exists>i<n. \<exists>m. (a, m) \<in> set (xss i) \<and> ikey m = k)"

definition placed :: "(8 word list \<Rightarrow> 32 word) \<Rightarrow> assoc \<Rightarrow> (nat \<Rightarrow> (ptr \<times> aitem) list) \<Rightarrow> bool" where
  "placed hash s xss \<longleftrightarrow> (\<forall>i<nbuckets s. \<forall>x\<in>set (xss i). place s (unat (hash (ikey (snd x)))) = i)"

definition assoc_rep :: "(8 word list \<Rightarrow> 32 word) \<Rightarrow> assoc \<Rightarrow> (8 word list \<rightharpoonup> ptr) \<Rightarrow> (ptr \<rightharpoonup> aitem) \<Rightarrow> bool" where
  "assoc_rep hash s kv F \<longleftrightarrow> tables_ok s \<and> locks s hash_items_counter_lock = Free
     \<and> finite (dom kv) \<and> hash_items s = word_of_nat (card (dom kv))
     \<and> (\<exists>xss. forest h_next (heads s) (nbuckets s) s xss F \<and> placed hash s xss
          \<and> (\<forall>k a. kv k = Some a \<longleftrightarrow> sits xss (nbuckets s) k a))"

text \<open>A search in the chain of a key meets the item of that key or passes the whole chain.\<close>

lemma assoc_search:
  assumes "assoc_rep hash s kv F"
  obtains (absent) is_old i where "kv k = None" "pick (hash k) s = (is_old, i)"
      "load_bucket is_old i s = Inr (heads s (place s (unat (hash k))), s)"
      "\<exists>q. walk_list h_next (\<lambda>n. ikey n = k) (heads s (place s (unat (hash k)))) s = Inr ((q, NULL), s)"
    | (found) is_old i xss us a m ws where "kv k = Some a" "pick (hash k) s = (is_old, i)"
      "load_bucket is_old i s = Inr (heads s (place s (unat (hash k))), s)"
      "\<And>s' p. primary_hashtable s' = primary_hashtable s \<Longrightarrow> old_hashtable s' = old_hashtable s \<Longrightarrow>
         store_bucket is_old i p s' = Inr ((), put_head (place s (unat (hash k))) p s')"
      "walk_list h_next (\<lambda>n. ikey n = k) (heads s (place s (unat (hash k)))) s = Inr ((last_ptr NULL us, a), s)"
      "forest h_next (heads s) (nbuckets s) s xss F" "placed hash s xss"
      "\<And>k a. kv k = Some a \<longleftrightarrow> sits xss (nbuckets s) k a"
      "xss (place s (unat (hash k))) = us @ (a, m) # ws" "ikey m = k" "a \<noteq> NULL" "cells s a = Some m"
proof -
  from assms obtain xss where r: "tables_ok s" "forest h_next (heads s) (nbuckets s) s xss F" "placed hash s xss"
      "\<And>k a. kv k = Some a \<longleftrightarrow> sits xss (nbuckets s) k a"
    unfolding assoc_rep_def by blast
  let ?i = "place s (unat (hash k))"
  have i: "?i < nbuckets s"
    by (rule place_less [OF r(1)])
  obtain is_old j where pick: "pick (hash k) s = (is_old, j)"
      "load_bucket is_old j s = Inr (heads s ?i, s)"
      "\<And>s' p. primary_hashtable s' = primary_hashtable s \<Longrightarrow> old_hashtable s' = old_hashtable s \<Longrightarrow>
         store_bucket is_old j p s' = Inr ((), put_head ?i p s')"
    by (rule pick_place [OF r(1), of "hash k"]) blast
  note w = walk_list_spec [OF forest_owns [OF r(2) i], of "\<lambda>n. ikey n = k"]
  show ?thesis
  proof (cases rule: search_split [where xs = "xss ?i" and stop = "\<lambda>n. ikey n = k"])
    case absent
    have "\<not> sits xss (nbuckets s) k a" for a
    proof
      assume "sits xss (nbuckets s) k a"
      then obtain l m where l: "l < nbuckets s" "(a, m) \<in> set (xss l)" "ikey m = k"
        by (auto simp: sits_def)
      then have "place s (unat (hash (ikey m))) = l"
        using r(3) unfolding placed_def by (metis snd_conv)
      then have "l = ?i"
        using l(3) by simp
      then show False
        using absent(1) l by auto
    qed
    then have "kv k = None"
      using r(4) [of k] by (metis option.exhaust)
    moreover have "\<exists>q. walk_list h_next (\<lambda>n. ikey n = k) (heads s ?i) s = Inr ((q, NULL), s)"
      using w unfolding absent(3) by simp
    ultimately show ?thesis
      using that(1) pick by blast
  next
    case (found us a m ws)
    have "kv k = Some a"
      using r(4) [of k a] i found(1,4) by (auto simp: sits_def intro!: exI [of _ ?i])
    moreover have "a \<noteq> NULL" "cells s a = Some m"
      using forest_mem [OF r(2) i found(1)] by simp_all
    moreover have "walk_list h_next (\<lambda>n. ikey n = k) (heads s ?i) s = Inr ((last_ptr NULL us, a), s)"
      using w unfolding found(2,3) by simp
    ultimately show ?thesis
      using that(2) [of a is_old j us xss m ws] pick r found(1,4) by blast
  qed
qed

lemma find_run:
  assumes "assoc_rep hash s kv F"
  shows "assoc_find k (hash k) s = Inr (case kv k of None \<Rightarrow> NULL | Some a \<Rightarrow> a, s)"
  using assms
proof (cases rule: assoc_search [where k = k])
  case absent
  then show ?thesis
    by (auto simp: assoc_find_def exec_simps)
next
  case (found is_old i xss us a m ws)
  then have "kv k = Some a"
    by simp
  then show ?thesis
    using found(2,3,5) by (simp add: assoc_find_def exec_simps)
qed

text \<open>Only the tables, the memory, the counter and its lock matter.\<close>

lemma assoc_rep_cong:
  assumes "primary_hashtable s' = primary_hashtable s" "old_hashtable s' = old_hashtable s" "hashpower s' = hashpower s"
      "expanding s' = expanding s" "expand_bucket s' = expand_bucket s" "cells s' = cells s" "fresh s' = fresh s"
      "locks s' hash_items_counter_lock = locks s hash_items_counter_lock" "hash_items s' = hash_items s"
  shows "assoc_rep hash s' kv F = assoc_rep hash s kv F"
proof -
  have "heads s' = heads s" "nbuckets s' = nbuckets s" "tables_ok s' = tables_ok s" "place s' = place s"
    using assms by (auto simp: heads_def nbuckets_def tables_ok_def place_def fun_eq_iff)
  then show ?thesis
    using assms by (simp add: assoc_rep_def placed_def forest_def wf_world_def)
qed

lemma sits_upd:
  "i < n \<Longrightarrow> sits (xss(i := ys)) n k a \<longleftrightarrow> (\<exists>m. (a, m) \<in> set ys \<and> ikey m = k) \<or> (\<exists>j<n. j \<noteq> i \<and> (\<exists>m. (a, m) \<in> set (xss j) \<and> ikey m = k))"
  by (auto simp: sits_def split: if_splits)

lemma placed_upd:
  assumes "placed hash s xss" "nbuckets s' = nbuckets s" "\<And>h. place s' h = place s h"
      and "\<And>x. x \<in> set ys \<Longrightarrow> place s (unat (hash (ikey (snd x)))) = i"
  shows "placed hash s' (xss(i := ys))"
  using assms by (simp add: placed_def)

lemma forest_frame:
  assumes "forest nx hs n s xss F" "F a = Some m"
  shows "a \<noteq> NULL" "cells s a = Some m" "\<And>i. i < n \<Longrightarrow> a \<notin> addrs (xss i)"
proof -
  show out: "a \<notin> addrs (xss i)" if "i < n" for i
    using assms that by (auto simp: forest_def)
  then show c: "cells s a = Some m"
    using assms by (simp add: forest_def)
  show "a \<noteq> NULL"
    using c forest_wf [OF assms(1)] by (metis option.simps(3) wf_world_null)
qed

lemma forest_push:
  assumes "forest h_next hs n s xss F" "i < n" "F a = Some m"
      and "cells s' = (cells s)(a \<mapsto> m\<lparr>h_next := hs i\<rparr>)" "fresh s' = fresh s"
  shows "forest h_next (hs(i := a)) n s' (xss(i := (a, m\<lparr>h_next := hs i\<rparr>) # xss i)) (F(a := None))"
proof (rule forest_update_at [OF assms(1,2)])
  note out = forest_frame [OF assms(1,3)]
  show "a \<notin> addrs (xss j)" if "j < n" "j \<noteq> i" for j
    using out(3) that by simp
  have B: "(beside s (xss i)) a = Some m"
    using out assms(2) by (simp add: restrict_map_def)
  have "owns h_next s' (hs i) (xss i) ((beside s (xss i))(a \<mapsto> m\<lparr>h_next := hs i\<rparr>))"
    by (rule owns_frame_upd [OF forest_owns [OF assms(1,2)] B assms(4,5)])
  from owns_link_front [OF this, of a "m\<lparr>h_next := hs i\<rparr>"]
  show "owns h_next s' a ((a, m\<lparr>h_next := hs i\<rparr>) # xss i) ((beside s (xss i))(a := None))"
    by simp
qed

lemma assoc_insert_run:
  assumes "assoc_rep hash s kv F" "F it = Some n" "kv (ikey n) = None"
  obtains s' where "assoc_insert it (hash (ikey n)) s = Inr (1, s')" "assoc_rep hash s' (kv(ikey n \<mapsto> it)) (F(it := None))"
    "expanding s' = expanding s" "maint s' = maint s" "hashpower s' = hashpower s"
    "started_expanding s \<longrightarrow> started_expanding s' \<and> signalled s' = signalled s"
    "maint s \<noteq> Waiting \<longrightarrow> signalled s' = signalled s"
    "signalled s' \<longrightarrow> signalled s \<or> maint s = Waiting \<and> \<not> expanding s \<and> hashpower s < HASHPOWER_MAX"
    "\<not> expanding s \<and> hashsize (hashpower s) * 3 div 2 < ucast (hash_items s + 1) \<and> hashpower s < HASHPOWER_MAX
       \<longrightarrow> started_expanding s'"
proof -
  obtain xss where r: "tables_ok s" "locks s hash_items_counter_lock = Free" "finite (dom kv)"
    "hash_items s = word_of_nat (card (dom kv))" "forest h_next (heads s) (nbuckets s) s xss F" "placed hash s xss"
    "\<And>k a. kv k = Some a \<longleftrightarrow> sits xss (nbuckets s) k a"
    using assms(1) unfolding assoc_rep_def by blast
  define i where "i = place s (unat (hash (ikey n)))"
  have i: "i < nbuckets s"
    unfolding i_def by (rule place_less [OF r(1)])
  obtain is_old j where pick: "pick (hash (ikey n)) s = (is_old, j)"
      "load_bucket is_old j s = Inr (heads s i, s)"
      "\<And>s' p. primary_hashtable s' = primary_hashtable s \<Longrightarrow> old_hashtable s' = old_hashtable s \<Longrightarrow>
         store_bucket is_old j p s' = Inr ((), put_head i p s')"
    unfolding i_def by (rule pick_place [OF r(1), of "hash (ikey n)"]) blast
  define m where "m = n\<lparr>h_next := heads s i\<rparr>"
  define s1 where "s1 = put_head i it (s\<lparr>cells := (cells s)(it \<mapsto> m)\<rparr>)"
  define s2 where "s2 = s1\<lparr>hash_items := hash_items s + 1\<rparr>"
  have "forest h_next ((heads s)(i := it)) (nbuckets s) s2 (xss(i := (it, m) # xss i)) (F(it := None))"
    unfolding m_def by (rule forest_push [OF r(5) i assms(2)]) (simp_all add: s2_def s1_def m_def)
  moreover have "heads s2 = (heads s)(i := it)"
    using i by (simp add: s2_def s1_def heads_put)
  moreover have geo: "nbuckets s2 = nbuckets s" "place s2 h = place s h" "tables_ok s2" for h
    using r(1) by (auto simp: s2_def s1_def nbuckets_def place_def tables_ok_def)
  moreover have "placed hash s2 (xss(i := (it, m) # xss i))"
    using r(6) geo i by (intro placed_upd [OF r(6)]) (auto simp: placed_def m_def i_def)
  moreover have "(kv(ikey n \<mapsto> it)) k = Some a \<longleftrightarrow> sits (xss(i := (it, m) # xss i)) (nbuckets s) k a" for k a
  proof -
    have "sits (xss(i := (it, m) # xss i)) (nbuckets s) k a \<longleftrightarrow> sits xss (nbuckets s) k a \<or> k = ikey n \<and> a = it"
      using i by (auto simp: sits_upd m_def) (auto simp: sits_def)
    then show ?thesis
      using r(7) [of k a] assms(3) by auto
  qed
  moreover have "hash_items s2 = word_of_nat (card (dom (kv(ikey n \<mapsto> it))))"
    using r(3,4) assms(3) by (simp add: s2_def card_insert_if domIff)
  ultimately have rep: "assoc_rep hash s2 (kv(ikey n \<mapsto> it)) (F(it := None))"
    unfolding assoc_rep_def using r(2,3) by (auto simp: s2_def s1_def)
  define grow where "grow = (\<not> expanding s \<and> hashsize (hashpower s) * 3 div 2 < ucast (hash_items s + 1) \<and> hashpower s < HASHPOWER_MAX)"
  define s3 where "s3 = (if grow \<and> \<not> started_expanding s
    then (if maint s = Waiting then s2\<lparr>started_expanding := True, signalled := True\<rparr> else s2\<lparr>started_expanding := True\<rparr>) else s2)"
  have same: "locks s1 hash_items_counter_lock = Free" "hash_items s1 = hash_items s" "expanding s1 = expanding s"
      "hashpower s1 = hashpower s" "started_expanding s1 = started_expanding s" "maint s1 = maint s" "signalled s1 = signalled s"
    using r(2) by (simp_all add: s1_def)
  have "assoc_insert it (hash (ikey n)) s = Inr (1, s3)"
    using pick forest_frame(1,2) [OF r(5) assms(2)] same
    by (simp add: assoc_insert_def exec_simps assoc_start_expand_def m_def [symmetric] s1_def [symmetric] s3_def s2_def
        grow_def Let_def)
  moreover have "assoc_rep hash s3 (kv(ikey n \<mapsto> it)) (F(it := None))"
    using rep by (subst assoc_rep_cong [of s3 s2]) (simp_all add: s3_def)
  moreover have "expanding s3 = expanding s" "maint s3 = maint s" "hashpower s3 = hashpower s"
      "started_expanding s \<longrightarrow> started_expanding s3 \<and> signalled s3 = signalled s"
      "maint s \<noteq> Waiting \<longrightarrow> signalled s3 = signalled s"
      "signalled s3 \<longrightarrow> signalled s \<or> maint s = Waiting \<and> \<not> expanding s \<and> hashpower s < HASHPOWER_MAX"
      "grow \<longrightarrow> started_expanding s3"
    using same by (simp_all add: s3_def s2_def) (simp add: grow_def)
  ultimately show ?thesis
    using that unfolding grow_def by blast
qed

text \<open>A node leaves a chain of the row for the memory beside it.\<close>

lemma forest_pop:
  assumes "forest h_next hs n s xss F" "i < n" "xss i = (a, m) # ws"
      and "cells s' = (cells s)(a \<mapsto> m')" "fresh s' = fresh s"
  shows "forest h_next (hs(i := h_next m)) n s' (xss(i := ws)) (F(a \<mapsto> m'))"
proof (rule forest_update_at [OF assms(1,2)])
  have o: "owns h_next s (hs i) ((a, m) # ws) (beside s (xss i))"
    using forest_owns [OF assms(1,2)] assms(3) by simp
  show "owns h_next s' (h_next m) ws ((beside s (xss i))(a \<mapsto> m'))"
    using owns_frame_upd [OF owns_unlink_front [OF o], of a m s' "Some m'"] assms(4,5) by simp
  show "a \<notin> addrs (xss j)" if "j < n" "j \<noteq> i" for j
  proof -
    have "addrs (xss i) \<inter> addrs (xss j) = {}"
      using assms(1,2) that by (simp add: forest_def)
    then show ?thesis
      using assms(3) by auto
  qed
qed

lemma forest_remove_after:
  assumes "forest h_next hs n s xss F" "i < n" "xss i = us @ (b, l) # (a, m) # ws"
      and "cells s' = (cells s)(b \<mapsto> l\<lparr>h_next := h_next m\<rparr>, a \<mapsto> m')" "fresh s' = fresh s"
  shows "forest h_next hs n s' (xss(i := us @ (b, l\<lparr>h_next := h_next m\<rparr>) # ws)) (F(a \<mapsto> m'))"
proof -
  let ?s = "s\<lparr>cells := (cells s)(b \<mapsto> l\<lparr>h_next := h_next m\<rparr>)\<rparr>"
  have o: "owns h_next s (hs i) (us @ (b, l) # (a, m) # ws) (beside s (xss i))"
    using forest_owns [OF assms(1,2)] assms(3) by simp
  have "owns h_next ?s (hs i) (us @ (b, l\<lparr>h_next := h_next m\<rparr>) # ws) ((beside s (xss i))(a \<mapsto> m))"
    by (rule aitem.owns_unlink_after [OF o]) simp_all
  from owns_frame_upd [OF this, of a m s' "Some m'"]
  have "owns h_next s' (hs i) (us @ (b, l\<lparr>h_next := h_next m\<rparr>) # ws) ((beside s (xss i))(a \<mapsto> m'))"
    using assms(4,5) by simp
  moreover have "a \<notin> addrs (xss j)" if "j < n" "j \<noteq> i" for j
  proof -
    have "addrs (xss i) \<inter> addrs (xss j) = {}"
      using assms(1,2) that by (simp add: forest_def)
    then show ?thesis
      using assms(3) by auto
  qed
  ultimately have "forest h_next (hs(i := hs i)) n s' (xss(i := us @ (b, l\<lparr>h_next := h_next m\<rparr>) # ws)) (F(a \<mapsto> m'))"
    using assms(1,2) by (intro forest_update_at)
  then show ?thesis
    by simp
qed

text \<open>Taking the item of a key out of its chain takes the key out of the map.\<close>

abbreviation keyed :: "(ptr \<times> aitem) list \<Rightarrow> (ptr \<times> 8 word list) list" where
  "keyed xs \<equiv> map (\<lambda>x. (fst x, ikey (snd x))) xs"

lemma sits_keyed: "sits xss n k a \<longleftrightarrow> (\<exists>i<n. (a, k) \<in> set (keyed (xss i)))"
  by (force simp: sits_def)

lemma keyed_addrs: "(a, k) \<in> set (keyed xs) \<Longrightarrow> a \<in> addrs xs"
  by (auto simp: addrs_def)

lemma sits_remove:
  assumes "forest h_next hs n s xss F" "i < n" "xss i = us @ (a, m) # ws"
      and "\<And>k a. kv k = Some a \<longleftrightarrow> sits xss n k a" "keyed ys = keyed (us @ ws)"
  shows "(kv(ikey m := None)) k = Some b \<longleftrightarrow> sits (xss(i := ys)) n k b"
proof
  assume "(kv(ikey m := None)) k = Some b"
  then have k: "k \<noteq> ikey m" "sits xss n k b"
    using assms(4) [of k b] by (auto split: if_splits)
  then obtain j where j: "j < n" "(b, k) \<in> set (keyed (xss j))"
    by (auto simp: sits_keyed)
  then have "(b, k) \<in> set (keyed ((xss(i := ys)) j))"
    using k(1) assms(3,5) by (cases "j = i") auto
  then show "sits (xss(i := ys)) n k b"
    using j(1) unfolding sits_keyed by blast
next
  assume "sits (xss(i := ys)) n k b"
  then obtain j where j: "j < n" "(b, k) \<in> set (keyed ((xss(i := ys)) j))"
    unfolding sits_keyed by blast
  then have in_j: "(b, k) \<in> set (keyed (xss j))"
    using assms(3,5) by (cases "j = i") auto
  then have kv: "kv k = Some b"
    using assms(4) j(1) unfolding sits_keyed by blast
  have "kv (ikey m) = Some a"
    unfolding assms(4) sits_keyed using assms(2,3) by (intro exI [of _ i]) simp
  have "b \<noteq> a"
  proof (cases "j = i")
    case True
    have "distinct (map fst (us @ (a, m) # ws))"
      using chain_distinct [OF owns_chain [OF forest_owns [OF assms(1,2)]]] assms(3) by simp
    moreover have "b \<in> addrs (us @ ws)"
      using j(2) True assms(5) keyed_addrs [of b k "us @ ws"] by simp
    ultimately show ?thesis
      by (auto simp: addrs_def)
  next
    case False
    have "addrs (xss i) \<inter> addrs (xss j) = {}"
      using assms(1,2) j(1) False by (simp add: forest_def)
    then show ?thesis
      using keyed_addrs [OF in_j] assms(3) by auto
  qed
  then show "(kv(ikey m := None)) k = Some b"
    using kv \<open>kv (ikey m) = Some a\<close> by auto
qed

lemma card_dom_remove:
  assumes "finite (dom kv)" "kv k = Some a"
  shows "word_of_nat (card (dom kv)) - 1 = (word_of_nat (card (dom (kv(k := None)))) :: 32 word)"
proof -
  have "card (dom kv) = Suc (card (dom kv - {k}))"
    using assms by (intro card.remove) auto
  then show ?thesis
    by simp
qed

lemma before_load:
  assumes "assoc_rep hash s kv F"
  obtains (absent) r where "kv k = None" "hashitem_before k (hash k) s = Inr (r, s)"
    | (found) r xss us a m ws where "kv k = Some a" "hashitem_before k (hash k) s = Inr (r, s)" "load r s = Inr (a, s)"
      "forest h_next (heads s) (nbuckets s) s xss F" "placed hash s xss"
      "\<And>k a. kv k = Some a \<longleftrightarrow> sits xss (nbuckets s) k a"
      "xss (place s (unat (hash k))) = us @ (a, m) # ws" "ikey m = k" "a \<noteq> NULL" "cells s a = Some m"
      "us = [] \<Longrightarrow> (\<And>s' p. primary_hashtable s' = primary_hashtable s \<Longrightarrow> old_hashtable s' = old_hashtable s \<Longrightarrow>
         store r p s' = Inr ((), put_head (place s (unat (hash k))) p s'))"
      "us \<noteq> [] \<Longrightarrow> r = NextOf (fst (last us))"
  using assms
proof (cases rule: assoc_search [where k = k])
  case (absent is_old i)
  then obtain q where "walk_list h_next (\<lambda>n. ikey n = k) (heads s (place s (unat (hash k)))) s = Inr ((q, NULL), s)"
    by blast
  then show ?thesis
    using that(1) absent(1-3) by (simp add: hashitem_before_def exec_simps)
next
  case (found is_old i xss us a m ws)
  define r where "r = (if last_ptr NULL us = NULL then Bucket is_old i else NextOf (last_ptr NULL us))"
  have pl: "place s (unat (hash k)) < nbuckets s"
    using assms by (intro place_less) (simp add: assoc_rep_def)
  have "hashitem_before k (hash k) s = Inr (r, s)"
    using found(2,3,5) by (simp add: hashitem_before_def exec_simps r_def)
  moreover have "load r s = Inr (a, s)" "us \<noteq> [] \<Longrightarrow> r = NextOf (fst (last us))"
    "us = [] \<Longrightarrow> r = Bucket is_old i"
  proof -
    note o = owns_chain [OF forest_owns [OF found(6) pl], unfolded found(9)]
    show u: "us = [] \<Longrightarrow> r = Bucket is_old i"
      by (simp add: r_def)
    have l: "last_ptr NULL us = fst (last us) \<and> fst (last us) \<noteq> NULL \<and> cells s (fst (last us)) = Some (snd (last us))
        \<and> h_next (snd (last us)) = a" if "us \<noteq> []"
    proof -
      have "us = butlast us @ [last us]"
        using that by simp
      then obtain vs x where us: "us = vs @ [x]"
        by blast
      then show ?thesis
        using o by (auto simp: last_ptr_def)
    qed
    then show "us \<noteq> [] \<Longrightarrow> r = NextOf (fst (last us))"
      by (simp add: r_def)
    show "load r s = Inr (a, s)"
    proof (cases "us = []")
      case True
      then have "heads s (place s (unat (hash k))) = a"
        using o by simp
      then show ?thesis
        using True found(3) by (simp add: r_def load_def)
    next
      case False
      then show ?thesis
        using l by (simp add: r_def load_def exec_simps)
    qed
  qed
  ultimately show ?thesis
    using that(2) [of a r xss us m ws] found by (simp add: store_def)
qed

lemma assoc_delete_run:
  assumes "assoc_rep hash s kv F" "kv k = Some a"
  obtains s' m where "assoc_delete k (hash k) s = Inr ((), s')" "cells s a = Some m" "ikey m = k"
    "assoc_rep hash s' (kv(k := None)) (F(a \<mapsto> m\<lparr>h_next := NULL\<rparr>))"
    "expanding s' = expanding s" "maint s' = maint s" "started_expanding s' = started_expanding s" "signalled s' = signalled s"
    "hashpower s' = hashpower s"
  using assms(1)
proof (cases rule: before_load [where k = k])
  case absent
  then show ?thesis
    using assms(2) by simp
next
  case (found r xss us b m ws)
  have b: "b = a"
    using found(1) assms(2) by simp
  note r = assms(1) [unfolded assoc_rep_def]
  let ?i = "place s (unat (hash k))"
  let ?m = "m\<lparr>h_next := NULL\<rparr>"
  let ?c = "(cells s)(a \<mapsto> ?m)"
  have i: "?i < nbuckets s"
    using r by (intro place_less) simp
  have lock: "locks s hash_items_counter_lock = Free"
    using r by simp
  define s1 where "s1 = s\<lparr>hash_items := hash_items s - 1, cells := ?c\<rparr>"
  have run: "assoc_delete k (hash k) s = store r (h_next m) s1"
    using found(2,3,9,10) lock by (simp add: assoc_delete_def exec_simps b s1_def)
  have items: "hash_items s - 1 = word_of_nat (card (dom (kv(k := None))))"
    using r assms(2) by (simp only: card_dom_remove)
  have rep: "assoc_rep hash s' (kv(k := None)) (F(a \<mapsto> ?m))"
    if "forest h_next (heads s') (nbuckets s) s' (xss(?i := ys)) (F(a \<mapsto> ?m))" "keyed ys = keyed (us @ ws)"
       "nbuckets s' = nbuckets s" "\<And>h. place s' h = place s h" "tables_ok s'" "locks s' = locks s" "hash_items s' = hash_items s - 1"
     for s' ys
  proof -
    have "ikey ` snd ` set ys = snd ` set (keyed ys)"
      by force
    also have "\<dots> \<subseteq> ikey ` snd ` set (xss ?i)"
      using that(2) found(7) by force
    finally have "placed hash s' (xss(?i := ys))"
      using found(5) i that(3,4) by (intro placed_upd [OF found(5)]) (fastforce simp: placed_def)+
    moreover have "(kv(k := None)) k' = Some a' \<longleftrightarrow> sits (xss(?i := ys)) (nbuckets s) k' a'" for k' a'
      using sits_remove [OF found(4) i found(7,6) that(2)] found(8) by simp
    ultimately show ?thesis
      unfolding assoc_rep_def using that r items by auto
  qed
  show ?thesis
  proof (cases us rule: rev_cases)
    case Nil
    let ?s = "put_head ?i (h_next m) s1"
    have "forest h_next ((heads s)(?i := h_next m)) (nbuckets s) ?s (xss(?i := ws)) (F(a \<mapsto> ?m))"
      using found(7) Nil by (intro forest_pop [OF found(4) i]) (simp_all add: b s1_def)
    moreover have "heads ?s = (heads s)(?i := h_next m)"
      using i by (simp add: heads_put s1_def)
    ultimately have "assoc_rep hash ?s (kv(k := None)) (F(a \<mapsto> ?m))"
      using Nil r by (intro rep) (simp_all add: s1_def)
    moreover have "assoc_delete k (hash k) s = Inr ((), ?s)"
      using found(11) [OF Nil, of s1 "h_next m"] unfolding run by (simp add: s1_def)
    ultimately show ?thesis
      using that [of ?s m] found(8,10) b by (simp add: s1_def)
  next
    case (snoc vs x)
    obtain c l where x: "x = (c, l)"
      by fastforce
    have ch: "xss ?i = vs @ (c, l) # (a, m) # ws"
      using found(7) snoc x b by simp
    have c: "c \<noteq> NULL" "cells s c = Some l" "c \<noteq> a"
      using chain_distinct [OF owns_chain [OF forest_owns [OF found(4) i]]] forest_mem [OF found(4) i ch] ch by auto
    let ?s = "s1\<lparr>cells := ?c(c \<mapsto> l\<lparr>h_next := h_next m\<rparr>)\<rparr>"
    have "forest h_next (heads s) (nbuckets s) ?s (xss(?i := vs @ (c, l\<lparr>h_next := h_next m\<rparr>) # ws)) (F(a \<mapsto> ?m))"
      using c by (intro forest_remove_after [OF found(4) i ch]) (simp_all add: s1_def fun_upd_twist)
    then have "assoc_rep hash ?s (kv(k := None)) (F(a \<mapsto> ?m))"
      using r snoc x by (intro rep [where ys = "vs @ (c, l\<lparr>h_next := h_next m\<rparr>) # ws"]) (simp_all add: s1_def)
    moreover have "assoc_delete k (hash k) s = Inr ((), ?s)"
      using found(12) snoc x c unfolding run by (simp add: s1_def store_def exec_simps)
    ultimately show ?thesis
      using that [of ?s m] found(8,10) b by (simp add: s1_def)
  qed
qed

section \<open>Expansion\<close>

lemma forest_shift:
  assumes "forest nx hs n s xss F"
  shows "forest nx (\<lambda>i. if i < N then NULL else hs (i - N)) (N + n) s (\<lambda>i. if i < N then [] else xss (i - N)) F"
proof -
  have ex: "(\<forall>i<N + n. q \<notin> addrs (if i < N then [] else xss (i - N))) \<Longrightarrow> (\<forall>i<n. q \<notin> addrs (xss i))" for q
    by (metis add_diff_cancel_left' add_less_cancel_left not_add_less1)
  have lt: "i - N < n" if "\<not> i < N" "i < N + n" for i
    using that by simp
  have none: "F q = None" if "i < N + n" "q \<in> addrs (if i < N then [] else xss (i - N))" for i q
    using assms that lt [of i] unfolding forest_def by (metis addrs_simps(1) empty_iff)
  show ?thesis
    using assms ex lt none unfolding forest_def by (auto split: if_splits)
qed

lemma forest_restrict:
  assumes "forest nx hs n s xss F" "n' \<le> n" "\<And>i. n' \<le> i \<Longrightarrow> i < n \<Longrightarrow> xss i = []"
  shows "forest nx hs n' s xss F"
proof -
  have "\<forall>i<n. q \<notin> addrs (xss i)" if "\<forall>i<n'. q \<notin> addrs (xss i)" for q
    using that assms(3) by (metis addrs_simps(1) empty_iff not_less)
  moreover have "F q = None" if "i < n'" "q \<in> addrs (xss i)" for i q
    using assms(1,2) that unfolding forest_def by (metis less_le_trans)
  ultimately show ?thesis
    using assms(1,2) unfolding forest_def by auto
qed

lemma placed_keyed: "placed hash s xss \<longleftrightarrow> (\<forall>i<nbuckets s. \<forall>x\<in>set (keyed (xss i)). place s (unat (hash (snd x))) = i)"
  by (force simp: placed_def)

lemma assoc_expand_run:
  assumes "assoc_rep hash s kv F" "\<not> expanding s" "hashpower s < 32"
  shows "\<exists>s'. assoc_expand ok s = Inr ((), s') \<and> assoc_rep hash s' kv F \<and> maint s' = maint s \<and> signalled s' = signalled s
           \<and> started_expanding s' = started_expanding s \<and> expanding s' = ok \<and> hashpower s' = (if ok then hashpower s + 1 else hashpower s)
           \<and> (ok \<longrightarrow> expand_bucket s' = 0)"
proof -
  obtain xss where r: "tables_ok s" "locks s hash_items_counter_lock = Free" "finite (dom kv)"
    "hash_items s = word_of_nat (card (dom kv))" "forest h_next (heads s) (nbuckets s) s xss F" "placed hash s xss"
    "\<And>k a. kv k = Some a \<longleftrightarrow> sits xss (nbuckets s) k a"
    using assms(1) unfolding assoc_rep_def by blast
  obtain s' where s': "assoc_expand ok s = Inr ((), s')"
    by (simp add: assoc_expand_def modify_def)
  note def = s' [unfolded assoc_expand_def modify_def Let_def, simplified]
  have n: "nbuckets s = 2 ^ hashpower s" "length (primary_hashtable s) = 2 ^ hashpower s"
    using r(1) assms(2) by (simp_all add: nbuckets_def tables_ok_def)
  show ?thesis
  proof (cases ok)
    case False
    then have [simp]: "s' = s\<lparr>old_hashtable := primary_hashtable s\<rparr>"
      using def by simp
    have "forest h_next (heads s') (nbuckets s) s' xss F"
      using r(5) n by (subst forest_hd_cong [of _ _ "heads s"]) (simp_all add: heads_def forest_def wf_world_def)
    then have "assoc_rep hash s' kv F"
      unfolding assoc_rep_def using r assms(2) by (intro conjI exI [of _ xss]) (auto simp: tables_ok_def nbuckets_def placed_def place_def)
    then show ?thesis
      using s' False assms(2) by simp
  next
    case True
    let ?N = "2 ^ (hashpower s + 1) :: nat"
    let ?xss = "\<lambda>i. if i < ?N then [] else xss (i - ?N)"
    have sz: "unat (hashsize (hashpower s + 1)) = ?N"
      using assms(3) by (intro hashsize_unat) simp
    have fields: "primary_hashtable s' = replicate ?N NULL" "old_hashtable s' = primary_hashtable s"
        "hashpower s' = hashpower s + 1" "expanding s'" "expand_bucket s' = 0" "cells s' = cells s" "fresh s' = fresh s"
        "locks s' = locks s" "hash_items s' = hash_items s" "maint s' = maint s" "signalled s' = signalled s"
        "started_expanding s' = started_expanding s"
      using def True sz by auto
    have n': "nbuckets s' = ?N + nbuckets s"
      using n by (simp add: nbuckets_def fields(1-5))
    have "heads s' i = (if i < ?N then NULL else heads s (i - ?N))" if "i < ?N + nbuckets s" for i
      using that n by (auto simp: heads_def fields(1,2))
    then have "forest h_next (heads s') (nbuckets s') s ?xss F"
      unfolding n' using forest_shift [OF r(5), of ?N]
      by (subst forest_hd_cong [of _ _ "\<lambda>i. if i < ?N then NULL else heads s (i - ?N)"])
    then have "forest h_next (heads s') (nbuckets s') s' ?xss F"
      using fields(6,7) by (simp add: forest_def wf_world_def)
    moreover have "placed hash s' ?xss"
      unfolding placed_def
    proof (intro allI impI ballI)
      fix i x assume i: "i < nbuckets s'" "x \<in> set (if i < ?N then [] else xss (i - ?N))"
      then have "\<not> i < ?N" "x \<in> set (xss (i - ?N))" "i - ?N < nbuckets s"
        using n' by (auto split: if_splits)
      then have "place s (unat (hash (ikey (snd x)))) = i - ?N"
        using r(6) by (simp add: placed_def)
      then show "place s' (unat (hash (ikey (snd x)))) = i"
        using assms(2) \<open>\<not> i < ?N\<close> by (simp add: place_def fields(1-5))
    qed
    moreover have "sits ?xss (nbuckets s') k a \<longleftrightarrow> sits xss (nbuckets s) k a" for k a
    proof
      assume "sits xss (nbuckets s) k a"
      then obtain i m where "i < nbuckets s" "(a, m) \<in> set (xss i)" "ikey m = k"
        by (auto simp: sits_def)
      then show "sits ?xss (nbuckets s') k a"
        unfolding sits_def n' by (intro exI [of _ "?N + i"]) auto
    next
      assume "sits ?xss (nbuckets s') k a"
      then show "sits xss (nbuckets s) k a"
        unfolding sits_def n' by (force split: if_splits)
    qed
    moreover have "tables_ok s'"
      using n assms(3) by (simp add: tables_ok_def fields(1-5))
    ultimately have "assoc_rep hash s' kv F"
      unfolding assoc_rep_def using r fields(8,9) by (intro conjI exI [of _ ?xss]) auto
    then show ?thesis
      using s' fields True by simp
  qed
qed

end
