(* ===== verification/AssocOps.thy ===== *)
theory AssocOps
  imports Assoc
begin

text \<open>
  The memcached hash table under expansion: moving a bucket, and the interleavings of workers and
  maintenance thread.
\<close>

section \<open>Moving a bucket\<close>

definition same_rest :: "assoc \<Rightarrow> assoc \<Rightarrow> bool" where
  "same_rest s s' \<longleftrightarrow> length (primary_hashtable s') = length (primary_hashtable s) \<and> old_hashtable s' = old_hashtable s
     \<and> hashpower s' = hashpower s \<and> expanding s' = expanding s \<and> expand_bucket s' = expand_bucket s \<and> fresh s' = fresh s
     \<and> locks s' = locks s \<and> hash_items s' = hash_items s \<and> started_expanding s' = started_expanding s
     \<and> maint s' = maint s \<and> signalled s' = signalled s"

lemma same_rest_trans: "same_rest s s1 \<Longrightarrow> same_rest s1 s2 \<Longrightarrow> same_rest s s2"
  by (simp add: same_rest_def)

lemma same_rest_geometry:
  "same_rest s s' \<Longrightarrow> nbuckets s' = nbuckets s \<and> tables_ok s' = tables_ok s"
  by (auto simp: same_rest_def nbuckets_def tables_ok_def)

lemma move_loop_run:
  assumes "tables_ok s" "expanding s" "i = length (primary_hashtable s) + e" "e < length (old_hashtable s)"
      and "forest h_next ((heads s)(i := it)) (nbuckets s) s xss F" "length (xss i) < k"
  shows "\<exists>s' xss'. move_loop hash k it s = Inr ((), s') \<and> same_rest s s'
           \<and> forest h_next ((heads s')(i := NULL)) (nbuckets s) s' xss' F \<and> xss' i = []
           \<and> (\<forall>j. j \<noteq> i \<longrightarrow> set (keyed (xss' j)) =
                 set (keyed (xss j)) \<union> {x \<in> set (keyed (xss i)). unat (hash (snd x)) mod 2 ^ hashpower s = j})"
  using assms
proof (induction "xss i" arbitrary: s it xss k)
  case Nil
  have "it = NULL"
    using forest_owns [OF Nil.prems(5), of i] Nil.hyps Nil.prems(2-4) by (simp add: nbuckets_def)
  moreover obtain k' where "k = Suc k'"
    using Nil.prems(6) by (cases k) auto
  ultimately show ?case
    using Nil.hyps Nil.prems(5) by (intro exI [of _ s] exI [of _ xss]) (auto simp: ret_def same_rest_def)
next
  case (Cons x ws)
  obtain a m where x: "x = (a, m)"
    by fastforce
  have i: "i < nbuckets s"
    using Cons.prems(2-4) by (simp add: nbuckets_def)
  have ch: "xss i = (a, m) # ws"
    using Cons.hyps(2) x by simp
  have a: "it = a" "a \<noteq> NULL" "cells s a = Some m"
    using owns_Cons [of h_next s it "(a, m)" ws] forest_owns [OF Cons.prems(5) i] ch by auto
  obtain k' where k': "k = Suc k'"
    using Cons.prems(6) by (cases k) auto
  define j where "j = unat (hash (ikey m)) mod 2 ^ hashpower s"
  have "j < length (primary_hashtable s)"
    using Cons.prems(1) by (simp add: j_def tables_ok_def)
  then have j: "j < length (primary_hashtable s)" "j < nbuckets s" "j \<noteq> i"
    using Cons.prems(3) by (simp_all add: nbuckets_def)
  have bucket: "unat (ucast (hash (ikey m)) AND hashmask (hashpower s)) = j"
    unfolding j_def using Cons.prems(1) by (intro hashmask_unat) (simp add: tables_ok_def)
  define m' where "m' = m\<lparr>h_next := heads s j\<rparr>"
  define s1 where "s1 = put_head j a (s\<lparr>cells := (cells s)(a \<mapsto> m')\<rparr>)"
  define xss1 where "xss1 = xss(i := ws, j := (a, m') # xss j)"
  have Fa: "F a = None"
    using Cons.prems(5) i ch by (auto simp: forest_def)
  have pop: "forest h_next (((heads s)(i := it))(i := h_next m)) (nbuckets s) s (xss(i := ws)) (F(a \<mapsto> m))"
    by (rule forest_pop [OF Cons.prems(5) i ch]) (use a in \<open>simp_all add: fun_upd_idem\<close>)
  have "forest h_next ((((heads s)(i := it))(i := h_next m))(j := a)) (nbuckets s) s1
      ((xss(i := ws))(j := (a, m') # (xss(i := ws)) j)) ((F(a \<mapsto> m))(a := None))"
    using j(3) forest_push [OF pop j(2), of a m s1] by (simp add: s1_def m'_def)
  then have f1: "forest h_next ((heads s1)(i := h_next m)) (nbuckets s1) s1 xss1 F"
    using j Fa by (simp add: s1_def xss1_def heads_put fun_upd_twist [of i j] fun_upd_idem)
  have rest1: "same_rest s s1"
    by (simp add: s1_def same_rest_def put_head_def j(1))
  have step: "move_loop hash k it s = move_loop hash k' (h_next m) s1"
    using a j(1) by (simp add: k' exec_simps bucket load_bucket_def store_bucket_def s1_def put_head_def m'_def heads_def)
  have "\<exists>s' xss'. move_loop hash k' (h_next m) s1 = Inr ((), s') \<and> same_rest s1 s'
           \<and> forest h_next ((heads s')(i := NULL)) (nbuckets s1) s' xss' F \<and> xss' i = []
           \<and> (\<forall>l. l \<noteq> i \<longrightarrow> set (keyed (xss' l)) =
                 set (keyed (xss1 l)) \<union> {x \<in> set (keyed (xss1 i)). unat (hash (snd x)) mod 2 ^ hashpower s1 = l})"
  proof (rule Cons.hyps(1))
    show "ws = xss1 i" "length (xss1 i) < k'"
      using j(3) ch Cons.prems(6) k' by (simp_all add: xss1_def)
  qed (use Cons.prems rest1 f1 same_rest_geometry [OF rest1] in \<open>simp_all add: same_rest_def\<close>)
  then obtain s' xss' where s': "move_loop hash k it s = Inr ((), s')" "same_rest s1 s'"
      "forest h_next ((heads s')(i := NULL)) (nbuckets s) s' xss' F" "xss' i = []"
      "\<And>l. l \<noteq> i \<Longrightarrow> set (keyed (xss' l)) =
                 set (keyed (xss1 l)) \<union> {x \<in> set (keyed (xss1 i)). unat (hash (snd x)) mod 2 ^ hashpower s1 = l}"
    unfolding step using same_rest_geometry [OF rest1] by auto
  have "set (keyed (xss' l)) = set (keyed (xss l)) \<union> {x \<in> set (keyed (xss i)). unat (hash (snd x)) mod 2 ^ hashpower s = l}"
    if "l \<noteq> i" for l
    unfolding s'(5) [OF that] using that j(3) by (auto simp: xss1_def ch m'_def j_def s1_def)
  then show ?case
    using s' same_rest_trans [OF rest1 s'(2)] by blast
qed

lemma expand_done_iff:
  assumes "tables_ok s" "expanding s"
  shows "ucast (expand_bucket s + 1) = hashsize (hashpower s - 1) \<longleftrightarrow> unat (expand_bucket s) + 1 = 2 ^ (hashpower s - 1)"
    and "unat (expand_bucket s + 1) = unat (expand_bucket s) + 1"
proof -
  note ok = assms(1) [unfolded tables_ok_def]
  have "(2 :: nat) ^ (hashpower s - 1) \<le> 2 ^ 31"
    using ok by (intro power_increasing) linarith+
  then have lt: "unat (expand_bucket s) + 1 < 2 ^ 32"
    using ok assms(2) by simp
  then show u: "unat (expand_bucket s + 1) = unat (expand_bucket s) + 1"
    by (simp add: unat_word_ariths(1))
  have "unat (ucast (expand_bucket s + 1) :: 64 word) = unat (expand_bucket s + 1)"
    using lt by (simp add: unsigned_ucast_eq u take_bit_nat_eq_self)
  moreover have "unat (hashsize (hashpower s - 1)) = 2 ^ (hashpower s - 1)"
    using ok by (intro hashsize_unat) linarith
  ultimately show "ucast (expand_bucket s + 1) = hashsize (hashpower s - 1) \<longleftrightarrow> unat (expand_bucket s) + 1 = 2 ^ (hashpower s - 1)"
    by (metis u unsigned_word_eqI)
qed

text \<open>The buckets of the old table below the cursor are empty.\<close>

lemma place_cases:
  assumes "tables_ok s" "expanding s"
  obtains "place s h = h mod 2 ^ hashpower s" "place s h < length (primary_hashtable s)"
      "h mod 2 ^ (hashpower s - 1) < unat (expand_bucket s)"
    | "place s h = length (primary_hashtable s) + h mod 2 ^ (hashpower s - 1)"
      "unat (expand_bucket s) \<le> h mod 2 ^ (hashpower s - 1)"
  using assms by (cases "unat (expand_bucket s) \<le> h mod 2 ^ (hashpower s - 1)") (auto simp: place_def tables_ok_def)

text \<open>\<open>moved\<close>: the items of the bucket under the cursor have been distributed over the primary
  table.\<close>

definition moved :: "(8 word list \<Rightarrow> 32 word) \<Rightarrow> assoc \<Rightarrow> nat \<Rightarrow> (nat \<Rightarrow> (ptr \<times> aitem) list) \<Rightarrow> (nat \<Rightarrow> (ptr \<times> aitem) list) \<Rightarrow> bool" where
  "moved hash s i xss xss1 \<longleftrightarrow> xss1 i = [] \<and> (\<forall>j. j \<noteq> i \<longrightarrow> set (keyed (xss1 j)) =
     set (keyed (xss j)) \<union> {x \<in> set (keyed (xss i)). unat (hash (snd x)) mod 2 ^ hashpower s = j})"

lemma moved_place:
  assumes "moved hash s (length (primary_hashtable s) + unat (expand_bucket s)) xss xss1" "placed hash s xss"
      and "tables_ok s" "expanding s" "j < nbuckets s" "x \<in> set (keyed (xss1 j))"
  shows "j < length (primary_hashtable s) \<and> unat (hash (snd x)) mod 2 ^ hashpower s = j
           \<and> unat (hash (snd x)) mod 2 ^ (hashpower s - 1) \<le> unat (expand_bucket s)
       \<or> j = length (primary_hashtable s) + unat (hash (snd x)) mod 2 ^ (hashpower s - 1)
           \<and> unat (expand_bucket s) < unat (hash (snd x)) mod 2 ^ (hashpower s - 1)"
proof -
  let ?h = "unat (hash (snd x))"
  let ?i = "length (primary_hashtable s) + unat (expand_bucket s)"
  have "j \<noteq> ?i"
    using assms(1,6) by (auto simp: moved_def)
  then consider "x \<in> set (keyed (xss j))" | "x \<in> set (keyed (xss ?i))" "?h mod 2 ^ hashpower s = j"
    using assms(1,6) by (auto simp: moved_def)
  then show ?thesis
  proof cases
    case 1
    then have "place s ?h = j"
      using assms(2,5) unfolding placed_keyed by blast
    then show ?thesis
      using \<open>j \<noteq> ?i\<close> by (cases rule: place_cases [OF assms(3,4), where h = ?h]) auto
  next
    case 2
    have "?i < nbuckets s"
      using assms(3,4) by (simp add: nbuckets_def tables_ok_def)
    then have "place s ?h = ?i"
      using 2(1) assms(2) unfolding placed_keyed by blast
    then have "?h mod 2 ^ (hashpower s - 1) = unat (expand_bucket s)"
      by (cases rule: place_cases [OF assms(3,4), where h = ?h]) auto
    moreover have "j < length (primary_hashtable s)"
      using 2(2) assms(3) by (auto simp: tables_ok_def)
    ultimately show ?thesis
      using 2(2) by simp
  qed
qed

lemma moved_sits:
  assumes "moved hash s i xss xss1" "tables_ok s" "length (primary_hashtable s) \<le> i" "i < nbuckets s"
  shows "sits xss1 (nbuckets s) k a \<longleftrightarrow> sits xss (nbuckets s) k a"
proof
  assume "sits xss1 (nbuckets s) k a"
  then obtain j where j: "j < nbuckets s" "(a, k) \<in> set (keyed (xss1 j))"
    unfolding sits_keyed by blast
  then have "j \<noteq> i"
    using assms(1) by (auto simp: moved_def)
  then have "(a, k) \<in> set (keyed (xss j)) \<or> (a, k) \<in> set (keyed (xss i))"
    using assms(1) j(2) by (auto simp: moved_def)
  then show "sits xss (nbuckets s) k a"
    using j(1) assms(4) unfolding sits_keyed by blast
next
  assume "sits xss (nbuckets s) k a"
  then obtain j where j: "j < nbuckets s" "(a, k) \<in> set (keyed (xss j))"
    unfolding sits_keyed by blast
  let ?l = "unat (hash k) mod 2 ^ hashpower s"
  have l: "?l < length (primary_hashtable s)"
    using assms(2) by (simp add: tables_ok_def)
  have "(a, k) \<in> set (keyed (xss1 (if j = i then ?l else j)))"
    using j(2) l assms(1,3) by (auto simp: moved_def)
  moreover have "(if j = i then ?l else j) < nbuckets s"
    using j(1) l by (simp add: nbuckets_def)
  ultimately show "sits xss1 (nbuckets s) k a"
    unfolding sits_keyed by blast
qed

text \<open>What the table stands for after the cursor has moved on, for the last bucket and for the others.\<close>

lemma moved_last:
  assumes "moved hash s (length (primary_hashtable s) + unat (expand_bucket s)) xss xss1" "placed hash s xss"
      and "tables_ok s" "expanding s" "unat (expand_bucket s) + 1 = 2 ^ (hashpower s - 1)"
      and "forest h_next (heads s2) (nbuckets s) s2 xss1 F" "length (primary_hashtable s2) = length (primary_hashtable s)"
      and "primary_hashtable s3 = primary_hashtable s2" "cells s3 = cells s2" "fresh s3 = fresh s2"
      and "hashpower s3 = hashpower s" "\<not> expanding s3"
  shows "forest h_next (heads s3) (nbuckets s3) s3 xss1 F" "placed hash s3 xss1" "tables_ok s3"
    "sits xss1 (nbuckets s3) k a = sits xss1 (nbuckets s) k a"
proof -
  note place = moved_place [OF assms(1-4)]
  let ?P = "length (primary_hashtable s)"
  have n3: "nbuckets s3 = ?P"
    using assms(7,8,12) by (simp add: nbuckets_def)
  have nil: "xss1 j = []" if "?P \<le> j" "j < nbuckets s" for j
  proof (rule ccontr)
    assume "xss1 j \<noteq> []"
    then obtain x where "x \<in> set (keyed (xss1 j))"
      by (cases "xss1 j") auto
    then have "unat (expand_bucket s) < unat (hash (snd x)) mod 2 ^ (hashpower s - 1)"
      using place [of j x] that by auto
    moreover have "unat (hash (snd x)) mod 2 ^ (hashpower s - 1) < 2 ^ (hashpower s - 1)"
      by simp
    ultimately show False
      using assms(5) by linarith
  qed
  have "forest h_next (heads s2) ?P s2 xss1 F"
    by (rule forest_restrict [OF assms(6)]) (use nil in \<open>auto simp: nbuckets_def\<close>)
  moreover have "heads s3 j = heads s2 j" if "j < ?P" for j
    using that assms(7,8) by (simp add: heads_def)
  ultimately show "forest h_next (heads s3) (nbuckets s3) s3 xss1 F"
    unfolding n3 using forest_hd_cong [of ?P "heads s3" "heads s2"] assms(9,10) by (simp add: forest_def wf_world_def)
  show "placed hash s3 xss1"
    unfolding placed_keyed n3
  proof (intro allI impI ballI)
    fix j x assume j: "j < ?P" "x \<in> set (keyed (xss1 j))"
    then have "unat (hash (snd x)) mod 2 ^ hashpower s = j"
      using place [of j x] by (auto simp: nbuckets_def)
    then show "place s3 (unat (hash (snd x))) = j"
      using assms(11,12) by (simp add: place_def)
  qed
  have "j < ?P" if "j < nbuckets s" "(a, k) \<in> set (keyed (xss1 j))" for j
    using that nil [of j] by (cases "?P \<le> j") auto
  moreover have "?P \<le> nbuckets s"
    by (simp add: nbuckets_def)
  ultimately show "sits xss1 (nbuckets s3) k a = sits xss1 (nbuckets s) k a"
    unfolding n3 sits_keyed by (meson less_le_trans)
  show "tables_ok s3"
    using assms(3,7,8,11,12) by (simp add: tables_ok_def)
qed

lemma moved_next:
  assumes "moved hash s (length (primary_hashtable s) + unat (expand_bucket s)) xss xss1" "placed hash s xss"
      and "tables_ok s" "expanding s" "unat (expand_bucket s) + 1 \<noteq> 2 ^ (hashpower s - 1)"
      and "length (primary_hashtable s2) = length (primary_hashtable s)" "length (old_hashtable s2) = length (old_hashtable s)"
      and "hashpower s2 = hashpower s" "expanding s2" "unat (expand_bucket s2) = unat (expand_bucket s) + 1"
  shows "placed hash s2 xss1" "tables_ok s2" "nbuckets s2 = nbuckets s"
proof -
  let ?P = "length (primary_hashtable s)"
  let ?e = "unat (expand_bucket s)"
  show n2: "nbuckets s2 = nbuckets s"
    using assms(4,6,7,9) by (simp add: nbuckets_def)
  have pl: "place s2 h = (if ?e < h mod 2 ^ (hashpower s - 1) then ?P + h mod 2 ^ (hashpower s - 1) else h mod 2 ^ hashpower s)" for h
    using assms(6,8,9,10) by (simp add: place_def Suc_le_eq)
  show "placed hash s2 xss1"
    unfolding placed_keyed n2 pl
  proof (intro allI impI ballI)
    fix j x assume "j < nbuckets s" "x \<in> set (keyed (xss1 j))"
    from moved_place [OF assms(1-4) this] show "(if ?e < unat (hash (snd x)) mod 2 ^ (hashpower s - 1)
        then ?P + unat (hash (snd x)) mod 2 ^ (hashpower s - 1) else unat (hash (snd x)) mod 2 ^ hashpower s) = j"
      by auto
  qed
  have "?e + 1 < 2 ^ (hashpower s - 1)"
    using assms(3,4,5) unfolding tables_ok_def by linarith
  then show "tables_ok s2"
    using assms(3,4,6-10) by (simp add: tables_ok_def)
qed

lemma move_bucket_run:
  assumes "assoc_rep hash s kv F" "expanding s"
  obtains s' where "move_bucket hash s = Inr ((), s')" "assoc_rep hash s' kv F"
    "maint s' = maint s" "started_expanding s' = started_expanding s" "signalled s' = signalled s" "hashpower s' = hashpower s"
    "if unat (expand_bucket s) + 1 = 2 ^ (hashpower s - 1) then \<not> expanding s'
     else expanding s' \<and> unat (expand_bucket s') = unat (expand_bucket s) + 1"
proof -
  obtain xss where r: "tables_ok s" "locks s hash_items_counter_lock = Free" "finite (dom kv)"
    "hash_items s = word_of_nat (card (dom kv))" "forest h_next (heads s) (nbuckets s) s xss F" "placed hash s xss"
    "\<And>k a. kv k = Some a \<longleftrightarrow> sits xss (nbuckets s) k a"
    using assms(1) unfolding assoc_rep_def by blast
  note ok = r(1) [unfolded tables_ok_def]
  let ?e = "unat (expand_bucket s)"
  let ?P = "length (primary_hashtable s)"
  have e: "?e < length (old_hashtable s)"
    using ok assms(2) by simp
  have i: "?P + ?e < nbuckets s"
    using e assms(2) by (simp add: nbuckets_def)
  have "forest h_next ((heads s)(?P + ?e := heads s (?P + ?e))) (nbuckets s) s xss F"
    using r(5) by simp
  moreover have "length (xss (?P + ?e)) < Suc (fresh s)"
    using owns_bound [OF forest_owns [OF r(5) i]] by simp
  ultimately obtain s1 xss1 where s1: "move_loop hash (Suc (fresh s)) (heads s (?P + ?e)) s = Inr ((), s1)" "same_rest s s1"
      "forest h_next ((heads s1)(?P + ?e := NULL)) (nbuckets s) s1 xss1 F" "moved hash s (?P + ?e) xss xss1"
    using move_loop_run [OF r(1) assms(2) refl e, of "heads s (?P + ?e)" xss F "Suc (fresh s)" hash]
    unfolding moved_def by blast
  note same = s1(2) [unfolded same_rest_def]
  define s2 where "s2 = s1\<lparr>old_hashtable := (old_hashtable s1)[?e := NULL], expand_bucket := expand_bucket s + 1\<rparr>"
  define s3 where "s3 = (if ?e + 1 = 2 ^ (hashpower s - 1)
     then s2\<lparr>expanding := False, old_hashtable := [], hash_bytes := hash_bytes s2 - hashsize (hashpower s - 1) * 8, hash_is_expanding := False\<rparr>
     else s2)"
  have run: "move_bucket hash s = Inr ((), s3)"
    using s1(1) e same expand_done_iff(1) [OF r(1) assms(2)]
    by (simp add: move_bucket_def exec_simps load_bucket_def store_bucket_def heads_def s3_def s2_def Let_def)
  have f2: "forest h_next (heads s2) (nbuckets s) s2 xss1 F"
  proof -
    have "heads s2 j = ((heads s1)(?P + ?e := NULL)) j" for j
      using same e by (auto simp: heads_def s2_def nth_list_update)
    then have "heads s2 = (heads s1)(?P + ?e := NULL)"
      by (rule ext)
    then show ?thesis
      using s1(3) by (simp add: s2_def forest_def wf_world_def)
  qed
  have len: "length (primary_hashtable s1) = ?P" "length (old_hashtable s1) = length (old_hashtable s)" "expanding s1"
      "hashpower s1 = hashpower s" "fresh s1 = fresh s" "locks s1 = locks s" "hash_items s1 = hash_items s"
    using same assms(2) by simp_all
  have "forest h_next (heads s3) (nbuckets s3) s3 xss1 F \<and> placed hash s3 xss1 \<and> tables_ok s3
      \<and> (\<forall>k a. sits xss1 (nbuckets s3) k a = sits xss1 (nbuckets s) k a)"
  proof (cases "?e + 1 = 2 ^ (hashpower s - 1)")
    case True
    note done_rules = moved_last [OF s1(4) r(6,1) assms(2) True f2, of s3]
    show ?thesis
      using True len by (intro conjI allI done_rules) (simp_all add: s3_def s2_def)
  next
    case False
    have "placed hash s2 xss1" "tables_ok s2" "nbuckets s2 = nbuckets s"
      using len expand_done_iff(2) [OF r(1) assms(2)]
      by (intro moved_next [OF s1(4) r(6,1) assms(2) False]; simp add: s2_def)+
    then show ?thesis
      using f2 False by (simp add: s3_def)
  qed
  then have "assoc_rep hash s3 kv F"
    unfolding assoc_rep_def using r(2,3,4,7) len moved_sits [OF s1(4) r(1) _ i]
    by (intro conjI exI [of _ xss1]) (auto simp: s3_def s2_def)
  then show ?thesis
    using that [OF run] same assms(2) expand_done_iff(2) [OF r(1) assms(2)] by (simp add: s3_def s2_def)
qed

lemma bulk_move_run:
  assumes "assoc_rep hash s kv F"
  shows "\<exists>s'. bulk_move hash ts s = Inr ((), s') \<and> assoc_rep hash s' kv F \<and> maint s' = maint s \<and> hashpower s' = hashpower s
           \<and> started_expanding s' = started_expanding s \<and> signalled s' = signalled s \<and> (expanding s' \<longrightarrow> expanding s)
           \<and> (2 ^ (hashpower s - 1) \<le> unat (expand_bucket s) + count_list ts True \<longrightarrow> \<not> expanding s')"
  using assms
proof (induction ts arbitrary: s)
  case Nil
  then have "expanding s \<longrightarrow> unat (expand_bucket s) < 2 ^ (hashpower s - 1)"
    by (simp add: assoc_rep_def tables_ok_def)
  then show ?case
    using Nil by (auto simp: ret_def)
next
  case (Cons b ts)
  show ?case
  proof (cases "expanding s \<and> b")
    case True
    then obtain s1 where s1: "move_bucket hash s = Inr ((), s1)" "assoc_rep hash s1 kv F"
      "maint s1 = maint s" "started_expanding s1 = started_expanding s" "signalled s1 = signalled s" "hashpower s1 = hashpower s"
      "if unat (expand_bucket s) + 1 = 2 ^ (hashpower s - 1) then \<not> expanding s1
       else expanding s1 \<and> unat (expand_bucket s1) = unat (expand_bucket s) + 1"
      using move_bucket_run [OF Cons.prems, of thesis] by blast
    obtain s' where s': "bulk_move hash ts s1 = Inr ((), s')" "assoc_rep hash s' kv F" "maint s' = maint s" "hashpower s' = hashpower s"
      "started_expanding s' = started_expanding s" "signalled s' = signalled s" "expanding s' \<longrightarrow> expanding s1"
      "2 ^ (hashpower s - 1) \<le> unat (expand_bucket s1) + count_list ts True \<longrightarrow> \<not> expanding s'"
      using Cons.IH [OF s1(2)] s1 by auto
    have "bulk_move hash (b # ts) s = Inr ((), s')"
      using True s1(1) s'(1) by (simp add: exec_simps)
    moreover have "2 ^ (hashpower s - 1) \<le> unat (expand_bucket s) + count_list (b # ts) True \<longrightarrow> \<not> expanding s'"
      using s1(7) s'(7,8) True by (auto split: if_splits)
    ultimately show ?thesis
      using s' True by blast
  next
    case False
    then show ?thesis
      using Cons.IH [OF Cons.prems] Cons.prems by (auto simp: exec_simps)
  qed
qed

section \<open>Workers and maintenance thread\<close>

text \<open>The calls of the workers, with the hash value they computed from the key, and the parts of a turn
  of the maintenance thread; a part that is not its turn does nothing.\<close>

datatype event =
    Find "8 word list"
  | Link ptr "8 word list"
  | Unlink "8 word list"
  | Scan "bool list"
  | Wait
  | Wake bool

definition perform :: "(8 word list \<Rightarrow> 32 word) \<Rightarrow> event \<Rightarrow> (assoc, ptr) exec" where
  "perform hash e = (case e of
       Find k \<Rightarrow> assoc_find k (hash k)
     | Link it k \<Rightarrow> seq (assoc_insert it (hash k)) (ret it)
     | Unlink k \<Rightarrow> seq (assoc_delete k (hash k)) (ret NULL)
     | Scan ts \<Rightarrow> bnd (gets maint) (\<lambda>m. if m = Moving then seq (maintenance_scan hash ts) (ret NULL) else ret NULL)
     | Wait \<Rightarrow> bnd (gets maint) (\<lambda>m. if m = BeforeWait then seq maintenance_wait (ret NULL) else ret NULL)
     | Wake ok \<Rightarrow> bnd (gets (\<lambda>s. maint s = Waiting \<and> signalled s)) (\<lambda>w.
                     if w then seq (maintenance_wake ok) (ret NULL) else ret NULL))"

primrec performs :: "(8 word list \<Rightarrow> 32 word) \<Rightarrow> event list \<Rightarrow> (assoc, ptr list) exec" where
  "performs hash [] = ret []"
| "performs hash (e # es) = bnd (perform hash e) (\<lambda>r. bnd (performs hash es) (\<lambda>rs. ret (r # rs)))"

text \<open>The specification: a map from keys to items, and the items that are not linked with their keys.
  \<open>permitted\<close> is the contract of the callers.\<close>

type_synonym spec_state = "(8 word list \<rightharpoonup> ptr) \<times> (ptr \<rightharpoonup> 8 word list)"

fun spec :: "event \<Rightarrow> spec_state \<Rightarrow> ptr \<times> spec_state" where
  "spec (Find k) (kv, fr) = (case kv k of None \<Rightarrow> NULL | Some a \<Rightarrow> a, (kv, fr))"
| "spec (Link it k) (kv, fr) = (it, (kv(k \<mapsto> it), fr(it := None)))"
| "spec (Unlink k) (kv, fr) = (NULL, (kv(k := None), fr(the (kv k) \<mapsto> k)))"
| "spec _ st = (NULL, st)"

fun permitted :: "event \<Rightarrow> spec_state \<Rightarrow> bool" where
  "permitted (Link it k) (kv, fr) \<longleftrightarrow> kv k = None \<and> fr it = Some k"
| "permitted (Unlink k) (kv, fr) \<longleftrightarrow> kv k \<noteq> None"
| "permitted _ st \<longleftrightarrow> True"

primrec specs :: "event list \<Rightarrow> spec_state \<Rightarrow> ptr list \<times> spec_state" where
  "specs [] st = ([], st)"
| "specs (e # es) st = (case spec e st of (r, st1) \<Rightarrow> case specs es st1 of (rs, st2) \<Rightarrow> (r # rs, st2))"

primrec permitted_all :: "event list \<Rightarrow> spec_state \<Rightarrow> bool" where
  "permitted_all [] st \<longleftrightarrow> True"
| "permitted_all (e # es) st \<longleftrightarrow> permitted e st \<and> permitted_all es (snd (spec e st))"

definition assoc_inv :: "(8 word list \<Rightarrow> 32 word) \<Rightarrow> assoc \<Rightarrow> spec_state \<Rightarrow> bool" where
  "assoc_inv hash s st \<longleftrightarrow> (\<exists>F. assoc_rep hash s (fst st) F \<and> snd st = (\<lambda>a. map_option ikey (F a)))
     \<and> (signalled s \<longrightarrow> maint s = Waiting \<and> hashpower s < 32) \<and> (maint s \<noteq> Moving \<longrightarrow> \<not> expanding s)"

text \<open>The maintenance thread waits, and nobody will signal it.\<close>

definition stuck :: "assoc \<Rightarrow> bool" where
  "stuck s \<longleftrightarrow> maint s = Waiting \<and> started_expanding s \<and> \<not> signalled s \<and> \<not> expanding s"

lemma assoc_invI:
  assumes "assoc_rep hash s kv F" "fr = (\<lambda>a. map_option ikey (F a))"
      and "signalled s \<longrightarrow> maint s = Waiting \<and> hashpower s < 32" "maint s \<noteq> Moving \<longrightarrow> \<not> expanding s"
  shows "assoc_inv hash s (kv, fr)"
  using assms by (auto simp: assoc_inv_def)

lemma rep_flags [simp]:
  "assoc_rep hash (s\<lparr>maint := m\<rparr>) kv F = assoc_rep hash s kv F"
  "assoc_rep hash (s\<lparr>signalled := b\<rparr>) kv F = assoc_rep hash s kv F"
  "assoc_rep hash (s\<lparr>started_expanding := b\<rparr>) kv F = assoc_rep hash s kv F"
  by (rule assoc_rep_cong; simp)+

text \<open>A permitted event does what the specification says and never faults; a table whose thread is
  stuck stays so.\<close>

lemma perform_run:
  assumes "assoc_inv hash s st" "permitted e st"
  shows "\<exists>s'. perform hash e s = Inr (fst (spec e st), s') \<and> assoc_inv hash s' (snd (spec e st))
           \<and> (stuck s \<longrightarrow> stuck s' \<and> hashpower s' = hashpower s)"
proof -
  obtain kv fr where st: "st = (kv, fr)"
    by fastforce
  obtain F where rep: "assoc_rep hash s kv F" "fr = (\<lambda>a. map_option ikey (F a))"
      and sig: "signalled s \<longrightarrow> maint s = Waiting \<and> hashpower s < 32" "maint s \<noteq> Moving \<longrightarrow> \<not> expanding s"
    using assms(1) by (auto simp: assoc_inv_def st)
  show ?thesis
  proof (cases e)
    case (Find k)
    then show ?thesis
      using find_run [OF rep(1), of k] assms(1) by (simp add: perform_def st)
  next
    case (Link it k)
    then obtain n where n: "F it = Some n" "ikey n = k" "kv k = None"
      using assms(2) rep(2) by (auto simp: st)
    obtain s' where s': "assoc_insert it (hash k) s = Inr (1, s')" "assoc_rep hash s' (kv(k \<mapsto> it)) (F(it := None))"
      "expanding s' = expanding s" "maint s' = maint s" "hashpower s' = hashpower s"
      "started_expanding s \<longrightarrow> started_expanding s' \<and> signalled s' = signalled s"
      "signalled s' \<longrightarrow> signalled s \<or> maint s = Waiting \<and> \<not> expanding s \<and> hashpower s < HASHPOWER_MAX"
      using assoc_insert_run [OF rep(1) n(1)] n(2,3) by metis
    have "assoc_inv hash s' (kv(k \<mapsto> it), fr(it := None))"
      by (rule assoc_invI [OF s'(2)]) (use s' sig rep(2) in \<open>auto simp: HASHPOWER_MAX_def fun_eq_iff\<close>)
    moreover have "stuck s \<longrightarrow> stuck s'"
      using s' by (simp add: stuck_def)
    ultimately show ?thesis
      using s' by (simp add: Link perform_def st exec_simps)
  next
    case (Unlink k)
    then obtain a where a: "kv k = Some a"
      using assms(2) by (auto simp: st)
    obtain s' m where s': "assoc_delete k (hash k) s = Inr ((), s')" "ikey m = k"
      "assoc_rep hash s' (kv(k := None)) (F(a \<mapsto> m\<lparr>h_next := NULL\<rparr>))"
      "expanding s' = expanding s" "maint s' = maint s" "started_expanding s' = started_expanding s" "signalled s' = signalled s"
      "hashpower s' = hashpower s"
      using assoc_delete_run [OF rep(1) a] by metis
    have "assoc_inv hash s' (kv(k := None), fr(a \<mapsto> k))"
      by (rule assoc_invI [OF s'(3)]) (use s' sig rep(2) in \<open>auto simp: fun_eq_iff\<close>)
    then show ?thesis
      using s' a by (simp add: Unlink perform_def st exec_simps stuck_def)
  next
    case (Scan ts)
    show ?thesis
    proof (cases "maint s = Moving")
      case True
      obtain s1 where s1: "bulk_move hash ts s = Inr ((), s1)" "assoc_rep hash s1 kv F" "maint s1 = maint s"
          "signalled s1 = signalled s"
        using bulk_move_run [OF rep(1), of ts] by blast
      have "assoc_inv hash (if expanding s1 then s1 else s1\<lparr>started_expanding := False, maint := BeforeWait\<rparr>) (kv, fr)"
        using s1 True sig rep(2) by (intro assoc_invI [of _ _ _ F]) auto
      then show ?thesis
        using s1 True by (simp add: Scan perform_def st exec_simps maintenance_scan_def stuck_def)
    next
      case False
      then show ?thesis
        using assms(1) by (simp add: Scan perform_def st exec_simps)
    qed
  next
    case Wait
    have "assoc_inv hash (s\<lparr>maint := Waiting\<rparr>) (kv, fr)" if "maint s = BeforeWait"
      using rep sig that by (intro assoc_invI [of _ _ _ F]) auto
    then show ?thesis
      using assms(1) by (simp add: Wait perform_def st exec_simps maintenance_wait_def stuck_def)
  next
    case (Wake ok)
    show ?thesis
    proof (cases "maint s = Waiting \<and> signalled s")
      case True
      let ?s = "s\<lparr>signalled := False, maint := Moving\<rparr>"
      have "assoc_rep hash ?s kv F" "\<not> expanding ?s" "hashpower ?s < 32"
        using rep(1) sig True by auto
      from assoc_expand_run [OF this, of ok] obtain s' where s': "assoc_expand ok ?s = Inr ((), s')"
          "assoc_rep hash s' kv F" "maint s' = Moving" "\<not> signalled s'"
        by auto
      then have "assoc_inv hash s' (kv, fr)"
        using rep(2) by (intro assoc_invI [of _ _ _ F]) auto
      then show ?thesis
        using s' True by (simp add: Wake perform_def st exec_simps maintenance_wake_def stuck_def)
    next
      case False
      then show ?thesis
        using assms(1) by (auto simp: Wake perform_def st exec_simps)
    qed
  qed
qed

lemma performs_run:
  assumes "assoc_inv hash s st" "permitted_all es st"
  shows "\<exists>s'. performs hash es s = Inr (fst (specs es st), s') \<and> assoc_inv hash s' (snd (specs es st))
           \<and> (stuck s \<longrightarrow> stuck s' \<and> hashpower s' = hashpower s)"
  using assms
proof (induction es arbitrary: s st)
  case Nil
  then show ?case by (simp add: ret_def)
next
  case (Cons e es)
  obtain s1 where s1: "perform hash e s = Inr (fst (spec e st), s1)" "assoc_inv hash s1 (snd (spec e st))"
      "stuck s \<longrightarrow> stuck s1 \<and> hashpower s1 = hashpower s"
    using perform_run [OF Cons.prems(1)] Cons.prems(2) by auto
  obtain s' where s': "performs hash es s1 = Inr (fst (specs es (snd (spec e st))), s')"
      "assoc_inv hash s' (snd (specs es (snd (spec e st))))" "stuck s1 \<longrightarrow> stuck s' \<and> hashpower s' = hashpower s1"
    using Cons.IH [OF s1(2)] Cons.prems(2) by auto
  have sp: "specs (e # es) st = (fst (spec e st) # fst (specs es (snd (spec e st))), snd (specs es (snd (spec e st))))"
    by (simp add: split_beta)
  show ?case
    unfolding sp using s1 s' by (auto simp: exec_simps)
qed

text \<open>The state before \<^verbatim>\<open>assoc_init\<close>: the static initialisers, and items that are not
  linked.\<close>

definition static_init :: "assoc \<Rightarrow> bool" where
  "static_init s \<longleftrightarrow> wf_world s \<and> locks s hash_items_counter_lock = Free \<and> hash_items s = 0 \<and> \<not> expanding s
     \<and> maint s = Moving \<and> \<not> signalled s \<and> hashpower s = 16"

lemma init_run:
  assumes "static_init s0" "hp \<le> 32" "assoc_init True hp s0 = Inr ((), s)"
  shows "assoc_inv hash s (Map.empty, \<lambda>a. map_option ikey (cells s0 a))"
proof -
  let ?hp = "if hp = 0 then 16 else hp"
  have "unat (hashsize ?hp) = 2 ^ ?hp"
    using assms(2) by (intro hashsize_unat) simp
  then have s: "primary_hashtable s = replicate (2 ^ ?hp) NULL" "hashpower s = ?hp" "cells s = cells s0" "fresh s = fresh s0"
      "locks s = locks s0" "hash_items s = 0" "\<not> expanding s" "maint s = Moving" "\<not> signalled s"
    using assms(1,3) by (auto simp: assoc_init_def static_init_def Let_def split: if_splits)
  have "forest h_next (heads s) (nbuckets s) s (\<lambda>_. []) (cells s0)"
    using assms(1) s by (auto simp: forest_def heads_def nbuckets_def static_init_def wf_world_def)
  moreover have "tables_ok s"
    using s assms(2) by (simp add: tables_ok_def)
  ultimately have "assoc_rep hash s Map.empty (cells s0)"
    unfolding assoc_rep_def using assms(1) s
    by (intro conjI exI [of _ "\<lambda>_. []"]) (auto simp: placed_def sits_def static_init_def)
  then show ?thesis
    using s by (intro assoc_invI) auto
qed

section \<open>Properties\<close>

text \<open>
  C16: from \<^verbatim>\<open>assoc_init\<close> on, every interleaving of the workers' searches, insertions and
  deletions with the bucket moves, sleeps and expansions of the maintenance thread (successful or
  not) runs without a fault and returns what a finite map from keys to items returns; the counter
  is the number of keys. Callers insert an unlinked item under an absent key and delete present
  keys only.
\<close>

theorem assoc_refines:
  assumes "static_init s0" "hp \<le> 32" "assoc_init True hp s0 = Inr ((), s)"
      and "permitted_all es (Map.empty, \<lambda>a. map_option ikey (cells s0 a))"
  shows "\<exists>s'. performs hash es s = Inr (fst (specs es (Map.empty, \<lambda>a. map_option ikey (cells s0 a))), s')
           \<and> hash_items s' = word_of_nat (card (dom (fst (snd (specs es (Map.empty, \<lambda>a. map_option ikey (cells s0 a)))))))"
  using performs_run [OF init_run [OF assms(1-3)] assms(4), of hash] by (auto simp: assoc_inv_def assoc_rep_def)

text \<open>Two unlinked items.\<close>

definition two_items :: assoc where
  "two_items = \<lparr>cells = [1 \<mapsto> \<lparr>ikey = [65], h_next = NULL\<rparr>, 2 \<mapsto> \<lparr>ikey = [66], h_next = NULL\<rparr>], fresh = 3, room = 0,
     junk = \<lparr>ikey = [], h_next = NULL\<rparr>, locks = (\<lambda>_. Free), out = [], primary_hashtable = [], old_hashtable = [],
     hashpower = 16, hash_items = 0, expanding = False, started_expanding = False, expand_bucket = 0, maint = Moving,
     signalled = False, hash_power_level = 0, hash_bytes = 0, hash_is_expanding = False\<rparr>"

lemma assoc_refines_witness:
  "\<exists>s'. performs (\<lambda>k. 5) [Link 1 [65], Scan [], Wait, Link 2 [66], Find [65], Unlink [65], Find [65], Find [66]]
     (snd (projr (assoc_init True 2 two_items))) = Inr ([1, NULL, NULL, 2, 1, NULL, NULL, 2], s') \<and> hash_items s' = 1"
proof -
  have init: "static_init two_items" "assoc_init True 2 two_items = Inr ((), snd (projr (assoc_init True 2 two_items)))"
    by (auto simp: two_items_def static_init_def wf_world_def assoc_init_def Let_def)
  have c: "cells two_items 1 = Some \<lparr>ikey = [65], h_next = NULL\<rparr>" "cells two_items 2 = Some \<lparr>ikey = [66], h_next = NULL\<rparr>"
    by (simp_all add: two_items_def)
  show ?thesis
    using assoc_refines [OF init(1) _ init(2), where hash = "\<lambda>k. 5"
        and es = "[Link 1 [65], Scan [], Wait, Link 2 [66], Find [65], Unlink [65], Find [65], Find [66]]"] c
    by (simp del: performs.simps)
qed

text \<open>
  C17: an expansion ends. When \<^verbatim>\<open>item_trylock\<close> has succeeded once for every bucket that is
  left, the thread has moved all of them, the old table is released, the contents are unchanged and
  the thread goes to wait.
\<close>

theorem assoc_expansion_ends:
  assumes "assoc_inv hash s st" "maint s = Moving"
      and "2 ^ (hashpower s - 1) \<le> unat (expand_bucket s) + count_list ts True"
  shows "\<exists>s'. perform hash (Scan ts) s = Inr (NULL, s') \<and> assoc_inv hash s' st \<and> \<not> expanding s'
           \<and> maint s' = BeforeWait \<and> \<not> started_expanding s' \<and> hashpower s' = hashpower s"
proof -
  obtain F where rep: "assoc_rep hash s (fst st) F" "snd st = (\<lambda>a. map_option ikey (F a))" "\<not> signalled s"
    using assms(1,2) by (auto simp: assoc_inv_def)
  obtain s1 where s1: "bulk_move hash ts s = Inr ((), s1)" "assoc_rep hash s1 (fst st) F" "\<not> signalled s1" "\<not> expanding s1"
      "hashpower s1 = hashpower s"
    using bulk_move_run [OF rep(1), of ts] assms(3) rep(3) by auto
  let ?s = "s1\<lparr>started_expanding := False, maint := BeforeWait\<rparr>"
  have "assoc_inv hash ?s (fst st, snd st)"
    using s1 rep(2) by (intro assoc_invI [of _ _ _ F]) auto
  moreover have "perform hash (Scan ts) s = Inr (NULL, ?s)"
    using s1 assms(2) by (simp add: perform_def exec_simps maintenance_scan_def)
  ultimately show ?thesis
    using s1 by simp
qed

lemma assoc_expansion_ends_witness:
  "\<exists>s'. perform (\<lambda>k. 0) (Scan [False, True]) (two_items\<lparr>primary_hashtable := [NULL, NULL], old_hashtable := [NULL], hashpower := 1, expanding := True\<rparr>)
     = Inr (NULL, s') \<and> \<not> expanding s'"
proof -
  let ?s = "two_items\<lparr>primary_hashtable := [NULL, NULL], old_hashtable := [NULL], hashpower := 1, expanding := True\<rparr>"
  have "forest h_next (heads ?s) (nbuckets ?s) ?s (\<lambda>_. []) (cells ?s)"
    by (auto simp: forest_def two_items_def wf_world_def heads_def nbuckets_def less_Suc_eq numeral_3_eq_3)
  then have "assoc_rep (\<lambda>k. 0) ?s Map.empty (cells ?s)"
    unfolding assoc_rep_def by (intro conjI exI [of _ "\<lambda>_. []"])
      (auto simp: two_items_def tables_ok_def placed_def sits_def)
  then have "assoc_inv (\<lambda>k. 0) ?s (Map.empty, \<lambda>a. map_option ikey (cells ?s a))"
    by (rule assoc_invI) (simp_all add: two_items_def)
  from assoc_expansion_ends [OF this, of "[False, True]"] show ?thesis
    by (auto simp: two_items_def)
qed

text \<open>
  C18: the wake-up of the maintenance thread can get lost. When the insertion that crosses the load
  limit runs after the thread has reset \<^verbatim>\<open>started_expanding\<close> and before it waits,
  its signal reaches nobody and the flag stays set: whatever the callers insert afterwards, nobody
  signals the sleeping thread and the table does not grow (a spurious wake-up apart).
\<close>

theorem assoc_lost_wakeup:
  assumes "assoc_inv hash s st" "maint s = BeforeWait" "permitted_all (Link it k # Wait # es) st"
      and "hashsize (hashpower s) * 3 div 2 < ucast (hash_items s + 1)" "hashpower s < HASHPOWER_MAX"
  shows "\<exists>rs s'. performs hash (Link it k # Wait # es) s = Inr (rs, s') \<and> stuck s' \<and> hashpower s' = hashpower s"
proof -
  obtain kv fr where st: "st = (kv, fr)"
    by fastforce
  obtain F where rep: "assoc_rep hash s kv F" "fr = (\<lambda>a. map_option ikey (F a))" "\<not> signalled s" "\<not> expanding s"
    using assms(1,2) by (auto simp: assoc_inv_def st)
  obtain n where n: "F it = Some n" "ikey n = k" "kv k = None"
    using assms(3) rep(2) by (auto simp: st)
  obtain s1 where s1: "assoc_insert it (hash k) s = Inr (1, s1)" "assoc_rep hash s1 (kv(k \<mapsto> it)) (F(it := None))"
      "\<not> expanding s1" "maint s1 = BeforeWait" "hashpower s1 = hashpower s" "\<not> signalled s1" "started_expanding s1"
    using assoc_insert_run [OF rep(1) n(1)] n(2,3) rep(3,4) assms(2,4,5) by (metis maintenance.distinct(5))
  let ?s = "s1\<lparr>maint := Waiting\<rparr>"
  have "assoc_inv hash ?s (kv(k \<mapsto> it), fr(it := None))"
    using s1 rep(2) by (intro assoc_invI [of _ _ _ "F(it := None)"]) auto
  moreover have "permitted_all es (kv(k \<mapsto> it), fr(it := None))"
    using assms(3) by (simp add: st)
  moreover have "stuck ?s"
    using s1 by (simp add: stuck_def)
  ultimately obtain rs s' where "performs hash es ?s = Inr (rs, s')" "stuck s'" "hashpower s' = hashpower ?s"
    using performs_run [of hash ?s "(kv(k \<mapsto> it), fr(it := None))" es] by blast
  moreover have "perform hash (Link it k) s = Inr (it, s1)" "perform hash Wait s1 = Inr (NULL, ?s)"
    using s1 by (simp_all add: perform_def exec_simps maintenance_wait_def)
  ultimately show ?thesis
    using s1(5) by (simp add: exec_simps)
qed

text \<open>A table with two buckets, three linked items and one more.\<close>

definition loaded :: assoc where
  "loaded = two_items\<lparr>cells := [1 \<mapsto> \<lparr>ikey = [65], h_next = 2\<rparr>, 2 \<mapsto> \<lparr>ikey = [66], h_next = 3\<rparr>, 3 \<mapsto> \<lparr>ikey = [67], h_next = NULL\<rparr>,
       4 \<mapsto> \<lparr>ikey = [68], h_next = NULL\<rparr>],
     fresh := 5, primary_hashtable := [1, NULL], hashpower := 1, hash_items := 3, maint := BeforeWait\<rparr>"

lemma assoc_lost_wakeup_witness:
  "\<exists>rs s'. performs (\<lambda>k. 0) [Link 4 [68], Wait, Unlink [66], Scan [True], Wake True] loaded = Inr (rs, s') \<and> stuck s' \<and> hashpower s' = 1"
proof -
  let ?xss = "\<lambda>i. if i = 0 then [(1, \<lparr>ikey = [65], h_next = 2\<rparr>), (2, \<lparr>ikey = [66], h_next = 3\<rparr>), (3, \<lparr>ikey = [67], h_next = NULL\<rparr>)]
    else ([] :: (ptr \<times> aitem) list)"
  let ?kv = "[[65] \<mapsto> 1, [66] \<mapsto> 2, [67] \<mapsto> 3]"
  let ?F = "[4 \<mapsto> \<lparr>ikey = [68], h_next = NULL\<rparr>]"
  have "forest h_next (heads loaded) (nbuckets loaded) loaded ?xss ?F"
    by (auto simp: forest_def loaded_def two_items_def wf_world_def heads_def nbuckets_def)
  moreover have "?kv k = Some a \<longleftrightarrow> sits ?xss (nbuckets loaded) k a" for k a
    by (auto simp: sits_def loaded_def two_items_def nbuckets_def)
  ultimately have "assoc_rep (\<lambda>k. 0) loaded ?kv ?F"
    unfolding assoc_rep_def by (intro conjI exI [of _ ?xss])
      (auto simp: loaded_def two_items_def tables_ok_def placed_def place_def nbuckets_def)
  then have inv: "assoc_inv (\<lambda>k. 0) loaded (?kv, \<lambda>a. map_option ikey (?F a))"
    by (rule assoc_invI) (simp_all add: loaded_def two_items_def)
  have "\<exists>rs s'. performs (\<lambda>k. 0) [Link 4 [68], Wait, Unlink [66], Scan [True], Wake True] loaded = Inr (rs, s')
      \<and> stuck s' \<and> hashpower s' = hashpower loaded"
  proof (rule assoc_lost_wakeup [OF inv])
    show "hashsize (hashpower loaded) * 3 div 2 < ucast (hash_items loaded + 1)"
      by (simp add: loaded_def hashsize_def)
  qed (simp_all add: loaded_def two_items_def HASHPOWER_MAX_def)
  then show ?thesis
    by (simp add: loaded_def del: performs.simps)
qed

end
