(* ===== verification/Pmem.thy ===== *)
theory Pmem
  imports Prelude "HOL-Library.Word"
begin

text \<open>
  Persistent memory. A mapped file is a sequence of bytes; what a program does to it is a list of
  events: stores, flushes of a range and drains (\<^verbatim>\<open>pmem_flush\<close>, \<^verbatim>\<open>pmem_drain\<close> of
  libpmem). \<open>mem_after\<close> is what the program reads, and \<open>survivors\<close> the values a byte
  may hold when the machine stops: the last value that was stored before a flush which a drain has
  completed, or any value stored since. Bytes survive independently of each other, so that a torn
  store is a possible outcome.
\<close>

unbundle bit_operations_syntax

section \<open>Bytes\<close>

type_synonym mem = "nat \<Rightarrow> 8 word"

primrec bytes_at :: "mem \<Rightarrow> nat \<Rightarrow> nat \<Rightarrow> 8 word list" where
  "bytes_at m a 0 = []"
| "bytes_at m a (Suc n) = m a # bytes_at m (Suc a) n"

primrec put_bytes :: "nat \<Rightarrow> 8 word list \<Rightarrow> mem \<Rightarrow> mem" where
  "put_bytes a [] m = m"
| "put_bytes a (b # bs) m = put_bytes (Suc a) bs (m(a := b))"

text \<open>Little-endian integers.\<close>

primrec le_bytes :: "nat \<Rightarrow> 'a::len word \<Rightarrow> 8 word list" where
  "le_bytes 0 w = []"
| "le_bytes (Suc n) w = ucast w # le_bytes n (drop_bit 8 w)"

primrec le_word :: "8 word list \<Rightarrow> 'a::len word" where
  "le_word [] = 0"
| "le_word (b # bs) = ucast b OR push_bit 8 (le_word bs)"

lemma length_bytes_at [simp]: "length (bytes_at m a n) = n"
  by (induction n arbitrary: a) auto

lemma nth_bytes_at [simp]: "i < n \<Longrightarrow> bytes_at m a n ! i = m (a + i)"
  by (induction n arbitrary: a i) (auto simp: less_Suc_eq_0_disj nth_Cons')

lemma bytes_at_cong: "(\<And>i. i < n \<Longrightarrow> m (a + i) = m' (a + i)) \<Longrightarrow> bytes_at m a n = bytes_at m' a n"
  by (rule nth_equalityI) auto

lemma bytes_at_add: "bytes_at m a (n + k) = bytes_at m a n @ bytes_at m (a + n) k"
  by (induction n arbitrary: a) auto

lemma put_bytes_apply:
  "put_bytes a bs m b = (if a \<le> b \<and> b < a + length bs then bs ! (b - a) else m b)"
  by (induction bs arbitrary: a m) (auto simp: nth_Cons' not_le less_Suc_eq_le)

lemma bytes_at_put_same [simp]: "n = length bs \<Longrightarrow> bytes_at (put_bytes a bs m) a n = bs"
  by (rule nth_equalityI) (auto simp: put_bytes_apply)

lemma bytes_at_put_other [simp]:
  "a + n \<le> b \<or> b + length bs \<le> a \<Longrightarrow> bytes_at (put_bytes b bs m) a n = bytes_at m a n"
  by (rule bytes_at_cong) (auto simp: put_bytes_apply)

lemma bytes_at_upd_other [simp]: "c < a \<or> a + n \<le> c \<Longrightarrow> bytes_at (m(c := v)) a n = bytes_at m a n"
  by (rule bytes_at_cong) auto

lemma length_le_bytes [simp]: "length (le_bytes n w) = n"
  by (induction n arbitrary: w) auto

lemma bit_le_word_bytes:
  "bit (le_word (le_bytes n w) :: 'a::len word) k \<longleftrightarrow> k < 8 * n \<and> bit (w :: 'a word) k"
proof (induction n arbitrary: w k)
  case 0
  then show ?case by simp
next
  case (Suc n)
  have "bit (le_word (le_bytes (Suc n) w) :: 'a word) k \<longleftrightarrow>
      k < LENGTH('a) \<and> (k < 8 \<and> bit w k \<or> 8 \<le> k \<and> bit (le_word (le_bytes n (drop_bit 8 w)) :: 'a word) (k - 8))"
    by (auto simp: bit_simps dest: bit_imp_le_length)
  also have "\<dots> \<longleftrightarrow> k < 8 * Suc n \<and> bit w k"
    unfolding Suc.IH by (auto simp: bit_simps dest: bit_imp_le_length)
  finally show ?case .
qed

lemma le_word_bytes [simp]: "LENGTH('a) \<le> 8 * n \<Longrightarrow> le_word (le_bytes n w) = (w :: 'a::len word)"
  by (rule bit_word_eqI) (auto simp: bit_le_word_bytes)

lemma le_word_zeros [simp]: "le_word (replicate k 0) = 0"
  by (induction k) auto

section \<open>Events and what survives a crash\<close>

datatype pm_event = PmStore nat "8 word list" | PmFlush nat nat | PmDrain

fun mem_event :: "pm_event \<Rightarrow> mem \<Rightarrow> mem" where
  "mem_event (PmStore a bs) m = put_bytes a bs m"
| "mem_event _ m = m"

definition mem_after :: "pm_event list \<Rightarrow> mem \<Rightarrow> mem" where
  "mem_after tr m = fold mem_event tr m"

text \<open>For one byte: the values it may hold, the oldest first, and how many of them the next drain
  retires.\<close>

fun byte_event :: "nat \<Rightarrow> pm_event \<Rightarrow> 8 word list \<times> nat \<Rightarrow> 8 word list \<times> nat" where
  "byte_event a (PmStore b bs) (vs, k) =
     (if b \<le> a \<and> a < b + length bs then (vs @ [bs ! (a - b)], k) else (vs, k))"
| "byte_event a (PmFlush b n) (vs, k) = (if b \<le> a \<and> a < b + n then (vs, length vs - 1) else (vs, k))"
| "byte_event a PmDrain (vs, k) = (drop k vs, 0)"

definition byte_after :: "pm_event list \<Rightarrow> nat \<Rightarrow> 8 word \<Rightarrow> 8 word list \<times> nat" where
  "byte_after tr a v = fold (byte_event a) tr ([v], 0)"

definition survivors :: "pm_event list \<Rightarrow> nat \<Rightarrow> 8 word \<Rightarrow> 8 word list" where
  "survivors tr a v = fst (byte_after tr a v)"

text \<open>
  What libpmem documents of a crash. \<open>crash m tr m'\<close> says that the file can hold \<open>m'\<close> when
  the machine stops after the events \<open>tr\<close> on a file that held \<open>m\<close>.
\<close>

definition pmem_documented :: "(mem \<Rightarrow> pm_event list \<Rightarrow> mem \<Rightarrow> bool) \<Rightarrow> bool" where
  "pmem_documented crash \<longleftrightarrow>
     (\<forall>m tr m'. crash m tr m' \<longrightarrow> (\<forall>a. m' a \<in> set (survivors tr a (m a))))"

text \<open>The weakest such behaviour: every byte keeps any of its candidates.\<close>

definition byte_crash :: "mem \<Rightarrow> pm_event list \<Rightarrow> mem \<Rightarrow> bool" where
  "byte_crash m tr m' \<longleftrightarrow> (\<forall>a. m' a \<in> set (survivors tr a (m a)))"

lemma byte_crash_documented: "pmem_documented byte_crash"
  by (simp add: pmem_documented_def byte_crash_def)

lemma pmem_documentedD:
  "pmem_documented crash \<Longrightarrow> crash m tr m' \<Longrightarrow> m' a \<in> set (survivors tr a (m a))"
  by (simp add: pmem_documented_def)

lemma mem_after_simps [simp]:
  "mem_after [] m = m"
  "mem_after (tr @ [e]) m = mem_event e (mem_after tr m)"
  by (simp_all add: mem_after_def)

lemma mem_after_Cons: "mem_after (e # tr) m = mem_after tr (mem_event e m)"
  by (simp add: mem_after_def)

lemma mem_after_append: "mem_after (tr @ tr') m = mem_after tr' (mem_after tr m)"
  by (simp add: mem_after_def)

lemma byte_after_append: "byte_after (tr @ tr') a v = fold (byte_event a) tr' (byte_after tr a v)"
  by (simp add: byte_after_def)

lemma byte_after_Nil [simp]: "byte_after [] a v = ([v], 0)"
  by (simp add: byte_after_def)

lemma byte_after_last:
  "fst (byte_after tr a (m a)) \<noteq> [] \<and> snd (byte_after tr a (m a)) < length (fst (byte_after tr a (m a))) \<and>
   last (fst (byte_after tr a (m a))) = mem_after tr m a"
proof (induction tr rule: rev_induct)
  case Nil
  then show ?case by simp
next
  case (snoc e tr)
  obtain vs k where p: "byte_after tr a (m a) = (vs, k)" by fastforce
  with snoc show ?case
    by (cases e) (auto simp: byte_after_append put_bytes_apply)
qed

text \<open>A byte is settled when the program's value is the only one that can survive.\<close>

definition settled :: "pm_event list \<Rightarrow> mem \<Rightarrow> nat \<Rightarrow> bool" where
  "settled tr m a \<longleftrightarrow> byte_after tr a (m a) = ([mem_after tr m a], 0)"

lemma settled_Nil [simp]: "settled [] m a"
  by (simp add: settled_def)

lemma settled_survivor: "settled tr m a \<Longrightarrow> set (survivors tr a (m a)) = {mem_after tr m a}"
  by (simp add: settled_def survivors_def)

lemma settled_keep:
  assumes "settled tr m a" and "\<And>b bs. e = PmStore b bs \<Longrightarrow> a < b \<or> b + length bs \<le> a"
  shows "settled (tr @ [e]) m a"
  using assms by (cases e) (auto simp: settled_def byte_after_append put_bytes_apply)

text \<open>A flush, and later flushes up to the drain that completes them.\<close>

lemma settled_flushed:
  assumes "b \<le> a" "a < b + n" and fs: "\<forall>e \<in> set fs. \<exists>x k. e = PmFlush x k"
  shows "settled (tr @ PmFlush b n # fs @ [PmDrain]) m a"
proof -
  obtain vs k where p: "byte_after tr a (m a) = (vs, k)" by fastforce
  with byte_after_last[of tr a m] have "vs \<noteq> []" "last vs = mem_after tr m a" by auto
  then have "drop (length vs - 1) vs = [mem_after tr m a]"
    by (metis append_butlast_last_id append_eq_conv_conj length_butlast)
  moreover from fs have "fold (byte_event a) fs (vs, length vs - 1) = (vs, length vs - 1)"
    by (induction fs) auto
  moreover from fs have "fold mem_event fs = id"
    by (induction fs) auto
  ultimately show ?thesis using assms(1,2) p
    by (simp add: settled_def byte_after_append mem_after_append mem_after_def)
qed

lemma settled_persist: "b \<le> a \<Longrightarrow> a < b + n \<Longrightarrow> settled (tr @ [PmFlush b n, PmDrain]) m a"
  using settled_flushed[of b a n "[]"] by simp

text \<open>Events that do not write a byte change neither it nor what may survive.\<close>

fun writes :: "nat \<Rightarrow> pm_event \<Rightarrow> bool" where
  "writes a (PmStore b bs) \<longleftrightarrow> b \<le> a \<and> a < b + length bs"
| "writes a _ \<longleftrightarrow> False"

lemma mem_after_unwritten: "\<forall>e \<in> set es. \<not> writes a e \<Longrightarrow> mem_after es m a = m a"
proof (induction es rule: rev_induct)
  case (snoc e es)
  then show ?case by (cases e) (auto simp: put_bytes_apply)
qed simp

lemma settled_append: "settled tr m a \<Longrightarrow> \<forall>e \<in> set es. \<not> writes a e \<Longrightarrow> settled (tr @ es) m a"
proof (induction es rule: rev_induct)
  case (snoc e es)
  then show ?case using settled_keep[of "tr @ es" m a e] by (cases e) auto
qed simp

lemma crash_settled:
  assumes "pmem_documented crash" and "crash m tr m'" and "settled tr m a"
  shows "m' a = mem_after tr m a"
  using pmem_documentedD[OF assms(1,2), of a] settled_survivor[OF assms(3)] by simp

text \<open>A byte that is stored, flushed and drained: it holds the old or the new value, and after the
  drain the new one.\<close>

lemma crash_commit:
  assumes "pmem_documented crash" and "settled tr m a" and "crash m (tr @ pre) m'"
    and "pre = [] \<or> pre = [PmStore a [v]] \<or> pre = [PmStore a [v], PmFlush a 1] \<or> pre = [PmStore a [v], PmFlush a 1, PmDrain]"
  shows "m' a \<in> {mem_after tr m a, v}" and "pre = [PmStore a [v], PmFlush a 1, PmDrain] \<Longrightarrow> m' a = v"
    and "pre = [] \<Longrightarrow> m' a = mem_after tr m a"
  using assms(2,4) pmem_documentedD[OF assms(1,3), of a]
  by (auto simp: survivors_def byte_after_append settled_def)

end
