(* ===== verification/PslabPool.thy ===== *)
theory PslabPool
  imports Pmem
begin

text \<open>
  The persistent slab pool of memcached, \<^verbatim>\<open>src/experiments/memcached/src/pslab.c\<close>: a mapped
  file with a header (signature, geometry, slab class sizes, two copies of the flush time with a
  checksum each, and the number of the copy that is valid) and the frames of the slab pages. The
  file is bytes at offsets; pointers are addresses in its mapping. \<^verbatim>\<open>pmem_map_file\<close> is not part
  of the sources: its result (address, length, whether the file is persistent memory) is an
  argument. The program is built with \<^verbatim>\<open>NDEBUG\<close>, so assertions do nothing.
\<close>

unbundle bit_operations_syntax

section \<open>State and access to the file\<close>

record pslab_state =
  file_image :: mem
  file_events :: "pm_event list"
  mapped_len :: nat
  pslab_pool :: ptr
  pslab_start :: ptr
  pslab_end :: ptr
  pslab_chksum0 :: "8 word"
  process_started_new :: "64 word"
  free_cur :: ptr

text \<open>A process that has mapped nothing yet, on a machine whose file holds \<open>m\<close>.\<close>

definition pslab_boot :: "mem \<Rightarrow> pslab_state" where
  "pslab_boot m = \<lparr>file_image = m, file_events = [], mapped_len = 0, pslab_pool = NULL, pslab_start = NULL,
     pslab_end = NULL, pslab_chksum0 = 0, process_started_new = 0, free_cur = NULL\<rparr>"

definition file_mem :: "('z) pslab_state_scheme \<Rightarrow> mem" where
  "file_mem s = mem_after (file_events s) (file_image s)"

definition file_check :: "ptr \<Rightarrow> nat \<Rightarrow> ('z pslab_state_scheme, nat) exec" where
  "file_check p n = (\<lambda>s.
     if pslab_pool s = NULL then Inl NullDeref
     else if p < pslab_pool s \<or> pslab_pool s + mapped_len s < p + n then Inl InvalidPtr
     else Inr (p - pslab_pool s, s))"

definition file_read :: "ptr \<Rightarrow> nat \<Rightarrow> ('z pslab_state_scheme, 8 word list) exec" where
  "file_read p n = bnd (file_check p n) (\<lambda>off. gets (\<lambda>s. bytes_at (file_mem s) off n))"

definition file_event :: "pm_event \<Rightarrow> ('z pslab_state_scheme, unit) exec" where
  "file_event e = modify (\<lambda>s. s\<lparr>file_events := file_events s @ [e]\<rparr>)"

definition file_write :: "ptr \<Rightarrow> 8 word list \<Rightarrow> ('z pslab_state_scheme, unit) exec" where
  "file_write p bs = bnd (file_check p (length bs)) (\<lambda>off. file_event (PmStore off bs))"

text \<open>The calls of libpmem, as the events they are documented to cause.\<close>

definition pmem_flush :: "ptr \<Rightarrow> nat \<Rightarrow> ('z pslab_state_scheme, unit) exec" where
  "pmem_flush p n = bnd (file_check p n) (\<lambda>off. file_event (PmFlush off n))"

definition pmem_drain :: "('z pslab_state_scheme, unit) exec" where
  "pmem_drain = file_event PmDrain"

definition pmem_persist :: "ptr \<Rightarrow> nat \<Rightarrow> ('z pslab_state_scheme, unit) exec" where
  "pmem_persist p n = seq (pmem_flush p n) pmem_drain"

definition pmem_memset_nodrain :: "ptr \<Rightarrow> 8 word \<Rightarrow> nat \<Rightarrow> ('z pslab_state_scheme, unit) exec" where
  "pmem_memset_nodrain p c n = seq (file_write p (replicate n c)) (pmem_flush p n)"

section \<open>Layout\<close>

text \<open>\<^verbatim>\<open>pslab_pool_t\<close> is packed: the offsets of its fields, and \<^verbatim>\<open>sizeof\<close>.\<close>

definition signature_at :: nat where "signature_at = 0"

definition length_at :: nat where "length_at = 4"

definition version_at :: nat where "version_at = 8"

definition checksum_at :: int where "checksum_at = 21"

definition valid_at :: nat where "valid_at = 23"

definition process_started_at :: nat where "process_started_at = 24"

definition flush_time_at :: int where "flush_time_at = 32"

definition slab_num_at :: nat where "slab_num_at = 40"

definition slab_page_size_at :: nat where "slab_page_size_at = 44"

definition slabclass_num_at :: nat where "slabclass_num_at = 48"

definition slabclass_sizes_at :: nat where "slabclass_sizes_at = 52"

lemmas pool_layout = signature_at_def length_at_def version_at_def checksum_at_def valid_at_def
  process_started_at_def flush_time_at_def slab_num_at_def slab_page_size_at_def slabclass_num_at_def
  slabclass_sizes_at_def

definition PSLAB_POOL_SIG :: "8 word list" where
  "PSLAB_POOL_SIG = [0x50, 0x4D, 0x43, 0x48]"

definition PSLAB_POOL_VER_SIZE :: nat where
  "PSLAB_POOL_VER_SIZE = 12"

definition PSLAB_ALIGN_MASK :: "64 word" where
  "PSLAB_ALIGN_MASK = 0xfffffff8"

text \<open>\<^verbatim>\<open>VERSION\<close> of \<^verbatim>\<open>config.h\<close>, 1.5.4.\<close>

definition VERSION :: "8 word list" where
  "VERSION = [0x31, 0x2E, 0x35, 0x2E, 0x34]"

text \<open>\<^verbatim>\<open>pslab_t\<close> is packed too: id, flags, six reserved bytes, the chunk size, then the page.\<close>

definition sizeof_pslab_t :: nat where
  "sizeof_pslab_t = 12"

definition pool_read :: "nat \<Rightarrow> nat \<Rightarrow> ('z pslab_state_scheme, 8 word list) exec" where
  "pool_read off n = bnd (gets pslab_pool) (\<lambda>pool. file_read (pool + off) n)"

definition pool_write :: "nat \<Rightarrow> 8 word list \<Rightarrow> ('z pslab_state_scheme, unit) exec" where
  "pool_write off bs = bnd (gets pslab_pool) (\<lambda>pool. file_write (pool + off) bs)"

definition pool_word :: "nat \<Rightarrow> ('z pslab_state_scheme, 32 word) exec" where
  "pool_word off = bnd (pool_read off 4) (\<lambda>bs. ret (le_word bs))"

definition pool_byte :: "nat \<Rightarrow> ('z pslab_state_scheme, 8 word) exec" where
  "pool_byte off = bnd (pool_read off 1) (\<lambda>bs. ret (hd bs))"

definition PSLAB_FRAME_SIZE :: "('z pslab_state_scheme, nat) exec" where
  "PSLAB_FRAME_SIZE = bnd (pool_word slab_page_size_at) (\<lambda>page. ret (sizeof_pslab_t + unat page))"

text \<open>\<^verbatim>\<open>PSLAB_WALK\<close>: the addresses of the frames from \<open>fp\<close> on.\<close>

function frames_from :: "ptr \<Rightarrow> ptr \<Rightarrow> nat \<Rightarrow> ptr list" where
  "frames_from fp pend page =
     (if fp < pend then fp # frames_from (fp + sizeof_pslab_t + page) pend page else [])"
  by pat_completeness auto
termination by (relation "measure (\<lambda>(fp, pend, page). pend - fp)") (auto simp: sizeof_pslab_t_def)

declare frames_from.simps [simp del]

section \<open>Checksums\<close>

definition pslab_do_checksum :: "8 word list \<Rightarrow> 8 word" where
  "pslab_do_checksum buf = foldl (+) 0 buf"

definition pslab_checksum_init :: "('z pslab_state_scheme, unit) exec" where
  "pslab_checksum_init =
     bnd (pool_read signature_at (nat checksum_at)) (\<lambda>a.
     bnd (pool_read process_started_at 8) (\<lambda>b.
     bnd (pool_word length_at) (\<lambda>len.
     bnd (pool_read slab_num_at (unat (len - of_nat slab_num_at))) (\<lambda>c.
     modify (\<lambda>s. s\<lparr>pslab_chksum0 := 0 + pslab_do_checksum a + pslab_do_checksum b + pslab_do_checksum c\<rparr>)))))"

definition pslab_checksum_check :: "int \<Rightarrow> ('z pslab_state_scheme, 8 word) exec" where
  "pslab_checksum_check i =
     bnd (gets pslab_chksum0) (\<lambda>csum.
     bnd (pool_read (nat (checksum_at + i)) 1) (\<lambda>a.
     bnd (pool_read (nat (flush_time_at + 4 * i)) 4) (\<lambda>b.
     ret (csum + pslab_do_checksum a + pslab_do_checksum b))))"

definition pslab_checksum_update :: "8 word \<Rightarrow> int \<Rightarrow> ('z pslab_state_scheme, unit) exec" where
  "pslab_checksum_update csum i =
     bnd (gets pslab_chksum0) (\<lambda>c. pool_write (nat (checksum_at + i)) [NOT (c + csum) + 1])"

section \<open>Flush time\<close>

definition pslab_update_flushtime :: "32 word \<Rightarrow> ('z pslab_state_scheme, unit) exec" where
  "pslab_update_flushtime time =
     bnd (pool_byte valid_at) (\<lambda>valid.
     let i = (uint valid - 1) XOR 1 in
     seq (pool_write (nat (flush_time_at + 4 * i)) (le_bytes 4 time))
    (seq (pslab_checksum_update (pslab_do_checksum (le_bytes 4 time)) i)
    (bnd (gets pslab_pool) (\<lambda>pool.
     seq (pmem_flush (pool + nat flush_time_at) 8)
    (seq (pmem_persist (pool + nat checksum_at) 2)
    (seq (pool_write valid_at [word_of_int (i + 1)])
         (pmem_persist (pool + valid_at) 1)))))))"

definition pslab_process_started :: "64 word \<Rightarrow> ('z pslab_state_scheme, 64 word) exec" where
  "pslab_process_started process_started =
     (if process_started \<noteq> 0
      then seq (modify (\<lambda>s. s\<lparr>process_started_new := process_started\<rparr>))
               (bnd (pool_read process_started_at 8) (\<lambda>bs. ret (le_word bs)))
      else gets process_started_new)"

section \<open>Creating and opening a pool\<close>

definition map_pool :: "ptr \<Rightarrow> nat \<Rightarrow> ('z pslab_state_scheme, unit) exec" where
  "map_pool addr len = modify (\<lambda>s. s\<lparr>pslab_pool := addr, mapped_len := len\<rparr>)"

text \<open>\<^verbatim>\<open>pslab_start\<close> and \<^verbatim>\<open>pslab_end\<close> from the header.\<close>

definition set_frames :: "('z pslab_state_scheme, unit) exec" where
  "set_frames =
     bnd (gets pslab_pool) (\<lambda>pool.
     bnd (pool_word length_at) (\<lambda>len.
     bnd (pool_word slab_num_at) (\<lambda>num.
     bnd PSLAB_FRAME_SIZE (\<lambda>frame.
     modify (\<lambda>s. s\<lparr>pslab_start := pool + unat len, pslab_end := pool + unat len + unat num * frame\<rparr>)))))"

text \<open>\<^verbatim>\<open>strncmp(a, b, n) == 0\<close>\<close>

fun strncmp_eq :: "8 word list \<Rightarrow> 8 word list \<Rightarrow> nat \<Rightarrow> bool" where
  "strncmp_eq (x # xs) (y # ys) (Suc n) \<longleftrightarrow> x = y \<and> (x = 0 \<or> strncmp_eq xs ys n)"
| "strncmp_eq _ _ _ \<longleftrightarrow> True"

primrec read_sizes :: "nat \<Rightarrow> nat \<Rightarrow> 32 word list \<Rightarrow> ('z pslab_state_scheme, 32 word list) exec" where
  "read_sizes 0 i slab_sizes =
     (if i < length slab_sizes then ret (slab_sizes[i := 0]) else raise IndexRange)"
| "read_sizes (Suc k) i slab_sizes =
     bnd (pool_word (slabclass_sizes_at + 4 * i)) (\<lambda>w.
     if i < length slab_sizes then read_sizes k (Suc i) (slab_sizes[i := w]) else raise IndexRange)"

definition pslab_pre_recover :: "ptr \<Rightarrow> nat \<Rightarrow> bool \<Rightarrow> bool \<Rightarrow> 32 word list \<Rightarrow> 32 word \<Rightarrow>
    ('z pslab_state_scheme, int \<times> 32 word list) exec" where
  "pslab_pre_recover addr mapped is_pmem pslab_force slab_sizes slab_page_size =
     seq (map_pool addr mapped)
    (if addr = NULL then ret (-1, slab_sizes)
     else if \<not> is_pmem \<and> \<not> pslab_force then ret (-1, slab_sizes)
     else
     bnd (pool_read signature_at 4) (\<lambda>sig.
     if \<not> strncmp_eq sig PSLAB_POOL_SIG 4 then ret (-1, slab_sizes)
     else
     seq pslab_checksum_init
    (bnd (pool_byte valid_at) (\<lambda>valid.
     bnd (pslab_checksum_check (uint valid - 1)) (\<lambda>c.
     if c \<noteq> 0 then ret (-1, slab_sizes)
     else
     bnd (pool_read version_at PSLAB_POOL_VER_SIZE) (\<lambda>ver.
     if \<not> strncmp_eq ver (VERSION @ [0]) PSLAB_POOL_VER_SIZE then ret (-1, slab_sizes)
     else
     bnd (pool_word slab_page_size_at) (\<lambda>page.
     if page \<noteq> slab_page_size then ret (-1, slab_sizes)
     else
     bnd (pool_word slabclass_num_at) (\<lambda>num.
     bnd (read_sizes (unat num) 0 slab_sizes) (\<lambda>slab_sizes.
     seq set_frames (ret (0, slab_sizes)))))))))))"

text \<open>The flush time that recovery adopts, the first statement of \<^verbatim>\<open>pslab_do_recover\<close>.\<close>

definition recovered_flush_time :: "('z pslab_state_scheme, 32 word) exec" where
  "recovered_flush_time =
     bnd (pool_byte valid_at) (\<lambda>valid. pool_word (nat (flush_time_at + 4 * (uint valid - 1))))"

text \<open>The length of the header, rounded up to eight bytes.\<close>

definition pool_length :: "nat \<Rightarrow> 32 word" where
  "pool_length slabclass_num =
     ucast ((of_nat slabclass_sizes_at + 4 * of_nat slabclass_num + 7) AND PSLAB_ALIGN_MASK :: 64 word)"

primrec write_sizes :: "nat \<Rightarrow> 32 word list \<Rightarrow> ('z pslab_state_scheme, unit) exec" where
  "write_sizes i [] = ret ()"
| "write_sizes i (w # ws) = seq (pool_write (slabclass_sizes_at + 4 * i) (le_bytes 4 w)) (write_sizes (Suc i) ws)"

definition pslab_fill :: "64 word \<Rightarrow> 32 word \<Rightarrow> 32 word \<Rightarrow> 32 word list \<Rightarrow> ('z pslab_state_scheme, unit) exec" where
  "pslab_fill process_started pool_size slab_page_size slabclass_sizes =
     bnd (gets pslab_pool) (\<lambda>pool.
     let len = pool_length (length slabclass_sizes) in
     seq (pmem_memset_nodrain pool 0 (unat len))
    (seq (pool_write signature_at PSLAB_POOL_SIG)
    (seq (pool_write length_at (le_bytes 4 len))
    (seq (pool_write version_at (take (PSLAB_POOL_VER_SIZE - 1) VERSION @ [0]))
    (seq (pool_write slab_page_size_at (le_bytes 4 slab_page_size))
    (bnd (pool_word length_at) (\<lambda>len.
     bnd PSLAB_FRAME_SIZE (\<lambda>frame.
     seq (pool_write slab_num_at (le_bytes 4 (of_nat (unat (pool_size - len) div frame) :: 32 word)))
    (seq set_frames
    (bnd (gets (\<lambda>s. (pslab_start s, pslab_end s))) (\<lambda>(start, pend).
     seq (for_each (frames_from start pend (unat slab_page_size)) (\<lambda>fp. pmem_memset_nodrain fp 0 sizeof_pslab_t))
    (seq (pool_write slabclass_num_at (le_bytes 4 (of_nat (length slabclass_sizes) :: 32 word)))
    (seq (write_sizes 0 slabclass_sizes)
    (seq (pool_write process_started_at (le_bytes 8 process_started))
    (seq pslab_checksum_init
    (seq (pslab_checksum_update 0 0)
    (bnd (pool_word length_at) (\<lambda>len.
     pmem_persist pool (unat len)))))))))))))))))))"

definition pslab_create :: "ptr \<Rightarrow> nat \<Rightarrow> bool \<Rightarrow> bool \<Rightarrow> 64 word \<Rightarrow> 32 word \<Rightarrow> 32 word \<Rightarrow> 32 word list \<Rightarrow>
    ('z pslab_state_scheme, int) exec" where
  "pslab_create addr mapped is_pmem pslab_force process_started pool_size slab_page_size slabclass_sizes =
     seq (map_pool addr mapped)
    (if addr = NULL then ret (-1)
     else if \<not> is_pmem \<and> \<not> pslab_force then ret (-1)
     else
     seq (pslab_fill process_started pool_size slab_page_size slabclass_sizes)
    (seq (pool_write valid_at [1])
    (bnd (gets pslab_pool) (\<lambda>pool.
     seq (pmem_persist (pool + valid_at) 1)
         (ret 0)))))"

end
