(* ===== verification/PslabCrash.thy ===== *)
theory PslabCrash
  imports PslabPool "HOL-Library.Sublist"
begin

text \<open>
  Crash consistency of the slab pool header. \<open>pool_header\<close> says what a file must hold for
  \<^verbatim>\<open>pslab_pre_recover\<close> to accept it; \<open>pool_live\<close> is the invariant of a process that has the
  pool open. The flush time survives a crash at any moment of an update: recovery finds the value
  before or the value after it.
\<close>

section \<open>Running the accesses\<close>

definition log_events :: "pm_event list \<Rightarrow> 'z pslab_state_scheme \<Rightarrow> 'z pslab_state_scheme" where
  "log_events es s = s\<lparr>file_events := file_events s @ es\<rparr>"

lemma log_events_simps [simp]:
  "file_events (log_events es s) = file_events s @ es"
  "file_image (log_events es s) = file_image s"
  "mapped_len (log_events es s) = mapped_len s"
  "pslab_pool (log_events es s) = pslab_pool s"
  "pslab_start (log_events es s) = pslab_start s"
  "pslab_end (log_events es s) = pslab_end s"
  "pslab_chksum0 (log_events es s) = pslab_chksum0 s"
  "log_events es' (log_events es s) = log_events (es @ es') s"
  "log_events [] s = s"
  by (simp_all add: log_events_def)

lemma file_mem_log [simp]: "file_mem (log_events es s) = mem_after es (file_mem s)"
  by (simp add: file_mem_def mem_after_append)

lemma file_mem_cong: "file_events s' = file_events s \<Longrightarrow> file_image s' = file_image s \<Longrightarrow> file_mem s' = file_mem s"
  by (simp add: file_mem_def)

lemma file_event_run [exec_simps]: "file_event e s = Inr ((), log_events [e] s)"
  by (simp add: file_event_def exec_simps log_events_def)

lemma file_check_ok [exec_simps]:
  "pslab_pool s \<noteq> NULL \<Longrightarrow> pslab_pool s \<le> p \<Longrightarrow> p + n \<le> pslab_pool s + mapped_len s \<Longrightarrow>
   file_check p n s = Inr (p - pslab_pool s, s)"
  by (simp add: file_check_def)

lemma file_write_ok [exec_simps]:
  "pslab_pool s \<noteq> NULL \<Longrightarrow> pslab_pool s \<le> p \<Longrightarrow> p + length bs \<le> pslab_pool s + mapped_len s \<Longrightarrow>
   file_write p bs s = Inr ((), log_events [PmStore (p - pslab_pool s) bs] s)"
  by (simp add: file_write_def exec_simps)

lemma pool_read_ok [exec_simps]:
  "pslab_pool s \<noteq> NULL \<Longrightarrow> off + n \<le> mapped_len s \<Longrightarrow> pool_read off n s = Inr (bytes_at (file_mem s) off n, s)"
  by (simp add: pool_read_def file_read_def exec_simps)

lemma pool_write_ok [exec_simps]:
  "pslab_pool s \<noteq> NULL \<Longrightarrow> off + length bs \<le> mapped_len s \<Longrightarrow>
   pool_write off bs s = Inr ((), log_events [PmStore off bs] s)"
  by (simp add: pool_write_def exec_simps)

lemma pool_word_ok [exec_simps]:
  "pslab_pool s \<noteq> NULL \<Longrightarrow> off + 4 \<le> mapped_len s \<Longrightarrow> pool_word off s = Inr (le_word (bytes_at (file_mem s) off 4), s)"
  by (simp add: pool_word_def exec_simps)

lemma pool_byte_ok [exec_simps]:
  "pslab_pool s \<noteq> NULL \<Longrightarrow> off + 1 \<le> mapped_len s \<Longrightarrow> pool_byte off s = Inr (file_mem s off, s)"
  by (simp add: pool_byte_def exec_simps)

lemma pmem_flush_ok [exec_simps]:
  "pslab_pool s \<noteq> NULL \<Longrightarrow> pslab_pool s \<le> p \<Longrightarrow> p + n \<le> pslab_pool s + mapped_len s \<Longrightarrow>
   pmem_flush p n s = Inr ((), log_events [PmFlush (p - pslab_pool s) n] s)"
  by (simp add: pmem_flush_def exec_simps)

lemma pmem_persist_ok [exec_simps]:
  "pslab_pool s \<noteq> NULL \<Longrightarrow> pslab_pool s \<le> p \<Longrightarrow> p + n \<le> pslab_pool s + mapped_len s \<Longrightarrow>
   pmem_persist p n s = Inr ((), log_events [PmFlush (p - pslab_pool s) n, PmDrain] s)"
  by (simp add: pmem_persist_def pmem_drain_def exec_simps)

lemma pmem_memset_ok [exec_simps]:
  "pslab_pool s \<noteq> NULL \<Longrightarrow> pslab_pool s \<le> p \<Longrightarrow> p + n \<le> pslab_pool s + mapped_len s \<Longrightarrow>
   pmem_memset_nodrain p c n s =
     Inr ((), log_events [PmStore (p - pslab_pool s) (replicate n c), PmFlush (p - pslab_pool s) n] s)"
  by (simp add: pmem_memset_nodrain_def exec_simps)

section \<open>The header\<close>

definition header_len :: "mem \<Rightarrow> nat" where
  "header_len m = unat (le_word (bytes_at m length_at 4) :: 32 word)"

definition class_num :: "mem \<Rightarrow> nat" where
  "class_num m = unat (le_word (bytes_at m slabclass_num_at 4) :: 32 word)"

definition class_sizes :: "mem \<Rightarrow> 32 word list" where
  "class_sizes m = map (\<lambda>i. le_word (bytes_at m (slabclass_sizes_at + 4 * i) 4)) [0..<class_num m]"

definition chksum0_of :: "mem \<Rightarrow> 8 word" where
  "chksum0_of m = pslab_do_checksum (bytes_at m signature_at 21) + pslab_do_checksum (bytes_at m process_started_at 8)
     + pslab_do_checksum (bytes_at m slab_num_at (header_len m - 40))"

definition copy_time :: "mem \<Rightarrow> nat \<Rightarrow> 32 word" where
  "copy_time m i = le_word (bytes_at m (32 + 4 * i) 4)"

definition copy_ok :: "mem \<Rightarrow> nat \<Rightarrow> bool" where
  "copy_ok m i \<longleftrightarrow> chksum0_of m + m (21 + i) + pslab_do_checksum (bytes_at m (32 + 4 * i) 4) = 0"

definition live_copy :: "mem \<Rightarrow> nat" where
  "live_copy m = unat (m valid_at) - 1"

definition pool_geometry :: "nat \<Rightarrow> 32 word \<Rightarrow> mem \<Rightarrow> bool" where
  "pool_geometry mapped page m \<longleftrightarrow>
     bytes_at m signature_at 4 = PSLAB_POOL_SIG \<and> strncmp_eq (bytes_at m version_at 12) (VERSION @ [0]) 12 \<and>
     le_word (bytes_at m slab_page_size_at 4) = page \<and>
     52 + 4 * class_num m \<le> header_len m \<and> header_len m \<le> mapped"

definition pool_header :: "nat \<Rightarrow> 32 word \<Rightarrow> mem \<Rightarrow> bool" where
  "pool_header mapped page m \<longleftrightarrow> pool_geometry mapped page m \<and> m valid_at \<in> {1, 2} \<and> copy_ok m (live_copy m)"

text \<open>Bytes outside the two copies and the number of the valid one.\<close>

definition fixed_byte :: "nat \<Rightarrow> bool" where
  "fixed_byte a \<longleftrightarrow> a < 21 \<or> 24 \<le> a \<and> a < 32 \<or> 40 \<le> a"

lemma fixed_bytes:
  assumes "\<And>a. a < header_len m \<Longrightarrow> fixed_byte a \<Longrightarrow> m' a = m a" and "pool_geometry mapped page m"
  shows "header_len m' = header_len m" "class_num m' = class_num m" "chksum0_of m' = chksum0_of m"
    "class_sizes m' = class_sizes m" "pool_geometry mapped page m'"
proof -
  have len: "52 + 4 * class_num m \<le> header_len m" using assms(2) by (simp add: pool_geometry_def)
  have same: "bytes_at m' a n = bytes_at m a n"
    if "a + n \<le> header_len m" "a + n \<le> 21 \<or> 24 \<le> a \<and> a + n \<le> 32 \<or> 40 \<le> a" for a n
    using assms(1) that by (intro bytes_at_cong) (auto simp: fixed_byte_def)
  have "bytes_at m' 4 4 = bytes_at m 4 4" "bytes_at m' 48 4 = bytes_at m 48 4"
    using len by (simp_all add: same)
  then show h: "header_len m' = header_len m" "class_num m' = class_num m"
    by (simp_all add: header_len_def class_num_def pool_layout)
  show "chksum0_of m' = chksum0_of m"
    using len by (simp add: chksum0_of_def h same pool_layout)
  show "class_sizes m' = class_sizes m"
    using len by (auto simp: class_sizes_def h same pool_layout)
  show "pool_geometry mapped page m'"
    using len assms(2) by (simp add: pool_geometry_def h same pool_layout)
qed

section \<open>Opening a pool\<close>

lemma read_sizes_run:
  assumes "pslab_pool s \<noteq> NULL" and "52 + 4 * (i + k) \<le> mapped_len s" and "i + k < length xs"
  shows "read_sizes k i xs s =
    Inr (take i xs @ map (\<lambda>j. le_word (bytes_at (file_mem s) (52 + 4 * j) 4)) [i..<i + k] @ 0 # drop (Suc (i + k)) xs, s)"
  using assms
proof (induction k arbitrary: i xs)
  case 0
  then show ?case by (simp add: exec_simps upd_conv_take_nth_drop)
next
  case (Suc k)
  let ?w = "le_word (bytes_at (file_mem s) (52 + 4 * i) 4) :: 32 word"
  have "read_sizes (Suc k) i xs s = read_sizes k (Suc i) (xs[i := ?w]) s"
    using Suc.prems by (simp add: exec_simps pool_layout)
  also have "\<dots> = Inr (take (Suc i) (xs[i := ?w]) @ map (\<lambda>j. le_word (bytes_at (file_mem s) (52 + 4 * j) 4)) [Suc i..<i + Suc k]
      @ 0 # drop (Suc (i + Suc k)) xs, s)"
    using Suc.IH[of "Suc i" "xs[i := ?w]"] Suc.prems by simp
  also have "take (Suc i) (xs[i := ?w]) = take i xs @ [?w]"
    using Suc.prems by (simp add: take_Suc_conv_app_nth)
  finally show ?case by (simp add: upt_conv_Cons del: upt_Suc read_sizes.simps)
qed

definition opened :: "ptr \<Rightarrow> nat \<Rightarrow> 'z pslab_state_scheme \<Rightarrow> 'z pslab_state_scheme" where
  "opened addr mapped s = (let m = file_mem s; frame = 12 + unat (le_word (bytes_at m 44 4) :: 32 word) in
     s\<lparr>pslab_pool := addr, mapped_len := mapped, pslab_chksum0 := chksum0_of m, pslab_start := addr + header_len m,
       pslab_end := addr + header_len m + unat (le_word (bytes_at m 40 4) :: 32 word) * frame\<rparr>)"

lemma unat_header_len: "52 \<le> header_len m \<Longrightarrow>
  unat (le_word (bytes_at m 4 4) - 40 :: 32 word) = header_len m - 40"
  by (simp add: header_len_def pool_layout unat_sub word_le_nat_alt)

lemma checksum_init_run:
  assumes "pslab_pool s \<noteq> NULL" and "52 \<le> header_len (file_mem s)" and "header_len (file_mem s) \<le> mapped_len s"
  shows "pslab_checksum_init s = Inr ((), s\<lparr>pslab_chksum0 := chksum0_of (file_mem s)\<rparr>)"
  using assms unat_header_len[OF assms(2)]
  by (simp add: pslab_checksum_init_def exec_simps pool_layout chksum0_of_def)

lemma valid_index:
  assumes "m valid_at \<in> {1, 2}"
  shows "uint (m valid_at) - 1 = int (live_copy m)" "live_copy m < 2"
  using assms by (auto simp: live_copy_def)

lemma checksum_check_run:
  assumes "pslab_pool s \<noteq> NULL" and "40 \<le> mapped_len s" and "i < 2" and "pslab_chksum0 s = chksum0_of (file_mem s)"
  shows "pslab_checksum_check (int i) s =
    Inr (chksum0_of (file_mem s) + file_mem s (21 + i) + pslab_do_checksum (bytes_at (file_mem s) (32 + 4 * i) 4), s)"
proof -
  have "nat (21 + int i) = 21 + i" "nat (32 + 4 * int i) = 32 + 4 * i" by auto
  moreover have "pslab_do_checksum [b] = b" for b by (simp add: pslab_do_checksum_def)
  ultimately show ?thesis using assms by (simp add: pslab_checksum_check_def exec_simps pool_layout)
qed

definition mapped_at :: "ptr \<Rightarrow> nat \<Rightarrow> 'z pslab_state_scheme \<Rightarrow> 'z pslab_state_scheme" where
  "mapped_at addr mapped s = s\<lparr>pslab_pool := addr, mapped_len := mapped, pslab_chksum0 := chksum0_of (file_mem s)\<rparr>"

text \<open>With a sound geometry the checksum of the copy that \<^verbatim>\<open>valid\<close> names decides.\<close>

lemma pre_recover_geometry:
  assumes "addr \<noteq> NULL" and "is_pmem \<or> pslab_force" and g: "pool_geometry mapped page (file_mem s)"
    and "class_num (file_mem s) < length slab_sizes"
    and check: "pslab_checksum_check (uint (file_mem s valid_at) - 1) (mapped_at addr mapped s) = Inr (c, mapped_at addr mapped s)"
  shows "pslab_pre_recover addr mapped is_pmem pslab_force slab_sizes page s =
    (if c \<noteq> 0 then Inr ((-1, slab_sizes), mapped_at addr mapped s)
     else Inr ((0, class_sizes (file_mem s) @ 0 # drop (Suc (class_num (file_mem s))) slab_sizes), opened addr mapped s))"
proof -
  let ?m = "file_mem s"
  let ?s1 = "s\<lparr>pslab_pool := addr, mapped_len := mapped\<rparr>"
  let ?s2 = "mapped_at addr mapped s"
  have m: "file_mem ?s1 = ?m" "file_mem ?s2 = ?m" by (simp_all add: file_mem_def mapped_at_def)
  have s2: "pslab_pool ?s2 = addr" "mapped_len ?s2 = mapped" by (simp_all add: mapped_at_def)
  from g have len: "52 + 4 * class_num ?m \<le> header_len ?m" "header_len ?m \<le> mapped"
    and sig: "bytes_at ?m 0 4 = PSLAB_POOL_SIG" and ver: "strncmp_eq (bytes_at ?m 8 12) (VERSION @ [0]) 12"
    and page: "le_word (bytes_at ?m 44 4) = page"
    by (auto simp: pool_geometry_def pool_layout)
  have init: "pslab_checksum_init ?s1 = Inr ((), ?s2)"
    using checksum_init_run[of ?s1] assms(1) len by (simp add: m mapped_at_def)
  have sizes: "read_sizes (class_num ?m) 0 slab_sizes ?s2 =
      Inr (class_sizes ?m @ 0 # drop (Suc (class_num ?m)) slab_sizes, ?s2)"
    using read_sizes_run[of ?s2 0 "class_num ?m" slab_sizes] assms(1,4) len
    by (simp add: m s2 class_sizes_def pool_layout)
  have frames: "set_frames ?s2 = Inr ((), opened addr mapped s)"
    using assms(1) len by (simp add: set_frames_def PSLAB_FRAME_SIZE_def exec_simps m s2 pool_layout)
      (simp add: mapped_at_def opened_def Let_def header_len_def sizeof_pslab_t_def length_at_def)
  have sigok: "strncmp_eq PSLAB_POOL_SIG PSLAB_POOL_SIG 4"
    by (simp add: PSLAB_POOL_SIG_def numeral_eq_Suc)
  have cn: "unat (le_word (bytes_at ?m 48 4) :: 32 word) = class_num ?m" by (simp add: class_num_def pool_layout)
  show ?thesis
    using assms(1,2) len init check sizes frames sig ver page sigok cn
    by (auto simp: pslab_pre_recover_def map_pool_def exec_simps m s2 signature_at_def version_at_def valid_at_def
        slab_page_size_at_def slabclass_num_at_def PSLAB_POOL_VER_SIZE_def)
qed

lemma pre_recover_run:
  assumes "addr \<noteq> NULL" and "is_pmem \<or> pslab_force" and h: "pool_header mapped page (file_mem s)"
    and "class_num (file_mem s) < length slab_sizes"
  shows "pslab_pre_recover addr mapped is_pmem pslab_force slab_sizes page s =
    Inr ((0, class_sizes (file_mem s) @ 0 # drop (Suc (class_num (file_mem s))) slab_sizes), opened addr mapped s)"
    and "recovered_flush_time (opened addr mapped s) = Inr (copy_time (file_mem s) (live_copy (file_mem s)), opened addr mapped s)"
proof -
  let ?m = "file_mem s"
  let ?s2 = "mapped_at addr mapped s"
  from h have g: "pool_geometry mapped page ?m" and v: "?m valid_at \<in> {1, 2}" and c: "copy_ok ?m (live_copy ?m)"
    by (auto simp: pool_header_def)
  from g have len: "52 \<le> mapped" by (auto simp: pool_geometry_def)
  have m: "file_mem ?s2 = ?m" "file_mem (opened addr mapped s) = ?m"
    by (simp_all add: file_mem_def opened_def mapped_at_def Let_def)
  have "pslab_checksum_check (uint (?m valid_at) - 1) ?s2 = Inr (0, ?s2)"
    using checksum_check_run[of ?s2 "live_copy ?m"] valid_index[of ?m, OF v] c assms(1) len
    by (simp add: m copy_ok_def) (simp add: mapped_at_def m)
  from pre_recover_geometry[OF assms(1,2) g assms(4) this]
  show "pslab_pre_recover addr mapped is_pmem pslab_force slab_sizes page s =
      Inr ((0, class_sizes ?m @ 0 # drop (Suc (class_num ?m)) slab_sizes), opened addr mapped s)"
    by simp
  have "nat (28 + 4 * uint (?m valid_at)) = 32 + 4 * live_copy ?m"
    using valid_index[of ?m, OF v] by linarith
  moreover have "pslab_pool (opened addr mapped s) = addr" "mapped_len (opened addr mapped s) = mapped"
    by (simp_all add: opened_def Let_def)
  ultimately show "recovered_flush_time (opened addr mapped s) = Inr (copy_time ?m (live_copy ?m), opened addr mapped s)"
    using assms(1) len valid_index[of ?m, OF v]
    by (simp add: recovered_flush_time_def exec_simps m flush_time_at_def copy_time_def valid_at_def)
qed

section \<open>Updating the flush time\<close>

text \<open>The invariant of a process with the pool open: the header is accepted by recovery, and no byte
  of it can be lost.\<close>

definition pool_live :: "32 word \<Rightarrow> 'z pslab_state_scheme \<Rightarrow> bool" where
  "pool_live page s \<longleftrightarrow> pslab_pool s \<noteq> NULL \<and> pool_header (mapped_len s) page (file_mem s) \<and>
     pslab_chksum0 s = chksum0_of (file_mem s) \<and>
     (\<forall>a < header_len (file_mem s). settled (file_events s) (file_image s) a)"

definition flush_events :: "nat \<Rightarrow> 8 word \<Rightarrow> 32 word \<Rightarrow> pm_event list" where
  "flush_events i c time =
     [PmStore (32 + 4 * i) (le_bytes 4 time), PmStore (21 + i) [NOT (c + pslab_do_checksum (le_bytes 4 time)) + 1],
      PmFlush 32 8, PmFlush 21 2, PmDrain, PmStore 23 [of_nat i + 1], PmFlush 23 1, PmDrain]"

lemma other_copy: "i < 2 \<Longrightarrow> int i XOR 1 = int (1 - i)"
  by (auto simp: less_2_cases_iff)

lemma update_flushtime_run:
  assumes "pool_live page s"
  shows "pslab_update_flushtime time s =
    Inr ((), log_events (flush_events (1 - live_copy (file_mem s)) (chksum0_of (file_mem s)) time) s)"
proof -
  let ?m = "file_mem s"
  define i where "i = 1 - live_copy ?m"
  from assms have p: "pslab_pool s \<noteq> NULL" and v: "?m valid_at \<in> {1, 2}"
    and c: "pslab_chksum0 s = chksum0_of ?m" and len: "52 \<le> mapped_len s"
    by (auto simp: pool_live_def pool_header_def pool_geometry_def)
  have "(uint (?m 23) - 1) XOR 1 = int i"
    using valid_index[of ?m, OF v] other_copy[of "live_copy ?m"] by (simp add: valid_at_def i_def)
  moreover have "nat (32 + 4 * int i) = 32 + 4 * i" "nat (21 + int i) = 21 + i" by auto
  moreover have "i < 2" by (simp add: i_def)
  ultimately show ?thesis
    using p len unfolding pslab_update_flushtime_def pslab_checksum_update_def i_def[symmetric]
    by (simp add: exec_simps valid_at_def flush_time_at_def checksum_at_def c Let_def flush_events_def)
qed

text \<open>The file after the stores to the copy that is not valid, and after a part of the events.\<close>

definition copy_written :: "nat \<Rightarrow> 32 word \<Rightarrow> mem \<Rightarrow> mem" where
  "copy_written i time m = (put_bytes (32 + 4 * i) (le_bytes 4 time) m)
     (21 + i := NOT (chksum0_of m + pslab_do_checksum (le_bytes 4 time)) + 1)"

definition copy_events :: "nat \<Rightarrow> 8 word \<Rightarrow> 32 word \<Rightarrow> pm_event list" where
  "copy_events i c time =
     [PmStore (32 + 4 * i) (le_bytes 4 time), PmStore (21 + i) [NOT (c + pslab_do_checksum (le_bytes 4 time)) + 1],
      PmFlush 32 8, PmFlush 21 2, PmDrain]"

lemma flush_events_split: "flush_events i c time = copy_events i c time @ [PmStore 23 [of_nat i + 1], PmFlush 23 1, PmDrain]"
  by (simp add: flush_events_def copy_events_def)

lemma mem_after_copy: "mem_after (copy_events i (chksum0_of m) time) m = copy_written i time m"
  by (simp add: mem_after_def copy_events_def copy_written_def)

lemma copy_unwritten:
  assumes "e \<in> set (copy_events i c time)" and "writes a e"
  shows "32 + 4 * i \<le> a \<and> a < 36 + 4 * i \<or> a = 21 + i"
  using assms by (auto simp: copy_events_def)

lemma copy_written_other: "\<not> (32 + 4 * i \<le> a \<and> a < 36 + 4 * i) \<Longrightarrow> a \<noteq> 21 + i \<Longrightarrow> copy_written i time m a = m a"
  by (auto simp: copy_written_def put_bytes_apply)

lemma copy_written_ok:
  assumes "i < 2" and "pool_geometry mapped page m"
  shows "copy_ok (copy_written i time m) i" "copy_time (copy_written i time m) i = time"
proof -
  have "chksum0_of (copy_written i time m) = chksum0_of m"
    using assms by (intro fixed_bytes(3)[OF _ assms(2)] copy_written_other) (auto simp: fixed_byte_def)
  moreover have b: "bytes_at (copy_written i time m) (32 + 4 * i) 4 = le_bytes 4 time"
  proof -
    have "bytes_at (copy_written i time m) (32 + 4 * i) 4 = bytes_at (put_bytes (32 + 4 * i) (le_bytes 4 time) m) (32 + 4 * i) 4"
      using assms(1) by (intro bytes_at_cong) (auto simp: copy_written_def)
    then show ?thesis by simp
  qed
  moreover have "x + (NOT (x + y) + 1) + y = 0" for x y :: "8 word"
    by (simp add: not_eq_complement)
  ultimately show "copy_ok (copy_written i time m) i"
    by (simp add: copy_ok_def) (simp add: copy_written_def)
  show "copy_time (copy_written i time m) i = time"
    by (simp add: copy_time_def b)
qed

text \<open>A file with the fixed bytes of a pool and an intact copy under its valid number is accepted.\<close>

lemma header_by_copy:
  assumes g: "pool_geometry mapped page m" and fixed: "\<And>a. a < header_len m \<Longrightarrow> fixed_byte a \<Longrightarrow> m' a = m a"
    and v: "m' 23 = of_nat j + 1" "j < 2" and c: "copy_ok m'' j" and m'': "chksum0_of m'' = chksum0_of m"
    and same: "m' (21 + j) = m'' (21 + j)" "\<And>a. 32 + 4 * j \<le> a \<Longrightarrow> a < 36 + 4 * j \<Longrightarrow> m' a = m'' a"
  shows "pool_header mapped page m' \<and> class_sizes m' = class_sizes m \<and> live_copy m' = j \<and> copy_time m' j = copy_time m'' j"
proof -
  note f = fixed_bytes[OF fixed g]
  have b: "bytes_at m' (32 + 4 * j) 4 = bytes_at m'' (32 + 4 * j) 4"
    using same by (intro bytes_at_cong) auto
  have l: "live_copy m' = j" "m' valid_at \<in> {1, 2}"
    using v by (auto simp: live_copy_def valid_at_def less_2_cases_iff)
  moreover have "copy_ok m' j" using c m'' f(3) b same(1) by (simp add: copy_ok_def)
  ultimately show ?thesis using f b by (simp add: pool_header_def copy_time_def)
qed

lemma header_valid: "pool_header mapped page m \<Longrightarrow> m 23 = of_nat (live_copy m) + 1 \<and> live_copy m < 2"
  by (auto simp: pool_header_def live_copy_def valid_at_def)

lemma settled_copy:
  assumes "21 \<le> a \<and> a < 23 \<or> 32 \<le> a \<and> a < 40"
  shows "settled (tr @ copy_events i c time) m a"
proof -
  have "settled ((tr @ take 2 (copy_events i c time)) @ PmFlush 32 8 # [PmFlush 21 2] @ [PmDrain]) m a" if "32 \<le> a" "a < 40"
    using that by (intro settled_flushed) auto
  moreover have "settled ((tr @ take 3 (copy_events i c time)) @ PmFlush 21 2 # [] @ [PmDrain]) m a" if "21 \<le> a" "a < 23"
    using that by (intro settled_flushed) auto
  ultimately show ?thesis using assms by (auto simp: copy_events_def)
qed

lemma copy_settled:
  assumes "settled tr m a" and "i < 2"
  shows "settled (tr @ copy_events i c time) m a"
proof (cases "32 + 4 * i \<le> a \<and> a < 36 + 4 * i \<or> a = 21 + i")
  case True
  then show ?thesis using assms(2) by (intro settled_copy) linarith
next
  case False
  then show ?thesis using assms(1) copy_unwritten[of _ i c time a] by (intro settled_append) auto
qed

lemma prefix_cases3: "prefix p [x, y, z] \<Longrightarrow> p = [] \<or> p = [x] \<or> p = [x, y] \<or> p = [x, y, z]"
  by (auto simp: prefix_Cons)

text \<open>The two phases of an update: before the drain only the other copy can have changed, after it
  both copies are intact.\<close>

lemma header_early:
  assumes h: "pool_header mapped page m" and i: "i + live_copy m = 1"
    and old: "\<And>a. a < header_len m \<Longrightarrow> \<not> (32 + 4 * i \<le> a \<and> a < 36 + 4 * i) \<Longrightarrow> a \<noteq> 21 + i \<Longrightarrow> m' a = m a"
  shows "pool_header mapped page m' \<and> class_sizes m' = class_sizes m \<and> live_copy m' = live_copy m \<and>
    copy_time m' (live_copy m) = copy_time m (live_copy m)"
proof -
  from h have g: "pool_geometry mapped page m" and c: "copy_ok m (live_copy m)" by (auto simp: pool_header_def)
  then have len: "52 \<le> header_len m" by (auto simp: pool_geometry_def)
  have l: "live_copy m < 2" "m' 23 = of_nat (live_copy m) + 1" using header_valid[OF h] old[of 23] len i by auto
  have fixed: "m' a = m a" if "a < header_len m" "fixed_byte a" for a
    using that i by (intro old) (auto simp: fixed_byte_def)
  have same: "m' (21 + live_copy m) = m (21 + live_copy m)"
    "\<And>a. 32 + 4 * live_copy m \<le> a \<Longrightarrow> a < 36 + 4 * live_copy m \<Longrightarrow> m' a = m a"
    using i len l(1) by (auto intro!: old simp: less_2_cases_iff)
  show ?thesis using fixed same by (intro header_by_copy[OF g fixed l(2,1) c]) auto
qed

lemma header_late:
  assumes h: "pool_header mapped page m" and i: "i + live_copy m = 1"
    and new: "\<And>a. a < header_len m \<Longrightarrow> a \<noteq> 23 \<Longrightarrow> m' a = copy_written i time m a"
    and v: "m' 23 = m 23 \<or> m' 23 = of_nat i + 1"
  shows "pool_header mapped page m' \<and> class_sizes m' = class_sizes m \<and>
    copy_time m' (live_copy m') = (if m' 23 = m 23 then copy_time m (live_copy m) else time)"
proof -
  let ?n = "copy_written i time m"
  from h have g: "pool_geometry mapped page m" and c: "copy_ok m (live_copy m)" by (auto simp: pool_header_def)
  then have len: "52 \<le> header_len m" by (auto simp: pool_geometry_def)
  have l: "live_copy m < 2" "m 23 = of_nat (live_copy m) + 1" using header_valid[OF h] by auto
  have other: "?n a = m a" if "fixed_byte a" for a
    using that i by (intro copy_written_other) (auto simp: fixed_byte_def)
  have fixed: "m' a = m a" if "a < header_len m" "fixed_byte a" for a
    using new[of a] other[of a] that by (auto simp: fixed_byte_def)
  have n: "chksum0_of ?n = chksum0_of m" using other by (intro fixed_bytes(3)[OF _ g])
  have i2: "i < 2" using i by simp
  show ?thesis
  proof (cases "m' 23 = m 23")
    case True
    have "m' a = m a" if "a < header_len m" "\<not> (32 + 4 * i \<le> a \<and> a < 36 + 4 * i)" "a \<noteq> 21 + i" for a
      using True new[OF that(1)] copy_written_other[OF that(2,3)] by (cases "a = 23") auto
    from header_early[OF h i this]
    show ?thesis using True by simp
  next
    case False
    with v have vi: "m' 23 = of_nat i + 1" by simp
    have "pool_header mapped page m' \<and> class_sizes m' = class_sizes m \<and> live_copy m' = i \<and> copy_time m' i = copy_time ?n i"
      by (rule header_by_copy[OF g fixed vi i2 copy_written_ok(1)[OF i2 g] n]) (use i len new in auto)
    with False show ?thesis using copy_written_ok(2)[OF i2 g] by simp
  qed
qed

lemma flush_crash:
  assumes live: "pool_live page s" and doc: "pmem_documented crash" and i: "i = 1 - live_copy (file_mem s)"
    and pre: "prefix pre (flush_events i (chksum0_of (file_mem s)) time)"
    and crash: "crash (file_image s) (file_events s @ pre) m'"
  shows "pool_header (mapped_len s) page m' \<and> class_sizes m' = class_sizes (file_mem s) \<and>
      copy_time m' (live_copy m') \<in> {copy_time (file_mem s) (live_copy (file_mem s)), time} \<and>
      (pre = flush_events i (chksum0_of (file_mem s)) time \<longrightarrow> copy_time m' (live_copy m') = time)"
proof -
  let ?m = "file_mem s"
  let ?ces = "copy_events i (chksum0_of ?m) time"
  let ?commit = "[PmStore 23 [of_nat i + 1], PmFlush 23 1, PmDrain]"
  from live have h: "pool_header (mapped_len s) page ?m"
    and st: "\<And>a. a < header_len ?m \<Longrightarrow> settled (file_events s) (file_image s) a"
    by (auto simp: pool_live_def)
  from h have len: "52 \<le> header_len ?m" by (auto simp: pool_header_def pool_geometry_def)
  have l: "?m 23 = of_nat (live_copy ?m) + 1" "live_copy ?m < 2" using header_valid[OF h] by auto
  then have il: "i + live_copy ?m = 1" using i by linarith
  have mem: "mem_after (file_events s @ es) (file_image s) = mem_after es ?m" for es
    by (simp add: file_mem_def mem_after_append)
  have unwritten: "settled (file_events s @ es) (file_image s) a \<and> mem_after es ?m a = ?m a"
    if "a < header_len ?m" "\<not> (32 + 4 * i \<le> a \<and> a < 36 + 4 * i)" "a \<noteq> 21 + i" "set es \<subseteq> set ?ces" for a es
    using that copy_unwritten[of _ i "chksum0_of ?m" time a] st settled_append mem_after_unwritten by (meson subsetD)
  consider (early) "prefix pre ?ces" | (late) p where "pre = ?ces @ p" "prefix p ?commit"
    using pre by (auto simp: flush_events_split prefix_append)
  then show ?thesis
  proof cases
    case early
    have "m' a = ?m a" if "a < header_len ?m" "\<not> (32 + 4 * i \<le> a \<and> a < 36 + 4 * i)" "a \<noteq> 21 + i" for a
      using crash_settled[OF doc crash, of a] unwritten[OF that set_mono_prefix[OF early]] mem by simp
    then have "pool_header (mapped_len s) page m' \<and> class_sizes m' = class_sizes ?m \<and> live_copy m' = live_copy ?m \<and>
        copy_time m' (live_copy ?m) = copy_time ?m (live_copy ?m)" by (rule header_early[OF h il])
    moreover have "pre \<noteq> ?ces @ ?commit" using early by (auto dest: prefix_length_le)
    ultimately show ?thesis by (auto simp: flush_events_split)
  next
    case late
    have all: "settled (file_events s @ ?ces) (file_image s) a" if "a < header_len ?m" for a
      using st[OF that] il by (intro copy_settled) auto
    have new: "m' a = copy_written i time ?m a" if "a < header_len ?m" "a \<noteq> 23" for a
    proof -
      have u: "\<forall>e \<in> set p. \<not> writes a e" using late(2) that set_mono_prefix by fastforce
      then have "settled (file_events s @ pre) (file_image s) a"
        using settled_append[OF all[OF that(1)] u] late(1) by simp
      then show ?thesis using crash_settled[OF doc crash] mem late(1) mem_after_unwritten[OF u]
        by (simp add: mem_after_append mem_after_copy)
    qed
    have "copy_written i time ?m 23 = ?m 23" using il by (intro copy_written_other) auto
    moreover have "crash (file_image s) ((file_events s @ ?ces) @ p) m'" using crash late(1) by simp
    ultimately have v: "m' 23 = ?m 23 \<or> m' 23 = of_nat i + 1" "p = ?commit \<Longrightarrow> m' 23 = of_nat i + 1"
      using crash_commit[OF doc all[of 23], of p m' "of_nat i + 1"] len prefix_cases3[OF late(2)]
      by (auto simp: mem mem_after_copy)
    have "of_nat i + 1 \<noteq> ?m 23" using il l by (auto simp: less_2_cases_iff)
    with header_late[OF h il new v(1)] v late(1) show ?thesis by (auto simp: flush_events_split)
  qed
qed

text \<open>An update keeps the invariant and installs the new time.\<close>

lemma flush_live:
  assumes live: "pool_live page s" and i: "i = 1 - live_copy (file_mem s)"
    and s': "s' = log_events (flush_events i (chksum0_of (file_mem s)) time) s"
  shows "pool_live page s' \<and> class_sizes (file_mem s') = class_sizes (file_mem s) \<and>
    copy_time (file_mem s') (live_copy (file_mem s')) = time"
proof -
  let ?m = "file_mem s" and ?m' = "file_mem s'"
  let ?commit = "[PmStore 23 [of_nat i + 1], PmFlush 23 1, PmDrain]"
  from live have h: "pool_header (mapped_len s) page ?m"
    and st: "\<And>a. a < header_len ?m \<Longrightarrow> settled (file_events s) (file_image s) a"
    by (auto simp: pool_live_def)
  have l: "?m 23 = of_nat (live_copy ?m) + 1" "live_copy ?m < 2" using header_valid[OF h] by auto
  then have il: "i + live_copy ?m = 1" using i by linarith
  have m': "?m' = (copy_written i time ?m)(23 := of_nat i + 1)"
    by (simp add: s' flush_events_split mem_after_append mem_after_copy) (simp add: mem_after_def)
  have h': "pool_header (mapped_len s) page ?m' \<and> class_sizes ?m' = class_sizes ?m \<and>
      copy_time ?m' (live_copy ?m') = (if ?m' 23 = ?m 23 then copy_time ?m (live_copy ?m) else time)"
    by (rule header_late[OF h il]) (auto simp: m')
  have "?m' a = ?m a" if "fixed_byte a" for a
    using that il by (auto simp: m' fixed_byte_def intro: copy_written_other)
  moreover have "pool_geometry (mapped_len s) page ?m" using h by (simp add: pool_header_def)
  ultimately have same: "header_len ?m' = header_len ?m" "chksum0_of ?m' = chksum0_of ?m"
    using fixed_bytes[of ?m ?m'] by blast+
  have "settled (file_events s') (file_image s) a" if "a < header_len ?m" for a
  proof -
    have "settled (file_events s @ copy_events i (chksum0_of ?m) time) (file_image s) a"
      using st[OF that] il by (intro copy_settled) auto
    then show ?thesis
      using settled_persist[of 23 a 1 "file_events s @ copy_events i (chksum0_of ?m) time @ [PmStore 23 [of_nat i + 1]]"]
        settled_append[of "file_events s @ copy_events i (chksum0_of ?m) time" "file_image s" a ?commit]
      by (cases "a = 23") (auto simp: s' flush_events_split)
  qed
  moreover have "?m' 23 \<noteq> ?m 23" using il l by (auto simp: m' less_2_cases_iff)
  ultimately show ?thesis using live h' same by (simp add: pool_live_def s')
qed

end
