(* ===== verification/PslabCreate.thy ===== *)
theory PslabCreate
  imports PslabCrash
begin

text \<open>
  Creation of a slab pool: \<^verbatim>\<open>pslab_create\<close> leaves a pool that recovery accepts, with the class
  sizes it was given and with all frames inside the file.
\<close>

section \<open>Frames\<close>

lemma frames_from_map:
  "frames_from start (start + num * (sizeof_pslab_t + page)) page = map (\<lambda>i. start + i * (sizeof_pslab_t + page)) [0..<num]"
proof (induction num arbitrary: start)
  case 0
  then show ?case by (simp add: frames_from.simps)
next
  case (Suc num)
  let ?f = "sizeof_pslab_t + page"
  have "frames_from start (start + Suc num * ?f) page = start # frames_from (start + ?f) (start + ?f + num * ?f) page"
    by (subst frames_from.simps) (simp add: sizeof_pslab_t_def algebra_simps)
  also have "\<dots> = start # map (\<lambda>i. start + ?f + i * ?f) [0..<num]"
    by (simp only: Suc.IH)
  also have "\<dots> = map (\<lambda>i. start + i * ?f) [0..<Suc num]"
    by (subst upt_conv_Cons) (simp_all add: map_Suc_upt[symmetric] algebra_simps del: upt_Suc)
  finally show ?case .
qed

definition zero_frames :: "nat \<Rightarrow> nat list \<Rightarrow> pm_event list" where
  "zero_frames pool fps = concat (map (\<lambda>fp. [PmStore (fp - pool) (replicate sizeof_pslab_t 0), PmFlush (fp - pool) sizeof_pslab_t]) fps)"

lemma zero_frames_run:
  assumes "pslab_pool s \<noteq> NULL" and "\<And>fp. fp \<in> set fps \<Longrightarrow> pslab_pool s \<le> fp \<and> fp + sizeof_pslab_t \<le> pslab_pool s + mapped_len s"
  shows "for_each fps (\<lambda>fp. pmem_memset_nodrain fp 0 sizeof_pslab_t) s = Inr ((), log_events (zero_frames (pslab_pool s) fps) s)"
  using assms
proof (induction fps arbitrary: s)
  case Nil
  then show ?case by (simp add: zero_frames_def exec_simps)
next
  case (Cons fp fps)
  let ?s = "log_events [PmStore (fp - pslab_pool s) (replicate sizeof_pslab_t 0), PmFlush (fp - pslab_pool s) sizeof_pslab_t] s"
  have "pmem_memset_nodrain fp 0 sizeof_pslab_t s = Inr ((), ?s)"
    using Cons.prems by (intro pmem_memset_ok) auto
  then show ?case using Cons.IH[of ?s] Cons.prems by (simp add: exec_simps zero_frames_def)
qed

lemma zero_frames_unwritten:
  assumes "\<And>fp. fp \<in> set fps \<Longrightarrow> pool + len \<le> fp" and "a < len"
  shows "\<forall>e \<in> set (zero_frames pool fps). \<not> writes a e"
  using assms by (fastforce simp: zero_frames_def)

lemma bytes_at_unwritten:
  assumes "\<And>b. a \<le> b \<Longrightarrow> b < a + n \<Longrightarrow> \<forall>e \<in> set es. \<not> writes b e"
  shows "bytes_at (mem_after es m) a n = bytes_at m a n"
  using assms by (intro bytes_at_cong mem_after_unwritten) auto

section \<open>Class sizes\<close>

definition size_events :: "nat \<Rightarrow> 32 word list \<Rightarrow> pm_event list" where
  "size_events i ws = map (\<lambda>j. PmStore (52 + 4 * (i + j)) (le_bytes 4 (ws ! j))) [0..<length ws]"

lemma size_events_Cons: "size_events i (w # ws) = PmStore (52 + 4 * i) (le_bytes 4 w) # size_events (Suc i) ws"
proof -
  have "[0..<length (w # ws)] = 0 # map Suc [0..<length ws]"
    by (simp only: list.size map_Suc_upt) (simp add: upt_conv_Cons del: upt_Suc)
  then show ?thesis by (simp add: size_events_def del: upt_Suc)
qed

lemma write_sizes_run:
  assumes "pslab_pool s \<noteq> NULL" and "52 + 4 * (i + length ws) \<le> mapped_len s"
  shows "write_sizes i ws s = Inr ((), log_events (size_events i ws) s)"
  using assms
proof (induction ws arbitrary: i s)
  case Nil
  then show ?case by (simp add: size_events_def exec_simps)
next
  case (Cons w ws)
  have "pool_write (slabclass_sizes_at + 4 * i) (le_bytes 4 w) s = Inr ((), log_events [PmStore (52 + 4 * i) (le_bytes 4 w)] s)"
    using Cons.prems by (simp add: exec_simps slabclass_sizes_at_def)
  then show ?case using Cons.IH[of "log_events [PmStore (52 + 4 * i) (le_bytes 4 w)] s" "Suc i"] Cons.prems
    by (simp add: exec_simps size_events_Cons)
qed

lemma size_events_unwritten:
  "a < 52 + 4 * i \<or> 52 + 4 * (i + length ws) \<le> a \<Longrightarrow> \<forall>e \<in> set (size_events i ws). \<not> writes a e"
  by (auto simp: size_events_def)

lemma size_events_read:
  "j < length ws \<Longrightarrow> bytes_at (mem_after (size_events i ws) m) (52 + 4 * (i + j)) 4 = le_bytes 4 (ws ! j)"
proof (induction ws arbitrary: i j m)
  case (Cons w ws)
  have m: "mem_after (size_events i (w # ws)) m = mem_after (size_events (Suc i) ws) (put_bytes (52 + 4 * i) (le_bytes 4 w) m)"
    by (simp add: size_events_Cons mem_after_def)
  show ?case
  proof (cases j)
    case 0
    have "bytes_at (mem_after (size_events (Suc i) ws) (put_bytes (52 + 4 * i) (le_bytes 4 w) m)) (52 + 4 * i) 4
        = bytes_at (put_bytes (52 + 4 * i) (le_bytes 4 w) m) (52 + 4 * i) 4"
      by (intro bytes_at_unwritten size_events_unwritten) auto
    then show ?thesis using 0 m by simp
  next
    case (Suc k)
    then show ?thesis using Cons.IH[of k "Suc i"] Cons.prems m by simp
  qed
qed simp

section \<open>The header length\<close>

lemma pool_length_upto: "list_all (\<lambda>n. unat (pool_length n) = 8 * ((59 + 4 * n) div 8)) [0..<64]"
  by code_simp

lemma pool_length_eq: "n < 64 \<Longrightarrow> unat (pool_length n) = 8 * ((59 + 4 * n) div 8)"
  using pool_length_upto by (simp add: list_all_iff)

lemma pool_length_bounds: "n < 64 \<Longrightarrow> 52 + 4 * n \<le> unat (pool_length n) \<and> unat (pool_length n) \<le> 59 + 4 * n \<and> unat (pool_length n) mod 8 = 0"
  by (simp add: pool_length_eq)

section \<open>Filling the header\<close>

lemma file_mem_updates [simp]:
  "file_mem (pslab_start_update f s) = file_mem s"
  "file_mem (pslab_end_update f s) = file_mem s"
  "file_mem (pslab_chksum0_update g s) = file_mem s"
  "file_mem (pslab_pool_update f s) = file_mem s"
  "file_mem (mapped_len_update f s) = file_mem s"
  "file_mem (process_started_new_update h s) = file_mem s"
  by (simp_all add: file_mem_def)

text \<open>The header without the class sizes, and with them.\<close>

definition geometry_events :: "nat \<Rightarrow> 32 word \<Rightarrow> 32 word \<Rightarrow> pm_event list" where
  "geometry_events n page num =
     [PmStore 0 (replicate (unat (pool_length n)) 0), PmFlush 0 (unat (pool_length n)), PmStore 0 PSLAB_POOL_SIG,
      PmStore 4 (le_bytes 4 (pool_length n)), PmStore 8 (VERSION @ [0]), PmStore 44 (le_bytes 4 page),
      PmStore 40 (le_bytes 4 num)]"

definition class_events :: "64 word \<Rightarrow> 32 word list \<Rightarrow> pm_event list" where
  "class_events started ws =
     PmStore 48 (le_bytes 4 (of_nat (length ws) :: 32 word)) # size_events 0 ws @ [PmStore 24 (le_bytes 8 started)]"

definition frame_list :: "nat \<Rightarrow> 32 word \<Rightarrow> 32 word \<Rightarrow> nat list" where
  "frame_list start page num = map (\<lambda>i. start + i * (sizeof_pslab_t + unat page)) [0..<unat num]"

lemma geometry_mem:
  assumes "n < 64" and m: "m' = mem_after (geometry_events n page num) m"
  shows "bytes_at m' 0 4 = PSLAB_POOL_SIG" "bytes_at m' 4 4 = le_bytes 4 (pool_length n)" "bytes_at m' 8 6 = VERSION @ [0]"
    "bytes_at m' 40 4 = le_bytes 4 num" "bytes_at m' 44 4 = le_bytes 4 page" "bytes_at m' 32 4 = replicate 4 0" "m' 23 = 0" "m' 20 = 0"
proof -
  have len: "52 \<le> unat (pool_length n)" using pool_length_bounds[OF assms(1)] by simp
  have [simp]: "length PSLAB_POOL_SIG = 4" "length VERSION = 5"
    by (simp_all add: PSLAB_POOL_SIG_def VERSION_def)
  have z: "bytes_at (put_bytes 0 (replicate (unat (pool_length n)) 0) m) a k = replicate k 0" if "a + k \<le> 52" for a k
    using len that by (intro nth_equalityI) (auto simp: put_bytes_apply)
  show "bytes_at m' 0 4 = PSLAB_POOL_SIG" "bytes_at m' 4 4 = le_bytes 4 (pool_length n)" "bytes_at m' 8 6 = VERSION @ [0]"
    "bytes_at m' 40 4 = le_bytes 4 num" "bytes_at m' 44 4 = le_bytes 4 page" "bytes_at m' 32 4 = replicate 4 0"
    unfolding m geometry_events_def mem_after_def by (simp_all add: z)
  have "bytes_at m' a 1 = replicate 1 0" if "14 \<le> a" "a < 40" for a
    unfolding m geometry_events_def mem_after_def using that by (simp add: z del: bytes_at.simps One_nat_def replicate_Suc)
  from this[of 23] this[of 20] show "m' 23 = 0" "m' 20 = 0" by simp_all
qed

lemma class_mem:
  assumes m: "m' = mem_after (class_events started ws) m"
  shows "bytes_at m' 48 4 = le_bytes 4 (of_nat (length ws) :: 32 word)" "bytes_at m' 24 8 = le_bytes 8 started"
    "\<And>j. j < length ws \<Longrightarrow> bytes_at m' (52 + 4 * j) 4 = le_bytes 4 (ws ! j)"
    "\<And>a k. a + k \<le> 24 \<or> 32 \<le> a \<and> a + k \<le> 48 \<Longrightarrow> bytes_at m' a k = bytes_at m a k"
proof -
  let ?m1 = "put_bytes 48 (le_bytes 4 (of_nat (length ws) :: 32 word)) m"
  have m': "m' = put_bytes 24 (le_bytes 8 started) (mem_after (size_events 0 ws) ?m1)"
    by (simp add: m class_events_def mem_after_def)
  have un: "bytes_at (mem_after (size_events 0 ws) ?m1) a k = bytes_at ?m1 a k" if "a + k \<le> 52" for a k
    using that by (intro bytes_at_unwritten size_events_unwritten) auto
  show "bytes_at m' 48 4 = le_bytes 4 (of_nat (length ws) :: 32 word)" "bytes_at m' 24 8 = le_bytes 8 started"
    by (simp_all add: m' un)
  show "bytes_at m' (52 + 4 * j) 4 = le_bytes 4 (ws ! j)" if "j < length ws" for j
    using size_events_read[OF that, of 0 ?m1] by (simp add: m')
  show "bytes_at m' a k = bytes_at m a k" if "a + k \<le> 24 \<or> 32 \<le> a \<and> a + k \<le> 48" for a k
    using that by (auto simp: m' un)
qed

text \<open>The whole header before the checksum.\<close>

definition header_events :: "nat \<Rightarrow> 64 word \<Rightarrow> 32 word \<Rightarrow> 32 word \<Rightarrow> 32 word list \<Rightarrow> pm_event list" where
  "header_events pool started page num ws =
     geometry_events (length ws) page num
     @ zero_frames pool (frame_list (pool + unat (pool_length (length ws))) page num) @ class_events started ws"

lemma header_mem:
  assumes n: "length ws < 64" and m: "m' = mem_after (header_events pool started page num ws) m"
    and "unat (pool_length (length ws)) \<le> mapped"
  shows "pool_geometry mapped page m'" "class_sizes m' = ws" "class_num m' = length ws" "header_len m' = unat (pool_length (length ws))"
    "bytes_at m' 32 4 = replicate 4 0" "m' 23 = 0" "bytes_at m' 40 4 = le_bytes 4 num" "bytes_at m' 44 4 = le_bytes 4 page"
    "bytes_at m' 24 8 = le_bytes 8 started" "m' 20 = 0"
proof -
  let ?len = "unat (pool_length (length ws))"
  let ?m1 = "mem_after (geometry_events (length ws) page num) m"
  let ?m2 = "mem_after (zero_frames pool (frame_list (pool + ?len) page num)) ?m1"
  have len: "52 + 4 * length ws \<le> ?len" using pool_length_bounds[OF n] by simp
  have m': "m' = mem_after (class_events started ws) ?m2"
    by (simp add: m header_events_def mem_after_append)
  note g = geometry_mem[OF n refl, of page num m] and c = class_mem[OF m']
  have z: "bytes_at ?m2 a k = bytes_at ?m1 a k" if "a + k \<le> 52" for a k
    using that len by (intro bytes_at_unwritten zero_frames_unwritten) (auto simp: frame_list_def)
  have b: "bytes_at m' a k = bytes_at ?m1 a k" if "a + k \<le> 24 \<or> 32 \<le> a \<and> a + k \<le> 48" for a k
    using c(4)[of a k] z[of a k] that by auto
  show h: "header_len m' = ?len" by (simp add: header_len_def length_at_def b g)
  show cn: "class_num m' = length ws" using n by (simp add: class_num_def slabclass_num_at_def c unsigned_of_nat take_bit_nat_eq_self)
  show "class_sizes m' = ws"
    by (intro nth_equalityI) (simp_all add: class_sizes_def cn c(3) slabclass_sizes_at_def)
  show "bytes_at m' 32 4 = replicate 4 0" "bytes_at m' 40 4 = le_bytes 4 num" "bytes_at m' 44 4 = le_bytes 4 page"
    by (simp_all add: b g)
  show "bytes_at m' 24 8 = le_bytes 8 started" by (rule c)
  have "bytes_at m' 23 1 = bytes_at ?m1 23 1" "bytes_at m' 20 1 = bytes_at ?m1 20 1" by (rule b; simp)+
  then show "m' 23 = 0" "m' 20 = 0" using g(7,8) by simp_all
  have "bytes_at m' 8 12 = bytes_at m' 8 6 @ bytes_at m' 14 6"
    using bytes_at_add[of m' 8 6 6] by simp
  then have "strncmp_eq (bytes_at m' 8 12) (VERSION @ [0]) 12"
    using b[of 8 6] g(3) by (simp add: VERSION_def numeral_eq_Suc del: bytes_at.simps)
  then show "pool_geometry mapped page m'"
    using len assms(3) by (simp add: pool_geometry_def h cn b g pool_layout)
qed

lemma frames_fit:
  fixes pool_size page num :: "32 word"
  assumes num: "num = of_nat ((unat pool_size - len) div (12 + unat page))" and fits: "len \<le> unat pool_size"
  shows "len + unat num * (12 + unat page) \<le> unat pool_size"
proof -
  have "unat pool_size < 2 ^ LENGTH(32)" by (rule unsigned_less)
  then have "(unat pool_size - len) div (12 + unat page) < 2 ^ 32"
    by (intro order.strict_trans1[OF div_le_dividend]) simp
  then have "unat num = (unat pool_size - len) div (12 + unat page)"
    using num by (simp add: unsigned_of_nat take_bit_nat_eq_self)
  then show ?thesis
    using fits div_times_less_eq_dividend[of "unat pool_size - len" "12 + unat page"]
    by (metis add_le_cancel_left le_add_diff_inverse)
qed

lemma fill_run:
  assumes p: "pslab_pool s \<noteq> NULL" and n: "length ws < 64" and size: "mapped_len s = unat pool_size"
    and fits: "unat (pool_length (length ws)) \<le> unat pool_size"
    and num: "num = of_nat ((unat pool_size - unat (pool_length (length ws))) div (12 + unat page))"
    and es: "es = header_events (pslab_pool s) started page num ws" and m: "m = mem_after es (file_mem s)"
  shows "pslab_fill started pool_size page ws s = Inr ((),
    log_events (es @ [PmStore 21 [NOT (chksum0_of m + 0) + 1], PmFlush 0 (unat (pool_length (length ws))), PmDrain])
      (s\<lparr>pslab_start := pslab_pool s + unat (pool_length (length ws)),
         pslab_end := pslab_pool s + unat (pool_length (length ws)) + unat num * (12 + unat page),
         pslab_chksum0 := chksum0_of m\<rparr>))"
proof -
  let ?len = "unat (pool_length (length ws))"
  let ?frame = "12 + unat page"
  let ?start = "pslab_pool s + ?len"
  let ?g = "geometry_events (length ws) page num"
  let ?z = "zero_frames (pslab_pool s) (frame_list ?start page num)"
  let ?s3 = "(log_events ?g s)\<lparr>pslab_start := ?start, pslab_end := ?start + unat num * ?frame\<rparr>"
  have len: "52 + 4 * length ws \<le> ?len" using pool_length_bounds[OF n] by simp
  have room: "?len + unat num * ?frame \<le> unat pool_size" by (rule frames_fit[OF num fits])
  have sub: "unat (pool_size - pool_length (length ws)) = unat pool_size - ?len"
    using fits by (simp add: unat_sub word_le_nat_alt)
  have sig: "length PSLAB_POOL_SIG = 4" "take 11 VERSION = VERSION" "length VERSION = 5"
    by (simp_all add: PSLAB_POOL_SIG_def VERSION_def)
  have frames: "frames_from ?start (?start + unat num * ?frame) (unat page) = frame_list ?start page num"
    using frames_from_map[of ?start "unat num" "unat page"] by (simp add: frame_list_def sizeof_pslab_t_def)
  have inside: "pslab_pool s \<le> fp \<and> fp + sizeof_pslab_t \<le> pslab_pool s + mapped_len s" if "fp \<in> set (frame_list ?start page num)" for fp
  proof -
    from that obtain i where i: "i < unat num" "fp = ?start + i * ?frame" by (auto simp: frame_list_def sizeof_pslab_t_def)
    then have "Suc i * ?frame \<le> unat num * ?frame" by (intro mult_le_mono1) simp
    then show ?thesis using i room size by (simp add: sizeof_pslab_t_def)
  qed
  note g = geometry_mem[OF n refl, of page num "file_mem s"]
  have s1: "pslab_fill started pool_size page ws s =
    seq (for_each (frame_list ?start page num) (\<lambda>fp. pmem_memset_nodrain fp 0 sizeof_pslab_t))
    (seq (pool_write slabclass_num_at (le_bytes 4 (of_nat (length ws) :: 32 word)))
    (seq (write_sizes 0 ws)
    (seq (pool_write process_started_at (le_bytes 8 started))
    (seq pslab_checksum_init
    (seq (pslab_checksum_update 0 0)
    (bnd (pool_word length_at) (\<lambda>len.
     pmem_persist (pslab_pool s) (unat len)))))))) ?s3"
    using p len fits size
    by (simp add: pslab_fill_def Let_def exec_simps sig pool_layout PSLAB_FRAME_SIZE_def set_frames_def mem_after_Cons
        PSLAB_POOL_VER_SIZE_def sizeof_pslab_t_def sub num[symmetric] frames geometry_events_def)
  define s5 where "s5 = log_events (?z @ class_events started ws) ?s3"
  have z: "for_each (frame_list ?start page num) (\<lambda>fp. pmem_memset_nodrain fp 0 sizeof_pslab_t) ?s3 = Inr ((), log_events ?z ?s3)"
    using zero_frames_run[of ?s3] p inside by simp
  have m5: "file_mem s5 = m" "pslab_pool s5 = pslab_pool s" "mapped_len s5 = mapped_len s"
    by (simp_all add: s5_def m es header_events_def mem_after_append)
  have hl: "header_len m = ?len" using header_mem(4)[OF n m[unfolded es] order.refl] .
  have len4: "le_word (bytes_at m 4 4) = pool_length (length ws)"
    using hl by (simp add: header_len_def length_at_def unsigned_word_eqI)
  have init: "pslab_checksum_init s5 = Inr ((), s5\<lparr>pslab_chksum0 := chksum0_of m\<rparr>)"
    using checksum_init_run[of s5] p len fits size by (simp add: m5 hl)
  have sizes: "write_sizes 0 ws s' = Inr ((), log_events (size_events 0 ws) s')"
    if "pslab_pool s' \<noteq> NULL" "mapped_len s' = mapped_len s" for s' :: "'a pslab_state_scheme"
    using write_sizes_run[of s' 0 ws] that len fits size by simp
  have "pslab_fill started pool_size page ws s =
    seq pslab_checksum_init (seq (pslab_checksum_update 0 0)
    (bnd (pool_word length_at) (\<lambda>len. pmem_persist (pslab_pool s) (unat len)))) s5"
    using p len fits size unfolding s1
    by (simp add: exec_simps z sizes slabclass_num_at_def process_started_at_def class_events_def s5_def)
  also have "\<dots> = bnd (pool_word length_at) (\<lambda>len. pmem_persist (pslab_pool s) (unat len))
      (log_events [PmStore 21 [NOT (chksum0_of m + 0) + 1]] (s5\<lparr>pslab_chksum0 := chksum0_of m\<rparr>))"
    using p len fits size by (simp add: exec_simps init m5 pslab_checksum_update_def checksum_at_def)
  also have "\<dots> = Inr ((), log_events [PmStore 21 [NOT (chksum0_of m + 0) + 1], PmFlush 0 ?len, PmDrain]
      (s5\<lparr>pslab_chksum0 := chksum0_of m\<rparr>))"
    using p len fits size by (simp add: exec_simps m5 length_at_def len4 mem_after_Cons)
  finally show ?thesis
    by (simp add: log_events_def es header_events_def s5_def)
qed

section \<open>The pool that is created\<close>

lemma checksum_zeros [simp]: "pslab_do_checksum (replicate k 0) = 0"
  by (induction k) (simp_all add: pslab_do_checksum_def)

text \<open>What \<^verbatim>\<open>pslab_fill\<close> leaves: a header with an intact first copy whose number is not stored yet.\<close>

lemma fill_header:
  assumes p: "pslab_pool s \<noteq> NULL" and n: "length ws < 64" and size: "mapped_len s = unat pool_size"
    and fits: "unat (pool_length (length ws)) \<le> unat pool_size"
  obtains s' es where "pslab_fill started pool_size page ws s = Inr ((), s')"
    "file_events s' = file_events s @ es @ [PmFlush 0 (header_len (file_mem s')), PmDrain]"
    "file_image s' = file_image s" "pslab_pool s' = pslab_pool s" "mapped_len s' = mapped_len s"
    "pslab_chksum0 s' = chksum0_of (file_mem s')" "pool_geometry (mapped_len s) page (file_mem s')"
    "class_sizes (file_mem s') = ws" "class_num (file_mem s') = length ws" "copy_ok (file_mem s') 0" "copy_time (file_mem s') 0 = 0"
    "file_mem s' 23 = 0" "file_mem s' 20 = 0" "bytes_at (file_mem s') 24 8 = le_bytes 8 started"
    "pslab_start s' = pslab_pool s + header_len (file_mem s')"
    "pslab_end s' = pslab_start s' + unat (le_word (bytes_at (file_mem s') 40 4) :: 32 word) * (12 + unat page)"
    "pslab_end s' \<le> pslab_pool s + unat pool_size"
proof -
  let ?len = "unat (pool_length (length ws))"
  define num :: "32 word" where "num = of_nat ((unat pool_size - ?len) div (12 + unat page))"
  define es where "es = header_events (pslab_pool s) started page num ws"
  define m where "m = mem_after es (file_mem s)"
  define c where "c = NOT (chksum0_of m + 0) + 1"
  define s' where "s' = log_events (es @ [PmStore 21 [c], PmFlush 0 ?len, PmDrain])
      (s\<lparr>pslab_start := pslab_pool s + ?len, pslab_end := pslab_pool s + ?len + unat num * (12 + unat page),
         pslab_chksum0 := chksum0_of m\<rparr>)"
  note h = header_mem[OF n m_def[unfolded es_def], of "mapped_len s"]
  have h: "pool_geometry (mapped_len s) page m" "class_sizes m = ws" "class_num m = length ws" "header_len m = ?len"
    "bytes_at m 32 4 = replicate 4 0" "m 23 = 0" "bytes_at m 40 4 = le_bytes 4 num" "bytes_at m 24 8 = le_bytes 8 started" "m 20 = 0"
    using h fits size by auto
  have m': "file_mem s' = m(21 := c)"
    by (simp add: s'_def m_def mem_after_append mem_after_Cons)
  have "(m(21 := c)) a = m a" if "fixed_byte a" for a using that by (auto simp: fixed_byte_def)
  note f = fixed_bytes[OF this h(1)]
  have "?len + unat num * (12 + unat page) \<le> unat pool_size" by (rule frames_fit[OF num_def fits])
  moreover have "pslab_fill started pool_size page ws s = Inr ((), s')"
    unfolding s'_def c_def by (rule fill_run[OF p n size fits num_def es_def m_def])
  moreover have "chksum0_of m + c = 0" by (simp add: c_def not_eq_complement)
  moreover have "copy_time (m(21 := c)) 0 = 0" using h(5) by (simp add: copy_time_def)
  ultimately show ?thesis using h f
    by (intro that[of s' "es @ [PmStore 21 [c]]"]) (simp_all add: m' copy_ok_def, simp_all add: s'_def)
qed

text \<open>The arguments under which creation succeeds.\<close>

definition create_args :: "ptr \<Rightarrow> nat \<Rightarrow> bool \<Rightarrow> bool \<Rightarrow> 32 word \<Rightarrow> 32 word list \<Rightarrow> bool" where
  "create_args addr mapped is_pmem pslab_force pool_size ws \<longleftrightarrow>
     addr \<noteq> NULL \<and> (is_pmem \<or> pslab_force) \<and> mapped = unat pool_size \<and> length ws < 64 \<and>
     unat (pool_length (length ws)) \<le> unat pool_size"

lemma create_live:
  assumes "create_args addr mapped is_pmem pslab_force pool_size ws"
  obtains s where "pslab_create addr mapped is_pmem pslab_force started pool_size page ws (pslab_boot m) = Inr (0, s)"
    "pool_live page s" "class_sizes (file_mem s) = ws" "class_num (file_mem s) = length ws"
    "copy_time (file_mem s) (live_copy (file_mem s)) = 0"
    "file_image s = m" "mapped_len s = mapped" "bytes_at (file_mem s) 24 8 = le_bytes 8 started"
    "pslab_start s = addr + header_len (file_mem s)"
    "pslab_end s = pslab_start s + unat (le_word (bytes_at (file_mem s) 40 4) :: 32 word) * (12 + unat page)"
    "pslab_end s \<le> addr + mapped"
proof -
  let ?s0 = "(pslab_boot m)\<lparr>pslab_pool := addr, mapped_len := mapped\<rparr>"
  have a: "addr \<noteq> NULL" "is_pmem \<or> pslab_force" "mapped = unat pool_size" "length ws < 64"
    "unat (pool_length (length ws)) \<le> unat pool_size"
    using assms by (auto simp: create_args_def)
  have s0: "pslab_pool ?s0 = addr" "mapped_len ?s0 = mapped" "file_events ?s0 = []" "file_image ?s0 = m"
    by (simp_all add: pslab_boot_def)
  obtain t es where t: "pslab_fill started pool_size page ws ?s0 = Inr ((), t)"
    "file_events t = [] @ es @ [PmFlush 0 (header_len (file_mem t)), PmDrain]"
    "file_image t = m" "pslab_pool t = addr" "mapped_len t = mapped"
    "pslab_chksum0 t = chksum0_of (file_mem t)" "pool_geometry mapped page (file_mem t)"
    "class_sizes (file_mem t) = ws" "class_num (file_mem t) = length ws" "copy_ok (file_mem t) 0" "copy_time (file_mem t) 0 = 0"
    "bytes_at (file_mem t) 24 8 = le_bytes 8 started"
    "pslab_start t = addr + header_len (file_mem t)"
    "pslab_end t = pslab_start t + unat (le_word (bytes_at (file_mem t) 40 4) :: 32 word) * (12 + unat page)"
    "pslab_end t \<le> addr + unat pool_size"
    by (rule fill_header[of ?s0 ws pool_size started page, unfolded s0]) (use a in blast)+
  define s where "s = log_events [PmStore 23 [1], PmFlush 23 1, PmDrain] t"
  have m': "file_mem s = (file_mem t)(23 := 1)" by (simp add: s_def mem_after_Cons)
  from t(7) have len: "52 \<le> header_len (file_mem t)" "header_len (file_mem t) \<le> mapped"
    by (auto simp: pool_geometry_def)
  have "((file_mem t)(23 := 1)) b = file_mem t b" if "fixed_byte b" for b using that by (auto simp: fixed_byte_def)
  note f = fixed_bytes[OF this t(7)]
  have run: "pslab_create addr mapped is_pmem pslab_force started pool_size page ws (pslab_boot m) = Inr (0, s)"
    using a(1,2) t(1,4,5) len by (auto simp: pslab_create_def map_pool_def exec_simps valid_at_def s_def)
  have "settled (file_events s) m b" if "b < header_len (file_mem t)" for b
  proof (cases "b = 23")
    case True
    then show ?thesis using settled_persist[of 23 b 1 "file_events t @ [PmStore 23 [1]]"] by (simp add: s_def)
  next
    case False
    have "settled (file_events t) m b" using settled_persist[of 0 b "header_len (file_mem t)" es] that t(2) by simp
    then show ?thesis using False unfolding s_def by (simp add: settled_append)
  qed
  moreover have "live_copy (file_mem s) = 0" by (simp add: m' live_copy_def valid_at_def)
  ultimately have "pool_live page s"
    using t f a(1) by (simp add: pool_live_def pool_header_def m' valid_at_def copy_ok_def) (simp add: s_def)
  then show ?thesis
    using run t f a(3) \<open>live_copy (file_mem s) = 0\<close>
    by (intro that[of s]) (simp_all add: m' copy_time_def, simp_all add: s_def)
qed

end
