(* ===== verification/PslabProps.thy ===== *)
theory PslabProps
  imports PslabCreate
begin

text \<open>
  What the slab pool promises across crashes: a created pool can be opened again, a flush time is
  replaced atomically, and a pool whose creation was cut short is told apart by its checksum only.
\<close>

section \<open>Opening what a crash leaves\<close>

text \<open>The file after a crash while no write is under way.\<close>

lemma live_crash:
  assumes "pool_live page s" and "pmem_documented crash" and "crash (file_image s) (file_events s) m"
    and "a < header_len (file_mem s)"
  shows "m a = file_mem s a"
  using assms crash_settled[OF assms(2,3)] by (simp add: pool_live_def file_mem_def)

lemma class_num_sizes: "class_num m = length (class_sizes m)"
  by (simp add: class_sizes_def)

lemma file_mem_boot [simp]: "file_mem (pslab_boot m) = m"
  by (simp add: file_mem_def pslab_boot_def)

text \<open>
  C11: A pool that \<^verbatim>\<open>pslab_create\<close> has made is found again. Creation returns 0 and all its frames lie
  in the file; whatever a crash leaves of the file, \<^verbatim>\<open>pslab_pre_recover\<close> accepts it at any address,
  returns the slab class sizes the pool was created with, followed by a zero, finds the same frames
  and the flush time 0, and \<^verbatim>\<open>pslab_process_started\<close> returns the time of creation.
\<close>

theorem pslab_create_recover:
  assumes "create_args addr mapped is_pmem pslab_force pool_size ws" and "pmem_documented crash"
    and "length ws < length slab_sizes"
  shows "\<exists>s. pslab_create addr mapped is_pmem pslab_force started pool_size page ws (pslab_boot m) = Inr (0, s) \<and>
    pslab_end s \<le> addr + mapped \<and>
    (\<forall>m' addr' now. crash m (file_events s) m' \<longrightarrow> addr' \<noteq> NULL \<longrightarrow> now \<noteq> 0 \<longrightarrow>
      (\<exists>t. pslab_pre_recover addr' mapped is_pmem pslab_force slab_sizes page (pslab_boot m') =
             Inr ((0, ws @ 0 # drop (Suc (length ws)) slab_sizes), t) \<and>
           int (pslab_start t) - int addr' = int (pslab_start s) - int addr \<and>
           int (pslab_end t) - int addr' = int (pslab_end s) - int addr \<and>
           recovered_flush_time t = Inr (0, t) \<and>
           pslab_process_started now t = Inr (started, t\<lparr>process_started_new := now\<rparr>)))"
proof -
  obtain s where s: "pslab_create addr mapped is_pmem pslab_force started pool_size page ws (pslab_boot m) = Inr (0, s)"
    "pool_live page s" "class_sizes (file_mem s) = ws" "class_num (file_mem s) = length ws"
    "copy_time (file_mem s) (live_copy (file_mem s)) = 0"
    "file_image s = m" "mapped_len s = mapped" "bytes_at (file_mem s) 24 8 = le_bytes 8 started"
    "pslab_start s = addr + header_len (file_mem s)"
    "pslab_end s = pslab_start s + unat (le_word (bytes_at (file_mem s) 40 4) :: 32 word) * (12 + unat page)"
    "pslab_end s \<le> addr + mapped"
    by (rule create_live[OF assms(1)])
  from s(2,7) have h: "pool_header mapped page (file_mem s)" by (simp add: pool_live_def)
  then have g: "pool_geometry mapped page (file_mem s)" by (simp add: pool_header_def)
  then have len: "52 + 4 * length ws \<le> header_len (file_mem s)" "header_len (file_mem s) \<le> mapped"
    "le_word (bytes_at (file_mem s) 44 4) = page" using s(4) by (auto simp: pool_geometry_def pool_layout)
  have "\<exists>t. pslab_pre_recover addr' mapped is_pmem pslab_force slab_sizes page (pslab_boot m') =
             Inr ((0, ws @ 0 # drop (Suc (length ws)) slab_sizes), t) \<and>
           int (pslab_start t) - int addr' = int (pslab_start s) - int addr \<and>
           int (pslab_end t) - int addr' = int (pslab_end s) - int addr \<and>
           recovered_flush_time t = Inr (0, t) \<and>
           pslab_process_started now t = Inr (started, t\<lparr>process_started_new := now\<rparr>)"
    if c: "crash m (file_events s) m'" and addr': "addr' \<noteq> NULL" and now: "now \<noteq> 0" for m' addr' and now :: "64 word"
  proof -
    have same: "m' a = file_mem s a" if "a < header_len (file_mem s)" for a
      using live_crash[OF s(2) assms(2)] c s(6) that by simp
    then have b: "bytes_at m' a n = bytes_at (file_mem s) a n" if "a + n \<le> header_len (file_mem s)" for a n
      using that by (intro bytes_at_cong) auto
    obtain i where "i + live_copy (file_mem s) = 1" using header_valid[OF h] by (metis One_nat_def add.commute less_2_cases plus_1_eq_Suc)
    then have h': "pool_header mapped page m'" "class_sizes m' = ws" "copy_time m' (live_copy m') = 0"
      using header_early[OF h, of i m'] same s(3,5) by auto
    have f: "header_len m' = header_len (file_mem s)" using fixed_bytes(1)[OF _ g, of m'] same by blast
    have "create_args addr mapped is_pmem pslab_force pool_size ws" by (rule assms(1))
    then have pm: "is_pmem \<or> pslab_force" by (simp add: create_args_def)
    let ?t = "opened addr' mapped (pslab_boot m')"
    have "class_num m' = length ws" using class_num_sizes[of m'] h'(2) by simp
    then have r: "pslab_pre_recover addr' mapped is_pmem pslab_force slab_sizes page (pslab_boot m') =
        Inr ((0, ws @ 0 # drop (Suc (length ws)) slab_sizes), ?t)" "recovered_flush_time ?t = Inr (0, ?t)"
      using pre_recover_run[OF addr' pm, of mapped page "pslab_boot m'" slab_sizes] h' assms(3) by auto
    have t: "pslab_start ?t = addr' + header_len (file_mem s)"
      "pslab_end ?t = addr' + header_len (file_mem s) + unat (le_word (bytes_at (file_mem s) 40 4) :: 32 word) * (12 + unat page)"
      using len b[of 40 4] b[of 44 4] by (simp_all add: opened_def Let_def f)
    have "pslab_process_started now ?t = Inr (started, ?t\<lparr>process_started_new := now\<rparr>)"
      using now addr' len b[of 24 8] s(8)
      by (simp add: pslab_process_started_def exec_simps opened_def Let_def process_started_at_def)
    with r t s(9,10) show ?thesis by (intro exI[of _ ?t]) simp
  qed
  with s(1,11) show ?thesis by blast
qed

text \<open>Witness: a pool of 200 bytes with two classes.\<close>

theorem pslab_create_recover_witness:
  "create_args 4096 200 True False 200 [96, 120] \<and> pmem_documented byte_crash \<and>
   (\<exists>s. pslab_create 4096 200 True False 1000 200 16 [96, 120] (pslab_boot (\<lambda>_. 7)) = Inr (0, s) \<and> pslab_end s \<le> 4296)"
proof -
  have a: "create_args 4096 200 True False 200 [96, 120]" by code_simp
  show ?thesis
    using a byte_crash_documented pslab_create_recover[OF a byte_crash_documented, of "replicate 64 0" 1000 16 "\<lambda>_. 7"] by auto
qed

section \<open>Atomicity of the flush time\<close>

lemma updates_live:
  assumes "pool_live page s"
  shows "\<exists>s'. for_each ts pslab_update_flushtime s = Inr ((), s') \<and> pool_live page s' \<and> mapped_len s' = mapped_len s \<and>
    file_image s' = file_image s \<and> class_sizes (file_mem s') = class_sizes (file_mem s) \<and>
    copy_time (file_mem s') (live_copy (file_mem s')) = last (copy_time (file_mem s) (live_copy (file_mem s)) # ts)"
  using assms
proof (induction ts arbitrary: s)
  case Nil
  then show ?case by (simp add: exec_simps)
next
  case (Cons t ts)
  let ?s = "log_events (flush_events (1 - live_copy (file_mem s)) (chksum0_of (file_mem s)) t) s"
  have run: "pslab_update_flushtime t s = Inr ((), ?s)" by (rule update_flushtime_run[OF Cons.prems])
  have l: "pool_live page ?s" "class_sizes (file_mem ?s) = class_sizes (file_mem s)"
    "copy_time (file_mem ?s) (live_copy (file_mem ?s)) = t"
    using flush_live[OF Cons.prems refl refl, of t] by blast+
  from Cons.IH[OF l(1)] l run show ?case by (fastforce simp: exec_simps)
qed

text \<open>
  C10: The flush time is replaced atomically. After a pool was created and any number of flushes
  recorded in it, let one more be under way and the machine stop at any of its steps. Recovery then
  accepts the file, and the flush time it adopts is the last one recorded or the one under way; it
  is the new one if the update had returned.
\<close>

theorem pslab_flush_atomic:
  assumes args: "create_args addr mapped is_pmem pslab_force pool_size ws" and doc: "pmem_documented crash"
    and sizes: "length ws < length slab_sizes" and addr': "addr' \<noteq> NULL"
    and create: "pslab_create addr mapped is_pmem pslab_force started pool_size page ws (pslab_boot m) = Inr (0, s0)"
  shows "\<exists>s t. for_each ts pslab_update_flushtime s0 = Inr ((), s) \<and> pslab_update_flushtime time s = Inr ((), t) \<and>
    prefix (file_events s) (file_events t) \<and>
    (\<forall>pre m'. prefix (file_events s) pre \<longrightarrow> prefix pre (file_events t) \<longrightarrow> crash m pre m' \<longrightarrow>
      (\<exists>u v. pslab_pre_recover addr' mapped is_pmem pslab_force slab_sizes page (pslab_boot m') =
               Inr ((0, ws @ 0 # drop (Suc (length ws)) slab_sizes), u) \<and>
             recovered_flush_time u = Inr (v, u) \<and> v \<in> {last (0 # ts), time} \<and> (pre = file_events t \<longrightarrow> v = time)))"
proof -
  have s0: "pool_live page s0" "class_sizes (file_mem s0) = ws" "copy_time (file_mem s0) (live_copy (file_mem s0)) = 0"
    "file_image s0 = m" "mapped_len s0 = mapped"
    using create by (auto intro: create_live[OF args, of started page m])
  obtain s where s: "for_each ts pslab_update_flushtime s0 = Inr ((), s)" "pool_live page s" "mapped_len s = mapped"
    "file_image s = m" "class_sizes (file_mem s) = ws" "copy_time (file_mem s) (live_copy (file_mem s)) = last (0 # ts)"
    using updates_live[OF s0(1), of ts] s0 by auto
  let ?i = "1 - live_copy (file_mem s)"
  let ?es = "flush_events ?i (chksum0_of (file_mem s)) time"
  have run: "pslab_update_flushtime time s = Inr ((), log_events ?es s)" by (rule update_flushtime_run[OF s(2)])
  have pm: "is_pmem \<or> pslab_force" using args by (simp add: create_args_def)
  have "\<exists>u v. pslab_pre_recover addr' mapped is_pmem pslab_force slab_sizes page (pslab_boot m') =
               Inr ((0, ws @ 0 # drop (Suc (length ws)) slab_sizes), u) \<and>
             recovered_flush_time u = Inr (v, u) \<and> v \<in> {last (0 # ts), time} \<and> (pre = file_events s @ ?es \<longrightarrow> v = time)"
    if pre: "prefix (file_events s) pre" "prefix pre (file_events s @ ?es)" and c: "crash m pre m'" for pre m'
  proof -
    obtain p where p: "pre = file_events s @ p" "prefix p ?es"
      using pre by (auto simp: prefix_def)
    have h: "pool_header mapped page m'" "class_sizes m' = ws" "copy_time m' (live_copy m') \<in> {last (0 # ts), time}"
      "p = ?es \<Longrightarrow> copy_time m' (live_copy m') = time"
      using flush_crash[OF s(2) doc refl p(2), of m'] c p(1) s by simp_all
    then have "class_num m' < length slab_sizes" using class_num_sizes[of m'] sizes by simp
    then show ?thesis
      using pre_recover_run[OF addr' pm, of mapped page "pslab_boot m'" slab_sizes] h p(1) class_num_sizes[of m'] by auto
  qed
  with s(1) run show ?thesis by (intro exI[of _ s] exI[of _ "log_events ?es s"]) simp
qed

text \<open>Witness: a stop during the third flush after two.\<close>

theorem pslab_flush_atomic_witness:
  "\<exists>s0 s t. pslab_create 4096 200 True False 1000 200 16 [96, 120] (pslab_boot (\<lambda>_. 7)) = Inr (0, s0) \<and>
     for_each [5, 9] pslab_update_flushtime s0 = Inr ((), s) \<and> pslab_update_flushtime 12 s = Inr ((), t) \<and>
     (\<forall>m'. byte_crash (\<lambda>_. 7) (file_events t) m' \<longrightarrow>
        (\<exists>u. pslab_pre_recover 8192 200 True False (replicate 64 0) 16 (pslab_boot m') =
               Inr ((0, [96, 120] @ 0 # drop 3 (replicate 64 0)), u) \<and> recovered_flush_time u = Inr (12, u)))"
proof -
  have a: "create_args 4096 200 True False 200 [96, 120]" by code_simp
  obtain s0 where s0: "pslab_create 4096 200 True False 1000 200 16 [96, 120] (pslab_boot (\<lambda>_. 7)) = Inr (0, s0)"
    by (rule create_live[OF a, of 1000 16 "\<lambda>_. 7"])
  have l: "length [96, 120 :: 32 word] < length (replicate 64 (0 :: 32 word))" "(8192 :: nat) \<noteq> NULL" by simp_all
  obtain s t where st: "for_each [5, 9] pslab_update_flushtime s0 = Inr ((), s)" "pslab_update_flushtime 12 s = Inr ((), t)"
    "prefix (file_events s) (file_events t)" and c: "\<And>pre m'. prefix (file_events s) pre \<Longrightarrow> prefix pre (file_events t) \<Longrightarrow> byte_crash (\<lambda>_. 7) pre m' \<Longrightarrow>
      \<exists>u v. pslab_pre_recover 8192 200 True False (replicate 64 0) 16 (pslab_boot m') =
          Inr ((0, [96, 120] @ 0 # drop (Suc (length [96, 120 :: 32 word])) (replicate 64 0)), u) \<and>
        recovered_flush_time u = Inr (v, u) \<and> v \<in> {last (0 # [5, 9]), 12} \<and> (pre = file_events t \<longrightarrow> v = 12)"
    using pslab_flush_atomic[OF a byte_crash_documented l s0, of "[5, 9]" 12] by blast
  have "\<exists>u. pslab_pre_recover 8192 200 True False (replicate 64 0) 16 (pslab_boot m') =
      Inr ((0, [96, 120] @ 0 # drop 3 (replicate 64 0)), u) \<and> recovered_flush_time u = Inr (12, u)"
    if "byte_crash (\<lambda>_. 7) (file_events t) m'" for m'
    using c[OF st(3) prefix_order.refl that] by (auto simp: numeral_3_eq_3)
  with s0 st show ?thesis by blast
qed

section \<open>A pool that was never committed\<close>

lemma bytes_at_drop: "bytes_at m (a + k) n = drop k (bytes_at m a (k + n))"
  by (simp add: bytes_at_add)

text \<open>
  C12: A pool whose creation stopped before \<^verbatim>\<open>valid\<close> was set. Recovery then reads the copy with the
  index -1, that is the reserved byte before the checksums and the upper half of the creation time
  before the flush times, and accepts the pool exactly if the sum over the header and these bytes is
  0 modulo 256, although the pool was never committed.
\<close>

theorem pslab_uncommitted_accepted:
  assumes args: "create_args addr mapped is_pmem pslab_force pool_size ws" and doc: "pmem_documented crash"
    and fill: "pslab_fill started pool_size page ws ((pslab_boot m)\<lparr>pslab_pool := addr, mapped_len := mapped\<rparr>) = Inr ((), s)"
    and c: "crash m (file_events s) m'" and sizes: "length ws < length slab_sizes" and addr': "addr' \<noteq> NULL"
  shows "m' valid_at = 0 \<and>
    ((\<exists>t. pslab_pre_recover addr' mapped is_pmem pslab_force slab_sizes page (pslab_boot m') =
        Inr ((0, ws @ 0 # drop (Suc (length ws)) slab_sizes), t)) \<longleftrightarrow>
      pslab_chksum0 s + pslab_do_checksum (drop 4 (le_bytes 8 started)) = 0)"
proof -
  let ?s0 = "(pslab_boot m)\<lparr>pslab_pool := addr, mapped_len := mapped\<rparr>"
  have a: "addr \<noteq> NULL" "is_pmem \<or> pslab_force" "mapped = unat pool_size" "length ws < 64"
    "unat (pool_length (length ws)) \<le> unat pool_size"
    using args by (auto simp: create_args_def)
  have s0: "pslab_pool ?s0 = addr" "mapped_len ?s0 = mapped" "file_events ?s0 = []" "file_image ?s0 = m"
    by (simp_all add: pslab_boot_def)
  obtain s' es where "pslab_fill started pool_size page ws ?s0 = Inr ((), s')"
    and ev: "file_events s' = [] @ es @ [PmFlush 0 (header_len (file_mem s')), PmDrain]" and im: "file_image s' = m"
    and k0: "pslab_chksum0 s' = chksum0_of (file_mem s')" and g: "pool_geometry mapped page (file_mem s')"
    and cs: "class_sizes (file_mem s') = ws"
    and z: "file_mem s' 23 = 0" "file_mem s' 20 = 0" "bytes_at (file_mem s') 24 8 = le_bytes 8 started"
    by (rule fill_header[of ?s0 ws pool_size started page, unfolded s0]) (use a in blast)+
  with fill have s': "s' = s" by simp
  from g have len: "52 \<le> header_len (file_mem s)" "header_len (file_mem s) \<le> mapped" by (auto simp: pool_geometry_def s')
  have same: "m' b = file_mem s b" if "b < header_len (file_mem s)" for b
  proof -
    have "settled (file_events s) m b" using settled_persist[of 0 b "header_len (file_mem s)" es] that ev s' by simp
    then show ?thesis using crash_settled[OF doc c] im by (simp add: file_mem_def s')
  qed
  then have "m' b = file_mem s b" if "b < header_len (file_mem s)" "fixed_byte b" for b using that by blast
  note f = fixed_bytes[OF this g[unfolded s']]
  let ?t = "mapped_at addr' mapped (pslab_boot m')"
  have "bytes_at m' 28 4 = drop 4 (bytes_at (file_mem s) 24 8)"
    using same len bytes_at_drop[of "file_mem s" 24 4 4] by (simp add: bytes_at_cong[of 4 m' 28 "file_mem s"])
  moreover have v: "m' valid_at = 0" "m' 20 = 0" using same[of 23] same[of 20] len z by (simp_all add: valid_at_def s')
  moreover have t: "pslab_pool ?t = addr'" "mapped_len ?t = mapped" "pslab_chksum0 ?t = chksum0_of m'" "file_mem ?t = m'"
    by (simp_all add: mapped_at_def)
  ultimately have "pslab_checksum_check (uint (m' valid_at) - 1) ?t =
      Inr (pslab_chksum0 s + pslab_do_checksum (drop 4 (le_bytes 8 started)), ?t)"
    using addr' len z f k0 by (simp add: pslab_checksum_check_def exec_simps checksum_at_def flush_time_at_def s')
       (simp add: pslab_do_checksum_def)
  from pre_recover_geometry[OF addr' a(2), of mapped page "pslab_boot m'" slab_sizes, simplified, OF f(5) _ this]
  show ?thesis using v f(2,4) class_num_sizes[of m'] cs sizes s' by auto
qed

text \<open>Witness: a pool created at the time 180 is accepted before it is committed.\<close>

definition uncommitted :: "fault + unit \<times> pslab_state" where
  "uncommitted = pslab_fill 180 200 16 [96, 120] ((pslab_boot (\<lambda>_. 7))\<lparr>pslab_pool := 1, mapped_len := 200\<rparr>)"

lemma uncommitted_sum: "(case uncommitted of Inl e \<Rightarrow> False | Inr (u, s) \<Rightarrow> pslab_chksum0 s = 0)"
  by code_simp

lemma mem_after_crash: "byte_crash m tr (mem_after tr m)"
  using byte_after_last[of tr _ m] by (metis byte_crash_def last_in_set survivors_def)

theorem pslab_uncommitted_accepted_witness:
  "create_args 1 200 True False 200 [96, 120] \<and>
   (\<exists>s t. uncommitted = Inr ((), s) \<and> byte_crash (\<lambda>_. 7) (file_events s) (file_mem s) \<and> file_mem s valid_at = 0 \<and>
     pslab_pre_recover 8192 200 True False (replicate 64 0) 16 (pslab_boot (file_mem s)) =
       Inr ((0, [96, 120] @ 0 # drop 3 (replicate 64 0)), t))"
proof -
  have a: "create_args 1 200 True False 200 [96, 120]" by code_simp
  obtain s where s: "uncommitted = Inr ((), s)" "pslab_chksum0 s = 0"
    using uncommitted_sum by (auto split: sum.splits)
  let ?s0 = "(pslab_boot (\<lambda>_. 7))\<lparr>pslab_pool := 1, mapped_len := 200\<rparr>"
  have s0: "file_image ?s0 = (\<lambda>_. 7)" "pslab_pool ?s0 \<noteq> NULL" "mapped_len ?s0 = unat (200 :: 32 word)" by (simp_all add: pslab_boot_def)
  obtain s' where "pslab_fill 180 200 16 [96, 120] ?s0 = Inr ((), s')" "file_image s' = (\<lambda>_. 7)"
    by (rule fill_header[OF s0(2) _ s0(3), of "[96, 120]" 180 16, unfolded s0(1)]) (use a in \<open>auto simp: create_args_def\<close>)
  with s have "file_image s = (\<lambda>_. 7)" by (simp add: uncommitted_def)
  then have c: "byte_crash (\<lambda>_. 7) (file_events s) (file_mem s)" using mem_after_crash[of "\<lambda>_. 7" "file_events s"] by (simp add: file_mem_def)
  have l: "length [96, 120 :: 32 word] < length (replicate 64 (0 :: 32 word))" "(8192 :: nat) \<noteq> NULL" by simp_all
  have "pslab_do_checksum (drop 4 (le_bytes 8 (180 :: 64 word))) = 0" by code_simp
  with pslab_uncommitted_accepted[OF a byte_crash_documented s(1)[unfolded uncommitted_def] c l] a s c
  show ?thesis by (auto simp: numeral_3_eq_3)
qed

end
