(* ===== verification/Slabs.thy ===== *)
theory Slabs
  imports PslabPool
begin

text \<open>
  The slab allocator of memcached, \<^verbatim>\<open>src/experiments/memcached/src/slabs.c\<close>, in the configuration of
  \<^verbatim>\<open>config.h\<close> (\<^verbatim>\<open>PSLAB\<close> set, \<^verbatim>\<open>EXTSTORE\<close> not, \<^verbatim>\<open>NDEBUG\<close>). A class has a chunk size, an
  array of pages and a doubly linked list of free chunks that runs through the headers of the chunks.
  Addresses are bytes. A page of \<open>n\<close> bytes that \<^verbatim>\<open>malloc\<close> returns occupies the next \<open>n\<close>
  addresses; \<^verbatim>\<open>memset\<close> makes the header at each address of a page readable, and the program
  uses those at the chunk boundaries. \<open>realloc_room\<close> bounds the successful calls of
  \<^verbatim>\<open>realloc\<close>.
\<close>

unbundle bit_operations_syntax

section \<open>State\<close>

text \<open>The header of a chunk: the fields of \<^verbatim>\<open>struct _stritem\<close> and of \<^verbatim>\<open>struct _strchunk\<close> that the
  allocator uses. \<open>data_next\<close> and \<open>data_orig\<close> are \<^verbatim>\<open>next\<close> and \<^verbatim>\<open>orig_clsid\<close> of the
  chunk header at \<^verbatim>\<open>ITEM_data\<close> of a chunked item.\<close>

record slab_item =
  i_next :: ptr
  i_prev :: ptr
  it_flags :: "8 word"
  it_clsid :: "8 word"
  refcount :: "16 word"
  nkey :: "8 word"
  nsuffix :: "8 word"
  nbytes :: "32 word"
  ch_size :: "32 word"
  data_next :: ptr
  data_orig :: "8 word"

definition zero_item :: slab_item where
  "zero_item = \<lparr>i_next = NULL, i_prev = NULL, it_flags = 0, it_clsid = 0, refcount = 0, nkey = 0, nsuffix = 0,
     nbytes = 0, ch_size = 0, data_next = NULL, data_orig = 0\<rparr>"

record slabclass_t =
  chunk_sz :: "32 word"
  perslab :: "32 word"
  slots :: ptr
  sl_curr :: "32 word"
  slabs :: "32 word"
  slab_list :: "ptr list"
  list_size :: "32 word"
  requested :: "64 word"

definition zero_class :: slabclass_t where
  "zero_class = \<lparr>chunk_sz = 0, perslab = 0, slots = NULL, sl_curr = 0, slabs = 0, slab_list = [], list_size = 0, requested = 0\<rparr>"

text \<open>The frame in front of a page in persistent memory.\<close>

record slab_frame =
  fr_id :: "8 word"
  fr_flags :: "8 word"
  fr_size :: "32 word"

record slabs_state = "slab_item world" +
  slabclass :: "slabclass_t list"
  mem_limit :: "64 word"
  mem_malloced :: "64 word"
  mem_limit_reached :: bool
  power_largest :: nat
  mem_base :: ptr
  mem_current :: ptr
  mem_avail :: "64 word"
  slabs_next_src :: nat
  realloc_room :: nat
  item_size_max :: "32 word"
  slab_chunk_size_max :: "32 word"
  slab_page_size :: "32 word"
  slab_reassign :: bool
  use_cas :: bool
  maxbytes :: "64 word"
  pslab_size :: "64 word"
  pslab_policy :: nat
  pslab_from :: ptr
  pslab_to :: ptr
  frames :: "ptr \<rightharpoonup> slab_frame"
  walk_cur :: ptr

definition POWER_SMALLEST :: nat where "POWER_SMALLEST = 2"

definition SLAB_GLOBAL_PAGE_POOL :: nat where "SLAB_GLOBAL_PAGE_POOL = 0"

definition SLAB_GLOBAL_PAGE_POOL_PMEM :: nat where "SLAB_GLOBAL_PAGE_POOL_PMEM = 1"

definition MAX_NUMBER_OF_SLAB_CLASSES :: nat where "MAX_NUMBER_OF_SLAB_CLASSES = 64"

definition CHUNK_ALIGN_BYTES :: nat where "CHUNK_ALIGN_BYTES = 8"

definition ITEM_SLABBED :: "8 word" where "ITEM_SLABBED = 4"

definition ITEM_CHUNKED :: "8 word" where "ITEM_CHUNKED = 32"

definition ITEM_CHUNK :: "8 word" where "ITEM_CHUNK = 64"

definition ITEM_PSLAB :: "8 word" where "ITEM_PSLAB = 64"

lemmas slab_consts = POWER_SMALLEST_def SLAB_GLOBAL_PAGE_POOL_def SLAB_GLOBAL_PAGE_POOL_PMEM_def
  MAX_NUMBER_OF_SLAB_CLASSES_def CHUNK_ALIGN_BYTES_def

definition sizeof_item :: nat where "sizeof_item = 48"

definition sizeof_chunk :: nat where "sizeof_chunk = 56"

definition slabs_lock :: nat where "slabs_lock = 0"

section \<open>Access to the classes and to memory\<close>

definition get_class :: "nat \<Rightarrow> (slabs_state, slabclass_t) exec" where
  "get_class cid = (\<lambda>s. if cid < length (slabclass s) then Inr (slabclass s ! cid, s) else Inl IndexRange)"

definition upd_class :: "nat \<Rightarrow> (slabclass_t \<Rightarrow> slabclass_t) \<Rightarrow> (slabs_state, unit) exec" where
  "upd_class cid f = (\<lambda>s. if cid < length (slabclass s)
     then Inr ((), s\<lparr>slabclass := (slabclass s)[cid := f (slabclass s ! cid)]\<rparr>) else Inl IndexRange)"

text \<open>\<^verbatim>\<open>p->slab_list[p->slabs++] = ptr\<close>\<close>

definition push_page :: "nat \<Rightarrow> ptr \<Rightarrow> (slabs_state, unit) exec" where
  "push_page cid p =
     bnd (get_class cid) (\<lambda>c.
     if unat (slabs c) < length (slab_list c)
     then upd_class cid (\<lambda>c. c\<lparr>slab_list := (slab_list c)[unat (slabs c) := p], slabs := slabs c + 1\<rparr>)
     else raise IndexRange)"

definition malloc_bytes :: "nat \<Rightarrow> (slabs_state, ptr) exec" where
  "malloc_bytes n = (\<lambda>s.
     if room s = 0 then Inr (NULL, s) else Inr (fresh s, s\<lparr>fresh := fresh s + n, room := room s - 1\<rparr>))"

definition memset_page :: "ptr \<Rightarrow> nat \<Rightarrow> (slabs_state, unit) exec" where
  "memset_page p n = modify (\<lambda>s. s\<lparr>cells := (\<lambda>a. if p \<le> a \<and> a < p + n then Some zero_item else cells s a)\<rparr>)"

definition realloc_ok :: "(slabs_state, bool) exec" where
  "realloc_ok = (\<lambda>s. if realloc_room s = 0 then Inr (False, s) else Inr (True, s\<lparr>realloc_room := realloc_room s - 1\<rparr>))"

section \<open>Size classes\<close>

text \<open>\<^verbatim>\<open>while (size > slabclass[res].size) if (res++ == power_largest) return power_largest;\<close>\<close>

function clsid_loop :: "slabclass_t list \<Rightarrow> nat \<Rightarrow> 64 word \<Rightarrow> nat \<Rightarrow> fault + nat" where
  "clsid_loop cs largest sz res =
     (if length cs \<le> res then Inl IndexRange
      else if ucast (chunk_sz (cs ! res)) < sz
      then (if res = largest then Inr largest else clsid_loop cs largest sz (Suc res))
      else Inr res)"
  by pat_completeness auto
termination by (relation "measure (\<lambda>(cs, largest, sz, res). length cs - res)") auto

declare clsid_loop.simps [simp del]

definition slabs_clsid :: "64 word \<Rightarrow> (slabs_state, nat) exec" where
  "slabs_clsid sz = (\<lambda>s.
     if sz = 0 \<or> scast (item_size_max s) < sz then Inr (0, s)
     else case clsid_loop (slabclass s) (power_largest s) sz POWER_SMALLEST of
            Inl e \<Rightarrow> Inl e | Inr r \<Rightarrow> Inr (r, s))"

definition align_chunk :: "32 word \<Rightarrow> 32 word" where
  "align_chunk sz = (if sz mod 8 \<noteq> 0 then sz + (8 - sz mod 8) else sz)"

text \<open>
  The loop of \<^verbatim>\<open>slabs_init\<close> over the classes \<open>i\<close>, with \<open>k\<close> classes left in the table. The two
  computations in \<^verbatim>\<open>double\<close> are parameters: \<open>stop sz\<close> stands for
  \<^verbatim>\<open>size >= settings.slab_chunk_size_max / factor\<close> and \<open>scale sz\<close> for \<^verbatim>\<open>size *= factor\<close>. The
  result is the class after the last one set.
\<close>

primrec init_loop :: "(32 word \<Rightarrow> bool) \<Rightarrow> (32 word \<Rightarrow> 32 word) \<Rightarrow> 32 word list option \<Rightarrow> nat \<Rightarrow> nat \<Rightarrow> 32 word \<Rightarrow>
    (slabs_state, nat) exec" where
  "init_loop stop scale sizes 0 i sz = ret i"
| "init_loop stop scale sizes (Suc k) i sz =
     (let again = (\<lambda>sz.
        let sz = align_chunk sz in
        bnd (gets slab_page_size) (\<lambda>page.
        if sz = 0 then raise DivisionByZero
        else seq (upd_class i (\<lambda>c. c\<lparr>chunk_sz := sz, perslab := page div sz\<rparr>))
            (init_loop stop scale sizes k (Suc i) (if sizes = None then scale sz else sz)))) in
      case sizes of
        Some xs \<Rightarrow>
          (if length xs \<le> i - POWER_SMALLEST then raise IndexRange
           else if xs ! (i - POWER_SMALLEST) = 0 then ret i
           else again (xs ! (i - POWER_SMALLEST)))
      | None \<Rightarrow> if stop sz then ret i else again sz)"

definition slabs_dump_sizes :: "nat \<Rightarrow> (slabs_state, 32 word list option) exec" where
  "slabs_dump_sizes maxn = (\<lambda>s.
     let num = power_largest s + 1 - POWER_SMALLEST in
     if maxn < num then Inr (None, s)
     else if length (slabclass s) < POWER_SMALLEST + num then Inl IndexRange
     else Inr (Some (map (\<lambda>i. chunk_sz (slabclass s ! (POWER_SMALLEST + i))) [0..<num] @ (if num < maxn then [0] else [])), s))"

section \<open>Pages\<close>

definition grow_slab_list :: "nat \<Rightarrow> (slabs_state, bool) exec" where
  "grow_slab_list cid =
     bnd (get_class cid) (\<lambda>c.
     if slabs c = list_size c
     then let new_size = (if list_size c \<noteq> 0 then list_size c * 2 else 16) in
          bnd realloc_ok (\<lambda>ok.
          if \<not> ok then ret False
          else seq (upd_class cid (\<lambda>c. c\<lparr>list_size := new_size,
                 slab_list := take (unat new_size) (slab_list c) @ replicate (unat new_size - length (slab_list c)) NULL\<rparr>))
               (ret True))
     else ret True)"

definition get_page_from_global_pool_by_id :: "nat \<Rightarrow> (slabs_state, ptr) exec" where
  "get_page_from_global_pool_by_id cid =
     bnd (get_class cid) (\<lambda>c.
     if slabs c < 1 then ret NULL
     else if length (slab_list c) \<le> unat (slabs c - 1) then raise IndexRange
     else seq (upd_class cid (\<lambda>c. c\<lparr>slabs := slabs c - 1\<rparr>)) (ret (slab_list c ! unat (slabs c - 1))))"

definition memory_allocate :: "64 word \<Rightarrow> (slabs_state, ptr) exec" where
  "memory_allocate sz =
     bnd (gets mem_base) (\<lambda>base.
     if base = NULL
     then bnd (malloc_bytes (unat sz)) (\<lambda>p.
          seq (modify (\<lambda>s. s\<lparr>mem_malloced := mem_malloced s + sz\<rparr>)) (ret p))
     else
       bnd (gets (\<lambda>s. (mem_current s, mem_avail s))) (\<lambda>(cur, avail).
       if avail < sz then ret NULL
       else let sz = (if sz mod 8 \<noteq> 0 then sz + (8 - sz mod 8) else sz) in
         seq (modify (\<lambda>s. s\<lparr>mem_current := cur + unat sz, mem_avail := (if sz < avail then avail - sz else 0),
                           mem_malloced := mem_malloced s + sz\<rparr>))
             (ret cur)))"

definition pslab_contains :: "ptr \<Rightarrow> slabs_state \<Rightarrow> bool" where
  "pslab_contains p s \<longleftrightarrow> pslab_from s \<le> p \<and> p < pslab_to s"

section \<open>Free lists\<close>

text \<open>Putting a chunk in front of the free list, as in three places of the code.\<close>

definition link_free :: "nat \<Rightarrow> ptr \<Rightarrow> (slabs_state, unit) exec" where
  "link_free cid it =
     bnd (get_class cid) (\<lambda>c.
     seq (assign it (\<lambda>n. n\<lparr>i_prev := NULL, i_next := slots c\<rparr>))
    (seq (if slots c \<noteq> NULL then assign (slots c) (\<lambda>n. n\<lparr>i_prev := it\<rparr>) else ret ())
         (upd_class cid (\<lambda>c. c\<lparr>slots := it, sl_curr := sl_curr c + 1\<rparr>))))"

primrec free_chunks :: "nat \<Rightarrow> ptr \<Rightarrow> ptr \<Rightarrow> (slabs_state, unit) exec" where
  "free_chunks 0 it chunk = raise Diverges"
| "free_chunks (Suc k) it chunk =
     (if chunk = NULL then ret ()
      else
        bnd (deref chunk) (\<lambda>n.
        seq (if it_flags n AND ITEM_PSLAB \<noteq> 0 then assign it (\<lambda>m. m\<lparr>it_flags := ITEM_SLABBED OR ITEM_PSLAB\<rparr>)
             else assign chunk (\<lambda>n. n\<lparr>it_flags := ITEM_SLABBED\<rparr>))
       (seq (assign chunk (\<lambda>n. n\<lparr>it_clsid := 0\<rparr>))
       (seq (link_free (unat (it_clsid n)) chunk)
       (seq (upd_class (unat (it_clsid n)) (\<lambda>c. c\<lparr>requested := requested c - (scast (ch_size n) + of_nat sizeof_chunk)\<rparr>))
            (free_chunks k it (i_next n)))))))"

definition do_slabs_free_chunked :: "ptr \<Rightarrow> (slabs_state, unit) exec" where
  "do_slabs_free_chunked it =
     bnd (deref it) (\<lambda>n.
     seq (assign it (\<lambda>n. n\<lparr>it_flags := (if it_flags n AND ITEM_PSLAB \<noteq> 0 then ITEM_SLABBED OR ITEM_PSLAB else ITEM_SLABBED)\<rparr>))
    (seq (assign it (\<lambda>n. n\<lparr>it_clsid := 0, i_prev := NULL\<rparr>))
    (seq (if data_next n \<noteq> NULL then assign (data_next n) (\<lambda>m. m\<lparr>i_prev := NULL\<rparr>) else ret ())
    (seq (link_free (unat (data_orig n)) it)
    (bnd (gets use_cas) (\<lambda>cas.
     seq (upd_class (unat (data_orig n)) (\<lambda>c. c\<lparr>requested := requested c
            - (ucast (nkey n) + 1 + ucast (nsuffix n) + of_nat sizeof_item + of_nat sizeof_chunk)
            - (if cas then 8 else 0)\<rparr>))
    (bnd (gets fresh) (\<lambda>k. free_chunks (Suc k) it (data_next n)))))))))"

definition do_slabs_free :: "ptr \<Rightarrow> 64 word \<Rightarrow> nat \<Rightarrow> (slabs_state, unit) exec" where
  "do_slabs_free p sz cid =
     bnd (gets power_largest) (\<lambda>largest.
     if cid < POWER_SMALLEST \<or> largest < cid then ret ()
     else
       bnd (deref p) (\<lambda>it.
       if it_flags it AND ITEM_CHUNKED = 0
       then
         seq (assign p (\<lambda>n. n\<lparr>it_flags := ITEM_SLABBED\<rparr>))
        (bnd (gets (pslab_contains p)) (\<lambda>pm.
         seq (if pm then assign p (\<lambda>n. n\<lparr>it_flags := it_flags n OR ITEM_PSLAB\<rparr>) else ret ())
        (seq (assign p (\<lambda>n. n\<lparr>it_clsid := 0\<rparr>))
        (seq (link_free cid p)
             (upd_class cid (\<lambda>c. c\<lparr>requested := requested c - sz\<rparr>))))))
       else do_slabs_free_chunked p))"

primrec split_loop :: "nat \<Rightarrow> ptr \<Rightarrow> nat \<Rightarrow> nat \<Rightarrow> (slabs_state, unit) exec" where
  "split_loop 0 p sz cid = ret ()"
| "split_loop (Suc k) p sz cid = seq (do_slabs_free p 0 cid) (split_loop k (p + sz) sz cid)"

definition split_slab_page_into_freelist :: "ptr \<Rightarrow> nat \<Rightarrow> (slabs_state, unit) exec" where
  "split_slab_page_into_freelist p cid =
     bnd (get_class cid) (\<lambda>c. split_loop (unat (perslab c)) p (unat (chunk_sz c)) cid)"

section \<open>New pages\<close>

definition newslab_len :: "nat \<Rightarrow> (slabs_state, 32 word) exec" where
  "newslab_len cid =
     bnd (get_class cid) (\<lambda>c.
     gets (\<lambda>s. if slab_reassign s \<or> slab_chunk_size_max s \<noteq> slab_page_size s then slab_page_size s
               else chunk_sz c * perslab c))"

definition do_slabs_newslab_from_dram :: "nat \<Rightarrow> (slabs_state, bool) exec" where
  "do_slabs_newslab_from_dram cid =
     bnd (get_class cid) (\<lambda>p.
     bnd (get_class SLAB_GLOBAL_PAGE_POOL) (\<lambda>g.
     bnd (newslab_len cid) (\<lambda>len.
     bnd (gets (\<lambda>s. mem_limit s = 0 \<or> (mem_limit s < mem_malloced s + scast len \<and> 0 < slabs p \<and> slabs g = 0))) (\<lambda>full.
     if full then seq (modify (\<lambda>s. s\<lparr>mem_limit_reached := True\<rparr>)) (ret False)
     else
       bnd (grow_slab_list cid) (\<lambda>ok.
       if \<not> ok then ret False
       else
         bnd (bnd (get_page_from_global_pool_by_id SLAB_GLOBAL_PAGE_POOL) (\<lambda>p.
              if p = NULL then memory_allocate (scast len) else ret p)) (\<lambda>p.
         if p = NULL then ret False
         else
           seq (memset_page p (unat len))
          (seq (split_slab_page_into_freelist p cid)
          (seq (push_page cid p)
               (ret True)))))))))"

text \<open>The frame of a page, and its record of class and chunk size.\<close>

definition PSLAB_SLAB2FRAME :: "ptr \<Rightarrow> ptr" where
  "PSLAB_SLAB2FRAME slab = (if slab \<noteq> NULL then slab - sizeof_pslab_t else NULL)"

definition get_frame :: "ptr \<Rightarrow> (slabs_state, slab_frame) exec" where
  "get_frame fp = (\<lambda>s. case frames s fp of None \<Rightarrow> Inl InvalidPtr | Some f \<Rightarrow> Inr (f, s))"

definition upd_frame :: "ptr \<Rightarrow> (slab_frame \<Rightarrow> slab_frame) \<Rightarrow> (slabs_state, unit) exec" where
  "upd_frame fp g = (\<lambda>s. case frames s fp of None \<Rightarrow> Inl InvalidPtr | Some f \<Rightarrow> Inr ((), s\<lparr>frames := (frames s)(fp \<mapsto> g f)\<rparr>))"

definition pslab_use_slab :: "ptr \<Rightarrow> nat \<Rightarrow> 32 word \<Rightarrow> (slabs_state, unit) exec" where
  "pslab_use_slab p cid sz =
     seq (upd_frame (PSLAB_SLAB2FRAME p) (\<lambda>f. f\<lparr>fr_size := sz\<rparr>))
         (upd_frame (PSLAB_SLAB2FRAME p) (\<lambda>f. f\<lparr>fr_id := of_nat cid\<rparr>))"

definition do_slabs_newslab_from_pmem :: "nat \<Rightarrow> (slabs_state, bool) exec" where
  "do_slabs_newslab_from_pmem cid =
     bnd (grow_slab_list cid) (\<lambda>ok.
     if \<not> ok then ret False
     else
       bnd (get_page_from_global_pool_by_id SLAB_GLOBAL_PAGE_POOL_PMEM) (\<lambda>p.
       if p = NULL then ret False
       else
         bnd (gets slab_page_size) (\<lambda>page.
         seq (memset_page p (unat page))
        (seq (split_slab_page_into_freelist p cid)
        (seq (push_page cid p)
        (bnd (get_class cid) (\<lambda>c.
         seq (pslab_use_slab p cid (chunk_sz c))
             (ret True))))))))"

definition do_slabs_renewslab :: "nat \<Rightarrow> ptr \<Rightarrow> (slabs_state, bool) exec" where
  "do_slabs_renewslab cid p = bnd (grow_slab_list cid) (\<lambda>ok. if \<not> ok then ret False else seq (push_page cid p) (ret True))"

definition PSLAB_POLICY_DRAM :: nat where "PSLAB_POLICY_DRAM = 0"

definition PSLAB_POLICY_PMEM :: nat where "PSLAB_POLICY_PMEM = 1"

definition PSLAB_POLICY_BALANCED :: nat where "PSLAB_POLICY_BALANCED = 2"

definition slabs_update_policy :: "(slabs_state, unit) exec" where
  "slabs_update_policy =
     seq (modify (\<lambda>s. if pslab_size s = 0 then s\<lparr>slabs_next_src := PSLAB_POLICY_DRAM\<rparr>
                      else if mem_limit s = 0 then s\<lparr>slabs_next_src := PSLAB_POLICY_PMEM\<rparr> else s))
         (modify (\<lambda>s. if pslab_policy s = PSLAB_POLICY_BALANCED then s\<lparr>slabs_next_src := PSLAB_POLICY_DRAM\<rparr>
                      else s\<lparr>slabs_next_src := pslab_policy s\<rparr>))"

definition newslabs_funcs :: "nat \<Rightarrow> nat \<Rightarrow> (slabs_state, bool) exec" where
  "newslabs_funcs src cid =
     (if src = PSLAB_POLICY_DRAM then do_slabs_newslab_from_dram cid
      else if src = PSLAB_POLICY_PMEM then do_slabs_newslab_from_pmem cid
      else raise IndexRange)"

definition do_slabs_newslab :: "nat \<Rightarrow> (slabs_state, bool) exec" where
  "do_slabs_newslab cid =
     bnd (gets slabs_next_src) (\<lambda>src.
     bnd (newslabs_funcs src cid) (\<lambda>done.
     bnd (if done then ret (src, True)
          else bnd (newslabs_funcs (src XOR 1) cid) (\<lambda>done. ret (src XOR 1, done))) (\<lambda>(src, done).
     seq (modify (\<lambda>s. if pslab_policy s = PSLAB_POLICY_BALANCED then s\<lparr>slabs_next_src := src XOR 1\<rparr> else s))
         (ret done))))"

section \<open>Allocation\<close>

definition SLABS_ALLOC_NO_NEWPAGE :: nat where "SLABS_ALLOC_NO_NEWPAGE = 1"

text \<open>The result is the chunk, or \<^verbatim>\<open>NULL\<close>, and the bytes requested in the class before.\<close>

definition unlink_first :: "nat \<Rightarrow> (slabs_state, ptr) exec" where
  "unlink_first cid =
     bnd (get_class cid) (\<lambda>c.
     bnd (deref (slots c)) (\<lambda>it.
     seq (upd_class cid (\<lambda>c. c\<lparr>slots := i_next it\<rparr>))
    (seq (if i_next it \<noteq> NULL then assign (i_next it) (\<lambda>n. n\<lparr>i_prev := NULL\<rparr>) else ret ())
    (seq (assign (slots c) (\<lambda>n. n\<lparr>it_flags := it_flags n AND NOT ITEM_SLABBED\<rparr>))
    (seq (assign (slots c) (\<lambda>n. n\<lparr>refcount := 1\<rparr>))
    (seq (upd_class cid (\<lambda>c. c\<lparr>sl_curr := sl_curr c - 1\<rparr>))
         (ret (slots c))))))))"

definition do_slabs_alloc :: "64 word \<Rightarrow> nat \<Rightarrow> nat \<Rightarrow> (slabs_state, ptr \<times> 64 word option) exec" where
  "do_slabs_alloc sz cid flags =
     bnd (gets power_largest) (\<lambda>largest.
     if cid < POWER_SMALLEST \<or> largest < cid then ret (NULL, None)
     else
       bnd (get_class cid) (\<lambda>c0.
       seq (if sl_curr c0 = 0 \<and> flags \<noteq> SLABS_ALLOC_NO_NEWPAGE then bnd (do_slabs_newslab cid) (\<lambda>_. ret ()) else ret ())
      (bnd (get_class cid) (\<lambda>c.
       if sl_curr c \<noteq> 0
       then bnd (unlink_first cid) (\<lambda>it.
            seq (upd_class cid (\<lambda>c. c\<lparr>requested := requested c + sz\<rparr>))
                (ret (it, Some (requested c0))))
       else ret (NULL, Some (requested c0))))))"

definition slabs_alloc :: "64 word \<Rightarrow> nat \<Rightarrow> nat \<Rightarrow> (slabs_state, ptr \<times> 64 word option) exec" where
  "slabs_alloc sz cid flags =
     seq (pthread_mutex_lock slabs_lock)
    (bnd (do_slabs_alloc sz cid flags) (\<lambda>r. seq (pthread_mutex_unlock slabs_lock) (ret r)))"

definition slabs_free :: "ptr \<Rightarrow> 64 word \<Rightarrow> nat \<Rightarrow> (slabs_state, unit) exec" where
  "slabs_free p sz cid =
     seq (pthread_mutex_lock slabs_lock) (seq (do_slabs_free p sz cid) (pthread_mutex_unlock slabs_lock))"

section \<open>Start\<close>

text \<open>\<^verbatim>\<open>exit(1)\<close> when a page cannot be had.\<close>

primrec preallocate_loop :: "nat \<Rightarrow> nat \<Rightarrow> nat \<Rightarrow> nat \<Rightarrow> (slabs_state, unit) exec" where
  "preallocate_loop 0 i prealloc maxslabs = ret ()"
| "preallocate_loop (Suc k) i prealloc maxslabs =
     (if maxslabs < prealloc + 1 then ret ()
      else bnd (do_slabs_newslab i) (\<lambda>ok. if \<not> ok then raise ExitFailure else preallocate_loop k (Suc i) (prealloc + 1) maxslabs))"

definition slabs_preallocate :: "nat \<Rightarrow> (slabs_state, unit) exec" where
  "slabs_preallocate maxslabs = preallocate_loop (MAX_NUMBER_OF_SLAB_CLASSES - POWER_SMALLEST) POWER_SMALLEST 0 maxslabs"

text \<open>\<open>chunk_size\<close> is \<^verbatim>\<open>settings.chunk_size\<close>; \<open>initial\<close> is the value of \<^verbatim>\<open>T_MEMD_INITIAL_MALLOC\<close>.\<close>

definition slabs_init :: "64 word \<Rightarrow> (32 word \<Rightarrow> bool) \<Rightarrow> (32 word \<Rightarrow> 32 word) \<Rightarrow> bool \<Rightarrow> 32 word list option \<Rightarrow> 32 word \<Rightarrow>
    64 word option \<Rightarrow> (slabs_state, unit) exec" where
  "slabs_init limit stop scale prealloc slab_sizes chunk_size initial =
     seq (modify (\<lambda>s. s\<lparr>mem_limit := limit\<rparr>))
    (seq (if prealloc
          then bnd (malloc_bytes (unat limit)) (\<lambda>base.
               modify (\<lambda>s. if base \<noteq> NULL then s\<lparr>mem_base := base, mem_current := base, mem_avail := mem_limit s\<rparr>
                           else s\<lparr>mem_base := NULL\<rparr>))
          else ret ())
    (seq (modify (\<lambda>s. s\<lparr>slabclass := replicate MAX_NUMBER_OF_SLAB_CLASSES zero_class\<rparr>))
    (bnd (init_loop stop scale slab_sizes (MAX_NUMBER_OF_SLAB_CLASSES - POWER_SMALLEST - POWER_SMALLEST) POWER_SMALLEST
            (of_nat sizeof_item + chunk_size)) (\<lambda>i.
     seq (modify (\<lambda>s. s\<lparr>power_largest := i\<rparr>))
    (bnd (gets slab_chunk_size_max) (\<lambda>top.
     bnd (gets slab_page_size) (\<lambda>page.
     if top = 0 then raise DivisionByZero
     else
     seq (upd_class i (\<lambda>c. c\<lparr>chunk_sz := top, perslab := page div top\<rparr>))
    (seq (case initial of None \<Rightarrow> ret () | Some m \<Rightarrow> modify (\<lambda>s. s\<lparr>mem_malloced := m\<rparr>))
         (if prealloc then slabs_preallocate i else ret ())))))))))"

primrec prefill_loop :: "nat \<Rightarrow> (slabs_state, unit) exec" where
  "prefill_loop 0 = raise Diverges"
| "prefill_loop (Suc k) =
     bnd (gets (\<lambda>s. mem_malloced s < mem_limit s)) (\<lambda>more.
     if \<not> more then ret ()
     else
       bnd (gets slab_page_size) (\<lambda>len.
       bnd (memory_allocate (scast len)) (\<lambda>p.
       if p = NULL then ret ()
       else bnd (grow_slab_list 0) (\<lambda>_. seq (push_page 0 p) (prefill_loop k)))))"

definition slabs_prefill_global :: "(slabs_state, unit) exec" where
  "slabs_prefill_global =
     seq (bnd (gets (\<lambda>s. Suc (room s + unat (mem_avail s)))) prefill_loop)
         (modify (\<lambda>s. s\<lparr>mem_limit_reached := True\<rparr>))"

section \<open>Frames of the slab pool\<close>

definition PSLAB_LINKED :: "8 word" where "PSLAB_LINKED = 1"

definition PSLAB_CHUNKED :: "8 word" where "PSLAB_CHUNKED = 2"

definition PSLAB_CHUNK :: "8 word" where "PSLAB_CHUNK = 4"

text \<open>A frame without items that are alive.\<close>

definition frame_idle :: "slab_frame \<Rightarrow> bool" where
  "frame_idle f \<longleftrightarrow> fr_id f = 0 \<or> fr_flags f AND (PSLAB_LINKED OR PSLAB_CHUNK) = 0"

primrec find_idle :: "ptr list \<Rightarrow> (slabs_state, ptr) exec" where
  "find_idle [] = seq (modify (\<lambda>s. s\<lparr>walk_cur := NULL\<rparr>)) (ret NULL)"
| "find_idle (fp # fps) =
     bnd (get_frame fp) (\<lambda>f.
     if frame_idle f then seq (modify (\<lambda>s. s\<lparr>walk_cur := fp\<rparr>)) (ret (fp + sizeof_pslab_t)) else find_idle fps)"

definition frame_walk :: "ptr \<Rightarrow> slabs_state \<Rightarrow> ptr list" where
  "frame_walk fp s = frames_from fp (pslab_to s) (unat (slab_page_size s))"

definition pslab_get_free_slab :: "ptr \<Rightarrow> (slabs_state, ptr) exec" where
  "pslab_get_free_slab slab = (\<lambda>s.
     let fp = PSLAB_SLAB2FRAME slab in
     if fp \<noteq> NULL \<and> fp \<noteq> walk_cur s then Inr (NULL, s)
     else let next = (if fp = NULL then pslab_from s else fp + sizeof_pslab_t + unat (slab_page_size s)) in
          find_idle (frame_walk next s) (s\<lparr>walk_cur := fp\<rparr>))"

primrec prefill_pmem_loop :: "nat \<Rightarrow> ptr \<Rightarrow> (slabs_state, unit) exec" where
  "prefill_pmem_loop 0 p = raise Diverges"
| "prefill_pmem_loop (Suc k) p =
     bnd (pslab_get_free_slab p) (\<lambda>p.
     if p = NULL then ret ()
     else bnd (grow_slab_list SLAB_GLOBAL_PAGE_POOL_PMEM) (\<lambda>_.
          seq (push_page SLAB_GLOBAL_PAGE_POOL_PMEM p) (prefill_pmem_loop k p)))"

definition slabs_prefill_global_from_pmem :: "(slabs_state, unit) exec" where
  "slabs_prefill_global_from_pmem =
     bnd (gets (\<lambda>s. Suc (pslab_to s - pslab_from s))) (\<lambda>k. prefill_pmem_loop k NULL)"

section \<open>Limits and accounting\<close>

definition free_page :: "ptr \<Rightarrow> (slabs_state, unit) exec" where
  "free_page p = modify (\<lambda>s. s\<lparr>cells := (\<lambda>a. if p \<le> a \<and> a < p + unat (slab_page_size s) then None else cells s a),
     room := Suc (room s)\<rparr>)"

primrec release_loop :: "nat \<Rightarrow> (slabs_state, unit) exec" where
  "release_loop 0 = raise Diverges"
| "release_loop (Suc k) =
     bnd (gets (\<lambda>s. mem_limit s < mem_malloced s)) (\<lambda>over.
     if \<not> over then ret ()
     else
       bnd (get_page_from_global_pool_by_id SLAB_GLOBAL_PAGE_POOL) (\<lambda>p.
       if p = NULL then ret ()
       else
         seq (free_page p)
        (seq (modify (\<lambda>s. s\<lparr>mem_malloced := mem_malloced s - scast (slab_page_size s)\<rparr>))
             (release_loop k))))"

definition memory_release :: "(slabs_state, unit) exec" where
  "memory_release =
     bnd (gets (\<lambda>s. (mem_base s, slab_reassign s))) (\<lambda>(base, reassign).
     if base \<noteq> NULL \<or> \<not> reassign then ret ()
     else bnd (get_class SLAB_GLOBAL_PAGE_POOL) (\<lambda>g. release_loop (Suc (unat (slabs g)))))"

definition do_slabs_adjust_mem_limit :: "64 word \<Rightarrow> (slabs_state, bool) exec" where
  "do_slabs_adjust_mem_limit new_mem_limit =
     bnd (gets mem_base) (\<lambda>base.
     if base \<noteq> NULL then ret False
     else
       seq (modify (\<lambda>s. s\<lparr>maxbytes := new_mem_limit, mem_limit := new_mem_limit, mem_limit_reached := False\<rparr>))
      (seq memory_release (ret True)))"

definition slabs_adjust_mem_limit :: "64 word \<Rightarrow> (slabs_state, bool) exec" where
  "slabs_adjust_mem_limit new_mem_limit =
     seq (pthread_mutex_lock slabs_lock)
    (bnd (do_slabs_adjust_mem_limit new_mem_limit) (\<lambda>r. seq (pthread_mutex_unlock slabs_lock) (ret r)))"

text \<open>\<^verbatim>\<open>abort()\<close> for a class that does not exist.\<close>

definition slabs_adjust_mem_requested :: "nat \<Rightarrow> 64 word \<Rightarrow> 64 word \<Rightarrow> (slabs_state, unit) exec" where
  "slabs_adjust_mem_requested cid old ntotal =
     seq (pthread_mutex_lock slabs_lock)
    (bnd (gets power_largest) (\<lambda>largest.
     if cid < POWER_SMALLEST \<or> largest < cid then raise ExitFailure
     else seq (upd_class cid (\<lambda>c. c\<lparr>requested := requested c - old + ntotal\<rparr>)) (pthread_mutex_unlock slabs_lock)))"

definition slabs_available_chunks :: "nat \<Rightarrow> (slabs_state, 32 word \<times> bool \<times> 64 word \<times> 32 word) exec" where
  "slabs_available_chunks cid =
     seq (pthread_mutex_lock slabs_lock)
    (bnd (get_class cid) (\<lambda>c.
     bnd (gets (\<lambda>s. mem_limit s \<le> mem_malloced s)) (\<lambda>flag.
     seq (pthread_mutex_unlock slabs_lock) (ret (sl_curr c, flag, requested c, perslab c)))))"

definition global_page_pool_size :: "(slabs_state, 32 word \<times> bool) exec" where
  "global_page_pool_size =
     seq (pthread_mutex_lock slabs_lock)
    (bnd (gets (\<lambda>s. mem_limit s \<le> mem_malloced s)) (\<lambda>flag.
     bnd (get_class SLAB_GLOBAL_PAGE_POOL) (\<lambda>g.
     seq (pthread_mutex_unlock slabs_lock) (ret (slabs g, flag)))))"

text \<open>The figures of the automover for each class: chunks per page, free chunks, pages and chunk size.\<close>

definition fill_slab_stats_automove :: "(slabs_state, (32 word \<times> 32 word \<times> 32 word \<times> 32 word) list) exec" where
  "fill_slab_stats_automove =
     seq (pthread_mutex_lock slabs_lock)
    (bnd (gets (\<lambda>s. map (\<lambda>p. (perslab p, sl_curr p, slabs p, chunk_sz p)) (slabclass s))) (\<lambda>am.
     seq (pthread_mutex_unlock slabs_lock) (ret am)))"

definition slabs_mlock :: "(slabs_state, unit) exec" where
  "slabs_mlock = pthread_mutex_lock slabs_lock"

definition slabs_munlock :: "(slabs_state, unit) exec" where
  "slabs_munlock = pthread_mutex_unlock slabs_lock"

section \<open>Recovered items and moved pages\<close>

definition ITEM_CAS :: "8 word" where "ITEM_CAS = 2"

definition ITEM_ntotal :: "slab_item \<Rightarrow> 64 word" where
  "ITEM_ntotal n = of_nat sizeof_item + ucast (nkey n) + 1 + ucast (nsuffix n) + scast (nbytes n)
     + (if it_flags n AND ITEM_CAS \<noteq> 0 then 8 else 0)"

primrec realloc_chunks :: "nat \<Rightarrow> nat \<Rightarrow> ptr \<Rightarrow> (slabs_state, unit) exec" where
  "realloc_chunks 0 cid ch = raise Diverges"
| "realloc_chunks (Suc k) cid ch =
     (if ch = NULL then ret ()
      else bnd (deref ch) (\<lambda>n.
           seq (upd_class cid (\<lambda>c. c\<lparr>requested := requested c + (scast (ch_size n) + of_nat sizeof_chunk)\<rparr>))
               (realloc_chunks k cid (i_next n))))"

definition do_slab_realloc :: "ptr \<Rightarrow> nat \<Rightarrow> (slabs_state, unit) exec" where
  "do_slab_realloc it cid =
     seq (assign it (\<lambda>n. n\<lparr>refcount := 0\<rparr>))
    (bnd (deref it) (\<lambda>n.
     if it_flags n AND ITEM_CHUNKED \<noteq> 0
     then seq (upd_class cid (\<lambda>c. c\<lparr>requested := requested c
                 + (ucast (nkey n) + 1 + ucast (nsuffix n) + of_nat sizeof_item + of_nat sizeof_chunk)\<rparr>))
              (bnd (gets fresh) (\<lambda>k. realloc_chunks (Suc k) cid (data_next n)))
     else upd_class cid (\<lambda>c. c\<lparr>requested := requested c + ITEM_ntotal n\<rparr>)))"

text \<open>Detaching a chunk from the middle of the free list.\<close>

definition slab_rebalance_cut_free :: "nat \<Rightarrow> ptr \<Rightarrow> (slabs_state, unit) exec" where
  "slab_rebalance_cut_free cid it =
     bnd (deref it) (\<lambda>n.
     bnd (get_class cid) (\<lambda>c.
     seq (if slots c = it then upd_class cid (\<lambda>c. c\<lparr>slots := i_next n\<rparr>) else ret ())
    (seq (if i_next n \<noteq> NULL then assign (i_next n) (\<lambda>m. m\<lparr>i_prev := i_prev n\<rparr>) else ret ())
    (seq (if i_prev n \<noteq> NULL then assign (i_prev n) (\<lambda>m. m\<lparr>i_next := i_next n\<rparr>) else ret ())
         (upd_class cid (\<lambda>c. c\<lparr>sl_curr := sl_curr c - 1\<rparr>))))))"

end
