(* ===== verification/SlabsLists.thy ===== *)
theory SlabsLists
  imports Slabs
begin

text \<open>
  The free lists of the slab classes. \<open>flist\<close> relates the first pointer of a list to the chunks on it,
  with both link fields; \<open>free_lists\<close> gathers the lists of all classes. Freeing a chunk puts it in
  front, an allocation takes the first one, the page mover cuts one out; none of them touches the pages.
\<close>

section \<open>Doubly linked lists\<close>

text \<open>A chunk on a free list: marked as free, of no class, not the head of a chunked item.\<close>

definition free_header :: "slab_item \<Rightarrow> bool" where
  "free_header n \<longleftrightarrow> it_clsid n = 0 \<and> it_flags n AND ITEM_SLABBED \<noteq> 0 \<and> it_flags n AND ITEM_CHUNKED = 0"

primrec fseg :: "(ptr \<rightharpoonup> slab_item) \<Rightarrow> ptr \<Rightarrow> ptr \<Rightarrow> ptr list \<Rightarrow> ptr \<Rightarrow> ptr \<Rightarrow> bool" where
  "fseg h pv p [] l q \<longleftrightarrow> p = q \<and> pv = l"
| "fseg h pv p (a # as) l q \<longleftrightarrow> p = a \<and> a \<noteq> NULL \<and>
     (case h a of None \<Rightarrow> False | Some n \<Rightarrow> i_prev n = pv \<and> free_header n \<and> fseg h a (i_next n) as l q)"

definition flist :: "(ptr \<rightharpoonup> slab_item) \<Rightarrow> ptr \<Rightarrow> ptr list \<Rightarrow> bool" where
  "flist h p as \<longleftrightarrow> fseg h NULL p as (if as = [] then NULL else last as) NULL"

lemma fseg_append:
  "fseg h pv p (us @ vs) l q \<longleftrightarrow> (\<exists>m r. fseg h pv p us m r \<and> fseg h m r vs l q)"
  by (induction us arbitrary: pv p) (auto split: option.splits)

lemma fseg_cong: "(\<And>a. a \<in> set as \<Longrightarrow> h' a = h a) \<Longrightarrow> fseg h' pv p as l q = fseg h pv p as l q"
  by (induction as arbitrary: pv p) (auto split: option.splits)

lemma fseg_last: "fseg h pv p as l q \<Longrightarrow> l = (if as = [] then pv else last as)"
  by (induction as arbitrary: pv p) (auto split: option.splits if_splits)

lemma fseg_mem: "fseg h pv p as l q \<Longrightarrow> a \<in> set as \<Longrightarrow> a \<noteq> NULL \<and> (\<exists>n. h a = Some n \<and> free_header n)"
  by (induction as arbitrary: pv p) (auto split: option.splits)

lemma flist_Nil [simp]: "flist h p [] \<longleftrightarrow> p = NULL"
  by (simp add: flist_def)

lemma flist_iff: "flist h p as \<longleftrightarrow> (\<exists>l. fseg h NULL p as l NULL)"
proof
  assume "\<exists>l. fseg h NULL p as l NULL"
  then obtain l where l: "fseg h NULL p as l NULL" ..
  then show "flist h p as" using fseg_last[OF l] by (simp add: flist_def)
qed (auto simp: flist_def)

lemma flist_Cons: "flist h p (a # as) \<longleftrightarrow> p = a \<and> a \<noteq> NULL \<and>
    (\<exists>n l. h a = Some n \<and> i_prev n = NULL \<and> free_header n \<and> fseg h a (i_next n) as l NULL)"
  by (auto simp: flist_iff split: option.splits)

lemma flist_cong: "(\<And>a. a \<in> set as \<Longrightarrow> h' a = h a) \<Longrightarrow> flist h' p as = flist h p as"
  unfolding flist_def by (rule fseg_cong)

lemma flist_mem: "flist h p as \<Longrightarrow> a \<in> set as \<Longrightarrow> a \<noteq> NULL \<and> (\<exists>n. h a = Some n \<and> free_header n)"
  by (auto simp: flist_def dest: fseg_mem)

lemma flist_null: "flist h p as \<Longrightarrow> p = NULL \<longleftrightarrow> as = []"
  by (cases as) (auto simp: flist_def)

lemma free_header_links [simp]:
  "free_header (n\<lparr>i_prev := q\<rparr>) = free_header n" "free_header (n\<lparr>i_next := q\<rparr>) = free_header n"
  by (simp_all add: free_header_def)

text \<open>A list whose first node gets another predecessor.\<close>

definition set_prev :: "ptr \<Rightarrow> ptr \<Rightarrow> (ptr \<rightharpoonup> slab_item) \<Rightarrow> (ptr \<rightharpoonup> slab_item)" where
  "set_prev p v h = (case h p of None \<Rightarrow> h | Some n \<Rightarrow> if p = NULL then h else h(p \<mapsto> n\<lparr>i_prev := v\<rparr>))"

definition set_next :: "ptr \<Rightarrow> ptr \<Rightarrow> (ptr \<rightharpoonup> slab_item) \<Rightarrow> (ptr \<rightharpoonup> slab_item)" where
  "set_next p v h = (case h p of None \<Rightarrow> h | Some n \<Rightarrow> if p = NULL then h else h(p \<mapsto> n\<lparr>i_next := v\<rparr>))"

lemma set_prev_other [simp]: "a \<noteq> p \<Longrightarrow> set_prev p v h a = h a"
  by (simp add: set_prev_def split: option.splits)

lemma set_next_other [simp]: "a \<noteq> p \<Longrightarrow> set_next p v h a = h a"
  by (simp add: set_next_def split: option.splits)

lemma set_prev_null [simp]: "set_prev NULL v h = h"
  by (simp add: set_prev_def split: option.splits)

lemma set_next_null [simp]: "set_next NULL v h = h"
  by (simp add: set_next_def split: option.splits)

lemma dom_set_prev [simp]: "dom (set_prev p v h) = dom h"
  by (auto simp: set_prev_def split: option.splits if_splits)

lemma dom_set_next [simp]: "dom (set_next p v h) = dom h"
  by (auto simp: set_next_def split: option.splits if_splits)

lemma fseg_set_prev:
  assumes "fseg h pv p as l NULL" and "distinct as"
  shows "fseg (set_prev p v h) v p as (if as = [] then v else l) NULL"
proof (cases as)
  case Nil
  with assms show ?thesis by simp
next
  case (Cons a bs)
  with assms obtain n where n: "p = a" "a \<noteq> NULL" "h a = Some n" "free_header n" "fseg h a (i_next n) bs l NULL"
    by (auto split: option.splits)
  have "fseg (set_prev a v h) a (i_next n) bs l NULL = fseg h a (i_next n) bs l NULL"
    using assms(2) Cons by (intro fseg_cong set_prev_other) auto
  then show ?thesis using n Cons by (simp add: set_prev_def)
qed

lemma flist_push:
  assumes f: "flist h p as" and "distinct as" and a: "a \<notin> set as" "a \<noteq> NULL" and n: "i_prev n = NULL" "i_next n = p" "free_header n"
  shows "flist (set_prev p a (h(a \<mapsto> n))) a (a # as)"
proof -
  from f obtain l where l: "fseg h NULL p as l NULL" by (auto simp: flist_iff)
  then have "fseg (h(a \<mapsto> n)) NULL p as l NULL" using a by (subst fseg_cong[of as _ h]) auto
  then have s: "fseg (set_prev p a (h(a \<mapsto> n))) a p as (if as = [] then a else l) NULL"
    using assms(2) by (rule fseg_set_prev)
  have "p \<noteq> a" using f a by (cases as) (auto simp: flist_def)
  with s a n show ?thesis by (auto simp: flist_Cons)
qed

lemma flist_pop:
  assumes f: "flist h p (a # as)" and "distinct (a # as)" and n: "h a = Some n"
  shows "flist (set_prev (i_next n) NULL h) (i_next n) as"
proof -
  from f n obtain l where l: "fseg h a (i_next n) as l NULL" by (auto simp: flist_Cons)
  show ?thesis using fseg_set_prev[OF l, of NULL] assms(2) by (auto simp: flist_iff)
qed

text \<open>Cutting out a chunk from anywhere.\<close>

lemma fseg_set_next:
  assumes "fseg h pv p as l q" and "distinct as" and "as \<noteq> []"
  shows "fseg (set_next l r h) pv p as l r"
  using assms
proof (induction as arbitrary: pv p)
  case (Cons a bs)
  then obtain n where n: "p = a" "a \<noteq> NULL" "h a = Some n" "free_header n" "i_prev n = pv" "fseg h a (i_next n) bs l q"
    by (auto split: option.splits)
  show ?case
  proof (cases "bs = []")
    case True
    with n show ?thesis by (simp add: set_next_def)
  next
    case False
    then have "l \<noteq> a" using fseg_last[OF n(6)] Cons.prems by (auto simp: last_in_set)
    with Cons.IH[OF n(6)] Cons.prems False n show ?thesis by simp
  qed
qed simp

lemma flist_cut:
  assumes f: "flist h p (us @ a # vs)" and d: "distinct (us @ a # vs)" and n: "h a = Some n"
  shows "flist (set_next (i_prev n) (i_next n) (set_prev (i_next n) (i_prev n) h)) (if p = a then i_next n else p) (us @ vs)"
    and "p = a \<longleftrightarrow> us = []"
proof -
  from f obtain m l where us: "fseg h NULL p us m a" and vs: "fseg h a (i_next n) vs l NULL"
    and m: "i_prev n = m" "a \<noteq> NULL" using n by (auto simp: flist_iff fseg_append split: option.splits)
  show p: "p = a \<longleftrightarrow> us = []" using us d by (cases us) (auto split: option.splits)
  have vs': "fseg (set_prev (i_next n) m h) m (i_next n) vs (if vs = [] then m else l) NULL"
    using vs d by (intro fseg_set_prev) auto
  show "flist (set_next (i_prev n) (i_next n) (set_prev (i_next n) (i_prev n) h)) (if p = a then i_next n else p) (us @ vs)"
  proof (cases "us = []")
    case True
    then have "m = NULL" using us by simp
    then show ?thesis using vs' True p m by (auto simp: flist_iff)
  next
    case False
    have l: "m = last us" using fseg_last[OF us] False by simp
    have "fseg (set_prev (i_next n) m h) NULL p us m a = fseg h NULL p us m a"
    proof (rule fseg_cong)
      fix b assume "b \<in> set us"
      then have "b \<noteq> i_next n"
        using vs d us by (cases vs) (auto dest: fseg_mem split: option.splits)
      then show "set_prev (i_next n) m h b = h b" by simp
    qed
    then have "fseg (set_next m (i_next n) (set_prev (i_next n) m h)) NULL p us m (i_next n)"
      using us d False by (intro fseg_set_next) auto
    moreover have "fseg (set_next m (i_next n) (set_prev (i_next n) m h)) m (i_next n) vs (if vs = [] then m else l) NULL
        = fseg (set_prev (i_next n) m h) m (i_next n) vs (if vs = [] then m else l) NULL"
      using d l False last_in_set[of us] by (intro fseg_cong set_next_other) (auto simp: disjoint_iff)
    ultimately show ?thesis using vs' False p m unfolding flist_iff fseg_append by auto
  qed
qed

section \<open>The lists of all classes\<close>

definition free_lists :: "(nat \<Rightarrow> ptr list) \<Rightarrow> slabs_state \<Rightarrow> bool" where
  "free_lists fl s \<longleftrightarrow>
     (\<forall>i < length (slabclass s). flist (cells s) (slots (slabclass s ! i)) (fl i) \<and>
        unat (sl_curr (slabclass s ! i)) = length (fl i) \<and> distinct (fl i)) \<and>
     (\<forall>i < length (slabclass s). \<forall>j < length (slabclass s). i \<noteq> j \<longrightarrow> set (fl i) \<inter> set (fl j) = {})"

text \<open>What belongs to the pages of a class, and a change that concerns only free lists and the chunks
  at the addresses \<open>A\<close>.\<close>

definition class_geom :: "slabclass_t \<Rightarrow> 32 word \<times> 32 word \<times> 32 word \<times> ptr list \<times> 32 word" where
  "class_geom c = (chunk_sz c, perslab c, slabs c, slab_list c, list_size c)"

definition same_pages :: "ptr set \<Rightarrow> slabs_state \<Rightarrow> slabs_state \<Rightarrow> bool" where
  "same_pages A s s' \<longleftrightarrow> (\<exists>h cs. s' = s\<lparr>cells := h, slabclass := cs\<rparr> \<and> map class_geom cs = map class_geom (slabclass s) \<and>
     dom h = dom (cells s) \<and> (\<forall>a. a \<notin> A \<longrightarrow> h a = cells s a))"

lemma same_pages_refl: "same_pages A s s"
  unfolding same_pages_def by (intro exI[of _ "cells s"] exI[of _ "slabclass s"]) simp

lemma same_pages_trans:
  assumes "same_pages A s t" and "same_pages B t u"
  shows "same_pages (A \<union> B) s u"
proof -
  from assms obtain h cs h' cs' where t: "t = s\<lparr>cells := h, slabclass := cs\<rparr>" "map class_geom cs = map class_geom (slabclass s)"
    "dom h = dom (cells s)" "\<And>a. a \<notin> A \<Longrightarrow> h a = cells s a"
    and u: "u = t\<lparr>cells := h', slabclass := cs'\<rparr>" "map class_geom cs' = map class_geom (slabclass t)"
    "dom h' = dom (cells t)" "\<And>a. a \<notin> B \<Longrightarrow> h' a = cells t a"
    unfolding same_pages_def by blast
  from t u have "u = s\<lparr>cells := h', slabclass := cs'\<rparr>" "map class_geom cs' = map class_geom (slabclass s)"
    "dom h' = dom (cells s)" "\<forall>a. a \<notin> A \<union> B \<longrightarrow> h' a = cells s a" by simp_all
  then show ?thesis unfolding same_pages_def by blast
qed

lemma get_class_ok [exec_simps]: "cid < length (slabclass s) \<Longrightarrow> get_class cid s = Inr (slabclass s ! cid, s)"
  by (simp add: get_class_def)

lemma upd_class_ok [exec_simps]: "cid < length (slabclass s) \<Longrightarrow>
    upd_class cid f s = Inr ((), s\<lparr>slabclass := (slabclass s)[cid := f (slabclass s ! cid)]\<rparr>)"
  by (simp add: upd_class_def)

lemma link_free_run:
  assumes "cid < length (slabclass s)" and "it \<noteq> NULL" and "cells s it = Some n"
    and "slots (slabclass s ! cid) \<noteq> it" and "slots (slabclass s ! cid) \<noteq> NULL \<Longrightarrow> slots (slabclass s ! cid) \<in> dom (cells s)"
  shows "link_free cid it s = Inr ((), s\<lparr>
      cells := set_prev (slots (slabclass s ! cid)) it ((cells s)(it \<mapsto> n\<lparr>i_prev := NULL, i_next := slots (slabclass s ! cid)\<rparr>)),
      slabclass := (slabclass s)[cid := (slabclass s ! cid)\<lparr>slots := it, sl_curr := sl_curr (slabclass s ! cid) + 1\<rparr>]\<rparr>)"
proof (cases "slots (slabclass s ! cid) = NULL")
  case True
  with assms show ?thesis by (simp add: link_free_def exec_simps)
next
  case False
  with assms(5) obtain m where "cells s (slots (slabclass s ! cid)) = Some m" by auto
  with assms False show ?thesis by (simp add: link_free_def exec_simps set_prev_def)
qed

lemma pslab_contains_upd [simp]:
  "pslab_contains p (cells_update f s) = pslab_contains p s" "pslab_contains p (slabclass_update g s) = pslab_contains p s"
  by (simp_all add: pslab_contains_def)

definition freed_flags :: "ptr \<Rightarrow> slabs_state \<Rightarrow> 8 word" where
  "freed_flags p s = (if pslab_contains p s then ITEM_SLABBED OR ITEM_PSLAB else ITEM_SLABBED)"

lemma do_slabs_free_run:
  assumes "2 \<le> cid" "cid \<le> power_largest s" "cid < length (slabclass s)" and "p \<noteq> NULL" "cells s p = Some n"
    and "it_flags n AND ITEM_CHUNKED = 0"
    and "slots (slabclass s ! cid) \<noteq> p" and "slots (slabclass s ! cid) \<noteq> NULL \<Longrightarrow> slots (slabclass s ! cid) \<in> dom (cells s)"
  shows "do_slabs_free p sz cid s = Inr ((), s\<lparr>
      cells := set_prev (slots (slabclass s ! cid)) p ((cells s)(p \<mapsto>
        n\<lparr>it_flags := freed_flags p s, it_clsid := 0, i_prev := NULL, i_next := slots (slabclass s ! cid)\<rparr>)),
      slabclass := (slabclass s)[cid := (slabclass s ! cid)\<lparr>slots := p, sl_curr := sl_curr (slabclass s ! cid) + 1,
        requested := requested (slabclass s ! cid) - sz\<rparr>]\<rparr>)"
proof -
  let ?s = "s\<lparr>cells := (cells s)(p \<mapsto> n\<lparr>it_flags := freed_flags p s, it_clsid := 0\<rparr>)\<rparr>"
  have "link_free cid p ?s = Inr ((), ?s\<lparr>
      cells := set_prev (slots (slabclass s ! cid)) p ((cells ?s)(p \<mapsto>
        n\<lparr>it_flags := freed_flags p s, it_clsid := 0, i_prev := NULL, i_next := slots (slabclass s ! cid)\<rparr>)),
      slabclass := (slabclass s)[cid := (slabclass s ! cid)\<lparr>slots := p, sl_curr := sl_curr (slabclass s ! cid) + 1\<rparr>]\<rparr>)"
    using assms by (subst link_free_run) (auto simp: dom_def)
  then show ?thesis
    using assms by (cases "pslab_contains p s") (simp_all add: do_slabs_free_def exec_simps POWER_SMALLEST_def freed_flags_def)
qed

lemma freed_header: "free_header (n\<lparr>it_flags := freed_flags p s, it_clsid := 0, i_prev := v, i_next := w\<rparr>)"
  by (simp add: free_header_def freed_flags_def ITEM_SLABBED_def ITEM_PSLAB_def ITEM_CHUNKED_def)

lemma free_listsD:
  assumes "free_lists fl s" and "i < length (slabclass s)"
  shows "flist (cells s) (slots (slabclass s ! i)) (fl i)" "unat (sl_curr (slabclass s ! i)) = length (fl i)" "distinct (fl i)"
    "\<And>j. j < length (slabclass s) \<Longrightarrow> i \<noteq> j \<Longrightarrow> set (fl i) \<inter> set (fl j) = {}"
  using assms by (auto simp: free_lists_def)

text \<open>Replacing the list of one class.\<close>

lemma free_lists_update:
  assumes fl: "free_lists fl s" and cid: "cid < length (slabclass s)" and s': "slabclass s' = (slabclass s)[cid := c]"
    and c: "flist (cells s') (slots c) as" "unat (sl_curr c) = length as" "distinct as"
    and same: "\<And>a. a \<notin> A \<Longrightarrow> cells s' a = cells s a"
    and A: "\<And>i. i < length (slabclass s) \<Longrightarrow> i \<noteq> cid \<Longrightarrow> A \<inter> set (fl i) = {}" and as: "set as \<subseteq> A"
  shows "free_lists (fl(cid := as)) s'"
proof -
  have "flist (cells s') (slots (slabclass s' ! i)) ((fl(cid := as)) i) \<and>
      unat (sl_curr (slabclass s' ! i)) = length ((fl(cid := as)) i) \<and> distinct ((fl(cid := as)) i)"
    if "i < length (slabclass s)" for i
  proof (cases "i = cid")
    case True
    with c that s' show ?thesis by simp
  next
    case False
    have "flist (cells s') (slots (slabclass s ! i)) (fl i) = flist (cells s) (slots (slabclass s ! i)) (fl i)"
      using A[OF that False] by (intro flist_cong same) blast
    with free_listsD(1-3)[OF fl that] False s' show ?thesis by simp
  qed
  moreover have "set ((fl(cid := as)) i) \<inter> set ((fl(cid := as)) j) = {}"
    if "i < length (slabclass s)" "j < length (slabclass s)" "i \<noteq> j" for i j
    using A[of i] A[of j] as free_listsD(4)[OF fl that] that by (cases "i = cid"; cases "j = cid") auto
  ultimately show ?thesis using s' by (simp add: free_lists_def)
qed

text \<open>A chunk that is free on no list goes to the front of the list of its class.\<close>

lemma do_slabs_free_lists:
  assumes fl: "free_lists fl s" and c: "2 \<le> cid" "cid \<le> power_largest s" "power_largest s < length (slabclass s)"
    and p: "p \<noteq> NULL" "cells s p = Some n" "it_flags n AND ITEM_CHUNKED = 0"
    and new: "\<And>i. i < length (slabclass s) \<Longrightarrow> p \<notin> set (fl i)" and room: "Suc (length (fl cid)) < 2 ^ 32"
  obtains s' where "do_slabs_free p sz cid s = Inr ((), s')" "free_lists (fl(cid := p # fl cid)) s'"
    "same_pages (insert p (set (fl cid))) s s'"
    "\<And>i. i < length (slabclass s) \<Longrightarrow> requested (slabclass s' ! i) = requested (slabclass s ! i) - (if i = cid then sz else 0)"
proof -
  let ?c = "slabclass s ! cid"
  from c have cid: "cid < length (slabclass s)" by simp
  note f = free_listsD[OF fl cid]
  have slots: "slots ?c \<noteq> p" "slots ?c \<noteq> NULL \<Longrightarrow> slots ?c \<in> set (fl cid)"
    using f(1) new[OF cid] p by (cases "fl cid"; auto simp: flist_def)+
  have sdom: "slots ?c \<in> dom (cells s)" if "slots ?c \<noteq> NULL" using flist_mem[OF f(1) slots(2)[OF that]] by auto
  let ?n = "n\<lparr>it_flags := freed_flags p s, it_clsid := 0, i_prev := NULL, i_next := slots ?c\<rparr>"
  let ?h = "set_prev (slots ?c) p ((cells s)(p \<mapsto> ?n))"
  let ?s = "s\<lparr>cells := ?h, slabclass := (slabclass s)[cid := ?c\<lparr>slots := p, sl_curr := sl_curr ?c + 1, requested := requested ?c - sz\<rparr>]\<rparr>"
  have run: "do_slabs_free p sz cid s = Inr ((), ?s)"
    using do_slabs_free_run[OF c(1,2) cid p slots(1) sdom] .
  have h: "?h a = cells s a" if "a \<noteq> p" "a \<notin> set (fl cid)" for a
  proof (cases "slots ?c = NULL")
    case False
    with slots(2) that have "a \<noteq> slots ?c" by blast
    with that show ?thesis by simp
  qed (use that in simp)
  have "flist ?h p (p # fl cid)"
    using flist_push[OF f(1) f(3) new[OF cid] p(1), where n = ?n] freed_header[where n = n and p = p and s = s and v = NULL and w = "slots ?c"] by simp
  moreover have "unat (sl_curr ?c + 1) = Suc (length (fl cid))"
    using f(2) room by (simp add: unat_word_ariths)
  ultimately have "free_lists (fl(cid := p # fl cid)) ?s"
    using free_listsD(4)[OF fl cid] new new[OF cid] f(3)
    by (intro free_lists_update[OF fl cid, where A = "insert p (set (fl cid))"]) (auto intro!: h)
  moreover have "same_pages (insert p (set (fl cid))) s ?s"
    unfolding same_pages_def
  proof (intro exI conjI)
    show "map class_geom ((slabclass s)[cid := ?c\<lparr>slots := p, sl_curr := sl_curr ?c + 1, requested := requested ?c - sz\<rparr>]) = map class_geom (slabclass s)"
      using cid by (auto intro!: nth_equalityI simp: nth_list_update class_geom_def)
    show "dom ?h = dom (cells s)" using p by auto
  qed (use h in auto)
  ultimately show ?thesis using run cid by (intro that[of ?s]) (auto simp: nth_list_update)
qed

text \<open>What a change of the free lists leaves alone.\<close>

lemma same_pagesD:
  assumes "same_pages A s s'"
  shows "power_largest s' = power_largest s" "length (slabclass s') = length (slabclass s)"
    "\<And>i. i < length (slabclass s) \<Longrightarrow> class_geom (slabclass s' ! i) = class_geom (slabclass s ! i)"
    "dom (cells s') = dom (cells s)" "\<And>a. a \<notin> A \<Longrightarrow> cells s' a = cells s a"
    "s' = s\<lparr>cells := cells s', slabclass := slabclass s'\<rparr>"
proof -
  from assms obtain h cs where s': "s' = s\<lparr>cells := h, slabclass := cs\<rparr>" "map class_geom cs = map class_geom (slabclass s)"
    "dom h = dom (cells s)" "\<And>a. a \<notin> A \<Longrightarrow> h a = cells s a"
    unfolding same_pages_def by blast
  from map_eq_imp_length_eq[OF s'(2)] have l: "length cs = length (slabclass s)" .
  have "class_geom (cs ! i) = class_geom (slabclass s ! i)" if "i < length (slabclass s)" for i
    using arg_cong[OF s'(2), of "\<lambda>xs. xs ! i"] that l by simp
  then show "power_largest s' = power_largest s" "length (slabclass s') = length (slabclass s)"
    "\<And>i. i < length (slabclass s) \<Longrightarrow> class_geom (slabclass s' ! i) = class_geom (slabclass s ! i)"
    "dom (cells s') = dom (cells s)" "\<And>a. a \<notin> A \<Longrightarrow> cells s' a = cells s a"
    "s' = s\<lparr>cells := cells s', slabclass := slabclass s'\<rparr>"
    using s' l by simp_all
qed

text \<open>An allocation takes the first chunk of the list.\<close>

definition taken :: "slab_item \<Rightarrow> slab_item" where
  "taken n = n\<lparr>it_flags := it_flags n AND NOT ITEM_SLABBED, refcount := 1\<rparr>"

lemma taken_header:
  assumes "free_header n"
  shows "it_flags (taken n) AND ITEM_CHUNKED = 0" "it_flags (taken n) AND ITEM_SLABBED = 0" "refcount (taken n) = 1" "it_clsid (taken n) = 0"
proof -
  have "(x AND NOT y) AND z = 0" if "x AND z = 0" for x y z :: "8 word"
    using that by (auto simp: bit_eq_iff bit_simps)
  moreover have "(x AND NOT y) AND y = 0" for x y :: "8 word" by (auto simp: bit_eq_iff bit_simps)
  ultimately show "it_flags (taken n) AND ITEM_CHUNKED = 0" "it_flags (taken n) AND ITEM_SLABBED = 0" "refcount (taken n) = 1"
    "it_clsid (taken n) = 0"
    using assms by (auto simp: taken_def free_header_def)
qed

lemma unlink_first_run:
  assumes "cid < length (slabclass s)" and a: "slots (slabclass s ! cid) = a" "a \<noteq> NULL" "cells s a = Some n" "i_next n \<noteq> a"
    and "i_next n \<noteq> NULL \<Longrightarrow> i_next n \<in> dom (cells s)"
  shows "unlink_first cid s = Inr (a, s\<lparr>cells := (set_prev (i_next n) NULL (cells s))(a \<mapsto> taken n),
    slabclass := (slabclass s)[cid := (slabclass s ! cid)\<lparr>slots := i_next n, sl_curr := sl_curr (slabclass s ! cid) - 1\<rparr>]\<rparr>)"
proof (cases "i_next n = NULL")
  case True
  with assms show ?thesis by (simp add: unlink_first_def exec_simps taken_def)
next
  case False
  with assms(6) obtain m where "cells s (i_next n) = Some m" by auto
  with assms False show ?thesis by (simp add: unlink_first_def exec_simps taken_def set_prev_def fun_upd_twist)
qed

lemma unlink_first_lists:
  assumes fl: "free_lists fl s" and cid: "cid < length (slabclass s)" and as: "fl cid = a # as"
  obtains s' where "unlink_first cid s = Inr (a, s')" "free_lists (fl(cid := as)) s'" "same_pages (set (fl cid)) s s'"
    "\<And>i. i < length (slabclass s) \<Longrightarrow> requested (slabclass s' ! i) = requested (slabclass s ! i)"
    "\<exists>n. cells s' a = Some n \<and> it_flags n AND ITEM_CHUNKED = 0 \<and> it_flags n AND ITEM_SLABBED = 0 \<and> refcount n = 1 \<and> it_clsid n = 0"
proof -
  let ?c = "slabclass s ! cid"
  note f = free_listsD[OF fl cid]
  from f(1) as obtain n where n: "slots ?c = a" "a \<noteq> NULL" "cells s a = Some n" "free_header n"
    by (auto simp: flist_Cons)
  have fp: "flist (set_prev (i_next n) NULL (cells s)) (i_next n) as"
    by (rule flist_pop[OF f(1)[unfolded as] f(3)[unfolded as] n(3)])
  have nx: "i_next n \<noteq> NULL \<Longrightarrow> i_next n \<in> set as" using fp by (cases as) (auto simp: flist_def)
  then have na: "i_next n \<noteq> a" using n(2) f(3) as by auto
  have nd: "i_next n \<in> dom (cells s)" if "i_next n \<noteq> NULL" using flist_mem[OF f(1)] nx[OF that] as by auto
  let ?h = "(set_prev (i_next n) NULL (cells s))(a \<mapsto> taken n)"
  let ?s = "s\<lparr>cells := ?h, slabclass := (slabclass s)[cid := ?c\<lparr>slots := i_next n, sl_curr := sl_curr ?c - 1\<rparr>]\<rparr>"
  have run: "unlink_first cid s = Inr (a, ?s)" by (rule unlink_first_run[OF cid n(1-3) na nd])
  have h: "?h b = cells s b" if "b \<notin> set (fl cid)" for b
  proof -
    have "b \<noteq> a" "i_next n = NULL \<or> b \<noteq> i_next n" using that as nx by auto
    then show ?thesis by auto
  qed
  have "flist ?h (i_next n) as"
    using fp f(3) as by (subst flist_cong[where h = "set_prev (i_next n) NULL (cells s)"]) auto
  moreover have "unat (sl_curr ?c - 1) = length as"
  proof -
    have "sl_curr ?c \<noteq> 0" using f(2) as by auto
    then show ?thesis using f(2) as by (simp add: unat_minus_one)
  qed
  ultimately have "free_lists (fl(cid := as)) ?s"
    using free_listsD(4)[OF fl cid] f(3) as h
    by (intro free_lists_update[OF fl cid, where A = "set (fl cid)"]) (simp, simp, simp, simp, simp, blast, auto)
  moreover have "same_pages (set (fl cid)) s ?s"
    unfolding same_pages_def
  proof (intro exI conjI)
    show "map class_geom ((slabclass s)[cid := ?c\<lparr>slots := i_next n, sl_curr := sl_curr ?c - 1\<rparr>]) = map class_geom (slabclass s)"
      using cid by (auto intro!: nth_equalityI simp: nth_list_update class_geom_def)
    show "dom ?h = dom (cells s)" using n(3) by auto
  qed (use h in auto)
  moreover have "\<exists>m. ?h a = Some m \<and> it_flags m AND ITEM_CHUNKED = 0 \<and> it_flags m AND ITEM_SLABBED = 0 \<and> refcount m = 1 \<and> it_clsid m = 0"
    using taken_header[OF n(4)] by simp
  ultimately show ?thesis using run cid by (intro that[of ?s]) (auto simp: nth_list_update)
qed

text \<open>The page mover takes a chunk from anywhere in the list.\<close>

lemma fseg_ends:
  assumes "fseg h pv p as l q" and "as \<noteq> []"
  shows "p \<in> set as" "l \<in> set as"
  using assms fseg_last[OF assms(1)] by (cases as; auto split: option.splits)+

lemma cut_neighbours:
  assumes f: "flist h p (us @ a # vs)" and n: "h a = Some n"
  shows "i_next n = NULL \<and> vs = [] \<or> i_next n \<in> set vs" "i_prev n = NULL \<and> us = [] \<or> i_prev n \<in> set us"
proof -
  from f obtain l where us: "fseg h NULL p us (i_prev n) a" and vs: "fseg h a (i_next n) vs l NULL"
    using n by (auto simp: flist_iff fseg_append split: option.splits)
  show "i_next n = NULL \<and> vs = [] \<or> i_next n \<in> set vs" using vs fseg_ends(1)[OF vs] by (cases "vs = []") auto
  show "i_prev n = NULL \<and> us = [] \<or> i_prev n \<in> set us" using us fseg_ends(2)[OF us] by (cases "us = []") auto
qed

lemma assign_links:
  assumes "p = NULL \<or> p \<in> dom (cells s)"
  shows "(if p \<noteq> NULL then assign p (\<lambda>m. m\<lparr>i_prev := v\<rparr>) else ret ()) s = Inr ((), s\<lparr>cells := set_prev p v (cells s)\<rparr>)"
    and "(if p \<noteq> NULL then assign p (\<lambda>m. m\<lparr>i_next := v\<rparr>) else ret ()) s = Inr ((), s\<lparr>cells := set_next p v (cells s)\<rparr>)"
  using assms by (cases "p = NULL"; auto simp: exec_simps set_prev_def[of p] set_next_def[of p])+

lemma slab_rebalance_cut_free_run:
  assumes cid: "cid < length (slabclass s)" and n: "a \<noteq> NULL" "cells s a = Some n"
    and x: "i_next n = NULL \<or> i_next n \<in> dom (cells s)" and y: "i_prev n = NULL \<or> i_prev n \<in> dom (cells s)"
  shows "slab_rebalance_cut_free cid a s = Inr ((), s\<lparr>cells := set_next (i_prev n) (i_next n) (set_prev (i_next n) (i_prev n) (cells s)),
    slabclass := (slabclass s)[cid := (slabclass s ! cid)\<lparr>slots := if slots (slabclass s ! cid) = a then i_next n else slots (slabclass s ! cid),
      sl_curr := sl_curr (slabclass s ! cid) - 1\<rparr>]\<rparr>)"
proof -
  let ?c = "slabclass s ! cid"
  let ?t = "s\<lparr>slabclass := (slabclass s)[cid := ?c\<lparr>slots := if slots ?c = a then i_next n else slots ?c\<rparr>]\<rparr>"
  have t: "(if slots ?c = a then upd_class cid (\<lambda>c. c\<lparr>slots := i_next n\<rparr>) else ret ()) s = Inr ((), ?t)"
    using cid by (simp add: exec_simps)
  let ?u = "?t\<lparr>cells := set_prev (i_next n) (i_prev n) (cells ?t)\<rparr>"
  have u: "(if i_next n \<noteq> NULL then assign (i_next n) (\<lambda>m. m\<lparr>i_prev := i_prev n\<rparr>) else ret ()) ?t = Inr ((), ?u)"
    using x by (intro assign_links(1)) simp
  have v: "(if i_prev n \<noteq> NULL then assign (i_prev n) (\<lambda>m. m\<lparr>i_next := i_next n\<rparr>) else ret ()) ?u =
      Inr ((), ?u\<lparr>cells := set_next (i_prev n) (i_next n) (cells ?u)\<rparr>)"
    using y by (intro assign_links(2)) simp
  show ?thesis
    unfolding slab_rebalance_cut_free_def seq_def bnd_def
    by (simp only: deref_ok[OF n] get_class_ok[OF cid] t u v sum.case prod.case) (simp add: upd_class_ok cid)
qed

lemma slab_rebalance_cut_free_lists:
  assumes fl: "free_lists fl s" and cid: "cid < length (slabclass s)" and as: "fl cid = us @ a # vs"
  obtains s' where "slab_rebalance_cut_free cid a s = Inr ((), s')" "free_lists (fl(cid := us @ vs)) s'" "same_pages (set (fl cid)) s s'"
proof -
  let ?c = "slabclass s ! cid"
  note f = free_listsD[OF fl cid]
  have mem: "x \<noteq> NULL \<and> (\<exists>n. cells s x = Some n)" if "x \<in> set (fl cid)" for x using flist_mem[OF f(1) that] by auto
  obtain n where n: "a \<noteq> NULL" "cells s a = Some n" using mem[of a] as by auto
  note nb = cut_neighbours[OF f(1)[unfolded as] n(2)] and cut = flist_cut[OF f(1)[unfolded as] f(3)[unfolded as] n(2)]
  let ?x = "i_next n" and ?y = "i_prev n"
  let ?h = "set_next ?y ?x (set_prev ?x ?y (cells s))"
  let ?d = "?c\<lparr>slots := if slots ?c = a then ?x else slots ?c, sl_curr := sl_curr ?c - 1\<rparr>"
  let ?s = "s\<lparr>cells := ?h, slabclass := (slabclass s)[cid := ?d]\<rparr>"
  have run: "slab_rebalance_cut_free cid a s = Inr ((), ?s)"
    using nb mem[of ?x] mem[of ?y] as by (intro slab_rebalance_cut_free_run[OF cid n]) auto
  have h: "?h b = cells s b" if "b \<notin> set (us @ a # vs)" for b
  proof -
    have "?y = NULL \<or> b \<noteq> ?y" "?x = NULL \<or> b \<noteq> ?x" using that nb by auto
    then show ?thesis by (cases "?x = NULL"; cases "?y = NULL") auto
  qed
  have "sl_curr ?c \<noteq> 0" using f(2) as by auto
  then have "unat (sl_curr ?c - 1) = length (us @ vs)" using f(2) as by (simp add: unat_minus_one)
  moreover have "set (us @ a # vs) \<inter> set (fl i) = {}" if "i < length (slabclass s)" "i \<noteq> cid" for i
    using free_listsD(4)[OF fl cid that(1)] that(2) as by simp
  ultimately have "free_lists (fl(cid := us @ vs)) ?s"
    using cut(1) f(3) as h by (intro free_lists_update[OF fl cid, where A = "set (us @ a # vs)"]) auto
  moreover have "same_pages (set (fl cid)) s ?s"
    unfolding same_pages_def
  proof (intro exI conjI)
    show "map class_geom ((slabclass s)[cid := ?d]) = map class_geom (slabclass s)"
      using cid by (auto intro!: nth_equalityI simp: nth_list_update class_geom_def)
    show "dom ?h = dom (cells s)" by simp
  qed (use h as in auto)
  ultimately show ?thesis using run by (intro that[of ?s])
qed

text \<open>The chunks of a page, and their release one by one.\<close>

definition page_chunks :: "ptr \<Rightarrow> nat \<Rightarrow> nat \<Rightarrow> ptr list" where
  "page_chunks p sz k = map (\<lambda>j. p + j * sz) [0..<k]"

lemma page_chunks_Suc: "page_chunks p sz (Suc k) = p # page_chunks (p + sz) sz k"
  by (rule nth_equalityI) (auto simp: page_chunks_def nth_Cons' algebra_simps simp del: upt_Suc)

lemma length_page_chunks [simp]: "length (page_chunks p sz k) = k"
  by (simp add: page_chunks_def)

lemma page_chunks_distinct: "0 < sz \<Longrightarrow> distinct (page_chunks p sz k)"
  by (simp add: page_chunks_def distinct_map inj_on_def)

lemma page_chunks_bounds: "a \<in> set (page_chunks p sz k) \<Longrightarrow> p \<le> a \<and> a + sz \<le> p + k * sz"
proof -
  assume "a \<in> set (page_chunks p sz k)"
  then obtain j where "j < k" "a = p + j * sz" by (auto simp: page_chunks_def)
  moreover from this have "Suc j * sz \<le> k * sz" by (intro mult_le_mono1) simp
  ultimately show ?thesis by simp
qed

lemma split_loop_lists:
  assumes "free_lists fl s" and "2 \<le> cid" "cid \<le> power_largest s" "power_largest s < length (slabclass s)"
    and "0 < sz" and "\<And>a. a \<in> set (page_chunks p sz k) \<Longrightarrow> a \<noteq> NULL \<and> (\<exists>n. cells s a = Some n \<and> it_flags n AND ITEM_CHUNKED = 0)"
    and "\<And>a i. a \<in> set (page_chunks p sz k) \<Longrightarrow> i < length (slabclass s) \<Longrightarrow> a \<notin> set (fl i)"
    and "length (fl cid) + k < 2 ^ 32"
  shows "\<exists>s'. split_loop k p sz cid s = Inr ((), s') \<and> free_lists (fl(cid := rev (page_chunks p sz k) @ fl cid)) s' \<and>
    same_pages (set (page_chunks p sz k) \<union> set (fl cid)) s s' \<and>
    (\<forall>i < length (slabclass s). requested (slabclass s' ! i) = requested (slabclass s ! i))"
  using assms
proof (induction k arbitrary: p fl s)
  case 0
  then show ?case by (simp add: page_chunks_def exec_simps same_pages_refl)
next
  case (Suc k)
  let ?ps = "page_chunks (p + sz) sz k"
  have ps: "page_chunks p sz (Suc k) = p # ?ps" by (rule page_chunks_Suc)
  have dist: "distinct (p # ?ps)" using page_chunks_distinct[OF Suc.prems(5), of p "Suc k"] ps by simp
  obtain n where n: "p \<noteq> NULL" "cells s p = Some n" "it_flags n AND ITEM_CHUNKED = 0"
    using Suc.prems(6)[of p] ps by auto
  have np: "\<And>i. i < length (slabclass s) \<Longrightarrow> p \<notin> set (fl i)" using Suc.prems(7)[of p] ps by simp
  have r: "Suc (length (fl cid)) < 2 ^ 32" using Suc.prems(8) by simp
  obtain t where t: "do_slabs_free p 0 cid s = Inr ((), t)" "free_lists (fl(cid := p # fl cid)) t"
    "same_pages (insert p (set (fl cid))) s t"
    "\<And>i. i < length (slabclass s) \<Longrightarrow> requested (slabclass t ! i) = requested (slabclass s ! i)"
    by (rule do_slabs_free_lists[OF Suc.prems(1-4) n np r, of 0]) simp_all
  note sp = same_pagesD[OF t(3)]
  have cid: "cid < length (slabclass s)" using Suc.prems(3,4) by simp
  have un: "a \<noteq> p \<and> (\<forall>i < length (slabclass s). a \<notin> set (fl i))" if "a \<in> set ?ps" for a
    using that dist Suc.prems(7)[of a] ps by auto
  have "\<exists>s'. split_loop k (p + sz) sz cid t = Inr ((), s') \<and>
      free_lists ((fl(cid := p # fl cid))(cid := rev ?ps @ (fl(cid := p # fl cid)) cid)) s' \<and>
      same_pages (set ?ps \<union> set ((fl(cid := p # fl cid)) cid)) t s' \<and>
      (\<forall>i < length (slabclass t). requested (slabclass s' ! i) = requested (slabclass t ! i))"
  proof (rule Suc.IH[OF t(2) Suc.prems(2)])
    show "a \<noteq> NULL \<and> (\<exists>n. cells t a = Some n \<and> it_flags n AND ITEM_CHUNKED = 0)" if "a \<in> set ?ps" for a
      using Suc.prems(6)[of a] ps that un[OF that] sp(5)[of a] cid by auto
    show "a \<notin> set ((fl(cid := p # fl cid)) i)" if "a \<in> set ?ps" "i < length (slabclass t)" for a i
      using un[OF that(1)] that(2) sp(2) cid by auto
  qed (use Suc.prems sp in auto)
  then obtain u where u: "split_loop k (p + sz) sz cid t = Inr ((), u)" "free_lists (fl(cid := rev ?ps @ p # fl cid)) u"
    "same_pages (set ?ps \<union> insert p (set (fl cid))) t u"
    "\<forall>i < length (slabclass t). requested (slabclass u ! i) = requested (slabclass t ! i)" by auto
  have "same_pages (insert p (set (fl cid)) \<union> (set ?ps \<union> insert p (set (fl cid)))) s u"
    by (rule same_pages_trans[OF t(3) u(3)])
  then have "same_pages (set (p # ?ps) \<union> set (fl cid)) s u" by (simp add: Un_commute Un_left_commute insert_commute)
  with t u sp(2) ps show ?case by (auto simp: exec_simps)
qed

end
