(* ===== verification/SlabsInv.thy ===== *)
theory SlabsInv
  imports SlabsLists "HOL-Library.Multiset"
begin

text \<open>
  The invariant of the slab allocator: the pages of all classes, the pages in the two global pools and
  the rest of a preallocated block are disjoint regions of memory, and the chunks of the pages of a
  class are either on its free list or in use.
\<close>

section \<open>Disjoint regions\<close>

type_synonym region = "nat \<times> nat"

definition disj :: "region \<Rightarrow> region \<Rightarrow> bool" where
  "disj r q \<longleftrightarrow> fst r + snd r \<le> fst q \<or> fst q + snd q \<le> fst r"

definition apart :: "region multiset \<Rightarrow> bool" where
  "apart M \<longleftrightarrow> (\<forall>r \<in># M. \<forall>q \<in># M - {#r#}. disj r q)"

lemma disj_sym: "disj r q = disj q r"
  by (auto simp: disj_def)

lemma apart_add: "apart (add_mset r M) \<longleftrightarrow> apart M \<and> (\<forall>q \<in># M. disj r q)"
proof (intro iffI conjI ballI)
  assume a: "apart (add_mset r M)"
  then show "disj r q" if "q \<in># M" for q using that by (auto simp: apart_def)
  show "apart M"
    unfolding apart_def
  proof (intro ballI)
    fix x y assume "x \<in># M" "y \<in># M - {#x#}"
    then have "y \<in># add_mset r M - {#x#}" by (cases "x = r") (auto dest: in_diffD)
    with a \<open>x \<in># M\<close> show "disj x y" by (auto simp: apart_def)
  qed
next
  assume a: "apart M \<and> (\<forall>q \<in># M. disj r q)"
  show "apart (add_mset r M)"
    unfolding apart_def
  proof (intro ballI)
    fix x y assume x: "x \<in># add_mset r M" and y: "y \<in># add_mset r M - {#x#}"
    show "disj x y"
    proof (cases "x = r")
      case True
      with a y show ?thesis by simp
    next
      case False
      with x have "x \<in># M" by simp
      with False y have "y = r \<or> y \<in># M - {#x#}" by (auto split: if_splits)
      with a \<open>x \<in># M\<close> show ?thesis by (auto simp: apart_def disj_sym)
    qed
  qed
qed

lemma apart_empty [simp]: "apart {#}"
  by (simp add: apart_def)

lemma apart_union: "apart (M + N) \<longleftrightarrow> apart M \<and> apart N \<and> (\<forall>r \<in># M. \<forall>q \<in># N. disj r q)"
  by (induction N) (auto simp: apart_add disj_sym)

lemma apart_shrink: "apart (add_mset (p, n) M) \<Longrightarrow> k \<le> n \<Longrightarrow> apart (add_mset (p, k) M)"
  by (auto simp: apart_add disj_def)

text \<open>Disjoint regions below \<open>N\<close> have at most \<open>N\<close> bytes.\<close>

lemma apart_total:
  assumes "apart M" and "\<forall>r \<in># M. fst r + snd r \<le> N"
  shows "(\<Sum>r \<in># M. snd r) \<le> N"
proof -
  let ?I = "\<lambda>r :: region. {fst r..<fst r + snd r}"
  have "card (\<Union>r \<in> set_mset M. ?I r) = (\<Sum>r \<in># M. snd r)" using assms(1)
  proof (induction M)
    case (add r M)
    have "?I r \<inter> (\<Union>q \<in> set_mset M. ?I q) = {}"
      using add.prems by (auto simp: apart_add disj_def)
    then have "card (\<Union>q \<in> set_mset (add_mset r M). ?I q) = card (?I r) + card (\<Union>q \<in> set_mset M. ?I q)"
      by (simp add: card_Un_disjoint)
    with add show ?case by (simp add: apart_add)
  qed simp
  moreover have "(\<Union>r \<in> set_mset M. ?I r) \<subseteq> {..<N}" using assms(2) by fastforce
  then have "card (\<Union>r \<in> set_mset M. ?I r) \<le> N" using card_mono[of "{..<N}"] by fastforce
  ultimately show ?thesis by simp
qed

section \<open>Pages and chunks of a class\<close>

definition pages :: "slabclass_t \<Rightarrow> ptr list" where
  "pages c = take (unat (slabs c)) (slab_list c)"

definition page_len :: "slabs_state \<Rightarrow> nat \<Rightarrow> nat" where
  "page_len s i = (if i < 2 then unat (slab_page_size s)
     else unat (chunk_sz (slabclass s ! i)) * unat (perslab (slabclass s ! i)))"

definition class_regions :: "slabs_state \<Rightarrow> nat \<Rightarrow> region multiset" where
  "class_regions s i = {# (p, page_len s i). p \<in># mset (pages (slabclass s ! i)) #}"

definition spare :: "slabs_state \<Rightarrow> region multiset" where
  "spare s = (if mem_base s \<noteq> NULL \<and> mem_avail s \<noteq> 0 then {#(mem_current s, unat (mem_avail s))#} else {#})"

definition regions :: "slabs_state \<Rightarrow> region multiset" where
  "regions s = (\<Sum>i < length (slabclass s). class_regions s i) + spare s"

definition class_chunks :: "slabclass_t \<Rightarrow> ptr list" where
  "class_chunks c = concat (map (\<lambda>p. page_chunks p (unat (chunk_sz c)) (unat (perslab c))) (pages c))"

lemma regions_split:
  assumes "i < length (slabclass s)"
  shows "regions s = class_regions s i + ((\<Sum>j \<in> {..<length (slabclass s)} - {i}. class_regions s j) + spare s)"
  using assms by (simp add: regions_def sum.remove[of _ i] add.assoc)

text \<open>Changing the pages of one class.\<close>

lemma regions_update:
  assumes i: "i < length (slabclass s)" and s': "length (slabclass s') = length (slabclass s)"
    and same: "\<And>j. j < length (slabclass s) \<Longrightarrow> j \<noteq> i \<Longrightarrow> class_regions s' j = class_regions s j" and "spare s' = spare s"
  shows "regions s' + class_regions s i = regions s + class_regions s' i"
proof -
  have "(\<Sum>j \<in> {..<length (slabclass s)} - {i}. class_regions s' j) = (\<Sum>j \<in> {..<length (slabclass s)} - {i}. class_regions s j)"
    using same by (intro sum.cong) auto
  then show ?thesis using regions_split[OF i] regions_split[of i s'] i s' assms(4) by (simp add: ac_simps)
qed

lemma class_regions_mem: "p \<in> set (pages (slabclass s ! i)) \<Longrightarrow> i < length (slabclass s) \<Longrightarrow> (p, page_len s i) \<in># regions s"
  using regions_split[of i s] by (simp add: class_regions_def)

text \<open>A page put behind the others of its class, or taken from the end.\<close>

lemma pages_push:
  assumes "unat (slabs c) < length (slab_list c)" and "length (slab_list c) < 2 ^ 32"
  shows "pages (c\<lparr>slab_list := (slab_list c)[unat (slabs c) := p], slabs := slabs c + 1\<rparr>) = pages c @ [p]"
    and "unat (slabs c + 1) = Suc (unat (slabs c))"
proof -
  show u: "unat (slabs c + 1) = Suc (unat (slabs c))"
    using assms by (simp add: unat_word_ariths)
  show "pages (c\<lparr>slab_list := (slab_list c)[unat (slabs c) := p], slabs := slabs c + 1\<rparr>) = pages c @ [p]"
    using assms(1) by (simp add: pages_def u take_Suc_conv_app_nth)
qed

lemma pages_pop:
  assumes "slabs c \<noteq> 0" and "unat (slabs c) \<le> length (slab_list c)"
  shows "pages c = pages (c\<lparr>slabs := slabs c - 1\<rparr>) @ [slab_list c ! unat (slabs c - 1)]"
proof -
  have u: "unat (slabs c) = Suc (unat (slabs c - 1))" using assms(1) by (simp add: unat_minus_one unat_gt_0)
  show ?thesis using assms(2) by (simp add: pages_def u take_Suc_conv_app_nth)
qed

lemma class_chunks_push: "pages c' = pages c @ [p] \<Longrightarrow> chunk_sz c' = chunk_sz c \<Longrightarrow> perslab c' = perslab c \<Longrightarrow>
    class_chunks c' = class_chunks c @ page_chunks p (unat (chunk_sz c)) (unat (perslab c))"
  by (simp add: class_chunks_def)

lemma length_class_chunks: "unat (slabs c) \<le> length (slab_list c) \<Longrightarrow> length (class_chunks c) = unat (slabs c) * unat (perslab c)"
  by (simp add: class_chunks_def length_concat comp_def sum_list_triv pages_def)

section \<open>The invariant\<close>

text \<open>
  The geometry of the classes: chunks hold at least an item header and fill at most a page. Memory is
  bounded by \<open>2 ^ 36\<close> bytes, so that the 32-bit counters of chunks and pages cannot wrap around.
\<close>

definition geometry :: "slabs_state \<Rightarrow> bool" where
  "geometry s \<longleftrightarrow> length (slabclass s) = 64 \<and> 2 \<le> power_largest s \<and> power_largest s < 64 \<and>
     48 \<le> unat (slab_page_size s) \<and> unat (slab_page_size s) < 2 ^ 31 \<and>
     (\<forall>i. 2 \<le> i \<and> i \<le> power_largest s \<longrightarrow> 48 \<le> unat (chunk_sz (slabclass s ! i)) \<and> 1 \<le> unat (perslab (slabclass s ! i)) \<and>
        unat (chunk_sz (slabclass s ! i)) * unat (perslab (slabclass s ! i)) \<le> unat (slab_page_size s)) \<and>
     (\<forall>i < 64. length (slab_list (slabclass s ! i)) = unat (list_size (slabclass s ! i)) \<and>
        unat (slabs (slabclass s ! i)) \<le> unat (list_size (slabclass s ! i)))"

definition memory_ok :: "slabs_state \<Rightarrow> bool" where
  "memory_ok s \<longleftrightarrow> apart (regions s) \<and> (\<forall>r \<in># regions s. 0 < fst r \<and> fst r + snd r \<le> fresh s) \<and>
     0 < fresh s \<and> fresh s + room s * unat (slab_page_size s) \<le> 2 ^ 36 \<and>
     (\<forall>p \<in> set (pages (slabclass s ! 1)). frames s (p - sizeof_pslab_t) \<noteq> None)"

definition in_use :: "(nat \<Rightarrow> ptr list) \<Rightarrow> (nat \<Rightarrow> ptr set) \<Rightarrow> slabs_state \<Rightarrow> bool" where
  "in_use fl used s \<longleftrightarrow>
     (\<forall>i < 64. if 2 \<le> i \<and> i \<le> power_largest s
        then set (fl i) \<inter> used i = {} \<and> set (fl i) \<union> used i = set (class_chunks (slabclass s ! i)) \<and> used i \<subseteq> dom (cells s)
        else fl i = [] \<and> used i = {})"

definition slab_inv :: "(nat \<Rightarrow> ptr list) \<Rightarrow> (nat \<Rightarrow> ptr set) \<Rightarrow> slabs_state \<Rightarrow> bool" where
  "slab_inv fl used s \<longleftrightarrow> geometry s \<and> memory_ok s \<and> free_lists fl s \<and> in_use fl used s \<and> slabs_next_src s < 2"

text \<open>What the allocator leaves alone: the geometry of the classes, the locks, and the chunks in use.\<close>

definition keeps :: "(nat \<Rightarrow> ptr set) \<Rightarrow> slabs_state \<Rightarrow> slabs_state \<Rightarrow> bool" where
  "keeps used s s' \<longleftrightarrow> locks s' = locks s \<and> power_largest s' = power_largest s \<and>
     map (\<lambda>c. (chunk_sz c, perslab c)) (slabclass s') = map (\<lambda>c. (chunk_sz c, perslab c)) (slabclass s) \<and>
     (\<forall>i < 64. \<forall>a \<in> used i. cells s' a = cells s a)"

lemma keeps_refl [simp]: "keeps used s s"
  by (simp add: keeps_def)

lemma keeps_trans: "keeps used s t \<Longrightarrow> keeps used t u \<Longrightarrow> keeps used s u"
  by (simp add: keeps_def)

lemma geometryD:
  assumes "geometry s"
  shows "length (slabclass s) = 64" "2 \<le> power_largest s" "power_largest s < 64"
    "48 \<le> unat (slab_page_size s)" "unat (slab_page_size s) < 2 ^ 31"
    "\<And>i. i < 64 \<Longrightarrow> length (slab_list (slabclass s ! i)) = unat (list_size (slabclass s ! i))"
    "\<And>i. i < 64 \<Longrightarrow> unat (slabs (slabclass s ! i)) \<le> unat (list_size (slabclass s ! i))"
    "\<And>i. 2 \<le> i \<Longrightarrow> i \<le> power_largest s \<Longrightarrow> 48 \<le> unat (chunk_sz (slabclass s ! i)) \<and> 1 \<le> unat (perslab (slabclass s ! i)) \<and>
        unat (chunk_sz (slabclass s ! i)) * unat (perslab (slabclass s ! i)) \<le> unat (slab_page_size s)"
  using assms by (auto simp: geometry_def)

lemma page_len_bounds:
  assumes "geometry s" and "i \<le> power_largest s"
  shows "48 \<le> page_len s i" "page_len s i \<le> unat (slab_page_size s)"
proof -
  note g = geometryD[OF assms(1)]
  have "48 * 1 \<le> unat (chunk_sz (slabclass s ! i)) * unat (perslab (slabclass s ! i))" if "2 \<le> i"
    using g(8)[OF that assms(2)] by (intro mult_le_mono) auto
  then show "48 \<le> page_len s i" "page_len s i \<le> unat (slab_page_size s)"
    using g(4) g(8)[OF _ assms(2)] by (auto simp: page_len_def)
qed

text \<open>The number of pages and of chunks of a class is bounded by the memory.\<close>

lemma class_bytes:
  assumes g: "geometry s" and m: "memory_ok s" and i: "i \<le> power_largest s"
  shows "unat (slabs (slabclass s ! i)) * page_len s i \<le> 2 ^ 36" "unat (slabs (slabclass s ! i)) < 2 ^ 31"
proof -
  have i64: "i < length (slabclass s)" using geometryD[OF g] i by simp
  have "(\<Sum>r \<in># regions s. snd r) \<le> fresh s" using m by (intro apart_total) (auto simp: memory_ok_def)
  moreover have "(\<Sum>r \<in># class_regions s i. snd r) \<le> (\<Sum>r \<in># regions s. snd r)"
    using regions_split[OF i64] by simp
  moreover have "(\<Sum>r \<in># class_regions s i. snd r) = unat (slabs (slabclass s ! i)) * page_len s i"
  proof -
    have "length (pages (slabclass s ! i)) = unat (slabs (slabclass s ! i))"
      using geometryD(6,7)[OF g, of i] i64 geometryD(1)[OF g] by (simp add: pages_def)
    then show ?thesis by (simp add: class_regions_def image_mset.compositionality comp_def sum_mset_constant)
  qed
  moreover have "fresh s \<le> 2 ^ 36" using m by (simp add: memory_ok_def)
  ultimately show b: "unat (slabs (slabclass s ! i)) * page_len s i \<le> 2 ^ 36" by linarith
  have "unat (slabs (slabclass s ! i)) * 48 \<le> unat (slabs (slabclass s ! i)) * page_len s i"
    using page_len_bounds[OF g i] by (intro mult_le_mono2)
  then have "unat (slabs (slabclass s ! i)) * 48 \<le> 2 ^ 36" using b by linarith
  then show "unat (slabs (slabclass s ! i)) < 2 ^ 31" by simp
qed

lemma in_useD:
  assumes "in_use fl used s" and "2 \<le> i" "i \<le> power_largest s" "i < 64"
  shows "set (fl i) \<inter> used i = {}" "set (fl i) \<union> used i = set (class_chunks (slabclass s ! i))" "used i \<subseteq> dom (cells s)"
  using assms(1)[unfolded in_use_def, rule_format, OF assms(4)] assms(2,3) by simp_all

lemma free_count:
  assumes inv: "slab_inv fl used s" and i: "2 \<le> i" "i \<le> power_largest s"
  shows "length (fl i) + unat (perslab (slabclass s ! i)) < 2 ^ 32"
proof -
  from inv have g: "geometry s" and m: "memory_ok s" and f: "free_lists fl s" and u: "in_use fl used s"
    by (auto simp: slab_inv_def)
  let ?c = "slabclass s ! i"
  have i64: "i < 64" "i < length (slabclass s)" using geometryD[OF g] i by auto
  have "length (fl i) = card (set (fl i))" using free_listsD(3)[OF f i64(2)] by (simp add: distinct_card)
  also have "\<dots> \<le> card (set (class_chunks ?c))"
    using in_useD(2)[OF u i i64(1)] by (intro card_mono) auto
  also have "\<dots> \<le> length (class_chunks ?c)" by (rule card_length)
  also have "\<dots> = unat (slabs ?c) * unat (perslab ?c)"
    using geometryD(6,7)[OF g i64(1)] by (intro length_class_chunks) simp
  finally have l: "length (fl i) \<le> unat (slabs ?c) * unat (perslab ?c)" .
  have "48 * (unat (slabs ?c) * unat (perslab ?c)) \<le> unat (slabs ?c) * page_len s i"
    using geometryD(8)[OF g i] i by (simp add: page_len_def mult_le_mono1 mult.left_commute)
  then have "48 * length (fl i) \<le> 2 ^ 36" using class_bytes(1)[OF g m i(2)] l by linarith
  moreover have "48 * unat (perslab ?c) \<le> unat (chunk_sz ?c) * unat (perslab ?c)"
    using geometryD(8)[OF g i] by (intro mult_le_mono1) simp
  then have "48 * unat (perslab ?c) < 2 ^ 31" using geometryD(8)[OF g i] geometryD(5)[OF g] by linarith
  ultimately show ?thesis by simp
qed

end
