(* ===== verification/SlabsOps.thy ===== *)
theory SlabsOps
  imports SlabsInv
begin

text \<open>
  The operations of the slab allocator keep its invariant: taking a chunk, returning one, and adding a
  page from the heap, from a preallocated block or from one of the two page pools.
\<close>

section \<open>Chunks do not overlap\<close>

lemma class_chunksE:
  assumes "a \<in> set (class_chunks c)"
  obtains p where "p \<in> set (pages c)" "a \<in> set (page_chunks p (unat (chunk_sz c)) (unat (perslab c)))"
  using assms by (auto simp: class_chunks_def)

lemma page_regions_apart:
  assumes "apart (regions s)" and "i < length (slabclass s)" "j < length (slabclass s)"
    and "p \<in> set (pages (slabclass s ! i))" "q \<in> set (pages (slabclass s ! j))" and "i \<noteq> j \<or> p \<noteq> q"
  shows "disj (p, page_len s i) (q, page_len s j)"
proof (cases "i = j")
  case True
  with assms have "apart (class_regions s i)" using regions_split[of i s] by (simp add: apart_union)
  moreover have "(p, page_len s i) \<in># class_regions s i" using assms(4) by (simp add: class_regions_def)
  moreover have "(q, page_len s i) \<in># class_regions s i - {#(p, page_len s i)#}"
    using assms(5,6) True by (intro iffD2[OF in_diff_count]) (auto simp: class_regions_def)
  ultimately show ?thesis using True by (auto simp: apart_def)
next
  case False
  have "(q, page_len s j) \<in># (\<Sum>k \<in> {..<length (slabclass s)} - {i}. class_regions s k)"
    using assms(3,5) False by (auto simp: class_regions_def sum.remove[of _ j])
  moreover have "(p, page_len s i) \<in># class_regions s i" using assms(4) by (simp add: class_regions_def)
  ultimately show ?thesis using assms(1) unfolding regions_split[OF assms(2)] by (auto simp: apart_union)
qed

lemma chunk_region: "a \<in> set (page_chunks p (unat (chunk_sz (slabclass s ! i))) (unat (perslab (slabclass s ! i)))) \<Longrightarrow> 2 \<le> i \<Longrightarrow>
    p \<le> a \<and> a + unat (chunk_sz (slabclass s ! i)) \<le> p + page_len s i"
  using page_chunks_bounds[of a p] by (auto simp: page_len_def mult.commute)

lemma chunks_disjoint:
  assumes inv: "slab_inv fl used s" and i: "2 \<le> i" "i \<le> power_largest s" and j: "2 \<le> j" "j \<le> power_largest s"
    and a: "a \<in> set (class_chunks (slabclass s ! i))" and b: "b \<in> set (class_chunks (slabclass s ! j))" and "i \<noteq> j \<or> a \<noteq> b"
  shows "disj (a, unat (chunk_sz (slabclass s ! i))) (b, unat (chunk_sz (slabclass s ! j)))"
proof -
  from inv have g: "geometry s" and m: "apart (regions s)" by (auto simp: slab_inv_def memory_ok_def)
  have len: "i < length (slabclass s)" "j < length (slabclass s)" using geometryD[OF g] i j by auto
  obtain p where p: "p \<in> set (pages (slabclass s ! i))"
    "a \<in> set (page_chunks p (unat (chunk_sz (slabclass s ! i))) (unat (perslab (slabclass s ! i))))" by (rule class_chunksE[OF a])
  obtain q where q: "q \<in> set (pages (slabclass s ! j))"
    "b \<in> set (page_chunks q (unat (chunk_sz (slabclass s ! j))) (unat (perslab (slabclass s ! j))))" by (rule class_chunksE[OF b])
  show ?thesis
  proof (cases "i = j \<and> p = q")
    case True
    let ?sz = "unat (chunk_sz (slabclass s ! i))"
    from True p q obtain x y where xy: "a = p + x * ?sz" "b = p + y * ?sz" by (auto simp: page_chunks_def)
    have "x < y \<or> y < x" using True assms(8) xy by (metis nat_neq_iff)
    then have "Suc x * ?sz \<le> y * ?sz \<or> Suc y * ?sz \<le> x * ?sz" by (metis Suc_leI mult_le_mono1)
    then show ?thesis using xy True by (auto simp: disj_def)
  next
    case False
    then have "disj (p, page_len s i) (q, page_len s j)" using page_regions_apart[OF m len p(1) q(1)] by blast
    then show ?thesis using chunk_region[OF p(2) i(1)] chunk_region[OF q(2) j(1)] unfolding disj_def by auto
  qed
qed

text \<open>A chunk of one class is on no list of another.\<close>

lemma chunk_class:
  assumes inv: "slab_inv fl used s" and i: "2 \<le> i" "i \<le> power_largest s" and a: "a \<in> set (class_chunks (slabclass s ! i))"
    and j: "j < 64" "j \<noteq> i"
  shows "a \<notin> set (fl j)" "a \<notin> used j"
proof -
  from inv have g: "geometry s" and u: "in_use fl used s" by (auto simp: slab_inv_def)
  have "a \<notin> set (fl j) \<and> a \<notin> used j"
  proof (cases "2 \<le> j \<and> j \<le> power_largest s")
    case True
    have "a \<notin> set (class_chunks (slabclass s ! j))"
      using chunks_disjoint[OF inv i _ _ a, of j a] True j(2) geometryD(8)[OF g i] geometryD(8)[OF g, of j] by (auto simp: disj_def)
    then show ?thesis using in_useD(2)[OF u _ _ j(1)] True by blast
  next
    case False
    then show ?thesis using u j(1) by (auto simp: in_use_def)
  qed
  then show "a \<notin> set (fl j)" "a \<notin> used j" by auto
qed

section \<open>Changes of the free lists\<close>

lemma same_pages_inv:
  assumes "same_pages A s s'" and "geometry s"
  shows "geometry s' = geometry s" "regions s' = regions s" "memory_ok s' = memory_ok s"
    "\<And>i. i < 64 \<Longrightarrow> class_chunks (slabclass s' ! i) = class_chunks (slabclass s ! i)"
    "map (\<lambda>c. (chunk_sz c, perslab c)) (slabclass s') = map (\<lambda>c. (chunk_sz c, perslab c)) (slabclass s)"
proof -
  note sp = same_pagesD[OF assms(1)]
  have l: "length (slabclass s) = 64" using geometryD(1)[OF assms(2)] .
  have e: "slab_page_size s' = slab_page_size s" "mem_base s' = mem_base s" "mem_avail s' = mem_avail s"
    "mem_current s' = mem_current s" "fresh s' = fresh s" "room s' = room s" "frames s' = frames s" "power_largest s' = power_largest s"
    by (subst sp(6), simp)+
  have c: "chunk_sz (slabclass s' ! i) = chunk_sz (slabclass s ! i)" "perslab (slabclass s' ! i) = perslab (slabclass s ! i)"
    "slabs (slabclass s' ! i) = slabs (slabclass s ! i)" "slab_list (slabclass s' ! i) = slab_list (slabclass s ! i)"
    "list_size (slabclass s' ! i) = list_size (slabclass s ! i)" if "i < 64" for i
    using sp(3)[of i] that l by (simp_all add: class_geom_def)
  show g: "geometry s' = geometry s"
    using c sp(2) e l by (simp add: geometry_def) auto
  have p: "pages (slabclass s' ! i) = pages (slabclass s ! i)" if "i < 64" for i using c[OF that] by (simp add: pages_def)
  have "class_regions s' i = class_regions s i" if "i < 64" for i
    using c[OF that] p[OF that] by (simp add: class_regions_def page_len_def e)
  then have "(\<Sum>i < 64. class_regions s' i) = (\<Sum>i < 64. class_regions s i)" by (intro sum.cong) auto
  then show r: "regions s' = regions s"
    using sp(2) l by (simp add: regions_def spare_def e)
  show "memory_ok s' = memory_ok s" using p[of 1] by (simp add: memory_ok_def r e)
  show "class_chunks (slabclass s' ! i) = class_chunks (slabclass s ! i)" if "i < 64" for i
    using c[OF that] p[OF that] by (simp add: class_chunks_def)
  show "map (\<lambda>c. (chunk_sz c, perslab c)) (slabclass s') = map (\<lambda>c. (chunk_sz c, perslab c)) (slabclass s)"
    using sp(2) l c by (intro nth_equalityI) auto
qed

lemma slab_inv_lists:
  assumes inv: "slab_inv fl used s" and sp: "same_pages A s s'" and fl': "free_lists fl' s'"
    and use: "\<And>i. i < 64 \<Longrightarrow> set (fl' i) \<union> used' i = set (fl i) \<union> used i \<and> set (fl' i) \<inter> used' i = {}"
    and dom: "\<And>i. i < 64 \<Longrightarrow> used' i \<subseteq> dom (cells s)"
  shows "slab_inv fl' used' s'"
proof -
  from inv have g: "geometry s" and m: "memory_ok s" and u: "in_use fl used s" and n: "slabs_next_src s < 2"
    by (auto simp: slab_inv_def)
  note i = same_pages_inv[OF sp g] and d = same_pagesD[OF sp]
  have "slabs_next_src s' = slabs_next_src s" by (subst d(6)) simp
  moreover have "in_use fl' used' s'"
    unfolding in_use_def
  proof (intro allI impI)
    fix k :: nat assume k: "k < 64"
    have "set (fl' k) \<union> used' k = {}" if "fl k = [] \<and> used k = {}" using use[OF k] that by simp
    with u k use[OF k] dom[OF k] i(4)[OF k] d(1,4)
    show "if 2 \<le> k \<and> k \<le> power_largest s'
        then set (fl' k) \<inter> used' k = {} \<and> set (fl' k) \<union> used' k = set (class_chunks (slabclass s' ! k)) \<and> used' k \<subseteq> dom (cells s')
        else fl' k = [] \<and> used' k = {}"
      unfolding in_use_def by (auto split: if_splits)
  qed
  ultimately show ?thesis using i g m fl' n by (simp add: slab_inv_def)
qed

lemma keeps_lists:
  assumes "same_pages A s s'" and "geometry s" and "\<And>i. i < 64 \<Longrightarrow> A \<inter> used i = {}"
  shows "keeps used s s'"
proof -
  note d = same_pagesD[OF assms(1)]
  have "locks s' = locks s" by (subst d(6)) simp
  moreover have "cells s' a = cells s a" if "i < 64" "a \<in> used i" for i a
    using assms(3)[OF that(1)] that(2) by (intro d(5)) blast
  ultimately show ?thesis using same_pages_inv(5)[OF assms(1,2)] d(1) by (auto simp: keeps_def)
qed

lemma fl_unused:
  assumes inv: "slab_inv fl used s" and i: "2 \<le> i" "i \<le> power_largest s" and j: "j < 64"
  shows "set (fl i) \<inter> used j = {}"
proof -
  from inv have g: "geometry s" and u: "in_use fl used s" by (auto simp: slab_inv_def)
  have i64: "i < 64" using geometryD(3)[OF g] i by simp
  show ?thesis
    using in_useD[OF u i i64] chunk_class(2)[OF inv i _ j] by (cases "j = i") auto
qed

lemma in_use_all:
  assumes "in_use fl used s" and "i < 64"
  shows "set (fl i) \<inter> used i = {}" "used i \<subseteq> dom (cells s)"
  using assms by (auto simp: in_use_def split: if_splits)

text \<open>Taking the first free chunk of a class.\<close>

lemma take_chunk:
  assumes inv: "slab_inv fl used s" and i: "2 \<le> cid" "cid \<le> power_largest s" and as: "fl cid = a # as"
  obtains s' where "unlink_first cid s = Inr (a, s')" "slab_inv (fl(cid := as)) (used(cid := insert a (used cid))) s'"
    "keeps used s s'" "a \<notin> used cid" "\<exists>n. cells s' a = Some n \<and> it_flags n AND ITEM_CHUNKED = 0"
    "\<And>j. j < 64 \<Longrightarrow> requested (slabclass s' ! j) = requested (slabclass s ! j)"
proof -
  from inv have g: "geometry s" and f: "free_lists fl s" and u: "in_use fl used s" by (auto simp: slab_inv_def)
  have len: "cid < length (slabclass s)" "cid < 64" using geometryD[OF g] i by auto
  obtain s' where s': "unlink_first cid s = Inr (a, s')" "free_lists (fl(cid := as)) s'" "same_pages (set (fl cid)) s s'"
    "\<And>j. j < length (slabclass s) \<Longrightarrow> requested (slabclass s' ! j) = requested (slabclass s ! j)"
    "\<exists>n. cells s' a = Some n \<and> it_flags n AND ITEM_CHUNKED = 0 \<and> it_flags n AND ITEM_SLABBED = 0 \<and> refcount n = 1 \<and> it_clsid n = 0"
    by (rule unlink_first_lists[OF f len(1) as]) simp_all
  have d: "distinct (a # as)" "set (fl cid) \<inter> used cid = {}" using free_listsD(3)[OF f len(1)] in_useD(1)[OF u i len(2)] as by auto
  have "a \<in> dom (cells s)" using flist_mem[OF free_listsD(1)[OF f len(1)], of a] as by auto
  have "slab_inv (fl(cid := as)) (used(cid := insert a (used cid))) s'"
    by (rule slab_inv_lists[OF inv s'(3,2)])
      (use d as \<open>a \<in> dom (cells s)\<close> in_use_all[OF u] in_use_all[OF u len(2)] in \<open>auto split: if_splits\<close>)
  moreover have "keeps used s s'" using fl_unused[OF inv i] by (intro keeps_lists[OF s'(3) g]) auto
  ultimately show ?thesis using s' d as geometryD(1)[OF g] by (intro that[of s']) auto
qed

text \<open>Returning a chunk that is in use.\<close>

lemma return_chunk:
  assumes inv: "slab_inv fl used s" and i: "2 \<le> cid" "cid \<le> power_largest s"
    and p: "p \<in> used cid" "cells s p = Some n" "it_flags n AND ITEM_CHUNKED = 0"
  obtains s' where "do_slabs_free p sz cid s = Inr ((), s')" "slab_inv (fl(cid := p # fl cid)) (used(cid := used cid - {p})) s'"
    "keeps (used(cid := used cid - {p})) s s'"
    "\<And>j. j < 64 \<Longrightarrow> requested (slabclass s' ! j) = requested (slabclass s ! j) - (if j = cid then sz else 0)"
proof -
  from inv have g: "geometry s" and m: "memory_ok s" and f: "free_lists fl s" and u: "in_use fl used s" by (auto simp: slab_inv_def)
  have len: "cid < length (slabclass s)" "cid < 64" "power_largest s < length (slabclass s)" using geometryD[OF g] i by auto
  have pc: "p \<in> set (class_chunks (slabclass s ! cid))" using in_useD(2)[OF u i len(2)] p by blast
  then obtain q where q: "q \<in> set (pages (slabclass s ! cid))"
    "p \<in> set (page_chunks q (unat (chunk_sz (slabclass s ! cid))) (unat (perslab (slabclass s ! cid))))" by (rule class_chunksE)
  have "0 < q" using class_regions_mem[OF q(1) len(1)] m by (auto simp: memory_ok_def)
  then have pn: "p \<noteq> NULL" using chunk_region[OF q(2) i(1)] by auto
  have nf: "p \<notin> set (fl j)" if "j < length (slabclass s)" for j
    using chunk_class(1)[OF inv i pc, of j] in_useD(1)[OF u i len(2)] p(1) that geometryD(1)[OF g] by (cases "j = cid") auto
  have room: "Suc (length (fl cid)) < 2 ^ 32" using free_count[OF inv i] geometryD(8)[OF g i] by simp
  obtain s' where s': "do_slabs_free p sz cid s = Inr ((), s')" "free_lists (fl(cid := p # fl cid)) s'"
    "same_pages (insert p (set (fl cid))) s s'"
    "\<And>j. j < length (slabclass s) \<Longrightarrow> requested (slabclass s' ! j) = requested (slabclass s ! j) - (if j = cid then sz else 0)"
    by (rule do_slabs_free_lists[OF f i len(3) pn p(2,3) nf room, of sz]) simp_all
  have "slab_inv (fl(cid := p # fl cid)) (used(cid := used cid - {p})) s'"
    by (rule slab_inv_lists[OF inv s'(3,2)]) (use p in_use_all[OF u] in_use_all[OF u len(2)] in \<open>auto split: if_splits\<close>)
  moreover have "keeps (used(cid := used cid - {p})) s s'"
    using fl_unused[OF inv i] chunk_class(2)[OF inv i pc] by (intro keeps_lists[OF s'(3) g]) auto
  ultimately show ?thesis using s' geometryD(1)[OF g] by (intro that[of s']) auto
qed

end
