(* ===== verification/SlabsPages.thy ===== *)
theory SlabsPages
  imports SlabsOps
begin

text \<open>New pages: growing the page array, finding a page, and cutting it into free chunks.\<close>

section \<open>Changes that leave chunks and pages as they are\<close>

text \<open>Only list capacities, limits and counters may differ.\<close>

definition same_view :: "slabs_state \<Rightarrow> slabs_state \<Rightarrow> bool" where
  "same_view s s' \<longleftrightarrow> cells s' = cells s \<and> locks s' = locks s \<and> power_largest s' = power_largest s \<and> slab_page_size s' = slab_page_size s \<and>
     frames s' = frames s \<and> length (slabclass s') = length (slabclass s) \<and>
     (\<forall>i < length (slabclass s). let c = slabclass s ! i; c' = slabclass s' ! i in
        chunk_sz c' = chunk_sz c \<and> perslab c' = perslab c \<and> slots c' = slots c \<and> sl_curr c' = sl_curr c \<and> requested c' = requested c)"

lemma same_viewD:
  assumes "same_view s s'"
  shows "cells s' = cells s" "locks s' = locks s" "power_largest s' = power_largest s" "slab_page_size s' = slab_page_size s"
    "frames s' = frames s" "length (slabclass s') = length (slabclass s)"
    "\<And>i. i < length (slabclass s) \<Longrightarrow> chunk_sz (slabclass s' ! i) = chunk_sz (slabclass s ! i)"
    "\<And>i. i < length (slabclass s) \<Longrightarrow> perslab (slabclass s' ! i) = perslab (slabclass s ! i)"
    "\<And>i. i < length (slabclass s) \<Longrightarrow> slots (slabclass s' ! i) = slots (slabclass s ! i)"
    "\<And>i. i < length (slabclass s) \<Longrightarrow> sl_curr (slabclass s' ! i) = sl_curr (slabclass s ! i)"
    "\<And>i. i < length (slabclass s) \<Longrightarrow> requested (slabclass s' ! i) = requested (slabclass s ! i)"
  using assms by (auto simp: same_view_def Let_def)

lemma same_view_refl [simp]: "same_view s s"
  by (simp add: same_view_def)

lemma same_view_trans: "same_view s t \<Longrightarrow> same_view t u \<Longrightarrow> same_view s u"
  by (simp add: same_view_def Let_def)

lemma same_view_keeps: "same_view s s' \<Longrightarrow> keeps used s s'"
  using same_viewD[of s s'] by (auto simp: keeps_def intro!: nth_equalityI)

lemma same_view_inv:
  assumes inv: "slab_inv fl used s" and v: "same_view s s'" and g': "geometry s'" and m': "memory_ok s'" and n: "slabs_next_src s' < 2"
    and p: "\<And>i. 2 \<le> i \<Longrightarrow> i < 64 \<Longrightarrow> pages (slabclass s' ! i) = pages (slabclass s ! i)"
  shows "slab_inv fl used s'"
proof -
  from inv have g: "geometry s" and f: "free_lists fl s" and u: "in_use fl used s" by (auto simp: slab_inv_def)
  note d = same_viewD[OF v]
  have "free_lists fl s'" using f d(1,6,9,10) by (simp add: free_lists_def)
  moreover have "class_chunks (slabclass s' ! i) = class_chunks (slabclass s ! i)" if "2 \<le> i" "i < 64" for i
    using p[OF that] d(7)[of i] d(8)[of i] that geometryD(1)[OF g] by (simp add: class_chunks_def)
  then have "in_use fl used s'" using u d(1,3) unfolding in_use_def by simp
  ultimately show ?thesis using g' m' n by (simp add: slab_inv_def)
qed

section \<open>The page array\<close>

lemma realloc_ok_run [exec_simps]:
  "realloc_room s = 0 \<Longrightarrow> realloc_ok s = Inr (False, s)"
  "realloc_room s \<noteq> 0 \<Longrightarrow> realloc_ok s = Inr (True, s\<lparr>realloc_room := realloc_room s - 1\<rparr>)"
  by (simp_all add: realloc_ok_def)

lemma pages_grow:
  assumes "unat (slabs c) \<le> length (slab_list c)" and "length (slab_list c) \<le> unat k"
  shows "pages (c\<lparr>list_size := k, slab_list := take (unat k) (slab_list c) @ replicate (unat k - length (slab_list c)) NULL\<rparr>) = pages c"
  using assms by (simp add: pages_def)

lemma grow_slab_list_run:
  assumes "i < length (slabclass s)" and "slabs (slabclass s ! i) = list_size (slabclass s ! i)" and "realloc_room s \<noteq> 0"
    and "k = (if list_size (slabclass s ! i) \<noteq> 0 then list_size (slabclass s ! i) * 2 else 16)"
  shows "grow_slab_list i s = Inr (True, s\<lparr>slabclass := (slabclass s)[i := (slabclass s ! i)\<lparr>list_size := k,
      slab_list := take (unat k) (slab_list (slabclass s ! i)) @ replicate (unat k - length (slab_list (slabclass s ! i))) NULL\<rparr>],
    realloc_room := realloc_room s - 1\<rparr>)"
  unfolding grow_slab_list_def Let_def get_class_def upd_class_def realloc_ok_def bnd_def seq_def ret_def
  using assms by (simp only: if_True if_False sum.case prod.case simp_thms not_True_eq_False) simp

text \<open>Replacing class \<open>i\<close> by one with the same pages and at least as much room.\<close>

lemma grow_inv:
  assumes inv: "slab_inv fl used s" and i: "i < 64" and s': "s' = s\<lparr>slabclass := (slabclass s)[i := c], realloc_room := r\<rparr>"
    and c: "chunk_sz c = chunk_sz (slabclass s ! i)" "perslab c = perslab (slabclass s ! i)" "slots c = slots (slabclass s ! i)"
      "sl_curr c = sl_curr (slabclass s ! i)" "slabs c = slabs (slabclass s ! i)" "requested c = requested (slabclass s ! i)"
      "pages c = pages (slabclass s ! i)" "length (slab_list c) = unat (list_size c)" "unat (slabs c) \<le> unat (list_size c)"
  shows "slab_inv fl used s'" "same_view s s'" "regions s' = regions s"
proof -
  from inv have g: "geometry s" and m: "memory_ok s" and n: "slabs_next_src s < 2" by (auto simp: slab_inv_def)
  have l: "length (slabclass s) = 64" using geometryD(1)[OF g] .
  show v: "same_view s s'" using c s' l i by (simp add: same_view_def Let_def nth_list_update)
  have p: "pages (slabclass s' ! j) = pages (slabclass s ! j)" if "j < 64" for j
    using c(7) s' l i that by (simp add: nth_list_update)
  have "class_regions s' j = class_regions s j" if "j < 64" for j
    using p[OF that] same_viewD(4,7,8)[OF v] that l by (simp add: class_regions_def page_len_def)
  then have "(\<Sum>j < 64. class_regions s' j) = (\<Sum>j < 64. class_regions s j)" by (intro sum.cong) auto
  then show r: "regions s' = regions s" using s' l by (simp add: regions_def spare_def)
  have "geometry s'" using g c s' l i by (auto simp: geometry_def nth_list_update)
  moreover have "memory_ok s'" using m r p[of 1] s' by (simp add: memory_ok_def)
  ultimately show "slab_inv fl used s'" using n s' p by (intro same_view_inv[OF inv v]) auto
qed

lemma grow_slab_list_inv:
  assumes inv: "slab_inv fl used s" and i: "i \<le> power_largest s"
  obtains b s' where "grow_slab_list i s = Inr (b, s')" "slab_inv fl used s'" "same_view s s'" "regions s' = regions s"
    "b \<Longrightarrow> unat (slabs (slabclass s' ! i)) < length (slab_list (slabclass s' ! i))"
    "s' = s\<lparr>slabclass := slabclass s', realloc_room := realloc_room s'\<rparr>"
    "\<And>j. j < 64 \<Longrightarrow> slabs (slabclass s' ! j) = slabs (slabclass s ! j)" "realloc_room s \<noteq> 0 \<Longrightarrow> b"
proof -
  from inv have g: "geometry s" and m: "memory_ok s" by (auto simp: slab_inv_def)
  have len: "i < 64" "i < length (slabclass s)" "length (slabclass s) = 64" using geometryD[OF g] i by auto
  let ?c = "slabclass s ! i"
  have ls: "length (slab_list ?c) = unat (list_size ?c)" "unat (slabs ?c) \<le> unat (list_size ?c)"
    using geometryD(6,7)[OF g len(1)] by auto
  consider (room) "slabs ?c \<noteq> list_size ?c" | (fail) "slabs ?c = list_size ?c" "realloc_room s = 0" | (grow) "slabs ?c = list_size ?c" "realloc_room s \<noteq> 0"
    by blast
  then show ?thesis
  proof cases
    case room
    then have "unat (slabs ?c) < length (slab_list ?c)" using ls by (metis order_le_imp_less_or_eq unsigned_word_eqI)
    with room len inv show ?thesis by (intro that[of True s]) (auto simp: grow_slab_list_def exec_simps)
  next
    case fail
    from fail(2) have "realloc_ok s = Inr (False, s)" by (rule realloc_ok_run)
    then have "bnd realloc_ok f s = f False s" for f :: "bool \<Rightarrow> (slabs_state, bool) exec" by (rule bnd_Inr)
    then have "grow_slab_list i s = Inr (False, s)"
      using fail(1) len by (simp add: grow_slab_list_def exec_simps Let_def)
    with inv fail show ?thesis by (intro that[of False s]) auto
  next
    case grow
    define k where "k = (if list_size ?c \<noteq> 0 then list_size ?c * 2 else 16)"
    define c where "c = ?c\<lparr>list_size := k, slab_list := take (unat k) (slab_list ?c) @ replicate (unat k - length (slab_list ?c)) NULL\<rparr>"
    define s' where "s' = s\<lparr>slabclass := (slabclass s)[i := c], realloc_room := realloc_room s - 1\<rparr>"
    have "unat (list_size ?c) < 2 ^ 31" using class_bytes(2)[OF g m i] grow by simp
    then have "unat (list_size ?c * 2) = unat (list_size ?c) * 2" by (simp add: unat_word_ariths)
    moreover have "unat (list_size ?c) \<noteq> 0" if "list_size ?c \<noteq> 0" using that by (simp add: unat_eq_zero)
    ultimately have k: "unat (list_size ?c) < unat k" by (auto simp: k_def)
    have run: "grow_slab_list i s = Inr (True, s')"
      unfolding s'_def c_def by (rule grow_slab_list_run[OF len(2) grow k_def])
    have p: "pages c = pages ?c" unfolding c_def using k ls by (intro pages_grow) auto
    have c: "chunk_sz c = chunk_sz ?c" "perslab c = perslab ?c" "slots c = slots ?c" "sl_curr c = sl_curr ?c" "slabs c = slabs ?c"
      "requested c = requested ?c" "list_size c = k"
      by (simp_all add: c_def)
    have n: "length (slab_list c) = unat k" using k ls(1) by (simp add: c_def del: unat_eq_zero)
    have l: "length (slab_list c) = unat (list_size c)" "unat (slabs c) \<le> unat (list_size c)" "unat (slabs c) < length (slab_list c)"
      using k ls(2) n unfolding c(5,7) by simp_all
    note r = grow_inv[OF inv len(1) s'_def c(1-6) p l(1,2)]
    have "slabclass s' ! i = c" using len by (simp add: s'_def)
    moreover have "slabs (slabclass s' ! j) = slabs (slabclass s ! j)" if "j < 64" for j
      using c(5) len that by (simp add: s'_def nth_list_update)
    ultimately show ?thesis using run l(3) r by (intro that[of True s']) (auto simp: s'_def)
  qed
qed

section \<open>A page that belongs to no class\<close>

definition spare_page :: "ptr \<Rightarrow> nat \<Rightarrow> slabs_state \<Rightarrow> bool" where
  "spare_page p n s \<longleftrightarrow> 0 < p \<and> p + n \<le> fresh s \<and> apart (add_mset (p, n) (regions s))"

lemma get_page_run:
  assumes "i < length (slabclass s)" and "unat (slabs (slabclass s ! i)) \<le> length (slab_list (slabclass s ! i))"
  shows "slabs (slabclass s ! i) = 0 \<Longrightarrow> get_page_from_global_pool_by_id i s = Inr (NULL, s)"
    and "slabs (slabclass s ! i) \<noteq> 0 \<Longrightarrow> get_page_from_global_pool_by_id i s =
      Inr (slab_list (slabclass s ! i) ! unat (slabs (slabclass s ! i) - 1),
        s\<lparr>slabclass := (slabclass s)[i := (slabclass s ! i)\<lparr>slabs := slabs (slabclass s ! i) - 1\<rparr>]\<rparr>)"
proof -
  show "slabs (slabclass s ! i) = 0 \<Longrightarrow> get_page_from_global_pool_by_id i s = Inr (NULL, s)"
    using assms by (simp add: get_page_from_global_pool_by_id_def exec_simps)
  assume n: "slabs (slabclass s ! i) \<noteq> 0"
  then have "unat (slabs (slabclass s ! i) - 1) < unat (slabs (slabclass s ! i))" by (simp add: unat_minus_one unat_gt_0)
  with assms(2) have "\<not> length (slab_list (slabclass s ! i)) \<le> unat (slabs (slabclass s ! i) - 1)" by linarith
  moreover have "\<not> slabs (slabclass s ! i) < 1" using n by (simp add: word_less_nat_alt unat_eq_zero)
  ultimately show "get_page_from_global_pool_by_id i s =
      Inr (slab_list (slabclass s ! i) ! unat (slabs (slabclass s ! i) - 1),
        s\<lparr>slabclass := (slabclass s)[i := (slabclass s ! i)\<lparr>slabs := slabs (slabclass s ! i) - 1\<rparr>]\<rparr>)"
    using assms(1) by (simp add: get_page_from_global_pool_by_id_def exec_simps)
qed

lemma get_page_inv:
  assumes inv: "slab_inv fl used s" and i: "i < 2"
  obtains p s' where "get_page_from_global_pool_by_id i s = Inr (p, s')" "slab_inv fl used s'" "same_view s s'"
    "p \<noteq> NULL \<Longrightarrow> spare_page p (unat (slab_page_size s)) s' \<and> (i = 1 \<longrightarrow> frames s' (p - sizeof_pslab_t) \<noteq> None)"
    "\<And>j. 2 \<le> j \<Longrightarrow> j < 64 \<Longrightarrow> slabclass s' ! j = slabclass s ! j" "s' = s\<lparr>slabclass := slabclass s'\<rparr>"
proof -
  from inv have g: "geometry s" and m: "memory_ok s" and n: "slabs_next_src s < 2" by (auto simp: slab_inv_def)
  have l: "length (slabclass s) = 64" "i < length (slabclass s)" "i < 64" using geometryD(1)[OF g] i by auto
  let ?c = "slabclass s ! i"
  have ls: "unat (slabs ?c) \<le> length (slab_list ?c)" using geometryD(6,7)[OF g l(3)] by simp
  show ?thesis
  proof (cases "slabs ?c = 0")
    case True
    with get_page_run(1)[OF l(2) ls] inv show ?thesis by (intro that[of NULL s]) auto
  next
    case False
    let ?p = "slab_list ?c ! unat (slabs ?c - 1)" and ?d = "?c\<lparr>slabs := slabs ?c - 1\<rparr>"
    define s' where "s' = s\<lparr>slabclass := (slabclass s)[i := ?d]\<rparr>"
    have run: "get_page_from_global_pool_by_id i s = Inr (?p, s')"
      unfolding s'_def by (rule get_page_run(2)[OF l(2) ls False])
    have p: "pages ?c = pages ?d @ [?p]" by (rule pages_pop[OF False ls])
    have s'i: "slabclass s' ! i = ?d" "\<And>j. j \<noteq> i \<Longrightarrow> slabclass s' ! j = slabclass s ! j" using l by (auto simp: s'_def)
    have v: "same_view s s'" using l s'i by (auto simp: same_view_def Let_def s'_def nth_list_update)
    have pl: "page_len s' j = page_len s j" for j using i s'i(2)[of j] by (auto simp: page_len_def s'_def)
    have "regions s' + class_regions s i = regions s + class_regions s' i"
      using l s'i by (intro regions_update) (auto simp: s'_def spare_def class_regions_def pl[unfolded s'_def])
    moreover have "class_regions s i = add_mset (?p, unat (slab_page_size s)) (class_regions s' i)"
      unfolding class_regions_def p s'i(1) pl using i by (simp add: page_len_def)
    ultimately have r: "regions s = add_mset (?p, unat (slab_page_size s)) (regions s')" by simp
    have g': "geometry s'"
    proof -
      have "unat (slabs ?c - 1) \<le> unat (slabs ?c)" using False by (simp add: unat_minus_one)
      with geometryD(7)[OF g l(3)] have "unat (slabs ?c - 1) \<le> unat (list_size ?c)" by linarith
      then show ?thesis using g i l by (auto simp: geometry_def s'_def nth_list_update)
    qed
    have fr: "frames s' = frames s" "fresh s' = fresh s" "room s' = room s" "slab_page_size s' = slab_page_size s"
      "slabs_next_src s' = slabs_next_src s" by (simp_all add: s'_def)
    have "set (pages (slabclass s' ! 1)) \<subseteq> set (pages (slabclass s ! 1))" using s'i p by (cases "i = 1") auto
    then have m': "memory_ok s'" using m unfolding memory_ok_def r fr by (auto simp: apart_add)
    have "slab_inv fl used s'" using s'i(2) i n fr by (intro same_view_inv[OF inv v g' m']) auto
    moreover have "spare_page ?p (unat (slab_page_size s)) s'" using m r fr by (auto simp: memory_ok_def spare_page_def)
    moreover have "frames s' (?p - sizeof_pslab_t) \<noteq> None" if "i = 1" using m p that fr by (auto simp: memory_ok_def)
    moreover have "s' = s\<lparr>slabclass := slabclass s'\<rparr>" by (simp add: s'_def)
    ultimately show ?thesis using run v s'i(2) i by (intro that[of ?p s']) auto
  qed
qed

text \<open>A change of the heap or of the preallocated block.\<close>

lemma memory_step_inv:
  assumes inv: "slab_inv fl used s"
    and s': "s' = s\<lparr>fresh := f, room := r, mem_current := c, mem_avail := a, mem_malloced := mm\<rparr>" and m': "memory_ok s'"
  shows "slab_inv fl used s'" "same_view s s'"
proof -
  show v: "same_view s s'" by (simp add: s' same_view_def)
  have "geometry s'" using inv by (simp add: s' slab_inv_def geometry_def)
  then show "slab_inv fl used s'" using inv by (intro same_view_inv[OF inv v _ m']) (auto simp: s' slab_inv_def)
qed

lemma regions_step:
  assumes "s' = s\<lparr>fresh := f, room := r, mem_current := c, mem_avail := a, mem_malloced := mm\<rparr>"
  shows "regions s' = (\<Sum>i < length (slabclass s). class_regions s i) + spare s'"
proof -
  have "class_regions s' i = class_regions s i" for i by (simp add: assms class_regions_def page_len_def)
  then show ?thesis by (simp add: regions_def assms)
qed

lemma align_bytes:
  assumes "unat sz < 2 ^ 63" and "n = (if sz mod 8 \<noteq> 0 then sz + (8 - sz mod 8) else sz)"
  shows "sz \<le> (n :: 64 word)"
proof (cases "sz mod 8 = 0")
  case False
  have "unat (8 - sz mod 8) \<le> 8" by (simp add: unat_sub_if' unat_mod)
  then have "unat n = unat sz + unat (8 - sz mod 8)" using assms False by (simp add: unat_word_ariths)
  then show ?thesis by (simp add: word_le_nat_alt)
qed (use assms in simp)

lemma memory_allocate_inv:
  assumes inv: "slab_inv fl used s" and sz: "unat sz \<le> unat (slab_page_size s)" "sz \<noteq> 0"
  obtains p s' where "memory_allocate sz s = Inr (p, s')" "slab_inv fl used s'" "same_view s s'" "slabclass s' = slabclass s"
    "p \<noteq> NULL \<Longrightarrow> spare_page p (unat sz) s'" "mem_base s = NULL \<Longrightarrow> room s \<noteq> 0 \<Longrightarrow> p \<noteq> NULL"
proof -
  from inv have m: "memory_ok s" by (simp add: slab_inv_def)
  consider (fail) "mem_base s = NULL" "room s = 0" | (heap) "mem_base s = NULL" "room s \<noteq> 0"
    | (full) "mem_base s \<noteq> NULL" "mem_avail s < sz" | (block) "mem_base s \<noteq> NULL" "sz \<le> mem_avail s"
    using linorder_not_less by blast
  then show ?thesis
  proof cases
    case fail
    let ?s = "s\<lparr>fresh := fresh s, room := room s, mem_current := mem_current s, mem_avail := mem_avail s, mem_malloced := mem_malloced s + sz\<rparr>"
    have r: "regions ?s = regions s" unfolding regions_step[where s' = ?s, OF refl] using fail(1) by (simp add: regions_def spare_def)
    have m': "memory_ok ?s" using m r by (simp add: memory_ok_def)
    have "memory_allocate sz s = Inr (NULL, ?s)" using fail by (simp add: memory_allocate_def malloc_bytes_def exec_simps bnd_def)
    then show ?thesis using fail memory_step_inv[OF inv refl m'] by (intro that[of NULL ?s]) auto
  next
    case heap
    let ?s = "s\<lparr>fresh := fresh s + unat sz, room := room s - 1, mem_current := mem_current s, mem_avail := mem_avail s, mem_malloced := mem_malloced s + sz\<rparr>"
    have r: "regions ?s = regions s" unfolding regions_step[where s' = ?s, OF refl] using heap(1) by (simp add: regions_def spare_def)
    have "unat sz + (room s - 1) * unat (slab_page_size s) \<le> room s * unat (slab_page_size s)"
      using sz heap(2) by (cases "room s") auto
    then have m': "memory_ok ?s" using m r by (fastforce simp: memory_ok_def)
    have "memory_allocate sz s = Inr (fresh s, ?s)" using heap by (simp add: memory_allocate_def malloc_bytes_def exec_simps bnd_def)
    moreover have "spare_page (fresh s) (unat sz) ?s"
      using m r by (auto simp: memory_ok_def spare_page_def apart_add disj_def)
    ultimately show ?thesis using m memory_step_inv[OF inv refl m'] by (intro that[of "fresh s" ?s]) (auto simp: memory_ok_def)
  next
    case full
    then have "memory_allocate sz s = Inr (NULL, s)" by (simp add: memory_allocate_def exec_simps)
    then show ?thesis using full inv by (intro that[of NULL s]) auto
  next
    case block
    define n where "n = (if sz mod 8 \<noteq> 0 then sz + (8 - sz mod 8) else sz)"
    let ?s = "s\<lparr>fresh := fresh s, room := room s, mem_current := mem_current s + unat n,
      mem_avail := (if n < mem_avail s then mem_avail s - n else 0), mem_malloced := mem_malloced s + n\<rparr>"
    have g: "geometry s" using inv by (simp add: slab_inv_def)
    have n: "sz \<le> n" using sz(1) geometryD(5)[OF g] by (intro align_bytes[OF _ n_def]) simp
    obtain R where R: "regions s = R + {#(mem_current s, unat (mem_avail s))#}" "regions ?s = R + spare ?s"
    proof (rule that[of "\<Sum>i < length (slabclass s). class_regions s i"])
      show "regions s = (\<Sum>i < length (slabclass s). class_regions s i) + {#(mem_current s, unat (mem_avail s))#}"
        using block sz(2) by (auto simp: regions_def spare_def)
      show "regions ?s = (\<Sum>i < length (slabclass s). class_regions s i) + spare ?s"
        by (rule regions_step[OF refl])
    qed
    have sp: "spare ?s = (if n < mem_avail s then {#(mem_current s + unat n, unat (mem_avail s) - unat n)#} else {#})"
      using block(1) by (auto simp: spare_def unat_sub word_less_nat_alt word_le_nat_alt unat_eq_zero)
    have le: "unat sz \<le> unat (mem_avail s)" "unat sz \<le> unat n" using n block(2) by (simp_all add: word_le_nat_alt)
    have m': "memory_ok ?s" and page: "spare_page (mem_current s) (unat sz) ?s"
      using m le unfolding memory_ok_def spare_page_def R sp by (auto simp: apart_add apart_union disj_def word_less_nat_alt)
    have "memory_allocate sz s = Inr (mem_current s, ?s)"
      unfolding memory_allocate_def Let_def n_def[symmetric] using block by (simp add: exec_simps linorder_not_less leD)
    then show ?thesis using block memory_step_inv[OF inv refl m'] page by (intro that[of "mem_current s" ?s]) auto
  qed
qed

section \<open>Cutting a page into free chunks\<close>

lemma memset_page_run [exec_simps]: "memset_page p n s = Inr ((), s\<lparr>cells := (\<lambda>a. if p \<le> a \<and> a < p + n then Some zero_item else cells s a)\<rparr>)"
  by (simp add: memset_page_def exec_simps)

lemma regions_cong:
  assumes "slabclass s' = slabclass s" "slab_page_size s' = slab_page_size s" "mem_base s' = mem_base s" "mem_current s' = mem_current s"
    "mem_avail s' = mem_avail s"
  shows "regions s' = regions s"
proof -
  have "class_regions s' i = class_regions s i" for i unfolding class_regions_def page_len_def assms ..
  then show ?thesis using assms by (simp add: regions_def spare_def)
qed

text \<open>A spare page holds no chunk of any class.\<close>

lemma spare_no_chunk:
  assumes inv: "slab_inv fl used s" and sp: "spare_page p L s" and i: "2 \<le> i" "i \<le> power_largest s"
    and a: "a \<in> set (class_chunks (slabclass s ! i))"
  shows "a + unat (chunk_sz (slabclass s ! i)) \<le> p \<or> p + L \<le> a"
proof -
  from inv have g: "geometry s" by (simp add: slab_inv_def)
  have len: "i < length (slabclass s)" using geometryD[OF g] i by auto
  obtain q where q: "q \<in> set (pages (slabclass s ! i))"
    "a \<in> set (page_chunks q (unat (chunk_sz (slabclass s ! i))) (unat (perslab (slabclass s ! i))))" by (rule class_chunksE[OF a])
  have "disj (p, L) (q, page_len s i)" using sp class_regions_mem[OF q(1) len] by (auto simp: spare_page_def apart_add)
  then show ?thesis using chunk_region[OF q(2) i(1)] by (auto simp: disj_def)
qed

lemma spare_outside:
  assumes inv: "slab_inv fl used s" and sp: "spare_page p L s" and i: "i < 64" and a: "a \<in> set (fl i) \<union> used i"
  shows "\<not> (p \<le> a \<and> a < p + L)"
proof -
  from inv have g: "geometry s" and u: "in_use fl used s" by (auto simp: slab_inv_def)
  have r: "2 \<le> i" "i \<le> power_largest s" using u i a by (auto simp: in_use_def split: if_splits)
  have "a \<in> set (class_chunks (slabclass s ! i))" using in_useD(2)[OF u r i] a by blast
  then have "a + unat (chunk_sz (slabclass s ! i)) \<le> p \<or> p + L \<le> a" by (rule spare_no_chunk[OF inv sp r])
  then show ?thesis using geometryD(8)[OF g r] by linarith
qed

lemma memset_inv:
  assumes inv: "slab_inv fl used s" and sp: "spare_page p L s" and n: "n \<le> L"
    and s': "s' = s\<lparr>cells := (\<lambda>a. if p \<le> a \<and> a < p + n then Some zero_item else cells s a)\<rparr>"
  shows "slab_inv fl used s'" "keeps used s s'" "spare_page p L s'"
proof -
  from inv have g: "geometry s" and m: "memory_ok s" and f: "free_lists fl s" and u: "in_use fl used s" and ns: "slabs_next_src s < 2"
    by (auto simp: slab_inv_def)
  have l: "length (slabclass s) = 64" by (rule geometryD(1)[OF g])
  have out: "cells s' a = cells s a" if "i < 64" "a \<in> set (fl i) \<union> used i" for i a
    using spare_outside[OF inv sp that] n by (auto simp: s')
  have r: "regions s' = regions s" by (rule regions_cong) (simp_all add: s')
  have "flist (cells s') (slots (slabclass s ! i)) (fl i)" if "i < 64" for i
    using free_listsD(1)[OF f, of i] that l by (subst flist_cong[where h = "cells s"]) (auto intro: out)
  then have "free_lists fl s'" using f l unfolding free_lists_def by (simp add: s')
  moreover have "used i \<subseteq> dom (cells s')" if "i < 64" for i
    using in_use_all(2)[OF u that] by (auto simp: s')
  then have "in_use fl used s'" using u unfolding in_use_def by (simp add: s')
  moreover have "geometry s'" using g by (simp add: s' geometry_def)
  moreover have "memory_ok s'" using m r by (simp add: memory_ok_def) (simp add: s')
  ultimately show "slab_inv fl used s'" using ns by (simp add: slab_inv_def) (simp add: s')
  show "keeps used s s'" using out by (auto simp: keeps_def) (simp_all add: s')
  show "spare_page p L s'" using sp r by (simp add: spare_page_def) (simp add: s')
qed

text \<open>The page becomes the last one of its class.\<close>

lemma push_page_run:
  assumes "cid < length (slabclass s)" and "unat (slabs (slabclass s ! cid)) < length (slab_list (slabclass s ! cid))"
  shows "push_page cid p s = Inr ((), s\<lparr>slabclass := (slabclass s)[cid := (slabclass s ! cid)\<lparr>
      slab_list := (slab_list (slabclass s ! cid))[unat (slabs (slabclass s ! cid)) := p], slabs := slabs (slabclass s ! cid) + 1\<rparr>]\<rparr>)"
  using assms by (simp add: push_page_def exec_simps)

lemma push_page_inv:
  assumes g: "geometry s" and m: "memory_ok s" and i: "2 \<le> cid" "cid \<le> power_largest s"
    and sp: "spare_page p L s" "page_len s cid \<le> L"
    and room: "unat (slabs (slabclass s ! cid)) < length (slab_list (slabclass s ! cid))"
    and s': "s' = s\<lparr>slabclass := (slabclass s)[cid := (slabclass s ! cid)\<lparr>
      slab_list := (slab_list (slabclass s ! cid))[unat (slabs (slabclass s ! cid)) := p], slabs := slabs (slabclass s ! cid) + 1\<rparr>]\<rparr>"
  shows "geometry s'" "memory_ok s'" "same_view s s'"
    "class_chunks (slabclass s' ! cid) = class_chunks (slabclass s ! cid) @
       page_chunks p (unat (chunk_sz (slabclass s ! cid))) (unat (perslab (slabclass s ! cid)))"
    "\<And>j. j \<noteq> cid \<Longrightarrow> slabclass s' ! j = slabclass s ! j"
proof -
  have l: "length (slabclass s) = 64" "cid < length (slabclass s)" "cid < 64" using geometryD[OF g] i by auto
  let ?c = "slabclass s ! cid"
  let ?d = "?c\<lparr>slab_list := (slab_list ?c)[unat (slabs ?c) := p], slabs := slabs ?c + 1\<rparr>"
  have ls: "length (slab_list ?c) < 2 ^ 32" using geometryD(6)[OF g l(3)] unsigned_less[where w = "list_size ?c"] by simp
  have pg: "pages ?d = pages ?c @ [p]" and n: "unat (slabs ?c + 1) = Suc (unat (slabs ?c))"
    using pages_push(1)[OF room ls, of p] pages_push(2)[OF room ls] by auto
  have c: "slabclass s' ! cid = ?d" using l by (simp add: s')
  show j: "slabclass s' ! j = slabclass s ! j" if "j \<noteq> cid" for j using that by (simp add: s')
  show v: "same_view s s'" using l by (auto simp: s' same_view_def Let_def nth_list_update)
  show "class_chunks (slabclass s' ! cid) = class_chunks ?c @ page_chunks p (unat (chunk_sz ?c)) (unat (perslab ?c))"
    unfolding c by (rule class_chunks_push[OF pg]) simp_all
  show "geometry s'" using g l room n geometryD(6)[OF g l(3)] by (auto simp: geometry_def s' nth_list_update)
  have pl: "page_len s' k = page_len s k" for k
    using c j[of k] by (cases "k = cid") (auto simp: page_len_def s')
  have e: "spare s' = spare s" "fresh s' = fresh s" "room s' = room s" "frames s' = frames s" "slab_page_size s' = slab_page_size s"
    by (simp_all add: s' spare_def)
  have "regions s' + class_regions s cid = regions s + class_regions s' cid"
    using l j e(1) by (intro regions_update) (auto simp: class_regions_def pl same_viewD(6)[OF v])
  then have r: "regions s' = add_mset (p, page_len s cid) (regions s)"
    unfolding class_regions_def c pg pl by simp
  have "apart (add_mset (p, page_len s cid) (regions s))" using sp by (auto simp: spare_page_def intro: apart_shrink)
  then show "memory_ok s'" using m sp i unfolding memory_ok_def r e spare_page_def by (auto simp: j)
qed

definition install_page :: "ptr \<Rightarrow> nat \<Rightarrow> nat \<Rightarrow> (slabs_state, unit) exec" where
  "install_page p n cid = seq (memset_page p n) (seq (split_slab_page_into_freelist p cid) (push_page cid p))"

lemma install_page_inv:
  assumes inv: "slab_inv fl used s" and i: "2 \<le> cid" "cid \<le> power_largest s"
    and sp: "spare_page p L s" "page_len s cid \<le> n" "n \<le> L"
    and room: "unat (slabs (slabclass s ! cid)) < length (slab_list (slabclass s ! cid))"
  obtains s' as where "install_page p n cid s = Inr ((), s')" "slab_inv (fl(cid := as @ fl cid)) used s'" "keeps used s s'"
    "as \<noteq> []" "\<And>j. j < 64 \<Longrightarrow> requested (slabclass s' ! j) = requested (slabclass s ! j)" "frames s' = frames s"
proof -
  define t where "t = s\<lparr>cells := (\<lambda>a. if p \<le> a \<and> a < p + n then Some zero_item else cells s a)\<rparr>"
  note ti = memset_inv[OF inv sp(1,3) t_def]
  have te: "slabclass t = slabclass s" "power_largest t = power_largest s" "frames t = frames s" by (simp_all add: t_def)
  from ti(1) have g: "geometry t" and f: "free_lists fl t" and u: "in_use fl used t" and ns: "slabs_next_src t < 2" by (auto simp: slab_inv_def)
  have it: "2 \<le> cid" "cid \<le> power_largest t" "power_largest t < length (slabclass t)" "cid < 64" "length (slabclass t) = 64"
    using i te geometryD[OF g] by auto
  let ?c = "slabclass t ! cid"
  define ps where "ps = page_chunks p (unat (chunk_sz ?c)) (unat (perslab ?c))"
  have sz: "48 \<le> unat (chunk_sz ?c)" "1 \<le> unat (perslab ?c)" using geometryD(8)[OF g it(1,2)] by auto
  have pl: "page_len t cid = unat (chunk_sz ?c) * unat (perslab ?c)" "page_len t cid = page_len s cid"
    using it(1) by (simp_all add: page_len_def te)
  have inp: "p \<le> a \<and> a + 48 \<le> p + n" if "a \<in> set ps" for a
    using page_chunks_bounds[OF that[unfolded ps_def]] sz pl sp(2) by (simp add: mult.commute)
  have new: "a \<notin> set (fl j)" "a \<notin> used j" if "a \<in> set ps" "j < 64" for a j
    using spare_outside[OF ti(1,3) that(2), of a] inp[OF that(1)] sp(3) by auto
  have hdr: "a \<noteq> NULL \<and> (\<exists>m. cells t a = Some m \<and> it_flags m AND ITEM_CHUNKED = 0)" if "a \<in> set ps" for a
    using inp[OF that] sp(1) by (auto simp: t_def spare_page_def zero_item_def)
  have "\<exists>v. split_loop (unat (perslab ?c)) p (unat (chunk_sz ?c)) cid t = Inr ((), v) \<and> free_lists (fl(cid := rev ps @ fl cid)) v \<and>
    same_pages (set ps \<union> set (fl cid)) t v \<and> (\<forall>i < length (slabclass t). requested (slabclass v ! i) = requested (slabclass t ! i))"
    unfolding ps_def
    by (rule split_loop_lists[OF f it(1-3)]) (use sz new[unfolded ps_def] hdr[unfolded ps_def] it(5) free_count[OF ti(1) it(1,2)] in auto)
  then obtain v where v: "split_loop (unat (perslab ?c)) p (unat (chunk_sz ?c)) cid t = Inr ((), v)" "free_lists (fl(cid := rev ps @ fl cid)) v"
    "same_pages (set ps \<union> set (fl cid)) t v" "\<forall>i < 64. requested (slabclass v ! i) = requested (slabclass t ! i)" using it(5) by auto
  note vd = same_pagesD[OF v(3)] and vi = same_pages_inv[OF v(3) g]
  have vc: "chunk_sz (slabclass v ! cid) = chunk_sz ?c" "perslab (slabclass v ! cid) = perslab ?c"
    "slabs (slabclass v ! cid) = slabs ?c" "slab_list (slabclass v ! cid) = slab_list ?c"
    using vd(3)[of cid] it by (simp_all add: class_geom_def)
  have ve: "fresh v = fresh t" "frames v = frames t" "slabs_next_src v = slabs_next_src t" by (subst vd(6), simp)+
  have vg: "geometry v" "memory_ok v" using vi(1,3) ti(1) by (auto simp: slab_inv_def)
  have vs: "spare_page p L v" using ti(3) vi(2) ve by (simp add: spare_page_def)
  have vl: "page_len v cid \<le> L" using pl sp it(1) by (simp add: page_len_def vc)
  have vr: "unat (slabs (slabclass v ! cid)) < length (slab_list (slabclass v ! cid))" using room te vc by simp
  have vcid: "cid \<le> power_largest v" "cid < length (slabclass v)" using vd(1,2) it by auto
  define s' where "s' = v\<lparr>slabclass := (slabclass v)[cid := (slabclass v ! cid)\<lparr>
      slab_list := (slab_list (slabclass v ! cid))[unat (slabs (slabclass v ! cid)) := p], slabs := slabs (slabclass v ! cid) + 1\<rparr>]\<rparr>"
  note pi = push_page_inv[OF vg it(1) vcid(1) vs vl vr s'_def] and w = same_viewD[OF push_page_inv(3)[OF vg it(1) vcid(1) vs vl vr s'_def]]
  have run: "install_page p n cid s = Inr ((), s')"
    using v(1) push_page_run[OF vcid(2) vr, of p] it(4,5)
    by (simp add: install_page_def exec_simps split_slab_page_into_freelist_def t_def[symmetric] s'_def)
  let ?fl = "fl(cid := rev ps @ fl cid)"
  have "free_lists ?fl s'" using v(2) w(1,6,9,10) by (simp add: free_lists_def)
  moreover have "in_use ?fl used s'"
    unfolding in_use_def
  proof (intro allI impI)
    fix k :: nat assume k: "k < 64"
    have "class_chunks (slabclass s' ! k) = class_chunks (slabclass t ! k) @ (if k = cid then ps else [])"
      using pi(4) pi(5)[of k] vi(4)[OF k] vc ps_def by (cases "k = cid") auto
    then show "if 2 \<le> k \<and> k \<le> power_largest s'
        then set (?fl k) \<inter> used k = {} \<and> set (?fl k) \<union> used k = set (class_chunks (slabclass s' ! k)) \<and> used k \<subseteq> dom (cells s')
        else ?fl k = [] \<and> used k = {}"
      using u[unfolded in_use_def, rule_format, OF k] new(2)[OF _ k] w(1,3) vd(1,4) it by (cases "k = cid") auto
  qed
  moreover have "slabs_next_src s' < 2" using ns ve by (simp add: s'_def)
  ultimately have "slab_inv ?fl used s'" using pi(1,2) by (simp add: slab_inv_def)
  moreover have "keeps used t v" using new(2) fl_unused[OF ti(1) it(1,2)] by (intro keeps_lists[OF v(3) g]) auto
  then have "keeps used s s'" using ti(2) same_view_keeps[OF pi(3)] keeps_trans by metis
  moreover have "ps \<noteq> []" using sz(2) by (simp add: ps_def page_chunks_def)
  moreover have "requested (slabclass s' ! j) = requested (slabclass s ! j)" if "j < 64" for j
    using w(11)[of j] v(4) vd(2) it(5) that te by simp
  moreover have "frames s' = frames s" using w(5) ve(2) te(3) by simp
  ultimately show ?thesis using run by (intro that[of s' "rev ps"]) auto
qed

end
