(* ===== verification/SlabsAlloc.thy ===== *)
theory SlabsAlloc
  imports SlabsPages
begin

text \<open>
  New pages and allocation: a class without free chunks gets a page from the heap, from a preallocated
  block or from the slab pool, and then gives out its first free chunk.
\<close>

lemma seq_assoc: "seq (seq a b) c = seq a (seq b c)"
  by (auto simp: fun_eq_iff seq_def bnd_def split: sum.splits)

section \<open>Length of a page\<close>

lemma unat_scast_pos:
  assumes "unat (x :: 32 word) < 2 ^ 31"
  shows "unat (scast x :: 64 word) = unat x"
proof -
  have "uint x < 2 ^ 31" using nat_less_iff[OF unsigned_greater_eq[of x], of "2 ^ 31"] assms by simp
  then have "signed_take_bit 31 (uint x) = uint x"
    by (intro signed_take_bit_int_eq_self) (auto intro: order_trans[OF _ unsigned_greater_eq])
  then have s: "sint x = uint x" by (simp add: sint_uint)
  have "(scast x :: 64 word) = word_of_int (sint x)" by simp
  also have "\<dots> = ucast x" unfolding s by simp
  finally show ?thesis using unsigned_less [of x, where ?'a = nat] by (simp add: unsigned_ucast_eq take_bit_nat_eq_self)
qed

lemma newslab_len_run:
  assumes g: "geometry s" and i: "2 \<le> cid" "cid \<le> power_largest s"
  obtains len where "newslab_len cid s = Inr (len, s)" "page_len s cid \<le> unat len" "unat len \<le> unat (slab_page_size s)"
    "unat (scast len :: 64 word) = unat len" "scast len \<noteq> (0 :: 64 word)"
proof -
  let ?c = "slabclass s ! cid"
  let ?len = "if slab_reassign s \<or> slab_chunk_size_max s \<noteq> slab_page_size s then slab_page_size s else chunk_sz ?c * perslab ?c"
  have l: "cid < length (slabclass s)" using geometryD[OF g] i by simp
  note b = geometryD(8)[OF g i] and p = geometryD(5)[OF g] and q = page_len_bounds[OF g i(2)]
  have "unat (chunk_sz ?c) * unat (perslab ?c) < 2 ^ 32" using b p by simp
  then have u: "unat (chunk_sz ?c * perslab ?c) = unat (chunk_sz ?c) * unat (perslab ?c)" by (simp add: unat_word_ariths)
  have n: "page_len s cid \<le> unat ?len" "unat ?len \<le> unat (slab_page_size s)"
    using b i q(2) u by (auto simp: page_len_def)
  have "unat ?len < 2 ^ 31" using n(2) p by linarith
  then have sc: "unat (scast ?len :: 64 word) = unat ?len" by (rule unat_scast_pos)
  have "0 < unat (scast ?len :: 64 word)" unfolding sc using n(1) q(1) by linarith
  then have "scast ?len \<noteq> (0 :: 64 word)" by (metis less_irrefl unat_0)
  moreover have "newslab_len cid s = Inr (?len, s)" using l by (simp add: newslab_len_def exec_simps)
  ultimately show ?thesis using n sc by (intro that[of ?len])
qed

section \<open>The outcome of asking for a page\<close>

text \<open>Either nothing changes for the chunks, or the class has new free chunks in front of its list.\<close>

definition grown :: "(nat \<Rightarrow> ptr list) \<Rightarrow> (nat \<Rightarrow> ptr set) \<Rightarrow> nat \<Rightarrow> slabs_state \<Rightarrow> bool \<Rightarrow> slabs_state \<Rightarrow> bool" where
  "grown fl used cid s b s' \<longleftrightarrow> keeps used s s' \<and> (\<forall>j < 64. requested (slabclass s' ! j) = requested (slabclass s ! j)) \<and>
     (\<exists>as. slab_inv (fl(cid := as @ fl cid)) used s' \<and> (b \<longleftrightarrow> as \<noteq> []))"

lemma grown_none:
  assumes "slab_inv fl used s'" and "same_view s s'" and "length (slabclass s) = 64"
  shows "grown fl used cid s False s'"
  using assms same_view_keeps[OF assms(2)] same_viewD(11)[OF assms(2)] unfolding grown_def
  by (intro conjI exI[of _ "[]"]) (auto simp: fun_upd_triv)

lemma grown_view: "same_view s t \<Longrightarrow> length (slabclass s) = 64 \<Longrightarrow> grown fl used cid t b s' \<Longrightarrow> grown fl used cid s b s'"
  using same_view_keeps[of s t used] same_viewD(11)[of s t] unfolding grown_def by (auto intro: keeps_trans)

text \<open>Changes of the flags only.\<close>

lemma flags_inv:
  assumes inv: "slab_inv fl used s" and "s' = s\<lparr>mem_limit_reached := b, slabs_next_src := k\<rparr>" and "k < 2"
  shows "slab_inv fl used s'" "same_view s s'"
proof -
  show v: "same_view s s'" by (simp add: assms(2) same_view_def)
  have r: "regions s' = regions s" by (rule regions_cong) (simp_all add: assms(2))
  have "geometry s'" using inv by (simp add: assms(2) slab_inv_def geometry_def)
  moreover have "memory_ok s'" using inv r by (simp add: slab_inv_def memory_ok_def) (simp add: assms(2))
  ultimately show "slab_inv fl used s'" using assms(2,3) by (intro same_view_inv[OF inv v]) auto
qed

text \<open>Installing a page that was found.\<close>

lemma install_page_grown:
  assumes inv: "slab_inv fl used t" and v: "same_view s t" and i: "2 \<le> cid" "cid \<le> power_largest s" and l: "length (slabclass s) = 64"
    and sp: "spare_page p L t" "page_len s cid \<le> n" "n \<le> L"
    and room: "unat (slabs (slabclass t ! cid)) < length (slab_list (slabclass t ! cid))"
  obtains s' where "install_page p n cid t = Inr ((), s')" "grown fl used cid s True s'" "frames s' = frames t"
proof -
  note d = same_viewD[OF v]
  have c: "cid \<le> power_largest t" "page_len t cid \<le> n"
    using i sp(2) d(3,4,7,8) inv l geometryD[of t] by (auto simp: slab_inv_def page_len_def split: if_splits)
  obtain s' as where s': "install_page p n cid t = Inr ((), s')" "slab_inv (fl(cid := as @ fl cid)) used s'" "keeps used t s'" "as \<noteq> []"
    "\<And>j. j < 64 \<Longrightarrow> requested (slabclass s' ! j) = requested (slabclass t ! j)" "frames s' = frames t"
    by (rule install_page_inv[OF inv i(1) c(1) sp(1) c(2) sp(3) room]) simp_all
  from s' have "grown fl used cid t True s'" unfolding grown_def by blast
  then show ?thesis using s' grown_view[OF v l] by (intro that[of s']) auto
qed

section \<open>Pages from the heap and from the slab pool\<close>

lemma dram_page:
  assumes inv: "slab_inv fl used s" and n: "unat n \<le> unat (slab_page_size s)" "n \<noteq> 0"
  obtains p s' where "bnd (get_page_from_global_pool_by_id SLAB_GLOBAL_PAGE_POOL) (\<lambda>p. if p = NULL then memory_allocate n else ret p) s = Inr (p, s')"
    "slab_inv fl used s'" "same_view s s'" "p \<noteq> NULL \<Longrightarrow> \<exists>L \<ge> unat n. spare_page p L s'"
    "\<And>j. 2 \<le> j \<Longrightarrow> j < 64 \<Longrightarrow> slabclass s' ! j = slabclass s ! j" "mem_base s = NULL \<Longrightarrow> room s \<noteq> 0 \<Longrightarrow> p \<noteq> NULL"
proof -
  obtain p t where t: "get_page_from_global_pool_by_id 0 s = Inr (p, t)" "slab_inv fl used t" "same_view s t"
    "p \<noteq> NULL \<Longrightarrow> spare_page p (unat (slab_page_size s)) t" "\<And>j. 2 \<le> j \<Longrightarrow> j < 64 \<Longrightarrow> slabclass t ! j = slabclass s ! j"
    "t = s\<lparr>slabclass := slabclass t\<rparr>"
    by (rule get_page_inv[OF inv, of 0]) auto
  have tr: "mem_base t = mem_base s" "room t = room s" by (subst t(6), simp)+
  show ?thesis
  proof (cases "p = NULL")
    case True
    have "unat n \<le> unat (slab_page_size t)" using n(1) same_viewD(4)[OF t(3)] by simp
    then obtain q u where u: "memory_allocate n t = Inr (q, u)" "slab_inv fl used u" "same_view t u" "slabclass u = slabclass t"
      "q \<noteq> NULL \<Longrightarrow> spare_page q (unat n) u" "mem_base t = NULL \<Longrightarrow> room t \<noteq> 0 \<Longrightarrow> q \<noteq> NULL"
      by (rule memory_allocate_inv[OF t(2) _ n(2)]) auto
    have "bnd (get_page_from_global_pool_by_id SLAB_GLOBAL_PAGE_POOL) (\<lambda>p. if p = NULL then memory_allocate n else ret p) s = Inr (q, u)"
      using t(1) u(1) True by (simp add: SLAB_GLOBAL_PAGE_POOL_def bnd_Inr)
    then show ?thesis using u(2,4-6) t(5) tr same_view_trans[OF t(3) u(3)] by (intro that[of q u]) auto
  next
    case False
    have "bnd (get_page_from_global_pool_by_id SLAB_GLOBAL_PAGE_POOL) (\<lambda>p. if p = NULL then memory_allocate n else ret p) s = Inr (p, t)"
      using t(1) False by (simp add: SLAB_GLOBAL_PAGE_POOL_def bnd_Inr exec_simps)
    then show ?thesis using t(2-5) False n by (intro that[of p t]) auto
  qed
qed

text \<open>The heap can serve a page: \<^verbatim>\<open>malloc\<close> and \<^verbatim>\<open>realloc\<close> succeed, and the limit allows one, which it
  does for the first page of a class.\<close>

definition heap_serves :: "nat \<Rightarrow> slabs_state \<Rightarrow> bool" where
  "heap_serves cid s \<longleftrightarrow> mem_base s = NULL \<and> room s \<noteq> 0 \<and> realloc_room s \<noteq> 0 \<and> mem_limit s \<noteq> 0 \<and>
     (slabs (slabclass s ! cid) = 0 \<or> slabs (slabclass s ! 0) \<noteq> 0 \<or> unat (mem_malloced s) + unat (slab_page_size s) \<le> unat (mem_limit s))"

lemma newslab_from_dram_grown:
  assumes inv: "slab_inv fl used s" and i: "2 \<le> cid" "cid \<le> power_largest s"
  obtains b s' where "do_slabs_newslab_from_dram cid s = Inr (b, s')" "grown fl used cid s b s'" "heap_serves cid s \<Longrightarrow> b"
proof -
  from inv have g: "geometry s" by (simp add: slab_inv_def)
  have l: "length (slabclass s) = 64" "cid < length (slabclass s)" "0 < length (slabclass s)" "cid < 64" using geometryD[OF g] i by auto
  obtain len where len: "newslab_len cid s = Inr (len, s)" "page_len s cid \<le> unat len" "unat len \<le> unat (slab_page_size s)"
    "unat (scast len :: 64 word) = unat len" "scast len \<noteq> (0 :: 64 word)"
    by (rule newslab_len_run[OF g i])
  define full where "full \<longleftrightarrow> mem_limit s = 0 \<or> (mem_limit s < mem_malloced s + scast len \<and> 0 < slabs (slabclass s ! cid) \<and> slabs (slabclass s ! 0) = 0)"
  have step: "do_slabs_newslab_from_dram cid s = (if full then Inr (False, s\<lparr>mem_limit_reached := True\<rparr>) else
      bnd (grow_slab_list cid) (\<lambda>ok. if \<not> ok then ret False else
        bnd (bnd (get_page_from_global_pool_by_id SLAB_GLOBAL_PAGE_POOL) (\<lambda>p. if p = NULL then memory_allocate (scast len) else ret p)) (\<lambda>p.
          if p = NULL then ret False else seq (install_page p (unat len) cid) (ret True))) s)"
    unfolding do_slabs_newslab_from_dram_def install_page_def seq_assoc
    using l len(1) by (simp add: SLAB_GLOBAL_PAGE_POOL_def exec_simps full_def)
  obtain ok t where t: "grow_slab_list cid s = Inr (ok, t)" "slab_inv fl used t" "same_view s t"
    "ok \<Longrightarrow> unat (slabs (slabclass t ! cid)) < length (slab_list (slabclass t ! cid))" "realloc_room s \<noteq> 0 \<Longrightarrow> ok"
    "t = s\<lparr>slabclass := slabclass t, realloc_room := realloc_room t\<rparr>"
    by (rule grow_slab_list_inv[OF inv i(2)]) simp_all
  have tr: "mem_base t = mem_base s" "room t = room s" by (subst t(6), simp)+
  have tl: "unat (scast len :: 64 word) \<le> unat (slab_page_size t)" using len(3,4) same_viewD(4)[OF t(3)] by simp
  obtain p u where u: "bnd (get_page_from_global_pool_by_id SLAB_GLOBAL_PAGE_POOL) (\<lambda>p. if p = NULL then memory_allocate (scast len) else ret p) t = Inr (p, u)"
    "slab_inv fl used u" "same_view t u" "p \<noteq> NULL \<Longrightarrow> \<exists>L \<ge> unat len. spare_page p L u"
    "\<And>j. 2 \<le> j \<Longrightarrow> j < 64 \<Longrightarrow> slabclass u ! j = slabclass t ! j" "mem_base t = NULL \<Longrightarrow> room t \<noteq> 0 \<Longrightarrow> p \<noteq> NULL"
    by (rule dram_page[OF t(2) tl len(5)]) (simp_all add: len(4))
  have hs: "\<not> full \<and> ok \<and> p \<noteq> NULL" if h: "heap_serves cid s"
  proof -
    have "\<not> mem_limit s < mem_malloced s + scast len" if "unat (mem_malloced s) + unat (slab_page_size s) \<le> unat (mem_limit s)"
    proof -
      have "unat (mem_malloced s) + unat (scast len :: 64 word) \<le> unat (mem_limit s)" using that len(3,4) by simp
      moreover have "unat (mem_limit s) < 2 ^ 64" using unsigned_less[of "mem_limit s", where ?'a = nat] by simp
      ultimately show ?thesis by (simp add: word_less_nat_alt unat_word_ariths)
    qed
    then show ?thesis using h t(5) u(6) tr unfolding heap_serves_def full_def by auto
  qed
  consider (full) full | (fail) "\<not> full" "\<not> ok" | (none) "\<not> full" ok "p = NULL" | (page) "\<not> full" ok "p \<noteq> NULL" by blast
  then show ?thesis
  proof cases
    case full
    have "slabs_next_src s < 2" using inv by (simp add: slab_inv_def)
    then have "slab_inv fl used (s\<lparr>mem_limit_reached := True\<rparr>)" "same_view s (s\<lparr>mem_limit_reached := True\<rparr>)"
      by (intro flags_inv[OF inv, where k = "slabs_next_src s"]; simp)+
    then have "grown fl used cid s False (s\<lparr>mem_limit_reached := True\<rparr>)" by (rule grown_none[OF _ _ l(1)])
    then show ?thesis using step full hs by (intro that[of False]) auto
  next
    case fail
    then show ?thesis using step t(1) hs grown_none[OF t(2,3) l(1)] by (intro that[of False t]) (auto simp: exec_simps)
  next
    case none
    then show ?thesis using step t(1) u(1) hs grown_none[OF u(2) same_view_trans[OF t(3) u(3)] l(1)]
      by (intro that[of False u]) (auto simp: exec_simps)
  next
    case page
    then obtain L where L: "spare_page p L u" "unat len \<le> L" using u(4) by blast
    obtain s' where s': "install_page p (unat len) cid u = Inr ((), s')" "grown fl used cid s True s'"
      using t(4)[OF page(2)] u(5)[OF i(1) l(4)]
      by (auto intro: install_page_grown[OF u(2) same_view_trans[OF t(3) u(3)] i l(1) L(1) len(2) L(2)])
    then show ?thesis using step t(1) u(1) page by (intro that[of True s']) (auto simp: exec_simps)
  qed
qed

text \<open>Recording the class in the frame changes no chunk.\<close>

lemma frames_inv:
  assumes inv: "slab_inv fl used s" and s': "s' = s\<lparr>frames := h\<rparr>" and h: "dom (frames s) \<subseteq> dom h"
  shows "slab_inv fl used s'" "keeps used s s'"
proof -
  have r: "regions s' = regions s" by (rule regions_cong) (simp_all add: s')
  have "geometry s'" "free_lists fl s'" "in_use fl used s'" "slabs_next_src s' < 2"
    using inv by (simp_all add: s' slab_inv_def geometry_def free_lists_def in_use_def)
  moreover have "h q \<noteq> None" if "frames s q \<noteq> None" for q using h that by blast
  then have "memory_ok s'" using inv r unfolding slab_inv_def memory_ok_def by (simp add: s')
  ultimately show "slab_inv fl used s'" by (simp add: slab_inv_def)
qed (simp add: s' keeps_def)

lemma pslab_use_slab_grown:
  assumes gr: "grown fl used cid s b t" and f: "frames t (p - sizeof_pslab_t) \<noteq> None" and p: "p \<noteq> NULL"
  obtains s' where "pslab_use_slab p i sz t = Inr ((), s')" "grown fl used cid s b s'"
proof -
  obtain fr where fr: "frames t (p - sizeof_pslab_t) = Some fr" using f by auto
  let ?s = "t\<lparr>frames := (frames t)(p - sizeof_pslab_t \<mapsto> fr\<lparr>fr_size := sz, fr_id := of_nat i\<rparr>)\<rparr>"
  have run: "pslab_use_slab p i sz t = Inr ((), ?s)"
    using fr p by (simp add: pslab_use_slab_def PSLAB_SLAB2FRAME_def upd_frame_def seq_def bnd_def)
  from gr obtain as where as: "slab_inv (fl(cid := as @ fl cid)) used t" "b \<longleftrightarrow> as \<noteq> []" "keeps used s t"
    "\<forall>j < 64. requested (slabclass t ! j) = requested (slabclass s ! j)" by (auto simp: grown_def)
  have "slab_inv (fl(cid := as @ fl cid)) used ?s" "keeps used t ?s" by (rule frames_inv[OF as(1) refl], auto)+
  then have "grown fl used cid s b ?s" using as keeps_trans[OF as(3)] unfolding grown_def by auto
  then show ?thesis using run by (rule that[rotated])
qed

lemma newslab_from_pmem_grown:
  assumes inv: "slab_inv fl used s" and i: "2 \<le> cid" "cid \<le> power_largest s"
  obtains b s' where "do_slabs_newslab_from_pmem cid s = Inr (b, s')" "grown fl used cid s b s'"
proof -
  from inv have g: "geometry s" by (simp add: slab_inv_def)
  have l: "length (slabclass s) = 64" "cid < 64" using geometryD[OF g] i by auto
  have step: "do_slabs_newslab_from_pmem cid = bnd (grow_slab_list cid) (\<lambda>ok. if \<not> ok then ret False else
      bnd (get_page_from_global_pool_by_id SLAB_GLOBAL_PAGE_POOL_PMEM) (\<lambda>p. if p = NULL then ret False else
      bnd (gets slab_page_size) (\<lambda>page. seq (install_page p (unat page) cid)
        (bnd (get_class cid) (\<lambda>c. seq (pslab_use_slab p cid (chunk_sz c)) (ret True))))))"
    unfolding do_slabs_newslab_from_pmem_def install_page_def seq_assoc ..
  obtain ok t where t: "grow_slab_list cid s = Inr (ok, t)" "slab_inv fl used t" "same_view s t"
    "ok \<Longrightarrow> unat (slabs (slabclass t ! cid)) < length (slab_list (slabclass t ! cid))"
    by (rule grow_slab_list_inv[OF inv i(2)]) simp_all
  obtain p u where u: "get_page_from_global_pool_by_id 1 t = Inr (p, u)" "slab_inv fl used u" "same_view t u"
    "p \<noteq> NULL \<Longrightarrow> spare_page p (unat (slab_page_size t)) u \<and> frames u (p - sizeof_pslab_t) \<noteq> None"
    "\<And>j. 2 \<le> j \<Longrightarrow> j < 64 \<Longrightarrow> slabclass u ! j = slabclass t ! j"
    by (rule get_page_inv[OF t(2), of 1]) auto
  note su = same_view_trans[OF t(3) u(3)]
  consider (fail) "\<not> ok" | (none) ok "p = NULL" | (page) ok "p \<noteq> NULL" by blast
  then show ?thesis
  proof cases
    case fail
    then show ?thesis using step t grown_none[OF t(2,3) l(1)] by (intro that[of False t]) (auto simp: exec_simps)
  next
    case none
    then show ?thesis using step t(1) u grown_none[OF u(2) su l(1)]
      by (intro that[of False u]) (auto simp: exec_simps SLAB_GLOBAL_PAGE_POOL_PMEM_def)
  next
    case page
    have pl: "page_len s cid \<le> unat (slab_page_size u)" using page_len_bounds(2)[OF g i(2)] same_viewD(4)[OF su] by simp
    have sp: "spare_page p (unat (slab_page_size u)) u" using u(4)[OF page(2)] same_viewD(4)[OF u(3)] by simp
    have rm: "unat (slabs (slabclass u ! cid)) < length (slab_list (slabclass u ! cid))" using t(4)[OF page(1)] u(5)[OF i(1) l(2)] by simp
    obtain v where v: "install_page p (unat (slab_page_size u)) cid u = Inr ((), v)" "grown fl used cid s True v" "frames v = frames u"
      by (rule install_page_grown[OF u(2) su i l(1) sp pl le_refl rm])
    have "length (slabclass v) = 64" using v(2) geometryD(1)[of v] by (auto simp: grown_def slab_inv_def)
    then have gc: "get_class cid v = Inr (slabclass v ! cid, v)" using l by (simp add: exec_simps)
    have fr: "frames v (p - sizeof_pslab_t) \<noteq> None" using u(4)[OF page(2)] v(3) by simp
    obtain s' where s': "pslab_use_slab p cid (chunk_sz (slabclass v ! cid)) v = Inr ((), s')" "grown fl used cid s True s'"
      by (rule pslab_use_slab_grown[OF v(2) fr page(2)])
    then show ?thesis using step t(1) u(1) v(1) gc page
      by (intro that[of True s']) (auto simp: exec_simps SLAB_GLOBAL_PAGE_POOL_PMEM_def)
  qed
qed

section \<open>Choosing the source of a page\<close>

lemma newslabs_funcs_grown:
  assumes inv: "slab_inv fl used s" and i: "2 \<le> cid" "cid \<le> power_largest s" and src: "src < 2"
  obtains b s' where "newslabs_funcs src cid s = Inr (b, s')" "grown fl used cid s b s'" "src = 0 \<Longrightarrow> heap_serves cid s \<Longrightarrow> b"
proof (cases "src = 0")
  case True
  then have "newslabs_funcs src cid = do_slabs_newslab_from_dram cid" by (simp add: newslabs_funcs_def PSLAB_POLICY_DRAM_def)
  then show ?thesis using newslab_from_dram_grown[OF inv i] that by metis
next
  case False
  with src have "newslabs_funcs src cid = do_slabs_newslab_from_pmem cid"
    by (simp add: newslabs_funcs_def PSLAB_POLICY_DRAM_def PSLAB_POLICY_PMEM_def)
  then show ?thesis using newslab_from_pmem_grown[OF inv i] that False by metis
qed

lemma grown_noneD:
  assumes "grown fl used cid s False t"
  shows "slab_inv fl used t" "keeps used s t"
  using assms by (auto simp: grown_def fun_upd_triv)

lemma grown_again:
  assumes "grown fl used cid s False t" and "grown fl used cid t b u"
  shows "grown fl used cid s b u"
  using assms unfolding grown_def by (auto intro: keeps_trans)

lemma grown_next_src:
  assumes "grown fl used cid s b t" and "k < 2"
  shows "grown fl used cid s b (t\<lparr>slabs_next_src := k\<rparr>)"
proof -
  from assms(1) obtain as where as: "slab_inv (fl(cid := as @ fl cid)) used t" "b \<longleftrightarrow> as \<noteq> []" "keeps used s t"
    "\<forall>j < 64. requested (slabclass t ! j) = requested (slabclass s ! j)" by (auto simp: grown_def)
  have "slab_inv (fl(cid := as @ fl cid)) used (t\<lparr>slabs_next_src := k\<rparr>)" "same_view t (t\<lparr>slabs_next_src := k\<rparr>)"
    by (rule flags_inv[OF as(1), where b = "mem_limit_reached t", OF _ assms(2)], simp)+
  then show ?thesis using as keeps_trans[OF as(3) same_view_keeps] unfolding grown_def by auto
qed

lemma xor_source:
  assumes "(k :: nat) < 2"
  shows "k XOR 1 < 2" "(k XOR 1) XOR 1 < 2"
proof -
  from assms consider "k = 0" | "k = 1" by linarith
  then show "k XOR 1 < 2" "(k XOR 1) XOR 1 < 2" by (cases; simp)+
qed

lemma bnd_assoc: "bnd (bnd m f) g = bnd m (\<lambda>x. bnd (f x) g)"
  by (auto simp: fun_eq_iff bnd_def split: sum.splits)

lemma do_slabs_newslab_grown:
  assumes inv: "slab_inv fl used s" and i: "2 \<le> cid" "cid \<le> power_largest s"
  obtains b s' where "do_slabs_newslab cid s = Inr (b, s')" "grown fl used cid s b s'" "slabs_next_src s = 0 \<Longrightarrow> heap_serves cid s \<Longrightarrow> b"
proof -
  let ?src = "slabs_next_src s"
  have src: "?src < 2" using inv by (simp add: slab_inv_def)
  then have xor: "?src XOR 1 < 2" "(?src XOR 1) XOR 1 < 2" by (rule xor_source)+
  obtain b t where t: "newslabs_funcs ?src cid s = Inr (b, t)" "grown fl used cid s b t" "?src = 0 \<Longrightarrow> heap_serves cid s \<Longrightarrow> b"
    by (rule newslabs_funcs_grown[OF inv i src]) auto
  define pick where "pick = bnd (newslabs_funcs ?src cid) (\<lambda>done. if done then ret (?src, True)
      else bnd (newslabs_funcs (?src XOR 1) cid) (\<lambda>done. ret (?src XOR 1, done)))"
  obtain k c u where u: "pick s = Inr ((k, c), u)" "grown fl used cid s c u" "k < 2" "k XOR 1 < 2" "b \<Longrightarrow> c"
  proof (cases b)
    case True
    then show ?thesis using t src xor by (intro that[of ?src True t]) (auto simp: pick_def exec_simps)
  next
    case False
    then have no: "grown fl used cid s False t" using t(2) by simp
    note n = grown_noneD[OF no]
    have "cid \<le> power_largest t" using n(2) i(2) by (simp add: keeps_def)
    then obtain c u where u: "newslabs_funcs (?src XOR 1) cid t = Inr (c, u)" "grown fl used cid t c u"
      using newslabs_funcs_grown[OF n(1) i(1) _ xor(1)] by blast
    then show ?thesis using False t xor grown_again[OF no u(2)] by (intro that[of "?src XOR 1" c u]) (auto simp: pick_def exec_simps)
  qed
  let ?s = "if pslab_policy u = PSLAB_POLICY_BALANCED then u\<lparr>slabs_next_src := k XOR 1\<rparr> else u"
  have "do_slabs_newslab cid s = bnd pick (\<lambda>(src, done). seq (modify (\<lambda>s. if pslab_policy s = PSLAB_POLICY_BALANCED
      then s\<lparr>slabs_next_src := src XOR 1\<rparr> else s)) (ret done)) s"
    unfolding pick_def bnd_assoc by (simp only: do_slabs_newslab_def bnd_pure)
  also have "\<dots> = Inr (c, ?s)" using u(1) by (simp add: exec_simps)
  finally have "do_slabs_newslab cid s = Inr (c, ?s)" .
  then show ?thesis using u t(3) grown_next_src[OF u(2,4)] by (intro that[of c ?s]) auto
qed

section \<open>Allocation\<close>

text \<open>What changes when only the counter of requested bytes of a class does.\<close>

lemma requested_inv:
  assumes inv: "slab_inv fl used s" and cid: "cid < 64" and s': "s' = s\<lparr>slabclass := (slabclass s)[cid := (slabclass s ! cid)\<lparr>requested := r\<rparr>]\<rparr>"
  shows "slab_inv fl used s'" "keeps used s s'"
proof -
  from inv have g: "geometry s" and m: "memory_ok s" and f: "free_lists fl s" and u: "in_use fl used s" and ns: "slabs_next_src s < 2"
    by (auto simp: slab_inv_def)
  have l: "length (slabclass s) = 64" by (rule geometryD(1)[OF g])
  have c: "class_geom (slabclass s' ! j) = class_geom (slabclass s ! j) \<and> slots (slabclass s' ! j) = slots (slabclass s ! j) \<and>
      sl_curr (slabclass s' ! j) = sl_curr (slabclass s ! j)" if "j < 64" for j
    using l cid that by (simp add: s' class_geom_def nth_list_update)
  have sp: "same_pages {} s s'" unfolding same_pages_def
  proof (intro exI conjI)
    show "s' = s\<lparr>cells := cells s, slabclass := slabclass s'\<rparr>" by (simp add: s')
    show "map class_geom (slabclass s') = map class_geom (slabclass s)" using c l by (intro nth_equalityI) (auto simp: s')
  qed auto
  have "free_lists fl s'" using f c l unfolding free_lists_def by (simp add: s')
  then show "slab_inv fl used s'" by (rule slab_inv_lists[OF inv sp]) (use in_use_all[OF u] in auto)
  show "keeps used s s'" by (rule keeps_lists[OF sp g]) simp
qed

text \<open>An allocation returns \<^verbatim>\<open>NULL\<close> or a chunk of the class that was not in use.\<close>

lemma do_slabs_alloc_inv:
  assumes inv: "slab_inv fl used s" and i: "2 \<le> cid" "cid \<le> power_largest s"
  obtains p fl' s' where "do_slabs_alloc sz cid flags s = Inr ((p, Some (requested (slabclass s ! cid))), s')" "keeps used s s'"
    "slab_inv fl' (if p = NULL then used else used(cid := insert p (used cid))) s'" "p \<noteq> NULL \<Longrightarrow> p \<notin> used cid"
    "\<exists>n. p \<noteq> NULL \<longrightarrow> cells s' p = Some n \<and> it_flags n AND ITEM_CHUNKED = 0"
    "\<And>j. j < 64 \<Longrightarrow> requested (slabclass s' ! j) = requested (slabclass s ! j) + (if j = cid \<and> p \<noteq> NULL then sz else 0)"
    "sl_curr (slabclass s ! cid) \<noteq> 0 \<or> flags \<noteq> SLABS_ALLOC_NO_NEWPAGE \<and> slabs_next_src s = 0 \<and> heap_serves cid s \<Longrightarrow> p \<noteq> NULL"
proof -
  from inv have g: "geometry s" by (simp add: slab_inv_def)
  have l: "cid < length (slabclass s)" "cid < 64" using geometryD[OF g] i by auto
  let ?r = "requested (slabclass s ! cid)"
  obtain fl1 t where t: "(if sl_curr (slabclass s ! cid) = 0 \<and> flags \<noteq> SLABS_ALLOC_NO_NEWPAGE then bnd (do_slabs_newslab cid) (\<lambda>_. ret ()) else ret ()) s
      = Inr ((), t)" "slab_inv fl1 used t" "keeps used s t" "\<forall>j < 64. requested (slabclass t ! j) = requested (slabclass s ! j)"
    "sl_curr (slabclass s ! cid) \<noteq> 0 \<or> flags \<noteq> SLABS_ALLOC_NO_NEWPAGE \<and> slabs_next_src s = 0 \<and> heap_serves cid s \<Longrightarrow> fl1 cid \<noteq> []"
  proof (cases "sl_curr (slabclass s ! cid) = 0 \<and> flags \<noteq> SLABS_ALLOC_NO_NEWPAGE")
    case True
    obtain b t where t: "do_slabs_newslab cid s = Inr (b, t)" "grown fl used cid s b t" "slabs_next_src s = 0 \<Longrightarrow> heap_serves cid s \<Longrightarrow> b"
      by (rule do_slabs_newslab_grown[OF inv i]) auto
    then obtain as where as: "slab_inv (fl(cid := as @ fl cid)) used t" "keeps used s t" "\<forall>j < 64. requested (slabclass t ! j) = requested (slabclass s ! j)"
      "b \<longleftrightarrow> as \<noteq> []" by (auto simp: grown_def)
    show ?thesis by (rule that[OF _ as(1-3)]) (use True t(1,3) as(4) in \<open>auto simp: exec_simps\<close>)
  next
    case False
    have "unat (sl_curr (slabclass s ! cid)) = length (fl cid)" using inv l free_listsD(2)[of fl s cid] by (simp add: slab_inv_def)
    then have "fl cid \<noteq> []" if "sl_curr (slabclass s ! cid) \<noteq> 0" using that by (metis length_0_conv unat_eq_zero)
    then show ?thesis by (intro that[OF _ inv]) (use False in \<open>auto simp: exec_simps\<close>)
  qed
  from t(2) have tg: "geometry t" and tf: "free_lists fl1 t" by (auto simp: slab_inv_def)
  have ti: "cid \<le> power_largest t" "cid < length (slabclass t)" using t(3) i(2) l(2) geometryD(1)[OF tg] by (auto simp: keeps_def)
  have nz: "sl_curr (slabclass t ! cid) = 0 \<longleftrightarrow> fl1 cid = []" using free_listsD(2)[OF tf ti(2)] by (metis length_0_conv unat_eq_zero)
  have run: "do_slabs_alloc sz cid flags s = (if fl1 cid \<noteq> [] then bnd (unlink_first cid) (\<lambda>it.
      seq (upd_class cid (\<lambda>c. c\<lparr>requested := requested c + sz\<rparr>)) (ret (it, Some ?r))) t else Inr ((NULL, Some ?r), t))"
    using i l t(1) ti(2) nz by (simp add: do_slabs_alloc_def POWER_SMALLEST_def exec_simps)
  show ?thesis
  proof (cases "fl1 cid")
    case Nil
    then show ?thesis using run t(2-5) by (intro that[of NULL t fl1]) auto
  next
    case (Cons a as)
    obtain u where u: "unlink_first cid t = Inr (a, u)" "slab_inv (fl1(cid := as)) (used(cid := insert a (used cid))) u"
      "keeps used t u" "a \<notin> used cid" "\<exists>n. cells u a = Some n \<and> it_flags n AND ITEM_CHUNKED = 0"
      "\<And>j. j < 64 \<Longrightarrow> requested (slabclass u ! j) = requested (slabclass t ! j)"
      by (rule take_chunk[OF t(2) i(1) ti(1) Cons]) simp_all
    let ?s = "u\<lparr>slabclass := (slabclass u)[cid := (slabclass u ! cid)\<lparr>requested := requested (slabclass u ! cid) + sz\<rparr>]\<rparr>"
    have lu: "length (slabclass u) = 64" using u(2) geometryD(1)[of u] by (simp add: slab_inv_def)
    have an: "a \<noteq> NULL" using flist_mem[OF free_listsD(1)[OF tf ti(2)], of a] Cons by simp
    note si = requested_inv[OF u(2) l(2) refl, of "requested (slabclass u ! cid) + sz"]
    have "do_slabs_alloc sz cid flags s = Inr ((a, Some ?r), ?s)" using run Cons u(1) lu l(2) by (simp add: exec_simps)
    moreover have "keeps used u ?s" using si(2) by (simp add: keeps_def)
    then have "keeps used s ?s" using t(3) u(3) keeps_trans by blast
    moreover have "\<exists>n. cells ?s a = Some n \<and> it_flags n AND ITEM_CHUNKED = 0" using u(5) by simp
    moreover have "requested (slabclass ?s ! j) = requested (slabclass s ! j) + (if j = cid \<and> a \<noteq> NULL then sz else 0)" if "j < 64" for j
      using u(6)[OF that] t(4) that lu l(2) an by (cases "j = cid") (simp_all add: nth_list_update)
    ultimately show ?thesis using si(1) u(4) an by (intro that[of a ?s "fl1(cid := as)"]) auto
  qed
qed

end
