(* ===== verification/SlabsInit.thy ===== *)
theory SlabsInit
  imports SlabsAlloc
begin

text \<open>
  The start of the allocator: \<^verbatim>\<open>slabs_init\<close> sets up classes that satisfy the invariant, for a
  growth factor or a list of sizes whose chunks are at least a header and fit on a page.
\<close>

section \<open>Sizes\<close>

text \<open>A chunk, rounded up, holds a header and fits on a page.\<close>

definition chunk_fits :: "nat \<Rightarrow> 32 word \<Rightarrow> bool" where
  "chunk_fits page sz \<longleftrightarrow> 48 \<le> unat (align_chunk sz) \<and> unat (align_chunk sz) \<le> page"

definition sizes_ok :: "(32 word \<Rightarrow> bool) \<Rightarrow> (32 word \<Rightarrow> 32 word) \<Rightarrow> 32 word list option \<Rightarrow> nat \<Rightarrow> bool" where
  "sizes_ok stop scale sizes page \<longleftrightarrow> (case sizes of
       None \<Rightarrow> (\<forall>sz. 48 \<le> unat sz \<and> \<not> stop sz \<longrightarrow> chunk_fits page sz) \<and> (\<forall>sz. 48 \<le> unat sz \<and> unat sz \<le> page \<longrightarrow> 48 \<le> unat (scale sz))
     | Some xs \<Rightarrow> (60 \<le> length xs \<or> 0 \<in> set xs) \<and> (\<forall>x \<in> set (takeWhile (\<lambda>x. x \<noteq> 0) xs). chunk_fits page x))"

lemma align_chunk_bounds:
  assumes "unat sz + 8 \<le> page" and "page < 2 ^ 31"
  shows "unat sz \<le> unat (align_chunk sz)" "unat (align_chunk sz) \<le> page"
proof -
  have m: "unat (sz mod 8) \<le> 8" by (simp add: unat_mod)
  then have "unat (8 - sz mod 8) \<le> 8" by (simp add: unat_sub_if' unat_mod)
  then have "unat (sz + (8 - sz mod 8)) = unat sz + unat (8 - sz mod 8)" using assms by (simp add: unat_word_ariths)
  with \<open>unat (8 - sz mod 8) \<le> 8\<close> show "unat sz \<le> unat (align_chunk sz)" "unat (align_chunk sz) \<le> page"
    using assms by (auto simp: align_chunk_def)
qed

definition class_fits :: "nat \<Rightarrow> slabclass_t \<Rightarrow> bool" where
  "class_fits page c \<longleftrightarrow> 48 \<le> unat (chunk_sz c) \<and> 1 \<le> unat (perslab c) \<and> unat (chunk_sz c) * unat (perslab c) \<le> page"

lemma class_fitsI:
  assumes "48 \<le> unat sz" and "unat sz \<le> unat page"
  shows "class_fits (unat page) (c\<lparr>chunk_sz := sz, perslab := page div sz\<rparr>)"
proof -
  have "1 * unat sz div unat sz \<le> unat page div unat sz" using assms(2) by (intro div_le_mono) simp
  then have "1 \<le> unat page div unat sz" using assms(1) by simp
  moreover have "unat sz * (unat page div unat sz) \<le> unat page" by simp
  ultimately show ?thesis using assms by (simp add: class_fits_def unat_div)
qed

text \<open>A class that has no pages and no chunks.\<close>

definition no_pages :: "slabclass_t \<Rightarrow> bool" where
  "no_pages c \<longleftrightarrow> slots c = NULL \<and> sl_curr c = 0 \<and> slabs c = 0 \<and> slab_list c = [] \<and> list_size c = 0"

lemma no_pages_sizes [simp]: "no_pages (c\<lparr>chunk_sz := a, perslab := b\<rparr>) = no_pages c"
  by (simp add: no_pages_def)

definition set_up :: "nat \<Rightarrow> nat \<Rightarrow> slabclass_t list \<Rightarrow> bool" where
  "set_up page j cs \<longleftrightarrow> length cs = 64 \<and> (\<forall>m < 64. no_pages (cs ! m)) \<and> (\<forall>m. 2 \<le> m \<and> m < j \<longrightarrow> class_fits page (cs ! m))"

lemma set_up_class:
  assumes "set_up (unat page) i cs" and "2 \<le> i" "i < 64" and "48 \<le> unat sz" "unat sz \<le> unat page"
  shows "set_up (unat page) (Suc i) (cs[i := (cs ! i)\<lparr>chunk_sz := sz, perslab := page div sz\<rparr>])"
  using assms class_fitsI[OF assms(4,5), of "cs ! i"]
  by (auto simp: set_up_def nth_list_update less_Suc_eq)

lemma again_run:
  assumes "i < length (slabclass s)"
  shows "(let sz = align_chunk z in bnd (gets slab_page_size) (\<lambda>page. if sz = 0 then raise DivisionByZero
      else seq (upd_class i (\<lambda>c. c\<lparr>chunk_sz := sz, perslab := page div sz\<rparr>)) (k sz))) s =
    (if align_chunk z = 0 then Inl DivisionByZero else k (align_chunk z) (s\<lparr>slabclass :=
      (slabclass s)[i := (slabclass s ! i)\<lparr>chunk_sz := align_chunk z, perslab := slab_page_size s div align_chunk z\<rparr>]\<rparr>))"
  using assms by (simp add: Let_def exec_simps)

lemma init_again:
  assumes su: "set_up (unat (slab_page_size s)) i (slabclass s)" and i: "2 \<le> i" "i < 64" and sz: "chunk_fits (unat (slab_page_size s)) sz"
    and cont: "\<And>sz' cs. 48 \<le> unat sz' \<Longrightarrow> unat sz' \<le> unat (slab_page_size s) \<Longrightarrow> set_up (unat (slab_page_size s)) (Suc i) cs \<Longrightarrow> P (k sz' (s\<lparr>slabclass := cs\<rparr>))"
  shows "P ((let sz = align_chunk sz in bnd (gets slab_page_size) (\<lambda>page. if sz = 0 then raise DivisionByZero
      else seq (upd_class i (\<lambda>c. c\<lparr>chunk_sz := sz, perslab := page div sz\<rparr>)) (k sz))) s)"
proof -
  have a48: "48 \<le> unat (align_chunk sz)" and a: "unat (align_chunk sz) \<le> unat (slab_page_size s)" using sz by (auto simp: chunk_fits_def)
  then have nz: "align_chunk sz \<noteq> 0" by (metis not_numeral_le_zero unat_0)
  have l: "i < length (slabclass s)" using su i by (simp add: set_up_def)
  show ?thesis unfolding again_run[OF l] using nz cont[OF a48 a set_up_class[OF su i a48 a]] by simp
qed

lemma init_loop_run:
  assumes "sizes = None \<Longrightarrow> sizes_ok stop scale None (unat (slab_page_size s))"
    and "set_up (unat (slab_page_size s)) i (slabclass s)" and "2 \<le> i" "i + k \<le> 62" and "sizes = None \<Longrightarrow> 48 \<le> unat sz"
    and "\<And>xs. sizes = Some xs \<Longrightarrow> i + k = 62 \<and> (60 \<le> length xs \<or> 0 \<in> set (drop (i - 2) xs)) \<and>
      (\<forall>x \<in> set (takeWhile (\<lambda>x. x \<noteq> 0) (drop (i - 2) xs)). chunk_fits (unat (slab_page_size s)) x)"
  shows "\<exists>j cs. init_loop stop scale sizes k i sz s = Inr (j, s\<lparr>slabclass := cs\<rparr>) \<and> i \<le> j \<and> j \<le> 62 \<and> set_up (unat (slab_page_size s)) j cs"
  using assms
proof (induction k arbitrary: i sz s)
  case 0
  then show ?case by (auto simp: exec_simps intro!: exI[of _ i] exI[of _ "slabclass s"])
next
  case (Suc k)
  let ?P = "\<lambda>r. \<exists>j cs. r = Inr (j, s\<lparr>slabclass := cs\<rparr>) \<and> i \<le> j \<and> j \<le> 62 \<and> set_up (unat (slab_page_size s)) j cs"
  have i: "i < 64" using Suc.prems(4) by simp
  have "?P (Inr (i, s\<lparr>slabclass := slabclass s\<rparr>))" using Suc.prems by (intro exI[of _ i] exI[of _ "slabclass s"]) simp
  then have stop: "?P (Inr (i, s))" by simp
  have again: "?P ((let sz = align_chunk sz in bnd (gets slab_page_size) (\<lambda>page. if sz = 0 then raise DivisionByZero
      else seq (upd_class i (\<lambda>c. c\<lparr>chunk_sz := sz, perslab := page div sz\<rparr>))
        (init_loop stop scale sizes k (Suc i) (if sizes = None then scale sz else sz)))) s)"
    if sz: "chunk_fits (unat (slab_page_size s)) sz"
      and nx: "\<And>xs. sizes = Some xs \<Longrightarrow> (60 \<le> length xs \<or> 0 \<in> set (drop (Suc i - 2) xs)) \<and>
        (\<forall>x \<in> set (takeWhile (\<lambda>x. x \<noteq> 0) (drop (Suc i - 2) xs)). chunk_fits (unat (slab_page_size s)) x)" for sz
  proof (rule init_again[where k = "\<lambda>sz. init_loop stop scale sizes k (Suc i) (if sizes = None then scale sz else sz)",
        OF Suc.prems(2,3) i sz])
    fix sz' :: "32 word" and cs assume sz': "48 \<le> unat sz'" "unat sz' \<le> unat (slab_page_size s)" and su: "set_up (unat (slab_page_size s)) (Suc i) cs"
    have "\<exists>j cs'. init_loop stop scale sizes k (Suc i) (if sizes = None then scale sz' else sz') (s\<lparr>slabclass := cs\<rparr>) = Inr (j, (s\<lparr>slabclass := cs\<rparr>)\<lparr>slabclass := cs'\<rparr>) \<and>
        Suc i \<le> j \<and> j \<le> 62 \<and> set_up (unat (slab_page_size (s\<lparr>slabclass := cs\<rparr>))) j cs'"
      by (rule Suc.IH) (use Suc.prems sz' su nx in \<open>auto simp: sizes_ok_def\<close>)
    then show "?P (init_loop stop scale sizes k (Suc i) (if sizes = None then scale sz' else sz') (s\<lparr>slabclass := cs\<rparr>))"
      by (auto intro: Suc_leD)
  qed
  show ?case
  proof (cases sizes)
    case None
    show ?thesis
    proof (cases "stop sz")
      case True
      with None stop show ?thesis by (simp add: Let_def exec_simps)
    next
      case False
      then have "chunk_fits (unat (slab_page_size s)) sz" using Suc.prems(1,5) None by (auto simp: sizes_ok_def)
      from again[OF this] False show ?thesis unfolding None by (simp add: Let_def)
    qed
  next
    case (Some xs)
    let ?x = "xs ! (i - 2)"
    have lt: "i - 2 < length xs"
    proof (rule ccontr)
      assume "\<not> ?thesis"
      with Suc.prems(3,6) Some have "60 \<le> length xs" by auto
      with \<open>\<not> ?thesis\<close> show False using Suc.prems(3,4) by simp
    qed
    show ?thesis
    proof (cases "?x = 0")
      case True
      with Some lt stop show ?thesis by (simp add: Let_def exec_simps POWER_SMALLEST_def)
    next
      case False
      have "Suc i - 2 = Suc (i - 2)" using Suc.prems(3) by simp
      then have "chunk_fits (unat (slab_page_size s)) ?x" "(60 \<le> length xs \<or> 0 \<in> set (drop (Suc i - 2) xs)) \<and>
          (\<forall>x \<in> set (takeWhile (\<lambda>x. x \<noteq> 0) (drop (Suc i - 2) xs)). chunk_fits (unat (slab_page_size s)) x)"
        using Suc.prems(6)[OF Some] False unfolding Cons_nth_drop_Suc[OF lt, symmetric] by auto
      then show ?thesis using again[of ?x] lt False unfolding Some by (simp add: Let_def POWER_SMALLEST_def)
    qed
  qed
qed

section \<open>The allocator after the start\<close>

text \<open>The process before \<^verbatim>\<open>slabs_init\<close>: no preallocated block, and the heap within bounds.\<close>

definition before_init :: "slabs_state \<Rightarrow> bool" where
  "before_init s \<longleftrightarrow> mem_base s = NULL \<and> 0 < fresh s \<and> fresh s + room s * unat (slab_page_size s) \<le> 2 ^ 36 \<and> slabs_next_src s < 2 \<and>
     48 \<le> unat (slab_chunk_size_max s) \<and> unat (slab_chunk_size_max s) \<le> unat (slab_page_size s) \<and> unat (slab_page_size s) < 2 ^ 31"

lemma set_up_inv:
  assumes su: "set_up (unat (slab_page_size s)) (Suc (power_largest s)) (slabclass s)" and l: "2 \<le> power_largest s" "power_largest s < 64"
    and b: "before_init s"
  shows "slab_inv (\<lambda>_. []) (\<lambda>_. {}) s"
proof -
  have c: "no_pages (slabclass s ! i)" if "i < 64" for i using su that by (simp add: set_up_def)
  have len: "length (slabclass s) = 64" using su by (simp add: set_up_def)
  have p: "pages (slabclass s ! i) = []" if "i < 64" for i using c[OF that] by (simp add: no_pages_def pages_def)
  have "(\<Sum>i < length (slabclass s). class_regions s i) = {#}" using p len by (simp add: class_regions_def)
  then have r: "regions s = {#}" using b unfolding regions_def by (simp add: spare_def before_init_def)
  have "geometry s" using su l b c len unfolding geometry_def set_up_def class_fits_def before_init_def no_pages_def by auto
  moreover have "memory_ok s" using b r p[of 1] by (simp add: memory_ok_def before_init_def)
  moreover have "free_lists (\<lambda>_. []) s" using c len by (simp add: free_lists_def no_pages_def)
  moreover have "in_use (\<lambda>_. []) (\<lambda>_. {}) s" using p by (simp add: in_use_def class_chunks_def)
  moreover have "slabs_next_src s < 2" using b by (simp add: before_init_def)
  ultimately show ?thesis by (simp add: slab_inv_def)
qed

lemma slabs_init_ok:
  assumes b: "before_init s" and sz: "sizes_ok stop scale sizes (unat (slab_page_size s))"
    and ch: "sizes = None \<Longrightarrow> 48 \<le> unat (of_nat sizeof_item + chunk_size :: 32 word)"
  shows "\<exists>s'. slabs_init limit stop scale False sizes chunk_size initial s = Inr ((), s') \<and> slab_inv (\<lambda>_. []) (\<lambda>_. {}) s' \<and>
    mem_limit s' = limit \<and> locks s' = locks s"
proof -
  define t where "t = s\<lparr>mem_limit := limit, slabclass := replicate 64 zero_class\<rparr>"
  have t: "slab_page_size t = slab_page_size s" "slab_chunk_size_max t = slab_chunk_size_max s" by (simp_all add: t_def)
  have bt: "48 \<le> unat (slab_chunk_size_max t)" "unat (slab_chunk_size_max t) \<le> unat (slab_page_size t)" "unat (slab_page_size t) < 2 ^ 31"
    using b t by (auto simp: before_init_def)
  have "set_up (unat (slab_page_size t)) 2 (slabclass t)" by (auto simp: t_def set_up_def no_pages_def zero_class_def)
  moreover have "(60 \<le> length xs \<or> 0 \<in> set xs) \<and> (\<forall>x \<in> set (takeWhile (\<lambda>x. x \<noteq> 0) xs). chunk_fits (unat (slab_page_size t)) x)"
    if "sizes = Some xs" for xs using sz t that by (auto simp: sizes_ok_def)
  ultimately obtain j cs where j: "init_loop stop scale sizes 60 2 (of_nat sizeof_item + chunk_size) t = Inr (j, t\<lparr>slabclass := cs\<rparr>)"
    "2 \<le> j" "j \<le> 62" "set_up (unat (slab_page_size t)) j cs"
    using init_loop_run[of sizes stop scale t 2 60 "of_nat sizeof_item + chunk_size"] sz t bt ch by auto
  let ?top = "slab_chunk_size_max t"
  let ?cs = "cs[j := (cs ! j)\<lparr>chunk_sz := ?top, perslab := slab_page_size t div ?top\<rparr>]"
  have su: "set_up (unat (slab_page_size t)) (Suc j) ?cs" using j bt by (intro set_up_class) auto
  let ?m = "case initial of None \<Rightarrow> mem_malloced s | Some m \<Rightarrow> m"
  let ?s = "t\<lparr>slabclass := ?cs, power_largest := j, mem_malloced := ?m\<rparr>"
  have nz: "?top \<noteq> 0" using bt(1) by (metis not_numeral_le_zero unat_0)
  have lj: "j < length cs" using j by (simp add: set_up_def)
  have "slabs_init limit stop scale False sizes chunk_size initial s = Inr ((), ?s)"
    using j(1) nz lj by (cases initial) (simp_all add: slabs_init_def exec_simps MAX_NUMBER_OF_SLAB_CLASSES_def POWER_SMALLEST_def t_def)
  moreover have "before_init ?s" using b by (simp add: before_init_def t_def)
  then have "slab_inv (\<lambda>_. []) (\<lambda>_. {}) ?s" using su j by (intro set_up_inv) auto
  ultimately show ?thesis by (auto simp: t_def)
qed

end
