(* ===== verification/SlabsProps.thy ===== *)
theory SlabsProps
  imports SlabsInit
begin

text \<open>
  The slab allocator and its clients: after the start, for any sequence of allocations, returns of
  chunks that are held, and writes to the headers of chunks that are held, every call returns, no chunk is given out
  twice, and chunks that are held do not overlap and keep their headers.
\<close>

section \<open>Clients\<close>

text \<open>The chunks a client holds, by class.\<close>

definition grab :: "(nat \<Rightarrow> ptr set) \<Rightarrow> nat \<Rightarrow> ptr \<Rightarrow> nat \<Rightarrow> ptr set" where
  "grab used cid p = (if p = NULL then used else used(cid := insert p (used cid)))"

inductive slabs_step :: "(nat \<Rightarrow> ptr set) \<times> slabs_state \<Rightarrow> (nat \<Rightarrow> ptr set) \<times> slabs_state \<Rightarrow> bool" where
  step_alloc: "slabs_alloc sz cid flags s = Inr ((p, r), s') \<Longrightarrow> slabs_step (used, s) (grab used cid p, s')"
| step_write: "p \<in> used cid \<Longrightarrow> it_flags n AND ITEM_CHUNKED = 0 \<Longrightarrow> slabs_step (used, s) (used, s\<lparr>cells := (cells s)(p \<mapsto> n)\<rparr>)"
| step_free: "p \<in> used cid \<Longrightarrow> slabs_free p sz cid s = Inr ((), s') \<Longrightarrow> slabs_step (used, s) (used(cid := used cid - {p}), s')"

definition slabs_client :: "(nat \<Rightarrow> ptr set) \<Rightarrow> slabs_state \<Rightarrow> bool" where
  "slabs_client used s \<longleftrightarrow> locks s slabs_lock = Free \<and> (\<exists>fl. slab_inv fl used s) \<and> (\<forall>i \<ge> 64. used i = {}) \<and>
     (\<forall>i. \<forall>p \<in> used i. \<exists>n. cells s p = Some n \<and> it_flags n AND ITEM_CHUNKED = 0)"

lemma locks_inv: "slab_inv fl used (s\<lparr>locks := l\<rparr>) = slab_inv fl used s"
proof -
  have r: "regions (s\<lparr>locks := l\<rparr>) = regions s" by (rule regions_cong) simp_all
  have "memory_ok (s\<lparr>locks := l\<rparr>) = memory_ok s" unfolding memory_ok_def r by simp
  then show ?thesis by (simp add: slab_inv_def geometry_def free_lists_def in_use_def)
qed

lemma held_class:
  assumes "slabs_client used s" and "p \<in> used cid"
  shows "2 \<le> cid" "cid \<le> power_largest s" "cid < 64"
proof -
  from assms have c: "cid < 64" by (metis empty_iff linorder_not_le slabs_client_def)
  from assms(1) obtain fl where "in_use fl used s" by (auto simp: slabs_client_def slab_inv_def)
  with assms(2) c show "2 \<le> cid" "cid \<le> power_largest s" "cid < 64" by (auto simp: in_use_def split: if_splits)
qed

lemma held_disjoint:
  assumes cl: "slabs_client used s" and p: "p \<in> used i" and q: "q \<in> used j" and "i \<noteq> j \<or> p \<noteq> q"
  shows "p + unat (chunk_sz (slabclass s ! i)) \<le> q \<or> q + unat (chunk_sz (slabclass s ! j)) \<le> p"
proof -
  from cl obtain fl where inv: "slab_inv fl used s" by (auto simp: slabs_client_def)
  then have u: "in_use fl used s" by (simp add: slab_inv_def)
  note i = held_class[OF cl p] and j = held_class[OF cl q]
  have "p \<in> set (class_chunks (slabclass s ! i))" "q \<in> set (class_chunks (slabclass s ! j))"
    using in_useD(2)[OF u i] in_useD(2)[OF u j] p q by auto
  then show ?thesis using chunks_disjoint[OF inv i(1,2) j(1,2)] assms(4) by (auto simp: disj_def)
qed

lemma held_once:
  assumes "slabs_client used s" and "p \<in> used i" "p \<in> used j"
  shows "i = j"
proof (rule ccontr)
  assume n: "i \<noteq> j"
  obtain g: "geometry s" using assms(1) by (auto simp: slabs_client_def slab_inv_def)
  show False using held_disjoint[OF assms] n geometryD(8)[OF g held_class(1,2)[OF assms(1,2)]] geometryD(8)[OF g held_class(1,2)[OF assms(1,3)]] by auto
qed

text \<open>What an operation keeps of the chunks that stay held.\<close>

definition undisturbed :: "(nat \<Rightarrow> ptr set) \<Rightarrow> slabs_state \<Rightarrow> slabs_state \<Rightarrow> bool" where
  "undisturbed used s s' \<longleftrightarrow> (\<forall>i. \<forall>p \<in> used i. cells s' p = cells s p)"

text \<open>The class has a free chunk, or may ask the heap for a page and will get one.\<close>

definition can_serve :: "nat \<Rightarrow> nat \<Rightarrow> slabs_state \<Rightarrow> bool" where
  "can_serve cid flags s \<longleftrightarrow> sl_curr (slabclass s ! cid) \<noteq> 0 \<or>
     flags \<noteq> SLABS_ALLOC_NO_NEWPAGE \<and> slabs_next_src s = PSLAB_POLICY_DRAM \<and> heap_serves cid s"

lemma slabs_alloc_client:
  assumes cl: "slabs_client used s"
  obtains p r s' where "slabs_alloc sz cid flags s = Inr ((p, r), s')" "slabs_client (grab used cid p) s'" "undisturbed used s s'"
    "p \<noteq> NULL \<Longrightarrow> 2 \<le> cid \<and> cid \<le> power_largest s \<and> (\<forall>i. p \<notin> used i)"
    "2 \<le> cid \<Longrightarrow> cid \<le> power_largest s \<Longrightarrow> can_serve cid flags s \<Longrightarrow> p \<noteq> NULL"
proof (cases "2 \<le> cid \<and> cid \<le> power_largest s")
  case False
  have l: "locks s slabs_lock = Free" using cl by (simp add: slabs_client_def)
  have "do_slabs_alloc sz cid flags (s\<lparr>locks := (locks s)(slabs_lock := Held)\<rparr>) = Inr ((NULL, None), s\<lparr>locks := (locks s)(slabs_lock := Held)\<rparr>)"
    using False by (auto simp: do_slabs_alloc_def exec_simps POWER_SMALLEST_def)
  then have "slabs_alloc sz cid flags s = Inr ((NULL, None), s)" using l by (simp add: slabs_alloc_def exec_simps)
  then show ?thesis using cl False by (intro that[of NULL None s]) (auto simp: grab_def undisturbed_def)
next
  case True
  from cl obtain fl where inv: "slab_inv fl used s" and l: "locks s slabs_lock = Free" and big: "\<And>i. 64 \<le> i \<Longrightarrow> used i = {}"
    and hd: "\<And>i p. p \<in> used i \<Longrightarrow> \<exists>n. cells s p = Some n \<and> it_flags n AND ITEM_CHUNKED = 0" by (auto simp: slabs_client_def)
  let ?s = "s\<lparr>locks := (locks s)(slabs_lock := Held)\<rparr>"
  have i: "2 \<le> cid" "cid \<le> power_largest ?s" and inv': "slab_inv fl used ?s" using True inv by (simp_all add: locks_inv)
  obtain p fl' t where t: "do_slabs_alloc sz cid flags ?s = Inr ((p, Some (requested (slabclass ?s ! cid))), t)" "keeps used ?s t"
    "slab_inv fl' (if p = NULL then used else used(cid := insert p (used cid))) t" "p \<noteq> NULL \<Longrightarrow> p \<notin> used cid"
    "\<exists>n. p \<noteq> NULL \<longrightarrow> cells t p = Some n \<and> it_flags n AND ITEM_CHUNKED = 0"
    "sl_curr (slabclass ?s ! cid) \<noteq> 0 \<or> flags \<noteq> SLABS_ALLOC_NO_NEWPAGE \<and> slabs_next_src ?s = 0 \<and> heap_serves cid ?s \<Longrightarrow> p \<noteq> NULL"
    by (rule do_slabs_alloc_inv[OF inv' i, of sz flags]) simp_all
  let ?t = "t\<lparr>locks := (locks t)(slabs_lock := Free)\<rparr>"
  have cid: "cid < 64" using inv True geometryD(3)[of s] by (auto simp: slab_inv_def)
  have lt: "locks t = locks ?s" using t(2) by (simp add: keeps_def)
  have run: "slabs_alloc sz cid flags s = Inr ((p, Some (requested (slabclass s ! cid))), ?t)"
    using l t(1) lt by (simp add: slabs_alloc_def exec_simps)
  have und: "undisturbed used s ?t" using t(2) big by (auto simp: undisturbed_def keeps_def) (metis emptyE not_le)
  have "slab_inv fl' (grab used cid p) ?t" using t(3) by (simp add: grab_def locks_inv)
  moreover have "\<exists>n. cells ?t q = Some n \<and> it_flags n AND ITEM_CHUNKED = 0" if q: "q \<in> grab used cid p j" for j q
  proof (cases "q \<in> used j")
    case True
    then show ?thesis using und hd[OF True] by (auto simp: undisturbed_def)
  next
    case False
    then have "q = p" "p \<noteq> NULL" using q by (auto simp: grab_def split: if_splits)
    then show ?thesis using t(5) by auto
  qed
  moreover have "locks ?t slabs_lock = Free" by simp
  moreover have "grab used cid p i = {}" if "64 \<le> i" for i using big[OF that] cid that by (simp add: grab_def)
  ultimately have cl': "slabs_client (grab used cid p) ?t" unfolding slabs_client_def by blast
  moreover have "\<forall>i. p \<notin> used i" if "p \<noteq> NULL"
  proof (intro allI notI)
    fix j assume j: "p \<in> used j"
    then have "p \<in> grab used cid p j" "p \<in> grab used cid p cid" using that by (auto simp: grab_def)
    then have "j = cid" using held_once[OF cl'] by blast
    with j t(4)[OF that] show False by simp
  qed
  moreover have "p \<noteq> NULL" if "can_serve cid flags s"
    using that t(6) by (auto simp: can_serve_def heap_serves_def PSLAB_POLICY_DRAM_def)
  ultimately show ?thesis using run und True by (intro that[of p _ ?t]) auto
qed

lemma slabs_free_client:
  assumes cl: "slabs_client used s" and p: "p \<in> used cid"
  obtains s' where "slabs_free p sz cid s = Inr ((), s')" "slabs_client (used(cid := used cid - {p})) s'"
    "undisturbed (used(cid := used cid - {p})) s s'"
proof -
  from cl obtain fl where inv: "slab_inv fl used s" and l: "locks s slabs_lock = Free" and big: "\<And>i. 64 \<le> i \<Longrightarrow> used i = {}"
    and hd: "\<And>i p. p \<in> used i \<Longrightarrow> \<exists>n. cells s p = Some n \<and> it_flags n AND ITEM_CHUNKED = 0" by (auto simp: slabs_client_def)
  note c = held_class[OF cl p]
  obtain n where n: "cells s p = Some n" "it_flags n AND ITEM_CHUNKED = 0" using hd[OF p] by blast
  let ?s = "s\<lparr>locks := (locks s)(slabs_lock := Held)\<rparr>" and ?u = "used(cid := used cid - {p})"
  have i: "cid \<le> power_largest ?s" "cells ?s p = Some n" and inv': "slab_inv fl used ?s" using c n inv by (simp_all add: locks_inv)
  obtain t where t: "do_slabs_free p sz cid ?s = Inr ((), t)" "slab_inv (fl(cid := p # fl cid)) ?u t" "keeps ?u ?s t"
    by (rule return_chunk[OF inv' c(1) i(1) p i(2) n(2), of sz]) simp_all
  let ?t = "t\<lparr>locks := (locks t)(slabs_lock := Free)\<rparr>"
  have lt: "locks t = locks ?s" using t(3) by (simp add: keeps_def)
  have run: "slabs_free p sz cid s = Inr ((), ?t)" using l t(1) lt by (simp add: slabs_free_def exec_simps)
  have und: "undisturbed ?u s ?t"
    unfolding undisturbed_def
  proof (intro allI ballI)
    fix j q assume q: "q \<in> ?u j"
    then have "q \<in> used j" by (auto split: if_splits)
    then show "cells ?t q = cells s q" using t(3) q held_class(3)[OF cl] by (auto simp: keeps_def)
  qed
  have "\<exists>n. cells ?t q = Some n \<and> it_flags n AND ITEM_CHUNKED = 0" if q: "q \<in> ?u j" for j q
    using und q hd[of q j] by (auto simp: undisturbed_def split: if_splits)
  moreover have "slab_inv (fl(cid := p # fl cid)) ?u ?t" using t(2) by (simp add: locks_inv)
  moreover have "?u i = {}" if "64 \<le> i" for i using big[OF that] by auto
  moreover have "locks ?t slabs_lock = Free" by simp
  ultimately have "slabs_client ?u ?t" unfolding slabs_client_def by blast
  then show ?thesis using run und by (intro that[of ?t])
qed

lemma slabs_write_client:
  assumes cl: "slabs_client used s" and p: "p \<in> used cid" and n: "it_flags n AND ITEM_CHUNKED = 0"
  shows "slabs_client used (s\<lparr>cells := (cells s)(p \<mapsto> n)\<rparr>)"
proof -
  let ?s = "s\<lparr>cells := (cells s)(p \<mapsto> n)\<rparr>"
  from cl obtain fl where inv: "slab_inv fl used s" by (auto simp: slabs_client_def)
  then have g: "geometry s" and f: "free_lists fl s" and u: "in_use fl used s" by (auto simp: slab_inv_def)
  note c = held_class[OF cl p]
  have len: "length (slabclass s) = 64" using geometryD(1)[OF g] .
  obtain m where m: "cells s p = Some m" using cl p unfolding slabs_client_def by blast
  have nf: "p \<notin> set (fl i)" if "i < 64" for i
    using p in_useD(1,2)[OF u c] chunk_class(1)[OF inv c(1,2) _ that, of p] by (cases "i = cid") auto
  have "flist (cells ?s) (slots (slabclass s ! i)) (fl i)" if "i < 64" for i
    using free_listsD(1)[OF f, of i] nf[OF that] that len by (subst flist_cong[where h = "cells s"]) auto
  then have "free_lists fl ?s" using f len unfolding free_lists_def by simp
  moreover have "same_pages {p} s ?s" unfolding same_pages_def
    by (intro exI[of _ "(cells s)(p \<mapsto> n)"] exI[of _ "slabclass s"]) (use m in auto)
  ultimately have "slab_inv fl used ?s" using in_use_all[OF u] by (intro slab_inv_lists[OF inv]) auto
  then show ?thesis using cl n unfolding slabs_client_def by auto
qed

lemma slabs_steps_client:
  assumes "slabs_step\<^sup>*\<^sup>* c c'" and "slabs_client (fst c) (snd c)"
  shows "slabs_client (fst c') (snd c')"
  using assms
proof (induction rule: rtranclp_induct)
  case (step y z)
  then have cl: "slabs_client (fst y) (snd y)" by simp
  from step(2) show ?case
  proof cases
    case (step_alloc sz cid flags s p r s' used)
    have "slabs_client used s" using cl step_alloc(1) by simp
    then obtain p' r' t where "slabs_alloc sz cid flags s = Inr ((p', r'), t)" "slabs_client (grab used cid p') t"
      by (rule slabs_alloc_client) auto
    then show ?thesis using step_alloc by simp
  next
    case (step_write p used cid n s)
    then show ?thesis using cl slabs_write_client[of used s p cid n] by simp
  next
    case (step_free p used cid sz s s')
    have "slabs_client used s" using cl step_free(1) by simp
    then obtain t where "slabs_free p sz cid s = Inr ((), t)" "slabs_client (used(cid := used cid - {p})) t"
      using step_free(3) by (rule slabs_free_client)
    then show ?thesis using step_free by simp
  qed
qed

text \<open>What the allocator promises in a state in which the client holds the chunks \<open>used\<close>.\<close>

definition slabs_safe :: "(nat \<Rightarrow> ptr set) \<Rightarrow> slabs_state \<Rightarrow> bool" where
  "slabs_safe used s \<longleftrightarrow>
     (\<forall>i j. \<forall>p \<in> used i. \<forall>q \<in> used j. i \<noteq> j \<or> p \<noteq> q \<longrightarrow>
        p + unat (chunk_sz (slabclass s ! i)) \<le> q \<or> q + unat (chunk_sz (slabclass s ! j)) \<le> p) \<and>
     (\<forall>sz cid flags. \<exists>p r s'. slabs_alloc sz cid flags s = Inr ((p, r), s') \<and> undisturbed used s s' \<and>
        (p \<noteq> NULL \<longrightarrow> 2 \<le> cid \<and> cid \<le> power_largest s \<and> (\<forall>i. p \<notin> used i)) \<and>
        (2 \<le> cid \<and> cid \<le> power_largest s \<and> can_serve cid flags s \<longrightarrow> p \<noteq> NULL)) \<and>
     (\<forall>cid. \<forall>p \<in> used cid. \<forall>sz. \<exists>s'. slabs_free p sz cid s = Inr ((), s') \<and> undisturbed (used(cid := used cid - {p})) s s')"

lemma slabs_client_safe:
  assumes cl: "slabs_client used s"
  shows "slabs_safe used s"
  unfolding slabs_safe_def
proof (intro conjI allI)
  show "\<forall>p \<in> used i. \<forall>q \<in> used j. i \<noteq> j \<or> p \<noteq> q \<longrightarrow>
      p + unat (chunk_sz (slabclass s ! i)) \<le> q \<or> q + unat (chunk_sz (slabclass s ! j)) \<le> p" for i j
    using held_disjoint[OF cl] by blast
  show "\<exists>p r s'. slabs_alloc sz cid flags s = Inr ((p, r), s') \<and> undisturbed used s s' \<and>
      (p \<noteq> NULL \<longrightarrow> 2 \<le> cid \<and> cid \<le> power_largest s \<and> (\<forall>i. p \<notin> used i)) \<and>
      (2 \<le> cid \<and> cid \<le> power_largest s \<and> can_serve cid flags s \<longrightarrow> p \<noteq> NULL)" for sz cid flags
    by (rule slabs_alloc_client[OF cl, of sz cid flags]) blast
  show "\<forall>p \<in> used cid. \<forall>sz. \<exists>s'. slabs_free p sz cid s = Inr ((), s') \<and> undisturbed (used(cid := used cid - {p})) s s'" for cid
    by (intro ballI allI) (rule slabs_free_client[OF cl], auto)
qed


text \<open>A process before \<^verbatim>\<open>slabs_init\<close> with pages of 1024 bytes and room for \<open>r\<close> of them.\<close>

definition slabs_boot :: "nat \<Rightarrow> slabs_state" where
  "slabs_boot r = \<lparr>cells = Map.empty, fresh = 1, room = r, junk = zero_item, locks = (\<lambda>_. Free), out = [], slabclass = [],
     mem_limit = 0, mem_malloced = 0, mem_limit_reached = False, power_largest = 0, mem_base = NULL, mem_current = NULL, mem_avail = 0,
     slabs_next_src = 0, realloc_room = r, item_size_max = 1024, slab_chunk_size_max = 1024, slab_page_size = 1024,
     slab_reassign = True, use_cas = True, maxbytes = 0, pslab_size = 0, pslab_policy = 0, pslab_from = NULL, pslab_to = NULL,
     frames = Map.empty, walk_cur = NULL\<rparr>"

text \<open>A growth factor of two: \<^verbatim>\<open>slab_chunk_size_max / factor\<close> is 512.\<close>

lemma doubling_ok: "sizes_ok (\<lambda>sz. 512 \<le> sz) (\<lambda>sz. 2 * sz) None 1024"
proof -
  have "48 \<le> unat (2 * sz)" if "48 \<le> unat sz" "unat sz \<le> 1024" for sz :: "32 word"
    using that by (simp add: unat_word_ariths)
  moreover have "chunk_fits 1024 sz" if "48 \<le> unat sz" "\<not> 512 \<le> sz" for sz :: "32 word"
    using that align_chunk_bounds[of sz 1024] by (auto simp: chunk_fits_def word_le_nat_alt)
  ultimately show ?thesis by (simp add: sizes_ok_def)
qed

lemma slabs_boot_ok: "before_init (slabs_boot 4)"
  by (simp add: before_init_def slabs_boot_def)


end
