(* ===== verification/SlabsSizes.thy ===== *)
theory SlabsSizes
  imports SlabsProps
begin

text \<open>
  Chunk sizes: which class an item gets, and the way the sizes take over a restart. \<^verbatim>\<open>main\<close> of
  \<^verbatim>\<open>memcached.c\<close> dumps the sizes into the header of a new slab pool; a recovery starts the
  allocator from the dumped sizes, with the last one hidden, and compares the result with the dump.
\<close>

section \<open>The exact classes\<close>

definition sized :: "32 word \<Rightarrow> 32 word \<Rightarrow> slabclass_t" where
  "sized page z = zero_class\<lparr>chunk_sz := z, perslab := page div z\<rparr>"

definition classes_of :: "32 word \<Rightarrow> 32 word list \<Rightarrow> slabclass_t list" where
  "classes_of page szs = [zero_class, zero_class] @ map (sized page) szs @ replicate (62 - length szs) zero_class"

lemma length_classes_of: "length szs \<le> 62 \<Longrightarrow> length (classes_of page szs) = 64"
  by (simp add: classes_of_def)

lemma classes_of_append:
  assumes "length szs < 62" and "i = 2 + length szs"
  shows "(classes_of page szs)[i := (classes_of page szs ! i)\<lparr>chunk_sz := z, perslab := page div z\<rparr>] = classes_of page (szs @ [z])"
proof -
  have "62 - length szs = Suc (62 - Suc (length szs))" using assms(1) by simp
  then have "classes_of page szs = ([zero_class, zero_class] @ map (sized page) szs) @ zero_class # replicate (62 - Suc (length szs)) zero_class"
    by (simp add: classes_of_def)
  moreover have "i = length ([zero_class, zero_class] @ map (sized page) szs)" using assms(2) by simp
  ultimately show ?thesis by (simp only: list_update_length nth_append_length) (simp add: classes_of_def sized_def)
qed

lemma classes_of_nth: "m < length szs \<Longrightarrow> classes_of page szs ! (2 + m) = sized page (szs ! m)"
  by (simp add: classes_of_def nth_append)

lemma mult_eight_mod: "(8 * y) mod 8 = (0 :: 32 word)"
proof -
  have "(8 :: nat) dvd 2 ^ 32" by simp
  then have "unat (8 * y) mod 8 = 0" by (simp add: unat_word_ariths mod_mod_cancel)
  then have "unat ((8 * y) mod 8) = 0" by (simp add: unat_mod)
  then show ?thesis by (simp only: unat_eq_zero)
qed

lemma align_chunk_idem [simp]: "align_chunk (align_chunk z) = align_chunk z"
proof (cases "z mod 8 = 0")
  case False
  have "z + (8 - z mod 8) = 8 * (z div 8) + z mod 8 + (8 - z mod 8)" by (simp only: mult_div_mod_eq)
  also have "\<dots> = 8 * (z div 8 + 1)" by (simp add: algebra_simps)
  finally have "(z + (8 - z mod 8)) mod 8 = 0" by (simp only: mult_eight_mod)
  then show ?thesis using False by (simp add: align_chunk_def)
qed (simp add: align_chunk_def)

text \<open>The loop appends sizes: those given, rounded up, or those of the growth factor.\<close>

lemma init_loop_classes:
  assumes "init_loop stop scale sizes k i sz s = Inr (j, s')" and "slabclass s = classes_of (slab_page_size s) szs"
    and "length szs + k \<le> 60" and "i = 2 + length szs"
  shows "\<exists>as. s' = s\<lparr>slabclass := classes_of (slab_page_size s) (szs @ as)\<rparr> \<and> j = 2 + length szs + length as \<and> length as \<le> k \<and>
    (\<forall>a \<in> set as. a \<noteq> 0 \<and> align_chunk a = a) \<and>
    (\<forall>xs. sizes = Some xs \<longrightarrow> as = map align_chunk (takeWhile (\<lambda>x. x \<noteq> 0) (take k (drop (length szs) xs))))"
  using assms
proof (induction k arbitrary: i szs sz s)
  case 0
  then show ?case by (simp add: exec_simps)
next
  case (Suc k)
  let ?page = "slab_page_size s"
  have i: "i < length (slabclass s)" using Suc.prems(2-4) by (simp add: length_classes_of)
  let ?again = "\<lambda>z. let sz = align_chunk z in bnd (gets slab_page_size) (\<lambda>page. if sz = 0 then raise DivisionByZero
      else seq (upd_class i (\<lambda>c. c\<lparr>chunk_sz := sz, perslab := page div sz\<rparr>))
        (init_loop stop scale sizes k (Suc i) (if sizes = None then scale sz else sz)))"
  have again: "align_chunk z \<noteq> 0 \<and> (\<exists>as. s' = s\<lparr>slabclass := classes_of ?page (szs @ align_chunk z # as)\<rparr> \<and> j = 2 + length szs + Suc (length as) \<and>
      length as \<le> k \<and> (\<forall>a \<in> set as. a \<noteq> 0 \<and> align_chunk a = a) \<and>
      (\<forall>xs. sizes = Some xs \<longrightarrow> as = map align_chunk (takeWhile (\<lambda>x. x \<noteq> 0) (take k (drop (Suc (length szs)) xs)))))"
    if run: "?again z s = Inr (j, s')" for z
  proof -
    let ?a = "align_chunk z"
    let ?s = "s\<lparr>slabclass := classes_of ?page (szs @ [?a])\<rparr>"
    have cs: "(slabclass s)[i := (slabclass s ! i)\<lparr>chunk_sz := ?a, perslab := ?page div ?a\<rparr>] = classes_of ?page (szs @ [?a])"
      unfolding Suc.prems(2) using Suc.prems(3,4) by (intro classes_of_append) auto
    note r = run[unfolded again_run[OF i] cs]
    have nz: "?a \<noteq> 0" using r by (simp split: if_splits)
    have "init_loop stop scale sizes k (Suc i) (if sizes = None then scale ?a else ?a) ?s = Inr (j, s')"
      using r nz by simp
    from Suc.IH[OF this, of "szs @ [?a]"] Suc.prems(3,4) nz show ?thesis by auto
  qed
  show ?case
  proof (cases sizes)
    case None
    show ?thesis
    proof (cases "stop sz")
      case True
      then show ?thesis using Suc.prems(1,2,4) None by (auto simp: exec_simps intro!: exI[of _ "[]"])
    next
      case False
      then have "?again sz s = Inr (j, s')" using Suc.prems(1) unfolding None init_loop.simps Let_def option.case by (simp only: if_False)
      from again[OF this] obtain as where as: "align_chunk sz \<noteq> 0" "s' = s\<lparr>slabclass := classes_of ?page (szs @ align_chunk sz # as)\<rparr>"
        "j = 2 + length szs + Suc (length as)" "length as \<le> k" "\<forall>a \<in> set as. a \<noteq> 0 \<and> align_chunk a = a" by blast
      then show ?thesis using None by (intro exI[of _ "align_chunk sz # as"]) auto
    qed
  next
    case (Some xs)
    let ?n = "length szs"
    show ?thesis
    proof (cases "?n < length xs \<and> xs ! ?n \<noteq> 0")
      case True
      then have c: "(length xs \<le> i - POWER_SMALLEST) = False" "(xs ! (i - POWER_SMALLEST) = 0) = False" "xs ! (i - POWER_SMALLEST) = xs ! ?n"
        using Suc.prems(4) by (auto simp: POWER_SMALLEST_def)
      have "?again (xs ! ?n) s = Inr (j, s')" using Suc.prems(1) unfolding Some init_loop.simps Let_def option.case c(1,2) if_False unfolding c(3) .
      from again[OF this] obtain as where as: "align_chunk (xs ! ?n) \<noteq> 0" "s' = s\<lparr>slabclass := classes_of ?page (szs @ align_chunk (xs ! ?n) # as)\<rparr>"
        "j = 2 + ?n + Suc (length as)" "length as \<le> k" "\<forall>a \<in> set as. a \<noteq> 0 \<and> align_chunk a = a"
        "as = map align_chunk (takeWhile (\<lambda>x. x \<noteq> 0) (take k (drop (Suc ?n) xs)))" using Some by blast
      have tk: "take (Suc k) (drop ?n xs) = xs ! ?n # take k (drop (Suc ?n) xs)"
        using True Cons_nth_drop_Suc[of ?n xs] by (metis take_Suc_Cons)
      have eq: "align_chunk (xs ! ?n) # as = map align_chunk (takeWhile (\<lambda>x. x \<noteq> 0) (take (Suc k) (drop ?n xs)))"
        unfolding tk as(6) using True by simp
      show ?thesis
      proof (intro exI[of _ "align_chunk (xs ! ?n) # as"] conjI allI impI)
        fix ys assume "sizes = Some ys"
        then show "align_chunk (xs ! ?n) # as = map align_chunk (takeWhile (\<lambda>x. x \<noteq> 0) (take (Suc k) (drop ?n ys)))" using eq Some by simp
      qed (use as(1-5) in simp_all)
    next
      case False
      then have lt: "?n < length xs" and z: "xs ! ?n = 0" and r: "j = i" "s' = s"
        using Suc.prems(1,4) unfolding Some by (auto simp: POWER_SMALLEST_def exec_simps split: if_splits)
      have "take (Suc k) (drop ?n xs) = 0 # take k (drop (Suc ?n) xs)"
        using lt z Cons_nth_drop_Suc[of ?n xs] by (metis take_Suc_Cons)
      then have "[] = map align_chunk (takeWhile (\<lambda>x. x \<noteq> 0) (take (Suc k) (drop ?n xs)))" by simp
      then show ?thesis using Some r Suc.prems(2,4) by (intro exI[of _ "[]"]) simp
    qed
  qed
qed

lemma slabs_init_classes:
  assumes run: "slabs_init limit stop scale False sizes chunk_size initial s = Inr ((), s')"
  obtains szs where "slabclass s' = classes_of (slab_page_size s) (szs @ [slab_chunk_size_max s])" "power_largest s' = 2 + length szs" "length szs \<le> 60"
    "\<And>a. a \<in> set szs \<Longrightarrow> a \<noteq> 0 \<and> align_chunk a = a" "\<And>xs. sizes = Some xs \<Longrightarrow> szs = map align_chunk (takeWhile (\<lambda>x. x \<noteq> 0) (take 60 xs))"
    "slab_chunk_size_max s \<noteq> 0" "slab_page_size s' = slab_page_size s"
proof -
  define t where "t = s\<lparr>mem_limit := limit, slabclass := replicate 64 zero_class\<rparr>"
  have t: "slab_page_size t = slab_page_size s" "slab_chunk_size_max t = slab_chunk_size_max s" by (simp_all add: t_def)
  let ?rest = "\<lambda>i. seq (modify (\<lambda>s. s\<lparr>power_largest := i\<rparr>)) (bnd (gets slab_chunk_size_max) (\<lambda>top. bnd (gets slab_page_size) (\<lambda>page.
      if top = 0 then raise DivisionByZero else seq (upd_class i (\<lambda>c. c\<lparr>chunk_sz := top, perslab := page div top\<rparr>))
        (seq (case initial of None \<Rightarrow> ret () | Some m \<Rightarrow> modify (\<lambda>s. s\<lparr>mem_malloced := m\<rparr>)) (if False then slabs_preallocate i else ret ())))))"
  have "slabs_init limit stop scale False sizes chunk_size initial s =
      bnd (init_loop stop scale sizes 60 2 (of_nat sizeof_item + chunk_size)) ?rest t"
    by (simp add: slabs_init_def exec_simps MAX_NUMBER_OF_SLAB_CLASSES_def POWER_SMALLEST_def t_def)
  with run obtain j u where j: "init_loop stop scale sizes 60 2 (of_nat sizeof_item + chunk_size) t = Inr (j, u)" "?rest j u = Inr ((), s')"
    by (auto simp: bnd_Inr_iff)
  have "slabclass t = classes_of (slab_page_size t) []" by (simp add: t_def classes_of_def numeral_eq_Suc)
  from init_loop_classes[OF j(1) this] obtain as where as: "u = t\<lparr>slabclass := classes_of (slab_page_size t) as\<rparr>" "j = 2 + length as" "length as \<le> 60"
    "\<forall>a \<in> set as. a \<noteq> 0 \<and> align_chunk a = a" "\<forall>xs. sizes = Some xs \<longrightarrow> as = map align_chunk (takeWhile (\<lambda>x. x \<noteq> 0) (take 60 xs))"
    by auto
  have nz: "slab_chunk_size_max s \<noteq> 0" using j(2) as(1) t by (auto simp: exec_simps)
  have su: "slabclass u = classes_of (slab_page_size s) as" using as(1) t by simp
  have lj: "j < length (slabclass u)" using as by (simp add: length_classes_of)
  have "s' = u\<lparr>slabclass := (slabclass u)[j := (slabclass u ! j)\<lparr>chunk_sz := slab_chunk_size_max s, perslab := slab_page_size s div slab_chunk_size_max s\<rparr>],
      power_largest := j, mem_malloced := (case initial of None \<Rightarrow> mem_malloced s | Some m \<Rightarrow> m)\<rparr>"
    using j(2) nz lj as(1) t by (cases initial) (auto simp: exec_simps t_def)
  moreover have "(slabclass u)[j := (slabclass u ! j)\<lparr>chunk_sz := slab_chunk_size_max s, perslab := slab_page_size s div slab_chunk_size_max s\<rparr>]
      = classes_of (slab_page_size s) (as @ [slab_chunk_size_max s])"
    unfolding su using as(2,3) by (intro classes_of_append) auto
  ultimately have "slabclass s' = classes_of (slab_page_size s) (as @ [slab_chunk_size_max s])" "power_largest s' = 2 + length as"
    "slab_page_size s' = slab_page_size s"
    using as(1,2) t(1) by simp_all
  then show ?thesis using as(3-5) nz by (intro that[of as]) blast+
qed

section \<open>Sizes over a restart\<close>

text \<open>The loop of \<^verbatim>\<open>main\<close> that moves the last size behind the terminating zero.\<close>

primrec hide_loop :: "nat \<Rightarrow> nat \<Rightarrow> 32 word list \<Rightarrow> fault + 32 word list" where
  "hide_loop 0 i xs = Inr xs"
| "hide_loop (Suc k) i xs =
     (if length xs \<le> i then Inl IndexRange
      else if xs ! i = 0 then (if i = 0 then Inl IndexRange else Inr (xs[i := xs ! (i - 1), i - 1 := 0]))
      else hide_loop k (Suc i) xs)"

definition hide_last :: "32 word list \<Rightarrow> fault + 32 word list" where
  "hide_last xs = hide_loop MAX_NUMBER_OF_SLAB_CLASSES 0 xs"

text \<open>The loop of \<^verbatim>\<open>main\<close> that undoes this and compares with the dump; \<open>Inr False\<close> stands for
  \<^verbatim>\<open>exit(EXIT_FAILURE)\<close>.\<close>

primrec check_loop :: "nat \<Rightarrow> nat \<Rightarrow> bool \<Rightarrow> 32 word list \<Rightarrow> 32 word list \<Rightarrow> fault + bool" where
  "check_loop 0 i tail xs ds = Inr True"
| "check_loop (Suc k) i tail xs ds =
     (if length xs \<le> i \<or> length ds \<le> i then Inl IndexRange
      else if xs ! i = 0 \<and> \<not> tail
      then (if length xs \<le> Suc i then Inl IndexRange
            else if xs ! Suc i \<noteq> ds ! i then Inr False
            else check_loop k (Suc i) True (xs[i := xs ! Suc i, Suc i := 0]) ds)
      else if xs ! i \<noteq> ds ! i then Inr False
      else check_loop k (Suc i) tail xs ds)"

definition check_sizes :: "nat \<Rightarrow> 32 word list \<Rightarrow> 32 word list \<Rightarrow> fault + bool" where
  "check_sizes dump_num xs ds = check_loop (dump_num + 1) 0 False xs ds"

lemma hide_loop_run:
  assumes "\<forall>b \<in> set bs. b \<noteq> 0" and "z \<noteq> 0" and "length bs + 2 \<le> k" and "i = length as"
  shows "hide_loop k i (as @ bs @ z # 0 # ys) = Inr (as @ bs @ 0 # z # ys)"
  using assms
proof (induction bs arbitrary: as k i)
  case Nil
  define m where "m = k - 2"
  have m: "k = Suc (Suc m)" using Nil(3) by (simp add: m_def)
  have "hide_loop (Suc m) (Suc i) (as @ z # 0 # ys) = Inr (as @ 0 # z # ys)"
    using Nil(4) by (simp add: nth_append list_update_append)
  then show ?case using Nil m by (simp add: nth_append)
next
  case (Cons b bs)
  then obtain m where m: "k = Suc m" by (cases k) auto
  have "hide_loop m (Suc i) ((as @ [b]) @ bs @ z # 0 # ys) = Inr ((as @ [b]) @ bs @ 0 # z # ys)"
    using Cons.prems m by (intro Cons.IH) auto
  then show ?case using Cons.prems m by (simp add: nth_append)
qed

lemma check_loop_run:
  assumes "\<forall>b \<in> set bs. b \<noteq> 0" and "z \<noteq> 0" and "i = length as" and "k = length bs + 2"
  shows "check_loop k i False (as @ bs @ 0 # z # ys) (as @ bs @ z # 0 # zs) = Inr True"
  using assms
proof (induction bs arbitrary: as i k)
  case Nil
  then show ?case by (simp add: nth_append list_update_append numeral_2_eq_2)
next
  case (Cons b bs)
  have "check_loop (length bs + 2) (Suc i) False ((as @ [b]) @ bs @ 0 # z # ys) ((as @ [b]) @ bs @ z # 0 # zs) = Inr True"
    using Cons.prems by (intro Cons.IH) auto
  then show ?case using Cons.prems by (simp add: nth_append)
qed

lemma slabs_dump_sizes_run:
  assumes "slabclass s = classes_of page (szs @ [z])" and "power_largest s = 2 + length szs" and "length szs \<le> 60"
  shows "slabs_dump_sizes 64 s = Inr (Some (szs @ [z, 0]), s)"
proof -
  have "chunk_sz (classes_of page (szs @ [z]) ! (2 + m)) = (szs @ [z]) ! m" if "m < length (szs @ [z])" for m
    using classes_of_nth[OF that, of page] by (simp add: sized_def)
  then have "map (\<lambda>i. chunk_sz (slabclass s ! (2 + i))) [0..<length (szs @ [z])] = szs @ [z]"
    unfolding assms(1) by (intro nth_equalityI) (simp_all del: upt_Suc)
  then show ?thesis using assms by (simp add: slabs_dump_sizes_def POWER_SMALLEST_def length_classes_of Let_def del: upt_Suc)
qed

text \<open>The sizes of the classes that the start sets up can be used for another start.\<close>

lemma dumped_sizes_ok:
  assumes inv: "slab_inv fl used s" and cs: "slabclass s = classes_of page (szs @ [z])" "power_largest s = 2 + length szs"
    and al: "\<And>a. a \<in> set szs \<Longrightarrow> a \<noteq> 0 \<and> align_chunk a = a"
  shows "sizes_ok stop scale (Some (szs @ 0 # ys)) (unat (slab_page_size s))"
proof -
  from inv have g: "geometry s" by (simp add: slab_inv_def)
  have "chunk_fits (unat (slab_page_size s)) a" if a: "a \<in> set szs" for a
  proof -
    from a obtain m where m: "m < length szs" "a = szs ! m" by (auto simp: in_set_conv_nth)
    then have "chunk_sz (slabclass s ! (2 + m)) = a"
      using classes_of_nth[of m "szs @ [z]" page] cs(1) by (simp add: nth_append sized_def)
    moreover have "48 \<le> unat (chunk_sz (slabclass s ! (2 + m))) \<and> 1 \<le> unat (perslab (slabclass s ! (2 + m))) \<and>
        unat (chunk_sz (slabclass s ! (2 + m))) * unat (perslab (slabclass s ! (2 + m))) \<le> unat (slab_page_size s)"
      using m(1) cs(2) by (intro geometryD(8)[OF g]) auto
    ultimately have c: "48 \<le> unat a" "1 \<le> unat (perslab (slabclass s ! (2 + m)))"
      "unat a * unat (perslab (slabclass s ! (2 + m))) \<le> unat (slab_page_size s)" by simp_all
    have "unat a * 1 \<le> unat a * unat (perslab (slabclass s ! (2 + m)))" using c(2) by (rule mult_le_mono2)
    then have "unat a \<le> unat (slab_page_size s)" using c(3) by linarith
    then show ?thesis using al[OF a] c(1) by (simp add: chunk_fits_def)
  qed
  moreover have "takeWhile (\<lambda>x. x \<noteq> 0) (szs @ 0 # ys) = szs" using al by (simp add: takeWhile_append2)
  ultimately show ?thesis by (simp add: sizes_ok_def)
qed

text \<open>C13: chunk sizes survive a restart. The sizes that \<^verbatim>\<open>slabs_dump_sizes\<close> reports after a start, put into the array of
  \<^verbatim>\<open>main\<close> with anything behind them, give after the last one is hidden a second start with the same pages and limits that sets
  up exactly the same classes, whatever its growth factor; its dump is the same, and the comparison that guards the recovery
  of the slab pool passes.\<close>

theorem slab_sizes_restart:
  assumes "before_init s0" and "sizes_ok stop scale sizes (unat (slab_page_size s0))"
    and "sizes = None \<Longrightarrow> 48 \<le> unat (of_nat sizeof_item + chunk_size :: 32 word)"
    and "before_init r0" and "slab_page_size r0 = slab_page_size s0" and "slab_chunk_size_max r0 = slab_chunk_size_max s0"
  shows "\<exists>s1 ds xs r1. slabs_init limit stop scale False sizes chunk_size initial s0 = Inr ((), s1) \<and>
    slabs_dump_sizes 64 s1 = Inr (Some ds, s1) \<and> hide_last (ds @ rest) = Inr xs \<and>
    slabs_init limit' stop' scale' False (Some xs) chunk_size' initial' r0 = Inr ((), r1) \<and>
    slabclass r1 = slabclass s1 \<and> power_largest r1 = power_largest s1 \<and>
    slabs_dump_sizes 64 r1 = Inr (Some ds, r1) \<and> check_sizes (length ds - 1) xs ds = Inr True"
proof -
  obtain s1 where s1: "slabs_init limit stop scale False sizes chunk_size initial s0 = Inr ((), s1)" "slab_inv (\<lambda>_. []) (\<lambda>_. {}) s1"
    using slabs_init_ok[OF assms(1,2)] assms(3) by blast
  obtain szs where szs: "slabclass s1 = classes_of (slab_page_size s0) (szs @ [slab_chunk_size_max s0])" "power_largest s1 = 2 + length szs"
    "length szs \<le> 60" "\<And>a. a \<in> set szs \<Longrightarrow> a \<noteq> 0 \<and> align_chunk a = a" "slab_chunk_size_max s0 \<noteq> 0"
    and pg: "slab_page_size s1 = slab_page_size s0"
    by (rule slabs_init_classes[OF s1(1)]) blast
  let ?z = "slab_chunk_size_max s0"
  let ?xs = "szs @ 0 # ?z # rest"
  have dump: "slabs_dump_sizes 64 s1 = Inr (Some (szs @ [?z, 0]), s1)" by (rule slabs_dump_sizes_run[OF szs(1-3)])
  have hide: "hide_last ((szs @ [?z, 0]) @ rest) = Inr ?xs"
    using hide_loop_run[of szs ?z 64 0 "[]" rest] szs(3-5) by (simp add: hide_last_def MAX_NUMBER_OF_SLAB_CLASSES_def)
  have "sizes_ok stop' scale' (Some ?xs) (unat (slab_page_size r0))"
    unfolding assms(5) pg[symmetric] by (rule dumped_sizes_ok[OF s1(2) szs(1,2,4)])
  then obtain r1 where r1: "slabs_init limit' stop' scale' False (Some ?xs) chunk_size' initial' r0 = Inr ((), r1)"
    using slabs_init_ok[OF assms(4)] by blast
  obtain ws where ws: "slabclass r1 = classes_of (slab_page_size s0) (ws @ [?z])" "power_largest r1 = 2 + length ws"
    "\<And>ys. Some ?xs = Some ys \<Longrightarrow> ws = map align_chunk (takeWhile (\<lambda>x. x \<noteq> 0) (take 60 ys))"
    by (rule slabs_init_classes[OF r1, unfolded assms(5,6)]) blast
  have "takeWhile (\<lambda>x. x \<noteq> 0) (take 60 ?xs) = szs" using szs(3,4) by (cases "60 - length szs") (auto simp: takeWhile_append2)
  then have "ws = szs" using ws(3)[OF refl] szs(4) by (simp add: map_idI)
  then have r: "slabclass r1 = slabclass s1" "power_largest r1 = power_largest s1" using ws szs by simp_all
  have "slabs_dump_sizes 64 r1 = Inr (Some (szs @ [?z, 0]), r1)" using szs(1-3) r by (intro slabs_dump_sizes_run) auto
  moreover have "check_sizes (length (szs @ [?z, 0]) - 1) ?xs (szs @ [?z, 0]) = Inr True"
    using check_loop_run[of szs ?z 0 "[]" _ rest "[]"] szs(4,5) by (simp add: check_sizes_def)
  ultimately show ?thesis using s1(1) dump hide r1 r by blast
qed

theorem slab_sizes_restart_witness:
  "\<exists>s1 ds xs r1. slabs_init 65536 (\<lambda>sz. 512 \<le> sz) (\<lambda>sz. 2 * sz) False None 48 None (slabs_boot 4) = Inr ((), s1) \<and>
    slabs_dump_sizes 64 s1 = Inr (Some ds, s1) \<and> hide_last (ds @ [7]) = Inr xs \<and>
    slabs_init 65536 (\<lambda>sz. True) (\<lambda>sz. sz) False (Some xs) 0 None (slabs_boot 4) = Inr ((), r1) \<and>
    slabclass r1 = slabclass s1 \<and> power_largest r1 = power_largest s1 \<and>
    slabs_dump_sizes 64 r1 = Inr (Some ds, r1) \<and> check_sizes (length ds - 1) xs ds = Inr True"
proof -
  have p: "unat (slab_page_size (slabs_boot 4)) = 1024" by (simp add: slabs_boot_def)
  show ?thesis
    by (rule slab_sizes_restart[OF slabs_boot_ok _ _ slabs_boot_ok]) (use doubling_ok in \<open>simp_all add: p sizeof_item_def\<close>)
qed

section \<open>The class of an item\<close>

lemma clsid_loop_run:
  assumes "res \<le> largest" and "largest < length cs" and "\<And>i. 2 \<le> i \<Longrightarrow> i < res \<Longrightarrow> ucast (chunk_sz (cs ! i)) < sz"
  shows "\<exists>r. clsid_loop cs largest sz res = Inr r \<and> res \<le> r \<and> r \<le> largest \<and> (\<forall>i. 2 \<le> i \<and> i < r \<longrightarrow> ucast (chunk_sz (cs ! i)) < sz) \<and>
    (sz \<le> ucast (chunk_sz (cs ! r)) \<or> r = largest)"
  using assms
proof (induction cs largest sz res rule: clsid_loop.induct)
  case (1 cs largest sz res)
  have l: "\<not> length cs \<le> res" using "1.prems" by simp
  consider (fits) "\<not> ucast (chunk_sz (cs ! res)) < sz" | (last) "ucast (chunk_sz (cs ! res)) < sz" "res = largest"
    | (more) "ucast (chunk_sz (cs ! res)) < sz" "res \<noteq> largest" by blast
  then show ?case
  proof cases
    case more
    have le: "Suc res \<le> largest" using "1.prems"(1) more(2) by simp
    have small: "ucast (chunk_sz (cs ! i)) < sz" if "2 \<le> i" "i < Suc res" for i
      using "1.prems"(3)[OF that(1)] that(2) more(1) by (cases "i = res") auto
    obtain r where "clsid_loop cs largest sz (Suc res) = Inr r" "Suc res \<le> r" "r \<le> largest"
      "\<forall>i. 2 \<le> i \<and> i < r \<longrightarrow> ucast (chunk_sz (cs ! i)) < sz" "sz \<le> ucast (chunk_sz (cs ! r)) \<or> r = largest"
      using "1.IH"[OF l more le "1.prems"(2)] small by blast
    then show ?thesis using l more by (subst clsid_loop.simps) auto
  qed (use l "1.prems" in \<open>subst clsid_loop.simps, auto simp: not_less\<close>)+
qed

text \<open>C14: \<^verbatim>\<open>slabs_clsid\<close> returns for every size from 1 to the item limit: the first class whose chunks are large enough, and the
  largest class when no chunk is.\<close>

theorem slabs_clsid_least:
  assumes "2 \<le> power_largest s" and "power_largest s < length (slabclass s)" and "sz \<noteq> 0" and "sz \<le> scast (item_size_max s)"
  shows "\<exists>r. slabs_clsid sz s = Inr (r, s) \<and> 2 \<le> r \<and> r \<le> power_largest s \<and>
    (\<forall>i. 2 \<le> i \<and> i < r \<longrightarrow> ucast (chunk_sz (slabclass s ! i)) < sz) \<and> (sz \<le> ucast (chunk_sz (slabclass s ! r)) \<or> r = power_largest s)"
proof -
  obtain r where "clsid_loop (slabclass s) (power_largest s) sz 2 = Inr r" "2 \<le> r" "r \<le> power_largest s"
    "\<forall>i. 2 \<le> i \<and> i < r \<longrightarrow> ucast (chunk_sz (slabclass s ! i)) < sz" "sz \<le> ucast (chunk_sz (slabclass s ! r)) \<or> r = power_largest s"
    using clsid_loop_run[of 2 "power_largest s" "slabclass s" sz] assms(1,2) by force
  then show ?thesis using assms(3,4) by (auto simp: slabs_clsid_def POWER_SMALLEST_def not_less)
qed

theorem slabs_clsid_least_witness:
  "\<exists>r. slabs_clsid 100 ((slabs_boot 1)\<lparr>slabclass := classes_of 1024 [96, 192, 1024], power_largest := 4\<rparr>)
      = Inr (r, (slabs_boot 1)\<lparr>slabclass := classes_of 1024 [96, 192, 1024], power_largest := 4\<rparr>) \<and> 2 \<le> r \<and> r \<le> 4"
  using slabs_clsid_least[of "(slabs_boot 1)\<lparr>slabclass := classes_of 1024 [96, 192, 1024], power_largest := 4\<rparr>" 100]
  by (simp add: slabs_boot_def length_classes_of word_le_nat_alt) blast

end
