(* ===== verification/SlabsChunked.thy ===== *)
theory SlabsChunked
  imports SlabsSizes
begin

text \<open>
  Returning a chunked item. Its header and its chunks go to the free lists of their classes. In a build with
  \<^verbatim>\<open>PSLAB\<close> the flags \<^verbatim>\<open>ITEM_CHUNK\<close> and \<^verbatim>\<open>ITEM_PSLAB\<close> have the same value, and the loop
  over the chunks writes the flags of the header in place of those of the chunk.
\<close>

section \<open>Linking a chunk\<close>

text \<open>What linking does to a chunk of the list or outside of it: at most its links change.\<close>

lemma link_free_effect:
  assumes "cid < length (slabclass s)" and "it \<noteq> NULL" and "cells s it = Some n"
    and "slots (slabclass s ! cid) \<noteq> it" and "slots (slabclass s ! cid) \<noteq> NULL \<Longrightarrow> slots (slabclass s ! cid) \<in> dom (cells s)"
  obtains s' where "link_free cid it s = Inr ((), s')" "cells s' it = Some (n\<lparr>i_prev := NULL, i_next := slots (slabclass s ! cid)\<rparr>)"
    "slots (slabclass s' ! cid) = it" "length (slabclass s') = length (slabclass s)" "dom (cells s') = dom (cells s)"
    "\<And>k. k \<noteq> cid \<Longrightarrow> slabclass s' ! k = slabclass s ! k"
    "\<And>a m. cells s a = Some m \<Longrightarrow> a \<noteq> it \<Longrightarrow> \<exists>v. cells s' a = Some (if a = slots (slabclass s ! cid) then m\<lparr>i_prev := v\<rparr> else m)"
    "fresh s' = fresh s" "use_cas s' = use_cas s"
proof -
  let ?h = "set_prev (slots (slabclass s ! cid)) it ((cells s)(it \<mapsto> n\<lparr>i_prev := NULL, i_next := slots (slabclass s ! cid)\<rparr>))"
  let ?s = "s\<lparr>cells := ?h, slabclass := (slabclass s)[cid := (slabclass s ! cid)\<lparr>slots := it, sl_curr := sl_curr (slabclass s ! cid) + 1\<rparr>]\<rparr>"
  have run: "link_free cid it s = Inr ((), ?s)" by (rule link_free_run[OF assms])
  have "\<exists>v. ?h a = Some (if a = slots (slabclass s ! cid) then m\<lparr>i_prev := v\<rparr> else m)" if "cells s a = Some m" "a \<noteq> it" for a m
  proof (cases "a = slots (slabclass s ! cid)")
    case True
    with that show ?thesis by (auto simp: set_prev_def intro: exI[of _ "i_prev m"])
  qed (use that in simp)
  then show ?thesis using run assms by (intro that[of ?s]) (auto simp del: fun_upd_apply simp: fun_upd_same)
qed

section \<open>Chunks that are not marked as free\<close>

lemma free_chunks_one:
  assumes it: "it \<noteq> NULL" "cells t it = Some n" and ch: "ch \<noteq> NULL" "ch \<noteq> it" "cells t ch = Some m" "it_flags m = ITEM_CHUNK" "i_next m = NULL"
    and j: "unat (it_clsid m) < length (slabclass t)"
    and sl: "slots (slabclass t ! unat (it_clsid m)) \<noteq> ch" "slots (slabclass t ! unat (it_clsid m)) \<noteq> NULL \<Longrightarrow> slots (slabclass t ! unat (it_clsid m)) \<in> dom (cells t)"
  obtains s' m' n' where "free_chunks (Suc (Suc k)) it ch t = Inr ((), s')" "slots (slabclass s' ! unat (it_clsid m)) = ch"
    "cells s' ch = Some m'" "it_flags m' = ITEM_CHUNK" "cells s' it = Some n'" "it_flags n' = ITEM_SLABBED OR ITEM_PSLAB"
proof -
  let ?j = "unat (it_clsid m)"
  define n2 where "n2 = n\<lparr>it_flags := ITEM_SLABBED OR ITEM_PSLAB\<rparr>"
  define t3 where "t3 = t\<lparr>cells := (cells t)(it \<mapsto> n2, ch \<mapsto> m\<lparr>it_clsid := 0\<rparr>)\<rparr>"
  have t3: "cells t3 it = Some n2" "cells t3 ch = Some (m\<lparr>it_clsid := 0\<rparr>)" "slabclass t3 = slabclass t" "dom (cells t3) = dom (cells t)"
    using ch(2,3) it(2) by (auto simp: t3_def)
  obtain t4 where t4: "link_free ?j ch t3 = Inr ((), t4)" "cells t4 ch = Some (m\<lparr>it_clsid := 0, i_prev := NULL, i_next := slots (slabclass t3 ! ?j)\<rparr>)"
    "slots (slabclass t4 ! ?j) = ch" "length (slabclass t4) = length (slabclass t3)"
    "\<And>a m. cells t3 a = Some m \<Longrightarrow> a \<noteq> ch \<Longrightarrow> \<exists>v. cells t4 a = Some (if a = slots (slabclass t3 ! ?j) then m\<lparr>i_prev := v\<rparr> else m)"
    by (rule link_free_effect[of ?j t3 ch "m\<lparr>it_clsid := 0\<rparr>"]) (use j t3 ch(1) sl in auto)
  have fl: "it_flags m AND ITEM_PSLAB \<noteq> 0" using ch(4) by (simp add: ITEM_CHUNK_def ITEM_PSLAB_def)
  let ?s = "t4\<lparr>slabclass := (slabclass t4)[?j := (slabclass t4 ! ?j)\<lparr>requested := requested (slabclass t4 ! ?j) - (scast (ch_size m) + of_nat sizeof_chunk)\<rparr>]\<rparr>"
  have "t\<lparr>cells := (cells t)(it \<mapsto> n2, ch \<mapsto> m\<lparr>it_clsid := 0\<rparr>)\<rparr> = t3" by (simp add: t3_def)
  then have run: "free_chunks (Suc (Suc k)) it ch t = Inr ((), ?s)"
    using it ch fl t4(1,4) t3(3) j by (simp add: exec_simps n2_def)
  obtain v where "cells ?s it = Some (if it = slots (slabclass t3 ! ?j) then n2\<lparr>i_prev := v\<rparr> else n2)" using t4(5)[OF t3(1)] ch(2) by auto
  then obtain n' where n': "cells ?s it = Some n'" "it_flags n' = ITEM_SLABBED OR ITEM_PSLAB" by (auto simp: n2_def split: if_splits)
  have c: "cells ?s ch = Some (m\<lparr>it_clsid := 0, i_prev := NULL, i_next := slots (slabclass t3 ! ?j)\<rparr>)" using t4(2) by simp
  have "slots (slabclass ?s ! ?j) = ch" using t4(3,4) t3(3) j by simp
  then show ?thesis by (rule that[OF run _ c _ n']) (use ch(4) in simp)
qed

text \<open>C15: returning a chunked item leaves its chunk unmarked. For an item with one further chunk, which has the flag
  \<^verbatim>\<open>ITEM_CHUNK\<close> as the code asserts, \<^verbatim>\<open>do_slabs_free_chunked\<close> puts the chunk in front of the free list of its
  class, but its flags stay \<^verbatim>\<open>ITEM_CHUNK\<close>, without \<^verbatim>\<open>ITEM_SLABBED\<close>; the header of the item, wherever
  it is, gets \<^verbatim>\<open>ITEM_PSLAB\<close> instead.\<close>

theorem free_chunked_unmarked:
  assumes it: "it \<noteq> NULL" "cells s it = Some n" "data_next n = ch" and ch: "ch \<noteq> NULL" "ch \<noteq> it" "cells s ch = Some m" "it_flags m = ITEM_CHUNK" "i_next m = NULL"
    and cid: "unat (data_orig n) < length (slabclass s)" "unat (it_clsid m) < length (slabclass s)"
    and slots: "\<And>k. k < length (slabclass s) \<Longrightarrow> slots (slabclass s ! k) \<notin> {it, ch} \<and> (slots (slabclass s ! k) \<noteq> NULL \<longrightarrow> slots (slabclass s ! k) \<in> dom (cells s))"
    and fuel: "0 < fresh s"
  shows "\<exists>s' m' n'. do_slabs_free_chunked it s = Inr ((), s') \<and> slots (slabclass s' ! unat (it_clsid m)) = ch \<and>
    cells s' ch = Some m' \<and> it_flags m' = ITEM_CHUNK \<and> it_flags m' AND ITEM_SLABBED = 0 \<and>
    cells s' it = Some n' \<and> it_flags n' = ITEM_SLABBED OR ITEM_PSLAB"
proof -
  let ?i = "unat (data_orig n)" and ?j = "unat (it_clsid m)"
  define n1 where "n1 = n\<lparr>it_flags := (if it_flags n AND ITEM_PSLAB \<noteq> 0 then ITEM_SLABBED OR ITEM_PSLAB else ITEM_SLABBED), it_clsid := 0, i_prev := NULL\<rparr>"
  define m1 where "m1 = m\<lparr>i_prev := NULL\<rparr>"
  define t0 where "t0 = s\<lparr>cells := (cells s)(it \<mapsto> n1, ch \<mapsto> m1)\<rparr>"
  have t0: "cells t0 it = Some n1" "cells t0 ch = Some m1" "slabclass t0 = slabclass s" "fresh t0 = fresh s" "dom (cells t0) = dom (cells s)"
    using it ch by (auto simp: t0_def)
  obtain t1 where t1: "link_free ?i it t0 = Inr ((), t1)" "cells t1 it = Some (n1\<lparr>i_prev := NULL, i_next := slots (slabclass t0 ! ?i)\<rparr>)"
    "slots (slabclass t1 ! ?i) = it" "length (slabclass t1) = length (slabclass t0)" "dom (cells t1) = dom (cells t0)"
    "\<And>k. k \<noteq> ?i \<Longrightarrow> slabclass t1 ! k = slabclass t0 ! k"
    "\<And>a m. cells t0 a = Some m \<Longrightarrow> a \<noteq> it \<Longrightarrow> \<exists>v. cells t1 a = Some (if a = slots (slabclass t0 ! ?i) then m\<lparr>i_prev := v\<rparr> else m)"
    "fresh t1 = fresh t0"
    by (rule link_free_effect[of ?i t0 it n1]) (use cid slots[of ?i] it(1) t0 in auto)
  have c1: "cells t1 ch = Some m1" using t1(7)[OF t0(2) ch(2)] slots[OF cid(1)] t0(3) by auto
  let ?req = "\<lambda>c. c\<lparr>requested := requested c - (ucast (nkey n) + 1 + ucast (nsuffix n) + of_nat sizeof_item + of_nat sizeof_chunk) - (if use_cas t1 then 8 else 0)\<rparr>"
  define t2 where "t2 = t1\<lparr>slabclass := (slabclass t1)[?i := ?req (slabclass t1 ! ?i)]\<rparr>"
  obtain k where k: "fresh s = Suc k" using fuel by (cases "fresh s") auto
  have c2: "cells t2 it = Some (n1\<lparr>i_prev := NULL, i_next := slots (slabclass t0 ! ?i)\<rparr>)" "cells t2 ch = Some m1" "fresh t2 = Suc k"
    using t1(2,8) c1 t0(4) k by (simp_all add: t2_def)
  have sl: "slots (slabclass t2 ! ?j) \<noteq> ch \<and> (slots (slabclass t2 ! ?j) \<noteq> NULL \<longrightarrow> slots (slabclass t2 ! ?j) \<in> dom (cells t2))"
    using t1(3-6) cid slots[OF cid(2)] t0(3,5) ch(2) it(2) by (cases "?j = ?i") (auto simp: t2_def)
  have m1: "it_clsid m1 = it_clsid m" "it_flags m1 = ITEM_CHUNK" "i_next m1 = NULL" using ch(4,5) by (simp_all add: m1_def)
  obtain s' m' n' where s': "free_chunks (Suc (Suc k)) it ch t2 = Inr ((), s')" "slots (slabclass s' ! ?j) = ch"
    "cells s' ch = Some m'" "it_flags m' = ITEM_CHUNK" "cells s' it = Some n'" "it_flags n' = ITEM_SLABBED OR ITEM_PSLAB"
    by (rule free_chunks_one[OF it(1) c2(1) ch(1,2) c2(2) m1(2,3), unfolded m1(1)])
      (use sl cid t1(4) t0(3) in \<open>auto simp: t2_def\<close>)
  have "do_slabs_free_chunked it s = Inr ((), s')"
    unfolding do_slabs_free_chunked_def using it ch(1-3) t1(1,4) t0(3) cid(1) s'(1) c2(3)
    by (simp add: exec_simps t0_def[symmetric] n1_def[symmetric] m1_def[symmetric] t2_def[symmetric] del: free_chunks.simps)
  then show ?thesis using s' by (auto simp: ITEM_CHUNK_def ITEM_SLABBED_def)
qed

text \<open>An item at 10 whose chunk is at 20.\<close>

definition chunked_state :: slabs_state where
  "chunked_state = (slabs_boot 1)\<lparr>slabclass := classes_of 1024 [96, 1024], power_largest := 3, fresh := 30,
     cells := [10 \<mapsto> zero_item\<lparr>it_flags := ITEM_CHUNKED, data_next := 20, data_orig := 2\<rparr>, 20 \<mapsto> zero_item\<lparr>it_flags := ITEM_CHUNK, it_clsid := 3\<rparr>]\<rparr>"

theorem free_chunked_unmarked_witness:
  "\<exists>s' m' n'. do_slabs_free_chunked 10 chunked_state = Inr ((), s') \<and> slots (slabclass s' ! 3) = 20 \<and>
    cells s' 20 = Some m' \<and> it_flags m' = ITEM_CHUNK \<and> it_flags m' AND ITEM_SLABBED = 0 \<and>
    cells s' 10 = Some n' \<and> it_flags n' = ITEM_SLABBED OR ITEM_PSLAB"
proof -
  have len: "length (slabclass chunked_state) = 64" by (simp add: chunked_state_def length_classes_of)
  have "slots (slabclass chunked_state ! k) = NULL" if "k < 64" for k
    using that by (simp add: chunked_state_def classes_of_def sized_def zero_class_def nth_append nth_Cons')
  then show ?thesis
    using free_chunked_unmarked[of 10 chunked_state "zero_item\<lparr>it_flags := ITEM_CHUNKED, data_next := 20, data_orig := 2\<rparr>" 20
        "zero_item\<lparr>it_flags := ITEM_CHUNK, it_clsid := 3\<rparr>"] len
    by (simp add: chunked_state_def slabs_boot_def zero_item_def)
qed

end
