(* ===== verification/Spec2Isabelle.thy ===== *)
theory Spec2Isabelle
  imports Stack SList Queue Deque IntSet HashTbl PrioQueue MinHeap DynArray Graph Motivating ClhtOps CcehProps
    Itoa Crawler AssocOps PslabProps SlabsChunked
begin

text \<open>
  A verification of PMBugRepair, the repository of a tool that repairs persistent-memory bugs of
  concurrent programs. Its C and C++ code has these parts that the development models.

  \<^bold>\<open>The benchmark programs\<close> (\<^verbatim>\<open>src/ThreadTrove\<close>): sixteen small libraries of
  lock-based data structures, each with a program of two or more POSIX threads. They allocate their
  nodes through the tracing runtime and are its inputs.

  \<^bold>\<open>The tracing runtime\<close> (\<^verbatim>\<open>src/Transform/PM\<close>): the functions that instrumented programs call.
  It registers persistent regions, records static dependences and writes the trace from which
  bugs are found.

  \<^bold>\<open>The real programs\<close> the tool is evaluated on (\<^verbatim>\<open>src/experiments\<close>): the persistent hash
  tables \<^verbatim>\<open>P-CLHT\<close> and \<^verbatim>\<open>CCEH\<close>, and modules of the key-value server
  \<^verbatim>\<open>memcached\<close>.

  \<^bold>\<open>Shared theories.\<close> \<open>Prelude\<close> has the machine under the programs: faults as values
  (null and invalid accesses, bad releases, index and signed overflow, mutex misuse, divergence), the
  state-and-fault monad \<open>exec\<close>, memory cells, mutexes, the stream of \<^verbatim>\<open>printf\<close> calls and
  checked \<^verbatim>\<open>int\<close> arithmetic. Every component extends the record \<open>world\<close> with its own
  variables. \<open>Threads\<close> has threads as trees of atomic actions, one per critical section or
  unprotected access, and all their interleavings (\<open>par\<close>; \<open>par_sound\<close> and
  \<open>par_complete\<close> relate schedules to a step relation), with the proof rule \<open>tok\<close> that
  gives each thread a share of a ghost value. \<open>Chains\<close> has linked lists in memory and the list
  loops the libraries share. \<open>Bags\<close> has the interfaces as locales (a collection shared by
  threads, priority queues, tokens for pending insertions and removals) whose lemmas are proved once and
  interpreted on the operations of the components. \<open>Arrays\<close> has blocks of
  \<^verbatim>\<open>int\<close>. \<open>KvTable\<close> has the contract of a hash table towards a driver that
  stores a batch of keys and looks them up again, interpreted on both persistent tables, and
  \<open>ByteQueue\<close> that of a byte queue between a producer and a consumer.

  \<^bold>\<open>ThreadTrove.\<close> Each theory models every function of the header, the thread functions and
  \<^verbatim>\<open>main\<close> under an arbitrary schedule: \<open>Stack\<close> (\<^verbatim>\<open>stack\<close>, \<^verbatim>\<open>stack_1\<close>),
  \<open>SList\<close> (\<^verbatim>\<open>list\<close>, \<^verbatim>\<open>list_1\<close>), \<open>Queue\<close> (\<^verbatim>\<open>queue\<close>,
  \<^verbatim>\<open>queue_1\<close>, \<^verbatim>\<open>queue_2\<close>), \<open>Deque\<close> (\<^verbatim>\<open>dqueue\<close>,
  \<^verbatim>\<open>doublyList\<close>), \<open>IntSet\<close> (\<^verbatim>\<open>set\<close>), \<open>HashTbl\<close>
  (\<^verbatim>\<open>hash\<close>), \<open>PrioQueue\<close> (\<^verbatim>\<open>priorityQueue\<close>), \<open>MinHeap\<close>
  (\<^verbatim>\<open>heap\<close>), \<open>DynArray\<close> (\<^verbatim>\<open>array\<close>), \<open>Graph\<close>
  (\<^verbatim>\<open>graph\<close>) and \<open>Motivating\<close> (\<^verbatim>\<open>motivatingExample\<close>). The theorems
  \<open>..._main_ok\<close> show that under every interleaving the program ends without fault or deadlock,
  what it prints or leaves in the structure, and what memory it releases; the others show the
  sequential contract of the operations (last-in first-out, first-in first-out, sets, stacks of values per key,
  sorted extraction, dynamic arrays, edges), the races the programs contain
  (\<open>queue_dequeue_race\<close>, \<open>heap_extract_race\<close>) and the calls that deadlock with
  themselves (\<open>hash_merge_deadlocks\<close>, \<open>array_merge_deadlocks\<close>). Loops over linked
  structures run at most \<open>Suc (fresh s)\<close> times, more than there are allocated cells: a walk that needs
  more revisits a node and never ends. The theorems prove that the loops return.

  \<^bold>\<open>Tracing runtime.\<close> \<open>PMRuntime\<close> models every function of \<^verbatim>\<open>pm.cpp\<close> with its
  tables, its mutex and the text it writes, down to the truncation at 1023 characters. Any sequence
  of calls refines an abstract table of regions and a dependence relation (\<open>rt_run_refines\<close>);
  an access is traced exactly when it lies in a registered region (\<open>rt_access_traced\<close>);
  \<open>calloc_second_block_untraced\<close> exhibits a hole in the registration. \<open>Motivating\<close>
  runs the motivating example on this runtime: the value that is made durable was read from a location that is
  not (\<open>motivating_main_ok\<close>).

  \<^bold>\<open>P-CLHT.\<close> \<open>ClhtModel\<close> has the table of \<^verbatim>\<open>clht_lb_res.c\<close> as one thread executes
  it, \<open>ClhtBits\<close> the bit manipulations, \<open>ClhtTable\<close> chains and tables as finite maps,
  \<open>Clht\<close> the updates of one bucket, \<open>ClhtResize\<close> resizing and \<open>ClhtOps\<close>
  the properties: insertion (through free slots, chain growth and resizing), removal and lookup refine
  a finite map; every memory image between the persistent stores of an operation is the map before or after it
  (\<open>crash_safe\<close>); \<^verbatim>\<open>ht_status\<close> recurses at most once, so fuel 1 is enough, and faults on
  exactly one shape of table. The hypotheses bound the table by \<open>2 ^ 31\<close> buckets and entries, where
  the \<^verbatim>\<open>int\<close> variables of the code would overflow.

  \<^bold>\<open>CCEH.\<close> \<open>CcehHash\<close> has the hash functions of \<^verbatim>\<open>hash.h\<close> (the one of the C++
  library is a parameter), \<open>CcehModel\<close> the table of \<^verbatim>\<open>CCEH.h\<close> and
  \<^verbatim>\<open>CCEH.cpp\<close> in the in-place build: a directory of \<open>2 ^ depth\<close> entries over segments of
  1024 slots, allocated in a pool of bounded size. \<open>Cceh\<close>, \<open>CcehTable\<close>,
  \<open>CcehOps\<close> and \<open>CcehLife\<close> prove its operations: \<open>cceh_ok\<close> is the
  invariant of the directory and the placement of keys, \<open>cceh_map\<close> the finite map the table stands
  for. \<open>CcehProps\<close> has the properties: insertion through probing, splitting and directory
  doubling (at most 32 passes through the retry loop, since each pass deepens the segment of the key and the
  directory is bounded by \<open>2 ^ 30\<close> entries), lookup, recovery after a crash in a split, the
  statistics, and the driver. \<open>CcehLock\<close> runs any number of threads at the semaphore of a segment or
  directory, one atomic access per step: suspension is exclusive and never stuck.

  \<^bold>\<open>memcached.\<close> \<open>Itoa\<close> has the decimal conversions of \<^verbatim>\<open>itoa_ljust.c\<close>,
  equivalent to the numeral of their argument. \<open>BipBuffer\<close> has the two-region byte buffer of
  \<^verbatim>\<open>bipbuffer.c\<close>, a byte queue under every schedule of its two sides. \<open>Crawler\<close>
  has the output of the LRU crawler (\<^verbatim>\<open>crawler.c\<close>) over this buffer, with the answers of the
  socket as a list: what is sent is the text of the dump, the waiting loops end when the client
  accepts bytes (one poll per byte is enough), and the finalizer has a null pointer. \<open>Assoc\<close> and
  \<open>AssocOps\<close> have the hash table of \<^verbatim>\<open>assoc.c\<close> whose maintenance thread moves the buckets
  to a larger table while the workers go on: every interleaving of their critical sections refines a
  finite map, expansions end, and one interleaving loses the wake-up of the thread.

  \<^bold>\<open>memcached slab pool.\<close> \<open>Pmem\<close> has bytes of a mapped file as a program sees them and the calls of
  libpmem as events; \<open>survivors\<close> are the files a crash can leave, where any subset of the stores that are
  not yet made durable has reached the file. \<open>PslabPool\<close> has the header of the slab pool of
  \<^verbatim>\<open>pslab.c\<close> with its offsets, checksums and the two copies of the flush time, its creation and its
  opening; \<^verbatim>\<open>pmem_map_file\<close> is a parameter. \<open>PslabCrash\<close> and \<open>PslabCreate\<close>
  follow the crash images through the operations, \<open>PslabProps\<close> has the properties: a flush is atomic, a
  created pool can be opened again after any crash, and a pool whose creation stopped before the commit is accepted when a byte sum is 0.

  \<^bold>\<open>memcached slab allocator.\<close> \<open>Slabs\<close> has \<^verbatim>\<open>slabs.c\<close>: size classes, pages from the
  heap, from a preallocated block and from the slab pool, free lists through the headers of the chunks,
  allocation, release, limits and the start. \<open>SlabsLists\<close> has the doubly linked free lists as HOL lists and the
  operations on them, \<open>SlabsInv\<close> the invariant (pages, page pools and the rest of the block are disjoint
  regions; the chunks of a class are its free list and those in use), \<open>SlabsOps\<close>,
  \<open>SlabsPages\<close> and \<open>SlabsAlloc\<close> that the operations keep it, \<open>SlabsInit\<close> that the start
  establishes it for any growth factor or list of sizes whose chunks fit on a page. \<open>SlabsProps\<close> has the clients:
  over any sequence of calls no chunk is given out twice and held chunks do not overlap. \<open>SlabsSizes\<close> has the
  class of an item and the round trip of the chunk sizes through the pool header at a restart, \<open>SlabsChunked\<close> the
  chunks of large items, which are returned without the mark of a free chunk. Memory is bounded by \<open>2 ^ 36\<close> bytes
  (\<open>memory_ok\<close>), where the 32-bit counters of chunks cannot wrap around. The two computations of
  \<^verbatim>\<open>slabs_init\<close> in floating point are parameters. The loops over chained chunks run at most \<open>Suc (fresh s)\<close>
  times, and the loops that prefill the page pools once per page that memory can hold.

  \<^bold>\<open>Assumptions.\<close> Execution is sequentially consistent at the granularity of the actions of
  \<open>Threads\<close>. \<^verbatim>\<open>malloc\<close> returns fresh memory with unspecified contents or
  \<^verbatim>\<open>NULL\<close>; results of \<^verbatim>\<open>rand\<close>, \<^verbatim>\<open>pthread_self\<close> and of the PMDK library are
  arguments. The crash images of P-CLHT assume that stores become durable in the order in which the code
  fences them.

  \<^bold>\<open>Not modelled.\<close> The LLVM pass \<^verbatim>\<open>PMTraceGen\<close> (all its operations are on LLVM objects), the
  Python repair scripts, concurrent resizing, transactional locks and garbage collection of P-CLHT, the
  copy-on-write and cuckoo builds of CCEH and its multi-threaded operations beyond the semaphores, the connections,
  protocol, LRU lists, page mover and recovery of linked items of memcached, the B+-tree of FAST and FAIR (readers without locks
  against single stores), Clevel hashing (templates over vendored libraries), deprecated examples, build files and recorded results.
\<close>

end
